(* ===== verification/Prelude.thy ===== *)
theory Prelude
  imports Main "HOL-Library.Word" "HOL-Library.Monad_Syntax"
begin

unbundle bit_operations_syntax

section \<open>Shared vocabulary of the models\<close>

text \<open>
  What the component theories share: the machine integers of the C++ code, the status a request
  handler returns to the interconnect, the bit tests the interrupt controllers use, the pair of
  32-bit words read as one 64-bit word, and the circular buffer that several components keep as
  an array with a head, a tail and a count of free entries.
\<close>

type_synonym u8 = "8 word"
type_synonym u32 = "32 word"
type_synonym u64 = "64 word"

text \<open>\<open>vp::IoReqStatus\<close>, as far as the modelled handlers return it.\<close>

datatype io_status = IO_REQ_OK | IO_REQ_INVALID | IO_REQ_DENIED | IO_REQ_PENDING

named_theorems io_defs \<open>definitions of request handlers, unfolded together\<close>
named_theorems frame \<open>what an operation leaves unchanged\<close>

subsection \<open>Bits\<close>

text \<open>\<open>1 << i\<close> on 32 bits.\<close>

definition bit_mask :: "nat \<Rightarrow> u32" where
  "bit_mask i = push_bit i 1"

lemma bit_bit_mask [simp]: "bit (bit_mask i) j \<longleftrightarrow> i = j \<and> j < 32"
  by (auto simp: bit_mask_def bit_simps)

lemma and_bit_mask: "w AND bit_mask i \<noteq> 0 \<longleftrightarrow> i < 32 \<and> bit w i"
proof
  assume "w AND bit_mask i \<noteq> 0"
  then obtain j where "bit (w AND bit_mask i) j" by (metis bit_eq_iff bit_0_eq bot_apply bot_bool_def)
  then show "i < 32 \<and> bit w i" by (auto simp: bit_simps)
next
  assume "i < 32 \<and> bit w i"
  then have "bit (w AND bit_mask i) i" by (simp add: bit_simps)
  then show "w AND bit_mask i \<noteq> 0" by auto
qed

lemma and_bit_mask_0: "w AND bit_mask i = 0 \<longleftrightarrow> \<not> (i < 32 \<and> bit w i)"
  using and_bit_mask [of w i] by blast

lemma bit_clear_bit: "bit ((w :: u32) AND NOT (bit_mask l)) x \<longleftrightarrow> bit w x \<and> x \<noteq> l"
  by (auto simp: bit_and_iff bit_not_iff dest: bit_imp_le_length)

lemma bit_mask_nonzero [simp]: "i < 32 \<Longrightarrow> bit_mask i \<noteq> 0"
  by (metis bit_bit_mask bit_0_eq bot_apply bot_bool_def)

lemma word_nonzero_bit: "(w :: u32) \<noteq> 0 \<longleftrightarrow> (\<exists>i<32. bit w i)"
  by (auto simp: bit_eq_iff bit_imp_le_length [where 'a = 32, simplified])

text \<open>
  \<open>1 << n\<close> for an \<open>int\<close> count that the code does not check. A count outside 0..31 is undefined
  in C++; the model takes its five low bits, as the host's shift instruction does, and the
  theorems that depend on it ask for a count in range.
\<close>

definition shl1 :: "int \<Rightarrow> u32" where
  "shl1 n = bit_mask (nat (n mod 32))"

lemma shl1_bit_mask: "0 \<le> n \<Longrightarrow> n < 32 \<Longrightarrow> shl1 n = bit_mask (nat n)"
  by (simp add: shl1_def)

lemma shl1_of_nat [simp]: "n < 32 \<Longrightarrow> shl1 (int n) = bit_mask n"
  by (simp add: shl1_def)

text \<open>
  The position of the highest bit set, which the code computes as
  \<open>31 - __builtin_clz(w)\<close> for a word that is not zero.
\<close>

fun high_bit_from :: "nat \<Rightarrow> u32 \<Rightarrow> nat" where
  "high_bit_from 0 w = 0"
| "high_bit_from (Suc i) w = (if bit w (Suc i) then Suc i else high_bit_from i w)"

definition highest_bit :: "u32 \<Rightarrow> nat" where
  "highest_bit w = high_bit_from 31 w"

lemma high_bit_from_le: "high_bit_from i w \<le> i"
  by (induction i) auto

lemma high_bit_from_max: "j \<le> i \<Longrightarrow> bit w j \<Longrightarrow> j \<le> high_bit_from i w"
  by (induction i) (auto simp: le_Suc_eq)

lemma bit_high_bit_from: "j \<le> i \<Longrightarrow> bit w j \<Longrightarrow> bit w (high_bit_from i w)"
  by (induction i) (auto simp: le_Suc_eq)

lemma highest_bit_less [simp]: "highest_bit w < 32"
  using high_bit_from_le [of 31 w] by (simp add: highest_bit_def)

lemma bit_highest_bit: "w \<noteq> 0 \<Longrightarrow> bit w (highest_bit w)"
proof -
  assume "w \<noteq> 0"
  then obtain i where "i < 32" and "bit w i" by (auto simp: word_nonzero_bit)
  then show ?thesis unfolding highest_bit_def by (intro bit_high_bit_from [of i]) auto
qed

lemma highest_bit_max: "bit w j \<Longrightarrow> j \<le> highest_bit w"
  using bit_imp_le_length [of w j] by (auto simp: highest_bit_def intro!: high_bit_from_max)

text \<open>
  The interrupt number the controllers derive from a masked status: the highest bit set, or -1
  when there is none.
\<close>

definition irq_of :: "u32 \<Rightarrow> int" where
  "irq_of w = (if w = 0 then - 1 else int (highest_bit w))"

lemma irq_of_none: "irq_of w = - 1 \<longleftrightarrow> w = 0"
  by (simp add: irq_of_def)

lemma irq_of_some: "irq_of w = int i \<Longrightarrow> bit w i \<and> (\<forall>j>i. \<not> bit w j)"
  using bit_highest_bit [of w] highest_bit_max [of w]
  by (auto simp: irq_of_def dest: leD split: if_splits)

subsection \<open>Two 32-bit words as one 64-bit word\<close>

text \<open>
  \<open>*(uint64_t *)a\<close> for an array \<open>a\<close> of two 32-bit words on the little-endian host: the first
  word is the low half.
\<close>

definition u64_of :: "u32 \<Rightarrow> u32 \<Rightarrow> u64" where
  "u64_of lo hi = push_bit 32 (ucast hi) OR ucast lo"

definition u64_lo :: "u64 \<Rightarrow> u32" where
  "u64_lo w = ucast w"

definition u64_hi :: "u64 \<Rightarrow> u32" where
  "u64_hi w = ucast (drop_bit 32 w)"

lemma u64_lo_of [simp]: "u64_lo (u64_of lo hi) = lo"
  by (rule bit_word_eqI) (auto simp: u64_lo_def u64_of_def bit_simps)

lemma u64_hi_of [simp]: "u64_hi (u64_of lo hi) = hi"
  by (rule bit_word_eqI) (auto simp: u64_hi_def u64_of_def bit_simps dest: bit_imp_le_length)

lemma u64_of_lo_hi [simp]: "u64_of (u64_lo w) (u64_hi w) = w"
  by (rule bit_word_eqI) (auto simp: u64_lo_def u64_hi_def u64_of_def bit_simps)

lemma u64_of_eq_iff: "u64_of a b = u64_of c d \<longleftrightarrow> a = c \<and> b = d"
  by (metis u64_hi_of u64_lo_of)

subsection \<open>Truncation from 64 to 32 bits\<close>

lemma unat_u32_less: "unat (w :: u32) < 2 ^ 32"
  using unsigned_less [where 'a = nat, of w] by simp

lemma unat_u64_less: "unat (w :: u64) < 2 ^ 64"
  using unsigned_less [where 'a = nat, of w] by simp

lemma unat_u32_mod [simp]: "unat (w :: u32) mod 4294967296 = unat w"
  using unat_u32_less [of w] by simp

lemma ucast_u8_u64_u32: "ucast (ucast (w :: u8) :: u64) = (ucast w :: u32)"
  by (rule bit_word_eqI) (auto simp: bit_simps)

lemma unat_ucast_down: "unat (ucast (w :: u64) :: u32) = unat w mod 2 ^ 32"
  by (simp add: unsigned_ucast_eq take_bit_eq_mod)

lemma ucast_plus_u32: "ucast (a + b :: u64) = (ucast a + ucast b :: u32)"
proof -
  have "(unat a + unat b) mod 2 ^ 64 mod 2 ^ 32 = (unat a + unat b) mod 2 ^ 32"
    by (rule mod_mod_cancel) simp
  then show ?thesis
    by (simp add: word_unat_eq_iff unat_ucast_down unat_word_ariths mod_simps)
qed

lemma ucast_times_u32: "ucast (a * b :: u64) = (ucast a * ucast b :: u32)"
proof -
  have "(unat a * unat b) mod 2 ^ 64 mod 2 ^ 32 = (unat a * unat b) mod 2 ^ 32"
    by (rule mod_mod_cancel) simp
  then show ?thesis
    by (simp add: word_unat_eq_iff unat_ucast_down unat_word_ariths mod_simps)
qed

lemma ucast_of_nat_u32: "ucast (of_nat n :: u64) = (of_nat n :: u32)"
  by transfer simp

lemma unat_ucast_u32 [simp]: "unat (ucast (w :: u32) :: u64) = unat w"
  by (simp add: unsigned_ucast_eq take_bit_nat_eq_self order_less_trans [OF unsigned_less])

lemma ucast_u32_0 [simp]: "(ucast (w :: u32) :: u64) = 0 \<longleftrightarrow> w = 0"
  by (simp add: word_unat_eq_iff)

lemma ucast_down_up_u32 [simp]: "ucast (ucast (w :: u32) :: u64) = w"
  by (simp add: word_unat_eq_iff unat_ucast_down mod_less [OF unat_u32_less, simplified])

lemma of_nat_eq_u32: "(of_nat k :: u32) = w \<longleftrightarrow> k mod 2 ^ 32 = unat w"
  by (simp add: word_unat_eq_iff unsigned_of_nat take_bit_eq_mod)

subsection \<open>Circular buffers\<close>

text \<open>
  \<open>i++; if (i == cap) i = 0;\<close>, and the entries of a buffer from the tail on, oldest first.
\<close>

definition ring_next :: "nat \<Rightarrow> nat \<Rightarrow> nat" where
  "ring_next cap i = (if Suc i = cap then 0 else Suc i)"

definition ring_contents :: "(nat \<Rightarrow> 'a) \<Rightarrow> nat \<Rightarrow> nat \<Rightarrow> nat \<Rightarrow> 'a list" where
  "ring_contents buf tail n cap = map (\<lambda>k. buf ((tail + k) mod cap)) [0..<n]"

lemma ring_next_mod: "i < cap \<Longrightarrow> ring_next cap i = Suc i mod cap"
  by (auto simp: ring_next_def)

lemma ring_next_less [simp]: "i < cap \<Longrightarrow> ring_next cap i < cap"
  by (auto simp: ring_next_def)

lemma length_ring_contents [simp]: "length (ring_contents buf tail n cap) = n"
  by (simp add: ring_contents_def)

lemma ring_slot_free:
  assumes "k < n" and "n < cap"
  shows "(tail + k) mod cap \<noteq> (tail + n) mod (cap :: nat)"
proof
  assume "(tail + k) mod cap = (tail + n) mod cap"
  then have "cap dvd (tail + n) - (tail + k)"
    by (metis mod_eq_dvd_iff_nat nat_add_left_cancel_le assms(1) less_imp_le)
  then have "cap dvd n - k" by simp
  with assms show False using dvd_imp_le [of cap "n - k"] by linarith
qed

lemma ring_contents_push:
  assumes "n < cap" and "head = (tail + n) mod cap"
  shows "ring_contents (buf(head := x)) tail (Suc n) cap = ring_contents buf tail n cap @ [x]"
  using assms ring_slot_free [OF _ assms(1), of _ tail]
  by (auto simp: ring_contents_def)

lemma ring_contents_pop:
  assumes "0 < n" and "tail < cap"
  shows "ring_contents buf tail n cap = buf tail # ring_contents buf (ring_next cap tail) (n - 1) cap"
proof -
  obtain m where n: "n = Suc m" using assms(1) by (cases n) auto
  have "[0..<n] = 0 # map Suc [0..<m]" by (simp add: n upt_conv_Cons map_Suc_upt del: upt_Suc)
  moreover have "(tail + Suc k) mod cap = (ring_next cap tail + k) mod cap" for k
    using assms(2) by (simp add: ring_next_mod mod_simps)
  ultimately show ?thesis using assms(2) by (simp add: ring_contents_def n o_def del: upt_Suc)
qed

lemma ring_head_push: "head = (tail + n) mod cap \<Longrightarrow> head < cap \<Longrightarrow>
  ring_next cap head = (tail + Suc n) mod (cap :: nat)"
  by (simp add: ring_next_mod mod_Suc_eq)

lemma ring_head_pop:
  assumes "head = (tail + n) mod cap" and "0 < n" and "tail < cap"
  shows "head = (ring_next cap tail + (n - 1)) mod (cap :: nat)"
  using assms by (cases n) (auto simp: ring_next_mod mod_simps)

text \<open>
  The fields a component keeps: the number of free entries, the head (next entry to write) and the
  tail (next entry to read). \<open>ring_ok\<close> relates them, \<open>ring_queue\<close> is the queue they stand for.
\<close>

definition ring_ok :: "nat \<Rightarrow> nat \<Rightarrow> nat \<Rightarrow> nat \<Rightarrow> bool" where
  "ring_ok free head tail cap \<longleftrightarrow>
     free \<le> cap \<and> tail < cap \<and> head = (tail + (cap - free)) mod cap"

definition ring_queue :: "(nat \<Rightarrow> 'a) \<Rightarrow> nat \<Rightarrow> nat \<Rightarrow> nat \<Rightarrow> 'a list" where
  "ring_queue buf free tail cap = ring_contents buf tail (cap - free) cap"

lemma length_ring_queue [simp]: "length (ring_queue buf free tail cap) = cap - free"
  by (simp add: ring_queue_def)

lemma ring_queue_empty: "ring_ok free head tail cap \<Longrightarrow> ring_queue buf free tail cap = [] \<longleftrightarrow> free = cap"
  by (auto simp: ring_ok_def simp flip: length_0_conv)

lemma ring_ok_push:
  assumes "ring_ok free head tail cap" and "0 < free"
  shows "ring_ok (free - Suc 0) (ring_next cap head) tail cap"
proof -
  have "Suc (cap - free) = cap - (free - Suc 0)" using assms by (auto simp: ring_ok_def)
  then show ?thesis
    using assms ring_head_push [of head tail "cap - free" cap] by (auto simp: ring_ok_def)
qed

lemma ring_queue_push:
  assumes "ring_ok free head tail cap" and "0 < free"
  shows "ring_queue (buf(head := x)) (free - Suc 0) tail cap = ring_queue buf free tail cap @ [x]"
proof -
  have "Suc (cap - free) = cap - (free - Suc 0)" and "cap - free < cap"
    using assms by (auto simp: ring_ok_def)
  then show ?thesis
    using assms(1) ring_contents_push [of "cap - free" cap head tail buf x]
    unfolding ring_ok_def ring_queue_def by metis
qed

lemma ring_ok_pop:
  assumes "ring_ok free head tail cap" and "free \<noteq> cap"
  shows "ring_ok (Suc free) head (ring_next cap tail) cap"
proof -
  have "cap - free - 1 = cap - Suc free" and "0 < cap - free" and "tail < cap"
    using assms by (auto simp: ring_ok_def)
  then show ?thesis
    using assms ring_head_pop [of head tail "cap - free" cap] by (auto simp: ring_ok_def)
qed

lemma ring_queue_pop:
  assumes "ring_ok free head tail cap" and "free \<noteq> cap"
  shows "ring_queue buf free tail cap = buf tail # ring_queue buf (Suc free) (ring_next cap tail) cap"
proof -
  have "cap - free - 1 = cap - Suc free" and "0 < cap - free" and "tail < cap"
    using assms by (auto simp: ring_ok_def)
  then show ?thesis
    using ring_contents_pop [of "cap - free" tail cap buf] by (simp add: ring_queue_def)
qed

end
