(* ===== verification/Event_Fifo.thy ===== *)
theory Event_Fifo
  imports Prelude
begin

section \<open>The contract of an event queue\<close>

text \<open>
  The interrupt controller and the cluster event unit both queue SoC events in a bounded circular
  buffer: a full queue drops the event, the software pops the oldest one, which it reads as
  \<open>mark e\<close> (a unit may set a valid bit). The contract is stated
  once, over the list of queued events; a component that provides such a queue interprets it on
  its own push and pop. The request \<open>r\<close> that reads the queue must be \<open>free\<close>: nothing else may be
  about to write its data.
\<close>

locale event_fifo =
  fixes push :: "'e \<Rightarrow> 's \<Rightarrow> 's"
    and mark :: "'e \<Rightarrow> 'e"
    and pop :: "'r \<Rightarrow> 's \<Rightarrow> 'e \<times> 's"
    and free :: "'r \<Rightarrow> 's \<Rightarrow> bool"
    and contents :: "'s \<Rightarrow> 'e list"
    and cap :: "'s \<Rightarrow> nat"
    and inv :: "'s \<Rightarrow> bool"
  assumes inv_push: "inv s \<Longrightarrow> inv (push e s)"
    and inv_pop: "inv s \<Longrightarrow> free r s \<Longrightarrow> contents s \<noteq> [] \<Longrightarrow> inv (snd (pop r s))"
    and cap_push: "inv s \<Longrightarrow> cap (push e s) = cap s"
    and cap_pop: "inv s \<Longrightarrow> free r s \<Longrightarrow> contents s \<noteq> [] \<Longrightarrow> cap (snd (pop r s)) = cap s"
    and contents_push: "inv s \<Longrightarrow>
      contents (push e s) = (if length (contents s) < cap s then contents s @ [mark e] else contents s)"
    and contents_pop: "inv s \<Longrightarrow> free r s \<Longrightarrow> contents s \<noteq> [] \<Longrightarrow>
      fst (pop r s) = hd (contents s) \<and> contents (snd (pop r s)) = tl (contents s)"

subsection \<open>Histories\<close>

text \<open>
  What a list of operations hands out, in order: \<open>f op s\<close> is what the operation \<open>op\<close> hands out
  when it runs in the state \<open>s\<close>.
\<close>

fun op_log :: "('o \<Rightarrow> 's \<Rightarrow> 's) \<Rightarrow> ('o \<Rightarrow> 's \<Rightarrow> 'e list) \<Rightarrow> 'o list \<Rightarrow> 's \<Rightarrow> 'e list" where
  "op_log step f [] s = []"
| "op_log step f (op # ops) s = f op s @ op_log step f ops (step op s)"

text \<open>Every operation of the list runs in a state that allows it; here: every read is free.\<close>

fun ops_allowed :: "('o \<Rightarrow> 's \<Rightarrow> 's) \<Rightarrow> ('o \<Rightarrow> 's \<Rightarrow> bool) \<Rightarrow> 'o list \<Rightarrow> 's \<Rightarrow> bool" where
  "ops_allowed step rule [] s \<longleftrightarrow> True"
| "ops_allowed step rule (op # ops) s \<longleftrightarrow> rule op s \<and> ops_allowed step rule ops (step op s)"

text \<open>
  What an operation gives to the queue (the event of a push that finds room) and takes from it
  (the answer to a read that finds something).
\<close>

definition fifo_accepted ::
    "('o \<Rightarrow> 'e option) \<Rightarrow> ('s \<Rightarrow> 'e list) \<Rightarrow> ('s \<Rightarrow> nat) \<Rightarrow> 'o \<Rightarrow> 's \<Rightarrow> 'e list" where
  "fifo_accepted pushes contents cap op s =
     (case pushes op of Some e \<Rightarrow> if length (contents s) < cap s then [e] else [] | None \<Rightarrow> [])"

definition fifo_taken ::
    "('o \<Rightarrow> 'r option) \<Rightarrow> ('o \<Rightarrow> 's \<Rightarrow> 'e) \<Rightarrow> ('s \<Rightarrow> 'e list) \<Rightarrow> 'o \<Rightarrow> 's \<Rightarrow> 'e list" where
  "fifo_taken pops answer contents op s = (if pops op \<noteq> None \<and> contents s \<noteq> [] then [answer op s] else [])"

definition fifo_read_free :: "('o \<Rightarrow> 'r option) \<Rightarrow> ('r \<Rightarrow> 's \<Rightarrow> bool) \<Rightarrow> 'o \<Rightarrow> 's \<Rightarrow> bool" where
  "fifo_read_free pops free op s = (case pops op of Some r \<Rightarrow> free r s | None \<Rightarrow> True)"

text \<open>
  A unit has an event queue beside its other state. Each of its operations is a push, a pop of a
  queue that holds something, or leaves the queue as it is. Then, for any interleaving, what was
  read followed by what is still queued is what was queued at first followed by what was accepted.
\<close>

locale event_unit_fifo = event_fifo push mark pop free contents cap inv
  for push :: "'e \<Rightarrow> 's \<Rightarrow> 's" and mark and pop :: "'r \<Rightarrow> 's \<Rightarrow> 'e \<times> 's" and free contents cap inv +
  fixes step :: "'o \<Rightarrow> 's \<Rightarrow> 's"
    and pushes :: "'o \<Rightarrow> 'e option"
    and pops :: "'o \<Rightarrow> 'r option"
    and answer :: "'o \<Rightarrow> 's \<Rightarrow> 'e"
  assumes step_push: "inv s \<Longrightarrow> pushes op = Some e \<Longrightarrow> step op s = push e s"
    and step_pop: "inv s \<Longrightarrow> pops op = Some r \<Longrightarrow> free r s \<Longrightarrow> contents s \<noteq> [] \<Longrightarrow>
      (answer op s, step op s) = pop r s"
    and push_or_pop: "pops op = Some r \<Longrightarrow> pushes op = None"
    and step_other: "inv s \<Longrightarrow> pushes op = None \<Longrightarrow> pops op = None \<or> contents s = [] \<Longrightarrow>
      inv (step op s) \<and> contents (step op s) = contents s \<and> cap (step op s) = cap s"
begin

lemma step_history:
  assumes "inv s" and "fifo_read_free pops free op s"
  shows "inv (step op s)"
    and "fifo_taken pops answer contents op s @ contents (step op s) = contents s @ map mark (fifo_accepted pushes contents cap op s)"
    and "cap (step op s) = cap s"
proof -
  have "inv (step op s) \<and> fifo_taken pops answer contents op s @ contents (step op s) = contents s @ map mark (fifo_accepted pushes contents cap op s)
    \<and> cap (step op s) = cap s"
  proof (cases "pushes op")
    case (Some e)
    then have "pops op = None" using push_or_pop by (cases "pops op") auto
    with Some show ?thesis
      using step_push [OF assms(1) Some] inv_push [OF assms(1)] contents_push [OF assms(1)]
        cap_push [OF assms(1)]
      by (simp add: fifo_accepted_def fifo_taken_def)
  next
    case None
    show ?thesis
    proof (cases "pops op = None \<or> contents s = []")
      case True
      then show ?thesis using step_other [OF assms(1) None True] None
        by (auto simp: fifo_accepted_def fifo_taken_def)
    next
      case False
      then obtain r where r: "pops op = Some r" "contents s \<noteq> []" by auto
      then have "free r s" using assms(2) by (simp add: fifo_read_free_def)
      moreover have "answer op s = fst (pop r s)" "step op s = snd (pop r s)"
        using step_pop [OF assms(1) r(1) \<open>free r s\<close> r(2)] by (metis fst_conv snd_conv)+
      ultimately show ?thesis
        using r None inv_pop [OF assms(1)] contents_pop [OF assms(1)] cap_pop [OF assms(1)]
        by (simp add: fifo_accepted_def fifo_taken_def)
    qed
  qed
  then show "inv (step op s)"
    and "fifo_taken pops answer contents op s @ contents (step op s) = contents s @ map mark (fifo_accepted pushes contents cap op s)"
    and "cap (step op s) = cap s" by blast+
qed

lemma run_history:
  "inv s \<Longrightarrow> ops_allowed step (fifo_read_free pops free) ops s \<Longrightarrow>
     op_log step (fifo_taken pops answer contents) ops s @ contents (fold step ops s)
       = contents s @ map mark (op_log step (fifo_accepted pushes contents cap) ops s)"
proof (induction ops arbitrary: s)
  case Nil
  then show ?case by simp
next
  case (Cons op ops)
  then have "inv s" "fifo_read_free pops free op s"
    "ops_allowed step (fifo_read_free pops free) ops (step op s)" by simp_all
  note h = step_history [OF this(1,2)] and rest = this(3)
  have "op_log step (fifo_taken pops answer contents) ops (step op s) @ contents (fold step ops (step op s))
      = contents (step op s) @ map mark (op_log step (fifo_accepted pushes contents cap) ops (step op s))"
    by (rule Cons.IH) (use h(1) rest in auto)
  then show ?case using h(2) by (metis append.assoc fold_simps(2) map_append op_log.simps(2))
qed

end

end
