(* ===== verification/Timer.thy ===== *)
theory Timer
  imports Prelude
begin

section \<open>The two-counter timer (\<open>src/pulp/timer/timer_v2_impl.cpp\<close>)\<close>

text \<open>
  The timer has two 32-bit counters that can be cascaded into one 64-bit counter. It does not
  count cycle by cycle: a handler first calls \<open>sync\<close>, which adds the cycles elapsed since the
  last one, and \<open>check_state\<close> re-enqueues one clock event at the next compare match. The record
  has the members of the class; the arrays of two are functions of the counter number (0 or 1).
  What the code sends out of its ports is appended to \<open>t_calls\<close>. The current cycle, read from
  the clock engine in the code, is the argument \<open>now\<close>.
\<close>

datatype timer_call = Irq_sync nat | Event_reenqueue u64

record timer =
  t_value :: "nat \<Rightarrow> u32"
  t_config :: "nat \<Rightarrow> u32"
  t_compare_value :: "nat \<Rightarrow> u32"
  t_is_enabled :: "nat \<Rightarrow> bool"
  t_irq_enabled :: "nat \<Rightarrow> bool"
  t_iem :: "nat \<Rightarrow> bool"
  t_cmp_clr :: "nat \<Rightarrow> bool"
  t_one_shot :: "nat \<Rightarrow> bool"
  t_prescaler :: "nat \<Rightarrow> bool"
  t_ref_clock :: "nat \<Rightarrow> bool"
  t_prescaler_value :: "nat \<Rightarrow> u8"
  t_is_64 :: bool
  t_sync_time :: u64
  t_irq_bound :: "nat \<Rightarrow> bool"
  t_calls :: "timer_call list"

subsection \<open>Counters\<close>

definition timer_value64 :: "timer \<Rightarrow> u64" where
  "timer_value64 s = u64_of (t_value s 0) (t_value s 1)"

definition timer_set_value64 :: "u64 \<Rightarrow> timer \<Rightarrow> timer" where
  "timer_set_value64 w s = s\<lparr>t_value := (t_value s)(0 := u64_lo w, 1 := u64_hi w)\<rparr>"

text \<open>What \<open>sync\<close> does once it knows how many cycles have elapsed.\<close>

definition timer_advance :: "u64 \<Rightarrow> timer \<Rightarrow> timer" where
  "timer_advance cycles s =
     (if t_is_64 s \<and> t_is_enabled s 0
      then timer_set_value64 (timer_value64 s + cycles) s
      else
        let s1 = (if t_is_enabled s 0 \<and> \<not> t_ref_clock s 0
                  then s\<lparr>t_value := (t_value s)(0 := t_value s 0 + ucast cycles)\<rparr> else s)
        in if t_is_enabled s1 1 \<and> \<not> t_ref_clock s1 1
           then s1\<lparr>t_value := (t_value s1)(1 := t_value s1 1 + ucast cycles)\<rparr> else s1)"

definition timer_sync :: "u64 \<Rightarrow> timer \<Rightarrow> timer" where
  "timer_sync now s = timer_advance (now - t_sync_time s) (s\<lparr>t_sync_time := now\<rparr>)"

definition timer_get_remaining_cycles :: "bool \<Rightarrow> nat \<Rightarrow> timer \<Rightarrow> u64" where
  "timer_get_remaining_cycles w64 counter s =
     (let cycles =
        (if w64 then u64_of (t_compare_value s 0) (t_compare_value s 1) - timer_value64 s
         else let c = ucast (t_compare_value s counter - t_value s counter)
              in if c = 0 then 0x100000000 else c)
      in if t_prescaler s counter then cycles * (ucast (t_prescaler_value s counter) + 1)
         else cycles)"

definition timer_get_compare_value :: "bool \<Rightarrow> nat \<Rightarrow> timer \<Rightarrow> u64" where
  "timer_get_compare_value w64 counter s =
     (if w64 then u64_of (t_compare_value s 0) (t_compare_value s 1)
      else ucast (t_compare_value s counter))"

definition timer_get_value :: "bool \<Rightarrow> nat \<Rightarrow> timer \<Rightarrow> u64" where
  "timer_get_value w64 counter s =
     (if w64 then timer_value64 s else ucast (t_value s counter))"

definition timer_set_value :: "bool \<Rightarrow> nat \<Rightarrow> u64 \<Rightarrow> timer \<Rightarrow> timer" where
  "timer_set_value w64 counter new_value s =
     (if w64 then timer_set_value64 new_value s
      else s\<lparr>t_value := (t_value s)(counter := ucast new_value)\<rparr>)"

subsection \<open>Compare match and event scheduling\<close>

definition timer_match :: "bool \<Rightarrow> nat \<Rightarrow> timer \<Rightarrow> timer" where
  "timer_match w64 counter s =
     (let s1 = (if t_cmp_clr s counter then timer_set_value w64 counter 0 s else s);
          s2 = (if t_irq_enabled s1 counter \<and> t_irq_bound s1 counter
                then s1\<lparr>t_calls := t_calls s1 @ [Irq_sync counter]\<rparr> else s1)
      in if t_one_shot s2 counter
         then s2\<lparr>t_is_enabled := (t_is_enabled s2)(counter := False)\<rparr> else s2)"

definition timer_reenqueue :: "bool \<Rightarrow> nat \<Rightarrow> timer \<Rightarrow> timer" where
  "timer_reenqueue w64 counter s =
     (if t_is_enabled s counter \<and> \<not> t_ref_clock s counter
         \<and> (t_irq_enabled s counter \<or> t_cmp_clr s counter)
      then let cycles = timer_get_remaining_cycles w64 counter s
           in if cycles \<noteq> 0 then s\<lparr>t_calls := t_calls s @ [Event_reenqueue cycles]\<rparr> else s
      else s)"

definition timer_check_state_counter :: "bool \<Rightarrow> nat \<Rightarrow> timer \<Rightarrow> timer" where
  "timer_check_state_counter w64 counter s =
     timer_reenqueue w64 counter
       (if t_is_enabled s counter
           \<and> timer_get_compare_value w64 counter s = timer_get_value w64 counter s
        then timer_match w64 counter s else s)"

definition timer_check_state :: "timer \<Rightarrow> timer" where
  "timer_check_state s =
     (if t_is_64 s then timer_check_state_counter True 0 s
      else timer_check_state_counter False 1 (timer_check_state_counter False 0 s))"

definition timer_event_handler :: "u64 \<Rightarrow> timer \<Rightarrow> timer" where
  "timer_event_handler now s = timer_check_state (timer_sync now s)"

definition timer_ref_clock_sync :: "u64 \<Rightarrow> bool \<Rightarrow> timer \<Rightarrow> timer" where
  "timer_ref_clock_sync now v s =
     (let s1 = (if v \<and> t_ref_clock s 0
                then s\<lparr>t_value := (t_value s)(0 := t_value s 0 + 1)\<rparr> else s);
          s2 = (if v \<and> t_ref_clock s1 1
                then s1\<lparr>t_value := (t_value s1)(1 := t_value s1 1 + 1)\<rparr> else s1)
      in if v \<and> (t_ref_clock s 0 \<or> t_ref_clock s1 1)
         then timer_check_state (timer_sync now s2) else s2)"

subsection \<open>Registers\<close>

definition timer_depack_config :: "nat \<Rightarrow> u32 \<Rightarrow> timer \<Rightarrow> timer" where
  "timer_depack_config counter c s =
     (let s1 = s\<lparr>
        t_is_enabled := (t_is_enabled s)(counter := bit c 0),
        t_irq_enabled := (t_irq_enabled s)(counter := bit c 2),
        t_iem := (t_iem s)(counter := bit c 3),
        t_cmp_clr := (t_cmp_clr s)(counter := bit c 4),
        t_one_shot := (t_one_shot s)(counter := bit c 5),
        t_prescaler := (t_prescaler s)(counter := bit c 6),
        t_ref_clock := (t_ref_clock s)(counter := bit c 7),
        t_prescaler_value := (t_prescaler_value s)(counter := ucast (drop_bit 8 c))\<rparr>
      in if counter = 0 then s1\<lparr>t_is_64 := bit c 31\<rparr> else s1)"

definition timer_timer_reset :: "nat \<Rightarrow> timer \<Rightarrow> timer" where
  "timer_timer_reset counter s =
     (if t_is_64 s then timer_set_value64 0 s
      else s\<lparr>t_value := (t_value s)(counter := 0)\<rparr>)"

text \<open>
  \<open>setMask\<close>: enable, irq enable (named twice in the code), mode, one shot, prescaler enable and
  the eight bits of the prescaler value; the cascade bit for counter 0 only.
\<close>

definition timer_set_mask :: "nat \<Rightarrow> u32" where
  "timer_set_mask counter =
     (let m = bit_mask 0 OR bit_mask 2 OR bit_mask 2 OR bit_mask 4 OR bit_mask 5 OR bit_mask 6
              OR push_bit 8 (bit_mask 8 - 1)
      in if counter = 0 then m OR bit_mask 31 else m)"

definition timer_handle_configure ::
    "nat \<Rightarrow> u32 \<Rightarrow> bool \<Rightarrow> timer \<Rightarrow> io_status \<times> u32 \<times> timer" where
  "timer_handle_configure counter data is_write s =
     (if is_write then
        let s1 = s\<lparr>t_config := (t_config s)(counter := data)\<rparr>;
            s2 = timer_depack_config counter (t_config s1 counter) s1;
            s3 = (if bit (t_config s2 counter) 1 then timer_timer_reset counter s2 else s2);
            s4 = s3\<lparr>t_config := (t_config s3)(counter :=
                     t_config s3 counter AND timer_set_mask counter)\<rparr>
        in (IO_REQ_OK, data, timer_check_state s4)
      else
        (IO_REQ_OK, (t_config s counter AND NOT (bit_mask 0)) OR of_bool (t_is_enabled s counter), s))"

definition timer_handle_value ::
    "nat \<Rightarrow> u32 \<Rightarrow> bool \<Rightarrow> timer \<Rightarrow> io_status \<times> u32 \<times> timer" where
  "timer_handle_value counter data is_write s =
     (if is_write
      then (IO_REQ_OK, data, timer_check_state (s\<lparr>t_value := (t_value s)(counter := data)\<rparr>))
      else (IO_REQ_OK, t_value s counter, s))"

definition timer_handle_compare ::
    "nat \<Rightarrow> u32 \<Rightarrow> bool \<Rightarrow> timer \<Rightarrow> io_status \<times> u32 \<times> timer" where
  "timer_handle_compare counter data is_write s =
     (if is_write
      then (IO_REQ_OK, data,
            timer_check_state (s\<lparr>t_compare_value := (t_compare_value s)(counter := data)\<rparr>))
      else (IO_REQ_OK, t_compare_value s counter, s))"

text \<open>
  The request handler. \<open>data\<close> is the word the request's data pointer points to, before and (in
  the result) after the access. The RESET and START registers pass a local word to
  \<open>handle_configure\<close>, so the request's own data is unchanged.
\<close>

definition timer_reconfigure :: "nat \<Rightarrow> nat \<Rightarrow> u32 \<Rightarrow> timer \<Rightarrow> io_status \<times> u32 \<times> timer" where
  "timer_reconfigure counter b data s =
     (case timer_handle_configure counter (t_config s counter OR bit_mask b) True s of
        (st, _, s') \<Rightarrow> (st, data, s'))"

definition timer_req ::
    "u64 \<Rightarrow> u64 \<Rightarrow> u32 \<Rightarrow> nat \<Rightarrow> bool \<Rightarrow> timer \<Rightarrow> io_status \<times> u32 \<times> timer" where
  "timer_req now offset data sz is_write s =
     (if sz > 4 then (IO_REQ_INVALID, data, s)
      else
        let s = timer_sync now s in
        if offset = 0x04 then timer_handle_configure 1 data is_write s
        else if offset = 0x00 then timer_handle_configure 0 data is_write s
        else if offset = 0x0c then timer_handle_value 1 data is_write s
        else if offset = 0x08 then timer_handle_value 0 data is_write s
        else if offset = 0x14 then timer_handle_compare 1 data is_write s
        else if offset = 0x10 then timer_handle_compare 0 data is_write s
        else if offset = 0x20 then timer_reconfigure 0 1 data s
        else if offset = 0x24 then timer_reconfigure 1 1 data s
        else if offset = 0x18 then timer_reconfigure 0 0 data s
        else if offset = 0x1c then timer_reconfigure 1 0 data s
        else (IO_REQ_OK, data, s))"

definition timer_reset_counter :: "nat \<Rightarrow> timer \<Rightarrow> timer" where
  "timer_reset_counter i s =
     timer_depack_config i 0
       (s\<lparr>t_value := (t_value s)(i := 0), t_config := (t_config s)(i := 0),
          t_compare_value := (t_compare_value s)(i := 0)\<rparr>)"

definition timer_reset :: "u64 \<Rightarrow> bool \<Rightarrow> timer \<Rightarrow> timer" where
  "timer_reset now active s =
     (if active then timer_reset_counter 1 (timer_reset_counter 0 s)
      else s\<lparr>t_sync_time := now\<rparr>)"

subsection \<open>Reference: one tick per cycle\<close>

text \<open>
  What the hardware does and the lazy model stands for, written without the operations of the
  model: in one cycle, each counter that is enabled and not driven by the reference clock goes up
  by one; of two cascaded counters the low one goes up by one and the high one takes the carry,
  whichever clock they select.
\<close>

definition timer_tick :: "timer \<Rightarrow> timer" where
  "timer_tick s = s\<lparr>
     t_value :=
       (if t_is_64 s \<and> t_is_enabled s 0
        then (t_value s)(
          0 := t_value s 0 + 1,
          1 := (if t_value s 0 = - 1 then t_value s 1 + 1 else t_value s 1))
        else (t_value s)(
          0 := (if t_is_enabled s 0 \<and> \<not> t_ref_clock s 0 then t_value s 0 + 1 else t_value s 0),
          1 := (if t_is_enabled s 1 \<and> \<not> t_ref_clock s 1 then t_value s 1 + 1 else t_value s 1))),
     t_sync_time := t_sync_time s + 1\<rparr>"

lemma timer_advance_sel [simp, frame]:
  "t_config (timer_advance a s) = t_config s"
  "t_compare_value (timer_advance a s) = t_compare_value s"
  "t_is_enabled (timer_advance a s) = t_is_enabled s"
  "t_irq_enabled (timer_advance a s) = t_irq_enabled s"
  "t_iem (timer_advance a s) = t_iem s"
  "t_cmp_clr (timer_advance a s) = t_cmp_clr s"
  "t_one_shot (timer_advance a s) = t_one_shot s"
  "t_prescaler (timer_advance a s) = t_prescaler s"
  "t_ref_clock (timer_advance a s) = t_ref_clock s"
  "t_prescaler_value (timer_advance a s) = t_prescaler_value s"
  "t_is_64 (timer_advance a s) = t_is_64 s"
  "t_sync_time (timer_advance a s) = t_sync_time s"
  "t_irq_bound (timer_advance a s) = t_irq_bound s"
  "t_calls (timer_advance a s) = t_calls s"
  by (simp_all add: timer_advance_def timer_set_value64_def Let_def)

lemma timer_advance_value:
  "t_value (timer_advance a s) =
     (if t_is_64 s \<and> t_is_enabled s 0
      then (t_value s)(0 := u64_lo (timer_value64 s + a), 1 := u64_hi (timer_value64 s + a))
      else (t_value s)(
        0 := (if t_is_enabled s 0 \<and> \<not> t_ref_clock s 0 then t_value s 0 + ucast a else t_value s 0),
        1 := (if t_is_enabled s 1 \<and> \<not> t_ref_clock s 1 then t_value s 1 + ucast a else t_value s 1)))"
  by (auto simp: timer_advance_def timer_set_value64_def Let_def fun_eq_iff)

lemma timer_advance_0: "timer_advance 0 s = s"
  by (cases s) (auto simp: timer_advance_def timer_set_value64_def timer_value64_def Let_def fun_eq_iff)

lemma timer_advance_add: "timer_advance a (timer_advance b s) = timer_advance (b + a) s"
  by (rule timer.equality)
    (auto simp: timer_advance_value timer_value64_def ucast_plus_u32 fun_eq_iff add.assoc)

lemma timer_advance_sync_time:
  "timer_advance a (s\<lparr>t_sync_time := t\<rparr>) = (timer_advance a s)\<lparr>t_sync_time := t\<rparr>"
  by (rule timer.equality) (auto simp: timer_advance_value timer_value64_def)

lemma u64_of_Suc: "u64_of lo hi + 1 = u64_of (lo + 1) (if lo = - 1 then hi + 1 else hi)"
proof -
  have cat: "unat (u64_of a b) = unat b * 2 ^ 32 + unat a" for a b
  proof -
    let ?w = "u64_of a b"
    have "unat (u64_lo ?w) = unat ?w mod 2 ^ 32" by (simp only: u64_lo_def unat_ucast_down)
    moreover have "unat (u64_hi ?w) = unat ?w div 2 ^ 32"
      using less_mult_imp_div_less [of "unat ?w" "2 ^ 32" "2 ^ 32"] unat_u64_less [of ?w]
      by (simp add: u64_hi_def unat_ucast_down drop_bit_eq_div unat_div del: u64_hi_of)
    ultimately show ?thesis using div_mult_mod_eq [of "unat ?w" "2 ^ 32"] by simp
  qed
  have low: "unat (lo + 1) = (if lo = - 1 then 0 else unat lo + 1)"
    by (auto simp: unatSuc add.commute eq_neg_iff_add_eq_0)
  have top: "unat (- 1 :: u32) = 2 ^ 32 - 1"
    by (simp add: unsigned_minus_1_eq_mask mask_eq_exp_minus_1)
  have "unat (u64_of lo hi + 1) = (unat hi * 2 ^ 32 + unat lo + 1) mod 2 ^ 64"
    by (simp add: unat_word_ariths cat)
  also have "\<dots> = unat (u64_of (lo + 1) (if lo = - 1 then hi + 1 else hi))"
  proof (cases "lo = - 1")
    case True
    then show ?thesis by (simp add: cat unat_word_ariths top mult_mod_left)
  next
    case False
    have "unat hi * 2 ^ 32 + (unat lo + 1) < 2 ^ 64"
      using unat_u64_less [of "u64_of (lo + 1) hi"] False by (simp add: cat low)
    with False show ?thesis by (simp add: cat low)
  qed
  finally show ?thesis by (simp add: word_unat_eq_iff)
qed

lemma timer_tick_advance: "timer_tick s = timer_advance 1 (s\<lparr>t_sync_time := t_sync_time s + 1\<rparr>)"
proof (rule timer.equality)
  show "t_value (timer_tick s) = t_value (timer_advance 1 (s\<lparr>t_sync_time := t_sync_time s + 1\<rparr>))"
    by (auto simp: timer_tick_def timer_advance_value timer_value64_def u64_of_Suc fun_eq_iff)
qed (simp_all add: timer_tick_def)

lemma timer_tick_power:
  "(timer_tick ^^ n) s = timer_advance (of_nat n) (s\<lparr>t_sync_time := t_sync_time s + of_nat n\<rparr>)"
proof (induction n)
  case 0
  then show ?case by (simp add: timer_advance_0)
next
  case (Suc n)
  have "(timer_tick ^^ Suc n) s = timer_tick ((timer_tick ^^ n) s)" by simp
  also have "\<dots> = timer_advance (of_nat (Suc n)) (s\<lparr>t_sync_time := t_sync_time s + of_nat (Suc n)\<rparr>)"
    unfolding Suc.IH
    by (simp add: timer_tick_advance timer_advance_add timer_advance_sync_time add.commute add.left_commute)
  finally show ?case .
qed

text \<open>
  C36. Counting lazily is the same as counting every cycle: a call of \<open>sync\<close> after \<open>n\<close> cycles
  leaves the timer in the state that \<open>n\<close> single ticks leave it in, in every configuration (two
  32-bit counters, the cascaded 64-bit counter, counters on the reference clock, disabled
  counters), wrap-around included.
\<close>

theorem timer_sync_refines_ticks: "timer_sync (t_sync_time s + of_nat n) s = (timer_tick ^^ n) s"
  by (simp add: timer_sync_def timer_tick_power)

text \<open>Hence it does not matter how often the timer is synchronised on the way.\<close>

lemma timer_sync_sync: "timer_sync t2 (timer_sync t1 s) = timer_sync t2 s"
proof -
  have "timer_sync t2 (timer_sync t1 s)
      = timer_advance (t2 - t1) (timer_advance (t1 - t_sync_time s) (s\<lparr>t_sync_time := t2\<rparr>))"
    by (simp add: timer_sync_def timer_advance_sync_time)
  also have "\<dots> = timer_advance ((t1 - t_sync_time s) + (t2 - t1)) (s\<lparr>t_sync_time := t2\<rparr>)"
    by (rule timer_advance_add)
  finally show ?thesis by (simp add: timer_sync_def)
qed

subsection \<open>The alarm\<close>

definition timer_runs32 :: "nat \<Rightarrow> timer \<Rightarrow> bool" where
  "timer_runs32 c s \<longleftrightarrow> c < 2 \<and> \<not> t_is_64 s \<and> t_is_enabled s c \<and> \<not> t_ref_clock s c"

lemma timer_tick_value32:
  "timer_runs32 c s \<Longrightarrow> t_value ((timer_tick ^^ n) s) c = t_value s c + of_nat n"
  by (auto simp: timer_runs32_def timer_tick_power timer_advance_value less_2_cases_iff ucast_of_nat_u32)

lemma timer_remaining32:
  assumes "\<not> t_prescaler s c"
  shows "unat (timer_get_remaining_cycles False c s) =
     (if t_compare_value s c = t_value s c then 2 ^ 32
      else unat (t_compare_value s c - t_value s c))"
  using assms
  by (auto simp: timer_get_remaining_cycles_def Let_def unat_ucast_u32)

lemma timer_alarm_hit:
  assumes "timer_runs32 c s" and "\<not> t_prescaler s c"
  shows "t_value ((timer_tick ^^ unat (timer_get_remaining_cycles False c s)) s) c
    = t_compare_value s c"
proof -
  let ?d = "t_compare_value s c - t_value s c"
  have "(of_nat (unat (timer_get_remaining_cycles False c s)) :: u32) = ?d"
    unfolding timer_remaining32 [OF assms(2)] by (simp add: of_nat_eq_u32)
  then show ?thesis by (simp add: timer_tick_value32 [OF assms(1)])
qed

lemma timer_set_value_sel [simp, frame]:
  "t_config (timer_set_value w c x s) = t_config s"
  "t_compare_value (timer_set_value w c x s) = t_compare_value s"
  "t_irq_enabled (timer_set_value w c x s) = t_irq_enabled s"
  "t_iem (timer_set_value w c x s) = t_iem s"
  "t_cmp_clr (timer_set_value w c x s) = t_cmp_clr s"
  "t_one_shot (timer_set_value w c x s) = t_one_shot s"
  "t_prescaler (timer_set_value w c x s) = t_prescaler s"
  "t_ref_clock (timer_set_value w c x s) = t_ref_clock s"
  "t_prescaler_value (timer_set_value w c x s) = t_prescaler_value s"
  "t_is_64 (timer_set_value w c x s) = t_is_64 s"
  "t_sync_time (timer_set_value w c x s) = t_sync_time s"
  "t_irq_bound (timer_set_value w c x s) = t_irq_bound s"
  by (simp_all add: timer_set_value_def timer_set_value64_def)

lemma timer_match_sel [simp, frame]:
  "t_config (timer_match w c s) = t_config s"
  "t_compare_value (timer_match w c s) = t_compare_value s"
  "t_irq_enabled (timer_match w c s) = t_irq_enabled s"
  "t_iem (timer_match w c s) = t_iem s"
  "t_cmp_clr (timer_match w c s) = t_cmp_clr s"
  "t_one_shot (timer_match w c s) = t_one_shot s"
  "t_prescaler (timer_match w c s) = t_prescaler s"
  "t_ref_clock (timer_match w c s) = t_ref_clock s"
  "t_prescaler_value (timer_match w c s) = t_prescaler_value s"
  "t_is_64 (timer_match w c s) = t_is_64 s"
  "t_sync_time (timer_match w c s) = t_sync_time s"
  "t_irq_bound (timer_match w c s) = t_irq_bound s"
  by (simp_all add: timer_match_def Let_def)

lemma timer_reenqueue_sel [simp, frame]:
  "t_config (timer_reenqueue w c s) = t_config s"
  "t_compare_value (timer_reenqueue w c s) = t_compare_value s"
  "t_irq_enabled (timer_reenqueue w c s) = t_irq_enabled s"
  "t_iem (timer_reenqueue w c s) = t_iem s"
  "t_cmp_clr (timer_reenqueue w c s) = t_cmp_clr s"
  "t_one_shot (timer_reenqueue w c s) = t_one_shot s"
  "t_prescaler (timer_reenqueue w c s) = t_prescaler s"
  "t_ref_clock (timer_reenqueue w c s) = t_ref_clock s"
  "t_prescaler_value (timer_reenqueue w c s) = t_prescaler_value s"
  "t_is_64 (timer_reenqueue w c s) = t_is_64 s"
  "t_sync_time (timer_reenqueue w c s) = t_sync_time s"
  "t_irq_bound (timer_reenqueue w c s) = t_irq_bound s"
  by (simp_all add: timer_reenqueue_def Let_def)

lemma timer_check_counter_sel [simp, frame]:
  "t_config (timer_check_state_counter w c s) = t_config s"
  "t_compare_value (timer_check_state_counter w c s) = t_compare_value s"
  "t_irq_enabled (timer_check_state_counter w c s) = t_irq_enabled s"
  "t_iem (timer_check_state_counter w c s) = t_iem s"
  "t_cmp_clr (timer_check_state_counter w c s) = t_cmp_clr s"
  "t_one_shot (timer_check_state_counter w c s) = t_one_shot s"
  "t_prescaler (timer_check_state_counter w c s) = t_prescaler s"
  "t_ref_clock (timer_check_state_counter w c s) = t_ref_clock s"
  "t_prescaler_value (timer_check_state_counter w c s) = t_prescaler_value s"
  "t_is_64 (timer_check_state_counter w c s) = t_is_64 s"
  "t_sync_time (timer_check_state_counter w c s) = t_sync_time s"
  "t_irq_bound (timer_check_state_counter w c s) = t_irq_bound s"
  by (simp_all add: timer_check_state_counter_def)

lemma timer_check_state_sel [simp, frame]:
  "t_config (timer_check_state s) = t_config s"
  "t_compare_value (timer_check_state s) = t_compare_value s"
  "t_irq_enabled (timer_check_state s) = t_irq_enabled s"
  "t_iem (timer_check_state s) = t_iem s"
  "t_cmp_clr (timer_check_state s) = t_cmp_clr s"
  "t_one_shot (timer_check_state s) = t_one_shot s"
  "t_prescaler (timer_check_state s) = t_prescaler s"
  "t_ref_clock (timer_check_state s) = t_ref_clock s"
  "t_prescaler_value (timer_check_state s) = t_prescaler_value s"
  "t_is_64 (timer_check_state s) = t_is_64 s"
  "t_sync_time (timer_check_state s) = t_sync_time s"
  "t_irq_bound (timer_check_state s) = t_irq_bound s"
  by (simp_all add: timer_check_state_def)

lemma timer_reenqueue_value [simp]:
  "t_value (timer_reenqueue w c s) = t_value s"
  "t_is_enabled (timer_reenqueue w c s) = t_is_enabled s"
  by (simp_all add: timer_reenqueue_def Let_def)

lemma timer_match_value:
  "t_value (timer_match False c s) = (if t_cmp_clr s c then (t_value s)(c := 0) else t_value s)"
  "t_is_enabled (timer_match w c s) =
     (if t_one_shot s c then (t_is_enabled s)(c := False) else t_is_enabled s)"
  by (simp_all add: timer_match_def timer_set_value_def timer_set_value64_def Let_def)

lemma timer_match_calls:
  "t_calls (timer_match w c s) =
     t_calls s @ (if t_irq_enabled s c \<and> t_irq_bound s c then [Irq_sync c] else [])"
  by (simp add: timer_match_def timer_set_value_def timer_set_value64_def Let_def)

lemma timer_reenqueue_calls: "\<exists>xs. t_calls (timer_reenqueue w c s) = t_calls s @ xs"
  by (simp add: timer_reenqueue_def Let_def)

lemma timer_check_counter_other:
  "c \<noteq> d \<Longrightarrow> t_value (timer_check_state_counter False c s) d = t_value s d"
  "c \<noteq> d \<Longrightarrow> t_is_enabled (timer_check_state_counter w c s) d = t_is_enabled s d"
  by (simp_all add: timer_check_state_counter_def timer_match_value)

definition timer_new_calls :: "timer \<Rightarrow> timer \<Rightarrow> timer_call list" where
  "timer_new_calls s s' = drop (length (t_calls s)) (t_calls s')"

lemma timer_check_counter_calls:
  "\<exists>xs. t_calls (timer_check_state_counter w c s) = t_calls s @ xs"
proof -
  let ?s = "if t_is_enabled s c \<and> timer_get_compare_value w c s = timer_get_value w c s
    then timer_match w c s else s"
  obtain xs where "t_calls (timer_reenqueue w c ?s) = t_calls ?s @ xs"
    using timer_reenqueue_calls by blast
  then show ?thesis by (auto simp: timer_check_state_counter_def timer_match_calls)
qed

text \<open>A compare match of an independent counter, and what it does to that counter.\<close>

lemma timer_check_counter_match:
  assumes "t_is_enabled s c" and "t_value s c = t_compare_value s c"
    and "s' = timer_check_state_counter False c s"
  shows "t_value s' c = (if t_cmp_clr s c then 0 else t_value s c)"
    and "t_is_enabled s' c \<longleftrightarrow> \<not> t_one_shot s c"
    and "t_irq_enabled s c \<Longrightarrow> t_irq_bound s c \<Longrightarrow> \<exists>xs. t_calls s' = t_calls s @ Irq_sync c # xs"
proof -
  have s': "s' = timer_reenqueue False c (timer_match False c s)"
    using assms by (simp add: timer_check_state_counter_def timer_get_compare_value_def
        timer_get_value_def)
  show "t_value s' c = (if t_cmp_clr s c then 0 else t_value s c)"
    and "t_is_enabled s' c \<longleftrightarrow> \<not> t_one_shot s c"
    using assms(1) by (simp_all add: s' timer_match_value)
  show "\<exists>xs. t_calls s' = t_calls s @ Irq_sync c # xs" if "t_irq_enabled s c" "t_irq_bound s c"
    using timer_reenqueue_calls [of False c "timer_match False c s"] that
    by (simp add: s' timer_match_calls)
qed

lemma timer_check_state_match32:
  assumes "\<not> t_is_64 s" and "c < 2" and "t_is_enabled s c" and "t_value s c = t_compare_value s c"
    and "s' = timer_check_state s"
  shows "t_value s' c = (if t_cmp_clr s c then 0 else t_value s c)"
    and "t_is_enabled s' c \<longleftrightarrow> \<not> t_one_shot s c"
    and "t_irq_enabled s c \<Longrightarrow> t_irq_bound s c \<Longrightarrow>
      \<exists>xs ys. t_calls s' = t_calls s @ ys @ Irq_sync c # xs"
proof -
  let ?s0 = "timer_check_state_counter False 0 s"
  have s': "s' = timer_check_state_counter False 1 ?s0"
    using assms(1,5) by (simp add: timer_check_state_def)
  obtain zs where zs: "t_calls ?s0 = t_calls s @ zs" using timer_check_counter_calls by blast
  obtain us where us: "t_calls s' = t_calls ?s0 @ us" using timer_check_counter_calls s' by blast
  consider "c = 0" | "c = 1" using assms(2) by linarith
  then have "t_value s' c = (if t_cmp_clr s c then 0 else t_value s c)
     \<and> (t_is_enabled s' c \<longleftrightarrow> \<not> t_one_shot s c)
     \<and> (t_irq_enabled s c \<and> t_irq_bound s c \<longrightarrow>
          (\<exists>xs ys. t_calls s' = t_calls s @ ys @ Irq_sync c # xs))"
  proof cases
    case 1
    note m = timer_check_counter_match [OF assms(3,4), of ?s0]
    have "t_value s' c = t_value ?s0 c" "t_is_enabled s' c = t_is_enabled ?s0 c"
      using 1 by (simp_all add: s' timer_check_counter_other)
    then show ?thesis using m us 1 by fastforce
  next
    case 2
    have e: "t_value ?s0 c = t_value s c" "t_is_enabled ?s0 c = t_is_enabled s c"
      using 2 by (simp_all add: timer_check_counter_other)
    have "s' = timer_check_state_counter False c ?s0" using s' 2 by simp
    note m = timer_check_counter_match [OF _ _ this]
    show ?thesis using m assms(3,4) e zs by fastforce
  qed
  then show "t_value s' c = (if t_cmp_clr s c then 0 else t_value s c)"
    and "t_is_enabled s' c \<longleftrightarrow> \<not> t_one_shot s c"
    and "t_irq_enabled s c \<Longrightarrow> t_irq_bound s c \<Longrightarrow>
      \<exists>xs ys. t_calls s' = t_calls s @ ys @ Irq_sync c # xs"
    by blast+
qed











text \<open>
  The alarm fires: when the event runs at the cycle it was scheduled for, the interrupt of
  the counter is raised; the counter restarts from zero exactly in compare-clear mode and is
  disabled exactly in one-shot mode.
\<close>

theorem timer_alarm_fires:
  assumes "timer_runs32 c s" and "\<not> t_prescaler s c" and "t_irq_enabled s c" and "t_irq_bound s c"
    and "s' = timer_event_handler (t_sync_time s + timer_get_remaining_cycles False c s) s"
  shows "Irq_sync c \<in> set (timer_new_calls s s')
     \<and> t_value s' c = (if t_cmp_clr s c then 0 else t_compare_value s c)
     \<and> (t_is_enabled s' c \<longleftrightarrow> \<not> t_one_shot s c)"
proof -
  let ?r = "unat (timer_get_remaining_cycles False c s)"
  let ?t = "(timer_tick ^^ ?r) s"
  have s': "s' = timer_check_state ?t"
    using assms(5) timer_sync_def timer_tick_power [of ?r s]
    by (simp add: timer_event_handler_def timer_sync_def)
  have run: "c < 2" "\<not> t_is_64 s" "t_is_enabled s c" using assms(1) by (auto simp: timer_runs32_def)
  have hit: "t_value ?t c = t_compare_value s c"
    using timer_alarm_hit [OF assms(1,2)] by simp
  have sel: "\<not> t_is_64 ?t" "t_is_enabled ?t c" "t_value ?t c = t_compare_value ?t c"
      "t_irq_enabled ?t c" "t_irq_bound ?t c" "t_calls ?t = t_calls s"
    using run hit assms(3,4) by (simp_all add: timer_tick_power)
  note m = timer_check_state_match32 [OF sel(1) run(1) sel(2,3) s']
  have cfg: "t_cmp_clr ?t c = t_cmp_clr s c" "t_one_shot ?t c = t_one_shot s c"
    by (simp_all add: timer_tick_power)
  show ?thesis using m(1,2) m(3) [OF sel(4,5)] sel(6) hit cfg
    by (auto simp: timer_new_calls_def)
qed

text \<open>
  With the prescaler on, the event is scheduled \<open>prescaler + 1\<close> times later, but \<open>sync\<close>
  still counts every cycle: when the event runs, the counter is past the compare value by
  \<open>(compare - value) * prescaler\<close> (modulo \<open>2^32\<close>), so the match is found only where that
  product is zero.
\<close>

theorem timer_prescaled_alarm_overshoots:
  assumes "timer_runs32 c s" and "t_prescaler s c" and "t_value s c \<noteq> t_compare_value s c"
  shows "t_value ((timer_tick ^^ unat (timer_get_remaining_cycles False c s)) s) c
    = t_compare_value s c
      + (t_compare_value s c - t_value s c) * ucast (t_prescaler_value s c)"
proof -
  let ?d = "t_compare_value s c - t_value s c" and ?p = "t_prescaler_value s c"
  have "timer_get_remaining_cycles False c s = ucast ?d * (ucast ?p + 1)"
    using assms(2,3) by (simp add: timer_get_remaining_cycles_def Let_def)
  then have "ucast (timer_get_remaining_cycles False c s) = ?d * (ucast ?p + 1 :: u32)"
    by (simp add: ucast_times_u32 ucast_plus_u32 ucast_u8_u64_u32)
  moreover have "(of_nat (unat (timer_get_remaining_cycles False c s)) :: u32)
      = ucast (timer_get_remaining_cycles False c s)"
    by (simp add: word_unat_eq_iff unat_ucast_down unsigned_of_nat take_bit_eq_mod)
  ultimately show ?thesis
    by (simp add: timer_tick_value32 [OF assms(1)] algebra_simps)
qed

subsection \<open>Configuration registers\<close>

lemma timer_set_mask_bit:
  "bit (timer_set_mask counter) j \<longleftrightarrow>
     j \<in> {0, 2, 4, 5, 6} \<or> 8 \<le> j \<and> j < 16 \<or> counter = 0 \<and> j = 31"
proof -
  have "(bit_mask 8 - 1 :: u32) = mask 8" by (simp add: bit_mask_def mask_eq_exp_minus_1)
  then have field: "bit (push_bit 8 (bit_mask 8 - 1) :: u32) j \<longleftrightarrow> 8 \<le> j \<and> j < 16"
    by (auto simp: bit_push_bit_iff bit_mask_iff)
  show ?thesis
    by (cases "counter = 0") (auto simp: timer_set_mask_def Let_def bit_or_iff field)
qed

lemma timer_timer_reset_sel [simp]:
  "t_config (timer_timer_reset c s) = t_config s"
  "t_is_enabled (timer_timer_reset c s) = t_is_enabled s"
  "t_irq_enabled (timer_timer_reset c s) = t_irq_enabled s"
  "t_iem (timer_timer_reset c s) = t_iem s"
  "t_cmp_clr (timer_timer_reset c s) = t_cmp_clr s"
  "t_one_shot (timer_timer_reset c s) = t_one_shot s"
  "t_ref_clock (timer_timer_reset c s) = t_ref_clock s"
  "t_prescaler (timer_timer_reset c s) = t_prescaler s"
  "t_prescaler_value (timer_timer_reset c s) = t_prescaler_value s"
  "t_is_64 (timer_timer_reset c s) = t_is_64 s"
  by (simp_all add: timer_timer_reset_def timer_set_value64_def)

lemma timer_depack_config_sel [simp]:
  "t_config (timer_depack_config c w s) = t_config s"
  "t_irq_enabled (timer_depack_config c w s) c = bit w 2"
  "t_iem (timer_depack_config c w s) c = bit w 3"
  "t_cmp_clr (timer_depack_config c w s) c = bit w 4"
  "t_one_shot (timer_depack_config c w s) c = bit w 5"
  "t_prescaler (timer_depack_config c w s) c = bit w 6"
  "t_ref_clock (timer_depack_config c w s) c = bit w 7"
  "t_prescaler_value (timer_depack_config c w s) c = ucast (drop_bit 8 w)"
  "t_is_64 (timer_depack_config 0 w s) = bit w 31"
  by (simp_all add: timer_depack_config_def Let_def)

text \<open>What a write of a configuration word leaves in the fields of its counter.\<close>

lemma timer_configure_write:
  assumes "timer_handle_configure c w True s = (st, d, s')"
  shows "st = IO_REQ_OK" and "d = w" and "t_config s' c = w AND timer_set_mask c"
    and "t_irq_enabled s' c = bit w 2" and "t_iem s' c = bit w 3" and "t_cmp_clr s' c = bit w 4"
    and "t_one_shot s' c = bit w 5" and "t_prescaler s' c = bit w 6" and "t_ref_clock s' c = bit w 7"
    and "t_prescaler_value s' c = ucast (drop_bit 8 w)"
    and "c = 0 \<Longrightarrow> t_is_64 s' = bit w 31"
proof -
  let ?s1 = "s\<lparr>t_config := (t_config s)(c := w)\<rparr>"
  let ?s3 = "if bit w 1 then timer_timer_reset c (timer_depack_config c w ?s1)
    else timer_depack_config c w ?s1"
  have "timer_handle_configure c w True s = (IO_REQ_OK, w,
      timer_check_state (?s3\<lparr>t_config := (t_config ?s3)(c := w AND timer_set_mask c)\<rparr>))"
    by (cases "bit w 1") (simp_all add: timer_handle_configure_def)
  then have s': "s' = timer_check_state (?s3\<lparr>t_config := (t_config ?s3)(c := w AND timer_set_mask c)\<rparr>)"
    and r: "st = IO_REQ_OK" "d = w"
    using assms by (simp_all del: fun_upd_apply)
  show "st = IO_REQ_OK" and "d = w" and "t_config s' c = w AND timer_set_mask c"
    and "t_irq_enabled s' c = bit w 2" and "t_iem s' c = bit w 3" and "t_cmp_clr s' c = bit w 4"
    and "t_one_shot s' c = bit w 5" and "t_prescaler s' c = bit w 6" and "t_ref_clock s' c = bit w 7"
    and "t_prescaler_value s' c = ucast (drop_bit 8 w)"
    using r by (simp_all add: s')
  show "t_is_64 s' = bit w 31" if "c = 0" using that by (simp add: s')
qed

text \<open>
  A write of the START register keeps the fields that the configuration register keeps
  (interrupt enable, mode, one shot, prescaler and cascade), but the input-event mask and the
  reference-clock selection are lost: the configuration write masks their bits away, and the
  START register unpacks the masked word again.
\<close>

theorem timer_start_after_configure:
  assumes "sz \<le> 4" and "sz' \<le> 4"
    and "s1 = snd (snd (timer_req n1 0x00 cfg sz True s))"
    and "s2 = snd (snd (timer_req n2 0x18 d sz' w s1))"
  shows "t_irq_enabled s2 0 = bit cfg 2 \<and> t_cmp_clr s2 0 = bit cfg 4 \<and> t_one_shot s2 0 = bit cfg 5
     \<and> t_prescaler s2 0 = bit cfg 6 \<and> t_is_64 s2 = bit cfg 31
     \<and> t_prescaler_value s2 0 = ucast (drop_bit 8 cfg)
     \<and> t_iem s1 0 = bit cfg 3 \<and> t_ref_clock s1 0 = bit cfg 7
     \<and> \<not> t_iem s2 0 \<and> \<not> t_ref_clock s2 0"
proof -
  let ?cfg2 = "(cfg AND timer_set_mask 0) OR bit_mask 0"
  obtain st d1 where c1: "timer_handle_configure 0 cfg True (timer_sync n1 s) = (st, d1, s1)"
    using assms(1,3) by (cases "timer_handle_configure 0 cfg True (timer_sync n1 s)")
      (simp add: timer_req_def)
  note w1 = timer_configure_write [OF c1]
  have "t_config (timer_sync n2 s1) 0 = cfg AND timer_set_mask 0"
    by (simp add: timer_sync_def w1(3))
  then obtain st2 d2 where c2: "timer_handle_configure 0 ?cfg2 True (timer_sync n2 s1) = (st2, d2, s2)"
    using assms(2,4) by (cases "timer_handle_configure 0 ?cfg2 True (timer_sync n2 s1)")
      (simp add: timer_req_def timer_reconfigure_def)
  note w2 = timer_configure_write [OF c2]
  have pv: "(ucast (drop_bit 8 ?cfg2) :: u8) = ucast (drop_bit 8 cfg)"
    by (rule bit_word_eqI) (auto simp: bit_simps timer_set_mask_bit)
  have "t_prescaler_value s2 0 = ucast (drop_bit 8 cfg)" using w2(10) pv by (simp only:)
  then show ?thesis
    by (simp add: w1(5,9) w2(4-9) w2(11) [OF refl] bit_or_iff bit_and_iff timer_set_mask_bit)
qed

text \<open>
  Accesses wider than 32 bits are refused and change nothing; every other access is accepted,
  and reading a counter register returns the counter as of the current cycle.
\<close>

theorem timer_req_status_and_read:
  "fst (timer_req now off d sz w s) = (if sz > 4 then IO_REQ_INVALID else IO_REQ_OK)
   \<and> (sz > 4 \<longrightarrow> timer_req now off d sz w s = (IO_REQ_INVALID, d, s))
   \<and> (sz \<le> 4 \<longrightarrow> timer_req now 0x08 d sz False s
        = (IO_REQ_OK, t_value (timer_sync now s) 0, timer_sync now s)
      \<and> timer_req now 0x0c d sz False s
        = (IO_REQ_OK, t_value (timer_sync now s) 1, timer_sync now s))"
proof -
  have st: "fst (timer_handle_configure c x w s') = IO_REQ_OK"
    "fst (timer_handle_value c x w s') = IO_REQ_OK"
    "fst (timer_handle_compare c x w s') = IO_REQ_OK" for c x w s'
    by (simp_all add: timer_handle_configure_def timer_handle_value_def timer_handle_compare_def Let_def)
  then have "fst (timer_reconfigure c b x s') = IO_REQ_OK" for c b x s'
    by (cases "timer_handle_configure c (t_config s' c OR bit_mask b) True s'")
      (metis (no_types, lifting) fst_conv prod.case st(1) timer_reconfigure_def)
  with st show ?thesis
    by (simp add: timer_req_def Let_def) (simp add: timer_handle_value_def)
qed

subsection \<open>Witnesses\<close>

definition timer_example :: timer where
  "timer_example = \<lparr>t_value = (\<lambda>_. 3), t_config = (\<lambda>_. 0), t_compare_value = (\<lambda>_. 10),
     t_is_enabled = (\<lambda>_. True), t_irq_enabled = (\<lambda>_. True), t_iem = (\<lambda>_. False),
     t_cmp_clr = (\<lambda>_. True), t_one_shot = (\<lambda>_. False), t_prescaler = (\<lambda>_. False),
     t_ref_clock = (\<lambda>_. False), t_prescaler_value = (\<lambda>_. 1), t_is_64 = False, t_sync_time = 100,
     t_irq_bound = (\<lambda>_. True), t_calls = []\<rparr>"

lemma timer_example_remaining: "timer_get_remaining_cycles False 0 timer_example = 7"
  by (simp add: timer_example_def timer_get_remaining_cycles_def)


theorem timer_alarm_fires_witness:
  "Irq_sync 0 \<in> set (timer_new_calls timer_example (timer_event_handler 107 timer_example))"
  using timer_alarm_fires [of 0 timer_example "timer_event_handler 107 timer_example"]
  by (simp add: timer_example_remaining timer_runs32_def) (simp add: timer_example_def)

theorem timer_prescaled_alarm_overshoots_witness:
  "t_value ((timer_tick ^^ 14) (timer_example\<lparr>t_prescaler := (\<lambda>_. True)\<rparr>)) 0 = 17"
proof -
  let ?s = "timer_example\<lparr>t_prescaler := (\<lambda>_. True)\<rparr>"
  have "timer_get_remaining_cycles False 0 ?s = 14"
    by (simp add: timer_example_def timer_get_remaining_cycles_def)
  with timer_prescaled_alarm_overshoots [of 0 ?s] show ?thesis
    by (simp add: timer_runs32_def) (simp add: timer_example_def)
qed

theorem timer_start_after_configure_witness:
  "\<not> t_ref_clock (snd (snd (timer_req 101 0x18 0 4 True
      (snd (snd (timer_req 100 0x00 0x80 4 True timer_example)))))) 0"
  using timer_start_after_configure [OF _ _ refl refl, of 4 4 101 0 True 100 "0x80" timer_example]
  by simp

theorem timer_req_status_and_read_witness:
  "timer_req 100 0x08 0 4 False timer_example
     = (IO_REQ_OK, t_value (timer_sync 100 timer_example) 0, timer_sync 100 timer_example)"
  using timer_req_status_and_read [of 100 "0x08" 0 4 False timer_example] by simp

end
