(* ===== verification/Itc.thy ===== *)
theory Itc
  imports Event_Fifo
begin

section \<open>The interrupt controller (\<open>src/pulp/itc/itc_v1_impl.cpp\<close>)\<close>

text \<open>
  The controller keeps a pending (\<open>status\<close>) and an enable (\<open>mask\<close>) register and requests the
  highest enabled pending interrupt from the core; \<open>sync_irq\<close> is the number it last requested.
  SoC events go through a circular buffer that raises one interrupt. The record has the members
  of the class; \<open>i_irq_req\<close> collects the values sent on \<open>irq_req_itf\<close>.
\<close>

record itc =
  i_ack :: u32
  i_status :: u32
  i_input_status :: u32
  i_mask :: u32
  i_nb_free_events :: nat
  i_fifo_event_head :: nat
  i_fifo_event_tail :: nat
  i_fifo_event :: "nat \<Rightarrow> u32"
  i_nb_fifo_events :: nat
  i_fifo_irq :: int
  i_sync_irq :: int
  i_trace_irq :: bool
  i_irq_req :: "int list"

definition itc_check_state :: "itc \<Rightarrow> itc" where
  "itc_check_state s =
     (let status_masked = i_status s AND i_mask s;
          irq = irq_of status_masked;
          s1 = s\<lparr>i_trace_irq := (status_masked \<noteq> 0)\<rparr>
      in if irq \<noteq> i_sync_irq s1
         then s1\<lparr>i_sync_irq := irq, i_irq_req := i_irq_req s1 @ [irq]\<rparr> else s1)"

definition itc_status_setValue :: "u32 \<Rightarrow> itc \<Rightarrow> itc" where
  "itc_status_setValue v s = itc_check_state (s\<lparr>i_status := v\<rparr>)"

subsection \<open>Register handlers\<close>

definition itc_mask_ioReq :: "u32 \<Rightarrow> bool \<Rightarrow> itc \<Rightarrow> io_status \<times> u32 \<times> itc" where
  "itc_mask_ioReq data is_write s =
     (if \<not> is_write then (IO_REQ_OK, i_mask s, itc_check_state s)
      else (IO_REQ_OK, data, itc_check_state (s\<lparr>i_mask := data\<rparr>)))"

definition itc_mask_set_ioReq :: "u32 \<Rightarrow> bool \<Rightarrow> itc \<Rightarrow> io_status \<times> u32 \<times> itc" where
  "itc_mask_set_ioReq data is_write s =
     (if \<not> is_write then (IO_REQ_INVALID, data, s)
      else (IO_REQ_OK, data, itc_check_state (s\<lparr>i_mask := i_mask s OR data\<rparr>)))"

definition itc_mask_clr_ioReq :: "u32 \<Rightarrow> bool \<Rightarrow> itc \<Rightarrow> io_status \<times> u32 \<times> itc" where
  "itc_mask_clr_ioReq data is_write s =
     (if \<not> is_write then (IO_REQ_INVALID, data, s)
      else (IO_REQ_OK, data, itc_check_state (s\<lparr>i_mask := i_mask s AND NOT data\<rparr>)))"

definition itc_status_ioReq :: "u32 \<Rightarrow> bool \<Rightarrow> itc \<Rightarrow> io_status \<times> u32 \<times> itc" where
  "itc_status_ioReq data is_write s =
     (if \<not> is_write then (IO_REQ_OK, i_status s, s)
      else (IO_REQ_OK, data, itc_status_setValue data s))"

definition itc_status_set_ioReq :: "u32 \<Rightarrow> bool \<Rightarrow> itc \<Rightarrow> io_status \<times> u32 \<times> itc" where
  "itc_status_set_ioReq data is_write s =
     (if \<not> is_write then (IO_REQ_INVALID, data, s)
      else (IO_REQ_OK, data, itc_status_setValue (i_status s OR data) s))"

definition itc_status_clr_ioReq :: "u32 \<Rightarrow> bool \<Rightarrow> itc \<Rightarrow> io_status \<times> u32 \<times> itc" where
  "itc_status_clr_ioReq data is_write s =
     (if \<not> is_write then (IO_REQ_INVALID, data, s)
      else (IO_REQ_OK, data, itc_status_setValue (i_status s AND NOT data) s))"

definition itc_ack_ioReq :: "u32 \<Rightarrow> bool \<Rightarrow> itc \<Rightarrow> io_status \<times> u32 \<times> itc" where
  "itc_ack_ioReq data is_write s =
     (if \<not> is_write then (IO_REQ_OK, i_ack s, s) else (IO_REQ_OK, data, s\<lparr>i_ack := data\<rparr>))"

definition itc_ack_set_ioReq :: "u32 \<Rightarrow> bool \<Rightarrow> itc \<Rightarrow> io_status \<times> u32 \<times> itc" where
  "itc_ack_set_ioReq data is_write s =
     (if \<not> is_write then (IO_REQ_INVALID, data, s)
      else (IO_REQ_OK, data, s\<lparr>i_ack := i_ack s OR data\<rparr>))"

definition itc_ack_clr_ioReq :: "u32 \<Rightarrow> bool \<Rightarrow> itc \<Rightarrow> io_status \<times> u32 \<times> itc" where
  "itc_ack_clr_ioReq data is_write s =
     (if \<not> is_write then (IO_REQ_INVALID, data, s)
      else (IO_REQ_OK, data, s\<lparr>i_ack := i_ack s AND NOT data\<rparr>))"

definition itc_fifo_ioReq :: "u32 \<Rightarrow> bool \<Rightarrow> itc \<Rightarrow> io_status \<times> u32 \<times> itc" where
  "itc_fifo_ioReq data is_write s =
     (if is_write then (IO_REQ_INVALID, data, s)
      else if i_nb_free_events s = i_nb_fifo_events s then (IO_REQ_OK, 0, s)
      else
        let s1 = s\<lparr>i_fifo_event_tail := ring_next (i_nb_fifo_events s) (i_fifo_event_tail s),
                   i_nb_free_events := Suc (i_nb_free_events s)\<rparr>
        in (IO_REQ_OK, i_fifo_event s (i_fifo_event_tail s),
            if i_nb_free_events s1 \<noteq> i_nb_fifo_events s1
            then itc_status_setValue (i_status s1 OR shl1 (i_fifo_irq s1)) s1 else s1))"

definition itc_req :: "u64 \<Rightarrow> u32 \<Rightarrow> nat \<Rightarrow> bool \<Rightarrow> itc \<Rightarrow> io_status \<times> u32 \<times> itc" where
  "itc_req offset data sz is_write s =
     (if sz \<noteq> 4 then (IO_REQ_INVALID, data, s)
      else if offset = 0x00 then itc_mask_ioReq data is_write s
      else if offset = 0x04 then itc_mask_set_ioReq data is_write s
      else if offset = 0x08 then itc_mask_clr_ioReq data is_write s
      else if offset = 0x0c then itc_status_ioReq data is_write s
      else if offset = 0x10 then itc_status_set_ioReq data is_write s
      else if offset = 0x14 then itc_status_clr_ioReq data is_write s
      else if offset = 0x18 then itc_ack_ioReq data is_write s
      else if offset = 0x1c then itc_ack_set_ioReq data is_write s
      else if offset = 0x20 then itc_ack_clr_ioReq data is_write s
      else if offset = 0x24 then itc_fifo_ioReq data is_write s
      else (IO_REQ_OK, data, s))"

subsection \<open>Wires\<close>

definition itc_soc_event_sync :: "u32 \<Rightarrow> itc \<Rightarrow> itc" where
  "itc_soc_event_sync event s =
     (if i_nb_free_events s = 0 then s
      else
        let s1 = s\<lparr>i_nb_free_events := i_nb_free_events s - 1,
                   i_fifo_event := (i_fifo_event s)(i_fifo_event_head s := event),
                   i_fifo_event_head := ring_next (i_nb_fifo_events s) (i_fifo_event_head s)\<rparr>
        in if i_fifo_irq s1 \<noteq> - 1 \<and> int (i_nb_free_events s1) = int (i_nb_fifo_events s1) - 1
           then itc_status_setValue (i_status s1 OR shl1 (i_fifo_irq s1)) s1 else s1)"

definition itc_irq_ack_sync :: "int \<Rightarrow> itc \<Rightarrow> itc" where
  "itc_irq_ack_sync irq s =
     (let s1 = itc_status_setValue (i_status s AND NOT (shl1 irq)) s
      in itc_check_state (s1\<lparr>i_ack := i_ack s1 OR shl1 irq, i_sync_irq := - 1\<rparr>))"

definition itc_in_event_sync :: "bool \<Rightarrow> int \<Rightarrow> itc \<Rightarrow> itc" where
  "itc_in_event_sync active i s =
     (if active then
        let s1 = itc_status_setValue (i_status s OR shl1 i) s
        in itc_check_state (s1\<lparr>i_input_status := i_input_status s1 OR shl1 i\<rparr>)
      else s)"

definition itc_reset :: "bool \<Rightarrow> itc \<Rightarrow> itc" where
  "itc_reset active s =
     (if active then
        s\<lparr>i_ack := 0, i_sync_irq := - 1, i_nb_free_events := i_nb_fifo_events s,
          i_fifo_event_head := 0, i_fifo_event_tail := 0, i_status := i_input_status s\<rparr>
      else s)"

subsection \<open>The event queue\<close>

definition itc_fifo_inv :: "itc \<Rightarrow> bool" where
  "itc_fifo_inv s \<longleftrightarrow> ring_ok (i_nb_free_events s) (i_fifo_event_head s) (i_fifo_event_tail s)
     (i_nb_fifo_events s)"

definition itc_fifo_contents :: "itc \<Rightarrow> u32 list" where
  "itc_fifo_contents s = ring_queue (i_fifo_event s) (i_nb_free_events s) (i_fifo_event_tail s)
     (i_nb_fifo_events s)"

definition itc_fifo_pop :: "itc \<Rightarrow> u32 \<times> itc" where
  "itc_fifo_pop s = (case itc_fifo_ioReq 0 False s of (_, d, s') \<Rightarrow> (d, s'))"

lemma itc_check_state_sel [simp, frame]:
  "i_ack (itc_check_state s) = i_ack s"
  "i_status (itc_check_state s) = i_status s"
  "i_input_status (itc_check_state s) = i_input_status s"
  "i_mask (itc_check_state s) = i_mask s"
  "i_nb_free_events (itc_check_state s) = i_nb_free_events s"
  "i_fifo_event_head (itc_check_state s) = i_fifo_event_head s"
  "i_fifo_event_tail (itc_check_state s) = i_fifo_event_tail s"
  "i_fifo_event (itc_check_state s) = i_fifo_event s"
  "i_nb_fifo_events (itc_check_state s) = i_nb_fifo_events s"
  "i_fifo_irq (itc_check_state s) = i_fifo_irq s"
  by (simp_all add: itc_check_state_def Let_def)

lemma itc_status_setValue_sel [simp, frame]:
  "i_ack (itc_status_setValue v s) = i_ack s"
  "i_status (itc_status_setValue v s) = v"
  "i_input_status (itc_status_setValue v s) = i_input_status s"
  "i_mask (itc_status_setValue v s) = i_mask s"
  "i_nb_free_events (itc_status_setValue v s) = i_nb_free_events s"
  "i_fifo_event_head (itc_status_setValue v s) = i_fifo_event_head s"
  "i_fifo_event_tail (itc_status_setValue v s) = i_fifo_event_tail s"
  "i_fifo_event (itc_status_setValue v s) = i_fifo_event s"
  "i_nb_fifo_events (itc_status_setValue v s) = i_nb_fifo_events s"
  "i_fifo_irq (itc_status_setValue v s) = i_fifo_irq s"
  by (simp_all add: itc_status_setValue_def)

text \<open>The queue part of a push and of a pop.\<close>

lemma itc_soc_event_sync_queue:
  assumes "i_nb_free_events s \<noteq> 0"
  shows "i_nb_free_events (itc_soc_event_sync e s) = i_nb_free_events s - 1"
    and "i_fifo_event (itc_soc_event_sync e s) = (i_fifo_event s)(i_fifo_event_head s := e)"
    and "i_fifo_event_head (itc_soc_event_sync e s)
      = ring_next (i_nb_fifo_events s) (i_fifo_event_head s)"
    and "i_fifo_event_tail (itc_soc_event_sync e s) = i_fifo_event_tail s"
    and "i_nb_fifo_events (itc_soc_event_sync e s) = i_nb_fifo_events s"
  using assms by (simp_all add: itc_soc_event_sync_def Let_def)

lemma itc_fifo_pop_queue:
  assumes "i_nb_free_events s \<noteq> i_nb_fifo_events s" and "itc_fifo_pop s = (d, s')"
  shows "d = i_fifo_event s (i_fifo_event_tail s)"
    and "i_nb_free_events s' = Suc (i_nb_free_events s)"
    and "i_fifo_event s' = i_fifo_event s"
    and "i_fifo_event_head s' = i_fifo_event_head s"
    and "i_fifo_event_tail s' = ring_next (i_nb_fifo_events s) (i_fifo_event_tail s)"
    and "i_nb_fifo_events s' = i_nb_fifo_events s"
  using assms by (auto simp: itc_fifo_pop_def itc_fifo_ioReq_def Let_def split: if_splits)

lemma itc_push_full: "i_nb_free_events s = 0 \<Longrightarrow> itc_soc_event_sync e s = s"
  by (simp add: itc_soc_event_sync_def)

lemma itc_fifo_inv_push: "itc_fifo_inv s \<Longrightarrow> itc_fifo_inv (itc_soc_event_sync e s)"
  by (cases "i_nb_free_events s = 0")
    (simp_all add: itc_push_full itc_fifo_inv_def itc_soc_event_sync_queue ring_ok_push)

lemma itc_fifo_contents_push:
  assumes "itc_fifo_inv s"
  shows "itc_fifo_contents (itc_soc_event_sync e s) =
    (if length (itc_fifo_contents s) < i_nb_fifo_events s then itc_fifo_contents s @ [e]
     else itc_fifo_contents s)"
proof (cases "i_nb_free_events s = 0")
  case True
  then show ?thesis by (simp add: itc_push_full itc_fifo_contents_def)
next
  case False
  then have "i_nb_fifo_events s - i_nb_free_events s < i_nb_fifo_events s"
    using assms by (auto simp: itc_fifo_inv_def ring_ok_def)
  with False assms show ?thesis
    by (simp add: itc_fifo_contents_def itc_soc_event_sync_queue itc_fifo_inv_def ring_queue_push)
qed

lemma itc_fifo_pop_laws:
  assumes "itc_fifo_inv s" and "itc_fifo_contents s \<noteq> []"
  shows "itc_fifo_inv (snd (itc_fifo_pop s))"
    and "fst (itc_fifo_pop s) = hd (itc_fifo_contents s)"
    and "itc_fifo_contents (snd (itc_fifo_pop s)) = tl (itc_fifo_contents s)"
    and "i_nb_fifo_events (snd (itc_fifo_pop s)) = i_nb_fifo_events s"
proof -
  obtain d s' where p: "itc_fifo_pop s = (d, s')" by (cases "itc_fifo_pop s")
  note ok = assms(1) [unfolded itc_fifo_inv_def]
  have ne: "i_nb_free_events s \<noteq> i_nb_fifo_events s"
    using assms(2) ring_queue_empty [OF ok, of "i_fifo_event s"] by (simp add: itc_fifo_contents_def)
  note q = itc_fifo_pop_queue [OF ne p]
  note c = ring_queue_pop [OF ok ne, of "i_fifo_event s"]
  show "itc_fifo_inv (snd (itc_fifo_pop s))"
    using ring_ok_pop [OF ok ne] by (simp add: p itc_fifo_inv_def q)
  show "fst (itc_fifo_pop s) = hd (itc_fifo_contents s)"
    and "itc_fifo_contents (snd (itc_fifo_pop s)) = tl (itc_fifo_contents s)"
    and "i_nb_fifo_events (snd (itc_fifo_pop s)) = i_nb_fifo_events s"
    by (simp_all add: p q c itc_fifo_contents_def)
qed

interpretation itc_fifo: event_fifo itc_soc_event_sync "\<lambda>e. e" "\<lambda>_ :: unit. itc_fifo_pop"
    "\<lambda>_ _. True" itc_fifo_contents i_nb_fifo_events itc_fifo_inv
proof (unfold_locales, goal_cases)
  case (1 s e)
  then show ?case by (rule itc_fifo_inv_push)
next
  case (3 s e)
  then show ?case
    by (cases "i_nb_free_events s = 0") (simp_all add: itc_push_full itc_soc_event_sync_queue)
next
  case (5 s e)
  then show ?case by (rule itc_fifo_contents_push)
qed (auto intro: itc_fifo_pop_laws)

subsection \<open>The requested interrupt\<close>

definition itc_line_ok :: "itc \<Rightarrow> bool" where
  "itc_line_ok s \<longleftrightarrow> i_sync_irq s = irq_of (i_status s AND i_mask s)"

lemma itc_check_state_line [simp]: "itc_line_ok (itc_check_state s)"
  by (simp add: itc_line_ok_def itc_check_state_def Let_def)

lemma itc_status_setValue_line [simp]: "itc_line_ok (itc_status_setValue v s)"
  by (simp add: itc_status_setValue_def)

text \<open>Everything the environment can do to the controller between two resets.\<close>

datatype itc_op = Itc_req u64 u32 nat bool | Itc_soc_event u32 | Itc_irq_ack int | Itc_in_event bool int

fun itc_step :: "itc_op \<Rightarrow> itc \<Rightarrow> itc" where
  "itc_step (Itc_req off d sz w) s = snd (snd (itc_req off d sz w s))"
| "itc_step (Itc_soc_event e) s = itc_soc_event_sync e s"
| "itc_step (Itc_irq_ack i) s = itc_irq_ack_sync i s"
| "itc_step (Itc_in_event a i) s = itc_in_event_sync a i s"

lemmas itc_req_defs = itc_req_def itc_mask_ioReq_def itc_mask_set_ioReq_def itc_mask_clr_ioReq_def
  itc_status_ioReq_def itc_status_set_ioReq_def itc_status_clr_ioReq_def itc_ack_ioReq_def
  itc_ack_set_ioReq_def itc_ack_clr_ioReq_def itc_fifo_ioReq_def

lemma itc_line_ok_cong:
  "i_sync_irq s' = i_sync_irq s \<Longrightarrow> i_status s' = i_status s \<Longrightarrow> i_mask s' = i_mask s \<Longrightarrow>
     itc_line_ok s' = itc_line_ok s"
  by (simp add: itc_line_ok_def)

lemma itc_step_line: "itc_line_ok s \<Longrightarrow> itc_line_ok (itc_step op s)"
proof (cases op)
  case (Itc_req off d sz w)
  assume "itc_line_ok s"
  then show ?thesis
    by (simp add: Itc_req itc_req_defs Let_def) (simp add: itc_line_ok_def)
next
  case (Itc_soc_event e)
  assume "itc_line_ok s"
  then show ?thesis
    by (simp add: Itc_soc_event itc_soc_event_sync_def Let_def) (simp add: itc_line_ok_def)
next
  case (Itc_irq_ack i)
  then show ?thesis by (simp add: itc_irq_ack_sync_def Let_def)
next
  case (Itc_in_event a i)
  assume "itc_line_ok s"
  then show ?thesis by (simp add: Itc_in_event itc_in_event_sync_def Let_def)
qed

lemma itc_run_line: "itc_line_ok s \<Longrightarrow> itc_line_ok (fold itc_step ops s)"
  by (induction ops arbitrary: s) (auto intro: itc_step_line)

text \<open>
  The operations that end with a check of the requested interrupt in every state: the accesses to
  the mask, the writes to the pending interrupts, an acknowledgement and an active input event.
\<close>

fun itc_checks :: "itc_op \<Rightarrow> bool" where
  "itc_checks (Itc_req off d sz w) \<longleftrightarrow> sz = 4 \<and> (off = 0 \<or> w \<and> off \<in> {0x04, 0x08, 0x0c, 0x10, 0x14})"
| "itc_checks (Itc_soc_event e) \<longleftrightarrow> False"
| "itc_checks (Itc_irq_ack i) \<longleftrightarrow> True"
| "itc_checks (Itc_in_event a i) \<longleftrightarrow> a"

lemma itc_step_checks: "itc_checks op \<Longrightarrow> itc_line_ok (itc_step op s)"
  by (cases op) (auto simp: itc_req_defs itc_irq_ack_sync_def itc_in_event_sync_def Let_def)

text \<open>The value last sent to the core since the state \<open>s0\<close>; -1, no request, when none was sent.\<close>

definition itc_last_sent :: "itc \<Rightarrow> itc \<Rightarrow> int" where
  "itc_last_sent s0 s = last (- 1 # drop (length (i_irq_req s0)) (i_irq_req s))"

text \<open>The core was told what the controller believes it was told.\<close>

definition itc_told :: "itc \<Rightarrow> itc \<Rightarrow> bool" where
  "itc_told s0 s \<longleftrightarrow> (\<exists>xs. i_irq_req s = i_irq_req s0 @ xs \<and> last (- 1 # xs) = i_sync_irq s)"

lemma itc_told_upd [simp]:
  "itc_told s0 (s\<lparr>i_ack := a\<rparr>) = itc_told s0 s"
  "itc_told s0 (s\<lparr>i_mask := m\<rparr>) = itc_told s0 s"
  "itc_told s0 (s\<lparr>i_status := v\<rparr>) = itc_told s0 s"
  "itc_told s0 (s\<lparr>i_input_status := v\<rparr>) = itc_told s0 s"
  "itc_told s0 (s\<lparr>i_nb_free_events := n\<rparr>) = itc_told s0 s"
  "itc_told s0 (s\<lparr>i_fifo_event_head := h\<rparr>) = itc_told s0 s"
  "itc_told s0 (s\<lparr>i_fifo_event_tail := t\<rparr>) = itc_told s0 s"
  "itc_told s0 (s\<lparr>i_fifo_event := f\<rparr>) = itc_told s0 s"
  by (simp_all add: itc_told_def)

lemma itc_check_state_told [simp]:
  assumes "itc_told s0 s"
  shows "itc_told s0 (itc_check_state s)"
proof -
  obtain xs where xs: "i_irq_req s = i_irq_req s0 @ xs" "last (- 1 # xs) = i_sync_irq s"
    using assms by (auto simp only: itc_told_def)
  define irq where "irq = irq_of (i_status s AND i_mask s)"
  have eq: "i_irq_req (itc_check_state s) = (if irq = i_sync_irq s then i_irq_req s
      else i_irq_req s @ [irq])" "i_sync_irq (itc_check_state s) = irq"
    by (simp_all add: itc_check_state_def irq_def Let_def)
  show ?thesis
  proof (cases "irq = i_sync_irq s")
    case True
    with eq xs show ?thesis unfolding itc_told_def by (intro exI [of _ xs]) simp
  next
    case False
    with eq xs(1) show ?thesis unfolding itc_told_def by (intro exI [of _ "xs @ [irq]"]) simp
  qed
qed

lemma itc_status_setValue_told [simp]: "itc_told s0 s \<Longrightarrow> itc_told s0 (itc_status_setValue v s)"
  unfolding itc_status_setValue_def by (rule itc_check_state_told) simp

text \<open>
  An acknowledgement forgets the request without telling the core; this is harmless because the
  core forgets it as well: nothing but -1 was sent last, or the check that follows sends again.
\<close>

lemma itc_told_resend:
  assumes "itc_told s0 t" and "itc_line_ok t"
  shows "itc_told s0 (itc_check_state (t\<lparr>i_ack := a, i_sync_irq := - 1\<rparr>))"
proof (cases "irq_of (i_status t AND i_mask t) = - 1")
  case True
  with assms show ?thesis by (simp add: itc_told_def itc_line_ok_def itc_check_state_def)
next
  case False
  define irq where "irq = irq_of (i_status t AND i_mask t)"
  obtain xs where "i_irq_req t = i_irq_req s0 @ xs" using assms(1) by (auto simp only: itc_told_def)
  then show ?thesis using False unfolding itc_told_def
    by (intro exI [of _ "xs @ [irq]"]) (simp add: itc_check_state_def irq_def Let_def)
qed

lemma itc_irq_ack_told: "itc_told s0 s \<Longrightarrow> itc_told s0 (itc_irq_ack_sync irq s)"
  by (simp add: itc_irq_ack_sync_def Let_def itc_told_resend)

lemma itc_fifo_told: "itc_told s0 s \<Longrightarrow> itc_told s0 (snd (snd (itc_fifo_ioReq d w s)))"
  by (simp add: itc_fifo_ioReq_def Let_def)

lemma itc_register_told:
  assumes "itc_told s0 s"
  shows "itc_told s0 (snd (snd (itc_mask_ioReq d w s)))"
    and "itc_told s0 (snd (snd (itc_mask_set_ioReq d w s)))"
    and "itc_told s0 (snd (snd (itc_mask_clr_ioReq d w s)))"
    and "itc_told s0 (snd (snd (itc_status_ioReq d w s)))"
    and "itc_told s0 (snd (snd (itc_status_set_ioReq d w s)))"
    and "itc_told s0 (snd (snd (itc_status_clr_ioReq d w s)))"
    and "itc_told s0 (snd (snd (itc_ack_ioReq d w s)))"
    and "itc_told s0 (snd (snd (itc_ack_set_ioReq d w s)))"
    and "itc_told s0 (snd (snd (itc_ack_clr_ioReq d w s)))"
  using assms
  by (simp_all add: itc_mask_ioReq_def itc_mask_set_ioReq_def itc_mask_clr_ioReq_def
      itc_status_ioReq_def itc_status_set_ioReq_def itc_status_clr_ioReq_def itc_ack_ioReq_def
      itc_ack_set_ioReq_def itc_ack_clr_ioReq_def)

lemma itc_step_told: "itc_told s0 s \<Longrightarrow> itc_told s0 (itc_step op s)"
proof (cases op)
  case (Itc_req off d sz w)
  then show "itc_told s0 s \<Longrightarrow> ?thesis" by (simp add: itc_req_def itc_fifo_told itc_register_told)
next
  case (Itc_soc_event e)
  then show "itc_told s0 s \<Longrightarrow> ?thesis" by (simp add: itc_soc_event_sync_def Let_def)
next
  case (Itc_irq_ack i)
  then show "itc_told s0 s \<Longrightarrow> ?thesis" by (simp add: itc_irq_ack_told)
next
  case (Itc_in_event a i)
  then show "itc_told s0 s \<Longrightarrow> ?thesis" by (simp add: itc_in_event_sync_def Let_def)
qed

lemma itc_run_told: "itc_told s0 s \<Longrightarrow> itc_told s0 (fold itc_step ops s)"
  by (induction ops arbitrary: s) (auto intro: itc_step_told)

lemma itc_run_line_checked:
  "itc_line_ok s \<or> (\<exists>op \<in> set ops. itc_checks op) \<Longrightarrow> itc_line_ok (fold itc_step ops s)"
proof (induction ops arbitrary: s)
  case Nil
  then show ?case by simp
next
  case (Cons op ops)
  then have "itc_line_ok (itc_step op s) \<or> (\<exists>op \<in> set ops. itc_checks op)"
    using itc_step_line itc_step_checks by auto
  then show ?case using Cons.IH by simp
qed

lemma itc_reset_told: "itc_told s (itc_reset True s)"
  by (simp add: itc_told_def itc_reset_def)

text \<open>
  C39. After a reset of the controller in any state, whatever the software and the wires do up to
  the next one, the value last sent to the core is the highest-numbered interrupt that is pending
  and enabled, and -1 (or nothing) exactly when none is. The reset itself makes the lines that are
  high pending and sends nothing, so when it leaves an enabled one pending, the statement starts
  with the first operation that checks (an access to the mask, a write to the pending interrupts,
  an acknowledgement or an active line).
\<close>

theorem itc_requests_highest_pending:
  assumes "i_input_status s0 AND i_mask s0 = 0 \<or> (\<exists>op \<in> set ops. itc_checks op)"
    and "s = fold itc_step ops (itc_reset True s0)" and "v = itc_last_sent s0 s"
  shows "(v = - 1 \<longleftrightarrow> (\<forall>i<32. \<not> (bit (i_status s) i \<and> bit (i_mask s) i)))
     \<and> (\<forall>i. v = int i \<longrightarrow> bit (i_status s) i \<and> bit (i_mask s) i
          \<and> (\<forall>j>i. \<not> (bit (i_status s) j \<and> bit (i_mask s) j)))"
proof -
  have "itc_line_ok (itc_reset True s0) \<or> (\<exists>op \<in> set ops. itc_checks op)"
    using assms(1) by (auto simp: itc_line_ok_def itc_reset_def irq_of_def)
  then have "i_sync_irq s = irq_of (i_status s AND i_mask s)"
    using itc_run_line_checked assms(2) by (auto simp: itc_line_ok_def)
  moreover have "v = i_sync_irq s"
    using itc_run_told [OF itc_reset_told, of s0 ops] assms(2,3)
    by (auto simp: itc_told_def itc_last_sent_def)
  ultimately show ?thesis
    using irq_of_none [of "i_status s AND i_mask s"] irq_of_some [of "i_status s AND i_mask s"]
      word_nonzero_bit [of "i_status s AND i_mask s"]
    by (auto simp: bit_and_iff)
qed

subsection \<open>The order of the events\<close>

definition itc_pushes :: "itc_op \<Rightarrow> u32 option" where
  "itc_pushes op = (case op of Itc_soc_event e \<Rightarrow> Some e | _ \<Rightarrow> None)"

definition itc_pops :: "itc_op \<Rightarrow> unit option" where
  "itc_pops op = (case op of
     Itc_req off d sz w \<Rightarrow> if off = 0x24 \<and> sz = 4 \<and> \<not> w then Some () else None
   | _ \<Rightarrow> None)"

definition itc_answer :: "itc_op \<Rightarrow> itc \<Rightarrow> u32" where
  "itc_answer op s = (case op of Itc_req off d sz w \<Rightarrow> fst (snd (itc_req off d sz w s)) | _ \<Rightarrow> 0)"

text \<open>Every other access and every wire leaves the queue alone, and so does a read that finds it empty.\<close>

lemma itc_step_queue:
  assumes "itc_pushes op = None" and "itc_pops op = None \<or> i_nb_free_events s = i_nb_fifo_events s"
  shows "i_nb_free_events (itc_step op s) = i_nb_free_events s
     \<and> i_fifo_event_head (itc_step op s) = i_fifo_event_head s
     \<and> i_fifo_event_tail (itc_step op s) = i_fifo_event_tail s
     \<and> i_fifo_event (itc_step op s) = i_fifo_event s
     \<and> i_nb_fifo_events (itc_step op s) = i_nb_fifo_events s"
proof (cases op)
  case (Itc_req off d sz w)
  show ?thesis
  proof (cases "itc_pops op \<noteq> None")
    case True
    then show ?thesis using assms(2) by (simp add: Itc_req itc_pops_def itc_req_defs)
  next
    case False
    then have "off \<noteq> 0x24 \<or> sz \<noteq> 4 \<or> w" by (auto simp: Itc_req itc_pops_def split: if_splits)
    then show ?thesis by (auto simp: Itc_req itc_req_defs Let_def)
  qed
next
  case (Itc_soc_event e)
  then show ?thesis using assms(1) by (simp add: itc_pushes_def)
next
  case (Itc_irq_ack i)
  then show ?thesis by (simp add: itc_irq_ack_sync_def Let_def)
next
  case (Itc_in_event a i)
  then show ?thesis by (simp add: itc_in_event_sync_def Let_def)
qed

lemma itc_fifo_empty:
  "itc_fifo_inv s \<Longrightarrow> itc_fifo_contents s = [] \<longleftrightarrow> i_nb_free_events s = i_nb_fifo_events s"
  unfolding itc_fifo_inv_def itc_fifo_contents_def by (rule ring_queue_empty)

interpretation itc_unit: event_unit_fifo itc_soc_event_sync "\<lambda>e. e" "\<lambda>_. itc_fifo_pop" "\<lambda>_ _. True"
    itc_fifo_contents i_nb_fifo_events itc_fifo_inv itc_step itc_pushes itc_pops itc_answer
proof (unfold_locales, goal_cases)
  case (1 s op e)
  then show ?case by (cases op) (simp_all add: itc_pushes_def)
next
  case (2 s op r)
  then have "i_nb_free_events s \<noteq> i_nb_fifo_events s" by (simp add: itc_fifo_empty)
  then have "(d, t) = itc_fifo_pop s" if "itc_fifo_ioReq x False s = (st, d, t)" for x st d t
    using that by (auto simp: itc_fifo_pop_def itc_fifo_ioReq_def Let_def)
  moreover obtain x where "op = Itc_req 0x24 x 4 False"
    using 2(2) by (cases op) (auto simp: itc_pops_def split: if_splits)
  ultimately show ?case
    by (cases "itc_fifo_ioReq x False s") (simp add: itc_answer_def itc_req_def)
next
  case (3 op r)
  then show ?case by (cases op) (simp_all add: itc_pops_def itc_pushes_def)
next
  case (4 s op)
  then show ?case using itc_step_queue [of op s] itc_fifo_empty [of s]
    by (simp add: itc_fifo_inv_def itc_fifo_contents_def)
qed

text \<open>
  C38. SoC events reach the software in the order they were sent: after a reset, in any interleaving
  of accesses and wires up to the next reset, what the reads of the queue returned, in order,
  followed by what is still queued, is the list of the events that arrived when the queue was not
  full. (An event that finds the queue full is dropped.)
\<close>

theorem itc_fifo_in_order:
  assumes "0 < i_nb_fifo_events s0" and "s = itc_reset True s0"
  shows "op_log itc_step (fifo_taken itc_pops itc_answer itc_fifo_contents) ops s
       @ itc_fifo_contents (fold itc_step ops s)
     = op_log itc_step (fifo_accepted itc_pushes itc_fifo_contents i_nb_fifo_events) ops s"
proof -
  have inv: "itc_fifo_inv s"
    using assms by (simp add: itc_fifo_inv_def itc_reset_def ring_ok_def)
  moreover have "itc_fifo_contents s = []"
    using itc_fifo_empty [OF inv] assms(2) by (simp add: itc_reset_def)
  moreover have "ops_allowed itc_step (fifo_read_free itc_pops (\<lambda>_ _. True)) ops t" for t
    by (induction ops arbitrary: t) (simp_all add: fifo_read_free_def split: option.split)
  ultimately show ?thesis using itc_unit.run_history [of s ops] by simp
qed

subsection \<open>Pending and enabled interrupts as sets\<close>

definition itc_pending :: "itc \<Rightarrow> nat set" where
  "itc_pending s = {i. bit (i_status s) i}"

definition itc_enabled :: "itc \<Rightarrow> nat set" where
  "itc_enabled s = {i. bit (i_mask s) i}"

text \<open>
  The register bank implements two sets of interrupts: the status and mask registers read,
  overwrite, extend and reduce them, an input event adds its interrupt to the pending set and an
  acknowledgement removes it and records it; no access to one set changes the other.
\<close>

theorem itc_registers_are_sets:
  assumes "0 \<le> i" and "i < 32"
  shows "itc_pending (itc_step (Itc_in_event True i) s) = insert (nat i) (itc_pending s)
     \<and> itc_pending (itc_step (Itc_in_event False i) s) = itc_pending s
     \<and> itc_pending (itc_step (Itc_irq_ack i) s) = itc_pending s - {nat i}
     \<and> bit (i_ack (itc_step (Itc_irq_ack i) s)) (nat i)
     \<and> itc_pending (itc_step (Itc_req 0x0c d 4 True) s) = {k. bit d k}
     \<and> itc_pending (itc_step (Itc_req 0x10 d 4 True) s) = itc_pending s \<union> {k. bit d k}
     \<and> itc_pending (itc_step (Itc_req 0x14 d 4 True) s) = itc_pending s - {k. bit d k}
     \<and> itc_enabled (itc_step (Itc_req 0x00 d 4 True) s) = {k. bit d k}
     \<and> itc_enabled (itc_step (Itc_req 0x04 d 4 True) s) = itc_enabled s \<union> {k. bit d k}
     \<and> itc_enabled (itc_step (Itc_req 0x08 d 4 True) s) = itc_enabled s - {k. bit d k}
     \<and> (off \<in> {0x00, 0x04, 0x08} \<longrightarrow> itc_pending (itc_step (Itc_req off d 4 w) s) = itc_pending s)
     \<and> (off \<in> {0x0c, 0x10, 0x14, 0x18, 0x1c, 0x20, 0x24} \<longrightarrow>
          itc_enabled (itc_step (Itc_req off d 4 w) s) = itc_enabled s)"
  using assms
  by (auto simp: itc_pending_def itc_enabled_def itc_req_defs itc_irq_ack_sync_def
      itc_in_event_sync_def Let_def shl1_bit_mask bit_or_iff bit_and_iff bit_not_iff
      dest: bit_imp_le_length)

subsection \<open>Witnesses\<close>

definition itc_example :: itc where
  "itc_example = \<lparr>i_ack = 0, i_status = 0, i_input_status = 0, i_mask = 0xff, i_nb_free_events = 2,
     i_fifo_event_head = 0, i_fifo_event_tail = 0, i_fifo_event = (\<lambda>_. 0), i_nb_fifo_events = 2,
     i_fifo_irq = 5, i_sync_irq = - 1, i_trace_irq = False, i_irq_req = []\<rparr>"

text \<open>How full the queue is, which alone decides what is accepted.\<close>

lemma itc_fifo_fill:
  "length (itc_fifo_contents s) = i_nb_fifo_events s - i_nb_free_events s"
  "i_nb_free_events (itc_soc_event_sync e s) = i_nb_free_events s - 1"
  "i_nb_fifo_events (itc_soc_event_sync e s) = i_nb_fifo_events s"
  "i_nb_free_events (snd (snd (itc_req 0x24 d 4 False s))) =
     (if i_nb_free_events s = i_nb_fifo_events s then i_nb_free_events s
      else Suc (i_nb_free_events s))"
  "i_nb_fifo_events (snd (snd (itc_req 0x24 d 4 False s))) = i_nb_fifo_events s"
  by (simp_all add: itc_fifo_contents_def itc_soc_event_sync_def itc_req_def itc_fifo_ioReq_def Let_def)

text \<open>
  Three events for a queue of two, the first read between the second and the third: all three
  are accepted, and two reads return the first two.
\<close>

theorem itc_fifo_in_order_witness:
  "op_log itc_step (fifo_taken itc_pops itc_answer itc_fifo_contents)
     [Itc_soc_event 7, Itc_soc_event 8, Itc_req 0x24 0 4 False, Itc_soc_event 9, Itc_req 0x24 0 4 False]
     (itc_reset True itc_example)
   @ itc_fifo_contents (fold itc_step
     [Itc_soc_event 7, Itc_soc_event 8, Itc_req 0x24 0 4 False, Itc_soc_event 9, Itc_req 0x24 0 4 False]
     (itc_reset True itc_example)) = [7, 8, 9]"
proof -
  have "0 < i_nb_fifo_events itc_example" by (simp add: itc_example_def)
  note order = itc_fifo_in_order [OF this refl]
  show ?thesis
    unfolding order
    by (simp add: fifo_accepted_def itc_pushes_def itc_fifo_fill itc_reset_def)
      (simp add: itc_example_def)
qed

theorem itc_requests_highest_pending_witness:
  "itc_last_sent itc_example (itc_step (Itc_in_event True 3) (itc_reset True itc_example)) \<noteq> - 1"
  using itc_requests_highest_pending [OF _ refl refl, of itc_example "[Itc_in_event True 3]"]
  by (simp add: itc_in_event_sync_def itc_reset_def itc_example_def shl1_def
      Let_def itc_status_setValue_def itc_check_state_def bit_simps exI [of _ 3])

theorem itc_registers_are_sets_witness:
  "itc_pending (itc_step (Itc_in_event True 3) itc_example) = insert 3 (itc_pending itc_example)"
  using itc_registers_are_sets [of 3 itc_example] by simp

end
