(* ===== verification/Event_Unit.thy ===== *)
theory Event_Unit
  imports Prelude
begin

section \<open>The cluster event unit: state and core interface
  (\<open>src/pulp/event_unit/eu_v3_impl.cpp\<close>)\<close>

text \<open>
  The event unit puts cores to sleep and wakes them up. This theory has its whole state, the
  per-core unit (\<open>Core_event_unit\<close>), the broadcast of events to cores and the SoC event queue;
  mutexes, dispatch and barriers, which use them, are in \<open>Event_Unit_Sync\<close>.

  An interconnect request is a number; the word its data pointer points to is kept in
  \<open>e_req_data\<close>, because a request that was parked is answered, and its data written, by a
  later operation. Calls on ports and clock events are appended to \<open>e_calls\<close>; whether a clock
  event is enqueued is a flag of the core, cleared when its handler runs. Arrays indexed by core,
  mutex, dispatch entry or barrier are functions, used below their configured size.
\<close>

datatype core_state =
    CORE_STATE_NONE | CORE_STATE_WAITING_EVENT | CORE_STATE_WAITING_BARRIER | CORE_STATE_SKIP_ELW

datatype eu_call =
    Clock_sync nat bool
  | Irq_req nat int
  | Resp nat "nat option"
  | Inc_latency nat nat
  | Enqueue_wakeup nat nat
  | Enqueue_irq_wakeup nat nat

record core_eu =
  c_status :: u32
  c_evt_mask :: u32
  c_irq_mask :: u32
  c_clear_evt_mask :: u32
  c_sync_irq :: int
  c_pending_elw :: bool
  c_pending_req_is_wait :: bool
  c_state :: core_state
  c_pending_req :: "nat option"
  c_is_active :: bool
  c_wakeup_enqueued :: bool
  c_irq_wakeup_enqueued :: bool

record mutex =
  m_locked :: bool
  m_waiting_mask :: u32
  m_value :: u32
  m_waiting_reqs :: "nat \<Rightarrow> nat"

record dispatch =
  d_value :: u32
  d_status_mask :: u32
  d_config_mask :: u32
  d_waiting_mask :: u32
  d_waiting_reqs :: "nat \<Rightarrow> nat"

record barrier =
  b_core_mask :: u32
  b_status :: u32
  b_target_mask :: u32

record event_unit =
  e_nb_core :: nat
  e_cores :: "nat \<Rightarrow> core_eu"
  e_nb_mutexes :: nat
  e_mutex_event :: int
  e_mutexes :: "nat \<Rightarrow> mutex"
  e_dispatch_event :: int
  e_dispatch_size :: nat
  e_dispatch_config :: u32
  e_dispatch_fifo_head :: nat
  e_dispatch_tail :: "nat \<Rightarrow> nat"
  e_dispatches :: "nat \<Rightarrow> dispatch"
  e_nb_barriers :: nat
  e_barrier_event :: int
  e_barriers :: "nat \<Rightarrow> barrier"
  e_nb_fifo_events :: nat
  e_nb_free_events :: nat
  e_fifo_event_head :: nat
  e_fifo_event_tail :: nat
  e_fifo_event :: "nat \<Rightarrow> u32"
  e_fifo_soc_event :: int
  e_req_data :: "nat \<Rightarrow> u32"
  e_calls :: "eu_call list"

definition EU_WAKEUP_REQ_LATENCY :: nat where
  "EU_WAKEUP_REQ_LATENCY = 6"

definition EU_WAKEUP_LATENCY :: nat where
  "EU_WAKEUP_LATENCY = 2"

subsection \<open>Access to the state\<close>

definition upd_core :: "nat \<Rightarrow> (core_eu \<Rightarrow> core_eu) \<Rightarrow> event_unit \<Rightarrow> event_unit" where
  "upd_core c f s = s\<lparr>e_cores := (e_cores s)(c := f (e_cores s c))\<rparr>"

definition eu_call :: "eu_call \<Rightarrow> event_unit \<Rightarrow> event_unit" where
  "eu_call x s = s\<lparr>e_calls := e_calls s @ [x]\<rparr>"

definition set_req_data :: "nat \<Rightarrow> u32 \<Rightarrow> event_unit \<Rightarrow> event_unit" where
  "set_req_data r d s = s\<lparr>e_req_data := (e_req_data s)(r := d)\<rparr>"

definition eu_enqueue_wakeup :: "nat \<Rightarrow> event_unit \<Rightarrow> event_unit" where
  "eu_enqueue_wakeup c s =
     eu_call (Enqueue_wakeup c EU_WAKEUP_LATENCY) (upd_core c (c_wakeup_enqueued_update (\<lambda>_. True)) s)"

definition eu_enqueue_irq_wakeup :: "nat \<Rightarrow> event_unit \<Rightarrow> event_unit" where
  "eu_enqueue_irq_wakeup c s =
     eu_call (Enqueue_irq_wakeup c EU_WAKEUP_LATENCY)
       (upd_core c (c_irq_wakeup_enqueued_update (\<lambda>_. True)) s)"

subsection \<open>The recursion of \<open>check_state\<close>\<close>

text \<open>
  \<open>check_state\<close> may wake a core up, which clears events of that core, which makes the SoC event
  unit re-broadcast its event, which runs \<open>check_state\<close> again on every core. The functions below
  are those of the code with that recursive call as the parameter \<open>chk\<close>.
\<close>

definition eu_set_status :: "nat \<Rightarrow> u32 \<Rightarrow> event_unit \<Rightarrow> event_unit" where
  "eu_set_status c v = upd_core c (c_status_update (\<lambda>_. v))"

definition eu_send_event_with ::
    "(nat \<Rightarrow> event_unit \<Rightarrow> event_unit) \<Rightarrow> nat \<Rightarrow> u32 \<Rightarrow> event_unit \<Rightarrow> event_unit" where
  "eu_send_event_with chk c m s = chk c (eu_set_status c (c_status (e_cores s c) OR m) s)"

fun eu_trigger_loop ::
    "(nat \<Rightarrow> event_unit \<Rightarrow> event_unit) \<Rightarrow> u32 \<Rightarrow> u32 \<Rightarrow> nat list \<Rightarrow> event_unit \<Rightarrow> event_unit" where
  "eu_trigger_loop chk m core_mask [] s = s"
| "eu_trigger_loop chk m core_mask (i # is) s =
     eu_trigger_loop chk m core_mask is
       (if core_mask = 0 \<or> core_mask AND shl1 (int i) \<noteq> 0 then eu_send_event_with chk i m s else s)"

definition eu_trigger_event_with ::
    "(nat \<Rightarrow> event_unit \<Rightarrow> event_unit) \<Rightarrow> u32 \<Rightarrow> u32 \<Rightarrow> event_unit \<Rightarrow> event_unit" where
  "eu_trigger_event_with chk m core_mask s = eu_trigger_loop chk m core_mask [0..<e_nb_core s] s"

definition eu_soc_check_state_with ::
    "(nat \<Rightarrow> event_unit \<Rightarrow> event_unit) \<Rightarrow> event_unit \<Rightarrow> event_unit" where
  "eu_soc_check_state_with chk s =
     (if e_fifo_soc_event s \<noteq> - 1 \<and> e_nb_free_events s \<noteq> e_nb_fifo_events s
      then eu_trigger_event_with chk (shl1 (e_fifo_soc_event s)) (- 1) s else s)"

definition eu_clear_status_with ::
    "(nat \<Rightarrow> event_unit \<Rightarrow> event_unit) \<Rightarrow> nat \<Rightarrow> u32 \<Rightarrow> event_unit \<Rightarrow> event_unit" where
  "eu_clear_status_with chk c m s =
     eu_soc_check_state_with chk (upd_core c (c_status_update (\<lambda>v. v AND NOT m)) s)"

definition eu_check_wait_mask_with ::
    "(nat \<Rightarrow> event_unit \<Rightarrow> event_unit) \<Rightarrow> nat \<Rightarrow> event_unit \<Rightarrow> event_unit" where
  "eu_check_wait_mask_with chk c s =
     (if c_clear_evt_mask (e_cores s c) \<noteq> 0
      then upd_core c (c_clear_evt_mask_update (\<lambda>_. 0))
             (eu_clear_status_with chk c (c_clear_evt_mask (e_cores s c)) s)
      else s)"

definition eu_wake_core_with ::
    "(nat \<Rightarrow> event_unit \<Rightarrow> event_unit) \<Rightarrow> nat \<Rightarrow> event_unit \<Rightarrow> event_unit" where
  "eu_wake_core_with chk c s =
     (let cu = e_cores s c;
          s1 = (case c_pending_req cu of
                  Some r \<Rightarrow> (if c_state cu = CORE_STATE_WAITING_EVENT \<and> c_pending_req_is_wait cu
                             then set_req_data r (c_evt_mask cu AND c_status cu) s else s)
                | None \<Rightarrow> s);
          s2 = upd_core c (c_state_update (\<lambda>_. CORE_STATE_NONE)) s1;
          s3 = eu_check_wait_mask_with chk c s2
      in if \<not> c_wakeup_enqueued (e_cores s3 c) then eu_enqueue_wakeup c s3 else s3)"

definition eu_check_state_body ::
    "(nat \<Rightarrow> event_unit \<Rightarrow> event_unit) \<Rightarrow> nat \<Rightarrow> event_unit \<Rightarrow> event_unit" where
  "eu_check_state_body chk c s =
     (let cu = e_cores s c;
          status_irq_masked = c_status cu AND c_irq_mask cu;
          status_evt_masked = c_status cu AND c_evt_mask cu;
          irq = irq_of status_irq_masked
      in if c_is_active cu then
           (if irq \<noteq> c_sync_irq cu
            then eu_call (Irq_req c irq) (upd_core c (c_sync_irq_update (\<lambda>_. irq)) s) else s)
         else if status_irq_masked \<noteq> 0 \<and> status_evt_masked = 0 then
           (let s1 = upd_core c (c_pending_elw_update (\<lambda>_. True)) s
            in if \<not> c_irq_wakeup_enqueued (e_cores s1 c)
               then upd_core c (c_sync_irq_update (\<lambda>_. - 1)) (eu_enqueue_irq_wakeup c s1) else s1)
         else if status_evt_masked \<noteq> 0 then
           (if c_pending_elw cu
            then upd_core c (c_state_update (\<lambda>_. CORE_STATE_SKIP_ELW)) s
            else (case c_state cu of
                    CORE_STATE_WAITING_EVENT \<Rightarrow> eu_wake_core_with chk c s
                  | CORE_STATE_WAITING_BARRIER \<Rightarrow> eu_wake_core_with chk c s
                  | _ \<Rightarrow> s))
         else s)"

text \<open>
  The recursion to a given depth, with an arbitrary function in place of the calls below it.
  \<open>Event_Unit_Core\<close> shows that depth \<open>nb_core + 2\<close> is enough for every state: the result does not
  depend on that function, and \<open>eu_check_state\<close> satisfies the recursive equation of the code.
\<close>

fun eu_check_state_depth ::
    "(nat \<Rightarrow> event_unit \<Rightarrow> event_unit) \<Rightarrow> nat \<Rightarrow> nat \<Rightarrow> event_unit \<Rightarrow> event_unit" where
  "eu_check_state_depth d 0 c s = d c s"
| "eu_check_state_depth d (Suc n) c s = eu_check_state_body (eu_check_state_depth d n) c s"

definition eu_check_state :: "nat \<Rightarrow> event_unit \<Rightarrow> event_unit" where
  "eu_check_state c s = eu_check_state_depth (\<lambda>_ s. s) (e_nb_core s + 2) c s"

definition eu_send_event :: "nat \<Rightarrow> u32 \<Rightarrow> event_unit \<Rightarrow> event_unit" where
  "eu_send_event = eu_send_event_with eu_check_state"

definition eu_trigger_event :: "u32 \<Rightarrow> u32 \<Rightarrow> event_unit \<Rightarrow> event_unit" where
  "eu_trigger_event = eu_trigger_event_with eu_check_state"

definition eu_soc_check_state :: "event_unit \<Rightarrow> event_unit" where
  "eu_soc_check_state = eu_soc_check_state_with eu_check_state"

definition eu_clear_status :: "nat \<Rightarrow> u32 \<Rightarrow> event_unit \<Rightarrow> event_unit" where
  "eu_clear_status = eu_clear_status_with eu_check_state"

definition eu_check_wait_mask :: "nat \<Rightarrow> event_unit \<Rightarrow> event_unit" where
  "eu_check_wait_mask = eu_check_wait_mask_with eu_check_state"

subsection \<open>Sleeping and waking up\<close>

definition eu_put_to_sleep ::
    "nat \<Rightarrow> nat \<Rightarrow> core_state \<Rightarrow> event_unit \<Rightarrow> io_status \<times> event_unit" where
  "eu_put_to_sleep c r wait_state s =
     (let s1 = upd_core c (\<lambda>cu. cu\<lparr>c_state := wait_state, c_is_active := False\<rparr>) s;
          s2 = eu_call (Clock_sync c False) s1
      in (IO_REQ_PENDING, upd_core c (c_pending_req_update (\<lambda>_. Some r)) s2))"

definition eu_wait_event ::
    "nat \<Rightarrow> nat \<Rightarrow> core_state \<Rightarrow> event_unit \<Rightarrow> io_status \<times> event_unit" where
  "eu_wait_event c r wait_state s =
     (let s0 = eu_call (Inc_latency r EU_WAKEUP_REQ_LATENCY) s;
          cu = e_cores s0 c
      in if c_evt_mask cu AND c_status cu \<noteq> 0 then
           (let s1 = set_req_data r (c_evt_mask cu AND c_status cu) s0;
                s2 = eu_check_wait_mask c s1;
                s3 = upd_core c (c_pending_req_update (\<lambda>_. Some r)) s2
            in (IO_REQ_PENDING, eu_enqueue_wakeup c s3))
         else eu_put_to_sleep c r wait_state s0)"

definition eu_wakeup_handler :: "nat \<Rightarrow> event_unit \<Rightarrow> event_unit" where
  "eu_wakeup_handler c s =
     (let s1 = upd_core c (\<lambda>cu. cu\<lparr>c_wakeup_enqueued := False, c_is_active := True\<rparr>) s;
          s2 = eu_call (Clock_sync c True) s1;
          s3 = eu_call (Resp c (c_pending_req (e_cores s2 c))) s2
      in eu_check_state c s3)"

definition eu_irq_wakeup_handler :: "nat \<Rightarrow> event_unit \<Rightarrow> event_unit" where
  "eu_irq_wakeup_handler c s =
     (let s1 = upd_core c (\<lambda>cu. cu\<lparr>c_irq_wakeup_enqueued := False, c_is_active := True\<rparr>) s
      in eu_check_state c (eu_call (Clock_sync c True) s1))"

definition eu_irq_ack_sync :: "int \<Rightarrow> nat \<Rightarrow> event_unit \<Rightarrow> event_unit" where
  "eu_irq_ack_sync irq c s =
     eu_check_state c
       (upd_core c (c_sync_irq_update (\<lambda>_. - 1)) (eu_clear_status c (shl1 irq) s))"

text \<open>The wire number packs the core (\<open>id >> 16\<close>) and the event (\<open>id & 0xffff\<close>).\<close>

definition eu_in_event_sync :: "bool \<Rightarrow> nat \<Rightarrow> event_unit \<Rightarrow> event_unit" where
  "eu_in_event_sync active wire s =
     (let core_id = wire div 2 ^ 16; event_id = wire mod 2 ^ 16
      in eu_check_state core_id
           (eu_set_status core_id (c_status (e_cores s core_id) OR shl1 (int event_id)) s))"

definition core_eu_reset :: "core_eu \<Rightarrow> core_eu" where
  "core_eu_reset cu = cu\<lparr>c_status := 0, c_evt_mask := 0, c_irq_mask := 0,
     c_pending_req_is_wait := False, c_clear_evt_mask := 0, c_sync_irq := - 1,
     c_pending_elw := False, c_state := CORE_STATE_NONE\<rparr>"

subsection \<open>Registers of one core\<close>

text \<open>
  \<open>Core_event_unit::req\<close>: the data word of request \<open>r\<close> is read and written through
  \<open>e_req_data\<close>.
\<close>

definition eu_core_req ::
    "nat \<Rightarrow> nat \<Rightarrow> nat \<Rightarrow> bool \<Rightarrow> event_unit \<Rightarrow> io_status \<times> event_unit" where
  "eu_core_req c r offset is_write s =
     (let cu = e_cores s c; data = e_req_data s r
      in if offset = 0x1c then
           (if is_write then (IO_REQ_INVALID, s)
            else (IO_REQ_OK, set_req_data r (c_status cu) s))
         else if offset = 0x20 then
           (if is_write then (IO_REQ_INVALID, s)
            else (IO_REQ_OK, set_req_data r (c_status cu AND c_evt_mask cu) s))
         else if offset = 0x28 then
           (if \<not> is_write then (IO_REQ_INVALID, s)
            else (IO_REQ_OK, eu_check_state c (eu_clear_status c data s)))
         else if offset = 0x00 then
           (if \<not> is_write then (IO_REQ_OK, set_req_data r (c_evt_mask cu) s)
            else (IO_REQ_OK, eu_check_state c (upd_core c (c_evt_mask_update (\<lambda>_. data)) s)))
         else if offset = 0x04 then
           (if \<not> is_write then (IO_REQ_INVALID, s)
            else (IO_REQ_OK, eu_check_state c
                    (upd_core c (c_evt_mask_update (\<lambda>m. m AND NOT data)) s)))
         else if offset = 0x08 then
           (if \<not> is_write then (IO_REQ_INVALID, s)
            else (IO_REQ_OK, eu_check_state c (upd_core c (c_evt_mask_update (\<lambda>m. m OR data)) s)))
         else if offset = 0x18 then (IO_REQ_INVALID, s)
         else if offset = 0x38 then
           (if is_write then (IO_REQ_INVALID, s)
            else eu_wait_event c r CORE_STATE_WAITING_EVENT
                   (upd_core c (c_pending_req_is_wait_update (\<lambda>_. True)) s))
         else if offset = 0x3c then
           eu_wait_event c r CORE_STATE_WAITING_EVENT
             (upd_core c (\<lambda>cu. cu\<lparr>c_clear_evt_mask := c_evt_mask cu,
                                 c_pending_req_is_wait := True\<rparr>) s)
         else if offset = 0x0c then
           (if \<not> is_write then (IO_REQ_OK, set_req_data r (c_irq_mask cu) s)
            else (IO_REQ_OK, eu_check_state c (upd_core c (c_irq_mask_update (\<lambda>_. data)) s)))
         else if offset = 0x24 then
           (if is_write then (IO_REQ_INVALID, s)
            else (IO_REQ_OK, set_req_data r (c_status cu AND c_irq_mask cu) s))
         else if offset = 0x10 then
           (if \<not> is_write then (IO_REQ_INVALID, s)
            else (IO_REQ_OK, eu_check_state c
                    (upd_core c (c_irq_mask_update (\<lambda>m. m AND NOT data)) s)))
         else if offset = 0x14 then
           (if \<not> is_write then (IO_REQ_INVALID, s)
            else (IO_REQ_OK, eu_check_state c (upd_core c (c_irq_mask_update (\<lambda>m. m OR data)) s)))
         else (IO_REQ_INVALID, s))"

subsection \<open>Software events\<close>

text \<open>
  \<open>sw_events_req\<close>. The bounds are those of the code: the sizes of the three areas are all 0x40
  and are compared with the offset itself, so the second and third ranges are empty.
\<close>

definition eu_sw_events_req ::
    "nat \<Rightarrow> nat \<Rightarrow> bool \<Rightarrow> event_unit \<Rightarrow> io_status \<times> event_unit" where
  "eu_sw_events_req r offset is_write s =
     (if 0x00 \<le> offset \<and> offset < 0x40 then
        (if \<not> is_write then (IO_REQ_INVALID, s)
         else (IO_REQ_OK, eu_trigger_event (shl1 (int (offset div 4))) (e_req_data s r) s))
      else if 0x40 \<le> offset \<and> offset < 0x40 then (IO_REQ_OK, s)
      else if 0x80 \<le> offset \<and> offset < 0x40 then (IO_REQ_OK, s)
      else (IO_REQ_INVALID, s))"

subsection \<open>The SoC event queue\<close>

definition eu_soc_event_reset :: "event_unit \<Rightarrow> event_unit" where
  "eu_soc_event_reset s =
     s\<lparr>e_nb_free_events := e_nb_fifo_events s, e_fifo_event_head := 0, e_fifo_event_tail := 0\<rparr>"

definition eu_soc_event_sync :: "u32 \<Rightarrow> event_unit \<Rightarrow> event_unit" where
  "eu_soc_event_sync event s =
     (if e_nb_free_events s = 0 then s
      else eu_soc_check_state
        (s\<lparr>e_nb_free_events := e_nb_free_events s - 1,
           e_fifo_event := (e_fifo_event s)(e_fifo_event_head s := event),
           e_fifo_event_head := ring_next (e_nb_fifo_events s) (e_fifo_event_head s)\<rparr>))"

definition eu_soc_ioReq :: "nat \<Rightarrow> bool \<Rightarrow> event_unit \<Rightarrow> io_status \<times> event_unit" where
  "eu_soc_ioReq r is_write s =
     (if is_write then (IO_REQ_INVALID, s)
      else if e_nb_free_events s = e_nb_fifo_events s then (IO_REQ_OK, set_req_data r 0 s)
      else
        let s1 = set_req_data r (bit_mask 31 OR e_fifo_event s (e_fifo_event_tail s)) s;
            s2 = s1\<lparr>e_fifo_event_tail := ring_next (e_nb_fifo_events s1) (e_fifo_event_tail s1),
                    e_nb_free_events := Suc (e_nb_free_events s1)\<rparr>
        in (IO_REQ_OK,
            if e_nb_free_events s2 \<noteq> e_nb_fifo_events s2
            then eu_trigger_event (shl1 (e_fifo_soc_event s2)) (- 1) s2 else s2))"

end
