(* ===== verification/Event_Unit_Core.thy ===== *)
theory Event_Unit_Core
  imports Event_Unit
begin

section \<open>The event unit: the recursion of \<open>check_state\<close> and what it keeps\<close>

text \<open>
  Termination of the recursion between \<open>check_state\<close> and the SoC event re-broadcast, the recursive
  equation the code states, the fields these functions never write, and the effect of a broadcast
  when the SoC event queue is empty.
\<close>

subsection \<open>Access laws\<close>

lemma upd_core_sel [simp]:
  "e_cores (upd_core c f s) = (e_cores s)(c := f (e_cores s c))"
  "e_nb_core (upd_core c f s) = e_nb_core s"
  "e_req_data (upd_core c f s) = e_req_data s"
  "e_calls (upd_core c f s) = e_calls s"
  "e_nb_free_events (upd_core c f s) = e_nb_free_events s"
  "e_nb_fifo_events (upd_core c f s) = e_nb_fifo_events s"
  "e_fifo_soc_event (upd_core c f s) = e_fifo_soc_event s"
  by (simp_all add: upd_core_def)

lemma eu_call_sel [simp]:
  "e_cores (eu_call x s) = e_cores s"
  "e_nb_core (eu_call x s) = e_nb_core s"
  "e_req_data (eu_call x s) = e_req_data s"
  "e_calls (eu_call x s) = e_calls s @ [x]"
  "e_nb_free_events (eu_call x s) = e_nb_free_events s"
  "e_nb_fifo_events (eu_call x s) = e_nb_fifo_events s"
  "e_fifo_soc_event (eu_call x s) = e_fifo_soc_event s"
  by (simp_all add: eu_call_def)

lemma set_req_data_sel [simp]:
  "e_cores (set_req_data r d s) = e_cores s"
  "e_nb_core (set_req_data r d s) = e_nb_core s"
  "e_req_data (set_req_data r d s) = (e_req_data s)(r := d)"
  "e_calls (set_req_data r d s) = e_calls s"
  "e_nb_free_events (set_req_data r d s) = e_nb_free_events s"
  "e_nb_fifo_events (set_req_data r d s) = e_nb_fifo_events s"
  "e_fifo_soc_event (set_req_data r d s) = e_fifo_soc_event s"
  by (simp_all add: set_req_data_def)

lemma eu_set_status_sel [simp]:
  "e_cores (eu_set_status c v s) = (e_cores s)(c := (e_cores s c)\<lparr>c_status := v\<rparr>)"
  "e_nb_core (eu_set_status c v s) = e_nb_core s"
  "e_req_data (eu_set_status c v s) = e_req_data s"
  "e_calls (eu_set_status c v s) = e_calls s"
  by (simp_all add: eu_set_status_def)

subsection \<open>Frame: only cores, request data and calls change\<close>

definition eu_frame :: "event_unit \<Rightarrow> event_unit \<Rightarrow> bool" where
  "eu_frame s s' \<longleftrightarrow>
     s' = s\<lparr>e_cores := e_cores s', e_req_data := e_req_data s', e_calls := e_calls s'\<rparr>"

lemma eu_frame_refl [simp]: "eu_frame s s"
  by (simp add: eu_frame_def)

lemma eu_frame_iff:
  "eu_frame s s' \<longleftrightarrow> (
     e_nb_core s' = e_nb_core s \<and> e_nb_mutexes s' = e_nb_mutexes s \<and> e_mutex_event s' = e_mutex_event s
   \<and> e_mutexes s' = e_mutexes s \<and> e_dispatch_event s' = e_dispatch_event s
   \<and> e_dispatch_size s' = e_dispatch_size s \<and> e_dispatch_config s' = e_dispatch_config s
   \<and> e_dispatch_fifo_head s' = e_dispatch_fifo_head s \<and> e_dispatch_tail s' = e_dispatch_tail s
   \<and> e_dispatches s' = e_dispatches s \<and> e_nb_barriers s' = e_nb_barriers s
   \<and> e_barrier_event s' = e_barrier_event s \<and> e_barriers s' = e_barriers s
   \<and> e_nb_fifo_events s' = e_nb_fifo_events s \<and> e_nb_free_events s' = e_nb_free_events s
   \<and> e_fifo_event_head s' = e_fifo_event_head s \<and> e_fifo_event_tail s' = e_fifo_event_tail s
   \<and> e_fifo_event s' = e_fifo_event s \<and> e_fifo_soc_event s' = e_fifo_soc_event s
   \<and> event_unit.more s' = event_unit.more s)" (is "?L = ?R")
proof
  assume "eu_frame s s'"
  then obtain a b d where s': "s' = s\<lparr>e_cores := a, e_req_data := b, e_calls := d\<rparr>"
    unfolding eu_frame_def by blast
  show "?R" by (simp add: s')
next
  assume "?R"
  then show "eu_frame s s'" unfolding eu_frame_def by (intro event_unit.equality) simp_all
qed

lemma eu_frame_trans: "eu_frame s t \<Longrightarrow> eu_frame t u \<Longrightarrow> eu_frame s u"
  by (simp add: eu_frame_iff)

lemma eu_frame_upd_core [intro, simp]: "eu_frame s (upd_core c f t) = eu_frame s t"
  by (simp add: eu_frame_iff upd_core_def)

lemma eu_frame_call [simp]: "eu_frame s (eu_call x t) = eu_frame s t"
  by (simp add: eu_frame_iff eu_call_def)

lemma eu_frame_set_req_data [simp]: "eu_frame s (set_req_data r d t) = eu_frame s t"
  by (simp add: eu_frame_iff set_req_data_def)

lemma eu_frame_set_status [simp]: "eu_frame s (eu_set_status c v t) = eu_frame s t"
  by (simp add: eu_set_status_def)

lemma eu_frame_enqueue [simp]:
  "eu_frame s (eu_enqueue_wakeup c t) = eu_frame s t"
  "eu_frame s (eu_enqueue_irq_wakeup c t) = eu_frame s t"
  by (simp_all add: eu_enqueue_wakeup_def eu_enqueue_irq_wakeup_def)

subsection \<open>Sleeping cores, the measure of the recursion\<close>

definition eu_waiting :: "core_eu \<Rightarrow> bool" where
  "eu_waiting cu \<longleftrightarrow> c_state cu \<in> {CORE_STATE_WAITING_EVENT, CORE_STATE_WAITING_BARRIER}"

definition eu_sleepers :: "event_unit \<Rightarrow> nat" where
  "eu_sleepers s = card {c. c < e_nb_core s \<and> eu_waiting (e_cores s c)}"

lemma eu_sleepers_le: "eu_sleepers s \<le> e_nb_core s"
proof -
  have "eu_sleepers s \<le> card {..<e_nb_core s}"
    unfolding eu_sleepers_def by (rule card_mono) auto
  then show ?thesis by simp
qed

lemma eu_sleepers_mono:
  assumes "e_nb_core s' = e_nb_core s"
    and "\<And>c. eu_waiting (e_cores s' c) \<Longrightarrow> eu_waiting (e_cores s c)"
  shows "eu_sleepers s' \<le> eu_sleepers s"
  unfolding eu_sleepers_def using assms by (intro card_mono) auto

lemma eu_sleepers_less:
  assumes "e_nb_core s' = e_nb_core s" and "c < e_nb_core s" and "eu_waiting (e_cores s c)"
    and "\<not> eu_waiting (e_cores s' c)" and "\<And>c. eu_waiting (e_cores s' c) \<Longrightarrow> eu_waiting (e_cores s c)"
  shows "eu_sleepers s' < eu_sleepers s"
  unfolding eu_sleepers_def using assms by (intro psubset_card_mono) auto

text \<open>What a call of \<open>check_state\<close> may do: no core starts to wait, and the frame is kept.\<close>

definition eu_calm :: "event_unit \<Rightarrow> event_unit \<Rightarrow> bool" where
  "eu_calm s s' \<longleftrightarrow> eu_frame s s' \<and> (\<forall>c. eu_waiting (e_cores s' c) \<longrightarrow> eu_waiting (e_cores s c))"

lemma eu_calm_refl [simp]: "eu_calm s s"
  by (simp add: eu_calm_def)

lemma eu_calm_trans: "eu_calm s t \<Longrightarrow> eu_calm t u \<Longrightarrow> eu_calm s u"
  by (auto simp: eu_calm_def intro: eu_frame_trans)

lemma eu_calm_sleepers: "eu_calm s s' \<Longrightarrow> eu_sleepers s' \<le> eu_sleepers s"
  by (auto simp: eu_calm_def eu_frame_iff intro: eu_sleepers_mono)

lemma eu_calm_frame: "eu_calm s s' \<Longrightarrow> eu_frame s s'"
  by (simp add: eu_calm_def)

lemma eu_calm_nb_core: "eu_calm s s' \<Longrightarrow> e_nb_core s' = e_nb_core s"
  by (simp add: eu_calm_def eu_frame_iff)

lemma eu_calm_upd_core:
  "(eu_waiting (f (e_cores t c)) \<Longrightarrow> eu_waiting (e_cores t c)) \<Longrightarrow> eu_calm s t \<Longrightarrow>
     eu_calm s (upd_core c f t)"
  by (auto simp: eu_calm_def)

lemma eu_calm_basic:
  "eu_calm s t \<Longrightarrow> eu_calm s (eu_call x t)"
  "eu_calm s t \<Longrightarrow> eu_calm s (set_req_data r d t)"
  "eu_calm s t \<Longrightarrow> eu_calm s (eu_set_status c v t)"
  "eu_calm s t \<Longrightarrow> eu_calm s (eu_enqueue_wakeup c t)"
  "eu_calm s t \<Longrightarrow> eu_calm s (eu_enqueue_irq_wakeup c t)"
  by (auto simp: eu_calm_def eu_waiting_def eu_enqueue_wakeup_def eu_enqueue_irq_wakeup_def)

text \<open>
  The functions that take the recursive call as a parameter are calm if it is, on the states with
  at most the given number of sleepers; and two such calls that agree there give the same result.
\<close>

definition eu_calm_below :: "nat \<Rightarrow> (nat \<Rightarrow> event_unit \<Rightarrow> event_unit) \<Rightarrow> bool" where
  "eu_calm_below n chk \<longleftrightarrow> (\<forall>c s. c < e_nb_core s \<longrightarrow> eu_sleepers s \<le> n \<longrightarrow> eu_calm s (chk c s))"

definition eu_agree_below ::
    "nat \<Rightarrow> (nat \<Rightarrow> event_unit \<Rightarrow> event_unit) \<Rightarrow> (nat \<Rightarrow> event_unit \<Rightarrow> event_unit) \<Rightarrow> bool" where
  "eu_agree_below n f g \<longleftrightarrow> (\<forall>c s. c < e_nb_core s \<longrightarrow> eu_sleepers s \<le> n \<longrightarrow> f c s = g c s)"

lemma eu_send_event_calm:
  assumes "eu_calm_below n chk" and "c < e_nb_core s" and "eu_sleepers s \<le> n"
  shows "eu_calm s (eu_send_event_with chk c m s)"
proof -
  let ?t = "eu_set_status c (c_status (e_cores s c) OR m) s"
  have "eu_calm s ?t" by (intro eu_calm_basic) simp
  moreover from this have "eu_calm ?t (chk c ?t)"
    using assms eu_calm_sleepers [of s ?t] by (simp add: eu_calm_below_def)
  ultimately show ?thesis unfolding eu_send_event_with_def by (rule eu_calm_trans)
qed

lemma eu_trigger_loop_calm:
  assumes "eu_calm_below n chk" and "eu_sleepers s \<le> n" and "\<forall>i \<in> set is. i < e_nb_core s"
  shows "eu_calm s (eu_trigger_loop chk m cm is s)"
  using assms
proof (induction "is" arbitrary: s)
  case Nil
  then show ?case by simp
next
  case (Cons i "is")
  let ?t = "if cm = 0 \<or> cm AND shl1 (int i) \<noteq> 0 then eu_send_event_with chk i m s else s"
  have calm: "eu_calm s ?t" using Cons.prems eu_send_event_calm by auto
  then have "eu_sleepers ?t \<le> n" and "\<forall>i \<in> set is. i < e_nb_core ?t"
    using Cons.prems eu_calm_sleepers [OF calm] eu_calm_nb_core [OF calm] by auto
  then have "eu_calm ?t (eu_trigger_loop chk m cm is ?t)"
    using Cons.IH Cons.prems(1) by blast
  with calm show ?case by (auto intro: eu_calm_trans)
qed

lemma eu_trigger_loop_agree:
  assumes "eu_calm_below n f" and "eu_agree_below n f g" and "eu_sleepers s \<le> n"
    and "\<forall>i \<in> set is. i < e_nb_core s"
  shows "eu_trigger_loop f m cm is s = eu_trigger_loop g m cm is s"
  using assms
proof (induction "is" arbitrary: s)
  case Nil
  then show ?case by simp
next
  case (Cons i "is")
  let ?t = "\<lambda>h. if cm = 0 \<or> cm AND shl1 (int i) \<noteq> 0 then eu_send_event_with h i m s else s"
  have "eu_calm s (eu_set_status i (c_status (e_cores s i) OR m) s)"
    by (intro eu_calm_basic) simp
  then have "eu_sleepers (eu_set_status i (c_status (e_cores s i) OR m) s) \<le> n"
    using eu_calm_sleepers Cons.prems(3) le_trans by blast
  then have same: "?t f = ?t g"
    using Cons.prems(2,4) by (auto simp: eu_send_event_with_def eu_agree_below_def)
  have calm: "eu_calm s (?t f)" using Cons.prems eu_send_event_calm by auto
  then have "eu_sleepers (?t f) \<le> n" and "\<forall>j \<in> set is. j < e_nb_core (?t f)"
    using Cons.prems eu_calm_sleepers [OF calm] eu_calm_nb_core [OF calm] by auto
  with Cons.IH Cons.prems(1,2) show ?case by (simp only: eu_trigger_loop.simps same)
qed

lemma eu_soc_check_calm:
  assumes "eu_calm_below n chk" and "eu_sleepers s \<le> n"
  shows "eu_calm s (eu_soc_check_state_with chk s)"
  using eu_trigger_loop_calm [OF assms, of "[0..<e_nb_core s]"]
  by (simp add: eu_soc_check_state_with_def eu_trigger_event_with_def)

lemma eu_soc_check_agree:
  assumes "eu_calm_below n f" and "eu_agree_below n f g" and "eu_sleepers s \<le> n"
  shows "eu_soc_check_state_with f s = eu_soc_check_state_with g s"
  using eu_trigger_loop_agree [OF assms, of "[0..<e_nb_core s]"]
  by (simp add: eu_soc_check_state_with_def eu_trigger_event_with_def)

lemma eu_status_clear_calm: "eu_calm s (upd_core c (c_status_update (\<lambda>v. v AND NOT m)) s)"
  by (rule eu_calm_upd_core) (simp_all add: eu_waiting_def)

lemma eu_clear_status_calm:
  assumes "eu_calm_below n chk" and "eu_sleepers s \<le> n"
  shows "eu_calm s (eu_clear_status_with chk c m s)"
proof -
  note clear = eu_status_clear_calm [of s c m]
  then show ?thesis
    unfolding eu_clear_status_with_def
    using assms eu_calm_sleepers [OF clear] by (auto intro!: eu_calm_trans [OF clear] eu_soc_check_calm)
qed

lemma eu_clear_status_agree:
  assumes "eu_calm_below n f" and "eu_agree_below n f g" and "eu_sleepers s \<le> n"
  shows "eu_clear_status_with f c m s = eu_clear_status_with g c m s"
  unfolding eu_clear_status_with_def
  using assms le_trans [OF eu_calm_sleepers [OF eu_status_clear_calm [of s c m]]]
  by (intro eu_soc_check_agree) auto

lemma eu_check_wait_mask_calm:
  assumes "eu_calm_below n chk" and "eu_sleepers s \<le> n"
  shows "eu_calm s (eu_check_wait_mask_with chk c s)"
  unfolding eu_check_wait_mask_with_def
  using eu_clear_status_calm [OF assms] by (auto intro!: eu_calm_upd_core simp: eu_waiting_def)

lemma eu_check_wait_mask_agree:
  assumes "eu_calm_below n f" and "eu_agree_below n f g" and "eu_sleepers s \<le> n"
  shows "eu_check_wait_mask_with f c s = eu_check_wait_mask_with g c s"
  unfolding eu_check_wait_mask_with_def using eu_clear_status_agree [OF assms] by simp

text \<open>Waking a core up: it stops waiting before the recursion starts.\<close>

definition eu_wake_start :: "nat \<Rightarrow> event_unit \<Rightarrow> event_unit" where
  "eu_wake_start c s =
     upd_core c (c_state_update (\<lambda>_. CORE_STATE_NONE))
       (case c_pending_req (e_cores s c) of
          Some r \<Rightarrow> (if c_state (e_cores s c) = CORE_STATE_WAITING_EVENT
                       \<and> c_pending_req_is_wait (e_cores s c)
                    then set_req_data r (c_evt_mask (e_cores s c) AND c_status (e_cores s c)) s else s)
        | None \<Rightarrow> s)"

lemma eu_wake_core_start:
  "eu_wake_core_with chk c s =
     (let s3 = eu_check_wait_mask_with chk c (eu_wake_start c s)
      in if \<not> c_wakeup_enqueued (e_cores s3 c) then eu_enqueue_wakeup c s3 else s3)"
  by (simp add: eu_wake_core_with_def eu_wake_start_def Let_def cong: option.case_cong)

lemma eu_wake_start_calm: "eu_calm s (eu_wake_start c s)"
  unfolding eu_wake_start_def
  by (rule eu_calm_upd_core) (auto simp: eu_waiting_def eu_calm_basic split: option.splits)

lemma eu_wake_start_cores:
  "e_cores (eu_wake_start c s) = (e_cores s)(c := (e_cores s c)\<lparr>c_state := CORE_STATE_NONE\<rparr>)"
  by (auto simp: eu_wake_start_def split: option.splits)

lemma eu_wake_start_sleepers:
  assumes "c < e_nb_core s" and "eu_waiting (e_cores s c)"
  shows "eu_sleepers (eu_wake_start c s) < eu_sleepers s"
  using eu_wake_start_calm [of s c] assms
  by (intro eu_sleepers_less [of _ s c])
    (auto simp: eu_wake_start_cores eu_waiting_def eu_calm_nb_core eu_calm_def)

lemma eu_wake_core_calm:
  assumes "eu_calm_below n chk" and "eu_sleepers (eu_wake_start c s) \<le> n"
  shows "eu_calm s (eu_wake_core_with chk c s)"
proof -
  have "eu_calm s (eu_check_wait_mask_with chk c (eu_wake_start c s))"
    using eu_check_wait_mask_calm [OF assms] eu_wake_start_calm by (rule eu_calm_trans [rotated])
  then show ?thesis by (simp add: eu_wake_core_start Let_def eu_calm_basic)
qed

lemma eu_wake_core_agree:
  assumes "eu_calm_below n f" and "eu_agree_below n f g" and "eu_sleepers (eu_wake_start c s) \<le> n"
  shows "eu_wake_core_with f c s = eu_wake_core_with g c s"
  unfolding eu_wake_core_start using eu_check_wait_mask_agree [OF assms] by simp

text \<open>
  The body of \<open>check_state\<close>, split by what it does. \<open>eu_wakes\<close> is the only case that recurses.
\<close>

definition eu_wakes :: "core_eu \<Rightarrow> bool" where
  "eu_wakes cu \<longleftrightarrow> \<not> c_is_active cu \<and> c_status cu AND c_evt_mask cu \<noteq> 0 \<and> \<not> c_pending_elw cu
     \<and> eu_waiting cu"

definition eu_check_awake :: "nat \<Rightarrow> event_unit \<Rightarrow> event_unit" where
  "eu_check_awake c s =
     (let irq = irq_of (c_status (e_cores s c) AND c_irq_mask (e_cores s c))
      in if irq \<noteq> c_sync_irq (e_cores s c)
         then eu_call (Irq_req c irq) (upd_core c (c_sync_irq_update (\<lambda>_. irq)) s) else s)"

definition eu_check_irq_wake :: "nat \<Rightarrow> event_unit \<Rightarrow> event_unit" where
  "eu_check_irq_wake c s =
     (let s1 = upd_core c (c_pending_elw_update (\<lambda>_. True)) s
      in if \<not> c_irq_wakeup_enqueued (e_cores s1 c)
         then upd_core c (c_sync_irq_update (\<lambda>_. - 1)) (eu_enqueue_irq_wakeup c s1) else s1)"

definition eu_check_rest :: "nat \<Rightarrow> event_unit \<Rightarrow> event_unit" where
  "eu_check_rest c s =
     (if c_is_active (e_cores s c) then eu_check_awake c s
      else if c_status (e_cores s c) AND c_evt_mask (e_cores s c) = 0 then
        (if c_status (e_cores s c) AND c_irq_mask (e_cores s c) \<noteq> 0 then eu_check_irq_wake c s else s)
      else if c_pending_elw (e_cores s c)
      then upd_core c (c_state_update (\<lambda>_. CORE_STATE_SKIP_ELW)) s else s)"

lemma eu_check_state_body_cases:
  "eu_check_state_body f c s =
     (if eu_wakes (e_cores s c) then eu_wake_core_with f c s else eu_check_rest c s)"
proof (cases "c_is_active (e_cores s c)")
  case True
  then show ?thesis
    by (simp add: eu_check_state_body_def eu_wakes_def eu_check_rest_def eu_check_awake_def
        Let_def)
next
  case inactive: False
  show ?thesis
  proof (cases "c_status (e_cores s c) AND c_evt_mask (e_cores s c) = 0")
    case True
    with inactive show ?thesis
      by (simp add: eu_check_state_body_def eu_wakes_def eu_check_rest_def eu_check_irq_wake_def)
  next
    case False
    with inactive show ?thesis
      by (cases "c_state (e_cores s c)")
        (simp_all add: eu_check_state_body_def eu_wakes_def eu_check_rest_def eu_waiting_def)
  qed
qed

lemma eu_check_rest_calm: "eu_calm s (eu_check_rest c s)"
proof -
  have "eu_calm s (eu_check_awake c s)"
    by (auto simp: eu_check_awake_def Let_def eu_waiting_def intro!: eu_calm_basic eu_calm_upd_core)
  moreover have "eu_calm s (eu_check_irq_wake c s)"
    by (auto simp: eu_check_irq_wake_def Let_def eu_waiting_def intro!: eu_calm_basic eu_calm_upd_core)
  moreover have "eu_calm s (upd_core c (c_state_update (\<lambda>_. CORE_STATE_SKIP_ELW)) s)"
    by (rule eu_calm_upd_core) (simp_all add: eu_waiting_def)
  ultimately show ?thesis by (simp add: eu_check_rest_def)
qed

subsection \<open>Termination\<close>

lemma eu_depth_calm: "eu_calm_below n (eu_check_state_depth d (Suc n))"
proof (induction n)
  case 0
  have "eu_calm s (eu_check_state_depth d (Suc 0) c s)"
    if "c < e_nb_core s" "eu_sleepers s \<le> 0" for c s
  proof -
    have "\<not> eu_wakes (e_cores s c)"
      using eu_wake_start_sleepers [OF that(1)] that(2) by (auto simp: eu_wakes_def)
    then show ?thesis by (simp add: eu_check_state_body_cases eu_check_rest_calm)
  qed
  then show ?case by (simp add: eu_calm_below_def)
next
  case (Suc n)
  have "eu_calm s (eu_check_state_depth d (Suc (Suc n)) c s)"
    if "c < e_nb_core s" "eu_sleepers s \<le> Suc n" for c s
  proof (cases "eu_wakes (e_cores s c)")
    case True
    then have "eu_sleepers (eu_wake_start c s) \<le> n"
      using eu_wake_start_sleepers [OF that(1)] that(2) by (auto simp: eu_wakes_def)
    moreover have "eu_check_state_depth d (Suc (Suc n)) c s
        = eu_wake_core_with (eu_check_state_depth d (Suc n)) c s"
      by (simp only: eu_check_state_depth.simps(2) [of d "Suc n"] eu_check_state_body_cases True if_True)
    ultimately show ?thesis using eu_wake_core_calm [OF Suc.IH] by metis
  next
    case False
    then show ?thesis by (simp add: eu_check_state_body_cases eu_check_rest_calm)
  qed
  then show ?case by (simp add: eu_calm_below_def)
qed

lemma eu_calm_below_mono: "eu_calm_below n f \<Longrightarrow> m \<le> n \<Longrightarrow> eu_calm_below m f"
  by (auto simp: eu_calm_below_def)

lemma eu_depth_calm_below: "m < n \<Longrightarrow> eu_calm_below m (eu_check_state_depth d n)"
  using eu_calm_below_mono [OF eu_depth_calm [of "n - 1" d]] by auto

lemma eu_depth_step:
  "eu_check_state_depth d (Suc n) c s =
     (if eu_wakes (e_cores s c) then eu_wake_core_with (eu_check_state_depth d n) c s
      else eu_check_rest c s)"
  by (simp only: eu_check_state_depth.simps eu_check_state_body_cases)

lemma eu_depth_agree:
  "m < n \<Longrightarrow> m < n' \<Longrightarrow> eu_agree_below m (eu_check_state_depth d n) (eu_check_state_depth d' n')"
proof (induction m arbitrary: n n')
  case 0
  then obtain k k' where n: "n = Suc k" "n' = Suc k'" by (metis gr0_implies_Suc)
  have "\<not> eu_wakes (e_cores s c)" if "c < e_nb_core s" "eu_sleepers s \<le> 0" for c s
    using eu_wake_start_sleepers [OF that(1)] that(2) by (auto simp: eu_wakes_def)
  then show ?case by (simp add: eu_agree_below_def n eu_depth_step del: eu_check_state_depth.simps)
next
  case (Suc m)
  then obtain k k' where n: "n = Suc k" "n' = Suc k'" by (metis less_imp_Suc_add)
  with Suc.prems have k: "m < k" "m < k'" by simp_all
  have "eu_wake_core_with (eu_check_state_depth d k) c s = eu_wake_core_with (eu_check_state_depth d' k') c s"
    if "c < e_nb_core s" "eu_sleepers s \<le> Suc m" "eu_wakes (e_cores s c)" for c s
  proof (rule eu_wake_core_agree [OF eu_depth_calm_below [OF k(1)] Suc.IH [OF k]])
    show "eu_sleepers (eu_wake_start c s) \<le> m"
      using eu_wake_start_sleepers [OF that(1)] that(2,3) by (auto simp: eu_wakes_def)
  qed
  then show ?case by (auto simp: eu_agree_below_def n eu_depth_step simp del: eu_check_state_depth.simps)
qed

text \<open>At depth \<open>nb_core + 2\<close> and beyond nothing depends on what stands in for deeper calls.\<close>

lemma eu_depth_enough:
  assumes "e_nb_core s + 2 \<le> n" and "e_nb_core s + 2 \<le> n'"
  shows "eu_check_state_depth d n c s = eu_check_state_depth d' n' c s"
proof -
  obtain k k' where n: "n = Suc k" "n' = Suc k'" and k: "e_nb_core s < k" "e_nb_core s < k'"
    using assms by (cases n; cases n') auto
  have "eu_sleepers (eu_wake_start c s) \<le> e_nb_core s"
    using eu_sleepers_le [of "eu_wake_start c s"] eu_wake_start_calm [of s c] by (simp add: eu_calm_nb_core)
  then have "eu_wake_core_with (eu_check_state_depth d k) c s
      = eu_wake_core_with (eu_check_state_depth d' k') c s"
    by (intro eu_wake_core_agree [OF eu_depth_calm_below [OF k(1)] eu_depth_agree [OF k]])
  then show ?thesis by (simp add: n eu_depth_step del: eu_check_state_depth.simps)
qed

lemma eu_check_state_agree: "n \<le> m \<Longrightarrow> eu_agree_below n (eu_check_state_depth d (Suc m)) eu_check_state"
proof -
  assume nm: "n \<le> m"
  have "eu_check_state_depth d (Suc m) c s = eu_check_state c s"
    if "c < e_nb_core s" "eu_sleepers s \<le> n" for c s
  proof -
    have "eu_sleepers s < Suc m" and "eu_sleepers s < e_nb_core s + 2"
      using that(2) nm eu_sleepers_le [of s] by simp_all
    note agree = eu_depth_agree [OF this, of d "\<lambda>_ s. s"]
    show ?thesis unfolding eu_check_state_def
      using agree that(1) by (simp add: eu_agree_below_def del: eu_check_state_depth.simps)
  qed
  then show ?thesis by (simp add: eu_agree_below_def)
qed

lemma eu_check_state_unfold: "eu_check_state c s = eu_check_state_body eu_check_state c s"
proof -
  have "eu_sleepers (eu_wake_start c s) \<le> e_nb_core s"
    using eu_sleepers_le [of "eu_wake_start c s"] eu_wake_start_calm [of s c] by (simp add: eu_calm_nb_core)
  then have "eu_wake_core_with (eu_check_state_depth (\<lambda>_ s. s) (Suc (e_nb_core s))) c s
      = eu_wake_core_with eu_check_state c s"
    by (intro eu_wake_core_agree [OF eu_depth_calm eu_check_state_agree]) auto
  then show ?thesis
    by (simp add: eu_check_state_def eu_depth_step eu_check_state_body_cases
        numeral_2_eq_2 del: eu_check_state_depth.simps)
qed

lemma eu_check_state_calm: "eu_calm s (eu_check_state c s)"
proof -
  have "eu_sleepers (eu_wake_start c s) \<le> e_nb_core s"
    using eu_sleepers_le [of "eu_wake_start c s"] eu_wake_start_calm [of s c] by (simp add: eu_calm_nb_core)
  then have "eu_calm s (eu_wake_core_with (eu_check_state_depth (\<lambda>_ s. s) (Suc (e_nb_core s))) c s)"
    by (rule eu_wake_core_calm [OF eu_depth_calm])
  then show ?thesis
    by (simp add: eu_check_state_def eu_depth_step eu_check_rest_calm
        numeral_2_eq_2 del: eu_check_state_depth.simps)
qed

subsection \<open>The functions of the code, with their recursive calls\<close>

declare eu_check_state_depth.simps [simp del]

text \<open>
  C35. The recursion of \<open>check_state\<close> ends: for every state of the event unit and every core the
  result at depth \<open>nb_core + 2\<close> is independent of what is put in place of deeper calls, and the
  function it defines satisfies the recursive equation of the code.
\<close>

theorem eu_check_state_terminates:
  "eu_check_state_depth d (e_nb_core s + 2) c s = eu_check_state c s
   \<and> eu_check_state c s = eu_check_state_body eu_check_state c s"
  using eu_depth_enough [of s "e_nb_core s + 2" "e_nb_core s + 2" d c "\<lambda>_ s. s"]
    eu_check_state_unfold [of c s]
  by (simp add: eu_check_state_def)

lemma eu_check_state_calm_below: "eu_calm_below n eu_check_state"
  by (simp add: eu_calm_below_def eu_check_state_calm)

lemma eu_trigger_event_calm: "eu_calm s (eu_trigger_event m cm s)"
  using eu_trigger_loop_calm [OF eu_check_state_calm_below order_refl, of "[0..<e_nb_core s]" s]
  by (simp add: eu_trigger_event_def eu_trigger_event_with_def)

lemma eu_soc_check_state_calm: "eu_calm s (eu_soc_check_state s)"
  unfolding eu_soc_check_state_def by (rule eu_soc_check_calm [OF eu_check_state_calm_below order_refl])

lemma eu_clear_status_calm': "eu_calm s (eu_clear_status c m s)"
  unfolding eu_clear_status_def by (rule eu_clear_status_calm [OF eu_check_state_calm_below order_refl])

lemma eu_check_wait_mask_calm': "eu_calm s (eu_check_wait_mask c s)"
  unfolding eu_check_wait_mask_def
  by (rule eu_check_wait_mask_calm [OF eu_check_state_calm_below order_refl])

lemmas eu_calms = eu_check_state_calm eu_trigger_event_calm eu_soc_check_state_calm
  eu_clear_status_calm' eu_check_wait_mask_calm'

lemmas eu_frames = eu_calms [THEN eu_calm_frame]

lemma eu_frame_sel:
  assumes "eu_frame s s'"
  shows "e_nb_core s' = e_nb_core s" "e_nb_mutexes s' = e_nb_mutexes s"
    "e_mutex_event s' = e_mutex_event s" "e_mutexes s' = e_mutexes s"
    "e_dispatch_event s' = e_dispatch_event s" "e_dispatch_size s' = e_dispatch_size s"
    "e_dispatch_config s' = e_dispatch_config s" "e_dispatch_fifo_head s' = e_dispatch_fifo_head s"
    "e_dispatch_tail s' = e_dispatch_tail s" "e_dispatches s' = e_dispatches s"
    "e_nb_barriers s' = e_nb_barriers s" "e_barrier_event s' = e_barrier_event s"
    "e_barriers s' = e_barriers s" "e_nb_fifo_events s' = e_nb_fifo_events s"
    "e_nb_free_events s' = e_nb_free_events s" "e_fifo_event_head s' = e_fifo_event_head s"
    "e_fifo_event_tail s' = e_fifo_event_tail s" "e_fifo_event s' = e_fifo_event s"
    "e_fifo_soc_event s' = e_fifo_soc_event s"
  using assms by (simp_all add: eu_frame_iff)

lemmas eu_check_state_sel [simp, frame] = eu_frame_sel [OF eu_frames(1)]
lemmas eu_trigger_event_sel [simp, frame] = eu_frame_sel [OF eu_frames(2)]
lemmas eu_soc_check_state_sel [simp, frame] = eu_frame_sel [OF eu_frames(3)]
lemmas eu_clear_status_sel [simp, frame] = eu_frame_sel [OF eu_frames(4)]
lemmas eu_check_wait_mask_sel [simp, frame] = eu_frame_sel [OF eu_frames(5)]

lemma eu_check_state_eq:
  "eu_check_state c s =
     (if eu_wakes (e_cores s c) then eu_wake_core_with eu_check_state c s else eu_check_rest c s)"
  using eu_check_state_unfold [of c s] by (simp add: eu_check_state_body_cases)

subsection \<open>Broadcasts while the SoC event queue is empty\<close>

definition eu_quiet :: "event_unit \<Rightarrow> bool" where
  "eu_quiet s \<longleftrightarrow> e_fifo_soc_event s = - 1 \<or> e_nb_free_events s = e_nb_fifo_events s"

text \<open>What \<open>check_state\<close> promises of the core it is called on, as a function of that core alone.\<close>

definition core_settle :: "core_eu \<Rightarrow> core_eu" where
  "core_settle cu =
     (if c_is_active cu then cu\<lparr>c_sync_irq := irq_of (c_status cu AND c_irq_mask cu)\<rparr>
      else if c_status cu AND c_evt_mask cu = 0 then
        (if c_status cu AND c_irq_mask cu = 0 then cu
         else if c_irq_wakeup_enqueued cu then cu\<lparr>c_pending_elw := True\<rparr>
         else cu\<lparr>c_pending_elw := True, c_irq_wakeup_enqueued := True, c_sync_irq := - 1\<rparr>)
      else if c_pending_elw cu then cu\<lparr>c_state := CORE_STATE_SKIP_ELW\<rparr>
      else if eu_waiting cu then
        cu\<lparr>c_state := CORE_STATE_NONE, c_status := c_status cu AND NOT (c_clear_evt_mask cu),
           c_clear_evt_mask := 0, c_wakeup_enqueued := True\<rparr>
      else cu)"

lemma eu_quiet_frame: "eu_frame s s' \<Longrightarrow> eu_quiet s' = eu_quiet s"
  by (simp add: eu_quiet_def eu_frame_sel)

lemma eu_soc_check_quiet: "eu_quiet s \<Longrightarrow> eu_soc_check_state_with chk s = s"
  by (auto simp: eu_soc_check_state_with_def eu_quiet_def)

lemma eu_check_wait_mask_quiet:
  assumes "eu_quiet s"
  shows "e_cores (eu_check_wait_mask_with chk c s) = (e_cores s)(c :=
      (e_cores s c)\<lparr>c_status := c_status (e_cores s c) AND NOT (c_clear_evt_mask (e_cores s c)),
                    c_clear_evt_mask := 0\<rparr>)"
proof -
  have "eu_quiet (upd_core c (c_status_update (\<lambda>v. v AND NOT m)) s)" for m
    using assms by (simp add: eu_quiet_def)
  then show ?thesis
    by (cases "e_cores s c")
      (auto simp: eu_check_wait_mask_with_def eu_clear_status_with_def eu_soc_check_quiet)
qed

lemma eu_wake_core_quiet:
  assumes "eu_quiet s"
  shows "e_cores (eu_wake_core_with chk c s) = (e_cores s)(c := (e_cores s c)
      \<lparr>c_state := CORE_STATE_NONE,
       c_status := c_status (e_cores s c) AND NOT (c_clear_evt_mask (e_cores s c)),
       c_clear_evt_mask := 0, c_wakeup_enqueued := True\<rparr>)"
proof -
  have "eu_quiet (eu_wake_start c s)"
    using assms eu_quiet_frame [OF eu_calm_frame [OF eu_wake_start_calm]] by blast
  note q = eu_check_wait_mask_quiet [OF this, of chk c]
  show ?thesis
    by (cases "e_cores s c")
      (auto simp: eu_wake_core_start Let_def eu_enqueue_wakeup_def q eu_wake_start_cores)
qed

lemma eu_check_rest_cores:
  "\<not> eu_wakes (e_cores s c) \<Longrightarrow>
     e_cores (eu_check_rest c s) = (e_cores s)(c := core_settle (e_cores s c))"
  by (auto simp: eu_check_rest_def eu_check_awake_def eu_check_irq_wake_def core_settle_def
      eu_enqueue_irq_wakeup_def eu_wakes_def Let_def)

lemma eu_check_state_quiet:
  assumes "eu_quiet s"
  shows "e_cores (eu_check_state c s) = (e_cores s)(c := core_settle (e_cores s c))"
proof (cases "eu_wakes (e_cores s c)")
  case True
  then show ?thesis
    using eu_wake_core_quiet [OF assms]
    by (simp add: eu_check_state_eq core_settle_def eu_wakes_def)
next
  case False
  then show ?thesis by (simp add: eu_check_state_eq eu_check_rest_cores)
qed

lemma eu_send_event_quiet:
  assumes "eu_quiet s"
  shows "e_cores (eu_send_event c m s)
    = (e_cores s)(c := core_settle ((e_cores s c)\<lparr>c_status := c_status (e_cores s c) OR m\<rparr>))"
proof -
  have "eu_quiet (eu_set_status c v s)" for v
    using assms by (simp add: eu_quiet_def eu_set_status_def)
  then show ?thesis
    by (simp add: eu_send_event_def eu_send_event_with_def eu_check_state_quiet)
qed

definition eu_targets :: "u32 \<Rightarrow> nat \<Rightarrow> bool" where
  "eu_targets core_mask i \<longleftrightarrow> core_mask = 0 \<or> bit core_mask i"

lemma eu_targets_shl1: "i < 32 \<Longrightarrow> (cm = 0 \<or> cm AND shl1 (int i) \<noteq> 0) \<longleftrightarrow> eu_targets cm i"
  by (simp add: eu_targets_def and_bit_mask_0)

lemma eu_trigger_loop_quiet:
  assumes "eu_quiet s" and "distinct is" and "\<forall>i \<in> set is. i < 32"
  shows "e_cores (eu_trigger_loop eu_check_state m cm is s)
    = (\<lambda>i. if i \<in> set is \<and> eu_targets cm i
           then core_settle ((e_cores s i)\<lparr>c_status := c_status (e_cores s i) OR m\<rparr>) else e_cores s i)"
  using assms
proof (induction "is" arbitrary: s)
  case Nil
  then show ?case by simp
next
  case (Cons i "is")
  let ?t = "if cm = 0 \<or> cm AND shl1 (int i) \<noteq> 0 then eu_send_event i m s else s"
  have "eu_frame s (eu_send_event i m s)"
    using eu_send_event_def eu_send_event_with_def
      eu_frame_trans [OF _ eu_frames(1)] by (metis eu_frame_refl eu_frame_set_status)
  then have "eu_quiet ?t" using Cons.prems(1) by (simp add: eu_quiet_frame)
  note IH = Cons.IH [OF this]
  have t: "e_cores ?t = (if eu_targets cm i then (e_cores s)(i := core_settle
      ((e_cores s i)\<lparr>c_status := c_status (e_cores s i) OR m\<rparr>)) else e_cores s)"
    using Cons.prems eu_targets_shl1 [of i cm] by (simp add: eu_send_event_quiet)
  have "eu_trigger_loop eu_check_state m cm (i # is) s = eu_trigger_loop eu_check_state m cm is ?t"
    by (simp only: eu_trigger_loop.simps eu_send_event_def)
  then have "e_cores (eu_trigger_loop eu_check_state m cm (i # is) s)
    = (\<lambda>i. if i \<in> set is \<and> eu_targets cm i
           then core_settle ((e_cores ?t i)\<lparr>c_status := c_status (e_cores ?t i) OR m\<rparr>)
           else e_cores ?t i)"
    using IH Cons.prems by simp
  then show ?case using Cons.prems unfolding t by (auto simp: fun_eq_iff)
qed

lemma eu_trigger_event_pointwise':
  assumes "eu_quiet s" and "e_nb_core s \<le> 32"
  shows "e_cores (eu_trigger_event m cm s) i =
    (if i < e_nb_core s \<and> eu_targets cm i
     then core_settle ((e_cores s i)\<lparr>c_status := c_status (e_cores s i) OR m\<rparr>) else e_cores s i)"
  using eu_trigger_loop_quiet [OF assms(1), of "[0..<e_nb_core s]" m cm] assms(2)
  by (simp add: eu_trigger_event_def eu_trigger_event_with_def)

text \<open>
  With no SoC event queued, broadcasting an event reaches exactly the cores of the core mask
  (all of them for an empty mask), each as if it were alone: its status gets the event and its
  state settles; every other core is untouched. So one core's wake-up never disturbs another.
\<close>

theorem eu_trigger_event_pointwise:
  assumes "eu_quiet s" and "e_nb_core s \<le> 32"
  shows "e_cores (eu_trigger_event m cm s) i =
    (if i < e_nb_core s \<and> eu_targets cm i
     then core_settle ((e_cores s i)\<lparr>c_status := c_status (e_cores s i) OR m\<rparr>) else e_cores s i)"
  using assms by (rule eu_trigger_event_pointwise')

subsection \<open>Witness\<close>

text \<open>Four cores after reset, every event unmasked, no SoC event queued.\<close>

definition core_example :: core_eu where
  "core_example = \<lparr>c_status = 0, c_evt_mask = - 1, c_irq_mask = 0, c_clear_evt_mask = 0,
     c_sync_irq = - 1, c_pending_elw = False, c_pending_req_is_wait = False,
     c_state = CORE_STATE_NONE, c_pending_req = None, c_is_active = True,
     c_wakeup_enqueued = False, c_irq_wakeup_enqueued = False\<rparr>"

definition eu_example :: event_unit where
  "eu_example = \<lparr>e_nb_core = 4, e_cores = (\<lambda>_. core_example), e_nb_mutexes = 1, e_mutex_event = 5,
     e_mutexes = (\<lambda>_. \<lparr>m_locked = False, m_waiting_mask = 0, m_value = 0, m_waiting_reqs = (\<lambda>_. 0)\<rparr>),
     e_dispatch_event = 4, e_dispatch_size = 2, e_dispatch_config = 0, e_dispatch_fifo_head = 0,
     e_dispatch_tail = (\<lambda>_. 0),
     e_dispatches = (\<lambda>_. \<lparr>d_value = 0, d_status_mask = 0, d_config_mask = 0, d_waiting_mask = 0,
                         d_waiting_reqs = (\<lambda>_. 0)\<rparr>),
     e_nb_barriers = 2, e_barrier_event = 3,
     e_barriers = (\<lambda>_. \<lparr>b_core_mask = 0, b_status = 0, b_target_mask = 0\<rparr>),
     e_nb_fifo_events = 2, e_nb_free_events = 2, e_fifo_event_head = 0, e_fifo_event_tail = 0,
     e_fifo_event = (\<lambda>_. 0), e_fifo_soc_event = 7, e_req_data = (\<lambda>_. 0), e_calls = []\<rparr>"

lemma eu_example_quiet [simp]: "eu_quiet eu_example"
  by (simp add: eu_example_def eu_quiet_def)

theorem eu_trigger_event_pointwise_witness:
  "c_status (e_cores (eu_trigger_event 8 2 eu_example) 1) = 8
   \<and> c_status (e_cores (eu_trigger_event 8 2 eu_example) 2) = 0"
  using eu_trigger_event_pointwise [of eu_example 8 2 1]
    eu_trigger_event_pointwise [of eu_example 8 2 2]
  by (simp add: eu_example_def core_example_def eu_quiet_def eu_targets_def bit_simps core_settle_def)

end
