(* ===== verification/Event_Unit_Sync.thy ===== *)
theory Event_Unit_Sync
  imports Event_Unit_Core
begin

section \<open>The event unit: mutexes, dispatch, barriers and the address map
  (\<open>src/pulp/event_unit/eu_v3_impl.cpp\<close>)\<close>

text \<open>
  The units cores synchronise with, and the two entry points of the event unit: the demultiplexed
  port of each core and the peripheral port. Offsets are the unsigned addresses of the code; every
  subtraction is behind the range test the code makes.
\<close>

definition upd_mutex :: "nat \<Rightarrow> (mutex \<Rightarrow> mutex) \<Rightarrow> event_unit \<Rightarrow> event_unit" where
  "upd_mutex i f s = s\<lparr>e_mutexes := (e_mutexes s)(i := f (e_mutexes s i))\<rparr>"

definition upd_dispatch :: "nat \<Rightarrow> (dispatch \<Rightarrow> dispatch) \<Rightarrow> event_unit \<Rightarrow> event_unit" where
  "upd_dispatch i f s = s\<lparr>e_dispatches := (e_dispatches s)(i := f (e_dispatches s i))\<rparr>"

definition upd_barrier :: "nat \<Rightarrow> (barrier \<Rightarrow> barrier) \<Rightarrow> event_unit \<Rightarrow> event_unit" where
  "upd_barrier i f s = s\<lparr>e_barriers := (e_barriers s)(i := f (e_barriers s i))\<rparr>"

subsection \<open>Mutexes\<close>

definition mutex_enqueue_sleep :: "nat \<Rightarrow> nat \<Rightarrow> nat \<Rightarrow> event_unit \<Rightarrow> io_status \<times> event_unit" where
  "mutex_enqueue_sleep i r c s =
     (let s1 = upd_mutex i (\<lambda>m. m\<lparr>m_waiting_reqs := (m_waiting_reqs m)(c := r),
                                 m_waiting_mask := m_waiting_mask m OR shl1 (int c)\<rparr>) s;
          s2 = upd_core c (c_clear_evt_mask_update (\<lambda>_. shl1 (e_mutex_event s1))) s1
      in eu_wait_event c r CORE_STATE_WAITING_EVENT s2)"

definition mutex_reset :: "mutex \<Rightarrow> mutex" where
  "mutex_reset m = m\<lparr>m_locked := False, m_waiting_mask := 0\<rparr>"

text \<open>\<open>EU_MUTEX_AREA_MUTEXID_GET(offset)\<close>: \<open>(offset & 0xf) >> 2\<close>.\<close>

definition mutex_id :: "nat \<Rightarrow> nat" where
  "mutex_id offset = (offset mod 16) div 4"

definition mutex_transfer :: "nat \<Rightarrow> nat \<Rightarrow> event_unit \<Rightarrow> event_unit" where
  "mutex_transfer i c s =
     (let waiting_req = m_waiting_reqs (e_mutexes s i) c;
          s1 = upd_mutex i (m_waiting_mask_update (\<lambda>w. w AND NOT (shl1 (int c)))) s;
          s2 = set_req_data waiting_req (m_value (e_mutexes s1 i)) s1
      in eu_trigger_event (shl1 (e_mutex_event s2)) (shl1 (int c)) s2)"

definition mutex_req :: "nat \<Rightarrow> nat \<Rightarrow> bool \<Rightarrow> nat \<Rightarrow> event_unit \<Rightarrow> io_status \<times> event_unit" where
  "mutex_req r offset is_write c s =
     (let i = mutex_id offset
      in if i \<ge> e_nb_mutexes s then (IO_REQ_INVALID, s)
         else if \<not> is_write then
           (if \<not> m_locked (e_mutexes s i)
            then (IO_REQ_OK, upd_mutex i (m_locked_update (\<lambda>_. True)) s)
            else mutex_enqueue_sleep i r c s)
         else
           (let s1 = upd_mutex i (m_value_update (\<lambda>_. e_req_data s r)) s;
                waiting_mask = m_waiting_mask (e_mutexes s1 i)
            in if waiting_mask \<noteq> 0 then
                 (case List.find (\<lambda>j. waiting_mask AND shl1 (int j) \<noteq> 0) [0..<32] of
                    Some j \<Rightarrow> (IO_REQ_OK, mutex_transfer i j s1)
                  | None \<Rightarrow> (IO_REQ_OK, s1))
               else (IO_REQ_OK, upd_mutex i (m_locked_update (\<lambda>_. False)) s1)))"

subsection \<open>Dispatch\<close>

definition dispatch_enqueue_sleep ::
    "nat \<Rightarrow> nat \<Rightarrow> nat \<Rightarrow> bool \<Rightarrow> event_unit \<Rightarrow> io_status \<times> event_unit" where
  "dispatch_enqueue_sleep i r c is_caller s =
     (let s1 = upd_dispatch i (\<lambda>d. d\<lparr>d_waiting_reqs := (d_waiting_reqs d)(c := r),
                                    d_waiting_mask := d_waiting_mask d OR shl1 (int c)\<rparr>) s;
          s2 = upd_core c (c_clear_evt_mask_update (\<lambda>_. shl1 (e_dispatch_event s1))) s1
      in if is_caller then eu_wait_event c r CORE_STATE_WAITING_EVENT s2
         else eu_put_to_sleep c r CORE_STATE_WAITING_EVENT s2)"

definition dispatch_next_tail :: "nat \<Rightarrow> event_unit \<Rightarrow> event_unit" where
  "dispatch_next_tail c s =
     s\<lparr>e_dispatch_tail := (e_dispatch_tail s)(c := ring_next (e_dispatch_size s) (e_dispatch_tail s c))\<rparr>"

text \<open>One waiting core met by a push to entry \<open>i\<close>: it takes the value, or bypasses the entry.\<close>

definition dispatch_wake :: "nat \<Rightarrow> nat \<Rightarrow> event_unit \<Rightarrow> event_unit" where
  "dispatch_wake i c s =
     (let waiting_req = d_waiting_reqs (e_dispatches s i) c;
          s1 = upd_dispatch i (\<lambda>d. d\<lparr>d_status_mask := d_status_mask d AND NOT (shl1 (int c)),
                                    d_waiting_mask := d_waiting_mask d AND NOT (shl1 (int c))\<rparr>) s;
          s2 = set_req_data waiting_req (d_value (e_dispatches s1 i)) s1
      in eu_trigger_event (shl1 (e_dispatch_event s2)) (shl1 (int c)) (dispatch_next_tail c s2))"

definition dispatch_bypass :: "nat \<Rightarrow> nat \<Rightarrow> event_unit \<Rightarrow> event_unit" where
  "dispatch_bypass i c s =
     (let s1 = upd_dispatch i (\<lambda>d. d\<lparr>d_status_mask := d_status_mask d AND NOT (shl1 (int c)),
                                    d_waiting_mask := d_waiting_mask d AND NOT (shl1 (int c))\<rparr>) s;
          pending_req = d_waiting_reqs (e_dispatches s1 i) c;
          s2 = dispatch_next_tail c s1
      in snd (dispatch_enqueue_sleep (e_dispatch_tail s2 c) pending_req c False s2))"

fun dispatch_push_loop :: "nat \<Rightarrow> u32 \<Rightarrow> nat list \<Rightarrow> event_unit \<Rightarrow> event_unit" where
  "dispatch_push_loop i m [] s = s"
| "dispatch_push_loop i m (c # cs) s =
     (if m = 0 then s
      else if m AND shl1 (int c) \<noteq> 0 then
        (if d_config_mask (e_dispatches s i) AND shl1 (int c) \<noteq> 0
         then dispatch_push_loop i (m AND NOT (shl1 (int c))) cs (dispatch_wake i c s)
         else dispatch_push_loop i m cs (dispatch_bypass i c s))
      else dispatch_push_loop i m cs s)"

definition dispatch_push :: "nat \<Rightarrow> event_unit \<Rightarrow> io_status \<times> event_unit" where
  "dispatch_push r s =
     (let i = e_dispatch_fifo_head s;
          s1 = s\<lparr>e_dispatch_fifo_head := ring_next (e_dispatch_size s) i\<rparr>;
          s2 = upd_dispatch i (\<lambda>d. d\<lparr>d_config_mask := e_dispatch_config s1,
                                    d_value := e_req_data s1 r, d_status_mask := - 1\<rparr>) s1;
          m = d_waiting_mask (e_dispatches s2 i) AND d_status_mask (e_dispatches s2 i)
      in (IO_REQ_OK, dispatch_push_loop i m [0..<32] s2))"

text \<open>
  The loop that bypasses ready entries of other teams. Every turn clears the core's bit in one
  entry, so \<open>dispatch_size\<close> turns are enough for a tail inside the buffer (\<open>dispatch_skip_done\<close>).
\<close>

definition dispatch_foreign :: "nat \<Rightarrow> event_unit \<Rightarrow> bool" where
  "dispatch_foreign c s =
     (let d = e_dispatches s (e_dispatch_tail s c)
      in d_status_mask d AND shl1 (int c) \<noteq> 0 \<and> d_config_mask d AND shl1 (int c) = 0)"

fun dispatch_skip :: "nat \<Rightarrow> nat \<Rightarrow> event_unit \<Rightarrow> event_unit" where
  "dispatch_skip 0 c s = s"
| "dispatch_skip (Suc n) c s =
     (if dispatch_foreign c s
      then dispatch_skip n c (dispatch_next_tail c
             (upd_dispatch (e_dispatch_tail s c)
               (d_status_mask_update (\<lambda>m. m AND NOT (shl1 (int c)))) s))
      else s)"

definition dispatch_pop :: "nat \<Rightarrow> nat \<Rightarrow> event_unit \<Rightarrow> io_status \<times> event_unit" where
  "dispatch_pop r c s =
     (let s1 = dispatch_skip (e_dispatch_size s) c s;
          i = e_dispatch_tail s1 c; d = e_dispatches s1 i
      in if d_status_mask d AND shl1 (int c) \<noteq> 0 then
           (let s2 = set_req_data r
                       (if d_config_mask d AND shl1 (int c) \<noteq> 0 then d_value d else 0) s1;
                s3 = upd_dispatch i (d_status_mask_update (\<lambda>m. m AND NOT (shl1 (int c)))) s2
            in (IO_REQ_OK, dispatch_next_tail c s3))
         else dispatch_enqueue_sleep i r c True s1)"

definition dispatch_req :: "nat \<Rightarrow> nat \<Rightarrow> bool \<Rightarrow> nat \<Rightarrow> event_unit \<Rightarrow> io_status \<times> event_unit" where
  "dispatch_req r offset is_write c s =
     (if offset = 0x0 then (if is_write then dispatch_push r s else dispatch_pop r c s)
      else if offset = 0x4 then (IO_REQ_OK, s\<lparr>e_dispatch_config := e_req_data s r\<rparr>)
      else (IO_REQ_INVALID, s))"

definition dispatch_reset :: "event_unit \<Rightarrow> event_unit" where
  "dispatch_reset s =
     s\<lparr>e_dispatch_fifo_head := 0, e_dispatch_config := 0,
       e_dispatch_tail := (\<lambda>c. if c < e_nb_core s then 0 else e_dispatch_tail s c),
       e_dispatches := (\<lambda>i. if i < e_dispatch_size s
         then (e_dispatches s i)\<lparr>d_value := 0, d_status_mask := 0, d_config_mask := 0, d_waiting_mask := 0\<rparr>
         else e_dispatches s i)\<rparr>"

subsection \<open>Barriers\<close>

definition barrier_check :: "nat \<Rightarrow> event_unit \<Rightarrow> event_unit" where
  "barrier_check b s =
     (if b_status (e_barriers s b) = b_core_mask (e_barriers s b)
      then (let s1 = upd_barrier b (b_status_update (\<lambda>_. 0)) s
            in eu_trigger_event (shl1 (e_barrier_event s1)) (b_target_mask (e_barriers s1 b)) s1)
      else s)"

text \<open>\<open>EU_BARRIER_AREA_BARRIERID_GET(offset)\<close>: \<open>(offset & 0x1ff) >> 5\<close>.\<close>

definition barrier_id :: "nat \<Rightarrow> nat" where
  "barrier_id offset = (offset mod 512) div 32"

definition barrier_arrive :: "nat \<Rightarrow> nat \<Rightarrow> event_unit \<Rightarrow> event_unit" where
  "barrier_arrive b c s = upd_barrier b (b_status_update (\<lambda>v. v OR shl1 (int c))) s"

text \<open>
  \<open>Barrier_unit::req\<close>. Only the demultiplexed ports call it, with the core's number, so the tests
  of the code for core -1 never hold. A core found waiting for a barrier was interrupted in its
  sleep and resumes without arriving again.
\<close>

definition barrier_req :: "nat \<Rightarrow> nat \<Rightarrow> bool \<Rightarrow> nat \<Rightarrow> event_unit \<Rightarrow> io_status \<times> event_unit" where
  "barrier_req r offset0 is_write c s =
     (let b = barrier_id offset0; offset = offset0 - b * 32;
          bar = e_barriers s b; data = e_req_data s r
      in if b \<ge> e_nb_barriers s then (IO_REQ_INVALID, s)
         else if offset = 0x00 then
           (if \<not> is_write then (IO_REQ_OK, set_req_data r (b_core_mask bar) s)
            else (IO_REQ_OK, barrier_check b (upd_barrier b (b_core_mask_update (\<lambda>_. data)) s)))
         else if offset = 0x0c then
           (if \<not> is_write then (IO_REQ_OK, set_req_data r (b_target_mask bar) s)
            else (IO_REQ_OK, barrier_check b (upd_barrier b (b_target_mask_update (\<lambda>_. data)) s)))
         else if offset = 0x04 then
           (if \<not> is_write then (IO_REQ_OK, set_req_data r (b_status bar) s)
            else (IO_REQ_OK, barrier_check b (upd_barrier b (b_status_update (\<lambda>_. data)) s)))
         else if offset = 0x10 then
           (if \<not> is_write then (IO_REQ_INVALID, s)
            else (IO_REQ_OK, barrier_check b (upd_barrier b (b_status_update (\<lambda>v. v OR data)) s)))
         else if offset = 0x14 then (IO_REQ_OK, barrier_check b (barrier_arrive b c s))
         else if offset = 0x18 then
           (let s1 = (if c_state (e_cores s c) = CORE_STATE_WAITING_BARRIER then s
                      else barrier_arrive b c s)
            in eu_wait_event c r CORE_STATE_WAITING_BARRIER (barrier_check b s1))
         else if offset = 0x1c then
           (let s1 = (if c_state (e_cores s c) = CORE_STATE_WAITING_BARRIER then s
                      else barrier_arrive b c s);
                s2 = upd_core c (\<lambda>cu. cu\<lparr>c_clear_evt_mask := c_evt_mask cu\<rparr>) s1
            in eu_wait_event c r CORE_STATE_WAITING_BARRIER (barrier_check b s2))
         else if offset = 0x08 then
           (if is_write then (IO_REQ_INVALID, s)
            else (IO_REQ_OK, set_req_data r
                    (fold (\<lambda>i acc. acc OR b_status (e_barriers s i)) [1..<e_nb_barriers s] 0) s))
         else (IO_REQ_INVALID, s))"

definition barrier_reset :: "event_unit \<Rightarrow> event_unit" where
  "barrier_reset s =
     s\<lparr>e_barriers := (\<lambda>b. if b < e_nb_barriers s
         then (e_barriers s b)\<lparr>b_core_mask := 0, b_status := 0, b_target_mask := 0\<rparr>
         else e_barriers s b)\<rparr>"

subsection \<open>Address map and reset\<close>

definition eu_req :: "nat \<Rightarrow> nat \<Rightarrow> nat \<Rightarrow> bool \<Rightarrow> event_unit \<Rightarrow> io_status \<times> event_unit" where
  "eu_req r offset sz is_write s =
     (if sz \<noteq> 4 then (IO_REQ_INVALID, s)
      else if offset < 0x400 then
        (let core_id = offset div 64
         in if core_id \<ge> e_nb_core s then (IO_REQ_INVALID, s)
            else eu_core_req core_id r (offset - core_id * 64) is_write s)
      else if 0x700 \<le> offset \<and> offset < 0x780 then eu_soc_ioReq r is_write s
      else if 0x780 \<le> offset \<and> offset < 0x800 then (IO_REQ_INVALID, s)
      else if 0x600 \<le> offset \<and> offset < 0x700 then eu_sw_events_req r (offset - 0x600) is_write s
      else (IO_REQ_INVALID, s))"

definition eu_demux_req :: "nat \<Rightarrow> nat \<Rightarrow> nat \<Rightarrow> bool \<Rightarrow> nat \<Rightarrow> event_unit \<Rightarrow> io_status \<times> event_unit" where
  "eu_demux_req r offset sz is_write c s0 =
     (let s = upd_core c (\<lambda>cu. cu\<lparr>c_pending_elw := False, c_pending_req_is_wait := False\<rparr>) s0
      in if c_state (e_cores s c) = CORE_STATE_SKIP_ELW
         then (IO_REQ_OK, upd_core c (c_state_update (\<lambda>_. CORE_STATE_NONE)) s)
         else if sz \<noteq> 4 then (IO_REQ_INVALID, s)
         else if offset < 0x40 then eu_core_req c r offset is_write s
         else if 0xc0 \<le> offset \<and> offset < 0x100 then mutex_req r (offset - 0xc0) is_write c s
         else if 0x80 \<le> offset \<and> offset < 0xc0 then dispatch_req r (offset - 0x80) is_write c s
         else if 0x60 \<le> offset \<and> offset < 0x80 then (IO_REQ_INVALID, s)
         else if 0x100 \<le> offset \<and> offset < 0x200 then eu_sw_events_req r (offset - 0x100) is_write s
         else if 0x200 \<le> offset \<and> offset < 0x400 then barrier_req r (offset - 0x200) is_write c s
         else (IO_REQ_INVALID, s))"

definition eu_reset :: "bool \<Rightarrow> event_unit \<Rightarrow> event_unit" where
  "eu_reset active s =
     (if active then
        (let s1 = fold (\<lambda>c t. eu_call (Clock_sync c True) (upd_core c core_eu_reset t))
                    [0..<e_nb_core s] s;
             s2 = barrier_reset (dispatch_reset s1);
             s3 = s2\<lparr>e_mutexes := (\<lambda>i. if i < e_nb_mutexes s2 then mutex_reset (e_mutexes s2 i)
                                       else e_mutexes s2 i)\<rparr>
         in eu_soc_event_reset s3)
      else s)"

subsection \<open>Access laws\<close>

lemma upd_mutex_sel [simp]:
  "e_cores (upd_mutex i f s) = e_cores s" "e_nb_core (upd_mutex i f s) = e_nb_core s"
  "e_req_data (upd_mutex i f s) = e_req_data s" "e_calls (upd_mutex i f s) = e_calls s"
  "e_mutexes (upd_mutex i f s) = (e_mutexes s)(i := f (e_mutexes s i))"
  "e_mutex_event (upd_mutex i f s) = e_mutex_event s"
  "e_nb_mutexes (upd_mutex i f s) = e_nb_mutexes s"
  "eu_quiet (upd_mutex i f s) = eu_quiet s"
  by (simp_all add: upd_mutex_def eu_quiet_def)

lemma upd_dispatch_sel [simp]:
  "e_cores (upd_dispatch i f s) = e_cores s" "e_nb_core (upd_dispatch i f s) = e_nb_core s"
  "e_req_data (upd_dispatch i f s) = e_req_data s" "e_calls (upd_dispatch i f s) = e_calls s"
  "e_dispatches (upd_dispatch i f s) = (e_dispatches s)(i := f (e_dispatches s i))"
  "e_dispatch_tail (upd_dispatch i f s) = e_dispatch_tail s"
  "e_dispatch_size (upd_dispatch i f s) = e_dispatch_size s"
  "e_dispatch_fifo_head (upd_dispatch i f s) = e_dispatch_fifo_head s"
  "e_dispatch_config (upd_dispatch i f s) = e_dispatch_config s"
  "e_dispatch_event (upd_dispatch i f s) = e_dispatch_event s"
  "eu_quiet (upd_dispatch i f s) = eu_quiet s"
  by (simp_all add: upd_dispatch_def eu_quiet_def)

lemma upd_barrier_sel [simp]:
  "e_cores (upd_barrier i f s) = e_cores s" "e_nb_core (upd_barrier i f s) = e_nb_core s"
  "e_req_data (upd_barrier i f s) = e_req_data s" "e_calls (upd_barrier i f s) = e_calls s"
  "e_barriers (upd_barrier i f s) = (e_barriers s)(i := f (e_barriers s i))"
  "e_barrier_event (upd_barrier i f s) = e_barrier_event s"
  "e_nb_barriers (upd_barrier i f s) = e_nb_barriers s"
  "eu_quiet (upd_barrier i f s) = eu_quiet s"
  by (simp_all add: upd_barrier_def eu_quiet_def)

lemma dispatch_next_tail_sel [simp]:
  "e_cores (dispatch_next_tail c s) = e_cores s" "e_nb_core (dispatch_next_tail c s) = e_nb_core s"
  "e_req_data (dispatch_next_tail c s) = e_req_data s" "e_calls (dispatch_next_tail c s) = e_calls s"
  "e_dispatches (dispatch_next_tail c s) = e_dispatches s"
  "e_dispatch_tail (dispatch_next_tail c s)
     = (e_dispatch_tail s)(c := ring_next (e_dispatch_size s) (e_dispatch_tail s c))"
  "e_dispatch_size (dispatch_next_tail c s) = e_dispatch_size s"
  "e_dispatch_fifo_head (dispatch_next_tail c s) = e_dispatch_fifo_head s"
  "e_dispatch_event (dispatch_next_tail c s) = e_dispatch_event s"
  "eu_quiet (dispatch_next_tail c s) = eu_quiet s"
  by (simp_all add: dispatch_next_tail_def eu_quiet_def)

text \<open>The per-core operations leave the synchronisation units alone.\<close>

lemma upd_core_units [simp]:
  "e_mutexes (upd_core c f s) = e_mutexes s" "e_mutex_event (upd_core c f s) = e_mutex_event s"
  "e_nb_mutexes (upd_core c f s) = e_nb_mutexes s"
  "e_dispatches (upd_core c f s) = e_dispatches s" "e_dispatch_tail (upd_core c f s) = e_dispatch_tail s"
  "e_dispatch_size (upd_core c f s) = e_dispatch_size s"
  "e_dispatch_event (upd_core c f s) = e_dispatch_event s"
  "e_barriers (upd_core c f s) = e_barriers s" "e_barrier_event (upd_core c f s) = e_barrier_event s"
  "e_nb_barriers (upd_core c f s) = e_nb_barriers s"
  "e_dispatch_fifo_head (upd_core c f s) = e_dispatch_fifo_head s"
  "eu_quiet (upd_core c f s) = eu_quiet s"
  by (simp_all add: upd_core_def eu_quiet_def)

lemma set_req_data_units [simp]:
  "e_mutexes (set_req_data r d s) = e_mutexes s" "e_nb_mutexes (set_req_data r d s) = e_nb_mutexes s"
  "e_nb_barriers (set_req_data r d s) = e_nb_barriers s"
  "e_mutex_event (set_req_data r d s) = e_mutex_event s"
  "e_dispatches (set_req_data r d s) = e_dispatches s"
  "e_dispatch_tail (set_req_data r d s) = e_dispatch_tail s"
  "e_dispatch_size (set_req_data r d s) = e_dispatch_size s"
  "e_dispatch_event (set_req_data r d s) = e_dispatch_event s"
  "e_barriers (set_req_data r d s) = e_barriers s"
  "e_barrier_event (set_req_data r d s) = e_barrier_event s"
  "e_dispatch_fifo_head (set_req_data r d s) = e_dispatch_fifo_head s"
  "eu_quiet (set_req_data r d s) = eu_quiet s"
  by (simp_all add: set_req_data_def eu_quiet_def)

lemma eu_put_to_sleep_frame: "eu_frame s (snd (eu_put_to_sleep c r w t)) = eu_frame s t"
  by (simp add: eu_put_to_sleep_def Let_def)

lemma eu_wait_event_frame: "eu_frame s (snd (eu_wait_event c r w s))"
proof -
  have "eu_frame s (eu_check_wait_mask c (set_req_data r d (eu_call x s)))" for d x
    by (rule eu_frame_trans [OF _ eu_frames(5)]) simp
  then show ?thesis
    by (auto simp: eu_wait_event_def Let_def eu_put_to_sleep_frame)
qed

lemmas eu_put_to_sleep_sel [simp, frame] = eu_frame_sel [OF eu_put_to_sleep_frame [THEN iffD2, OF eu_frame_refl]]
lemmas eu_wait_event_sel [simp, frame] = eu_frame_sel [OF eu_wait_event_frame]

lemma eu_quiet_sels [simp]:
  "eu_quiet (eu_call x s) = eu_quiet s"
  "eu_quiet (eu_enqueue_wakeup c s) = eu_quiet s"
  "eu_quiet (eu_check_state c s) = eu_quiet s"
  "eu_quiet (eu_trigger_event m cm s) = eu_quiet s"
  "eu_quiet (snd (eu_wait_event c r w s)) = eu_quiet s"
  by (simp_all add: eu_quiet_def eu_call_def eu_enqueue_wakeup_def upd_core_def)

end
