(* ===== verification/Event_Unit_Wake.thy ===== *)
theory Event_Unit_Wake
  imports Event_Unit_Sync
begin

section \<open>The event unit: no lost wake-up\<close>

text \<open>
  What every run of \<open>check_state\<close> and of the broadcasts it starts keeps, stated once as a relation
  between the states before and after, and the invariant that no clock-gated core sleeps through an
  event it has unmasked, for the operations of the cores, the peripheral bus and the wires that keep
  the rules of \<open>eu_op_ok\<close>; one of these operations that breaks a rule stops a running core.
\<close>

subsection \<open>Relations kept by the recursion\<close>

text \<open>
  A reflexive and transitive relation that holds across each elementary effect of \<open>check_state\<close>
  holds across the whole recursion.
\<close>

locale eu_relation =
  fixes R :: "event_unit \<Rightarrow> event_unit \<Rightarrow> bool"
  assumes refl: "R s s"
    and trans: "R s t \<Longrightarrow> R t u \<Longrightarrow> R s u"
    and status: "R s (upd_core c (c_status_update f) s)"
    and start: "R s (eu_wake_start c s)"
    and unclear: "R s (upd_core c (c_clear_evt_mask_update (\<lambda>_. 0)) s)"
    and wakeup: "R s (eu_enqueue_wakeup c s)"
    and rest: "R s (eu_check_rest c s)"
begin

lemma loop:
  assumes "\<And>c s. R s (chk c s)"
  shows "R s (eu_trigger_loop chk m cm is s)"
proof (induction "is" arbitrary: s)
  case Nil
  then show ?case by (simp add: refl)
next
  case (Cons i "is")
  have "R s (eu_send_event_with chk i m s)"
    unfolding eu_send_event_with_def eu_set_status_def by (rule trans [OF status assms])
  with Cons.IH show ?case by (auto intro: trans)
qed

lemma soc: "(\<And>c s. R s (chk c s)) \<Longrightarrow> R s (eu_soc_check_state_with chk s)"
  by (simp add: eu_soc_check_state_with_def eu_trigger_event_with_def loop refl)

lemma wait_mask: "(\<And>c s. R s (chk c s)) \<Longrightarrow> R s (eu_check_wait_mask_with chk c s)"
  by (auto simp: eu_check_wait_mask_with_def eu_clear_status_with_def refl
      intro!: trans [OF _ unclear] trans [OF status soc])

lemma body:
  assumes "\<And>c s. R s (chk c s)"
  shows "R s (eu_check_state_body chk c s)"
  by (auto simp: eu_check_state_body_cases eu_wake_core_start Let_def rest
      intro!: trans [OF _ wakeup] trans [OF start wait_mask] assms)

lemma depth: "R s (eu_check_state_depth (\<lambda>_ s. s) n c s)"
proof (induction n arbitrary: c s)
  case 0
  then show ?case by (simp add: eu_check_state_depth.simps refl)
next
  case (Suc n)
  then show ?case by (simp add: eu_check_state_depth.simps body)
qed

lemma check_state: "R s (eu_check_state c s)"
  by (simp add: eu_check_state_def depth)

lemma trigger_event: "R s (eu_trigger_event m cm s)"
  by (simp add: eu_trigger_event_def eu_trigger_event_with_def loop check_state)

lemma soc_check_state: "R s (eu_soc_check_state s)"
  by (simp add: eu_soc_check_state_def soc check_state)

lemma clear_status: "R s (eu_clear_status c m s)"
  by (simp add: eu_clear_status_def eu_clear_status_with_def trans [OF status soc] check_state)

lemma check_wait_mask: "R s (eu_check_wait_mask c s)"
  by (simp add: eu_check_wait_mask_def wait_mask check_state)

end

text \<open>The masks, the activity and the parked request of every core are kept; calls only grow.\<close>

definition core_kept :: "core_eu \<Rightarrow> core_eu \<Rightarrow> bool" where
  "core_kept cu cu' \<longleftrightarrow>
     c_evt_mask cu' = c_evt_mask cu \<and> c_irq_mask cu' = c_irq_mask cu
   \<and> c_is_active cu' = c_is_active cu \<and> c_pending_req cu' = c_pending_req cu
   \<and> c_pending_req_is_wait cu' = c_pending_req_is_wait cu
   \<and> (c_wakeup_enqueued cu \<longrightarrow> c_wakeup_enqueued cu')
   \<and> (c_irq_wakeup_enqueued cu \<longrightarrow> c_irq_wakeup_enqueued cu')"

definition eu_keeps :: "event_unit \<Rightarrow> event_unit \<Rightarrow> bool" where
  "eu_keeps s s' \<longleftrightarrow> (\<forall>c. core_kept (e_cores s c) (e_cores s' c)) \<and> (\<exists>xs. e_calls s' = e_calls s @ xs)"

lemma eu_keeps_upd_core: "(\<And>cu. core_kept cu (f cu)) \<Longrightarrow> eu_keeps s (upd_core c f s)"
  by (auto simp: eu_keeps_def core_kept_def)

interpretation eu_keeps: eu_relation eu_keeps
proof (unfold_locales, goal_cases)
  case (1 s)
  then show ?case by (simp add: eu_keeps_def core_kept_def)
next
  case (2 s t u)
  then show ?case by (fastforce simp: eu_keeps_def core_kept_def)
next
  case (3 s c f)
  then show ?case by (rule eu_keeps_upd_core) (simp add: core_kept_def)
next
  case (4 s c)
  have "e_calls (eu_wake_start c s) = e_calls s"
    by (auto simp: eu_wake_start_def split: option.splits)
  then show ?case by (simp add: eu_keeps_def eu_wake_start_cores core_kept_def)
next
  case (5 s c)
  then show ?case by (rule eu_keeps_upd_core) (simp add: core_kept_def)
next
  case (6 s c)
  then show ?case by (auto simp: eu_keeps_def core_kept_def eu_enqueue_wakeup_def)
next
  case (7 s c)
  then show ?case
    by (auto simp: eu_keeps_def core_kept_def eu_check_rest_def eu_check_awake_def
        eu_check_irq_wake_def eu_enqueue_irq_wakeup_def Let_def)
qed

lemma eu_keeps_active:
  assumes "eu_keeps s s'"
  shows "c_is_active (e_cores s' c) = c_is_active (e_cores s c)"
    and "c_evt_mask (e_cores s' c) = c_evt_mask (e_cores s c)"
    and "c_pending_req (e_cores s' c) = c_pending_req (e_cores s c)"
  using assms by (simp_all add: eu_keeps_def core_kept_def)

text \<open>
  When the wake-up event of a core fires, the core's clock is switched on and the request it
  was parked on is answered, in this order; the core runs again with the interrupt line its status
  and mask ask for, and no other core and no other part of the event unit is touched.
\<close>

theorem eu_wakeup_replies:
  "e_cores (eu_wakeup_handler c s) = (e_cores s)(c := (e_cores s c)
      \<lparr>c_wakeup_enqueued := False, c_is_active := True,
       c_sync_irq := irq_of (c_status (e_cores s c) AND c_irq_mask (e_cores s c))\<rparr>)
   \<and> (\<exists>xs. e_calls (eu_wakeup_handler c s)
        = e_calls s @ [Clock_sync c True, Resp c (c_pending_req (e_cores s c))] @ xs
        \<and> set xs \<subseteq> {Irq_req c (irq_of (c_status (e_cores s c) AND c_irq_mask (e_cores s c)))})
   \<and> eu_frame s (eu_wakeup_handler c s) \<and> e_req_data (eu_wakeup_handler c s) = e_req_data s"
proof -
  let ?s3 = "eu_call (Resp c (c_pending_req (e_cores s c))) (eu_call (Clock_sync c True)
      (upd_core c (\<lambda>cu. cu\<lparr>c_wakeup_enqueued := False, c_is_active := True\<rparr>) s))"
  have "eu_wakeup_handler c s = eu_check_awake c ?s3"
    by (simp add: eu_wakeup_handler_def Let_def eu_check_state_eq eu_wakes_def eu_check_rest_def)
  then show ?thesis by (cases "e_cores s c") (auto simp: eu_check_awake_def Let_def)
qed

subsection \<open>No core sleeps through an unmasked event\<close>

text \<open>
  A core is safe when it runs, or a wake-up of it is scheduled, or it waits with none of its
  unmasked events set. Between a change of its status or masks and the \<open>check_state\<close> that follows
  it is only stable.
\<close>

definition core_safe :: "core_eu \<Rightarrow> bool" where
  "core_safe cu \<longleftrightarrow> c_is_active cu \<or> c_wakeup_enqueued cu \<or> c_irq_wakeup_enqueued cu
     \<or> (eu_waiting cu \<and> \<not> c_pending_elw cu \<and> c_status cu AND c_evt_mask cu = 0)"

definition core_stable :: "core_eu \<Rightarrow> bool" where
  "core_stable cu \<longleftrightarrow> c_is_active cu \<or> c_wakeup_enqueued cu \<or> c_irq_wakeup_enqueued cu
     \<or> (eu_waiting cu \<and> \<not> c_pending_elw cu)"

definition eu_safe_but :: "nat set \<Rightarrow> event_unit \<Rightarrow> bool" where
  "eu_safe_but X s \<longleftrightarrow> (\<forall>i. i \<notin> X \<longrightarrow> core_safe (e_cores s i))"

definition eu_safe :: "event_unit \<Rightarrow> bool" where
  "eu_safe s \<longleftrightarrow> (\<forall>i. core_safe (e_cores s i))"

lemma core_safe_stable: "core_safe cu \<Longrightarrow> core_stable cu"
  by (auto simp: core_safe_def core_stable_def)

lemma core_stable_status: "core_stable (c_status_update f cu) = core_stable cu"
  by (simp add: core_stable_def eu_waiting_def)

lemma core_safe_clear:
  assumes "core_safe cu"
  shows "core_safe (c_status_update (\<lambda>v. v AND NOT m) cu)"
proof -
  have "(c_status cu AND NOT m) AND c_evt_mask cu = (c_status cu AND c_evt_mask cu) AND NOT m"
    by (simp add: ac_simps)
  with assms show ?thesis by (auto simp: core_safe_def eu_waiting_def)
qed

lemma core_settle_safe: "core_stable cu \<Longrightarrow> core_safe (core_settle cu)"
  by (auto simp: core_settle_def core_stable_def core_safe_def eu_waiting_def)

lemma eu_safe_but_empty: "eu_safe_but {} s = eu_safe s"
  by (simp add: eu_safe_but_def eu_safe_def)

lemma eu_safe_but_mono: "eu_safe_but X s \<Longrightarrow> X \<subseteq> Y \<Longrightarrow> eu_safe_but Y s"
  by (auto simp: eu_safe_but_def)

text \<open>What a \<open>check_state\<close> owes: the core it is called on becomes safe, the others stay safe.\<close>

definition eu_settles :: "(nat \<Rightarrow> event_unit \<Rightarrow> event_unit) \<Rightarrow> bool" where
  "eu_settles chk \<longleftrightarrow> (\<forall>X c s. eu_safe_but (insert c X) s \<longrightarrow>
     (c \<notin> X \<longrightarrow> core_stable (e_cores s c)) \<longrightarrow> eu_safe_but X (chk c s))"

lemma eu_settlesD:
  "eu_settles chk \<Longrightarrow> eu_safe_but (insert c X) s \<Longrightarrow> (c \<notin> X \<Longrightarrow> core_stable (e_cores s c)) \<Longrightarrow>
     eu_safe_but X (chk c s)"
  by (simp add: eu_settles_def)

lemma eu_settles_loop:
  assumes "eu_settles chk" and "eu_safe_but X s"
  shows "eu_safe_but X (eu_trigger_loop chk m cm is s)"
  using assms(2)
proof (induction "is" arbitrary: s)
  case Nil
  then show ?case by simp
next
  case (Cons i "is")
  have "eu_safe_but X (eu_send_event_with chk i m s)"
    unfolding eu_send_event_with_def
    using Cons.prems core_safe_stable
    by (intro eu_settlesD [OF assms(1)])
      (auto simp: eu_safe_but_def core_stable_status [of "\<lambda>_. v" for v, simplified])
  with Cons show ?case by simp
qed

lemma eu_settles_soc:
  assumes "eu_settles chk" and "eu_safe_but X s"
  shows "eu_safe_but X (eu_soc_check_state_with chk s)"
  using eu_settles_loop [OF assms] assms(2)
  by (simp add: eu_soc_check_state_with_def eu_trigger_event_with_def)

lemma eu_settles_clear:
  assumes "eu_settles chk" and "eu_safe_but X s"
  shows "eu_safe_but X (eu_clear_status_with chk c m s)"
  unfolding eu_clear_status_with_def
  using assms(2) by (intro eu_settles_soc [OF assms(1)]) (simp add: eu_safe_but_def core_safe_clear)

lemma eu_settles_wait_mask:
  assumes "eu_settles chk" and "eu_safe_but X s"
  shows "eu_safe_but X (eu_check_wait_mask_with chk c s)"
  using eu_settles_clear [OF assms] assms(2)
  by (auto simp: eu_check_wait_mask_with_def eu_safe_but_def core_safe_def eu_waiting_def)

lemma eu_settles_wake:
  assumes "eu_settles chk" and "eu_safe_but (insert c X) s"
  shows "eu_safe_but X (eu_wake_core_with chk c s)"
proof -
  have "eu_safe_but (insert c X) (eu_wake_start c s)"
    using assms(2) by (simp add: eu_safe_but_def eu_wake_start_cores)
  from eu_settles_wait_mask [OF assms(1) this, of c] show ?thesis
    by (auto simp: eu_wake_core_start Let_def eu_safe_but_def eu_enqueue_wakeup_def core_safe_def)
qed

lemma eu_settles_body:
  assumes "eu_settles chk"
  shows "eu_settles (eu_check_state_body chk)"
proof -
  have "eu_safe_but X (eu_check_state_body chk c s)"
    if s: "eu_safe_but (insert c X) s" "c \<notin> X \<longrightarrow> core_stable (e_cores s c)" for X c s
  proof (cases "eu_wakes (e_cores s c)")
    case True
    with eu_settles_wake [OF assms s(1)] show ?thesis by (simp add: eu_check_state_body_cases)
  next
    case False
    with s show ?thesis
      by (auto simp: eu_check_state_body_cases eu_check_rest_cores eu_safe_but_def core_settle_safe)
  qed
  then show ?thesis by (simp add: eu_settles_def)
qed

text \<open>The bottom of the recursion is immaterial, so it may be a function that settles.\<close>

lemma eu_settles_depth: "eu_settles d \<Longrightarrow> eu_settles (eu_check_state_depth d n)"
proof (induction n)
  case 0
  then show ?case by (simp add: eu_settles_def eu_check_state_depth.simps)
next
  case (Suc n)
  then have "eu_settles (eu_check_state_body (eu_check_state_depth d n))" by (intro eu_settles_body)
  then show ?case by (simp add: eu_settles_def eu_check_state_depth.simps)
qed

lemma eu_check_state_settles: "eu_settles eu_check_state"
proof -
  define d where "d = (\<lambda>c. upd_core c (c_is_active_update (\<lambda>_. True)))"
  have "eu_settles d" by (simp add: eu_settles_def eu_safe_but_def d_def core_safe_def)
  then have "eu_settles (eu_check_state_depth d n)" for n by (rule eu_settles_depth)
  moreover have "eu_check_state c s = eu_check_state_depth d (e_nb_core s + 2) c s" for c s
    unfolding eu_check_state_def by (rule eu_depth_enough) simp_all
  ultimately show ?thesis by (simp add: eu_settles_def)
qed

lemma eu_check_state_safe:
  "(\<And>i. i \<noteq> c \<Longrightarrow> core_safe (e_cores s i)) \<Longrightarrow> core_stable (e_cores s c) \<Longrightarrow> eu_safe (eu_check_state c s)"
  using eu_settlesD [OF eu_check_state_settles, of c "{}" s]
  by (simp add: eu_safe_but_empty) (simp add: eu_safe_but_def)

lemma eu_trigger_event_safe: "eu_safe s \<Longrightarrow> eu_safe (eu_trigger_event m cm s)"
  using eu_settles_loop [OF eu_check_state_settles, of "{}" s]
  by (simp add: eu_safe_but_empty eu_trigger_event_def eu_trigger_event_with_def)

lemma eu_soc_check_state_safe: "eu_safe s \<Longrightarrow> eu_safe (eu_soc_check_state s)"
  using eu_settles_soc [OF eu_check_state_settles, of "{}" s]
  by (simp add: eu_safe_but_empty eu_soc_check_state_def)

lemma eu_clear_status_safe: "eu_safe s \<Longrightarrow> eu_safe (eu_clear_status c m s)"
  using eu_settles_clear [OF eu_check_state_settles, of "{}" s]
  by (simp add: eu_safe_but_empty eu_clear_status_def)

lemma eu_check_wait_mask_safe: "eu_safe s \<Longrightarrow> eu_safe (eu_check_wait_mask c s)"
  using eu_settles_wait_mask [OF eu_check_state_settles, of "{}" s]
  by (simp add: eu_safe_but_empty eu_check_wait_mask_def)

lemma eu_safe_cores: "e_cores s' = e_cores s \<Longrightarrow> eu_safe s' = eu_safe s"
  by (simp add: eu_safe_def)

text \<open>Fields no safety depends on.\<close>

lemma core_safe_irrelevant [simp]:
  "core_safe (cu\<lparr>c_clear_evt_mask := v\<rparr>) = core_safe cu"
  "core_safe (cu\<lparr>c_pending_req := q\<rparr>) = core_safe cu"
  "core_safe (cu\<lparr>c_pending_req_is_wait := b\<rparr>) = core_safe cu"
  "core_safe (cu\<lparr>c_clear_evt_mask := v, c_pending_req_is_wait := b\<rparr>) = core_safe cu"
  "core_safe (cu\<lparr>c_sync_irq := i\<rparr>) = core_safe cu"
  "core_safe (cu\<lparr>c_irq_mask := v\<rparr>) = core_safe cu"
  by (simp_all add: core_safe_def eu_waiting_def)

lemma eu_safe_upd_core:
  "eu_safe s \<Longrightarrow> (core_safe (e_cores s c) \<Longrightarrow> core_safe (f (e_cores s c))) \<Longrightarrow> eu_safe (upd_core c f s)"
  by (simp add: eu_safe_def)

lemma eu_safe_simps [simp]:
  "eu_safe (eu_call x s) = eu_safe s"
  "eu_safe (set_req_data r d s) = eu_safe s"
  "eu_safe (upd_mutex i fm s) = eu_safe s"
  "eu_safe (upd_dispatch i fd s) = eu_safe s"
  "eu_safe (upd_barrier i fb s) = eu_safe s"
  by (simp_all add: eu_safe_def upd_mutex_def upd_dispatch_def upd_barrier_def)

lemma eu_enqueue_wakeup_safe: "eu_safe s \<Longrightarrow> eu_safe (eu_enqueue_wakeup c s)"
  by (simp add: eu_enqueue_wakeup_def eu_safe_def) (simp add: core_safe_def)

text \<open>A change of a core's own masks followed by \<open>check_state\<close>.\<close>

lemma eu_check_after_safe:
  assumes "eu_safe s" and "core_safe (e_cores s c) \<Longrightarrow> core_stable (f (e_cores s c))"
  shows "eu_safe (eu_check_state c (upd_core c f s))"
  using assms by (intro eu_check_state_safe) (simp_all add: eu_safe_def)

lemma core_stable_masks:
  "core_safe cu \<Longrightarrow> core_stable (c_evt_mask_update f cu)"
  "core_safe cu \<Longrightarrow> core_stable (c_irq_mask_update f cu)"
  "core_safe cu \<Longrightarrow> core_stable (c_status_update f cu)"
  "core_safe cu \<Longrightarrow> core_stable (c_sync_irq_update g cu)"
  by (auto simp: core_safe_def core_stable_def eu_waiting_def)

lemma eu_put_to_sleep_safe:
  assumes "eu_safe s" and "w \<in> {CORE_STATE_WAITING_EVENT, CORE_STATE_WAITING_BARRIER}"
    and "\<not> c_pending_elw (e_cores s c)" and "c_status (e_cores s c) AND c_evt_mask (e_cores s c) = 0"
  shows "eu_safe (snd (eu_put_to_sleep c r w s))"
  using assms by (auto simp: eu_put_to_sleep_def Let_def eu_safe_def core_safe_def eu_waiting_def)

lemma eu_wait_event_safe:
  assumes "eu_safe s" and "w \<in> {CORE_STATE_WAITING_EVENT, CORE_STATE_WAITING_BARRIER}"
    and "\<not> c_pending_elw (e_cores s c)"
  shows "eu_safe (snd (eu_wait_event c r w s))"
proof (cases "c_evt_mask (e_cores s c) AND c_status (e_cores s c) = 0")
  case True
  then have "c_status (e_cores s c) AND c_evt_mask (e_cores s c) = 0" by (simp add: ac_simps)
  with assms True show ?thesis by (simp add: eu_wait_event_def Let_def eu_put_to_sleep_safe)
next
  case False
  with assms show ?thesis
    by (auto simp: eu_wait_event_def Let_def intro!: eu_enqueue_wakeup_safe eu_safe_upd_core
        eu_check_wait_mask_safe)
qed

lemma eu_core_req_safe:
  assumes "eu_safe s" and "offset \<in> {0x38, 0x3c} \<Longrightarrow> \<not> c_pending_elw (e_cores s c)"
  shows "eu_safe (snd (eu_core_req c r offset w s))"
proof -
  note intros = eu_check_after_safe eu_clear_status_safe eu_check_state_safe core_stable_masks
  have clear: "eu_safe (eu_check_state c (eu_clear_status c m s))" for m
    using eu_clear_status_safe [OF assms(1), of c m]
    by (intro eu_check_state_safe) (auto simp: eu_safe_def intro: core_safe_stable)
  have wait: "eu_safe (snd (eu_wait_event c r CORE_STATE_WAITING_EVENT (upd_core c f s)))"
    if "\<And>cu. core_safe (f cu) = core_safe cu" "\<And>cu. c_pending_elw (f cu) = c_pending_elw cu"
       "offset \<in> {0x38, 0x3c}" for f
    using assms that by (intro eu_wait_event_safe eu_safe_upd_core) auto
  show ?thesis
    using assms(1) clear
    by (auto simp: eu_core_req_def Let_def intro!: wait eu_check_after_safe core_stable_masks)
qed

subsection \<open>The synchronisation units\<close>

lemma mutex_enqueue_sleep_safe:
  "eu_safe s \<Longrightarrow> \<not> c_pending_elw (e_cores s c) \<Longrightarrow> eu_safe (snd (mutex_enqueue_sleep i r c s))"
  by (auto simp: mutex_enqueue_sleep_def Let_def intro!: eu_wait_event_safe eu_safe_upd_core)

lemma mutex_req_safe:
  "eu_safe s \<Longrightarrow> \<not> c_pending_elw (e_cores s c) \<Longrightarrow> eu_safe (snd (mutex_req r off w c s))"
  by (auto simp: mutex_req_def Let_def mutex_transfer_def mutex_enqueue_sleep_safe
      intro!: eu_trigger_event_safe split: option.splits)

lemma barrier_check_safe: "eu_safe s \<Longrightarrow> eu_safe (barrier_check b s)"
  by (simp add: barrier_check_def Let_def eu_trigger_event_safe)

lemma barrier_check_keeps: "eu_keeps s (barrier_check b s)"
proof -
  have "eu_keeps s (upd_barrier b (b_status_update (\<lambda>_. 0)) s)"
    by (simp add: eu_keeps_def core_kept_def)
  then show ?thesis
    by (auto simp: barrier_check_def Let_def eu_keeps.refl
        intro: eu_keeps.trans [OF _ eu_keeps.trigger_event])
qed

text \<open>\<open>pending_elw\<close> is only set together with a scheduled interrupt wake-up of a sleeping core.\<close>

definition eu_elw_kept :: "event_unit \<Rightarrow> event_unit \<Rightarrow> bool" where
  "eu_elw_kept s s' \<longleftrightarrow> (\<forall>c. c_is_active (e_cores s' c) = c_is_active (e_cores s c) \<and>
     (c_is_active (e_cores s c) \<longrightarrow> c_pending_elw (e_cores s' c) = c_pending_elw (e_cores s c)))"

interpretation eu_elw: eu_relation eu_elw_kept
  by unfold_locales
    (auto simp: eu_elw_kept_def eu_wake_start_cores eu_enqueue_wakeup_def eu_check_rest_def
      eu_check_awake_def eu_check_irq_wake_def eu_enqueue_irq_wakeup_def Let_def)

lemma barrier_check_elw: "eu_elw_kept s (barrier_check b s)"
proof -
  have "eu_elw_kept s (upd_barrier b (b_status_update (\<lambda>_. 0)) s)" by (simp add: eu_elw_kept_def)
  then show ?thesis
    by (auto simp: barrier_check_def Let_def eu_elw.refl
        intro: eu_elw.trans [OF _ eu_elw.trigger_event])
qed

lemma barrier_arrive_sel [simp]:
  "e_cores (barrier_arrive b c s) = e_cores s"
  "eu_safe (barrier_arrive b c s) = eu_safe s"
  by (simp_all add: barrier_arrive_def)

lemma barrier_wait_safe:
  assumes "eu_safe s" and "c_is_active (e_cores s c)" and "\<not> c_pending_elw (e_cores s c)"
  shows "eu_safe (snd (eu_wait_event c r CORE_STATE_WAITING_BARRIER (barrier_check b s)))"
  using assms barrier_check_elw [of s b]
  by (intro eu_wait_event_safe barrier_check_safe) (auto simp: eu_elw_kept_def)

lemma barrier_req_safe:
  assumes "eu_safe s" and "c_is_active (e_cores s c)" and "\<not> c_pending_elw (e_cores s c)"
  shows "eu_safe (snd (barrier_req r off w c s))"
  using assms
  by (auto simp: barrier_req_def Let_def
      intro!: barrier_check_safe barrier_wait_safe eu_safe_upd_core)

lemma eu_safe_upd [simp]:
  "eu_safe (dispatch_next_tail c s) = eu_safe s"
  "eu_safe (s\<lparr>e_dispatch_config := v\<rparr>) = eu_safe s"
  "eu_safe (s\<lparr>e_dispatch_fifo_head := h\<rparr>) = eu_safe s"
  by (simp_all add: eu_safe_def)

lemma dispatch_skip_cores [simp]: "e_cores (dispatch_skip n c s) = e_cores s"
  by (induction n arbitrary: s) (simp_all add: upd_dispatch_def)

lemma dispatch_pop_safe:
  assumes "eu_safe s" and "\<not> c_pending_elw (e_cores s c)"
  shows "eu_safe (snd (dispatch_pop r c s))"
proof -
  have "eu_safe (dispatch_skip (e_dispatch_size s) c s)" using assms(1) by (simp add: eu_safe_def)
  with assms show ?thesis
    by (auto simp: dispatch_pop_def Let_def dispatch_enqueue_sleep_def
        intro!: eu_wait_event_safe eu_safe_upd_core)
qed

lemma dispatch_wake_safe: "eu_safe s \<Longrightarrow> eu_safe (dispatch_wake i c s)"
  by (simp add: dispatch_wake_def Let_def eu_trigger_event_safe)

text \<open>A bypassed core that is asleep already stays as safe as it was.\<close>

lemma dispatch_bypass_cores:
  "e_cores (dispatch_bypass i c s) = (e_cores s)(c := (e_cores s c)
     \<lparr>c_clear_evt_mask := shl1 (e_dispatch_event s), c_state := CORE_STATE_WAITING_EVENT,
      c_is_active := False, c_pending_req := Some (d_waiting_reqs (e_dispatches s i) c)\<rparr>)"
  by (auto simp: dispatch_bypass_def Let_def dispatch_enqueue_sleep_def eu_put_to_sleep_def)

lemma dispatch_bypass_safe:
  "eu_safe s \<Longrightarrow> \<not> c_is_active (e_cores s c) \<Longrightarrow> eu_safe (dispatch_bypass i c s)"
  by (auto simp: eu_safe_def dispatch_bypass_cores core_safe_def eu_waiting_def)

lemma eu_trigger_event_active [simp]:
  "c_is_active (e_cores (eu_trigger_event m cm s) c) = c_is_active (e_cores s c)"
  using eu_keeps_active(1) [OF eu_keeps.trigger_event] by blast

lemma dispatch_wake_push:
  "c_is_active (e_cores (dispatch_wake i c s) k) = c_is_active (e_cores s k)"
  "d_config_mask (e_dispatches (dispatch_wake i c s) i) = d_config_mask (e_dispatches s i)"
  by (simp_all add: dispatch_wake_def Let_def)

lemma dispatch_bypass_push:
  "c_is_active (e_cores (dispatch_bypass i c s) k) = (k \<noteq> c \<and> c_is_active (e_cores s k))"
  "d_config_mask (e_dispatches (dispatch_bypass i c s) j) = d_config_mask (e_dispatches s j)"
  by (simp add: dispatch_bypass_cores)
    (simp add: dispatch_bypass_def Let_def dispatch_enqueue_sleep_def eu_put_to_sleep_def eu_call_def)

lemma dispatch_push_loop_safe:
  assumes "eu_safe s"
    and "\<forall>c \<in> set cs. m AND shl1 (int c) \<noteq> 0 \<longrightarrow>
      d_config_mask (e_dispatches s i) AND shl1 (int c) = 0 \<longrightarrow> \<not> c_is_active (e_cores s c)"
  shows "eu_safe (dispatch_push_loop i m cs s)"
  using assms
proof (induction cs arbitrary: m s)
  case Nil
  then show ?case by simp
next
  case (Cons c cs)
  have less: "(m AND NOT b) AND a = (m AND a) AND NOT b" for a b :: u32 by (simp add: ac_simps)
  have "eu_safe (dispatch_push_loop i (m AND NOT (shl1 (int c))) cs (dispatch_wake i c s))"
    using Cons.prems
    by (intro Cons.IH) (auto simp: dispatch_wake_safe dispatch_wake_push less)
  moreover have "eu_safe (dispatch_push_loop i m cs (dispatch_bypass i c s))"
    if "m AND shl1 (int c) \<noteq> 0" "d_config_mask (e_dispatches s i) AND shl1 (int c) = 0"
    using Cons.prems that
    by (intro Cons.IH) (auto simp: dispatch_bypass_safe dispatch_bypass_push)
  ultimately show ?case using Cons by auto
qed

text \<open>
  A push is harmless when no running core outside the team is registered as waiting in the entry
  it fills; members of the team only receive an event.
\<close>

lemma dispatch_push_safe:
  assumes "eu_safe s"
    and "\<And>c. c < 32 \<Longrightarrow> c_is_active (e_cores s c) \<Longrightarrow> \<not> bit (e_dispatch_config s) c \<Longrightarrow>
      \<not> bit (d_waiting_mask (e_dispatches s (e_dispatch_fifo_head s))) c"
  shows "eu_safe (snd (dispatch_push r s))"
  using assms
  by (auto simp: dispatch_push_def Let_def and_bit_mask_0 bit_and_iff intro!: dispatch_push_loop_safe)

lemma eu_sw_events_req_safe: "eu_safe s \<Longrightarrow> eu_safe (snd (eu_sw_events_req r off w s))"
  by (simp add: eu_sw_events_req_def eu_trigger_event_safe)

lemma eu_soc_event_sync_safe: "eu_safe s \<Longrightarrow> eu_safe (eu_soc_event_sync e s)"
  by (auto simp: eu_soc_event_sync_def intro!: eu_soc_check_state_safe) (simp add: eu_safe_def)

lemma eu_soc_ioReq_safe: "eu_safe s \<Longrightarrow> eu_safe (snd (eu_soc_ioReq r w s))"
  by (auto simp: eu_soc_ioReq_def Let_def intro!: eu_trigger_event_safe) (simp_all add: eu_safe_def)

text \<open>A core just switched on is settled whatever it was.\<close>

lemma eu_check_active_safe:
  "eu_safe s \<Longrightarrow> (\<And>i. i \<noteq> c \<Longrightarrow> e_cores t i = e_cores s i) \<Longrightarrow> c_is_active (e_cores t c) \<Longrightarrow>
     eu_safe (eu_check_state c t)"
  by (rule eu_check_state_safe) (simp_all add: eu_safe_def core_stable_def)

lemma eu_wakeup_handler_safe: "eu_safe s \<Longrightarrow> eu_safe (eu_wakeup_handler c s)"
  unfolding eu_wakeup_handler_def Let_def by (erule eu_check_active_safe) simp_all

lemma eu_irq_wakeup_handler_safe: "eu_safe s \<Longrightarrow> eu_safe (eu_irq_wakeup_handler c s)"
  unfolding eu_irq_wakeup_handler_def Let_def by (erule eu_check_active_safe) simp_all

lemma eu_irq_ack_sync_safe: "eu_safe s \<Longrightarrow> eu_safe (eu_irq_ack_sync irq c s)"
  unfolding eu_irq_ack_sync_def
  by (intro eu_check_after_safe eu_clear_status_safe core_stable_masks)

lemma eu_in_event_sync_safe: "eu_safe s \<Longrightarrow> eu_safe (eu_in_event_sync a wire s)"
  unfolding eu_in_event_sync_def Let_def eu_set_status_def
  by (intro eu_check_after_safe core_stable_masks)

lemma eu_demux_req_safe:
  assumes "eu_safe s" and "c_is_active (e_cores s c)"
    and "\<And>i. off = 0x80 \<Longrightarrow> w \<Longrightarrow> i < 32 \<Longrightarrow> c_is_active (e_cores s i) \<Longrightarrow>
      \<not> bit (e_dispatch_config s) i \<Longrightarrow>
      \<not> bit (d_waiting_mask (e_dispatches s (e_dispatch_fifo_head s))) i"
  shows "eu_safe (snd (eu_demux_req r off sz w c s))"
proof -
  define t where "t = upd_core c (\<lambda>cu. cu\<lparr>c_pending_elw := False, c_pending_req_is_wait := False\<rparr>) s"
  have t: "eu_safe t" "c_is_active (e_cores t c)" "\<not> c_pending_elw (e_cores t c)"
    using assms(1,2) by (auto simp: t_def eu_safe_def core_safe_def eu_waiting_def)
  have dispatch: "eu_safe (snd (dispatch_req r (off - 0x80) w c t))" if "0x80 \<le> off"
    using t assms(3) that
    by (auto simp: dispatch_req_def dispatch_pop_safe intro!: dispatch_push_safe)
      (auto simp: t_def upd_core_def split: if_splits)
  have skip: "eu_safe (upd_core c (c_state_update (\<lambda>_. CORE_STATE_NONE)) t)"
    using t(1,2) by (simp add: eu_safe_def core_safe_def)
  show ?thesis
    using t skip dispatch
    by (simp add: eu_demux_req_def Let_def t_def [symmetric] eu_core_req_safe mutex_req_safe
        eu_sw_events_req_safe barrier_req_safe)
qed

lemma eu_req_safe:
  assumes "eu_safe s"
    and "off < 0x400 \<Longrightarrow> off mod 64 \<in> {0x38, 0x3c} \<Longrightarrow> \<not> c_pending_elw (e_cores s (off div 64))"
  shows "eu_safe (snd (eu_req r off sz w s))"
proof -
  have "eu_safe (snd (eu_core_req (off div 64) r (off - off div 64 * 64) w s))" if "off < 0x400"
    using assms that by (intro eu_core_req_safe) (auto simp: minus_div_mult_eq_mod)
  with assms(1) show ?thesis
    by (simp add: eu_req_def Let_def eu_soc_ioReq_safe eu_sw_events_req_safe)
qed

subsection \<open>Data nobody is about to write\<close>

text \<open>
  \<open>check_state\<close> writes the data of a request only when it wakes up the core that is parked on it in
  a read of its wait register. A request that is \<open>free\<close> in this sense stays free and keeps its data.
\<close>

definition eu_req_free :: "nat \<Rightarrow> event_unit \<Rightarrow> bool" where
  "eu_req_free r s \<longleftrightarrow> (\<forall>c. c_pending_req (e_cores s c) = Some r \<longrightarrow>
     \<not> (c_state (e_cores s c) = CORE_STATE_WAITING_EVENT \<and> c_pending_req_is_wait (e_cores s c)))"

definition eu_untouched :: "nat \<Rightarrow> event_unit \<Rightarrow> event_unit \<Rightarrow> bool" where
  "eu_untouched r s s' \<longleftrightarrow>
     (eu_req_free r s \<longrightarrow> eu_req_free r s' \<and> e_req_data s' r = e_req_data s r)"

interpretation eu_untouched: eu_relation "eu_untouched r" for r
  by unfold_locales
    (auto simp: eu_untouched_def eu_req_free_def eu_wake_start_def eu_enqueue_wakeup_def
      eu_check_rest_def eu_check_awake_def eu_check_irq_wake_def eu_enqueue_irq_wakeup_def Let_def
      split: option.splits)

lemma eu_req_free_upds [simp]:
  "eu_req_free r (set_req_data q d s) = eu_req_free r s"
  "eu_req_free r (upd_dispatch i fd s) = eu_req_free r s"
  "eu_req_free r (dispatch_next_tail c s) = eu_req_free r s"
  by (simp_all add: eu_req_free_def set_req_data_def upd_dispatch_def dispatch_next_tail_def)

subsection \<open>Waking up one core\<close>

text \<open>With no SoC event queued, a broadcast writes no request but those of wait registers.\<close>

lemma eu_check_state_data:
  assumes "eu_quiet s" and "\<not> c_pending_req_is_wait (e_cores s c)"
  shows "e_req_data (eu_check_state c s) = e_req_data s"
proof -
  have "eu_quiet (eu_wake_start c s)"
    using assms(1) eu_quiet_frame [OF eu_calm_frame [OF eu_wake_start_calm]] by blast
  moreover have "e_req_data (eu_wake_start c s) = e_req_data s"
    using assms(2) by (simp add: eu_wake_start_def split: option.splits)
  ultimately have "e_req_data (eu_wake_core_with eu_check_state c s) = e_req_data s"
    by (simp add: eu_wake_core_start Let_def eu_check_wait_mask_with_def eu_clear_status_with_def
        eu_soc_check_quiet eu_enqueue_wakeup_def)
  then show ?thesis
    by (simp add: eu_check_state_eq eu_check_rest_def eu_check_awake_def eu_check_irq_wake_def
        eu_enqueue_irq_wakeup_def Let_def)
qed

lemma eu_trigger_loop_data:
  assumes "eu_quiet s" and "distinct is" and "\<forall>i \<in> set is. i < 32"
    and "\<forall>i \<in> set is. eu_targets cm i \<longrightarrow> \<not> c_pending_req_is_wait (e_cores s i)"
  shows "e_req_data (eu_trigger_loop eu_check_state m cm is s) = e_req_data s"
  using assms
proof (induction "is" arbitrary: s)
  case Nil
  then show ?case by simp
next
  case (Cons i "is")
  have q: "eu_quiet (eu_set_status i v s)" for v using Cons.prems(1) by (simp add: eu_set_status_def)
  have other: "e_cores (eu_check_state i (eu_set_status i v s)) k = e_cores s k" if "k \<noteq> i" for v k
    using that by (simp add: eu_check_state_quiet [OF q])
  then have rest: "e_cores (eu_check_state i (eu_set_status i v s)) k = e_cores s k" if "k \<in> set is" for v k
    using that Cons.prems(2) by (intro other) auto
  have data: "e_req_data (eu_check_state i (eu_set_status i v s)) = e_req_data s" if "eu_targets cm i" for v
    using that Cons.prems(4) by (simp add: eu_check_state_data [OF q])
  show ?case
  proof (cases "eu_targets cm i")
    case True
    then have "eu_trigger_loop eu_check_state m cm (i # is) s
        = eu_trigger_loop eu_check_state m cm is (eu_send_event_with eu_check_state i m s)"
      using eu_targets_shl1 [of i cm] Cons.prems(3) by simp
    also have "e_req_data \<dots> = e_req_data (eu_send_event_with eu_check_state i m s)"
      using Cons.prems q unfolding eu_send_event_with_def
      by (intro Cons.IH) (simp_all add: rest)
    finally show ?thesis using True by (simp add: eu_send_event_with_def data)
  next
    case False
    then show ?thesis using eu_targets_shl1 [of i cm] Cons by simp
  qed
qed

lemma or_and_nonzero:
  assumes "e AND m \<noteq> (0 :: u32)"
  shows "(v OR m) AND e \<noteq> 0"
  using assms unfolding word_nonzero_bit by (auto simp: bit_and_iff bit_or_iff)

lemma eu_targets_one: "j < 32 \<Longrightarrow> eu_targets (bit_mask j) i \<longleftrightarrow> i = j"
  by (auto simp: eu_targets_def bit_mask_def bit_simps)

text \<open>Sending an event to one sleeping core that has it unmasked.\<close>

lemma eu_trigger_one:
  assumes "eu_quiet s" and "e_nb_core s \<le> 32" and "j < e_nb_core s"
    and "\<not> c_is_active (e_cores s j)" and "eu_waiting (e_cores s j)" and "\<not> c_pending_elw (e_cores s j)"
    and "\<not> c_pending_req_is_wait (e_cores s j)" and "c_evt_mask (e_cores s j) AND m \<noteq> 0"
  shows "e_cores (eu_trigger_event m (shl1 (int j)) s) = (e_cores s)(j := (e_cores s j)
      \<lparr>c_state := CORE_STATE_NONE,
       c_status := (c_status (e_cores s j) OR m) AND NOT (c_clear_evt_mask (e_cores s j)),
       c_clear_evt_mask := 0, c_wakeup_enqueued := True\<rparr>)"
    and "e_req_data (eu_trigger_event m (shl1 (int j)) s) = e_req_data s"
proof -
  have "(c_status (e_cores s j) OR m) AND c_evt_mask (e_cores s j) \<noteq> 0"
    using assms(8) by (rule or_and_nonzero)
  then have "core_settle ((e_cores s j)\<lparr>c_status := c_status (e_cores s j) OR m\<rparr>) = (e_cores s j)
      \<lparr>c_state := CORE_STATE_NONE,
       c_status := (c_status (e_cores s j) OR m) AND NOT (c_clear_evt_mask (e_cores s j)),
       c_clear_evt_mask := 0, c_wakeup_enqueued := True\<rparr>"
    using assms(4-6) by (simp add: core_settle_def eu_waiting_def)
  then show "e_cores (eu_trigger_event m (shl1 (int j)) s) = (e_cores s)(j := (e_cores s j)
      \<lparr>c_state := CORE_STATE_NONE,
       c_status := (c_status (e_cores s j) OR m) AND NOT (c_clear_evt_mask (e_cores s j)),
       c_clear_evt_mask := 0, c_wakeup_enqueued := True\<rparr>)"
    using assms(2,3) by (auto simp: fun_eq_iff eu_trigger_event_pointwise' [OF assms(1,2)] eu_targets_one)
  show "e_req_data (eu_trigger_event m (shl1 (int j)) s) = e_req_data s"
    using assms eu_trigger_loop_data [OF assms(1), of "[0..<e_nb_core s]"]
    by (auto simp: eu_trigger_event_def eu_trigger_event_with_def eu_targets_one)
qed

subsection \<open>Runs of the event unit\<close>

text \<open>
  Everything the environment does between two resets: a request of a core on its own port, a
  request on the peripheral port (each with the data word \<open>d\<close> of request \<open>r\<close>), the two clock
  events, and the wires.
\<close>

datatype eu_op =
    Demux_req nat u32 nat nat bool nat
  | Periph_req nat u32 nat nat bool
  | Wakeup nat
  | Irq_wakeup nat
  | Irq_ack int nat
  | In_event bool nat
  | Soc_event u32

fun eu_step :: "eu_op \<Rightarrow> event_unit \<Rightarrow> event_unit" where
  "eu_step (Demux_req r d off sz w c) s = snd (eu_demux_req r off sz w c (set_req_data r d s))"
| "eu_step (Periph_req r d off sz w) s = snd (eu_req r off sz w (set_req_data r d s))"
| "eu_step (Wakeup c) s = eu_wakeup_handler c s"
| "eu_step (Irq_wakeup c) s = eu_irq_wakeup_handler c s"
| "eu_step (Irq_ack irq c) s = eu_irq_ack_sync irq c s"
| "eu_step (In_event a wire) s = eu_in_event_sync a wire s"
| "eu_step (Soc_event e) s = eu_soc_event_sync e s"

text \<open>
  What the software must respect: only a running core uses its port; a wait register of a core is
  not read over the peripheral port while that core has an interrupted wait; and a dispatch value
  is not pushed while a running core outside its team is still registered as waiting in the entry
  it fills (such a push clock-gates the running core, as the end of this theory shows).
\<close>

fun eu_op_ok :: "eu_op \<Rightarrow> event_unit \<Rightarrow> bool" where
  "eu_op_ok (Demux_req r d off sz w c) s \<longleftrightarrow> c_is_active (e_cores s c) \<and>
     (off = 0x80 \<and> w \<longrightarrow> (\<forall>i<32. c_is_active (e_cores s i) \<longrightarrow> \<not> bit (e_dispatch_config s) i \<longrightarrow>
        \<not> bit (d_waiting_mask (e_dispatches s (e_dispatch_fifo_head s))) i))"
| "eu_op_ok (Periph_req r d off sz w) s \<longleftrightarrow>
     (off < 0x400 \<and> off mod 64 \<in> {0x38, 0x3c} \<longrightarrow> \<not> c_pending_elw (e_cores s (off div 64)))"
| "eu_op_ok _ s \<longleftrightarrow> True"

inductive eu_reachable :: "event_unit \<Rightarrow> event_unit \<Rightarrow> bool" for s0 where
  start: "eu_reachable s0 s0"
| step: "eu_reachable s0 s \<Longrightarrow> eu_op_ok op s \<Longrightarrow> eu_reachable s0 (eu_step op s)"

lemma set_req_data_config [simp]: "e_dispatch_config (set_req_data r d s) = e_dispatch_config s"
  by (simp add: set_req_data_def)

lemma eu_step_safe: "eu_safe s \<Longrightarrow> eu_op_ok op s \<Longrightarrow> eu_safe (eu_step op s)"
  by (cases op)
    (auto simp: eu_wakeup_handler_safe eu_irq_wakeup_handler_safe eu_irq_ack_sync_safe
      eu_in_event_sync_safe eu_soc_event_sync_safe intro!: eu_demux_req_safe eu_req_safe)

lemma eu_reachable_safe: "eu_reachable s0 s \<Longrightarrow> eu_safe s0 \<Longrightarrow> eu_safe s"
  by (induction rule: eu_reachable.induct) (auto intro: eu_step_safe)

text \<open>
  C1. No lost wake-up: from a state where no core sleeps, after any sequence of accesses, wires and
  clock events in which only running cores use their own port, nobody reads the wait register of a
  core with an interrupted wait over the peripheral port, and no value is pushed while a running
  core outside its team is registered in the entry, a core that is clock-gated while one of its
  unmasked events is set has a wake-up scheduled, and a clock-gated core without a scheduled
  wake-up is waiting for an event or a barrier. Nothing is said of running cores; the push that
  the last rule excludes is the next theorem.
\<close>

theorem eu_no_lost_wakeup:
  assumes "\<And>c. c_is_active (e_cores s0 c)" and "eu_reachable s0 s"
    and "\<not> c_is_active (e_cores s c)"
  shows "(c_status (e_cores s c) AND c_evt_mask (e_cores s c) \<noteq> 0 \<longrightarrow>
           c_wakeup_enqueued (e_cores s c) \<or> c_irq_wakeup_enqueued (e_cores s c))
     \<and> (\<not> c_wakeup_enqueued (e_cores s c) \<longrightarrow> \<not> c_irq_wakeup_enqueued (e_cores s c) \<longrightarrow>
           c_state (e_cores s c) = CORE_STATE_WAITING_EVENT
         \<or> c_state (e_cores s c) = CORE_STATE_WAITING_BARRIER)"
proof -
  have "core_safe (e_cores s c)"
    using eu_reachable_safe [OF assms(2)] assms(1) by (simp add: eu_safe_def core_safe_def)
  with assms(3) show ?thesis by (auto simp: core_safe_def eu_waiting_def)
qed

subsection \<open>A push to another team stops a running core\<close>

lemma dispatch_push_loop_sleeping:
  "\<not> c_is_active (e_cores s c) \<Longrightarrow> \<not> c_is_active (e_cores (dispatch_push_loop i m cs s) c)"
  by (induction cs arbitrary: m s) (simp_all add: dispatch_wake_push dispatch_bypass_push)

lemma dispatch_push_loop_gates:
  assumes "c \<in> set cs" and "c < 32" and "\<forall>k \<in> set cs. k < 32" and "bit m c"
    and "\<not> bit (d_config_mask (e_dispatches s i)) c"
  shows "\<not> c_is_active (e_cores (dispatch_push_loop i m cs s) c)"
  using assms
proof (induction cs arbitrary: m s)
  case Nil
  then show ?case by simp
next
  case (Cons k cs)
  have nz: "m \<noteq> 0" using Cons.prems(4) by auto
  show ?case
  proof (cases "k = c")
    case True
    then have "m AND shl1 (int k) \<noteq> 0" "d_config_mask (e_dispatches s i) AND shl1 (int k) = 0"
      using Cons.prems by (simp_all add: and_bit_mask_0)
    with nz True show ?thesis
      by (simp add: dispatch_push_loop_sleeping dispatch_bypass_push)
  next
    case False
    then have "bit (m AND NOT (shl1 (int k))) c"
      using Cons.prems(2,3,4) by (simp add: bit_and_iff bit_not_iff)
    with False nz Cons show ?thesis by (simp add: dispatch_wake_push dispatch_bypass_push)
  qed
qed

lemma dispatch_push_gates:
  assumes "c < 32" and "bit (d_waiting_mask (e_dispatches s (e_dispatch_fifo_head s))) c"
    and "\<not> bit (e_dispatch_config s) c"
  shows "\<not> c_is_active (e_cores (snd (dispatch_push r s)) c)"
  using assms
  by (simp add: dispatch_push_def Let_def dispatch_push_loop_gates)

text \<open>
  C4. The rule on pushes is needed, and the software breaks it easily. A core that reads the
  dispatch queue when nothing is ready, while another unmasked event is already set, is answered
  and runs on, but stays registered in the entry; when a value for a team without that core is
  pushed there next, the running core is clock-gated.
\<close>

theorem dispatch_push_stops_running_core:
  assumes "c < 32" and "c_is_active (e_cores s c)"
    and "c_evt_mask (e_cores s c) AND c_status (e_cores s c) \<noteq> 0"
    and "e_dispatch_tail s c = e_dispatch_fifo_head s"
    and "\<not> bit (d_status_mask (e_dispatches s (e_dispatch_fifo_head s))) c"
    and "s1 = eu_wakeup_handler c (snd (dispatch_pop r c s))" and "\<not> bit team c"
  shows "c_is_active (e_cores s1 c) \<and> Resp c (Some r) \<in> set (e_calls s1)
     \<and> \<not> c_is_active (e_cores (snd (dispatch_push r' (s1\<lparr>e_dispatch_config := team\<rparr>))) c)"
proof -
  let ?i = "e_dispatch_fifo_head s" and ?p = "snd (dispatch_pop r c s)"
  have "\<not> dispatch_foreign c s"
    using assms(1,4,5) by (simp add: dispatch_foreign_def Let_def and_bit_mask_0)
  then have skip: "dispatch_skip (e_dispatch_size s) c s = s" by (cases "e_dispatch_size s") simp_all
  have pop: "?p = snd (dispatch_enqueue_sleep ?i r c True s)"
    using assms(1,4,5) by (simp add: dispatch_pop_def skip Let_def and_bit_mask_0)
  then have entry: "bit (d_waiting_mask (e_dispatches ?p ?i)) c" "e_dispatch_fifo_head ?p = ?i"
    using assms(1) by (simp_all add: dispatch_enqueue_sleep_def Let_def bit_or_iff)
  have req: "c_pending_req (e_cores ?p c) = Some r"
    using assms(3) by (simp add: pop dispatch_enqueue_sleep_def Let_def eu_wait_event_def
        eu_enqueue_wakeup_def)
  note wake = eu_wakeup_replies [of c ?p]
  have frame: "eu_frame ?p s1" using wake assms(6) by simp
  have "\<not> c_is_active (e_cores (snd (dispatch_push r' (s1\<lparr>e_dispatch_config := team\<rparr>))) c)"
    using assms(1,7) entry by (intro dispatch_push_gates) (simp_all add: eu_frame_sel [OF frame])
  moreover have "c_is_active (e_cores s1 c)" "Resp c (Some r) \<in> set (e_calls s1)"
    using wake req assms(6) by auto
  ultimately show ?thesis by simp
qed

subsection \<open>Witnesses\<close>

text \<open>Core 0 reads its wait register over its port and sleeps; then it is sent an event.\<close>

lemma eu_example_active: "c_is_active (e_cores eu_example c)"
  by (simp add: eu_example_def core_example_def)

definition eu_example_sleep :: event_unit where
  "eu_example_sleep = eu_step (Demux_req 0 0 0x38 4 False 0) eu_example"

lemma eu_example_sleep_core:
  "e_cores eu_example_sleep 0 = core_example
     \<lparr>c_pending_req_is_wait := True, c_state := CORE_STATE_WAITING_EVENT, c_is_active := False,
      c_pending_req := Some 0\<rparr>"
  by (simp add: eu_example_sleep_def eu_demux_req_def eu_core_req_def eu_wait_event_def
      eu_put_to_sleep_def Let_def) (simp add: eu_example_def core_example_def)

lemma eu_example_sleep_reachable: "eu_reachable eu_example eu_example_sleep"
  unfolding eu_example_sleep_def
  by (rule eu_reachable.step [OF eu_reachable.start]) (simp add: eu_example_active)

definition eu_example_woken :: event_unit where
  "eu_example_woken = eu_step (In_event True 3) eu_example_sleep"

lemma eu_example_woken_core:
  "\<not> c_is_active (e_cores eu_example_woken 0) \<and> \<not> c_irq_wakeup_enqueued (e_cores eu_example_woken 0)
   \<and> c_status (e_cores eu_example_woken 0) AND c_evt_mask (e_cores eu_example_woken 0) \<noteq> 0"
proof -
  have "eu_quiet (eu_set_status 0 v eu_example_sleep)" for v
    by (simp add: eu_set_status_def eu_example_sleep_def eu_demux_req_def eu_core_req_def Let_def)
  then show ?thesis
    by (simp add: eu_example_woken_def eu_in_event_sync_def eu_check_state_quiet
        eu_example_sleep_core core_settle_def core_example_def eu_waiting_def shl1_def)
qed

lemma eu_example_woken_reachable: "eu_reachable eu_example eu_example_woken"
  unfolding eu_example_woken_def by (rule eu_reachable.step [OF eu_example_sleep_reachable]) simp

theorem eu_no_lost_wakeup_witness: "c_wakeup_enqueued (e_cores eu_example_woken 0)"
  using eu_no_lost_wakeup [OF eu_example_active eu_example_woken_reachable, of 0]
    eu_example_woken_core by simp

theorem dispatch_push_stops_running_core_witness:
  "\<not> c_is_active (e_cores (snd (dispatch_push 9 ((eu_wakeup_handler 1 (snd (dispatch_pop 7 1
       (upd_core 1 (c_status_update (\<lambda>_. 1)) eu_example))))\<lparr>e_dispatch_config := 4\<rparr>))) 1)"
  using dispatch_push_stops_running_core [OF _ _ _ _ _ refl, of 1
      "upd_core 1 (c_status_update (\<lambda>_. 1)) eu_example" 4 7 9]
  by (simp add: eu_example_def core_example_def bit_simps)

end
