(* ===== verification/Event_Unit_Barrier.thy ===== *)
theory Event_Unit_Barrier
  imports Event_Unit_Wake
begin

section \<open>The event unit: a barrier round\<close>

text \<open>
  Cores meeting at a hardware barrier through \<open>TRIGGER_WAIT\<close> of their own port: every arrival but
  the last only parks its core, the last one resets the barrier and wakes the targets up, in
  whatever order the cores arrive.
\<close>

subsection \<open>Address decoding\<close>

lemma barrier_id_decode: "b < 16 \<Longrightarrow> d < 32 \<Longrightarrow> barrier_id (d + b * 32) = b"
  by (simp add: barrier_id_def)

definition barrier_wait :: "nat \<Rightarrow> nat \<Rightarrow> nat \<Rightarrow> event_unit \<Rightarrow> event_unit" where
  "barrier_wait b c r s = snd (eu_demux_req r (0x200 + b * 32 + 0x18) 4 False c s)"

text \<open>A core about to arrive: running, not interrupted, no unmasked event set, barrier unmasked.\<close>

definition barrier_ready :: "event_unit \<Rightarrow> nat \<Rightarrow> bool" where
  "barrier_ready s c \<longleftrightarrow> (let cu = e_cores s c in
     c < e_nb_core s \<and> c_is_active cu \<and> c_state cu = CORE_STATE_NONE
   \<and> c_evt_mask cu AND c_status cu = 0 \<and> c_evt_mask cu AND shl1 (e_barrier_event s) \<noteq> 0
   \<and> \<not> c_wakeup_enqueued cu)"

definition core_park :: "nat \<Rightarrow> core_eu \<Rightarrow> core_eu" where
  "core_park r cu = cu\<lparr>c_pending_elw := False, c_pending_req_is_wait := False,
     c_state := CORE_STATE_WAITING_BARRIER, c_is_active := False, c_pending_req := Some r\<rparr>"

definition core_called :: "core_eu \<Rightarrow> core_eu" where
  "core_called cu = cu\<lparr>c_pending_elw := False, c_pending_req_is_wait := False\<rparr>"

lemma barrier_wait_eq:
  assumes "b < 16" and "b < e_nb_barriers s" and "c_state (e_cores s c) = CORE_STATE_NONE"
  shows "barrier_wait b c r s = snd (eu_wait_event c r CORE_STATE_WAITING_BARRIER
     (barrier_check b (barrier_arrive b c (upd_core c core_called s))))"
proof -
  let ?t = "upd_core c core_called s"
  have demux: "eu_demux_req r (512 + b * 32 + 24) 4 False c s = barrier_req r (24 + b * 32) False c ?t"
    using assms by (simp add: eu_demux_req_def Let_def core_called_def [abs_def])
  have "barrier_id (24 + b * 32) = b" using barrier_id_decode [OF assms(1), of 24] by simp
  then have "barrier_req r (24 + b * 32) False c ?t
      = eu_wait_event c r CORE_STATE_WAITING_BARRIER (barrier_check b (barrier_arrive b c ?t))"
    using assms unfolding barrier_req_def Let_def by (simp add: core_called_def)
  with demux show ?thesis by (simp add: barrier_wait_def)
qed

subsection \<open>An arrival that is not the last\<close>

lemma barrier_wait_early:
  assumes "b < 16" and "b < e_nb_barriers s" and "barrier_ready s c"
    and "b_status (e_barriers s b) OR shl1 (int c) \<noteq> b_core_mask (e_barriers s b)"
  shows "e_cores (barrier_wait b c r s) = (e_cores s)(c := core_park r (e_cores s c))"
    and "e_barriers (barrier_wait b c r s) = (e_barriers s)
      (b := b_status_update (\<lambda>v. v OR shl1 (int c)) (e_barriers s b))"
proof -
  have c: "c_state (e_cores s c) = CORE_STATE_NONE" "c_evt_mask (e_cores s c) AND c_status (e_cores s c) = 0"
    using assms(3) by (simp_all add: barrier_ready_def Let_def)
  let ?t = "barrier_arrive b c (upd_core c core_called s)"
  have "barrier_check b ?t = ?t" using assms(4) by (simp add: barrier_check_def barrier_arrive_def)
  note eq = barrier_wait_eq [OF assms(1,2) c(1), of r, unfolded this]
  show "e_cores (barrier_wait b c r s) = (e_cores s)(c := core_park r (e_cores s c))"
    using c by (auto simp: eq eu_wait_event_def eu_put_to_sleep_def Let_def core_park_def core_called_def)
  show "e_barriers (barrier_wait b c r s) = (e_barriers s)
      (b := b_status_update (\<lambda>v. v OR shl1 (int c)) (e_barriers s b))"
    by (simp add: eq barrier_arrive_def)
qed

lemma barrier_check_sel [simp]:
  "e_nb_core (barrier_check b s) = e_nb_core s"
  "e_nb_barriers (barrier_check b s) = e_nb_barriers s"
  "e_barrier_event (barrier_check b s) = e_barrier_event s"
  "eu_quiet (barrier_check b s) = eu_quiet s"
  by (simp_all add: barrier_check_def Let_def)

lemma barrier_wait_frame:
  assumes "b < 16" and "b < e_nb_barriers s" and "barrier_ready s c"
  shows "e_nb_core (barrier_wait b c r s) = e_nb_core s"
    and "e_nb_barriers (barrier_wait b c r s) = e_nb_barriers s"
    and "e_barrier_event (barrier_wait b c r s) = e_barrier_event s"
    and "eu_quiet (barrier_wait b c r s) = eu_quiet s"
proof -
  have "c_state (e_cores s c) = CORE_STATE_NONE" using assms(3) by (simp add: barrier_ready_def Let_def)
  note eq = barrier_wait_eq [OF assms(1,2) this, of r]
  show "e_nb_core (barrier_wait b c r s) = e_nb_core s"
    and "e_nb_barriers (barrier_wait b c r s) = e_nb_barriers s"
    and "e_barrier_event (barrier_wait b c r s) = e_barrier_event s"
    and "eu_quiet (barrier_wait b c r s) = eu_quiet s"
    by (simp_all add: eq barrier_arrive_def)
qed

subsection \<open>The last arrival\<close>

lemma core_settle_park:
  assumes "c_evt_mask cu AND c_status cu = 0" and "c_evt_mask cu AND m \<noteq> 0"
  shows "core_settle ((core_park r cu)\<lparr>c_status := c_status cu OR m\<rparr>) = (core_park r cu)
    \<lparr>c_state := CORE_STATE_NONE, c_status := (c_status cu OR m) AND NOT (c_clear_evt_mask cu),
     c_clear_evt_mask := 0, c_wakeup_enqueued := True\<rparr>"
proof -
  have "(c_status cu OR m) AND c_evt_mask cu \<noteq> 0"
    using assms by (simp add: bit.conj_disj_distrib and.commute [of _ "c_evt_mask cu"])
  then show ?thesis by (simp add: core_settle_def core_park_def eu_waiting_def)
qed

text \<open>The caller, if it is a target, finds the event set and is answered after the wake-up delay.\<close>

lemma eu_wait_event_ready:
  assumes "eu_quiet s" and "c_evt_mask (e_cores s c) AND c_status (e_cores s c) \<noteq> 0"
  shows "e_cores (snd (eu_wait_event c r w s)) = (e_cores s)(c := (e_cores s c)
    \<lparr>c_status := c_status (e_cores s c) AND NOT (c_clear_evt_mask (e_cores s c)),
     c_clear_evt_mask := 0, c_pending_req := Some r, c_wakeup_enqueued := True\<rparr>)"
  using assms
  by (auto simp: eu_wait_event_def Let_def eu_enqueue_wakeup_def eu_check_wait_mask_def
      eu_check_wait_mask_quiet)

lemma eu_wait_event_others:
  "eu_quiet s \<Longrightarrow> i \<noteq> c \<Longrightarrow> e_cores (snd (eu_wait_event c r w s)) i = e_cores s i"
  by (auto simp: eu_wait_event_def eu_put_to_sleep_def Let_def eu_enqueue_wakeup_def
      eu_check_wait_mask_def eu_check_wait_mask_quiet)

lemma barrier_wait_last:
  assumes "b < 16" and "b < e_nb_barriers s" and "barrier_ready s c" and "eu_quiet s"
    and "e_nb_core s \<le> 32"
    and "b_status (e_barriers s b) OR shl1 (int c) = b_core_mask (e_barriers s b)"
    and T: "T = b_target_mask (e_barriers s b)" and m: "m = shl1 (e_barrier_event s)"
  shows "i \<noteq> c \<Longrightarrow> e_cores (barrier_wait b c r s) i =
      (if i < e_nb_core s \<and> eu_targets T i
       then core_settle ((e_cores s i)\<lparr>c_status := c_status (e_cores s i) OR m\<rparr>) else e_cores s i)"
    and "eu_targets T c \<Longrightarrow> c_wakeup_enqueued (e_cores (barrier_wait b c r s) c)
      \<and> c_state (e_cores (barrier_wait b c r s) c) = CORE_STATE_NONE
      \<and> c_pending_req (e_cores (barrier_wait b c r s) c) = Some r"
    and "e_barriers (barrier_wait b c r s) = (e_barriers s)(b := (e_barriers s b)\<lparr>b_status := 0\<rparr>)"
proof -
  have c: "c < e_nb_core s" "c_is_active (e_cores s c)" "c_state (e_cores s c) = CORE_STATE_NONE"
      "c_evt_mask (e_cores s c) AND c_status (e_cores s c) = 0" "c_evt_mask (e_cores s c) AND m \<noteq> 0"
    using assms(3) by (simp_all add: barrier_ready_def Let_def m)
  let ?a = "upd_barrier b (b_status_update (\<lambda>_. 0)) (barrier_arrive b c (upd_core c core_called s))"
  have "barrier_check b (barrier_arrive b c (upd_core c core_called s)) = eu_trigger_event m T ?a"
    using assms(6) by (simp add: barrier_check_def Let_def barrier_arrive_def m T)
  note eq = barrier_wait_eq [OF assms(1,2) c(3), of r, unfolded this]
  have a: "eu_quiet ?a" "e_nb_core ?a = e_nb_core s"
      "e_cores ?a = (e_cores s)(c := core_called (e_cores s c))"
    using assms(4) by (simp_all add: barrier_arrive_def)
  have t: "e_cores (eu_trigger_event m T ?a) i = (if i < e_nb_core s \<and> eu_targets T i
      then core_settle ((e_cores ?a i)\<lparr>c_status := c_status (e_cores ?a i) OR m\<rparr>) else e_cores ?a i)" for i
    using eu_trigger_event_pointwise' [OF a(1)] assms(5) a(2) by simp
  show "e_barriers (barrier_wait b c r s) = (e_barriers s)(b := (e_barriers s b)\<lparr>b_status := 0\<rparr>)"
    by (simp add: eq barrier_arrive_def)
  show "e_cores (barrier_wait b c r s) i =
      (if i < e_nb_core s \<and> eu_targets T i
       then core_settle ((e_cores s i)\<lparr>c_status := c_status (e_cores s i) OR m\<rparr>) else e_cores s i)"
    if "i \<noteq> c"
    using that a(1) by (simp add: eq eu_wait_event_others t a(3))
  show "c_wakeup_enqueued (e_cores (barrier_wait b c r s) c)
      \<and> c_state (e_cores (barrier_wait b c r s) c) = CORE_STATE_NONE
      \<and> c_pending_req (e_cores (barrier_wait b c r s) c) = Some r" if "eu_targets T c"
  proof -
    have "c_evt_mask (e_cores s c) AND (c_status (e_cores s c) OR m) \<noteq> 0"
      using c(4,5) by (simp add: bit.conj_disj_distrib)
    with that c have "c_evt_mask (e_cores (eu_trigger_event m T ?a) c)
        AND c_status (e_cores (eu_trigger_event m T ?a) c) \<noteq> 0"
      by (simp add: t a(3) core_called_def core_settle_def)
    then show ?thesis
      using that c a(1) by (simp add: eq eu_wait_event_ready t a(3) core_called_def core_settle_def)
  qed
qed

subsection \<open>A whole round\<close>

definition cores_mask :: "nat list \<Rightarrow> u32" where
  "cores_mask cs = fold (\<lambda>c m. m OR shl1 (int c)) cs 0"

definition barrier_run :: "nat \<Rightarrow> (nat \<times> nat) list \<Rightarrow> event_unit \<Rightarrow> event_unit" where
  "barrier_run b rcs s = fold (\<lambda>(c, r). barrier_wait b c r) rcs s"

lemma barrier_run_simps [simp]:
  "barrier_run b [] s = s"
  "barrier_run b (rcs @ [(c, r)]) s = barrier_wait b c r (barrier_run b rcs s)"
  by (simp_all add: barrier_run_def)

lemma cores_mask_simps [simp]:
  "cores_mask [] = 0" "cores_mask (cs @ [c]) = cores_mask cs OR shl1 (int c)"
  by (simp_all add: cores_mask_def)

lemma bit_cores_mask: "\<forall>c \<in> set cs. c < 32 \<Longrightarrow> bit (cores_mask cs) i \<longleftrightarrow> i \<in> set cs"
  by (induction cs rule: rev_induct) (auto simp: bit_or_iff)

lemma cores_mask_eq:
  assumes "\<forall>c \<in> set cs. c < 32" and "cores_mask cs = M"
  shows "set cs = {i. bit M i}"
  using assms bit_cores_mask by auto

text \<open>
  The state of a round before its last arrival: the cores that arrived are parked on their request,
  the others are as they were, and the barrier's status is the set of arrived cores.
\<close>

definition barrier_part ::
    "nat \<Rightarrow> (nat \<times> nat) list \<Rightarrow> event_unit \<Rightarrow> event_unit \<Rightarrow> bool" where
  "barrier_part b rcs s0 s \<longleftrightarrow>
     e_cores s = (\<lambda>i. case map_of rcs i of Some r \<Rightarrow> core_park r (e_cores s0 i) | None \<Rightarrow> e_cores s0 i)
   \<and> e_barriers s = (e_barriers s0)(b := (e_barriers s0 b)\<lparr>b_status := cores_mask (map fst rcs)\<rparr>)
   \<and> e_nb_core s = e_nb_core s0 \<and> e_nb_barriers s = e_nb_barriers s0
   \<and> e_barrier_event s = e_barrier_event s0 \<and> eu_quiet s = eu_quiet s0"

lemma barrier_part_ready:
  assumes "barrier_part b rcs s0 s" and "barrier_ready s0 c" and "c \<notin> fst ` set rcs"
  shows "e_cores s c = e_cores s0 c" and "barrier_ready s c"
proof -
  have "map_of rcs c = None" using assms(3) by (simp add: map_of_eq_None_iff)
  then show "e_cores s c = e_cores s0 c" and "barrier_ready s c"
    using assms(1,2) by (simp_all add: barrier_part_def barrier_ready_def)
qed

lemma barrier_part_step:
  assumes "barrier_part b rcs s0 s" and "b < 16" and "b < e_nb_barriers s0" and "barrier_ready s0 c"
    and "c \<notin> fst ` set rcs" and "cores_mask (map fst rcs) OR shl1 (int c) \<noteq> b_core_mask (e_barriers s0 b)"
  shows "barrier_part b (rcs @ [(c, r)]) s0 (barrier_wait b c r s)"
proof -
  note ready = barrier_part_ready [OF assms(1,4,5)]
  have b: "b < e_nb_barriers s" and n: "b_status (e_barriers s b) OR shl1 (int c) \<noteq> b_core_mask (e_barriers s b)"
    using assms(1,3,6) by (simp_all add: barrier_part_def)
  have "map_of rcs c = None" using assms(5) by (simp add: map_of_eq_None_iff)
  with assms(1) show ?thesis
    by (auto simp: barrier_part_def barrier_wait_early [OF assms(2) b ready(2) n]
        barrier_wait_frame [OF assms(2) b ready(2)] fun_eq_iff map_add_def split: option.splits)
qed

lemma barrier_part_run:
  assumes "b < 16" and "b < e_nb_barriers s0" and "e_nb_core s0 \<le> 32" and "b_status (e_barriers s0 b) = 0"
    and "\<forall>c \<in> fst ` set rcs. barrier_ready s0 c" and "distinct (map fst rcs)"
    and "bit (b_core_mask (e_barriers s0 b)) k" and "k \<notin> fst ` set rcs"
  shows "barrier_part b rcs s0 (barrier_run b rcs s0)"
  using assms(5-)
proof (induction rcs rule: rev_induct)
  case Nil
  have "(e_barriers s0 b)\<lparr>b_status := 0\<rparr> = e_barriers s0 b" using assms(4) by simp
  then show ?case by (simp add: barrier_part_def fun_eq_iff)
next
  case (snoc x rcs)
  obtain c r where x: "x = (c, r)" by (cases x)
  have small: "\<forall>c \<in> set (map fst rcs @ [c]). c < 32"
    using snoc.prems(1) assms(3) by (auto simp: x barrier_ready_def Let_def)
  have "k \<notin> set (map fst rcs @ [c])" using snoc.prems(4) by (auto simp: x)
  then have mask: "cores_mask (map fst rcs @ [c]) \<noteq> b_core_mask (e_barriers s0 b)"
    using bit_cores_mask [OF small, of k] snoc.prems(3) by metis
  have "barrier_part b rcs s0 (barrier_run b rcs s0)"
    using snoc.prems by (intro snoc.IH) simp_all
  moreover have "barrier_ready s0 c" "c \<notin> fst ` set rcs"
    using snoc.prems(1,2) by (simp_all add: x)
  ultimately show ?case
    using mask unfolding x barrier_run_simps
    by (intro barrier_part_step [OF _ assms(1,2)]) simp_all
qed

text \<open>The last arrival of a round.\<close>

lemma barrier_part_last:
  assumes "barrier_part b rcs s0 s" and "b < 16" and "b < e_nb_barriers s0" and "eu_quiet s0"
    and "e_nb_core s0 \<le> 32" and "\<forall>c \<in> fst ` set (rcs @ [(c, r)]). barrier_ready s0 c"
    and "distinct (map fst (rcs @ [(c, r)]))"
    and "fst ` set (rcs @ [(c, r)]) = {i. bit (b_core_mask (e_barriers s0 b)) i}"
  shows "(i, q) \<in> set (rcs @ [(c, r)]) \<Longrightarrow> eu_targets (b_target_mask (e_barriers s0 b)) i \<Longrightarrow>
        c_wakeup_enqueued (e_cores (barrier_wait b c r s) i)
      \<and> c_state (e_cores (barrier_wait b c r s) i) = CORE_STATE_NONE
      \<and> c_pending_req (e_cores (barrier_wait b c r s) i) = Some q"
    and "b_status (e_barriers (barrier_wait b c r s) b) = 0"
proof -
  have c: "barrier_ready s0 c" "c \<notin> fst ` set rcs" using assms(6,7) by auto
  note ready = barrier_part_ready [OF assms(1) c]
  have s: "b < e_nb_barriers s" "eu_quiet s" "e_nb_core s \<le> 32" "e_nb_core s = e_nb_core s0"
      "b_target_mask (e_barriers s b) = b_target_mask (e_barriers s0 b)"
      "e_barrier_event s = e_barrier_event s0"
    using assms(1,3,4,5) by (simp_all add: barrier_part_def)
  have small: "\<forall>c \<in> set (map fst rcs @ [c]). c < 32"
    using assms(5,6) by (auto simp: barrier_ready_def Let_def)
  have "cores_mask (map fst rcs @ [c]) = b_core_mask (e_barriers s0 b)"
    using bit_cores_mask [OF small] assms(8) by (intro bit_eqI) auto
  then have full: "b_status (e_barriers s b) OR shl1 (int c) = b_core_mask (e_barriers s b)"
    using assms(1) by (simp add: barrier_part_def)
  note last = barrier_wait_last [OF assms(2) s(1) ready(2) s(2,3) full refl refl, unfolded s(4,5,6)]
  show "b_status (e_barriers (barrier_wait b c r s) b) = 0" by (simp add: last(3))
  show "c_wakeup_enqueued (e_cores (barrier_wait b c r s) i)
      \<and> c_state (e_cores (barrier_wait b c r s) i) = CORE_STATE_NONE
      \<and> c_pending_req (e_cores (barrier_wait b c r s) i) = Some q"
    if iq: "(i, q) \<in> set (rcs @ [(c, r)])" "eu_targets (b_target_mask (e_barriers s0 b)) i"
  proof (cases "i = c")
    case True
    then have "q = r" using iq(1) c(2) by force
    with True last(2) iq(2) show ?thesis by simp
  next
    case False
    with iq(1) have i: "(i, q) \<in> set rcs" by auto
    with assms(7) have "map_of rcs i = Some q" by simp
    then have "e_cores s i = core_park q (e_cores s0 i)" using assms(1) by (simp add: barrier_part_def)
    moreover have "barrier_ready s0 i" using i assms(6) by force
    then have "i < e_nb_core s0" "c_evt_mask (e_cores s0 i) AND c_status (e_cores s0 i) = 0"
        "c_evt_mask (e_cores s0 i) AND shl1 (e_barrier_event s0) \<noteq> 0"
      by (simp_all add: barrier_ready_def Let_def)
    ultimately show ?thesis
      using core_settle_park [of "e_cores s0 i" "shl1 (e_barrier_event s0)" q] iq(2) last(1) [OF False]
      by (simp add: core_park_def)
  qed
qed

text \<open>Every proper part of a round.\<close>

lemma barrier_part_take:
  assumes "b < 16" and "b < e_nb_barriers s" and "e_nb_core s \<le> 32"
    and "b_status (e_barriers s b) = 0" and "distinct (map fst rcs)"
    and "fst ` set rcs = {i. bit (b_core_mask (e_barriers s b)) i}"
    and "\<forall>c \<in> fst ` set rcs. barrier_ready s c" and "n < length rcs"
  shows "barrier_part b (take n rcs) s (barrier_run b (take n rcs) s)"
proof -
  have rcs: "rcs = take n rcs @ rcs ! n # drop (Suc n) rcs"
    using assms(8) by (rule id_take_nth_drop)
  have "distinct (map fst (take n rcs @ rcs ! n # drop (Suc n) rcs))"
    using assms(5) rcs by metis
  then have "fst (rcs ! n) \<notin> fst ` set (take n rcs)" "distinct (map fst (take n rcs))" by auto
  moreover have "bit (b_core_mask (e_barriers s b)) (fst (rcs ! n))"
    using assms(6,8) by (metis imageI mem_Collect_eq nth_mem)
  moreover have "\<forall>c \<in> fst ` set (take n rcs). barrier_ready s c"
    using assms(7) set_take_subset [of n rcs] by blast
  ultimately show ?thesis using assms(1-4) by (intro barrier_part_run)
qed

text \<open>
  C2. A barrier round. Let the cores named by the barrier's core mask be ready to arrive, each on
  its own port with request \<open>r\<close>, in any order. After any proper part of them has arrived, exactly
  these cores are clock-gated on their request with no wake-up scheduled, and the barrier counts
  them; after the last one, the barrier is reset for the next round and every core that the target
  mask names has its wake-up scheduled, its request still parked for the answer.
\<close>

theorem barrier_round:
  assumes "b < 16" and "b < e_nb_barriers s" and "e_nb_core s \<le> 32" and "eu_quiet s"
    and "b_status (e_barriers s b) = 0" and "rcs \<noteq> []" and "distinct (map fst rcs)"
    and "fst ` set rcs = {i. bit (b_core_mask (e_barriers s b)) i}"
    and "\<forall>c \<in> fst ` set rcs. barrier_ready s c"
  shows "(\<forall>n < length rcs. \<forall>(c, r) \<in> set (take n rcs).
            e_cores (barrier_run b (take n rcs) s) c = core_park r (e_cores s c))
     \<and> (\<forall>n < length rcs. \<forall>c. c \<notin> fst ` set (take n rcs) \<longrightarrow>
            e_cores (barrier_run b (take n rcs) s) c = e_cores s c)
     \<and> b_status (e_barriers (barrier_run b rcs s) b) = 0
     \<and> (\<forall>(c, r) \<in> set rcs. eu_targets (b_target_mask (e_barriers s b)) c \<longrightarrow>
            c_wakeup_enqueued (e_cores (barrier_run b rcs s) c)
          \<and> c_state (e_cores (barrier_run b rcs s) c) = CORE_STATE_NONE
          \<and> c_pending_req (e_cores (barrier_run b rcs s) c) = Some r)"
proof -
  note part = barrier_part_take [OF assms(1,2,3,5,7,8,9)]
  have distinct: "distinct (map fst (take n rcs))" for n
    using assms(7) by (simp add: take_map [symmetric])
  have one: "e_cores (barrier_run b (take n rcs) s) c = core_park r (e_cores s c)"
    if "n < length rcs" "(c, r) \<in> set (take n rcs)" for n c r
    using part [OF that(1)] that(2) distinct [of n] by (simp add: barrier_part_def)
  have two: "e_cores (barrier_run b (take n rcs) s) c = e_cores s c"
    if "n < length rcs" "c \<notin> fst ` set (take n rcs)" for n c
    using part [OF that(1)] that(2) by (simp add: barrier_part_def map_of_eq_None_iff [THEN iffD2])
  obtain xs c r where rcs: "rcs = xs @ [(c, r)]" using assms(6) by (metis rev_exhaust surj_pair)
  have xs: "barrier_part b xs s (barrier_run b xs s)" using part [of "length xs"] by (simp add: rcs)
  note last = barrier_part_last [OF xs assms(1,2,4,3) assms(9,7,8) [unfolded rcs]]
  have ends: "b_status (e_barriers (barrier_run b rcs s) b) = 0"
    using last(2) by (simp add: rcs)
  have wake: "c_wakeup_enqueued (e_cores (barrier_run b rcs s) i)
      \<and> c_state (e_cores (barrier_run b rcs s) i) = CORE_STATE_NONE
      \<and> c_pending_req (e_cores (barrier_run b rcs s) i) = Some q"
    if "(i, q) \<in> set rcs" "eu_targets (b_target_mask (e_barriers s b)) i" for i q
    using last(1) [of i q] that by (simp add: rcs)
  show ?thesis using one two ends wake by blast
qed

subsection \<open>Witness\<close>

text \<open>Cores 2 and 0 of four meet at barrier 1, in this order, with requests 8 and 9.\<close>

definition barrier_example :: event_unit where
  "barrier_example = eu_example\<lparr>e_barriers := (\<lambda>_. \<lparr>b_core_mask = 5, b_status = 0, b_target_mask = 5\<rparr>)\<rparr>"

lemma barrier_example_mask: "{i. bit (5 :: u32) i} = {0, 2}"
proof -
  have "bit (5 :: u32) i \<longleftrightarrow> i = 0 \<or> i = 2" for i
    by (cases i; cases "i - 1"; cases "i - 2") (auto simp: bit_simps)
  then show ?thesis by auto
qed

theorem barrier_round_witness:
  "e_cores (barrier_run 1 [(2, 8)] barrier_example) 2 = core_park 8 core_example
   \<and> b_status (e_barriers (barrier_run 1 [(2, 8), (0, 9)] barrier_example) 1) = 0
   \<and> c_wakeup_enqueued (e_cores (barrier_run 1 [(2, 8), (0, 9)] barrier_example) 2)"
proof -
  have ready: "barrier_ready barrier_example c" if "c < 4" for c
    using that by (simp add: barrier_ready_def barrier_example_def eu_example_def core_example_def
        shl1_def bit_mask_def)
  have *: "eu_quiet barrier_example"
      "e_barriers barrier_example b = \<lparr>b_core_mask = 5, b_status = 0, b_target_mask = 5\<rparr>"
      "e_nb_core barrier_example = 4" "e_nb_barriers barrier_example = 2"
      "e_cores barrier_example 2 = core_example" for b
    by (simp_all add: barrier_example_def eu_example_def eu_quiet_def)
  have "eu_targets 5 2" by (simp add: eu_targets_def bit_simps)
  have set: "fst ` set [(2 :: nat, 8 :: nat), (0, 9)] = {i. bit (b_core_mask (e_barriers barrier_example 1)) i}"
    using barrier_example_mask by (auto simp: *)
  have "\<forall>c \<in> fst ` set [(2, 8 :: nat), (0, 9)]. barrier_ready barrier_example c"
    using ready by simp
  note round = barrier_round [OF _ _ _ *(1) _ _ _ set this]
  have "e_cores (barrier_run 1 (take 1 [(2, 8), (0, 9)]) barrier_example) 2
      = core_park 8 (e_cores barrier_example 2)"
    using round [THEN conjunct1, THEN spec, of 1] by (simp add: *)
  moreover have "b_status (e_barriers (barrier_run 1 [(2, 8), (0, 9)] barrier_example) 1) = 0"
    using round by (simp add: *)
  moreover have "c_wakeup_enqueued (e_cores (barrier_run 1 [(2, 8), (0, 9)] barrier_example) 2)"
    using round \<open>eu_targets 5 2\<close> by (simp add: *)
  ultimately show ?thesis by (simp add: *)
qed

end
