(* ===== verification/Event_Unit_Mutex.thy ===== *)
theory Event_Unit_Mutex
  imports Event_Unit_Wake
begin

section \<open>The event unit: mutexes against their specification\<close>

text \<open>
  A hardware mutex promises mutual exclusion with hand-over: a free mutex is taken by the core that
  reads it, a taken one makes the reader wait, and a release gives the mutex to the waiting core of
  lowest number together with the released value. The specification keeps the owner, which the code
  does not.
\<close>

subsection \<open>Specification\<close>

type_synonym mutex_spec = "nat option \<times> nat set"

fun mutex_spec_lock :: "nat \<Rightarrow> mutex_spec \<Rightarrow> mutex_spec" where
  "mutex_spec_lock c (None, W) = (Some c, W)"
| "mutex_spec_lock c (Some k, W) = (Some k, insert c W)"

fun mutex_spec_unlock :: "mutex_spec \<Rightarrow> mutex_spec" where
  "mutex_spec_unlock (k, W) = (if W = {} then (None, {}) else (Some (LEAST c. c \<in> W), W - {LEAST c. c \<in> W}))"

text \<open>The states of the code that stand for a state of the specification.\<close>

definition mutex_rep :: "mutex \<Rightarrow> mutex_spec \<Rightarrow> bool" where
  "mutex_rep m a \<longleftrightarrow> m_locked m = (fst a \<noteq> None) \<and> snd a = {c. bit (m_waiting_mask m) c}
     \<and> (fst a = None \<longrightarrow> snd a = {})"

subsection \<open>The elected core\<close>

lemma find_first_upt:
  "P l \<Longrightarrow> l < n \<Longrightarrow> (\<And>j. j < l \<Longrightarrow> \<not> P j) \<Longrightarrow> List.find P [0..<n] = Some l"
  by (auto simp: find_Some_iff intro!: exI [of _ l])

lemma find_first_bit:
  assumes "w \<noteq> (0 :: u32)"
  shows "List.find (\<lambda>j. w AND shl1 (int j) \<noteq> 0) [0..<32] = Some (LEAST c. bit w c)"
proof -
  obtain i where i: "i < 32" "bit w i" using assms word_nonzero_bit by blast
  have l: "bit w (LEAST c. bit w c)" "(LEAST c. bit w c) < 32"
    and min: "\<And>j. j < (LEAST c. bit w c) \<Longrightarrow> \<not> bit w j"
    using i by (auto intro: LeastI le_less_trans [OF Least_le] dest: not_less_Least)
  show ?thesis
  proof (rule find_first_upt)
    show "w AND shl1 (int (LEAST c. bit w c)) \<noteq> 0" using l by (simp add: and_bit_mask_0)
    show "\<not> w AND shl1 (int j) \<noteq> 0" if "j < (LEAST c. bit w c)" for j
      using min [OF that] that l(2) by (simp add: and_bit_mask_0)
  qed (rule l(2))
qed

lemma mutex_req_unlock:
  assumes "mutex_id off < e_nb_mutexes s" and "i = mutex_id off"
    and "w = m_waiting_mask (e_mutexes s i)"
  shows "mutex_req r off True c s = (IO_REQ_OK,
    if w = 0 then upd_mutex i (\<lambda>m. m\<lparr>m_value := e_req_data s r, m_locked := False\<rparr>) s
    else mutex_transfer i (LEAST c. bit w c) (upd_mutex i (m_value_update (\<lambda>_. e_req_data s r)) s))"
proof (cases "w = 0")
  case True
  then show ?thesis using assms by (simp add: mutex_req_def Let_def upd_mutex_def)
next
  case False
  then show ?thesis
    using assms find_first_bit [OF False] by (simp add: mutex_req_def Let_def)
qed

lemma mutex_transfer_mutexes [simp]:
  "e_mutexes (mutex_transfer i c s) = (e_mutexes s)
     (i := m_waiting_mask_update (\<lambda>w. w AND NOT (shl1 (int c))) (e_mutexes s i))"
  by (simp add: mutex_transfer_def Let_def)

lemma mutex_enqueue_sleep_mutexes [simp]:
  "e_mutexes (snd (mutex_enqueue_sleep i r c s)) = (e_mutexes s)(i := (e_mutexes s i)
     \<lparr>m_waiting_reqs := (m_waiting_reqs (e_mutexes s i))(c := r),
      m_waiting_mask := m_waiting_mask (e_mutexes s i) OR shl1 (int c)\<rparr>)"
  by (simp add: mutex_enqueue_sleep_def Let_def)

lemma eu_wait_event_pending [simp]: "fst (eu_wait_event c r w s) = IO_REQ_PENDING"
  by (simp add: eu_wait_event_def eu_put_to_sleep_def Let_def)

lemma least_bit_less: "(w :: u32) \<noteq> 0 \<Longrightarrow> (LEAST c. bit w c) < 32"
  using word_nonzero_bit [of w] by (auto intro: le_less_trans [OF Least_le])

text \<open>
  C5. Every access to a mutex implements the specification: a read of core \<open>c\<close> locks it at once
  and succeeds when it is free, and parks the core and stays pending when it is taken; a write
  releases it, handing it to the waiting core of lowest number if there is one. No other mutex
  changes, and an access beyond the last mutex is refused without effect.
\<close>

theorem mutex_refines:
  assumes "mutex_rep (e_mutexes s (mutex_id off)) a" and "c < 32" and "(st, s') = mutex_req r off w c s"
  shows "(mutex_id off < e_nb_mutexes s \<longrightarrow>
            mutex_rep (e_mutexes s' (mutex_id off)) (if w then mutex_spec_unlock a else mutex_spec_lock c a)
          \<and> st = (if w \<or> fst a = None then IO_REQ_OK else IO_REQ_PENDING))
     \<and> (mutex_id off \<ge> e_nb_mutexes s \<longrightarrow> st = IO_REQ_INVALID \<and> s' = s)
     \<and> (\<forall>i. i \<noteq> mutex_id off \<longrightarrow> e_mutexes s' i = e_mutexes s i)"
proof -
  obtain k W where a: "a = (k, W)" by (cases a)
  let ?i = "mutex_id off"
  have s': "st = fst (mutex_req r off w c s)" "s' = snd (mutex_req r off w c s)"
    using assms(3) by (metis fst_conv, metis snd_conv)
  show ?thesis
  proof (cases "?i < e_nb_mutexes s")
    case False
    then show ?thesis by (simp add: s' mutex_req_def)
  next
    case valid: True
    show ?thesis
    proof (cases w)
      case False
      then show ?thesis
        using assms(1,2) valid
        by (cases k) (auto simp: a s' mutex_req_def mutex_rep_def bit_or_iff
            mutex_enqueue_sleep_def Let_def)
    next
      case True
      let ?w = "m_waiting_mask (e_mutexes s ?i)"
      have W: "W = {k. bit ?w k}" using assms(1) by (simp add: a mutex_rep_def)
      have empty: "W = {} \<longleftrightarrow> ?w = 0" using word_nonzero_bit [of ?w] unfolding W by auto
      have least: "(LEAST c. c \<in> W) = (LEAST c. bit ?w c)" by (simp add: W)
      show ?thesis
        using assms(1) valid True least_bit_less [of ?w]
        by (auto simp: a s' mutex_req_unlock [OF _ refl refl] mutex_rep_def W [symmetric] empty least
            bit_clear_bit) (auto simp: W)
    qed
  qed
qed

subsection \<open>Hand-over\<close>

text \<open>The core that finds a mutex taken.\<close>

lemma mutex_enqueue_sleep_parks:
  assumes "c_evt_mask (e_cores s c) AND c_status (e_cores s c) = 0"
  shows "e_cores (snd (mutex_enqueue_sleep i r c s)) = (e_cores s)(c := (e_cores s c)
      \<lparr>c_clear_evt_mask := shl1 (e_mutex_event s), c_state := CORE_STATE_WAITING_EVENT,
       c_is_active := False, c_pending_req := Some r\<rparr>)"
    and "e_req_data (snd (mutex_enqueue_sleep i r c s)) = e_req_data s"
  using assms by (auto simp: mutex_enqueue_sleep_def Let_def eu_wait_event_def eu_put_to_sleep_def)

text \<open>
  The cores of a list read a taken mutex one after the other, each with its own request, and then
  the mutex is written by the requests and cores of a list of releases.
\<close>

definition mutex_reads :: "nat \<Rightarrow> (nat \<Rightarrow> nat) \<Rightarrow> nat list \<Rightarrow> event_unit \<Rightarrow> event_unit" where
  "mutex_reads i rq cs s = fold (\<lambda>c t. snd (mutex_req (rq c) (4 * i) False c t)) cs s"

definition mutex_writes :: "nat \<Rightarrow> (nat \<times> nat) list \<Rightarrow> event_unit \<Rightarrow> event_unit" where
  "mutex_writes i ws s = fold (\<lambda>(q, k) t. snd (mutex_req q (4 * i) True k t)) ws s"

text \<open>A core that can wait for the mutex: the event reaches it, and none of its events is pending.\<close>

definition mutex_can_wait :: "event_unit \<Rightarrow> nat \<Rightarrow> bool" where
  "mutex_can_wait s c \<longleftrightarrow> c < e_nb_core s \<and> c_evt_mask (e_cores s c) AND c_status (e_cores s c) = 0
     \<and> c_evt_mask (e_cores s c) AND shl1 (e_mutex_event s) \<noteq> 0
     \<and> \<not> c_pending_elw (e_cores s c) \<and> \<not> c_pending_req_is_wait (e_cores s c)"

definition mutex_parked :: "event_unit \<Rightarrow> nat \<Rightarrow> core_eu \<Rightarrow> core_eu" where
  "mutex_parked s r cu = cu\<lparr>c_clear_evt_mask := shl1 (e_mutex_event s),
     c_state := CORE_STATE_WAITING_EVENT, c_is_active := False, c_pending_req := Some r\<rparr>"

definition mutex_granted :: "event_unit \<Rightarrow> core_eu \<Rightarrow> core_eu" where
  "mutex_granted s cu = cu\<lparr>c_state := CORE_STATE_NONE,
     c_status := c_status cu AND NOT (shl1 (e_mutex_event s)), c_clear_evt_mask := 0,
     c_wakeup_enqueued := True\<rparr>"

text \<open>What the hand-overs leave alone.\<close>

definition mutex_kept :: "event_unit \<Rightarrow> event_unit \<Rightarrow> bool" where
  "mutex_kept s t \<longleftrightarrow> e_nb_core t = e_nb_core s \<and> e_nb_mutexes t = e_nb_mutexes s
     \<and> e_mutex_event t = e_mutex_event s \<and> (eu_quiet s \<longrightarrow> eu_quiet t)"

lemma mutex_read_one:
  assumes "i < 4" and "i < e_nb_mutexes s" and "m_locked (e_mutexes s i)" and "mutex_can_wait s c"
    and "t = snd (mutex_req r (4 * i) False c s)"
  shows "mutex_kept s t" and "e_req_data t = e_req_data s"
    and "e_cores t = (e_cores s)(c := mutex_parked s r (e_cores s c))"
    and "e_mutexes t i = (e_mutexes s i)\<lparr>m_waiting_reqs := (m_waiting_reqs (e_mutexes s i))(c := r),
      m_waiting_mask := m_waiting_mask (e_mutexes s i) OR shl1 (int c)\<rparr>"
proof -
  have t: "t = snd (mutex_enqueue_sleep i r c s)"
    using assms(1-3,5) by (simp add: mutex_req_def Let_def mutex_id_def)
  have evt: "c_evt_mask (e_cores s c) AND c_status (e_cores s c) = 0"
    using assms(4) by (simp add: mutex_can_wait_def)
  show "e_req_data t = e_req_data s" and "e_cores t = (e_cores s)(c := mutex_parked s r (e_cores s c))"
    using mutex_enqueue_sleep_parks [OF evt] by (simp_all add: t mutex_parked_def)
  show "mutex_kept s t" by (simp add: mutex_kept_def t mutex_enqueue_sleep_def Let_def)
  show "e_mutexes t i = (e_mutexes s i)\<lparr>m_waiting_reqs := (m_waiting_reqs (e_mutexes s i))(c := r),
      m_waiting_mask := m_waiting_mask (e_mutexes s i) OR shl1 (int c)\<rparr>"
    by (simp add: t)
qed

lemma mutex_reads_park:
  assumes "i < 4" and "i < e_nb_mutexes s" and "e_nb_core s \<le> 32" and "m_locked (e_mutexes s i)"
    and "distinct cs" and "\<forall>c \<in> set cs. mutex_can_wait s c"
  shows "mutex_kept s (mutex_reads i rq cs s) \<and> e_req_data (mutex_reads i rq cs s) = e_req_data s
    \<and> e_cores (mutex_reads i rq cs s)
        = (\<lambda>j. if j \<in> set cs then mutex_parked s (rq j) (e_cores s j) else e_cores s j)
    \<and> m_locked (e_mutexes (mutex_reads i rq cs s) i)
    \<and> (\<forall>j. bit (m_waiting_mask (e_mutexes (mutex_reads i rq cs s) i)) j
        \<longleftrightarrow> j \<in> set cs \<or> bit (m_waiting_mask (e_mutexes s i)) j)
    \<and> (\<forall>j \<in> set cs. m_waiting_reqs (e_mutexes (mutex_reads i rq cs s) i) j = rq j)"
  using assms
proof (induction cs rule: rev_induct)
  case Nil
  then show ?case by (simp add: mutex_reads_def mutex_kept_def)
next
  case (snoc c cs)
  define t where "t = mutex_reads i rq cs s"
  have u: "mutex_reads i rq (cs @ [c]) s = snd (mutex_req (rq c) (4 * i) False c t)"
    by (simp add: mutex_reads_def t_def)
  note IH = snoc.IH [folded t_def, OF snoc.prems(1-4)]
  have t: "mutex_kept s t" "e_req_data t = e_req_data s"
    "e_cores t = (\<lambda>j. if j \<in> set cs then mutex_parked s (rq j) (e_cores s j) else e_cores s j)"
    "m_locked (e_mutexes t i)"
    "\<And>j. bit (m_waiting_mask (e_mutexes t i)) j \<longleftrightarrow> j \<in> set cs \<or> bit (m_waiting_mask (e_mutexes s i)) j"
    "\<And>j. j \<in> set cs \<Longrightarrow> m_waiting_reqs (e_mutexes t i) j = rq j"
    using IH snoc.prems(5,6) by simp_all
  have c: "c \<notin> set cs" "mutex_can_wait s c" "c < 32"
    using snoc.prems(3,5,6) by (auto simp: mutex_can_wait_def)
  then have "mutex_can_wait t c" using t(1,3) by (simp add: mutex_can_wait_def mutex_kept_def)
  note one = mutex_read_one [OF snoc.prems(1) _ t(4) this refl, of "rq c", folded u]
  have nb: "i < e_nb_mutexes t" using snoc.prems(2) t(1) by (simp add: mutex_kept_def)
  note one = one [OF nb]
  have "mutex_parked t = mutex_parked s"
    using t(1) by (simp add: mutex_parked_def mutex_kept_def fun_eq_iff)
  then have "e_cores (mutex_reads i rq (cs @ [c]) s)
      = (\<lambda>j. if j \<in> set (cs @ [c]) then mutex_parked s (rq j) (e_cores s j) else e_cores s j)"
    using c(1) by (auto simp: one(3) t(3))
  moreover have "mutex_kept s (mutex_reads i rq (cs @ [c]) s)"
    using one(1) t(1) by (simp add: mutex_kept_def)
  ultimately show ?case
    using t c one(2) by (auto simp: one(4) bit_or_iff)
qed

text \<open>One release with cores waiting: the waiting core of lowest number is granted the mutex.\<close>

lemma mutex_write_one:
  assumes "i < 4" and "i < e_nb_mutexes s" and "eu_quiet s" and "e_nb_core s \<le> 32"
    and "bit (m_waiting_mask (e_mutexes s i)) c" and "\<And>j. j < c \<Longrightarrow> \<not> bit (m_waiting_mask (e_mutexes s i)) j"
    and "mutex_can_wait s0 c" and "e_cores s c = mutex_parked s0 r (e_cores s0 c)" and "mutex_kept s0 s"
    and "m_waiting_reqs (e_mutexes s i) c = r" and "t = snd (mutex_req q (4 * i) True k s)"
  shows "mutex_kept s t" and "e_req_data t = (e_req_data s)(r := e_req_data s q)"
    and "e_cores t = (e_cores s)(c := mutex_granted s (e_cores s c))"
    and "e_mutexes t i = (e_mutexes s i)\<lparr>m_value := e_req_data s q,
      m_waiting_mask := m_waiting_mask (e_mutexes s i) AND NOT (shl1 (int c))\<rparr>"
proof -
  let ?w = "m_waiting_mask (e_mutexes s i)" and ?ev = "shl1 (e_mutex_event s)"
  have c: "c < e_nb_core s" "c < 32" using assms(4,7,9) by (auto simp: mutex_can_wait_def mutex_kept_def)
  have "(LEAST j. bit ?w j) = c"
    by (rule Least_equality) (use assms(5,6) in \<open>auto simp: not_less [symmetric]\<close>)
  moreover have "?w \<noteq> 0" using assms(5) by auto
  ultimately have t: "t = mutex_transfer i c (upd_mutex i (m_value_update (\<lambda>_. e_req_data s q)) s)"
    using assms(1,2,11) mutex_req_unlock [of "4 * i" s i ?w q k] by (simp add: mutex_id_def)
  define u where "u = set_req_data r (e_req_data s q)
    (upd_mutex i (m_waiting_mask_update (\<lambda>w. w AND NOT (shl1 (int c))))
      (upd_mutex i (m_value_update (\<lambda>_. e_req_data s q)) s))"
  have tu: "t = eu_trigger_event ?ev (shl1 (int c)) u"
    using c(2) assms(10) by (simp add: t mutex_transfer_def Let_def u_def)
  have u: "eu_quiet u" "e_nb_core u = e_nb_core s" "e_cores u = e_cores s"
    "e_req_data u = (e_req_data s)(r := e_req_data s q)" "e_nb_mutexes u = e_nb_mutexes s"
    "e_mutex_event u = e_mutex_event s"
    "e_mutexes u i = (e_mutexes s i)\<lparr>m_value := e_req_data s q,
      m_waiting_mask := ?w AND NOT (shl1 (int c))\<rparr>"
    using assms(3) by (simp_all add: u_def)
  have core: "\<not> c_is_active (e_cores s c)" "eu_waiting (e_cores s c)" "\<not> c_pending_elw (e_cores s c)"
    "\<not> c_pending_req_is_wait (e_cores s c)" "c_evt_mask (e_cores s c) AND ?ev \<noteq> 0"
    "c_clear_evt_mask (e_cores s c) = ?ev"
    using assms(7,8,9) by (simp_all add: mutex_parked_def mutex_can_wait_def eu_waiting_def mutex_kept_def)
  note one = eu_trigger_one [of u c ?ev, folded tu, unfolded u(2,3)]
  show "e_req_data t = (e_req_data s)(r := e_req_data s q)"
    using one(2) u(1,4) assms(4) c(1) core by simp
  have "(c_status (e_cores s c) OR ?ev) AND NOT ?ev = c_status (e_cores s c) AND NOT ?ev"
    by (simp add: bit.conj_disj_distrib2)
  then show "e_cores t = (e_cores s)(c := mutex_granted s (e_cores s c))"
    using one(1) u(1) assms(4) c(1) core by (simp add: mutex_granted_def)
  show "e_mutexes t i = (e_mutexes s i)\<lparr>m_value := e_req_data s q,
      m_waiting_mask := ?w AND NOT (shl1 (int c))\<rparr>" using u(7) by (simp add: tu)
  have "eu_quiet t" using u(1) eu_quiet_frame [OF eu_frames(2)] by (simp add: tu)
  then show "mutex_kept s t" using u(2,5,6) by (simp add: mutex_kept_def tu)
qed

text \<open>The waiters of the mutex, in ascending order, as the reads before left them.\<close>

definition mutex_waiters :: "nat \<Rightarrow> (nat \<Rightarrow> nat) \<Rightarrow> event_unit \<Rightarrow> nat list \<Rightarrow> event_unit \<Rightarrow> bool" where
  "mutex_waiters i rq s0 L s \<longleftrightarrow> sorted L \<and> distinct L \<and> mutex_kept s0 s \<and> m_locked (e_mutexes s i)
     \<and> (\<forall>j. bit (m_waiting_mask (e_mutexes s i)) j \<longleftrightarrow> j \<in> set L)
     \<and> (\<forall>j \<in> set L. mutex_can_wait s0 j \<and> e_cores s j = mutex_parked s0 (rq j) (e_cores s0 j)
          \<and> m_waiting_reqs (e_mutexes s i) j = rq j)"

lemma mutex_write_waiters:
  assumes "i < 4" and "i < e_nb_mutexes s0" and "eu_quiet s0" and "e_nb_core s0 \<le> 32"
    and "mutex_waiters i rq s0 (c # L) s" and "t = snd (mutex_req q (4 * i) True k s)"
  shows "mutex_waiters i rq s0 L t"
    and "e_cores t = (e_cores s)(c := mutex_granted s0 (e_cores s c))"
    and "e_req_data t = (e_req_data s)(rq c := e_req_data s q)"
proof -
  have kept: "mutex_kept s0 s" and w: "\<And>j. bit (m_waiting_mask (e_mutexes s i)) j \<longleftrightarrow> j \<in> set (c # L)"
    and L: "sorted (c # L)" "distinct (c # L)" and lk: "m_locked (e_mutexes s i)"
    and core: "\<And>j. j \<in> set (c # L) \<Longrightarrow> mutex_can_wait s0 j
      \<and> e_cores s j = mutex_parked s0 (rq j) (e_cores s0 j) \<and> m_waiting_reqs (e_mutexes s i) j = rq j"
    using assms(5) unfolding mutex_waiters_def by blast+
  have "i < e_nb_mutexes s" "eu_quiet s" "e_nb_core s \<le> 32"
    using kept assms(2-4) by (simp_all add: mutex_kept_def)
  note one = mutex_write_one [OF assms(1) this, of c s0 "rq c" t q k]
  have c32: "c < 32" using core [of c] assms(4) by (simp add: mutex_can_wait_def)
  have pre: "bit (m_waiting_mask (e_mutexes s i)) c" "\<And>j. j < c \<Longrightarrow> \<not> bit (m_waiting_mask (e_mutexes s i)) j"
    using w L(1) by auto
  have t: "mutex_kept s t" "e_req_data t = (e_req_data s)(rq c := e_req_data s q)"
    "e_cores t = (e_cores s)(c := mutex_granted s (e_cores s c))"
    "e_mutexes t i = (e_mutexes s i)\<lparr>m_value := e_req_data s q,
      m_waiting_mask := m_waiting_mask (e_mutexes s i) AND NOT (shl1 (int c))\<rparr>"
    using one pre core [of c] kept assms(6) by simp_all
  then show "e_req_data t = (e_req_data s)(rq c := e_req_data s q)"
    and "e_cores t = (e_cores s)(c := mutex_granted s0 (e_cores s c))"
    using kept by (simp_all add: mutex_granted_def mutex_kept_def)
  have "mutex_kept s0 t" using kept t(1) by (simp add: mutex_kept_def)
  moreover have "bit (m_waiting_mask (e_mutexes t i)) j \<longleftrightarrow> j \<in> set L" for j
    using w [of j] L(2) c32 by (auto simp: t(4) bit_clear_bit)
  moreover have "j \<noteq> c" if "j \<in> set L" for j using that L(2) by auto
  ultimately show "mutex_waiters i rq s0 L t"
    using L lk core by (simp add: mutex_waiters_def t(3,4))
qed

lemma mutex_writes_serve:
  assumes "i < 4" and "i < e_nb_mutexes s0" and "eu_quiet s0" and "e_nb_core s0 \<le> 32"
    and "mutex_waiters i rq s0 L s" and "length ws \<le> length L" and "inj_on rq (set L)"
    and "fst ` set ws \<inter> rq ` set L = {}" and "t = mutex_writes i ws s"
  shows "mutex_waiters i rq s0 (drop (length ws) L) t
    \<and> e_cores t = (\<lambda>j. if j \<in> set (take (length ws) L) then mutex_granted s0 (e_cores s j) else e_cores s j)
    \<and> (\<forall>m < length ws. e_req_data t (rq (L ! m)) = e_req_data s (fst (ws ! m)))
    \<and> (\<forall>x. x \<notin> rq ` set (take (length ws) L) \<longrightarrow> e_req_data t x = e_req_data s x)"
  using assms(5-)
proof (induction ws arbitrary: s L)
  case Nil
  then show ?case by (simp add: mutex_writes_def)
next
  case (Cons w ws)
  obtain q k where w: "w = (q, k)" by (cases w)
  obtain c L' where L: "L = c # L'" using Cons.prems(2) by (cases L) auto
  define u where "u = snd (mutex_req q (4 * i) True k s)"
  note one = mutex_write_waiters [OF assms(1-4) Cons.prems(1) [unfolded L] u_def]
  have t: "t = mutex_writes i ws u" using Cons.prems(5) by (simp add: mutex_writes_def w u_def)
  have "inj_on rq (set L')" "fst ` set ws \<inter> rq ` set L' = {}" "length ws \<le> length L'"
    using Cons.prems(2-4) by (auto simp: L)
  note IH = Cons.IH [OF one(1) this(3,1,2) t]
  have d: "c \<notin> set L'" using Cons.prems(1) by (simp add: L mutex_waiters_def)
  have fresh: "rq c \<notin> rq ` set (take n L')" for n
    using Cons.prems(3) d set_take_subset [of n L'] by (force simp: L inj_on_def)
  have src: "fst (ws ! m) \<noteq> rq c" if "m < length ws" for m
  proof -
    have "rq c \<notin> fst ` set ws" using Cons.prems(4) by (auto simp: L)
    then show ?thesis using nth_mem [OF that] by (metis imageI)
  qed
  have cores: "e_cores t = (\<lambda>j. if j \<in> set (take (length (w # ws)) L)
      then mutex_granted s0 (e_cores s j) else e_cores s j)"
    using IH one(2) d set_take_subset [of "length ws" L'] by (auto simp: L fun_eq_iff)
  have data: "e_req_data t (rq (L ! m)) = e_req_data s (fst ((w # ws) ! m))"
    if "m < length (w # ws)" for m
    using that IH one(3) fresh [of "length ws"] src by (cases m) (auto simp: L w)
  show ?case using cores data IH one(3) by (auto simp: L)
qed

text \<open>
  C6. Lock, wait, release, hand-over. While a mutex is taken and nobody waits for it, any cores
  read it one after the other, in any order, each with its own request: all are clock-gated and
  nothing else changes. Then each release hands the mutex over, to the waiting core of lowest
  number: after \<open>n\<close> releases, whatever cores make them, the \<open>n\<close> lowest waiters have been answered
  in ascending order with the values written, have their wake-up scheduled and the mutex event
  consumed; the others are parked as before, and the mutex stays taken. (With no SoC event
  queued, and for cores that have the mutex event unmasked and no other one pending.)
\<close>

theorem mutex_handover:
  assumes "eu_quiet s" and "e_nb_core s \<le> 32" and "i < 4" and "i < e_nb_mutexes s"
    and "m_locked (e_mutexes s i)" and "m_waiting_mask (e_mutexes s i) = 0"
    and "distinct cs" and "\<forall>c \<in> set cs. mutex_can_wait s c" and "inj_on rq (set cs)"
    and "n = length ws" and "n \<le> length cs" and "fst ` set ws \<inter> rq ` set cs = {}"
    and "s1 = mutex_reads i rq cs s" and "s2 = mutex_writes i ws s1"
  shows "e_cores s1 = (\<lambda>j. if j \<in> set cs then mutex_parked s (rq j) (e_cores s j) else e_cores s j)
     \<and> e_cores s2 = (\<lambda>j. if j \<in> set (take n (sort cs)) then mutex_granted s (e_cores s1 j) else e_cores s1 j)
     \<and> (\<forall>m < n. e_req_data s2 (rq (sort cs ! m)) = e_req_data s (fst (ws ! m)))
     \<and> m_locked (e_mutexes s2 i)
     \<and> {j. bit (m_waiting_mask (e_mutexes s2 i)) j} = set (drop n (sort cs))"
proof -
  have r: "mutex_kept s s1" "e_req_data s1 = e_req_data s"
    "e_cores s1 = (\<lambda>j. if j \<in> set cs then mutex_parked s (rq j) (e_cores s j) else e_cores s j)"
    "m_locked (e_mutexes s1 i)" "\<forall>j. bit (m_waiting_mask (e_mutexes s1 i)) j \<longleftrightarrow> j \<in> set cs"
    "\<forall>j \<in> set cs. m_waiting_reqs (e_mutexes s1 i) j = rq j"
    using mutex_reads_park [OF assms(3,4,2,5,7,8), of rq] assms(6,13) by simp_all
  have "mutex_waiters i rq s (sort cs) s1"
    using r assms(7,8) by (simp add: mutex_waiters_def)
  note w = mutex_writes_serve [OF assms(3,4,1,2) this, of ws s2]
  have "mutex_waiters i rq s (drop n (sort cs)) s2
    \<and> e_cores s2 = (\<lambda>j. if j \<in> set (take n (sort cs)) then mutex_granted s (e_cores s1 j) else e_cores s1 j)
    \<and> (\<forall>m < n. e_req_data s2 (rq (sort cs ! m)) = e_req_data s1 (fst (ws ! m)))"
    using w assms(9-12,14) by simp
  then show ?thesis using r(2,3) by (simp add: mutex_waiters_def)
qed

subsection \<open>Witnesses\<close>

definition mutex_example :: event_unit where
  "mutex_example = upd_mutex 0 (m_locked_update (\<lambda>_. True)) (set_req_data 9 77 eu_example)"

lemma mutex_example_sel:
  "eu_quiet mutex_example" "e_nb_core mutex_example = 4" "e_nb_mutexes mutex_example = 1"
  "e_mutex_event mutex_example = 5" "e_cores mutex_example c = core_example"
  "e_req_data mutex_example 9 = 77" "m_locked (e_mutexes mutex_example 0)"
  "m_waiting_mask (e_mutexes mutex_example 0) = 0"
proof -
  show "eu_quiet mutex_example" by (simp add: mutex_example_def)
qed (simp_all add: mutex_example_def eu_example_def)

theorem mutex_refines_witness:
  "mutex_rep (e_mutexes (snd (mutex_req 8 0 False 2 mutex_example)) 0) (Some 1, {2})"
proof -
  have "mutex_rep (e_mutexes mutex_example (mutex_id 0)) (Some 1, {})"
    by (simp add: mutex_rep_def mutex_id_def mutex_example_sel)
  from mutex_refines [OF this _ surjective_pairing [symmetric], of 2 8 False] show ?thesis
    by (simp add: mutex_id_def mutex_example_sel)
qed

text \<open>Core 3 waits before core 2; the first release of core 1 goes to core 2, the second to core 3.\<close>

theorem mutex_handover_witness:
  "e_req_data (mutex_writes 0 [(9, 1), (10, 2)]
     (mutex_reads 0 (\<lambda>c. c) [3, 2] (set_req_data 10 78 mutex_example))) 2 = 77
   \<and> e_req_data (mutex_writes 0 [(9, 1), (10, 2)]
     (mutex_reads 0 (\<lambda>c. c) [3, 2] (set_req_data 10 78 mutex_example))) 3 = 78"
proof -
  let ?s = "set_req_data 10 78 mutex_example"
  have wait: "\<forall>c \<in> set [3, 2]. mutex_can_wait ?s c"
    by (simp add: mutex_can_wait_def mutex_example_sel) (simp add: core_example_def shl1_def bit_mask_def)
  note h = mutex_handover [OF _ _ _ _ _ _ _ wait _ refl _ _ refl refl,
      of 0 "\<lambda>c. c" "[(9, 1), (10, 2)]"]
  let ?t = "mutex_writes 0 [(9, 1), (10, 2)] (mutex_reads 0 (\<lambda>c. c) [3, 2] ?s)"
  have "\<forall>m < 2. e_req_data ?t (sort [3, 2] ! m) = e_req_data ?s (fst ([(9, 1), (10, 2 :: nat)] ! m))"
    using h by (simp add: mutex_example_sel(1-5,7,8))
  from this [rule_format, of 0] this [rule_format, of 1] show ?thesis
    by (simp add: mutex_example_sel)
qed

end
