(* ===== verification/Event_Unit_Dispatch.thy ===== *)
theory Event_Unit_Dispatch
  imports Event_Unit_Wake
begin

section \<open>The event unit: the dispatch queue as seen by one core\<close>

text \<open>
  The dispatch buffer broadcasts values to teams of cores: every core has its own tail, an entry is
  unread by a core while the core's bit of its status mask is set, and a core skips the entries of
  teams it is not in. For each core it is a queue of the values pushed for its teams.
\<close>

subsection \<open>The abstract queue\<close>

definition dispatch_at :: "nat \<Rightarrow> event_unit \<Rightarrow> nat \<Rightarrow> dispatch" where
  "dispatch_at c s k = e_dispatches s ((e_dispatch_tail s c + k) mod e_dispatch_size s)"

text \<open>Core \<open>c\<close> is \<open>n\<close> entries behind the head, and exactly these are unread by it.\<close>

definition dispatch_lag :: "nat \<Rightarrow> nat \<Rightarrow> event_unit \<Rightarrow> bool" where
  "dispatch_lag c n s \<longleftrightarrow>
     e_dispatch_tail s c < e_dispatch_size s \<and> n \<le> e_dispatch_size s
   \<and> e_dispatch_fifo_head s = (e_dispatch_tail s c + n) mod e_dispatch_size s
   \<and> (\<forall>k < e_dispatch_size s. bit (d_status_mask (dispatch_at c s k)) c \<longleftrightarrow> k < n)"

definition dispatch_queue :: "nat \<Rightarrow> nat \<Rightarrow> event_unit \<Rightarrow> u32 list" where
  "dispatch_queue c n s =
     map d_value (filter (\<lambda>d. bit (d_config_mask d) c) (map (dispatch_at c s) [0..<n]))"

lemma dispatch_queue_0 [simp]: "dispatch_queue c 0 s = []"
  by (simp add: dispatch_queue_def)

lemma dispatch_queue_Suc:
  "dispatch_queue c (Suc n) s = dispatch_queue c n s
     @ (if bit (d_config_mask (dispatch_at c s n)) c then [d_value (dispatch_at c s n)] else [])"
  by (simp add: dispatch_queue_def)

lemma dispatch_queue_cong:
  "(\<And>k. k < n \<Longrightarrow> d_value (dispatch_at c s' k) = d_value (dispatch_at c s k)
        \<and> d_config_mask (dispatch_at c s' k) = d_config_mask (dispatch_at c s k)) \<Longrightarrow>
     dispatch_queue c n s' = dispatch_queue c n s"
  by (induction n) (simp_all add: dispatch_queue_Suc)

subsection \<open>Advancing past an entry\<close>

definition dispatch_advance :: "nat \<Rightarrow> event_unit \<Rightarrow> event_unit" where
  "dispatch_advance c s = dispatch_next_tail c
     (upd_dispatch (e_dispatch_tail s c) (d_status_mask_update (\<lambda>m. m AND NOT (shl1 (int c)))) s)"

lemma dispatch_advance_sel [simp]:
  "e_dispatch_size (dispatch_advance c s) = e_dispatch_size s"
  "e_dispatch_fifo_head (dispatch_advance c s) = e_dispatch_fifo_head s"
  "e_req_data (dispatch_advance c s) = e_req_data s"
  "e_dispatch_tail (dispatch_advance c s) c = ring_next (e_dispatch_size s) (e_dispatch_tail s c)"
  "e_dispatches (dispatch_advance c s) = (e_dispatches s)(e_dispatch_tail s c :=
     d_status_mask_update (\<lambda>m. m AND NOT (shl1 (int c))) (e_dispatches s (e_dispatch_tail s c)))"
  by (simp_all add: dispatch_advance_def)

lemma dispatch_advance_at:
  assumes "e_dispatch_tail s c < e_dispatch_size s" and "Suc k < e_dispatch_size s"
  shows "dispatch_at c (dispatch_advance c s) k = dispatch_at c s (Suc k)"
proof -
  let ?t = "e_dispatch_tail s c" and ?z = "e_dispatch_size s"
  have "(ring_next ?z ?t + k) mod ?z = (?t + Suc k) mod ?z"
    using assms(1) by (simp add: ring_next_mod mod_simps)
  moreover have "(?t + Suc k) mod ?z \<noteq> ?t"
    using ring_slot_free [of 0 "Suc k" ?z ?t] assms by (simp add: eq_commute)
  ultimately show ?thesis by (simp add: dispatch_at_def)
qed

lemma dispatch_advance_last:
  assumes "e_dispatch_tail s c < e_dispatch_size s" and "Suc k = e_dispatch_size s" and "c < 32"
  shows "\<not> bit (d_status_mask (dispatch_at c (dispatch_advance c s) k)) c"
proof -
  let ?t = "e_dispatch_tail s c" and ?z = "e_dispatch_size s"
  have "(ring_next ?z ?t + k) mod ?z = (?t + Suc k) mod ?z"
    using assms(1) by (simp add: ring_next_mod mod_simps)
  also have "\<dots> = ?t" using assms(1,2) by simp
  finally show ?thesis using assms(3) by (simp add: dispatch_at_def bit_and_iff bit_not_iff)
qed

lemma dispatch_advance_lag:
  assumes "dispatch_lag c (Suc n) s" and "c < 32"
  shows "dispatch_lag c n (dispatch_advance c s)"
proof -
  let ?z = "e_dispatch_size s"
  have s: "e_dispatch_tail s c < ?z" "Suc n \<le> ?z"
      "e_dispatch_fifo_head s = (e_dispatch_tail s c + Suc n) mod ?z"
    and ready: "\<And>k. k < ?z \<Longrightarrow> bit (d_status_mask (dispatch_at c s k)) c \<longleftrightarrow> k < Suc n"
    using assms(1) by (simp_all add: dispatch_lag_def)
  have "bit (d_status_mask (dispatch_at c (dispatch_advance c s) k)) c \<longleftrightarrow> k < n" if "k < ?z" for k
  proof (cases "Suc k = ?z")
    case True
    then show ?thesis using dispatch_advance_last [OF s(1) True assms(2)] s(2) by simp
  next
    case False
    then show ?thesis using that ready [of "Suc k"] by (simp add: dispatch_advance_at [OF s(1)])
  qed
  with s show ?thesis
    by (simp add: dispatch_lag_def ring_next_mod mod_simps)
qed

lemma dispatch_advance_queue:
  assumes "dispatch_lag c (Suc n) s" and "c < 32"
  shows "dispatch_queue c (Suc n) s =
    (if bit (d_config_mask (dispatch_at c s 0)) c then [d_value (dispatch_at c s 0)] else [])
    @ dispatch_queue c n (dispatch_advance c s)"
proof -
  have "dispatch_at c (dispatch_advance c s) k = dispatch_at c s (Suc k)" if "k < n" for k
    using assms(1) that by (intro dispatch_advance_at) (auto simp: dispatch_lag_def)
  then have "map (dispatch_at c s) [0..<Suc n]
      = dispatch_at c s 0 # map (dispatch_at c (dispatch_advance c s)) [0..<n]"
    by (simp add: upt_conv_Cons map_Suc_upt [symmetric] del: upt_Suc)
  then show ?thesis by (simp add: dispatch_queue_def del: upt_Suc)
qed

subsection \<open>Reading\<close>

lemma dispatch_at_0: "e_dispatch_tail s c < e_dispatch_size s \<Longrightarrow>
  dispatch_at c s 0 = e_dispatches s (e_dispatch_tail s c)"
  by (simp add: dispatch_at_def)

lemma dispatch_lag_ready:
  assumes "dispatch_lag c n s"
  shows "bit (d_status_mask (e_dispatches s (e_dispatch_tail s c))) c \<longleftrightarrow> n \<noteq> 0"
proof -
  have t: "e_dispatch_tail s c < e_dispatch_size s" using assms by (simp add: dispatch_lag_def)
  then have "bit (d_status_mask (dispatch_at c s 0)) c \<longleftrightarrow> 0 < n"
    using assms by (auto simp: dispatch_lag_def)
  then show ?thesis by (simp add: dispatch_at_0 [OF t])
qed

lemma dispatch_foreign_lag:
  assumes "dispatch_lag c n s" and "c < 32"
  shows "dispatch_foreign c s \<longleftrightarrow> n \<noteq> 0 \<and> \<not> bit (d_config_mask (dispatch_at c s 0)) c"
  using assms(2) dispatch_lag_ready [OF assms(1)] dispatch_at_0 [of s c] assms(1)
  by (auto simp: dispatch_foreign_def Let_def and_bit_mask_0 dispatch_lag_def [of c n s])

lemma dispatch_set_data [simp]:
  "dispatch_at c (set_req_data q v s) k = dispatch_at c s k"
  "dispatch_lag c n (set_req_data q v s) = dispatch_lag c n s"
  "dispatch_queue c n (set_req_data q v s) = dispatch_queue c n s"
  by (simp_all add: dispatch_at_def [abs_def] dispatch_lag_def dispatch_queue_def)

text \<open>The loop of a read stops at the first entry of the core's teams, or with nothing unread.\<close>

lemma dispatch_skip_lag:
  assumes "dispatch_lag c n s" and "c < 32" and "n \<le> m"
  shows "\<exists>n' \<le> n. dispatch_lag c n' (dispatch_skip m c s)
    \<and> dispatch_queue c n' (dispatch_skip m c s) = dispatch_queue c n s
    \<and> \<not> dispatch_foreign c (dispatch_skip m c s) \<and> e_req_data (dispatch_skip m c s) = e_req_data s"
  using assms
proof (induction m arbitrary: n s)
  case 0
  then show ?case using dispatch_foreign_lag [OF 0(1,2)] by auto
next
  case (Suc m)
  show ?case
  proof (cases "dispatch_foreign c s")
    case True
    then have skip: "dispatch_skip (Suc m) c s = dispatch_skip m c (dispatch_advance c s)"
      by (simp add: dispatch_advance_def)
    obtain k where n: "n = Suc k"
      using True dispatch_foreign_lag [OF Suc.prems(1,2)] by (cases n) auto
    have "dispatch_queue c k (dispatch_advance c s) = dispatch_queue c n s"
      using True dispatch_foreign_lag [OF Suc.prems(1,2)] dispatch_advance_queue [of c k s] Suc.prems(1,2)
      by (simp add: n)
    with Suc.IH [of k "dispatch_advance c s"] dispatch_advance_lag [of c k s] Suc.prems
    show ?thesis unfolding skip by (auto simp: n intro: le_SucI)
  next
    case False
    with Suc.prems(1) show ?thesis by auto
  qed
qed

text \<open>
  C7. A core reading the dispatch queue gets the oldest unread value pushed for one of its teams,
  skipping those of other teams, and is left with the rest; with none, it waits (the access stays
  pending and nothing is lost). So the loop over foreign entries ends within one turn of the buffer.
\<close>

theorem dispatch_pop_reads_queue:
  assumes "dispatch_lag c n s" and "c < 32" and "(st, s') = dispatch_pop q c s"
  shows "\<not> dispatch_foreign c (dispatch_skip (e_dispatch_size s) c s)
    \<and> (dispatch_queue c n s = [] \<longrightarrow> st = IO_REQ_PENDING)
    \<and> (\<forall>x xs. dispatch_queue c n s = x # xs \<longrightarrow> st = IO_REQ_OK \<and> e_req_data s' q = x
         \<and> (\<exists>m. dispatch_lag c m s' \<and> dispatch_queue c m s' = xs))"
proof -
  define t where "t = dispatch_skip (e_dispatch_size s) c s"
  have "n \<le> e_dispatch_size s" using assms(1) by (simp add: dispatch_lag_def)
  from dispatch_skip_lag [OF assms(1,2) this] obtain m where
    t: "dispatch_lag c m t" "dispatch_queue c m t = dispatch_queue c n s" "\<not> dispatch_foreign c t"
    unfolding t_def by blast
  have pop: "st = fst (dispatch_pop q c s)" "s' = snd (dispatch_pop q c s)"
    using assms(3) by (metis fst_conv, metis snd_conv)
  have "\<not> dispatch_foreign c (dispatch_skip (e_dispatch_size s) c s)" using t(3) by (simp add: t_def)
  moreover have "st = IO_REQ_PENDING \<and> dispatch_queue c n s = []" if "m = 0"
    using dispatch_lag_ready [OF t(1)] t(2) that assms(2)
    by (simp add: pop dispatch_pop_def Let_def t_def [symmetric] and_bit_mask_0
        dispatch_enqueue_sleep_def eu_wait_event_def eu_put_to_sleep_def)
  moreover have "\<exists>x xs. dispatch_queue c n s = x # xs \<and> st = IO_REQ_OK \<and> e_req_data s' q = x
         \<and> (\<exists>m. dispatch_lag c m s' \<and> dispatch_queue c m s' = xs)" if m: "m = Suc k" for k
  proof -
    let ?x = "d_value (dispatch_at c t 0)" and ?t = "set_req_data q (d_value (dispatch_at c t 0)) t"
    have team: "bit (d_config_mask (dispatch_at c t 0)) c"
      using t(3) dispatch_foreign_lag [OF t(1) assms(2)] by (simp add: m)
    have tail: "e_dispatch_tail t c < e_dispatch_size t" using t(1) by (simp add: dispatch_lag_def)
    have "st = IO_REQ_OK" "s' = dispatch_advance c ?t"
      using dispatch_lag_ready [OF t(1)] team assms(2) tail
      by (simp_all add: pop dispatch_pop_def Let_def t_def [symmetric] and_bit_mask_0 m
          dispatch_at_0 dispatch_advance_def)
    moreover have "dispatch_lag c k (dispatch_advance c ?t)"
      using dispatch_advance_lag [of c k ?t] t(1) assms(2) by (simp add: m)
    moreover have "dispatch_queue c n s = ?x # dispatch_queue c k (dispatch_advance c ?t)"
      using dispatch_advance_queue [of c k ?t] t(1,2) team assms(2) by (simp add: m)
    ultimately show ?thesis by auto
  qed
  ultimately show ?thesis by (cases m) auto
qed

subsection \<open>Pushing\<close>

text \<open>A team is configured and a value pushed, by the request \<open>r\<close>.\<close>

definition dispatch_send :: "nat \<Rightarrow> u32 \<times> u32 \<Rightarrow> event_unit \<Rightarrow> event_unit" where
  "dispatch_send r p s = (case p of (team, v) \<Rightarrow>
     snd (dispatch_push r ((set_req_data r v s)\<lparr>e_dispatch_config := team\<rparr>)))"

text \<open>The state in which the waiting cores are looked at: the entry is filled, the head moved on.\<close>

definition dispatch_fill :: "nat \<Rightarrow> u32 \<times> u32 \<Rightarrow> event_unit \<Rightarrow> event_unit" where
  "dispatch_fill r p s = upd_dispatch (e_dispatch_fifo_head s)
      (\<lambda>d. d\<lparr>d_config_mask := fst p, d_value := snd p, d_status_mask := - 1\<rparr>)
      ((set_req_data r (snd p) s)\<lparr>e_dispatch_config := fst p,
         e_dispatch_fifo_head := ring_next (e_dispatch_size s) (e_dispatch_fifo_head s)\<rparr>)"

lemma dispatch_send_fill:
  "dispatch_send r p s = dispatch_push_loop (e_dispatch_fifo_head s)
     (d_waiting_mask (e_dispatches s (e_dispatch_fifo_head s))) [0..<32] (dispatch_fill r p s)"
  by (cases p) (simp add: dispatch_send_def dispatch_push_def dispatch_fill_def Let_def)

lemma dispatch_fill_sel [simp]:
  "e_dispatch_size (dispatch_fill r p s) = e_dispatch_size s"
  "e_dispatch_tail (dispatch_fill r p s) = e_dispatch_tail s"
  "e_dispatch_event (dispatch_fill r p s) = e_dispatch_event s"
  "e_nb_core (dispatch_fill r p s) = e_nb_core s"
  "e_cores (dispatch_fill r p s) = e_cores s"
  "eu_quiet (dispatch_fill r p s) = eu_quiet s"
  "e_dispatch_fifo_head (dispatch_fill r p s) = ring_next (e_dispatch_size s) (e_dispatch_fifo_head s)"
  "e_dispatches (dispatch_fill r p s) = (e_dispatches s)(e_dispatch_fifo_head s :=
      (e_dispatches s (e_dispatch_fifo_head s))
        \<lparr>d_config_mask := fst p, d_value := snd p, d_status_mask := - 1\<rparr>)"
  by (simp_all add: dispatch_fill_def upd_dispatch_def eu_quiet_def set_req_data_def)

lemma dispatch_fill_at:
  assumes "dispatch_lag c n s" and "n < e_dispatch_size s" and "k < e_dispatch_size s"
  shows "dispatch_at c (dispatch_fill r p s) k = (if k = n then
      (dispatch_at c s k)\<lparr>d_config_mask := fst p, d_value := snd p, d_status_mask := - 1\<rparr>
    else dispatch_at c s k)"
proof -
  let ?t = "e_dispatch_tail s c" and ?z = "e_dispatch_size s"
  have head: "e_dispatch_fifo_head s = (?t + n) mod ?z" using assms(1) by (simp add: dispatch_lag_def)
  have "(?t + k) mod ?z \<noteq> (?t + n) mod ?z" if "k \<noteq> n"
    using ring_slot_free [of k n ?z ?t] ring_slot_free [of n k ?z ?t] assms(2,3) that by fastforce
  then show ?thesis by (auto simp: dispatch_at_def head)
qed

lemma dispatch_fill_lag:
  assumes "dispatch_lag c n s" and "n < e_dispatch_size s" and "c < 32"
  shows "dispatch_lag c (Suc n) (dispatch_fill r p s)"
    and "dispatch_queue c (Suc n) (dispatch_fill r p s)
      = dispatch_queue c n s @ (if bit (fst p) c then [snd p] else [])"
proof -
  note at = dispatch_fill_at [OF assms(1,2)]
  show "dispatch_lag c (Suc n) (dispatch_fill r p s)"
    using assms ring_head_push [of "e_dispatch_fifo_head s" "e_dispatch_tail s c" n "e_dispatch_size s"]
    by (auto simp: dispatch_lag_def at bit_minus_1_iff)
  have "dispatch_queue c n (dispatch_fill r p s) = dispatch_queue c n s"
    using assms(2) by (intro dispatch_queue_cong) (simp add: at)
  then show "dispatch_queue c (Suc n) (dispatch_fill r p s)
      = dispatch_queue c n s @ (if bit (fst p) c then [snd p] else [])"
    using assms(2) by (simp add: dispatch_queue_Suc at)
qed

subsection \<open>Other cores served by a push\<close>

text \<open>
  What a core sees of the buffer: its own tail, the values and teams, which entries it has not read
  and in which it is registered as waiting.
\<close>

definition dispatch_view :: "nat \<Rightarrow> event_unit \<Rightarrow> event_unit \<Rightarrow> bool" where
  "dispatch_view c s s' \<longleftrightarrow> e_dispatch_size s' = e_dispatch_size s
     \<and> e_dispatch_fifo_head s' = e_dispatch_fifo_head s \<and> e_dispatch_event s' = e_dispatch_event s
     \<and> e_nb_core s' = e_nb_core s \<and> e_dispatch_tail s' c = e_dispatch_tail s c
     \<and> (\<forall>i. d_value (e_dispatches s' i) = d_value (e_dispatches s i)
          \<and> d_config_mask (e_dispatches s' i) = d_config_mask (e_dispatches s i)
          \<and> bit (d_status_mask (e_dispatches s' i)) c = bit (d_status_mask (e_dispatches s i)) c
          \<and> bit (d_waiting_mask (e_dispatches s' i)) c = bit (d_waiting_mask (e_dispatches s i)) c
          \<and> d_waiting_reqs (e_dispatches s' i) c = d_waiting_reqs (e_dispatches s i) c)"

lemma dispatch_view_refl [simp]: "dispatch_view c s s"
  by (simp add: dispatch_view_def)

lemma dispatch_view_trans: "dispatch_view c s t \<Longrightarrow> dispatch_view c t u \<Longrightarrow> dispatch_view c s u"
  by (simp add: dispatch_view_def)

lemma dispatch_view_lag:
  assumes "dispatch_view c s s'"
  shows "dispatch_lag c n s' = dispatch_lag c n s" and "dispatch_queue c n s' = dispatch_queue c n s"
proof -
  show "dispatch_lag c n s' = dispatch_lag c n s"
    using assms by (simp add: dispatch_lag_def dispatch_at_def dispatch_view_def)
  show "dispatch_queue c n s' = dispatch_queue c n s"
    using assms by (intro dispatch_queue_cong) (simp add: dispatch_at_def dispatch_view_def)
qed

text \<open>A core is registered nowhere with the request \<open>q\<close> but where \<open>c\<close> is.\<close>

definition dispatch_own_req :: "nat \<Rightarrow> nat \<Rightarrow> event_unit \<Rightarrow> bool" where
  "dispatch_own_req c q s \<longleftrightarrow> (\<forall>i k. k < 32 \<longrightarrow> k \<noteq> c \<longrightarrow>
     bit (d_waiting_mask (e_dispatches s i)) k \<longrightarrow> d_waiting_reqs (e_dispatches s i) k \<noteq> q)"

text \<open>Serving another core does not touch core \<open>c\<close>, what it sees or the data of its request.\<close>

definition dispatch_aside :: "nat \<Rightarrow> nat \<Rightarrow> event_unit \<Rightarrow> event_unit \<Rightarrow> bool" where
  "dispatch_aside c q s s' \<longleftrightarrow> dispatch_view c s s'
     \<and> (e_nb_core s \<le> 32 \<and> eu_quiet s \<longrightarrow> eu_quiet s' \<and> e_cores s' c = e_cores s c)
     \<and> (dispatch_own_req c q s \<longrightarrow> dispatch_own_req c q s')
     \<and> (dispatch_own_req c q s \<and> eu_req_free q s \<longrightarrow>
          eu_req_free q s' \<and> e_req_data s' q = e_req_data s q)"

lemma dispatch_aside_refl [simp]: "dispatch_aside c q s s"
  by (simp add: dispatch_aside_def)

lemma dispatch_aside_trans: "dispatch_aside c q s t \<Longrightarrow> dispatch_aside c q t u \<Longrightarrow> dispatch_aside c q s u"
  unfolding dispatch_aside_def by (auto intro: dispatch_view_trans simp: dispatch_view_def)

lemma dispatch_wake_sel:
  "e_dispatch_size (dispatch_wake i k s) = e_dispatch_size s"
  "e_dispatch_fifo_head (dispatch_wake i k s) = e_dispatch_fifo_head s"
  "e_dispatch_event (dispatch_wake i k s) = e_dispatch_event s"
  "e_nb_core (dispatch_wake i k s) = e_nb_core s"
  "e_dispatch_tail (dispatch_wake i k s)
     = (e_dispatch_tail s)(k := ring_next (e_dispatch_size s) (e_dispatch_tail s k))"
  "e_dispatches (dispatch_wake i k s) = (e_dispatches s)(i := (e_dispatches s i)
     \<lparr>d_status_mask := d_status_mask (e_dispatches s i) AND NOT (shl1 (int k)),
      d_waiting_mask := d_waiting_mask (e_dispatches s i) AND NOT (shl1 (int k))\<rparr>)"
  by (simp_all add: dispatch_wake_def Let_def)

lemma dispatch_bypass_sel:
  "e_dispatch_size (dispatch_bypass i k s) = e_dispatch_size s"
  "e_dispatch_fifo_head (dispatch_bypass i k s) = e_dispatch_fifo_head s"
  "e_dispatch_event (dispatch_bypass i k s) = e_dispatch_event s"
  "e_nb_core (dispatch_bypass i k s) = e_nb_core s"
  "eu_quiet (dispatch_bypass i k s) = eu_quiet s"
  "e_req_data (dispatch_bypass i k s) = e_req_data s"
  "e_dispatch_tail (dispatch_bypass i k s)
     = (e_dispatch_tail s)(k := ring_next (e_dispatch_size s) (e_dispatch_tail s k))"
  "e_dispatches (dispatch_bypass i k s) =
     (let ds = (e_dispatches s)(i := (e_dispatches s i)
            \<lparr>d_status_mask := d_status_mask (e_dispatches s i) AND NOT (shl1 (int k)),
             d_waiting_mask := d_waiting_mask (e_dispatches s i) AND NOT (shl1 (int k))\<rparr>);
          j = ring_next (e_dispatch_size s) (e_dispatch_tail s k)
      in ds(j := (ds j)\<lparr>d_waiting_reqs := (d_waiting_reqs (ds j))(k := d_waiting_reqs (e_dispatches s i) k),
                       d_waiting_mask := d_waiting_mask (ds j) OR shl1 (int k)\<rparr>))"
proof -
  have "eu_quiet (eu_call x t) = eu_quiet t" for x t by (simp add: eu_call_def eu_quiet_def)
  then show "eu_quiet (dispatch_bypass i k s) = eu_quiet s"
    by (simp add: dispatch_bypass_def dispatch_enqueue_sleep_def eu_put_to_sleep_def Let_def)
qed (simp_all add: dispatch_bypass_def dispatch_enqueue_sleep_def eu_put_to_sleep_def eu_call_def Let_def)

lemma dispatch_wake_aside:
  assumes "k < 32" and "k \<noteq> c" and "bit (d_waiting_mask (e_dispatches s i)) k"
  shows "dispatch_aside c q s (dispatch_wake i k s)"
proof -
  define t where "t = dispatch_next_tail k (set_req_data (d_waiting_reqs (e_dispatches s i) k)
      (d_value (e_dispatches s i))
      (upd_dispatch i (\<lambda>d. d\<lparr>d_status_mask := d_status_mask d AND NOT (shl1 (int k)),
                           d_waiting_mask := d_waiting_mask d AND NOT (shl1 (int k))\<rparr>) s))"
  have wake: "dispatch_wake i k s = eu_trigger_event (shl1 (e_dispatch_event s)) (shl1 (int k)) t"
    by (simp add: dispatch_wake_def Let_def t_def)
  have t: "e_nb_core t = e_nb_core s" "eu_quiet t = eu_quiet s" "e_cores t = e_cores s"
    "eu_req_free q t = eu_req_free q s"
    by (simp_all add: t_def)
  have "dispatch_view c s (dispatch_wake i k s)"
    using assms(1,2) by (auto simp: dispatch_view_def dispatch_wake_sel bit_clear_bit)
  moreover have "eu_quiet (dispatch_wake i k s) \<and> e_cores (dispatch_wake i k s) c = e_cores s c"
    if "e_nb_core s \<le> 32" "eu_quiet s"
    using that t assms(1,2) eu_quiet_frame [OF eu_frames(2)]
    by (simp add: wake eu_trigger_event_pointwise' eu_targets_one)
  moreover have "dispatch_own_req c q (dispatch_wake i k s)" if "dispatch_own_req c q s"
    using that by (auto simp: dispatch_own_req_def dispatch_wake_sel bit_and_iff)
  moreover have "eu_req_free q (dispatch_wake i k s) \<and> e_req_data (dispatch_wake i k s) q = e_req_data s q"
    if "dispatch_own_req c q s" "eu_req_free q s"
  proof -
    have "d_waiting_reqs (e_dispatches s i) k \<noteq> q"
      using that(1) assms by (simp add: dispatch_own_req_def)
    then have "e_req_data t q = e_req_data s q" by (simp add: t_def set_req_data_def)
    then show ?thesis
      using that(2) t(4) eu_untouched.trigger_event [of q t] by (simp add: wake eu_untouched_def)
  qed
  ultimately show ?thesis by (simp add: dispatch_aside_def)
qed

lemma dispatch_bypass_aside:
  assumes "k < 32" and "k \<noteq> c" and "bit (d_waiting_mask (e_dispatches s i)) k"
  shows "dispatch_aside c q s (dispatch_bypass i k s)"
proof -
  have "dispatch_view c s (dispatch_bypass i k s)"
    using assms(1,2)
    by (auto simp: dispatch_view_def dispatch_bypass_sel Let_def bit_clear_bit bit_or_iff)
  moreover have "e_cores (dispatch_bypass i k s) c = e_cores s c"
    using assms(2) by (simp add: dispatch_bypass_cores)
  moreover have "dispatch_own_req c q (dispatch_bypass i k s)" if own: "dispatch_own_req c q s"
    using own assms
    by (auto simp: dispatch_own_req_def dispatch_bypass_sel Let_def bit_or_iff bit_and_iff)
  moreover have "eu_req_free q (dispatch_bypass i k s)"
    if "dispatch_own_req c q s" "eu_req_free q s"
  proof -
    have "d_waiting_reqs (e_dispatches s i) k \<noteq> q"
      using that(1) assms by (simp add: dispatch_own_req_def)
    then show ?thesis using that(2) by (simp add: eu_req_free_def dispatch_bypass_cores)
  qed
  ultimately show ?thesis by (simp add: dispatch_aside_def dispatch_bypass_sel)
qed

text \<open>The cores a push still has to look at are registered in its entry.\<close>

definition dispatch_todo :: "nat \<Rightarrow> u32 \<Rightarrow> nat list \<Rightarrow> event_unit \<Rightarrow> bool" where
  "dispatch_todo i m cs s \<longleftrightarrow> distinct cs \<and>
     (\<forall>k \<in> set cs. k < 32 \<and> (bit m k \<longrightarrow> bit (d_waiting_mask (e_dispatches s i)) k))"

lemma dispatch_todo_next:
  assumes "dispatch_todo i m (k # cs) s" and "\<And>j. j \<in> set cs \<Longrightarrow> dispatch_view j s s'"
    and "\<And>j. bit m' j \<Longrightarrow> bit m j"
  shows "dispatch_todo i m' cs s'"
  using assms by (auto simp: dispatch_todo_def dispatch_view_def)

lemma dispatch_step_view:
  assumes "dispatch_todo i m (k # cs) s" and "bit m k" and "j \<noteq> k"
  shows "dispatch_view j s (dispatch_wake i k s)" and "dispatch_view j s (dispatch_bypass i k s)"
proof -
  have "k < 32" "k \<noteq> j" "bit (d_waiting_mask (e_dispatches s i)) k"
    using assms by (auto simp: dispatch_todo_def)
  from dispatch_wake_aside [OF this] dispatch_bypass_aside [OF this]
  show "dispatch_view j s (dispatch_wake i k s)" and "dispatch_view j s (dispatch_bypass i k s)"
    by (auto simp: dispatch_aside_def)
qed

lemma dispatch_todo_step:
  assumes "dispatch_todo i m (k # cs) s" and "bit m k"
  shows "dispatch_todo i (m AND NOT (shl1 (int k))) cs (dispatch_wake i k s)"
    and "dispatch_todo i m cs (dispatch_bypass i k s)"
proof -
  have "j \<noteq> k" if "j \<in> set cs" for j using that assms(1) by (auto simp: dispatch_todo_def)
  note views = dispatch_step_view [OF assms this]
  show "dispatch_todo i (m AND NOT (shl1 (int k))) cs (dispatch_wake i k s)"
    by (rule dispatch_todo_next [OF assms(1) views(1)]) (auto simp: bit_and_iff)
  show "dispatch_todo i m cs (dispatch_bypass i k s)"
    by (rule dispatch_todo_next [OF assms(1) views(2)]) auto
qed

lemma dispatch_push_loop_aside:
  assumes "dispatch_todo i m cs s" and "c \<notin> set cs \<or> \<not> bit m c"
  shows "dispatch_aside c q s (dispatch_push_loop i m cs s)"
  using assms
proof (induction cs arbitrary: m s)
  case Nil
  then show ?case by simp
next
  case (Cons k cs)
  have k: "k < 32" using Cons.prems(1) by (simp add: dispatch_todo_def)
  have tail: "dispatch_todo i m cs s" using Cons.prems(1) by (simp add: dispatch_todo_def)
  show ?case
  proof (cases "bit m k")
    case False
    then have "dispatch_push_loop i m (k # cs) s = (if m = 0 then s else dispatch_push_loop i m cs s)"
      using k by (simp add: and_bit_mask_0)
    with Cons.IH [OF tail] Cons.prems(2) show ?thesis by auto
  next
    case True
    have ne: "k \<noteq> c" using Cons.prems(2) True by auto
    have bit: "bit (d_waiting_mask (e_dispatches s i)) k"
      using Cons.prems(1) True by (simp add: dispatch_todo_def)
    have "c \<notin> set cs \<or> \<not> bit (m AND NOT (shl1 (int k))) c"
      using Cons.prems(2) by (auto simp: bit_and_iff)
    note wake = dispatch_aside_trans [OF dispatch_wake_aside [OF k ne bit]
        Cons.IH [OF dispatch_todo_step(1) [OF Cons.prems(1) True] this]]
    have "c \<notin> set cs \<or> \<not> bit m c" using Cons.prems(2) by auto
    note bypass = dispatch_aside_trans [OF dispatch_bypass_aside [OF k ne bit]
        Cons.IH [OF dispatch_todo_step(2) [OF Cons.prems(1) True] this]]
    have "m \<noteq> 0" using True by auto
    then show ?thesis using wake bypass True k by (simp add: and_bit_mask_0)
  qed
qed

definition dispatch_not_waiting :: "nat \<Rightarrow> event_unit \<Rightarrow> bool" where
  "dispatch_not_waiting c s \<longleftrightarrow> (\<forall>i. \<not> bit (d_waiting_mask (e_dispatches s i)) c)"

lemma dispatch_fill_todo:
  assumes "i = e_dispatch_fifo_head s" and "m = d_waiting_mask (e_dispatches s i)"
  shows "dispatch_todo i m [0..<32] (dispatch_fill r p s)"
  using assms by (simp add: dispatch_todo_def)

lemma dispatch_send_lag:
  assumes "dispatch_not_waiting c s" and "dispatch_lag c n s" and "n < e_dispatch_size s" and "c < 32"
  shows "dispatch_not_waiting c (dispatch_send r p s)"
    and "e_dispatch_size (dispatch_send r p s) = e_dispatch_size s"
    and "dispatch_lag c (Suc n) (dispatch_send r p s)"
    and "dispatch_queue c (Suc n) (dispatch_send r p s)
      = dispatch_queue c n s @ (if bit (fst p) c then [snd p] else [])"
proof -
  have "\<not> bit (d_waiting_mask (e_dispatches s (e_dispatch_fifo_head s))) c"
    using assms(1) by (simp add: dispatch_not_waiting_def)
  then have "dispatch_aside c 0 (dispatch_fill r p s) (dispatch_send r p s)"
    using dispatch_push_loop_aside [OF dispatch_fill_todo [OF refl refl]] by (simp add: dispatch_send_fill)
  then have view: "dispatch_view c (dispatch_fill r p s) (dispatch_send r p s)"
    by (simp add: dispatch_aside_def)
  show "e_dispatch_size (dispatch_send r p s) = e_dispatch_size s"
    using view by (simp add: dispatch_view_def)
  show "dispatch_not_waiting c (dispatch_send r p s)"
    using view assms(1) by (simp add: dispatch_view_def dispatch_not_waiting_def)
  show "dispatch_lag c (Suc n) (dispatch_send r p s)"
    and "dispatch_queue c (Suc n) (dispatch_send r p s)
      = dispatch_queue c n s @ (if bit (fst p) c then [snd p] else [])"
    using dispatch_fill_lag [OF assms(2-4)] by (simp_all add: dispatch_view_lag [OF view])
qed

text \<open>
  C8. Sending values to teams, as long as the buffer has room for a core that is not waiting,
  extends the queue of that core by exactly the values whose team it is in, in the order they are
  sent, whichever other cores wait in whatever entries: read one by one, it receives the values of
  its teams in order, each once. (A push never looks for room: beyond it, unread values are
  overwritten. A core that waits is the next theorem.)
\<close>

theorem dispatch_send_extends_queue:
  assumes "dispatch_not_waiting c s" and "dispatch_lag c n s" and "c < 32"
    and "n + length ps \<le> e_dispatch_size s"
  shows "dispatch_lag c (n + length ps) (fold (dispatch_send r) ps s)
    \<and> dispatch_queue c (n + length ps) (fold (dispatch_send r) ps s)
      = dispatch_queue c n s @ map snd (filter (\<lambda>p. bit (fst p) c) ps)"
  using assms
proof (induction ps arbitrary: n s)
  case Nil
  then show ?case by simp
next
  case (Cons p ps)
  then have n: "n < e_dispatch_size s" by simp
  note one = dispatch_send_lag [OF Cons.prems(1,2) n Cons.prems(3), of r p]
  from Cons.IH [of "dispatch_send r p s" "Suc n"] one Cons.prems show ?case by simp
qed

subsection \<open>A core that waits\<close>

text \<open>Core \<open>c\<close> has read everything and is clock-gated in its entry with the request \<open>q\<close>.\<close>

definition dispatch_parked :: "nat \<Rightarrow> nat \<Rightarrow> event_unit \<Rightarrow> bool" where
  "dispatch_parked c q s \<longleftrightarrow> dispatch_lag c 0 s
     \<and> (\<forall>i. bit (d_waiting_mask (e_dispatches s i)) c \<longleftrightarrow> i = e_dispatch_tail s c)
     \<and> d_waiting_reqs (e_dispatches s (e_dispatch_tail s c)) c = q
     \<and> \<not> c_is_active (e_cores s c) \<and> c_state (e_cores s c) = CORE_STATE_WAITING_EVENT
     \<and> c_pending_req (e_cores s c) = Some q \<and> \<not> c_pending_req_is_wait (e_cores s c)
     \<and> \<not> c_pending_elw (e_cores s c) \<and> c_clear_evt_mask (e_cores s c) = shl1 (e_dispatch_event s)
     \<and> c_evt_mask (e_cores s c) AND shl1 (e_dispatch_event s) \<noteq> 0"

text \<open>Nobody else is waiting with that request, and no broadcast writes its data.\<close>

definition dispatch_alone :: "nat \<Rightarrow> nat \<Rightarrow> event_unit \<Rightarrow> bool" where
  "dispatch_alone c q s \<longleftrightarrow> eu_quiet s \<and> c < e_nb_core s \<and> e_nb_core s \<le> 32
     \<and> dispatch_own_req c q s \<and> eu_req_free q s"

lemma dispatch_parked_aside:
  assumes "dispatch_aside c q s s'" and "dispatch_parked c q s" and "dispatch_alone c q s"
  shows "dispatch_parked c q s'" and "dispatch_alone c q s'"
  using assms dispatch_view_lag [of c s s']
  by (simp_all add: dispatch_parked_def dispatch_alone_def dispatch_aside_def dispatch_view_def)

text \<open>The turn of core \<open>c\<close> in the loop of a push, after and before the other cores.\<close>

lemma dispatch_push_loop_until:
  assumes "dispatch_todo i m (xs @ c # ys) s" and "bit m c"
  shows "\<exists>m' t. dispatch_aside c q s t \<and> bit m' c \<and> dispatch_todo i m' (c # ys) t
     \<and> dispatch_push_loop i m (xs @ c # ys) s = dispatch_push_loop i m' (c # ys) t
     \<and> (\<forall>j. d_config_mask (e_dispatches t j) = d_config_mask (e_dispatches s j))"
  using assms
proof (induction xs arbitrary: m s)
  case Nil
  then show ?case by (intro exI [of _ m] exI [of _ s]) simp
next
  case (Cons k xs)
  have todo: "dispatch_todo i m (k # (xs @ c # ys)) s" using Cons.prems(1) by simp
  have k: "k < 32" "k \<noteq> c" "m \<noteq> 0" using todo Cons.prems(2) by (auto simp: dispatch_todo_def)
  show ?case
  proof (cases "bit m k")
    case False
    then have "dispatch_push_loop i m ((k # xs) @ c # ys) s = dispatch_push_loop i m (xs @ c # ys) s"
      using k by (simp add: and_bit_mask_0)
    moreover have "dispatch_todo i m (xs @ c # ys) s" using todo by (simp add: dispatch_todo_def)
    ultimately show ?thesis using Cons.IH [OF _ Cons.prems(2)] by simp
  next
    case True
    have bit: "bit (d_waiting_mask (e_dispatches s i)) k" using todo True by (simp add: dispatch_todo_def)
    define m1 s1 where "m1 = (if bit (d_config_mask (e_dispatches s i)) k then m AND NOT (shl1 (int k)) else m)"
      and "s1 = (if bit (d_config_mask (e_dispatches s i)) k then dispatch_wake i k s else dispatch_bypass i k s)"
    have step: "dispatch_push_loop i m ((k # xs) @ c # ys) s = dispatch_push_loop i m1 (xs @ c # ys) s1"
      using True k by (simp add: and_bit_mask_0 m1_def s1_def)
    have "dispatch_todo i m1 (xs @ c # ys) s1" "bit m1 c"
      using dispatch_todo_step [OF todo True] Cons.prems(2) k by (auto simp: m1_def s1_def bit_clear_bit)
    moreover have aside: "dispatch_aside c q s s1"
      using dispatch_wake_aside [OF k(1,2) bit] dispatch_bypass_aside [OF k(1,2) bit] by (simp add: s1_def)
    moreover have "d_config_mask (e_dispatches s1 j) = d_config_mask (e_dispatches s j)" for j
      using aside by (simp add: dispatch_aside_def dispatch_view_def)
    ultimately show ?thesis
      using Cons.IH [of m1 s1] dispatch_aside_trans [OF aside] unfolding step by metis
  qed
qed

lemma dispatch_lag_cong:
  assumes "e_dispatch_size s' = e_dispatch_size s" and "e_dispatch_fifo_head s' = e_dispatch_fifo_head s"
    and "e_dispatch_tail s' c = e_dispatch_tail s c"
    and "\<And>i. bit (d_status_mask (e_dispatches s' i)) c = bit (d_status_mask (e_dispatches s i)) c"
  shows "dispatch_lag c n s' = dispatch_lag c n s"
  using assms by (simp add: dispatch_lag_def dispatch_at_def)

text \<open>Its own turn: with a team of the core it is woken up, otherwise it moves to the next entry.\<close>

lemma dispatch_turn_lag:
  assumes "dispatch_lag c 1 t" and "i = e_dispatch_tail t c" and "c < 32"
  shows "dispatch_lag c 0 (dispatch_wake i c t)" and "dispatch_lag c 0 (dispatch_bypass i c t)"
proof -
  have adv: "dispatch_lag c 0 (dispatch_advance c t)"
    using dispatch_advance_lag [of c 0 t] assms(1,3) by simp
  have "dispatch_lag c 0 (dispatch_wake i c t) = dispatch_lag c 0 (dispatch_advance c t)"
    by (rule dispatch_lag_cong) (simp_all add: dispatch_wake_sel assms(2))
  with adv show "dispatch_lag c 0 (dispatch_wake i c t)" by simp
  have "dispatch_lag c 0 (dispatch_bypass i c t) = dispatch_lag c 0 (dispatch_advance c t)"
    by (rule dispatch_lag_cong) (simp_all add: dispatch_bypass_sel assms(2) Let_def)
  with adv show "dispatch_lag c 0 (dispatch_bypass i c t)" by simp
qed

lemma dispatch_wake_own:
  assumes "dispatch_alone c q t" and "d_waiting_reqs (e_dispatches t i) c = q"
    and "\<not> c_is_active (e_cores t c)" and "c_state (e_cores t c) = CORE_STATE_WAITING_EVENT"
    and "\<not> c_pending_req_is_wait (e_cores t c)" and "\<not> c_pending_elw (e_cores t c)"
    and "c_evt_mask (e_cores t c) AND shl1 (e_dispatch_event t) \<noteq> 0"
    and "u = dispatch_wake i c t"
  shows "dispatch_alone c q u" and "e_req_data u q = d_value (e_dispatches t i)"
    and "e_cores u c = (e_cores t c)\<lparr>c_state := CORE_STATE_NONE,
      c_status := (c_status (e_cores t c) OR shl1 (e_dispatch_event t)) AND NOT (c_clear_evt_mask (e_cores t c)),
      c_clear_evt_mask := 0, c_wakeup_enqueued := True\<rparr>"
proof -
  let ?ev = "shl1 (e_dispatch_event t)"
  define t' where "t' = dispatch_next_tail c (set_req_data q (d_value (e_dispatches t i))
      (upd_dispatch i (\<lambda>d. d\<lparr>d_status_mask := d_status_mask d AND NOT (shl1 (int c)),
                           d_waiting_mask := d_waiting_mask d AND NOT (shl1 (int c))\<rparr>) t))"
  have u: "u = eu_trigger_event ?ev (shl1 (int c)) t'"
    using assms(2) by (simp add: assms(8) dispatch_wake_def Let_def t'_def)
  have t': "e_nb_core t' = e_nb_core t" "eu_quiet t'" "e_cores t' = e_cores t" "eu_req_free q t'"
    "e_req_data t' q = d_value (e_dispatches t i)" "e_nb_core t \<le> 32" "c < e_nb_core t"
    using assms(1) by (simp_all add: t'_def dispatch_alone_def)
  note one = eu_trigger_one [of t' c ?ev, folded u, unfolded t'(1,3)]
  have wait: "eu_waiting (e_cores t c)" using assms(4) by (simp add: eu_waiting_def)
  show "e_req_data u q = d_value (e_dispatches t i)"
    and "e_cores u c = (e_cores t c)\<lparr>c_state := CORE_STATE_NONE,
      c_status := (c_status (e_cores t c) OR ?ev) AND NOT (c_clear_evt_mask (e_cores t c)),
      c_clear_evt_mask := 0, c_wakeup_enqueued := True\<rparr>"
    using one t'(2,5,6,7) assms(3,5,6,7) wait by simp_all
  have "eu_quiet u" "e_nb_core u = e_nb_core t"
    using t'(1,2) eu_quiet_frame [OF eu_frames(2)] by (simp_all add: u)
  moreover have "eu_req_free q u"
    using t'(4) eu_untouched.trigger_event [of q t'] by (simp add: u eu_untouched_def)
  moreover have "dispatch_own_req c q u"
    using assms(1) by (auto simp: dispatch_alone_def dispatch_own_req_def assms(8) dispatch_wake_sel bit_and_iff)
  ultimately show "dispatch_alone c q u" using assms(1) by (simp add: dispatch_alone_def)
qed

lemma dispatch_bypass_own:
  assumes "dispatch_alone c q t" and "d_waiting_reqs (e_dispatches t i) c = q"
    and "\<not> c_pending_req_is_wait (e_cores t c)"
  shows "dispatch_alone c q (dispatch_bypass i c t)"
  using assms
  by (auto simp: dispatch_alone_def dispatch_own_req_def dispatch_bypass_sel Let_def bit_or_iff
      bit_and_iff eu_req_free_def dispatch_bypass_cores)

lemma dispatch_send_parked:
  assumes "dispatch_parked c q s" and "dispatch_alone c q s" and "s' = dispatch_send r p s"
  shows "\<not> bit (fst p) c \<Longrightarrow> dispatch_parked c q s' \<and> dispatch_alone c q s'"
    and "bit (fst p) c \<Longrightarrow> dispatch_not_waiting c s' \<and> dispatch_lag c 0 s' \<and> e_req_data s' q = snd p
      \<and> e_cores s' c = (e_cores s c)\<lparr>c_state := CORE_STATE_NONE,
          c_status := c_status (e_cores s c) AND NOT (shl1 (e_dispatch_event s)), c_clear_evt_mask := 0,
          c_wakeup_enqueued := True\<rparr>"
proof -
  let ?i = "e_dispatch_fifo_head s" and ?f = "dispatch_fill r p s" and ?ev = "shl1 (e_dispatch_event s)"
  note parked = assms(1) [unfolded dispatch_parked_def]
  have tail: "e_dispatch_tail s c < e_dispatch_size s" "?i = e_dispatch_tail s c" and c: "c < 32"
    using parked assms(2) by (auto simp: dispatch_lag_def dispatch_alone_def)
  have split: "[0..<32] = [0..<c] @ c # [Suc c..<32]"
    using upt_add_eq_append [of 0 c "32 - c"] c by (simp add: upt_conv_Cons [of c 32])
  have todo: "dispatch_todo ?i (d_waiting_mask (e_dispatches s ?i)) ([0..<c] @ c # [Suc c..<32]) ?f"
    using dispatch_fill_todo [OF refl refl, of s r p] unfolding split .
  have bitc: "bit (d_waiting_mask (e_dispatches s ?i)) c" using parked tail(2) by simp
  obtain m t where t: "dispatch_aside c q ?f t" "bit m c" "dispatch_todo ?i m (c # [Suc c..<32]) t"
    and loop: "s' = dispatch_push_loop ?i m (c # [Suc c..<32]) t"
    using dispatch_push_loop_until [OF todo bitc, of q] unfolding assms(3) dispatch_send_fill split by auto
  have alone_f: "dispatch_alone c q ?f"
    using assms(2) by (simp add: dispatch_alone_def dispatch_own_req_def eu_req_free_def)
  then have alone: "dispatch_alone c q t" and core: "e_cores t c = e_cores s c"
    using t(1) by (simp_all add: dispatch_alone_def dispatch_aside_def dispatch_view_def)
  have view: "dispatch_view c ?f t" using t(1) by (simp add: dispatch_aside_def)
  have lag: "dispatch_lag c 1 t"
    using dispatch_fill_lag(1) [of c 0 s r p] parked tail(1) c by (simp add: dispatch_view_lag [OF view])
  have at: "e_dispatch_tail t c = ?i" "d_waiting_reqs (e_dispatches t ?i) c = q"
    "d_config_mask (e_dispatches t ?i) = fst p" "d_value (e_dispatches t ?i) = snd p"
    "e_dispatch_event t = e_dispatch_event s" "e_dispatch_size t = e_dispatch_size s"
    "\<And>j. bit (d_waiting_mask (e_dispatches t j)) c \<longleftrightarrow> j = ?i"
    using view parked tail(2) by (simp_all add: dispatch_view_def)
  have s': "s' = (if bit (fst p) c
      then dispatch_push_loop ?i (m AND NOT (shl1 (int c))) [Suc c..<32] (dispatch_wake ?i c t)
      else dispatch_push_loop ?i m [Suc c..<32] (dispatch_bypass ?i c t))"
    using t(2) c loop at(3) by (auto simp: and_bit_mask_0)
  have aside_wake: "dispatch_aside c q (dispatch_wake ?i c t)
      (dispatch_push_loop ?i (m AND NOT (shl1 (int c))) [Suc c..<32] (dispatch_wake ?i c t))"
    and aside_bypass: "dispatch_aside c q (dispatch_bypass ?i c t)
      (dispatch_push_loop ?i m [Suc c..<32] (dispatch_bypass ?i c t))"
    by (rule dispatch_push_loop_aside; use dispatch_todo_step [OF t(3,2)] in simp)+
  note turn = dispatch_turn_lag [OF lag at(1) [symmetric] c]
  show "dispatch_parked c q s' \<and> dispatch_alone c q s'" if "\<not> bit (fst p) c"
  proof -
    let ?u = "dispatch_bypass ?i c t"
    have "dispatch_alone c q ?u" using dispatch_bypass_own [OF alone at(2)] parked by (simp add: core)
    moreover have "dispatch_parked c q ?u"
      using turn(2) parked at(1,2,5,7) c core
      by (auto simp: dispatch_parked_def dispatch_bypass_sel dispatch_bypass_cores Let_def bit_or_iff
          bit_clear_bit)
    ultimately show ?thesis using dispatch_parked_aside [OF aside_bypass] that by (simp add: s')
  qed
  show "dispatch_not_waiting c s' \<and> dispatch_lag c 0 s' \<and> e_req_data s' q = snd p
      \<and> e_cores s' c = (e_cores s c)\<lparr>c_state := CORE_STATE_NONE,
          c_status := c_status (e_cores s c) AND NOT ?ev, c_clear_evt_mask := 0,
          c_wakeup_enqueued := True\<rparr>" if team: "bit (fst p) c"
  proof -
    let ?u = "dispatch_wake ?i c t"
    note own = dispatch_wake_own [OF alone at(2) _ _ _ _ _ refl]
    have u: "dispatch_alone c q ?u" "e_req_data ?u q = snd p"
      "e_cores ?u c = (e_cores s c)\<lparr>c_state := CORE_STATE_NONE,
        c_status := (c_status (e_cores s c) OR ?ev) AND NOT ?ev, c_clear_evt_mask := 0,
        c_wakeup_enqueued := True\<rparr>"
      using own parked at(4,5) by (simp_all add: core)
    have "(c_status (e_cores s c) OR ?ev) AND NOT ?ev = c_status (e_cores s c) AND NOT ?ev"
      by (simp add: bit.conj_disj_distrib2)
    moreover have "dispatch_not_waiting c ?u"
      using at(7) c by (auto simp: dispatch_not_waiting_def dispatch_wake_sel bit_clear_bit)
    ultimately show ?thesis
      using aside_wake u turn(1) team dispatch_view_lag(1) [of c ?u s' 0]
      by (simp add: s' dispatch_aside_def dispatch_alone_def dispatch_not_waiting_def dispatch_view_def)
  qed
qed

text \<open>
  C31. A core that waits for the dispatch queue is served by the first value pushed for one of its
  teams. While values for other teams are pushed, it stays clock-gated and moves along with the
  head; the push for its team writes the value into its request, has its wake-up scheduled and the
  dispatch event consumed, and leaves the core with nothing unread and registered nowhere, so the
  values that follow extend its queue. Any other cores may wait at the same time. (With no SoC
  event queued, and the request of the core not used by anybody else.)
\<close>

theorem dispatch_send_serves_waiter:
  assumes "dispatch_parked c q s" and "dispatch_alone c q s"
    and "\<forall>p \<in> set ps. \<not> bit (fst p) c" and "bit team c"
    and "s1 = fold (dispatch_send r) ps s" and "s2 = dispatch_send r (team, v) s1"
  shows "dispatch_parked c q s1 \<and> e_req_data s2 q = v \<and> c_wakeup_enqueued (e_cores s2 c)
     \<and> c_status (e_cores s2 c) = c_status (e_cores s1 c) AND NOT (shl1 (e_dispatch_event s1))
     \<and> dispatch_not_waiting c s2 \<and> dispatch_lag c 0 s2 \<and> dispatch_queue c 0 s2 = []"
proof -
  have "dispatch_parked c q (fold (dispatch_send r) ps t) \<and> dispatch_alone c q (fold (dispatch_send r) ps t)"
    if "dispatch_parked c q t" "dispatch_alone c q t" for t
    using that assms(3)
    by (induction ps arbitrary: t) (simp_all add: dispatch_send_parked(1) [OF _ _ refl])
  then have s1: "dispatch_parked c q s1" "dispatch_alone c q s1" using assms(1,2,5) by blast+
  then show ?thesis using dispatch_send_parked(2) [OF s1 assms(6)] assms(4) by simp
qed

subsection \<open>Witnesses\<close>

lemma eu_example_dispatch: "dispatch_not_waiting c eu_example" "dispatch_lag c 0 eu_example"
  by (simp_all add: dispatch_not_waiting_def dispatch_lag_def dispatch_at_def eu_example_def)

lemma eu_example_dispatch_size: "e_dispatch_size eu_example = 2"
  by (simp add: eu_example_def)

lemma dispatch_example_queue:
  "dispatch_lag 1 2 (fold (dispatch_send 9) [(5, 70), (6, 71)] eu_example)
   \<and> dispatch_queue 1 2 (fold (dispatch_send 9) [(5, 70), (6, 71)] eu_example) = [71]"
proof -
  have "\<not> bit (5 :: u32) 1" "bit (6 :: u32) 1" by (simp_all add: bit_simps)
  moreover note one = dispatch_send_lag [OF eu_example_dispatch, of 1 9 "(5, 70)"]
  ultimately show ?thesis
    using dispatch_send_lag [OF one(1,3), of 9 "(6, 71)"] one
    by (simp add: eu_example_dispatch_size numeral_2_eq_2)
qed

theorem dispatch_pop_reads_queue_witness:
  "e_req_data (snd (dispatch_pop 8 1 (fold (dispatch_send 9) [(5, 70), (6, 71)] eu_example))) 8 = 71"
  using dispatch_pop_reads_queue [OF dispatch_example_queue [THEN conjunct1] _
      surjective_pairing [symmetric], of 8] dispatch_example_queue
  by simp

text \<open>Core 3 reads, with the request 8, and waits.\<close>

definition dispatch_example_parked :: event_unit where
  "dispatch_example_parked = snd (dispatch_pop 8 3 eu_example)"

lemma dispatch_example_parked_eq:
  "dispatch_example_parked = snd (dispatch_enqueue_sleep 0 8 3 True eu_example)"
proof -
  have tail: "e_dispatch_tail eu_example 3 = 0" "d_status_mask (e_dispatches eu_example 0) = 0"
    by (simp_all add: eu_example_def)
  have "dispatch_skip 2 3 eu_example = eu_example"
    by (simp add: numeral_2_eq_2 dispatch_foreign_def Let_def tail)
  then show ?thesis
    by (simp add: dispatch_example_parked_def dispatch_pop_def eu_example_dispatch_size Let_def tail)
qed

lemma dispatch_example_parked_sel:
  "e_cores dispatch_example_parked = (e_cores eu_example)(3 := core_example
     \<lparr>c_clear_evt_mask := shl1 4, c_state := CORE_STATE_WAITING_EVENT, c_is_active := False,
      c_pending_req := Some 8\<rparr>)"
  "e_dispatches dispatch_example_parked = (e_dispatches eu_example)(0 := (e_dispatches eu_example 0)
     \<lparr>d_waiting_reqs := (\<lambda>_. 0)(3 := 8), d_waiting_mask := shl1 3\<rparr>)"
  "e_dispatch_tail dispatch_example_parked = (\<lambda>_. 0)" "e_dispatch_size dispatch_example_parked = 2"
  "e_dispatch_fifo_head dispatch_example_parked = 0" "e_dispatch_event dispatch_example_parked = 4"
  "e_nb_core dispatch_example_parked = 4" "eu_quiet dispatch_example_parked"
proof -
  have core: "e_cores eu_example c = core_example" for c by (simp add: eu_example_def)
  have sleep: "c_evt_mask core_example AND c_status core_example = 0" by (simp add: core_example_def)
  note defs = dispatch_example_parked_eq dispatch_enqueue_sleep_def Let_def eu_wait_event_def
    eu_put_to_sleep_def eu_call_def
  show "e_cores dispatch_example_parked = (e_cores eu_example)(3 := core_example
     \<lparr>c_clear_evt_mask := shl1 4, c_state := CORE_STATE_WAITING_EVENT, c_is_active := False,
      c_pending_req := Some 8\<rparr>)"
    by (simp add: defs core sleep) (simp add: eu_example_def)
  show "e_dispatches dispatch_example_parked = (e_dispatches eu_example)(0 := (e_dispatches eu_example 0)
     \<lparr>d_waiting_reqs := (\<lambda>_. 0)(3 := 8), d_waiting_mask := shl1 3\<rparr>)"
    by (simp add: defs core sleep) (simp add: eu_example_def)
  show "e_dispatch_tail dispatch_example_parked = (\<lambda>_. 0)" "e_dispatch_size dispatch_example_parked = 2"
    "e_dispatch_fifo_head dispatch_example_parked = 0" "e_dispatch_event dispatch_example_parked = 4"
    "e_nb_core dispatch_example_parked = 4"
    by (simp_all add: defs core sleep) (simp_all add: eu_example_def)
  show "eu_quiet dispatch_example_parked"
    by (simp add: defs core sleep eu_quiet_def upd_core_def upd_dispatch_def) (simp add: eu_example_def)
qed

lemma dispatch_example_bit: "bit (shl1 3) k \<longleftrightarrow> k = 3"
  using shl1_of_nat [of 3] by auto

text \<open>Of two values sent while core 3 waits, core 1 is left with the second.\<close>

theorem dispatch_send_extends_queue_witness:
  "dispatch_queue 1 2 (fold (dispatch_send 9) [(5, 70), (6, 71)] dispatch_example_parked) = [71]"
proof -
  let ?s = "dispatch_example_parked"
  have "dispatch_not_waiting 1 ?s" "dispatch_lag 1 0 ?s" "dispatch_queue 1 0 ?s = []"
    by (simp_all add: dispatch_not_waiting_def dispatch_lag_def dispatch_at_def
        dispatch_example_parked_sel dispatch_example_bit) (simp_all add: eu_example_def)
  then show ?thesis
    using dispatch_send_extends_queue [of 1 ?s 0 "[(5, 70), (6, 71)]" 9]
    by (simp add: numeral_2_eq_2 bit_simps dispatch_example_parked_sel)
qed

text \<open>Core 3 lets a value for cores 0 and 2 pass and is given the next one.\<close>

theorem dispatch_send_serves_waiter_witness:
  "e_req_data (dispatch_send 9 (12, 71) (fold (dispatch_send 9) [(5, 70)] dispatch_example_parked)) 8 = 71"
proof -
  let ?s = "dispatch_example_parked"
  have "dispatch_parked 3 8 ?s"
    by (simp add: dispatch_parked_def dispatch_lag_def dispatch_at_def dispatch_example_parked_sel
        dispatch_example_bit) (simp add: eu_example_def core_example_def shl1_def bit_mask_def)
  moreover have "dispatch_alone 3 8 ?s"
    by (auto simp: dispatch_alone_def dispatch_own_req_def eu_req_free_def dispatch_example_parked_sel
        dispatch_example_bit) (simp_all add: eu_example_def core_example_def)
  ultimately show ?thesis
    using dispatch_send_serves_waiter [OF _ _ _ _ refl refl, of 3 8 ?s "[(5, 70)]" 12 9 71]
    by (simp add: bit_simps)
qed

end
