(* ===== verification/Event_Unit_Soc.thy ===== *)
theory Event_Unit_Soc
  imports Event_Unit_Wake Event_Fifo
begin

section \<open>The event unit: the SoC event queue\<close>

text \<open>
  The queue of SoC events implements the contract of an event queue, although every push and pop
  may re-broadcast the queue's event to all cores and wake some of them.
\<close>

definition eu_fifo_inv :: "event_unit \<Rightarrow> bool" where
  "eu_fifo_inv s \<longleftrightarrow>
     ring_ok (e_nb_free_events s) (e_fifo_event_head s) (e_fifo_event_tail s) (e_nb_fifo_events s)"

definition eu_fifo_mark :: "u32 \<Rightarrow> u32" where
  "eu_fifo_mark e = bit_mask 31 OR e"

definition eu_fifo_contents :: "event_unit \<Rightarrow> u32 list" where
  "eu_fifo_contents s = map eu_fifo_mark
     (ring_queue (e_fifo_event s) (e_nb_free_events s) (e_fifo_event_tail s) (e_nb_fifo_events s))"

definition eu_fifo_pop :: "nat \<Rightarrow> event_unit \<Rightarrow> u32 \<times> event_unit" where
  "eu_fifo_pop r s = (let s' = snd (eu_soc_ioReq r False s) in (e_req_data s' r, s'))"

lemma eu_push_full: "e_nb_free_events s = 0 \<Longrightarrow> eu_soc_event_sync e s = s"
  by (simp add: eu_soc_event_sync_def)

lemma eu_push_queue:
  assumes "e_nb_free_events s \<noteq> 0"
  shows "e_nb_free_events (eu_soc_event_sync e s) = e_nb_free_events s - 1"
    and "e_fifo_event (eu_soc_event_sync e s) = (e_fifo_event s)(e_fifo_event_head s := e)"
    and "e_fifo_event_head (eu_soc_event_sync e s) = ring_next (e_nb_fifo_events s) (e_fifo_event_head s)"
    and "e_fifo_event_tail (eu_soc_event_sync e s) = e_fifo_event_tail s"
    and "e_nb_fifo_events (eu_soc_event_sync e s) = e_nb_fifo_events s"
  using assms by (simp_all add: eu_soc_event_sync_def)

lemma eu_soc_ioReq_eq:
  assumes "e_nb_free_events s \<noteq> e_nb_fifo_events s"
    and "t = (set_req_data r (eu_fifo_mark (e_fifo_event s (e_fifo_event_tail s))) s)
      \<lparr>e_fifo_event_tail := ring_next (e_nb_fifo_events s) (e_fifo_event_tail s),
       e_nb_free_events := Suc (e_nb_free_events s)\<rparr>"
  shows "eu_soc_ioReq r False s = (IO_REQ_OK,
     if Suc (e_nb_free_events s) \<noteq> e_nb_fifo_events s
     then eu_trigger_event (shl1 (e_fifo_soc_event s)) (- 1) t else t)"
  using assms by (simp add: eu_soc_ioReq_def Let_def eu_fifo_mark_def set_req_data_def)

lemma eu_fifo_pop_queue:
  assumes "e_nb_free_events s \<noteq> e_nb_fifo_events s" and "eu_req_free r s"
    and "eu_fifo_pop r s = (d, s')"
  shows "d = eu_fifo_mark (e_fifo_event s (e_fifo_event_tail s))"
    and "e_nb_free_events s' = Suc (e_nb_free_events s)" and "e_fifo_event s' = e_fifo_event s"
    and "e_fifo_event_head s' = e_fifo_event_head s"
    and "e_fifo_event_tail s' = ring_next (e_nb_fifo_events s) (e_fifo_event_tail s)"
    and "e_nb_fifo_events s' = e_nb_fifo_events s"
proof -
  define t where "t = (set_req_data r (eu_fifo_mark (e_fifo_event s (e_fifo_event_tail s))) s)
      \<lparr>e_fifo_event_tail := ring_next (e_nb_fifo_events s) (e_fifo_event_tail s),
       e_nb_free_events := Suc (e_nb_free_events s)\<rparr>"
  have t: "eu_req_free r t" "e_req_data t r = eu_fifo_mark (e_fifo_event s (e_fifo_event_tail s))"
      "e_nb_free_events t = Suc (e_nb_free_events s)" "e_fifo_event t = e_fifo_event s"
      "e_fifo_event_head t = e_fifo_event_head s" "e_nb_fifo_events t = e_nb_fifo_events s"
      "e_fifo_event_tail t = ring_next (e_nb_fifo_events s) (e_fifo_event_tail s)"
    using assms(2) by (simp_all add: t_def set_req_data_def eu_req_free_def)
  have "s' = t \<or> s' = eu_trigger_event (shl1 (e_fifo_soc_event s)) (- 1) t"
    using assms(3) eu_soc_ioReq_eq [OF assms(1) t_def]
    by (auto simp: eu_fifo_pop_def Let_def split: if_splits)
  then have "eu_frame t s'" "eu_untouched r t s'"
    using eu_frames(2) by (auto simp: eu_untouched.trigger_event eu_untouched.refl)
  then show "e_nb_free_events s' = Suc (e_nb_free_events s)" "e_fifo_event s' = e_fifo_event s"
    "e_fifo_event_head s' = e_fifo_event_head s"
    "e_fifo_event_tail s' = ring_next (e_nb_fifo_events s) (e_fifo_event_tail s)"
    "e_nb_fifo_events s' = e_nb_fifo_events s"
    and "d = eu_fifo_mark (e_fifo_event s (e_fifo_event_tail s))"
    using t assms(3) by (auto simp: eu_frame_sel eu_untouched_def eu_fifo_pop_def Let_def)
qed

lemma eu_fifo_inv_push: "eu_fifo_inv s \<Longrightarrow> eu_fifo_inv (eu_soc_event_sync e s)"
  by (cases "e_nb_free_events s = 0")
    (simp_all add: eu_push_full eu_fifo_inv_def eu_push_queue ring_ok_push)

lemma eu_fifo_contents_push:
  assumes "eu_fifo_inv s"
  shows "eu_fifo_contents (eu_soc_event_sync e s) =
    (if length (eu_fifo_contents s) < e_nb_fifo_events s then eu_fifo_contents s @ [eu_fifo_mark e]
     else eu_fifo_contents s)"
proof (cases "e_nb_free_events s = 0")
  case True
  then show ?thesis by (simp add: eu_push_full eu_fifo_contents_def)
next
  case False
  then have "e_nb_fifo_events s - e_nb_free_events s < e_nb_fifo_events s"
    using assms by (auto simp: eu_fifo_inv_def ring_ok_def)
  with False assms show ?thesis
    by (simp add: eu_fifo_contents_def eu_push_queue eu_fifo_inv_def ring_queue_push)
qed

lemma eu_fifo_pop_laws:
  assumes "eu_fifo_inv s" and "eu_req_free r s" and "eu_fifo_contents s \<noteq> []"
  shows "eu_fifo_inv (snd (eu_fifo_pop r s))"
    and "fst (eu_fifo_pop r s) = hd (eu_fifo_contents s)"
    and "eu_fifo_contents (snd (eu_fifo_pop r s)) = tl (eu_fifo_contents s)"
    and "e_nb_fifo_events (snd (eu_fifo_pop r s)) = e_nb_fifo_events s"
proof -
  obtain d s' where p: "eu_fifo_pop r s = (d, s')" by (cases "eu_fifo_pop r s")
  note ok = assms(1) [unfolded eu_fifo_inv_def]
  have ne: "e_nb_free_events s \<noteq> e_nb_fifo_events s"
    using assms(3) ring_queue_empty [OF ok, of "e_fifo_event s"] by (simp add: eu_fifo_contents_def)
  note q = eu_fifo_pop_queue [OF ne assms(2) p]
  note c = ring_queue_pop [OF ok ne, of "e_fifo_event s"]
  show "eu_fifo_inv (snd (eu_fifo_pop r s))"
    using ring_ok_pop [OF ok ne] by (simp add: p eu_fifo_inv_def q)
  show "fst (eu_fifo_pop r s) = hd (eu_fifo_contents s)"
    and "eu_fifo_contents (snd (eu_fifo_pop r s)) = tl (eu_fifo_contents s)"
    and "e_nb_fifo_events (snd (eu_fifo_pop r s)) = e_nb_fifo_events s"
    by (simp_all add: p q c eu_fifo_contents_def)
qed

interpretation eu_fifo: event_fifo eu_soc_event_sync eu_fifo_mark eu_fifo_pop eu_req_free
    eu_fifo_contents e_nb_fifo_events eu_fifo_inv
proof (unfold_locales, goal_cases)
  case (1 s e)
  then show ?case by (rule eu_fifo_inv_push)
next
  case (3 s e)
  then show ?case by (cases "e_nb_free_events s = 0") (simp_all add: eu_push_full eu_push_queue)
next
  case (5 s e)
  then show ?case by (rule eu_fifo_contents_push)
qed (auto intro: eu_fifo_pop_laws)

subsection \<open>The queue's event is level-sensitive\<close>

lemma eu_queue_sel [simp]:
  "e_fifo_event (upd_core c f s) = e_fifo_event s"
  "e_fifo_event_head (upd_core c f s) = e_fifo_event_head s"
  "e_fifo_event_tail (upd_core c f s) = e_fifo_event_tail s"
  "e_fifo_event (eu_call x s) = e_fifo_event s"
  "e_fifo_event_head (eu_call x s) = e_fifo_event_head s"
  "e_fifo_event_tail (eu_call x s) = e_fifo_event_tail s"
  "e_fifo_event (set_req_data r d s) = e_fifo_event s"
  "e_fifo_event_head (set_req_data r d s) = e_fifo_event_head s"
  "e_fifo_event_tail (set_req_data r d s) = e_fifo_event_tail s"
  by (simp_all add: upd_core_def eu_call_def set_req_data_def)

text \<open>The queue holds an event and announces it as event \<open>k\<close> of the cores.\<close>

definition eu_announces :: "nat \<Rightarrow> event_unit \<Rightarrow> bool" where
  "eu_announces k s \<longleftrightarrow> e_fifo_soc_event s = int k \<and> k < 32 \<and> e_nb_core s \<le> 32
     \<and> e_nb_free_events s \<noteq> e_nb_fifo_events s"

definition eu_announced :: "nat \<Rightarrow> nat \<Rightarrow> event_unit \<Rightarrow> bool" where
  "eu_announced k j s \<longleftrightarrow> bit (c_status (e_cores s j)) k"

text \<open>What the operations do to the announced event: the queue is kept and no core loses the event.\<close>

definition eu_upholds :: "nat \<Rightarrow> event_unit \<Rightarrow> event_unit \<Rightarrow> bool" where
  "eu_upholds k s s' \<longleftrightarrow> e_nb_core s' = e_nb_core s \<and> e_fifo_soc_event s' = e_fifo_soc_event s
     \<and> e_nb_free_events s' = e_nb_free_events s \<and> e_nb_fifo_events s' = e_nb_fifo_events s
     \<and> e_fifo_event s' = e_fifo_event s \<and> e_fifo_event_head s' = e_fifo_event_head s
     \<and> e_fifo_event_tail s' = e_fifo_event_tail s
     \<and> (eu_announces k s \<longrightarrow> (\<forall>j < e_nb_core s. eu_announced k j s \<longrightarrow> eu_announced k j s'))"

lemma eu_upholds_refl [simp]: "eu_upholds k s s"
  by (simp add: eu_upholds_def)

lemma eu_upholds_announces: "eu_upholds k s s' \<Longrightarrow> eu_announces k s' = eu_announces k s"
  by (simp add: eu_upholds_def eu_announces_def)

lemma eu_upholds_trans: "eu_upholds k s t \<Longrightarrow> eu_upholds k t u \<Longrightarrow> eu_upholds k s u"
  by (auto simp: eu_upholds_def eu_announces_def)

lemma eu_upholds_frame:
  assumes "eu_frame s s'" and "\<And>j. eu_announced k j s \<Longrightarrow> eu_announced k j s'"
  shows "eu_upholds k s s'"
  using assms by (simp add: eu_upholds_def eu_frame_sel)

definition eu_upholding :: "nat \<Rightarrow> (nat \<Rightarrow> event_unit \<Rightarrow> event_unit) \<Rightarrow> bool" where
  "eu_upholding k chk \<longleftrightarrow> (\<forall>c s. eu_upholds k s (chk c s))"

lemma eu_upholding_send:
  assumes "eu_upholding k chk"
  shows "eu_upholds k s (eu_send_event_with chk c m s)"
    and "bit m k \<Longrightarrow> eu_announces k s \<Longrightarrow> c < e_nb_core s \<Longrightarrow>
      eu_announced k c (eu_send_event_with chk c m s)"
proof -
  let ?t = "eu_set_status c (c_status (e_cores s c) OR m) s"
  have set: "eu_upholds k s ?t"
    by (intro eu_upholds_frame) (auto simp: eu_announced_def bit_or_iff)
  have chk: "eu_upholds k ?t (chk c ?t)"
    using assms by (simp add: eu_upholding_def)
  show "eu_upholds k s (eu_send_event_with chk c m s)"
    using eu_upholds_trans [OF set chk] by (simp add: eu_send_event_with_def)
  show "eu_announced k c (eu_send_event_with chk c m s)"
    if "bit m k" "eu_announces k s" "c < e_nb_core s"
    using chk that eu_upholds_announces [OF set]
    by (auto simp: eu_send_event_with_def eu_upholds_def eu_announced_def bit_or_iff)
qed

lemma eu_upholding_loop:
  assumes "eu_upholding k chk"
  shows "eu_upholds k s (eu_trigger_loop chk m cm is s)"
proof (induction "is" arbitrary: s)
  case Nil
  then show ?case by simp
next
  case (Cons i "is")
  then show ?case by (auto intro: eu_upholds_trans [OF eu_upholding_send(1) [OF assms]])
qed

lemma eu_upholding_loop_sets:
  assumes "eu_upholding k chk" and "bit m k" and "eu_announces k s"
    and "\<forall>i \<in> set is. i < e_nb_core s" and "i \<in> set is"
  shows "eu_announced k i (eu_trigger_loop chk m (- 1) is s)"
  using assms(3-)
proof (induction "is" arbitrary: s)
  case Nil
  then show ?case by simp
next
  case (Cons a "is")
  have "a < 32" using Cons.prems(1,2) by (simp add: eu_announces_def)
  then have "(- 1 :: u32) AND shl1 (int a) \<noteq> 0" by (auto simp: word_nonzero_bit)
  then have eq: "eu_trigger_loop chk m (- 1) (a # is) s
      = eu_trigger_loop chk m (- 1) is (eu_send_event_with chk a m s)" by simp
  note send = eu_upholding_send [OF assms(1), where s = s and c = a and m = m]
  have t: "eu_announces k (eu_send_event_with chk a m s)"
      "e_nb_core (eu_send_event_with chk a m s) = e_nb_core s"
    using send(1) Cons.prems(1) eu_upholds_announces by (blast, simp add: eu_upholds_def)
  show ?case
  proof (cases "i \<in> set is")
    case True
    then show ?thesis using Cons.IH [OF t(1)] Cons.prems(2) t(2) by (simp only: eq) simp
  next
    case False
    then have "eu_announced k i (eu_send_event_with chk a m s)" "i < e_nb_core s"
      using send(2) [OF assms(2)] Cons.prems by auto
    then show ?thesis
      using eu_upholding_loop [OF assms(1), of "eu_send_event_with chk a m s" m "- 1" "is"] t
      by (simp only: eq) (simp add: eu_upholds_def)
  qed
qed

text \<open>A clear is undone for the announced event by the broadcast that follows it.\<close>

lemma eu_upholding_soc:
  assumes "eu_upholding k chk"
  shows "eu_upholds k t (eu_soc_check_state_with chk t)"
    and "eu_announces k t \<Longrightarrow> j < e_nb_core t \<Longrightarrow> eu_announced k j (eu_soc_check_state_with chk t)"
proof -
  show "eu_upholds k t (eu_soc_check_state_with chk t)"
    by (simp add: eu_soc_check_state_with_def eu_trigger_event_with_def eu_upholding_loop [OF assms])
  show "eu_announced k j (eu_soc_check_state_with chk t)" if t: "eu_announces k t" "j < e_nb_core t"
  proof -
    have "bit (shl1 (int k)) k" using t(1) by (simp add: eu_announces_def)
    moreover have "eu_soc_check_state_with chk t
        = eu_trigger_loop chk (shl1 (int k)) (- 1) [0..<e_nb_core t] t"
      using t(1) by (simp add: eu_soc_check_state_with_def eu_trigger_event_with_def eu_announces_def)
    ultimately show ?thesis
      using eu_upholding_loop_sets [OF assms _ t(1), of "shl1 (int k)" "[0..<e_nb_core t]" j] t(2) by simp
  qed
qed

lemma eu_upholding_clear:
  assumes "eu_upholding k chk"
  shows "eu_upholds k s (eu_clear_status_with chk c m s)"
proof -
  let ?t = "upd_core c (c_status_update (\<lambda>v. v AND NOT m)) s"
  have "eu_announces k ?t = eu_announces k s" by (simp add: eu_announces_def)
  then show ?thesis
    using eu_upholding_soc [OF assms, of ?t] by (simp add: eu_clear_status_with_def eu_upholds_def)
qed

lemma eu_upholds_upd_core:
  "(\<And>cu. bit (c_status cu) k \<Longrightarrow> bit (c_status (f cu)) k) \<Longrightarrow> eu_upholds k s t \<Longrightarrow>
     eu_upholds k s (upd_core c f t)"
  by (auto simp: eu_upholds_def eu_announced_def)

lemma eu_upholding_wait_mask:
  "eu_upholding k chk \<Longrightarrow> eu_upholds k s (eu_check_wait_mask_with chk c s)"
  by (simp add: eu_check_wait_mask_with_def eu_upholding_clear eu_upholds_upd_core)

lemma eu_upholds_start: "eu_upholds k s (eu_wake_start c s)"
  by (rule eu_upholds_frame)
    (auto simp: eu_calm_frame [OF eu_wake_start_calm] eu_announced_def eu_wake_start_cores)

lemma eu_upholds_wakeup: "eu_upholds k s t \<Longrightarrow> eu_upholds k s (eu_enqueue_wakeup c t)"
  by (auto simp: eu_upholds_def eu_announced_def eu_enqueue_wakeup_def)

lemma eu_upholds_rest: "eu_upholds k s (eu_check_rest c s)"
  by (auto simp: eu_upholds_def eu_announced_def eu_check_rest_def
      eu_check_awake_def eu_check_irq_wake_def eu_enqueue_irq_wakeup_def Let_def)

lemma eu_upholding_body:
  assumes "eu_upholding k chk"
  shows "eu_upholding k (eu_check_state_body chk)"
proof -
  have "eu_upholds k s (eu_wake_core_with chk c s)" for c s
    using eu_upholds_trans [OF eu_upholds_start eu_upholding_wait_mask [OF assms], of s c c]
    by (simp add: eu_wake_core_start Let_def eu_upholds_wakeup)
  then show ?thesis by (simp add: eu_upholding_def eu_check_state_body_cases eu_upholds_rest)
qed

lemma eu_check_state_upholding: "eu_upholding k eu_check_state"
proof -
  have "eu_upholding k (eu_check_state_depth (\<lambda>_ s. s) n)" for n
  proof (induction n)
    case 0
    then show ?case by (simp add: eu_upholding_def eu_check_state_depth.simps)
  next
    case (Suc n)
    then show ?case
      using eu_upholding_body by (simp add: eu_upholding_def eu_check_state_depth.simps)
  qed
  then show ?thesis by (simp add: eu_upholding_def eu_check_state_def)
qed

subsection \<open>Operations uphold the announced event\<close>

lemma eu_uphold_check: "eu_upholds k s t \<Longrightarrow> eu_upholds k s (eu_check_state c t)"
  using eu_check_state_upholding [of k] by (auto simp: eu_upholding_def intro: eu_upholds_trans)

lemma eu_uphold_trigger: "eu_upholds k s t \<Longrightarrow> eu_upholds k s (eu_trigger_event m cm t)"
  unfolding eu_trigger_event_def eu_trigger_event_with_def
  by (erule eu_upholds_trans) (rule eu_upholding_loop [OF eu_check_state_upholding])

lemma eu_uphold_clear: "eu_upholds k s t \<Longrightarrow> eu_upholds k s (eu_clear_status c m t)"
  unfolding eu_clear_status_def
  by (erule eu_upholds_trans) (rule eu_upholding_clear [OF eu_check_state_upholding])

lemma eu_uphold_wait_mask: "eu_upholds k s t \<Longrightarrow> eu_upholds k s (eu_check_wait_mask c t)"
  unfolding eu_check_wait_mask_def
  by (erule eu_upholds_trans) (rule eu_upholding_wait_mask [OF eu_check_state_upholding])

text \<open>Changes that touch neither the queue nor a status.\<close>

lemma eu_upholds_simps [simp]:
  "eu_upholds k s (eu_call x t) = eu_upholds k s t"
  "eu_upholds k s (set_req_data r d t) = eu_upholds k s t"
  "eu_upholds k s (upd_mutex i fm t) = eu_upholds k s t"
  "eu_upholds k s (upd_dispatch i fd t) = eu_upholds k s t"
  "eu_upholds k s (upd_barrier i fb t) = eu_upholds k s t"
  "eu_upholds k s (dispatch_next_tail c t) = eu_upholds k s t"
  "eu_upholds k s (t\<lparr>e_dispatch_config := v\<rparr>) = eu_upholds k s t"
  "eu_upholds k s (t\<lparr>e_dispatch_fifo_head := h\<rparr>) = eu_upholds k s t"
  by (simp_all add: eu_upholds_def eu_announced_def upd_mutex_def upd_dispatch_def
      upd_barrier_def dispatch_next_tail_def)

lemma eu_uphold_sleep: "eu_upholds k s t \<Longrightarrow> eu_upholds k s (snd (eu_put_to_sleep c r w t))"
  by (simp add: eu_put_to_sleep_def Let_def eu_upholds_upd_core)

lemma eu_uphold_wait: "eu_upholds k s t \<Longrightarrow> eu_upholds k s (snd (eu_wait_event c r w t))"
  by (simp add: eu_wait_event_def Let_def eu_uphold_sleep eu_upholds_wakeup eu_upholds_upd_core
      eu_uphold_wait_mask)

lemmas eu_upholds_ops = eu_uphold_check eu_uphold_trigger eu_uphold_clear eu_uphold_wait_mask
  eu_upholds_upd_core eu_uphold_sleep eu_uphold_wait

lemma eu_uphold_core_req: "eu_upholds k s t \<Longrightarrow> eu_upholds k s (snd (eu_core_req c r off w t))"
  by (simp add: eu_core_req_def Let_def eu_upholds_ops)

lemma eu_uphold_mutex: "eu_upholds k s t \<Longrightarrow> eu_upholds k s (snd (mutex_req r off w c t))"
  by (auto simp: mutex_req_def Let_def mutex_enqueue_sleep_def mutex_transfer_def eu_upholds_ops
      split: option.splits)

lemma eu_uphold_barrier: "eu_upholds k s t \<Longrightarrow> eu_upholds k s (snd (barrier_req r off w c t))"
  by (auto simp: barrier_req_def Let_def barrier_check_def barrier_arrive_def eu_upholds_ops)

lemma eu_uphold_skip: "eu_upholds k s t \<Longrightarrow> eu_upholds k s (dispatch_skip n c t)"
  by (induction n arbitrary: t) simp_all

lemma eu_uphold_push_loop: "eu_upholds k s t \<Longrightarrow> eu_upholds k s (dispatch_push_loop i m cs t)"
  by (induction cs arbitrary: m t)
    (simp_all add: dispatch_wake_def dispatch_bypass_def dispatch_enqueue_sleep_def Let_def eu_upholds_ops)

lemma eu_uphold_dispatch: "eu_upholds k s t \<Longrightarrow> eu_upholds k s (snd (dispatch_req r off w c t))"
  by (simp add: dispatch_req_def dispatch_push_def dispatch_pop_def dispatch_enqueue_sleep_def Let_def
      eu_upholds_ops eu_uphold_skip eu_uphold_push_loop)

lemma eu_uphold_sw: "eu_upholds k s t \<Longrightarrow> eu_upholds k s (snd (eu_sw_events_req r off w t))"
  by (simp add: eu_sw_events_req_def eu_upholds_ops)

lemma eu_upholds_demux: "eu_upholds k s t \<Longrightarrow> eu_upholds k s (snd (eu_demux_req r off sz w c t))"
  by (simp add: eu_demux_req_def Let_def eu_upholds_upd_core eu_uphold_core_req eu_uphold_mutex
      eu_uphold_dispatch eu_uphold_sw eu_uphold_barrier)

text \<open>A push makes the event known to every core; the other operations keep it or empty the queue.\<close>

definition eu_level :: "nat \<Rightarrow> event_unit \<Rightarrow> bool" where
  "eu_level k s \<longleftrightarrow> e_fifo_soc_event s = int k \<and> k < 32 \<and> e_nb_core s \<le> 32
     \<and> (e_nb_free_events s \<noteq> e_nb_fifo_events s \<longrightarrow> (\<forall>j < e_nb_core s. eu_announced k j s))"

lemma eu_level_upholds: "eu_level k s \<Longrightarrow> eu_upholds k s s' \<Longrightarrow> eu_level k s'"
  by (auto simp: eu_level_def eu_upholds_def eu_announces_def)

lemma eu_level_push:
  assumes "eu_level k s"
  shows "eu_level k (eu_soc_event_sync e s)"
proof (cases "e_nb_free_events s = 0")
  case True
  then show ?thesis using assms by (simp add: eu_push_full)
next
  case False
  define t where "t = s\<lparr>e_nb_free_events := e_nb_free_events s - 1,
      e_fifo_event := (e_fifo_event s)(e_fifo_event_head s := e),
      e_fifo_event_head := ring_next (e_nb_fifo_events s) (e_fifo_event_head s)\<rparr>"
  have eq: "eu_soc_event_sync e s = eu_soc_check_state t"
    using False by (simp add: eu_soc_event_sync_def t_def)
  have t: "e_fifo_soc_event t = int k" "k < 32" "e_nb_core t \<le> 32"
    using assms by (simp_all add: t_def eu_level_def)
  show ?thesis
    using t eu_upholding_soc(2) [OF eu_check_state_upholding, of k t]
    by (auto simp: eq eu_level_def eu_announces_def eu_soc_check_state_def [symmetric])
qed

lemma eu_level_read:
  assumes "eu_level k s"
  shows "eu_level k (snd (eu_soc_ioReq r w s))"
proof (cases "w \<or> e_nb_free_events s = e_nb_fifo_events s")
  case True
  then have "eu_upholds k s (snd (eu_soc_ioReq r w s))" by (auto simp: eu_soc_ioReq_def)
  with assms show ?thesis by (rule eu_level_upholds)
next
  case False
  define t where "t = (set_req_data r (eu_fifo_mark (e_fifo_event s (e_fifo_event_tail s))) s)
      \<lparr>e_fifo_event_tail := ring_next (e_nb_fifo_events s) (e_fifo_event_tail s),
       e_nb_free_events := Suc (e_nb_free_events s)\<rparr>"
  have "eu_level k t"
    using assms False by (simp add: t_def eu_level_def set_req_data_def eu_announced_def)
  moreover have "eu_upholds k t (snd (eu_soc_ioReq r w s))"
    using eu_soc_ioReq_eq [OF _ t_def] False by (auto simp: eu_uphold_trigger)
  ultimately show ?thesis by (rule eu_level_upholds)
qed

lemma eu_level_data [simp]: "eu_level k (set_req_data r d s) = eu_level k s"
  by (simp add: eu_level_def eu_announced_def set_req_data_def)

lemma eu_level_req: "eu_level k s \<Longrightarrow> eu_level k (snd (eu_req r off sz w s))"
  by (simp add: eu_req_def Let_def eu_level_read eu_level_upholds [OF _ eu_uphold_core_req]
      eu_level_upholds [OF _ eu_uphold_sw])

lemma eu_uphold_set_status: "eu_upholds k s (eu_set_status c (c_status (e_cores s c) OR m) s)"
  by (rule eu_upholds_frame) (auto simp: eu_announced_def bit_or_iff)

lemma eu_level_step: "eu_level k s \<Longrightarrow> eu_level k (eu_step op s)"
proof (cases op)
  case (Demux_req r d off sz w c)
  then show "eu_level k s \<Longrightarrow> ?thesis" using eu_upholds_demux by (auto intro: eu_level_upholds)
next
  case (Periph_req r d off sz w)
  then show "eu_level k s \<Longrightarrow> ?thesis" by (simp add: eu_level_req)
next
  case (Soc_event e)
  then show "eu_level k s \<Longrightarrow> ?thesis" by (simp add: eu_level_push)
qed (auto simp: eu_wakeup_handler_def eu_irq_wakeup_handler_def eu_irq_ack_sync_def eu_in_event_sync_def
    Let_def eu_uphold_set_status eu_upholds_upd_core eu_uphold_check eu_uphold_clear
    elim!: eu_level_upholds)

text \<open>
  C9. The event of the queue is level-sensitive: after any sequence of accesses, wires and clock
  events, while the queue holds a SoC event, the queue's event is set in the status of every core.
  Clearing it, acknowledging it as an interrupt or consuming it with a wake-up never loses a queued
  event.
\<close>

theorem eu_queue_event_level:
  assumes "e_fifo_soc_event s = int k" and "k < 32" and "e_nb_core s \<le> 32"
    and "e_nb_free_events s = e_nb_fifo_events s" and "s' = fold eu_step ops s"
    and "e_nb_free_events s' \<noteq> e_nb_fifo_events s'" and "c < e_nb_core s'"
  shows "bit (c_status (e_cores s' c)) k"
proof -
  have "eu_level k (fold eu_step ops t)" if "eu_level k t" for t
    using that by (induction ops arbitrary: t) (simp_all add: eu_level_step)
  moreover have "eu_level k s" using assms(1-4) by (simp add: eu_level_def)
  ultimately show ?thesis using assms(5-) by (simp add: eu_level_def eu_announced_def)
qed

subsection \<open>The order of the events\<close>

definition eu_pushes :: "eu_op \<Rightarrow> u32 option" where
  "eu_pushes op = (case op of Soc_event e \<Rightarrow> Some e | _ \<Rightarrow> None)"

definition eu_pops :: "eu_op \<Rightarrow> nat option" where
  "eu_pops op = (case op of
     Periph_req r d off sz w \<Rightarrow> if 0x700 \<le> off \<and> off < 0x780 \<and> sz = 4 \<and> \<not> w then Some r else None
   | _ \<Rightarrow> None)"

text \<open>The data of the request that reads the queue, once the access returns.\<close>

definition eu_answer :: "eu_op \<Rightarrow> event_unit \<Rightarrow> u32" where
  "eu_answer op s = (case eu_pops op of Some r \<Rightarrow> e_req_data (eu_step op s) r | None \<Rightarrow> 0)"

text \<open>The operations that neither push nor pop uphold the queue.\<close>

lemma eu_uphold_soc_none:
  "w \<or> e_nb_free_events s = e_nb_fifo_events s \<Longrightarrow> eu_upholds k s (snd (eu_soc_ioReq r w s))"
  by (auto simp: eu_soc_ioReq_def)

lemma eu_uphold_req:
  assumes "\<not> (0x700 \<le> off \<and> off < 0x780 \<and> sz = 4 \<and> \<not> w) \<or> e_nb_free_events s = e_nb_fifo_events s"
  shows "eu_upholds k s (snd (eu_req r off sz w s))"
  using assms eu_uphold_soc_none [of w s k r]
  by (auto simp: eu_req_def Let_def eu_uphold_core_req eu_uphold_sw)

lemma eu_uphold_step:
  assumes "eu_pushes op = None" and "eu_pops op = None \<or> e_nb_free_events s = e_nb_fifo_events s"
  shows "eu_upholds k s (eu_step op s)"
proof (cases op)
  case (Demux_req r d off sz w c)
  then show ?thesis using eu_upholds_demux by simp
next
  case (Periph_req r d off sz w)
  have "eu_upholds k (set_req_data r d s) (snd (eu_req r off sz w (set_req_data r d s)))"
    using assms(2) by (intro eu_uphold_req) (auto simp: Periph_req eu_pops_def split: if_splits)
  then show ?thesis
    using eu_upholds_trans [of k s "set_req_data r d s"] by (simp add: Periph_req)
next
  case (Soc_event e)
  then show ?thesis using assms(1) by (simp add: eu_pushes_def)
qed (auto simp: eu_wakeup_handler_def eu_irq_wakeup_handler_def eu_irq_ack_sync_def eu_in_event_sync_def
    Let_def eu_uphold_set_status eu_upholds_upd_core eu_uphold_check eu_uphold_clear)

lemma eu_fifo_empty:
  assumes "eu_fifo_inv s"
  shows "eu_fifo_contents s = [] \<longleftrightarrow> e_nb_free_events s = e_nb_fifo_events s"
  using ring_queue_empty [OF assms [unfolded eu_fifo_inv_def], of "e_fifo_event s"]
  by (simp add: eu_fifo_contents_def)

text \<open>The data a read request comes with does not matter.\<close>

lemma eu_fifo_pop_step:
  assumes "eu_pops op = Some r" and "e_nb_free_events s \<noteq> e_nb_fifo_events s"
  shows "(eu_answer op s, eu_step op s) = eu_fifo_pop r s"
proof -
  obtain d off where op: "op = Periph_req r d off 4 False" "0x700 \<le> off" "off < 0x780"
    using assms(1) by (cases op) (auto simp: eu_pops_def split: if_splits)
  have twice: "set_req_data r x (set_req_data r d s) = set_req_data r x s" for x
    by (simp add: set_req_data_def)
  have "eu_soc_ioReq r False (set_req_data r d s) = eu_soc_ioReq r False s"
    using eu_soc_ioReq_eq [OF _ refl, of "set_req_data r d s" r] eu_soc_ioReq_eq [OF assms(2) refl, of r] assms(2)
    by (simp add: twice)
  then show ?thesis
    using assms(1) op by (simp add: eu_answer_def eu_fifo_pop_def Let_def eu_req_def)
qed

interpretation eu_unit: event_unit_fifo eu_soc_event_sync eu_fifo_mark eu_fifo_pop eu_req_free
    eu_fifo_contents e_nb_fifo_events eu_fifo_inv eu_step eu_pushes eu_pops eu_answer
proof (unfold_locales, goal_cases)
  case (1 s op e)
  then show ?case by (cases op) (simp_all add: eu_pushes_def)
next
  case (2 s op r)
  then show ?case by (intro eu_fifo_pop_step) (simp_all add: eu_fifo_empty)
next
  case (3 op r)
  then show ?case by (cases op) (simp_all add: eu_pops_def eu_pushes_def)
next
  case (4 s op)
  then have "eu_upholds 0 s (eu_step op s)" by (intro eu_uphold_step) (auto simp: eu_fifo_empty)
  with 4(1) show ?case by (simp add: eu_upholds_def eu_fifo_inv_def eu_fifo_contents_def)
qed

text \<open>
  C10. SoC events reach the cluster in the order they were sent: from an empty queue (as a reset
  leaves it), in any interleaving of accesses of the cores and of the peripheral port, wires and
  clock events up to the next reset, what the reads of the queue returned, in order, followed by
  what is still queued, is the list of the events that arrived when the queue was not full, each
  with the valid bit set. (An event that finds the queue full is dropped. The request that reads
  must not be one that a core is still parked on in its wait register.)
\<close>

theorem eu_soc_events_in_order:
  assumes "0 < e_nb_fifo_events s0" and "s = eu_soc_event_reset s0"
    and "ops_allowed eu_step (fifo_read_free eu_pops eu_req_free) ops s"
  shows "op_log eu_step (fifo_taken eu_pops eu_answer eu_fifo_contents) ops s
       @ eu_fifo_contents (fold eu_step ops s)
     = map (\<lambda>e. bit_mask 31 OR e)
         (op_log eu_step (fifo_accepted eu_pushes eu_fifo_contents e_nb_fifo_events) ops s)"
proof -
  have inv: "eu_fifo_inv s"
    using assms(1,2) by (simp add: eu_fifo_inv_def eu_soc_event_reset_def ring_ok_def)
  moreover have "eu_fifo_contents s = []"
    using eu_fifo_empty [OF inv] assms(2) by (simp add: eu_soc_event_reset_def)
  ultimately show ?thesis
    using eu_unit.run_history [OF inv assms(3)] by (simp add: eu_fifo_mark_def [abs_def])
qed

subsection \<open>Witnesses\<close>

lemma eu_fill:
  "length (eu_fifo_contents s) = e_nb_fifo_events s - e_nb_free_events s"
  "e_nb_free_events (eu_soc_event_sync e s) = e_nb_free_events s - 1"
  "e_nb_fifo_events (eu_soc_event_sync e s) = e_nb_fifo_events s"
  "e_nb_free_events (eu_in_event_sync a wire s) = e_nb_free_events s"
  "e_nb_fifo_events (eu_in_event_sync a wire s) = e_nb_fifo_events s"
  by (simp_all add: eu_fifo_contents_def eu_soc_event_sync_def eu_in_event_sync_def Let_def eu_set_status_def)

lemma eu_req_free_wires:
  assumes "eu_req_free r s"
  shows "eu_req_free r (eu_soc_event_sync e s)" and "eu_req_free r (eu_in_event_sync a wire s)"
proof -
  have check: "eu_req_free r (eu_soc_check_state t)" "eu_req_free r (eu_check_state c t)"
    if "eu_req_free r t" for t c
    using that eu_untouched.soc_check_state eu_untouched.check_state by (auto simp: eu_untouched_def)
  show "eu_req_free r (eu_soc_event_sync e s)"
    using assms by (auto simp: eu_soc_event_sync_def intro!: check(1)) (simp add: eu_req_free_def)
  show "eu_req_free r (eu_in_event_sync a wire s)"
    using assms unfolding eu_in_event_sync_def Let_def eu_set_status_def
    by (intro check(2)) (simp add: eu_req_free_def)
qed

text \<open>Two events with an input event of core 1 in between, and a read.\<close>

theorem eu_soc_events_in_order_witness:
  "op_log eu_step (fifo_taken eu_pops eu_answer eu_fifo_contents)
     [Soc_event 3, In_event True 0x10003, Soc_event 4, Periph_req 9 0 0x700 4 False]
     (eu_soc_event_reset eu_example)
   @ eu_fifo_contents (fold eu_step
     [Soc_event 3, In_event True 0x10003, Soc_event 4, Periph_req 9 0 0x700 4 False]
     (eu_soc_event_reset eu_example)) = [0x80000003, 0x80000004]"
proof -
  let ?ops = "[Soc_event 3, In_event True 0x10003, Soc_event 4, Periph_req 9 0 0x700 4 False]"
  let ?s = "eu_soc_event_reset eu_example"
  have room: "e_nb_fifo_events eu_example = 2" "e_nb_fifo_events ?s = 2" "e_nb_free_events ?s = 2"
    by (simp_all add: eu_example_def eu_soc_event_reset_def)
  have "eu_req_free 9 ?s"
    by (simp add: eu_req_free_def eu_soc_event_reset_def) (simp add: eu_example_def core_example_def)
  then have "ops_allowed eu_step (fifo_read_free eu_pops eu_req_free) ?ops ?s"
    by (simp add: fifo_read_free_def eu_pops_def eu_req_free_wires)
  note order = eu_soc_events_in_order [OF _ refl this]
  have "op_log eu_step (fifo_accepted eu_pushes eu_fifo_contents e_nb_fifo_events) ?ops ?s = [3, 4]"
    by (simp add: fifo_accepted_def eu_pushes_def eu_fill room)
  then show ?thesis using order room by (simp add: bit_mask_def del: fold_simps op_log.simps)
qed

theorem eu_queue_event_level_witness:
  "bit (c_status (e_cores (fold eu_step [Soc_event 3, Irq_ack 7 1] eu_example) 1)) 7"
proof -
  have "e_nb_free_events (fold eu_step [Soc_event 3, Irq_ack 7 1] eu_example) = 1"
    "e_nb_fifo_events (fold eu_step [Soc_event 3, Irq_ack 7 1] eu_example) = 2"
    "e_nb_core (fold eu_step [Soc_event 3, Irq_ack 7 1] eu_example) = 4"
    by (simp_all add: eu_soc_event_sync_def eu_irq_ack_sync_def) (simp_all add: eu_example_def)
  then show ?thesis
    using eu_queue_event_level [OF _ _ _ _ refl, of eu_example 7 "[Soc_event 3, Irq_ack 7 1]" 1]
    by (simp del: fold_simps) (simp add: eu_example_def)
qed

end
