(* ===== verification/Soc_Eu.thy ===== *)
theory Soc_Eu
  imports Prelude
begin

section \<open>The SoC event unit (\<open>src/pulp/soc_eu/soc_eu_v2_impl.cpp\<close>)\<close>

text \<open>
  Routes SoC events to the fabric controller, the peripherals and the cluster, each behind a
  256-bit mask, and lets software trigger events. Offsets are those of the component's window
  (below \<open>2 ^ 32\<close>, where the conversions of the code to \<open>int\<close> are exact); the data of a request is
  the list of its bytes, a register is read and written through its little-endian bytes. Events are
  the numbers 0 to 255: for others the code reads outside the mask arrays.
\<close>

subsection \<open>Bytes of a register\<close>

definition word_byte :: "u32 \<Rightarrow> nat \<Rightarrow> u8" where
  "word_byte w i = ucast (drop_bit (8 * i) w)"

definition set_word_byte :: "nat \<Rightarrow> u8 \<Rightarrow> u32 \<Rightarrow> u32" where
  "set_word_byte i b w = (w AND NOT (push_bit (8 * i) 0xff)) OR push_bit (8 * i) (ucast b)"

text \<open>\<open>memcpy\<close> from and to the bytes of a register, starting at byte \<open>i\<close>.\<close>

definition word_read :: "nat \<Rightarrow> nat \<Rightarrow> u32 \<Rightarrow> u8 list" where
  "word_read i n w = map (word_byte w) [i..<i + n]"

fun word_write :: "nat \<Rightarrow> u8 list \<Rightarrow> u32 \<Rightarrow> u32" where
  "word_write i [] w = w"
| "word_write i (b # bs) w = word_write (Suc i) bs (set_word_byte i b w)"

lemma bit_0xff: "bit (0xff :: u32) k \<longleftrightarrow> k < 8"
proof -
  have "(0xff :: u32) = mask 8" by (simp add: mask_eq_exp_minus_1)
  then show ?thesis by (simp only: bit_mask_iff) auto
qed

lemma bit_byte_mask: "bit (push_bit n (0xff :: u32)) k \<longleftrightarrow> n \<le> k \<and> k < n + 8 \<and> k < 32"
  unfolding bit_push_bit_iff bit_0xff by auto

lemma bit_set_word_byte:
  "i < 4 \<Longrightarrow> bit (set_word_byte i b w) k \<longleftrightarrow>
     (if 8 * i \<le> k \<and> k < 8 * i + 8 then bit b (k - 8 * i) else bit w k)"
  unfolding set_word_byte_def bit_or_iff bit_and_iff bit_not_iff bit_byte_mask
  by (auto simp: bit_push_bit_iff bit_ucast_iff dest: bit_imp_le_length)

lemma word_byte_set:
  assumes "i < 4" and "j < 4"
  shows "word_byte (set_word_byte i b w) j = (if j = i then b else word_byte w j)"
proof (rule bit_word_eqI)
  fix k assume "k < LENGTH(8)"
  then show "bit (word_byte (set_word_byte i b w) j) k = bit (if j = i then b else word_byte w j) k"
    using assms by (auto simp: word_byte_def bit_ucast_iff bit_drop_bit_eq bit_set_word_byte)
qed

lemma word_byte_write:
  "i + length bs \<le> 4 \<Longrightarrow> j < 4 \<Longrightarrow>
     word_byte (word_write i bs w) j = (if i \<le> j \<and> j < i + length bs then bs ! (j - i) else word_byte w j)"
proof (induction bs arbitrary: i w)
  case Nil
  then show ?case by auto
next
  case (Cons b bs)
  then show ?case by (cases "j = i") (auto simp: word_byte_set nth_Cons' Suc_diff_Suc)
qed

lemma word_read_write: "i + length bs \<le> 4 \<Longrightarrow> word_read i (length bs) (word_write i bs w) = bs"
  by (rule nth_equalityI) (auto simp: word_read_def word_byte_write)

lemma word_eq_bytes:
  assumes "\<And>j. j < 4 \<Longrightarrow> word_byte v j = word_byte w j"
  shows "v = w"
proof (rule bit_word_eqI)
  fix k assume "k < LENGTH(32)"
  then have "k div 8 < 4" and k: "8 * (k div 8) + k mod 8 = k" by simp_all
  then have "bit (word_byte v (k div 8)) (k mod 8) = bit (word_byte w (k div 8)) (k mod 8)"
    using assms by simp
  then show "bit v k = bit w k" by (simp add: word_byte_def bit_ucast_iff bit_drop_bit_eq k)
qed

lemma word_write_all: "word_write 0 (word_read 0 4 v) w = v"
  by (rule word_eq_bytes) (simp add: word_byte_write word_read_def)

subsection \<open>State\<close>

datatype soc_eu_call = Event_sync nat int | Ref_clock_event_sync

record soc_eu =
  se_event_mask :: "nat \<Rightarrow> nat \<Rightarrow> u32"
  se_bound :: "nat \<Rightarrow> bool"
  se_nb_fc_events :: nat
  se_first_fc_event :: int
  se_ref_clock_event :: int
  se_calls :: "soc_eu_call list"

definition SOC_NB_EVENT_REGS :: nat where
  "SOC_NB_EVENT_REGS = 8"

definition SOC_NB_EVENT_TARGETS :: nat where
  "SOC_NB_EVENT_TARGETS = 3"

text \<open>The targets in the order the constructor pushes them.\<close>

definition TARGET_FC :: nat where "TARGET_FC = 0"
definition TARGET_PR :: nat where "TARGET_PR = 1"
definition TARGET_CL :: nat where "TARGET_CL = 2"

text \<open>The register map of \<open>archi/soc_eu_v2.h\<close>.\<close>

definition SOC_FC_FIRST_MASK :: nat where "SOC_FC_FIRST_MASK = 0x04"
definition SOC_CL_FIRST_MASK :: nat where "SOC_CL_FIRST_MASK = 0x24"
definition SOC_PR_FIRST_MASK :: nat where "SOC_PR_FIRST_MASK = 0x44"

subsection \<open>Operations\<close>

definition soc_eu_reset :: "bool \<Rightarrow> soc_eu \<Rightarrow> soc_eu" where
  "soc_eu_reset active s =
     (if active then s\<lparr>se_event_mask := (\<lambda>t r. if t < SOC_NB_EVENT_TARGETS \<and> r < SOC_NB_EVENT_REGS
                                         then - 1 else se_event_mask s t r)\<rparr>
      else s)"

definition soc_eu_target_event :: "int \<Rightarrow> nat \<Rightarrow> soc_eu \<Rightarrow> soc_eu" where
  "soc_eu_target_event event t s =
     (let word_id = nat (event div 32); bit_id = nat (event mod 32)
      in if drop_bit bit_id (se_event_mask s t word_id) AND 1 = 0 \<and> se_bound s t
         then s\<lparr>se_calls := se_calls s @ [Event_sync t event]\<rparr> else s)"

definition soc_eu_trigger_event :: "int \<Rightarrow> soc_eu \<Rightarrow> soc_eu" where
  "soc_eu_trigger_event event s = fold (soc_eu_target_event event) [TARGET_FC, TARGET_PR, TARGET_CL] s"

text \<open>Only the first byte of the data is looked at, whatever the size of the access.\<close>

definition soc_eu_trigger_event_req ::
    "bool \<Rightarrow> u8 list \<Rightarrow> soc_eu \<Rightarrow> io_status \<times> u8 list \<times> soc_eu" where
  "soc_eu_trigger_event_req is_write data s =
     (if \<not> is_write then (IO_REQ_INVALID, data, s)
      else (IO_REQ_OK, data,
        fold (\<lambda>i s. if bit (hd data) i then soc_eu_trigger_event (int i + se_first_fc_event s) s else s)
          [0..<se_nb_fc_events s] s))"

definition soc_eu_mask_req ::
    "nat \<Rightarrow> nat \<Rightarrow> nat \<Rightarrow> bool \<Rightarrow> u8 list \<Rightarrow> soc_eu \<Rightarrow> io_status \<times> u8 list \<times> soc_eu" where
  "soc_eu_mask_req target_id reg_id reg_offset is_write data s =
     (if \<not> is_write
      then (IO_REQ_OK, word_read reg_offset (length data) (se_event_mask s target_id reg_id), s)
      else (IO_REQ_OK, data, s\<lparr>se_event_mask := (se_event_mask s)(target_id :=
             (se_event_mask s target_id)(reg_id :=
                word_write reg_offset data (se_event_mask s target_id reg_id)))\<rparr>))"

definition soc_eu_req :: "nat \<Rightarrow> bool \<Rightarrow> u8 list \<Rightarrow> soc_eu \<Rightarrow> io_status \<times> u8 list \<times> soc_eu" where
  "soc_eu_req offset is_write data s =
     (let reg_id = offset div 4; reg_offset = offset mod 4
      in if reg_offset + length data > 4 then (IO_REQ_INVALID, data, s)
         else if reg_id = 0 then soc_eu_trigger_event_req is_write data s
         else
           (let target_id = (reg_id - SOC_FC_FIRST_MASK div 4) div SOC_NB_EVENT_REGS;
                target_reg_id = (reg_id - SOC_FC_FIRST_MASK div 4) mod SOC_NB_EVENT_REGS
            in if target_id < SOC_NB_EVENT_TARGETS
               then soc_eu_mask_req target_id target_reg_id reg_offset is_write data s
               else (IO_REQ_INVALID, data, s)))"

definition soc_eu_event_in_sync :: "int \<Rightarrow> soc_eu \<Rightarrow> soc_eu" where
  "soc_eu_event_in_sync event s = soc_eu_trigger_event event s"

definition soc_eu_ref_clock_sync :: "bool \<Rightarrow> soc_eu \<Rightarrow> soc_eu" where
  "soc_eu_ref_clock_sync v s = soc_eu_trigger_event (se_ref_clock_event s)
     (s\<lparr>se_calls := se_calls s @ [Ref_clock_event_sync]\<rparr>)"

subsection \<open>Routing\<close>

text \<open>An event reaches a target when the target is connected and its mask bit is clear.\<close>

definition soc_eu_enabled :: "soc_eu \<Rightarrow> nat \<Rightarrow> nat \<Rightarrow> bool" where
  "soc_eu_enabled s t e \<longleftrightarrow> se_bound s t \<and> \<not> bit (se_event_mask s t (e div 32)) (e mod 32)"

lemma drop_bit_and_1: "drop_bit n (w :: u32) AND 1 = 0 \<longleftrightarrow> \<not> bit w n"
  by (simp add: and_one_eq odd_iff_mod_2_eq_one bit_iff_odd_drop_bit flip: even_iff_mod_2_eq_zero)

lemma soc_eu_target_event_eq:
  "soc_eu_target_event (int e) t s =
     (if soc_eu_enabled s t e then s\<lparr>se_calls := se_calls s @ [Event_sync t (int e)]\<rparr> else s)"
  by (auto simp: soc_eu_target_event_def soc_eu_enabled_def Let_def drop_bit_and_1
      nat_div_distrib nat_mod_distrib)

lemma soc_eu_enabled_calls [simp]: "soc_eu_enabled (s\<lparr>se_calls := cs\<rparr>) t e = soc_eu_enabled s t e"
  by (simp add: soc_eu_enabled_def)

definition soc_eu_sent :: "soc_eu \<Rightarrow> nat \<Rightarrow> soc_eu_call list" where
  "soc_eu_sent s e =
     map (\<lambda>t. Event_sync t (int e)) (filter (\<lambda>t. soc_eu_enabled s t e) [TARGET_FC, TARGET_PR, TARGET_CL])"

lemma soc_eu_trigger_event_eq:
  "soc_eu_trigger_event (int e) s = s\<lparr>se_calls := se_calls s @ soc_eu_sent s e\<rparr>"
  by (simp add: soc_eu_trigger_event_def soc_eu_target_event_eq soc_eu_sent_def)

lemma soc_eu_sent_calls [simp]: "soc_eu_sent (s\<lparr>se_calls := cs\<rparr>) e = soc_eu_sent s e"
  by (simp add: soc_eu_sent_def)

lemma soc_eu_trigger_fold:
  "se_first_fc_event s = int f \<Longrightarrow>
   fold (\<lambda>i s. if P i then soc_eu_trigger_event (int i + se_first_fc_event s) s else s) is s
     = s\<lparr>se_calls := se_calls s @ concat (map (\<lambda>i. soc_eu_sent s (i + f)) (filter P is))\<rparr>"
proof (induction "is" arbitrary: s)
  case Nil
  then show ?case by simp
next
  case (Cons i "is")
  have "soc_eu_trigger_event (int i + int f) s = s\<lparr>se_calls := se_calls s @ soc_eu_sent s (i + f)\<rparr>"
    using soc_eu_trigger_event_eq [of "i + f" s] by simp
  with Cons show ?case by simp
qed

text \<open>
  A software trigger: writing byte \<open>b\<close> to the event register delivers, for each of its set bits
  \<open>i\<close> below the number of software events in increasing order, the event \<open>first + i\<close> to exactly the
  connected targets whose mask bit for it is clear, in the order FC, PR, CL, and changes nothing
  else. Only eight events can be triggered, however many are configured.
\<close>

theorem soc_eu_software_trigger:
  assumes "se_first_fc_event s = int f" and "length bs < 4"
  shows "soc_eu_req 0 True (b # bs) s = (IO_REQ_OK, b # bs, s\<lparr>se_calls := se_calls s @
      concat (map (\<lambda>i. map (\<lambda>t. Event_sync t (int (i + f)))
                     (filter (\<lambda>t. soc_eu_enabled s t (i + f)) [TARGET_FC, TARGET_PR, TARGET_CL]))
                (filter (bit b) [0..<min 8 (se_nb_fc_events s)]))\<rparr>)"
proof -
  have "filter (bit b) [0..<n] = filter (bit b) [0..<min 8 n]" for n
  proof (cases "n \<le> 8")
    case False
    then have "[0..<n] = [0..<8] @ [8..<n]" by (metis le_add_diff_inverse nat_le_linear upt_add_eq_append zero_le)
    moreover have "filter (bit b) [8..<n] = []" by (auto simp: filter_empty_conv dest: bit_imp_le_length)
    ultimately show ?thesis using False by (simp add: min_def)
  qed (simp add: min_def)
  then show ?thesis
    using assms(2) soc_eu_trigger_fold [OF assms(1), of "bit b" "[0..<se_nb_fc_events s]"]
    by (simp add: soc_eu_req_def soc_eu_trigger_event_req_def soc_eu_sent_def)
qed

subsection \<open>The mask registers\<close>

lemma soc_eu_mask_access:
  assumes "t < 3" and "r < 8" and "d < 4" and "d + length data \<le> 4"
  shows "soc_eu_req (4 + 32 * t + 4 * r + d) w data s = soc_eu_mask_req t r d w data s"
proof -
  have "4 + 32 * t + 4 * r + d = d + 4 * (1 + 8 * t + r)" by simp
  then have "(4 + 32 * t + 4 * r + d) div 4 = 1 + 8 * t + r" "(4 + 32 * t + 4 * r + d) mod 4 = d"
    using assms(3) by (simp, metis mod_mult_self2 mod_less)
  with assms show ?thesis
    by (simp add: soc_eu_req_def Let_def SOC_FC_FIRST_MASK_def SOC_NB_EVENT_REGS_def
        SOC_NB_EVENT_TARGETS_def)
qed

text \<open>
  Mask registers at byte granularity: after a write of any bytes inside a register, reading
  the same bytes returns them, the other bytes of the register keep their value, and no other
  register of any target changes.
\<close>

theorem soc_eu_mask_bytes:
  assumes "t < 3" and "r < 8" and "d < 4" and "d + length data \<le> 4"
    and "s' = snd (snd (soc_eu_req (4 + 32 * t + 4 * r + d) True data s))"
    and "length buf = length data"
  shows "fst (soc_eu_req (4 + 32 * t + 4 * r + d) True data s) = IO_REQ_OK
    \<and> soc_eu_req (4 + 32 * t + 4 * r + d) False buf s' = (IO_REQ_OK, data, s')
    \<and> (\<forall>j < 4. \<not> (d \<le> j \<and> j < d + length data) \<longrightarrow>
         word_byte (se_event_mask s' t r) j = word_byte (se_event_mask s t r) j)
    \<and> (\<forall>t' r'. (t', r') \<noteq> (t, r) \<longrightarrow> se_event_mask s' t' r' = se_event_mask s t' r')"
proof -
  have buf: "d + length buf \<le> 4" using assms(4,6) by simp
  note access = soc_eu_mask_access [OF assms(1-3)]
  have s': "fst (soc_eu_req (4 + 32 * t + 4 * r + d) True data s) = IO_REQ_OK" "s' = s\<lparr>se_event_mask := (se_event_mask s)(t := (se_event_mask s t)(r :=
      word_write d data (se_event_mask s t r)))\<rparr>"
    using assms(5) by (simp_all add: access [OF assms(4)] soc_eu_mask_req_def)
  then show ?thesis
    using assms(4,6) access [OF buf, of False s']
    by (simp add: soc_eu_mask_req_def word_read_write word_byte_write)
qed

lemma soc_eu_write_word:
  assumes "t < 3" and "r < 8"
  shows "snd (snd (soc_eu_req (4 + 32 * t + 4 * r) True (word_read 0 4 v) s)) =
    s\<lparr>se_event_mask := (se_event_mask s)(t := (se_event_mask s t)(r := v))\<rparr>"
proof -
  have "length (word_read 0 4 v) = 4" by (simp add: word_read_def)
  then show ?thesis
    using soc_eu_mask_access [OF assms, of 0 "word_read 0 4 v" True s]
    by (simp add: soc_eu_mask_req_def word_write_all)
qed

text \<open>
  A mask register controls exactly its 32 events of its target: after the word \<open>v\<close> is written to
  register \<open>r\<close> of target \<open>t\<close>, the events \<open>32 r + i\<close> reach \<open>t\<close> when it is connected and bit \<open>i\<close> of \<open>v\<close>
  is clear, and every other event reaches every target as before.
\<close>

theorem soc_eu_mask_controls:
  assumes "t < 3" and "r < 8"
    and "s' = snd (snd (soc_eu_req (SOC_FC_FIRST_MASK + 32 * t + 4 * r) True (word_read 0 4 v) s))"
  shows "soc_eu_enabled s' t' e =
    (if t' = t \<and> e div 32 = r then se_bound s t \<and> \<not> bit v (e mod 32) else soc_eu_enabled s t' e)"
  using soc_eu_write_word [OF assms(1,2), of v s] assms(3)
  by (auto simp: SOC_FC_FIRST_MASK_def soc_eu_enabled_def)

text \<open>
  The registers that \<open>archi/soc_eu_v2.h\<close> names as the masks of the cluster and of the peripherals
  are crossed: the targets are created in the order FC, PR, CL while the header places the cluster
  masks before those of the peripherals. Opening all 32 events of a cluster mask register opens them
  on the peripheral port and leaves the cluster port as it was, and the other way round.
\<close>

theorem soc_eu_cluster_masks_crossed:
  assumes "r < 8" and "e div 32 = r" and "se_bound s TARGET_PR" and "se_bound s TARGET_CL"
    and "scl = snd (snd (soc_eu_req (SOC_CL_FIRST_MASK + 4 * r) True (word_read 0 4 0) s))"
    and "spr = snd (snd (soc_eu_req (SOC_PR_FIRST_MASK + 4 * r) True (word_read 0 4 0) s))"
  shows "soc_eu_enabled scl TARGET_PR e \<and> soc_eu_enabled scl TARGET_CL e = soc_eu_enabled s TARGET_CL e
    \<and> soc_eu_enabled spr TARGET_CL e \<and> soc_eu_enabled spr TARGET_PR e = soc_eu_enabled s TARGET_PR e"
  using soc_eu_write_word [of 1 r 0 s] soc_eu_write_word [of 2 r 0 s] assms
  by (simp add: SOC_CL_FIRST_MASK_def SOC_PR_FIRST_MASK_def soc_eu_enabled_def
      TARGET_PR_def TARGET_CL_def)

subsection \<open>Witnesses\<close>

definition soc_eu_example :: soc_eu where
  "soc_eu_example = \<lparr>se_event_mask = (\<lambda>_ _. 0), se_bound = (\<lambda>t. t \<noteq> 1), se_nb_fc_events = 8,
     se_first_fc_event = 48, se_ref_clock_event = 56, se_calls = []\<rparr>"

theorem soc_eu_software_trigger_witness:
  "se_calls (snd (snd (soc_eu_req 0 True [4] soc_eu_example))) = [Event_sync 0 50, Event_sync 2 50]"
proof -
  have "filter (bit (4 :: u8)) [0..<8] = [2]" by (simp add: upt_rec bit_simps)
  then show ?thesis
    using soc_eu_software_trigger [of soc_eu_example 48 "[]" 4]
    by (simp add: soc_eu_enabled_def TARGET_FC_def TARGET_PR_def TARGET_CL_def)
      (simp add: soc_eu_example_def)
qed

theorem soc_eu_mask_bytes_witness:
  "fst (snd (soc_eu_req 0x2a False [0, 0] (snd (snd (soc_eu_req 0x2a True [1, 2] soc_eu_example))))) = [1, 2]"
  using soc_eu_mask_bytes [OF _ _ _ _ refl, of 1 1 2 "[1, 2]" "[0, 0]" soc_eu_example]
  by simp

theorem soc_eu_mask_controls_witness:
  "\<not> soc_eu_enabled (snd (snd (soc_eu_req (SOC_FC_FIRST_MASK + 32 * 2 + 4 * 1) True (word_read 0 4 8)
       soc_eu_example))) 2 35"
  using soc_eu_mask_controls [OF _ _ refl, of 2 1 8 soc_eu_example 2 35]
  by (simp add: bit_simps)

theorem soc_eu_cluster_masks_crossed_witness:
  "soc_eu_enabled (snd (snd (soc_eu_req (SOC_CL_FIRST_MASK + 4 * 1) True (word_read 0 4 0)
       (soc_eu_example\<lparr>se_bound := (\<lambda>_. True)\<rparr>)))) TARGET_PR 33"
  using soc_eu_cluster_masks_crossed [OF _ _ _ _ refl refl, of 1 33 "soc_eu_example\<lparr>se_bound := (\<lambda>_. True)\<rparr>"]
  by simp

end
