(* ===== verification/L1_Interleaver.thy ===== *)
theory L1_Interleaver
  imports Prelude
begin

section \<open>The L1 interleaver (\<open>src/pulp/cluster/l1_interleaver_impl.cpp\<close>)\<close>

text \<open>
  Spreads the cluster's memory over banks in granules of \<open>2 ^ interleaving_bits\<close> bytes. The banks
  are other components: what happens on their ports is the parameter \<open>out\<close> (the timed port) and
  \<open>dbg\<close> (the debug access), functions of the bank and its own state \<open>'m\<close>. The data of a request is
  the list of its bytes.
\<close>

type_synonym 'm bank_port = "nat \<Rightarrow> u64 \<Rightarrow> bool \<Rightarrow> u8 list \<Rightarrow> 'm \<Rightarrow> io_status \<times> u8 list \<times> 'm"
type_synonym 'm bank_debug = "nat \<Rightarrow> u64 \<Rightarrow> u8 list \<Rightarrow> bool \<Rightarrow> 'm \<Rightarrow> bool \<times> u8 list \<times> 'm"

record interleaver =
  il_stage_bits :: nat
  il_bank_mask :: u64
  il_interleaving_bits :: nat
  il_offset_mask :: u64

subsection \<open>Configuration\<close>

fun ilog2 :: "nat \<Rightarrow> nat" where
  "ilog2 n = (if n < 2 then 0 else Suc (ilog2 (n div 2)))"

declare ilog2.simps [simp del]

definition interleaver_new :: "nat \<Rightarrow> nat \<Rightarrow> u64 \<Rightarrow> nat \<Rightarrow> interleaver" where
  "interleaver_new nb_slaves stage_bits offset_mask interleaving_bits =
     (let sb = (if stage_bits = 0 then ilog2 nb_slaves else stage_bits)
      in \<lparr>il_stage_bits = sb, il_bank_mask = push_bit sb 1 - 1,
          il_interleaving_bits = interleaving_bits,
          il_offset_mask = (if offset_mask = 0 then - 1 else offset_mask)\<rparr>)"

subsection \<open>Where a byte lives\<close>

definition il_bank :: "interleaver \<Rightarrow> u64 \<Rightarrow> nat" where
  "il_bank il a = unat (drop_bit (il_interleaving_bits il) a AND il_bank_mask il)"

definition il_bank_offset :: "interleaver \<Rightarrow> u64 \<Rightarrow> u64" where
  "il_bank_offset il a =
     push_bit (il_interleaving_bits il) (drop_bit (il_stage_bits il + il_interleaving_bits il) a)
     + (a AND (push_bit (il_interleaving_bits il) 1 - 1))"

subsection \<open>The timed ports\<close>

definition interleaver_req ::
    "'m bank_port \<Rightarrow> interleaver \<Rightarrow> u64 \<Rightarrow> bool \<Rightarrow> u8 list \<Rightarrow> 'm \<Rightarrow> io_status \<times> u8 list \<times> 'm" where
  "interleaver_req out il offset is_write data m =
     out (il_bank il offset) (il_bank_offset il (offset AND il_offset_mask il)) is_write data m"

text \<open>The test-and-set port: granules of four bytes, and bit 20 of the address is the alias.\<close>

definition il_ts_bank_offset :: "interleaver \<Rightarrow> u64 \<Rightarrow> u64" where
  "il_ts_bank_offset il a =
     (push_bit 2 (drop_bit (il_stage_bits il + 2) a) + (a AND 3))
     AND NOT (push_bit (20 - il_stage_bits il) 1)"

definition interleaver_req_ts ::
    "'m bank_port \<Rightarrow> interleaver \<Rightarrow> u64 \<Rightarrow> bool \<Rightarrow> u8 list \<Rightarrow> 'm \<Rightarrow> io_status \<times> u8 list \<times> 'm" where
  "interleaver_req_ts out il offset is_write data m =
     (let bank_id = il_bank il offset; bank_offset = il_ts_bank_offset il offset
      in if \<not> is_write then
           (case out bank_id bank_offset False data m of
              (err, data', m') \<Rightarrow>
                if err \<noteq> IO_REQ_OK then (err, data', m')
                else (case out bank_id bank_offset True (replicate (length data) 0xff) m' of
                        (err2, _, m'') \<Rightarrow> (err2, data', m'')))
         else out bank_id bank_offset True data m)"

subsection \<open>The debug access\<close>

text \<open>
  \<open>debug_mem_access\<close>: the access is cut at the granules. The loop ends because a chunk is never
  empty (\<open>il_chunk_pos\<close>). The result is whether an access failed, the data and the banks' state.
\<close>

definition il_granule :: "interleaver \<Rightarrow> nat" where
  "il_granule il = 2 ^ il_interleaving_bits il"

definition il_chunk :: "interleaver \<Rightarrow> u64 \<Rightarrow> nat \<Rightarrow> nat" where
  "il_chunk il addr sz = min (il_granule il - unat addr mod il_granule il) sz"

lemma il_chunk_pos: "0 < sz \<Longrightarrow> 0 < il_chunk il addr sz"
  by (simp add: il_chunk_def il_granule_def)

function interleaver_debug ::
    "'m bank_debug \<Rightarrow> interleaver \<Rightarrow> u64 \<Rightarrow> u8 list \<Rightarrow> bool \<Rightarrow> 'm \<Rightarrow> bool \<times> u8 list \<times> 'm" where
  "interleaver_debug dbg il addr data is_write m =
     (if data = [] then (False, [], m)
      else
        (let n = il_chunk il addr (length data)
         in case dbg (il_bank il addr) (il_bank_offset il addr) (take n data) is_write m of
              (err, d, m') \<Rightarrow>
                if err then (True, d @ drop n data, m')
                else (case interleaver_debug dbg il (addr + of_nat n) (drop n data) is_write m' of
                        (e, ds, m'') \<Rightarrow> (e, d @ ds, m''))))"
  by pat_completeness auto

termination
  by (relation "measure (\<lambda>(_, _, _, data, _, _). length data)") (auto simp: Let_def il_chunk_pos)

declare interleaver_debug.simps [simp del]

subsection \<open>The interleaving is a bijection\<close>

definition il_ok :: "interleaver \<Rightarrow> bool" where
  "il_ok il \<longleftrightarrow> il_bank_mask il = push_bit (il_stage_bits il) 1 - 1
     \<and> il_stage_bits il + il_interleaving_bits il < 64"

lemma bit_low_mask [simp]: "bit (2 ^ n - 1 :: u64) k \<longleftrightarrow> k < n \<and> k < 64"
  using bit_mask_iff [of n k, where 'a = u64] by (auto simp: mask_eq_exp_minus_1)

lemma bit_bank:
  assumes "il_ok il"
  shows "bit (il_bank il a) k \<longleftrightarrow> k < il_stage_bits il \<and> bit a (k + il_interleaving_bits il)"
  using assms
  by (auto simp: il_bank_def il_ok_def bit_unsigned_iff bit_and_iff bit_drop_bit_eq ac_simps
      dest: bit_imp_le_length)

lemma bit_bank_offset:
  assumes "il_ok il"
  shows "bit (il_bank_offset il a) k \<longleftrightarrow>
    (if k < il_interleaving_bits il then bit a k else bit a (k + il_stage_bits il))"
proof -
  let ?hi = "push_bit (il_interleaving_bits il) (drop_bit (il_stage_bits il + il_interleaving_bits il) a)"
    and ?lo = "a AND (push_bit (il_interleaving_bits il) 1 - 1)"
  have "?hi + ?lo = ?hi OR ?lo"
    by (rule disjunctive_add_eq_or) (rule bit_word_eqI, auto simp: bit_and_iff bit_push_bit_iff)
  then show ?thesis
    by (auto simp: il_bank_offset_def bit_or_iff bit_and_iff bit_push_bit_iff bit_drop_bit_eq
        ac_simps dest: bit_imp_le_length)
qed

lemma il_bank_less:
  assumes "il_ok il"
  shows "il_bank il a < 2 ^ il_stage_bits il"
proof -
  have "il_bank il a = take_bit (il_stage_bits il) (il_bank il a)"
    by (rule bit_eqI) (auto simp: bit_take_bit_iff bit_bank [OF assms])
  then show ?thesis by (metis take_bit_nat_less_exp)
qed

lemma il_same_place:
  assumes "il_ok il" and eq: "il_bank il a = il_bank il b" "il_bank_offset il a = il_bank_offset il b"
  shows "a = b"
proof (rule bit_word_eqI)
  let ?i = "il_interleaving_bits il" and ?s = "il_stage_bits il"
  fix k assume "k < LENGTH(64)"
  consider "k < ?i" | "?i \<le> k" "k < ?i + ?s" | "?i + ?s \<le> k" by linarith
  then show "bit a k = bit b k"
  proof cases
    case 1
    then show ?thesis using bit_bank_offset [OF assms(1), of _ k] eq(2) by metis
  next
    case 2
    then have "k - ?i + ?i = k" "k - ?i < ?s" by simp_all
    then show ?thesis using bit_bank [OF assms(1), of _ "k - ?i"] eq(1) by metis
  next
    case 3
    then have "k - ?s + ?s = k" "\<not> k - ?s < ?i" by simp_all
    then show ?thesis using bit_bank_offset [OF assms(1), of _ "k - ?s"] eq(2) by metis
  qed
qed

lemma unat_drop_bit_div: "unat (drop_bit n (x :: u64)) = unat x div 2 ^ n"
  by (simp only: unat_drop_bit_eq) (simp only: drop_bit_eq_div)

text \<open>Cutting the memory at a number of whole granules per bank cuts the offsets at it.\<close>

lemma il_bank_offset_less:
  assumes "il_ok il" and "il_granule il dvd n"
  shows "unat (il_bank_offset il a) < n \<longleftrightarrow> unat a < 2 ^ il_stage_bits il * n"
proof -
  let ?i = "il_interleaving_bits il" and ?s = "il_stage_bits il"
  obtain q where n: "n = 2 ^ ?i * q" using assms(2) by (auto simp: il_granule_def)
  have "drop_bit ?i (il_bank_offset il a) = drop_bit (?s + ?i) a"
    by (rule bit_word_eqI) (simp add: bit_drop_bit_eq bit_bank_offset [OF assms(1)] ac_simps)
  then have "unat (il_bank_offset il a) div 2 ^ ?i = unat a div 2 ^ (?s + ?i)"
    by (metis unat_drop_bit_div)
  moreover have "x < n \<longleftrightarrow> x div 2 ^ ?i < q" for x
    by (simp add: n div_less_iff_less_mult mult.commute)
  moreover have "x < 2 ^ ?s * n \<longleftrightarrow> x div 2 ^ (?s + ?i) < q" for x
    by (simp add: n div_less_iff_less_mult power_add ac_simps)
  ultimately show ?thesis by simp
qed

lemma card_unat_less:
  assumes "n \<le> 2 ^ 64"
  shows "finite {a :: u64. unat a < n}" and "card {a :: u64. unat a < n} = n"
proof -
  have "bij_betw (unat :: u64 \<Rightarrow> nat) {a. unat a < n} {..<n}"
  proof (rule bij_betw_imageI)
    show "inj_on (unat :: u64 \<Rightarrow> nat) {a. unat a < n}" by (auto simp: inj_on_def word_unat_eq_iff)
    have "x \<in> unat ` {a :: u64. unat a < n}" if "x < n" for x
    proof
      show "x = unat (of_nat x :: u64)" using that assms by (simp add: unsigned_of_nat take_bit_nat_eq_self)
      then show "(of_nat x :: u64) \<in> {a. unat a < n}" using that by simp
    qed
    then show "unat ` {a :: u64. unat a < n} = {..<n}" by auto
  qed
  then show "finite {a :: u64. unat a < n}" and "card {a :: u64. unat a < n} = n"
    using bij_betw_finite bij_betw_same_card by (auto, fastforce)
qed

definition il_place :: "interleaver \<Rightarrow> u64 \<Rightarrow> nat \<times> u64" where
  "il_place il a = (il_bank il a, il_bank_offset il a)"

text \<open>
  C40. With no offset mask, a request goes to the place of its address, and the interleaving is a
  bijection: the addresses of a memory made of \<open>2 ^ stage_bits\<close> banks of \<open>n\<close> bytes each, a multiple
  of the granule, correspond one to one to the pairs of a bank and an offset below \<open>n\<close> in it.
\<close>

theorem interleaver_bijective:
  assumes "il_ok il" and "il_granule il dvd n" and "2 ^ il_stage_bits il * n \<le> 2 ^ 64"
    and "il_offset_mask il = - 1"
  shows "bij_betw (il_place il) {a. unat a < 2 ^ il_stage_bits il * n}
       ({..<2 ^ il_stage_bits il} \<times> {off. unat off < n})
     \<and> interleaver_req out il a w d m = out (fst (il_place il a)) (snd (il_place il a)) w d m"
proof -
  let ?A = "{a. unat a < 2 ^ il_stage_bits il * n}"
    and ?B = "{..<(2 :: nat) ^ il_stage_bits il} \<times> {off :: u64. unat off < n}"
  have inj: "inj_on (il_place il) ?A"
    using il_same_place [OF assms(1)] by (auto simp: inj_on_def il_place_def)
  have sub: "il_place il ` ?A \<subseteq> ?B"
    using il_bank_less [OF assms(1)] il_bank_offset_less [OF assms(1,2)] by (auto simp: il_place_def)
  have "n \<le> 2 ^ il_stage_bits il * n" by simp
  then have n: "n \<le> 2 ^ 64" using assms(3) by linarith
  have "card (il_place il ` ?A) = card ?B"
    using card_image [OF inj] card_unat_less(2) [OF assms(3)] card_unat_less(2) [OF n]
    by (simp add: card_cartesian_product)
  then have "il_place il ` ?A = ?B"
    using card_subset_eq [OF _ sub] card_unat_less(1) [OF n] by simp
  then show ?thesis
    using inj assms(4) by (simp add: bij_betw_def interleaver_req_def il_place_def)
qed

subsection \<open>The debug access follows the timed path\<close>

lemma il_granule_bits: "il_ok il \<Longrightarrow> unat ((addr :: u64) AND (2 ^ il_interleaving_bits il - 1)) = unat addr mod il_granule il"
proof -
  have "addr AND (2 ^ il_interleaving_bits il - 1) = take_bit (il_interleaving_bits il) addr"
    by (simp add: take_bit_eq_mask mask_eq_exp_minus_1)
  moreover have "unat (take_bit n (x :: u64)) = unat x mod 2 ^ n" for n x
    by (simp only: unsigned_take_bit_eq) (simp only: take_bit_eq_mod)
  ultimately show ?thesis by (simp only: il_granule_def)
qed

lemma il_within_granule:
  fixes addr :: u64
  assumes "il_ok il" and "i < il_granule il - unat addr mod il_granule il"
  shows "unat (addr + of_nat i) = unat addr + i"
    and "(unat addr + i) div il_granule il = unat addr div il_granule il"
    and "(unat addr + i) mod il_granule il = unat addr mod il_granule il + i"
proof -
  let ?g = "il_granule il"
  have g: "0 < ?g" by (simp add: il_granule_def)
  have dvd: "?g dvd 2 ^ 64"
    unfolding il_granule_def by (rule le_imp_power_dvd) (use assms(1) in \<open>simp add: il_ok_def\<close>)
  have i: "unat addr mod ?g + i < ?g" using assms(2) by simp
  have split: "unat addr + i = ?g * (unat addr div ?g) + (unat addr mod ?g + i)" by simp
  show d: "(unat addr + i) div ?g = unat addr div ?g"
    unfolding split using i g by (simp only: div_mult_self4 div_less add_0_right)
  show "(unat addr + i) mod ?g = unat addr mod ?g + i"
    unfolding split using i by (simp only: mod_mult_self4 mod_less)
  obtain k where k: "(2 :: nat) ^ 64 = ?g * k" using dvd by (rule dvdE)
  have "unat addr < ?g * k" using unat_u64_less [of addr] unfolding k .
  then have "unat addr div ?g < k" using g by (simp add: div_less_iff_less_mult ac_simps)
  then have "?g * (unat addr div ?g + 1) \<le> ?g * k" by (intro mult_le_mono2) simp
  then have "?g * (unat addr div ?g) + ?g \<le> ?g * k" by simp
  then have "unat addr + i < ?g * k" using i split by linarith
  then have "unat addr + i < 2 ^ 64" unfolding k .
  then show "unat (addr + of_nat i) = unat addr + i"
    by (simp add: unat_word_ariths unat_of_nat)
qed

lemma il_same_bank:
  assumes "il_ok il" and "i < il_granule il - unat addr mod il_granule il"
  shows "il_bank il (addr + of_nat i) = il_bank il addr"
    and "il_bank_offset il (addr + of_nat i) = il_bank_offset il addr + of_nat i"
proof -
  let ?a = "addr + of_nat i" and ?n = "il_interleaving_bits il"
  note w = il_within_granule [OF assms]
  have "unat (drop_bit ?n ?a) = unat (drop_bit ?n addr)"
    using w(1,2) by (simp only: unat_drop_bit_div il_granule_def)
  then have hi: "drop_bit ?n ?a = drop_bit ?n addr" by (simp only: word_unat_eq_iff)
  then show "il_bank il ?a = il_bank il addr" by (simp add: il_bank_def)
  have hi': "drop_bit (il_stage_bits il + ?n) ?a = drop_bit (il_stage_bits il + ?n) addr"
    using hi by (simp flip: drop_bit_drop_bit)
  have "unat (?a AND (2 ^ ?n - 1)) = unat (addr AND (2 ^ ?n - 1)) + i"
    using w by (simp add: il_granule_bits [OF assms(1)])
  then have "(of_nat (unat (?a AND (2 ^ ?n - 1))) :: u64) = of_nat (unat (addr AND (2 ^ ?n - 1)) + i)"
    by (simp only:)
  then have "?a AND (2 ^ ?n - 1) = (addr AND (2 ^ ?n - 1)) + of_nat i" by simp
  then show "il_bank_offset il ?a = il_bank_offset il addr + of_nat i"
    by (simp add: il_bank_offset_def hi' add.assoc)
qed

text \<open>Banks that only record which of their bytes are accessed.\<close>

definition il_record :: "(nat \<times> u64) list bank_debug" where
  "il_record b off d w m = (False, d, m @ map (\<lambda>i. (b, off + of_nat i)) [0..<length d])"

text \<open>
  The debug access touches, byte by byte and in order, exactly the bank locations the timed
  port sends these bytes to (with no offset mask), wherever it starts and however many granules it
  crosses, and hands the data over unchanged.
\<close>

theorem interleaver_debug_locations:
  assumes "il_ok il"
  shows "interleaver_debug il_record il addr data w m = (False, data, m @
     map (\<lambda>i. (il_bank il (addr + of_nat i), il_bank_offset il (addr + of_nat i))) [0..<length data])"
proof (induction "length data" arbitrary: addr data m rule: less_induct)
  case less
  show ?case
  proof (cases "data = []")
    case True
    then show ?thesis by (simp add: interleaver_debug.simps)
  next
    case False
    let ?n = "il_chunk il addr (length data)"
    let ?loc = "\<lambda>i. (il_bank il (addr + of_nat i), il_bank_offset il (addr + of_nat i))"
    have n: "0 < ?n" "?n \<le> length data" "?n \<le> il_granule il - unat addr mod il_granule il"
      using False il_chunk_pos [of "length data" il addr] by (auto simp: il_chunk_def)
    have here: "map (\<lambda>i. (il_bank il addr, il_bank_offset il addr + of_nat i)) [0..<?n] = map ?loc [0..<?n]"
      using n(3) by (auto simp: il_same_bank [OF assms])
    have rest: "map (\<lambda>i. (il_bank il (addr + of_nat ?n + of_nat i), il_bank_offset il (addr + of_nat ?n + of_nat i)))
        [0..<length data - ?n] = map ?loc [?n..<length data]"
      by (rule nth_equalityI) (simp_all add: add.assoc)
    have "[0..<length data] = [0..<?n] @ [?n..<length data]"
      using n(2) by (metis le_add_diff_inverse upt_add_eq_append zero_le)
    moreover have "length (drop ?n data) < length data" using n False by simp
    note less [OF this, of "addr + of_nat ?n" _]
    ultimately show ?thesis
      using False n(2)
      by (simp add: interleaver_debug.simps [of _ _ addr data] Let_def il_record_def here rest)
  qed
qed

subsection \<open>Test and set\<close>

lemma bit_two_pow: "bit (2 ^ n :: u64) k \<longleftrightarrow> k = n \<and> n < 64"
  by (auto simp: bit_exp_iff)

lemma il_ts_bank_offset_eq:
  "il_ts_bank_offset il a = il_bank_offset (il\<lparr>il_interleaving_bits := 2\<rparr>) a
     AND NOT (push_bit (20 - il_stage_bits il) 1)"
  by (simp add: il_ts_bank_offset_def il_bank_offset_def)

lemma bit_ts_bank_offset:
  assumes "il_ok il" and "il_stage_bits il \<le> 18"
  shows "bit (il_ts_bank_offset il a) k \<longleftrightarrow> k + il_stage_bits il \<noteq> 20
    \<and> (if k < 2 then bit a k else bit a (k + il_stage_bits il))"
proof -
  have "il_ok (il\<lparr>il_interleaving_bits := 2\<rparr>)" using assms by (simp add: il_ok_def)
  note offset = bit_bank_offset [OF this, of a k]
  have "k + il_stage_bits il \<noteq> 20 \<longleftrightarrow> k \<noteq> 20 - il_stage_bits il" using assms(2) by auto
  with offset assms(2) show ?thesis
    by (auto simp: il_ts_bank_offset_eq bit_and_iff bit_not_iff bit_two_pow
        simp del: One_nat_def dest: bit_imp_le_length)
qed

lemma alias_bits:
  assumes "unat (a :: u64) < 2 ^ 20"
  shows "bit (a + 2 ^ 20) k \<longleftrightarrow> bit a k \<or> k = 20" and "bit a k \<Longrightarrow> k < 20"
proof -
  have small: "k < 20" if "bit a k" for k
  proof -
    have "bit (take_bit 20 (unat a)) k"
      using that assms by (simp only: take_bit_nat_eq_self bit_unsigned_iff) (simp add: bit_imp_le_length)
    then show ?thesis by (simp only: bit_take_bit_iff)
  qed
  then show "bit a k \<Longrightarrow> k < 20" .
  define p :: u64 where "p = 2 ^ 20"
  have p: "bit p k \<longleftrightarrow> k = 20" for k unfolding p_def bit_two_pow by simp
  have "a AND p = 0" by (rule bit_word_eqI) (use small in \<open>auto simp: bit_and_iff p\<close>)
  then have eq: "a + p = a OR p" by (rule disjunctive_add_eq_or)
  show "bit (a + 2 ^ 20) k \<longleftrightarrow> bit a k \<or> k = 20"
    unfolding p_def [symmetric] eq by (simp add: bit_or_iff p)
qed

text \<open>
  With word granules, a test-and-set read through the alias at bit 20 of an address reads
  exactly the bank location of the plain access, and when the read succeeds writes all ones there:
  a lock taken through the alias is seen at the plain address.
\<close>

theorem interleaver_ts_alias:
  assumes "il_ok il" and "il_interleaving_bits il = 2" and "il_stage_bits il \<le> 18"
    and "il_offset_mask il = - 1" and "unat a < 2 ^ 20"
  shows "interleaver_req_ts out il (a + 2 ^ 20) False data m =
    (case interleaver_req out il a False data m of
       (err, data', m') \<Rightarrow>
         if err \<noteq> IO_REQ_OK then (err, data', m')
         else (case interleaver_req out il a True (replicate (length data) 0xff) m' of
                 (err2, _, m'') \<Rightarrow> (err2, data', m'')))"
proof -
  define x where "x = a + 2 ^ 20"
  have bits: "bit x k \<longleftrightarrow> bit a k \<or> k = 20" "bit a k \<Longrightarrow> k < 20" for k
    using alias_bits [OF assms(5)] by (simp_all add: x_def)
  have "il_bank il x = il_bank il a"
    by (rule bit_eqI) (use assms(2,3) bits(1) in \<open>auto simp: bit_bank [OF assms(1)]\<close>)
  moreover have "il_ts_bank_offset il x = il_bank_offset il a"
  proof (rule bit_word_eqI)
    fix k
    show "bit (il_ts_bank_offset il x) k = bit (il_bank_offset il a) k"
    proof (cases "k < 2")
      case True
      then show ?thesis
        using assms(2,3) bits(1) by (simp add: bit_ts_bank_offset [OF assms(1,3)] bit_bank_offset [OF assms(1)])
    next
      case False
      moreover have "\<not> bit a 20" using bits(2) [of 20] by auto
      ultimately show ?thesis
        using assms(2) bits(1) [of "k + il_stage_bits il"]
        by (cases "k + il_stage_bits il = 20")
          (simp_all add: bit_ts_bank_offset [OF assms(1,3)] bit_bank_offset [OF assms(1)])
    qed
  qed
  moreover have "interleaver_req out il a = out (il_bank il a) (il_bank_offset il a)"
    using assms(4) by (simp add: interleaver_req_def fun_eq_iff)
  ultimately show ?thesis by (simp add: interleaver_req_ts_def Let_def x_def split: prod.split)
qed

text \<open>
  The test-and-set port assumes granules of four bytes whatever the configuration: with larger
  granules, the words at addresses 0 and 4 are different locations for plain accesses but the same
  location for test-and-set, so locks at the two words exclude each other.
\<close>

theorem interleaver_ts_large_granules:
  assumes "il_ok il" and "3 \<le> il_interleaving_bits il" and "0 < il_stage_bits il" and "il_stage_bits il \<le> 18"
  shows "(il_bank il 4, il_ts_bank_offset il 4) = (il_bank il 0, il_ts_bank_offset il 0)
    \<and> (il_bank il 4, il_bank_offset il 4) \<noteq> (il_bank il 0, il_bank_offset il 0)"
proof -
  define w :: u64 where "w = 4"
  have "w = 2 ^ 2" by (simp add: w_def)
  then have four: "bit w k \<longleftrightarrow> k = 2" for k by (simp only: bit_two_pow) auto
  have "il_bank il w = il_bank il 0"
    by (rule bit_eqI) (use assms(2) in \<open>auto simp: bit_bank [OF assms(1)] four\<close>)
  moreover have "il_ts_bank_offset il w = il_ts_bank_offset il 0"
    by (rule bit_word_eqI) (use assms(3) in \<open>auto simp: bit_ts_bank_offset [OF assms(1,4)] four\<close>)
  moreover have "(il_bank il w, il_bank_offset il w) \<noteq> (il_bank il 0, il_bank_offset il 0)"
  proof
    assume "(il_bank il w, il_bank_offset il w) = (il_bank il 0, il_bank_offset il 0)"
    then have "bit (il_bank_offset il w) 2 = bit (il_bank_offset il 0) 2" by simp
    with assms(2) show False by (simp add: bit_bank_offset [OF assms(1)] four)
  qed
  ultimately show ?thesis by (simp add: w_def)
qed

subsection \<open>Witnesses\<close>

definition interleaver_example :: interleaver where
  "interleaver_example = interleaver_new 16 0 0 2"

lemma interleaver_example_eq:
  "interleaver_example = \<lparr>il_stage_bits = 4, il_bank_mask = 15, il_interleaving_bits = 2, il_offset_mask = - 1\<rparr>"
  by (simp add: interleaver_example_def interleaver_new_def Let_def ilog2.simps)

lemma interleaver_example_ok: "il_ok interleaver_example"
  by (simp add: interleaver_example_eq il_ok_def)

text \<open>Sixteen banks of 1024 bytes.\<close>

theorem interleaver_bijective_witness:
  "bij_betw (il_place interleaver_example) {a. unat a < 16384} ({..<16} \<times> {off. unat off < 1024})"
proof -
  have "il_granule interleaver_example dvd 1024" "2 ^ il_stage_bits interleaver_example * 1024 = (16384 :: nat)"
    "il_offset_mask interleaver_example = - 1" "(2 :: nat) ^ il_stage_bits interleaver_example = 16"
    by (simp_all add: interleaver_example_eq il_granule_def)
  then show ?thesis
    using interleaver_bijective [OF interleaver_example_ok, of 1024, THEN conjunct1] by simp
qed

theorem interleaver_debug_locations_witness:
  "fst (interleaver_debug il_record interleaver_example 3 [1, 2, 3] True []) = False"
  using interleaver_debug_locations [OF interleaver_example_ok, of 3 "[1, 2, 3]" True "[]"] by simp

theorem interleaver_ts_alias_witness:
  "interleaver_req_ts (\<lambda>b off w d m. (IO_REQ_OK, d, m @ [(b, off, w)])) interleaver_example (8 + 2 ^ 20)
     False [0] [] = (IO_REQ_OK, [0], [(2, 0, False), (2, 0, True)])"
  by (subst interleaver_ts_alias [OF interleaver_example_ok])
    (simp_all add: interleaver_example_eq interleaver_req_def il_bank_def il_bank_offset_def)

theorem interleaver_ts_large_granules_witness:
  "il_ts_bank_offset (interleaver_new 16 0 0 4) 4 = il_ts_bank_offset (interleaver_new 16 0 0 4) 0"
  using interleaver_ts_large_granules [of "interleaver_new 16 0 0 4"]
  by (simp add: interleaver_new_def il_ok_def Let_def ilog2.simps)

end
