(* ===== verification/Cluster_Ctrl.thy ===== *)
theory Cluster_Ctrl
  imports Prelude
begin

section \<open>The cluster controller (\<open>src/pulp/cluster/cluster_ctrl_v2_impl.cpp\<close>)\<close>

text \<open>
  Boot addresses and fetch enables of the cores, and the cross-trigger of the debug halts: when a
  core of the halt mask halts, the others of the mask are halted. Calls on the cores' ports are
  appended to \<open>cc_calls\<close>. The data word of a request is an argument and a result.
\<close>

datatype cluster_ctrl_call = Fetchen_sync nat bool | Bootaddr_sync nat u32 | Halt_sync nat bool

record cluster_ctrl =
  cc_nb_core :: nat
  cc_bootaddr :: "nat \<Rightarrow> u32"
  cc_dbg_halt_mask :: u32
  cc_dbg_halt_status :: u32
  cc_dbg_halt_status_sync :: u32
  cc_calls :: "cluster_ctrl_call list"

definition cluster_ctrl_call :: "cluster_ctrl_call \<Rightarrow> cluster_ctrl \<Rightarrow> cluster_ctrl" where
  "cluster_ctrl_call x s = s\<lparr>cc_calls := cc_calls s @ [x]\<rparr>"

subsection \<open>Cross-triggered halts\<close>

text \<open>The loop that tells the cores whose halt status changed.\<close>

fun halt_sync_loop :: "u32 \<Rightarrow> nat list \<Rightarrow> cluster_ctrl \<Rightarrow> cluster_ctrl" where
  "halt_sync_loop old [] s = s"
| "halt_sync_loop old (i # is) s =
     (let current_status = bit (cc_dbg_halt_status s) i; sync_status = bit old i
      in halt_sync_loop old is
           (if current_status \<noteq> sync_status
            then cluster_ctrl_call (Halt_sync i current_status)
                   (s\<lparr>cc_dbg_halt_status_sync := cc_dbg_halt_status_sync s
                        OR (if current_status then shl1 (int i) else 0)\<rparr>)
            else s))"

definition check_dbg_halt :: "cluster_ctrl \<Rightarrow> cluster_ctrl" where
  "check_dbg_halt s =
     (let trig_mask = cc_dbg_halt_status s AND cc_dbg_halt_mask s;
          s1 = (if trig_mask \<noteq> 0 \<and> trig_mask \<noteq> cc_dbg_halt_mask s
                then s\<lparr>cc_dbg_halt_status := cc_dbg_halt_status s OR cc_dbg_halt_mask s\<rparr> else s)
      in if cc_dbg_halt_status s1 \<noteq> cc_dbg_halt_status_sync s1
         then halt_sync_loop (cc_dbg_halt_status_sync s1) [0..<cc_nb_core s1]
                (s1\<lparr>cc_dbg_halt_status_sync := cc_dbg_halt_status s1\<rparr>)
         else s1)"

definition halt_status_sync :: "bool \<Rightarrow> nat \<Rightarrow> cluster_ctrl \<Rightarrow> cluster_ctrl" where
  "halt_status_sync status c s =
     (let put = (\<lambda>w. (w AND NOT (shl1 (int c))) OR (if status then shl1 (int c) else 0));
          s1 = s\<lparr>cc_dbg_halt_status := put (cc_dbg_halt_status s)\<rparr>;
          s2 = s1\<lparr>cc_dbg_halt_status_sync := put (cc_dbg_halt_status s1)\<rparr>
      in if status then check_dbg_halt s2 else s2)"

subsection \<open>Registers\<close>

definition dbg_halt_status_req :: "bool \<Rightarrow> u32 \<Rightarrow> cluster_ctrl \<Rightarrow> io_status \<times> u32 \<times> cluster_ctrl" where
  "dbg_halt_status_req is_write data s =
     (if is_write
      then (IO_REQ_OK, data, check_dbg_halt (s\<lparr>cc_dbg_halt_status := cc_dbg_halt_status s AND NOT data\<rparr>))
      else (IO_REQ_OK, cc_dbg_halt_status s, s))"

definition dbg_halt_mask_req :: "bool \<Rightarrow> u32 \<Rightarrow> cluster_ctrl \<Rightarrow> io_status \<times> u32 \<times> cluster_ctrl" where
  "dbg_halt_mask_req is_write data s =
     (if is_write then (IO_REQ_OK, data, check_dbg_halt (s\<lparr>cc_dbg_halt_mask := data\<rparr>))
      else (IO_REQ_OK, cc_dbg_halt_mask s, s))"

definition fetch_en_req :: "bool \<Rightarrow> u32 \<Rightarrow> cluster_ctrl \<Rightarrow> io_status \<times> u32 \<times> cluster_ctrl" where
  "fetch_en_req is_write data s =
     (IO_REQ_OK, data,
      fold (\<lambda>i. cluster_ctrl_call (Fetchen_sync i (bit data i))) [0..<cc_nb_core s] s)"

definition bootaddr_req :: "nat \<Rightarrow> bool \<Rightarrow> u32 \<Rightarrow> cluster_ctrl \<Rightarrow> io_status \<times> u32 \<times> cluster_ctrl" where
  "bootaddr_req core is_write data s =
     (if is_write
      then (IO_REQ_OK, data,
        (cluster_ctrl_call (Bootaddr_sync core data) s)\<lparr>cc_bootaddr := (cc_bootaddr s)(core := data)\<rparr>)
      else (IO_REQ_OK, cc_bootaddr s core, s))"

definition cluster_ctrl_req ::
    "nat \<Rightarrow> nat \<Rightarrow> bool \<Rightarrow> u32 \<Rightarrow> cluster_ctrl \<Rightarrow> io_status \<times> u32 \<times> cluster_ctrl" where
  "cluster_ctrl_req offset sz is_write data s =
     (if sz \<noteq> 4 then (IO_REQ_INVALID, data, s)
      else if offset = 0x8 then fetch_en_req is_write data s
      else if 0x40 \<le> offset \<and> offset < 0x40 + 4 * cc_nb_core s
      then bootaddr_req ((offset - 0x40) div 4) is_write data s
      else if offset = 0x10 then (IO_REQ_OK, data, s)
      else if offset = 0x18 then (IO_REQ_OK, data, s)
      else if offset = 0x20 then (IO_REQ_OK, data, s)
      else if offset = 0x28 then dbg_halt_status_req is_write data s
      else if offset = 0x38 then dbg_halt_mask_req is_write data s
      else (IO_REQ_INVALID, data, s))"

definition cluster_ctrl_reset :: "bool \<Rightarrow> cluster_ctrl \<Rightarrow> cluster_ctrl" where
  "cluster_ctrl_reset active s =
     (if active then s\<lparr>cc_dbg_halt_mask := 0, cc_dbg_halt_status := 0, cc_dbg_halt_status_sync := 0\<rparr>
      else s)"

subsection \<open>What the cores are told\<close>

definition halt_changes :: "nat \<Rightarrow> u32 \<Rightarrow> u32 \<Rightarrow> cluster_ctrl_call list" where
  "halt_changes n old new =
     map (\<lambda>i. Halt_sync i (bit new i)) (filter (\<lambda>i. bit new i \<noteq> bit old i) [0..<n])"

lemma or_own_bit: "bit (w :: u32) i \<Longrightarrow> w OR bit_mask i = w"
  by (rule bit_word_eqI) (auto simp: bit_or_iff)

lemma halt_sync_loop_eq:
  "cc_dbg_halt_status_sync s = cc_dbg_halt_status s \<Longrightarrow> \<forall>i \<in> set is. i < 32 \<Longrightarrow>
   halt_sync_loop old is s = s\<lparr>cc_calls := cc_calls s
     @ map (\<lambda>i. Halt_sync i (bit (cc_dbg_halt_status s) i))
         (filter (\<lambda>i. bit (cc_dbg_halt_status s) i \<noteq> bit old i) is)\<rparr>"
  by (induction "is" arbitrary: s) (auto simp: Let_def cluster_ctrl_call_def or_own_bit)

text \<open>The halt status a check settles on.\<close>

definition halt_settled :: "u32 \<Rightarrow> u32 \<Rightarrow> u32" where
  "halt_settled hm status = (if status AND hm \<noteq> 0 then status OR hm else status)"

lemma or_of_and_eq: "status AND hm = hm \<Longrightarrow> status OR hm = (status :: u32)"
  by (rule bit_word_eqI) (metis bit_and_iff bit_or_iff)

lemma halt_settled_eq:
  "halt_settled hm status =
     (if status AND hm \<noteq> 0 \<and> status AND hm \<noteq> hm then status OR hm else status)"
  by (auto simp: halt_settled_def or_of_and_eq)

lemma missing_bit:
  assumes "data AND hm = data" and "data \<noteq> (hm :: u32)"
  shows "hm AND NOT data \<noteq> 0"
proof -
  have "data = hm" if "\<And>i. i < 32 \<Longrightarrow> \<not> bit (hm AND NOT data) i"
  proof (rule bit_word_eqI)
    fix i assume "i < LENGTH(32)"
    then have "bit hm i \<Longrightarrow> bit data i" using that [of i] by (auto simp: bit_and_iff bit_not_iff)
    moreover have "bit data i \<Longrightarrow> bit hm i" using assms(1) by (metis bit_and_iff)
    ultimately show "bit data i = bit hm i" by blast
  qed
  with assms(2) show ?thesis unfolding word_nonzero_bit by blast
qed

lemma check_dbg_halt_eq:
  assumes "cc_nb_core s \<le> 32"
  shows "check_dbg_halt s = (let new = halt_settled (cc_dbg_halt_mask s) (cc_dbg_halt_status s)
     in s\<lparr>cc_dbg_halt_status := new, cc_dbg_halt_status_sync := new,
          cc_calls := cc_calls s @ halt_changes (cc_nb_core s) (cc_dbg_halt_status_sync s) new\<rparr>)"
proof -
  define new where "new = halt_settled (cc_dbg_halt_mask s) (cc_dbg_halt_status s)"
  have s1: "(if cc_dbg_halt_status s AND cc_dbg_halt_mask s \<noteq> 0
        \<and> cc_dbg_halt_status s AND cc_dbg_halt_mask s \<noteq> cc_dbg_halt_mask s
      then s\<lparr>cc_dbg_halt_status := cc_dbg_halt_status s OR cc_dbg_halt_mask s\<rparr> else s)
    = s\<lparr>cc_dbg_halt_status := new\<rparr>"
    by (simp add: new_def halt_settled_eq)
  have "halt_changes n w w = []" for n w by (simp add: halt_changes_def)
  then show ?thesis
    using assms unfolding check_dbg_halt_def Let_def s1 new_def [symmetric]
    by (cases "new = cc_dbg_halt_status_sync s") (simp_all add: halt_sync_loop_eq halt_changes_def)
qed

definition cluster_ctrl_ok :: "cluster_ctrl \<Rightarrow> bool" where
  "cluster_ctrl_ok s \<longleftrightarrow> cc_nb_core s \<le> 32 \<and> cc_dbg_halt_status_sync s = cc_dbg_halt_status s"

text \<open>
  Cross-trigger: when a core reports that it halts, the halt status becomes the old status with
  that core and, if one of the halt mask is now halted, all of the halt mask; exactly the cores that
  this newly halts are told to halt, once each, and the status told to the cores is up to date.
\<close>

theorem cluster_ctrl_cross_trigger:
  assumes "cc_nb_core s \<le> 32" and "c < 32"
    and "new = halt_settled (cc_dbg_halt_mask s) (cc_dbg_halt_status s OR shl1 (int c))"
    and "s' = halt_status_sync True c s"
  shows "cc_dbg_halt_status s' = new \<and> cluster_ctrl_ok s'
    \<and> cc_calls s' = cc_calls s @ map (\<lambda>i. Halt_sync i True)
        (filter (\<lambda>i. bit new i \<and> \<not> bit (cc_dbg_halt_status s) i \<and> i \<noteq> c) [0..<cc_nb_core s])"
proof -
  have put: "(w AND NOT (bit_mask c)) OR bit_mask c = w OR bit_mask c" for w :: u32
    by (rule bit_word_eqI) (auto simp: bit_or_iff bit_and_iff bit_not_iff)
  let ?w = "cc_dbg_halt_status s OR bit_mask c"
  define t where "t = s\<lparr>cc_dbg_halt_status := ?w, cc_dbg_halt_status_sync := ?w\<rparr>"
  have t: "s' = check_dbg_halt t"
    using assms(2,4) by (simp add: halt_status_sync_def Let_def t_def put or.assoc)
  have grow: "bit ?w i \<Longrightarrow> bit new i" for i
    using assms(2,3) by (simp add: halt_settled_def bit_or_iff)
  have "halt_changes (cc_nb_core s) ?w new = map (\<lambda>i. Halt_sync i True)
      (filter (\<lambda>i. bit new i \<and> \<not> bit (cc_dbg_halt_status s) i \<and> i \<noteq> c) [0..<cc_nb_core s])"
    unfolding halt_changes_def
    using grow assms(1,2) by (auto simp: bit_or_iff intro!: map_cong filter_cong)
  then show ?thesis
    using assms(1-3) by (simp add: t check_dbg_halt_eq t_def Let_def cluster_ctrl_ok_def)
qed

text \<open>
  A core of the halt mask cannot be resumed alone: with the whole mask halted, asking through
  the status register to resume some but not all of its cores changes nothing, and no core is told
  to resume; asking for all of them resumes exactly those.
\<close>

theorem cluster_ctrl_resume:
  assumes "cluster_ctrl_ok s" and "cc_dbg_halt_status s = cc_dbg_halt_mask s"
    and "data AND cc_dbg_halt_mask s = data"
    and "s' = snd (snd (cluster_ctrl_req 0x28 4 True data s))"
  shows "(data \<noteq> cc_dbg_halt_mask s \<longrightarrow> s' = s)
    \<and> (data = cc_dbg_halt_mask s \<longrightarrow> cc_dbg_halt_status s' = 0
        \<and> cc_calls s' = cc_calls s @ map (\<lambda>i. Halt_sync i False)
            (filter (bit (cc_dbg_halt_mask s)) [0..<cc_nb_core s]))"
proof -
  let ?m = "cc_dbg_halt_mask s"
  define t where "t = s\<lparr>cc_dbg_halt_status := ?m AND NOT data\<rparr>"
  have t: "s' = check_dbg_halt t"
    using assms by (simp_all add: cluster_ctrl_req_def dbg_halt_status_req_def t_def cluster_ctrl_ok_def)
  have m: "(?m AND NOT data) OR ?m = ?m" and mm: "(?m AND NOT data) AND ?m = ?m AND NOT data"
    by (simp_all add: or_of_and_eq [of ?m ?m] and.assoc ac_simps)
  have "s' = s" if "data \<noteq> ?m"
  proof -
    have "?m AND NOT data \<noteq> 0"
      using that missing_bit [OF assms(3)] by blast
    then have "halt_settled ?m (?m AND NOT data) = ?m" by (simp add: halt_settled_def m mm)
    then show ?thesis
      using assms(1,2) by (cases s) (simp add: t check_dbg_halt_eq t_def Let_def cluster_ctrl_ok_def
          halt_changes_def)
  qed
  moreover have "cc_dbg_halt_status s' = 0 \<and> cc_calls s' = cc_calls s @ map (\<lambda>i. Halt_sync i False)
            (filter (bit ?m) [0..<cc_nb_core s])" if "data = ?m"
  proof -
    have "halt_settled ?m (?m AND NOT data) = 0" using that by (simp add: halt_settled_def)
    then show ?thesis
      using assms(1,2) by (simp add: t check_dbg_halt_eq t_def Let_def cluster_ctrl_ok_def
          halt_changes_def)
  qed
  ultimately show ?thesis by blast
qed

subsection \<open>Witnesses\<close>

definition cluster_ctrl_example :: cluster_ctrl where
  "cluster_ctrl_example = \<lparr>cc_nb_core = 8, cc_bootaddr = (\<lambda>_. 0x57575757), cc_dbg_halt_mask = 3,
     cc_dbg_halt_status = 0, cc_dbg_halt_status_sync = 0, cc_calls = []\<rparr>"

theorem cluster_ctrl_cross_trigger_witness:
  "cc_dbg_halt_status (halt_status_sync True 1 cluster_ctrl_example) = 3"
  using cluster_ctrl_cross_trigger [OF _ _ refl refl, of cluster_ctrl_example 1]
  by (simp add: cluster_ctrl_example_def halt_settled_def shl1_def bit_mask_def)

theorem cluster_ctrl_resume_witness:
  "snd (snd (cluster_ctrl_req 0x28 4 True 1
     (cluster_ctrl_example\<lparr>cc_dbg_halt_status := 3, cc_dbg_halt_status_sync := 3\<rparr>)))
   = cluster_ctrl_example\<lparr>cc_dbg_halt_status := 3, cc_dbg_halt_status_sync := 3\<rparr>"
  using cluster_ctrl_resume [OF _ _ _ refl,
      of "cluster_ctrl_example\<lparr>cc_dbg_halt_status := 3, cc_dbg_halt_status_sync := 3\<rparr>" 1]
  by (simp add: cluster_ctrl_ok_def cluster_ctrl_example_def)

end
