(* ===== verification/Gpio.thy ===== *)
theory Gpio
  imports Prelude
begin

section \<open>The GPIO controller (\<open>src/pulp/gpio/gpio_v3_impl.cpp\<close>)\<close>

text \<open>
  Up to 32 pads. The registers are objects of the simulator framework, whose \<open>access\<close> method copies
  bytes between a request and the register; it is the parameter \<open>acc\<close> of the operations, given the
  byte offset, the data, whether it writes and the register, returning the data and the register.
  Calls on the pads, the event and the interrupt ports are appended to \<open>g_calls\<close>.
\<close>

type_synonym reg_access = "nat \<Rightarrow> u8 list \<Rightarrow> bool \<Rightarrow> u32 \<Rightarrow> u8 list \<times> u32"

datatype gpio_call = Gpio_sync nat bool | Event_sync int | Irq_sync

record gpio =
  g_nb_gpio :: nat
  g_soc_event :: int
  g_paddir :: u32
  g_padin :: u32
  g_padout :: u32
  g_inten :: u32
  g_inttype0 :: u32
  g_inttype1 :: u32
  g_intstatus :: u32
  g_gpioen :: u32
  g_padcfg :: "nat \<Rightarrow> u32"
  g_gpio_bound :: "nat \<Rightarrow> bool"
  g_event_bound :: bool
  g_irq_bound :: bool
  g_calls :: "gpio_call list"

definition gpio_call :: "gpio_call \<Rightarrow> gpio \<Rightarrow> gpio" where
  "gpio_call x s = s\<lparr>g_calls := g_calls s @ [x]\<rparr>"

subsection \<open>Registers\<close>

definition paddir_req :: "reg_access \<Rightarrow> nat \<Rightarrow> bool \<Rightarrow> u8 list \<Rightarrow> gpio \<Rightarrow> io_status \<times> u8 list \<times> gpio" where
  "paddir_req acc off w d s = (case acc off d w (g_paddir s) of (d', r) \<Rightarrow> (IO_REQ_OK, d', s\<lparr>g_paddir := r\<rparr>))"

definition padin_req :: "reg_access \<Rightarrow> nat \<Rightarrow> bool \<Rightarrow> u8 list \<Rightarrow> gpio \<Rightarrow> io_status \<times> u8 list \<times> gpio" where
  "padin_req acc off w d s = (case acc off d w (g_padin s) of (d', r) \<Rightarrow> (IO_REQ_OK, d', s\<lparr>g_padin := r\<rparr>))"

fun padout_loop :: "u32 \<Rightarrow> u32 \<Rightarrow> nat list \<Rightarrow> gpio \<Rightarrow> gpio" where
  "padout_loop changed new_val [] s = s"
| "padout_loop changed new_val (i # is) s =
     padout_loop changed new_val is
       (if bit changed i \<and> g_gpio_bound s i then gpio_call (Gpio_sync i (bit new_val i)) s else s)"

definition padout_req :: "reg_access \<Rightarrow> nat \<Rightarrow> bool \<Rightarrow> u8 list \<Rightarrow> gpio \<Rightarrow> io_status \<times> u8 list \<times> gpio" where
  "padout_req acc off w d s =
     (let old_val = g_padout s
      in case acc off d w old_val of
           (d', new_val) \<Rightarrow>
             (IO_REQ_OK, d',
              padout_loop (old_val XOR new_val) new_val [0..<g_nb_gpio s] (s\<lparr>g_padout := new_val\<rparr>)))"

definition inten_req :: "reg_access \<Rightarrow> nat \<Rightarrow> bool \<Rightarrow> u8 list \<Rightarrow> gpio \<Rightarrow> io_status \<times> u8 list \<times> gpio" where
  "inten_req acc off w d s = (case acc off d w (g_inten s) of (d', r) \<Rightarrow> (IO_REQ_OK, d', s\<lparr>g_inten := r\<rparr>))"

definition inttype0_req :: "reg_access \<Rightarrow> nat \<Rightarrow> bool \<Rightarrow> u8 list \<Rightarrow> gpio \<Rightarrow> io_status \<times> u8 list \<times> gpio" where
  "inttype0_req acc off w d s =
     (case acc off d w (g_inttype0 s) of (d', r) \<Rightarrow> (IO_REQ_OK, d', s\<lparr>g_inttype0 := r\<rparr>))"

definition inttype1_req :: "reg_access \<Rightarrow> nat \<Rightarrow> bool \<Rightarrow> u8 list \<Rightarrow> gpio \<Rightarrow> io_status \<times> u8 list \<times> gpio" where
  "inttype1_req acc off w d s =
     (case acc off d w (g_inttype1 s) of (d', r) \<Rightarrow> (IO_REQ_OK, d', s\<lparr>g_inttype1 := r\<rparr>))"

definition intstatus_req :: "reg_access \<Rightarrow> nat \<Rightarrow> bool \<Rightarrow> u8 list \<Rightarrow> gpio \<Rightarrow> io_status \<times> u8 list \<times> gpio" where
  "intstatus_req acc off w d s =
     (case acc off d w (g_intstatus s) of (d', r) \<Rightarrow> (IO_REQ_OK, d', s\<lparr>g_intstatus := r\<rparr>))"

definition gpioen_req :: "reg_access \<Rightarrow> nat \<Rightarrow> bool \<Rightarrow> u8 list \<Rightarrow> gpio \<Rightarrow> io_status \<times> u8 list \<times> gpio" where
  "gpioen_req acc off w d s = (case acc off d w (g_gpioen s) of (d', r) \<Rightarrow> (IO_REQ_OK, d', s\<lparr>g_gpioen := r\<rparr>))"

definition padcfg_req ::
    "reg_access \<Rightarrow> nat \<Rightarrow> nat \<Rightarrow> bool \<Rightarrow> u8 list \<Rightarrow> gpio \<Rightarrow> io_status \<times> u8 list \<times> gpio" where
  "padcfg_req acc i off w d s =
     (case acc off d w (g_padcfg s i) of (d', r) \<Rightarrow> (IO_REQ_OK, d', s\<lparr>g_padcfg := (g_padcfg s)(i := r)\<rparr>))"

definition gpio_req :: "reg_access \<Rightarrow> nat \<Rightarrow> bool \<Rightarrow> u8 list \<Rightarrow> gpio \<Rightarrow> io_status \<times> u8 list \<times> gpio" where
  "gpio_req acc offset w d s =
     (let reg_id = offset div 4; off = offset mod 4
      in if off + length d > 4 then (IO_REQ_INVALID, d, s)
         else if reg_id = 0x00 div 4 then paddir_req acc off w d s
         else if reg_id = 0x08 div 4 then padin_req acc off w d s
         else if reg_id = 0x0c div 4 then padout_req acc off w d s
         else if reg_id = 0x18 div 4 then inten_req acc off w d s
         else if reg_id = 0x1c div 4 then inttype0_req acc off w d s
         else if reg_id = 0x20 div 4 then inttype1_req acc off w d s
         else if reg_id = 0x24 div 4 then intstatus_req acc off w d s
         else if reg_id = 0x04 div 4 then gpioen_req acc off w d s
         else if 0x28 div 4 \<le> reg_id \<and> reg_id \<le> 0x34 div 4
         then padcfg_req acc (reg_id - 0x28 div 4) off w d s
         else (IO_REQ_INVALID, d, s))"

subsection \<open>Inputs\<close>

definition gpio_inttype :: "gpio \<Rightarrow> nat \<Rightarrow> u32" where
  "gpio_inttype s g =
     drop_bit (2 * (g mod 16)) (if g div 16 \<noteq> 0 then g_inttype1 s else g_inttype0 s) AND 3"

definition gpio_raise :: "nat \<Rightarrow> gpio \<Rightarrow> gpio" where
  "gpio_raise g s =
     (let s1 = s\<lparr>g_intstatus := g_intstatus s OR shl1 (int g)\<rparr>;
          s2 = (if g_event_bound s1 then gpio_call (Event_sync (g_soc_event s1)) s1 else s1)
      in if g_irq_bound s2 then gpio_call Irq_sync s2 else s2)"

definition gpio_sync :: "bool \<Rightarrow> nat \<Rightarrow> gpio \<Rightarrow> gpio" where
  "gpio_sync v g s =
     (let old_val = bit (g_padin s) g;
          s1 = s\<lparr>g_padin := (g_padin s AND NOT (shl1 (int g))) OR (if v then shl1 (int g) else 0)\<rparr>
      in if bit (g_inten s1) g \<and> old_val \<noteq> v then
           (let inttype = gpio_inttype s1 g;
                edge = (\<not> old_val \<and> (inttype = 1 \<or> inttype = 2)) \<or> (old_val \<and> (inttype = 0 \<or> inttype = 2))
            in if edge then gpio_raise g s1 else s1)
         else s1)"

subsection \<open>Edges\<close>

text \<open>What the interrupt types mean: 0 falling, 1 rising, 2 both, 3 none.\<close>

definition edge_selected :: "u32 \<Rightarrow> bool \<Rightarrow> bool \<Rightarrow> bool" where
  "edge_selected ty old new \<longleftrightarrow> (\<not> old \<and> new \<and> (ty = 1 \<or> ty = 2)) \<or> (old \<and> \<not> new \<and> (ty = 0 \<or> ty = 2))"

definition gpio_fires :: "gpio \<Rightarrow> nat \<Rightarrow> bool \<Rightarrow> bool" where
  "gpio_fires s g v \<longleftrightarrow> bit (g_inten s) g \<and> edge_selected (gpio_inttype s g) (bit (g_padin s) g) v"

definition gpio_set_in :: "nat \<Rightarrow> bool \<Rightarrow> gpio \<Rightarrow> gpio" where
  "gpio_set_in g v s =
     s\<lparr>g_padin := (g_padin s AND NOT (shl1 (int g))) OR (if v then shl1 (int g) else 0)\<rparr>"

lemma gpio_sync_eq:
  "gpio_sync v g s = (if gpio_fires s g v then gpio_raise g (gpio_set_in g v s) else gpio_set_in g v s)"
  by (auto simp: gpio_sync_def gpio_fires_def edge_selected_def Let_def gpio_set_in_def gpio_inttype_def)

lemma gpio_set_in_bit: "g < 32 \<Longrightarrow> bit (g_padin (gpio_set_in g v s)) i = (if i = g then v else bit (g_padin s) i)"
  by (auto simp: gpio_set_in_def bit_or_iff bit_and_iff bit_not_iff dest: bit_imp_le_length)

lemma gpio_raise_sel [simp]:
  "g_padin (gpio_raise g s) = g_padin s" "g_inten (gpio_raise g s) = g_inten s"
  "g_inttype0 (gpio_raise g s) = g_inttype0 s" "g_inttype1 (gpio_raise g s) = g_inttype1 s"
  "g_intstatus (gpio_raise g s) = g_intstatus s OR shl1 (int g)"
  "g_calls (gpio_raise g s) = g_calls s @ (if g_event_bound s then [Event_sync (g_soc_event s)] else [])
     @ (if g_irq_bound s then [Irq_sync] else [])"
  "g_event_bound (gpio_raise g s) = g_event_bound s" "g_irq_bound (gpio_raise g s) = g_irq_bound s"
  "g_soc_event (gpio_raise g s) = g_soc_event s"
  by (simp_all add: gpio_raise_def gpio_call_def Let_def)

lemma gpio_set_in_sel [simp]:
  "g_inten (gpio_set_in g v s) = g_inten s" "g_inttype0 (gpio_set_in g v s) = g_inttype0 s"
  "g_inttype1 (gpio_set_in g v s) = g_inttype1 s" "g_intstatus (gpio_set_in g v s) = g_intstatus s"
  "g_calls (gpio_set_in g v s) = g_calls s" "g_event_bound (gpio_set_in g v s) = g_event_bound s"
  "g_irq_bound (gpio_set_in g v s) = g_irq_bound s" "g_soc_event (gpio_set_in g v s) = g_soc_event s"
  by (simp_all add: gpio_set_in_def)

text \<open>A run of input changes, and the level of a pad before the \<open>n\<close>-th.\<close>

definition gpio_inputs :: "(nat \<times> bool) list \<Rightarrow> gpio \<Rightarrow> gpio" where
  "gpio_inputs xs s = fold (\<lambda>(g, v). gpio_sync v g) xs s"

fun level_before :: "bool \<Rightarrow> nat \<Rightarrow> (nat \<times> bool) list \<Rightarrow> nat \<Rightarrow> bool" where
  "level_before l g xs 0 = l"
| "level_before l g [] (Suc n) = l"
| "level_before l g ((i, v) # xs) (Suc n) = level_before (if i = g then v else l) g xs n"

text \<open>The changes of a run that are selected edges of enabled pads, by their position.\<close>

definition gpio_edges :: "gpio \<Rightarrow> (nat \<times> bool) list \<Rightarrow> nat list" where
  "gpio_edges s xs = filter (\<lambda>n. case xs ! n of (g, v) \<Rightarrow>
     bit (g_inten s) g \<and> edge_selected (gpio_inttype s g) (level_before (bit (g_padin s) g) g xs n) v)
     [0..<length xs]"

definition gpio_calls_of_edge :: "gpio \<Rightarrow> gpio_call list" where
  "gpio_calls_of_edge s = (if g_event_bound s then [Event_sync (g_soc_event s)] else [])
     @ (if g_irq_bound s then [Irq_sync] else [])"

lemma gpio_edges_Cons:
  assumes "g < 32"
  shows "gpio_edges s ((g, v) # xs) = (if gpio_fires s g v then [0] else [])
    @ map Suc (gpio_edges (gpio_sync v g s) xs)"
proof -
  have level: "bit (g_padin (gpio_sync v g s)) i = (if i = g then v else bit (g_padin s) i)" for i
    using gpio_set_in_bit [OF assms] by (simp add: gpio_sync_eq)
  have same: "g_inten (gpio_sync v g s) = g_inten s" "gpio_inttype (gpio_sync v g s) = gpio_inttype s"
    by (auto simp: gpio_sync_eq gpio_inttype_def)
  have "[0..<length ((g, v) # xs)] = 0 # map Suc [0..<length xs]"
    by (simp add: upt_conv_Cons map_Suc_upt del: upt_Suc)
  then show ?thesis
    by (simp add: gpio_edges_def filter_map o_def level same gpio_fires_def eq_commute [of g] split: prod.splits
        cong: filter_cong)
qed

text \<open>
  No edge is lost and none is invented: after any sequence of input changes, the interrupt
  status has, besides what it had, exactly the pads for which some change was an edge of the selected
  type on an enabled pad, and the event and the interrupt are sent once for each such edge.
\<close>

theorem gpio_edge_interrupts:
  assumes "\<forall>(g, v) \<in> set xs. g < 32"
  shows "(bit (g_intstatus (gpio_inputs xs s)) i \<longleftrightarrow>
            bit (g_intstatus s) i \<or> (\<exists>n \<in> set (gpio_edges s xs). fst (xs ! n) = i))
    \<and> g_calls (gpio_inputs xs s)
        = g_calls s @ concat (replicate (length (gpio_edges s xs)) (gpio_calls_of_edge s))"
  using assms
proof (induction xs arbitrary: s)
  case Nil
  then show ?case by (simp add: gpio_inputs_def gpio_edges_def)
next
  case (Cons x xs)
  obtain g v where x: "x = (g, v)" by (cases x)
  with Cons.prems have g: "g < 32" by simp
  have run: "gpio_inputs ((g, v) # xs) s = gpio_inputs xs (gpio_sync v g s)"
    by (simp add: gpio_inputs_def)
  have calls: "gpio_calls_of_edge (gpio_sync v g s) = gpio_calls_of_edge s"
    by (simp add: gpio_sync_eq gpio_calls_of_edge_def)
  have status: "bit (g_intstatus (gpio_sync v g s)) i \<longleftrightarrow> bit (g_intstatus s) i \<or> (gpio_fires s g v \<and> i = g)"
    using g by (auto simp: gpio_sync_eq bit_or_iff)
  have sent: "g_calls (gpio_sync v g s) = g_calls s @ (if gpio_fires s g v then gpio_calls_of_edge s else [])"
    by (simp add: gpio_sync_eq gpio_calls_of_edge_def)
  show ?case
    using Cons.IH [of "gpio_sync v g s"] Cons.prems
    by (auto simp: run x gpio_edges_Cons [OF g] calls status sent)
qed

subsection \<open>The interrupt status register\<close>

text \<open>
  The header of the registers says that reading INTSTATUS clears it and the interrupt line. With
  any framework registers whose reads leave them alone, a read of INTSTATUS changes nothing: neither
  the status nor the line is ever cleared by software reading it.
\<close>

theorem gpio_intstatus_not_cleared_on_read:
  assumes "\<And>off d r. snd (acc off d False r) = r" and "off < 4" and "off + length d \<le> 4"
  shows "fst (gpio_req acc (0x24 + off) False d s) = IO_REQ_OK
    \<and> snd (snd (gpio_req acc (0x24 + off) False d s)) = s"
proof -
  have "(0x24 + off) div 4 = 9" "(0x24 + off) mod 4 = off"
    using assms(2) by presburger+
  then have "gpio_req acc (0x24 + off) False d s = intstatus_req acc off False d s"
    using assms(3) by (simp add: gpio_req_def Let_def)
  then show ?thesis
    using assms(1) [of off d "g_intstatus s"] by (simp add: intstatus_req_def split: prod.splits)
qed

subsection \<open>Witnesses\<close>

definition gpio_example :: gpio where
  "gpio_example = \<lparr>g_nb_gpio = 32, g_soc_event = 42, g_paddir = 0, g_padin = 0, g_padout = 0,
     g_inten = - 1, g_inttype0 = 1, g_inttype1 = 0, g_intstatus = 0, g_gpioen = 0,
     g_padcfg = (\<lambda>_. 0), g_gpio_bound = (\<lambda>_. True), g_event_bound = True, g_irq_bound = False,
     g_calls = []\<rparr>"

theorem gpio_edge_interrupts_witness:
  "g_calls (gpio_inputs [(0, True), (0, False)] gpio_example) = [Event_sync 42]"
proof -
  have "gpio_edges gpio_example [(0, True), (0, False)] = [0]"
    by (simp add: gpio_edges_def upt_rec edge_selected_def gpio_inttype_def gpio_example_def)
  then show ?thesis
    using gpio_edge_interrupts [of "[(0, True), (0, False)]" gpio_example 0]
    by (simp add: gpio_calls_of_edge_def) (simp add: gpio_example_def)
qed

theorem gpio_intstatus_not_cleared_on_read_witness:
  "g_intstatus (snd (snd (gpio_req (\<lambda>off d w r. (if w then (d, 0) else (map (\<lambda>_. 7) d, r))) (0x24 + 0)
     False [0] (gpio_example\<lparr>g_intstatus := 7\<rparr>)))) = 7"
  using gpio_intstatus_not_cleared_on_read [of "\<lambda>off d w r. (if w then (d, 0) else (map (\<lambda>_. 7) d, r))"
      0 "[0]" "gpio_example\<lparr>g_intstatus := 7\<rparr>"]
  by simp

end
