(* ===== verification/Fractal_Sync.thy ===== *)
theory Fractal_Sync
  imports Prelude
begin

section \<open>The fractal synchronisation tree node (\<open>src/pulp/chips/magia_common/fractal_sync/fractal_sync.cpp\<close>)\<close>

text \<open>
  A node of the synchronisation tree pairs the requests of its north and south ports, and those of
  its east and west ports. A request carries an id and an aggregate, one bit per tree level. When
  both ports of a pair have asked with the same id, the node either wakes both (the aggregate ends
  at this level) or asks its parent. Requests that arrive while the state machine is busy wait in a
  queue. A call on another component is a message of type \<open>fs_out\<close>, delivered after the handler;
  \<open>fs_event\<close> tells that the clock event of the state machine is enqueued. A result \<open>None\<close> is a
  \<open>trace.fatal\<close> or an access outside the arrays of 128 entries, whose effect C++ leaves open.
\<close>

datatype fs_port = NORD | SUD | EAST | WEST
datatype fs_axis = EAST_WEST | NORD_SUD
datatype fs_state = IDLE | SLAVE_NORD_REQ | SLAVE_SUD_REQ | SLAVE_EAST_REQ | SLAVE_WEST_REQ
  | NORD_SUD_END_SYNCRO | NORD_SUD_UP_SYNCRO | EAST_WEST_END_SYNCRO | EAST_WEST_UP_SYNCRO

record port_req =
  req_sync :: bool
  req_aggr :: u32
  req_id_req :: u32

record port_resp =
  resp_wake :: bool
  resp_lvl :: u32
  resp_id_rsp :: u32
  resp_error :: bool

datatype fs_out = To_slave fs_port port_resp | To_master fs_axis port_req

text \<open>
  The four \<open><port>_current_aggr\<close> arrays and \<open><port>_current_id_req\<close> registers are functions of the
  port, the two counter arrays and the registers for the parent's request functions of the pair.
  \<open>fs_level_pos\<close> is the configured level, whose one-hot code \<open>1 << level\<close> is the field \<open>level\<close>.
\<close>

record fractal_sync =
  fs_state :: fs_state
  fs_event :: bool
  fs_req_queue :: "(port_req \<times> fs_port) list"
  fs_syncro_val :: "fs_axis \<Rightarrow> nat list"
  fs_level_pos :: nat
  fs_current_aggr :: "fs_port \<Rightarrow> u32 list"
  fs_current_id_req :: "fs_port \<Rightarrow> u32"
  fs_up_aggr :: "fs_axis \<Rightarrow> u32"
  fs_up_id_req :: "fs_axis \<Rightarrow> u32"

definition fs_level :: "fractal_sync \<Rightarrow> u32" where
  "fs_level s = bit_mask (fs_level_pos s)"

definition fs_init :: "nat \<Rightarrow> fractal_sync" where
  "fs_init lvl = \<lparr>fs_state = IDLE, fs_event = False, fs_req_queue = [],
     fs_syncro_val = (\<lambda>_. replicate 128 0), fs_level_pos = lvl,
     fs_current_aggr = (\<lambda>_. replicate 128 (- 1)), fs_current_id_req = (\<lambda>_. - 1),
     fs_up_aggr = (\<lambda>_. - 1), fs_up_id_req = (\<lambda>_. - 1)\<rparr>"

fun fs_axis_of :: "fs_port \<Rightarrow> fs_axis" where
  "fs_axis_of NORD = NORD_SUD"
| "fs_axis_of SUD = NORD_SUD"
| "fs_axis_of EAST = EAST_WEST"
| "fs_axis_of WEST = EAST_WEST"

fun fs_slave_state :: "fs_port \<Rightarrow> fs_state" where
  "fs_slave_state NORD = SLAVE_NORD_REQ"
| "fs_slave_state SUD = SLAVE_SUD_REQ"
| "fs_slave_state EAST = SLAVE_EAST_REQ"
| "fs_slave_state WEST = SLAVE_WEST_REQ"

fun fs_end_state :: "fs_axis \<Rightarrow> fs_state" where
  "fs_end_state NORD_SUD = NORD_SUD_END_SYNCRO"
| "fs_end_state EAST_WEST = EAST_WEST_END_SYNCRO"

fun fs_up_state :: "fs_axis \<Rightarrow> fs_state" where
  "fs_up_state NORD_SUD = NORD_SUD_UP_SYNCRO"
| "fs_up_state EAST_WEST = EAST_WEST_UP_SYNCRO"

text \<open>The parent's port of a pair: north-south requests leave on the east-west port and conversely.\<close>

fun fs_master_of :: "fs_axis \<Rightarrow> fs_axis" where
  "fs_master_of NORD_SUD = EAST_WEST"
| "fs_master_of EAST_WEST = NORD_SUD"

subsection \<open>Writes\<close>

definition fs_set_aggr :: "fs_port \<Rightarrow> u32 \<Rightarrow> u32 \<Rightarrow> fractal_sync \<Rightarrow> fractal_sync" where
  "fs_set_aggr p i a s = s\<lparr>fs_current_aggr := (fs_current_aggr s)(p := (fs_current_aggr s p)[unat i := a])\<rparr>"

definition fs_set_syncro :: "fs_axis \<Rightarrow> u32 \<Rightarrow> nat \<Rightarrow> fractal_sync \<Rightarrow> fractal_sync" where
  "fs_set_syncro x i v s = s\<lparr>fs_syncro_val := (fs_syncro_val s)(x := (fs_syncro_val s x)[unat i := v])\<rparr>"

definition fs_goto :: "fs_state \<Rightarrow> fractal_sync \<Rightarrow> fractal_sync" where
  "fs_goto st s = s\<lparr>fs_state := st, fs_event := True\<rparr>"

subsection \<open>Requests\<close>

definition error_resp :: port_resp where
  "error_resp = \<lparr>resp_wake = False, resp_lvl = 0, resp_id_rsp = 0, resp_error = True\<rparr>"

definition fs_handle_req :: "fractal_sync \<Rightarrow> port_req \<Rightarrow> fs_port \<Rightarrow> (fractal_sync \<times> fs_out list) option" where
  "fs_handle_req s r p =
     (if req_sync r then
        if req_aggr r AND fs_level s \<noteq> 0 then
          if unat (req_id_req r) < 128 then
            let s1 = fs_set_aggr p (req_id_req r) (req_aggr r) s;
                s2 = s1\<lparr>fs_current_id_req := (fs_current_id_req s1)(p := req_id_req r)\<rparr>
            in Some (fs_goto (fs_slave_state p) s2, [])
          else None
        else if req_aggr r = 0 then None
        else if fs_level_pos s < highest_bit (req_aggr r) then
          if unat (req_id_req r) < 128 then
            Some (fs_set_aggr p (req_id_req r) (req_aggr r) s,
                  [To_master (fs_master_of (fs_axis_of p))
                     \<lparr>req_sync = True, req_aggr = req_aggr r, req_id_req = req_id_req r\<rparr>])
          else None
        else Some (s, [To_slave p error_resp])
      else Some (s, [To_slave p error_resp]))"

definition fs_slave_input :: "fractal_sync \<Rightarrow> port_req \<Rightarrow> fs_port \<Rightarrow> (fractal_sync \<times> fs_out list) option" where
  "fs_slave_input s r p =
     (if fs_state s = IDLE then fs_handle_req s r p
      else Some (s\<lparr>fs_req_queue := fs_req_queue s @ [(r, p)]\<rparr>, []))"

subsection \<open>The state machine\<close>

text \<open>
  A local request: \<open>i\<close> is the id register of the port, \<open>a\<close> the aggregate stored for it, \<open>tested\<close> the
  aggregate whose bit of this level the second condition reads.
\<close>

definition fs_pair_req :: "fs_axis \<Rightarrow> u32 \<Rightarrow> u32 \<Rightarrow> u32 \<Rightarrow> fractal_sync \<Rightarrow> (fractal_sync \<times> fs_out list) option" where
  "fs_pair_req x i a tested s =
     (let n = Suc (fs_syncro_val s x ! unat i);
          counted = fs_set_syncro x i n s;
          up = (\<lambda>s. fs_goto (fs_up_state x)
                   (s\<lparr>fs_up_aggr := (fs_up_aggr s)(x := a), fs_up_id_req := (fs_up_id_req s)(x := i)\<rparr>))
      in if a = 0 then None
         else if highest_bit a = fs_level_pos s then
           Some (if n = 2 then fs_goto (fs_end_state x) counted else fs_goto IDLE counted, [])
         else if tested AND fs_level s \<noteq> 0 then
           Some (if n = 2 then up counted else fs_goto IDLE counted, [])
         else Some (up s, []))"

definition fs_slave_nord :: "fractal_sync \<Rightarrow> (fractal_sync \<times> fs_out list) option" where
  "fs_slave_nord s =
     (let i = fs_current_id_req s NORD; a = fs_current_aggr s NORD ! unat i
      in if unat i < 128 then fs_pair_req NORD_SUD i a a s else None)"

definition fs_slave_sud :: "fractal_sync \<Rightarrow> (fractal_sync \<times> fs_out list) option" where
  "fs_slave_sud s =
     (let i = fs_current_id_req s SUD; a = fs_current_aggr s SUD ! unat i
      in if unat i < 128 then fs_pair_req NORD_SUD i a a s else None)"

definition fs_slave_east :: "fractal_sync \<Rightarrow> (fractal_sync \<times> fs_out list) option" where
  "fs_slave_east s =
     (let i = fs_current_id_req s EAST; a = fs_current_aggr s EAST ! unat i
      in if unat i < 128 then fs_pair_req EAST_WEST i a a s else None)"

text \<open>The code of the west port tests the aggregate stored for the east port.\<close>

definition fs_slave_west :: "fractal_sync \<Rightarrow> (fractal_sync \<times> fs_out list) option" where
  "fs_slave_west s =
     (let i = fs_current_id_req s WEST; a = fs_current_aggr s WEST ! unat i
      in if unat i < 128 then fs_pair_req EAST_WEST i a (fs_current_aggr s EAST ! unat i) s else None)"

definition fs_up_syncro :: "fs_axis \<Rightarrow> fractal_sync \<Rightarrow> (fractal_sync \<times> fs_out list) option" where
  "fs_up_syncro x s =
     (if unat (fs_up_id_req s x) < 128 then
        Some (fs_goto IDLE (fs_set_syncro x (fs_up_id_req s x) 0 s),
              [To_master (fs_master_of x)
                 \<lparr>req_sync = True, req_aggr = fs_up_aggr s x, req_id_req = fs_up_id_req s x\<rparr>])
      else None)"

definition wake_resp :: "u32 \<Rightarrow> u32 \<Rightarrow> port_resp" where
  "wake_resp lvl i = \<lparr>resp_wake = True, resp_lvl = lvl, resp_id_rsp = i, resp_error = False\<rparr>"

text \<open>
  The end of a pair: \<open>p\<close> and \<open>q\<close> are the ports in the order the id is looked for, \<open>order\<close> the order of
  the responses.
\<close>

definition fs_finish :: "fs_axis \<Rightarrow> fs_port list \<Rightarrow> u32 \<Rightarrow> fractal_sync \<Rightarrow> (fractal_sync \<times> fs_out list) option" where
  "fs_finish x order i s =
     Some (fs_goto IDLE (fold (\<lambda>p. fs_set_aggr p i (- 1)) order (fs_set_syncro x i 0 s)),
           map (\<lambda>p. To_slave p (wake_resp (fs_current_aggr s p ! unat i) i)) order)"

definition fs_end_syncro ::
  "fs_axis \<Rightarrow> fs_port \<Rightarrow> fs_port \<Rightarrow> fs_port list \<Rightarrow> fractal_sync \<Rightarrow> (fractal_sync \<times> fs_out list) option" where
  "fs_end_syncro x p q order s =
     (if \<not> unat (fs_current_id_req s p) < 128 then None
      else if fs_syncro_val s x ! unat (fs_current_id_req s p) = 2 then
        fs_finish x order (fs_current_id_req s p) s
      else if \<not> unat (fs_current_id_req s q) < 128 then None
      else if fs_syncro_val s x ! unat (fs_current_id_req s q) = 2 then
        fs_finish x order (fs_current_id_req s q) s
      else None)"

definition fs_idle :: "fractal_sync \<Rightarrow> (fractal_sync \<times> fs_out list) option" where
  "fs_idle s =
     (case fs_req_queue s of
        [] \<Rightarrow> Some (s, [])
      | (r, p) # rest \<Rightarrow> fs_handle_req (s\<lparr>fs_req_queue := rest\<rparr>) r p)"

definition fs_fsm_handler :: "fractal_sync \<Rightarrow> (fractal_sync \<times> fs_out list) option" where
  "fs_fsm_handler s0 =
     (let s = s0\<lparr>fs_event := False\<rparr>
      in case fs_state s of
           IDLE \<Rightarrow> fs_idle s
         | SLAVE_NORD_REQ \<Rightarrow> fs_slave_nord s
         | SLAVE_SUD_REQ \<Rightarrow> fs_slave_sud s
         | SLAVE_EAST_REQ \<Rightarrow> fs_slave_east s
         | SLAVE_WEST_REQ \<Rightarrow> fs_slave_west s
         | NORD_SUD_UP_SYNCRO \<Rightarrow> fs_up_syncro NORD_SUD s
         | NORD_SUD_END_SYNCRO \<Rightarrow> fs_end_syncro NORD_SUD NORD SUD [NORD, SUD] s
         | EAST_WEST_UP_SYNCRO \<Rightarrow> fs_up_syncro EAST_WEST s
         | EAST_WEST_END_SYNCRO \<Rightarrow> fs_end_syncro EAST_WEST EAST WEST [WEST, EAST] s)"

subsection \<open>Responses of the parent\<close>

definition fs_route :: "fs_port \<Rightarrow> fs_port \<Rightarrow> fs_port list \<Rightarrow> port_resp \<Rightarrow> fractal_sync \<Rightarrow> fractal_sync \<times> fs_out list" where
  "fs_route p q both r s =
     (let i = resp_id_rsp r; resp = wake_resp (fs_level s) i;
          a = fs_current_aggr s p ! unat i; b = fs_current_aggr s q ! unat i
      in if a \<noteq> - 1 \<and> b = - 1 then (fs_set_aggr p i (- 1) s, [To_slave p resp])
         else if a = - 1 \<and> b \<noteq> - 1 then (fs_set_aggr q i (- 1) s, [To_slave q resp])
         else if a \<noteq> - 1 \<and> b \<noteq> - 1 then
           (fs_set_aggr q i (- 1) (fs_set_aggr p i (- 1) s), map (\<lambda>p. To_slave p resp) both)
         else (s, []))"

definition fs_master_input :: "fractal_sync \<Rightarrow> port_resp \<Rightarrow> fs_axis \<Rightarrow> (fractal_sync \<times> fs_out list) option" where
  "fs_master_input s r x =
     (if unat (resp_id_rsp r) < 128 then
        Some (case x of
                EAST_WEST \<Rightarrow> fs_route NORD SUD [NORD, SUD] r s
              | NORD_SUD \<Rightarrow> fs_route EAST WEST [WEST, EAST] r s)
      else None)"

end
