(* ===== verification/Fractal_Sync_Rendezvous.thy ===== *)
theory Fractal_Sync_Rendezvous
  imports Fractal_Sync
begin

section \<open>The fractal node as a table of rendezvous\<close>

text \<open>
  The specification of the pairing: a table of the requests that wait for their partner. A request
  whose partner is not in the table enters it; otherwise both leave, and either both ports are woken
  or the parent is asked. The theory shows that the state machine, fed a burst of requests of its
  own level through its queue, produces exactly the messages of the specification, in arrival order;
  then how the responses of the parent are routed, and two behaviours of the code that the
  specification does not have.
\<close>

type_synonym fs_table = "fs_port \<Rightarrow> u32 \<Rightarrow> u32 option"

fun fs_partner :: "fs_port \<Rightarrow> fs_port" where
  "fs_partner NORD = SUD"
| "fs_partner SUD = NORD"
| "fs_partner EAST = WEST"
| "fs_partner WEST = EAST"

text \<open>The order in which the two ports of a pair are woken.\<close>

fun fs_wake_order :: "fs_axis \<Rightarrow> fs_port list" where
  "fs_wake_order NORD_SUD = [NORD, SUD]"
| "fs_wake_order EAST_WEST = [WEST, EAST]"




text \<open>Requests of this level, no port asking twice with an id before it was paired.\<close>

definition local_req :: "nat \<Rightarrow> port_req \<Rightarrow> bool" where
  "local_req lvl r \<longleftrightarrow> req_sync r \<and> bit (req_aggr r) lvl \<and> unat (req_id_req r) < 128"


text \<open>
  The representation: counters count the waiting ports of their pair, the aggregate of a waiting
  port is in its array, its id register holds an id of the arrays, and the array of the east port
  holds only aggregates with the bit of this level.
\<close>

definition waits :: "fs_table \<Rightarrow> fs_port \<Rightarrow> u32 \<Rightarrow> nat" where
  "waits t p i = of_bool (t p i \<noteq> None)"

definition fs_port_rep :: "fractal_sync \<Rightarrow> fs_table \<Rightarrow> fs_port \<Rightarrow> u32 \<Rightarrow> bool" where
  "fs_port_rep s t p i \<longleftrightarrow>
     fs_syncro_val s (fs_axis_of p) ! unat i = waits t p i + waits t (fs_partner p) i
     \<and> (t p i = None \<or> t (fs_partner p) i = None)
     \<and> (\<forall>a. t p i = Some a \<longrightarrow> fs_current_aggr s p ! unat i = a)
     \<and> (t p i \<noteq> None \<longrightarrow> unat (fs_current_id_req s p) < 128)"

definition fs_rep :: "fractal_sync \<Rightarrow> fs_table \<Rightarrow> bool" where
  "fs_rep s t \<longleftrightarrow> fs_level_pos s < 32
     \<and> (\<forall>x. length (fs_syncro_val s x) = 128) \<and> (\<forall>p. length (fs_current_aggr s p) = 128)
     \<and> (\<forall>p i. unat i < 128 \<longrightarrow> fs_port_rep s t p i)
     \<and> (\<forall>i :: u32. unat i < 128 \<longrightarrow> bit (fs_current_aggr s EAST ! unat i) (fs_level_pos s))"


subsection \<open>Running the node\<close>


text \<open>The clock: the handler runs as long as its event is enqueued; \<open>n\<close> bounds the turns.\<close>

fun fs_run :: "nat \<Rightarrow> fractal_sync \<Rightarrow> (fractal_sync \<times> fs_out list) option" where
  "fs_run 0 s = (if fs_event s then None else Some (s, []))"
| "fs_run (Suc n) s =
     (if fs_event s then
        case fs_fsm_handler s of
          None \<Rightarrow> None
        | Some (s1, o1) \<Rightarrow> map_option (\<lambda>(s2, o2). (s2, o1 @ o2)) (fs_run n s1)
      else Some (s, []))"


named_theorems fs_defs \<open>the writes of the node\<close>
lemmas [fs_defs] = fs_set_aggr_def fs_set_syncro_def fs_goto_def fs_level_def

lemma unat_eq_word [simp]: "unat (i :: u32) = unat j \<longleftrightarrow> i = j"
  by (metis unsigned_word_eqI)

lemma fs_partner_partner [simp]: "fs_partner (fs_partner p) = p"
  by (cases p) simp_all

lemma fs_axis_partner [simp]: "fs_axis_of (fs_partner p) = fs_axis_of p"
  by (cases p) simp_all

lemma fs_partner_neq [simp]: "fs_partner p \<noteq> p" "p \<noteq> fs_partner p"
  by (cases p; simp)+

lemma fs_partner_inj [simp]: "fs_partner p = fs_partner q \<longleftrightarrow> p = q"
  by (cases p; cases q; simp)



subsection \<open>The representation is kept\<close>



lemma fs_rep_idle [simp]:
  "fs_rep (s\<lparr>fs_event := e\<rparr>) t = fs_rep s t" "fs_rep (s\<lparr>fs_req_queue := q\<rparr>) t = fs_rep s t"
  by (simp_all add: fs_rep_def fs_port_rep_def)






subsection \<open>One request through the state machine\<close>

definition fs_accept :: "fractal_sync \<Rightarrow> port_req \<Rightarrow> fs_port \<Rightarrow> fractal_sync" where
  "fs_accept s r p = fs_goto (fs_slave_state p)
     (s\<lparr>fs_current_aggr := (fs_current_aggr s)(p := (fs_current_aggr s p)[unat (req_id_req r) := req_aggr r]),
        fs_current_id_req := (fs_current_id_req s)(p := req_id_req r)\<rparr>)"

lemma fs_handle_local:
  assumes "local_req (fs_level_pos s) r" and "fs_level_pos s < 32"
  shows "fs_handle_req s r p = Some (fs_accept s r p, [])"
proof -
  have "req_aggr r AND fs_level s \<noteq> 0"
    using assms by (simp add: local_req_def fs_level_def and_bit_mask)
  then show ?thesis
    using assms(1) by (simp add: fs_handle_req_def local_req_def fs_accept_def fs_defs)
qed












lemma fs_slave_state_busy [simp]: "fs_slave_state p \<noteq> IDLE"
  by (cases p) simp_all


section \<open>The properties of the node\<close>


definition fs_req :: "u32 \<Rightarrow> u32 \<Rightarrow> port_req" where
  "fs_req a i = \<lparr>req_sync = True, req_aggr = a, req_id_req = i\<rparr>"

lemma highest_bit_examples: "highest_bit 2 = 1" "highest_bit 6 = 2" "highest_bit 4 = 2"
  by code_simp+

lemma bit_examples: "bit (2 :: u32) 1" "bit (6 :: u32) 1" "bit (2 :: u32) (Suc 0)" "bit (6 :: u32) (Suc 0)"
    "\<not> bit (4 :: u32) 1" "\<not> bit (4 :: u32) (Suc 0)"
  by code_simp+


definition outstanding :: "fractal_sync \<Rightarrow> fs_port \<Rightarrow> u32 \<Rightarrow> bool" where
  "outstanding s p i \<longleftrightarrow> fs_current_aggr s p ! unat i \<noteq> - 1"

text \<open>
  Routing the parent's response. A response with id \<open>i\<close> on a port towards the parent wakes
  exactly the ports of the pair served through it that have an aggregate stored for \<open>i\<close>, each once,
  with the node's own level, and clears their entries and no other; the same response again wakes
  nobody. The error flag of the response plays no part: an error reported by the parent reaches the
  children as a wake-up without error.
\<close>

theorem fractal_response_routing:
  assumes "unat (resp_id_rsp r) < 128" and "\<forall>p. length (fs_current_aggr s p) = 128"
  shows "\<exists>s'. fs_master_input s r x = Some (s',
      map (\<lambda>p. To_slave p \<lparr>resp_wake = True, resp_lvl = fs_level s, resp_id_rsp = resp_id_rsp r, resp_error = False\<rparr>)
        (filter (\<lambda>p. outstanding s p (resp_id_rsp r)) (fs_wake_order (fs_master_of x))))
    \<and> (\<forall>p j. unat j < 128 \<longrightarrow> outstanding s' p j =
           (outstanding s p j \<and> \<not> (j = resp_id_rsp r \<and> fs_axis_of p = fs_master_of x)))
    \<and> fs_master_input s' r x = Some (s', [])"
proof -
  let ?i = "resp_id_rsp r" and ?y = "fs_master_of x"
  let ?s = "s\<lparr>fs_current_aggr := (\<lambda>p. if fs_axis_of p = ?y then (fs_current_aggr s p)[unat ?i := - 1]
                                       else fs_current_aggr s p)\<rparr>"
  have upd: "(fs_current_aggr s p)[unat ?i := - 1] = fs_current_aggr s p"
    if "fs_current_aggr s p ! unat ?i = - 1" for p
    using that by (metis list_update_id)
  have ports: "p \<in> {NORD, SUD, EAST, WEST}" for p by (cases p) simp_all
  have "fs_master_input s r x = Some (?s,
      map (\<lambda>p. To_slave p (wake_resp (fs_level s) ?i))
        (filter (\<lambda>p. outstanding s p ?i) (fs_wake_order ?y)))"
    using assms(1)
    by (cases x)
       (auto simp: fs_master_input_def fs_route_def Let_def fs_set_aggr_def outstanding_def upd fun_eq_iff
        intro!: fractal_sync.equality elim!: fs_axis_of.elims)
  moreover have "outstanding ?s p j = (outstanding s p j \<and> \<not> (j = ?i \<and> fs_axis_of p = ?y))" if "unat j < 128" for p j
    using assms that by (auto simp: outstanding_def nth_list_update)
  moreover have "fs_master_input ?s r x = Some (?s, [])"
    using assms by (cases x) (simp_all add: fs_master_input_def fs_route_def Let_def)
  ultimately show ?thesis unfolding wake_resp_def by blast
qed

theorem fractal_response_routing_witness:
  "\<exists>s s1. fs_handle_req (fs_init 1) (fs_req 4 3) WEST = Some (s, [To_master NORD_SUD (fs_req 4 3)])
    \<and> fs_master_input s \<lparr>resp_wake = False, resp_lvl = 0, resp_id_rsp = 3, resp_error = True\<rparr> NORD_SUD
        = Some (s1, [To_slave WEST (wake_resp 2 3)])"
proof -
  define s where "s = fs_set_aggr WEST 3 4 (fs_init 1)"
  have "fs_handle_req (fs_init 1) (fs_req 4 3) WEST = Some (s, [To_master NORD_SUD (fs_req 4 3)])"
    by (simp add: fs_handle_req_def fs_req_def fs_init_def fs_level_def s_def highest_bit_examples and_bit_mask
        bit_examples)
  moreover have "filter (\<lambda>p. outstanding s p 3) [WEST, EAST] = [WEST]"
    by (simp add: s_def outstanding_def fs_set_aggr_def fs_init_def)
  moreover have "fs_level s = 2"
    by (simp add: s_def fs_level_def fs_set_aggr_def fs_init_def bit_mask_def)
  moreover have "\<forall>p. length (fs_current_aggr s p) = 128"
    by (simp add: s_def fs_set_aggr_def fs_init_def)
  ultimately show ?thesis
    using fractal_response_routing
      [of "\<lparr>resp_wake = False, resp_lvl = 0, resp_id_rsp = 3, resp_error = True\<rparr>" s NORD_SUD]
    by (auto simp: wake_resp_def)
qed

text \<open>
  A forwarded request stalls the queue. When the request at the head of the queue is not for this
  level (the parent's, or an error), the turn that takes it leaves the machine in \<open>IDLE\<close> without its
  clock event: the requests behind it stay in the queue however long the clock runs.
\<close>

theorem fractal_forward_stalls_queue:
  assumes "fs_state s = IDLE" and "fs_event s" and "fs_req_queue s = (r, p) # rest"
    and "fs_level_pos s < 32" and "\<not> bit (req_aggr r) (fs_level_pos s)" and "req_aggr r \<noteq> 0"
    and "unat (req_id_req r) < 128"
  shows "\<exists>s' out. fs_fsm_handler s = Some (s', out) \<and> fs_req_queue s' = rest
    \<and> (\<forall>n. fs_run n s' = Some (s', []))
    \<and> out = (if req_sync r \<and> fs_level_pos s < highest_bit (req_aggr r)
             then [To_master (fs_master_of (fs_axis_of p)) (fs_req (req_aggr r) (req_id_req r))]
             else [To_slave p error_resp])"
proof -
  have stop: "fs_run n s' = Some (s', [])" if "\<not> fs_event s'" for n s'
    using that by (cases n) simp_all
  show ?thesis
    using assms
    by (auto simp: fs_fsm_handler_def fs_idle_def fs_handle_req_def fs_defs and_bit_mask_0 stop fs_req_def Let_def)
qed

theorem fractal_forward_stalls_queue_witness:
  "\<exists>s' out. fs_fsm_handler (fs_goto IDLE (fs_init 1)\<lparr>fs_req_queue := [(fs_req 4 0, EAST), (fs_req 2 0, NORD)]\<rparr>)
      = Some (s', out) \<and> fs_req_queue s' = [(fs_req 2 0, NORD)] \<and> (\<forall>n. fs_run n s' = Some (s', []))"
  using fractal_forward_stalls_queue
    [of "fs_goto IDLE (fs_init 1)\<lparr>fs_req_queue := [(fs_req 4 0, EAST), (fs_req 2 0, NORD)]\<rparr>" "fs_req 4 0" EAST
      "[(fs_req 2 0, NORD)]"]
  by (auto simp: fs_goto_def fs_init_def fs_req_def bit_examples)

text \<open>
  The west port tests the aggregate of the east port. A request of the west port goes on to
  the parent above this level, and the east port has an aggregate stored for the same id that does
  not concern this level: the request is sent up at once and not counted, where the mirrored request
  of the east port is counted and waits for its partner.
\<close>

theorem fractal_west_tests_east:
  assumes "fs_level_pos s < 32" and "unat i < 128" and "fs_syncro_val s EAST_WEST ! unat i = 0"
    and "bit a (fs_level_pos s)" and "highest_bit a \<noteq> fs_level_pos s" and "\<not> bit b (fs_level_pos s)"
  shows "(fs_current_id_req s WEST = i \<and> fs_current_aggr s WEST ! unat i = a \<and> fs_current_aggr s EAST ! unat i = b
      \<longrightarrow> (\<exists>s'. fs_fsm_handler (s\<lparr>fs_state := SLAVE_WEST_REQ\<rparr>) = Some (s', [])
            \<and> fs_state s' = EAST_WEST_UP_SYNCRO \<and> fs_syncro_val s' = fs_syncro_val s))
    \<and> (fs_current_id_req s EAST = i \<and> fs_current_aggr s EAST ! unat i = a \<and> fs_current_aggr s WEST ! unat i = b
      \<longrightarrow> (\<exists>s'. fs_fsm_handler (s\<lparr>fs_state := SLAVE_EAST_REQ\<rparr>) = Some (s', [])
            \<and> fs_state s' = IDLE
            \<and> fs_syncro_val s' EAST_WEST = (fs_syncro_val s EAST_WEST)[unat i := 1]))"
proof -
  have "a \<noteq> 0" using assms(4) by auto
  then show ?thesis
    using assms
    by (auto simp: fs_fsm_handler_def fs_slave_west_def fs_slave_east_def fs_pair_req_def Let_def fs_defs
        and_bit_mask_0)
qed

theorem fractal_west_tests_east_witness:
  "\<exists>s s1 s2. fs_handle_req (fs_init 1) (fs_req 4 0) EAST = Some (s, [To_master NORD_SUD (fs_req 4 0)])
    \<and> fs_slave_input s (fs_req 6 0) WEST = Some (s1, []) \<and> fs_fsm_handler s1 = Some (s2, [])
    \<and> fs_state s2 = EAST_WEST_UP_SYNCRO"
proof -
  define s where "s = fs_set_aggr EAST 0 4 (fs_init 1)"
  define s1 where "s1 = fs_accept s (fs_req 6 0) WEST"
  have a: "fs_handle_req (fs_init 1) (fs_req 4 0) EAST = Some (s, [To_master NORD_SUD (fs_req 4 0)])"
    by (simp add: fs_handle_req_def fs_req_def fs_init_def fs_level_def s_def highest_bit_examples and_bit_mask
        bit_examples)
  have b: "fs_slave_input s (fs_req 6 0) WEST = Some (s1, [])"
    using fs_handle_local [of s "fs_req 6 0" WEST]
    by (simp add: fs_slave_input_def s1_def local_req_def fs_req_def bit_examples s_def fs_set_aggr_def fs_init_def)
  have "s1\<lparr>fs_state := SLAVE_WEST_REQ\<rparr> = s1"
    by (simp add: s1_def fs_accept_def fs_goto_def)
  then show ?thesis
    using a b fractal_west_tests_east [of s1 0 6 4]
    by (auto simp: s1_def fs_accept_def fs_goto_def fs_req_def s_def fs_set_aggr_def fs_init_def bit_examples
        highest_bit_examples)
qed

end
