(* ===== verification/Idma_Me.thy ===== *)
theory Idma_Me
  imports Prelude
begin

section \<open>The iDMA middle-ends (\<open>src/pulp/idma/me/idma_me_2d.cpp\<close>, \<open>idma_me_3d.cpp\<close>)\<close>

text \<open>
  A middle-end takes multi-dimensional transfers from the front-end, cuts them into lines and hands
  one line per turn to the back-end, when that is ready. Transfers are heap objects in the code; here
  they are named by numbers, \<open>me_store\<close> giving the fields the front-end has set and one function per
  field the middle-end changes. \<open>me_event\<close> tells that the clock event is enqueued. Calls on the
  front-end and the back-end are appended to \<open>me_calls\<close>; \<open>ready\<close> is the answer of the back-end's
  \<open>can_accept_transfer\<close>. The two middle-ends share all operations but the state machine.
\<close>

record transfer =
  t_src :: u64
  t_dst :: u64
  t_size :: u64
  t_src_stride :: u64
  t_dst_stride :: u64
  t_reps :: u64
  t_config :: u64
  t_collective_op :: u8
  t_collective_mask :: u64
  t_data :: "u64 list"

record burst =
  b_src :: u64
  b_dst :: u64
  b_size :: u64
  b_collective_op :: u8
  b_collective_mask :: u64

datatype me_call = Be_enqueue nat burst | Fe_update | Fe_ack nat

record 'c me =
  me_store :: "nat \<Rightarrow> transfer"
  me_nb_bursts :: "nat \<Rightarrow> int"
  me_bursts_sent :: "nat \<Rightarrow> bool"
  me_queue :: "nat list"
  me_current :: "nat option"
  me_cursor :: 'c
  me_event :: bool
  me_calls :: "me_call list"

definition me_call :: "me_call \<Rightarrow> 'c me \<Rightarrow> 'c me" where
  "me_call x s = s\<lparr>me_calls := me_calls s @ [x]\<rparr>"

definition me_enqueue_transfer :: "nat \<Rightarrow> transfer \<Rightarrow> 'c me \<Rightarrow> 'c me" where
  "me_enqueue_transfer i t s =
     s\<lparr>me_store := (me_store s)(i := t), me_nb_bursts := (me_nb_bursts s)(i := 0),
       me_bursts_sent := (me_bursts_sent s)(i := False), me_queue := me_queue s @ [i], me_event := True\<rparr>"

definition me_can_accept_transfer :: "nat \<Rightarrow> 'c me \<Rightarrow> bool" where
  "me_can_accept_transfer transfer_queue_size s \<longleftrightarrow> length (me_queue s) < transfer_queue_size"

text \<open>The back-end acknowledges a burst whose parent is \<open>i\<close>.\<close>

definition me_ack_transfer :: "nat \<Rightarrow> 'c me \<Rightarrow> 'c me" where
  "me_ack_transfer i s =
     (let s1 = s\<lparr>me_nb_bursts := (me_nb_bursts s)(i := me_nb_bursts s i - 1)\<rparr>
      in if me_bursts_sent s1 i \<and> me_nb_bursts s1 i = 0 then me_call (Fe_ack i) s1 else s1)"

definition me_reset :: "'c me \<Rightarrow> 'c me" where
  "me_reset s = s\<lparr>me_queue := [], me_current := None\<rparr>"

definition me_update :: "'c me \<Rightarrow> 'c me" where
  "me_update s = s\<lparr>me_event := True\<rparr>"

text \<open>The end of the current transfer, in both state machines.\<close>

definition me_finish :: "nat \<Rightarrow> 'c me \<Rightarrow> 'c me" where
  "me_finish i s = me_call Fe_update
     (s\<lparr>me_bursts_sent := (me_bursts_sent s)(i := True), me_current := None, me_queue := tl (me_queue s)\<rparr>)"

subsection \<open>Two dimensions\<close>

record me2d_cursor =
  c2_src :: u64
  c2_dst :: u64
  c2_reps :: u64

definition me2d_load :: "transfer \<Rightarrow> me2d_cursor" where
  "me2d_load t = \<lparr>c2_src = t_src t, c2_dst = t_dst t, c2_reps = (if bit (t_config t) 1 then t_reps t else 1)\<rparr>"

definition me2d_burst :: "transfer \<Rightarrow> me2d_cursor \<Rightarrow> burst" where
  "me2d_burst t c = \<lparr>b_src = c2_src c, b_dst = c2_dst c, b_size = t_size t,
     b_collective_op = t_collective_op t, b_collective_mask = t_collective_mask t\<rparr>"

definition me2d_fsm_handler :: "bool \<Rightarrow> me2d_cursor me \<Rightarrow> me2d_cursor me" where
  "me2d_fsm_handler ready s0 =
     (let s = s0\<lparr>me_event := False\<rparr>;
          s1 = (if me_queue s \<noteq> [] \<and> me_current s = None
                then s\<lparr>me_current := Some (hd (me_queue s)), me_cursor := me2d_load (me_store s (hd (me_queue s)))\<rparr>
                else s)
      in case me_current s1 of
           None \<Rightarrow> s1
         | Some i \<Rightarrow>
             if ready then
               let t = me_store s1 i; c = me_cursor s1;
                   s2 = s1\<lparr>me_nb_bursts := (me_nb_bursts s1)(i := me_nb_bursts s1 i + 1)\<rparr>;
                   c1 = c\<lparr>c2_reps := c2_reps c - 1\<rparr>;
                   s3 = (if c2_reps c1 = 0 then me_finish i (s2\<lparr>me_cursor := c1\<rparr>)
                         else s2\<lparr>me_cursor := c1\<lparr>c2_src := c2_src c1 + t_src_stride t,
                                                 c2_dst := c2_dst c1 + t_dst_stride t\<rparr>\<rparr>)
               in (me_call (Be_enqueue i (me2d_burst t c)) s3)\<lparr>me_event := True\<rparr>
             else s1)"

subsection \<open>Three dimensions\<close>

record me3d_cursor =
  c3_src :: u64
  c3_dst :: u64
  c3_reps :: u64
  c3_reps_init :: u64
  c3_reps_3d :: u64

definition me3d_load :: "transfer \<Rightarrow> me3d_cursor" where
  "me3d_load t =
     (let reps = (if bit (t_config t) 1 then t_reps t else 1)
      in \<lparr>c3_src = t_src t, c3_dst = t_dst t, c3_reps = reps, c3_reps_init = reps,
          c3_reps_3d = (if bit (t_config t) 2 \<and> 4 \<le> length (t_data t) then t_data t ! 2 else 1)\<rparr>)"

definition me3d_burst :: "transfer \<Rightarrow> me3d_cursor \<Rightarrow> burst" where
  "me3d_burst t c = \<lparr>b_src = c3_src c, b_dst = c3_dst c, b_size = t_size t,
     b_collective_op = 0, b_collective_mask = 0\<rparr>"

definition me3d_fsm_handler :: "bool \<Rightarrow> me3d_cursor me \<Rightarrow> me3d_cursor me" where
  "me3d_fsm_handler ready s0 =
     (let s = s0\<lparr>me_event := False\<rparr>;
          s1 = (if me_queue s \<noteq> [] \<and> me_current s = None
                then s\<lparr>me_current := Some (hd (me_queue s)), me_cursor := me3d_load (me_store s (hd (me_queue s)))\<rparr>
                else s)
      in case me_current s1 of
           None \<Rightarrow> s1
         | Some i \<Rightarrow>
             if ready then
               let t = me_store s1 i; c = me_cursor s1;
                   s2 = s1\<lparr>me_nb_bursts := (me_nb_bursts s1)(i := me_nb_bursts s1 i + 1)\<rparr>;
                   c1 = c\<lparr>c3_reps := c3_reps c - 1\<rparr>;
                   s3 = (if c3_reps c1 = 0 then
                           let c2 = c1\<lparr>c3_reps_3d := c3_reps_3d c1 - 1\<rparr>
                           in if c3_reps_3d c2 = 0 then me_finish i (s2\<lparr>me_cursor := c2\<rparr>)
                              else s2\<lparr>me_cursor := c2\<lparr>c3_src := c3_src c2 + t_data t ! 0,
                                                      c3_dst := c3_dst c2 + t_data t ! 1,
                                                      c3_reps := c3_reps_init c2\<rparr>\<rparr>
                         else s2\<lparr>me_cursor := c1\<lparr>c3_src := c3_src c1 + t_src_stride t,
                                                 c3_dst := c3_dst c1 + t_dst_stride t\<rparr>\<rparr>)
               in (me_call (Be_enqueue i (me3d_burst t c)) s3)\<lparr>me_event := True\<rparr>
             else s1)"

end
