(* ===== verification/Idma_Me_Lines.thy ===== *)
theory Idma_Me_Lines
  imports Idma_Me
begin

section \<open>The lines of a transfer\<close>

text \<open>
  Both middle-ends walk over the lines of a transfer with a cursor. The interface of the walk is the
  locale \<open>line_source\<close>: how a cursor is loaded, the line it stands on, the step to the next one, and
  the list of the lines that remain. The invariant of the queue and of the acknowledgements is proved
  once over it, for every sequence of operations, and interpreted for the two state machines, whose
  lines are given in closed form.
\<close>

subsection \<open>Operations and their order\<close>

datatype me_op = Me_enqueue nat transfer | Me_turn bool | Me_ack nat | Me_update

text \<open>The clock runs the state machine only when its event is enqueued.\<close>

fun me_step :: "(bool \<Rightarrow> 'c me \<Rightarrow> 'c me) \<Rightarrow> me_op \<Rightarrow> 'c me \<Rightarrow> 'c me" where
  "me_step turn (Me_enqueue i t) s = me_enqueue_transfer i t s"
| "me_step turn (Me_turn ready) s = (if me_event s then turn ready s else s)"
| "me_step turn (Me_ack i) s = me_ack_transfer i s"
| "me_step turn Me_update s = me_update s"

definition me_run :: "(bool \<Rightarrow> 'c me \<Rightarrow> 'c me) \<Rightarrow> me_op list \<Rightarrow> 'c me \<Rightarrow> 'c me" where
  "me_run turn ops s = fold (me_step turn) ops s"

definition me_sent :: "'c me \<Rightarrow> (nat \<times> burst) list" where
  "me_sent s = concat (map (\<lambda>x. case x of Be_enqueue i b \<Rightarrow> [(i, b)] | _ \<Rightarrow> []) (me_calls s))"

definition me_enqueued :: "me_op list \<Rightarrow> (nat \<times> transfer) list" where
  "me_enqueued ops = concat (map (\<lambda>x. case x of Me_enqueue i t \<Rightarrow> [(i, t)] | _ \<Rightarrow> []) ops)"

definition me_acks :: "nat \<Rightarrow> me_op list \<Rightarrow> nat" where
  "me_acks i ops = length (filter (\<lambda>x. x = Me_ack i) ops)"

definition count_of :: "nat \<Rightarrow> (nat \<times> burst) list \<Rightarrow> nat" where
  "count_of i bs = length (filter (\<lambda>x. fst x = i) bs)"

text \<open>
  What the neighbours respect: a new transfer is a new object, and the back-end acknowledges a burst
  once, after it was given it. \<open>h\<close> is what happened before.
\<close>

fun me_op_ok :: "me_op list \<Rightarrow> me_op \<Rightarrow> 'c me \<Rightarrow> bool" where
  "me_op_ok h (Me_enqueue i t) s \<longleftrightarrow> i \<notin> fst ` set (me_enqueued h)"
| "me_op_ok h (Me_ack i) s \<longleftrightarrow> i \<in> fst ` set (me_enqueued h) \<and> me_acks i h < count_of i (me_sent s)"
| "me_op_ok h _ s \<longleftrightarrow> True"

fun me_ok :: "(bool \<Rightarrow> 'c me \<Rightarrow> 'c me) \<Rightarrow> me_op list \<Rightarrow> me_op list \<Rightarrow> 'c me \<Rightarrow> bool" where
  "me_ok turn h [] s \<longleftrightarrow> True"
| "me_ok turn h (x # xs) s \<longleftrightarrow> me_op_ok h x s \<and> me_ok turn (h @ [x]) xs (me_step turn x s)"

definition me_idle :: "'c me \<Rightarrow> bool" where
  "me_idle s \<longleftrightarrow> me_queue s = [] \<and> me_current s = None \<and> me_calls s = []"

subsection \<open>One turn, over the interface\<close>

definition me_take :: "(transfer \<Rightarrow> 'c) \<Rightarrow> 'c me \<Rightarrow> 'c me" where
  "me_take load s =
     (if me_queue s \<noteq> [] \<and> me_current s = None
      then s\<lparr>me_current := Some (hd (me_queue s)), me_cursor := load (me_store s (hd (me_queue s)))\<rparr> else s)"

definition me_send ::
  "(transfer \<Rightarrow> 'c \<Rightarrow> burst) \<Rightarrow> (transfer \<Rightarrow> 'c \<Rightarrow> bool \<times> 'c) \<Rightarrow> nat \<Rightarrow> 'c me \<Rightarrow> 'c me" where
  "me_send emit step i s =
     (let t = me_store s i; c = me_cursor s;
          s2 = s\<lparr>me_nb_bursts := (me_nb_bursts s)(i := me_nb_bursts s i + 1), me_cursor := snd (step t c)\<rparr>;
          s3 = (if fst (step t c) then me_finish i s2 else s2)
      in (me_call (Be_enqueue i (emit t c)) s3)\<lparr>me_event := True\<rparr>)"

definition me_turn ::
  "(transfer \<Rightarrow> 'c) \<Rightarrow> (transfer \<Rightarrow> 'c \<Rightarrow> burst) \<Rightarrow> (transfer \<Rightarrow> 'c \<Rightarrow> bool \<times> 'c) \<Rightarrow> bool \<Rightarrow> 'c me \<Rightarrow> 'c me" where
  "me_turn load emit step ready s =
     (let s1 = me_take load (s\<lparr>me_event := False\<rparr>)
      in case me_current s1 of None \<Rightarrow> s1 | Some i \<Rightarrow> if ready then me_send emit step i s1 else s1)"

definition me_lines_of :: "(transfer \<Rightarrow> 'c) \<Rightarrow> (transfer \<Rightarrow> 'c \<Rightarrow> burst list) \<Rightarrow> transfer \<Rightarrow> burst list" where
  "me_lines_of load rest t = rest t (load t)"

definition me_tag :: "(transfer \<Rightarrow> burst list) \<Rightarrow> (nat \<times> transfer) list \<Rightarrow> (nat \<times> burst) list" where
  "me_tag f its = concat (map (\<lambda>(i, t). map (Pair i) (f t)) its)"

definition me_pending ::
  "(transfer \<Rightarrow> 'c) \<Rightarrow> (transfer \<Rightarrow> 'c \<Rightarrow> burst list) \<Rightarrow> 'c me \<Rightarrow> (nat \<times> burst) list" where
  "me_pending load rest s =
     (let all = (\<lambda>is. me_tag (me_lines_of load rest) (map (\<lambda>i. (i, me_store s i)) is))
      in case me_current s of
           None \<Rightarrow> all (me_queue s)
         | Some i \<Rightarrow> map (Pair i) (rest (me_store s i) (me_cursor s)) @ all (tl (me_queue s)))"

text \<open>The invariant: \<open>h\<close> is the history, \<open>lns\<close> the lines of a transfer.\<close>

definition me_inv ::
  "(transfer \<Rightarrow> 'c) \<Rightarrow> (transfer \<Rightarrow> 'c \<Rightarrow> burst list) \<Rightarrow> me_op list \<Rightarrow> 'c me \<Rightarrow> bool" where
  "me_inv load rest h s \<longleftrightarrow>
     distinct (map fst (me_enqueued h))
   \<and> (\<forall>(i, t) \<in> set (me_enqueued h). me_store s i = t)
   \<and> (\<exists>finished. map fst (me_enqueued h) = finished @ me_queue s)
   \<and> (\<forall>i. me_current s = Some i \<longrightarrow> me_queue s \<noteq> [] \<and> hd (me_queue s) = i)
   \<and> me_sent s @ me_pending load rest s = me_tag (me_lines_of load rest) (me_enqueued h)
   \<and> (\<forall>i \<in> fst ` set (me_enqueued h).
         (me_bursts_sent s i \<longleftrightarrow> i \<notin> set (me_queue s))
       \<and> me_nb_bursts s i = int (count_of i (me_sent s)) - int (me_acks i h)
       \<and> me_acks i h \<le> count_of i (me_sent s)
       \<and> count_list (me_calls s) (Fe_ack i)
           = of_bool (i \<notin> set (me_queue s) \<and> me_acks i h = count_of i (me_sent s)))
   \<and> (\<forall>i. i \<notin> fst ` set (me_enqueued h) \<longrightarrow>
         count_of i (me_sent s) = 0 \<and> me_acks i h = 0 \<and> count_list (me_calls s) (Fe_ack i) = 0)"

lemma me_sent_append [simp]:
  "me_sent (s\<lparr>me_calls := me_calls s @ [Be_enqueue i b]\<rparr>) = me_sent s @ [(i, b)]"
  "me_sent (s\<lparr>me_calls := me_calls s @ [Fe_ack i]\<rparr>) = me_sent s"
  "me_sent (s\<lparr>me_calls := me_calls s @ [Fe_update]\<rparr>) = me_sent s"
  by (simp_all add: me_sent_def)

lemma me_sent_cong: "me_calls s = me_calls t \<Longrightarrow> me_sent s = me_sent t"
  by (simp add: me_sent_def)

lemma me_enqueued_simps [simp]:
  "me_enqueued [] = []" "me_enqueued (h @ h') = me_enqueued h @ me_enqueued h'"
  "me_enqueued (Me_enqueue i t # h) = (i, t) # me_enqueued h" "me_enqueued (Me_turn r # h) = me_enqueued h"
  "me_enqueued (Me_ack i # h) = me_enqueued h" "me_enqueued (Me_update # h) = me_enqueued h"
  by (simp_all add: me_enqueued_def)

lemma me_acks_simps [simp]:
  "me_acks i [] = 0" "me_acks i (h @ h') = me_acks i h + me_acks i h'"
  "me_acks i (Me_enqueue j t # h) = me_acks i h" "me_acks i (Me_turn r # h) = me_acks i h"
  "me_acks i (Me_ack j # h) = of_bool (i = j) + me_acks i h" "me_acks i (Me_update # h) = me_acks i h"
  by (auto simp: me_acks_def)

lemma count_of_simps [simp]:
  "count_of i [] = 0" "count_of i (bs @ bs') = count_of i bs + count_of i bs'"
  "count_of i (x # bs) = of_bool (fst x = i) + count_of i bs"
  by (simp_all add: count_of_def)

lemma count_of_map_Pair [simp]: "count_of i (map (Pair j) bs) = (if i = j then length bs else 0)"
  by (induction bs) auto

lemma me_tag_simps [simp]:
  "me_tag f [] = []" "me_tag f (x # xs) = map (Pair (fst x)) (f (snd x)) @ me_tag f xs"
  "me_tag f (xs @ ys) = me_tag f xs @ me_tag f ys"
  by (simp_all add: me_tag_def case_prod_unfold)

lemma count_of_me_tag_0: "i \<notin> fst ` set its \<Longrightarrow> count_of i (me_tag f its) = 0"
  by (induction its) auto

lemma count_of_me_tag: "distinct (map fst its) \<Longrightarrow> (i, t) \<in> set its \<Longrightarrow> count_of i (me_tag f its) = length (f t)"
proof (induction its)
  case (Cons x its)
  show ?case
  proof (cases "fst x = i")
    case True
    then have "i \<notin> fst ` set its" using Cons.prems(1) by simp
    moreover from this have "x = (i, t)" using Cons.prems(2) by force
    ultimately show ?thesis by (simp add: count_of_me_tag_0)
  next
    case False
    then show ?thesis using Cons by auto
  qed
qed simp

lemma count_queue:
  "(\<And>t. f t \<noteq> []) \<Longrightarrow> count_of i (me_tag f (map (\<lambda>i. (i, st i)) is)) = 0 \<longleftrightarrow> i \<notin> set is"
  by (induction "is") auto

lemma me_tag_cong: "(\<And>x. x \<in> set xs \<Longrightarrow> g x = h x) \<Longrightarrow> me_tag f (map g xs) = me_tag f (map h xs)"
  by (simp cong: map_cong)

subsection \<open>The invariant, over the interface\<close>

lemma me_pending_cong:
  "me_store s = me_store t \<Longrightarrow> me_queue s = me_queue t \<Longrightarrow> me_current s = me_current t \<Longrightarrow>
    me_cursor s = me_cursor t \<Longrightarrow> me_pending load rest s = me_pending load rest t"
  by (simp add: me_pending_def split: option.split)

lemma me_pending_event [simp]: "me_pending load rest (s\<lparr>me_event := e\<rparr>) = me_pending load rest s"
  by (rule me_pending_cong) simp_all

lemma me_sent_event [simp]: "me_sent (s\<lparr>me_event := e\<rparr>) = me_sent s"
  by (simp add: me_sent_def)

lemma me_inv_event [simp]: "me_inv load rest h (s\<lparr>me_event := e\<rparr>) = me_inv load rest h s"
  by (simp add: me_inv_def)

lemma me_inv_history [simp]:
  "me_inv load rest (h @ [Me_turn r]) s = me_inv load rest h s"
  "me_inv load rest (h @ [Me_update]) s = me_inv load rest h s"
  by (simp_all add: me_inv_def)

lemma me_inv_idle: "me_idle s \<Longrightarrow> me_inv load rest [] s"
  by (simp add: me_inv_def me_idle_def me_sent_def me_pending_def)

lemma me_inv_take:
  assumes "me_inv load rest h s"
  shows "me_inv load rest h (me_take load s)" and "me_sent (me_take load s) = me_sent s"
    and "me_pending load rest (me_take load s) = me_pending load rest s"
proof -
  show sent: "me_sent (me_take load s) = me_sent s" by (simp add: me_take_def me_sent_def)
  show pending: "me_pending load rest (me_take load s) = me_pending load rest s"
    by (cases "me_queue s") (auto simp: me_take_def me_pending_def me_lines_of_def)
  show "me_inv load rest h (me_take load s)"
    using assms unfolding me_inv_def sent pending by (auto simp: me_take_def)
qed

lemma me_inv_enqueue:
  assumes inv: "me_inv load rest h s" and fresh: "i \<notin> fst ` set (me_enqueued h)"
  shows "me_inv load rest (h @ [Me_enqueue i t]) (me_enqueue_transfer i t s)"
proof -
  let ?s = "me_enqueue_transfer i t s"
  have queued: "j \<in> fst ` set (me_enqueued h)" if "j \<in> set (me_queue s)" for j
    using inv that unfolding me_inv_def by (metis Un_iff set_append set_map)
  have fresh': "(i, t') \<notin> set (me_enqueued h)" for t' using fresh by force
  have notin: "i \<notin> set (me_queue s)" using queued fresh by blast
  have sent: "me_sent ?s = me_sent s" by (simp add: me_enqueue_transfer_def me_sent_def)
  have cong: "me_tag f (map (\<lambda>j. (j, ((me_store s)(i := t)) j)) js) = me_tag f (map (\<lambda>j. (j, me_store s j)) js)"
    if "i \<notin> set js" for f js
    using that by (intro me_tag_cong) auto
  have tl: "i \<notin> set (tl (me_queue s))" using notin by (cases "me_queue s") auto
  have current: "me_current s = Some j \<Longrightarrow> me_queue s \<noteq> [] \<and> j \<noteq> i" for j
    using inv notin unfolding me_inv_def by (metis hd_in_set)
  have pending: "me_pending load rest ?s = me_pending load rest s @ map (Pair i) (me_lines_of load rest t)"
  proof (cases "me_current s")
    case None
    then show ?thesis using cong [OF notin] by (simp add: me_pending_def me_enqueue_transfer_def)
  next
    case (Some j)
    then show ?thesis using cong [OF tl] current by (simp add: me_pending_def me_enqueue_transfer_def)
  qed
  have calls: "me_calls ?s = me_calls s" by (simp add: me_enqueue_transfer_def)
  have others: "count_of i (me_sent s) = 0" "me_acks i h = 0" "count_list (me_calls s) (Fe_ack i) = 0"
    using inv fresh unfolding me_inv_def by blast+
  show ?thesis
    using inv fresh fresh' others notin unfolding me_inv_def sent pending calls
    by (auto simp: me_enqueue_transfer_def hd_append)
qed

lemma me_inv_ack:
  assumes inv: "me_inv load rest h s" and i: "i \<in> fst ` set (me_enqueued h)" and less: "me_acks i h < count_of i (me_sent s)"
  shows "me_inv load rest (h @ [Me_ack i]) (me_ack_transfer i s)"
proof -
  let ?s = "me_ack_transfer i s"
  have pending: "me_pending load rest ?s = me_pending load rest s"
    by (rule me_pending_cong) (simp_all add: me_ack_transfer_def me_call_def Let_def)
  have same: "me_sent ?s = me_sent s"
      "me_queue ?s = me_queue s" "me_store ?s = me_store s" "me_current ?s = me_current s"
      "me_bursts_sent ?s = me_bursts_sent s"
      "me_nb_bursts ?s = (me_nb_bursts s)(i := me_nb_bursts s i - 1)"
    by (simp_all add: me_ack_transfer_def me_call_def Let_def me_sent_def)
  have facts: "me_bursts_sent s i \<longleftrightarrow> i \<notin> set (me_queue s)"
      "me_nb_bursts s i = int (count_of i (me_sent s)) - int (me_acks i h)"
    using inv i unfolding me_inv_def by blast+
  have calls: "count_list (me_calls ?s) (Fe_ack j) = count_list (me_calls s) (Fe_ack j)
      + of_bool (j = i \<and> i \<notin> set (me_queue s) \<and> Suc (me_acks i h) = count_of i (me_sent s))" for j
    using facts by (auto simp: me_ack_transfer_def me_call_def Let_def)
  show ?thesis
    using inv i less unfolding me_inv_def same pending calls by (auto simp: facts(2))
qed

subsection \<open>The interface\<close>

text \<open>
  \<open>step\<close> tells whether the line of the cursor is the last one and gives the next cursor; \<open>rest\<close> is the
  list of the lines from a cursor on.
\<close>

locale line_source =
  fixes load :: "transfer \<Rightarrow> 'c"
    and emit :: "transfer \<Rightarrow> 'c \<Rightarrow> burst"
    and step :: "transfer \<Rightarrow> 'c \<Rightarrow> bool \<times> 'c"
    and rest :: "transfer \<Rightarrow> 'c \<Rightarrow> burst list"
  assumes rest_step: "rest t c = emit t c # (if fst (step t c) then [] else rest t (snd (step t c)))"
begin

lemma send_sent:
  assumes inv: "me_inv load rest h s" and i: "me_current s = Some i"
  shows "me_sent (me_send emit step i s) = me_sent s @ [(i, emit (me_store s i) (me_cursor s))]"
    and "me_pending load rest s
      = (i, emit (me_store s i) (me_cursor s)) # me_pending load rest (me_send emit step i s)"
proof -
  let ?t = "me_store s i" and ?c = "me_cursor s"
  show "me_sent (me_send emit step i s) = me_sent s @ [(i, emit ?t ?c)]"
    by (simp add: me_send_def me_finish_def me_call_def Let_def me_sent_def)
  have "me_pending load rest s = map (Pair i) (rest ?t ?c)
      @ me_tag (me_lines_of load rest) (map (\<lambda>i. (i, me_store s i)) (tl (me_queue s)))"
    using i by (simp add: me_pending_def)
  also have "\<dots> = (i, emit ?t ?c) # me_pending load rest (me_send emit step i s)"
    using i by (subst rest_step) (simp add: me_send_def me_finish_def me_call_def Let_def me_pending_def)
  finally show "me_pending load rest s = (i, emit ?t ?c) # me_pending load rest (me_send emit step i s)" .
qed

lemma inv_send:
  assumes inv: "me_inv load rest h s" and i: "me_current s = Some i"
  shows "me_inv load rest h (me_send emit step i s)"
proof -
  let ?s = "me_send emit step i s" and ?last = "fst (step (me_store s i) (me_cursor s))"
  note sent = send_sent [OF inv i]
  obtain q where q: "me_queue s = i # q" using inv i unfolding me_inv_def by (metis list.collapse)
  obtain finished where fin: "map fst (me_enqueued h) = finished @ i # q"
    using inv q unfolding me_inv_def by auto
  have dist: "distinct (map fst (me_enqueued h))" using inv unfolding me_inv_def by blast
  have iq: "i \<notin> set q" using dist fin by simp
  have known: "i \<in> fst ` set (me_enqueued h)"
    using fin by (metis in_set_conv_decomp set_map)
  have same: "me_store ?s = me_store s" "me_queue ?s = (if ?last then q else i # q)"
      "me_current ?s = (if ?last then None else Some i)"
      "me_bursts_sent ?s = (if ?last then (me_bursts_sent s)(i := True) else me_bursts_sent s)"
      "me_nb_bursts ?s = (me_nb_bursts s)(i := me_nb_bursts s i + 1)"
      "\<And>j. count_list (me_calls ?s) (Fe_ack j) = count_list (me_calls s) (Fe_ack j)"
    using q i by (auto simp: me_send_def me_finish_def me_call_def Let_def)
  have split: "\<exists>finished. map fst (me_enqueued h) = finished @ me_queue ?s"
    using fin by (auto simp: same)
  have all: "me_sent ?s @ me_pending load rest ?s = me_tag (me_lines_of load rest) (me_enqueued h)"
    using inv sent unfolding me_inv_def by simp
  have le: "me_acks i h \<le> count_of i (me_sent s)" using inv known unfolding me_inv_def by blast
  show ?thesis
    using inv dist split all le known iq unfolding me_inv_def same sent(1) q by auto
qed

lemma inv_turn:
  assumes "me_inv load rest h s"
  shows "me_inv load rest h (me_turn load emit step ready s)"
proof -
  have "me_inv load rest h (me_take load (s\<lparr>me_event := False\<rparr>))"
    using assms me_inv_take(1) by (metis me_inv_event)
  then show ?thesis
    by (auto simp: me_turn_def Let_def inv_send split: option.split)
qed

lemma inv_step:
  assumes "me_inv load rest h s" and "me_op_ok h x s"
  shows "me_inv load rest (h @ [x]) (me_step (me_turn load emit step) x s)"
proof (cases x)
  case (Me_turn ready)
  then show ?thesis using assms(1) inv_turn by simp
next
  case (Me_ack i)
  then show ?thesis using me_inv_ack [of load rest h s i] assms by simp
qed (use assms me_inv_enqueue in \<open>auto simp: me_update_def\<close>)

lemma inv_run:
  "me_inv load rest h s \<Longrightarrow> me_ok (me_turn load emit step) h ops s
    \<Longrightarrow> me_inv load rest (h @ ops) (me_run (me_turn load emit step) ops s)"
proof (induction ops arbitrary: h s)
  case (Cons x ops)
  then show ?case using inv_step [of h s x] Cons.IH [of "h @ [x]"] by (simp add: me_run_def)
qed (simp add: me_run_def)

text \<open>With a ready back-end, every turn sends the next pending line.\<close>

lemma turn_sends:
  assumes inv: "me_inv load rest h s" and pending: "me_pending load rest s = x # xs"
  shows "me_sent (me_turn load emit step True s) = me_sent s @ [x]
    \<and> me_pending load rest (me_turn load emit step True s) = xs \<and> me_event (me_turn load emit step True s)"
proof -
  let ?s = "me_take load (s\<lparr>me_event := False\<rparr>)"
  have inv': "me_inv load rest h ?s" and pending': "me_pending load rest ?s = x # xs" and sent: "me_sent ?s = me_sent s"
    using me_inv_take [of load rest h "s\<lparr>me_event := False\<rparr>"] inv pending by simp_all
  obtain i where i: "me_current ?s = Some i"
    using pending by (cases "me_queue s") (auto simp: me_take_def me_pending_def split: option.splits)
  show ?thesis
    using send_sent [OF inv' i] pending' sent i
    by (simp add: me_turn_def Let_def me_send_def)
qed

lemma drains:
  "me_inv load rest h s \<Longrightarrow> me_event s \<Longrightarrow> me_pending load rest s = bs \<Longrightarrow>
    me_sent (me_run (me_turn load emit step) (replicate (length bs) (Me_turn True)) s) = me_sent s @ bs"
proof (induction bs arbitrary: s)
  case (Cons b bs)
  note sends = turn_sends [OF Cons.prems(1) Cons.prems(3)]
  have "me_sent (me_run (me_turn load emit step) (replicate (length bs) (Me_turn True)) (me_turn load emit step True s))
      = me_sent (me_turn load emit step True s) @ bs"
    using Cons.IH inv_turn [OF Cons.prems(1)] sends by blast
  then show ?case using sends Cons.prems(2) by (simp add: me_run_def)
qed (simp add: me_run_def)

lemma lines_in_order:
  assumes "me_idle s0" and "me_ok (me_turn load emit step) [] ops s0"
  shows "\<exists>later. me_sent (me_run (me_turn load emit step) ops s0) @ later
        = me_tag (me_lines_of load rest) (me_enqueued ops)
    \<and> me_sent (me_run (me_turn load emit step) (ops @ Me_update # replicate (length later) (Me_turn True)) s0)
        = me_tag (me_lines_of load rest) (me_enqueued ops)"
proof -
  let ?turn = "me_turn load emit step"
  let ?s = "me_run ?turn ops s0"
  have inv: "me_inv load rest ops ?s"
    using inv_run [OF me_inv_idle [OF assms(1)] assms(2)] by simp
  have "me_sent ?s @ me_pending load rest ?s = me_tag (me_lines_of load rest) (me_enqueued ops)"
    using inv unfolding me_inv_def by blast
  moreover have "me_sent (me_run ?turn (replicate (length (me_pending load rest ?s)) (Me_turn True)) (me_update ?s))
      = me_sent ?s @ me_pending load rest ?s"
    using drains [of ops "me_update ?s"] inv by (simp add: me_update_def)
  ultimately show ?thesis
    by (intro exI [of _ "me_pending load rest ?s"]) (simp add: me_run_def)
qed

lemma acks_once:
  assumes "me_idle s0" and "me_ok (me_turn load emit step) [] ops s0" and "(i, t) \<in> set (me_enqueued ops)"
  shows "count_list (me_calls (me_run (me_turn load emit step) ops s0)) (Fe_ack i)
    = of_bool (me_acks i ops = length (me_lines_of load rest t))"
proof -
  let ?s = "me_run (me_turn load emit step) ops s0"
  have inv: "me_inv load rest ops ?s"
    using inv_run [OF me_inv_idle [OF assms(1)] assms(2)] by simp
  have i: "i \<in> fst ` set (me_enqueued ops)" using assms(3) by force
  have "count_of i (me_sent ?s @ me_pending load rest ?s) = count_of i (me_tag (me_lines_of load rest) (me_enqueued ops))"
    using inv unfolding me_inv_def by simp
  also have "\<dots> = length (me_lines_of load rest t)"
    by (rule count_of_me_tag) (use inv assms(3) in \<open>auto simp: me_inv_def\<close>)
  finally have total: "count_of i (me_sent ?s) + count_of i (me_pending load rest ?s) = length (me_lines_of load rest t)"
    by simp
  have pos: "rest t c \<noteq> []" for t c by (subst rest_step) simp
  have "count_of i (me_pending load rest ?s) = 0 \<longleftrightarrow> i \<notin> set (me_queue ?s)"
    using inv count_queue [of "me_lines_of load rest"] pos
    by (cases "me_queue ?s") (auto simp: me_pending_def me_inv_def me_lines_of_def split: option.split)
  then show ?thesis using inv i total unfolding me_inv_def by auto
qed

end

end
