(* ===== verification/Idma_Me_Nd.thy ===== *)
theory Idma_Me_Nd
  imports Idma_Me_Lines
begin

section \<open>The lines of the two middle-ends\<close>

text \<open>
  The walk of each state machine as a step of its cursor, the lines that remain in closed form, and
  the interpretations of \<open>line_source\<close>. A count of zero repetitions is not an empty transfer: the code
  decrements before it tests, so the count wraps and \<open>2 ^ 64\<close> lines follow. The closed forms say so:
  the number of lines is \<open>Suc (unat (reps - 1))\<close>.
\<close>

definition u64_times :: "nat \<Rightarrow> u64 \<Rightarrow> u64" where
  "u64_times k stride = of_nat k * stride"

lemma u64_times_0 [simp]: "u64_times 0 d = 0"
  by (simp add: u64_times_def)

lemma u64_times_Suc [simp]: "u64_times (Suc k) d = d + u64_times k d"
  by (simp add: u64_times_def algebra_simps)

definition lines_left :: "u64 \<Rightarrow> nat" where
  "lines_left reps = Suc (unat (reps - 1))"

lemma lines_left_last [simp]: "lines_left 1 = Suc 0" "reps - 1 = 0 \<Longrightarrow> lines_left reps = Suc 0"
  by (simp_all add: lines_left_def)

lemma unat_Suc_pred: "(w :: u64) \<noteq> 0 \<Longrightarrow> unat w = Suc (unat (w - 1))"
  using unat_gt_0 [of w] by (simp add: unat_minus_one)

lemma lines_left_step: "reps - 1 \<noteq> 0 \<Longrightarrow> lines_left reps = Suc (lines_left (reps - 1))"
  by (simp add: lines_left_def unat_Suc_pred)

lemma map_upt_Suc_shift: "map f [0..<Suc n] = f 0 # map (\<lambda>k. f (Suc k)) [0..<n]"
  by (simp add: upt_conv_Cons map_Suc_upt [symmetric] del: upt_Suc map_Suc_upt)

subsection \<open>Two dimensions\<close>

definition me2d_step :: "transfer \<Rightarrow> me2d_cursor \<Rightarrow> bool \<times> me2d_cursor" where
  "me2d_step t c =
     (let c1 = c\<lparr>c2_reps := c2_reps c - 1\<rparr>
      in if c2_reps c1 = 0 then (True, c1)
         else (False, c1\<lparr>c2_src := c2_src c1 + t_src_stride t, c2_dst := c2_dst c1 + t_dst_stride t\<rparr>))"

text \<open>A run of lines from a given place.\<close>

definition me2d_page :: "transfer \<Rightarrow> u64 \<Rightarrow> u64 \<Rightarrow> nat \<Rightarrow> burst list" where
  "me2d_page t src dst n =
     map (\<lambda>k. \<lparr>b_src = src + u64_times k (t_src_stride t), b_dst = dst + u64_times k (t_dst_stride t),
               b_size = t_size t, b_collective_op = t_collective_op t, b_collective_mask = t_collective_mask t\<rparr>)
       [0..<n]"

definition me2d_rest :: "transfer \<Rightarrow> me2d_cursor \<Rightarrow> burst list" where
  "me2d_rest t c = me2d_page t (c2_src c) (c2_dst c) (lines_left (c2_reps c))"

definition me2d_lines :: "transfer \<Rightarrow> burst list" where
  "me2d_lines t = me2d_page t (t_src t) (t_dst t) (if bit (t_config t) 1 then lines_left (t_reps t) else 1)"

lemma me2d_page_simps [simp]:
  "me2d_page t src dst 0 = []"
  "me2d_page t src dst (Suc n) =
     \<lparr>b_src = src, b_dst = dst, b_size = t_size t, b_collective_op = t_collective_op t,
       b_collective_mask = t_collective_mask t\<rparr>
     # me2d_page t (src + t_src_stride t) (dst + t_dst_stride t) n"
  by (simp_all add: me2d_page_def map_upt_Suc_shift algebra_simps del: upt_Suc)

lemma me2d_turn: "me2d_fsm_handler = me_turn me2d_load me2d_burst me2d_step"
  by (intro ext)
     (simp add: me2d_fsm_handler_def me_turn_def me_take_def me_send_def me2d_step_def Let_def me_finish_def
        me_call_def split: option.split)

interpretation me2d: line_source me2d_load me2d_burst me2d_step me2d_rest
proof
  fix t :: transfer and c :: me2d_cursor
  show "me2d_rest t c = me2d_burst t c # (if fst (me2d_step t c) then [] else me2d_rest t (snd (me2d_step t c)))"
  proof (cases "c2_reps c - 1 = 0")
    case True
    then show ?thesis by (simp add: me2d_rest_def me2d_step_def Let_def me2d_burst_def)
  next
    case False
    then show ?thesis
      using lines_left_step [of "c2_reps c"]
      by (simp add: me2d_rest_def me2d_step_def Let_def me2d_burst_def)
  qed
qed

lemma me2d_lines_of: "me_lines_of me2d_load me2d_rest = me2d_lines"
  by (intro ext) (simp add: me_lines_of_def me2d_rest_def me2d_lines_def me2d_load_def)

subsection \<open>Three dimensions\<close>

definition me3d_step :: "transfer \<Rightarrow> me3d_cursor \<Rightarrow> bool \<times> me3d_cursor" where
  "me3d_step t c =
     (let c1 = c\<lparr>c3_reps := c3_reps c - 1\<rparr>
      in if c3_reps c1 = 0 then
           let c2 = c1\<lparr>c3_reps_3d := c3_reps_3d c1 - 1\<rparr>
           in if c3_reps_3d c2 = 0 then (True, c2)
              else (False, c2\<lparr>c3_src := c3_src c2 + t_data t ! 0, c3_dst := c3_dst c2 + t_data t ! 1,
                              c3_reps := c3_reps_init c2\<rparr>)
         else (False, c1\<lparr>c3_src := c3_src c1 + t_src_stride t, c3_dst := c3_dst c1 + t_dst_stride t\<rparr>))"

definition me3d_page :: "transfer \<Rightarrow> u64 \<Rightarrow> u64 \<Rightarrow> nat \<Rightarrow> burst list" where
  "me3d_page t src dst n =
     map (\<lambda>k. \<lparr>b_src = src + u64_times k (t_src_stride t), b_dst = dst + u64_times k (t_dst_stride t),
               b_size = t_size t, b_collective_op = 0, b_collective_mask = 0\<rparr>)
       [0..<n]"

text \<open>
  The distance of two pages whose lines number \<open>reps\<close>: the third stride is added to the last line of
  a page.
\<close>

definition page_stride :: "u64 \<Rightarrow> u64 \<Rightarrow> u64 \<Rightarrow> u64" where
  "page_stride reps line_stride stride_3 = (reps - 1) * line_stride + stride_3"

definition me3d_pages :: "transfer \<Rightarrow> u64 \<Rightarrow> u64 \<Rightarrow> u64 \<Rightarrow> nat \<Rightarrow> burst list" where
  "me3d_pages t src dst reps n =
     concat (map (\<lambda>p. me3d_page t (src + u64_times p (page_stride reps (t_src_stride t) (t_data t ! 0)))
                                  (dst + u64_times p (page_stride reps (t_dst_stride t) (t_data t ! 1)))
                                  (lines_left reps)) [0..<n])"

definition me3d_rest :: "transfer \<Rightarrow> me3d_cursor \<Rightarrow> burst list" where
  "me3d_rest t c = me3d_page t (c3_src c) (c3_dst c) (lines_left (c3_reps c))
     @ me3d_pages t (c3_src c + page_stride (c3_reps c) (t_src_stride t) (t_data t ! 0))
                    (c3_dst c + page_stride (c3_reps c) (t_dst_stride t) (t_data t ! 1))
                    (c3_reps_init c) (unat (c3_reps_3d c - 1))"

definition me3d_lines :: "transfer \<Rightarrow> burst list" where
  "me3d_lines t =
     me3d_pages t (t_src t) (t_dst t) (if bit (t_config t) 1 then t_reps t else 1)
       (if bit (t_config t) 2 \<and> 4 \<le> length (t_data t) then lines_left (t_data t ! 2) else 1)"

lemma me3d_page_simps [simp]:
  "me3d_page t src dst 0 = []"
  "me3d_page t src dst (Suc n) =
     \<lparr>b_src = src, b_dst = dst, b_size = t_size t, b_collective_op = 0, b_collective_mask = 0\<rparr>
     # me3d_page t (src + t_src_stride t) (dst + t_dst_stride t) n"
  by (simp_all add: me3d_page_def map_upt_Suc_shift algebra_simps del: upt_Suc)

lemma me3d_pages_simps [simp]:
  "me3d_pages t src dst reps 0 = []"
  "me3d_pages t src dst reps (Suc n) =
     me3d_page t src dst (lines_left reps)
     @ me3d_pages t (src + page_stride reps (t_src_stride t) (t_data t ! 0))
                    (dst + page_stride reps (t_dst_stride t) (t_data t ! 1)) reps n"
  by (simp_all add: me3d_pages_def map_upt_Suc_shift algebra_simps del: upt_Suc)

lemma me3d_turn: "me3d_fsm_handler = me_turn me3d_load me3d_burst me3d_step"
  by (intro ext)
     (simp add: me3d_fsm_handler_def me_turn_def me_take_def me_send_def me3d_step_def Let_def me_finish_def
        me_call_def split: option.split)

lemma page_stride_step: "page_stride reps d d3 = d + page_stride (reps - 1) d d3"
  by (simp add: page_stride_def algebra_simps)

lemma page_stride_last: "reps - 1 = 0 \<Longrightarrow> page_stride reps d d3 = d3"
  by (simp add: page_stride_def)

interpretation me3d: line_source me3d_load me3d_burst me3d_step me3d_rest
proof
  fix t :: transfer and c :: me3d_cursor
  consider "c3_reps c - 1 \<noteq> 0" | "c3_reps c - 1 = 0" "c3_reps_3d c - 1 = 0"
    | "c3_reps c - 1 = 0" "c3_reps_3d c - 1 \<noteq> 0" by blast
  then show "me3d_rest t c = me3d_burst t c # (if fst (me3d_step t c) then [] else me3d_rest t (snd (me3d_step t c)))"
  proof cases
    case 1
    then show ?thesis
      using lines_left_step [of "c3_reps c"] page_stride_step [of "c3_reps c"]
      by (simp add: me3d_rest_def me3d_step_def Let_def me3d_burst_def algebra_simps)
  next
    case 2
    then show ?thesis by (simp add: me3d_rest_def me3d_step_def Let_def me3d_burst_def)
  next
    case 3
    from 3(2) have "unat (c3_reps_3d c - 1) = Suc (unat (c3_reps_3d c - 1 - 1))"
      by (rule unat_Suc_pred)
    then show ?thesis
      using 3 by (simp add: me3d_rest_def me3d_step_def Let_def me3d_burst_def page_stride_last algebra_simps)
  qed
qed

lemma me3d_lines_of: "me_lines_of me3d_load me3d_rest = me3d_lines"
  by (intro ext) (simp add: me_lines_of_def me3d_rest_def me3d_lines_def me3d_load_def lines_left_def Let_def)

subsection \<open>Properties\<close>

text \<open>
  C13. The 3D middle-end sends the lines of every transfer, in order. Whatever the order in which
  transfers arrive, turns run and bursts are acknowledged, the bursts handed to the back-end are a
  beginning of the lines of the transfers, in their order of arrival, each with its parent; and as
  soon as the back-end is ready again (it notifies the middle-end), one turn per remaining line sends
  all of them. The lines are those of the closed form: pages of lines, the third stride counted from
  the last line of a page.
\<close>

theorem idma_me_3d_lines:
  assumes "me_idle s0" and "me_ok me3d_fsm_handler [] ops s0"
  shows "\<exists>later. me_sent (me_run me3d_fsm_handler ops s0) @ later = me_tag me3d_lines (me_enqueued ops)
    \<and> me_sent (me_run me3d_fsm_handler (ops @ Me_update # replicate (length later) (Me_turn True)) s0)
        = me_tag me3d_lines (me_enqueued ops)"
  using me3d.lines_in_order [of s0 ops] assms unfolding me3d_turn me3d_lines_of by blast

definition transfer_example :: transfer where
  "transfer_example = \<lparr>t_src = 0x1000, t_dst = 0x80, t_size = 16, t_src_stride = 0x100, t_dst_stride = 16, t_reps = 2,
     t_config = 6, t_collective_op = 1, t_collective_mask = 0xf, t_data = [0x800, 64, 2, 0]\<rparr>"

definition me3d_cursor_example :: me3d_cursor where
  "me3d_cursor_example = \<lparr>c3_src = 0, c3_dst = 0, c3_reps = 0, c3_reps_init = 0, c3_reps_3d = 0\<rparr>"

definition me2d_cursor_example :: me2d_cursor where
  "me2d_cursor_example = \<lparr>c2_src = 0, c2_dst = 0, c2_reps = 0\<rparr>"

definition me_start :: "'c \<Rightarrow> 'c me" where
  "me_start c = \<lparr>me_store = (\<lambda>_. transfer_example), me_nb_bursts = (\<lambda>_. 0), me_bursts_sent = (\<lambda>_. False), me_queue = [],
     me_current = None, me_cursor = c, me_event = False, me_calls = []\<rparr>"

definition line_example :: "u64 \<Rightarrow> u64 \<Rightarrow> burst" where
  "line_example src dst = \<lparr>b_src = src, b_dst = dst, b_size = 16, b_collective_op = 0, b_collective_mask = 0\<rparr>"

lemma config_examples: "bit (6 :: u64) 1" "bit (6 :: u64) (Suc 0)" "bit (6 :: u64) 2"
  by code_simp+

lemma lines_left_2 [simp]: "lines_left 2 = Suc (Suc 0)"
  by (simp add: lines_left_def)

lemma me3d_lines_example:
  "me3d_lines transfer_example
     = [line_example 0x1000 0x80, line_example 0x1100 0x90, line_example 0x1900 0xd0, line_example 0x1a00 0xe0]"
  by (simp add: me3d_lines_def transfer_example_def config_examples page_stride_def line_example_def)

lemma me_idle_start: "me_idle (me_start c)"
  by (simp add: me_idle_def me_start_def)

theorem idma_me_3d_lines_witness:
  "\<exists>later. me_sent (me_run me3d_fsm_handler [Me_enqueue 7 transfer_example, Me_turn True, Me_turn False] (me_start me3d_cursor_example)) @ later
    = [(7, line_example 0x1000 0x80), (7, line_example 0x1100 0x90), (7, line_example 0x1900 0xd0),
       (7, line_example 0x1a00 0xe0)]"
proof -
  have "me_ok me3d_fsm_handler [] [Me_enqueue 7 transfer_example, Me_turn True, Me_turn False] (me_start me3d_cursor_example)"
    by simp
  from idma_me_3d_lines [OF me_idle_start this] show ?thesis
    by (auto simp: me3d_lines_example)
qed

text \<open>
  The 2D middle-end, likewise: its lines carry the collective descriptor of the transfer, and
  without the 2D bit of the configuration a transfer is one line.
\<close>

theorem idma_me_2d_lines:
  assumes "me_idle s0" and "me_ok me2d_fsm_handler [] ops s0"
  shows "\<exists>later. me_sent (me_run me2d_fsm_handler ops s0) @ later = me_tag me2d_lines (me_enqueued ops)
    \<and> me_sent (me_run me2d_fsm_handler (ops @ Me_update # replicate (length later) (Me_turn True)) s0)
        = me_tag me2d_lines (me_enqueued ops)"
  using me2d.lines_in_order [of s0 ops] assms unfolding me2d_turn me2d_lines_of by blast

theorem idma_me_2d_lines_witness:
  "\<exists>later. me_sent (me_run me2d_fsm_handler [Me_enqueue 7 transfer_example, Me_turn True] (me_start me2d_cursor_example)) @ later
    = [(7, (line_example 0x1000 0x80)\<lparr>b_collective_op := 1, b_collective_mask := 0xf\<rparr>),
       (7, (line_example 0x1100 0x90)\<lparr>b_collective_op := 1, b_collective_mask := 0xf\<rparr>)]"
proof -
  have "me_ok me2d_fsm_handler [] [Me_enqueue 7 transfer_example, Me_turn True] (me_start me2d_cursor_example)" by simp
  from idma_me_2d_lines [OF me_idle_start this] show ?thesis
    by (auto simp: me2d_lines_def transfer_example_def config_examples line_example_def)
qed

text \<open>
  C17. A transfer is acknowledged once, by its last burst. The front-end has been told that a
  transfer is done exactly when the back-end has acknowledged as many of its bursts as it has lines:
  never before, and one single time, in whatever order the bursts of several transfers are
  acknowledged.
\<close>

theorem idma_me_acks_once:
  assumes "me_idle s0" and "me_ok me3d_fsm_handler [] ops s0" and "(i, t) \<in> set (me_enqueued ops)"
  shows "count_list (me_calls (me_run me3d_fsm_handler ops s0)) (Fe_ack i)
    = of_bool (me_acks i ops = length (me3d_lines t))"
  using me3d.acks_once [of s0 ops i t] assms unfolding me3d_turn me3d_lines_of by blast

definition line_transfer :: transfer where
  "line_transfer = transfer_example\<lparr>t_config := 0\<rparr>"

theorem idma_me_acks_once_witness:
  "count_list (me_calls (me_run me3d_fsm_handler [Me_enqueue 7 line_transfer, Me_turn True, Me_ack 7] (me_start me3d_cursor_example)))
     (Fe_ack 7) = 1"
proof -
  let ?ops = "[Me_enqueue 7 line_transfer, Me_turn True, Me_ack 7]"
  have "length (me3d_lines line_transfer) = 1"
    by (simp add: me3d_lines_def line_transfer_def transfer_example_def)
  moreover have "me_ok me3d_fsm_handler [] ?ops (me_start me3d_cursor_example)"
    by (simp add: me3d_turn me_turn_def me_take_def me_send_def me_enqueue_transfer_def me_start_def Let_def
        me3d_step_def me3d_load_def line_transfer_def transfer_example_def me_finish_def me_call_def me_sent_def)
  ultimately show ?thesis
    using idma_me_acks_once [OF me_idle_start, of ?ops me3d_cursor_example 7 line_transfer] by simp
qed

text \<open>On transfers of two dimensions the 3D middle-end sends the same lines, without the descriptor.\<close>

lemma me3d_lines_2d:
  "\<not> bit (t_config t) 2 \<Longrightarrow>
    me3d_lines t = map (\<lambda>b. b\<lparr>b_collective_op := 0, b_collective_mask := 0\<rparr>) (me2d_lines t)"
  by (simp add: me3d_lines_def me2d_lines_def me3d_page_def me2d_page_def)

end
