(* ===== verification/Idma_Be.thy ===== *)
theory Idma_Be
  imports Prelude
begin

section \<open>The iDMA back-end (\<open>src/pulp/idma/be/idma_be.cpp\<close>)\<close>

text \<open>
  The back-end cuts the current transfer into bursts that both of its protocols accept, hands each
  burst to the source protocol as a read and to the destination protocol as a write, and accounts the
  data that the destination acknowledges. A protocol is one of the four pointers of the code; what it
  answers is given per turn (\<open>be_env\<close>), its size of a legal burst as a function. Transfers are named
  by numbers as in the middle-end, a data pointer is a number, and calls on the protocols and the
  middle-end are appended to \<open>be_calls\<close>.
\<close>

datatype be_port = Loc_be_read | Loc_be_write | Ext_be_read | Ext_be_write

record be_transfer =
  bt_src :: u64
  bt_dst :: u64
  bt_size :: u64
  bt_ack_size :: u64

record be_env =
  can_accept_burst :: "be_port \<Rightarrow> bool"
  can_accept_data :: "be_port \<Rightarrow> bool"
  is_empty :: "be_port \<Rightarrow> bool"

datatype be_call = Read_burst be_port nat u64 u64 | Write_burst be_port nat u64 u64
  | Write_data be_port nat nat u64 | Write_data_ack be_port nat | Me_update | Me_ack_transfer nat

record idma_be =
  be_loc_base :: u64
  be_loc_size :: u64
  be_store :: "nat \<Rightarrow> be_transfer"
  be_current :: nat
  be_current_src :: u64
  be_current_dst :: u64
  be_current_size :: u64
  be_prev_src_be :: "be_port option"
  be_src_be :: be_port
  be_dst_be :: be_port
  be_event :: bool
  be_calls :: "be_call list"

definition be_call :: "be_call \<Rightarrow> idma_be \<Rightarrow> idma_be" where
  "be_call x s = s\<lparr>be_calls := be_calls s @ [x]\<rparr>"

definition get_be_consumer :: "idma_be \<Rightarrow> u64 \<Rightarrow> u64 \<Rightarrow> bool \<Rightarrow> be_port" where
  "get_be_consumer s base sz is_read =
     (let is_loc = base \<ge> be_loc_base s \<and> base + sz \<le> be_loc_base s + be_loc_size s
      in if is_loc then (if is_read then Loc_be_read else Loc_be_write)
         else (if is_read then Ext_be_read else Ext_be_write))"

definition be_enqueue_transfer :: "nat \<Rightarrow> be_transfer \<Rightarrow> idma_be \<Rightarrow> idma_be" where
  "be_enqueue_transfer i t s =
     s\<lparr>be_current := i, be_current_size := bt_size t,
       be_store := (be_store s)(i := t\<lparr>bt_ack_size := bt_size t\<rparr>),
       be_current_src := bt_src t, be_current_dst := bt_dst t,
       be_src_be := get_be_consumer s (bt_src t) (bt_size t) True,
       be_dst_be := get_be_consumer s (bt_dst t) (bt_size t) False,
       be_event := True\<rparr>"

definition be_can_accept_transfer :: "idma_be \<Rightarrow> bool" where
  "be_can_accept_transfer s \<longleftrightarrow> be_current_size s = 0"

definition be_may_send :: "be_env \<Rightarrow> idma_be \<Rightarrow> bool" where
  "be_may_send env s \<longleftrightarrow>
     (case be_prev_src_be s of None \<Rightarrow> True | Some p \<Rightarrow> p = be_src_be s \<or> is_empty env p)
     \<and> be_current_size s > 0
     \<and> can_accept_burst env (be_src_be s) \<and> can_accept_burst env (be_dst_be s)"

text \<open>\<open>gbs p base sz\<close> is \<open>get_burst_size\<close> of protocol \<open>p\<close>.\<close>

definition be_fsm_handler :: "(be_port \<Rightarrow> u64 \<Rightarrow> u64 \<Rightarrow> u64) \<Rightarrow> be_env \<Rightarrow> idma_be \<Rightarrow> idma_be" where
  "be_fsm_handler gbs env s0 =
     (let s = s0\<lparr>be_event := False\<rparr>
      in if be_may_send env s then
           let src = be_current_src s; dst = be_current_dst s; sz = be_current_size s;
               n1 = gbs (be_src_be s) src sz; n = gbs (be_dst_be s) dst n1;
               s1 = s\<lparr>be_prev_src_be := Some (be_src_be s)\<rparr>;
               s2 = be_call (Read_burst (be_src_be s) (be_current s) src n) s1;
               s3 = be_call (Write_burst (be_dst_be s) (be_current s) dst n) s2;
               s4 = s3\<lparr>be_current_size := sz - n, be_current_src := src + n, be_current_dst := dst + n,
                       be_event := True\<rparr>
           in if be_current_size s4 = 0 then be_call Me_update s4 else s4
         else s)"

definition be_update :: "idma_be \<Rightarrow> idma_be" where
  "be_update s = s\<lparr>be_event := True\<rparr>"

definition be_is_ready_to_accept_data :: "be_env \<Rightarrow> nat \<Rightarrow> idma_be \<Rightarrow> bool" where
  "be_is_ready_to_accept_data env i s =
     can_accept_data env (get_be_consumer s (bt_dst (be_store s i)) (bt_size (be_store s i)) False)"

definition be_write_data :: "nat \<Rightarrow> nat \<Rightarrow> u64 \<Rightarrow> idma_be \<Rightarrow> idma_be" where
  "be_write_data i ptr sz s =
     (let t = be_store s i;
          dst_be = get_be_consumer s (bt_dst t) (bt_size t) False;
          s1 = s\<lparr>be_store := (be_store s)(i := t\<lparr>bt_dst := bt_dst t + sz, bt_size := bt_size t - sz\<rparr>)\<rparr>
      in be_call (Write_data dst_be i ptr sz) s1)"

definition be_ack_data :: "nat \<Rightarrow> nat \<Rightarrow> int \<Rightarrow> idma_be \<Rightarrow> idma_be" where
  "be_ack_data i ptr sz s =
     (let t = be_store s i;
          src_be = get_be_consumer s (bt_src t) (bt_size t) True;
          s1 = be_call (Write_data_ack src_be ptr) s;
          t1 = t\<lparr>bt_ack_size := bt_ack_size t - of_int sz\<rparr>;
          s2 = s1\<lparr>be_store := (be_store s1)(i := t1)\<rparr>
      in if bt_ack_size t1 = 0 then be_call (Me_ack_transfer i) s2 else s2)"

definition be_reset :: "bool \<Rightarrow> idma_be \<Rightarrow> idma_be" where
  "be_reset active s = (if active then s\<lparr>be_current_size := 0, be_prev_src_be := None\<rparr> else s)"

subsection \<open>Legal sizes of the protocols\<close>

text \<open>
  \<open>IDmaBeTcdm::get_burst_size\<close>, \<open>IDmaBeTcdm::get_line_size\<close> for the interface width, and
  \<open>IDmaBeAxi::get_burst_size\<close> for the configured burst size. \<open>~(w - 1)\<close> is computed on \<open>int\<close> and
  extended to 64 bits.
\<close>

definition next_boundary :: "u64 \<Rightarrow> u64 \<Rightarrow> u64" where
  "next_boundary base w = (base + w - 1) AND NOT (w - 1)"

definition tcdm_get_burst_size :: "u64 \<Rightarrow> u64 \<Rightarrow> u64" where
  "tcdm_get_burst_size base sz = sz"

definition tcdm_get_line_size :: "u64 \<Rightarrow> u64 \<Rightarrow> u64 \<Rightarrow> u64" where
  "tcdm_get_line_size width base sz =
     (let n = min sz width; next_page = next_boundary base width
      in if next_page > base then min (next_page - base) n else n)"

definition AXI_PAGE_SIZE :: u64 where
  "AXI_PAGE_SIZE = 2 ^ 12"

definition axi_get_burst_size :: "32 word \<Rightarrow> u64 \<Rightarrow> u64 \<Rightarrow> u64" where
  "axi_get_burst_size burst_size base sz =
     (let n1 = min sz AXI_PAGE_SIZE;
          n2 = (if sint burst_size > 0 then min n1 (scast burst_size) else n1);
          next_page = next_boundary base AXI_PAGE_SIZE
      in if next_page > base then min (next_page - base) n2 else n2)"

end
