(* ===== verification/Idma_Be_Bursts.thy ===== *)
theory Idma_Be_Bursts
  imports Idma_Be
begin

section \<open>The bursts of the iDMA back-end\<close>

text \<open>
  The interface of a protocol as the back-end relies on it is the locale \<open>burst_protocol\<close>: a size it
  offers is positive, within what was asked and legal, and shorter bursts at the same place are legal
  too. It is interpreted for the TCDM and the AXI protocol. Over two such protocols the back-end is
  shown to cut every transfer into consecutive bursts, each legal on both sides.
\<close>

subsection \<open>The boundary computation\<close>

lemma and_not_mask_unat: "unat ((w :: u64) AND NOT (2 ^ k - 1)) = unat w div 2 ^ k * 2 ^ k"
proof -
  have "w AND NOT (2 ^ k - 1) = push_bit k (drop_bit k w)"
    unfolding mask_eq_exp_minus_1 [symmetric]
    by (rule bit_word_eqI) (auto simp: bit_simps bit_mask_iff)
  then have "unat (w AND NOT (2 ^ k - 1)) = take_bit 64 (push_bit k (drop_bit k (unat w)))"
    by (simp add: unsigned_push_bit_eq unsigned_drop_bit_eq take_bit_nat_eq_self [OF unat_u64_less])
  moreover have "unat w div 2 ^ k * 2 ^ k < 2 ^ 64"
    using unat_u64_less [of w] by (metis div_times_less_eq_dividend order_le_less_trans)
  ultimately show ?thesis by (simp add: take_bit_nat_eq_self push_bit_eq_mult drop_bit_eq_div)
qed

lemma round_up:
  fixes b w :: nat
  assumes "0 < w"
  shows "(b + (w - 1)) div w * w = (if b mod w = 0 then b else b + (w - b mod w))"
proof -
  obtain v where v: "w = Suc v" using assms by (cases w) auto
  define q r where "q = b div w" and "r = b mod w"
  have b: "b = w * q + r" by (simp add: q_def r_def)
  have "r < w" using assms by (simp add: r_def)
  then have r: "r \<le> v" using v by simp
  show ?thesis
  proof (cases "r = 0")
    case True
    have "(w * q + v) div w = q" by (rule div_nat_eqI) (simp_all add: v)
    then have "(b + (w - 1)) div w * w = b" using True b v by (simp add: mult.commute)
    then show ?thesis using True by (simp add: r_def)
  next
    case False
    have "(w * q + r + v) div w = Suc q" by (rule div_nat_eqI) (use False r v in simp_all)
    then have "(b + (w - 1)) div w * w = w * q + w" using b v by (simp add: mult.commute)
    also have "\<dots> = b + (w - r)" using b r v by simp
    finally show ?thesis using False by (simp add: r_def)
  qed
qed

text \<open>
  The boundary the code computes is the next multiple of the width from the address on, unless the
  computation wraps at the end of the address space.
\<close>

lemma next_boundary_unat:
  fixes base :: u64
  assumes "unat base + 2 ^ k \<le> 2 ^ 64"
  shows "unat (next_boundary base (2 ^ k))
    = (if unat base mod 2 ^ k = 0 then unat base else unat base + (2 ^ k - unat base mod 2 ^ k))"
proof -
  have "(of_nat (2 ^ k - 1) :: u64) = 2 ^ k - 1" by (simp add: of_nat_diff)
  then have "(base + 2 ^ k - 1 :: u64) = of_nat (unat base + (2 ^ k - 1))"
    by (simp only: of_nat_add of_nat_unat) simp
  then have "unat (base + 2 ^ k - 1 :: u64) = unat base + (2 ^ k - 1)"
    using assms by (simp add: unsigned_of_nat take_bit_nat_eq_self)
  then have "unat (next_boundary base (2 ^ k)) = (unat base + (2 ^ k - 1)) div 2 ^ k * 2 ^ k"
    by (simp add: next_boundary_def and_not_mask_unat)
  then show ?thesis using round_up [of "2 ^ k" "unat base"] by simp
qed

lemma next_boundary_limit:
  fixes base n :: u64
  assumes "unat base + 2 ^ k \<le> 2 ^ 64" and "unat n \<le> 2 ^ k"
    and "m = (if next_boundary base (2 ^ k) > base then min (next_boundary base (2 ^ k) - base) n else n)"
  shows "unat base mod 2 ^ k + unat m \<le> 2 ^ k"
proof (cases "unat base mod 2 ^ k = 0")
  case True
  then have "next_boundary base (2 ^ k) = base"
    using next_boundary_unat [OF assms(1)] by (simp add: word_unat_eq_iff)
  then show ?thesis using True assms(2,3) by simp
next
  case False
  have r: "unat base mod 2 ^ k < 2 ^ k" by simp
  have nb: "unat (next_boundary base (2 ^ k)) = unat base + (2 ^ k - unat base mod 2 ^ k)"
    using False next_boundary_unat [OF assms(1)] by simp
  then have gt: "next_boundary base (2 ^ k) > base" using r unfolding word_less_nat_alt by linarith
  then have "unat (next_boundary base (2 ^ k) - base) = 2 ^ k - unat base mod 2 ^ k"
    using nb by (simp add: unat_sub order_less_imp_le)
  moreover have "unat m \<le> unat (next_boundary base (2 ^ k) - base)"
    using assms(3) gt by (simp add: word_le_nat_alt min_def)
  ultimately show ?thesis using r by linarith
qed

subsection \<open>The interface of a protocol\<close>

locale burst_protocol =
  fixes gbs :: "u64 \<Rightarrow> u64 \<Rightarrow> u64"
    and legal :: "u64 \<Rightarrow> u64 \<Rightarrow> bool"
  assumes offered_positive: "0 < sz \<Longrightarrow> 0 < gbs base sz"
    and offered_within: "gbs base sz \<le> sz"
    and offered_legal: "legal base (gbs base sz)"
    and legal_shorter: "legal base n \<Longrightarrow> m \<le> n \<Longrightarrow> legal base m"

text \<open>What each protocol promises of a burst.\<close>

definition tcdm_legal :: "u64 \<Rightarrow> u64 \<Rightarrow> bool" where
  "tcdm_legal base n \<longleftrightarrow> True"

text \<open>At most a page and the configured size, and within one page.\<close>

definition axi_legal :: "32 word \<Rightarrow> u64 \<Rightarrow> u64 \<Rightarrow> bool" where
  "axi_legal burst_size base n \<longleftrightarrow> unat n \<le> 4096 \<and> (sint burst_size > 0 \<longrightarrow> n \<le> scast burst_size)
     \<and> (unat base + 4096 \<le> 2 ^ 64 \<longrightarrow> unat base mod 4096 + unat n \<le> 4096)"

interpretation tcdm: burst_protocol tcdm_get_burst_size tcdm_legal
  by unfold_locales (auto simp: tcdm_get_burst_size_def tcdm_legal_def)

lemma burst_size_positive: "0 < sint (bs :: 32 word) \<Longrightarrow> (0 :: u64) < scast bs"
proof -
  assume bs: "0 < sint bs"
  have "uint (scast bs :: u64) = uint (word_of_int (sint bs) :: u64)" by simp
  also have "\<dots> = take_bit 64 (sint bs)" by (simp only: unsigned_of_int) simp
  also have "\<dots> = sint bs" using bs sint_lt [of bs] by (simp add: take_bit_int_eq_self)
  finally show ?thesis using bs by (simp add: word_less_def)
qed

lemma axi_gbs_min:
  "axi_get_burst_size bs base sz =
    (let n = (if sint bs > 0 then min (min sz 4096) (scast bs) else min sz 4096)
     in if next_boundary base (2 ^ 12) > base then min (next_boundary base (2 ^ 12) - base) n else n)"
  by (simp add: axi_get_burst_size_def AXI_PAGE_SIZE_def Let_def)

lemma axi_gbs_within: "axi_get_burst_size bs base sz \<le> sz" "axi_get_burst_size bs base sz \<le> 4096"
    "0 < sint bs \<Longrightarrow> axi_get_burst_size bs base sz \<le> scast bs"
  unfolding axi_gbs_min Let_def by (simp_all add: min_le_iff_disj del: min.bounded_iff)

lemma axi_gbs_positive:
  assumes "0 < sz"
  shows "0 < axi_get_burst_size bs base sz"
proof -
  note burst_size_positive [of bs]
  moreover have "next_boundary base (2 ^ 12) > base \<Longrightarrow> 0 < next_boundary base (2 ^ 12) - base"
    by (simp add: word_less_nat_alt unat_sub order_less_imp_le)
  ultimately show ?thesis using assms unfolding axi_gbs_min Let_def by simp
qed

lemma axi_gbs_legal: "axi_legal bs base (axi_get_burst_size bs base sz)"
proof -
  let ?m = "axi_get_burst_size bs base sz"
  let ?n = "if sint bs > 0 then min (min sz 4096) (scast bs) else min sz 4096"
  have "?n \<le> 4096" by (simp add: min_le_iff_disj)
  then have "unat ?n \<le> 2 ^ 12" by (simp add: word_le_nat_alt)
  then have "unat base + 2 ^ 12 \<le> 2 ^ 64 \<Longrightarrow> unat base mod 2 ^ 12 + unat ?m \<le> 2 ^ 12"
    using next_boundary_limit [of base 12 ?n ?m] by (simp only: axi_gbs_min Let_def)
  then show ?thesis
    using axi_gbs_within(2,3) [of bs base sz] by (simp add: axi_legal_def word_le_nat_alt)
qed

interpretation axi: burst_protocol "axi_get_burst_size bs" "axi_legal bs" for bs
  by unfold_locales
     (use axi_gbs_within axi_gbs_positive axi_gbs_legal in \<open>auto simp: axi_legal_def word_le_nat_alt dest: order_trans\<close>)

subsection \<open>The four ports\<close>

text \<open>
  The clusters connect the TCDM protocol to the local ports and the AXI protocol to the external
  ones (\<open>pulp_open_dma.cpp\<close>, \<open>snitch_dma.cpp\<close>).
\<close>

fun be_gbs :: "32 word \<Rightarrow> be_port \<Rightarrow> u64 \<Rightarrow> u64 \<Rightarrow> u64" where
  "be_gbs bs Loc_be_read = tcdm_get_burst_size"
| "be_gbs bs Loc_be_write = tcdm_get_burst_size"
| "be_gbs bs Ext_be_read = axi_get_burst_size bs"
| "be_gbs bs Ext_be_write = axi_get_burst_size bs"

fun be_legal :: "32 word \<Rightarrow> be_port \<Rightarrow> u64 \<Rightarrow> u64 \<Rightarrow> bool" where
  "be_legal bs Loc_be_read = tcdm_legal"
| "be_legal bs Loc_be_write = tcdm_legal"
| "be_legal bs Ext_be_read = axi_legal bs"
| "be_legal bs Ext_be_write = axi_legal bs"

text \<open>The calls of a sequence of bursts of sizes \<open>ns\<close>, and when these are all legal.\<close>

fun burst_calls :: "be_port \<Rightarrow> be_port \<Rightarrow> nat \<Rightarrow> u64 \<Rightarrow> u64 \<Rightarrow> u64 list \<Rightarrow> be_call list" where
  "burst_calls p q i src dst [] = []"
| "burst_calls p q i src dst (n # ns) =
     Read_burst p i src n # Write_burst q i dst n # burst_calls p q i (src + n) (dst + n) ns"

fun bursts_legal :: "(u64 \<Rightarrow> u64 \<Rightarrow> bool) \<Rightarrow> (u64 \<Rightarrow> u64 \<Rightarrow> bool) \<Rightarrow> u64 \<Rightarrow> u64 \<Rightarrow> u64 list \<Rightarrow> bool" where
  "bursts_legal l m src dst [] \<longleftrightarrow> True"
| "bursts_legal l m src dst (n # ns) \<longleftrightarrow> 0 < n \<and> l src n \<and> m dst n \<and> bursts_legal l m (src + n) (dst + n) ns"

definition is_burst :: "be_call \<Rightarrow> bool" where
  "is_burst x \<longleftrightarrow> (case x of Read_burst _ _ _ _ \<Rightarrow> True | Write_burst _ _ _ _ \<Rightarrow> True | _ \<Rightarrow> False)"

definition be_bursts :: "idma_be \<Rightarrow> be_call list" where
  "be_bursts s = filter is_burst (be_calls s)"

lemma u64_unat_0 [simp]: "unat (w :: u64) = 0 \<longleftrightarrow> w = 0"
  by (simp add: word_unat_eq_iff)

lemma burst_calls_snoc:
  "burst_calls p q i src dst (ns @ [n]) = burst_calls p q i src dst ns
     @ [Read_burst p i (src + sum_list ns) n, Write_burst q i (dst + sum_list ns) n]"
  by (induction ns arbitrary: src dst) (simp_all add: add.assoc)

lemma bursts_legal_snoc:
  "bursts_legal l m src dst (ns @ [n]) \<longleftrightarrow>
     bursts_legal l m src dst ns \<and> 0 < n \<and> l (src + sum_list ns) n \<and> m (dst + sum_list ns) n"
  by (induction ns arbitrary: src dst) (simp_all add: add.assoc)

lemma bursts_legal_length: "bursts_legal l m src dst ns \<Longrightarrow> length ns \<le> sum_list (map unat ns)"
proof (induction ns arbitrary: src dst)
  case (Cons n ns)
  then have "length ns \<le> sum_list (map unat ns)" and "0 < unat n"
    by (auto simp: word_less_nat_alt)
  then show ?case by simp
qed simp

text \<open>A turn in which both protocols and the previous source are free.\<close>

definition be_free :: "be_port \<Rightarrow> be_port \<Rightarrow> be_env \<Rightarrow> bool" where
  "be_free p q env \<longleftrightarrow> can_accept_burst env p \<and> can_accept_burst env q \<and> (\<forall>x. is_empty env x)"

definition be_turns :: "(be_port \<Rightarrow> u64 \<Rightarrow> u64 \<Rightarrow> u64) \<Rightarrow> be_env list \<Rightarrow> idma_be \<Rightarrow> idma_be" where
  "be_turns gbs envs s = fold (be_fsm_handler gbs) envs s"

text \<open>
  Where a transfer stands: \<open>ns\<close> the sizes of the bursts sent since it was enqueued in state \<open>s0\<close>.
\<close>

definition be_sent ::
  "(be_port \<Rightarrow> u64 \<Rightarrow> u64 \<Rightarrow> bool) \<Rightarrow> be_port \<Rightarrow> be_port \<Rightarrow> nat \<Rightarrow> be_transfer \<Rightarrow> idma_be \<Rightarrow> u64 list \<Rightarrow> idma_be \<Rightarrow> bool" where
  "be_sent legal p q i t s0 ns s \<longleftrightarrow>
     be_current s = i \<and> be_src_be s = p \<and> be_dst_be s = q
   \<and> be_current_src s = bt_src t + sum_list ns \<and> be_current_dst s = bt_dst t + sum_list ns
   \<and> sum_list (map unat ns) + unat (be_current_size s) = unat (bt_size t)
   \<and> bursts_legal (legal p) (legal q) (bt_src t) (bt_dst t) ns
   \<and> be_bursts s = be_bursts s0 @ burst_calls p q i (bt_src t) (bt_dst t) ns
   \<and> count_list (be_calls s) Me_update = count_list (be_calls s0) Me_update + of_bool (be_current_size s = 0)"

locale be_protocols =
  fixes gbs :: "be_port \<Rightarrow> u64 \<Rightarrow> u64 \<Rightarrow> u64"
    and legal :: "be_port \<Rightarrow> u64 \<Rightarrow> u64 \<Rightarrow> bool"
  assumes protocols: "burst_protocol (gbs p) (legal p)"
begin

lemma burst_of_two:
  assumes "0 < sz"
  shows "0 < gbs q dst (gbs p src sz)" and "gbs q dst (gbs p src sz) \<le> sz"
    and "legal p src (gbs q dst (gbs p src sz))" and "legal q dst (gbs q dst (gbs p src sz))"
proof -
  note P = protocols [of p] and Q = protocols [of q]
  show "0 < gbs q dst (gbs p src sz)"
    using burst_protocol.offered_positive [OF Q] burst_protocol.offered_positive [OF P] assms by blast
  have le: "gbs q dst (gbs p src sz) \<le> gbs p src sz" by (rule burst_protocol.offered_within [OF Q])
  then show "gbs q dst (gbs p src sz) \<le> sz" using burst_protocol.offered_within [OF P] order_trans by blast
  show "legal p src (gbs q dst (gbs p src sz))"
    using burst_protocol.legal_shorter [OF P burst_protocol.offered_legal [OF P] le] .
  show "legal q dst (gbs q dst (gbs p src sz))" by (rule burst_protocol.offered_legal [OF Q])
qed

lemma turn:
  assumes sent: "be_sent legal p q i t s0 ns s"
  shows "\<exists>ns'. be_sent legal p q i t s0 (ns @ ns') (be_fsm_handler gbs env s)
    \<and> (be_free p q env \<longrightarrow> be_current_size s = 0 \<or> length ns' = 1)"
proof (cases "be_may_send env (s\<lparr>be_event := False\<rparr>)")
  case True
  let ?n = "gbs q (be_current_dst s) (gbs p (be_current_src s) (be_current_size s))"
  have pos: "0 < be_current_size s" using True by (simp add: be_may_send_def)
  note n = burst_of_two [OF pos, where p = p and q = q and src = "be_current_src s" and dst = "be_current_dst s"]
  have "unat (be_current_size s - ?n) = unat (be_current_size s) - unat ?n" by (rule unat_sub [OF n(2)])
  moreover have "unat ?n \<le> unat (be_current_size s)" using n(2) by (simp add: word_le_nat_alt)
  ultimately have sizes: "unat ?n + unat (be_current_size s - ?n) = unat (be_current_size s)" by simp
  have "be_sent legal p q i t s0 (ns @ [?n]) (be_fsm_handler gbs env s)"
    using sent True n sizes pos
    by (auto simp: be_sent_def be_fsm_handler_def Let_def be_call_def be_bursts_def is_burst_def burst_calls_snoc
        bursts_legal_snoc add.assoc)
  then show ?thesis by (intro exI [of _ "[?n]"]) simp
next
  case False
  have "be_sent legal p q i t s0 ns (be_fsm_handler gbs env s)"
    using sent False by (simp add: be_sent_def be_fsm_handler_def Let_def be_bursts_def)
  moreover have "be_free p q env \<longrightarrow> be_current_size s = 0"
    using sent False by (auto simp: be_sent_def be_free_def be_may_send_def word_less_nat_alt split: option.splits)
  ultimately show ?thesis by (intro exI [of _ "[]"]) simp
qed

lemma turns:
  "be_sent legal p q i t s0 ns s \<Longrightarrow>
    \<exists>ns'. be_sent legal p q i t s0 (ns @ ns') (be_turns gbs envs s)
      \<and> (be_current_size (be_turns gbs envs s) = 0 \<or> length (filter (be_free p q) envs) \<le> length ns')"
proof (induction envs arbitrary: ns s)
  case Nil
  then show ?case by (intro exI [of _ "[]"]) (simp add: be_turns_def)
next
  case (Cons env envs)
  let ?s = "be_fsm_handler gbs env s"
  obtain n1 where n1: "be_sent legal p q i t s0 (ns @ n1) ?s"
      "be_free p q env \<longrightarrow> be_current_size s = 0 \<or> length n1 = 1"
    using turn [OF Cons.prems] by blast
  obtain n2 where n2: "be_sent legal p q i t s0 ((ns @ n1) @ n2) (be_turns gbs envs ?s)"
      "be_current_size (be_turns gbs envs ?s) = 0 \<or> length (filter (be_free p q) envs) \<le> length n2"
    using Cons.IH [OF n1(1)] by blast
  have "be_current_size s = 0 \<Longrightarrow> be_current_size (be_turns gbs envs ?s) = 0"
    using Cons.prems n2(1) n1(1) by (auto simp: be_sent_def)
  then show ?case
    using n1(2) n2 by (intro exI [of _ "n1 @ n2"]) (auto simp: be_turns_def)
qed

lemma bursts:
  fixes t :: be_transfer
  assumes "0 < bt_size t" and "p = get_be_consumer s (bt_src t) (bt_size t) True"
    and "q = get_be_consumer s (bt_dst t) (bt_size t) False"
    and "s' = be_turns gbs envs (be_enqueue_transfer i t s)"
  shows "\<exists>ns. be_bursts s' = be_bursts s @ burst_calls p q i (bt_src t) (bt_dst t) ns
    \<and> bursts_legal (legal p) (legal q) (bt_src t) (bt_dst t) ns
    \<and> sum_list (map unat ns) + unat (be_current_size s') = unat (bt_size t)
    \<and> count_list (be_calls s') Me_update = count_list (be_calls s) Me_update + of_bool (be_current_size s' = 0)
    \<and> (unat (bt_size t) \<le> length (filter (be_free p q) envs) \<longrightarrow> be_current_size s' = 0)"
proof -
  have "be_sent legal p q i t s [] (be_enqueue_transfer i t s)"
    using assms(1-3) by (simp add: be_sent_def be_enqueue_transfer_def be_bursts_def)
  from turns [OF this, of envs] obtain ns where ns: "be_sent legal p q i t s ns s'"
      "be_current_size s' = 0 \<or> length (filter (be_free p q) envs) \<le> length ns"
    unfolding assms(4) by auto
  have "length ns \<le> sum_list (map unat ns)"
    using ns(1) bursts_legal_length unfolding be_sent_def by blast
  moreover have "sum_list (map unat ns) + unat (be_current_size s') = unat (bt_size t)"
    using ns(1) unfolding be_sent_def by blast
  ultimately have "unat (bt_size t) \<le> length ns \<Longrightarrow> unat (be_current_size s') = 0" by linarith
  then have "unat (bt_size t) \<le> length (filter (be_free p q) envs) \<longrightarrow> be_current_size s' = 0"
    using ns(2) by auto
  then show ?thesis using ns(1) unfolding be_sent_def by blast
qed

end

interpretation dma: be_protocols "be_gbs bs" "be_legal bs" for bs
proof (rule be_protocols.intro)
  fix p
  show "burst_protocol (be_gbs bs p) (be_legal bs p)"
    using tcdm.burst_protocol_axioms axi.burst_protocol_axioms by (cases p) simp_all
qed

end
