(* ===== verification/Idma_Be_Data.thy ===== *)
theory Idma_Be_Data
  imports Idma_Be_Bursts
begin

section \<open>Properties of the iDMA back-end\<close>

text \<open>
  C12. A transfer is cut into legal bursts. Whatever the answers of the protocols from turn to turn,
  the bursts sent for a transfer are consecutive, each sent to the source as a read and to the
  destination as a write of the same size, none of them empty, each of a size and at a place that both
  protocols accept (for AXI at most a page, the configured burst size, and within one page), and
  together with what remains they make up the transfer; the middle-end is notified once, when nothing
  remains; and as many free turns as the transfer has bytes are enough.
\<close>

theorem idma_be_bursts:
  assumes "0 < bt_size t"
    and "p = get_be_consumer s (bt_src t) (bt_size t) True" and "q = get_be_consumer s (bt_dst t) (bt_size t) False"
    and "s' = be_turns (be_gbs bs) envs (be_enqueue_transfer i t s)"
  shows "\<exists>ns. be_bursts s' = be_bursts s @ burst_calls p q i (bt_src t) (bt_dst t) ns
    \<and> bursts_legal (be_legal bs p) (be_legal bs q) (bt_src t) (bt_dst t) ns
    \<and> sum_list (map unat ns) + unat (be_current_size s') = unat (bt_size t)
    \<and> count_list (be_calls s') Me_update = count_list (be_calls s) Me_update + of_bool (be_current_size s' = 0)
    \<and> (unat (bt_size t) \<le> length (filter (be_free p q) envs) \<longrightarrow> be_current_size s' = 0)"
  by (rule dma.bursts [OF assms])

definition be_transfer_example :: be_transfer where
  "be_transfer_example = \<lparr>bt_src = 0x1c000ff0, bt_dst = 0x10000100, bt_size = 2, bt_ack_size = 0\<rparr>"

definition be_example :: idma_be where
  "be_example = \<lparr>be_loc_base = 0x10000000, be_loc_size = 0x10000, be_store = (\<lambda>_. be_transfer_example), be_current = 0,
     be_current_src = 0, be_current_dst = 0, be_current_size = 0, be_prev_src_be = None, be_src_be = Loc_be_read,
     be_dst_be = Loc_be_write, be_event = False, be_calls = []\<rparr>"

definition env_free :: be_env where
  "env_free = \<lparr>can_accept_burst = (\<lambda>_. True), can_accept_data = (\<lambda>_. True), is_empty = (\<lambda>_. True)\<rparr>"

lemma be_example_ports:
  "get_be_consumer be_example 0x1c000ff0 2 True = Ext_be_read"
  "get_be_consumer be_example 0x10000100 2 False = Loc_be_write"
  by (simp_all add: get_be_consumer_def be_example_def)

theorem idma_be_bursts_witness:
  "\<exists>ns. be_bursts (be_turns (be_gbs 256) [env_free, env_free] (be_enqueue_transfer 5 be_transfer_example be_example))
      = burst_calls Ext_be_read Loc_be_write 5 0x1c000ff0 0x10000100 ns
    \<and> bursts_legal (axi_legal 256) tcdm_legal 0x1c000ff0 0x10000100 ns \<and> sum_list (map unat ns) = 2"
proof -
  let ?s = "be_turns (be_gbs 256) [env_free, env_free] (be_enqueue_transfer 5 be_transfer_example be_example)"
  have p: "get_be_consumer be_example (bt_src be_transfer_example) (bt_size be_transfer_example) True = Ext_be_read"
    and q: "get_be_consumer be_example (bt_dst be_transfer_example) (bt_size be_transfer_example) False = Loc_be_write"
    using be_example_ports by (simp_all add: be_transfer_example_def)
  have sz: "0 < bt_size be_transfer_example" by (simp add: be_transfer_example_def)
  have empty: "be_bursts be_example = []" by (simp add: be_bursts_def be_example_def)
  have free: "unat (bt_size be_transfer_example)
      \<le> length (filter (be_free Ext_be_read Loc_be_write) [env_free, env_free])"
    by (simp add: be_transfer_example_def be_free_def env_free_def)
  obtain ns where ns: "be_bursts ?s = be_bursts be_example
        @ burst_calls Ext_be_read Loc_be_write 5 (bt_src be_transfer_example) (bt_dst be_transfer_example) ns"
      "bursts_legal (be_legal 256 Ext_be_read) (be_legal 256 Loc_be_write) (bt_src be_transfer_example)
        (bt_dst be_transfer_example) ns"
      "sum_list (map unat ns) + unat (be_current_size ?s) = unat (bt_size be_transfer_example)"
      "be_current_size ?s = 0"
    using idma_be_bursts [OF sz p [symmetric] q [symmetric] refl, of 256 "[env_free, env_free]" 5] free by blast
  show ?thesis
    using ns empty by (intro exI [of _ ns]) (simp add: be_transfer_example_def)
qed

subsection \<open>Where the data goes\<close>

text \<open>Both ends of the local area and of a range are addresses: nothing wraps.\<close>

definition be_local_ok :: "idma_be \<Rightarrow> bool" where
  "be_local_ok s \<longleftrightarrow> unat (be_loc_base s) + unat (be_loc_size s) < 2 ^ 64"

lemma consumer_nat:
  assumes "be_local_ok s" and "unat base + unat sz < 2 ^ 64"
  shows "get_be_consumer s base sz is_read =
    (if unat (be_loc_base s) \<le> unat base \<and> unat base + unat sz \<le> unat (be_loc_base s) + unat (be_loc_size s)
     then (if is_read then Loc_be_read else Loc_be_write) else (if is_read then Ext_be_read else Ext_be_write))"
proof -
  have "unat (base + sz) = unat base + unat sz"
    "unat (be_loc_base s + be_loc_size s) = unat (be_loc_base s) + unat (be_loc_size s)"
    using assms by (simp_all add: unat_add_lem [THEN iffD1] be_local_ok_def)
  then show ?thesis by (simp add: get_be_consumer_def Let_def word_le_nat_alt)
qed

text \<open>
  The destination of a transfer enters the local area from below: it starts outside and ends inside.
\<close>

definition be_enters :: "idma_be \<Rightarrow> u64 \<Rightarrow> u64 \<Rightarrow> bool" where
  "be_enters s base sz \<longleftrightarrow> unat base < unat (be_loc_base s) \<and> unat (be_loc_base s) < unat base + unat sz
     \<and> unat base + unat sz \<le> unat (be_loc_base s) + unat (be_loc_size s)"

definition be_write_chunks :: "nat \<Rightarrow> nat \<Rightarrow> u64 list \<Rightarrow> idma_be \<Rightarrow> idma_be" where
  "be_write_chunks i ptr ns s = fold (be_write_data i ptr) ns s"

lemma be_write_data_store:
  "be_store (be_write_data i ptr n s) i =
     (be_store s i)\<lparr>bt_dst := bt_dst (be_store s i) + n, bt_size := bt_size (be_store s i) - n\<rparr>"
  "be_loc_base (be_write_data i ptr n s) = be_loc_base s" "be_loc_size (be_write_data i ptr n s) = be_loc_size s"
  by (simp_all add: be_write_data_def Let_def be_call_def)

text \<open>
  Data follows its bursts. The chunks pushed for a transfer are all written to the protocol that
  was given the write bursts of the transfer, provided the destination does not enter the local area
  from outside. The provision is needed: the protocol is looked up again for every chunk, with the
  part of the transfer that is left.
\<close>

theorem idma_be_write_routing:
  assumes "be_local_ok s" and "unat (bt_dst (be_store s i)) + unat (bt_size (be_store s i)) < 2 ^ 64"
    and "\<not> be_enters s (bt_dst (be_store s i)) (bt_size (be_store s i))"
    and "\<forall>n \<in> set ns. 0 < n" and "sum_list (map unat ns) \<le> unat (bt_size (be_store s i))"
  shows "be_calls (be_write_chunks i ptr ns s) = be_calls s
    @ map (Write_data (get_be_consumer s (bt_dst (be_store s i)) (bt_size (be_store s i)) False) i ptr) ns"
  using assms
proof (induction ns arbitrary: s)
  case (Cons n ns)
  let ?t = "be_store s i" and ?s = "be_write_data i ptr n s"
  have n: "0 < unat n" "unat n \<le> unat (bt_size ?t)" using Cons.prems(4,5) by (auto simp: word_less_nat_alt)
  have dst: "unat (bt_dst ?t + n) = unat (bt_dst ?t) + unat n"
    using Cons.prems(2) n by (simp add: unat_add_lem [THEN iffD1])
  have sz: "unat (bt_size ?t - n) = unat (bt_size ?t) - unat n"
    using n by (simp add: unat_sub word_le_nat_alt)
  have ok: "be_local_ok ?s" "unat (bt_dst (be_store ?s i)) + unat (bt_size (be_store ?s i)) < 2 ^ 64"
    using Cons.prems(1,2) n by (simp_all add: be_write_data_store be_local_ok_def dst sz)
  have enters: "\<not> be_enters ?s (bt_dst (be_store ?s i)) (bt_size (be_store ?s i))"
    using Cons.prems(3) n by (auto simp: be_enters_def be_write_data_store dst sz)
  have "be_calls (be_write_chunks i ptr ns ?s) = be_calls ?s
    @ map (Write_data (get_be_consumer ?s (bt_dst (be_store ?s i)) (bt_size (be_store ?s i)) False) i ptr) ns"
    using Cons.IH [OF ok enters] Cons.prems(4,5) n by (simp add: be_write_data_store sz)
  moreover have rest: "ns \<noteq> [] \<Longrightarrow> unat n < unat (bt_size ?t)"
    using Cons.prems(4,5) by (cases ns) (auto simp: word_less_nat_alt)
  moreover have "ns \<noteq> [] \<Longrightarrow> get_be_consumer ?s (bt_dst (be_store ?s i)) (bt_size (be_store ?s i)) False
      = get_be_consumer s (bt_dst ?t) (bt_size ?t) False"
    using Cons.prems(1-3) ok n rest
    by (auto simp: consumer_nat be_enters_def) (auto simp: be_write_data_store dst sz)
  ultimately show ?case
    by (cases "ns = []") (simp_all add: be_write_chunks_def be_write_data_def Let_def be_call_def)
qed (simp add: be_write_chunks_def)

definition be_example_data :: "be_transfer \<Rightarrow> idma_be" where
  "be_example_data t = be_example\<lparr>be_store := \<lambda>_. t\<rparr>"

theorem idma_be_write_routing_witness:
  "be_calls (be_write_chunks 5 9 [4, 4]
      (be_example_data \<lparr>bt_src = 0x1c000000, bt_dst = 0x10000100, bt_size = 8, bt_ack_size = 8\<rparr>))
    = [Write_data Loc_be_write 5 9 4, Write_data Loc_be_write 5 9 4]"
proof -
  let ?s = "be_example_data \<lparr>bt_src = 0x1c000000, bt_dst = 0x10000100, bt_size = 8, bt_ack_size = 8\<rparr>"
  have ok: "be_local_ok ?s" by (simp add: be_local_ok_def be_example_data_def be_example_def)
  have "get_be_consumer ?s (bt_dst (be_store ?s 5)) (bt_size (be_store ?s 5)) False = Loc_be_write"
    by (simp add: get_be_consumer_def be_example_data_def be_example_def)
  then show ?thesis
    using idma_be_write_routing [OF ok, of 5 "[4, 4]" 9]
    by (simp add: be_enters_def be_example_data_def be_example_def)
qed

text \<open>
  The last acknowledgement of a source that starts where the local area ends goes to the wrong
  protocol. Such a transfer is read through the external protocol; when its data has been written and
  is acknowledged, the source protocol is looked up with a remaining size of zero, which makes the
  address count as local: the local protocol is told to release the data.
\<close>

theorem idma_be_ack_at_local_end:
  assumes "be_local_ok s" and "unat (bt_src (be_store s i)) = unat (be_loc_base s) + unat (be_loc_size s)"
    and "n = bt_size (be_store s i)" and "bt_ack_size (be_store s i) = n" and "0 < n"
    and "unat (bt_src (be_store s i)) + unat n < 2 ^ 64"
  shows "get_be_consumer s (bt_src (be_store s i)) n True = Ext_be_read
    \<and> (\<exists>q. be_calls (be_ack_data i ptr (int (unat n)) (be_write_data i ptr n s))
          = be_calls s @ [Write_data q i ptr n, Write_data_ack Loc_be_read ptr, Me_ack_transfer i])"
proof
  have n: "n \<noteq> 0" using assms(5) by auto
  show "get_be_consumer s (bt_src (be_store s i)) n True = Ext_be_read"
    using consumer_nat [OF assms(1,6)] assms(2) n by simp
  let ?s = "be_write_data i ptr n s"
  have "be_local_ok ?s" using assms(1) by (simp add: be_local_ok_def be_write_data_store)
  then have "get_be_consumer ?s (bt_src (be_store ?s i)) (bt_size (be_store ?s i)) True = Loc_be_read"
    using assms(1-3) by (simp add: consumer_nat be_write_data_store be_local_ok_def)
  then show "\<exists>q. be_calls (be_ack_data i ptr (int (unat n)) ?s)
      = be_calls s @ [Write_data q i ptr n, Write_data_ack Loc_be_read ptr, Me_ack_transfer i]"
    using assms(3,4) by (simp add: be_ack_data_def be_write_data_def Let_def be_call_def)
qed

theorem idma_be_ack_at_local_end_witness:
  "\<exists>q. be_calls (be_ack_data 5 9 8 (be_write_data 5 9 8
        (be_example_data \<lparr>bt_src = 0x10010000, bt_dst = 0x10000100, bt_size = 8, bt_ack_size = 8\<rparr>)))
     = [Write_data q 5 9 8, Write_data_ack Loc_be_read 9, Me_ack_transfer 5]"
  using idma_be_ack_at_local_end
    [of "be_example_data \<lparr>bt_src = 0x10010000, bt_dst = 0x10000100, bt_size = 8, bt_ack_size = 8\<rparr>" 5 8 9]
  by (simp add: be_local_ok_def be_example_data_def be_example_def)

end
