(* ===== verification/Idma_Proto.thy ===== *)
theory Idma_Proto
  imports Prelude
begin

section \<open>What the protocols of the iDMA share (\<open>src/pulp/idma/be/idma_be.hpp\<close>)\<close>

text \<open>
  A protocol reads bursts from its port and pushes their bytes to the back-end, or takes the bytes
  that the back-end pushes and writes them through its port. Its calls on the back-end, on its port
  and on its own event are appended to a log. No call on the back-end comes back to the protocol that
  made it, so the log is executed by the one who composes the protocols. A data pointer is the name of
  a buffer, and the bytes it points to go with it.

  The interface of the two roles is stated here as the locales \<open>idma_reader\<close> and \<open>idma_writer\<close>: both
  work through the bytes of their bursts in order.
\<close>

type_synonym ptr = nat

datatype proto_call = Be_update
  | Be_write_data nat ptr "u8 list"
  | Be_ack_data nat ptr u64
  | Fsm_enqueue u64
  | Req_read u64 u64 "u8 list"
  | Req_write u64 "u8 list" "u8 list"
  | Delete_data ptr

text \<open>The answer of a port to a request: its status and its latency in cycles.\<close>

type_synonym port_answer = "io_status \<times> u64"

subsection \<open>Addresses and bytes\<close>

text \<open>The addresses of \<open>n\<close> bytes from \<open>a\<close> on.\<close>

definition addrs :: "u64 \<Rightarrow> nat \<Rightarrow> u64 list" where
  "addrs a n = map (\<lambda>k. a + of_nat k) [0..<n]"

lemma length_addrs [simp]: "length (addrs a n) = n"
  by (simp add: addrs_def)

lemma addrs_0 [simp]: "addrs a 0 = []"
  by (simp add: addrs_def)

lemma addrs_add: "addrs a (m + n) = addrs a m @ addrs (a + of_nat m) n"
  by (induction n) (simp_all add: addrs_def add.assoc)

lemma take_addrs: "m \<le> n \<Longrightarrow> take m (addrs a n) = addrs a m"
  using addrs_add [of a m "n - m"] by simp

lemma drop_addrs: "m \<le> n \<Longrightarrow> drop m (addrs a n) = addrs (a + of_nat m) (n - m)"
  using addrs_add [of a m "n - m"] by simp

lemma unat_add_le: "unat a + unat b \<le> unat (c :: u64) \<Longrightarrow> a + b \<le> c"
  using unat_u64_less [of c] by (subst word_le_nat_alt, subst unat_add_lem [THEN iffD1]) simp_all

subsection \<open>Bursts that are worked through\<close>

text \<open>
  A burst is its transfer, its base and its size. \<open>advance m\<close> is what is left of a list of bursts
  after \<open>m\<close> bytes of the first.
\<close>

type_synonym proto_burst = "nat \<times> u64 \<times> u64"

fun advance :: "u64 \<Rightarrow> proto_burst list \<Rightarrow> proto_burst list" where
  "advance m [] = []"
| "advance m ((i, a, n) # bs) = (if m = n then bs else (i, a + m, n - m) # bs)"

fun burst_size :: "proto_burst \<Rightarrow> u64" where
  "burst_size (i, a, n) = n"

fun burst_addrs :: "proto_burst \<Rightarrow> u64 list" where
  "burst_addrs (i, a, n) = addrs a (unat n)"

definition all_addrs :: "proto_burst list \<Rightarrow> u64 list" where
  "all_addrs bs = concat (map burst_addrs bs)"

definition bursts_ok :: "proto_burst list \<Rightarrow> bool" where
  "bursts_ok bs \<longleftrightarrow> list_all (\<lambda>b. 0 < burst_size b) bs"

lemma bursts_ok_simps [simp]: "bursts_ok []" "bursts_ok (b # bs) \<longleftrightarrow> 0 < burst_size b \<and> bursts_ok bs"
    "bursts_ok (bs @ cs) \<longleftrightarrow> bursts_ok bs \<and> bursts_ok cs"
  by (simp_all add: bursts_ok_def)

lemma all_addrs_simps [simp]: "all_addrs [] = []" "all_addrs (b # bs) = burst_addrs b @ all_addrs bs"
    "all_addrs (bs @ cs) = all_addrs bs @ all_addrs cs"
  by (simp_all add: all_addrs_def)

lemma u64_diff_pos: "(m :: u64) \<le> n \<Longrightarrow> m \<noteq> n \<Longrightarrow> 0 < n - m"
  by (metis eq_iff_diff_eq_0 word_greater_zero_iff)

lemma advance_ok: "bursts_ok bs \<Longrightarrow> m \<le> burst_size (hd bs) \<Longrightarrow> bursts_ok (advance m bs)"
  by (cases "(m, bs)" rule: advance.cases) (auto simp: u64_diff_pos)

lemma all_addrs_advance:
  assumes "bs \<noteq> []" and "m \<le> burst_size (hd bs)"
  shows "all_addrs bs = take (unat m) (all_addrs bs) @ all_addrs (advance m bs)"
    and "take (unat m) (all_addrs bs) = addrs (fst (snd (hd bs))) (unat m)"
proof -
  obtain i a n cs where bs: "bs = (i, a, n) # cs" using assms(1) by (cases bs) auto
  have le: "unat m \<le> unat n" using assms(2) by (simp add: bs word_le_nat_alt)
  have sub: "unat (n - m) = unat n - unat m" using assms(2) by (simp add: bs unat_sub)
  have n: "unat n = unat m + unat (n - m)" using le sub by simp
  have split: "addrs a (unat n) = addrs a (unat m) @ addrs (a + m) (unat (n - m))"
    by (subst n, subst addrs_add) simp
  show "take (unat m) (all_addrs bs) = addrs (fst (snd (hd bs))) (unat m)"
    using le by (simp add: bs take_addrs)
  then show "all_addrs bs = take (unat m) (all_addrs bs) @ all_addrs (advance m bs)"
    using split by (simp add: bs)
qed

lemma advance_0: "bursts_ok bs \<Longrightarrow> advance 0 bs = bs"
  by (cases "(0 :: u64, bs)" rule: advance.cases) auto

lemma advance_append: "bs \<noteq> [] \<Longrightarrow> advance m (bs @ cs) = advance m bs @ cs"
  by (cases "(m, bs)" rule: advance.cases) auto

lemma advance_advance:
  assumes "bursts_ok bs" and "m \<le> burst_size (hd bs)" and "k \<le> burst_size (hd bs) - m"
  shows "advance k (advance m bs) = advance (m + k) bs"
proof (cases "(m, bs)" rule: advance.cases)
  case (2 m' i a n cs)
  then show ?thesis using assms
    by (cases "m = n") (auto simp: advance_0 algebra_simps diff_eq_eq)
qed simp

lemma advance_sizes: "map burst_size (advance m bs) = map burst_size (advance m cs)"
  if "map burst_size bs = map burst_size cs"
  using that by (cases "(m, bs)" rule: advance.cases; cases "(m, cs)" rule: advance.cases) auto

subsection \<open>Reading the log\<close>

text \<open>The chunks pushed to the back-end, the bytes written to the port, and the bytes acknowledged.\<close>

fun pushes :: "proto_call list \<Rightarrow> (nat \<times> ptr \<times> u8 list) list" where
  "pushes [] = []"
| "pushes (Be_write_data i p bs # cs) = (i, p, bs) # pushes cs"
| "pushes (_ # cs) = pushes cs"

fun port_writes :: "proto_call list \<Rightarrow> (u64 \<times> u8) list" where
  "port_writes [] = []"
| "port_writes (Req_write a bs _ # cs) = zip (addrs a (length bs)) bs @ port_writes cs"
| "port_writes (_ # cs) = port_writes cs"

fun acks :: "proto_call list \<Rightarrow> (nat \<times> ptr \<times> u64) list" where
  "acks [] = []"
| "acks (Be_ack_data i p n # cs) = (i, p, n) # acks cs"
| "acks (_ # cs) = acks cs"

lemma pushes_append [simp]: "pushes (cs @ ds) = pushes cs @ pushes ds"
  by (induction cs rule: pushes.induct) simp_all

lemma port_writes_append [simp]: "port_writes (cs @ ds) = port_writes cs @ port_writes ds"
  by (induction cs rule: port_writes.induct) simp_all

lemma acks_append [simp]: "acks (cs @ ds) = acks cs @ acks ds"
  by (induction cs rule: acks.induct) simp_all

definition acked_bytes :: "(nat \<times> ptr \<times> u64) list \<Rightarrow> nat" where
  "acked_bytes xs = sum_list (map (\<lambda>(i, p, n). unat n) xs)"

lemma acked_bytes_simps [simp]: "acked_bytes [] = 0" "acked_bytes ((i, p, n) # xs) = unat n + acked_bytes xs"
    "acked_bytes (xs @ ys) = acked_bytes xs + acked_bytes ys"
  by (simp_all add: acked_bytes_def)

lemma drop_Cons_next: "drop k xs = y # ys \<Longrightarrow> k < length xs" "drop k xs = y # ys \<Longrightarrow> drop (Suc k) xs = ys"
proof -
  assume d: "drop k xs = y # ys"
  then show "k < length xs" by (cases "k < length xs") simp_all
  show "drop (Suc k) xs = ys" using d by (metis drop_Suc list.sel(3) tl_drop)
qed

text \<open>Calls that move no data.\<close>

definition quiet :: "proto_call list \<Rightarrow> bool" where
  "quiet cs \<longleftrightarrow> pushes cs = [] \<and> port_writes cs = [] \<and> acks cs = []"

lemma quiet_simps [simp]: "quiet []" "quiet (cs @ ds) \<longleftrightarrow> quiet cs \<and> quiet ds"
    "quiet (Be_update # cs) \<longleftrightarrow> quiet cs" "quiet (Fsm_enqueue n # cs) \<longleftrightarrow> quiet cs"
    "quiet (Req_read a n x # cs) \<longleftrightarrow> quiet cs" "quiet (Delete_data p # cs) \<longleftrightarrow> quiet cs"
  by (auto simp: quiet_def)

subsection \<open>The two roles of a protocol\<close>

text \<open>
  What a turn sees of its surroundings: the time in cycles, the answer of the port to a request (is it
  a write, address, size), the bytes behind the port, and whether the back-end is ready for data of a
  transfer (\<open>be->is_ready_to_accept_data\<close>), and the collective operation and mask of a transfer. Cycle counts are integers.
\<close>

record proto_env =
  pe_now :: int
  pe_answer :: "bool \<Rightarrow> u64 \<Rightarrow> u64 \<Rightarrow> port_answer"
  pe_mem :: "u64 \<Rightarrow> u8"
  pe_ready :: "nat \<Rightarrow> bool"
  pe_collective :: "nat \<Rightarrow> u8 \<times> u64"

text \<open>
  What the calls \<open>cs\<close> of a reader's turn say: they write nothing, and they push nothing or one chunk,
  the next bytes of the first burst of \<open>bs\<close>, nothing past the limit of the burst and only to a back-end
  that is ready.
\<close>

definition reads_on ::
  "(u64 \<Rightarrow> u8) \<Rightarrow> (nat \<Rightarrow> bool) \<Rightarrow> proto_burst list \<Rightarrow> ptr list \<Rightarrow> proto_call list \<Rightarrow> proto_burst list \<Rightarrow> ptr list \<Rightarrow> bool" where
  "reads_on byte ready bs ps cs bs' ps' \<longleftrightarrow> port_writes cs = [] \<and> acks cs = []
     \<and> (pushes cs = [] \<and> bs' = bs \<and> ps' = ps
       \<or> (\<exists>i a n rest m p. bs = (i, a, n) # rest \<and> 0 < m \<and> m \<le> n \<and> ready i
            \<and> pushes cs = [(i, p, map byte (addrs a (unat m)))] \<and> bs' = advance m bs \<and> ps' = ps @ [p]))"

lemma reads_on_quiet: "quiet cs \<Longrightarrow> reads_on byte ready bs ps cs bs ps"
  by (simp add: reads_on_def quiet_def)

lemma reads_on_quiet_before: "quiet ds \<Longrightarrow> reads_on byte ready bs ps cs bs' ps' \<Longrightarrow> reads_on byte ready bs ps (ds @ cs) bs' ps'"
  by (simp add: reads_on_def quiet_def)

text \<open>
  A reader: \<open>todo\<close> is what is left of its bursts, \<open>held\<close> the buffers it has pushed and not got back.
  \<open>byte\<close> is the memory it reads, by bus address. A turn
  may end in a fatal error, \<open>None\<close>.
\<close>

locale idma_reader =
  fixes inv :: "'s \<Rightarrow> bool" and todo :: "'s \<Rightarrow> proto_burst list" and held :: "'s \<Rightarrow> ptr list"
    and calls :: "'s \<Rightarrow> proto_call list" and can_burst :: "'s \<Rightarrow> bool"
    and burst :: "nat \<Rightarrow> u64 \<Rightarrow> u64 \<Rightarrow> 's \<Rightarrow> 's" and ack :: "ptr \<Rightarrow> 's \<Rightarrow> 's"
    and turn :: "'e \<Rightarrow> 's \<Rightarrow> 's option" and env :: "'e \<Rightarrow> 's \<Rightarrow> bool" and ready :: "'e \<Rightarrow> nat \<Rightarrow> bool"
    and byte :: "u64 \<Rightarrow> u8"
  assumes todo_ok: "inv s \<Longrightarrow> bursts_ok (todo s)"
    and burst_law: "inv s \<Longrightarrow> can_burst s \<Longrightarrow> 0 < n \<Longrightarrow>
      inv (burst i a n s) \<and> todo (burst i a n s) = todo s @ [(i, a, n)] \<and> held (burst i a n s) = held s
      \<and> (\<exists>cs. calls (burst i a n s) = calls s @ cs \<and> quiet cs)"
    and ack_law: "inv s \<Longrightarrow> held s = p # ps \<Longrightarrow>
      inv (ack p s) \<and> todo (ack p s) = todo s \<and> held (ack p s) = ps
      \<and> (\<exists>cs. calls (ack p s) = calls s @ cs \<and> quiet cs)"
    and turn_law: "inv s \<Longrightarrow> env e s \<Longrightarrow> turn e s = Some t \<Longrightarrow>
      inv t \<and> (\<exists>cs. calls t = calls s @ cs \<and> reads_on byte (ready e) (todo s) (held s) cs (todo t) (held t))"

text \<open>
  A writer: \<open>space\<close> is what is left of its bursts for data to come, \<open>pend\<close> the writes accepted and not
  yet requested, \<open>unacked\<close> the chunks accepted and not yet acknowledged. It requests the accepted bytes
  in order, at the addresses of its bursts (as its port counts them, \<open>port_addr\<close>), acknowledges the
  chunks in order, and acknowledges none before its bytes have been requested.
\<close>

locale idma_writer =
  fixes inv :: "'s \<Rightarrow> bool" and space :: "'s \<Rightarrow> proto_burst list" and pend :: "'s \<Rightarrow> (u64 \<times> u8) list"
    and unacked :: "'s \<Rightarrow> (nat \<times> ptr \<times> u64) list"
    and calls :: "'s \<Rightarrow> proto_call list" and can_burst :: "'s \<Rightarrow> bool" and can_data :: "'s \<Rightarrow> bool"
    and burst :: "nat \<Rightarrow> u64 \<Rightarrow> u64 \<Rightarrow> 's \<Rightarrow> 's"
    and data :: "'d \<Rightarrow> nat \<Rightarrow> ptr \<Rightarrow> u8 list \<Rightarrow> 's \<Rightarrow> 's option" and data_env :: "'d \<Rightarrow> 's \<Rightarrow> bool"
    and turn :: "'e \<Rightarrow> 's \<Rightarrow> 's option" and env :: "'e \<Rightarrow> 's \<Rightarrow> bool"
    and port_addr :: "u64 \<Rightarrow> u64"
  assumes space_ok: "inv s \<Longrightarrow> bursts_ok (space s)"
    and acked_is_written: "inv s \<Longrightarrow> unacked s = [] \<Longrightarrow> pend s = []"
    and burst_law: "inv s \<Longrightarrow> can_burst s \<Longrightarrow> 0 < n \<Longrightarrow>
      inv (burst i a n s) \<and> space (burst i a n s) = space s @ [(i, a, n)] \<and> pend (burst i a n s) = pend s
      \<and> unacked (burst i a n s) = unacked s \<and> (\<exists>cs. calls (burst i a n s) = calls s @ cs \<and> quiet cs)"
    and data_law: "inv s \<Longrightarrow> can_data s \<Longrightarrow> data_env d s \<Longrightarrow> space s = (j, a, n) # bs \<Longrightarrow> 0 < m \<Longrightarrow> m \<le> n \<Longrightarrow>
      unat m = length x \<Longrightarrow> data d i p x s = Some t \<Longrightarrow>
      inv t \<and> space t = advance m (space s)
      \<and> (\<exists>cs. calls t = calls s @ cs \<and> pushes cs = []
          \<and> port_writes cs @ pend t = pend s @ zip (map port_addr (addrs a (unat m))) x
          \<and> acks cs @ unacked t = unacked s @ [(i, p, m)])"
    and turn_law: "inv s \<Longrightarrow> env e s \<Longrightarrow> turn e s = Some t \<Longrightarrow>
      inv t \<and> space t = space s
      \<and> (\<exists>cs. calls t = calls s @ cs \<and> pushes cs = [] \<and> port_writes cs @ pend t = pend s
          \<and> acks cs @ unacked t = unacked s)"

end
