(* ===== verification/Idma_Tcdm.thy ===== *)
theory Idma_Tcdm
  imports Idma_Proto Idma_Be
begin

section \<open>The TCDM protocol of the iDMA (\<open>src/pulp/idma/be/idma_be_tcdm.cpp\<close>)\<close>

text \<open>
  The class \<open>IDmaBeTcdm\<close>: pending bursts in four queues, a current burst that is read or written line
  by line, one line per access, and an access that may have a latency. The four queues, the chunk being
  written and the line being held are fields as in the code. The three data pointers of the code are
  the buffer of the chunk (\<open>tc_chunk_start\<close>) with the bytes that follow the pointer to the next line
  (\<open>tc_chunk_data\<close>), and the buffer of the held line with its bytes; \<open>tc_allocs\<close> counts the calls of
  \<open>new\<close> and names their buffers. A turn that ends in \<open>trace.fatal\<close> is \<open>None\<close>: the simulation stops.
  The interface width and the base of the local memory are the configured values.
\<close>

record tcdm =
  tc_width :: u64
  tc_burst_queue_maxsize :: u64
  tc_loc_base :: u64
  tc_queue_base :: "u64 list"
  tc_queue_size :: "u64 list"
  tc_queue_is_write :: "bool list"
  tc_queue_transfer :: "nat list"
  tc_current_base :: u64
  tc_current_size :: u64
  tc_chunk_base :: u64
  tc_chunk_size :: u64
  tc_chunk_ack_size :: u64
  tc_chunk_data :: "u8 list"
  tc_chunk_start :: ptr
  tc_write_ack_timestamp :: int
  tc_write_ack_size :: u64
  tc_read_pending_timestamp :: int
  tc_read_pending_data :: "ptr \<times> u8 list"
  tc_read_pending_size :: u64
  tc_last_line_timestamp :: int
  tc_write_transfer :: nat
  tc_allocs :: nat
  tc_calls :: "proto_call list"

definition tc_call :: "proto_call \<Rightarrow> tcdm \<Rightarrow> tcdm" where
  "tc_call x s = s\<lparr>tc_calls := tc_calls s @ [x]\<rparr>"

lemma tc_call_frame [simp]:
  "tc_width (tc_call x s) = tc_width s"
  "tc_burst_queue_maxsize (tc_call x s) = tc_burst_queue_maxsize s"
  "tc_loc_base (tc_call x s) = tc_loc_base s"
  "tc_queue_base (tc_call x s) = tc_queue_base s"
  "tc_queue_size (tc_call x s) = tc_queue_size s"
  "tc_queue_is_write (tc_call x s) = tc_queue_is_write s"
  "tc_queue_transfer (tc_call x s) = tc_queue_transfer s"
  "tc_current_base (tc_call x s) = tc_current_base s"
  "tc_current_size (tc_call x s) = tc_current_size s"
  "tc_chunk_base (tc_call x s) = tc_chunk_base s"
  "tc_chunk_size (tc_call x s) = tc_chunk_size s"
  "tc_chunk_ack_size (tc_call x s) = tc_chunk_ack_size s"
  "tc_chunk_data (tc_call x s) = tc_chunk_data s"
  "tc_chunk_start (tc_call x s) = tc_chunk_start s"
  "tc_write_ack_timestamp (tc_call x s) = tc_write_ack_timestamp s"
  "tc_write_ack_size (tc_call x s) = tc_write_ack_size s"
  "tc_read_pending_timestamp (tc_call x s) = tc_read_pending_timestamp s"
  "tc_read_pending_data (tc_call x s) = tc_read_pending_data s"
  "tc_read_pending_size (tc_call x s) = tc_read_pending_size s"
  "tc_last_line_timestamp (tc_call x s) = tc_last_line_timestamp s"
  "tc_write_transfer (tc_call x s) = tc_write_transfer s"
  "tc_allocs (tc_call x s) = tc_allocs s"
  by (simp_all add: tc_call_def)

definition tcdm_update :: "tcdm \<Rightarrow> tcdm" where
  "tcdm_update s = tc_call (Fsm_enqueue 1) s"

definition tcdm_activate_burst :: "tcdm \<Rightarrow> tcdm" where
  "tcdm_activate_burst s =
     (if tc_current_size s = 0 \<and> tc_queue_size s \<noteq> []
      then s\<lparr>tc_current_base := hd (tc_queue_base s), tc_current_size := hd (tc_queue_size s)\<rparr> else s)"

definition tcdm_enqueue_burst :: "u64 \<Rightarrow> u64 \<Rightarrow> bool \<Rightarrow> nat \<Rightarrow> tcdm \<Rightarrow> tcdm" where
  "tcdm_enqueue_burst base sz is_write i s =
     (let s1 = s\<lparr>tc_queue_base := tc_queue_base s @ [base], tc_queue_size := tc_queue_size s @ [sz],
                 tc_queue_is_write := tc_queue_is_write s @ [is_write],
                 tc_queue_transfer := tc_queue_transfer s @ [i]\<rparr>;
          s2 = tcdm_activate_burst s1
      in tc_call (Fsm_enqueue 1) s2)"

definition tcdm_read_burst :: "nat \<Rightarrow> u64 \<Rightarrow> u64 \<Rightarrow> tcdm \<Rightarrow> tcdm" where
  "tcdm_read_burst i base sz s = tcdm_enqueue_burst base sz False i s"

definition tcdm_write_burst :: "nat \<Rightarrow> u64 \<Rightarrow> u64 \<Rightarrow> tcdm \<Rightarrow> tcdm" where
  "tcdm_write_burst i base sz s = tcdm_enqueue_burst base sz True i s"

definition tcdm_can_accept_burst :: "tcdm \<Rightarrow> bool" where
  "tcdm_can_accept_burst s \<longleftrightarrow> length (tc_queue_base s) < unat (tc_burst_queue_maxsize s)"

definition tcdm_can_accept_data :: "tcdm \<Rightarrow> bool" where
  "tcdm_can_accept_data s \<longleftrightarrow> tc_chunk_size s = 0 \<and> tc_write_ack_timestamp s = - 1"

definition tcdm_is_empty :: "tcdm \<Rightarrow> bool" where
  "tcdm_is_empty s \<longleftrightarrow> tc_queue_base s = []"

definition tcdm_reset :: "bool \<Rightarrow> tcdm \<Rightarrow> tcdm" where
  "tcdm_reset active s =
     (if active then s\<lparr>tc_current_size := 0, tc_read_pending_size := 0, tc_chunk_size := 0,
                       tc_write_ack_timestamp := - 1, tc_last_line_timestamp := - 1\<rparr> else s)"

definition tcdm_remove_chunk_from_current_burst :: "u64 \<Rightarrow> tcdm \<Rightarrow> tcdm" where
  "tcdm_remove_chunk_from_current_burst sz s =
     (let s1 = s\<lparr>tc_current_base := tc_current_base s + sz, tc_current_size := tc_current_size s - sz\<rparr>
      in if tc_current_size s1 = 0 then
           let s2 = s1\<lparr>tc_queue_base := tl (tc_queue_base s1), tc_queue_size := tl (tc_queue_size s1),
                       tc_queue_is_write := tl (tc_queue_is_write s1),
                       tc_queue_transfer := tl (tc_queue_transfer s1)\<rparr>
           in tcdm_update (tc_call Be_update (tcdm_activate_burst s2))
         else s1)"

definition tcdm_write_handle_req_ack :: "tcdm \<Rightarrow> tcdm" where
  "tcdm_write_handle_req_ack s =
     (if tc_chunk_size s = 0
      then tc_call (Be_ack_data (tc_write_transfer s) (tc_chunk_start s) (tc_chunk_ack_size s)) (tc_call Be_update s)
      else tc_call (Fsm_enqueue 1) s)"

definition tcdm_write_line :: "proto_env \<Rightarrow> tcdm \<Rightarrow> tcdm option" where
  "tcdm_write_line e s =
     (if tc_last_line_timestamp s = - 1 \<or> tc_last_line_timestamp s < pe_now e then
        let base = tc_chunk_base s;
            sz = tcdm_get_line_size (tc_width s) (tc_chunk_base s) (tc_chunk_size s);
            s1 = s\<lparr>tc_last_line_timestamp := pe_now e,
                   tc_chunk_base := tc_chunk_base s + sz, tc_chunk_size := tc_chunk_size s - sz,
                   tc_chunk_data := drop (unat sz) (tc_chunk_data s)\<rparr>;
            s2 = tc_call (Req_write (base - tc_loc_base s) (take (unat sz) (tc_chunk_data s)) []) s1;
            (status, latency) = pe_answer e True (base - tc_loc_base s) sz
        in if status = IO_REQ_INVALID \<or> status = IO_REQ_OK then
             Some (if latency = 0
                   then tcdm_write_handle_req_ack (tcdm_remove_chunk_from_current_burst sz s2)
                   else tc_call (Fsm_enqueue latency)
                          (s2\<lparr>tc_write_ack_timestamp := pe_now e + int (unat latency), tc_write_ack_size := sz\<rparr>))
           else None
      else Some (tcdm_update s))"

definition tcdm_write_data :: "proto_env \<Rightarrow> nat \<Rightarrow> ptr \<Rightarrow> u8 list \<Rightarrow> tcdm \<Rightarrow> tcdm option" where
  "tcdm_write_data e i p bs s =
     tcdm_write_line e
       (s\<lparr>tc_chunk_ack_size := of_nat (length bs), tc_chunk_size := of_nat (length bs),
          tc_chunk_base := tc_current_base s, tc_chunk_data := bs, tc_chunk_start := p, tc_write_transfer := i\<rparr>)"

definition tcdm_push :: "nat \<Rightarrow> ptr \<times> u8 list \<Rightarrow> tcdm \<Rightarrow> tcdm" where
  "tcdm_push i d s = tc_call (Be_write_data i (fst d) (snd d)) s"

definition tcdm_read_line :: "proto_env \<Rightarrow> tcdm \<Rightarrow> tcdm option" where
  "tcdm_read_line e s =
     (let base = tc_current_base s;
          sz = tcdm_get_line_size (tc_width s) base (tc_current_size s);
          addr = base - tc_loc_base s;
          data = (tc_allocs s, map (pe_mem e) (addrs addr (unat sz)));
          s1 = tc_call (Req_read addr sz []) (s\<lparr>tc_allocs := Suc (tc_allocs s)\<rparr>);
          (status, latency) = pe_answer e False addr sz
      in if status = IO_REQ_INVALID \<or> status = IO_REQ_OK then
           let i = hd (tc_queue_transfer s1)
           in Some (if latency = 0 \<and> pe_ready e i
                    then tcdm_push i data (tcdm_remove_chunk_from_current_burst sz s1)
                    else tc_call (Fsm_enqueue latency)
                           (s1\<lparr>tc_read_pending_timestamp := pe_now e + int (unat latency),
                               tc_read_pending_data := data, tc_read_pending_size := sz\<rparr>))
         else None)"

definition tcdm_write_data_ack :: "ptr \<Rightarrow> tcdm \<Rightarrow> tcdm" where
  "tcdm_write_data_ack p s = tcdm_update (tc_call (Delete_data p) s)"

text \<open>The three parts of \<open>fsm_handler\<close>, in its order.\<close>

definition tcdm_fsm_ack :: "proto_env \<Rightarrow> tcdm \<Rightarrow> tcdm" where
  "tcdm_fsm_ack e s =
     (if tc_write_ack_timestamp s \<noteq> - 1 then
        if tc_write_ack_timestamp s \<le> pe_now e
        then tcdm_write_handle_req_ack
               (tcdm_remove_chunk_from_current_burst (tc_write_ack_size s) (s\<lparr>tc_write_ack_timestamp := - 1\<rparr>))
        else tc_call (Fsm_enqueue (of_int (tc_write_ack_timestamp s - pe_now e))) s
      else s)"

definition tcdm_fsm_write :: "proto_env \<Rightarrow> tcdm \<Rightarrow> tcdm option" where
  "tcdm_fsm_write e s =
     (if tc_chunk_size s > 0 \<and> tc_write_ack_timestamp s = - 1 then tcdm_write_line e s else Some s)"

definition tcdm_fsm_deliver :: "proto_env \<Rightarrow> tcdm \<Rightarrow> tcdm" where
  "tcdm_fsm_deliver e s =
     (if tc_read_pending_size s > 0 \<and> pe_ready e (hd (tc_queue_transfer s)) then
        if tc_read_pending_timestamp s \<le> pe_now e then
          let sz = tc_read_pending_size s; i = hd (tc_queue_transfer s)
          in tcdm_push i (tc_read_pending_data s)
               (tcdm_remove_chunk_from_current_burst sz (s\<lparr>tc_read_pending_size := 0\<rparr>))
        else tc_call (Fsm_enqueue (of_int (tc_read_pending_timestamp s - pe_now e))) s
      else s)"

definition tcdm_fsm_read :: "proto_env \<Rightarrow> tcdm \<Rightarrow> tcdm option" where
  "tcdm_fsm_read e s =
     (if tc_queue_is_write s \<noteq> [] \<and> \<not> hd (tc_queue_is_write s) then do {
        s1 \<leftarrow> (if tc_current_size s > 0 \<and> tc_read_pending_size s = 0 then tcdm_read_line e s else Some s);
        Some (tcdm_fsm_deliver e s1)
      } else Some s)"

definition tcdm_fsm_handler :: "proto_env \<Rightarrow> tcdm \<Rightarrow> tcdm option" where
  "tcdm_fsm_handler e s = do {
     s1 \<leftarrow> tcdm_fsm_write e (tcdm_fsm_ack e s);
     tcdm_fsm_read e s1
   }"

end
