(* ===== verification/Idma_Tcdm_Lines.thy ===== *)
theory Idma_Tcdm_Lines
  imports Idma_Tcdm Idma_Be_Bursts
begin

section \<open>The TCDM protocol as a reader and as a writer\<close>

text \<open>
  The clusters use one \<open>IDmaBeTcdm\<close> for reading and another for writing. The well-formedness of its
  four queues and its current burst is shown to be kept by every operation, and each use is shown to
  be the interface of \<^theory_text>\<open>Idma_Proto\<close>: whatever the latencies and refusals, a line is never lost,
  repeated, reordered or carried over the limit of its burst.
\<close>

subsection \<open>Lines\<close>

lemma tcdm_line_within: "tcdm_get_line_size w base n \<le> n"
  unfolding tcdm_get_line_size_def Let_def by (simp add: min_le_iff_disj)

lemma tcdm_line_positive: "0 < w \<Longrightarrow> 0 < n \<Longrightarrow> 0 < tcdm_get_line_size w base n"
  unfolding tcdm_get_line_size_def Let_def
  by (auto simp: min_def word_greater_zero_iff)

subsection \<open>The queues and the current burst\<close>

text \<open>What is left: the current burst, and the queued ones behind it.\<close>

definition tcdm_todo :: "tcdm \<Rightarrow> proto_burst list" where
  "tcdm_todo s = (if tc_queue_size s = [] then []
     else (hd (tc_queue_transfer s), tc_current_base s, tc_current_size s)
       # zip (tl (tc_queue_transfer s)) (zip (tl (tc_queue_base s)) (tl (tc_queue_size s))))"

text \<open>
  The queues run in step, no burst is empty, and the current burst is the part still to do of the
  first one; there is none exactly when the queues are empty.
\<close>

definition tcdm_wf :: "tcdm \<Rightarrow> bool" where
  "tcdm_wf s \<longleftrightarrow> 0 < tc_width s
   \<and> length (tc_queue_base s) = length (tc_queue_size s)
   \<and> length (tc_queue_is_write s) = length (tc_queue_size s)
   \<and> length (tc_queue_transfer s) = length (tc_queue_size s)
   \<and> list_all (\<lambda>n. 0 < n) (tc_queue_size s)
   \<and> (if tc_queue_size s = [] then tc_current_size s = 0
      else 0 < tc_current_size s \<and> tc_current_size s \<le> hd (tc_queue_size s)
        \<and> tc_current_base s + tc_current_size s = hd (tc_queue_base s) + hd (tc_queue_size s))"

lemmas tcdm_call_defs = tc_call_def tcdm_update_def tcdm_push_def

lemma tcdm_wf_empty: "tcdm_wf s \<Longrightarrow> tc_current_size s = 0 \<longleftrightarrow> tc_queue_size s = []"
  by (auto simp: tcdm_wf_def split: if_splits)

lemma zip_sizes_ok: "list_all (\<lambda>n. 0 < n) ns \<Longrightarrow> bursts_ok (zip is (zip as ns))"
  by (auto simp: bursts_ok_def list_all_iff dest!: set_zip_rightD)

lemma tcdm_todo_ok: "tcdm_wf s \<Longrightarrow> bursts_ok (tcdm_todo s)"
  by (cases "tc_queue_size s") (auto simp: tcdm_wf_def tcdm_todo_def intro: zip_sizes_ok)

lemma tcdm_enqueue_wf:
  assumes "tcdm_wf s" and "0 < n"
  shows "tcdm_wf (tcdm_enqueue_burst a n w i s)"
    and "tcdm_todo (tcdm_enqueue_burst a n w i s) = tcdm_todo s @ [(i, a, n)]"
  using assms
  by (cases "tc_queue_size s"; cases "tc_queue_base s"; cases "tc_queue_transfer s"; auto simp: tcdm_wf_def
      tcdm_todo_def tcdm_enqueue_burst_def tcdm_activate_burst_def tcdm_call_defs Let_def)+

text \<open>The reserve of a burst behind the first: the first of the others becomes current.\<close>

lemma tcdm_remove_wf:
  assumes wf: "tcdm_wf s" and n: "tc_queue_size s \<noteq> []" "n \<le> tc_current_size s"
  shows "tcdm_wf (tcdm_remove_chunk_from_current_burst n s)"
    and "tcdm_todo (tcdm_remove_chunk_from_current_burst n s) = advance n (tcdm_todo s)"
proof -
  obtain b bs k ks i "is" w ws where q: "tc_queue_base s = b # bs" "tc_queue_size s = k # ks"
      "tc_queue_transfer s = i # is" "tc_queue_is_write s = w # ws"
    using wf n(1) by (cases "tc_queue_base s"; cases "tc_queue_size s"; cases "tc_queue_transfer s";
        cases "tc_queue_is_write s") (auto simp: tcdm_wf_def)
  have l: "length bs = length ks" "length is = length ks" "length ws = length ks"
    using wf by (simp_all add: q tcdm_wf_def)
  have eq: "tc_current_size s - n = 0 \<longleftrightarrow> n = tc_current_size s" by auto
  show "tcdm_wf (tcdm_remove_chunk_from_current_burst n s)"
  proof (cases "n = tc_current_size s")
    case True
    then show ?thesis using wf l
      by (cases ks; cases bs; simp add: q tcdm_wf_def tcdm_remove_chunk_from_current_burst_def
          tcdm_activate_burst_def tcdm_call_defs Let_def)
  next
    case False
    have "tc_current_size s - n \<le> tc_current_size s" using n(2) by (simp add: word_le_nat_alt unat_sub)
    then have "tc_current_size s - n \<le> k" using wf by (auto simp: q tcdm_wf_def intro: order_trans)
    then show ?thesis using wf l False u64_diff_pos [OF n(2) False]
      by (simp add: q tcdm_wf_def tcdm_remove_chunk_from_current_burst_def Let_def eq)
  qed
  show "tcdm_todo (tcdm_remove_chunk_from_current_burst n s) = advance n (tcdm_todo s)"
    using l by (cases ks; cases bs; cases "is"; simp add: q tcdm_todo_def eq
        tcdm_remove_chunk_from_current_burst_def tcdm_activate_burst_def tcdm_call_defs Let_def)
qed

lemma tcdm_todo_call [simp]: "tcdm_todo (tc_call x s) = tcdm_todo s" "tcdm_wf (tc_call x s) = tcdm_wf s"
    "tc_calls (tc_call x s) = tc_calls s @ [x]"
  by (simp_all add: tcdm_todo_def tcdm_wf_def tc_call_def)

text \<open>What the queue operations do to the other fields.\<close>

lemma tcdm_activate_frame [frame]:
  "tc_calls (tcdm_activate_burst s) = tc_calls s" "tc_chunk_size (tcdm_activate_burst s) = tc_chunk_size s"
  "tc_chunk_base (tcdm_activate_burst s) = tc_chunk_base s" "tc_chunk_data (tcdm_activate_burst s) = tc_chunk_data s"
  "tc_chunk_start (tcdm_activate_burst s) = tc_chunk_start s" "tc_chunk_ack_size (tcdm_activate_burst s) = tc_chunk_ack_size s"
  "tc_write_ack_timestamp (tcdm_activate_burst s) = tc_write_ack_timestamp s"
  "tc_write_ack_size (tcdm_activate_burst s) = tc_write_ack_size s"
  "tc_write_transfer (tcdm_activate_burst s) = tc_write_transfer s"
  "tc_read_pending_size (tcdm_activate_burst s) = tc_read_pending_size s"
  "tc_read_pending_data (tcdm_activate_burst s) = tc_read_pending_data s"
  "tc_loc_base (tcdm_activate_burst s) = tc_loc_base s" "tc_width (tcdm_activate_burst s) = tc_width s"
  "tc_queue_is_write (tcdm_activate_burst s) = tc_queue_is_write s"
  "tc_queue_size (tcdm_activate_burst s) = tc_queue_size s"
  "tc_last_line_timestamp (tcdm_activate_burst s) = tc_last_line_timestamp s"
  by (simp_all add: tcdm_activate_burst_def)

definition tcdm_removal_calls :: "u64 \<Rightarrow> tcdm \<Rightarrow> proto_call list" where
  "tcdm_removal_calls n s = (if tc_current_size s = n then [Be_update, Fsm_enqueue 1] else [])"

lemma tcdm_removal_quiet [simp]: "quiet (tcdm_removal_calls n s)"
  "pushes (tcdm_removal_calls n s) = []" "acks (tcdm_removal_calls n s) = []" "port_writes (tcdm_removal_calls n s) = []"
  by (simp_all add: tcdm_removal_calls_def)

lemma tcdm_remove_frame [frame]:
  fixes n s
  defines "t \<equiv> tcdm_remove_chunk_from_current_burst n s"
  shows "tc_calls t = tc_calls s @ tcdm_removal_calls n s" "tc_chunk_size t = tc_chunk_size s"
  "tc_chunk_base t = tc_chunk_base s" "tc_chunk_data t = tc_chunk_data s"
  "tc_chunk_start t = tc_chunk_start s" "tc_chunk_ack_size t = tc_chunk_ack_size s"
  "tc_write_ack_timestamp t = tc_write_ack_timestamp s" "tc_write_ack_size t = tc_write_ack_size s"
  "tc_write_transfer t = tc_write_transfer s" "tc_read_pending_size t = tc_read_pending_size s"
  "tc_read_pending_data t = tc_read_pending_data s" "tc_loc_base t = tc_loc_base s"
  "tc_queue_is_write t = (if tc_current_size s = n then tl (tc_queue_is_write s) else tc_queue_is_write s)"
  "tc_last_line_timestamp t = tc_last_line_timestamp s"
  by (simp_all add: t_def tcdm_remove_chunk_from_current_burst_def tcdm_removal_calls_def tcdm_call_defs Let_def
      tcdm_activate_frame)

subsection \<open>As a reader\<close>

text \<open>The buffers handed over and not given back: acknowledgements come in the order of the pushes.\<close>

fun deleted :: "proto_call list \<Rightarrow> ptr list" where
  "deleted [] = []"
| "deleted (Delete_data p # cs) = p # deleted cs"
| "deleted (_ # cs) = deleted cs"

lemma deleted_append [simp]: "deleted (cs @ ds) = deleted cs @ deleted ds"
  by (induction cs rule: deleted.induct) simp_all

definition tcdm_held :: "tcdm \<Rightarrow> ptr list" where
  "tcdm_held s = drop (length (deleted (tc_calls s))) (map (\<lambda>x. fst (snd x)) (pushes (tc_calls s)))"

definition tcdm_byte :: "u64 \<Rightarrow> (u64 \<Rightarrow> u8) \<Rightarrow> u64 \<Rightarrow> u8" where
  "tcdm_byte lb mem a = mem (a - lb)"

text \<open>A held line is the first line of what is left, with the bytes of the memory.\<close>

definition tcdm_reader_inv :: "u64 \<Rightarrow> (u64 \<Rightarrow> u8) \<Rightarrow> tcdm \<Rightarrow> bool" where
  "tcdm_reader_inv lb mem s \<longleftrightarrow> tcdm_wf s \<and> tc_loc_base s = lb
   \<and> list_all Not (tc_queue_is_write s) \<and> tc_chunk_size s = 0 \<and> tc_write_ack_timestamp s = - 1
   \<and> length (deleted (tc_calls s)) \<le> length (pushes (tc_calls s))
   \<and> (0 < tc_read_pending_size s \<longrightarrow> tc_queue_size s \<noteq> [] \<and> tc_read_pending_size s \<le> tc_current_size s
        \<and> snd (tc_read_pending_data s)
            = map (tcdm_byte lb mem) (addrs (tc_current_base s) (unat (tc_read_pending_size s))))"

lemma addrs_offset: "addrs (a - lb) n = map (\<lambda>x. x - lb) (addrs a n)"
  by (simp add: addrs_def algebra_simps)

lemma tcdm_read_data: "map mem (addrs (a - lb) n) = map (tcdm_byte lb mem) (addrs a n)"
  by (simp add: addrs_offset tcdm_byte_def)


lemma tcdm_reader_facts:
  assumes "tcdm_reader_inv lb mem s" and "tc_queue_size s \<noteq> []"
  shows "tcdm_todo s = (hd (tc_queue_transfer s), tc_current_base s, tc_current_size s) # tl (tcdm_todo s)"
    and "0 < tc_current_size s"
  using assms by (auto simp: tcdm_reader_inv_def tcdm_wf_def tcdm_todo_def)

text \<open>A push of the next \<open>m\<close> bytes, however they were read.\<close>

lemma tcdm_reader_push:
  assumes inv: "tcdm_reader_inv lb mem s" and q: "tc_queue_size s \<noteq> []" and pend: "tc_read_pending_size s = 0"
    and m: "0 < m" "m \<le> tc_current_size s" and ready: "ready (hd (tc_queue_transfer s))"
    and d: "snd d = map (tcdm_byte lb mem) (addrs (tc_current_base s) (unat m))"
    and t: "t = tcdm_push (hd (tc_queue_transfer s)) d (tcdm_remove_chunk_from_current_burst m s)"
  shows "tcdm_reader_inv lb mem t \<and> tc_read_pending_size t = 0
    \<and> (\<exists>cs. tc_calls t = tc_calls s @ cs
        \<and> reads_on (tcdm_byte lb mem) ready (tcdm_todo s) (tcdm_held s) cs (tcdm_todo t) (tcdm_held t))"
proof -
  let ?u = "tcdm_remove_chunk_from_current_burst m s" and ?i = "hd (tc_queue_transfer s)"
  let ?cs = "tcdm_removal_calls m s @ [Be_write_data ?i (fst d) (snd d)]"
  have wf: "tcdm_wf s" using inv by (simp add: tcdm_reader_inv_def)
  note u = tcdm_remove_wf [OF wf q m(2)]
  have todo: "tcdm_todo t = advance m (tcdm_todo s)" using u(2) by (simp add: t tcdm_push_def)
  have del: "deleted (tcdm_removal_calls m s) = []" by (simp add: tcdm_removal_calls_def)
  have calls: "tc_calls t = tc_calls s @ ?cs" by (simp add: t tcdm_push_def tcdm_remove_frame)
  have held: "tcdm_held t = tcdm_held s @ [fst d]"
    using inv by (simp add: tcdm_held_def calls del tcdm_reader_inv_def)
  have ro: "list_all Not (tc_queue_is_write ?u)"
    using inv by (cases "tc_queue_is_write s") (auto simp: tcdm_remove_frame tcdm_reader_inv_def)
  have inv': "tcdm_reader_inv lb mem t \<and> tc_read_pending_size t = 0"
    using inv u(1) ro pend calls
    by (simp add: tcdm_reader_inv_def del) (simp add: t tcdm_push_def tc_call_def tcdm_remove_frame tcdm_wf_def)
  have "tcdm_todo s = (?i, tc_current_base s, tc_current_size s) # tl (tcdm_todo s)"
    by (rule tcdm_reader_facts [OF inv q])
  then have "reads_on (tcdm_byte lb mem) ready (tcdm_todo s) (tcdm_held s) ?cs (tcdm_todo t) (tcdm_held t)"
    unfolding reads_on_def todo held using m ready d by simp blast
  with inv' calls show ?thesis by blast
qed

lemma tcdm_reader_read_line:
  assumes inv: "tcdm_reader_inv lb mem s" and cur: "tc_current_size s > 0" and pend: "tc_read_pending_size s = 0"
    and mem: "pe_mem e = mem" and t: "tcdm_read_line e s = Some t"
  shows "tcdm_reader_inv lb mem t \<and> (\<exists>cs. tc_calls t = tc_calls s @ cs
      \<and> reads_on (tcdm_byte lb mem) (pe_ready e) (tcdm_todo s) (tcdm_held s) cs (tcdm_todo t) (tcdm_held t)
      \<and> (pushes cs = [] \<or> tc_read_pending_size t = 0))"
proof -
  define sz where "sz = tcdm_get_line_size (tc_width s) (tc_current_base s) (tc_current_size s)"
  define d where "d = (tc_allocs s, map (pe_mem e) (addrs (tc_current_base s - tc_loc_base s) (unat sz)))"
  define r where "r = Req_read (tc_current_base s - tc_loc_base s) sz []"
  define s1 where "s1 = tc_call r (s\<lparr>tc_allocs := Suc (tc_allocs s)\<rparr>)"
  obtain st lat where a: "pe_answer e False (tc_current_base s - tc_loc_base s) sz = (st, lat)" by fastforce
  have wf: "tcdm_wf s" and lb: "tc_loc_base s = lb" using inv by (simp_all add: tcdm_reader_inv_def)
  have q: "tc_queue_size s \<noteq> []" using wf cur tcdm_wf_empty by fastforce
  have sz: "0 < sz" "sz \<le> tc_current_size s"
    using wf cur by (simp_all add: sz_def tcdm_line_positive tcdm_line_within tcdm_wf_def)
  have d': "snd d = map (tcdm_byte lb mem) (addrs (tc_current_base s) (unat sz))"
    by (simp add: d_def mem lb tcdm_read_data)
  have s1: "tcdm_todo s1 = tcdm_todo s" "tcdm_held s1 = tcdm_held s" "tc_calls s1 = tc_calls s @ [r]"
    "tc_current_base s1 = tc_current_base s" "tc_current_size s1 = tc_current_size s"
    "tc_queue_size s1 = tc_queue_size s" "tc_queue_base s1 = tc_queue_base s" "tc_queue_transfer s1 = tc_queue_transfer s"
    "tc_read_pending_size s1 = 0" "tcdm_reader_inv lb mem s1"
    using inv pend by (simp_all add: s1_def r_def tc_call_def tcdm_todo_def tcdm_held_def tcdm_reader_inv_def tcdm_wf_def)
  have t': "t = (if lat = 0 \<and> pe_ready e (hd (tc_queue_transfer s1))
      then tcdm_push (hd (tc_queue_transfer s1)) d (tcdm_remove_chunk_from_current_burst sz s1)
      else tc_call (Fsm_enqueue lat) (s1\<lparr>tc_read_pending_timestamp := pe_now e + int (unat lat),
             tc_read_pending_data := d, tc_read_pending_size := sz\<rparr>))"
    using t by (auto simp: tcdm_read_line_def Let_def a simp flip: sz_def d_def r_def s1_def split: if_splits)
  show ?thesis
  proof (cases "lat = 0 \<and> pe_ready e (hd (tc_queue_transfer s1))")
    case True
    have "tcdm_reader_inv lb mem t \<and> tc_read_pending_size t = 0
      \<and> (\<exists>cs. tc_calls t = tc_calls s1 @ cs \<and> reads_on (tcdm_byte lb mem) (pe_ready e)
            (tcdm_todo s1) (tcdm_held s1) cs (tcdm_todo t) (tcdm_held t))"
      by (rule tcdm_reader_push [where m = sz]) (use s1 q sz d' True t' in simp_all)
    then obtain cs where "tcdm_reader_inv lb mem t" "tc_read_pending_size t = 0" "tc_calls t = tc_calls s @ [r] @ cs"
      "reads_on (tcdm_byte lb mem) (pe_ready e) (tcdm_todo s) (tcdm_held s) cs (tcdm_todo t) (tcdm_held t)"
      unfolding s1 by auto
    then show ?thesis using reads_on_quiet_before [of "[r]"] by (auto simp: r_def)
  next
    case False
    then have t'': "t = tc_call (Fsm_enqueue lat) (s1\<lparr>tc_read_pending_timestamp := pe_now e + int (unat lat),
        tc_read_pending_data := d, tc_read_pending_size := sz\<rparr>)" using t' by (simp only: if_False)
    have "tcdm_reader_inv lb mem t" "tcdm_todo t = tcdm_todo s" "tcdm_held t = tcdm_held s"
      "tc_calls t = tc_calls s @ [r, Fsm_enqueue lat]"
      using s1 sz q d' by (simp_all add: t'' r_def tc_call_def tcdm_todo_def tcdm_held_def tcdm_reader_inv_def tcdm_wf_def)
    then show ?thesis by (auto simp: r_def reads_on_quiet)
  qed
qed


lemma tcdm_reader_deliver:
  assumes inv: "tcdm_reader_inv lb mem s"
  shows "tcdm_reader_inv lb mem (tcdm_fsm_deliver e s)
    \<and> (\<exists>cs. tc_calls (tcdm_fsm_deliver e s) = tc_calls s @ cs \<and> reads_on (tcdm_byte lb mem) (pe_ready e)
         (tcdm_todo s) (tcdm_held s) cs (tcdm_todo (tcdm_fsm_deliver e s)) (tcdm_held (tcdm_fsm_deliver e s)))"
proof -
  let ?due = "tc_read_pending_size s > 0 \<and> pe_ready e (hd (tc_queue_transfer s))"
  consider (wait) "\<not> ?due" | (late) "?due" "\<not> tc_read_pending_timestamp s \<le> pe_now e"
    | (push) "?due" "tc_read_pending_timestamp s \<le> pe_now e" by blast
  then show ?thesis
  proof cases
    case wait
    then have "tcdm_fsm_deliver e s = s" by (auto simp: tcdm_fsm_deliver_def)
    then show ?thesis using inv by (auto intro: reads_on_quiet)
  next
    case late
    define c where "c = Fsm_enqueue (of_int (tc_read_pending_timestamp s - pe_now e))"
    have "tcdm_fsm_deliver e s = tc_call c s" using late by (simp add: tcdm_fsm_deliver_def c_def)
    moreover have "tcdm_reader_inv lb mem (tc_call c s)" "tcdm_held (tc_call c s) = tcdm_held s" "quiet [c]"
      using inv by (simp_all add: c_def tcdm_reader_inv_def tcdm_held_def)
    ultimately show ?thesis by (auto intro: reads_on_quiet)
  next
    case push
    let ?s = "s\<lparr>tc_read_pending_size := 0\<rparr>" and ?sz = "tc_read_pending_size s"
    have s: "tcdm_reader_inv lb mem ?s" "tcdm_todo ?s = tcdm_todo s" "tcdm_held ?s = tcdm_held s"
      "tc_queue_size ?s \<noteq> []" "tc_read_pending_size ?s = 0" "?sz \<le> tc_current_size ?s"
      "snd (tc_read_pending_data s) = map (tcdm_byte lb mem) (addrs (tc_current_base ?s) (unat ?sz))"
      using inv push by (simp_all add: tcdm_reader_inv_def tcdm_todo_def tcdm_held_def tcdm_wf_def)
    have "tcdm_fsm_deliver e s = tcdm_push (hd (tc_queue_transfer ?s)) (tc_read_pending_data s)
        (tcdm_remove_chunk_from_current_burst ?sz ?s)"
      using push by (simp add: tcdm_fsm_deliver_def Let_def)
    then show ?thesis
      using tcdm_reader_push [OF s(1,4,5) _ s(6) _ s(7), of "pe_ready e" "tcdm_fsm_deliver e s"] push s(2,3) by auto
  qed
qed

lemma tcdm_reader_turn:
  assumes inv: "tcdm_reader_inv lb mem s" and mem: "pe_mem e = mem" and t: "tcdm_fsm_handler e s = Some t"
  shows "tcdm_reader_inv lb mem t \<and> (\<exists>cs. tc_calls t = tc_calls s @ cs
      \<and> reads_on (tcdm_byte lb mem) (pe_ready e) (tcdm_todo s) (tcdm_held s) cs (tcdm_todo t) (tcdm_held t))"
proof -
  have "tcdm_fsm_read e s = Some t"
    using t inv by (simp add: tcdm_fsm_handler_def tcdm_fsm_ack_def tcdm_fsm_write_def tcdm_reader_inv_def)
  then consider (none) "t = s" | (held) "t = tcdm_fsm_deliver e s"
    | (line) u where "0 < tc_current_size s" "tc_read_pending_size s = 0" "tcdm_read_line e s = Some u"
        "t = tcdm_fsm_deliver e u"
    by (auto simp: tcdm_fsm_read_def bind_eq_Some_conv split: if_splits)
  then show ?thesis
  proof cases
    case none
    then show ?thesis using inv by (auto intro: reads_on_quiet)
  next
    case held
    then show ?thesis using tcdm_reader_deliver [OF inv] by blast
  next
    case line
    obtain cs where u: "tcdm_reader_inv lb mem u" "tc_calls u = tc_calls s @ cs"
      "reads_on (tcdm_byte lb mem) (pe_ready e) (tcdm_todo s) (tcdm_held s) cs (tcdm_todo u) (tcdm_held u)"
      "pushes cs = [] \<or> tc_read_pending_size u = 0"
      using tcdm_reader_read_line [OF inv line(1,2) mem line(3)] by blast
    show ?thesis
    proof (cases "pushes cs = []")
      case True
      then have q: "quiet cs" "tcdm_todo u = tcdm_todo s" "tcdm_held u = tcdm_held s"
        using u(3) by (auto simp: reads_on_def quiet_def)
      then show ?thesis
        using tcdm_reader_deliver [OF u(1), of e] u(2) line(4) reads_on_quiet_before [OF q(1)] by fastforce
    next
      case False
      then have "t = u" using u(4) line(4) by (simp add: tcdm_fsm_deliver_def)
      then show ?thesis using u by blast
    qed
  qed
qed

interpretation tcdm_reader: idma_reader "tcdm_reader_inv lb mem" tcdm_todo tcdm_held tc_calls
    tcdm_can_accept_burst tcdm_read_burst tcdm_write_data_ack tcdm_fsm_handler "\<lambda>e s. pe_mem e = mem" pe_ready
    "tcdm_byte lb mem" for lb mem
proof (unfold_locales, goal_cases)
  case (1 s)
  then show ?case by (auto simp: tcdm_reader_inv_def intro: tcdm_todo_ok)
next
  case (2 s n i a)
  have wf: "tcdm_wf s" using 2 by (simp add: tcdm_reader_inv_def)
  note w = tcdm_enqueue_wf [OF wf 2(3)]
  have c: "tc_calls (tcdm_read_burst i a n s) = tc_calls s @ [Fsm_enqueue 1]"
    by (simp add: tcdm_read_burst_def tcdm_enqueue_burst_def Let_def tcdm_activate_frame)
  have "tcdm_reader_inv lb mem (tcdm_read_burst i a n s)"
    using 2(1) w(1) wf c
    by (simp add: tcdm_read_burst_def tcdm_reader_inv_def)
      (auto simp: tcdm_enqueue_burst_def tcdm_activate_burst_def Let_def tc_call_def tcdm_wf_def)
  then show ?case using w(2) c by (simp add: tcdm_read_burst_def tcdm_held_def)
next
  case (3 s p ps)
  have c: "tc_calls (tcdm_write_data_ack p s) = tc_calls s @ [Delete_data p, Fsm_enqueue 1]"
    "tcdm_todo (tcdm_write_data_ack p s) = tcdm_todo s"
    by (simp_all add: tcdm_write_data_ack_def tcdm_update_def)
  note h = drop_Cons_next [OF 3(2) [unfolded tcdm_held_def]]
  have "tcdm_reader_inv lb mem (tcdm_write_data_ack p s)"
    using 3(1) h(1) by (simp add: tcdm_reader_inv_def c)
      (simp add: tcdm_write_data_ack_def tcdm_update_def tcdm_wf_def tc_call_def)
  then show ?case using h(2) c by (simp add: tcdm_held_def)
next
  case (4 s e t)
  then show ?case by (intro tcdm_reader_turn)
qed

subsection \<open>As a writer\<close>

text \<open>The line waiting for the latency of its request, the bytes still to request, the chunk to acknowledge.\<close>

definition tcdm_inflight :: "tcdm \<Rightarrow> u64" where
  "tcdm_inflight s = (if tc_write_ack_timestamp s = - 1 then 0 else tc_write_ack_size s)"

definition tcdm_space :: "tcdm \<Rightarrow> proto_burst list" where
  "tcdm_space s = advance (tcdm_inflight s + tc_chunk_size s) (tcdm_todo s)"

definition tcdm_pend :: "tcdm \<Rightarrow> (u64 \<times> u8) list" where
  "tcdm_pend s = zip (addrs (tc_chunk_base s - tc_loc_base s) (unat (tc_chunk_size s))) (tc_chunk_data s)"

definition tcdm_unacked :: "tcdm \<Rightarrow> (nat \<times> ptr \<times> u64) list" where
  "tcdm_unacked s = (if tcdm_can_accept_data s then [] else [(tc_write_transfer s, tc_chunk_start s, tc_chunk_ack_size s)])"

definition tcdm_writer_inv :: "u64 \<Rightarrow> tcdm \<Rightarrow> bool" where
  "tcdm_writer_inv lb s \<longleftrightarrow> tcdm_wf s \<and> tc_loc_base s = lb \<and> list_all (\<lambda>w. w) (tc_queue_is_write s)
   \<and> length (tc_chunk_data s) = unat (tc_chunk_size s)
   \<and> (tcdm_can_accept_data s \<or> tc_queue_size s \<noteq> []
        \<and> unat (tcdm_inflight s) + unat (tc_chunk_size s) \<le> unat (tc_current_size s)
        \<and> tc_chunk_base s = tc_current_base s + tcdm_inflight s
        \<and> (tc_write_ack_timestamp s \<noteq> - 1 \<longrightarrow> 0 < tc_write_ack_size s))"

lemma tcdm_writer_call [simp]:
  "tcdm_inflight (tc_call x s) = tcdm_inflight s" "tcdm_can_accept_data (tc_call x s) = tcdm_can_accept_data s"
  "tcdm_pend (tc_call x s) = tcdm_pend s" "tcdm_unacked (tc_call x s) = tcdm_unacked s"
  "tcdm_space (tc_call x s) = tcdm_space s" "tcdm_writer_inv lb (tc_call x s) = tcdm_writer_inv lb s"
proof -
  show i: "tcdm_inflight (tc_call x s) = tcdm_inflight s" and c: "tcdm_can_accept_data (tc_call x s) = tcdm_can_accept_data s"
    by (simp_all add: tc_call_def tcdm_inflight_def tcdm_can_accept_data_def)
  show "tcdm_pend (tc_call x s) = tcdm_pend s" by (simp add: tc_call_def tcdm_pend_def)
  show "tcdm_unacked (tc_call x s) = tcdm_unacked s" unfolding tcdm_unacked_def c by (simp add: tc_call_def)
  show "tcdm_space (tc_call x s) = tcdm_space s" unfolding tcdm_space_def i by (simp add: tc_call_def tcdm_todo_def)
  show "tcdm_writer_inv lb (tc_call x s) = tcdm_writer_inv lb s"
    unfolding tcdm_writer_inv_def i c by (simp add: tc_call_def tcdm_wf_def)
qed

lemma tcdm_remove_current:
  "n \<noteq> tc_current_size s \<Longrightarrow> tc_current_base (tcdm_remove_chunk_from_current_burst n s) = tc_current_base s + n"
  "n \<noteq> tc_current_size s \<Longrightarrow> tc_current_size (tcdm_remove_chunk_from_current_burst n s) = tc_current_size s - n"
  "n \<noteq> tc_current_size s \<Longrightarrow> tc_queue_size (tcdm_remove_chunk_from_current_burst n s) = tc_queue_size s"
  by (auto simp: tcdm_remove_chunk_from_current_burst_def Let_def)

text \<open>
  The end of a line of \<open>n\<close> bytes, without latency or after it: the line leaves the current burst, and
  the chunk is acknowledged if it was its last.
\<close>

lemma tcdm_writer_retire:
  assumes wf: "tcdm_wf s" "tc_loc_base s = lb" "list_all (\<lambda>w. w) (tc_queue_is_write s)"
    and len: "length (tc_chunk_data s) = unat (tc_chunk_size s)" and free: "tc_write_ack_timestamp s = - 1"
    and n: "tc_queue_size s \<noteq> []" "0 < n" "unat n + unat (tc_chunk_size s) \<le> unat (tc_current_size s)"
    and base: "tc_chunk_base s = tc_current_base s + n"
    and t: "t = tcdm_write_handle_req_ack (tcdm_remove_chunk_from_current_burst n s)"
  shows "tcdm_writer_inv lb t \<and> tcdm_space t = advance (n + tc_chunk_size s) (tcdm_todo s)
    \<and> (\<exists>cs. tc_calls t = tc_calls s @ cs \<and> pushes cs = [] \<and> port_writes cs @ tcdm_pend t = tcdm_pend s
        \<and> acks cs @ tcdm_unacked t = [(tc_write_transfer s, tc_chunk_start s, tc_chunk_ack_size s)])"
proof -
  let ?u = "tcdm_remove_chunk_from_current_burst n s" and ?k = "tc_chunk_size s"
  have le: "n \<le> tc_current_size s" using n(3) by (simp add: word_le_nat_alt)
  then have k: "?k \<le> tc_current_size s - n" using n(3) by (simp add: word_le_nat_alt unat_sub)
  note u = tcdm_remove_wf [OF wf(1) n(1) le]
  have hd: "burst_size (hd (tcdm_todo s)) = tc_current_size s" using n(1) by (simp add: tcdm_todo_def)
  have adv: "advance ?k (tcdm_todo ?u) = advance (n + ?k) (tcdm_todo s)"
    unfolding u(2) using advance_advance [OF tcdm_todo_ok [OF wf(1)], of n ?k] le k by (simp add: hd)
  have w: "list_all (\<lambda>w. w) (tc_queue_is_write ?u)"
    using wf(3) by (cases "tc_queue_is_write s") (auto simp: tcdm_remove_frame)
  obtain c where t': "t = tc_call c (if ?k = 0 then tc_call Be_update ?u else ?u)"
      and c: "c = (if ?k = 0 then Be_ack_data (tc_write_transfer s) (tc_chunk_start s) (tc_chunk_ack_size s) else Fsm_enqueue 1)"
    by (simp add: t tcdm_write_handle_req_ack_def tcdm_remove_frame)
  have f: "tc_chunk_size t = ?k" "tc_chunk_base t = tc_chunk_base s" "tc_chunk_data t = tc_chunk_data s"
    "tc_write_ack_timestamp t = - 1" "tc_loc_base t = lb" "tc_queue_is_write t = tc_queue_is_write ?u"
    "tc_write_transfer t = tc_write_transfer s" "tc_chunk_start t = tc_chunk_start s"
    "tc_chunk_ack_size t = tc_chunk_ack_size s" "tc_queue_size t = tc_queue_size ?u"
    "tc_current_size t = tc_current_size ?u" "tc_current_base t = tc_current_base ?u"
    using wf(2) free by (simp_all add: t' tc_call_def tcdm_remove_frame)
  have todo: "tcdm_todo t = tcdm_todo ?u" "tcdm_wf t" using u(1) by (simp_all add: t')
  have sp: "tcdm_space t = advance (n + ?k) (tcdm_todo s)"
    using adv by (simp add: tcdm_space_def tcdm_inflight_def f todo)
  have rest: "?k \<noteq> 0 \<Longrightarrow> n \<noteq> tc_current_size s" using k by auto
  have inv: "tcdm_writer_inv lb t"
    using todo w len base n(1) k rest
    by (auto simp: tcdm_writer_inv_def f tcdm_inflight_def tcdm_can_accept_data_def tcdm_remove_current word_le_nat_alt)
  have ack: "tcdm_unacked t = (if ?k = 0 then [] else [(tc_write_transfer s, tc_chunk_start s, tc_chunk_ack_size s)])"
    by (simp add: tcdm_unacked_def tcdm_can_accept_data_def f)
  have "tcdm_pend t = tcdm_pend s" using wf(2) by (simp add: tcdm_pend_def f)
  moreover have "tc_calls t = tc_calls s @ tcdm_removal_calls n s @ (if ?k = 0 then [Be_update, c] else [c])"
    by (simp add: t' tcdm_remove_frame)
  ultimately have "\<exists>cs. tc_calls t = tc_calls s @ cs \<and> pushes cs = [] \<and> port_writes cs @ tcdm_pend t = tcdm_pend s
        \<and> acks cs @ tcdm_unacked t = [(tc_write_transfer s, tc_chunk_start s, tc_chunk_ack_size s)]"
    by (intro exI [of _ "tcdm_removal_calls n s @ (if ?k = 0 then [Be_update, c] else [c])"]) (simp add: c ack)
  with inv sp show ?thesis by blast
qed

text \<open>A line is requested: its bytes leave the pending ones for the port.\<close>

lemma tcdm_writer_line:
  assumes inv: "tcdm_writer_inv lb s" and busy: "0 < tc_chunk_size s" and free: "tc_write_ack_timestamp s = - 1"
    and now: "0 \<le> pe_now e" and t: "tcdm_write_line e s = Some t"
  shows "tcdm_writer_inv lb t \<and> tcdm_space t = tcdm_space s
    \<and> (\<exists>cs. tc_calls t = tc_calls s @ cs \<and> pushes cs = [] \<and> port_writes cs @ tcdm_pend t = tcdm_pend s
        \<and> acks cs @ tcdm_unacked t = tcdm_unacked s)"
proof (cases "tc_last_line_timestamp s = - 1 \<or> tc_last_line_timestamp s < pe_now e")
  case False
  then have "t = tc_call (Fsm_enqueue 1) s" using t by (simp add: tcdm_write_line_def tcdm_update_def)
  then show ?thesis using inv by auto
next
  case True
  define k where "k = tc_chunk_size s"
  define sz where "sz = tcdm_get_line_size (tc_width s) (tc_chunk_base s) k"
  define r where "r = Req_write (tc_chunk_base s - tc_loc_base s) (take (unat sz) (tc_chunk_data s)) []"
  define s2 where "s2 = tc_call r (s\<lparr>tc_last_line_timestamp := pe_now e,
      tc_chunk_base := tc_chunk_base s + sz, tc_chunk_size := k - sz,
      tc_chunk_data := drop (unat sz) (tc_chunk_data s)\<rparr>)"
  obtain st lat where a: "pe_answer e True (tc_chunk_base s - tc_loc_base s) sz = (st, lat)" by fastforce
  have "t = (if lat = 0 then tcdm_write_handle_req_ack (tcdm_remove_chunk_from_current_burst sz s2)
      else tc_call (Fsm_enqueue lat)
        (s2\<lparr>tc_write_ack_timestamp := pe_now e + int (unat lat), tc_write_ack_size := sz\<rparr>))"
    using t True by (auto simp: tcdm_write_line_def Let_def a simp flip: k_def sz_def r_def s2_def split: if_splits)
  note t' = this
  have wf: "tcdm_wf s" and lb: "tc_loc_base s = lb" and len: "length (tc_chunk_data s) = unat k"
    and q: "tc_queue_size s \<noteq> []" and cur: "unat k \<le> unat (tc_current_size s)"
    and base: "tc_chunk_base s = tc_current_base s"
    using inv busy free by (auto simp: tcdm_writer_inv_def tcdm_can_accept_data_def tcdm_inflight_def k_def)
  have sz: "0 < sz" "sz \<le> k" using wf busy by (simp_all add: sz_def k_def tcdm_line_positive tcdm_line_within tcdm_wf_def)
  have sub: "unat (k - sz) = unat k - unat sz" "unat sz \<le> unat k" using sz by (simp_all add: unat_sub word_le_nat_alt)
  have s2: "tc_queue_size s2 = tc_queue_size s" "tc_current_size s2 = tc_current_size s" "tc_chunk_size s2 = k - sz"
    "tc_current_base s2 = tc_current_base s" "tc_chunk_base s2 = tc_current_base s + sz" "tc_loc_base s2 = lb"
    "tc_write_ack_timestamp s2 = - 1" "tc_write_transfer s2 = tc_write_transfer s" "tc_chunk_start s2 = tc_chunk_start s"
    "tc_chunk_ack_size s2 = tc_chunk_ack_size s" "list_all (\<lambda>w. w) (tc_queue_is_write s2)"
    "tc_chunk_data s2 = drop (unat sz) (tc_chunk_data s)" "tc_queue_base s2 = tc_queue_base s"
    "tc_queue_transfer s2 = tc_queue_transfer s" "tc_queue_is_write s2 = tc_queue_is_write s" "tc_width s2 = tc_width s"
    using inv free base lb by (simp_all add: s2_def tc_call_def tcdm_writer_inv_def)
  have s2': "tcdm_wf s2" "tcdm_todo s2 = tcdm_todo s" "tc_calls s2 = tc_calls s @ [r]"
    using wf by (simp_all add: s2_def tcdm_wf_def tcdm_todo_def)
  have len2: "length (tc_chunk_data s2) = unat (tc_chunk_size s2)" using len sub by (simp add: s2)
  have sum: "unat sz + unat (tc_chunk_size s2) \<le> unat (tc_current_size s2)" using cur sub by (simp add: s2)
  have "tcdm_pend s = zip (addrs (tc_chunk_base s - lb) (unat sz + unat (k - sz)))
      (take (unat sz) (tc_chunk_data s) @ drop (unat sz) (tc_chunk_data s))"
    using sub lb by (simp add: tcdm_pend_def k_def)
  also have "\<dots> = port_writes [r] @ tcdm_pend s2"
    using len sub lb base by (subst addrs_add, subst zip_append) (simp_all add: r_def tcdm_pend_def s2 algebra_simps)
  finally have pend: "port_writes [r] @ tcdm_pend s2 = tcdm_pend s" ..
  have r: "pushes [r] = []" "acks [r] = []" by (simp_all add: r_def)
  have una: "tcdm_unacked s = [(tc_write_transfer s, tc_chunk_start s, tc_chunk_ack_size s)]"
    using busy by (auto simp: tcdm_unacked_def tcdm_can_accept_data_def)
  have sp: "tcdm_space s = advance k (tcdm_todo s)" using free by (simp add: tcdm_space_def tcdm_inflight_def k_def)
  show ?thesis
  proof (cases "lat = 0")
    case True
    have "tcdm_writer_inv lb t \<and> tcdm_space t = advance (sz + tc_chunk_size s2) (tcdm_todo s2)
      \<and> (\<exists>cs. tc_calls t = tc_calls s2 @ cs \<and> pushes cs = [] \<and> port_writes cs @ tcdm_pend t = tcdm_pend s2
        \<and> acks cs @ tcdm_unacked t = [(tc_write_transfer s2, tc_chunk_start s2, tc_chunk_ack_size s2)])"
      by (rule tcdm_writer_retire) (use s2 s2' len2 sum q sz True t' in simp_all)
    then obtain cs where cs: "tcdm_writer_inv lb t" "tcdm_space t = tcdm_space s" "tc_calls t = tc_calls s @ [r] @ cs"
      "pushes cs = []" "port_writes cs @ tcdm_pend t = tcdm_pend s2" "acks cs @ tcdm_unacked t = tcdm_unacked s"
      using s2 s2' sp una by (auto simp del: port_writes.simps)
    show ?thesis
      by (rule conjI [OF cs(1)], rule conjI [OF cs(2)], rule exI [of _ "[r] @ cs"])
        (use cs r pend in \<open>simp only: pushes_append acks_append port_writes_append append_assoc append_Nil append_Nil2 simp_thms\<close>)
  next
    case False
    then have ts: "pe_now e + int (unat lat) \<noteq> - 1" using now by linarith
    have t'': "t = tc_call (Fsm_enqueue lat) (s2\<lparr>tc_write_ack_timestamp := pe_now e + int (unat lat), tc_write_ack_size := sz\<rparr>)"
      using t' False by (simp only: if_False)
    have f: "tcdm_todo t = tcdm_todo s" "tcdm_wf t" "tc_calls t = tc_calls s @ [r, Fsm_enqueue lat]" "tcdm_inflight t = sz"
      "tc_chunk_size t = k - sz" "tcdm_pend t = tcdm_pend s2"
      using ts s2 s2' q by (simp_all add: t'') (simp_all add: tc_call_def tcdm_todo_def tcdm_wf_def tcdm_inflight_def tcdm_pend_def)
    have "tcdm_writer_inv lb t"
      using f s2 len2 sum q sz ts by (simp add: tcdm_writer_inv_def) (simp add: t'' tc_call_def)
    moreover have "tcdm_space t = tcdm_space s" by (simp add: tcdm_space_def f sp [unfolded tcdm_space_def])
    moreover have "tcdm_unacked t = tcdm_unacked s"
      using ts by (simp add: una) (simp add: t'' tc_call_def tcdm_unacked_def tcdm_can_accept_data_def s2)
    ultimately show ?thesis using f(3) r pend by (auto intro!: exI [of _ "[r, Fsm_enqueue lat]"] simp: f(6) r_def)
  qed
qed

lemma tcdm_writer_fsm_ack:
  fixes e s
  assumes inv: "tcdm_writer_inv lb s"
  defines "t \<equiv> tcdm_fsm_ack e s"
  shows "tcdm_writer_inv lb t \<and> tcdm_space t = tcdm_space s
    \<and> (\<exists>cs. tc_calls t = tc_calls s @ cs \<and> pushes cs = [] \<and> port_writes cs @ tcdm_pend t = tcdm_pend s
        \<and> acks cs @ tcdm_unacked t = tcdm_unacked s)"
proof -
  define c where "c = Fsm_enqueue (of_int (tc_write_ack_timestamp s - pe_now e))"
  consider (none) "t = s" | (wait) "t = tc_call c s"
    | (due) "tc_write_ack_timestamp s \<noteq> - 1" "t = tcdm_write_handle_req_ack
          (tcdm_remove_chunk_from_current_burst (tc_write_ack_size s) (s\<lparr>tc_write_ack_timestamp := - 1\<rparr>))"
    unfolding t_def tcdm_fsm_ack_def c_def by argo
  then show ?thesis
  proof cases
    case due
    let ?s = "s\<lparr>tc_write_ack_timestamp := - 1\<rparr>" and ?n = "tc_write_ack_size s"
    have s: "tcdm_wf ?s" "tcdm_todo ?s = tcdm_todo s" "tcdm_pend ?s = tcdm_pend s"
      using inv by (simp_all add: tcdm_writer_inv_def tcdm_wf_def tcdm_todo_def tcdm_pend_def)
    have "tcdm_writer_inv lb t \<and> tcdm_space t = advance (?n + tc_chunk_size ?s) (tcdm_todo ?s)
      \<and> (\<exists>cs. tc_calls t = tc_calls ?s @ cs \<and> pushes cs = [] \<and> port_writes cs @ tcdm_pend t = tcdm_pend ?s
        \<and> acks cs @ tcdm_unacked t = [(tc_write_transfer ?s, tc_chunk_start ?s, tc_chunk_ack_size ?s)])"
      by (rule tcdm_writer_retire)
        (use inv s due in \<open>auto simp: tcdm_writer_inv_def tcdm_inflight_def tcdm_can_accept_data_def\<close>)
    moreover have "tcdm_space s = advance (?n + tc_chunk_size s) (tcdm_todo s)"
      "tcdm_unacked s = [(tc_write_transfer s, tc_chunk_start s, tc_chunk_ack_size s)]"
      using due(1) by (simp_all add: tcdm_space_def tcdm_inflight_def tcdm_unacked_def tcdm_can_accept_data_def)
    ultimately show ?thesis using s by simp
  next
    case wait
    then show ?thesis using inv by (simp add: c_def)
  qed (use inv in simp)
qed

lemma tcdm_writer_no_read:
  assumes "tcdm_writer_inv lb s" shows "tcdm_fsm_read e s = Some s"
  using assms by (cases "tc_queue_is_write s") (auto simp: tcdm_fsm_read_def tcdm_writer_inv_def)

lemma tcdm_writer_turn:
  assumes inv: "tcdm_writer_inv lb s" and now: "0 \<le> pe_now e" and t: "tcdm_fsm_handler e s = Some t"
  shows "tcdm_writer_inv lb t \<and> tcdm_space t = tcdm_space s
    \<and> (\<exists>cs. tc_calls t = tc_calls s @ cs \<and> pushes cs = [] \<and> port_writes cs @ tcdm_pend t = tcdm_pend s
        \<and> acks cs @ tcdm_unacked t = tcdm_unacked s)"
proof -
  let ?u = "tcdm_fsm_ack e s"
  obtain cs where u: "tcdm_writer_inv lb ?u" "tcdm_space ?u = tcdm_space s" "tc_calls ?u = tc_calls s @ cs"
    "pushes cs = []" "port_writes cs @ tcdm_pend ?u = tcdm_pend s" "acks cs @ tcdm_unacked ?u = tcdm_unacked s"
    using tcdm_writer_fsm_ack [OF inv, of e] by blast
  obtain v where v: "tcdm_fsm_write e ?u = Some v" "tcdm_fsm_read e v = Some t"
    using t by (auto simp: tcdm_fsm_handler_def bind_eq_Some_conv)
  have "tcdm_writer_inv lb v \<and> tcdm_space v = tcdm_space ?u
    \<and> (\<exists>ds. tc_calls v = tc_calls ?u @ ds \<and> pushes ds = [] \<and> port_writes ds @ tcdm_pend v = tcdm_pend ?u
        \<and> acks ds @ tcdm_unacked v = tcdm_unacked ?u)"
  proof (cases "tc_chunk_size ?u > 0 \<and> tc_write_ack_timestamp ?u = - 1")
    case True
    then show ?thesis using v(1) tcdm_writer_line [OF u(1) _ _ now, of v] by (simp add: tcdm_fsm_write_def)
  next
    case False
    then have "v = ?u" using v(1) by (auto simp: tcdm_fsm_write_def)
    then show ?thesis using u(1) by simp
  qed
  then obtain ds where w: "tcdm_writer_inv lb v" "tcdm_space v = tcdm_space ?u" "tc_calls v = tc_calls ?u @ ds"
    "pushes ds = []" "port_writes ds @ tcdm_pend v = tcdm_pend ?u" "acks ds @ tcdm_unacked v = tcdm_unacked ?u"
    by blast
  have "t = v" using v(2) tcdm_writer_no_read [OF w(1)] by simp
  then show ?thesis using u w by (intro conjI exI [of _ "cs @ ds"]) simp_all
qed

text \<open>A chunk is taken: it is written from where the current burst stands.\<close>

lemma tcdm_writer_data:
  assumes inv: "tcdm_writer_inv lb s" and free: "tcdm_can_accept_data s" and now: "0 \<le> pe_now e"
    and space: "tcdm_space s = (j, a, n) # bs" and m: "0 < m" "m \<le> n" "unat m = length x"
    and t: "tcdm_write_data e i p x s = Some t"
  shows "tcdm_writer_inv lb t \<and> tcdm_space t = advance m (tcdm_space s)
    \<and> (\<exists>cs. tc_calls t = tc_calls s @ cs \<and> pushes cs = []
        \<and> port_writes cs @ tcdm_pend t = tcdm_pend s @ zip (map (\<lambda>b. b - lb) (addrs a (unat m))) x
        \<and> acks cs @ tcdm_unacked t = tcdm_unacked s @ [(i, p, m)])"
proof -
  define s1 where "s1 = s\<lparr>tc_chunk_ack_size := m, tc_chunk_size := m, tc_chunk_base := tc_current_base s,
      tc_chunk_data := x, tc_chunk_start := p, tc_write_transfer := i\<rparr>"
  have idle: "tc_chunk_size s = 0" "tc_write_ack_timestamp s = - 1" using free by (simp_all add: tcdm_can_accept_data_def)
  have wf: "tcdm_wf s" using inv by (simp add: tcdm_writer_inv_def)
  have todo: "tcdm_todo s = (j, a, n) # bs"
    using space idle advance_0 [OF tcdm_todo_ok [OF wf]] by (simp add: tcdm_space_def tcdm_inflight_def)
  then have q: "tc_queue_size s \<noteq> []" "a = tc_current_base s" "n = tc_current_size s"
    by (auto simp: tcdm_todo_def split: if_splits)
  have m': "(of_nat (length x) :: u64) = m" using m(3) by (simp flip: m(3))
  have "tcdm_write_line e s1 = Some t" using t by (simp add: tcdm_write_data_def s1_def m')
  moreover have s1: "tcdm_wf s1" "tcdm_todo s1 = tcdm_todo s" "tc_calls s1 = tc_calls s"
    using wf by (simp_all add: s1_def tcdm_wf_def tcdm_todo_def)
  moreover have inv1: "tcdm_writer_inv lb s1"
    using inv s1(1) idle q m unfolding tcdm_writer_inv_def
    by (simp add: s1_def tcdm_inflight_def word_le_nat_alt)
  moreover have "0 < tc_chunk_size s1" "tc_write_ack_timestamp s1 = - 1" using m idle by (simp_all add: s1_def)
  moreover have "tcdm_space s1 = advance m (tcdm_space s)"
    using idle s1(2) todo space by (simp add: tcdm_space_def tcdm_inflight_def) (simp add: s1_def)
  moreover have "tcdm_pend s1 = zip (map (\<lambda>b. b - lb) (addrs a (unat m))) x" "tcdm_pend s = []"
    using inv idle q by (simp_all add: tcdm_pend_def s1_def tcdm_writer_inv_def flip: addrs_offset)
  moreover have "tcdm_unacked s1 = [(i, p, m)]" "tcdm_unacked s = []"
    using m idle by (simp_all add: tcdm_unacked_def s1_def tcdm_can_accept_data_def)
  ultimately show ?thesis using tcdm_writer_line [of lb s1 e t] now by auto
qed

interpretation tcdm_writer: idma_writer "tcdm_writer_inv lb" tcdm_space tcdm_pend tcdm_unacked tc_calls
    tcdm_can_accept_burst tcdm_can_accept_data tcdm_write_burst tcdm_write_data "\<lambda>e s. 0 \<le> pe_now e"
    tcdm_fsm_handler "\<lambda>e s. 0 \<le> pe_now e" "\<lambda>b. b - lb" for lb
proof (unfold_locales, goal_cases)
  case (1 s)
  have wf: "bursts_ok (tcdm_todo s)" using 1 by (auto simp: tcdm_writer_inv_def intro: tcdm_todo_ok)
  show ?case
  proof (cases "tcdm_can_accept_data s")
    case True
    then show ?thesis using wf by (simp add: tcdm_space_def tcdm_can_accept_data_def tcdm_inflight_def advance_0)
  next
    case False
    then have q: "tc_queue_size s \<noteq> []" "unat (tcdm_inflight s) + unat (tc_chunk_size s) \<le> unat (tc_current_size s)"
      using 1 by (auto simp: tcdm_writer_inv_def)
    then show ?thesis unfolding tcdm_space_def using wf q(1)
      by (intro advance_ok) (simp_all add: tcdm_todo_def unat_add_le)
  qed
next
  case (2 s)
  then show ?case by (auto simp: tcdm_unacked_def tcdm_can_accept_data_def tcdm_pend_def split: if_splits)
next
  case (3 s n i a)
  let ?t = "tcdm_write_burst i a n s"
  have wf: "tcdm_wf s" using 3 by (simp add: tcdm_writer_inv_def)
  note w = tcdm_enqueue_wf [OF wf 3(3), of a True i]
  have f: "tc_calls ?t = tc_calls s @ [Fsm_enqueue 1]" "tcdm_inflight ?t = tcdm_inflight s"
    "tc_chunk_size ?t = tc_chunk_size s" "tcdm_can_accept_data ?t = tcdm_can_accept_data s"
    "tcdm_pend ?t = tcdm_pend s" "tcdm_unacked ?t = tcdm_unacked s" "tc_loc_base ?t = tc_loc_base s"
    "tc_queue_is_write ?t = tc_queue_is_write s @ [True]" "tc_chunk_data ?t = tc_chunk_data s"
    "tc_chunk_base ?t = tc_chunk_base s" "tc_write_ack_timestamp ?t = tc_write_ack_timestamp s"
    "tc_write_ack_size ?t = tc_write_ack_size s"
    by (simp_all add: tcdm_write_burst_def tcdm_enqueue_burst_def Let_def tcdm_unacked_def)
      (simp_all add: tcdm_inflight_def tcdm_can_accept_data_def tcdm_pend_def tc_call_def tcdm_activate_frame)
  have cur: "tc_queue_size s \<noteq> [] \<Longrightarrow> tc_current_base ?t = tc_current_base s \<and> tc_current_size ?t = tc_current_size s
      \<and> tc_queue_size ?t \<noteq> []"
    using tcdm_wf_empty [OF wf]
    by (simp add: tcdm_write_burst_def tcdm_enqueue_burst_def Let_def tcdm_activate_burst_def tc_call_def)
  have "tcdm_writer_inv lb ?t"
    using 3(1) cur w(1) by (auto simp: tcdm_writer_inv_def f) (simp_all add: tcdm_write_burst_def)
  moreover have "tcdm_space ?t = tcdm_space s @ [(i, a, n)]"
  proof (cases "tc_queue_size s = []")
    case True
    then have "tcdm_inflight s + tc_chunk_size s = 0" "tcdm_todo s = []"
      using 3(1) by (auto simp: tcdm_writer_inv_def tcdm_can_accept_data_def tcdm_inflight_def tcdm_todo_def)
    then show ?thesis using w(2) 3(3) by (simp add: tcdm_space_def f) (simp add: tcdm_write_burst_def)
  next
    case False
    then have "tcdm_todo s \<noteq> []" by (simp add: tcdm_todo_def)
    then show ?thesis using w(2) by (simp add: tcdm_space_def f advance_append) (simp add: tcdm_write_burst_def advance_append)
  qed
  ultimately show ?case by (simp add: f)
next
  case (4 s d j a n bs m x i p t)
  then show ?case by (intro tcdm_writer_data)
next
  case (5 s e t)
  then show ?case by (intro tcdm_writer_turn)
qed

subsection \<open>Well-formedness\<close>

text \<open>The operations of a TCDM protocol, and when its users call them: as a writer (\<open>w\<close>) or as a reader.\<close>

datatype tcdm_op = Tcdm_burst nat u64 u64 | Tcdm_data proto_env nat ptr "u8 list" | Tcdm_ack ptr | Tcdm_turn proto_env

fun tcdm_apply :: "bool \<Rightarrow> tcdm_op \<Rightarrow> tcdm \<Rightarrow> tcdm option" where
  "tcdm_apply w (Tcdm_burst i a n) s = Some (if w then tcdm_write_burst i a n s else tcdm_read_burst i a n s)"
| "tcdm_apply w (Tcdm_data e i p bs) s = tcdm_write_data e i p bs s"
| "tcdm_apply w (Tcdm_ack p) s = Some (tcdm_write_data_ack p s)"
| "tcdm_apply w (Tcdm_turn e) s = tcdm_fsm_handler e s"

fun tcdm_called :: "bool \<Rightarrow> (u64 \<Rightarrow> u8) \<Rightarrow> tcdm_op \<Rightarrow> tcdm \<Rightarrow> bool" where
  "tcdm_called w mem (Tcdm_burst i a n) s \<longleftrightarrow> tcdm_can_accept_burst s \<and> 0 < n"
| "tcdm_called w mem (Tcdm_data e i p bs) s \<longleftrightarrow> w \<and> tcdm_can_accept_data s \<and> 0 \<le> pe_now e \<and> tcdm_space s \<noteq> []
     \<and> bs \<noteq> [] \<and> length bs \<le> unat (burst_size (hd (tcdm_space s)))"
| "tcdm_called w mem (Tcdm_ack p) s \<longleftrightarrow> \<not> w \<and> tcdm_held s \<noteq> [] \<and> p = hd (tcdm_held s)"
| "tcdm_called w mem (Tcdm_turn e) s \<longleftrightarrow> 0 \<le> pe_now e \<and> pe_mem e = mem"

definition tcdm_typed :: "u64 \<Rightarrow> (u64 \<Rightarrow> u8) \<Rightarrow> bool \<Rightarrow> tcdm \<Rightarrow> bool" where
  "tcdm_typed lb mem w s \<longleftrightarrow> (if w then tcdm_writer_inv lb s else tcdm_reader_inv lb mem s)"

lemma tcdm_typed_apply:
  assumes "tcdm_typed lb mem w s" and "tcdm_called w mem x s" and "tcdm_apply w x s = Some t"
  shows "tcdm_typed lb mem w t"
proof (cases x)
  case (Tcdm_burst i a n)
  then show ?thesis
    using assms tcdm_writer.burst_law [of lb s n i a] tcdm_reader.burst_law [of lb mem s n i a]
    by (auto simp: tcdm_typed_def split: if_splits)
next
  case (Tcdm_data e i p bs)
  then have called: "w" "tcdm_can_accept_data s" "0 \<le> pe_now e" "bs \<noteq> []" "length bs \<le> unat (burst_size (hd (tcdm_space s)))"
    and t: "tcdm_write_data e i p bs s = Some t" and inv: "tcdm_writer_inv lb s"
    using assms by (auto simp: tcdm_typed_def)
  obtain j a n rest where sp: "tcdm_space s = (j, a, n) # rest" using assms(2) Tcdm_data by (cases "tcdm_space s") auto
  have len: "unat (of_nat (length bs) :: u64) = length bs"
    using called(5) unat_u64_less [of n] sp by (simp add: unsigned_of_nat take_bit_nat_eq_self)
  then have "0 < (of_nat (length bs) :: u64)" "(of_nat (length bs) :: u64) \<le> n"
    using called(4,5) sp by (simp_all only: word_less_nat_alt word_le_nat_alt) simp_all
  then show ?thesis
    using tcdm_writer.data_law [OF inv called(2,3) sp _ _ len t] called(1) by (simp add: tcdm_typed_def)
next
  case (Tcdm_ack p)
  then have "\<not> w" "tcdm_held s = p # tl (tcdm_held s)" "t = tcdm_write_data_ack p s"
    using assms by (auto simp: tcdm_typed_def)
  then show ?thesis using assms(1) tcdm_reader.ack_law [of lb mem s p "tl (tcdm_held s)"] by (simp add: tcdm_typed_def)
next
  case (Tcdm_turn e)
  then show ?thesis
    using assms tcdm_writer.turn_law [of lb s e t] tcdm_reader.turn_law [of lb mem s e t]
    by (auto simp: tcdm_typed_def split: if_splits)
qed

text \<open>A sequence of calls, each made when its user may make it.\<close>

fun tcdm_calls_run :: "bool \<Rightarrow> (u64 \<Rightarrow> u8) \<Rightarrow> tcdm_op list \<Rightarrow> tcdm \<Rightarrow> tcdm option" where
  "tcdm_calls_run w mem [] s = Some s"
| "tcdm_calls_run w mem (x # xs) s =
     (if tcdm_called w mem x s then Option.bind (tcdm_apply w x s) (tcdm_calls_run w mem xs) else None)"

text \<open>
  C16. The state of a TCDM protocol is well formed between resets. Used as a reader or as a writer, from
  a state that is well formed in its role, every sequence of the calls that role permits (bursts when
  it says it accepts one, chunks of the current burst when it says it accepts data, acknowledgements
  and turns, no reset) leaves one: the
  four queues have the same length, no queued burst is empty, the current burst is what is left of the
  first queued one and is there exactly when one is queued, so no queue is popped or read when it is
  empty; a line held by a reader, and the rest of a chunk with the line in flight of a writer, lie
  within the current burst.
\<close>

theorem idma_tcdm_well_formed:
  assumes "tcdm_typed lb mem w s" and "tcdm_calls_run w mem xs s = Some t"
  shows "tcdm_typed lb mem w t \<and> tcdm_wf t
    \<and> (if w then unat (tcdm_inflight t) + unat (tc_chunk_size t) \<le> unat (tc_current_size t)
       else tc_read_pending_size t \<le> tc_current_size t)"
proof -
  have typed: "tcdm_typed lb mem w t"
    using assms by (induction xs arbitrary: s) (auto simp: bind_eq_Some_conv split: if_splits dest: tcdm_typed_apply)
  then have "tcdm_wf t" by (simp add: tcdm_typed_def tcdm_writer_inv_def tcdm_reader_inv_def split: if_splits)
  moreover have "\<not> w \<Longrightarrow> tc_read_pending_size t \<le> tc_current_size t"
    using typed by (cases "tc_read_pending_size t = 0") (auto simp: tcdm_typed_def tcdm_reader_inv_def word_neq_0_conv)
  moreover have "w \<Longrightarrow> unat (tcdm_inflight t) + unat (tc_chunk_size t) \<le> unat (tc_current_size t)"
    using typed by (auto simp: tcdm_typed_def tcdm_writer_inv_def tcdm_can_accept_data_def tcdm_inflight_def)
  ultimately show ?thesis using typed by simp
qed

text \<open>An idle protocol, and ports without latency in front of a memory whose bytes are the low bytes of their addresses.\<close>

definition tcdm_example :: tcdm where
  "tcdm_example = \<lparr>tc_width = 4, tc_burst_queue_maxsize = 2, tc_loc_base = 0x10000000, tc_queue_base = [], tc_queue_size = [],
     tc_queue_is_write = [], tc_queue_transfer = [], tc_current_base = 0, tc_current_size = 0, tc_chunk_base = 0,
     tc_chunk_size = 0, tc_chunk_ack_size = 0, tc_chunk_data = [], tc_chunk_start = 0, tc_write_ack_timestamp = - 1,
     tc_write_ack_size = 0, tc_read_pending_timestamp = 0, tc_read_pending_data = (0, []), tc_read_pending_size = 0,
     tc_last_line_timestamp = - 1, tc_write_transfer = 0, tc_allocs = 0, tc_calls = []\<rparr>"

text \<open>A memory whose bytes are the low bytes of their addresses, behind ports without latency.\<close>

definition low_byte :: "u64 \<Rightarrow> u8" where
  "low_byte a = ucast a"

definition env_example :: "int \<Rightarrow> proto_env" where
  "env_example now = \<lparr>pe_now = now, pe_answer = (\<lambda>w a n. (IO_REQ_OK, 0)), pe_mem = low_byte, pe_ready = (\<lambda>_. True),
     pe_collective = (\<lambda>_. (0, 0))\<rparr>"

lemmas tcdm_run_defs = tcdm_can_accept_burst_def tcdm_can_accept_data_def tcdm_write_burst_def tcdm_enqueue_burst_def tcdm_activate_burst_def
  tcdm_write_data_def tcdm_write_line_def tcdm_get_line_size_def next_boundary_def tcdm_update_def
  tcdm_read_burst_def tcdm_read_line_def tcdm_fsm_handler_def tcdm_fsm_ack_def tcdm_fsm_write_def tcdm_fsm_read_def
  tcdm_fsm_deliver_def tcdm_push_def tcdm_write_data_ack_def
  tcdm_write_handle_req_ack_def tcdm_remove_chunk_from_current_burst_def tc_call_def
text \<open>A line of two bytes up to the next line, read while the back-end is not ready: it is held.\<close>

theorem idma_tcdm_well_formed_witness:
  "\<exists>t. tcdm_calls_run False low_byte [Tcdm_burst 5 0x10000002 6, Tcdm_turn ((env_example 1)\<lparr>pe_ready := \<lambda>_. False\<rparr>)] tcdm_example
      = Some t \<and> tcdm_wf t \<and> tc_read_pending_size t = 2 \<and> tc_current_size t = 6"
proof -
  have typed: "tcdm_typed 0x10000000 low_byte False tcdm_example"
    by (simp add: tcdm_typed_def tcdm_reader_inv_def tcdm_wf_def tcdm_example_def)
  have "map_option (\<lambda>t. (tc_read_pending_size t, tc_current_size t))
      (tcdm_calls_run False low_byte [Tcdm_burst 5 0x10000002 6, Tcdm_turn ((env_example 1)\<lparr>pe_ready := \<lambda>_. False\<rparr>)] tcdm_example)
    = Some (2, 6)"
    by (simp add: tcdm_run_defs tcdm_example_def env_example_def Let_def)
  then obtain t where t: "tcdm_calls_run False low_byte
      [Tcdm_burst 5 0x10000002 6, Tcdm_turn ((env_example 1)\<lparr>pe_ready := \<lambda>_. False\<rparr>)] tcdm_example = Some t"
    "tc_read_pending_size t = 2" "tc_current_size t = 6"
    by (auto simp only: map_option_eq_Some prod.inject)
  then show ?thesis using idma_tcdm_well_formed [OF typed t(1)] by blast
qed

end
