(* ===== verification/Idma_Axi.thy ===== *)
theory Idma_Axi
  imports Idma_Proto Idma_Be
begin

section \<open>The AXI protocol of the iDMA (\<open>src/pulp/idma/be/idma_be_axi.cpp\<close>)\<close>

text \<open>
  The class \<open>IDmaBeAxi\<close>: a fixed set of burst requests that move between the queues of the code, named
  by their identifier. A burst's data buffer has the burst's name as its pointer. Reads go out as whole
  bursts, several at a time, and their responses wait for their latency and for the back-end. A chunk
  to write goes out at once as a request of its own (\<open>new vp::IoReq\<close>).

  Two fields stand for what the interconnect keeps: \<open>ax_sent\<close>, the reads it answered with a pending
  status, and \<open>ax_writes\<close>, the write requests likewise, both oldest first. A response names one of them
  (\<open>axi_response\<close>) and brings the latency, and the data of a read. A request that is refused as
  invalid is in no queue any more.
\<close>

record axi_req =
  rq_is_write :: bool
  rq_addr :: u64
  rq_size :: u64
  rq_transfer :: nat
  rq_ptr :: ptr
  rq_data :: "u8 list"
  rq_latency :: u64
  rq_payload :: "u8 list"

record axi =
  ax_nb_bursts :: nat
  ax_bursts :: "nat \<Rightarrow> axi_req"
  ax_free :: "nat list"
  ax_read_waiting :: "nat list"
  ax_waiting_ack :: "nat list"
  ax_read_timestamps :: "nat \<Rightarrow> int"
  ax_pending :: "nat list"
  ax_pending_ack :: "nat list"
  ax_current_base :: u64
  ax_current_size :: u64
  ax_sent :: "nat list"
  ax_writes :: "axi_req list"
  ax_calls :: "proto_call list"

datatype axi_resp = Read_resp nat u64 "u8 list" | Write_resp nat

definition ax_call :: "proto_call \<Rightarrow> axi \<Rightarrow> axi" where
  "ax_call x s = s\<lparr>ax_calls := ax_calls s @ [x]\<rparr>"

lemma ax_call_frame [simp]:
  "ax_nb_bursts (ax_call x s) = ax_nb_bursts s"
  "ax_bursts (ax_call x s) = ax_bursts s"
  "ax_free (ax_call x s) = ax_free s"
  "ax_read_waiting (ax_call x s) = ax_read_waiting s"
  "ax_waiting_ack (ax_call x s) = ax_waiting_ack s"
  "ax_read_timestamps (ax_call x s) = ax_read_timestamps s"
  "ax_pending (ax_call x s) = ax_pending s"
  "ax_pending_ack (ax_call x s) = ax_pending_ack s"
  "ax_current_base (ax_call x s) = ax_current_base s"
  "ax_current_size (ax_call x s) = ax_current_size s"
  "ax_sent (ax_call x s) = ax_sent s"
  "ax_writes (ax_call x s) = ax_writes s"
  "ax_calls (ax_call x s) = ax_calls s @ [x]"
  by (simp_all add: ax_call_def)

text \<open>The sideband of a request: the collective operation and eight bytes of its mask, low byte first.\<close>

definition stamp_collective_payload :: "u8 \<times> u64 \<Rightarrow> bool \<Rightarrow> u8 list" where
  "stamp_collective_payload coll is_write =
     (let op = (if is_write then fst coll else 0); mask_bits = (if is_write then snd coll else 0)
      in op # map (\<lambda>i. ucast (drop_bit (8 * i) mask_bits)) [0..<8])"

definition axi_update :: "axi \<Rightarrow> axi" where
  "axi_update s = ax_call (Fsm_enqueue 1) s"

definition axi_can_accept_burst :: "axi \<Rightarrow> bool" where
  "axi_can_accept_burst s \<longleftrightarrow> ax_free s \<noteq> []"

definition axi_can_accept_data :: "axi \<Rightarrow> bool" where
  "axi_can_accept_data s \<longleftrightarrow> True"

definition axi_is_empty :: "axi \<Rightarrow> bool" where
  "axi_is_empty s \<longleftrightarrow> ax_pending s = []"

text \<open>\<open>current_burst_base\<close> and \<open>current_burst_size\<close> from the first pending burst.\<close>

definition axi_load_current :: "axi \<Rightarrow> axi" where
  "axi_load_current s =
     s\<lparr>ax_current_base := rq_addr (ax_bursts s (hd (ax_pending s))),
       ax_current_size := rq_size (ax_bursts s (hd (ax_pending s)))\<rparr>"

definition axi_enqueue_burst :: "u64 \<Rightarrow> u64 \<Rightarrow> bool \<Rightarrow> nat \<Rightarrow> axi \<Rightarrow> axi" where
  "axi_enqueue_burst base sz is_write i s =
     (let b = hd (ax_free s);
          q = (ax_bursts s b)\<lparr>rq_latency := 0, rq_is_write := is_write, rq_addr := base, rq_size := sz, rq_transfer := i\<rparr>;
          q1 = (if is_write then q else q\<lparr>rq_payload := stamp_collective_payload (0, 0) False\<rparr>);
          s1 = s\<lparr>ax_free := tl (ax_free s), ax_bursts := (ax_bursts s)(b := q1),
                 ax_pending := ax_pending s @ [b], ax_pending_ack := ax_pending_ack s @ [b]\<rparr>;
          s2 = (if length (ax_pending s1) = 1 then axi_load_current s1 else s1)
      in axi_update s2)"

definition axi_read_burst :: "nat \<Rightarrow> u64 \<Rightarrow> u64 \<Rightarrow> axi \<Rightarrow> axi" where
  "axi_read_burst i base sz s = axi_enqueue_burst base sz False i s"

definition axi_write_burst :: "nat \<Rightarrow> u64 \<Rightarrow> u64 \<Rightarrow> axi \<Rightarrow> axi" where
  "axi_write_burst i base sz s = axi_enqueue_burst base sz True i s"

definition axi_read_handle_req_end :: "proto_env \<Rightarrow> nat \<Rightarrow> axi \<Rightarrow> axi" where
  "axi_read_handle_req_end e b s =
     (let latency = rq_latency (ax_bursts s b);
          s1 = s\<lparr>ax_read_timestamps := (ax_read_timestamps s)(b := pe_now e + int (unat latency)),
                 ax_read_waiting := ax_read_waiting s @ [b]\<rparr>
      in ax_call (Fsm_enqueue (max latency 1)) s1)"

text \<open>What the interconnect puts into a read request: its latency, and the data into its buffer.\<close>

definition axi_fill :: "nat \<Rightarrow> u64 \<Rightarrow> u8 list \<Rightarrow> axi \<Rightarrow> axi" where
  "axi_fill b latency bytes s =
     s\<lparr>ax_bursts := (ax_bursts s)(b := (ax_bursts s b)\<lparr>rq_latency := latency, rq_data := bytes\<rparr>)\<rparr>"

definition axi_send_read_burst :: "proto_env \<Rightarrow> axi \<Rightarrow> axi" where
  "axi_send_read_burst e s =
     (let b = hd (ax_pending s);
          s1 = ax_call Be_update (axi_update (s\<lparr>ax_pending := tl (ax_pending s)\<rparr>));
          s2 = s1\<lparr>ax_bursts := (ax_bursts s1)(b := (ax_bursts s1 b)\<lparr>rq_latency := 0\<rparr>)\<rparr>;
          q = ax_bursts s2 b;
          s3 = ax_call (Req_read (rq_addr q) (rq_size q) (rq_payload q)) s2;
          (status, latency) = pe_answer e False (rq_addr q) (rq_size q)
      in case status of
           IO_REQ_OK \<Rightarrow> axi_read_handle_req_end e b
             (axi_fill b latency (map (pe_mem e) (addrs (rq_addr q) (unat (rq_size q)))) s3)
         | IO_REQ_INVALID \<Rightarrow> s3
         | _ \<Rightarrow> s3\<lparr>ax_sent := ax_sent s3 @ [b]\<rparr>)"

definition axi_write_data_ack :: "ptr \<Rightarrow> axi \<Rightarrow> axi" where
  "axi_write_data_ack p s =
     (let s1 = s\<lparr>ax_waiting_ack := tl (ax_waiting_ack s), ax_free := ax_free s @ [hd (ax_waiting_ack s)]\<rparr>
      in ax_call (Fsm_enqueue 1) (ax_call Be_update s1))"

definition axi_write_handle_req_end :: "axi_req \<Rightarrow> axi \<Rightarrow> axi" where
  "axi_write_handle_req_end q s =
     (let s1 = ax_call (Be_ack_data (rq_transfer q) (rq_ptr q) (rq_size q)) s;
          b = hd (ax_pending_ack s1);
          left = rq_size (ax_bursts s1 b) - rq_size q;
          s2 = s1\<lparr>ax_bursts := (ax_bursts s1)(b := (ax_bursts s1 b)\<lparr>rq_size := left\<rparr>)\<rparr>
      in if left = 0
         then axi_update (ax_call Be_update
                (s2\<lparr>ax_pending_ack := tl (ax_pending_ack s2), ax_free := ax_free s2 @ [b]\<rparr>))
         else s2)"

definition axi_write_data :: "proto_env \<Rightarrow> nat \<Rightarrow> ptr \<Rightarrow> u8 list \<Rightarrow> axi \<Rightarrow> axi" where
  "axi_write_data e i p bs s =
     (let sz = of_nat (length bs); base = ax_current_base s;
          s1 = s\<lparr>ax_current_base := ax_current_base s + sz, ax_current_size := ax_current_size s - sz\<rparr>;
          s2 = (if ax_current_size s1 = 0 then
                  let s' = s1\<lparr>ax_pending := tl (ax_pending s1)\<rparr>
                  in if ax_pending s' \<noteq> [] then axi_load_current s' else s'
                else s1);
          payload = stamp_collective_payload (pe_collective e i) True;
          q = \<lparr>rq_is_write = True, rq_addr = base, rq_size = sz, rq_transfer = i, rq_ptr = p, rq_data = bs,
               rq_latency = snd (pe_answer e True base sz), rq_payload = payload\<rparr>;
          s3 = ax_call (Req_write base bs payload) s2
      in case fst (pe_answer e True base sz) of
           IO_REQ_OK \<Rightarrow> axi_write_handle_req_end q s3
         | IO_REQ_INVALID \<Rightarrow> s3
         | _ \<Rightarrow> s3\<lparr>ax_writes := ax_writes s3 @ [q]\<rparr>)"

text \<open>
  A response: to a read, by the name of the burst, with the latency and the data it brings; to the
  \<open>k\<close>-th write request the interconnect keeps.
\<close>

fun axi_response :: "proto_env \<Rightarrow> axi_resp \<Rightarrow> axi \<Rightarrow> axi" where
  "axi_response e (Read_resp b latency bytes) s =
     axi_read_handle_req_end e b (axi_fill b latency bytes (s\<lparr>ax_sent := remove1 b (ax_sent s)\<rparr>))"
| "axi_response e (Write_resp k) s =
     axi_write_handle_req_end (ax_writes s ! k) (s\<lparr>ax_writes := take k (ax_writes s) @ drop (Suc k) (ax_writes s)\<rparr>)"

text \<open>The two parts of \<open>fsm_handler\<close>: the next read burst goes out, a response that is due is pushed.\<close>

definition axi_fsm_send :: "proto_env \<Rightarrow> axi \<Rightarrow> axi" where
  "axi_fsm_send e s =
     (if ax_pending s \<noteq> [] \<and> \<not> rq_is_write (ax_bursts s (hd (ax_pending s))) then axi_send_read_burst e s else s)"

definition axi_fsm_push :: "proto_env \<Rightarrow> axi \<Rightarrow> axi" where
  "axi_fsm_push e s =
     (if ax_read_waiting s \<noteq> [] \<and> pe_ready e (rq_transfer (ax_bursts s (hd (ax_read_waiting s)))) then
        let b = hd (ax_read_waiting s); q = ax_bursts s b
        in if ax_read_timestamps s b \<le> pe_now e then
             let s1 = s\<lparr>ax_read_waiting := tl (ax_read_waiting s), ax_waiting_ack := ax_waiting_ack s @ [b]\<rparr>
             in ax_call (Fsm_enqueue 1) (ax_call (Be_write_data (rq_transfer q) b (rq_data q)) s1)
           else ax_call (Fsm_enqueue (of_int (ax_read_timestamps s b - pe_now e))) s
      else s)"

definition axi_fsm_handler :: "proto_env \<Rightarrow> axi \<Rightarrow> axi" where
  "axi_fsm_handler e s = axi_fsm_push e (axi_fsm_send e s)"

text \<open>\<open>reset\<close> clears three of the five queues and makes every burst free.\<close>

definition axi_reset :: "bool \<Rightarrow> axi \<Rightarrow> axi" where
  "axi_reset active s =
     (if active then s\<lparr>ax_free := [0..<ax_nb_bursts s], ax_read_waiting := [], ax_pending := []\<rparr> else s)"

end
