(* ===== verification/Idma_Axi_Bursts.thy ===== *)
theory Idma_Axi_Bursts
  imports Idma_Axi
begin

section \<open>The AXI protocol as a reader and as a writer\<close>

text \<open>
  The clusters use one \<open>IDmaBeAxi\<close> for reading and another for writing. Over an interconnect that
  answers in order, each use is shown to be the interface of \<^theory_text>\<open>Idma_Proto\<close>: a read burst is pushed
  once and whole, in the order of the bursts, and a written chunk goes to the place of the next bytes
  and is accounted on the burst it belongs to. What in order means is \<open>axi_reader_env\<close> and
  \<open>axi_writer_env\<close>: responses arrive for the oldest pending request, and no request is answered at once
  while an older one is pending.
\<close>

subsection \<open>As a reader\<close>

definition axi_burst_of :: "axi \<Rightarrow> nat \<Rightarrow> proto_burst" where
  "axi_burst_of s b = (rq_transfer (ax_bursts s b), rq_addr (ax_bursts s b), rq_size (ax_bursts s b))"

text \<open>The bursts of a reader between its queues, in their order.\<close>

definition axi_reads :: "axi \<Rightarrow> nat list" where
  "axi_reads s = ax_read_waiting s @ ax_sent s @ ax_pending s"

definition axi_todo :: "axi \<Rightarrow> proto_burst list" where
  "axi_todo s = map (axi_burst_of s) (axi_reads s)"

definition axi_reader_inv :: "(u64 \<Rightarrow> u8) \<Rightarrow> axi \<Rightarrow> bool" where
  "axi_reader_inv mem s \<longleftrightarrow> distinct (ax_free s @ axi_reads s @ ax_waiting_ack s)
   \<and> bursts_ok (axi_todo s)
   \<and> list_all (\<lambda>b. \<not> rq_is_write (ax_bursts s b)) (axi_reads s)
   \<and> list_all (\<lambda>b. rq_data (ax_bursts s b)
        = map mem (addrs (rq_addr (ax_bursts s b)) (unat (rq_size (ax_bursts s b))))) (ax_read_waiting s)"

datatype proto_turn = Fsm proto_env | Response proto_env axi_resp

fun turn_env :: "proto_turn \<Rightarrow> proto_env" where
  "turn_env (Fsm e) = e"
| "turn_env (Response e r) = e"

fun axi_turn :: "proto_turn \<Rightarrow> axi \<Rightarrow> axi option" where
  "axi_turn (Fsm e) s = Some (axi_fsm_handler e s)"
| "axi_turn (Response e r) s = Some (axi_response e r s)"

text \<open>
  An interconnect in front of \<open>mem\<close> that accepts the reads and answers them in order.
\<close>

fun axi_reader_env :: "(u64 \<Rightarrow> u8) \<Rightarrow> proto_turn \<Rightarrow> axi \<Rightarrow> bool" where
  "axi_reader_env mem (Fsm e) s \<longleftrightarrow> pe_mem e = mem
     \<and> (\<forall>a n. fst (pe_answer e False a n) \<noteq> IO_REQ_INVALID
           \<and> (fst (pe_answer e False a n) = IO_REQ_OK \<longrightarrow> ax_sent s = []))"
| "axi_reader_env mem (Response e (Read_resp b latency bytes)) s \<longleftrightarrow> ax_sent s \<noteq> [] \<and> b = hd (ax_sent s)
     \<and> bytes = map mem (addrs (rq_addr (ax_bursts s b)) (unat (rq_size (ax_bursts s b))))"
| "axi_reader_env mem (Response e (Write_resp k)) s \<longleftrightarrow> False"

text \<open>What the steps of a burst keep of it.\<close>

definition axi_same :: "axi \<Rightarrow> axi \<Rightarrow> bool" where
  "axi_same s t \<longleftrightarrow> (\<forall>b. axi_burst_of t b = axi_burst_of s b
     \<and> rq_is_write (ax_bursts t b) = rq_is_write (ax_bursts s b))"

lemma axi_todo_same: "axi_same s t \<Longrightarrow> axi_reads t = axi_reads s \<Longrightarrow> axi_todo t = axi_todo s"
  by (simp add: axi_todo_def axi_same_def)

lemma bursts_ok_axi_todo: "bursts_ok (axi_todo s) \<longleftrightarrow> list_all (\<lambda>b. 0 < rq_size (ax_bursts s b)) (axi_reads s)"
  by (simp add: bursts_ok_def axi_todo_def axi_burst_of_def list.pred_map comp_def)

lemma axi_reader_send:
  assumes inv: "axi_reader_inv mem s" and env: "axi_reader_env mem (Fsm e) s"
  shows "axi_reader_inv mem (axi_fsm_send e s) \<and> axi_todo (axi_fsm_send e s) = axi_todo s
    \<and> ax_waiting_ack (axi_fsm_send e s) = ax_waiting_ack s
    \<and> (\<exists>cs. ax_calls (axi_fsm_send e s) = ax_calls s @ cs \<and> quiet cs)"
proof (cases "ax_pending s = []")
  case True
  then show ?thesis using inv by (simp add: axi_fsm_send_def)
next
  case False
  then obtain b rest where p: "ax_pending s = b # rest" by (cases "ax_pending s") auto
  let ?q = "ax_bursts s b"
  obtain st lat where a: "pe_answer e False (rq_addr ?q) (rq_size ?q) = (st, lat)" by fastforce
  have st: "st \<noteq> IO_REQ_INVALID" "st = IO_REQ_OK \<Longrightarrow> ax_sent s = []" "pe_mem e = mem"
    using env a by (metis axi_reader_env.simps(1) fst_conv)+
  have r: "\<not> rq_is_write ?q" using inv p by (simp add: axi_reader_inv_def axi_reads_def)
  have d: "distinct (ax_free s @ (ax_read_waiting s @ ax_sent s @ b # rest) @ ax_waiting_ack s)"
    using inv p by (simp add: axi_reader_inv_def axi_reads_def)
  let ?t = "axi_fsm_send e s"
  have t: "?t = axi_send_read_burst e s" using p r by (simp add: axi_fsm_send_def)
  have same: "axi_same s ?t"
    by (simp add: t axi_send_read_burst_def Let_def p a axi_same_def axi_burst_of_def axi_read_handle_req_end_def
        axi_update_def axi_fill_def split: io_status.split)
  have reads: "axi_reads ?t = axi_reads s" "ax_waiting_ack ?t = ax_waiting_ack s" "ax_free ?t = ax_free s"
    using st(1,2)
    by (cases st; simp add: t axi_send_read_burst_def Let_def p a axi_reads_def axi_read_handle_req_end_def
        axi_update_def axi_fill_def)+
  have calls: "\<exists>cs. ax_calls ?t = ax_calls s @ cs \<and> quiet cs"
    by (simp add: t axi_send_read_burst_def Let_def p a axi_read_handle_req_end_def axi_update_def axi_fill_def
        split: io_status.split)
  have data: "list_all (\<lambda>b. rq_data (ax_bursts ?t b)
        = map mem (addrs (rq_addr (ax_bursts ?t b)) (unat (rq_size (ax_bursts ?t b))))) (ax_read_waiting ?t)"
  proof -
    have "\<forall>x \<in> set (ax_read_waiting s). x \<noteq> b" using d by auto
    then show ?thesis using inv st
      by (cases st; simp add: t axi_send_read_burst_def Let_def p a axi_read_handle_req_end_def axi_update_def
          axi_fill_def axi_reader_inv_def list_all_iff)
  qed
  have "axi_todo ?t = axi_todo s" by (rule axi_todo_same [OF same reads(1)])
  moreover have "axi_reader_inv mem ?t"
    using inv reads data same \<open>axi_todo ?t = axi_todo s\<close> unfolding axi_reader_inv_def by (simp add: axi_same_def)
  ultimately show ?thesis using reads(2) calls by blast
qed

lemma axi_reader_push:
  assumes inv: "axi_reader_inv mem s"
  shows "axi_reader_inv mem (axi_fsm_push e s)
    \<and> (\<exists>cs. ax_calls (axi_fsm_push e s) = ax_calls s @ cs \<and> reads_on mem (pe_ready e) (axi_todo s)
         (ax_waiting_ack s) cs (axi_todo (axi_fsm_push e s)) (ax_waiting_ack (axi_fsm_push e s)))"
proof (cases "ax_read_waiting s \<noteq> [] \<and> pe_ready e (rq_transfer (ax_bursts s (hd (ax_read_waiting s))))")
  case False
  then have "axi_fsm_push e s = s" by (simp only: axi_fsm_push_def if_False)
  then show ?thesis using inv reads_on_quiet [of "[]"] by auto
next
  case True
  then obtain b rest where w: "ax_read_waiting s = b # rest" by (cases "ax_read_waiting s") auto
  let ?q = "ax_bursts s b" and ?t = "axi_fsm_push e s"
  show ?thesis
  proof (cases "ax_read_timestamps s b \<le> pe_now e")
    case late: False
    then have "?t = ax_call (Fsm_enqueue (of_int (ax_read_timestamps s b - pe_now e))) s"
      using True w by (simp add: axi_fsm_push_def Let_def)
    then show ?thesis using inv
      by (simp add: axi_reader_inv_def axi_todo_def axi_reads_def axi_burst_of_def [abs_def] reads_on_quiet)
  next
    case due: True
    have t: "?t = ax_call (Fsm_enqueue 1) (ax_call (Be_write_data (rq_transfer ?q) b (rq_data ?q))
        (s\<lparr>ax_read_waiting := rest, ax_waiting_ack := ax_waiting_ack s @ [b]\<rparr>))"
      using True w due by (simp add: axi_fsm_push_def Let_def)
    have todo: "axi_todo s = (rq_transfer ?q, rq_addr ?q, rq_size ?q) # axi_todo ?t"
      by (simp add: axi_todo_def axi_reads_def axi_burst_of_def w t)
    have data: "rq_data ?q = map mem (addrs (rq_addr ?q) (unat (rq_size ?q)))" "0 < rq_size ?q"
      using inv by (simp_all add: axi_reader_inv_def w axi_todo_def axi_reads_def axi_burst_of_def)
    have "reads_on mem (pe_ready e) (axi_todo s) (ax_waiting_ack s)
        [Be_write_data (rq_transfer ?q) b (rq_data ?q), Fsm_enqueue 1] (axi_todo ?t) (ax_waiting_ack ?t)"
      unfolding reads_on_def todo using True data by (simp add: w) (simp add: t)
    moreover have "axi_reader_inv mem ?t"
      using inv by (simp add: t w axi_reader_inv_def axi_todo_def axi_reads_def axi_burst_of_def [abs_def])
    ultimately show ?thesis by (simp add: t)
  qed
qed

lemma axi_reader_response:
  assumes inv: "axi_reader_inv mem s" and env: "axi_reader_env mem (Response e r) s"
  shows "axi_reader_inv mem (axi_response e r s) \<and> axi_todo (axi_response e r s) = axi_todo s
    \<and> ax_waiting_ack (axi_response e r s) = ax_waiting_ack s
    \<and> (\<exists>cs. ax_calls (axi_response e r s) = ax_calls s @ cs \<and> quiet cs)"
proof -
  obtain b lat where r: "r = Read_resp b lat (map mem (addrs (rq_addr (ax_bursts s b)) (unat (rq_size (ax_bursts s b)))))"
      and b: "ax_sent s \<noteq> []" "b = hd (ax_sent s)"
    using env by (cases r) auto
  obtain rest where sent: "ax_sent s = b # rest" using b by (cases "ax_sent s") auto
  let ?t = "axi_response e r s"
  have same: "axi_same s ?t" by (simp add: r axi_same_def axi_burst_of_def axi_read_handle_req_end_def Let_def axi_fill_def)
  have reads: "axi_reads ?t = axi_reads s" "ax_waiting_ack ?t = ax_waiting_ack s" "ax_free ?t = ax_free s"
    by (simp_all add: r axi_reads_def axi_read_handle_req_end_def Let_def axi_fill_def sent)
  have "b \<notin> set (ax_read_waiting s)" using inv by (auto simp: axi_reader_inv_def axi_reads_def sent)
  then have data: "list_all (\<lambda>b. rq_data (ax_bursts ?t b)
        = map mem (addrs (rq_addr (ax_bursts ?t b)) (unat (rq_size (ax_bursts ?t b))))) (ax_read_waiting ?t)"
    using inv by (auto simp: r axi_read_handle_req_end_def Let_def axi_fill_def axi_reader_inv_def list_all_iff)
  have todo: "axi_todo ?t = axi_todo s" by (rule axi_todo_same [OF same reads(1)])
  have "axi_reader_inv mem ?t"
    using inv reads data same todo unfolding axi_reader_inv_def by (simp add: axi_same_def)
  then show ?thesis using reads(2) todo by (simp add: r axi_read_handle_req_end_def Let_def axi_fill_def)
qed

lemma axi_reader_turn:
  assumes inv: "axi_reader_inv mem s" and env: "axi_reader_env mem e s" and t: "axi_turn e s = Some t"
  shows "axi_reader_inv mem t \<and> (\<exists>cs. ax_calls t = ax_calls s @ cs
    \<and> reads_on mem (pe_ready (turn_env e)) (axi_todo s) (ax_waiting_ack s) cs (axi_todo t) (ax_waiting_ack t))"
proof (cases e)
  case (Fsm x)
  have t': "t = axi_fsm_push x (axi_fsm_send x s)" using t by (simp add: Fsm axi_fsm_handler_def)
  let ?u = "axi_fsm_send x s"
  have env': "axi_reader_env mem (Fsm x) s" using env by (simp only: Fsm)
  obtain cs where u: "axi_reader_inv mem ?u" "axi_todo ?u = axi_todo s" "ax_waiting_ack ?u = ax_waiting_ack s"
    "ax_calls ?u = ax_calls s @ cs" "quiet cs"
    using axi_reader_send [OF inv env'] by blast
  obtain ds where "axi_reader_inv mem t" "ax_calls t = ax_calls ?u @ ds"
    "reads_on mem (pe_ready x) (axi_todo ?u) (ax_waiting_ack ?u) ds (axi_todo t) (ax_waiting_ack t)"
    using axi_reader_push [OF u(1), of x] unfolding t' by blast
  then show ?thesis using u reads_on_quiet_before [OF u(5)] by (auto simp: Fsm)
next
  case (Response x r)
  have "axi_reader_env mem (Response x r) s" using env by (simp only: Response)
  from axi_reader_response [OF inv this] show ?thesis
    using t by (auto simp: Response reads_on_quiet)
qed

lemma axi_enqueue_frame:
  fixes a n w i s
  assumes "ax_free s = b # fs"
  defines "t \<equiv> axi_enqueue_burst a n w i s"
  shows "ax_free t = fs" "ax_pending t = ax_pending s @ [b]" "ax_pending_ack t = ax_pending_ack s @ [b]"
    "ax_read_waiting t = ax_read_waiting s" "ax_sent t = ax_sent s" "ax_waiting_ack t = ax_waiting_ack s"
    "ax_writes t = ax_writes s" "ax_calls t = ax_calls s @ [Fsm_enqueue 1]"
    "c \<noteq> b \<Longrightarrow> ax_bursts t c = ax_bursts s c" "axi_burst_of t b = (i, a, n)" "rq_is_write (ax_bursts t b) = w"
    "ax_current_base t = (if ax_pending s = [] then a else ax_current_base s)"
    "ax_current_size t = (if ax_pending s = [] then n else ax_current_size s)"
  using assms(1)
  by (simp_all add: t_def axi_enqueue_burst_def Let_def axi_update_def axi_load_current_def axi_burst_of_def)

interpretation axi_reader: idma_reader "axi_reader_inv mem" axi_todo ax_waiting_ack ax_calls
    axi_can_accept_burst axi_read_burst axi_write_data_ack axi_turn "axi_reader_env mem" "\<lambda>e. pe_ready (turn_env e)" mem
  for mem
proof (unfold_locales, goal_cases)
  case (1 s)
  then show ?case by (simp add: axi_reader_inv_def)
next
  case (2 s n i a)
  obtain b fs where f: "ax_free s = b # fs" using 2(2) by (cases "ax_free s") (auto simp: axi_can_accept_burst_def)
  let ?t = "axi_read_burst i a n s"
  note t = axi_enqueue_frame [OF f, where a = a and n = n and w = False and i = i, folded axi_read_burst_def]
  have b: "b \<notin> set (axi_reads s)" "b \<notin> set (ax_waiting_ack s)" using 2(1) f by (auto simp: axi_reader_inv_def)
  have reads: "axi_reads ?t = axi_reads s @ [b]" by (simp add: axi_reads_def t)
  have old: "c \<in> set (axi_reads s) \<Longrightarrow> ax_bursts ?t c = ax_bursts s c" for c using b(1) t(9) by metis
  have todo: "axi_todo ?t = axi_todo s @ [(i, a, n)]"
    using old by (simp add: axi_todo_def reads t) (simp add: axi_burst_of_def)
  have d: "distinct (ax_free ?t @ axi_reads ?t @ ax_waiting_ack ?t)"
    using 2(1) f b by (auto simp: axi_reader_inv_def reads t)
  have "set (ax_read_waiting s) \<subseteq> set (axi_reads s)" by (auto simp: axi_reads_def)
  then have "axi_reader_inv mem ?t"
    using 2(1,3) old d unfolding axi_reader_inv_def todo
    by (auto simp: reads t list_all_iff)
  then show ?case using todo by (simp add: t)
next
  case (3 s p ps)
  let ?t = "axi_write_data_ack p s"
  have t: "ax_free ?t = ax_free s @ [p]" "axi_reads ?t = axi_reads s" "ax_waiting_ack ?t = ps" "ax_bursts ?t = ax_bursts s"
    "axi_todo ?t = axi_todo s" "ax_read_waiting ?t = ax_read_waiting s"
    "ax_calls ?t = ax_calls s @ [Be_update, Fsm_enqueue 1]"
    using 3(2) by (simp_all add: axi_write_data_ack_def Let_def axi_reads_def axi_todo_def axi_burst_of_def [abs_def])
  have "axi_reader_inv mem ?t"
    using 3 unfolding axi_reader_inv_def t by (auto simp: axi_todo_def)
  then show ?case using t by simp
next
  case (4 s e t)
  then show ?case by (intro axi_reader_turn)
qed

subsection \<open>As a writer\<close>

text \<open>
  The remaining sizes of bursts after acknowledged chunks: a chunk is accounted on the first burst, and
  a burst that reaches zero is gone. \<open>None\<close> is a chunk that does not fit.
\<close>

fun settle :: "u64 list \<Rightarrow> u64 list \<Rightarrow> u64 list option" where
  "settle ns [] = Some ns"
| "settle [] (c # cs) = None"
| "settle (n # ns) (c # cs) = (if n < c then None else if n = c then settle ns cs else settle ((n - c) # ns) cs)"

lemma settle_snoc:
  "settle ns cs = Some (n # rest) \<Longrightarrow> m \<le> n \<Longrightarrow>
   settle ns (cs @ [m]) = Some (if m = n then rest else (n - m) # rest)"
  by (induction ns cs rule: settle.induct) (auto split: if_splits)

lemma settle_burst: "settle ns cs = Some ms \<Longrightarrow> settle (ns @ [n]) cs = Some (ms @ [n])"
  by (induction ns cs arbitrary: ms rule: settle.induct) (auto split: if_splits)

lemma settle_length: "settle ns cs = Some ms \<Longrightarrow> length ms \<le> length ns"
  by (induction ns cs rule: settle.induct) (force split: if_splits)+

text \<open>The pending bursts, of which the first is being written.\<close>

definition axi_space :: "axi \<Rightarrow> proto_burst list" where
  "axi_space s = (if ax_pending s = [] then []
     else (rq_transfer (ax_bursts s (hd (ax_pending s))), ax_current_base s, ax_current_size s)
       # map (axi_burst_of s) (tl (ax_pending s)))"

lemma axi_space_call [simp]: "axi_space (ax_call x s) = axi_space s"
  by (simp add: axi_space_def axi_burst_of_def [abs_def])

definition axi_unacked :: "axi \<Rightarrow> (nat \<times> ptr \<times> u64) list" where
  "axi_unacked s = map (\<lambda>q. (rq_transfer q, rq_ptr q, rq_size q)) (ax_writes s)"

definition axi_writer_inv :: "axi \<Rightarrow> bool" where
  "axi_writer_inv s \<longleftrightarrow> distinct (ax_free s @ ax_pending_ack s) \<and> ax_read_waiting s = []
   \<and> ax_pending s = drop (length (ax_pending_ack s) - length (ax_pending s)) (ax_pending_ack s)
   \<and> list_all (\<lambda>b. rq_is_write (ax_bursts s b)) (ax_pending s)
   \<and> bursts_ok (axi_space s)
   \<and> settle (map (\<lambda>b. rq_size (ax_bursts s b)) (ax_pending_ack s)) (map rq_size (ax_writes s))
       = Some (map burst_size (axi_space s))"

fun axi_writer_env :: "proto_turn \<Rightarrow> axi \<Rightarrow> bool" where
  "axi_writer_env (Fsm e) s \<longleftrightarrow> True"
| "axi_writer_env (Response e (Read_resp b latency bytes)) s \<longleftrightarrow> False"
| "axi_writer_env (Response e (Write_resp k)) s \<longleftrightarrow> ax_writes s \<noteq> [] \<and> k = 0"

definition axi_data_env :: "proto_env \<Rightarrow> axi \<Rightarrow> bool" where
  "axi_data_env e s \<longleftrightarrow> (\<forall>a n. fst (pe_answer e True a n) \<noteq> IO_REQ_INVALID
     \<and> (fst (pe_answer e True a n) = IO_REQ_OK \<longrightarrow> ax_writes s = []))"

lemma axi_space_length: "length (axi_space s) = length (ax_pending s)"
  by (cases "ax_pending s") (simp_all add: axi_space_def)

text \<open>The oldest outstanding chunk is accounted: it fits on its burst, and the space is untouched.\<close>

lemma axi_writer_settles:
  assumes d: "distinct (ax_free s @ ax_pending_ack s)" and w: "ax_read_waiting s = []"
    and suf: "ax_pending s = drop (length (ax_pending_ack s) - length (ax_pending s)) (ax_pending_ack s)"
    and iw: "list_all (\<lambda>b. rq_is_write (ax_bursts s b)) (ax_pending s)" and ok: "bursts_ok (axi_space s)"
    and st: "settle (map (\<lambda>b. rq_size (ax_bursts s b)) (ax_pending_ack s)) (rq_size q # map rq_size (ax_writes s))
       = Some (map burst_size (axi_space s))"
  defines "t \<equiv> axi_write_handle_req_end q s"
  shows "axi_writer_inv t \<and> axi_space t = axi_space s \<and> axi_unacked t = axi_unacked s
    \<and> (\<exists>cs. ax_calls t = ax_calls s @ cs \<and> pushes cs = [] \<and> port_writes cs = []
        \<and> acks cs = [(rq_transfer q, rq_ptr q, rq_size q)])"
proof -
  obtain b rest where pa: "ax_pending_ack s = b # rest" using st by (cases "ax_pending_ack s") auto
  let ?n = "rq_size (ax_bursts s b)" and ?k = "length (ax_pending_ack s) - length (ax_pending s)"
  have b: "b \<notin> set rest" "b \<notin> set (ax_free s)" using d pa by auto
  have tl: "tl (ax_pending s) = drop ?k rest" by (subst suf) (simp add: tl_drop pa)
  then have b': "b \<notin> set (tl (ax_pending s))" using b in_set_dropD by metis
  have t: "ax_pending t = ax_pending s" "ax_writes t = ax_writes s" "ax_read_waiting t = ax_read_waiting s"
    "ax_current_base t = ax_current_base s" "ax_current_size t = ax_current_size s"
    "c \<noteq> b \<Longrightarrow> ax_bursts t c = ax_bursts s c" "rq_size (ax_bursts t b) = ?n - rq_size q"
    "rq_transfer (ax_bursts t c) = rq_transfer (ax_bursts s c)" "rq_is_write (ax_bursts t c) = rq_is_write (ax_bursts s c)"
    "ax_pending_ack t = (if ?n = rq_size q then rest else b # rest)"
    "ax_free t = (if ?n = rq_size q then ax_free s @ [b] else ax_free s)" for c
    by (auto simp: t_def axi_write_handle_req_end_def Let_def axi_update_def pa)
  have old: "map (axi_burst_of t) (tl (ax_pending s)) = map (axi_burst_of s) (tl (ax_pending s))"
    using b' t(6) by (auto simp: axi_burst_of_def intro!: map_cong) metis+
  have space: "axi_space t = axi_space s" unfolding axi_space_def t(1,4,5,8) old by simp
  have sizes: "map (\<lambda>c. rq_size (ax_bursts t c)) rest = map (\<lambda>c. rq_size (ax_bursts s c)) rest"
    using b(1) t(6) by (auto intro!: map_cong) metis
  have "\<not> ?n < rq_size q" using st by (auto simp: pa split: if_splits)
  then have settled: "settle (map (\<lambda>c. rq_size (ax_bursts t c)) (ax_pending_ack t)) (map rq_size (ax_writes s))
      = Some (map burst_size (axi_space s))"
    using st by (cases "?n = rq_size q") (simp_all add: pa t sizes del: map_eq_conv)
  have len: "length (ax_pending s) \<le> length (ax_pending_ack t)"
    using settle_length [OF settled] by (simp add: axi_space_length)
  have "ax_pending t = drop (length (ax_pending_ack t) - length (ax_pending t)) (ax_pending_ack t)"
  proof (cases "?n = rq_size q")
    case True
    then have "?k = Suc (length rest - length (ax_pending s))" using len by (simp add: pa t)
    then show ?thesis using suf True by (simp add: t pa)
  next
    case False
    then show ?thesis using suf by (simp add: t pa)
  qed
  moreover have "distinct (ax_free t @ ax_pending_ack t)" using d b by (simp add: t pa)
  ultimately have "axi_writer_inv t"
    using w iw ok settled by (simp add: axi_writer_inv_def space t)
  moreover have "\<exists>cs. ax_calls t = ax_calls s @ cs \<and> pushes cs = [] \<and> port_writes cs = []
        \<and> acks cs = [(rq_transfer q, rq_ptr q, rq_size q)]"
    by (simp add: t_def axi_write_handle_req_end_def Let_def axi_update_def)
  ultimately show ?thesis using space by (simp add: axi_unacked_def t)
qed

text \<open>A chunk is taken from the current burst, before its request is answered.\<close>

definition axi_take :: "u64 \<Rightarrow> axi \<Rightarrow> axi" where
  "axi_take sz s =
     (let s1 = s\<lparr>ax_current_base := ax_current_base s + sz, ax_current_size := ax_current_size s - sz\<rparr>
      in if ax_current_size s1 = 0 then
           let s' = s1\<lparr>ax_pending := tl (ax_pending s1)\<rparr>
           in if ax_pending s' \<noteq> [] then axi_load_current s' else s'
         else s1)"

lemma axi_take_space:
  assumes "ax_pending s \<noteq> []"
  shows "axi_space (axi_take m s) = advance m (axi_space s)"
proof -
  obtain b rest where "ax_pending s = b # rest" using assms by (cases "ax_pending s") auto
  then show ?thesis
    by (cases rest) (auto simp: axi_space_def axi_take_def Let_def axi_load_current_def axi_burst_of_def [abs_def])
qed

lemma axi_take_frame:
  "ax_free (axi_take m s) = ax_free s" "ax_pending_ack (axi_take m s) = ax_pending_ack s"
  "ax_read_waiting (axi_take m s) = ax_read_waiting s" "ax_writes (axi_take m s) = ax_writes s"
  "ax_bursts (axi_take m s) = ax_bursts s" "ax_calls (axi_take m s) = ax_calls s"
  "ax_pending (axi_take m s) = (if ax_current_size s = m then tl (ax_pending s) else ax_pending s)"
  by (simp_all add: axi_take_def Let_def axi_load_current_def)

lemma axi_writer_data:
  fixes e i p x s
  assumes inv: "axi_writer_inv s" and env: "axi_data_env e s" and space: "axi_space s = (j, a, n) # bs"
    and m: "0 < m" "m \<le> n" "unat m = length x"
  defines "t \<equiv> axi_write_data e i p x s"
  shows "axi_writer_inv t \<and> axi_space t = advance m (axi_space s)
    \<and> (\<exists>cs. ax_calls t = ax_calls s @ cs \<and> pushes cs = [] \<and> port_writes cs = zip (addrs a (unat m)) x
        \<and> acks cs @ axi_unacked t = axi_unacked s @ [(i, p, m)])"
proof -
  have pend: "ax_pending s \<noteq> []" "a = ax_current_base s" "n = ax_current_size s"
    using space by (auto simp: axi_space_def split: if_splits)
  have m': "(of_nat (length x) :: u64) = m" by (simp flip: m(3))
  obtain st lat where ans: "pe_answer e True a m = (st, lat)" by fastforce
  define q where "q = \<lparr>rq_is_write = True, rq_addr = a, rq_size = m, rq_transfer = i, rq_ptr = p, rq_data = x,
     rq_latency = lat, rq_payload = stamp_collective_payload (pe_collective e i) True\<rparr>"
  define u where "u = ax_call (Req_write a x (rq_payload q)) (axi_take m s)"
  have st: "st \<noteq> IO_REQ_INVALID" "st = IO_REQ_OK \<Longrightarrow> ax_writes s = []"
    using env ans by (metis axi_data_env_def fst_conv)+
  have t: "t = (if st = IO_REQ_OK then axi_write_handle_req_end q u else u\<lparr>ax_writes := ax_writes u @ [q]\<rparr>)"
    using st(1) unfolding t_def axi_write_data_def m' Let_def pend(2) [symmetric] ans
    by (simp add: u_def axi_take_def Let_def q_def pend(2) split: io_status.split)
  have u: "ax_free u = ax_free s" "ax_pending_ack u = ax_pending_ack s" "ax_read_waiting u = ax_read_waiting s"
    "ax_writes u = ax_writes s" "ax_bursts u = ax_bursts s"
    "ax_pending u = (if ax_current_size s = m then tl (ax_pending s) else ax_pending s)"
    by (simp_all add: u_def axi_take_frame)
  have sp: "axi_space u = advance m (axi_space s)" using axi_take_space [OF pend(1)] by (simp add: u_def)
  have calls: "ax_calls u = ax_calls s @ [Req_write a x (rq_payload q)]" by (simp add: u_def axi_take_frame)
  have ok: "bursts_ok (axi_space u)" unfolding sp using inv space m by (intro advance_ok) (auto simp: axi_writer_inv_def)
  have settled: "settle (map (\<lambda>b. rq_size (ax_bursts u b)) (ax_pending_ack u)) (map rq_size (ax_writes u) @ [m])
      = Some (map burst_size (axi_space u))"
  proof -
    have "settle (map (\<lambda>b. rq_size (ax_bursts s b)) (ax_pending_ack s)) (map rq_size (ax_writes s))
        = Some (n # map burst_size bs)" using inv space by (simp add: axi_writer_inv_def)
    from settle_snoc [OF this m(2)] show ?thesis by (simp add: u sp space)
  qed
  have suf: "ax_pending u = drop (length (ax_pending_ack u) - length (ax_pending u)) (ax_pending_ack u)"
  proof -
    define k where "k = length (ax_pending_ack s) - length (ax_pending s)"
    have k: "ax_pending s = drop k (ax_pending_ack s)" using inv by (simp add: axi_writer_inv_def k_def)
    have "length (ax_pending s) \<le> length (ax_pending_ack s)" using k by (metis diff_le_self length_drop)
    moreover have "0 < length (ax_pending s)" using pend(1) by simp
    ultimately have "length (ax_pending_ack s) - length (tl (ax_pending s)) = Suc k"
      unfolding k_def length_tl by linarith
    then have "tl (ax_pending s) = drop (length (ax_pending_ack s) - length (tl (ax_pending s))) (ax_pending_ack s)"
      by (metis k drop_Suc tl_drop)
    moreover have "ax_pending s = drop (length (ax_pending_ack s) - length (ax_pending s)) (ax_pending_ack s)"
      using inv unfolding axi_writer_inv_def by blast
    ultimately show ?thesis unfolding u by (cases "ax_current_size s = m") (simp_all only: refl if_True if_False)
  qed
  have "list_all (\<lambda>b. rq_is_write (ax_bursts s b)) (ax_pending s)" using inv unfolding axi_writer_inv_def by blast
  then have iw: "list_all (\<lambda>b. rq_is_write (ax_bursts u b)) (ax_pending u)"
    using pend(1) by (cases "ax_pending s") (simp_all add: u)
  have du: "distinct (ax_free u @ ax_pending_ack u)" "ax_read_waiting u = []" using inv by (simp_all add: axi_writer_inv_def u)
  have q: "rq_size q = m" "rq_transfer q = i" "rq_ptr q = p" by (simp_all add: q_def)
  show ?thesis
  proof (cases "st = IO_REQ_OK")
    case True
    then have "ax_writes u = []" using st(2) u by simp
    then have "axi_writer_inv t \<and> axi_space t = axi_space u \<and> axi_unacked t = axi_unacked u
      \<and> (\<exists>cs. ax_calls t = ax_calls u @ cs \<and> pushes cs = [] \<and> port_writes cs = [] \<and> acks cs = [(i, p, m)])"
      using axi_writer_settles [OF du suf iw ok, of q] settled True by (simp add: t q)
    then show ?thesis using sp calls \<open>ax_writes u = []\<close> m(3) by (auto simp: axi_unacked_def u)
  next
    case False
    then have t': "t = u\<lparr>ax_writes := ax_writes u @ [q]\<rparr>" by (simp add: t)
    have "axi_space t = axi_space u" by (simp add: t' axi_space_def axi_burst_of_def [abs_def])
    moreover have "axi_writer_inv t"
      using du suf iw ok settled \<open>axi_space t = axi_space u\<close> by (simp add: axi_writer_inv_def t' q)
    ultimately show ?thesis using sp calls m(3) by (simp add: t' axi_unacked_def u q)
  qed
qed

lemma axi_writer_turn:
  assumes inv: "axi_writer_inv s" and env: "axi_writer_env e s" and t: "axi_turn e s = Some t"
  shows "axi_writer_inv t \<and> axi_space t = axi_space s
    \<and> (\<exists>cs. ax_calls t = ax_calls s @ cs \<and> pushes cs = [] \<and> port_writes cs = []
        \<and> acks cs @ axi_unacked t = axi_unacked s)"
proof (cases e)
  case (Fsm x)
  have "ax_pending s \<noteq> [] \<Longrightarrow> rq_is_write (ax_bursts s (hd (ax_pending s)))"
    using inv by (simp add: axi_writer_inv_def list_all_iff)
  then have "axi_fsm_send x s = s" by (auto simp: axi_fsm_send_def)
  then have "axi_fsm_handler x s = s" using inv by (simp add: axi_fsm_handler_def axi_fsm_push_def axi_writer_inv_def)
  then show ?thesis using inv t by (simp add: Fsm)
next
  case (Response x r)
  then obtain q qs where r: "r = Write_resp 0" and w: "ax_writes s = q # qs"
    using env by (cases r; cases "ax_writes s") auto
  let ?s = "s\<lparr>ax_writes := qs\<rparr>"
  have t': "t = axi_write_handle_req_end q ?s" using t by (simp add: Response r w)
  have sp: "axi_space ?s = axi_space s" by (simp add: axi_space_def axi_burst_of_def [abs_def])
  have "axi_writer_inv t \<and> axi_space t = axi_space ?s \<and> axi_unacked t = axi_unacked ?s
    \<and> (\<exists>cs. ax_calls t = ax_calls ?s @ cs \<and> pushes cs = [] \<and> port_writes cs = []
        \<and> acks cs = [(rq_transfer q, rq_ptr q, rq_size q)])"
    unfolding t' by (rule axi_writer_settles) (use inv w sp in \<open>simp_all add: axi_writer_inv_def\<close>)
  then show ?thesis using sp by (auto simp: axi_unacked_def w)
qed

lemma axi_writer_burst:
  fixes s i a n
  assumes inv: "axi_writer_inv s" and free: "axi_can_accept_burst s" and n: "0 < n"
  defines "t \<equiv> axi_write_burst i a n s"
  shows "axi_writer_inv t \<and> axi_space t = axi_space s @ [(i, a, n)] \<and> axi_unacked t = axi_unacked s
    \<and> ax_calls t = ax_calls s @ [Fsm_enqueue 1]"
proof -
  obtain b fs where f: "ax_free s = b # fs" using free by (cases "ax_free s") (auto simp: axi_can_accept_burst_def)
  note t = axi_enqueue_frame [OF f, where a = a and n = n and w = True and i = i, folded axi_write_burst_def t_def]
  define k where "k = length (ax_pending_ack s) - length (ax_pending s)"
  have suf: "ax_pending s = drop k (ax_pending_ack s)" using inv by (simp add: axi_writer_inv_def k_def)
  have b: "b \<notin> set (ax_pending_ack s)" using inv f by (auto simp: axi_writer_inv_def)
  then have old: "c \<in> set (ax_pending_ack s) \<Longrightarrow> ax_bursts t c = ax_bursts s c" for c using t(9) by metis
  then have oldp: "c \<in> set (ax_pending s) \<Longrightarrow> ax_bursts t c = ax_bursts s c" for c using suf in_set_dropD by metis
  have space: "axi_space t = axi_space s @ [(i, a, n)]"
  proof (cases "ax_pending s")
    case Nil
    then show ?thesis using t(10) by (simp add: axi_space_def t(2,12,13)) (simp add: axi_burst_of_def)
  next
    case (Cons c cs)
    then have "map (axi_burst_of t) cs = map (axi_burst_of s) cs" "ax_bursts t c = ax_bursts s c"
      using oldp by (auto simp: axi_burst_of_def)
    then show ?thesis using Cons t(10) by (simp add: axi_space_def t(2,12,13))
  qed
  have sz: "rq_size (ax_bursts t b) = n" using t(10) by (simp add: axi_burst_of_def)
  have sizes: "map (\<lambda>b. rq_size (ax_bursts t b)) (ax_pending_ack s) = map (\<lambda>b. rq_size (ax_bursts s b)) (ax_pending_ack s)"
    using old by simp
  have "settle (map (\<lambda>b. rq_size (ax_bursts s b)) (ax_pending_ack s)) (map rq_size (ax_writes s))
      = Some (map burst_size (axi_space s))" using inv by (simp add: axi_writer_inv_def)
  from settle_burst [OF this, of n]
  have "settle (map (\<lambda>b. rq_size (ax_bursts t b)) (ax_pending_ack t)) (map rq_size (ax_writes t))
      = Some (map burst_size (axi_space t))"
    by (simp add: t space sz sizes del: map_eq_conv)
  moreover have "ax_pending t = drop (length (ax_pending_ack t) - length (ax_pending t)) (ax_pending_ack t)"
    using suf by (simp add: t k_def)
  moreover have "list_all (\<lambda>b. rq_is_write (ax_bursts t b)) (ax_pending t)"
    using inv oldp by (auto simp: t axi_writer_inv_def list_all_iff)
  ultimately have "axi_writer_inv t"
    using inv n b f by (auto simp: axi_writer_inv_def space) (auto simp: t)
  then show ?thesis using space by (simp add: t axi_unacked_def)
qed

interpretation axi_writer: idma_writer axi_writer_inv axi_space "\<lambda>s. []" axi_unacked ax_calls
    axi_can_accept_burst axi_can_accept_data axi_write_burst "\<lambda>e i p x s. Some (axi_write_data e i p x s)" axi_data_env
    axi_turn axi_writer_env "\<lambda>a. a"
proof (unfold_locales, goal_cases)
  case (1 s)
  then show ?case by (simp add: axi_writer_inv_def)
next
  case (3 s n i a)
  then show ?case using axi_writer_burst [of s n i a] by simp
next
  case (4 s d j a n bs m x i p t)
  then show ?case using axi_writer_data [of s d j a n bs m x i p] by auto
next
  case (5 s e t)
  then show ?case using axi_writer_turn [of s e t] by auto
qed simp

end
