(* ===== verification/Idma_Consumer.thy ===== *)
theory Idma_Consumer
  imports Idma_Tcdm_Lines Idma_Axi_Bursts
begin

section \<open>The two protocols behind one interface (\<open>IdmaBeConsumer\<close> of \<open>src/pulp/idma/be/idma_be.hpp\<close>)\<close>

text \<open>
  The back-end sees its protocols through the abstract class \<open>IdmaBeConsumer\<close>. Here a consumer is one of
  the two classes that implement it, and each virtual method is the dispatch to theirs. A turn is a
  firing of the protocol's event or a response from its port; only the AXI protocol has a response
  callback. A consumer is a reader or a writer as its class is.
\<close>

datatype consumer = Tcdm tcdm | Axi axi

fun c_read_burst :: "nat \<Rightarrow> u64 \<Rightarrow> u64 \<Rightarrow> consumer \<Rightarrow> consumer" where
  "c_read_burst i a n (Tcdm s) = Tcdm (tcdm_read_burst i a n s)"
| "c_read_burst i a n (Axi s) = Axi (axi_read_burst i a n s)"

fun c_write_burst :: "nat \<Rightarrow> u64 \<Rightarrow> u64 \<Rightarrow> consumer \<Rightarrow> consumer" where
  "c_write_burst i a n (Tcdm s) = Tcdm (tcdm_write_burst i a n s)"
| "c_write_burst i a n (Axi s) = Axi (axi_write_burst i a n s)"

fun c_write_data :: "proto_env \<Rightarrow> nat \<Rightarrow> ptr \<Rightarrow> u8 list \<Rightarrow> consumer \<Rightarrow> consumer option" where
  "c_write_data e i p bs (Tcdm s) = map_option Tcdm (tcdm_write_data e i p bs s)"
| "c_write_data e i p bs (Axi s) = Some (Axi (axi_write_data e i p bs s))"

fun c_write_data_ack :: "ptr \<Rightarrow> consumer \<Rightarrow> consumer" where
  "c_write_data_ack p (Tcdm s) = Tcdm (tcdm_write_data_ack p s)"
| "c_write_data_ack p (Axi s) = Axi (axi_write_data_ack p s)"

fun c_can_accept_burst :: "consumer \<Rightarrow> bool" where
  "c_can_accept_burst (Tcdm s) = tcdm_can_accept_burst s"
| "c_can_accept_burst (Axi s) = axi_can_accept_burst s"

fun c_can_accept_data :: "consumer \<Rightarrow> bool" where
  "c_can_accept_data (Tcdm s) = tcdm_can_accept_data s"
| "c_can_accept_data (Axi s) = axi_can_accept_data s"

fun c_is_empty :: "consumer \<Rightarrow> bool" where
  "c_is_empty (Tcdm s) = tcdm_is_empty s"
| "c_is_empty (Axi s) = axi_is_empty s"

fun c_calls :: "consumer \<Rightarrow> proto_call list" where
  "c_calls (Tcdm s) = tc_calls s"
| "c_calls (Axi s) = ax_calls s"

fun c_turn :: "proto_turn \<Rightarrow> consumer \<Rightarrow> consumer option" where
  "c_turn (Fsm e) (Tcdm s) = map_option Tcdm (tcdm_fsm_handler e s)"
| "c_turn (Response e r) (Tcdm s) = None"
| "c_turn e (Axi s) = map_option Axi (axi_turn e s)"

subsection \<open>As a reader\<close>

text \<open>\<open>off\<close> is the base that the port subtracts from an address: that of the local memory, or zero.\<close>

fun c_todo :: "consumer \<Rightarrow> proto_burst list" where
  "c_todo (Tcdm s) = tcdm_todo s"
| "c_todo (Axi s) = axi_todo s"

fun c_held :: "consumer \<Rightarrow> ptr list" where
  "c_held (Tcdm s) = tcdm_held s"
| "c_held (Axi s) = ax_waiting_ack s"

fun c_reader_inv :: "u64 \<Rightarrow> (u64 \<Rightarrow> u8) \<Rightarrow> consumer \<Rightarrow> bool" where
  "c_reader_inv off byte (Tcdm s) = tcdm_reader_inv off (\<lambda>x. byte (x + off)) s"
| "c_reader_inv off byte (Axi s) = axi_reader_inv byte s"

text \<open>What a reader asks of its port: it holds \<open>byte\<close>, and an AXI port answers in order.\<close>

fun c_reader_env :: "u64 \<Rightarrow> (u64 \<Rightarrow> u8) \<Rightarrow> proto_turn \<Rightarrow> consumer \<Rightarrow> bool" where
  "c_reader_env off byte e (Tcdm s) \<longleftrightarrow> pe_mem (turn_env e) = (\<lambda>x. byte (x + off))"
| "c_reader_env off byte e (Axi s) \<longleftrightarrow> axi_reader_env byte e s"

lemma tcdm_byte_off: "tcdm_byte off (\<lambda>x. byte (x + off)) = byte"
  by (simp add: tcdm_byte_def fun_eq_iff)

interpretation reader: idma_reader "c_reader_inv off byte" c_todo c_held c_calls c_can_accept_burst c_read_burst
    c_write_data_ack c_turn "c_reader_env off byte" "\<lambda>e. pe_ready (turn_env e)" byte for off byte
proof (unfold_locales, goal_cases)
  case (1 s)
  then show ?case by (cases s) (auto intro: tcdm_reader.todo_ok axi_reader.todo_ok)
next
  case (2 s n i a)
  then show ?case
    using tcdm_reader.burst_law [where n = n and i = i and a = a] axi_reader.burst_law [where n = n and i = i and a = a]
    by (cases s) auto
next
  case (3 s p ps)
  then show ?case using tcdm_reader.ack_law [where p = p] axi_reader.ack_law [where p = p] by (cases s) auto
next
  case (4 s e t)
  then show ?case
  proof (cases s)
    case (Tcdm u)
    obtain x where e: "e = Fsm x" using 4(3) Tcdm by (cases e) auto
    obtain v where v: "tcdm_fsm_handler x u = Some v" "t = Tcdm v" using 4(3) by (auto simp: Tcdm e)
    show ?thesis
      using tcdm_reader.turn_law [of off "\<lambda>x. byte (x + off)" u x v] 4(1,2) v by (simp add: Tcdm e tcdm_byte_off)
  next
    case (Axi u)
    obtain v where v: "axi_turn e u = Some v" "t = Axi v" using 4(3) by (auto simp: Axi)
    show ?thesis using axi_reader.turn_law [of byte u e v] 4(1,2) v by (simp add: Axi)
  qed
qed

subsection \<open>As a writer\<close>

fun c_space :: "consumer \<Rightarrow> proto_burst list" where
  "c_space (Tcdm s) = tcdm_space s"
| "c_space (Axi s) = axi_space s"

fun c_pend :: "consumer \<Rightarrow> (u64 \<times> u8) list" where
  "c_pend (Tcdm s) = tcdm_pend s"
| "c_pend (Axi s) = []"

fun c_unacked :: "consumer \<Rightarrow> (nat \<times> ptr \<times> u64) list" where
  "c_unacked (Tcdm s) = tcdm_unacked s"
| "c_unacked (Axi s) = axi_unacked s"

fun c_writer_inv :: "u64 \<Rightarrow> consumer \<Rightarrow> bool" where
  "c_writer_inv off (Tcdm s) = tcdm_writer_inv off s"
| "c_writer_inv off (Axi s) \<longleftrightarrow> off = 0 \<and> axi_writer_inv s"

fun c_data_env :: "proto_env \<Rightarrow> consumer \<Rightarrow> bool" where
  "c_data_env e (Tcdm s) \<longleftrightarrow> 0 \<le> pe_now e"
| "c_data_env e (Axi s) \<longleftrightarrow> axi_data_env e s"

fun c_writer_env :: "proto_turn \<Rightarrow> consumer \<Rightarrow> bool" where
  "c_writer_env e (Tcdm s) \<longleftrightarrow> 0 \<le> pe_now (turn_env e)"
| "c_writer_env e (Axi s) \<longleftrightarrow> axi_writer_env e s"

interpretation writer: idma_writer "c_writer_inv off" c_space c_pend c_unacked c_calls c_can_accept_burst
    c_can_accept_data c_write_burst c_write_data c_data_env c_turn c_writer_env "\<lambda>b. b - off" for off
proof (unfold_locales, goal_cases)
  case (1 s)
  then show ?case by (cases s) (auto intro: tcdm_writer.space_ok axi_writer.space_ok)
next
  case (2 s)
  then show ?case by (cases s) (auto intro: tcdm_writer.acked_is_written)
next
  case (3 s n i a)
  then show ?case
    using tcdm_writer.burst_law [where n = n and i = i and a = a] axi_writer.burst_law [where n = n and i = i and a = a]
    by (cases s) auto
next
  case (4 s d j a n bs m x i p t)
  then show ?case
  proof (cases s)
    case (Tcdm u)
    obtain v where v: "tcdm_write_data d i p x u = Some v" "t = Tcdm v" using 4(8) by (auto simp: Tcdm)
    show ?thesis using tcdm_writer.data_law [of off u d j a n bs m x i p v] 4 v by (simp add: Tcdm)
  next
    case (Axi u)
    show ?thesis using axi_writer.data_law [of u d j a n bs m x i p "axi_write_data d i p x u"] 4 by (auto simp: Axi)
  qed
next
  case (5 s e t)
  then show ?case
  proof (cases s)
    case (Tcdm u)
    obtain x where e: "e = Fsm x" using 5(3) Tcdm by (cases e) auto
    obtain v where v: "tcdm_fsm_handler x u = Some v" "t = Tcdm v" using 5(3) by (auto simp: Tcdm e)
    show ?thesis using tcdm_writer.turn_law [of off u x v] 5(1,2) v by (simp add: Tcdm e)
  next
    case (Axi u)
    obtain v where v: "axi_turn e u = Some v" "t = Axi v" using 5(3) by (auto simp: Axi)
    show ?thesis using axi_writer.turn_law [of u e v] 5(1,2) v by (simp add: Axi)
  qed
qed

end
