(* ===== verification/Idma_Copy.thy ===== *)
theory Idma_Copy
  imports Idma_Consumer Idma_Be_Data
begin

section \<open>The back-end with its four protocols\<close>

text \<open>
  The back-end (\<^theory_text>\<open>Idma_Be\<close>) and the consumers on its four ports, composed as
  \<open>src/pulp/idma/pulp_open_dma.cpp\<close> builds them: what one part records as a call on another is executed
  on that part, with the calls this makes in turn. What the protocols answer the back-end
  (\<open>can_accept_burst\<close>, \<open>can_accept_data\<close>, \<open>is_empty\<close>) is read from their states. An event is a firing of
  the back-end's event or a turn of a protocol; the surroundings of each protocol are given with it.

  The property of the composition is that a transfer is a copy: the bytes written are those of the
  source, each once, in order, each at its place, and the middle-end is told that the transfer is over
  when all of them have been written and acknowledged. \<open>d_run_env\<close> is what it asks of the surroundings.
\<close>

record dma =
  d_be :: idma_be
  d_ports :: "be_port \<Rightarrow> consumer"

datatype dma_event = Be_turn | Port_turn be_port proto_turn "be_port \<Rightarrow> proto_env"

definition d_env :: "dma \<Rightarrow> be_env" where
  "d_env s = \<lparr>can_accept_burst = \<lambda>p. c_can_accept_burst (d_ports s p),
              can_accept_data = \<lambda>p. c_can_accept_data (d_ports s p),
              is_empty = \<lambda>p. c_is_empty (d_ports s p)\<rparr>"

subsection \<open>Executing the calls\<close>

fun d_exec_burst :: "be_call \<Rightarrow> (be_port \<Rightarrow> consumer) \<Rightarrow> (be_port \<Rightarrow> consumer)" where
  "d_exec_burst (Read_burst p i a n) ports = ports(p := c_read_burst i a n (ports p))"
| "d_exec_burst (Write_burst p i a n) ports = ports(p := c_write_burst i a n (ports p))"
| "d_exec_burst _ ports = ports"

text \<open>The firing of the back-end's event.\<close>

definition d_be_turn :: "(be_port \<Rightarrow> u64 \<Rightarrow> u64 \<Rightarrow> u64) \<Rightarrow> dma \<Rightarrow> dma" where
  "d_be_turn gbs s =
     (let b = be_fsm_handler gbs (d_env s) (d_be s)
      in \<lparr>d_be = b, d_ports = fold d_exec_burst (drop (length (be_calls (d_be s))) (be_calls b)) (d_ports s)\<rparr>)"

text \<open>\<open>write_data_ack\<close> on a port, whose own calls are updates.\<close>

definition d_update_calls :: "proto_call list \<Rightarrow> idma_be \<Rightarrow> idma_be" where
  "d_update_calls cs b = (if Be_update \<in> set cs then be_update b else b)"

fun d_exec_ack :: "be_call \<Rightarrow> dma \<Rightarrow> dma" where
  "d_exec_ack (Write_data_ack q p) s =
     (let c = c_write_data_ack p (d_ports s q)
      in s\<lparr>d_ports := (d_ports s)(q := c),
           d_be := d_update_calls (drop (length (c_calls (d_ports s q))) (c_calls c)) (d_be s)\<rparr>)"
| "d_exec_ack _ s = s"

text \<open>
  The calls of a destination: the data it acknowledges goes through \<open>ack_data\<close>, whose size is an \<open>int\<close>.
\<close>

fun d_exec_dst :: "proto_call \<Rightarrow> dma \<Rightarrow> dma" where
  "d_exec_dst Be_update s = s\<lparr>d_be := be_update (d_be s)\<rparr>"
| "d_exec_dst (Be_ack_data i p n) s =
     (let b = be_ack_data i p (sint (ucast n :: u32)) (d_be s)
      in fold d_exec_ack (drop (length (be_calls (d_be s))) (be_calls b)) (s\<lparr>d_be := b\<rparr>))"
| "d_exec_dst _ s = s"

text \<open>\<open>write_data\<close> on a port, with the bytes the pointer of the call stands for.\<close>

fun d_exec_data :: "(be_port \<Rightarrow> proto_env) \<Rightarrow> u8 list \<Rightarrow> be_call \<Rightarrow> dma \<Rightarrow> dma option" where
  "d_exec_data envs bs (Write_data q i p n) s =
     map_option
       (\<lambda>c. fold d_exec_dst (drop (length (c_calls (d_ports s q))) (c_calls c)) (s\<lparr>d_ports := (d_ports s)(q := c)\<rparr>))
       (c_write_data (envs q) i p bs (d_ports s q))"
| "d_exec_data envs bs _ s = Some s"

fun d_exec :: "(be_port \<Rightarrow> proto_env) \<Rightarrow> proto_call list \<Rightarrow> dma \<Rightarrow> dma option" where
  "d_exec envs [] s = Some s"
| "d_exec envs (Be_write_data i p bs # cs) s =
     (let b = be_write_data i p (of_nat (length bs)) (d_be s)
      in Option.bind (d_exec_data envs bs (last (be_calls b)) (s\<lparr>d_be := b\<rparr>)) (d_exec envs cs))"
| "d_exec envs (c # cs) s = d_exec envs cs (d_exec_dst c s)"

text \<open>A turn sees the back-end as it is.\<close>

fun turn_ready :: "(nat \<Rightarrow> bool) \<Rightarrow> proto_turn \<Rightarrow> proto_turn" where
  "turn_ready r (Fsm e) = Fsm (e\<lparr>pe_ready := r\<rparr>)"
| "turn_ready r (Response e x) = Response (e\<lparr>pe_ready := r\<rparr>) x"

definition d_turn :: "dma \<Rightarrow> proto_turn \<Rightarrow> proto_turn" where
  "d_turn s e = turn_ready (\<lambda>i. be_is_ready_to_accept_data (d_env s) i (d_be s)) e"

definition d_port_turn :: "(be_port \<Rightarrow> proto_env) \<Rightarrow> be_port \<Rightarrow> proto_turn \<Rightarrow> dma \<Rightarrow> dma option" where
  "d_port_turn envs q e s = do {
     c \<leftarrow> c_turn (d_turn s e) (d_ports s q);
     d_exec envs (drop (length (c_calls (d_ports s q))) (c_calls c)) (s\<lparr>d_ports := (d_ports s)(q := c)\<rparr>)
   }"

fun d_step :: "(be_port \<Rightarrow> u64 \<Rightarrow> u64 \<Rightarrow> u64) \<Rightarrow> dma_event \<Rightarrow> dma \<Rightarrow> dma option" where
  "d_step gbs Be_turn s = Some (d_be_turn gbs s)"
| "d_step gbs (Port_turn q e envs) s = d_port_turn envs q e s"

fun d_run :: "(be_port \<Rightarrow> u64 \<Rightarrow> u64 \<Rightarrow> u64) \<Rightarrow> dma_event list \<Rightarrow> dma \<Rightarrow> dma option" where
  "d_run gbs [] s = Some s"
| "d_run gbs (x # xs) s = Option.bind (d_step gbs x s) (d_run gbs xs)"

text \<open>
  What a run asks of the surroundings of the source port \<open>p\<close> (whose offset is \<open>off\<close>) and of
  the destination port \<open>q\<close>, event by event. The other two ports have no turn.
\<close>

definition d_port_env :: "u64 \<Rightarrow> (u64 \<Rightarrow> u8) \<Rightarrow> be_port \<Rightarrow> be_port \<Rightarrow> dma_event \<Rightarrow> dma \<Rightarrow> bool" where
  "d_port_env off byte p q x s \<longleftrightarrow> (case x of Be_turn \<Rightarrow> True
     | Port_turn r e envs \<Rightarrow>
         r = p \<and> c_reader_env off byte e (d_ports s p) \<and> c_data_env (envs q) (d_ports s q)
         \<or> r = q \<and> c_writer_env e (d_ports s q))"

fun d_run_env :: "(be_port \<Rightarrow> u64 \<Rightarrow> u64 \<Rightarrow> u64) \<Rightarrow> u64 \<Rightarrow> (u64 \<Rightarrow> u8) \<Rightarrow> be_port \<Rightarrow> be_port \<Rightarrow> dma_event list \<Rightarrow> dma \<Rightarrow> bool" where
  "d_run_env gbs off byte p q [] s \<longleftrightarrow> True"
| "d_run_env gbs off byte p q (x # xs) s \<longleftrightarrow> d_port_env off byte p q x s
     \<and> (case d_step gbs x s of None \<Rightarrow> True | Some t \<Rightarrow> d_run_env gbs off byte p q xs t)"

end
