(* ===== verification/Idma_Copy_Steps.thy ===== *)
theory Idma_Copy_Steps
  imports Idma_Copy
begin

section \<open>The steps of a copy\<close>

text \<open>
  The invariant that ties the back-end, the reader at the source port and the writer at the destination
  port together while one transfer is copied, and one lemma per kind of event: the firing of the
  back-end, a turn of the reader with the chunk it hands over, a turn of the writer with the chunks it
  acknowledges.
\<close>

subsection \<open>A job\<close>

text \<open>
  One transfer: its name and its values as enqueued, the source and the destination port, the offsets
  of these, the memory at the source, what had been written to the destination port and how often the
  middle-end had been told of the transfer before.
\<close>

record d_job =
  j_id :: nat
  j_t :: be_transfer
  j_src :: be_port
  j_dst :: be_port
  j_roff :: u64
  j_woff :: u64
  j_byte :: "u64 \<Rightarrow> u8"
  j_written :: "(u64 \<times> u8) list"
  j_acked :: nat

definition j_size :: "d_job \<Rightarrow> nat" where
  "j_size j = unat (bt_size (j_t j))"

text \<open>The writes of the first \<open>k\<close> bytes.\<close>

definition j_copy :: "d_job \<Rightarrow> nat \<Rightarrow> (u64 \<times> u8) list" where
  "j_copy j k = zip (map (\<lambda>a. a - j_woff j) (addrs (bt_dst (j_t j)) k)) (map (j_byte j) (addrs (bt_src (j_t j)) k))"

lemma j_copy_add:
  "j_copy j (k + m) = j_copy j k
     @ zip (map (\<lambda>a. a - j_woff j) (addrs (bt_dst (j_t j) + of_nat k) m)) (map (j_byte j) (addrs (bt_src (j_t j) + of_nat k) m))"
  by (simp add: j_copy_def addrs_add)

text \<open>
  The ports are found again for every chunk and every acknowledgement, from what is left of the
  transfer.
\<close>

definition j_routes :: "d_job \<Rightarrow> idma_be \<Rightarrow> bool" where
  "j_routes j b \<longleftrightarrow> (\<forall>k \<le> j_size j. get_be_consumer b (bt_src (j_t j)) (bt_size (j_t j) - of_nat k) True = j_src j)
     \<and> (\<forall>k < j_size j. get_be_consumer b (bt_dst (j_t j) + of_nat k) (bt_size (j_t j) - of_nat k) False = j_dst j)
     \<and> j_src j \<noteq> j_dst j \<and> 0 < j_size j \<and> j_size j < 2 ^ 31"

subsection \<open>The invariant\<close>

text \<open>The back-end when \<open>sent\<close> bytes are in bursts, \<open>k\<close> handed over and \<open>a\<close> acknowledged.\<close>

definition j_be :: "d_job \<Rightarrow> nat \<Rightarrow> nat \<Rightarrow> nat \<Rightarrow> idma_be \<Rightarrow> bool" where
  "j_be j sent k a b \<longleftrightarrow> j_routes j b
   \<and> be_current b = j_id j \<and> be_src_be b = j_src j \<and> be_dst_be b = j_dst j
   \<and> be_current_src b = bt_src (j_t j) + of_nat sent \<and> be_current_dst b = bt_dst (j_t j) + of_nat sent
   \<and> unat (be_current_size b) + sent = j_size j \<and> k \<le> sent
   \<and> be_store b (j_id j) = \<lparr>bt_src = bt_src (j_t j), bt_dst = bt_dst (j_t j) + of_nat k,
        bt_size = bt_size (j_t j) - of_nat k, bt_ack_size = bt_size (j_t j) - of_nat a\<rparr>
   \<and> count_list (be_calls b) (Me_ack_transfer (j_id j)) = j_acked j + of_bool (a = j_size j)"

text \<open>The chunks between the two protocols: handed over, held by the reader and not acknowledged.\<close>

definition j_chunks :: "d_job \<Rightarrow> nat \<Rightarrow> nat \<Rightarrow> (nat \<times> ptr \<times> u64) list \<Rightarrow> consumer \<Rightarrow> bool" where
  "j_chunks j k a un r \<longleftrightarrow> a + acked_bytes un = k \<and> c_held r = map (\<lambda>x. fst (snd x)) un
   \<and> list_all (\<lambda>x. fst x = j_id j \<and> 0 < snd (snd x)) un"

definition j_reader :: "d_job \<Rightarrow> nat \<Rightarrow> nat \<Rightarrow> consumer \<Rightarrow> bool" where
  "j_reader j sent k r \<longleftrightarrow> c_reader_inv (j_roff j) (j_byte j) r
   \<and> all_addrs (c_todo r) = addrs (bt_src (j_t j) + of_nat k) (sent - k)
   \<and> list_all (\<lambda>b. fst b = j_id j) (c_todo r)"

definition j_writer :: "d_job \<Rightarrow> nat \<Rightarrow> nat \<Rightarrow> consumer \<Rightarrow> bool" where
  "j_writer j sent k w \<longleftrightarrow> c_writer_inv (j_woff j) w
   \<and> all_addrs (c_space w) = addrs (bt_dst (j_t j) + of_nat k) (sent - k)
   \<and> port_writes (c_calls w) @ c_pend w = j_written j @ j_copy j k
   \<and> length (j_written j) \<le> length (port_writes (c_calls w))"

definition j_inv :: "d_job \<Rightarrow> nat \<Rightarrow> nat \<Rightarrow> nat \<Rightarrow> dma \<Rightarrow> bool" where
  "j_inv j sent k a s \<longleftrightarrow> j_be j sent k a (d_be s)
   \<and> j_reader j sent k (d_ports s (j_src j)) \<and> j_writer j sent k (d_ports s (j_dst j))
   \<and> map burst_size (c_todo (d_ports s (j_src j))) = map burst_size (c_space (d_ports s (j_dst j)))
   \<and> j_chunks j k a (c_unacked (d_ports s (j_dst j))) (d_ports s (j_src j))"

lemma j_be_event [simp]: "j_be j sent k a (b\<lparr>be_event := e\<rparr>) = j_be j sent k a b"
  by (simp add: j_be_def j_routes_def get_be_consumer_def)

lemma j_be_update [simp]: "j_be j sent k a (be_update b) = j_be j sent k a b" "j_be j sent k a (d_update_calls cs b) = j_be j sent k a b"
  by (simp_all add: be_update_def d_update_calls_def)

subsection \<open>Acknowledgements\<close>

lemma ack_int:
  assumes "unat (n :: u64) < 2 ^ 31"
  shows "(of_int (sint (ucast n :: u32)) :: u64) = n"
proof -
  have "int (unat n) < int (2 ^ 31)" using assms by (simp only: of_nat_less_iff)
  then have lt: "uint n < 2 ^ 31" by simp
  have "uint (ucast n :: u32) = uint n" using lt by (simp add: unsigned_ucast_eq take_bit_int_eq_self)
  moreover have "- (2 ^ 31) \<le> uint n" by (rule order_trans [of _ 0]) simp_all
  ultimately have "sint (ucast n :: u32) = uint n"
    using lt signed_take_bit_int_eq_self [of 31 "uint n"] by (simp add: sint_uint)
  then show ?thesis by simp
qed

text \<open>\<open>ack_data\<close> of the oldest chunk: the reader gets its buffer back, the transfer its size.\<close>

lemma j_ack:
  assumes be: "j_be j sent k a (d_be s)" and r: "j_reader j sent k (d_ports s (j_src j))"
    and un: "j_chunks j k a ((i, p, n) # un) (d_ports s (j_src j))"
  defines "t \<equiv> d_exec_dst (Be_ack_data i p n) s"
  shows "j_be j sent k (a + unat n) (d_be t) \<and> j_reader j sent k (d_ports t (j_src j))
    \<and> c_todo (d_ports t (j_src j)) = c_todo (d_ports s (j_src j))
    \<and> j_chunks j k (a + unat n) un (d_ports t (j_src j))
    \<and> (\<forall>x. x \<noteq> j_src j \<longrightarrow> d_ports t x = d_ports s x)"
proof -
  let ?r = "d_ports s (j_src j)" and ?b = "d_be s" and ?N = "j_size j"
  have i: "i = j_id j" "0 < n" and held: "c_held ?r = p # map (\<lambda>x. fst (snd x)) un"
    and k: "a + unat n + acked_bytes un = k" and rest: "list_all (\<lambda>x. fst x = j_id j \<and> 0 < snd (snd x)) un"
    using un by (auto simp: j_chunks_def)
  have rt: "j_routes j ?b" and kN: "k \<le> ?N"
    using be by (auto simp: j_be_def)
  have store: "be_store ?b i = \<lparr>bt_src = bt_src (j_t j), bt_dst = bt_dst (j_t j) + of_nat k,
        bt_size = bt_size (j_t j) - of_nat k, bt_ack_size = bt_size (j_t j) - of_nat a\<rparr>"
    using be by (simp add: j_be_def i)
  have n31: "unat n < 2 ^ 31" using k kN rt by (simp add: j_routes_def)
  have route: "get_be_consumer ?b (bt_src (be_store ?b i)) (bt_size (be_store ?b i)) True = j_src j"
    using rt kN by (simp add: store j_routes_def)
  define b' where "b' = be_ack_data i p (sint (ucast n :: u32)) ?b"
  have an: "(of_nat (a + unat n) :: u64) = of_nat a + n" by simp
  have zero: "bt_size (j_t j) - (of_nat a + n) = 0 \<longleftrightarrow> a + unat n = ?N"
  proof -
    have "unat (of_nat (a + unat n) :: u64) = a + unat n"
      using k kN rt by (simp add: unsigned_of_nat take_bit_nat_eq_self j_routes_def del: of_nat_add)
    then have "bt_size (j_t j) = of_nat (a + unat n) \<longleftrightarrow> a + unat n = ?N"
      unfolding j_size_def word_unat_eq_iff by auto
    then show ?thesis using an by auto
  qed
  let ?M = "if a + unat n = ?N then [Me_ack_transfer i] else []"
  have calls: "be_calls b' = be_calls ?b @ [Write_data_ack (j_src j) p] @ ?M"
    using zero route ack_int [OF n31]
    by (simp add: b'_def be_ack_data_def Let_def be_call_def store algebra_simps)
  have eqs: "be_current b' = be_current ?b" "be_src_be b' = be_src_be ?b" "be_dst_be b' = be_dst_be ?b"
    "be_current_src b' = be_current_src ?b" "be_current_dst b' = be_current_dst ?b" "be_current_size b' = be_current_size ?b"
    "be_loc_base b' = be_loc_base ?b" "be_loc_size b' = be_loc_size ?b"
    by (simp_all add: b'_def be_ack_data_def Let_def be_call_def)
  have store': "be_store b' i = \<lparr>bt_src = bt_src (j_t j), bt_dst = bt_dst (j_t j) + of_nat k,
        bt_size = bt_size (j_t j) - of_nat k, bt_ack_size = bt_size (j_t j) - of_nat (a + unat n)\<rparr>"
    using ack_int [OF n31] by (simp add: b'_def be_ack_data_def Let_def be_call_def store algebra_simps)
  have "a \<noteq> ?N" using i(2) k kN by (auto simp: word_less_nat_alt)
  then have be': "j_be j sent k (a + unat n) b'"
    using be store' calls by (auto simp: j_be_def eqs i j_routes_def get_be_consumer_def)
  define c where "c = c_write_data_ack p ?r"
  obtain ds where t: "d_be t = d_update_calls ds b'" "d_ports t = (d_ports s)(j_src j := c)"
    unfolding t_def by (auto simp: Let_def calls c_def simp flip: b'_def)
  have law: "c_reader_inv (j_roff j) (j_byte j) c" "c_todo c = c_todo ?r" "c_held c = map (\<lambda>x. fst (snd x)) un"
    using reader.ack_law [of "j_roff j" "j_byte j" ?r p "map (\<lambda>x. fst (snd x)) un"] r held
    by (auto simp: c_def j_reader_def)
  show ?thesis using be' law r k rest by (simp add: t j_reader_def j_chunks_def)
qed

text \<open>The calls of the writer's turn: acknowledgements, oldest first, and updates.\<close>

lemma j_acks:
  assumes "j_be j sent k a (d_be s)" and "j_reader j sent k (d_ports s (j_src j))"
    and "j_chunks j k a (acks cs @ un) (d_ports s (j_src j))"
  shows "j_be j sent k (a + acked_bytes (acks cs)) (d_be (fold d_exec_dst cs s))
    \<and> j_reader j sent k (d_ports (fold d_exec_dst cs s) (j_src j))
    \<and> c_todo (d_ports (fold d_exec_dst cs s) (j_src j)) = c_todo (d_ports s (j_src j))
    \<and> j_chunks j k (a + acked_bytes (acks cs)) un (d_ports (fold d_exec_dst cs s) (j_src j))
    \<and> (\<forall>x. x \<noteq> j_src j \<longrightarrow> d_ports (fold d_exec_dst cs s) x = d_ports s x)"
  using assms
proof (induction cs arbitrary: s a)
  case (Cons c cs)
  show ?case
  proof (cases c)
    case (Be_ack_data i p n)
    let ?t = "d_exec_dst (Be_ack_data i p n) s"
    have "j_chunks j k a ((i, p, n) # (acks cs @ un)) (d_ports s (j_src j))" using Cons.prems(3) Be_ack_data by simp
    note t = j_ack [OF Cons.prems(1,2) this]
    have "j_be j sent k (a + unat n) (d_be ?t)" "j_reader j sent k (d_ports ?t (j_src j))"
      "j_chunks j k (a + unat n) (acks cs @ un) (d_ports ?t (j_src j))" using t by blast+
    from Cons.IH [OF this] show ?thesis using t by (simp add: Be_ack_data add.assoc del: d_exec_dst.simps)
  next
    case Be_update
    then show ?thesis using Cons.IH [of a "s\<lparr>d_be := be_update (d_be s)\<rparr>"] Cons.prems by simp
  qed (use Cons in simp_all)
qed simp

subsection \<open>Runs of calls\<close>

lemma d_exec_append: "d_exec envs (cs @ ds) s = Option.bind (d_exec envs cs s) (d_exec envs ds)"
  by (induction envs cs s rule: d_exec.induct) (simp_all add: Let_def cong: Option.bind_cong)

lemma d_exec_no_push: "pushes cs = [] \<Longrightarrow> d_exec envs cs s = Some (fold d_exec_dst cs s)"
  by (induction cs arbitrary: s rule: pushes.induct) simp_all

lemma d_fold_updates:
  "acks cs = [] \<Longrightarrow> fold d_exec_dst cs s = s\<lparr>d_be := d_update_calls cs (d_be s)\<rparr>"
proof (induction cs arbitrary: s)
  case (Cons c cs)
  then show ?case by (cases c) (simp_all add: d_update_calls_def be_update_def)
qed (simp add: d_update_calls_def)

lemma pushes_split:
  "pushes cs = [(i, p, bs)] \<Longrightarrow> \<exists>cs1 cs2. cs = cs1 @ Be_write_data i p bs # cs2 \<and> pushes cs1 = [] \<and> pushes cs2 = []"
proof (induction cs rule: pushes.induct)
  case (2 i' p' bs' cs)
  then show ?case by (intro exI [of _ "[]"] exI [of _ cs]) simp
qed (simp, (metis append_Cons pushes.simps)+)

lemma advance_addrs:
  assumes "all_addrs bs = addrs x l" and "bs \<noteq> []" and "m \<le> burst_size (hd bs)"
  shows "unat m \<le> l" and "all_addrs (advance m bs) = addrs (x + m) (l - unat m)"
    and "addrs (fst (snd (hd bs))) (unat m) = addrs x (unat m)"
proof -
  note a = all_addrs_advance [OF assms(2,3)]
  have "length (take (unat m) (all_addrs bs)) = unat m" by (subst a(2)) simp
  then show l: "unat m \<le> l" by (simp add: assms(1))
  have "all_addrs (advance m bs) = drop (unat m) (addrs x l)"
    using a(1) assms(1) l by (metis append_eq_conv_conj append_take_drop_id)
  then show "all_addrs (advance m bs) = addrs (x + m) (l - unat m)" using l by (simp add: drop_addrs)
  show "addrs (fst (snd (hd bs))) (unat m) = addrs x (unat m)" using a(2) assms(1) l by (simp add: take_addrs)
qed

lemma advance_transfer: "list_all (\<lambda>b. fst b = i) bs \<Longrightarrow> list_all (\<lambda>b. fst b = i) (advance m bs)"
  by (cases "(m, bs)" rule: advance.cases) auto

subsection \<open>A chunk is handed over\<close>

text \<open>The reader has pushed \<open>m\<close> bytes, and the writer is free: they become its next bytes.\<close>

lemma j_push:
  assumes be: "j_be j sent k a (d_be s)" and w: "j_writer j sent k (d_ports s (j_dst j))"
    and r: "j_reader j sent (k + unat m) (d_ports s (j_src j))"
    and sizes: "map burst_size (c_todo (d_ports s (j_src j))) = map burst_size (advance m (c_space (d_ports s (j_dst j))))"
    and space: "c_space (d_ports s (j_dst j)) \<noteq> []" and m: "0 < m" "m \<le> burst_size (hd (c_space (d_ports s (j_dst j))))"
    and un: "j_chunks j (k + unat m) a (c_unacked (d_ports s (j_dst j)) @ [(j_id j, p, m)]) (d_ports s (j_src j))"
    and free: "c_can_accept_data (d_ports s (j_dst j))" and env: "c_data_env (envs (j_dst j)) (d_ports s (j_dst j))"
    and bs: "bs = map (j_byte j) (addrs (bt_src (j_t j) + of_nat k) (unat m))"
    and t: "d_exec envs [Be_write_data (j_id j) p bs] s = Some t"
  shows "\<exists>a'. a \<le> a' \<and> j_inv j sent (k + unat m) a' t"
proof -
  let ?w = "d_ports s (j_dst j)" and ?b = "d_be s" and ?i = "j_id j" and ?q = "j_dst j"
  have rt: "j_routes j ?b" and sent: "sent \<le> j_size j" using be by (auto simp: j_be_def)
  have adr: "all_addrs (c_space ?w) = addrs (bt_dst (j_t j) + of_nat k) (sent - k)" using w by (simp add: j_writer_def)
  note adv = advance_addrs [OF adr space m(2)]
  have km: "k + unat m \<le> sent" "k < j_size j" using adv(1) m(1) be sent by (auto simp: j_be_def word_less_nat_alt)
  have len: "(of_nat (length bs) :: u64) = m" by (simp add: bs)
  have store: "be_store ?b ?i = \<lparr>bt_src = bt_src (j_t j), bt_dst = bt_dst (j_t j) + of_nat k,
        bt_size = bt_size (j_t j) - of_nat k, bt_ack_size = bt_size (j_t j) - of_nat a\<rparr>"
    using be by (simp add: j_be_def)
  define b' where "b' = be_write_data ?i p m ?b"
  have calls: "be_calls b' = be_calls ?b @ [Write_data ?q ?i p m]"
    using rt km(2) by (simp add: b'_def be_write_data_def Let_def be_call_def store j_routes_def)
  have be': "j_be j sent (k + unat m) a b'"
    using be km(1) calls unfolding j_be_def
    by (simp add: b'_def be_write_data_def Let_def be_call_def j_routes_def get_be_consumer_def add.assoc diff_diff_eq)
  have w1: "c_write_data (envs ?q) ?i p bs ?w \<noteq> None"
    using t by (cases "c_write_data (envs ?q) ?i p bs ?w") (simp_all add: Let_def len calls flip: b'_def)
  then obtain c where c: "c_write_data (envs ?q) ?i p bs ?w = Some c" by auto
  let ?u = "s\<lparr>d_be := b', d_ports := (d_ports s)(?q := c)\<rparr>"
  have t': "t = fold d_exec_dst (drop (length (c_calls ?w)) (c_calls c)) ?u"
    using t by (simp add: Let_def len calls c flip: b'_def)
  obtain j' x n rest where hd: "c_space ?w = (j', x, n) # rest" using space by (cases "c_space ?w") auto
  obtain cs where law: "c_writer_inv (j_woff j) c" "c_space c = advance m (c_space ?w)" "c_calls c = c_calls ?w @ cs"
    "port_writes cs @ c_pend c = c_pend ?w @ zip (map (\<lambda>b. b - j_woff j) (addrs x (unat m))) bs"
    "acks cs @ c_unacked c = c_unacked ?w @ [(?i, p, m)]"
    using writer.data_law [OF _ free env hd m(1) _ _ c, of "j_woff j"] w m(2) hd by (auto simp: j_writer_def bs)
  have src: "j_src j \<noteq> ?q" using rt by (simp add: j_routes_def)
  have t'': "t = fold d_exec_dst cs ?u" using t' law(3) by simp
  have "j_be j sent (k + unat m) a (d_be ?u)" "j_reader j sent (k + unat m) (d_ports ?u (j_src j))"
    "j_chunks j (k + unat m) a (acks cs @ c_unacked c) (d_ports ?u (j_src j))"
    using be' r un src law(5) by simp_all
  note A = j_acks [OF this, folded t'']
  have wt: "d_ports t ?q = c" using A src by auto
  have copy: "port_writes (c_calls c) @ c_pend c = j_written j @ j_copy j (k + unat m)"
    using w law(3,4) adv(3) by (simp add: j_writer_def j_copy_add bs hd)
  have "j_writer j sent (k + unat m) c"
    using w law(1-3) adv(2) km copy by (simp add: j_writer_def add.assoc)
  then have "j_inv j sent (k + unat m) (a + acked_bytes (acks cs)) t"
    using A sizes law(2) src by (simp add: j_inv_def wt)
  then show ?thesis by (intro exI conjI) simp_all
qed

subsection \<open>The three kinds of events\<close>

lemma turn_ready_env [simp]:
  "c_reader_env off byte (turn_ready r e) c = c_reader_env off byte e c"
  "c_writer_env (turn_ready r e) c = c_writer_env e c"
  by (cases e; cases c; simp; rename_tac x y z; case_tac y; simp)+

lemma turn_ready_ready [simp]: "pe_ready (turn_env (turn_ready r e)) = r"
  by (cases e) simp_all

lemma j_reader_turn:
  assumes inv: "j_inv j sent k a s" and env: "c_reader_env (j_roff j) (j_byte j) e (d_ports s (j_src j))"
    and denv: "c_data_env (envs (j_dst j)) (d_ports s (j_dst j))" and t: "d_port_turn envs (j_src j) e s = Some t"
  shows "\<exists>k' a'. k \<le> k' \<and> a \<le> a' \<and> j_inv j sent k' a' t"
proof -
  let ?r = "d_ports s (j_src j)" and ?w = "d_ports s (j_dst j)"
  have be: "j_be j sent k a (d_be s)" and r: "j_reader j sent k ?r" and w: "j_writer j sent k ?w"
    and sizes: "map burst_size (c_todo ?r) = map burst_size (c_space ?w)" and un: "j_chunks j k a (c_unacked ?w) ?r"
    using inv by (simp_all add: j_inv_def)
  have ne: "j_src j \<noteq> j_dst j" using be by (simp add: j_be_def j_routes_def)
  obtain c where c: "c_turn (d_turn s e) ?r = Some c"
    and t': "d_exec envs (drop (length (c_calls ?r)) (c_calls c)) (s\<lparr>d_ports := (d_ports s)(j_src j := c)\<rparr>) = Some t"
    using t by (auto simp: d_port_turn_def bind_eq_Some_conv)
  have env': "c_reader_env (j_roff j) (j_byte j) (d_turn s e) ?r" using env by (simp add: d_turn_def)
  have rinv: "c_reader_inv (j_roff j) (j_byte j) ?r" using r by (simp add: j_reader_def)
  obtain cs where law: "c_reader_inv (j_roff j) (j_byte j) c" "c_calls c = c_calls ?r @ cs"
    "reads_on (j_byte j) (pe_ready (turn_env (d_turn s e))) (c_todo ?r) (c_held ?r) cs (c_todo c) (c_held c)"
    using reader.turn_law [OF rinv env' c] by blast
  let ?s = "s\<lparr>d_ports := (d_ports s)(j_src j := c)\<rparr>"
  have t'': "d_exec envs cs ?s = Some t" using t' law(2) by simp
  show ?thesis
  proof (cases "pushes cs = []")
    case True
    then have q: "c_todo c = c_todo ?r" "c_held c = c_held ?r" "acks cs = []" using law(3) by (auto simp: reads_on_def)
    have "t = ?s\<lparr>d_be := d_update_calls cs (d_be s)\<rparr>"
      using t'' d_exec_no_push [OF True] d_fold_updates [OF q(3)] by simp
    then have "j_inv j sent k a t"
      using inv law(1) q ne by (simp add: j_inv_def j_reader_def j_chunks_def)
    then show ?thesis by blast
  next
    case False
    then obtain i x n rest m p where p: "c_todo ?r = (i, x, n) # rest" "0 < m" "m \<le> n"
      "be_is_ready_to_accept_data (d_env s) i (d_be s)" "pushes cs = [(i, p, map (j_byte j) (addrs x (unat m)))]"
      "c_todo c = advance m (c_todo ?r)" "c_held c = c_held ?r @ [p]" "acks cs = []"
      using law(3) by (auto simp: reads_on_def d_turn_def)
    have i: "i = j_id j" using r p(1) by (simp add: j_reader_def)
    let ?bs = "map (j_byte j) (addrs x (unat m))"
    obtain cs1 cs2 where cs: "cs = cs1 @ Be_write_data i p ?bs # cs2" "pushes cs1 = []" "pushes cs2 = []"
      using pushes_split [OF p(5)] by blast
    then have a12: "acks cs1 = []" "acks cs2 = []" using p(8) by simp_all
    let ?u = "?s\<lparr>d_be := d_update_calls cs1 (d_be s)\<rparr>"
    have "d_exec envs cs1 ?s = Some ?u" using d_exec_no_push [OF cs(2)] d_fold_updates [OF a12(1)] by simp
    then have "d_exec envs ([Be_write_data i p ?bs] @ cs2) ?u = Some t" using t'' by (simp add: cs(1) d_exec_append)
    then obtain v where v: "d_exec envs [Be_write_data i p ?bs] ?u = Some v" "d_exec envs cs2 v = Some t"
      by (auto simp only: d_exec_append bind_eq_Some_conv)
    then have tv: "t = v\<lparr>d_be := d_update_calls cs2 (d_be v)\<rparr>"
      using d_exec_no_push [OF cs(3)] d_fold_updates [OF a12(2)] by simp
    have adr: "all_addrs (c_todo ?r) = addrs (bt_src (j_t j) + of_nat k) (sent - k)" using r by (simp add: j_reader_def)
    have "c_todo ?r \<noteq> []" "m \<le> burst_size (hd (c_todo ?r))" using p by simp_all
    note adv = advance_addrs [OF adr this]
    have sp: "c_space ?w \<noteq> []" "burst_size (hd (c_space ?w)) = n"
      using sizes p(1) by (cases "c_space ?w"; simp)+
    have km: "k < j_size j" using adv(1) p(2) be by (auto simp: j_be_def word_less_nat_alt)
    have store: "be_store (d_be s) i = \<lparr>bt_src = bt_src (j_t j), bt_dst = bt_dst (j_t j) + of_nat k,
        bt_size = bt_size (j_t j) - of_nat k, bt_ack_size = bt_size (j_t j) - of_nat a\<rparr>"
      using be by (simp add: j_be_def i)
    have free: "c_can_accept_data ?w"
    proof -
      have "get_be_consumer (d_be s) (bt_dst (j_t j) + of_nat k) (bt_size (j_t j) - of_nat k) False = j_dst j"
        using be km unfolding j_be_def j_routes_def by blast
      then show ?thesis using p(4) by (simp add: be_is_ready_to_accept_data_def store d_env_def)
    qed
    have "\<exists>a'. a \<le> a' \<and> j_inv j sent (k + unat m) a' v"
    proof (rule j_push [where m = m and p = p and bs = ?bs])
      show "j_reader j sent (k + unat m) (d_ports ?u (j_src j))"
        using law(1) adv(2) advance_transfer r p(6) by (simp add: j_reader_def add.assoc)
      show "map burst_size (c_todo (d_ports ?u (j_src j))) = map burst_size (advance m (c_space (d_ports ?u (j_dst j))))"
        using advance_sizes [OF sizes] p(6) ne by simp
      show "j_chunks j (k + unat m) a (c_unacked (d_ports ?u (j_dst j)) @ [(j_id j, p, m)]) (d_ports ?u (j_src j))"
        using un p(2,7) ne by (simp add: j_chunks_def)
      show "d_exec envs [Be_write_data (j_id j) p ?bs] ?u = Some v" using v(1) i by simp
      show "?bs = map (j_byte j) (addrs (bt_src (j_t j) + of_nat k) (unat m))" using adv(3) p(1) by simp
    qed (use be w sp p free denv ne in simp_all)
    then obtain a' where "a \<le> a'" "j_inv j sent (k + unat m) a' v" by blast
    then have "j_inv j sent (k + unat m) a' t" by (simp add: tv j_inv_def)
    then show ?thesis using \<open>a \<le> a'\<close> le_add1 by blast
  qed
qed

lemma j_writer_turn:
  assumes inv: "j_inv j sent k a s" and env: "c_writer_env e (d_ports s (j_dst j))"
    and t: "d_port_turn envs (j_dst j) e s = Some t"
  shows "\<exists>a'. a \<le> a' \<and> j_inv j sent k a' t"
proof -
  let ?r = "d_ports s (j_src j)" and ?w = "d_ports s (j_dst j)"
  have be: "j_be j sent k a (d_be s)" and r: "j_reader j sent k ?r" and w: "j_writer j sent k ?w"
    and sizes: "map burst_size (c_todo ?r) = map burst_size (c_space ?w)" and un: "j_chunks j k a (c_unacked ?w) ?r"
    using inv by (simp_all add: j_inv_def)
  have ne: "j_src j \<noteq> j_dst j" using be by (simp add: j_be_def j_routes_def)
  obtain c where c: "c_turn (d_turn s e) ?w = Some c"
    and t': "d_exec envs (drop (length (c_calls ?w)) (c_calls c)) (s\<lparr>d_ports := (d_ports s)(j_dst j := c)\<rparr>) = Some t"
    using t by (auto simp: d_port_turn_def bind_eq_Some_conv)
  have env': "c_writer_env (d_turn s e) ?w" using env by (simp add: d_turn_def)
  have winv: "c_writer_inv (j_woff j) ?w" using w by (simp add: j_writer_def)
  obtain cs where law: "c_writer_inv (j_woff j) c" "c_space c = c_space ?w" "c_calls c = c_calls ?w @ cs" "pushes cs = []"
    "port_writes cs @ c_pend c = c_pend ?w" "acks cs @ c_unacked c = c_unacked ?w"
    using writer.turn_law [OF winv env' c] by blast
  let ?s = "s\<lparr>d_ports := (d_ports s)(j_dst j := c)\<rparr>"
  have t'': "t = fold d_exec_dst cs ?s" using t' law(3) d_exec_no_push [OF law(4)] by simp
  have "j_be j sent k a (d_be ?s)" "j_reader j sent k (d_ports ?s (j_src j))"
    "j_chunks j k a (acks cs @ c_unacked c) (d_ports ?s (j_src j))" using be r un law(6) ne by simp_all
  note A = j_acks [OF this, folded t'']
  have wt: "d_ports t (j_dst j) = c" using A ne by auto
  have "j_writer j sent k c" using w law by (simp add: j_writer_def)
  then have "j_inv j sent k (a + acked_bytes (acks cs)) t"
    using A sizes law(2) ne by (simp add: j_inv_def wt)
  then show ?thesis by (intro exI conjI) simp_all
qed

lemma j_be_turn:
  assumes inv: "j_inv j sent k a s"
  shows "\<exists>sent'. sent \<le> sent' \<and> j_inv j sent' k a (d_be_turn (be_gbs bs) s)"
proof (cases "be_may_send (d_env s) ((d_be s)\<lparr>be_event := False\<rparr>)")
  case False
  then have "d_be_turn (be_gbs bs) s = s\<lparr>d_be := (d_be s)\<lparr>be_event := False\<rparr>\<rparr>"
    by (simp add: d_be_turn_def be_fsm_handler_def Let_def)
  then show ?thesis using inv by (intro exI [of _ sent]) (simp add: j_inv_def)
next
  case True
  let ?r = "d_ports s (j_src j)" and ?w = "d_ports s (j_dst j)" and ?b = "d_be s"
  have be: "j_be j sent k a ?b" and r: "j_reader j sent k ?r" and w: "j_writer j sent k ?w"
    and sizes: "map burst_size (c_todo ?r) = map burst_size (c_space ?w)" and un: "j_chunks j k a (c_unacked ?w) ?r"
    using inv by (simp_all add: j_inv_def)
  have ports: "be_src_be ?b = j_src j" "be_dst_be ?b = j_dst j" "be_current ?b = j_id j"
    "be_current_src ?b = bt_src (j_t j) + of_nat sent" "be_current_dst ?b = bt_dst (j_t j) + of_nat sent"
    "k \<le> sent" "unat (be_current_size ?b) + sent = j_size j" "j_src j \<noteq> j_dst j"
    using be by (simp_all add: j_be_def j_routes_def)
  have can: "0 < be_current_size ?b" "c_can_accept_burst ?r" "c_can_accept_burst ?w"
    using True ports by (simp_all add: be_may_send_def d_env_def)
  let ?src = "bt_src (j_t j) + of_nat sent" and ?dst = "bt_dst (j_t j) + of_nat sent"
  define n where "n = be_gbs bs (j_dst j) ?dst (be_gbs bs (j_src j) ?src (be_current_size ?b))"
  have n: "0 < n" "n \<le> be_current_size ?b"
    using dma.burst_of_two(1,2) [OF can(1), of bs "j_dst j" ?dst "j_src j" ?src] by (simp_all add: n_def)
  define b' where "b' = be_fsm_handler (be_gbs bs) (d_env s) ?b"
  have b': "be_calls b' = be_calls ?b @ [Read_burst (j_src j) (j_id j) ?src n, Write_burst (j_dst j) (j_id j) ?dst n]
      @ (if be_current_size ?b = n then [Me_update] else [])"
    "be_current b' = be_current ?b" "be_src_be b' = be_src_be ?b" "be_dst_be b' = be_dst_be ?b"
    "be_current_src b' = ?src + n" "be_current_dst b' = ?dst + n" "be_current_size b' = be_current_size ?b - n"
    "be_store b' = be_store ?b" "be_loc_base b' = be_loc_base ?b" "be_loc_size b' = be_loc_size ?b"
    using True ports by (auto simp: b'_def be_fsm_handler_def Let_def be_call_def simp flip: n_def)
  let ?c = "c_read_burst (j_id j) ?src n ?r" and ?d = "c_write_burst (j_id j) ?dst n ?w"
  have t: "d_be_turn (be_gbs bs) s = \<lparr>d_be = b', d_ports = (d_ports s)(j_src j := ?c, j_dst j := ?d)\<rparr>"
    using ports(8) by (simp add: d_be_turn_def b'(1) flip: b'_def)
  have left: "unat (be_current_size ?b - n) = unat (be_current_size ?b) - unat n" "unat n \<le> unat (be_current_size ?b)"
    using n(2) by (simp_all add: unat_sub word_le_nat_alt)
  have be': "j_be j (sent + unat n) k a b'"
    using be left ports(6,7) by (simp add: j_be_def b' j_routes_def get_be_consumer_def add.assoc)
  have far: "of_nat k + of_nat (sent - k) = (of_nat sent :: u64)" using ports(6) by (simp flip: of_nat_add)
  have more: "addrs (x + of_nat k) (sent + unat n - k) = addrs (x + of_nat k) (sent - k) @ addrs (x + of_nat sent) (unat n)" for x
    using addrs_add [of "x + of_nat k" "sent - k" "unat n"] ports(6) by (simp add: far add.assoc)
  have rinv: "c_reader_inv (j_roff j) (j_byte j) ?r" and winv: "c_writer_inv (j_woff j) ?w"
    using r w by (simp_all add: j_reader_def j_writer_def)
  obtain cs where rl: "c_reader_inv (j_roff j) (j_byte j) ?c" "c_todo ?c = c_todo ?r @ [(j_id j, ?src, n)]" "c_held ?c = c_held ?r"
    using reader.burst_law [OF rinv can(2) n(1), of "j_id j" ?src] by blast
  obtain ds where wl: "c_writer_inv (j_woff j) ?d" "c_space ?d = c_space ?w @ [(j_id j, ?dst, n)]" "c_pend ?d = c_pend ?w"
    "c_unacked ?d = c_unacked ?w" "c_calls ?d = c_calls ?w @ ds" "quiet ds"
    using writer.burst_law [OF winv can(3) n(1), of "j_id j" ?dst] by blast
  have "j_reader j (sent + unat n) k ?c" using r rl by (simp add: j_reader_def more)
  moreover have "j_writer j (sent + unat n) k ?d" using w wl by (simp add: j_writer_def more quiet_def)
  ultimately have "j_inv j (sent + unat n) k a (d_be_turn (be_gbs bs) s)"
    using be' sizes un rl wl ports(8) by (simp add: j_inv_def t j_chunks_def)
  then show ?thesis by (intro exI conjI) simp_all
qed

text \<open>One event, and a run of events.\<close>

lemma j_step:
  assumes "j_inv j sent k a s" and "d_port_env (j_roff j) (j_byte j) (j_src j) (j_dst j) x s"
    and "d_step (be_gbs bs) x s = Some t"
  shows "\<exists>sent' k' a'. j_inv j sent' k' a' t"
proof (cases x)
  case Be_turn
  then show ?thesis using j_be_turn [OF assms(1), of bs] assms(3) by auto
next
  case (Port_turn r e envs)
  then show ?thesis
    using j_reader_turn [OF assms(1), of e envs t] j_writer_turn [OF assms(1), of e envs t] assms(2,3)
    by (auto simp: d_port_env_def)
qed

lemma j_run:
  assumes "j_inv j sent k a s" and "d_run_env (be_gbs bs) (j_roff j) (j_byte j) (j_src j) (j_dst j) xs s"
    and "d_run (be_gbs bs) xs s = Some t"
  shows "\<exists>sent' k' a'. j_inv j sent' k' a' t"
  using assms
proof (induction xs arbitrary: s sent k a)
  case (Cons x xs)
  then obtain u where u: "d_step (be_gbs bs) x s = Some u" "d_run (be_gbs bs) xs u = Some t"
    by (auto simp: bind_eq_Some_conv)
  then obtain sent' k' a' where "j_inv j sent' k' a' u" using j_step [OF Cons.prems(1) _ u(1)] Cons.prems(2) by auto
  then show ?case using Cons.IH Cons.prems(2) u by auto
qed auto

text \<open>
  What the invariant says of a state: the first \<open>n\<close> bytes of the copy have been written, every other
  byte is in one place, and the middle-end has been told when nothing is left and acknowledged.
\<close>

lemma unacked_none:
  assumes "list_all (\<lambda>x. fst x = i \<and> 0 < snd (snd x)) un"
  shows "acked_bytes un = 0 \<longleftrightarrow> un = []"
  using assms by (cases un) (auto simp: word_less_nat_alt)

lemma j_outcome:
  assumes "j_inv j sent k a s"
  defines "ws \<equiv> port_writes (c_calls (d_ports s (j_dst j)))"
  shows "\<exists>n. ws = j_written j @ take n (j_copy j (j_size j))
      \<and> n + length (c_pend (d_ports s (j_dst j))) + length (all_addrs (c_todo (d_ports s (j_src j))))
          + unat (be_current_size (d_be s)) = j_size j
      \<and> count_list (be_calls (d_be s)) (Me_ack_transfer (j_id j))
          = j_acked j + of_bool (n = j_size j \<and> c_unacked (d_ports s (j_dst j)) = [])"
proof -
  let ?w = "d_ports s (j_dst j)" and ?N = "j_size j"
  define n where "n = k - length (c_pend ?w)"
  have be: "unat (be_current_size (d_be s)) + sent = ?N" "k \<le> sent"
    and cnt: "count_list (be_calls (d_be s)) (Me_ack_transfer (j_id j)) = j_acked j + of_bool (a = ?N)"
    using assms(1) by (auto simp: j_inv_def j_be_def)
  have w: "c_writer_inv (j_woff j) ?w" "ws @ c_pend ?w = j_written j @ j_copy j k" "length (j_written j) \<le> length ws"
    using assms(1) by (simp_all add: j_inv_def j_writer_def ws_def)
  have un: "a + acked_bytes (c_unacked ?w) = k" "acked_bytes (c_unacked ?w) = 0 \<longleftrightarrow> c_unacked ?w = []"
    using assms(1) by (auto simp: j_inv_def j_chunks_def intro!: unacked_none)
  have todo: "length (all_addrs (c_todo (d_ports s (j_src j)))) = sent - k"
    using assms(1) by (simp add: j_inv_def j_reader_def)
  have len: "length (j_copy j m) = m" for m by (simp add: j_copy_def)
  have "length ws + length (c_pend ?w) = length (j_written j) + k"
    using arg_cong [OF w(2), of length] len [of k] by simp
  then have n: "n + length (c_pend ?w) = k" "length ws = length (j_written j) + n" using w(3) by (simp_all add: n_def)
  have "ws = take (length ws) (j_written j @ j_copy j k)" using w(2) by (metis append_eq_conv_conj)
  also have "\<dots> = j_written j @ take n (j_copy j k)" by (simp add: n(2))
  also have "take n (j_copy j k) = take n (j_copy j ?N)"
    using j_copy_add [of j k "?N - k"] be n(1) len [of k] by simp
  finally have "ws = j_written j @ take n (j_copy j ?N)" .
  moreover have "a = ?N \<longleftrightarrow> n = ?N \<and> c_unacked ?w = []"
    using un n(1) be writer.acked_is_written [OF w(1)] by auto
  ultimately show ?thesis using cnt n(1) todo be by (intro exI [of _ n]) simp
qed

end
