(* ===== verification/Idma_Copy_Correct.thy ===== *)
theory Idma_Copy_Correct
  imports Idma_Copy_Steps
begin

section \<open>A transfer of the iDMA is a copy\<close>

text \<open>The two ports of the transfer have nothing left from before.\<close>

definition d_idle :: "u64 \<Rightarrow> u64 \<Rightarrow> (u64 \<Rightarrow> u8) \<Rightarrow> be_port \<Rightarrow> be_port \<Rightarrow> dma \<Rightarrow> bool" where
  "d_idle roff woff byte p q s \<longleftrightarrow> c_reader_inv roff byte (d_ports s p) \<and> c_todo (d_ports s p) = [] \<and> c_held (d_ports s p) = []
   \<and> c_writer_inv woff (d_ports s q) \<and> c_space (d_ports s q) = [] \<and> c_unacked (d_ports s q) = []"

definition d_written :: "be_port \<Rightarrow> dma \<Rightarrow> (u64 \<times> u8) list" where
  "d_written q s = port_writes (c_calls (d_ports s q))"

definition d_told :: "nat \<Rightarrow> dma \<Rightarrow> nat" where
  "d_told i s = count_list (be_calls (d_be s)) (Me_ack_transfer i)"

definition d_start :: "nat \<Rightarrow> be_transfer \<Rightarrow> dma \<Rightarrow> dma" where
  "d_start i t s = s\<lparr>d_be := be_enqueue_transfer i t (d_be s)\<rparr>"

text \<open>
  A transfer whose addresses do not wrap, whose destination does not enter the local area from outside
  and whose source, if it is external, does not start in the local area or right behind it: the port of
  a transfer is looked up again with what is left of it, and these are the transfers for which the
  answer does not change.
\<close>

definition d_fits :: "idma_be \<Rightarrow> be_transfer \<Rightarrow> bool" where
  "d_fits b t \<longleftrightarrow> be_local_ok b \<and> 0 < bt_size t \<and> unat (bt_size t) < 2 ^ 31
   \<and> unat (bt_src t) + unat (bt_size t) < 2 ^ 64 \<and> unat (bt_dst t) + unat (bt_size t) < 2 ^ 64
   \<and> \<not> be_enters b (bt_dst t) (bt_size t)
   \<and> (get_be_consumer b (bt_src t) (bt_size t) True = Ext_be_read \<longrightarrow>
        unat (bt_src t) < unat (be_loc_base b) \<or> unat (be_loc_base b) + unat (be_loc_size b) < unat (bt_src t))"

lemma d_fits_left:
  assumes "d_fits b t" and "k \<le> unat (bt_size t)"
  shows "unat (bt_size t - of_nat k) = unat (bt_size t) - k" and "unat (bt_dst t + of_nat k) = unat (bt_dst t) + k"
proof -
  have k: "unat (of_nat k :: u64) = k"
    using assms by (simp add: unsigned_of_nat take_bit_nat_eq_self d_fits_def)
  then show "unat (bt_size t - of_nat k) = unat (bt_size t) - k"
    using assms by (simp add: unat_sub word_le_nat_alt)
  show "unat (bt_dst t + of_nat k) = unat (bt_dst t) + k"
    using assms k by (simp add: unat_add_lem [THEN iffD1] d_fits_def)
qed

lemma d_fits_routes:
  assumes fit: "d_fits b t" and j: "j_t j = t" "j_src j = get_be_consumer b (bt_src t) (bt_size t) True"
    "j_dst j = get_be_consumer b (bt_dst t) (bt_size t) False"
  shows "j_routes j b"
proof -
  let ?l = "unat (be_loc_base b)" and ?h = "unat (be_loc_base b) + unat (be_loc_size b)"
  have ok: "be_local_ok b" using fit by (simp add: d_fits_def)
  have src: "get_be_consumer b (bt_src t) (bt_size t - of_nat k) True = j_src j" if k: "k \<le> unat (bt_size t)" for k
  proof -
    have lt: "unat (bt_src t) + unat (bt_size t - of_nat k) < 2 ^ 64"
      using fit unfolding d_fits_left(1) [OF fit k] d_fits_def by linarith
    show ?thesis
      using fit unfolding j(2) consumer_nat [OF ok lt] d_fits_left(1) [OF fit k]
      by (auto simp: d_fits_def consumer_nat split: if_splits)
  qed
  have dst: "get_be_consumer b (bt_dst t + of_nat k) (bt_size t - of_nat k) False = j_dst j" if k: "k < unat (bt_size t)" for k
  proof -
    have k': "k \<le> unat (bt_size t)" using k by simp
    have lt: "unat (bt_dst t + of_nat k) + unat (bt_size t - of_nat k) < 2 ^ 64"
      using fit k unfolding d_fits_left [OF fit k'] d_fits_def by linarith
    show ?thesis
      using fit k unfolding j(3) consumer_nat [OF ok lt] d_fits_left [OF fit k']
      by (auto simp: d_fits_def consumer_nat be_enters_def split: if_splits)
  qed
  have "j_src j \<noteq> j_dst j" unfolding j(2,3) get_be_consumer_def Let_def by simp
  then show ?thesis using src dst fit by (simp add: j_routes_def j_size_def j(1) d_fits_def word_less_nat_alt)
qed

text \<open>
  C3. A transfer is a copy, and no byte of it is lost on the way. Assumed are a transfer of nonzero
  size whose addresses do not wrap and whose ports do not change on the way (\<open>d_fits\<close>), given to the
  back-end over idle ports, and an AXI interconnect that answers in the order of the requests and
  refuses none as invalid (\<open>d_run_env\<close>). Then in every run of the back-end and the two protocols,
  for TCDM or AXI on either side, all widths, queue lengths, latencies and refusals, and all
  interleavings of the turns, at each moment: the bytes written to the destination port are the first
  \<open>n\<close> of the source, in order, each once and at the address that corresponds to it; the remaining
  bytes are all accounted for, in a chunk the destination still writes, in a burst of the source or
  not yet sent; and the middle-end has been told that the transfer is done exactly once if all bytes
  are written and every chunk is acknowledged, and not at all before.
\<close>

theorem idma_copies:
  assumes "d_fits (d_be s) t"
    and "p = get_be_consumer (d_be s) (bt_src t) (bt_size t) True" and "q = get_be_consumer (d_be s) (bt_dst t) (bt_size t) False"
    and "d_idle roff woff byte p q s"
    and "d_run_env (be_gbs bs) roff byte p q xs (d_start i t s)" and "d_run (be_gbs bs) xs (d_start i t s) = Some s'"
  shows "\<exists>n.
      d_written q s' = d_written q s @ take n
        (zip (map (\<lambda>a. a - woff) (addrs (bt_dst t) (unat (bt_size t)))) (map byte (addrs (bt_src t) (unat (bt_size t)))))
      \<and> n + length (c_pend (d_ports s' q)) + length (all_addrs (c_todo (d_ports s' p))) + unat (be_current_size (d_be s'))
          = unat (bt_size t)
      \<and> d_told i s' = d_told i s + of_bool (n = unat (bt_size t) \<and> c_unacked (d_ports s' q) = [])"
proof -
  define j where "j = \<lparr>j_id = i, j_t = t, j_src = p, j_dst = q, j_roff = roff, j_woff = woff, j_byte = byte,
    j_written = d_written q s, j_acked = d_told i s\<rparr>"
  have j: "j_id j = i" "j_t j = t" "j_src j = p" "j_dst j = q" "j_roff j = roff" "j_woff j = woff" "j_byte j = byte"
    "j_written j = d_written q s" "j_acked j = d_told i s" by (simp_all add: j_def)
  have N: "j_size j = unat (bt_size t)" "0 < unat (bt_size t)" "bt_size t \<noteq> 0"
    using assms(1) by (auto simp: j_size_def j d_fits_def word_less_nat_alt)
  have rt: "j_routes j (d_be s)" by (rule d_fits_routes [OF assms(1)]) (simp_all add: j assms(2,3))
  let ?b = "be_enqueue_transfer i t (d_be s)"
  have same: "get_be_consumer ?b = get_be_consumer (d_be s)"
    by (simp add: fun_eq_iff get_be_consumer_def be_enqueue_transfer_def)
  have b: "be_current ?b = i" "be_src_be ?b = p" "be_dst_be ?b = q" "be_current_src ?b = bt_src t"
    "be_current_dst ?b = bt_dst t" "be_current_size ?b = bt_size t" "be_calls ?b = be_calls (d_be s)"
    "be_store ?b i = t\<lparr>bt_ack_size := bt_size t\<rparr>"
    using assms(2,3) by (simp_all add: be_enqueue_transfer_def)
  have "j_be j 0 0 0 ?b" using rt N by (simp add: j_be_def j b d_told_def j_routes_def same)
  moreover have pend: "c_pend (d_ports s q) = []"
    using assms(4) writer.acked_is_written [of woff "d_ports s q"] by (simp add: d_idle_def)
  ultimately have "j_inv j 0 0 0 (d_start i t s)"
    using assms(4) by (simp add: j_inv_def j_reader_def j_writer_def j_chunks_def d_idle_def d_start_def j d_written_def j_copy_def)
  then obtain sent k a where inv: "j_inv j sent k a s'"
    using j_run [of j 0 0 0 "d_start i t s" bs xs s'] assms(5,6) by (auto simp: j)
  show ?thesis
    using j_outcome [OF inv] unfolding j N(1) d_written_def [symmetric] d_told_def [symmetric] j_copy_def .
qed

text \<open>Four bytes from the external memory to the local one.\<close>

definition axi_req_example :: axi_req where
  "axi_req_example = \<lparr>rq_is_write = False, rq_addr = 0, rq_size = 0, rq_transfer = 0, rq_ptr = 0, rq_data = [],
     rq_latency = 0, rq_payload = []\<rparr>"

definition axi_example :: axi where
  "axi_example = \<lparr>ax_nb_bursts = 2, ax_bursts = (\<lambda>_. axi_req_example), ax_free = [0, 1], ax_read_waiting = [],
     ax_waiting_ack = [], ax_read_timestamps = (\<lambda>_. 0), ax_pending = [], ax_pending_ack = [], ax_current_base = 0,
     ax_current_size = 0, ax_sent = [], ax_writes = [], ax_calls = []\<rparr>"

fun consumer_example :: "be_port \<Rightarrow> consumer" where
  "consumer_example Loc_be_read = Tcdm tcdm_example"
| "consumer_example Loc_be_write = Tcdm tcdm_example"
| "consumer_example Ext_be_read = Axi axi_example"
| "consumer_example Ext_be_write = Axi axi_example"

definition dma_example :: dma where
  "dma_example = \<lparr>d_be = be_example, d_ports = consumer_example\<rparr>"

definition copy_example :: be_transfer where
  "copy_example = \<lparr>bt_src = 0x1c000008, bt_dst = 0x10000100, bt_size = 4, bt_ack_size = 0\<rparr>"

definition run_example :: "dma_event list" where
  "run_example = [Be_turn, Port_turn Ext_be_read (Fsm (env_example 1)) (\<lambda>_. env_example 1)]"

lemmas copy_example_defs = dma_example_def be_example_def copy_example_def env_example_def run_example_def
  tcdm_example_def axi_example_def axi_req_example_def

lemma example_consumers:
  "get_be_consumer be_example 0x1c000008 4 True = Ext_be_read" "get_be_consumer be_example 0x10000100 4 False = Loc_be_write"
  "d_be dma_example = be_example" "d_ports dma_example = consumer_example"
  by (simp_all add: get_be_consumer_def be_example_def dma_example_def)

text \<open>The definitions a concrete run evaluates.\<close>

lemma example_burst: "be_gbs 0 Loc_be_write d (be_gbs 0 Ext_be_read 0x1c000008 4) = 4"
  by (simp add: axi_get_burst_size_def AXI_PAGE_SIZE_def next_boundary_def tcdm_get_burst_size_def Let_def)
lemmas be_run_defs = d_be_turn_def be_fsm_handler_def be_enqueue_transfer_def be_may_send_def d_env_def be_call_def
  be_is_ready_to_accept_data_def be_write_data_def be_ack_data_def be_update_def get_be_consumer_def
lemmas axi_run_defs = axi_can_accept_burst_def axi_read_burst_def axi_enqueue_burst_def axi_load_current_def axi_update_def
  axi_fsm_handler_def axi_fsm_send_def axi_fsm_push_def axi_send_read_burst_def axi_fill_def axi_read_handle_req_end_def
  axi_write_data_ack_def ax_call_def
lemma example_run:
  "map_option (\<lambda>s. (d_written Loc_be_write s, d_told 5 s)) (d_run (be_gbs 0) run_example (d_start 5 copy_example dma_example))
   = Some ([(0x100, 8), (0x101, 9), (0x102, 10), (0x103, 11)], 1)"
  by (simp add: run_example_def d_start_def copy_example_def dma_example_def be_example_def be_run_defs example_burst Let_def
    tcdm_run_defs axi_run_defs tcdm_example_def axi_example_def axi_req_example_def env_example_def
    d_port_turn_def d_turn_def d_written_def d_told_def d_update_calls_def addrs_def low_byte_def upt_rec del: be_gbs.simps)

lemma example_fits: "d_fits be_example copy_example"
  by (simp add: d_fits_def be_local_ok_def be_example_def copy_example_def be_enters_def)

lemma example_idle: "d_idle 0 0x10000000 low_byte Ext_be_read Loc_be_write dma_example"
  by (simp add: d_idle_def dma_example_def axi_reader_inv_def axi_reads_def axi_todo_def tcdm_writer_inv_def tcdm_wf_def
      tcdm_can_accept_data_def tcdm_space_def tcdm_todo_def tcdm_unacked_def axi_example_def tcdm_example_def)

lemma example_env:
  "d_run_env (be_gbs 0) 0 low_byte Ext_be_read Loc_be_write run_example (d_start 5 copy_example dma_example)"
  by (simp add: run_example_def d_start_def copy_example_def dma_example_def be_example_def be_run_defs example_burst Let_def
    tcdm_run_defs axi_run_defs tcdm_example_def axi_example_def axi_req_example_def env_example_def d_port_env_def
    split: option.split del: be_gbs.simps)

theorem idma_copies_witness:
  "\<exists>s'. d_run (be_gbs 0) run_example (d_start 5 copy_example dma_example) = Some s'
     \<and> d_written Loc_be_write s' = [(0x100, 8), (0x101, 9), (0x102, 10), (0x103, 11)] \<and> d_told 5 s' = 1
     \<and> (\<exists>n. d_written Loc_be_write s' = take n (zip (map (\<lambda>a. a - 0x10000000) (addrs 0x10000100 4))
           (map low_byte (addrs 0x1c000008 4)))
         \<and> n + length (c_pend (d_ports s' Loc_be_write)) + length (all_addrs (c_todo (d_ports s' Ext_be_read)))
             + unat (be_current_size (d_be s')) = 4
         \<and> d_told 5 s' = of_bool (n = 4 \<and> c_unacked (d_ports s' Loc_be_write) = []))"
proof -
  obtain s' where run: "d_run (be_gbs 0) run_example (d_start 5 copy_example dma_example) = Some s'"
    and obs: "d_written Loc_be_write s' = [(0x100, 8), (0x101, 9), (0x102, 10), (0x103, 11)]" "d_told 5 s' = 1"
    using example_run by auto
  have start: "d_written Loc_be_write dma_example = []" "d_told 5 dma_example = 0"
    by (simp_all add: d_written_def d_told_def example_consumers tcdm_example_def be_example_def)
  have ports: "Ext_be_read = get_be_consumer (d_be dma_example) (bt_src copy_example) (bt_size copy_example) True"
    "Loc_be_write = get_be_consumer (d_be dma_example) (bt_dst copy_example) (bt_size copy_example) False"
    by (simp_all add: example_consumers copy_example_def)
  have fits: "d_fits (d_be dma_example) copy_example" by (simp add: example_consumers example_fits)
  have copy: "bt_size copy_example = 4" "bt_src copy_example = 0x1c000008" "bt_dst copy_example = 0x10000100"
    by (simp_all add: copy_example_def)
  note idma_copies [OF fits ports example_idle example_env run, unfolded start copy append_Nil add_0]
  then show ?thesis using run obs by simp
qed

end
