(* ===== verification/Idma_Copy_Faults.thy ===== *)
theory Idma_Copy_Faults
  imports Idma_Copy_Correct
begin

section \<open>What a copy depends on\<close>

text \<open>
  The conditions of the copy theorem are needed. An interconnect that answers two reads in the other
  order swaps their data; a second transfer from the other source protocol overtakes the first while
  its responses are outstanding; a read that is refused as invalid is lost together with its slot; and
  a reset of the TCDM protocol leaves its bursts queued.
\<close>

subsection \<open>Reads answered out of order\<close>

definition env_pending :: "int \<Rightarrow> proto_env" where
  "env_pending now = (env_example now)\<lparr>pe_answer := (\<lambda>w a n. (IO_REQ_PENDING, 0))\<rparr>"

text \<open>Two bursts of two bytes are sent; the response to the second comes first.\<close>

definition order_run :: "dma_event list" where
  "order_run = [Be_turn, Be_turn,
     Port_turn Ext_be_read (Fsm (env_pending 1)) (\<lambda>_. env_example 1),
     Port_turn Ext_be_read (Fsm (env_pending 2)) (\<lambda>_. env_example 2),
     Port_turn Ext_be_read (Response (env_example 3) (Read_resp 1 0 (map low_byte [0x1c00000a, 0x1c00000b]))) (\<lambda>_. env_example 3),
     Port_turn Ext_be_read (Response (env_example 4) (Read_resp 0 0 (map low_byte [0x1c000008, 0x1c000009]))) (\<lambda>_. env_example 4),
     Port_turn Ext_be_read (Fsm (env_example 5)) (\<lambda>_. env_example 5),
     Port_turn Ext_be_read (Fsm (env_example 6)) (\<lambda>_. env_example 6)]"

lemma order_bursts:
  "be_gbs 2 Loc_be_write d (be_gbs 2 Ext_be_read 0x1c000008 4) = 2"
  "be_gbs 2 Loc_be_write d (be_gbs 2 Ext_be_read 0x1c00000a 2) = 2"
  by (simp_all add: axi_get_burst_size_def AXI_PAGE_SIZE_def next_boundary_def tcdm_get_burst_size_def Let_def)

lemmas dma_run_defs = d_start_def dma_example_def be_example_def be_run_defs tcdm_run_defs axi_run_defs
  tcdm_example_def axi_example_def axi_req_example_def env_example_def env_pending_def
  d_port_turn_def d_turn_def d_written_def d_told_def d_update_calls_def addrs_def low_byte_def

text \<open>
  Read responses must come in order. The AXI protocol pushes read data in the order of the responses,
  not of the bursts: for a transfer of two read bursts whose responses arrive in the other order, the
  data of the second burst is written where that of the first belongs and the other way round, and the
  middle-end is told that the transfer is done.
\<close>

theorem idma_axi_out_of_order_swaps:
  "\<exists>s. d_run (be_gbs 2) order_run (d_start 5 copy_example dma_example) = Some s \<and> d_told 5 s = 1
     \<and> d_written Loc_be_write s = zip (addrs 0x100 4) (map low_byte (addrs 0x1c00000a 2 @ addrs 0x1c000008 2))"
proof -
  have "map_option (\<lambda>s. (d_written Loc_be_write s, d_told 5 s)) (d_run (be_gbs 2) order_run (d_start 5 copy_example dma_example))
    = Some ([(0x100, 10), (0x101, 11), (0x102, 8), (0x103, 9)], 1)"
    by (simp add: order_run_def copy_example_def dma_run_defs order_bursts Let_def upt_rec del: be_gbs.simps)
  then show ?thesis by (auto simp: addrs_def low_byte_def upt_rec)
qed

subsection \<open>A change of the source protocol\<close>

text \<open>A second transfer, from the local memory.\<close>

definition switch_example :: be_transfer where
  "switch_example = \<lparr>bt_src = 0x10000200, bt_dst = 0x10000300, bt_size = 4, bt_ack_size = 0\<rparr>"

text \<open>The first read is sent and not answered yet; the response comes after a turn of the local reader.\<close>

definition switch_first :: "dma_event list" where
  "switch_first = [Be_turn, Port_turn Ext_be_read (Fsm (env_pending 1)) (\<lambda>_. env_example 1)]"

definition switch_second :: "dma_event list" where
  "switch_second = [Be_turn, Port_turn Loc_be_read (Fsm (env_example 2)) (\<lambda>_. env_example 2),
     Port_turn Ext_be_read (Response (env_example 3) (Read_resp 0 0 (map low_byte (addrs 0x1c000008 4)))) (\<lambda>_. env_example 3),
     Port_turn Ext_be_read (Fsm (env_example 4)) (\<lambda>_. env_example 4)]"

lemma switch_burst: "be_gbs 0 Loc_be_write d (be_gbs 0 Loc_be_read a n) = n"
  by (simp add: tcdm_get_burst_size_def)

text \<open>
  A change of the source protocol overtakes reads in flight. The back-end waits for the previous
  source protocol to be empty before it uses the other one, but the AXI protocol calls itself empty
  when its reads have been sent, not when their data is through: with the first transfer's read
  unanswered, the back-end accepts and starts a second transfer from the local memory to the same
  destination protocol, whose data is then written to the destination of the first transfer, and the
  data of the first to the destination of the second. The middle-end is told that both are done.
\<close>

theorem idma_source_switch_swaps:
  "\<exists>s1 s2. d_run (be_gbs 0) switch_first (d_start 5 copy_example dma_example) = Some s1
     \<and> be_can_accept_transfer (d_be s1) \<and> c_todo (d_ports s1 Ext_be_read) \<noteq> [] \<and> c_is_empty (d_ports s1 Ext_be_read)
     \<and> d_run (be_gbs 0) switch_second (d_start 6 switch_example s1) = Some s2 \<and> d_told 5 s2 = 1 \<and> d_told 6 s2 = 1
     \<and> d_written Loc_be_write s2 = zip (addrs 0x100 4) (map low_byte (addrs 0x200 4))
         @ zip (addrs 0x300 4) (map low_byte (addrs 0x1c000008 4))"
proof -
  have "map_option (\<lambda>s1. (be_can_accept_transfer (d_be s1), c_todo (d_ports s1 Ext_be_read), c_is_empty (d_ports s1 Ext_be_read),
       map_option (\<lambda>s2. (d_told 5 s2, d_told 6 s2, d_written Loc_be_write s2))
         (d_run (be_gbs 0) switch_second (d_start 6 switch_example s1))))
     (d_run (be_gbs 0) switch_first (d_start 5 copy_example dma_example))
    = Some (True, [(5, 0x1c000008, 4)], True, Some (1, 1,
        [(0x100, 0), (0x101, 1), (0x102, 2), (0x103, 3), (0x300, 8), (0x301, 9), (0x302, 10), (0x303, 11)]))"
    by (simp add: switch_first_def switch_second_def switch_example_def copy_example_def dma_run_defs example_burst
        switch_burst Let_def upt_rec be_can_accept_transfer_def axi_todo_def axi_reads_def axi_burst_of_def axi_is_empty_def del: be_gbs.simps)
  then show ?thesis by (auto simp: addrs_def low_byte_def upt_rec)
qed

subsection \<open>A read that is refused\<close>

text \<open>
  A refused read is lost. When the AXI interconnect answers the next read burst as invalid, the
  burst leaves the pending queue and goes nowhere: it is not free, not awaiting a response, not waiting
  to be pushed. Its bytes are never pushed, so the transfer never ends, and one burst fewer circulates
  from then on.
\<close>

theorem idma_axi_invalid_read_lost:
  assumes "axi_reader_inv mem s" and "ax_pending s = b # bs"
    and "fst (pe_answer e False (rq_addr (ax_bursts s b)) (rq_size (ax_bursts s b))) = IO_REQ_INVALID"
    and "t = axi_fsm_send e s"
  shows "axi_reads s = ax_read_waiting s @ ax_sent s @ b # bs \<and> axi_reads t = ax_read_waiting s @ ax_sent s @ bs
    \<and> b \<notin> set (ax_free t @ axi_reads t @ ax_waiting_ack t)
    \<and> length (ax_free t @ axi_reads t @ ax_waiting_ack t) + 1 = length (ax_free s @ axi_reads s @ ax_waiting_ack s)
    \<and> pushes (ax_calls t) = pushes (ax_calls s)"
proof -
  have d: "distinct (ax_free s @ axi_reads s @ ax_waiting_ack s)" and r: "\<not> rq_is_write (ax_bursts s b)"
    using assms(1,2) by (simp_all add: axi_reader_inv_def axi_reads_def)
  obtain lat where a: "pe_answer e False (rq_addr (ax_bursts s b)) (rq_size (ax_bursts s b)) = (IO_REQ_INVALID, lat)"
    using assms(3) by (metis prod.collapse)
  have t: "ax_free t = ax_free s" "ax_read_waiting t = ax_read_waiting s" "ax_sent t = ax_sent s" "ax_pending t = bs"
    "ax_waiting_ack t = ax_waiting_ack s" "pushes (ax_calls t) = pushes (ax_calls s)"
    using r by (simp_all add: assms(2,4) axi_fsm_send_def axi_send_read_burst_def Let_def a axi_update_def)
  then show ?thesis using d assms(2) by (auto simp: axi_reads_def)
qed

theorem idma_axi_invalid_read_lost_witness:
  "axi_reads (axi_fsm_send ((env_example 1)\<lparr>pe_answer := \<lambda>w a n. (IO_REQ_INVALID, 0)\<rparr>)
     (axi_read_burst 5 0x1c000008 4 axi_example)) = []"
proof -
  let ?s = "axi_read_burst 5 0x1c000008 4 axi_example"
  have "axi_reader_inv low_byte axi_example" "axi_can_accept_burst axi_example"
    by (simp_all add: axi_reader_inv_def axi_reads_def axi_todo_def axi_can_accept_burst_def axi_example_def)
  then have "axi_reader_inv low_byte ?s" using axi_reader.burst_law [of low_byte axi_example 4] by simp
  moreover have "ax_pending ?s = [0]" "ax_read_waiting ?s = []" "ax_sent ?s = []"
    by (simp_all add: axi_run_defs axi_example_def Let_def)
  ultimately show ?thesis
    using idma_axi_invalid_read_lost [of low_byte ?s 0 "[]" "(env_example 1)\<lparr>pe_answer := \<lambda>w a n. (IO_REQ_INVALID, 0)\<rparr>"]
    by simp
qed

subsection \<open>A reset in the middle of a burst\<close>

text \<open>
  A reset keeps the bursts of the TCDM protocol. Reset clears the current burst but not the queues
  behind it, so the first burst given after the reset revives what was queued before it: the protocol
  starts the oldest burst again, from its base and with its whole size, and the new burst is the last.
\<close>

theorem idma_tcdm_reset_revives_bursts:
  assumes "tcdm_wf s" and "tc_queue_size s \<noteq> []"
  shows "tcdm_todo (tcdm_enqueue_burst a n w i (tcdm_reset True s))
    = zip (tc_queue_transfer s) (zip (tc_queue_base s) (tc_queue_size s)) @ [(i, a, n)]"
proof -
  obtain b bs k ks j js where q: "tc_queue_base s = b # bs" "tc_queue_size s = k # ks" "tc_queue_transfer s = j # js"
    using assms by (cases "tc_queue_base s"; cases "tc_queue_size s"; cases "tc_queue_transfer s") (auto simp: tcdm_wf_def)
  then have l: "length bs = length ks" "length js = length ks" using assms(1) by (simp_all add: tcdm_wf_def)
  show ?thesis using l
    by (simp add: tcdm_todo_def tcdm_enqueue_burst_def tcdm_activate_burst_def tcdm_reset_def Let_def q)
qed

theorem idma_tcdm_reset_revives_bursts_witness:
  "tcdm_todo (tcdm_enqueue_burst 0x10000300 4 False 6 (tcdm_reset True
      (tcdm_enqueue_burst 0x10000100 8 False 5 tcdm_example))) = [(5, 0x10000100, 8), (6, 0x10000300, 4)]"
proof -
  let ?s = "tcdm_enqueue_burst 0x10000100 8 False 5 tcdm_example"
  have "tcdm_wf tcdm_example" by (simp add: tcdm_wf_def tcdm_example_def)
  then have "tcdm_wf ?s" by (rule tcdm_enqueue_wf) simp
  moreover have "tc_queue_size ?s = [8]" "tc_queue_base ?s = [0x10000100]" "tc_queue_transfer ?s = [5]"
    by (simp_all add: tcdm_run_defs tcdm_example_def Let_def)
  ultimately show ?thesis using idma_tcdm_reset_revives_bursts [of ?s] by simp
qed

end
