(* ===== verification/Idma_Fe_Nd.thy ===== *)
theory Idma_Fe_Nd
  imports Idma_Me
begin

section \<open>The register front-end of the PULP Open DMA (\<open>src/pulp/idma/fe/idma_fe_reg32_3d.cpp\<close>)\<close>

text \<open>
  \<open>IDmaFeReg32_3d\<close>: one register file per port, identifier counters per stream, and one queue of
  transfers that the middle-end has not taken yet. Reading \<open>NEXT_ID\<close> of a stream launches the transfer
  programmed on the port. How many more transfers the middle-end takes, its answers to
  \<open>can_accept_transfer\<close> in the loop of \<open>check_pending_queue\<close>, is the number \<open>room\<close>. Calls on the middle-end and
  the completion event, with the bound event lines, are appended to \<open>fn_calls\<close>. The configured counts
  are not negative.
\<close>

record fe_port =
  p_conf :: u32
  p_src :: u32
  p_dst :: u32
  p_length :: u32
  p_src_stride_2 :: u32
  p_dst_stride_2 :: u32
  p_reps_2 :: u32
  p_src_stride_3 :: u32
  p_dst_stride_3 :: u32
  p_reps_3 :: u32

record fe_stream =
  s_next_id :: u32
  s_done_id :: u32
  s_pending :: int

datatype fe_call = Me_enqueue transfer | Fe_event nat | Fe_event_pe nat | Fe_irq | Fe_grant u64

record fe_nd =
  fn_nb_streams :: nat
  fn_global_queue_depth :: nat
  fn_multireg_count :: nat
  fn_event_itf :: "bool list"
  fn_event_pe_itf :: "bool list"
  fn_ports :: "nat \<Rightarrow> fe_port"
  fn_streams :: "nat \<Rightarrow> fe_stream"
  fn_pending_queue :: "transfer list"
  fn_calls :: "fe_call list"

definition IDMA_CONFIG_2D :: u64 where
  "IDMA_CONFIG_2D = 2"

definition IDMA_CONFIG_3D :: u64 where
  "IDMA_CONFIG_3D = 4"

text \<open>The three registers per stream sit back to back, each with \<open>multireg_count\<close> entries.\<close>

definition fn_status_base :: "fe_nd \<Rightarrow> u64" where
  "fn_status_base s = 4"

definition fn_next_id_base :: "fe_nd \<Rightarrow> u64" where
  "fn_next_id_base s = fn_status_base s + 4 * of_nat (fn_multireg_count s)"

definition fn_done_id_base :: "fe_nd \<Rightarrow> u64" where
  "fn_done_id_base s = fn_next_id_base s + 4 * of_nat (fn_multireg_count s)"

definition upd_port :: "nat \<Rightarrow> (fe_port \<Rightarrow> fe_port) \<Rightarrow> fe_nd \<Rightarrow> fe_nd" where
  "upd_port p f s = s\<lparr>fn_ports := (fn_ports s)(p := f (fn_ports s p))\<rparr>"

definition upd_stream :: "nat \<Rightarrow> (fe_stream \<Rightarrow> fe_stream) \<Rightarrow> fe_nd \<Rightarrow> fe_nd" where
  "upd_stream i f s = s\<lparr>fn_streams := (fn_streams s)(i := f (fn_streams s i))\<rparr>"

text \<open>\<open>raise_event\<close>: every bound line of the cores, then of the PE ports.\<close>

definition fn_raise_event :: "fe_nd \<Rightarrow> fe_nd" where
  "fn_raise_event s =
     s\<lparr>fn_calls := fn_calls s
         @ map Fe_event (filter (\<lambda>i. fn_event_itf s ! i) [0..<length (fn_event_itf s)])
         @ map Fe_event_pe (filter (\<lambda>i. fn_event_pe_itf s ! i) [0..<length (fn_event_pe_itf s)])\<rparr>"

definition t_stream :: "transfer \<Rightarrow> nat" where
  "t_stream t = unat (t_data t ! 3)"

definition fn_ack_transfer :: "transfer \<Rightarrow> fe_nd \<Rightarrow> fe_nd" where
  "fn_ack_transfer t s =
     fn_raise_event (upd_stream (t_stream t) (\<lambda>x. x\<lparr>s_done_id := s_done_id x + 1, s_pending := s_pending x - 1\<rparr>) s)"

fun fn_check_pending_queue :: "nat \<Rightarrow> fe_nd \<Rightarrow> fe_nd" where
  "fn_check_pending_queue 0 s = s"
| "fn_check_pending_queue (Suc room) s =
     (case fn_pending_queue s of [] \<Rightarrow> s
      | t # ts \<Rightarrow> fn_check_pending_queue room (s\<lparr>fn_pending_queue := ts, fn_calls := fn_calls s @ [Me_enqueue t]\<rparr>))"

text \<open>The transfer that a port describes, for a stream.\<close>

definition fn_transfer :: "fe_port \<Rightarrow> nat \<Rightarrow> transfer" where
  "fn_transfer p i =
     (let enable_nd = drop_bit 10 (p_conf p) AND 3
      in \<lparr>t_src = ucast (p_src p), t_dst = ucast (p_dst p), t_size = ucast (p_length p),
          t_src_stride = ucast (p_src_stride_2 p), t_dst_stride = ucast (p_dst_stride_2 p),
          t_reps = ucast (p_reps_2 p),
          t_config = (if enable_nd \<ge> 1 then IDMA_CONFIG_2D else 0) OR (if enable_nd \<ge> 2 then IDMA_CONFIG_3D else 0),
          t_collective_op = 0, t_collective_mask = 0,
          t_data = [ucast (p_src_stride_3 p), ucast (p_dst_stride_3 p), ucast (p_reps_3 p), of_nat i]\<rparr>)"

definition fn_is_empty :: "transfer \<Rightarrow> bool" where
  "fn_is_empty t \<longleftrightarrow> t_size t = 0 \<or> (t_config t AND IDMA_CONFIG_2D \<noteq> 0 \<and> t_reps t = 0)
     \<or> (t_config t AND IDMA_CONFIG_3D \<noteq> 0 \<and> t_data t ! 2 = 0)"

definition fn_enqueue_copy :: "nat \<Rightarrow> nat \<Rightarrow> nat \<Rightarrow> fe_nd \<Rightarrow> u32 \<times> fe_nd" where
  "fn_enqueue_copy room p i s =
     (if length (fn_pending_queue s) \<ge> fn_global_queue_depth s then (0, s)
      else let transfer_id = s_next_id (fn_streams s i);
               s1 = upd_stream i (\<lambda>x. x\<lparr>s_next_id := transfer_id + 1\<rparr>) s;
               t = fn_transfer (fn_ports s1 p) i;
               s2 = upd_stream i (\<lambda>x. x\<lparr>s_pending := s_pending x + 1\<rparr>) s1
           in if fn_is_empty t then (transfer_id, fn_ack_transfer t s2)
              else (transfer_id, fn_check_pending_queue room (s2\<lparr>fn_pending_queue := fn_pending_queue s2 @ [t]\<rparr>)))"

definition fn_update :: "nat \<Rightarrow> fe_nd \<Rightarrow> fe_nd" where
  "fn_update room s = fn_check_pending_queue room s"

definition fn_reset :: "bool \<Rightarrow> fe_nd \<Rightarrow> fe_nd" where
  "fn_reset active s =
     (if active then s\<lparr>fn_pending_queue := [],
        fn_streams := (\<lambda>i. if i < fn_nb_streams s then (fn_streams s i)\<lparr>s_pending := 0\<rparr> else fn_streams s i)\<rparr> else s)"

text \<open>
  \<open>req\<close>: the registers per stream are looked for stream by stream, then the descriptor registers. The
  direction of the access is not looked at. The result is the status, the data of the request and the
  state.
\<close>

datatype fn_target = Next_id nat | Done_id nat | Status nat

fun fn_find_stream :: "nat \<Rightarrow> nat \<Rightarrow> u64 \<Rightarrow> fe_nd \<Rightarrow> fn_target option" where
  "fn_find_stream i 0 offset s = None"
| "fn_find_stream i (Suc n) offset s =
     (if offset = fn_next_id_base s + 4 * of_nat i then Some (Next_id i)
      else if offset = fn_done_id_base s + 4 * of_nat i then Some (Done_id i)
      else if offset = fn_status_base s + 4 * of_nat i then Some (Status i)
      else fn_find_stream (Suc i) n offset s)"

definition fn_set_register :: "nat \<Rightarrow> u64 \<Rightarrow> u32 \<Rightarrow> fe_nd \<Rightarrow> fe_nd option" where
  "fn_set_register p offset x s =
     (if offset = 0x000 then Some (upd_port p (p_conf_update (\<lambda>_. x)) s)
      else if offset = 0x0d0 then Some (upd_port p (p_dst_update (\<lambda>_. x)) s)
      else if offset = 0x0d8 then Some (upd_port p (p_src_update (\<lambda>_. x)) s)
      else if offset = 0x0e0 then Some (upd_port p (p_length_update (\<lambda>_. x)) s)
      else if offset = 0x0e8 then Some (upd_port p (p_dst_stride_2_update (\<lambda>_. x)) s)
      else if offset = 0x0f0 then Some (upd_port p (p_src_stride_2_update (\<lambda>_. x)) s)
      else if offset = 0x0f8 then Some (upd_port p (p_reps_2_update (\<lambda>_. x)) s)
      else if offset = 0x100 then Some (upd_port p (p_dst_stride_3_update (\<lambda>_. x)) s)
      else if offset = 0x108 then Some (upd_port p (p_src_stride_3_update (\<lambda>_. x)) s)
      else if offset = 0x110 then Some (upd_port p (p_reps_3_update (\<lambda>_. x)) s)
      else None)"

definition fn_req :: "nat \<Rightarrow> nat \<Rightarrow> u64 \<Rightarrow> u64 \<Rightarrow> u32 \<Rightarrow> fe_nd \<Rightarrow> io_status \<times> u32 \<times> fe_nd" where
  "fn_req room p offset sz x s =
     (if sz \<noteq> 4 then (IO_REQ_INVALID, x, s)
      else case fn_find_stream 0 (fn_nb_streams s) offset s of
        Some (Next_id i) \<Rightarrow> (let (transfer_id, s1) = fn_enqueue_copy room p i s in (IO_REQ_OK, transfer_id, s1))
      | Some (Done_id i) \<Rightarrow> (IO_REQ_OK, s_done_id (fn_streams s i), s)
      | Some (Status i) \<Rightarrow> (IO_REQ_OK, of_bool (s_pending (fn_streams s i) > 0), s)
      | None \<Rightarrow> (case fn_set_register p offset x s of
            Some s1 \<Rightarrow> (IO_REQ_OK, x, s1)
          | None \<Rightarrow> (IO_REQ_INVALID, x, s)))"

end
