(* ===== verification/Idma_Fe_Nd_Ids.thy ===== *)
theory Idma_Fe_Nd_Ids
  imports Idma_Fe_Nd
begin

section \<open>Launches, identifiers and completions of the register front-end\<close>

text \<open>
  Runs of the front-end: register accesses by the cores, completions by the middle-end of transfers it
  was given, and the middle-end becoming ready. Beside the front-end's state a run keeps the transfers
  given to the middle-end and not completed.
\<close>

fun given :: "fe_call list \<Rightarrow> transfer list" where
  "given [] = []"
| "given (Me_enqueue t # cs) = t # given cs"
| "given (_ # cs) = given cs"

lemma given_append [simp]: "given (cs @ ds) = given cs @ given ds"
  by (induction cs rule: given.induct) simp_all

lemma given_events [simp]: "given (map Fe_event is) = []" "given (map Fe_event_pe is) = []"
  by (induction "is") simp_all

datatype fn_event = Fn_access nat nat u64 u64 u32 | Fn_done transfer | Fn_ready nat

definition fn_given :: "fe_nd \<Rightarrow> fe_nd \<Rightarrow> transfer list" where
  "fn_given s s' = drop (length (given (fn_calls s))) (given (fn_calls s'))"

fun fn_step :: "fn_event \<Rightarrow> fe_nd \<times> transfer list \<Rightarrow> fe_nd \<times> transfer list" where
  "fn_step (Fn_access room p offset sz x) (s, out) =
     (let s' = snd (snd (fn_req room p offset sz x s)) in (s', out @ fn_given s s'))"
| "fn_step (Fn_done t) (s, out) = (if t \<in> set out then (fn_ack_transfer t s, remove1 t out) else (s, out))"
| "fn_step (Fn_ready room) (s, out) = (let s' = fn_update room s in (s', out @ fn_given s s'))"

definition fn_run :: "fn_event list \<Rightarrow> fe_nd \<times> transfer list \<Rightarrow> fe_nd \<times> transfer list" where
  "fn_run es c = fold fn_step es c"

subsection \<open>The operations\<close>

lemma fn_check_obs:
  "given (fn_calls (fn_check_pending_queue room s)) @ fn_pending_queue (fn_check_pending_queue room s)
     = given (fn_calls s) @ fn_pending_queue s"
  "\<exists>ts. given (fn_calls (fn_check_pending_queue room s)) = given (fn_calls s) @ ts
     \<and> fn_pending_queue s = ts @ fn_pending_queue (fn_check_pending_queue room s)"
  by (induction room s rule: fn_check_pending_queue.induct) (auto split: list.splits)

lemma fn_check_frame [simp]:
  "fn_streams (fn_check_pending_queue room s) = fn_streams s" "fn_ports (fn_check_pending_queue room s) = fn_ports s"
  "fn_nb_streams (fn_check_pending_queue room s) = fn_nb_streams s"
  "fn_global_queue_depth (fn_check_pending_queue room s) = fn_global_queue_depth s"
  by (induction room s rule: fn_check_pending_queue.induct) (auto split: list.splits)

lemma fn_ack_frame [simp]:
  "given (fn_calls (fn_ack_transfer t s)) = given (fn_calls s)" "fn_pending_queue (fn_ack_transfer t s) = fn_pending_queue s"
  "fn_ports (fn_ack_transfer t s) = fn_ports s" "fn_nb_streams (fn_ack_transfer t s) = fn_nb_streams s"
  "fn_global_queue_depth (fn_ack_transfer t s) = fn_global_queue_depth s"
  "fn_streams (fn_ack_transfer t s) = (fn_streams s)(t_stream t := (fn_streams s (t_stream t))
     \<lparr>s_done_id := s_done_id (fn_streams s (t_stream t)) + 1, s_pending := s_pending (fn_streams s (t_stream t)) - 1\<rparr>)"
  by (simp_all add: fn_ack_transfer_def fn_raise_event_def upd_stream_def)

lemma t_stream_transfer: "i < 2 ^ 64 \<Longrightarrow> t_stream (fn_transfer p i) = i"
  by (simp add: t_stream_def fn_transfer_def Let_def take_bit_nat_eq_self_iff unat_of_nat)

lemma fn_find_stream_bound: "fn_find_stream i n offset s = Some (Next_id k) \<Longrightarrow> k < i + n"
  by (induction i n offset s rule: fn_find_stream.induct) (auto split: if_splits)

lemma fn_set_frame:
  "fn_set_register p offset x s = Some s' \<Longrightarrow> fn_calls s' = fn_calls s \<and> fn_pending_queue s' = fn_pending_queue s
     \<and> fn_streams s' = fn_streams s \<and> fn_nb_streams s' = fn_nb_streams s \<and> fn_global_queue_depth s' = fn_global_queue_depth s"
  by (auto simp: fn_set_register_def upd_port_def split: if_splits)

text \<open>What a launch adds to the transfers accepted.\<close>

definition fn_launch :: "nat \<Rightarrow> nat \<Rightarrow> fe_nd \<Rightarrow> transfer list" where
  "fn_launch p i s = (if length (fn_pending_queue s) < fn_global_queue_depth s \<and> \<not> fn_is_empty (fn_transfer (fn_ports s p) i)
     then [fn_transfer (fn_ports s p) i] else [])"

lemma fn_enqueue_obs:
  assumes "fn_enqueue_copy room p i s = (r, s')"
  shows "given (fn_calls s') @ fn_pending_queue s' = given (fn_calls s) @ fn_pending_queue s @ fn_launch p i s"
    and "\<exists>ts. given (fn_calls s') = given (fn_calls s) @ ts"
    and "length (fn_pending_queue s) \<le> fn_global_queue_depth s \<Longrightarrow> length (fn_pending_queue s') \<le> fn_global_queue_depth s'"
    and "fn_nb_streams s' = fn_nb_streams s" and "fn_global_queue_depth s' = fn_global_queue_depth s"
proof -
  let ?t = "fn_transfer (fn_ports s p) i"
  define u where "u = upd_stream i (\<lambda>x. x\<lparr>s_pending := s_pending x + 1\<rparr>)
    (upd_stream i (\<lambda>x. x\<lparr>s_next_id := s_next_id (fn_streams s i) + 1\<rparr>) s)"
  have u: "fn_calls u = fn_calls s" "fn_pending_queue u = fn_pending_queue s" "fn_nb_streams u = fn_nb_streams s"
    "fn_global_queue_depth u = fn_global_queue_depth s" "fn_ports u = fn_ports s"
    by (simp_all add: u_def upd_stream_def)
  consider (full) "fn_global_queue_depth s \<le> length (fn_pending_queue s)" "s' = s"
    | (nil) "length (fn_pending_queue s) < fn_global_queue_depth s" "fn_is_empty ?t" "s' = fn_ack_transfer ?t u"
    | (room) "length (fn_pending_queue s) < fn_global_queue_depth s" "\<not> fn_is_empty ?t"
        "s' = fn_check_pending_queue room (u\<lparr>fn_pending_queue := fn_pending_queue s @ [?t]\<rparr>)"
    using assms by (auto simp: fn_enqueue_copy_def Let_def u_def upd_stream_def split: if_splits)
  note cases = this
  let ?v = "u\<lparr>fn_pending_queue := fn_pending_queue s @ [?t]\<rparr>"
  show "given (fn_calls s') @ fn_pending_queue s' = given (fn_calls s) @ fn_pending_queue s @ fn_launch p i s"
    using cases fn_check_obs(1) [of room ?v] by cases (simp_all add: fn_launch_def u)
  show "\<exists>ts. given (fn_calls s') = given (fn_calls s) @ ts"
    using cases fn_check_obs(2) [of room ?v] by cases (auto simp: u)
  have len: "length (fn_pending_queue (fn_check_pending_queue room ?v)) \<le> length (fn_pending_queue ?v)"
    using fn_check_obs(2) [of room ?v] by (metis le_add2 length_append)
  show "length (fn_pending_queue s') \<le> fn_global_queue_depth s'" if "length (fn_pending_queue s) \<le> fn_global_queue_depth s"
    using cases that len by cases (simp_all add: u)
  show "fn_nb_streams s' = fn_nb_streams s" "fn_global_queue_depth s' = fn_global_queue_depth s"
    using cases by (cases; simp add: u)+
qed

subsection \<open>The order of the transfers\<close>

text \<open>The transfers that an event launches: the access reads \<open>NEXT_ID\<close>, there is room, and there is data to move.\<close>

fun fn_launched :: "fn_event \<Rightarrow> fe_nd \<Rightarrow> transfer list" where
  "fn_launched (Fn_access room p offset sz x) s =
     (if sz = 4 then case fn_find_stream 0 (fn_nb_streams s) offset s of Some (Next_id i) \<Rightarrow> fn_launch p i s | _ \<Rightarrow> [] else [])"
| "fn_launched _ s = []"

fun fn_accepted :: "fn_event list \<Rightarrow> fe_nd \<times> transfer list \<Rightarrow> transfer list" where
  "fn_accepted [] c = []"
| "fn_accepted (e # es) c = fn_launched e (fst c) @ fn_accepted es (fn_step e c)"

lemma fn_req_cases:
  assumes "fn_req room p offset sz x s = (st, y, s')"
  obtains (none) "given (fn_calls s') = given (fn_calls s)" "fn_pending_queue s' = fn_pending_queue s"
      "fn_streams s' = fn_streams s" "fn_nb_streams s' = fn_nb_streams s" "fn_global_queue_depth s' = fn_global_queue_depth s"
      "fn_launched (Fn_access room p offset sz x) s = []"
    | (launch) i where "sz = 4" "i < fn_nb_streams s" "fn_enqueue_copy room p i s = (y, s')"
      "fn_launched (Fn_access room p offset sz x) s = fn_launch p i s"
proof (cases "sz = 4 \<and> (\<exists>i. fn_find_stream 0 (fn_nb_streams s) offset s = Some (Next_id i))")
  case True
  then obtain i where "sz = 4" "fn_find_stream 0 (fn_nb_streams s) offset s = Some (Next_id i)" by auto
  then show ?thesis using assms fn_find_stream_bound [of 0 "fn_nb_streams s" offset s i]
    by (intro launch [of i]) (auto simp: fn_req_def split: prod.splits)
next
  case False
  then show ?thesis using assms fn_set_frame [of p offset x s s']
    by (intro none) (auto simp: fn_req_def split: if_splits option.splits fn_target.splits)
qed

lemma fn_step_order:
  assumes "fn_step e (s, out) = (s', out')"
  shows "given (fn_calls s') @ fn_pending_queue s' = given (fn_calls s) @ fn_pending_queue s @ fn_launched e s"
    and "length (fn_pending_queue s) \<le> fn_global_queue_depth s \<Longrightarrow> length (fn_pending_queue s') \<le> fn_global_queue_depth s'"
proof (atomize (full), cases e)
  case (Fn_access room p offset sz x)
  obtain st y where r: "fn_req room p offset sz x s = (st, y, s')"
    using assms by (cases "fn_req room p offset sz x s") (auto simp: Fn_access Let_def)
  then show "given (fn_calls s') @ fn_pending_queue s' = given (fn_calls s) @ fn_pending_queue s @ fn_launched e s \<and>
      (length (fn_pending_queue s) \<le> fn_global_queue_depth s \<longrightarrow> length (fn_pending_queue s') \<le> fn_global_queue_depth s')"
    unfolding Fn_access by (rule fn_req_cases) (use fn_enqueue_obs in auto)
next
  case (Fn_done t)
  then show "given (fn_calls s') @ fn_pending_queue s' = given (fn_calls s) @ fn_pending_queue s @ fn_launched e s \<and>
      (length (fn_pending_queue s) \<le> fn_global_queue_depth s \<longrightarrow> length (fn_pending_queue s') \<le> fn_global_queue_depth s')"
    using assms by (auto split: if_splits)
next
  case (Fn_ready room)
  have "length (fn_pending_queue (fn_check_pending_queue room s)) \<le> length (fn_pending_queue s)"
    using fn_check_obs(2) [of room s] by (metis le_add2 length_append)
  then show "given (fn_calls s') @ fn_pending_queue s' = given (fn_calls s) @ fn_pending_queue s @ fn_launched e s \<and>
      (length (fn_pending_queue s) \<le> fn_global_queue_depth s \<longrightarrow> length (fn_pending_queue s') \<le> fn_global_queue_depth s')"
    using assms fn_check_obs(1) [of room s] by (auto simp: Fn_ready Let_def fn_update_def)
qed

text \<open>
  The front-end is a bounded queue of the launched transfers. In every run, the transfers given to
  the middle-end followed by those that wait are those of before followed by the transfers launched, in
  the order of the launches, each with the values its port had then: none is lost, repeated or
  overtaken, whatever ports and streams they come from. The queue never holds more than its depth.
\<close>

theorem idma_fe_nd_in_order:
  assumes "fn_run es (s, out) = (s', out')" and "length (fn_pending_queue s) \<le> fn_global_queue_depth s"
  shows "given (fn_calls s') @ fn_pending_queue s' = given (fn_calls s) @ fn_pending_queue s @ fn_accepted es (s, out)
    \<and> length (fn_pending_queue s') \<le> fn_global_queue_depth s'"
  using assms
proof (induction es arbitrary: s out)
  case (Cons e es)
  obtain u o' where u: "fn_step e (s, out) = (u, o')" by fastforce
  with Cons.prems(1) have "fn_run es (u, o') = (s', out')" by (simp add: fn_run_def)
  then show ?case using Cons.IH [of u o'] fn_step_order [OF u] Cons.prems(2) by (simp add: u)
qed (simp add: fn_run_def)

text \<open>
  A front-end of two streams with a queue of one transfer; the port describes a plain copy of 16 bytes.
  Two launches, one taken at once; a third is refused; then the middle-end takes the second.
\<close>

definition port_example :: fe_port where
  "port_example = \<lparr>p_conf = 0, p_src = 0x1c000000, p_dst = 0x10000000, p_length = 16, p_src_stride_2 = 0, p_dst_stride_2 = 0,
     p_reps_2 = 0, p_src_stride_3 = 0, p_dst_stride_3 = 0, p_reps_3 = 0\<rparr>"

definition fe_nd_example :: fe_nd where
  "fe_nd_example = \<lparr>fn_nb_streams = 2, fn_global_queue_depth = 1, fn_multireg_count = 2, fn_event_itf = [True], fn_event_pe_itf = [],
     fn_ports = (\<lambda>_. port_example), fn_streams = (\<lambda>_. \<lparr>s_next_id = 1, s_done_id = 0, s_pending = 0\<rparr>), fn_pending_queue = [],
     fn_calls = []\<rparr>"

definition fn_events_example :: "fn_event list" where
  "fn_events_example = [Fn_access 1 0 12 4 0, Fn_access 0 0 16 4 0, Fn_access 0 1 12 4 0, Fn_ready 1,
     Fn_done (fn_transfer port_example 0)]"

lemma transfer_example: "\<not> fn_is_empty (fn_transfer port_example i)"
  by (simp add: fn_is_empty_def fn_transfer_def port_example_def)

lemma fn_find_two: "fn_find_stream 0 2 offset s = fn_find_stream 0 (Suc (Suc 0)) offset s"
  by (simp add: numeral_2_eq_2)

lemmas fn_run_defs = fn_run_def fn_req_def fn_next_id_base_def fn_done_id_base_def fn_status_base_def
  fn_enqueue_copy_def fn_update_def upd_stream_def fn_given_def Let_def
  fn_ack_transfer_def fn_raise_event_def t_stream_transfer transfer_example fn_find_two

lemma fe_nd_example_run:
  "\<exists>s. fn_run fn_events_example (fe_nd_example, []) = (s, [fn_transfer port_example 1])
    \<and> fn_pending_queue s = [] \<and> given (fn_calls s) = map (fn_transfer port_example) [0, 1]"
  by (simp add: fn_events_example_def fe_nd_example_def fn_run_defs)

theorem idma_fe_nd_in_order_witness:
  "\<exists>s'. fst (fn_run fn_events_example (fe_nd_example, [])) = s'
     \<and> given (fn_calls s') @ fn_pending_queue s' = fn_accepted fn_events_example (fe_nd_example, [])
     \<and> fn_accepted fn_events_example (fe_nd_example, []) = map (fn_transfer port_example) [0, 1]"
  using idma_fe_nd_in_order [of fn_events_example fe_nd_example "[]"] fe_nd_example_run
  by (auto simp: fe_nd_example_def)

subsection \<open>The identifiers\<close>

definition of_stream :: "nat \<Rightarrow> transfer list \<Rightarrow> nat" where
  "of_stream i ts = length (filter (\<lambda>t. t_stream t = i) ts)"

lemma of_stream_simps [simp]:
  "of_stream i [] = 0" "of_stream i (t # ts) = (if t_stream t = i then 1 else 0) + of_stream i ts"
  "of_stream i (ts @ us) = of_stream i ts + of_stream i us"
  by (simp_all add: of_stream_def)

lemma of_stream_remove1: "t \<in> set ts \<Longrightarrow> of_stream i ts = (if t_stream t = i then 1 else 0) + of_stream i (remove1 t ts)"
  by (induction ts) auto

text \<open>
  What the counters of a stream say: the pending transfers are those that wait and those the middle-end
  has not completed, and they are what separates the two identifiers.
\<close>

definition stream_counts :: "fe_stream \<Rightarrow> nat \<Rightarrow> bool" where
  "stream_counts x n \<longleftrightarrow> s_pending x = int n \<and> s_next_id x - s_done_id x = 1 + of_nat n"

definition fn_ids_ok :: "fe_nd \<Rightarrow> transfer list \<Rightarrow> bool" where
  "fn_ids_ok s out \<longleftrightarrow> (\<forall>i < fn_nb_streams s. stream_counts (fn_streams s i) (of_stream i out + of_stream i (fn_pending_queue s)))"

lemma stream_counts_launch:
  "stream_counts x n \<Longrightarrow> stream_counts (x\<lparr>s_next_id := s_next_id x + 1, s_pending := s_pending x + 1\<rparr>) (Suc n)"
  by (simp add: stream_counts_def algebra_simps)

lemma stream_counts_done:
  "stream_counts x (Suc n) \<Longrightarrow> stream_counts (x\<lparr>s_done_id := s_done_id x + 1, s_pending := s_pending x - 1\<rparr>) n"
  by (simp add: stream_counts_def algebra_simps)

lemma fn_enqueue_streams:
  assumes "fn_enqueue_copy room p i s = (r, s')" "i < 2 ^ 64" "stream_counts (fn_streams s k) n"
  shows "stream_counts (fn_streams s' k) (n + of_stream k (fn_launch p i s))"
  using assms stream_counts_launch [of "fn_streams s i" n]
    stream_counts_done [of "(fn_streams s i)\<lparr>s_next_id := s_next_id (fn_streams s i) + 1, s_pending := s_pending (fn_streams s i) + 1\<rparr>" n]
  by (auto simp: fn_enqueue_copy_def fn_launch_def t_stream_transfer upd_stream_def Let_def split: if_splits)

lemma fn_given_launch:
  assumes "given (fn_calls s') @ fn_pending_queue s' = given (fn_calls s) @ fn_pending_queue s @ l"
    and "\<exists>ts. given (fn_calls s') = given (fn_calls s) @ ts"
  shows "of_stream i (fn_given s s') + of_stream i (fn_pending_queue s') = of_stream i (fn_pending_queue s) + of_stream i l"
proof -
  obtain ts where "given (fn_calls s') = given (fn_calls s) @ ts" using assms(2) by blast
  then have "fn_given s s' @ fn_pending_queue s' = fn_pending_queue s @ l" using assms(1) by (simp add: fn_given_def)
  then show ?thesis by (metis of_stream_simps(3))
qed

lemma fn_step_ids:
  assumes "fn_step e (s, out) = (s', out')" "fn_ids_ok s out" "fn_nb_streams s < 2 ^ 31"
  shows "fn_ids_ok s' out'" and "fn_nb_streams s' = fn_nb_streams s"
proof (atomize (full), cases e)
  case (Fn_access room p offset sz x)
  obtain st y where r: "fn_req room p offset sz x s = (st, y, s')" and out: "out' = out @ fn_given s s'"
    using assms(1) by (cases "fn_req room p offset sz x s") (auto simp: Fn_access Let_def)
  from r show "fn_ids_ok s' out' \<and> fn_nb_streams s' = fn_nb_streams s"
  proof (cases rule: fn_req_cases)
    case none
    then show ?thesis using assms(2) by (simp add: out fn_given_def fn_ids_ok_def)
  next
    case (launch i)
    note obs = fn_enqueue_obs [OF launch(3)]
    have i: "i < 2 ^ 64" using launch(2) assms(3) by simp
    show ?thesis
      using assms(2) fn_enqueue_streams [OF launch(3) i] fn_given_launch [OF obs(1,2)] obs(4)
      by (simp add: out fn_ids_ok_def add.assoc) (metis add.assoc)
  qed
next
  case (Fn_done t)
  then show "fn_ids_ok s' out' \<and> fn_nb_streams s' = fn_nb_streams s"
    using assms(1,2) of_stream_remove1 [of t out] stream_counts_done by (auto simp: fn_ids_ok_def split: if_splits)
next
  case (Fn_ready room)
  have "given (fn_calls s') @ fn_pending_queue s' = given (fn_calls s) @ fn_pending_queue s @ []"
    "\<exists>ts. given (fn_calls s') = given (fn_calls s) @ ts" and s': "s' = fn_check_pending_queue room s" "out' = out @ fn_given s s'"
    using assms(1) fn_check_obs [of room s] by (auto simp: Fn_ready Let_def fn_update_def)
  from fn_given_launch [OF this(1,2)] show "fn_ids_ok s' out' \<and> fn_nb_streams s' = fn_nb_streams s"
    using assms(2) by (simp add: s' fn_ids_ok_def add.assoc)
qed

text \<open>
  The identifiers of a stream count its transfers. In every run from the state after construction, the
  pending count of a stream is the number of its transfers that wait in the queue or are in the
  middle-end, and the next identifier is the completed one plus one plus that number (modulo the 32
  bits of the registers): software that waits until the completed identifier reaches its own sees it
  when nothing of the stream is left, and the status register reads 0 only then.
\<close>

theorem idma_fe_nd_ids:
  assumes "fn_run es (s, []) = (s', out)" and "fn_nb_streams s < 2 ^ 31" and "fn_pending_queue s = []"
    and "\<forall>i < fn_nb_streams s. fn_streams s i = \<lparr>s_next_id = 1, s_done_id = 0, s_pending = 0\<rparr>" and "i < fn_nb_streams s"
  shows "s_pending (fn_streams s' i) = int (of_stream i (out @ fn_pending_queue s'))
    \<and> s_next_id (fn_streams s' i) = s_done_id (fn_streams s' i) + 1 + of_nat (of_stream i (out @ fn_pending_queue s'))"
proof -
  have run: "fn_ids_ok s' q' \<and> fn_nb_streams s' = fn_nb_streams u"
    if "fn_run es (u, q) = (s', q')" "fn_ids_ok u q" "fn_nb_streams u < 2 ^ 31" for u q q'
    using that
  proof (induction es arbitrary: u q)
    case (Cons e es)
    obtain v w where v: "fn_step e (u, q) = (v, w)" by fastforce
    with Cons.prems(1) have "fn_run es (v, w) = (s', q')" by (simp add: fn_run_def)
    then show ?case using Cons.IH [of v w] fn_step_ids [OF v Cons.prems(2,3)] Cons.prems(3) by simp
  qed (simp add: fn_run_def)
  have "fn_ids_ok s []" using assms(3,4) by (simp add: fn_ids_ok_def stream_counts_def)
  from run [OF assms(1) this assms(2)] have "stream_counts (fn_streams s' i) (of_stream i (out @ fn_pending_queue s'))"
    using assms(5) by (simp add: fn_ids_ok_def)
  then show ?thesis by (simp add: stream_counts_def algebra_simps)
qed

theorem idma_fe_nd_ids_witness:
  "\<exists>s'. fst (fn_run fn_events_example (fe_nd_example, [])) = s' \<and> s_pending (fn_streams s' 1) = 1
     \<and> s_next_id (fn_streams s' 1) = s_done_id (fn_streams s' 1) + 2"
  using idma_fe_nd_ids [of fn_events_example fe_nd_example _ _ 1] fe_nd_example_run
  by (auto simp: t_stream_transfer) (auto simp: fe_nd_example_def)

subsection \<open>Empty transfers\<close>

text \<open>
  An empty transfer completes before the ones launched before it on its stream. When the middle-end
  still has transfers of a stream, or some wait in the queue, launching an empty one there completes it
  at once, and the completed identifier becomes the one of the oldest transfer that still runs: software
  that polls for that identifier takes a running copy for finished.
\<close>

theorem idma_fe_nd_empty_overtakes:
  assumes "fn_ids_ok s out" and "i < fn_nb_streams s" and "fn_nb_streams s < 2 ^ 31"
    and "length (fn_pending_queue s) < fn_global_queue_depth s" and "fn_is_empty (fn_transfer (fn_ports s p) i)"
    and "of_stream i (out @ fn_pending_queue s) = n" and "fn_enqueue_copy room p i s = (r, s')"
  shows "r = s_next_id (fn_streams s i) \<and> fn_ids_ok s' out \<and> of_stream i (out @ fn_pending_queue s') = n
    \<and> s_done_id (fn_streams s' i) = s_next_id (fn_streams s i) - of_nat n"
proof -
  have i: "i < 2 ^ 64" using assms(2,3) by simp
  have q: "fn_pending_queue s' = fn_pending_queue s" "r = s_next_id (fn_streams s i)" "given (fn_calls s') = given (fn_calls s)"
    and d: "s_done_id (fn_streams s' i) = s_done_id (fn_streams s i) + 1"
    using assms(4,5,7) i by (auto simp: fn_enqueue_copy_def upd_stream_def t_stream_transfer Let_def)
  have "fn_launch p i s = []" using assms(5) by (simp add: fn_launch_def)
  then have ok: "fn_ids_ok s' out"
    using assms(1) fn_enqueue_streams [OF assms(7) i] fn_enqueue_obs(4) [OF assms(7)] by (simp add: fn_ids_ok_def q)
  have "s_done_id (fn_streams s i) + 1 = s_next_id (fn_streams s i) - of_nat n"
    using assms(1,2,6) by (auto simp: fn_ids_ok_def stream_counts_def algebra_simps)
  then show ?thesis using assms(6) ok q d by simp
qed

text \<open>Stream 0 has transfer 1 in the middle-end; port 1 describes a transfer of no bytes.\<close>

definition overtake_example :: fe_nd where
  "overtake_example = fe_nd_example\<lparr>fn_ports := (\<lambda>p. if p = 1 then port_example\<lparr>p_length := 0\<rparr> else port_example),
     fn_streams := (\<lambda>i. if i = 0 then \<lparr>s_next_id = 2, s_done_id = 0, s_pending = 1\<rparr>
                          else \<lparr>s_next_id = 1, s_done_id = 0, s_pending = 0\<rparr>)\<rparr>"

theorem idma_fe_nd_empty_overtakes_witness:
  "\<exists>r s'. fn_enqueue_copy 0 1 0 overtake_example = (r, s') \<and> r = 2 \<and> s_done_id (fn_streams s' 0) = 1
     \<and> fn_ids_ok s' [fn_transfer port_example 0]"
proof -
  obtain r s' where e: "fn_enqueue_copy 0 1 0 overtake_example = (r, s')" by fastforce
  have "fn_ids_ok overtake_example [fn_transfer port_example 0]"
    by (auto simp: fn_ids_ok_def stream_counts_def t_stream_transfer overtake_example_def fe_nd_example_def)
  moreover have "fn_is_empty (fn_transfer (fn_ports overtake_example 1) 0)"
    by (simp add: overtake_example_def fn_is_empty_def fn_transfer_def Let_def)
  moreover have "fn_nb_streams overtake_example = 2" "fn_pending_queue overtake_example = []"
    "fn_global_queue_depth overtake_example = 1" "s_next_id (fn_streams overtake_example 0) = 2"
    by (simp_all add: overtake_example_def fe_nd_example_def)
  ultimately show ?thesis
    using idma_fe_nd_empty_overtakes [of overtake_example "[fn_transfer port_example 0]" 0 1 1 0 r s'] e
    by (simp add: t_stream_transfer)
qed

end
