(* ===== verification/Idma_Fe.thy ===== *)
theory Idma_Fe
  imports Idma_Fe_Nd_Ids
begin

section \<open>The single-slot front-ends of the DMA (\<open>src/pulp/idma/fe/idma_fe_reg.cpp\<close>, \<open>_xdma.cpp\<close>, \<open>_cheshire.cpp\<close>)\<close>

text \<open>
  \<open>IDmaFeReg\<close>: 32-bit registers of a PULP cluster; \<open>IDmaFeXdma\<close>: instructions that a Snitch core offloads;
  \<open>IDmaFeCheshire\<close>: 64-bit registers. Each keeps at most one transfer that the middle-end did not take, in
  \<open>stalled_transfer\<close>, valid when \<open>do_transfer_grant\<close> is set. The answer of the middle-end to the one
  \<open>can_accept_transfer\<close> an operation asks is the argument \<open>acc\<close>. The field \<open>t_data\<close> is the vector of the
  transfer, which these front-ends leave empty. The flag \<open>granted\<close> of \<open>IDmaFeReg::req\<close> only chooses a warning
  and is left out; the grant ports are bound.
\<close>

text \<open>The test of the three \<open>enqueue_copy\<close> for a transfer that moves nothing.\<close>

definition fe_is_null :: "transfer \<Rightarrow> bool" where
  "fe_is_null t \<longleftrightarrow> t_size t = 0 \<or> (drop_bit 1 (t_config t) AND 1 \<noteq> 0 \<and> t_reps t = 0)"

subsection \<open>The register front-end\<close>

record fe_reg =
  fr_src :: u64
  fr_dst :: u64
  fr_length :: u64
  fr_src_stride :: u64
  fr_dst_stride :: u64
  fr_reps :: u32
  fr_next_transfer_id :: u32
  fr_completed_id :: u32
  fr_do_transfer_grant :: bool
  fr_stalled_transfer :: transfer
  fr_irq_bound :: bool
  fr_calls :: "fe_call list"

definition fr_transfer :: "fe_reg \<Rightarrow> transfer" where
  "fr_transfer s = \<lparr>t_src = fr_src s, t_dst = fr_dst s, t_size = fr_length s, t_src_stride = fr_src_stride s,
     t_dst_stride = fr_dst_stride s, t_reps = ucast (fr_reps s), t_config = push_bit 1 1, t_collective_op = 0,
     t_collective_mask = 0, t_data = []\<rparr>"

definition fr_ack_transfer :: "fe_reg \<Rightarrow> fe_reg" where
  "fr_ack_transfer s =
     (let s1 = s\<lparr>fr_completed_id := fr_completed_id s + 1\<rparr>
      in if fr_irq_bound s1 then s1\<lparr>fr_calls := fr_calls s1 @ [Fe_irq]\<rparr> else s1)"

definition fr_enqueue_copy :: "bool \<Rightarrow> fe_reg \<Rightarrow> u32 \<times> fe_reg" where
  "fr_enqueue_copy acc s =
     (let transfer_id = fr_next_transfer_id s;
          s1 = s\<lparr>fr_next_transfer_id := transfer_id + 1\<rparr>;
          t = fr_transfer s1
      in if fe_is_null t then (transfer_id, fr_ack_transfer s1)
         else if acc then (transfer_id, s1\<lparr>fr_calls := fr_calls s1 @ [Me_enqueue t]\<rparr>)
         else (transfer_id, s1\<lparr>fr_stalled_transfer := t, fr_do_transfer_grant := True\<rparr>))"

definition fr_update :: "bool \<Rightarrow> fe_reg \<Rightarrow> fe_reg" where
  "fr_update acc s =
     (if fr_do_transfer_grant s \<and> acc
      then s\<lparr>fr_do_transfer_grant := False, fr_calls := fr_calls s @ [Me_enqueue (fr_stalled_transfer s)]\<rparr> else s)"

text \<open>The result is the status, the data of the request afterwards and the state. The direction is not looked at.\<close>

definition fr_req :: "bool \<Rightarrow> u64 \<Rightarrow> u64 \<Rightarrow> u32 \<Rightarrow> fe_reg \<Rightarrow> io_status \<times> u32 \<times> fe_reg" where
  "fr_req acc addr sz x s =
     (if sz \<noteq> 4 then (IO_REQ_INVALID, x, s)
      else if addr = 0x08 then (IO_REQ_OK, x, s)
      else if addr = 0x10 then (let (transfer_id, s1) = fr_enqueue_copy acc s in (IO_REQ_OK, transfer_id, s1))
      else if addr = 0x18 then (IO_REQ_OK, fr_completed_id s, s)
      else if addr = 0xd0 then (IO_REQ_OK, x, s\<lparr>fr_dst := ucast x\<rparr>)
      else if addr = 0xd8 then (IO_REQ_OK, x, s\<lparr>fr_src := ucast x\<rparr>)
      else if addr = 0xe0 then (IO_REQ_OK, x, s\<lparr>fr_length := ucast x\<rparr>)
      else if addr = 0xe8 then (IO_REQ_OK, x, s\<lparr>fr_dst_stride := ucast x\<rparr>)
      else if addr = 0xf0 then (IO_REQ_OK, x, s\<lparr>fr_src_stride := ucast x\<rparr>)
      else if addr = 0xf8 then (IO_REQ_OK, x, s\<lparr>fr_reps := x\<rparr>)
      else (IO_REQ_OK, x, s))"

subsection \<open>The offloaded instructions\<close>

record fe_xdma =
  fx_src :: u64
  fx_dst :: u64
  fx_src_stride :: u64
  fx_dst_stride :: u64
  fx_reps :: u32
  fx_collective_cfg :: u64
  fx_next_transfer_id :: u32
  fx_completed_id :: u32
  fx_do_transfer_grant :: bool
  fx_stalled_transfer :: transfer
  fx_calls :: "fe_call list"

record offload_insn =
  o_opcode :: u32
  o_arg_a :: u32
  o_arg_b :: u32
  o_granted :: bool
  o_result :: u32

definition fx_transfer :: "u32 \<Rightarrow> u32 \<Rightarrow> fe_xdma \<Rightarrow> transfer" where
  "fx_transfer config sz s = \<lparr>t_src = fx_src s, t_dst = fx_dst s, t_size = ucast sz, t_src_stride = fx_src_stride s,
     t_dst_stride = fx_dst_stride s, t_reps = ucast (fx_reps s), t_config = ucast config,
     t_collective_op = ucast (fx_collective_cfg s AND 0xff), t_collective_mask = drop_bit 8 (fx_collective_cfg s), t_data = []\<rparr>"

definition fx_ack_transfer :: "fe_xdma \<Rightarrow> fe_xdma" where
  "fx_ack_transfer s = s\<lparr>fx_completed_id := fx_completed_id s + 1\<rparr>"

text \<open>The result is the identifier, \<open>granted\<close> and the state.\<close>

definition fx_enqueue_copy :: "bool \<Rightarrow> u32 \<Rightarrow> u32 \<Rightarrow> bool \<Rightarrow> fe_xdma \<Rightarrow> u32 \<times> bool \<times> fe_xdma" where
  "fx_enqueue_copy acc config sz granted s =
     (let transfer_id = fx_next_transfer_id s;
          s1 = s\<lparr>fx_next_transfer_id := transfer_id + 1\<rparr>;
          t = fx_transfer config sz s1
      in if fe_is_null t then (transfer_id, granted, fx_ack_transfer s1)
         else if acc then (transfer_id, True, s1\<lparr>fx_calls := fx_calls s1 @ [Me_enqueue t]\<rparr>)
         else (transfer_id, False, s1\<lparr>fx_stalled_transfer := t, fx_do_transfer_grant := True\<rparr>))"

definition fx_get_status :: "bool \<Rightarrow> u32 \<Rightarrow> fe_xdma \<Rightarrow> u32" where
  "fx_get_status acc status s =
     (if status = 0 then fx_completed_id s
      else if status = 1 then fx_next_transfer_id s + 1
      else if status = 2 then of_bool (fx_next_transfer_id s - fx_completed_id s \<noteq> 1)
      else if status = 3 then of_bool (\<not> acc)
      else 0)"

definition fx_offload_sync :: "bool \<Rightarrow> offload_insn \<Rightarrow> fe_xdma \<Rightarrow> offload_insn \<times> fe_xdma" where
  "fx_offload_sync acc n s =
     (let func7 = drop_bit 25 (o_opcode n);
          n1 = n\<lparr>o_granted := True\<rparr>;
          pair = push_bit 32 (ucast (o_arg_b n1)) OR ucast (o_arg_a n1) :: u64
      in if func7 = 0 then (n1, s\<lparr>fx_src := pair\<rparr>)
         else if func7 = 1 then (n1, s\<lparr>fx_dst := pair\<rparr>)
         else if func7 = 6 then (n1, s\<lparr>fx_src_stride := ucast (o_arg_a n1), fx_dst_stride := ucast (o_arg_b n1)\<rparr>)
         else if func7 = 7 then (n1, s\<lparr>fx_reps := o_arg_a n1\<rparr>)
         else if func7 = 3 \<or> func7 = 2 then
           (let (r, g, s1) = fx_enqueue_copy acc (o_arg_b n1) (o_arg_a n1) (o_granted n1) s
            in (n1\<lparr>o_result := r, o_granted := g\<rparr>, s1))
         else if func7 = 5 \<or> func7 = 4 then (n1\<lparr>o_result := fx_get_status acc (o_arg_b n1) s\<rparr>, s)
         else if func7 = 8 then (n1, s\<lparr>fx_collective_cfg := pair\<rparr>)
         else (n1, s))"

definition fx_update :: "bool \<Rightarrow> fe_xdma \<Rightarrow> fe_xdma" where
  "fx_update acc s =
     (if fx_do_transfer_grant s \<and> acc
      then s\<lparr>fx_do_transfer_grant := False,
             fx_calls := fx_calls s @ [Fe_grant (ucast (fx_next_transfer_id s - 1)), Me_enqueue (fx_stalled_transfer s)]\<rparr>
      else s)"

subsection \<open>The 64-bit registers\<close>

record fe_cheshire =
  fc_src :: u64
  fc_dst :: u64
  fc_num_bytes :: u64
  fc_config :: u64
  fc_src_stride :: u64
  fc_dst_stride :: u64
  fc_reps :: u64
  fc_next_transfer_id :: u64
  fc_completed_id :: u64
  fc_do_transfer_grant :: bool
  fc_transfer_granted :: bool
  fc_stalled_transfer :: transfer
  fc_calls :: "fe_call list"

definition fc_transfer :: "fe_cheshire \<Rightarrow> transfer" where
  "fc_transfer s = \<lparr>t_src = fc_src s, t_dst = fc_dst s, t_size = fc_num_bytes s, t_src_stride = fc_src_stride s,
     t_dst_stride = fc_dst_stride s, t_reps = fc_reps s, t_config = fc_config s, t_collective_op = 0,
     t_collective_mask = 0, t_data = []\<rparr>"

definition fc_ack_transfer :: "fe_cheshire \<Rightarrow> fe_cheshire" where
  "fc_ack_transfer s = s\<lparr>fc_completed_id := fc_completed_id s + 1\<rparr>"

definition fc_enqueue_copy :: "bool \<Rightarrow> fe_cheshire \<Rightarrow> u64 \<times> fe_cheshire" where
  "fc_enqueue_copy acc s =
     (let transfer_id = fc_next_transfer_id s;
          s1 = s\<lparr>fc_next_transfer_id := transfer_id + 1\<rparr>;
          t = fc_transfer s1
      in if fe_is_null t then (transfer_id, fc_ack_transfer s1)
         else if acc then (transfer_id, s1\<lparr>fc_transfer_granted := True, fc_calls := fc_calls s1 @ [Me_enqueue t]\<rparr>)
         else (transfer_id, s1\<lparr>fc_stalled_transfer := t, fc_transfer_granted := False, fc_do_transfer_grant := True\<rparr>))"

definition fc_update :: "bool \<Rightarrow> fe_cheshire \<Rightarrow> fe_cheshire" where
  "fc_update acc s =
     (if fc_do_transfer_grant s \<and> acc
      then s\<lparr>fc_do_transfer_grant := False,
             fc_calls := fc_calls s @ [Fe_grant (fc_next_transfer_id s - 1), Me_enqueue (fc_stalled_transfer s)]\<rparr>
      else s)"

definition fc_req :: "bool \<Rightarrow> u64 \<Rightarrow> u64 \<Rightarrow> bool \<Rightarrow> u64 \<Rightarrow> fe_cheshire \<Rightarrow> io_status \<times> u64 \<times> fe_cheshire" where
  "fc_req acc offset sz is_write x s =
     (let wr = (is_write \<and> sz = 8); rd = (\<not> is_write \<and> sz = 8)
      in if offset = 0x0 then (IO_REQ_OK, x, if wr then s\<lparr>fc_src := x\<rparr> else s)
         else if offset = 0x8 then (IO_REQ_OK, x, if wr then s\<lparr>fc_dst := x\<rparr> else s)
         else if offset = 0x10 then (IO_REQ_OK, x, if wr then s\<lparr>fc_num_bytes := x\<rparr> else s)
         else if offset = 0x38 then (IO_REQ_OK, x, if wr then s\<lparr>fc_src_stride := x\<rparr> else s)
         else if offset = 0x40 then (IO_REQ_OK, x, if wr then s\<lparr>fc_dst_stride := x\<rparr> else s)
         else if offset = 0x48 then (IO_REQ_OK, x, if wr then s\<lparr>fc_reps := x\<rparr> else s)
         else if offset = 0x18 then (IO_REQ_OK, x, if wr then s\<lparr>fc_config := x\<rparr> else s)
         else if offset = 0x28 then
           (if rd then (let (transfer_id, s1) = fc_enqueue_copy acc s in (IO_REQ_OK, transfer_id, s1)) else (IO_REQ_OK, x, s))
         else if offset = 0x30 then (IO_REQ_OK, if rd then fc_completed_id s else x, s)
         else (IO_REQ_INVALID, x, s))"

end
