(* ===== verification/Idma_Fe_Slot.thy ===== *)
theory Idma_Fe_Slot
  imports Idma_Fe "HOL-Library.Multiset"
begin

section \<open>What the single-slot front-ends do with the launched transfers\<close>

text \<open>
  The three front-ends share a contract, the locale \<open>slot_front_end\<close>: an access launches a transfer or
  none; a launched transfer completes at once when it is null, goes to the middle-end when it accepts, and
  into the slot otherwise, over what the slot held; \<open>update\<close> empties the slot. Runs are sequences of
  accesses, of calls of \<open>update\<close> and of completions of transfers that the middle-end was given; beside the
  state a run keeps the transfers given and not completed. Identifiers enter as their difference.
\<close>

datatype 'e fe_event = Access 'e bool | Ready bool | Done transfer

fun slot_step :: "('e \<Rightarrow> bool \<Rightarrow> 's \<Rightarrow> 's) \<Rightarrow> (bool \<Rightarrow> 's \<Rightarrow> 's) \<Rightarrow> ('s \<Rightarrow> 's) \<Rightarrow> ('s \<Rightarrow> transfer list)
    \<Rightarrow> 'e fe_event \<Rightarrow> 's \<times> transfer list \<Rightarrow> 's \<times> transfer list" where
  "slot_step access upd ack sent (Access e acc) (s, out) =
     (let s' = access e acc s in (s', out @ drop (length (sent s)) (sent s')))"
| "slot_step access upd ack sent (Ready acc) (s, out) =
     (let s' = upd acc s in (s', out @ drop (length (sent s)) (sent s')))"
| "slot_step access upd ack sent (Done t) (s, out) = (if t \<in> set out then (ack s, remove1 t out) else (s, out))"

text \<open>
  What an event launches that moves data; what the slot holds and loses by it; and whether it passes a
  transfer that waits in the slot.
\<close>

fun moves :: "transfer option \<Rightarrow> transfer list" where
  "moves None = []"
| "moves (Some t) = (if fe_is_null t then [] else [t])"

fun opt_list :: "'a option \<Rightarrow> 'a list" where
  "opt_list None = []"
| "opt_list (Some t) = [t]"

fun slot_launched :: "('e \<Rightarrow> 's \<Rightarrow> transfer option) \<Rightarrow> 'e fe_event \<Rightarrow> 's \<Rightarrow> transfer list" where
  "slot_launched launches (Access e acc) s = moves (launches e s)"
| "slot_launched launches _ s = []"

fun slot_lost :: "('e \<Rightarrow> 's \<Rightarrow> transfer option) \<Rightarrow> ('s \<Rightarrow> transfer option) \<Rightarrow> 'e fe_event \<Rightarrow> 's \<Rightarrow> transfer list" where
  "slot_lost launches slot (Access e acc) s = (if moves (launches e s) \<noteq> [] \<and> \<not> acc then opt_list (slot s) else [])"
| "slot_lost launches slot _ s = []"

fun slot_waits :: "('e \<Rightarrow> 's \<Rightarrow> transfer option) \<Rightarrow> ('s \<Rightarrow> transfer option) \<Rightarrow> 'e fe_event \<Rightarrow> 's \<Rightarrow> bool" where
  "slot_waits launches slot (Access e acc) s \<longleftrightarrow> launches e s = None \<or> slot s = None"
| "slot_waits launches slot _ s \<longleftrightarrow> True"

text \<open>What the events of a run yield, each at the state before it, and whether each satisfies a condition.\<close>

fun along :: "('e fe_event \<Rightarrow> 's \<times> transfer list \<Rightarrow> 's \<times> transfer list) \<Rightarrow> ('e fe_event \<Rightarrow> 's \<Rightarrow> transfer list)
    \<Rightarrow> 'e fe_event list \<Rightarrow> 's \<times> transfer list \<Rightarrow> transfer list" where
  "along step f [] c = []"
| "along step f (e # es) c = f e (fst c) @ along step f es (step e c)"

fun always :: "('e fe_event \<Rightarrow> 's \<times> transfer list \<Rightarrow> 's \<times> transfer list) \<Rightarrow> ('e fe_event \<Rightarrow> 's \<Rightarrow> bool)
    \<Rightarrow> 'e fe_event list \<Rightarrow> 's \<times> transfer list \<Rightarrow> bool" where
  "always step p [] c \<longleftrightarrow> True"
| "always step p (e # es) c \<longleftrightarrow> p e (fst c) \<and> always step p es (step e c)"

lemma moves_cases: obtains "moves t = []" | u where "moves t = [u]" "t = Some u"
proof (cases t)
  case (Some u)
  with that show ?thesis by (cases "fe_is_null u") auto
qed (use that in auto)

lemma length_remove1_mem: "t \<in> set xs \<Longrightarrow> \<exists>n. length xs = Suc n \<and> length (remove1 t xs) = n"
  by (induction xs) auto

locale slot_front_end =
  fixes access :: "'e \<Rightarrow> bool \<Rightarrow> 's \<Rightarrow> 's"
    and upd :: "bool \<Rightarrow> 's \<Rightarrow> 's"
    and ack :: "'s \<Rightarrow> 's"
    and launches :: "'e \<Rightarrow> 's \<Rightarrow> transfer option"
    and slot :: "'s \<Rightarrow> transfer option"
    and sent :: "'s \<Rightarrow> transfer list"
    and ids :: "'s \<Rightarrow> 'w::len word"
  assumes access_keeps: "moves (launches e s) = [] \<Longrightarrow>
      sent (access e acc s) = sent s \<and> slot (access e acc s) = slot s \<and> ids (access e acc s) = ids s"
    and access_gives: "moves (launches e s) = [t] \<Longrightarrow>
      sent (access e True s) = sent s @ [t] \<and> slot (access e True s) = slot s \<and> ids (access e True s) = ids s + 1"
    and access_stalls: "moves (launches e s) = [t] \<Longrightarrow>
      sent (access e False s) = sent s \<and> slot (access e False s) = Some t \<and> ids (access e False s) = ids s + 1"
    and upd_gives: "sent (upd True s) = sent s @ opt_list (slot s) \<and> slot (upd True s) = None \<and> ids (upd True s) = ids s"
    and upd_waits: "upd False s = s"
    and ack_counts: "sent (ack s) = sent s \<and> slot (ack s) = slot s \<and> ids (ack s) = ids s - 1"
begin

abbreviation step :: "'e fe_event \<Rightarrow> 's \<times> transfer list \<Rightarrow> 's \<times> transfer list" where
  "step \<equiv> slot_step access upd ack sent"

lemma step_ids:
  assumes "step e (s, out) = (s', out')"
  shows "ids s' - of_nat (length out' + length (opt_list (slot s')))
    = ids s - of_nat (length out + length (opt_list (slot s))) + of_nat (length (slot_lost launches slot e s))"
proof (cases e)
  case (Access x acc)
  show ?thesis
  proof (cases rule: moves_cases [of "launches x s"])
    case 1
    then show ?thesis using assms access_keeps [of x s acc] by (auto simp: Access Let_def)
  next
    case (2 t)
    then show ?thesis using assms access_gives [of x s t] access_stalls [of x s t]
      by (cases acc; cases "slot s") (auto simp: Access Let_def algebra_simps)
  qed
next
  case (Ready acc)
  then show ?thesis using assms upd_gives [of s] upd_waits [of s]
    by (cases acc; cases "slot s") (auto simp: Let_def algebra_simps)
next
  case (Done t)
  show ?thesis
  proof (cases "t \<in> set out")
    case True
    from length_remove1_mem [OF this] obtain n where "length out = Suc n" "length (remove1 t out) = n" by (elim exE conjE)
    moreover have "s' = ack s" "out' = remove1 t out" using assms True by (simp_all add: Done)
    ultimately show ?thesis by (simp add: Done ack_counts diff_diff_eq del: length_remove1)
  qed (use assms in \<open>simp add: Done\<close>)
qed

lemma run_ids:
  "fold step es (s, out) = (s', out') \<Longrightarrow> ids s' - of_nat (length out' + length (opt_list (slot s')))
    = ids s - of_nat (length out + length (opt_list (slot s))) + of_nat (length (along step (slot_lost launches slot) es (s, out)))"
proof (induction es arbitrary: s out)
  case (Cons e es)
  obtain u q where u: "step e (s, out) = (u, q)" by fastforce
  show ?case using Cons.IH [of u q] Cons.prems step_ids [OF u] by (simp add: u)
qed simp

text \<open>Each transfer that moves data is given, waits, or was lost; nothing else is given.\<close>

lemma step_conserves:
  assumes "step e (s, out) = (s', out')"
  shows "mset (sent s') + mset (opt_list (slot s')) + mset (slot_lost launches slot e s)
    = mset (sent s) + mset (opt_list (slot s)) + mset (slot_launched launches e s)"
proof (cases e)
  case (Access x acc)
  show ?thesis
  proof (cases rule: moves_cases [of "launches x s"])
    case 1
    then show ?thesis using assms access_keeps [of x s acc] by (auto simp: Access Let_def)
  next
    case (2 t)
    then show ?thesis using assms access_gives [of x s t] access_stalls [of x s t] by (cases acc) (auto simp: Access Let_def)
  qed
next
  case (Ready acc)
  then show ?thesis using assms upd_gives [of s] upd_waits [of s] by (cases acc) (auto simp: Let_def)
next
  case (Done t)
  then show ?thesis using assms ack_counts [of s] by (auto split: if_splits)
qed

lemma run_conserves:
  "fold step es (s, out) = (s', out') \<Longrightarrow>
     mset (sent s') + mset (opt_list (slot s')) + mset (along step (slot_lost launches slot) es (s, out))
     = mset (sent s) + mset (opt_list (slot s)) + mset (along step (slot_launched launches) es (s, out))"
proof (induction es arbitrary: s out)
  case (Cons e es)
  obtain u q where u: "step e (s, out) = (u, q)" by fastforce
  show ?case using Cons.IH [of u q] Cons.prems step_conserves [OF u] by (simp add: u algebra_simps)
qed simp

text \<open>When no launch passes a transfer that waits, the order of the launches is kept and none is lost.\<close>

lemma step_order:
  assumes "step e (s, out) = (s', out')" "slot_waits launches slot e s"
  shows "sent s' @ opt_list (slot s') = sent s @ opt_list (slot s) @ slot_launched launches e s"
proof (cases e)
  case (Access x acc)
  show ?thesis
  proof (cases rule: moves_cases [of "launches x s"])
    case 1
    then show ?thesis using assms access_keeps [of x s acc] by (auto simp: Access Let_def)
  next
    case (2 t)
    then show ?thesis using assms access_gives [of x s t] access_stalls [of x s t]
      by (cases acc) (auto simp: Access Let_def)
  qed
next
  case (Ready acc)
  then show ?thesis using assms upd_gives [of s] upd_waits [of s] by (cases acc) (auto simp: Let_def)
next
  case (Done t)
  then show ?thesis using assms ack_counts [of s] by (auto split: if_splits)
qed

lemma run_order:
  "fold step es (s, out) = (s', out') \<Longrightarrow> always step (slot_waits launches slot) es (s, out) \<Longrightarrow>
     sent s' @ opt_list (slot s') = sent s @ opt_list (slot s) @ along step (slot_launched launches) es (s, out)"
proof (induction es arbitrary: s out)
  case (Cons e es)
  obtain u q where u: "step e (s, out) = (u, q)" by fastforce
  show ?case using Cons.IH [of u q] Cons.prems step_order [OF u] by (simp add: u)
qed simp

lemma run_waits_keeps:
  "always step (slot_waits launches slot) es (s, out) \<Longrightarrow> along step (slot_lost launches slot) es (s, out) = []"
proof (induction es arbitrary: s out)
  case (Cons e es)
  obtain u q where u: "step e (s, out) = (u, q)" by fastforce
  moreover have "slot_lost launches slot e s = []" using Cons.prems by (cases e) auto
  ultimately show ?case using Cons.IH [of u q] Cons.prems by simp
qed simp

end

end
