(* ===== verification/Idma_Fe_Runs.thy ===== *)
theory Idma_Fe_Runs
  imports Idma_Fe_Slot
begin

section \<open>Runs of the single-slot front-ends\<close>

text \<open>
  The interpretations of \<open>slot_front_end\<close> on the three front-ends, and what follows for their runs: with a core
  that waits for its grant no transfer is lost or overtaken, and with software that does not, the
  transfers lost are exactly what the identifiers never catch up with.
\<close>

subsection \<open>The register front-end\<close>

type_synonym reg_access = "u64 \<times> u64 \<times> u32"

definition fr_access :: "reg_access \<Rightarrow> bool \<Rightarrow> fe_reg \<Rightarrow> fe_reg" where
  "fr_access e acc s = (case e of (addr, sz, x) \<Rightarrow> snd (snd (fr_req acc addr sz x s)))"

definition fr_launches :: "reg_access \<Rightarrow> fe_reg \<Rightarrow> transfer option" where
  "fr_launches e s = (case e of (addr, sz, x) \<Rightarrow> if sz = 4 \<and> addr = 0x10 then Some (fr_transfer s) else None)"

definition fr_slot :: "fe_reg \<Rightarrow> transfer option" where
  "fr_slot s = (if fr_do_transfer_grant s then Some (fr_stalled_transfer s) else None)"

definition fr_sent :: "fe_reg \<Rightarrow> transfer list" where
  "fr_sent s = given (fr_calls s)"

definition fr_ids :: "fe_reg \<Rightarrow> u32" where
  "fr_ids s = fr_next_transfer_id s - fr_completed_id s"

abbreviation fr_step :: "reg_access fe_event \<Rightarrow> fe_reg \<times> transfer list \<Rightarrow> fe_reg \<times> transfer list" where
  "fr_step \<equiv> slot_step fr_access fr_update fr_ack_transfer fr_sent"

lemmas fr_obs_defs = fr_access_def fr_launches_def fr_slot_def fr_sent_def fr_ids_def fr_req_def fr_enqueue_copy_def fr_update_def
  fr_ack_transfer_def Let_def

lemma fr_transfer_kept [simp]:
  "fr_transfer (s\<lparr>fr_next_transfer_id := n\<rparr>) = fr_transfer s" "fr_transfer (s\<lparr>fr_stalled_transfer := t\<rparr>) = fr_transfer s"
  "fr_transfer (s\<lparr>fr_do_transfer_grant := b\<rparr>) = fr_transfer s"
  by (simp_all add: fr_transfer_def)

interpretation fe_reg: slot_front_end fr_access fr_update fr_ack_transfer fr_launches fr_slot fr_sent fr_ids
proof (unfold_locales, goal_cases)
  case (1 e s acc)
  then show ?case by (cases e) (auto simp: fr_obs_defs split: if_splits)
next
  case (2 e s t)
  then show ?case by (cases e) (auto simp: fr_obs_defs split: if_splits)
next
  case (3 e s t)
  then show ?case by (cases e) (auto simp: fr_obs_defs split: if_splits)
qed (auto simp: fr_obs_defs)

subsection \<open>The offloaded instructions\<close>

definition fx_access :: "offload_insn \<Rightarrow> bool \<Rightarrow> fe_xdma \<Rightarrow> fe_xdma" where
  "fx_access n acc s = snd (fx_offload_sync acc n s)"

definition fx_launches :: "offload_insn \<Rightarrow> fe_xdma \<Rightarrow> transfer option" where
  "fx_launches n s = (if drop_bit 25 (o_opcode n) = 3 \<or> drop_bit 25 (o_opcode n) = 2
     then Some (fx_transfer (o_arg_b n) (o_arg_a n) s) else None)"

definition fx_slot :: "fe_xdma \<Rightarrow> transfer option" where
  "fx_slot s = (if fx_do_transfer_grant s then Some (fx_stalled_transfer s) else None)"

definition fx_sent :: "fe_xdma \<Rightarrow> transfer list" where
  "fx_sent s = given (fx_calls s)"

definition fx_ids :: "fe_xdma \<Rightarrow> u32" where
  "fx_ids s = fx_next_transfer_id s - fx_completed_id s"

abbreviation fx_step :: "offload_insn fe_event \<Rightarrow> fe_xdma \<times> transfer list \<Rightarrow> fe_xdma \<times> transfer list" where
  "fx_step \<equiv> slot_step fx_access fx_update fx_ack_transfer fx_sent"

lemmas fx_obs_defs = fx_access_def fx_launches_def fx_slot_def fx_sent_def fx_ids_def fx_offload_sync_def fx_enqueue_copy_def
  fx_update_def fx_ack_transfer_def Let_def

lemma fx_transfer_next [simp]: "fx_transfer c n (s\<lparr>fx_next_transfer_id := i\<rparr>) = fx_transfer c n s"
  by (simp add: fx_transfer_def)

interpretation fe_xdma: slot_front_end fx_access fx_update fx_ack_transfer fx_launches fx_slot fx_sent fx_ids
proof (unfold_locales, goal_cases)
  case (1 n s acc)
  then show ?case by (auto simp: fx_obs_defs split: if_splits)
next
  case (2 n s t)
  then show ?case by (auto simp: fx_obs_defs split: if_splits)
next
  case (3 n s t)
  then show ?case by (auto simp: fx_obs_defs split: if_splits)
qed (auto simp: fx_obs_defs)

subsection \<open>The 64-bit registers\<close>

type_synonym reg64_access = "u64 \<times> u64 \<times> bool \<times> u64"

definition fc_access :: "reg64_access \<Rightarrow> bool \<Rightarrow> fe_cheshire \<Rightarrow> fe_cheshire" where
  "fc_access e acc s = (case e of (offset, sz, w, x) \<Rightarrow> snd (snd (fc_req acc offset sz w x s)))"

definition fc_launches :: "reg64_access \<Rightarrow> fe_cheshire \<Rightarrow> transfer option" where
  "fc_launches e s = (case e of (offset, sz, w, x) \<Rightarrow> if sz = 8 \<and> \<not> w \<and> offset = 0x28 then Some (fc_transfer s) else None)"

definition fc_slot :: "fe_cheshire \<Rightarrow> transfer option" where
  "fc_slot s = (if fc_do_transfer_grant s then Some (fc_stalled_transfer s) else None)"

definition fc_sent :: "fe_cheshire \<Rightarrow> transfer list" where
  "fc_sent s = given (fc_calls s)"

definition fc_ids :: "fe_cheshire \<Rightarrow> u64" where
  "fc_ids s = fc_next_transfer_id s - fc_completed_id s"

lemmas fc_obs_defs = fc_access_def fc_launches_def fc_slot_def fc_sent_def fc_ids_def fc_req_def fc_enqueue_copy_def fc_update_def
  fc_ack_transfer_def Let_def

lemma fc_transfer_next [simp]: "fc_transfer (s\<lparr>fc_next_transfer_id := n\<rparr>) = fc_transfer s"
  by (simp add: fc_transfer_def)

interpretation fe_cheshire: slot_front_end fc_access fc_update fc_ack_transfer fc_launches fc_slot fc_sent fc_ids
proof (unfold_locales, goal_cases)
  case (1 e s acc)
  then show ?case by (cases e) (auto simp: fc_obs_defs split: if_splits)
next
  case (2 e s t)
  then show ?case by (cases e) (auto simp: fc_obs_defs split: if_splits)
next
  case (3 e s t)
  then show ?case by (cases e) (auto simp: fc_obs_defs split: if_splits)
qed (auto simp: fc_obs_defs)

subsection \<open>A core that waits\<close>

text \<open>
  A core that waits for its grant gets its copies in order. In every run of the offload interface
  where no copy instruction is offloaded while a transfer is stalled, the transfers given to the
  middle-end followed by the stalled one are those of before followed by the transfers of the offloaded
  instructions that move data, in their order and with the register values at the time; none is lost or
  given twice, whenever the middle-end accepts.
\<close>

theorem idma_fe_xdma_in_order:
  assumes "fold fx_step es (s, out) = (s', out')" and "always fx_step (slot_waits fx_launches fx_slot) es (s, out)"
  shows "fx_sent s' @ opt_list (fx_slot s') = fx_sent s @ opt_list (fx_slot s) @ along fx_step (slot_launched fx_launches) es (s, out)"
  using assms by (rule fe_xdma.run_order)

definition xdma_example :: fe_xdma where
  "xdma_example = \<lparr>fx_src = 0x1c000000, fx_dst = 0x10000000, fx_src_stride = 0, fx_dst_stride = 0, fx_reps = 0,
     fx_collective_cfg = 0, fx_next_transfer_id = 2, fx_completed_id = 1, fx_do_transfer_grant = False,
     fx_stalled_transfer = fn_transfer port_example 0, fx_calls = []\<rparr>"

text \<open>\<open>dmcpyi\<close> of a number of bytes.\<close>

definition copy_insn :: "u32 \<Rightarrow> offload_insn" where
  "copy_insn n = \<lparr>o_opcode = 0x04000000, o_arg_a = n, o_arg_b = 0, o_granted = False, o_result = 0\<rparr>"

theorem idma_fe_xdma_in_order_witness:
  "\<exists>s' out'. fold fx_step [Access (copy_insn 8) False, Ready True, Access (copy_insn 16) True] (xdma_example, []) = (s', out')
     \<and> map t_size (fx_sent s') = [8, 16]"
proof -
  obtain s' out' where
    r: "fold fx_step [Access (copy_insn 8) False, Ready True, Access (copy_insn 16) True] (xdma_example, []) = (s', out')"
    by fastforce
  have n: "\<not> fe_is_null (fx_transfer 0 8 s)" "\<not> fe_is_null (fx_transfer 0 16 s)" for s
    by (simp_all add: fe_is_null_def fx_transfer_def)
  have w: "always fx_step (slot_waits fx_launches fx_slot) [Access (copy_insn 8) False, Ready True, Access (copy_insn 16) True] (xdma_example, [])"
    by (simp add: fx_obs_defs copy_insn_def xdma_example_def n)
  have "fx_slot s' = None" using r
    by (auto simp: fx_obs_defs copy_insn_def xdma_example_def n)
  moreover have "map t_size (fx_sent xdma_example @ opt_list (fx_slot xdma_example)
      @ along fx_step (slot_launched fx_launches) [Access (copy_insn 8) False, Ready True, Access (copy_insn 16) True] (xdma_example, []))
    = [8, 16]"
    by (simp add: fx_obs_defs copy_insn_def xdma_example_def n) (simp add: fx_transfer_def)
  ultimately show ?thesis using idma_fe_xdma_in_order [OF r w] r by auto
qed

subsection \<open>Software that does not wait\<close>

text \<open>
  The register front-end loses transfers, and says so only through identifiers that never complete.
  From the state after construction, the transfers launched that move data are, up to order, those given
  to the middle-end, the stalled one, and those lost because another was launched over them while the
  middle-end was full; and the next identifier is ahead of the completed one by one, plus the
  transfers in the middle-end and the stalled one, plus the lost ones: when all is done the completed
  identifier stays behind for ever, by one for each transfer lost.
\<close>

theorem idma_fe_reg_accounts:
  assumes "fold fr_step es (s, []) = (s', out)" and "fr_calls s = []" and "\<not> fr_do_transfer_grant s"
    and "fr_next_transfer_id s = 1" and "fr_completed_id s = 0"
    and "lost = along fr_step (slot_lost fr_launches fr_slot) es (s, [])"
  shows "mset (fr_sent s') + mset (opt_list (fr_slot s')) + mset lost = mset (along fr_step (slot_launched fr_launches) es (s, []))
    \<and> fr_next_transfer_id s' = fr_completed_id s' + 1 + of_nat (length (out @ opt_list (fr_slot s') @ lost))"
proof -
  have 0: "fr_sent s = []" "fr_slot s = None" "fr_ids s = 1"
    using assms(2-5) by (simp_all add: fr_sent_def fr_slot_def fr_ids_def)
  have "fr_ids s' = 1 + of_nat (length out + length (opt_list (fr_slot s'))) + of_nat (length lost)"
    using fe_reg.run_ids [OF assms(1)] by (simp add: 0 assms(6) diff_eq_eq algebra_simps)
  then have "fr_next_transfer_id s' = fr_completed_id s' + 1 + of_nat (length (out @ opt_list (fr_slot s') @ lost))"
    by (simp add: fr_ids_def diff_eq_eq algebra_simps)
  then show ?thesis using fe_reg.run_conserves [OF assms(1)] by (simp add: 0 assms(6))
qed

definition reg_example :: fe_reg where
  "reg_example = \<lparr>fr_src = 0x1c000000, fr_dst = 0x10000000, fr_length = 8, fr_src_stride = 0, fr_dst_stride = 0, fr_reps = 1,
     fr_next_transfer_id = 1, fr_completed_id = 0, fr_do_transfer_grant = False,
     fr_stalled_transfer = fn_transfer port_example 0, fr_irq_bound = True, fr_calls = []\<rparr>"

text \<open>Two launches while the middle-end is full; it then takes the second and completes it. The next
  identifier is 3, the completed one 1: the software that waits for 2, its second copy, waits for ever.\<close>

definition reg_events :: "reg_access fe_event list" where
  "reg_events = [Access (0x10, 4, 0) False, Access (0x10, 4, 0) False, Ready True, Done (fr_transfer reg_example)]"

theorem idma_fe_reg_accounts_witness:
  "\<exists>s'. fold fr_step reg_events (reg_example, []) = (s', []) \<and> fr_slot s' = None
     \<and> fr_next_transfer_id s' = 3 \<and> fr_next_transfer_id s' = fr_completed_id s' + 2"
proof -
  obtain s' out where r: "fold fr_step reg_events (reg_example, []) = (s', out)" by fastforce
  have n: "\<not> fe_is_null (fr_transfer reg_example)" by (simp add: fe_is_null_def fr_transfer_def reg_example_def)
  have e: "fr_sent reg_example = []" "fr_calls reg_example = []" "\<not> fr_do_transfer_grant reg_example"
    "fr_next_transfer_id reg_example = 1" "fr_completed_id reg_example = 0" "fr_irq_bound reg_example"
    by (simp_all add: reg_example_def fr_sent_def)
  have f: "out = []" "fr_slot s' = None" "fr_next_transfer_id s' = 3" using r
    by (auto simp: reg_events_def fr_obs_defs n e)
  have "length (along fr_step (slot_lost fr_launches fr_slot) reg_events (reg_example, [])) = 1"
    by (simp add: reg_events_def fr_obs_defs n e)
  then show ?thesis using idma_fe_reg_accounts [OF r _ _ _ _ refl] r by (simp add: e f)
qed

end
