(* ===== verification/Idma_Front.thy ===== *)
theory Idma_Front
  imports Idma_Fe_Nd_Ids Idma_Me_Nd "HOL-Library.Multiset"
begin

section \<open>The front-end and the middle-end together\<close>

text \<open>
  The composition of \<open>IDmaFeReg32_3d\<close> with \<open>IDmaMe3d\<close>: the transfers the front-end gives are put in the queue of
  the middle-end, which has \<open>qs\<close> entries, and the calls of the middle-end on the front-end, \<open>update\<close> when a
  transfer leaves the queue and \<open>ack_transfer\<close> when its last burst is acknowledged, run the front-end.
  The environment is the cores, the clock with the answer of the back-end, and the acknowledgements of
  the bursts in flight. Transfers are named in the order they are given.
\<close>

record front =
  fm_fe :: fe_nd
  fm_me :: "me3d_cursor me"
  fm_next :: nat
  fm_flight :: "nat list"

datatype front_event = Core_access nat u64 u64 u32 | Clock bool | Be_done nat | Be_ready

definition fm_room :: "nat \<Rightarrow> front \<Rightarrow> nat" where
  "fm_room qs m = qs - length (me_queue (fm_me m))"

fun fm_give :: "transfer list \<Rightarrow> front \<Rightarrow> front" where
  "fm_give [] m = m"
| "fm_give (t # ts) m = fm_give ts (m\<lparr>fm_me := me_enqueue_transfer (fm_next m) t (fm_me m), fm_next := Suc (fm_next m)\<rparr>)"

definition fm_front :: "(fe_nd \<Rightarrow> fe_nd) \<Rightarrow> front \<Rightarrow> front" where
  "fm_front f m = (let s' = f (fm_fe m) in fm_give (fn_given (fm_fe m) s') (m\<lparr>fm_fe := s'\<rparr>))"

definition new_calls :: "'c me \<Rightarrow> 'c me \<Rightarrow> me_call list" where
  "new_calls s s' = drop (length (me_calls s)) (me_calls s')"

fun fm_step :: "nat \<Rightarrow> front_event \<Rightarrow> front \<Rightarrow> front" where
  "fm_step qs (Core_access p offset sz x) m = fm_front (\<lambda>s. snd (snd (fn_req (fm_room qs m) p offset sz x s))) m"
| "fm_step qs (Clock ready) m =
     (if me_event (fm_me m) then
        let s' = me3d_fsm_handler ready (fm_me m);
            m1 = m\<lparr>fm_me := s', fm_flight := fm_flight m @ map fst (drop (length (me_sent (fm_me m))) (me_sent s'))\<rparr>
        in if Fe_update \<in> set (new_calls (fm_me m) s') then fm_front (fn_update (fm_room qs m1)) m1 else m1
      else m)"
| "fm_step qs (Be_done i) m =
     (if i \<in> set (fm_flight m) then
        let s' = me_ack_transfer i (fm_me m);
            m1 = m\<lparr>fm_me := s', fm_flight := remove1 i (fm_flight m)\<rparr>
        in if Fe_ack i \<in> set (new_calls (fm_me m) s') then m1\<lparr>fm_fe := fn_ack_transfer (me_store s' i) (fm_fe m1)\<rparr> else m1
      else m)"
| "fm_step qs Be_ready m = m\<lparr>fm_me := me_update (fm_me m)\<rparr>"

definition fm_run :: "nat \<Rightarrow> front_event list \<Rightarrow> front \<Rightarrow> front" where
  "fm_run qs es m = fold (fm_step qs) es m"

text \<open>The transfers launched by the cores that move data, with the values of the registers at the time.\<close>

fun fm_launched :: "nat \<Rightarrow> front_event \<Rightarrow> front \<Rightarrow> transfer list" where
  "fm_launched qs (Core_access p offset sz x) m = fn_launched (Fn_access (fm_room qs m) p offset sz x) (fm_fe m)"
| "fm_launched qs _ m = []"

fun fm_accepted :: "nat \<Rightarrow> front_event list \<Rightarrow> front \<Rightarrow> transfer list" where
  "fm_accepted qs [] m = []"
| "fm_accepted qs (e # es) m = fm_launched qs e m @ fm_accepted qs es (fm_step qs e m)"

definition fm_start :: "front \<Rightarrow> bool" where
  "fm_start m \<longleftrightarrow> me_idle (fm_me m) \<and> fm_next m = 0 \<and> fm_flight m = [] \<and> fn_calls (fm_fe m) = [] \<and> fn_pending_queue (fm_fe m) = []
     \<and> (\<forall>i < fn_nb_streams (fm_fe m). fn_streams (fm_fe m) i = \<lparr>s_next_id = 1, s_done_id = 0, s_pending = 0\<rparr>)"

subsection \<open>The invariant\<close>

text \<open>
  \<open>h\<close> is the history of the middle-end, \<open>ls\<close> the transfers launched. A transfer waits in the front-end only when
  the queue of the middle-end is full.
\<close>

definition unfinished :: "'c me \<Rightarrow> nat \<times> transfer \<Rightarrow> bool" where
  "unfinished s x \<longleftrightarrow> Fe_ack (fst x) \<notin> set (me_calls s)"

definition fm_out :: "me_op list \<Rightarrow> 'c me \<Rightarrow> transfer list" where
  "fm_out h s = map snd (filter (unfinished s) (me_enqueued h))"

definition fm_core :: "me_op list \<Rightarrow> transfer list \<Rightarrow> front \<Rightarrow> bool" where
  "fm_core h ls m \<longleftrightarrow>
     me_inv me3d_load me3d_rest h (fm_me m)
   \<and> map fst (me_enqueued h) = [0..<fm_next m]
   \<and> map snd (me_enqueued h) = given (fn_calls (fm_fe m))
   \<and> given (fn_calls (fm_fe m)) @ fn_pending_queue (fm_fe m) = ls
   \<and> (\<forall>i. count_list (fm_flight m) i + me_acks i h = count_of i (me_sent (fm_me m)))
   \<and> fn_ids_ok (fm_fe m) (fm_out h (fm_me m)) \<and> fn_nb_streams (fm_fe m) < 2 ^ 31"

definition fm_inv :: "nat \<Rightarrow> me_op list \<Rightarrow> transfer list \<Rightarrow> front \<Rightarrow> bool" where
  "fm_inv qs h ls m \<longleftrightarrow> fm_core h ls m \<and> (fn_pending_queue (fm_fe m) \<noteq> [] \<longrightarrow> qs \<le> length (me_queue (fm_me m)))"

lemma of_stream_cong: "mset ts = mset us \<Longrightarrow> of_stream i ts = of_stream i us"
  by (metis (mono_tags, lifting) mset_filter of_stream_def size_mset)

lemma fn_ids_ok_cong: "mset out = mset out' \<Longrightarrow> fn_ids_ok s out = fn_ids_ok s out'"
  by (simp add: fn_ids_ok_def of_stream_cong [of out out'])

text \<open>Giving transfers to the middle-end.\<close>

lemma fm_give_frame [simp]:
  "fm_fe (fm_give ts m) = fm_fe m" "fm_flight (fm_give ts m) = fm_flight m" "fm_next (fm_give ts m) = fm_next m + length ts"
  "me_calls (fm_me (fm_give ts m)) = me_calls (fm_me m)" "me_sent (fm_me (fm_give ts m)) = me_sent (fm_me m)"
  "length (me_queue (fm_me (fm_give ts m))) = length (me_queue (fm_me m)) + length ts"
  by (induction ts m rule: fm_give.induct) (simp_all add: me_enqueue_transfer_def me_sent_def)

definition given_ops :: "nat \<Rightarrow> transfer list \<Rightarrow> me_op list" where
  "given_ops n ts = map (\<lambda>(i, t). Me_enqueue i t) (zip [n..<n + length ts] ts)"

lemma given_ops_simps [simp]:
  "given_ops n [] = []" "given_ops n (t # ts) = Me_enqueue n t # given_ops (Suc n) ts"
  by (simp_all add: given_ops_def upt_conv_Cons del: upt_Suc)

lemma given_ops_obs [simp]:
  "map fst (me_enqueued (given_ops n ts)) = [n..<n + length ts]" "map snd (me_enqueued (given_ops n ts)) = ts"
  "me_acks i (given_ops n ts) = 0"
  by (induction ts arbitrary: n) (simp_all add: upt_conv_Cons del: upt_Suc)

lemma fm_give_inv:
  assumes "me_inv me3d_load me3d_rest h (fm_me m)" "map fst (me_enqueued h) = [0..<fm_next m]"
  shows "me_inv me3d_load me3d_rest (h @ given_ops (fm_next m) ts) (fm_me (fm_give ts m))"
  using assms
proof (induction ts m arbitrary: h rule: fm_give.induct)
  case (2 t ts m)
  have "fm_next m \<notin> fst ` set (me_enqueued h)" using 2(3) by (metis atLeastLessThan_upt atLeastLessThan_iff less_irrefl list.set_map)
  from me_inv_enqueue [OF 2(2) this] show ?case using 2(1) [of "h @ [Me_enqueue (fm_next m) t]"] 2(3) by simp
qed simp

subsection \<open>Operations of the front-end\<close>

lemma fn_check_full:
  "fn_pending_queue (fn_check_pending_queue room s) \<noteq> [] \<Longrightarrow>
     length (given (fn_calls (fn_check_pending_queue room s))) = length (given (fn_calls s)) + room"
  by (induction room s rule: fn_check_pending_queue.induct) (auto split: list.splits)

lemma fn_given_same: "given (fn_calls s') = given (fn_calls s) \<Longrightarrow> fn_given s s' = []"
  by (simp add: fn_given_def)

definition fe_blocked :: "nat \<Rightarrow> fe_nd \<Rightarrow> fe_nd \<Rightarrow> bool" where
  "fe_blocked room s s' \<longleftrightarrow> fn_pending_queue s' = [] \<or> (fn_pending_queue s \<noteq> [] \<and> fn_given s s' = []) \<or> length (fn_given s s') = room"

lemma fe_blocked_check:
  assumes "given (fn_calls u) = given (fn_calls s)" "s' = fn_check_pending_queue room u"
  shows "fe_blocked room s s'"
  using fn_check_full [of room u] assms by (auto simp: fe_blocked_def fn_given_def)

lemma fe_blocked_access:
  assumes "fn_req room p offset sz x s = (st, y, s')"
  shows "fe_blocked room s s' \<and> (\<exists>ts. given (fn_calls s') = given (fn_calls s) @ ts)"
  using assms
proof (cases rule: fn_req_cases)
  case none
  then show ?thesis by (simp add: fe_blocked_def fn_given_same)
next
  case (launch i)
  then consider "s' = s" | u where "s' = fn_ack_transfer (fn_transfer (fn_ports s p) i) u"
      "fn_calls u = fn_calls s" "fn_pending_queue u = fn_pending_queue s"
    | u where "s' = fn_check_pending_queue room u" "fn_calls u = fn_calls s"
    by (fastforce simp: fn_enqueue_copy_def upd_stream_def Let_def split: if_splits)
  then have "fe_blocked room s s'"
  proof cases
    case 3
    then show ?thesis by (intro fe_blocked_check [of u]) simp_all
  qed (auto simp: fe_blocked_def fn_given_same)
  then show ?thesis using fn_enqueue_obs(2) [OF launch(3)] by simp
qed

lemma fm_out_append [simp]: "fm_out (h @ h') s = fm_out h s @ fm_out h' s"
  by (simp add: fm_out_def)

lemma fm_out_cong:
  "(\<And>i. i \<in> fst ` set (me_enqueued h) \<Longrightarrow> Fe_ack i \<in> set (me_calls s') \<longleftrightarrow> Fe_ack i \<in> set (me_calls s)) \<Longrightarrow> fm_out h s' = fm_out h s"
  unfolding fm_out_def by (intro arg_cong [where f = "map snd"] filter_cong) (auto simp: unfinished_def image_iff)

lemma fm_front_inv:
  assumes core: "fm_core h ls m" and step: "\<And>out. fn_step e (fm_fe m, out) = (f (fm_fe m), out @ fn_given (fm_fe m) (f (fm_fe m)))"
    and pre: "\<exists>ts. given (fn_calls (f (fm_fe m))) = given (fn_calls (fm_fe m)) @ ts"
    and full: "fn_pending_queue (f (fm_fe m)) \<noteq> [] \<Longrightarrow> fm_room qs m \<le> length (fn_given (fm_fe m) (f (fm_fe m)))"
  shows "\<exists>h'. fm_inv qs h' (ls @ fn_launched e (fm_fe m)) (fm_front f m)"
proof -
  let ?s = "fm_fe m" and ?s' = "f (fm_fe m)"
  let ?ts = "fn_given ?s ?s'" and ?me = "fm_me m"
  have inv: "me_inv me3d_load me3d_rest h ?me" and names: "map fst (me_enqueued h) = [0..<fm_next m]"
    and snds: "map snd (me_enqueued h) = given (fn_calls ?s)" and ls: "given (fn_calls ?s) @ fn_pending_queue ?s = ls"
    and flight: "\<forall>i. count_list (fm_flight m) i + me_acks i h = count_of i (me_sent ?me)"
    and ids: "fn_ids_ok ?s (fm_out h ?me)" and nb: "fn_nb_streams ?s < 2 ^ 31"
    using core unfolding fm_core_def by blast+
  let ?h = "h @ given_ops (fm_next m) ?ts"
  let ?m = "fm_give ?ts (m\<lparr>fm_fe := ?s'\<rparr>)"
  have inv': "me_inv me3d_load me3d_rest ?h (fm_me ?m)"
    using fm_give_inv [of h "m\<lparr>fm_fe := ?s'\<rparr>" ?ts] inv names by simp
  have new: "Fe_ack i \<notin> set (me_calls ?me)" if "i \<in> fst ` set (me_enqueued (given_ops (fm_next m) ?ts))" for i
  proof -
    have "i \<notin> fst ` set (me_enqueued h)"
      using that names given_ops_obs(1) [of "fm_next m" ?ts] by (metis atLeastLessThan_upt atLeastLessThan_iff leD list.set_map)
    then show ?thesis using inv unfolding me_inv_def by (meson count_list_0_iff)
  qed
  have "filter (unfinished ?me) (me_enqueued (given_ops (fm_next m) ?ts)) = me_enqueued (given_ops (fm_next m) ?ts)"
    by (rule filter_True) (use new in \<open>auto simp: unfinished_def\<close>)
  then have "fm_out (given_ops (fm_next m) ?ts) ?me = ?ts" by (simp add: fm_out_def)
  then have out: "fm_out ?h (fm_me ?m) = fm_out h ?me @ ?ts"
    using fm_out_cong [of ?h "fm_me ?m" ?me] by simp
  note step_ids = fn_step_ids [OF step ids nb]
  obtain ts where ts: "given (fn_calls ?s') = given (fn_calls ?s) @ ts" using pre by blast
  then have "?ts = ts" by (simp add: fn_given_def)
  have "map fst (me_enqueued ?h) = [0..<fm_next ?m]" "map snd (me_enqueued ?h) = given (fn_calls ?s')"
    using names snds ts \<open>?ts = ts\<close> upt_add_eq_append [of 0 "fm_next m" "length ts"] by simp_all
  moreover have "given (fn_calls ?s') @ fn_pending_queue ?s' = ls @ fn_launched e ?s"
    using ls fn_step_order(1) [OF step] by simp
  ultimately have "fm_core ?h (ls @ fn_launched e ?s) ?m"
    using inv' flight step_ids nb unfolding fm_core_def out by simp
  moreover have "qs \<le> length (me_queue (fm_me ?m))" if "fn_pending_queue ?s' \<noteq> []"
    using full that by (auto simp: fm_room_def)
  ultimately show ?thesis unfolding fm_inv_def fm_front_def Let_def by (intro exI [of _ ?h]) simp
qed

subsection \<open>Operations of the middle-end\<close>

lemma me_turn_calls:
  "\<exists>cs. me_calls (me_turn load emit step ready s) = me_calls s @ cs \<and> (\<forall>i. Fe_ack i \<notin> set cs)
     \<and> (Fe_update \<in> set cs \<or> me_queue (me_turn load emit step ready s) = me_queue s)"
  by (auto simp: me_turn_def me_take_def me_send_def me_finish_def me_call_def Let_def split: option.split)

lemma count_list_fst: "count_list (map fst xs) i = count_of i xs"
  by (induction xs) (auto simp: count_of_def)

lemma me_sent_calls: "me_calls s' = me_calls s @ cs \<Longrightarrow> \<exists>xs. me_sent s' = me_sent s @ xs"
  by (simp add: me_sent_def)

lemma fm_inv_clock:
  assumes "fm_inv qs h ls m"
  shows "\<exists>h'. fm_inv qs h' ls (fm_step qs (Clock ready) m)"
proof (cases "me_event (fm_me m)")
  case True
  let ?s' = "me3d_fsm_handler ready (fm_me m)"
  let ?m = "m\<lparr>fm_me := ?s', fm_flight := fm_flight m @ map fst (drop (length (me_sent (fm_me m))) (me_sent ?s'))\<rparr>"
  have core: "fm_core h ls m" and full: "fn_pending_queue (fm_fe m) \<noteq> [] \<longrightarrow> qs \<le> length (me_queue (fm_me m))"
    using assms by (simp_all add: fm_inv_def)
  obtain cs where cs: "me_calls ?s' = me_calls (fm_me m) @ cs" "\<forall>i. Fe_ack i \<notin> set cs"
      "Fe_update \<in> set cs \<or> me_queue ?s' = me_queue (fm_me m)"
    using me_turn_calls unfolding me3d_turn by blast
  obtain xs where xs: "me_sent ?s' = me_sent (fm_me m) @ xs" using me_sent_calls [OF cs(1)] by blast
  have "me_inv me3d_load me3d_rest h ?s'" using core me3d.inv_turn unfolding me3d_turn fm_core_def by blast
  moreover have "fm_out h ?s' = fm_out h (fm_me m)" by (rule fm_out_cong) (use cs in auto)
  ultimately have core': "fm_core h ls ?m"
    using core by (simp add: fm_core_def xs count_list_fst)
  have new: "new_calls (fm_me m) ?s' = cs" by (simp add: new_calls_def cs(1))
  show ?thesis
  proof (cases "Fe_update \<in> set cs")
    case False
    then have "fm_inv qs h ls ?m" using core' full cs(3) by (simp add: fm_inv_def)
    then show ?thesis using True False new by (auto simp: Let_def)
  next
    case update: True
    let ?f = "fn_update (fm_room qs ?m)"
    have "\<exists>h'. fm_inv qs h' (ls @ fn_launched (Fn_ready (fm_room qs ?m)) (fm_fe ?m)) (fm_front ?f ?m)"
    proof (rule fm_front_inv [OF core'])
      show "fn_step (Fn_ready (fm_room qs ?m)) (fm_fe ?m, out) = (?f (fm_fe ?m), out @ fn_given (fm_fe ?m) (?f (fm_fe ?m)))" for out
        by (simp add: Let_def)
      show "\<exists>ts. given (fn_calls (?f (fm_fe ?m))) = given (fn_calls (fm_fe ?m)) @ ts"
        using fn_check_obs(2) [of "fm_room qs ?m" "fm_fe ?m"] by (auto simp: fn_update_def)
      show "fm_room qs ?m \<le> length (fn_given (fm_fe ?m) (?f (fm_fe ?m)))" if "fn_pending_queue (?f (fm_fe ?m)) \<noteq> []"
        using fn_check_full [of "fm_room qs ?m" "fm_fe ?m"] that by (simp add: fn_update_def fn_given_def)
    qed
    then show ?thesis using True update new by (simp add: Let_def)
  qed
qed (use assms in auto)

lemma fm_inv_access:
  assumes "fm_inv qs h ls m"
  shows "\<exists>h'. fm_inv qs h' (ls @ fm_launched qs (Core_access p offset sz x) m) (fm_step qs (Core_access p offset sz x) m)"
proof -
  let ?r = "fm_room qs m"
  obtain st y s' where r: "fn_req ?r p offset sz x (fm_fe m) = (st, y, s')" by (metis prod_cases3)
  note blocked = fe_blocked_access [OF r]
  have "\<exists>h'. fm_inv qs h' (ls @ fn_launched (Fn_access ?r p offset sz x) (fm_fe m)) (fm_front (\<lambda>s. snd (snd (fn_req ?r p offset sz x s))) m)"
  proof (rule fm_front_inv)
    show "fm_core h ls m" using assms by (simp add: fm_inv_def)
    show "fm_room qs m \<le> length (fn_given (fm_fe m) (snd (snd (fn_req ?r p offset sz x (fm_fe m)))))"
      if "fn_pending_queue (snd (snd (fn_req ?r p offset sz x (fm_fe m)))) \<noteq> []"
    proof -
      from that have "fn_pending_queue s' \<noteq> []" by (simp add: r)
      then have "fm_room qs m \<le> length (fn_given (fm_fe m) s')"
        using blocked assms by (auto simp: fe_blocked_def fm_inv_def fm_room_def)
      then show ?thesis by (simp add: r)
    qed
  qed (use blocked in \<open>simp_all add: r Let_def\<close>)
  then show ?thesis by simp
qed

lemma count_list_remove1_mem: "x \<in> set xs \<Longrightarrow> count_list xs y = of_bool (y = x) + count_list (remove1 x xs) y"
  by (induction xs) auto

lemma fm_finish_out:
  assumes "distinct (map fst its)" "(i, t) \<in> set its" "P (i, t)" "\<And>x. x \<in> set its \<Longrightarrow> Q x \<longleftrightarrow> P x \<and> fst x \<noteq> i"
  shows "mset (map snd (filter Q its)) = mset (remove1 t (map snd (filter P its)))"
  using assms
proof (induction its)
  case (Cons x its)
  show ?case
  proof (cases "fst x = i")
    case True
    then have "i \<notin> fst ` set its" using Cons.prems(1) by auto
    then have "(i, t) \<notin> set its" by force
    then have x: "x = (i, t)" using Cons.prems(2) by simp
    have "filter Q its = filter P its"
    proof (rule filter_cong)
      fix y assume y: "y \<in> set its"
      then have "fst y \<noteq> i" using \<open>i \<notin> fst ` set its\<close> by blast
      then show "Q y = P y" using Cons.prems(4) [of y] y by simp
    qed simp
    with x show ?thesis using Cons.prems(3,4) by simp
  next
    case False
    then have "(i, t) \<in> set its" using Cons.prems(2) by auto
    moreover from this have "t \<in> set (map snd (filter P its))" using Cons.prems(3) by force
    ultimately show ?thesis using Cons False by (auto simp: insert_DiffM)
  qed
qed simp

lemma fm_inv_done:
  assumes inv: "fm_inv qs h ls m"
  shows "\<exists>h'. fm_inv qs h' ls (fm_step qs (Be_done i) m)"
proof (cases "i \<in> set (fm_flight m)")
  case True
  let ?me = "fm_me m"
  let ?s' = "me_ack_transfer i ?me" and ?h = "h @ [Me_ack i]"
  have core: "fm_core h ls m" using inv by (simp add: fm_inv_def)
  then have mi: "me_inv me3d_load me3d_rest h ?me" and flight: "\<And>j. count_list (fm_flight m) j + me_acks j h = count_of j (me_sent ?me)"
    unfolding fm_core_def by blast+
  have "count_list (fm_flight m) i > 0" using True count_list_0_iff [of "fm_flight m" i] by simp
  then have less: "me_acks i h < count_of i (me_sent ?me)" using flight [of i] by simp
  then have i: "i \<in> fst ` set (me_enqueued h)" using mi unfolding me_inv_def by fastforce
  have mi': "me_inv me3d_load me3d_rest ?h ?s'" by (rule me_inv_ack [OF mi i less])
  have "count_list (me_calls ?me) (Fe_ack i) = 0" using mi i less unfolding me_inv_def by fastforce
  then have live: "Fe_ack i \<notin> set (me_calls ?me)" by (simp add: count_list_0_iff)
  obtain t where t: "(i, t) \<in> set (me_enqueued h)" using i by auto
  then have st: "me_store ?s' i = t" using mi by (auto simp: me_inv_def me_ack_transfer_def me_call_def Let_def)
  have q: "me_queue ?s' = me_queue ?me" "me_sent ?s' = me_sent ?me"
    by (simp_all add: me_ack_transfer_def me_call_def Let_def me_sent_def)
  have fl: "count_list (remove1 i (fm_flight m)) j + me_acks j ?h = count_of j (me_sent ?s')" for j
  proof -
    have "me_acks j ?h = me_acks j h + of_bool (j = i)" by simp
    then show ?thesis using flight [of j] count_list_remove1_mem [OF True, of j] unfolding q(2) by linarith
  qed
  have nosame: "fm_out ?h s = fm_out h s" for s :: "me3d_cursor me" by (simp add: fm_out_def)
  show ?thesis
  proof (cases "Fe_ack i \<in> set (new_calls ?me ?s')")
    case False
    then have "me_calls ?s' = me_calls ?me" by (auto simp: new_calls_def me_ack_transfer_def me_call_def Let_def)
    then have "fm_out ?h ?s' = fm_out h ?me" unfolding nosame by (intro fm_out_cong) simp
    then have "fm_inv qs ?h ls (m\<lparr>fm_me := ?s', fm_flight := remove1 i (fm_flight m)\<rparr>)"
      using inv mi' fl q by (simp add: fm_inv_def fm_core_def)
    then show ?thesis using True False by (auto simp: Let_def)
  next
    case ack: True
    then have calls: "me_calls ?s' = me_calls ?me @ [Fe_ack i]"
      by (auto simp: new_calls_def me_ack_transfer_def me_call_def Let_def split: if_splits)
    have "distinct (map fst (me_enqueued h))" using mi unfolding me_inv_def by blast
    then have "mset (fm_out h ?s') = mset (remove1 t (fm_out h ?me))"
      unfolding fm_out_def by (rule fm_finish_out [OF _ t]) (use live in \<open>auto simp: unfinished_def calls\<close>)
    then have out: "mset (fm_out ?h ?s') = mset (remove1 t (fm_out h ?me))" unfolding nosame .
    have mem: "t \<in> set (fm_out h ?me)" using t live by (force simp: fm_out_def unfinished_def)
    have ids: "fn_ids_ok (fm_fe m) (fm_out h ?me)" "fn_nb_streams (fm_fe m) < 2 ^ 31"
      using core by (simp_all add: fm_core_def)
    have step: "fn_step (Fn_done t) (fm_fe m, fm_out h ?me) = (fn_ack_transfer t (fm_fe m), remove1 t (fm_out h ?me))"
      using mem by simp
    have "fm_inv qs ?h ls (m\<lparr>fm_me := ?s', fm_flight := remove1 i (fm_flight m), fm_fe := fn_ack_transfer t (fm_fe m)\<rparr>)"
      using inv mi' fl q fn_step_ids [OF step ids] fn_ids_ok_cong [OF out] by (simp add: fm_inv_def fm_core_def)
    then show ?thesis using True ack st by (auto simp: Let_def)
  qed
qed (use inv in auto)

subsection \<open>Runs\<close>

lemma fm_inv_step:
  assumes "fm_inv qs h ls m"
  shows "\<exists>h'. fm_inv qs h' (ls @ fm_launched qs e m) (fm_step qs e m)"
proof (cases e)
  case (Core_access p offset sz x)
  show ?thesis unfolding Core_access by (rule fm_inv_access [OF assms])
next
  case Be_ready
  have "fm_out h (me_update (fm_me m)) = fm_out h (fm_me m)" by (rule fm_out_cong) (simp add: me_update_def)
  then have "fm_inv qs h ls (fm_step qs e m)"
    using assms by (simp add: Be_ready fm_inv_def fm_core_def me_update_def)
  then show ?thesis by (auto simp: Be_ready)
qed (use fm_inv_clock [OF assms] fm_inv_done [OF assms] in \<open>simp_all del: fm_step.simps\<close>)

lemma fm_inv_run: "fm_inv qs h ls m \<Longrightarrow> \<exists>h'. fm_inv qs h' (ls @ fm_accepted qs es m) (fm_run qs es m)"
proof (induction es arbitrary: h ls m)
  case (Cons e es)
  obtain h1 where "fm_inv qs h1 (ls @ fm_launched qs e m) (fm_step qs e m)" using fm_inv_step [OF Cons.prems] by blast
  from Cons.IH [OF this] show ?case by (simp add: fm_run_def)
qed (auto simp: fm_run_def)

lemma fm_inv_start: "fm_start m \<Longrightarrow> fn_nb_streams (fm_fe m) < 2 ^ 31 \<Longrightarrow> fm_inv qs [] [] m"
  by (auto simp: fm_start_def fm_inv_def fm_core_def me_inv_idle me_idle_def me_sent_def fm_out_def fn_ids_ok_def stream_counts_def)

lemma map_snd_me_tag: "map snd (me_tag f its) = concat (map f (map snd its))"
  by (induction its) (simp_all add: comp_def)

definition fm_left :: "front \<Rightarrow> burst list" where
  "fm_left m = map snd (me_pending me3d_load me3d_rest (fm_me m)) @ concat (map me3d_lines (fn_pending_queue (fm_fe m)))"

definition fm_bursts :: "front \<Rightarrow> burst list" where
  "fm_bursts m = map snd (me_sent (fm_me m))"

lemma fm_inv_lines:
  assumes "fm_inv qs h ls m"
  shows "fm_bursts m @ fm_left m = concat (map me3d_lines ls)"
proof -
  have "me_sent (fm_me m) @ me_pending me3d_load me3d_rest (fm_me m) = me_tag me3d_lines (me_enqueued h)"
    and ls: "ls = map snd (me_enqueued h) @ fn_pending_queue (fm_fe m)"
    using assms unfolding fm_inv_def fm_core_def me_inv_def me3d_lines_of by simp_all
  from arg_cong [OF this(1), of "map snd"] show ?thesis
    by (simp add: fm_bursts_def fm_left_def map_snd_me_tag ls)
qed

lemma me3d_lines_nonempty: "me3d_lines t \<noteq> []"
  unfolding me3d_lines_of [symmetric] me_lines_of_def by (subst me3d.rest_step) simp

lemma no_pending:
  assumes "me_inv me3d_load me3d_rest h s" "me_pending me3d_load me3d_rest s = []"
  shows "me_queue s = []"
proof (cases "me_current s")
  case None
  then show ?thesis using assms(2) me3d_lines_nonempty
    by (cases "me_queue s") (auto simp: me_pending_def me3d_lines_of)
next
  case (Some i)
  then show ?thesis using assms(2) by (subst (asm) me_pending_def, subst (asm) me3d.rest_step) simp
qed

lemma fm_give_event: "me_event (fm_me m) \<Longrightarrow> me_event (fm_me (fm_give ts m))"
  by (induction ts m rule: fm_give.induct) (simp_all add: me_enqueue_transfer_def)

lemma fm_clock_sends:
  assumes inv: "fm_inv qs h ls m" and event: "me_event (fm_me m)" and qs: "0 < qs" and left: "fm_left m \<noteq> []"
  shows "\<exists>b. fm_bursts (fm_step qs (Clock True) m) = fm_bursts m @ [b]" and "me_event (fm_me (fm_step qs (Clock True) m))"
proof -
  have mi: "me_inv me3d_load me3d_rest h (fm_me m)" using inv by (simp add: fm_inv_def fm_core_def)
  have "me_pending me3d_load me3d_rest (fm_me m) \<noteq> []"
  proof
    assume no: "me_pending me3d_load me3d_rest (fm_me m) = []"
    then have "fn_pending_queue (fm_fe m) = []" using no_pending [OF mi no] inv qs by (auto simp: fm_inv_def)
    with no left show False by (simp add: fm_left_def)
  qed
  then obtain x xs where "me_pending me3d_load me3d_rest (fm_me m) = x # xs" by (cases "me_pending me3d_load me3d_rest (fm_me m)") auto
  note sends = me3d.turn_sends [OF mi this, folded me3d_turn]
  have "me_sent (fm_me (fm_step qs (Clock True) m)) = me_sent (me3d_fsm_handler True (fm_me m))"
    using event by (simp add: Let_def fm_front_def)
  then show "\<exists>b. fm_bursts (fm_step qs (Clock True) m) = fm_bursts m @ [b]" using sends by (simp add: fm_bursts_def)
  show "me_event (fm_me (fm_step qs (Clock True) m))"
    using event sends fm_give_event by (auto simp: Let_def fm_front_def)
qed

lemma fm_drains:
  "fm_inv qs h ls m \<Longrightarrow> me_event (fm_me m) \<Longrightarrow> 0 < qs \<Longrightarrow> fm_left m = later \<Longrightarrow>
     fm_bursts (fm_run qs (replicate (length later) (Clock True)) m) = concat (map me3d_lines ls)"
proof (induction later arbitrary: h m)
  case Nil
  then show ?case using fm_inv_lines [OF Nil(1)] by (simp add: fm_run_def)
next
  case (Cons b bs)
  let ?m = "fm_step qs (Clock True) m"
  note sends = fm_clock_sends [OF Cons.prems(1-3)]
  obtain h' where h': "fm_inv qs h' ls ?m" using fm_inv_clock [OF Cons.prems(1)] by blast
  obtain b' where b': "fm_bursts ?m = fm_bursts m @ [b']" using sends(1) Cons.prems(4) by (metis list.distinct(1))
  then have "fm_left ?m = bs"
    using fm_inv_lines [OF h'] fm_inv_lines [OF Cons.prems(1)] Cons.prems(4) by (metis append.assoc append_Cons append_Nil list.inject same_append_eq)
  from Cons.IH [OF h' _ Cons.prems(3) this] sends(2) Cons.prems(4) show ?case by (simp add: fm_run_def del: fm_step.simps)
qed

subsection \<open>Properties\<close>

text \<open>
  C14. A launched transfer becomes its lines. In every run of the front-end with the middle-end, the bursts
  handed to the back-end are a beginning of the lines of the launched transfers that move data, in the
  order of the launches by all cores and on all streams; and no transfer is forgotten between the two
  queues: when the back-end is ready again, one turn per remaining line sends all of them, those of the
  transfers that wait in the front-end included.
\<close>

theorem idma_launch_to_lines:
  assumes "fm_start m" and "fn_nb_streams (fm_fe m) < 2 ^ 31" and "0 < qs"
  shows "\<exists>later. fm_bursts (fm_run qs es m) @ later = concat (map me3d_lines (fm_accepted qs es m))
    \<and> fm_bursts (fm_run qs (es @ Be_ready # replicate (length later) (Clock True)) m)
        = concat (map me3d_lines (fm_accepted qs es m))"
proof -
  let ?m = "fm_run qs es m"
  obtain h where h: "fm_inv qs h (fm_accepted qs es m) ?m"
    using fm_inv_run [OF fm_inv_start [OF assms(1,2)], of qs es] by auto
  obtain h' where h': "fm_inv qs h' (fm_accepted qs es m) (fm_step qs Be_ready ?m)"
    using fm_inv_step [OF h, of Be_ready] by auto
  have "fm_left (fm_step qs Be_ready ?m) = fm_left ?m"
    by (simp add: fm_left_def me_update_def)
  then have "fm_bursts (fm_run qs (replicate (length (fm_left ?m)) (Clock True)) (fm_step qs Be_ready ?m))
      = concat (map me3d_lines (fm_accepted qs es m))"
    by (intro fm_drains [OF h' _ assms(3)]) (simp_all add: me_update_def)
  then show ?thesis
    using fm_inv_lines [OF h] by (intro exI [of _ "fm_left ?m"]) (simp add: fm_run_def)
qed

text \<open>
  C15. The status of a stream tells when its transfers are done. When everything launched has been handed
  to the back-end and every burst has been acknowledged, in whatever order, the status of each stream
  reads idle and its completed identifier is the last one allotted, empty transfers included.
\<close>

theorem idma_status_idle:
  assumes "fm_start m" and "fn_nb_streams (fm_fe m) < 2 ^ 31" and "m' = fm_run qs es m"
    and "fm_bursts m' = concat (map me3d_lines (fm_accepted qs es m))" and "fm_flight m' = []"
    and "i < fn_nb_streams (fm_fe m')"
  shows "s_pending (fn_streams (fm_fe m') i) = 0 \<and> s_done_id (fn_streams (fm_fe m') i) = s_next_id (fn_streams (fm_fe m') i) - 1"
proof -
  obtain h where h: "fm_inv qs h (fm_accepted qs es m) m'"
    using fm_inv_run [OF fm_inv_start [OF assms(1,2)], of qs es] assms(3) by auto
  have "fm_left m' = []" using fm_inv_lines [OF h] assms(4) by simp
  then have none: "me_pending me3d_load me3d_rest (fm_me m') = []" and fe: "fn_pending_queue (fm_fe m') = []"
    using me3d_lines_nonempty by (auto simp: fm_left_def)
  have mi: "me_inv me3d_load me3d_rest h (fm_me m')" and ids: "fn_ids_ok (fm_fe m') (fm_out h (fm_me m'))"
    and acks: "\<And>i. me_acks i h = count_of i (me_sent (fm_me m'))"
    using h assms(5) by (simp_all add: fm_inv_def fm_core_def)
  have "count_list (me_calls (fm_me m')) (Fe_ack j) = 1" if "j \<in> fst ` set (me_enqueued h)" for j
    using mi that acks no_pending [OF mi none] unfolding me_inv_def by auto
  then have "\<not> unfinished (fm_me m') x" if "x \<in> set (me_enqueued h)" for x
    using that count_list_0_iff [of "me_calls (fm_me m')" "Fe_ack (fst x)"] by (force simp: unfinished_def)
  then have "fm_out h (fm_me m') = []" by (simp add: fm_out_def filter_empty_conv)
  with ids fe assms(6) have "stream_counts (fn_streams (fm_fe m') i) 0" by (simp add: fn_ids_ok_def)
  then show ?thesis by (simp add: stream_counts_def algebra_simps)
qed

text \<open>A middle-end with a queue of one; two launches, the second waits in the front-end.\<close>

definition front_example :: front where
  "front_example = \<lparr>fm_fe = fe_nd_example, fm_me = me_start me3d_cursor_example, fm_next = 0, fm_flight = []\<rparr>"

lemma front_example_start: "fm_start front_example"
  by (simp add: fm_start_def front_example_def fe_nd_example_def me_idle_start)

lemma front_example_streams: "fn_nb_streams (fm_fe front_example) = 2"
  by (simp add: front_example_def fe_nd_example_def)

lemma lines_port_example:
  "me3d_lines (fn_transfer port_example i) = [\<lparr>b_src = 0x1c000000, b_dst = 0x10000000, b_size = 16, b_collective_op = 0, b_collective_mask = 0\<rparr>]"
  by (simp add: me3d_lines_def fn_transfer_def port_example_def)

lemma front_example_accepted:
  "fm_accepted 1 [Core_access 0 12 4 0, Core_access 0 16 4 0] front_example = map (fn_transfer port_example) [0, 1]"
  by (simp add: front_example_def fe_nd_example_def me_start_def fm_room_def fn_run_defs fn_launch_def fm_front_def)

theorem idma_launch_to_lines_witness:
  "\<exists>later :: burst list. fm_bursts (fm_run 1 ([Core_access 0 12 4 0, Core_access 0 16 4 0] @ Be_ready # replicate (length later) (Clock True)) front_example)
     = concat (map (\<lambda>i. me3d_lines (fn_transfer port_example i)) [0, 1])"
  using idma_launch_to_lines [OF front_example_start, of 1 "[Core_access 0 12 4 0, Core_access 0 16 4 0]"]
  unfolding front_example_accepted by (auto simp: front_example_streams)

text \<open>One launch, its line, and the acknowledgement.\<close>

definition idle_events :: "front_event list" where
  "idle_events = [Core_access 0 12 4 0, Clock True, Be_done 0]"

lemma port_example_fields:
  "t_src (fn_transfer port_example i) = 0x1c000000" "t_dst (fn_transfer port_example i) = 0x10000000"
  "t_size (fn_transfer port_example i) = 16" "t_config (fn_transfer port_example i) = 0"
  by (simp_all add: fn_transfer_def port_example_def)

lemma idle_example_launched:
  "fm_step 1 (Core_access 0 12 4 0) front_example =
     front_example\<lparr>fm_fe := fe_nd_example\<lparr>fn_calls := [fe_call.Me_enqueue (fn_transfer port_example 0)],
        fn_streams := (\<lambda>i. if i = 0 then \<lparr>s_next_id = 2, s_done_id = 0, s_pending = 1\<rparr> else \<lparr>s_next_id = 1, s_done_id = 0, s_pending = 0\<rparr>)\<rparr>,
      fm_me := me_enqueue_transfer 0 (fn_transfer port_example 0) (me_start me3d_cursor_example), fm_next := 1\<rparr>"
  by (simp add: front_example_def fe_nd_example_def me_start_def fm_room_def fn_run_defs fm_front_def fun_eq_iff)

lemma idle_example_sent:
  "me3d_fsm_handler True (me_enqueue_transfer 0 (fn_transfer port_example 0) (me_start me3d_cursor_example))
    = (me_start me3d_cursor_example)\<lparr>me_store := (\<lambda>_. transfer_example)(0 := fn_transfer port_example 0), me_nb_bursts := (\<lambda>_. 0)(0 := 1),
        me_bursts_sent := (\<lambda>_. False)(0 := True), me_event := True,
        me_cursor := \<lparr>c3_src = 0x1c000000, c3_dst = 0x10000000, c3_reps = 0, c3_reps_init = 1, c3_reps_3d = 0\<rparr>,
        me_calls := [Fe_update, Be_enqueue 0 (line_example 0x1c000000 0x10000000)]\<rparr>"
  by (simp add: me3d_fsm_handler_def me_enqueue_transfer_def me_start_def Let_def me3d_load_def port_example_fields
      me_finish_def me_call_def me3d_burst_def line_example_def)

lemma idle_example_clock:
  assumes "fm_fe m = fe_nd_example\<lparr>fn_calls := c, fn_streams := st\<rparr>" and "fm_flight m = []"
    and "fm_me m = me_enqueue_transfer 0 (fn_transfer port_example 0) (me_start me3d_cursor_example)"
  shows "fm_step 1 (Clock True) m = m\<lparr>fm_me := me3d_fsm_handler True (fm_me m), fm_flight := [0]\<rparr>"
proof -
  have me: "me_event (fm_me m)" "me_sent (fm_me m) = []" "me_calls (fm_me m) = []"
    by (simp_all add: assms(3) me_enqueue_transfer_def me_start_def me_sent_def)
  have sent: "me_sent (me3d_fsm_handler True (fm_me m)) = [(0, line_example 0x1c000000 0x10000000)]"
    unfolding assms(3) idle_example_sent by (simp add: me_sent_def)
  have fe: "fn_update n (fm_fe m) = fm_fe m" for n
    by (cases n) (simp_all add: assms(1) fn_update_def fe_nd_example_def)
  show ?thesis
    by (simp add: me sent fe assms(2) fm_front_def fn_given_def Let_def)
qed

lemma idle_example_ack:
  "me_ack_transfer 0 (me3d_fsm_handler True (me_enqueue_transfer 0 (fn_transfer port_example 0) (me_start me3d_cursor_example)))
    = me_call (Fe_ack 0) ((me3d_fsm_handler True (me_enqueue_transfer 0 (fn_transfer port_example 0) (me_start me3d_cursor_example)))
        \<lparr>me_nb_bursts := (\<lambda>_. 0)(0 := 0)\<rparr>)"
  unfolding idle_example_sent by (simp add: me_ack_transfer_def)

lemma idle_example:
  "fm_bursts (fm_run 1 idle_events front_example) = [line_example 0x1c000000 0x10000000]
   \<and> fm_flight (fm_run 1 idle_events front_example) = [] \<and> fn_nb_streams (fm_fe (fm_run 1 idle_events front_example)) = 2
   \<and> s_next_id (fn_streams (fm_fe (fm_run 1 idle_events front_example)) 0) = 2"
proof -
  let ?m = "fm_step 1 (Core_access 0 12 4 0) front_example"
  have m: "fm_step 1 (Clock True) ?m = ?m\<lparr>fm_me := me3d_fsm_handler True (fm_me ?m), fm_flight := [0]\<rparr>"
    by (rule idle_example_clock) (simp_all only: idle_example_launched, simp_all add: front_example_def)
  have run: "fm_run 1 idle_events front_example
      = fm_step 1 (Be_done 0) (?m\<lparr>fm_me := me3d_fsm_handler True (fm_me ?m), fm_flight := [0]\<rparr>)"
    by (simp only: fm_run_def idle_events_def fold_simps o_apply id_apply m)
  have st: "t_stream (fn_transfer port_example 0) = 0" by (simp add: t_stream_transfer)
  show ?thesis
    unfolding run idle_example_launched
    by (simp add: idle_example_ack new_calls_def me_call_def Let_def fm_bursts_def st del: fm_step.simps(1,2))
       (simp add: idle_example_sent me_sent_def fe_nd_example_def)
qed

theorem idma_status_idle_witness:
  "s_done_id (fn_streams (fm_fe (fm_run 1 idle_events front_example)) 0) = 1"
proof -
  have "fm_accepted 1 idle_events front_example = [fn_transfer port_example 0]"
    by (simp add: idle_events_def front_example_def fe_nd_example_def me_start_def fm_room_def fn_run_defs fn_launch_def)
  then have "fm_bursts (fm_run 1 idle_events front_example) = concat (map me3d_lines (fm_accepted 1 idle_events front_example))"
    using idle_example by (simp add: lines_port_example line_example_def)
  from idma_status_idle [OF front_example_start _ refl this, of 0] idle_example show ?thesis
    by (simp add: front_example_streams)
qed

end
