(* ===== verification/Floonoc.thy ===== *)
theory Floonoc
  imports Prelude
begin

section \<open>The FlooNoC routers (\<open>src/pulp/floonoc/floonoc_router.cpp\<close>, \<open>floonoc.cpp\<close>)\<close>

text \<open>
  A mesh of routers with five input queues each, one per direction and a local one. A router takes
  requests from its queues in round-robin order and pushes each to the next router or to a network
  interface; a queue that overflows by one stalls the output of its sender, which the router unstalls
  when it pops the request. Routers call each other directly, so the model's state is the whole mesh.

  The queue of the engine delays what is pushed: whether its head is visible is asked of \<open>hidden\<close>, per
  router and queue, at each turn. A network interface receives requests (\<open>n_delivered\<close>), answers
  whether it stalls (\<open>ni_stalls\<close>) and is told when it may send again (\<open>n_unstalled\<close>).
\<close>

type_synonym pos = "int \<times> int"

text \<open>The routing fields of a request: \<open>REQ_DEST_X\<close>, \<open>REQ_DEST_Y\<close>, and a name for it.\<close>

record flit =
  f_dest_x :: int
  f_dest_y :: int
  f_req :: nat

datatype node = Router_node pos | Ni_node pos

abbreviation DIR_RIGHT :: nat where "DIR_RIGHT \<equiv> 0"
abbreviation DIR_LEFT :: nat where "DIR_LEFT \<equiv> 1"
abbreviation DIR_UP :: nat where "DIR_UP \<equiv> 2"
abbreviation DIR_DOWN :: nat where "DIR_DOWN \<equiv> 3"
abbreviation DIR_LOCAL :: nat where "DIR_LOCAL \<equiv> 4"

record router =
  r_queues :: "nat \<Rightarrow> flit list"
  r_stalled_node :: "nat \<Rightarrow> node"
  r_stalled :: "nat \<Rightarrow> bool"
  r_current :: nat
  r_event :: bool

record noc =
  n_dim_x :: int
  n_dim_y :: int
  n_queue_size :: nat
  n_routers :: "pos \<Rightarrow> router option"
  n_delivered :: "(pos \<times> flit) list"
  n_unstalled :: "(pos \<times> pos) list"

subsection \<open>Routing\<close>

text \<open>
  The position of the next router. A negative x coordinate selects a direction; below -4 the code
  leaves the result uninitialised.
\<close>

definition get_next_router_pos :: "int \<Rightarrow> pos \<Rightarrow> int \<Rightarrow> int \<Rightarrow> pos option" where
  "get_next_router_pos dim_x p dest_x dest_y =
     (let (x, y) = p
      in if dest_x < 0 then
           (if dest_x + 4 = 2 then Some (x, y + 1)
            else if dest_x + 4 = 3 then Some (x, y - 1)
            else if dest_x + 4 = 0 then Some (x + 1, y)
            else if dest_x + 4 = 1 then Some (x - 1, y)
            else None)
         else if dest_x = x \<and> dest_y = y then Some (x, y)
         else let next_x = (if dest_x < x then x - 1 else x + 1)
              in if dest_x \<noteq> x \<and> (next_x \<noteq> 0 \<and> next_x \<noteq> dim_x - 1 \<or> y = dest_y) then Some (next_x, y)
                 else Some (x, if dest_y < y then y - 1 else y + 1))"

definition get_req_queue :: "pos \<Rightarrow> pos \<Rightarrow> nat" where
  "get_req_queue p from_pos =
     (let (x, y) = p; (from_x, from_y) = from_pos
      in if from_x \<noteq> x then (if from_x < x then DIR_LEFT else DIR_RIGHT)
         else if from_y \<noteq> y then (if from_y < y then DIR_DOWN else DIR_UP)
         else DIR_LOCAL)"

definition get_pos_from_queue :: "pos \<Rightarrow> nat \<Rightarrow> pos" where
  "get_pos_from_queue p q =
     (let (x, y) = p
      in if q = DIR_RIGHT then (x + 1, y) else if q = DIR_LEFT then (x - 1, y)
         else if q = DIR_UP then (x, y + 1) else if q = DIR_DOWN then (x, y - 1) else (x, y))"

text \<open>
  The neighbours set up by the constructor of the network. The code looks a position up at the index
  \<open>y * dim_x + x\<close> of its arrays, which is a different one for each position of the grid; the neighbours
  of a router in the interior are in the grid.
\<close>

lemma neighbour_index_inj:
  assumes "0 \<le> x" "x < dim_x" "0 \<le> x'" "x' < dim_x" "y * dim_x + x = y' * dim_x + (x' :: int)"
  shows "x = x' \<and> y = y'"
proof -
  have "(y * dim_x + x) div dim_x = y" "(y' * dim_x + x') div dim_x = y'" using assms(1-4) by auto
  with assms(5) show ?thesis by simp
qed

definition get_router_neighbour :: "noc \<Rightarrow> pos \<Rightarrow> node" where
  "get_router_neighbour s p = (if n_routers s p \<noteq> None then Router_node p else Ni_node p)"

definition output_node :: "noc \<Rightarrow> pos \<Rightarrow> nat \<Rightarrow> node" where
  "output_node s p dir =
     (if dir = DIR_LOCAL then Ni_node p else get_router_neighbour s (get_pos_from_queue p dir))"

subsection \<open>Calls between nodes\<close>

definition upd_router :: "pos \<Rightarrow> (router \<Rightarrow> router) \<Rightarrow> noc \<Rightarrow> noc" where
  "upd_router p f s = s\<lparr>n_routers := (n_routers s)(p := map_option f (n_routers s p))\<rparr>"

definition router_handle_request :: "pos \<Rightarrow> node \<Rightarrow> flit \<Rightarrow> pos \<Rightarrow> noc \<Rightarrow> bool \<times> noc" where
  "router_handle_request p sender f from_pos s =
     (case n_routers s p of
        None \<Rightarrow> (False, s)
      | Some r \<Rightarrow>
          let i = get_req_queue p from_pos; q = r_queues r i @ [f];
              stalled = n_queue_size s < length q
          in (stalled, upd_router p (\<lambda>r. r\<lparr>r_queues := (r_queues r)(i := q), r_event := True,
                         r_stalled_node := (if stalled then (r_stalled_node r)(i := sender)
                                            else r_stalled_node r)\<rparr>) s))"

definition router_unstall_queue :: "pos \<Rightarrow> pos \<Rightarrow> noc \<Rightarrow> noc" where
  "router_unstall_queue p from_pos =
     upd_router p (\<lambda>r. r\<lparr>r_stalled := (r_stalled r)(get_req_queue p from_pos := False), r_event := True\<rparr>)"

definition router_stall_queue :: "pos \<Rightarrow> pos \<Rightarrow> noc \<Rightarrow> noc" where
  "router_stall_queue p from_pos = upd_router p (\<lambda>r. r\<lparr>r_stalled := (r_stalled r)(get_req_queue p from_pos := True)\<rparr>)"

definition node_handle_request :: "(pos \<Rightarrow> bool) \<Rightarrow> node \<Rightarrow> node \<Rightarrow> flit \<Rightarrow> pos \<Rightarrow> noc \<Rightarrow> bool \<times> noc" where
  "node_handle_request ni_stalls n sender f from_pos s =
     (case n of
        Router_node p \<Rightarrow> router_handle_request p sender f from_pos s
      | Ni_node p \<Rightarrow> (ni_stalls p, s\<lparr>n_delivered := n_delivered s @ [(p, f)]\<rparr>))"

definition node_unstall_queue :: "node \<Rightarrow> pos \<Rightarrow> noc \<Rightarrow> noc" where
  "node_unstall_queue n from_pos s =
     (case n of
        Router_node p \<Rightarrow> router_unstall_queue p from_pos s
      | Ni_node p \<Rightarrow> s\<lparr>n_unstalled := n_unstalled s @ [(p, from_pos)]\<rparr>)"

subsection \<open>A turn of a router\<close>

text \<open>The request at the head of queue \<open>i\<close> leaves, through output \<open>o_dir\<close>.\<close>

definition router_pop :: "pos \<Rightarrow> nat \<Rightarrow> noc \<Rightarrow> noc" where
  "router_pop p i s =
     (case n_routers s p of
        None \<Rightarrow> s
      | Some r \<Rightarrow>
          let rest = tl (r_queues r i);
              s1 = upd_router p (\<lambda>r. r\<lparr>r_queues := (r_queues r)(i := rest)\<rparr>) s
          in if length rest = n_queue_size s then node_unstall_queue (r_stalled_node r i) p s1 else s1)"

definition router_forward :: "(pos \<Rightarrow> bool) \<Rightarrow> pos \<Rightarrow> nat \<Rightarrow> flit \<Rightarrow> noc \<Rightarrow> noc" where
  "router_forward ni_stalls p o_dir f s =
     (case node_handle_request ni_stalls (output_node s p o_dir) (Router_node p) f p s of
        (stalls, s1) \<Rightarrow>
          if stalls then upd_router p (\<lambda>r. r\<lparr>r_stalled := (r_stalled r)(o_dir := True)\<rparr>) s1 else s1)"

definition next_queue :: "nat \<Rightarrow> nat" where
  "next_queue i = (if i + 1 = 5 then 0 else i + 1)"

text \<open>
  One of the five input queues: \<open>full\<close> is \<open>output_full\<close>. The event is enqueued again when a request was
  forwarded, waits for its output, or is not visible yet.
\<close>

definition router_try ::
  "(nat \<Rightarrow> bool) \<Rightarrow> (pos \<Rightarrow> bool) \<Rightarrow> pos \<Rightarrow> nat \<Rightarrow> (nat \<Rightarrow> bool) \<times> noc \<Rightarrow> (nat \<Rightarrow> bool) \<times> noc" where
  "router_try hidden ni_stalls p i st =
     (let (full, s) = st
      in case n_routers s p of
           None \<Rightarrow> (full, s)
         | Some r \<Rightarrow>
             (case r_queues r i of
                [] \<Rightarrow> (full, s)
              | f # rest \<Rightarrow>
                  if hidden i then (full, upd_router p (r_event_update (\<lambda>_. True)) s)
                  else (case get_next_router_pos (n_dim_x s) p (f_dest_x f) (f_dest_y f) of
                          None \<Rightarrow> (full, s)
                        | Some next_pos \<Rightarrow>
                            let o_dir = get_req_queue p next_pos
                            in if full o_dir then (full, upd_router p (r_event_update (\<lambda>_. True)) s)
                               else if r_stalled r o_dir then (full(o_dir := True), s)
                               else (full(o_dir := True),
                                     upd_router p (\<lambda>r. r\<lparr>r_current := next_queue i, r_event := True\<rparr>)
                                       (router_forward ni_stalls p o_dir f (router_pop p i s))))))"

fun router_scan ::
  "nat \<Rightarrow> (nat \<Rightarrow> bool) \<Rightarrow> (pos \<Rightarrow> bool) \<Rightarrow> pos \<Rightarrow> nat \<Rightarrow> (nat \<Rightarrow> bool) \<times> noc \<Rightarrow> (nat \<Rightarrow> bool) \<times> noc" where
  "router_scan 0 hidden ni_stalls p i st = st"
| "router_scan (Suc n) hidden ni_stalls p i st =
     router_scan n hidden ni_stalls p (next_queue i) (router_try hidden ni_stalls p i st)"

definition router_fsm_handler :: "(nat \<Rightarrow> bool) \<Rightarrow> (pos \<Rightarrow> bool) \<Rightarrow> pos \<Rightarrow> noc \<Rightarrow> noc" where
  "router_fsm_handler hidden ni_stalls p s0 =
     (case n_routers s0 p of
        None \<Rightarrow> s0
      | Some r \<Rightarrow>
          snd (router_scan 5 hidden ni_stalls p (r_current r)
                 (\<lambda>_. False, upd_router p (r_event_update (\<lambda>_. False)) s0)))"

definition router_reset :: "router \<Rightarrow> router" where
  "router_reset r = r\<lparr>r_current := 0, r_stalled := (\<lambda>i. if i < 5 then False else r_stalled r i)\<rparr>"

subsection \<open>The route of a request\<close>

fun route :: "nat \<Rightarrow> int \<Rightarrow> pos \<Rightarrow> pos \<Rightarrow> pos list" where
  "route 0 dim_x dest p = []"
| "route (Suc n) dim_x dest p =
     (if p = dest then []
      else case get_next_router_pos dim_x p (fst dest) (snd dest) of
             None \<Rightarrow> [] | Some q \<Rightarrow> q # route n dim_x dest q)"

end
