(* ===== verification/Floonoc_Route.thy ===== *)
theory Floonoc_Route
  imports Floonoc
begin

section \<open>The routes of the FlooNoC\<close>

text \<open>
  Every step of the routing brings a request one position nearer to its destination, so a route has
  the length of the distance; routers fill the interior of the grid and network interfaces its border,
  and a route only leaves the interior at its end.
\<close>

definition distance :: "pos \<Rightarrow> pos \<Rightarrow> nat" where
  "distance p q = nat \<bar>fst p - fst q\<bar> + nat \<bar>snd p - snd q\<bar>"

definition interior :: "int \<Rightarrow> int \<Rightarrow> pos \<Rightarrow> bool" where
  "interior dim_x dim_y p \<longleftrightarrow> 0 < fst p \<and> fst p < dim_x - 1 \<and> 0 < snd p \<and> snd p < dim_y - 1"

text \<open>A destination of the grid in a row or a column of the interior.\<close>

definition reachable_dest :: "int \<Rightarrow> int \<Rightarrow> pos \<Rightarrow> bool" where
  "reachable_dest dim_x dim_y d \<longleftrightarrow>
     0 \<le> fst d \<and> fst d \<le> dim_x - 1 \<and> 0 \<le> snd d \<and> snd d \<le> dim_y - 1 \<and>
     (0 < fst d \<and> fst d < dim_x - 1 \<or> 0 < snd d \<and> snd d < dim_y - 1)"

lemma next_pos_nearer:
  assumes "0 \<le> fst d" "p \<noteq> d"
  obtains q where "get_next_router_pos dim_x p (fst d) (snd d) = Some q"
    and "distance p d = Suc (distance q d)"
proof (cases p, cases d)
  fix x y dx dy
  assume [simp]: "p = (x, y)" "d = (dx, dy)"
  have "\<exists>q. get_next_router_pos dim_x p dx dy = Some q \<and> distance p d = Suc (distance q d)"
    using assms by (auto simp: get_next_router_pos_def distance_def Let_def)
  then show thesis using that by auto
qed

lemma next_pos_interior:
  assumes "interior dim_x dim_y p" "reachable_dest dim_x dim_y d"
    "get_next_router_pos dim_x p (fst d) (snd d) = Some q" "q \<noteq> d"
  shows "interior dim_x dim_y q"
proof (cases p, cases d)
  fix x y dx dy
  assume [simp]: "p = (x, y)" "d = (dx, dy)"
  show ?thesis using assms
    by (auto simp: get_next_router_pos_def interior_def reachable_dest_def Let_def split: if_splits)
qed

lemma route_length_last:
  "0 \<le> fst d \<Longrightarrow> distance p d \<le> n \<Longrightarrow>
     length (route n dim_x d p) = distance p d \<and> last (p # route n dim_x d p) = d"
proof (induction n arbitrary: p)
  case 0
  then show ?case by (cases p, cases d) (auto simp: distance_def)
next
  case (Suc n)
  show ?case
  proof (cases "p = d")
    case True
    then show ?thesis by (simp add: distance_def)
  next
    case False
    obtain q where q: "get_next_router_pos dim_x p (fst d) (snd d) = Some q" "distance p d = Suc (distance q d)"
      using next_pos_nearer [OF Suc.prems(1) False] by blast
    with Suc.prems have "distance q d \<le> n" by simp
    with Suc.IH [OF Suc.prems(1)] False q show ?thesis by simp
  qed
qed

lemma route_interior:
  assumes "reachable_dest dim_x dim_y d"
  shows "interior dim_x dim_y p \<Longrightarrow> q \<in> set (butlast (route n dim_x d p)) \<Longrightarrow> interior dim_x dim_y q"
proof (induction n arbitrary: p)
  case (Suc n)
  from Suc.prems(2) obtain q' where q': "get_next_router_pos dim_x p (fst d) (snd d) = Some q'"
    and pd: "p \<noteq> d" and mem: "q \<in> set (butlast (q' # route n dim_x d q'))"
    by (auto split: if_splits option.splits)
  show ?case
  proof (cases "q' = d")
    case True
    with mem show ?thesis by (cases n) auto
  next
    case False
    have "interior dim_x dim_y q'" using next_pos_interior [OF Suc.prems(1) assms q' False] .
    with mem Suc.IH [of q'] show ?thesis by (auto split: if_splits)
  qed
qed simp

text \<open>
  C20. From any position, a request for a destination with a coordinate that is not negative reaches it
  in exactly as many steps as the grid distance; when the destination is not a corner of the grid and
  the request starts at a router of the interior, all the nodes before the last are routers of the
  interior too.
\<close>

theorem floonoc_route_reaches:
  assumes "0 \<le> fst d" "distance p d \<le> n"
  shows "length (route n dim_x d p) = distance p d \<and> last (p # route n dim_x d p) = d \<and>
    (interior dim_x dim_y p \<longrightarrow> reachable_dest dim_x dim_y d \<longrightarrow>
       (\<forall>q \<in> set (butlast (route n dim_x d p)). interior dim_x dim_y q))"
  using route_length_last [OF assms] route_interior by blast

theorem floonoc_route_reaches_witness:
  "route 6 5 (4, 3) (1, 1) = [(2, 1), (3, 1), (3, 2), (3, 3), (4, 3)] \<and>
   length (route 6 5 (4, 3) (1, 1)) = distance (1, 1) (4, 3) \<and>
   list_all (interior 5 5) (butlast (route 6 5 (4, 3) (1, 1)))"
proof -
  have d: "(0::int) \<le> fst (4::int, 3::int)" "distance (1, 1) (4, 3) \<le> 6" by (simp_all add: distance_def)
  have r: "route 6 5 (4, 3) (1, 1) = [(2, 1), (3, 1), (3, 2), (3, 3), (4, 3)]"
    by (simp add: eval_nat_numeral get_next_router_pos_def Let_def)
  have "interior 5 5 (1, 1)" "reachable_dest 5 5 (4, 3)" by (simp_all add: interior_def reachable_dest_def)
  with floonoc_route_reaches [OF d, of 5 5] r show ?thesis unfolding list_all_iff by blast
qed

text \<open>
  A corner is not reached through the interior: the route to it passes a node of the border, which
  the mesh only crosses when a router was placed there.
\<close>

lemma route_to_corner: "route 4 4 (0, 0) (1, 1) = [(1, 0), (0, 0)] \<and> \<not> interior 4 4 (1, 0)"
  by (simp add: eval_nat_numeral get_next_router_pos_def Let_def interior_def)

end
