(* ===== verification/Floonoc_Flow.thy ===== *)
theory Floonoc_Flow
  imports Floonoc
begin

section \<open>Flow control between the routers\<close>

text \<open>
  What a state shows of a position, the effect of each call on it, and the invariant of the flow
  control: a queue holds at most one request more than its size, and the output that feeds it is
  stalled exactly while it does. Then that no router forgets a request it could forward.
\<close>

definition is_router :: "noc \<Rightarrow> pos \<Rightarrow> bool" where
  "is_router s p \<longleftrightarrow> n_routers s p \<noteq> None"

definition queue_at :: "noc \<Rightarrow> pos \<Rightarrow> nat \<Rightarrow> flit list" where
  "queue_at s p i = (case n_routers s p of None \<Rightarrow> [] | Some r \<Rightarrow> r_queues r i)"

definition stalled_at :: "noc \<Rightarrow> pos \<Rightarrow> nat \<Rightarrow> bool" where
  "stalled_at s p d = (case n_routers s p of None \<Rightarrow> False | Some r \<Rightarrow> r_stalled r d)"

definition feeder_at :: "noc \<Rightarrow> pos \<Rightarrow> nat \<Rightarrow> node" where
  "feeder_at s p i = (case n_routers s p of None \<Rightarrow> Ni_node p | Some r \<Rightarrow> r_stalled_node r i)"

definition event_at :: "noc \<Rightarrow> pos \<Rightarrow> bool" where
  "event_at s p = (case n_routers s p of None \<Rightarrow> True | Some r \<Rightarrow> r_event r)"

lemmas noc_obs = is_router_def queue_at_def stalled_at_def feeder_at_def event_at_def

subsection \<open>Directions\<close>

definition opposite :: "nat \<Rightarrow> nat" where
  "opposite d = (if d = 0 then 1 else if d = 1 then 0 else if d = 2 then 3 else if d = 3 then 2 else d)"

lemma get_req_queue_less [simp]: "get_req_queue p q < 5"
  by (simp add: get_req_queue_def split: prod.split)

lemma less_5_cases: "(d :: nat) < 5 \<Longrightarrow> d = 0 \<or> d = 1 \<or> d = 2 \<or> d = 3 \<or> d = 4"
  by auto

lemma get_req_queue_neighbour: "d < 5 \<Longrightarrow> get_req_queue p (get_pos_from_queue p d) = d"
  by (cases p) (auto dest!: less_5_cases simp: get_req_queue_def get_pos_from_queue_def)

lemma get_req_queue_back: "d < 5 \<Longrightarrow> get_req_queue (get_pos_from_queue p d) p = opposite d"
  by (cases p) (auto dest!: less_5_cases simp: get_req_queue_def get_pos_from_queue_def opposite_def)

lemma neighbour_back: "d < 5 \<Longrightarrow> get_pos_from_queue (get_pos_from_queue p d) (opposite d) = p"
  by (cases p) (auto dest!: less_5_cases simp: get_pos_from_queue_def opposite_def)

lemma neighbour_neq: "d < 4 \<Longrightarrow> get_pos_from_queue p d \<noteq> p"
  by (cases p) (auto simp: get_pos_from_queue_def)

lemma opposite_less: "d < 5 \<Longrightarrow> opposite d < 5" "d < 4 \<Longrightarrow> opposite d < 4"
  by (auto simp: opposite_def)

lemma opposite_opposite [simp]: "opposite (opposite d) = d"
  by (auto simp: opposite_def)

subsection \<open>What the calls change\<close>

lemma output_node_obs: "output_node s p d =
    (if d \<noteq> DIR_LOCAL \<and> is_router s (get_pos_from_queue p d) then Router_node (get_pos_from_queue p d)
     else if d = DIR_LOCAL then Ni_node p else Ni_node (get_pos_from_queue p d))"
  by (simp add: output_node_def get_router_neighbour_def is_router_def)

lemma upd_router_obs [simp]:
  "is_router (upd_router p f s) q = is_router s q"
  "n_queue_size (upd_router p f s) = n_queue_size s"
  "n_dim_x (upd_router p f s) = n_dim_x s"
  "n_delivered (upd_router p f s) = n_delivered s"
  "n_routers (upd_router p f s) q = (if q = p then map_option f (n_routers s p) else n_routers s q)"
  by (auto simp: upd_router_def is_router_def)

lemma node_unstall_queue_frame [simp]:
  "is_router (node_unstall_queue n p s) q = is_router s q"
  "n_queue_size (node_unstall_queue n p s) = n_queue_size s"
  "n_dim_x (node_unstall_queue n p s) = n_dim_x s"
  "n_delivered (node_unstall_queue n p s) = n_delivered s"
  "queue_at (node_unstall_queue n p s) q i = queue_at s q i"
  "feeder_at (node_unstall_queue n p s) q i = feeder_at s q i"
  by (auto simp: node_unstall_queue_def router_unstall_queue_def noc_obs split: node.split option.split)

lemma node_unstall_queue_stalled:
  "stalled_at (node_unstall_queue n p s) q d \<longleftrightarrow>
     stalled_at s q d \<and> \<not> (n = Router_node q \<and> d = get_req_queue q p)"
  by (auto simp: node_unstall_queue_def router_unstall_queue_def noc_obs split: node.split option.split)

lemma node_unstall_queue_event:
  "event_at (node_unstall_queue n p s) q \<longleftrightarrow> event_at s q \<or> n = Router_node q"
  by (auto simp: node_unstall_queue_def router_unstall_queue_def noc_obs split: node.split option.split)

lemma router_pop_frame [simp]:
  "is_router (router_pop p i s) q = is_router s q"
  "n_queue_size (router_pop p i s) = n_queue_size s"
  "n_dim_x (router_pop p i s) = n_dim_x s"
  "n_delivered (router_pop p i s) = n_delivered s"
  "feeder_at (router_pop p i s) q j = feeder_at s q j"
  by (auto simp: router_pop_def Let_def split: option.split)
     (auto simp: noc_obs)

lemma router_pop_queue:
  "queue_at (router_pop p i s) q j = (if q = p \<and> j = i then tl (queue_at s p i) else queue_at s q j)"
  by (auto simp: router_pop_def Let_def split: option.split) (auto simp: noc_obs)

lemma upd_queues_stalled [simp]: "stalled_at (upd_router p (\<lambda>r. r\<lparr>r_queues := g r\<rparr>) s) q d = stalled_at s q d"
  by (auto simp: noc_obs split: option.split)

lemma router_pop_stalled:
  assumes "queue_at s p i \<noteq> []"
  shows "stalled_at (router_pop p i s) q d \<longleftrightarrow> stalled_at s q d \<and>
     \<not> (length (queue_at s p i) = Suc (n_queue_size s) \<and> feeder_at s p i = Router_node q \<and> d = get_req_queue q p)"
proof (cases "n_routers s p")
  case None
  with assms show ?thesis by (simp add: queue_at_def)
next
  case (Some r)
  then have "r_queues r i \<noteq> []" using assms by (simp add: queue_at_def)
  then have "length (tl (r_queues r i)) = n_queue_size s \<longleftrightarrow> length (r_queues r i) = Suc (n_queue_size s)"
    by (cases "r_queues r i") auto
  with Some show ?thesis
    by (simp add: router_pop_def Let_def node_unstall_queue_stalled queue_at_def feeder_at_def)
qed

lemma router_pop_event:
  "event_at s q \<Longrightarrow> event_at (router_pop p i s) q"
  by (auto simp: router_pop_def Let_def node_unstall_queue_event split: option.split) (auto simp: noc_obs)


lemma router_handle_request_obs:
  assumes "router_handle_request p sender f from_pos s = (st, s')" and "is_router s p"
  defines "i \<equiv> get_req_queue p from_pos"
  shows "st \<longleftrightarrow> n_queue_size s \<le> length (queue_at s p i)"
    "queue_at s' q j = (if q = p \<and> j = i then queue_at s p i @ [f] else queue_at s q j)"
    "stalled_at s' q d = stalled_at s q d"
    "event_at s' q \<longleftrightarrow> event_at s q \<or> q = p"
    "feeder_at s' q j = (if q = p \<and> j = i \<and> st then sender else feeder_at s q j)"
    "is_router s' q = is_router s q" "n_queue_size s' = n_queue_size s" "n_dim_x s' = n_dim_x s"
    "n_delivered s' = n_delivered s"
proof -
  obtain r where r: "n_routers s p = Some r" using assms(2) by (auto simp: is_router_def)
  let ?q = "r_queues r i @ [f]"
  have st: "st \<longleftrightarrow> n_queue_size s \<le> length (r_queues r i)"
    and s': "s' = upd_router p (\<lambda>r. r\<lparr>r_queues := (r_queues r)(i := ?q), r_event := True,
       r_stalled_node := (if st then (r_stalled_node r)(i := sender) else r_stalled_node r)\<rparr>) s"
    using assms(1) r unfolding i_def by (auto simp: router_handle_request_def Let_def)
  show "st \<longleftrightarrow> n_queue_size s \<le> length (queue_at s p i)" using st r by (simp add: queue_at_def)
  show "queue_at s' q j = (if q = p \<and> j = i then queue_at s p i @ [f] else queue_at s q j)"
    "stalled_at s' q d = stalled_at s q d" "event_at s' q \<longleftrightarrow> event_at s q \<or> q = p"
    "feeder_at s' q j = (if q = p \<and> j = i \<and> st then sender else feeder_at s q j)"
    by (cases "q = p"; simp add: s' r noc_obs)+
  show "is_router s' q = is_router s q" "n_queue_size s' = n_queue_size s" "n_dim_x s' = n_dim_x s"
    "n_delivered s' = n_delivered s" by (simp_all add: s')
qed

lemma ni_handle_request_obs:
  assumes "node_handle_request ni (Ni_node n) sender f p s = (st, s')"
  shows "s' = s\<lparr>n_delivered := n_delivered s @ [(n, f)]\<rparr>" "st = ni n"
  using assms by (auto simp: node_handle_request_def)

lemma delivered_obs [simp]:
  "is_router (n_delivered_update g s) q = is_router s q"
  "queue_at (n_delivered_update g s) q j = queue_at s q j"
  "stalled_at (n_delivered_update g s) q d = stalled_at s q d"
  "feeder_at (n_delivered_update g s) q j = feeder_at s q j"
  "event_at (n_delivered_update g s) q = event_at s q"
  by (simp_all add: noc_obs)

subsection \<open>The invariant of the flow control\<close>

definition flow_ok :: "noc \<Rightarrow> bool" where
  "flow_ok s \<longleftrightarrow>
     (\<forall>p i. i < 5 \<longrightarrow> length (queue_at s p i) \<le> Suc (n_queue_size s)) \<and>
     (\<forall>p d. d < 4 \<longrightarrow> is_router s p \<longrightarrow> is_router s (get_pos_from_queue p d) \<longrightarrow>
        (stalled_at s p d \<longleftrightarrow> n_queue_size s < length (queue_at s (get_pos_from_queue p d) (opposite d)))) \<and>
     (\<forall>p i. i < 5 \<longrightarrow> n_queue_size s < length (queue_at s p i) \<longrightarrow> feeder_at s p i = output_node s p i)"

lemma flow_okI:
  assumes "\<And>p i. i < 5 \<Longrightarrow> length (queue_at s p i) \<le> Suc (n_queue_size s)"
    and "\<And>p d. d < 4 \<Longrightarrow> is_router s p \<Longrightarrow> is_router s (get_pos_from_queue p d) \<Longrightarrow>
        stalled_at s p d \<longleftrightarrow> n_queue_size s < length (queue_at s (get_pos_from_queue p d) (opposite d))"
    and "\<And>p i. i < 5 \<Longrightarrow> n_queue_size s < length (queue_at s p i) \<Longrightarrow> feeder_at s p i = output_node s p i"
  shows "flow_ok s"
  unfolding flow_ok_def using assms by blast

lemma flow_okD:
  assumes "flow_ok s"
  shows "i < 5 \<Longrightarrow> length (queue_at s p i) \<le> Suc (n_queue_size s)"
    and "d < 4 \<Longrightarrow> is_router s p \<Longrightarrow> is_router s (get_pos_from_queue p d) \<Longrightarrow>
        stalled_at s p d \<longleftrightarrow> n_queue_size s < length (queue_at s (get_pos_from_queue p d) (opposite d))"
    and "i < 5 \<Longrightarrow> n_queue_size s < length (queue_at s p i) \<Longrightarrow> feeder_at s p i = output_node s p i"
  using assms unfolding flow_ok_def by blast+

lemma flow_ok_cong:
  assumes "flow_ok s" "\<And>p. is_router s' p = is_router s p" "n_queue_size s' = n_queue_size s"
    "\<And>p i. queue_at s' p i = queue_at s p i" "\<And>p i. feeder_at s' p i = feeder_at s p i"
    "\<And>p d. d < 4 \<Longrightarrow> is_router s p \<Longrightarrow> is_router s (get_pos_from_queue p d) \<Longrightarrow>
       stalled_at s' p d = stalled_at s p d"
  shows "flow_ok s'"
  by (rule flow_okI) (use assms in \<open>auto simp: output_node_obs dest: flow_okD\<close>)

text \<open>The edge that feeds a queue is the one the pop unstalls.\<close>

lemma feeds_same_edge:
  assumes "d < 4" "i < 5"
  shows "get_pos_from_queue q d = p \<and> opposite d = i \<longleftrightarrow>
    i < 4 \<and> q = get_pos_from_queue p i \<and> d = get_req_queue q p"
proof
  assume "get_pos_from_queue q d = p \<and> opposite d = i"
  then show "i < 4 \<and> q = get_pos_from_queue p i \<and> d = get_req_queue q p"
    using assms neighbour_back [of d q] get_req_queue_neighbour [of d q] opposite_less(2) [OF assms(1)] by auto
next
  assume "i < 4 \<and> q = get_pos_from_queue p i \<and> d = get_req_queue q p"
  then show "get_pos_from_queue q d = p \<and> opposite d = i"
    using neighbour_back [of i p] get_req_queue_back [of i p] by auto
qed

lemma output_node_cong: "(\<And>p. is_router s' p = is_router s p) \<Longrightarrow> output_node s' p d = output_node s p d"
  by (simp add: output_node_obs)

lemma router_pop_flow:
  assumes "flow_ok s" "i < 5" "queue_at s p i \<noteq> []"
  shows "flow_ok (router_pop p i s)"
proof (rule flow_okI)
  note pop = router_pop_stalled [OF assms(3)] router_pop_queue
  have len: "length (queue_at s p i) \<le> Suc (n_queue_size s)" by (rule flow_okD(1) [OF assms(1,2)])
  show "length (queue_at (router_pop p i s) q j) \<le> Suc (n_queue_size (router_pop p i s))" if "j < 5" for q j
    using flow_okD(1) [OF assms(1) that, of q] len by (auto simp: pop)
  show "feeder_at (router_pop p i s) q j = output_node (router_pop p i s) q j"
    if "j < 5" "n_queue_size (router_pop p i s) < length (queue_at (router_pop p i s) q j)" for q j
    using that flow_okD(3) [OF assms(1) that(1), of q]
    by (auto simp: pop output_node_cong [of "router_pop p i s" s] split: if_splits)
  fix q d
  assume d: "d < 4" and q: "is_router (router_pop p i s) q" "is_router (router_pop p i s) (get_pos_from_queue q d)"
  let ?n = "get_pos_from_queue q d"
  have before: "stalled_at s q d \<longleftrightarrow> n_queue_size s < length (queue_at s ?n (opposite d))"
    using flow_okD(2) [OF assms(1) d] q by simp
  have feeder: "length (queue_at s p i) = Suc (n_queue_size s) \<Longrightarrow> feeder_at s p i = output_node s p i"
    using flow_okD(3) [OF assms(1,2)] by simp
  show "stalled_at (router_pop p i s) q d \<longleftrightarrow>
    n_queue_size (router_pop p i s) < length (queue_at (router_pop p i s) ?n (opposite d))"
  proof (cases "?n = p \<and> opposite d = i")
    case True
    with feeds_same_edge [OF d assms(2)] have e: "i < 4" "q = get_pos_from_queue p i" "d = get_req_queue q p" by auto
    show ?thesis
    proof (cases "length (queue_at s p i) = Suc (n_queue_size s)")
      case full: True
      then have "feeder_at s p i = Router_node q" using feeder e q by (simp add: output_node_obs)
      with full e True show ?thesis by (simp add: pop)
    next
      case False
      with len before True show ?thesis by (auto simp: pop)
    qed
  next
    case False
    with feeds_same_edge [OF d assms(2)]
    have other: "\<not> (i < 4 \<and> q = get_pos_from_queue p i \<and> d = get_req_queue q p)" by blast
    have "\<not> (length (queue_at s p i) = Suc (n_queue_size s) \<and> feeder_at s p i = Router_node q \<and> d = get_req_queue q p)"
      using other feeder assms(2) by (auto simp: output_node_obs split: if_splits)
    with before False show ?thesis by (auto simp: pop)
  qed
qed

lemma stall_output_obs:
  fixes s p d
  defines "s' \<equiv> upd_router p (\<lambda>r. r\<lparr>r_stalled := (r_stalled r)(d := True)\<rparr>) s"
  shows "queue_at s' q i = queue_at s q i" "feeder_at s' q i = feeder_at s q i" "event_at s' q = event_at s q"
    "stalled_at s' q e \<longleftrightarrow> stalled_at s q e \<or> q = p \<and> e = d \<and> is_router s p"
  unfolding s'_def by (cases "q = p"; cases "n_routers s p"; simp add: noc_obs)+

lemma router_forward_router:
  fixes ni f
  assumes "is_router s p" "d < 4" "is_router s (get_pos_from_queue p d)"
  defines "n \<equiv> get_pos_from_queue p d" and "s' \<equiv> router_forward ni p d f s"
    and "st \<equiv> n_queue_size s \<le> length (queue_at s (get_pos_from_queue p d) (opposite d))"
  shows "queue_at s' q j = (if q = n \<and> j = opposite d then queue_at s n (opposite d) @ [f] else queue_at s q j)"
    "stalled_at s' q e \<longleftrightarrow> stalled_at s q e \<or> st \<and> q = p \<and> e = d"
    "event_at s' q \<longleftrightarrow> event_at s q \<or> q = n"
    "feeder_at s' q j = (if q = n \<and> j = opposite d \<and> st then Router_node p else feeder_at s q j)"
    "is_router s' q = is_router s q" "n_queue_size s' = n_queue_size s" "n_dim_x s' = n_dim_x s"
    "n_delivered s' = n_delivered s"
proof -
  obtain st0 s1 where call: "router_handle_request n (Router_node p) f p s = (st0, s1)"
    by (metis surj_pair)
  have i: "get_req_queue n p = opposite d" using assms(2) by (simp add: n_def get_req_queue_back)
  note eff = router_handle_request_obs [OF call assms(3) [folded n_def], unfolded i]
  have "output_node s p d = Router_node n" using assms(2,3) by (simp add: output_node_obs n_def)
  then have s': "s' = (if st0 then upd_router p (\<lambda>r. r\<lparr>r_stalled := (r_stalled r)(d := True)\<rparr>) s1 else s1)"
    unfolding s'_def router_forward_def node_handle_request_def by (simp add: call)
  have st0: "st0 = st" using eff(1) by (simp add: st_def n_def)
  show "queue_at s' q j = (if q = n \<and> j = opposite d then queue_at s n (opposite d) @ [f] else queue_at s q j)"
    "stalled_at s' q e \<longleftrightarrow> stalled_at s q e \<or> st \<and> q = p \<and> e = d"
    "event_at s' q \<longleftrightarrow> event_at s q \<or> q = n"
    "feeder_at s' q j = (if q = n \<and> j = opposite d \<and> st then Router_node p else feeder_at s q j)"
    "is_router s' q = is_router s q" "n_queue_size s' = n_queue_size s" "n_dim_x s' = n_dim_x s"
    "n_delivered s' = n_delivered s"
    using assms(1) st0 by (auto simp: s' eff(2-) stall_output_obs)
qed

lemma router_forward_ni:
  fixes ni f
  assumes "is_router s p" "d < 5" "\<not> (d < 4 \<and> is_router s (get_pos_from_queue p d))"
  defines "n \<equiv> get_pos_from_queue p d" and "s' \<equiv> router_forward ni p d f s"
  shows "queue_at s' q j = queue_at s q j" "event_at s' q = event_at s q" "feeder_at s' q j = feeder_at s q j"
    "stalled_at s' q e \<longleftrightarrow> stalled_at s q e \<or> ni n \<and> q = p \<and> e = d"
    "is_router s' q = is_router s q" "n_queue_size s' = n_queue_size s" "n_dim_x s' = n_dim_x s"
    "n_delivered s' = n_delivered s @ [(n, f)]"
proof -
  have "output_node s p d = Ni_node n"
    using assms(2,3) by (cases "d = 4") (auto simp: output_node_obs n_def get_pos_from_queue_def split: prod.split)
  then have s': "s' = (if ni n then upd_router p (\<lambda>r. r\<lparr>r_stalled := (r_stalled r)(d := True)\<rparr>)
      (s\<lparr>n_delivered := n_delivered s @ [(n, f)]\<rparr>) else s\<lparr>n_delivered := n_delivered s @ [(n, f)]\<rparr>)"
    unfolding s'_def router_forward_def node_handle_request_def by simp
  show "queue_at s' q j = queue_at s q j" "event_at s' q = event_at s q" "feeder_at s' q j = feeder_at s q j"
    "stalled_at s' q e \<longleftrightarrow> stalled_at s q e \<or> ni n \<and> q = p \<and> e = d"
    "is_router s' q = is_router s q" "n_queue_size s' = n_queue_size s" "n_dim_x s' = n_dim_x s"
    "n_delivered s' = n_delivered s @ [(n, f)]"
    using assms(1) by (auto simp: s' stall_output_obs)
qed

lemma router_forward_frame [simp]:
  assumes "is_router s p" "d < 5"
  shows "is_router (router_forward ni p d f s) q = is_router s q"
    "n_queue_size (router_forward ni p d f s) = n_queue_size s"
    "n_dim_x (router_forward ni p d f s) = n_dim_x s"
    "event_at s q \<Longrightarrow> event_at (router_forward ni p d f s) q"
  using router_forward_router [of s p d] router_forward_ni [OF assms] assms
  by (metis | blast)+

lemma router_forward_flow:
  assumes "flow_ok s" "is_router s p" "d < 5" "\<not> stalled_at s p d"
  shows "flow_ok (router_forward ni p d f s)"
proof (cases "d < 4 \<and> is_router s (get_pos_from_queue p d)")
  case False
  note eff = router_forward_ni [OF assms(2,3) False]
  show ?thesis
    by (rule flow_ok_cong [OF assms(1)]) (use False in \<open>auto simp: eff\<close>)
next
  case True
  then have d: "d < 4" and n: "is_router s (get_pos_from_queue p d)" by auto
  note eff = router_forward_router [OF assms(2) d n]
  let ?n = "get_pos_from_queue p d"
  let ?s' = "router_forward ni p d f s"
  have room: "length (queue_at s ?n (opposite d)) \<le> n_queue_size s"
    using flow_okD(2) [OF assms(1) d assms(2) n] assms(4) by simp
  show ?thesis
  proof (rule flow_okI)
    show "length (queue_at ?s' q j) \<le> Suc (n_queue_size ?s')" if "j < 5" for q j
      using flow_okD(1) [OF assms(1) that, of q] room by (auto simp: eff)
    show "feeder_at ?s' q j = output_node ?s' q j" if "j < 5" "n_queue_size ?s' < length (queue_at ?s' q j)" for q j
    proof (cases "q = ?n \<and> j = opposite d")
      case True
      then show ?thesis using that(2) d assms(2) room opposite_less(2) [OF d] neighbour_back [of d p]
        by (auto simp: eff output_node_obs)
    next
      case False
      then show ?thesis using that flow_okD(3) [OF assms(1) that(1), of q]
        by (auto simp: eff output_node_cong [of ?s' s])
    qed
    fix q e
    assume e: "e < 4" and q: "is_router ?s' q" "is_router ?s' (get_pos_from_queue q e)"
    have edge: "get_pos_from_queue q e = ?n \<and> opposite e = opposite d \<longleftrightarrow> q = p \<and> e = d"
      using neighbour_back [of e q] neighbour_back [of d p] d e by (metis less_SucI numeral_nat(2) eval_nat_numeral(2,3) opposite_opposite less_trans)
    show "stalled_at ?s' q e \<longleftrightarrow> n_queue_size ?s' < length (queue_at ?s' (get_pos_from_queue q e) (opposite e))"
      using flow_okD(2) [OF assms(1) e] q edge room assms(4) by (auto simp: eff)
  qed
qed

end
