(* ===== verification/Floonoc_Turn.thy ===== *)
theory Floonoc_Turn
  imports Floonoc_Flow "HOL-Library.Multiset"
begin

section \<open>A turn of a router\<close>

text \<open>
  The effect of one input queue on the flow control, on the requests the mesh holds and on the
  scheduled turns, then of the whole scan of a turn.
\<close>

definition current_at :: "noc \<Rightarrow> pos \<Rightarrow> nat" where
  "current_at s p = (case n_routers s p of None \<Rightarrow> 0 | Some r \<Rightarrow> r_current r)"

text \<open>The direction a request at router \<open>p\<close> takes.\<close>

definition out_dir :: "noc \<Rightarrow> pos \<Rightarrow> flit \<Rightarrow> nat option" where
  "out_dir s p f = map_option (get_req_queue p) (get_next_router_pos (n_dim_x s) p (f_dest_x f) (f_dest_y f))"

text \<open>
  A queue of a router is settled when it is empty, or the router has a turn scheduled, or the output
  its head needs is stalled.
\<close>

definition settled :: "noc \<Rightarrow> pos \<Rightarrow> nat \<Rightarrow> bool" where
  "settled s p i \<longleftrightarrow> queue_at s p i = [] \<or> event_at s p \<or>
     (case out_dir s p (hd (queue_at s p i)) of None \<Rightarrow> True | Some d \<Rightarrow> stalled_at s p d)"

text \<open>The requests in the queues, and those already delivered.\<close>

definition held :: "noc \<Rightarrow> flit multiset" where
  "held s = (\<Sum>(p, i) \<in> {p. is_router s p} \<times> {..<5}. mset (queue_at s p i)) + mset (map snd (n_delivered s))"

text \<open>A request is delivered by a router whose next position it has, where no other router is.\<close>

definition delivery_ok :: "noc \<Rightarrow> pos \<times> flit \<Rightarrow> bool" where
  "delivery_ok s nf \<longleftrightarrow> (\<exists>p. is_router s p \<and> (fst nf = p \<or> \<not> is_router s (fst nf)) \<and>
     get_next_router_pos (n_dim_x s) p (f_dest_x (snd nf)) (f_dest_y (snd nf)) = Some (fst nf))"

lemma next_pos_adjacent:
  "get_next_router_pos dim_x p dx dy = Some q \<Longrightarrow> get_pos_from_queue p (get_req_queue p q) = q"
  by (cases p) (auto simp: get_next_router_pos_def get_pos_from_queue_def get_req_queue_def Let_def split: if_splits)

lemma held_replace:
  assumes fin: "finite {p. is_router s p}" and p: "is_router s p" "i < 5"
    and rt: "\<And>q. is_router s' q = is_router s q"
    and q: "\<And>q j. queue_at s' q j = (if q = p \<and> j = i then xs else queue_at s q j)"
  shows "held s' + mset (queue_at s p i) + mset (map snd (n_delivered s)) =
    held s + mset xs + mset (map snd (n_delivered s'))"
proof -
  let ?A = "{p. is_router s p} \<times> {..<5 :: nat}"
  have mem: "(p, i) \<in> ?A" "finite ?A" using fin p by auto
  have "(\<Sum>k \<in> ?A - {(p, i)}. case k of (q, j) \<Rightarrow> mset (queue_at s' q j)) =
        (\<Sum>k \<in> ?A - {(p, i)}. case k of (q, j) \<Rightarrow> mset (queue_at s q j))"
    by (rule sum.cong) (auto simp: q split: if_splits)
  then show ?thesis unfolding held_def rt
    by (simp add: sum.remove [OF mem(2,1)] q)
qed

lemma held_same:
  assumes "\<And>q. is_router s' q = is_router s q" "\<And>q j. queue_at s' q j = queue_at s q j"
    "n_delivered s' = n_delivered s"
  shows "held s' = held s"
proof -
  have "is_router s' = is_router s" using assms(1) by blast
  with assms(2,3) show ?thesis unfolding held_def by simp
qed

subsection \<open>One input queue\<close>

text \<open>The state of a router after it forwarded the head of a queue.\<close>

definition sent :: "(pos \<Rightarrow> bool) \<Rightarrow> pos \<Rightarrow> nat \<Rightarrow> nat \<Rightarrow> flit \<Rightarrow> noc \<Rightarrow> noc" where
  "sent ni p i d f s = upd_router p (\<lambda>r. r\<lparr>r_current := next_queue i, r_event := True\<rparr>)
     (router_forward ni p d f (router_pop p i s))"

lemma event_update_obs:
  fixes s p b
  defines "s' \<equiv> upd_router p (r_event_update (\<lambda>_. b)) s"
  shows "queue_at s' q i = queue_at s q i" "feeder_at s' q i = feeder_at s q i" "stalled_at s' q d = stalled_at s q d"
    "event_at s' q = (if q = p \<and> is_router s p then b else event_at s q)" "current_at s' q = current_at s q"
  unfolding s'_def by (cases "q = p"; cases "n_routers s p"; simp add: noc_obs current_at_def)+

lemma current_update_obs:
  fixes s p c
  defines "s' \<equiv> upd_router p (\<lambda>r. r\<lparr>r_current := c, r_event := True\<rparr>) s"
  shows "queue_at s' q i = queue_at s q i" "feeder_at s' q i = feeder_at s q i" "stalled_at s' q d = stalled_at s q d"
    "event_at s' q = (q = p \<or> event_at s q)" "current_at s' q = (if q = p \<and> is_router s p then c else current_at s q)"
  unfolding s'_def by (cases "q = p"; cases "n_routers s p"; simp add: noc_obs current_at_def)+

text \<open>The cases of \<open>router_try\<close>.\<close>

lemma router_try_cases:
  assumes "router_try hidden ni p i (full, s) = (full', s')"
  obtains (nothing) "s' = s" "queue_at s p i = []"
  | (again) "s' = upd_router p (r_event_update (\<lambda>_. True)) s" "is_router s p"
  | (undefined_route) "s' = s" "queue_at s p i \<noteq> []" "out_dir s p (hd (queue_at s p i)) = None"
  | (stalled) d where "s' = s" "queue_at s p i \<noteq> []" "out_dir s p (hd (queue_at s p i)) = Some d" "stalled_at s p d"
  | (forward) f rest d where "s' = sent ni p i d f s" "is_router s p" "queue_at s p i = f # rest"
      "out_dir s p f = Some d" "\<not> stalled_at s p d" "d < 5"
proof (cases "n_routers s p")
  case None
  with assms have "s' = s" "queue_at s p i = []" by (auto simp: router_try_def queue_at_def)
  then show ?thesis by (rule nothing)
next
  case (Some r)
  have rt: "is_router s p" and sd: "stalled_at s p d = r_stalled r d" for d
    using Some by (simp_all add: is_router_def stalled_at_def)
  show ?thesis
  proof (cases "r_queues r i")
    case Nil
    with assms Some have "s' = s" "queue_at s p i = []" by (auto simp: router_try_def queue_at_def)
    then show ?thesis by (rule nothing)
  next
    case (Cons f rest)
    have q: "queue_at s p i = f # rest" using Some Cons by (simp add: queue_at_def)
    show ?thesis
    proof (cases "get_next_router_pos (n_dim_x s) p (f_dest_x f) (f_dest_y f)")
      case None
      show ?thesis
      proof (cases "hidden i")
        case True
        with assms Some Cons rt again show ?thesis by (simp add: router_try_def)
      next
        case False
        with assms Some Cons None undefined_route q show ?thesis by (simp add: router_try_def out_dir_def)
      qed
    next
      case nx: (Some n)
      let ?d = "get_req_queue p n"
      have d: "out_dir s p f = Some ?d" using nx by (simp add: out_dir_def)
      consider "hidden i \<or> full ?d" | "\<not> hidden i" "\<not> full ?d" "stalled_at s p ?d"
        | "\<not> hidden i" "\<not> full ?d" "\<not> stalled_at s p ?d" by blast
      then show ?thesis
      proof cases
        case 1
        then show ?thesis using assms Some Cons nx rt again
          by (auto simp: router_try_def split: if_splits)
      next
        case 2
        then show ?thesis using assms Some Cons nx q d sd stalled [of ?d]
          by (simp add: router_try_def Let_def)
      next
        case 3
        then show ?thesis using assms Some Cons nx q d sd rt forward [of ?d f rest]
          by (simp add: router_try_def Let_def sent_def)
      qed
    qed
  qed
qed

lemma router_pop_event_or_same:
  assumes "queue_at s p i \<noteq> []"
  shows "event_at (router_pop p i s) q \<or> (\<forall>d. stalled_at (router_pop p i s) q d = stalled_at s q d)"
proof (cases "length (queue_at s p i) = Suc (n_queue_size s) \<and> feeder_at s p i = Router_node q")
  case True
  obtain r where r: "n_routers s p = Some r" using assms by (auto simp: queue_at_def split: option.splits)
  then have "length (tl (r_queues r i)) = n_queue_size s" "r_stalled_node r i = Router_node q"
    using True by (simp_all add: queue_at_def feeder_at_def)
  then have "event_at (router_pop p i s) q" using r by (simp add: router_pop_def Let_def node_unstall_queue_event)
  then show ?thesis ..
qed (auto simp: router_pop_stalled [OF assms])

lemma current_at_frame [simp]:
  "current_at (router_pop p i s) q = current_at s q"
  "current_at (router_forward ni p d f s) q = current_at s q"
proof -
  have unst: "current_at (node_unstall_queue n p' s') q = current_at s' q" for n p' s'
    by (auto simp: node_unstall_queue_def router_unstall_queue_def current_at_def split: node.split option.split)
  have upd: "current_at (upd_router p (\<lambda>r. r\<lparr>r_queues := g r\<rparr>) s) q = current_at s q"
    "current_at (upd_router p (\<lambda>r. r\<lparr>r_stalled := h r\<rparr>) s') q = current_at s' q"
    "current_at (upd_router p' (\<lambda>r. r\<lparr>r_queues := g r, r_event := True, r_stalled_node := k r\<rparr>) s) q = current_at s q"
    for g h k p' s'
    by (auto simp: current_at_def split: option.split)
  show "current_at (router_pop p i s) q = current_at s q"
    by (auto simp: router_pop_def Let_def unst upd split: option.split)
  have call: "current_at (snd (node_handle_request ni n m f p s)) q = current_at s q" for n m
    by (auto simp: node_handle_request_def router_handle_request_def Let_def upd split: node.split option.split)
       (auto simp: current_at_def)
  show "current_at (router_forward ni p d f s) q = current_at s q"
    using call [of "output_node s p d" "Router_node p"]
    by (auto simp: router_forward_def upd split: prod.split)
qed

lemma sent_frame:
  assumes "is_router s p" "d < 5"
  shows "is_router (sent ni p i d f s) q = is_router s q" "n_queue_size (sent ni p i d f s) = n_queue_size s"
    "n_dim_x (sent ni p i d f s) = n_dim_x s"
    "event_at s q \<or> q = p \<Longrightarrow> event_at (sent ni p i d f s) q"
    "current_at (sent ni p i d f s) q = (if q = p then next_queue i else current_at s q)"
  using assms router_forward_frame(4) [of "router_pop p i s" p d q] router_pop_event [of s q p i]
  by (auto simp: sent_def current_update_obs)

lemma sent_flow:
  assumes "flow_ok s" "is_router s p" "i < 5" "queue_at s p i = f # rest" "\<not> stalled_at s p d" "d < 5"
  shows "flow_ok (sent ni p i d f s)"
proof -
  have "flow_ok (router_pop p i s)" using assms by (intro router_pop_flow) auto
  moreover have "\<not> stalled_at (router_pop p i s) p d" using assms by (simp add: router_pop_stalled)
  ultimately have "flow_ok (router_forward ni p d f (router_pop p i s))"
    using assms by (intro router_forward_flow) auto
  then show ?thesis unfolding sent_def
    by (rule flow_ok_cong) (use assms in \<open>auto simp: current_update_obs\<close>)
qed

lemma sent_event_or_same:
  assumes "is_router s p" "queue_at s p i = f # rest" "d < 5"
  shows "event_at (sent ni p i d f s) q \<or>
    (\<forall>j. queue_at (sent ni p i d f s) q j = queue_at s q j) \<and> (\<forall>e. stalled_at (sent ni p i d f s) q e = stalled_at s q e)"
proof (cases "q = p \<or> event_at (router_pop p i s) q")
  case True
  then show ?thesis using assms by (auto simp: sent_def current_update_obs)
next
  case False
  then have same: "\<forall>e. stalled_at (router_pop p i s) q e = stalled_at s q e" "q \<noteq> p"
    using router_pop_event_or_same [of s p i q] assms(2) by auto
  show ?thesis
  proof (cases "d < 4 \<and> is_router s (get_pos_from_queue p d)")
    case True
    then show ?thesis using same assms(1)
      by (auto simp: sent_def current_update_obs router_forward_router router_pop_queue)
  next
    case other: False
    then show ?thesis using same assms(1,3)
      by (auto simp: sent_def current_update_obs router_forward_ni router_pop_queue)
  qed
qed

lemma router_forward_held:
  assumes fin: "finite {p. is_router s p}" and rt: "is_router s p" "d < 5"
  shows "held (router_forward ni p d f s) = add_mset f (held s)"
proof (cases "d < 4 \<and> is_router s (get_pos_from_queue p d)")
  case True
  then have d: "d < 4" and n: "is_router s (get_pos_from_queue p d)" by auto
  note eff = router_forward_router [OF rt(1) d n]
  from held_replace [OF fin n opposite_less(1) [OF rt(2)] eff(5) eff(1)] show ?thesis
    by (simp add: eff(8))
next
  case False
  note eff = router_forward_ni [OF rt False]
  have "is_router (router_forward ni p d f s) = is_router s" using eff(5) by blast
  then show ?thesis unfolding held_def by (simp add: eff)
qed

lemma sent_held:
  assumes fin: "finite {p. is_router s p}" and rt: "is_router s p" "d < 5" "i < 5"
    and q: "queue_at s p i = f # rest"
  shows "held (sent ni p i d f s) = held s"
proof -
  let ?s1 = "router_pop p i s" and ?s2 = "router_forward ni p d f (router_pop p i s)"
  have "held ?s1 + mset (f # rest) = held s + mset rest"
    using held_replace [OF fin rt(1) rt(3), of ?s1 rest] q by (simp add: router_pop_queue)
  then have "add_mset f (held ?s1) = held s" by simp
  moreover have "held ?s2 = add_mset f (held ?s1)" using fin rt by (intro router_forward_held) auto
  moreover have "held (sent ni p i d f s) = held ?s2"
    unfolding sent_def by (rule held_same) (simp_all add: current_update_obs)
  ultimately show ?thesis by simp
qed

lemma sent_delivered:
  assumes "is_router s p" "d < 5" "out_dir s p f = Some d" "nf \<in> set (n_delivered (sent ni p i d f s))"
  shows "nf \<in> set (n_delivered s) \<or> delivery_ok s nf"
proof (cases "d < 4 \<and> is_router s (get_pos_from_queue p d)")
  case True
  with assms show ?thesis by (simp add: sent_def router_forward_router)
next
  case False
  obtain n where n: "get_next_router_pos (n_dim_x s) p (f_dest_x f) (f_dest_y f) = Some n" "d = get_req_queue p n"
    using assms(3) by (auto simp: out_dir_def)
  then have at: "get_pos_from_queue p d = n" by (simp add: next_pos_adjacent)
  have "d = 4 \<Longrightarrow> n = p" using at by (simp add: get_pos_from_queue_def split: prod.splits)
  moreover have "d < 4 \<or> d = 4" using assms(2) by auto
  ultimately have "n = p \<or> \<not> is_router s n" using False at by auto
  with n assms(1) have "delivery_ok s (n, f)" unfolding delivery_ok_def fst_conv snd_conv by blast
  with assms False at show ?thesis by (auto simp: sent_def router_forward_ni)
qed

subsection \<open>The whole turn\<close>

text \<open>What a turn of router \<open>p\<close> keeps; \<open>s0\<close> is the state before it.\<close>

definition turn_ok :: "noc \<Rightarrow> pos \<Rightarrow> noc \<Rightarrow> bool" where
  "turn_ok s0 p s \<longleftrightarrow> flow_ok s \<and> is_router s = is_router s0 \<and> n_dim_x s = n_dim_x s0 \<and>
     n_queue_size s = n_queue_size s0 \<and> (\<forall>q. current_at s q < 5) \<and>
     (finite {q. is_router s0 q} \<longrightarrow> held s = held s0) \<and>
     (\<forall>nf \<in> set (n_delivered s). nf \<in> set (n_delivered s0) \<or> delivery_ok s0 nf) \<and>
     (\<forall>q j. q \<noteq> p \<longrightarrow> settled s0 q j \<longrightarrow> settled s q j)"

lemma turn_okI:
  assumes "flow_ok s" "\<And>q. is_router s q = is_router s0 q" "n_dim_x s = n_dim_x s0" "n_queue_size s = n_queue_size s0"
    "\<And>q. current_at s q < 5" "finite {q. is_router s0 q} \<Longrightarrow> held s = held s0"
    "\<And>nf. nf \<in> set (n_delivered s) \<Longrightarrow> nf \<in> set (n_delivered s0) \<or> delivery_ok s0 nf"
    "\<And>q j. q \<noteq> p \<Longrightarrow> settled s0 q j \<Longrightarrow> settled s q j"
  shows "turn_ok s0 p s"
  unfolding turn_ok_def using assms by blast

lemma settled_event: "event_at s q \<Longrightarrow> settled s q j"
  by (simp add: settled_def)

lemma settled_cong:
  assumes "queue_at s' q j = queue_at s q j" "\<And>d. stalled_at s' q d = stalled_at s q d"
    "event_at s q \<Longrightarrow> event_at s' q" "n_dim_x s' = n_dim_x s" "settled s q j"
  shows "settled s' q j"
  using assms by (auto simp: settled_def out_dir_def split: option.splits)

lemma sent_settled:
  assumes "is_router s p" "queue_at s p i = f # rest" "d < 5" "settled s q j"
  shows "settled (sent ni p i d f s) q j"
proof (cases "event_at (sent ni p i d f s) q")
  case True
  then show ?thesis by (rule settled_event)
next
  case False
  then have "queue_at (sent ni p i d f s) q j = queue_at s q j"
    "\<And>e. stalled_at (sent ni p i d f s) q e = stalled_at s q e"
    using sent_event_or_same [OF assms(1-3), of ni q] by auto
  then show ?thesis
    using assms by (intro settled_cong [OF _ _ _ _ assms(4)]) (simp_all add: sent_frame)
qed

lemma router_try_settled:
  assumes "router_try hidden ni p i (full, s) = (full', s')"
  shows "settled s' p i" "settled s q j \<Longrightarrow> settled s' q j"
proof -
  show "settled s' p i"
    using assms
    by (cases rule: router_try_cases) (auto simp: settled_def event_update_obs sent_frame)
  show "settled s' q j" if "settled s q j"
    using assms
  proof (cases rule: router_try_cases)
    case again
    then show ?thesis using that by (intro settled_cong [OF _ _ _ _ that]) (simp_all add: event_update_obs)
  next
    case (forward f rest d)
    then show ?thesis using that by (simp add: sent_settled)
  qed (use that in simp_all)
qed

lemma router_try_turn:
  assumes tr: "router_try hidden ni p i (full, s) = (full', s')" and ok: "turn_ok s0 p s" and i: "i < 5"
  shows "turn_ok s0 p s'"
proof -
  have settled: "settled s' q j" if "q \<noteq> p" "settled s0 q j" for q j
    using ok that router_try_settled(2) [OF tr] unfolding turn_ok_def by blast
  have flow: "flow_ok s" and rt: "is_router s = is_router s0" and dim: "n_dim_x s = n_dim_x s0"
    and size: "n_queue_size s = n_queue_size s0" and cur: "\<And>q. current_at s q < 5"
    and held: "finite {q. is_router s0 q} \<Longrightarrow> held s = held s0"
    and del: "\<And>nf. nf \<in> set (n_delivered s) \<Longrightarrow> nf \<in> set (n_delivered s0) \<or> delivery_ok s0 nf"
    using ok unfolding turn_ok_def by blast+
  from tr show ?thesis
  proof (cases rule: router_try_cases)
    case again
    show ?thesis
    proof (rule turn_okI)
      show "flow_ok s'" by (rule flow_ok_cong [OF flow]) (simp_all add: again event_update_obs)
      have "held s' = held s" by (rule held_same) (simp_all add: again event_update_obs)
      then show "held s' = held s0" if "finite {q. is_router s0 q}" using held that by simp
    qed (use rt dim size cur del settled in \<open>simp_all add: again event_update_obs\<close>)
  next
    case (forward f rest d)
    note obs = sent_frame [OF forward(2,6)]
    show ?thesis
    proof (rule turn_okI)
      show "flow_ok s'" unfolding forward(1) by (rule sent_flow) (use flow forward i in auto)
      have "held s' = held s" if "finite {q. is_router s q}"
        unfolding forward(1) by (rule sent_held [OF that forward(2,6) i forward(3)])
      then show "held s' = held s0" if "finite {q. is_router s0 q}" using held that rt by simp
      have "delivery_ok s = delivery_ok s0" using rt dim unfolding delivery_ok_def by presburger
      then show "nf \<in> set (n_delivered s0) \<or> delivery_ok s0 nf" if "nf \<in> set (n_delivered s')" for nf
        using del [of nf] sent_delivered [OF forward(2,6,4) that [unfolded forward(1)]] by auto
      show "current_at s' q < 5" for q using cur [of q] i by (simp add: forward(1) obs next_queue_def)
    qed (use rt dim size settled in \<open>simp_all add: forward(1) obs\<close>)
  qed (use ok in simp_all)
qed

end
