(* ===== verification/Floonoc_Mesh.thy ===== *)
theory Floonoc_Mesh
  imports Floonoc_Turn Floonoc_Route
begin

section \<open>The runs of a mesh\<close>

text \<open>
  Runs of a mesh from its start: turns of the routers in any order, with any visibility of the queues
  and any answers of the network interfaces, and the calls of the network interfaces. Then what holds
  in every reachable state.
\<close>

subsection \<open>The scan of a turn\<close>

lemma next_queue_less: "i < 5 \<Longrightarrow> next_queue i < 5"
  by (simp add: next_queue_def)

lemma router_scan_turn:
  "turn_ok s0 p (snd st) \<Longrightarrow> i < 5 \<Longrightarrow> turn_ok s0 p (snd (router_scan n hidden ni p i st))"
proof (induction n arbitrary: i st)
  case (Suc n)
  obtain full s full' s' where st: "st = (full, s)" and step: "router_try hidden ni p i (full, s) = (full', s')"
    by (metis surj_pair)
  have "turn_ok s0 p s'" using router_try_turn [OF step _ Suc.prems(2)] Suc.prems(1) st by simp
  with Suc.IH [of "(full', s')"] next_queue_less [OF Suc.prems(2)] show ?case by (simp add: st step)
qed simp

lemma router_scan_keeps_settled:
  "settled (snd st) q j \<Longrightarrow> settled (snd (router_scan n hidden ni p i st)) q j"
proof (induction n arbitrary: i st)
  case (Suc n)
  obtain full s full' s' where st: "st = (full, s)" and step: "router_try hidden ni p i (full, s) = (full', s')"
    by (metis surj_pair)
  have "settled s' q j" using router_try_settled(2) [OF step] Suc.prems st by simp
  with Suc.IH [of "(full', s')"] show ?case by (simp add: st step)
qed simp

lemma router_scan_settles:
  "k < n \<Longrightarrow> settled (snd (router_scan n hidden ni p i st)) p ((next_queue ^^ k) i)"
proof (induction n arbitrary: k i st)
  case (Suc n)
  obtain full s full' s' where st: "st = (full, s)" and step: "router_try hidden ni p i (full, s) = (full', s')"
    by (metis surj_pair)
  show ?case
  proof (cases k)
    case 0
    have "settled s' p i" by (rule router_try_settled(1) [OF step])
    with 0 show ?thesis using router_scan_keeps_settled [of "(full', s')"] by (simp add: st step)
  next
    case (Suc k')
    with Suc.prems Suc.IH [of k' "next_queue i"] show ?thesis by (simp add: funpow_swap1)
  qed
qed simp

text \<open>The five turns of the scan reach the five queues, wherever it starts.\<close>

lemma next_queue_power: "i < 5 \<Longrightarrow> (next_queue ^^ k) i = (i + k) mod 5"
proof (induction k)
  case (Suc k)
  have "next_queue m = Suc m mod 5" if "m < 5" for m using that by (auto simp: next_queue_def)
  with Suc show ?case by (simp add: mod_Suc_eq)
qed simp

lemma next_queue_covers:
  assumes "i < 5" "j < 5"
  obtains k where "k < 5" "(next_queue ^^ k) i = j"
proof -
  have "(i + (if i \<le> j then j - i else j + 5 - i)) mod 5 = j" using assms by auto
  then show thesis using that [of "if i \<le> j then j - i else j + 5 - i"] next_queue_power [OF assms(1)] assms
    by (auto split: if_splits)
qed

lemma fsm_handler_turn:
  assumes "flow_ok s" "\<And>q. current_at s q < 5"
  shows "turn_ok s p (router_fsm_handler hidden ni p s)"
    "j < 5 \<Longrightarrow> settled (router_fsm_handler hidden ni p s) p j"
proof -
  let ?s1 = "upd_router p (r_event_update (\<lambda>_. False)) s"
  let ?st = "(\<lambda>_ :: nat. False, ?s1)"
  have refl: "turn_ok s p s" by (rule turn_okI) (use assms in auto)
  have start: "turn_ok s p ?s1"
  proof (rule turn_okI)
    show "flow_ok ?s1" by (rule flow_ok_cong [OF assms(1)]) (simp_all add: event_update_obs)
    show "held ?s1 = held s" by (rule held_same) (simp_all add: event_update_obs)
    show "settled ?s1 q j" if "q \<noteq> p" "settled s q j" for q j
      by (rule settled_cong [OF _ _ _ _ that(2)]) (use that in \<open>simp_all add: event_update_obs\<close>)
  qed (use assms(2) in \<open>simp_all add: event_update_obs\<close>)
  have handler: "router_fsm_handler hidden ni p s =
      (if is_router s p then snd (router_scan 5 hidden ni p (current_at s p) ?st) else s)"
    by (auto simp: router_fsm_handler_def is_router_def current_at_def)
  show "turn_ok s p (router_fsm_handler hidden ni p s)"
    unfolding handler using refl router_scan_turn [of s p ?st] start assms(2) by simp
  assume j: "j < 5"
  obtain k where "k < 5" "(next_queue ^^ k) (current_at s p) = j"
    using next_queue_covers [OF assms(2) j] by blast
  with router_scan_settles [of k 5 hidden ni p "current_at s p" ?st]
  show "settled (router_fsm_handler hidden ni p s) p j"
    unfolding handler by (auto simp: settled_def queue_at_def is_router_def)
qed

subsection \<open>Runs\<close>

text \<open>
  A start has empty queues, no stalled output and its routers in the interior. A network interface at
  position \<open>n\<close> calls the router next to it: it sends a request while its last one was not denied, that
  is while its queue there has not overflowed; it stalls and unstalls the output towards it.
\<close>

definition noc_start :: "noc \<Rightarrow> bool" where
  "noc_start s \<longleftrightarrow> n_delivered s = [] \<and>
     (\<forall>p r. n_routers s p = Some r \<longrightarrow> interior (n_dim_x s) (n_dim_y s) p \<and> r_current r < 5 \<and>
        (\<forall>i. r_queues r i = [] \<and> \<not> r_stalled r i))"

inductive noc_reach :: "noc \<Rightarrow> flit list \<Rightarrow> noc \<Rightarrow> bool" for s0 :: noc where
  reach_start: "noc_reach s0 [] s0"
| reach_inject: "noc_reach s0 fs s \<Longrightarrow> is_router s p \<Longrightarrow> i < 5 \<Longrightarrow> output_node s p i = Ni_node n \<Longrightarrow>
    length (queue_at s p i) \<le> n_queue_size s \<Longrightarrow> noc_reach s0 (fs @ [f]) (snd (router_handle_request p (Ni_node n) f n s))"
| reach_turn: "noc_reach s0 fs s \<Longrightarrow> noc_reach s0 fs (router_fsm_handler hidden ni p s)"
| reach_unstall: "noc_reach s0 fs s \<Longrightarrow> i < 5 \<Longrightarrow> output_node s p i = Ni_node n \<Longrightarrow>
    noc_reach s0 fs (router_unstall_queue p n s)"
| reach_stall: "noc_reach s0 fs s \<Longrightarrow> i < 5 \<Longrightarrow> output_node s p i = Ni_node n \<Longrightarrow>
    noc_reach s0 fs (router_stall_queue p n s)"

text \<open>The invariant of the runs.\<close>

definition mesh_ok :: "noc \<Rightarrow> flit list \<Rightarrow> noc \<Rightarrow> bool" where
  "mesh_ok s0 fs s \<longleftrightarrow> flow_ok s \<and> is_router s = is_router s0 \<and> n_dim_x s = n_dim_x s0 \<and>
     (\<forall>q. current_at s q < 5) \<and> held s = mset fs \<and> (\<forall>nf \<in> set (n_delivered s). delivery_ok s0 nf) \<and>
     (\<forall>q j. j < 5 \<longrightarrow> settled s q j)"

lemma mesh_okI:
  assumes "flow_ok s" "\<And>q. is_router s q = is_router s0 q" "n_dim_x s = n_dim_x s0" "\<And>q. current_at s q < 5"
    "held s = mset fs" "\<And>nf. nf \<in> set (n_delivered s) \<Longrightarrow> delivery_ok s0 nf" "\<And>q j. j < 5 \<Longrightarrow> settled s q j"
  shows "mesh_ok s0 fs s"
  unfolding mesh_ok_def using assms by blast

lemma mesh_okD:
  assumes "mesh_ok s0 fs s"
  shows "flow_ok s" "is_router s = is_router s0" "n_dim_x s = n_dim_x s0" "current_at s q < 5" "held s = mset fs"
    "nf \<in> set (n_delivered s) \<Longrightarrow> delivery_ok s0 nf" "j < 5 \<Longrightarrow> settled s q j"
  using assms unfolding mesh_ok_def by blast+

lemma ni_position: "output_node s p i = Ni_node n \<Longrightarrow> i < 5 \<Longrightarrow>
    n = get_pos_from_queue p i \<and> get_req_queue p n = i \<and> \<not> (i < 4 \<and> is_router s n)"
  by (cases "i = 4") (auto simp: output_node_obs get_req_queue_neighbour get_pos_from_queue_def get_req_queue_def
      split: prod.splits if_splits)

lemma noc_startD:
  assumes "noc_start s" "n_routers s p = Some r"
  shows "interior (n_dim_x s) (n_dim_y s) p" "r_current r < 5" "r_queues r i = []" "\<not> r_stalled r i"
  using assms unfolding noc_start_def by blast+

lemma start_mesh_ok:
  assumes "noc_start s0"
  shows "mesh_ok s0 [] s0"
proof -
  have [simp]: "queue_at s0 q i = []" "\<not> stalled_at s0 q i" "current_at s0 q < 5" for q i
    using noc_startD [OF assms, of q] by (auto simp: noc_obs current_at_def split: option.split)
  have "held s0 = {#}" using assms by (simp add: held_def noc_start_def)
  then show ?thesis using assms
    by (intro mesh_okI flow_okI) (auto simp: settled_def noc_start_def)
qed

lemma finite_routers:
  assumes "noc_start s0"
  shows "finite {q. is_router s0 q}"
proof (rule finite_subset)
  show "{q. is_router s0 q} \<subseteq> {0 .. n_dim_x s0} \<times> {0 .. n_dim_y s0}"
    using assms by (fastforce simp: noc_start_def is_router_def interior_def)
qed simp

lemma inject_mesh_ok:
  assumes ok: "mesh_ok s0 fs s" and fin: "finite {q. is_router s0 q}" and rt: "is_router s p" and i: "i < 5"
    and ni: "output_node s p i = Ni_node n" and room: "length (queue_at s p i) \<le> n_queue_size s"
  shows "mesh_ok s0 (fs @ [f]) (snd (router_handle_request p (Ni_node n) f n s))"
proof -
  obtain st s' where call: "router_handle_request p (Ni_node n) f n s = (st, s')" by (metis surj_pair)
  have pos: "n = get_pos_from_queue p i" "get_req_queue p n = i" "\<not> (i < 4 \<and> is_router s n)"
    using ni_position [OF ni i] by auto
  note eff = router_handle_request_obs [OF call rt, unfolded pos(2)]
  note old = mesh_okD [OF ok]
  have "mesh_ok s0 (fs @ [f]) s'"
  proof (rule mesh_okI)
    show "flow_ok s'"
    proof (rule flow_okI)
      show "length (queue_at s' q j) \<le> Suc (n_queue_size s')" if "j < 5" for q j
        using flow_okD(1) [OF old(1) that, of q] room by (auto simp: eff)
      show "feeder_at s' q j = output_node s' q j" if "j < 5" "n_queue_size s' < length (queue_at s' q j)" for q j
        using that flow_okD(3) [OF old(1) that(1), of q] ni room
        by (auto simp: eff output_node_cong [of s' s] split: if_splits)
      fix q d
      assume d: "d < 4" and q: "is_router s' q" "is_router s' (get_pos_from_queue q d)"
      have "\<not> (get_pos_from_queue q d = p \<and> opposite d = i)"
        using pos(3) q(1) feeds_same_edge [OF d i, of q p] pos(1) by (auto simp: eff)
      with flow_okD(2) [OF old(1) d] q
      show "stalled_at s' q d \<longleftrightarrow> n_queue_size s' < length (queue_at s' (get_pos_from_queue q d) (opposite d))"
        by (auto simp: eff)
    qed
    have fin': "finite {q. is_router s q}" using fin old(2) by simp
    show "held s' = mset (fs @ [f])"
      using held_replace [OF fin' rt i eff(6) eff(2)] old(5) by (simp add: eff(9))
    show "settled s' q j" if "j < 5" for q j
    proof (cases "q = p")
      case True
      then show ?thesis by (intro settled_event) (simp add: eff)
    next
      case False
      then show ?thesis by (intro settled_cong [OF _ _ _ _ old(7) [OF that]]) (simp_all add: eff)
    qed
    have "current_at s' q = current_at s q" for q
      using call rt
      by (cases "q = p") (auto simp: router_handle_request_def current_at_def is_router_def Let_def split: option.splits)
    then show "current_at s' q < 5" for q using old(4) by simp
  qed (use old in \<open>auto simp: eff\<close>)
  then show ?thesis by (simp add: call)
qed

lemma turn_mesh_ok:
  assumes ok: "mesh_ok s0 fs s" and fin: "finite {q. is_router s0 q}"
  shows "mesh_ok s0 fs (router_fsm_handler hidden ni p s)"
proof -
  note old = mesh_okD [OF ok]
  let ?s' = "router_fsm_handler hidden ni p s"
  note turn = fsm_handler_turn [OF old(1,4), where hidden = hidden and ni = ni and p = p]
  have del: "delivery_ok s = delivery_ok s0" using old(2,3) unfolding delivery_ok_def by presburger
  have fin': "finite {q. is_router s q}" using fin old(2) by simp
  have new: "flow_ok ?s'" "is_router ?s' = is_router s" "n_dim_x ?s' = n_dim_x s" "\<And>q. current_at ?s' q < 5"
    "held ?s' = held s" "\<And>nf. nf \<in> set (n_delivered ?s') \<Longrightarrow> nf \<in> set (n_delivered s) \<or> delivery_ok s0 nf"
    "\<And>q j. q \<noteq> p \<Longrightarrow> settled s q j \<Longrightarrow> settled ?s' q j"
    using turn(1) fin' unfolding turn_ok_def del by blast+
  show ?thesis
  proof (rule mesh_okI)
    show "settled ?s' q j" if "j < 5" for q j
      using new(7) [of q j] old(7) [OF that] turn(2) [OF that] by blast
    show "delivery_ok s0 nf" if "nf \<in> set (n_delivered ?s')" for nf using new(6) [OF that] old(6) by blast
  qed (use new old in simp_all)
qed

lemma unstall_mesh_ok:
  assumes ok: "mesh_ok s0 fs s" and i: "i < 5" and ni: "output_node s p i = Ni_node n"
  shows "mesh_ok s0 fs (router_unstall_queue p n s)"
proof -
  note old = mesh_okD [OF ok]
  have call: "router_unstall_queue p n s = node_unstall_queue (Router_node p) n s"
    by (simp add: node_unstall_queue_def)
  let ?s' = "node_unstall_queue (Router_node p) n s"
  have pos: "n = get_pos_from_queue p i" "get_req_queue p n = i" "\<not> (i < 4 \<and> is_router s n)"
    using ni_position [OF ni i] by auto
  have "mesh_ok s0 fs ?s'"
  proof (rule mesh_okI)
    show "flow_ok ?s'" by (rule flow_ok_cong [OF old(1)]) (use pos in \<open>auto simp: node_unstall_queue_stalled\<close>)
    have "held ?s' = held s" by (rule held_same) simp_all
    then show "held ?s' = mset fs" using old(5) by simp
    show "settled ?s' q j" if "j < 5" for q j
    proof (cases "q = p")
      case True
      then show ?thesis by (intro settled_event) (simp add: node_unstall_queue_event)
    next
      case False
      then show ?thesis
        by (intro settled_cong [OF _ _ _ _ old(7) [OF that]])
           (auto simp: node_unstall_queue_event node_unstall_queue_stalled)
    qed
    have "current_at ?s' q = current_at s q" for q
      by (auto simp: node_unstall_queue_def router_unstall_queue_def current_at_def split: option.split)
    then show "current_at ?s' q < 5" for q using old(4) by simp
  qed (use old in simp_all)
  then show ?thesis by (simp add: call)
qed

lemma stall_mesh_ok:
  assumes ok: "mesh_ok s0 fs s" and i: "i < 5" and ni: "output_node s p i = Ni_node n"
  shows "mesh_ok s0 fs (router_stall_queue p n s)"
proof -
  note old = mesh_okD [OF ok]
  have pos: "n = get_pos_from_queue p i" "get_req_queue p n = i" "\<not> (i < 4 \<and> is_router s n)"
    using ni_position [OF ni i] by auto
  let ?s' = "upd_router p (\<lambda>r. r\<lparr>r_stalled := (r_stalled r)(i := True)\<rparr>) s"
  note obs = stall_output_obs [of p i s]
  have "mesh_ok s0 fs ?s'"
  proof (rule mesh_okI)
    show "flow_ok ?s'" by (rule flow_ok_cong [OF old(1)]) (use pos in \<open>auto simp: obs\<close>)
    have "held ?s' = held s" by (rule held_same) (simp_all add: obs)
    then show "held ?s' = mset fs" using old(5) by simp
    show "settled ?s' q j" if "j < 5" for q j
      using old(7) [OF that, of q] by (auto simp: settled_def obs out_dir_def split: option.splits)
    have "current_at ?s' q = current_at s q" for q
      by (cases "q = p"; cases "n_routers s p"; simp add: current_at_def)
    then show "current_at ?s' q < 5" for q using old(4) by simp
  qed (use old in simp_all)
  then show ?thesis by (simp add: router_stall_queue_def pos(2))
qed

lemma reach_mesh_ok:
  assumes "noc_reach s0 fs s" "noc_start s0"
  shows "mesh_ok s0 fs s"
  using assms(1)
proof induction
  case reach_start
  show ?case by (rule start_mesh_ok [OF assms(2)])
next
  case (reach_inject fs s p i n f)
  then show ?case by (intro inject_mesh_ok [OF _ finite_routers [OF assms(2)]])
next
  case (reach_turn fs s hidden ni p)
  then show ?case by (intro turn_mesh_ok [OF _ finite_routers [OF assms(2)]])
next
  case (reach_unstall fs s i p n)
  then show ?case by (intro unstall_mesh_ok)
next
  case (reach_stall fs s i p n)
  then show ?case by (intro stall_mesh_ok)
qed

subsection \<open>Properties of the runs\<close>

text \<open>
  A mesh of two routers with queues of one request: the network interface at (0, 1) sends two requests
  to the one at (2, 0), and router (1, 1) takes a turn after each.
\<close>

definition example_router :: router where
  "example_router = \<lparr>r_queues = (\<lambda>_. []), r_stalled_node = (\<lambda>_. Ni_node (0, 0)), r_stalled = (\<lambda>_. False),
     r_current = 0, r_event = False\<rparr>"

definition example_noc :: noc where
  "example_noc = \<lparr>n_dim_x = 4, n_dim_y = 3, n_queue_size = 1,
     n_routers = [(1, 1) \<mapsto> example_router, (2, 1) \<mapsto> example_router], n_delivered = [], n_unstalled = []\<rparr>"

definition example_flit :: "nat \<Rightarrow> flit" where
  "example_flit k = \<lparr>f_dest_x = 2, f_dest_y = 0, f_req = k\<rparr>"

definition example_send :: "nat \<Rightarrow> noc \<Rightarrow> noc" where
  "example_send k s = router_fsm_handler (\<lambda>_. False) (\<lambda>_. False) (1, 1)
     (snd (router_handle_request (1, 1) (Ni_node (0, 1)) (example_flit k) (0, 1) s))"

definition example_two_sent :: noc where
  "example_two_sent = example_send 1 (example_send 0 example_noc)"

definition example_delivered :: noc where
  "example_delivered = router_fsm_handler (\<lambda>_. False) (\<lambda>_. False) (2, 1) example_two_sent"

lemma example_start: "noc_start example_noc"
  by (auto simp: noc_start_def example_noc_def example_router_def interior_def)

lemma example_send_reach:
  assumes "noc_reach s0 fs s" "is_router s (1, 1)" "\<not> is_router s (0, 1)" "length (queue_at s (1, 1) 1) \<le> n_queue_size s"
  shows "noc_reach s0 (fs @ [example_flit k]) (example_send k s)"
  unfolding example_send_def using assms
  by (intro reach_turn reach_inject [of _ _ _ _ 1]) (simp_all add: output_node_obs get_pos_from_queue_def)

lemma example_two_sent_reach: "noc_reach example_noc [example_flit 0, example_flit 1] example_two_sent"
proof -
  have s0: "is_router example_noc (1, 1)" "\<not> is_router example_noc (0, 1)"
    "length (queue_at example_noc (1, 1) 1) \<le> n_queue_size example_noc" by code_simp+
  have s1: "is_router (example_send 0 example_noc) (1, 1)" "\<not> is_router (example_send 0 example_noc) (0, 1)"
    "length (queue_at (example_send 0 example_noc) (1, 1) 1) \<le> n_queue_size (example_send 0 example_noc)" by code_simp+
  from example_send_reach [OF example_send_reach [OF reach_start s0] s1] show ?thesis
    by (simp add: example_two_sent_def)
qed

text \<open>
  C18. Flow control: in every state that a mesh reaches, with its routers taking turns in any order and
  its network interfaces sending only while they are not stalled, every input queue of a router holds at
  most one request more than its size, and an output towards another router is stalled exactly while
  the queue it feeds there has overflowed.
\<close>

theorem floonoc_flow_control:
  assumes "noc_start s0" "noc_reach s0 fs s" "n_routers s p = Some r"
  shows "(\<forall>i<5. length (r_queues r i) \<le> n_queue_size s + 1) \<and>
    (\<forall>d<4. \<forall>r'. n_routers s (get_pos_from_queue p d) = Some r' \<longrightarrow>
       (r_stalled r d \<longleftrightarrow> n_queue_size s < length (r_queues r' (get_req_queue (get_pos_from_queue p d) p))))"
proof -
  note flow = mesh_okD(1) [OF reach_mesh_ok [OF assms(2,1)]]
  have "length (r_queues r i) \<le> n_queue_size s + 1" if "i < 5" for i
    using flow_okD(1) [OF flow that, of p] assms(3) by (simp add: queue_at_def)
  moreover have "r_stalled r d \<longleftrightarrow> n_queue_size s < length (r_queues r' (get_req_queue (get_pos_from_queue p d) p))"
    if "d < 4" "n_routers s (get_pos_from_queue p d) = Some r'" for d r'
    using flow_okD(2) [OF flow that(1), of p] that assms(3) by (simp add: noc_obs get_req_queue_back)
  ultimately show ?thesis by blast
qed

theorem floonoc_flow_control_witness:
  "\<exists>r r'. n_routers example_two_sent (1, 1) = Some r \<and> n_routers example_two_sent (2, 1) = Some r' \<and>
     length (r_queues r' 1) = 2 \<and> r_stalled r 0"
proof -
  have "map_option (\<lambda>r. length (r_queues r 1)) (n_routers example_two_sent (2, 1)) = Some 2"
    "n_queue_size example_two_sent = 1" "n_routers example_two_sent (1, 1) \<noteq> None" by code_simp+
  then obtain r r' where r: "n_routers example_two_sent (1, 1) = Some r"
    and r': "n_routers example_two_sent (2, 1) = Some r'" "length (r_queues r' 1) = 2" and "n_queue_size example_two_sent = 1"
    by auto
  moreover have "r_stalled r 0"
    using floonoc_flow_control [OF example_start example_two_sent_reach r] r' \<open>n_queue_size example_two_sent = 1\<close>
    by (auto simp: get_pos_from_queue_def get_req_queue_def dest!: spec [of _ "0 :: nat"])
  ultimately show ?thesis by blast
qed

text \<open>
  C19. No request is lost, duplicated or delivered elsewhere: in every state that a mesh reaches, the
  requests in its queues and those delivered are together exactly the ones the network interfaces sent,
  and when the routers fill the interior of the grid, a request for a position of the grid that is not
  a corner is only delivered to the network interface of that position.
\<close>

theorem floonoc_delivers:
  assumes "noc_start s0" "noc_reach s0 fs s"
  shows "held s = mset fs \<and>
    ((\<forall>q. interior (n_dim_x s0) (n_dim_y s0) q \<longrightarrow> n_routers s0 q \<noteq> None) \<longrightarrow>
     (\<forall>(n, f) \<in> set (n_delivered s). reachable_dest (n_dim_x s0) (n_dim_y s0) (f_dest_x f, f_dest_y f) \<longrightarrow>
        n = (f_dest_x f, f_dest_y f)))"
proof -
  note ok = mesh_okD [OF reach_mesh_ok [OF assms(2,1)]]
  have "n = (f_dest_x f, f_dest_y f)"
    if full: "\<forall>q. interior (n_dim_x s0) (n_dim_y s0) q \<longrightarrow> n_routers s0 q \<noteq> None" and nf: "(n, f) \<in> set (n_delivered s)"
      and dest: "reachable_dest (n_dim_x s0) (n_dim_y s0) (f_dest_x f, f_dest_y f)" for n f
  proof (rule ccontr)
    assume other: "n \<noteq> (f_dest_x f, f_dest_y f)"
    obtain p where p: "is_router s0 p" "n = p \<or> \<not> is_router s0 n"
      "get_next_router_pos (n_dim_x s0) p (f_dest_x f) (f_dest_y f) = Some n"
      using ok(6) [OF nf] unfolding delivery_ok_def fst_conv snd_conv by blast
    have "interior (n_dim_x s0) (n_dim_y s0) p"
      using p(1) noc_startD(1) [OF assms(1), of p] by (auto simp: is_router_def)
    then have "interior (n_dim_x s0) (n_dim_y s0) n" using next_pos_interior [OF _ dest] p(3) other by simp
    then have "n = p" using full p(2) unfolding is_router_def by blast
    have "0 \<le> fst (f_dest_x f, f_dest_y f)" using dest by (simp add: reachable_dest_def)
    with \<open>n = p\<close> other next_pos_nearer [of "(f_dest_x f, f_dest_y f)" p "n_dim_x s0"] p(3) show False by auto
  qed
  with ok(5) show ?thesis by blast
qed

theorem floonoc_delivers_witness:
  "held example_delivered = mset [example_flit 0, example_flit 1] \<and>
   n_delivered example_delivered = [((2, 0), example_flit 0)] \<and>
   fst (hd (n_delivered example_delivered)) = (2, 0)"
proof -
  have reach: "noc_reach example_noc [example_flit 0, example_flit 1] example_delivered"
    unfolding example_delivered_def by (intro reach_turn example_two_sent_reach)
  have "\<forall>q. interior 4 3 q \<longrightarrow> n_routers example_noc q \<noteq> None"
    by (auto simp: interior_def example_noc_def)
  moreover have "n_dim_x example_noc = 4" "n_dim_y example_noc = 3"
    "reachable_dest 4 3 (f_dest_x (example_flit 0), f_dest_y (example_flit 0))" by code_simp+
  moreover have "n_delivered example_delivered = [((2, 0), example_flit 0)]" by code_simp
  ultimately show ?thesis using floonoc_delivers [OF example_start reach]
    by (auto simp: example_flit_def)
qed

text \<open>
  No request is forgotten: in every state that a mesh reaches, a router with a request at the head of
  an input queue has a turn scheduled, or waits for the output that this request needs, which is
  stalled; whoever unstalls it schedules a turn.
\<close>

theorem floonoc_no_lost_turn:
  assumes "noc_start s0" "noc_reach s0 fs s" "n_routers s p = Some r" "i < 5" "r_queues r i = f # rest"
    "get_next_router_pos (n_dim_x s) p (f_dest_x f) (f_dest_y f) = Some n"
  shows "(r_event r \<or> r_stalled r (get_req_queue p n)) \<and>
    (\<forall>r'. n_routers (router_unstall_queue p n s) p = Some r' \<longrightarrow> r_event r')"
proof -
  have "settled s p i" using mesh_okD(7) [OF reach_mesh_ok [OF assms(2,1)] assms(4)] .
  then have "r_event r \<or> r_stalled r (get_req_queue p n)"
    using assms(3,5,6) by (simp add: settled_def noc_obs out_dir_def)
  then show ?thesis using assms(3) by (auto simp: router_unstall_queue_def)
qed

theorem floonoc_no_lost_turn_witness:
  "\<exists>r. n_routers example_two_sent (2, 1) = Some r \<and> (r_event r \<or> r_stalled r 3)"
proof -
  have "map_option (\<lambda>r. r_queues r 1) (n_routers example_two_sent (2, 1)) = Some [example_flit 0, example_flit 1]"
    "n_dim_x example_two_sent = 4" by code_simp+
  then obtain r where r: "n_routers example_two_sent (2, 1) = Some r"
    "r_queues r 1 = [example_flit 0, example_flit 1]" "n_dim_x example_two_sent = 4" by auto
  have "get_next_router_pos (n_dim_x example_two_sent) (2, 1) (f_dest_x (example_flit 0)) (f_dest_y (example_flit 0)) = Some (2, 0)"
    unfolding r(3) by code_simp
  from floonoc_no_lost_turn [OF example_start example_two_sent_reach r(1) _ r(2) this] r(1) show ?thesis
    by (auto simp: get_req_queue_def)
qed

end
