(* ===== verification/Floonoc_Ni.thy ===== *)
theory Floonoc_Ni
  imports Floonoc
begin

section \<open>The FlooNoC network interfaces (\<open>src/pulp/floonoc/floonoc_network_interface.cpp\<close>)\<close>

text \<open>
  A network interface takes bursts from an initiator, one at a time per width and direction, splits
  them into requests of the networks and queues these for its routers; it hands the requests that
  reach it to its target and sends the answers back, and counts what an initiator's burst still
  misses. The model has one interface, with the bursts it touches: objects of the initiators, named by
  numbers, whose fields do not change but for the remaining size the interfaces keep in them
  (\<open>ni_rem\<close>, an \<open>int\<close> of 32 bits). What routers and targets answer is given with each step; calls on
  other components are appended to \<open>ni_calls\<close>. A width of zero, with which the splitting loop of the
  code never ends, is the outcome \<open>Split_diverges\<close>.
\<close>

record entry =
  en_base :: u64
  en_size :: u64
  en_x :: int
  en_y :: int
  en_remove_offset :: u64

definition get_entry :: "entry list \<Rightarrow> u64 \<Rightarrow> entry option" where
  "get_entry es base = find (\<lambda>e. en_base e \<le> base \<and> base < en_base e + en_size e) es"

datatype nw = NW_REQ | NW_RSP | NW_WIDE

text \<open>A burst of an initiator, and a request of the network: \<open>pk_src\<close> is \<open>REQ_SRC_NI\<close>, \<open>None\<close> for NULL.\<close>

record axi_burst =
  ab_addr :: u64
  ab_size :: u64
  ab_data :: u64
  ab_write :: bool
  ab_wide :: bool

record packet =
  pk_src :: "pos option"
  pk_burst :: nat
  pk_dest_x :: int
  pk_dest_y :: int
  pk_wide :: bool
  pk_is_address :: bool
  pk_write :: bool
  pk_size :: u64
  pk_addr :: u64
  pk_initiator_addr :: u64
  pk_data :: u64

text \<open>A router of one of the three networks.\<close>

type_synonym nw_router = "nw \<times> pos"

datatype ni_call = Router_req nw packet | Target_req packet | Burst_resp nat | Burst_grant nat | Unstall_router nw_router

record ni =
  ni_pos :: pos
  ni_entries :: "entry list"
  ni_narrow_width :: u64
  ni_wide_width :: u64
  ni_outstanding_reqs :: int
  ni_bursts :: "nat \<Rightarrow> axi_burst"
  ni_rem :: "nat \<Rightarrow> u32"
  ni_queue :: "nw \<Rightarrow> packet list"
  ni_stalled :: "nw \<Rightarrow> bool"
  ni_target_stalled :: bool
  ni_routers_stalled :: "nw_router option"
  ni_pending_burst :: "bool \<Rightarrow> bool \<Rightarrow> nat option"
  ni_pending_burst_nb_req :: "bool \<Rightarrow> bool \<Rightarrow> int"
  ni_denied_req :: "bool \<Rightarrow> bool \<Rightarrow> nat list"
  ni_nb_pending_bursts :: "bool \<Rightarrow> int"
  ni_response_queue :: "packet list"
  ni_event :: bool
  ni_calls :: "ni_call list"

definition ni_call :: "ni_call \<Rightarrow> ni \<Rightarrow> ni" where
  "ni_call c s = s\<lparr>ni_calls := ni_calls s @ [c]\<rparr>"

text \<open>The members the code has once per width and direction: \<open>f w wr := v\<close>.\<close>

definition upd2 :: "bool \<Rightarrow> bool \<Rightarrow> 'a \<Rightarrow> (bool \<Rightarrow> bool \<Rightarrow> 'a) \<Rightarrow> bool \<Rightarrow> bool \<Rightarrow> 'a" where
  "upd2 w wr v f = f(w := (f w)(wr := v))"

lemma upd2_apply [simp]: "upd2 w wr v f w' wr' = (if w' = w \<and> wr' = wr then v else f w' wr')"
  by (simp add: upd2_def)

subsection \<open>Splitting a burst\<close>

record piece =
  pc_base :: u64
  pc_size :: u64
  pc_data :: u64
  pc_entry :: "entry option"

datatype split_end = Split_done | Split_no_entry | Split_diverges

text \<open>
  The loop of \<open>enqueue_router_req\<close>: the pieces it makes and how it ends. Every round takes at least a byte
  when the width is positive, so the size of the burst bounds the rounds.
\<close>

fun ni_split :: "nat \<Rightarrow> entry list \<Rightarrow> u64 \<Rightarrow> bool \<Rightarrow> bool \<Rightarrow> u64 \<Rightarrow> u64 \<Rightarrow> u64 \<Rightarrow> piece list \<times> split_end" where
  "ni_split 0 es width is_address is_req base left data = ([], if left = 0 then Split_done else Split_diverges)"
| "ni_split (Suc fuel) es width is_address is_req base left data =
     (if left = 0 then ([], Split_done)
      else let n = (if is_address then left else min width left)
           in if is_req then
                (case get_entry es base of
                   None \<Rightarrow> ([], Split_no_entry)
                 | Some e \<Rightarrow>
                     let n1 = min (en_base e + en_size e - base) n;
                         (ps, stop) = ni_split fuel es width is_address is_req (base + n1) (left - n1) (data + n1)
                     in (\<lparr>pc_base = base, pc_size = n1, pc_data = data, pc_entry = Some e\<rparr> # ps, stop))
              else let (ps, stop) = ni_split fuel es width is_address is_req (base + n) (left - n) (data + n)
                   in (\<lparr>pc_base = base, pc_size = n, pc_data = data, pc_entry = None\<rparr> # ps, stop))"

definition nw_width :: "nw \<Rightarrow> ni \<Rightarrow> u64" where
  "nw_width q s = (if q = NW_WIDE then ni_wide_width s else ni_narrow_width s)"

text \<open>The request made of a piece; \<open>t\<close> has the fields that all the requests of a burst share.\<close>

definition piece_packet :: "packet \<Rightarrow> piece \<Rightarrow> packet" where
  "piece_packet t p =
     (case pc_entry p of
        None \<Rightarrow> t\<lparr>pk_size := pc_size p, pk_addr := pc_base p, pk_data := pc_data p\<rparr>
      | Some e \<Rightarrow> t\<lparr>pk_size := pc_size p, pk_addr := pc_base p - en_remove_offset e, pk_data := pc_data p,
                    pk_initiator_addr := pc_base p, pk_dest_x := en_x e, pk_dest_y := en_y e\<rparr>)"

definition ni_enqueue_router_req :: "nw \<Rightarrow> packet \<Rightarrow> bool \<Rightarrow> u64 \<Rightarrow> u64 \<Rightarrow> u64 \<Rightarrow> ni \<Rightarrow> ni" where
  "ni_enqueue_router_req q t is_req base burst_size data s =
     (let (ps, stop) = ni_split (unat burst_size) (ni_entries s) (nw_width q s) (pk_is_address t) is_req base burst_size data;
          w = pk_wide t; wr = pk_write t;
          started = int (length ps) + (if stop = Split_no_entry then 1 else 0);
          s1 = (if is_req
                then s\<lparr>ni_pending_burst_nb_req := upd2 w wr (ni_pending_burst_nb_req s w wr + started) (ni_pending_burst_nb_req s)\<rparr>
                else s);
          s2 = s1\<lparr>ni_queue := (ni_queue s1)(q := ni_queue s1 q @ map (piece_packet t) ps)\<rparr>
      in if stop = Split_done then s2\<lparr>ni_event := True\<rparr> else s2)"

subsection \<open>The queues towards the routers (\<open>NetworkQueue\<close>)\<close>

definition burst_template :: "nat \<Rightarrow> bool \<Rightarrow> ni \<Rightarrow> packet" where
  "burst_template b is_address s = \<lparr>pk_src = Some (ni_pos s), pk_burst = b, pk_dest_x = 0, pk_dest_y = 0,
     pk_wide = ab_wide (ni_bursts s b), pk_is_address = is_address, pk_write = ab_write (ni_bursts s b),
     pk_size = 0, pk_addr = 0, pk_initiator_addr = 0, pk_data = 0\<rparr>"

definition nq_handle_req :: "nw \<Rightarrow> nat \<Rightarrow> ni \<Rightarrow> ni" where
  "nq_handle_req q b s =
     (let bu = ni_bursts s b;
          enqueue = (\<lambda>is_address. ni_enqueue_router_req q (burst_template b is_address s) True (ab_addr bu) (ab_size bu) (ab_data bu));
          s1 = enqueue True s
      in if ab_write bu then enqueue False s1 else s1)"

definition nq_handle_rsp :: "nw \<Rightarrow> packet \<Rightarrow> bool \<Rightarrow> ni \<Rightarrow> ni" where
  "nq_handle_rsp q p is_address s =
     ni_enqueue_router_req q (p\<lparr>pk_src := None, pk_is_address := is_address, pk_initiator_addr := 0\<rparr>) False
       (pk_addr p) (pk_size p) (pk_data p) s"

text \<open>\<open>denies\<close> is what the router of the network answers.\<close>

definition nq_send_router_req :: "bool \<Rightarrow> nw \<Rightarrow> ni \<Rightarrow> ni" where
  "nq_send_router_req denies q s =
     (case ni_queue s q of
        [] \<Rightarrow> s
      | p # rest \<Rightarrow>
          let s1 = s\<lparr>ni_queue := (ni_queue s)(q := rest)\<rparr>;
              w = pk_wide p; wr = ab_write (ni_bursts s (pk_burst p));
              nb = ni_pending_burst_nb_req s w wr - 1;
              s2 = (if pk_src p \<noteq> None
                    then s1\<lparr>ni_pending_burst_nb_req := upd2 w wr nb (ni_pending_burst_nb_req s), ni_event := (nb = 0 \<or> ni_event s)\<rparr>
                    else s1);
              s3 = ni_call (Router_req q p) (s2\<lparr>ni_stalled := (ni_stalled s2)(q := denies)\<rparr>)
          in if rest \<noteq> [] then s3\<lparr>ni_event := True\<rparr> else s3)"

definition nq_check :: "bool \<Rightarrow> nw \<Rightarrow> ni \<Rightarrow> ni" where
  "nq_check denies q s = (if \<not> ni_stalled s q \<and> ni_queue s q \<noteq> [] then nq_send_router_req denies q s else s)"

definition nq_unstall_queue :: "nw \<Rightarrow> ni \<Rightarrow> ni" where
  "nq_unstall_queue q s = s\<lparr>ni_stalled := (ni_stalled s)(q := False), ni_event := True\<rparr>"

definition nq_reset :: "nw \<Rightarrow> ni \<Rightarrow> ni" where
  "nq_reset q s = s\<lparr>ni_queue := (ni_queue s)(q := []), ni_stalled := (ni_stalled s)(q := False)\<rparr>"

subsection \<open>The interface (\<open>NetworkInterface\<close>)\<close>

text \<open>A burst of the initiator starts, or is denied and waits.\<close>

definition ni_start_burst :: "nat \<Rightarrow> ni \<Rightarrow> ni" where
  "ni_start_burst b s =
     (let w = ab_wide (ni_bursts s b); wr = ab_write (ni_bursts s b);
          s1 = s\<lparr>ni_nb_pending_bursts := (ni_nb_pending_bursts s)(w := ni_nb_pending_bursts s w + 1),
                 ni_pending_burst := upd2 w wr (Some b) (ni_pending_burst s)\<rparr>
      in nq_handle_req (if \<not> wr \<or> \<not> w then NW_REQ else NW_WIDE) b s1)"

definition ni_handle_req :: "nat \<Rightarrow> ni \<Rightarrow> io_status \<times> ni" where
  "ni_handle_req b s0 =
     (let bu = ni_bursts s0 b; w = ab_wide bu; wr = ab_write bu;
          s = s0\<lparr>ni_rem := (ni_rem s0)(b := ucast (ab_size bu))\<rparr>
      in if ni_pending_burst s w wr \<noteq> None \<or> ni_outstanding_reqs s \<le> ni_nb_pending_bursts s w
         then (IO_REQ_DENIED, s\<lparr>ni_denied_req := upd2 w wr (ni_denied_req s w wr @ [b]) (ni_denied_req s)\<rparr>)
         else (IO_REQ_PENDING, (ni_start_burst b s)\<lparr>ni_event := True\<rparr>))"

text \<open>
  The answer of the target to a request, which goes back to the interface the request came from. The
  code reads that interface from the request, where it is never NULL.
\<close>

definition ni_handle_response :: "packet \<Rightarrow> ni \<Rightarrow> ni" where
  "ni_handle_response p s =
     (let back = (case pk_src p of None \<Rightarrow> p | Some o_pos \<Rightarrow> p\<lparr>pk_src := None, pk_dest_x := fst o_pos, pk_dest_y := snd o_pos\<rparr>)
      in if \<not> pk_write p then nq_handle_rsp (if pk_wide p then NW_WIDE else NW_RSP) back False s
         else let left = ni_rem s (pk_burst p) - ucast (pk_size p);
                  s1 = s\<lparr>ni_rem := (ni_rem s)(pk_burst p := left)\<rparr>
              in if left = 0 then nq_handle_rsp NW_RSP back True s1 else s1)"

text \<open>A request arrives from router \<open>r\<close>; the target answers it with \<open>result\<close>, after \<open>latency\<close> cycles.\<close>

definition ni_finish_burst :: "bool \<Rightarrow> nat \<Rightarrow> ni \<Rightarrow> ni" where
  "ni_finish_burst w b s =
     ni_call (Burst_resp b) (s\<lparr>ni_nb_pending_bursts := (ni_nb_pending_bursts s)(w := ni_nb_pending_bursts s w - 1)\<rparr>)"

definition ni_handle_request :: "io_status \<Rightarrow> nat \<Rightarrow> nw_router \<Rightarrow> packet \<Rightarrow> ni \<Rightarrow> bool \<times> ni" where
  "ni_handle_request result latency r p s =
     (if pk_src p = None then
        let b = pk_burst p;
            s1 = (if ab_write (ni_bursts s b) then ni_finish_burst (pk_wide p) b s
                  else let left = ni_rem s b - ucast (pk_size p); s2 = s\<lparr>ni_rem := (ni_rem s)(b := left)\<rparr>
                       in if left = 0 then ni_finish_burst (pk_wide p) b s2 else s2)
        in (False, s1\<lparr>ni_event := True\<rparr>)
      else if pk_write p \<and> \<not> pk_is_address p \<or> \<not> pk_write p then
        let s1 = ni_call (Target_req p) s
        in if result = IO_REQ_OK then
             (False, if 0 < latency then s1\<lparr>ni_response_queue := ni_response_queue s1 @ [p]\<rparr> else ni_handle_response p s1)
           else if result = IO_REQ_DENIED then (True, s1\<lparr>ni_target_stalled := True, ni_routers_stalled := Some r\<rparr>)
           else (False, s1)
      else (False, s))"

definition ni_grant :: "ni \<Rightarrow> ni" where
  "ni_grant s = s\<lparr>ni_target_stalled := False, ni_event := True\<rparr>"

text \<open>Parts of the turn of the interface.\<close>

definition ni_release_burst :: "bool \<Rightarrow> bool \<Rightarrow> ni \<Rightarrow> ni" where
  "ni_release_burst w wr s =
     (if ni_pending_burst s w wr \<noteq> None \<and> ni_pending_burst_nb_req s w wr = 0
      then s\<lparr>ni_pending_burst := upd2 w wr None (ni_pending_burst s), ni_event := True\<rparr> else s)"

definition ni_grant_denied :: "bool \<Rightarrow> bool \<Rightarrow> ni \<Rightarrow> ni" where
  "ni_grant_denied w wr s =
     (case ni_denied_req s w wr of
        [] \<Rightarrow> s
      | b # rest \<Rightarrow>
          if ni_pending_burst s w wr = None \<and> ni_nb_pending_bursts s w < ni_outstanding_reqs s then
            let s1 = s\<lparr>ni_nb_pending_bursts := (ni_nb_pending_bursts s)(w := ni_nb_pending_bursts s w + 1),
                       ni_pending_burst := upd2 w wr (Some b) (ni_pending_burst s),
                       ni_denied_req := upd2 w wr rest (ni_denied_req s)\<rparr>
            in (ni_call (Burst_grant b) (nq_handle_req (if w \<and> ab_write (ni_bursts s b) then NW_WIDE else NW_REQ) b s1))
                 \<lparr>ni_event := True\<rparr>
          else s)"

definition ni_send_response :: "bool \<Rightarrow> ni \<Rightarrow> ni" where
  "ni_send_response ready s =
     (case ni_response_queue s of
        [] \<Rightarrow> s
      | p # rest \<Rightarrow> if ready then ni_handle_response p (s\<lparr>ni_response_queue := rest\<rparr>) else s)"

definition ni_unstall_router :: "ni \<Rightarrow> ni" where
  "ni_unstall_router s =
     (case ni_routers_stalled s of
        None \<Rightarrow> s
      | Some r \<Rightarrow> if \<not> ni_target_stalled s then (ni_call (Unstall_router r) s)\<lparr>ni_routers_stalled := None\<rparr> else s)"

text \<open>
  The turn: \<open>denies\<close> gives the answers of the routers, \<open>ready\<close> whether the head of the response queue has
  waited its latency. \<open>trigger_next\<close> keeps a turn scheduled while there are responses.
\<close>

definition ni_fsm_handler :: "(nw \<Rightarrow> bool) \<Rightarrow> bool \<Rightarrow> ni \<Rightarrow> ni" where
  "ni_fsm_handler denies ready s0 =
     (let s1 = nq_check (denies NW_REQ) NW_REQ (s0\<lparr>ni_event := False\<rparr>);
          s2 = nq_check (denies NW_RSP) NW_RSP s1;
          s3 = nq_check (denies NW_WIDE) NW_WIDE s2;
          s4 = ni_unstall_router (ni_send_response ready s3);
          s5 = ni_release_burst False True (ni_release_burst False False (ni_release_burst True True (ni_release_burst True False s4)));
          s6 = ni_grant_denied False True (ni_grant_denied False False (ni_grant_denied True True (ni_grant_denied True False s5)))
      in if ni_response_queue s6 \<noteq> [] then s6\<lparr>ni_event := True\<rparr> else s6)"

definition ni_reset :: "ni \<Rightarrow> ni" where
  "ni_reset s = s\<lparr>ni_target_stalled := False, ni_routers_stalled := None, ni_pending_burst := (\<lambda>_ _. None),
     ni_pending_burst_nb_req := (\<lambda>_ _. 0), ni_nb_pending_bursts := (\<lambda>_. 0)\<rparr>"

end
