(* ===== verification/Floonoc_Ni_Split.thy ===== *)
theory Floonoc_Ni_Split
  imports Floonoc_Ni
begin

section \<open>The requests of a burst\<close>

text \<open>
  The pieces \<open>ni_split\<close> makes lie one behind the other from the base of the burst, none is empty, a data
  piece fits the network and a request piece its entry of the address map; they make up the burst, or
  what of it lies before the first address they reach without an entry.
\<close>

fun pieces_from :: "u64 \<Rightarrow> u64 \<Rightarrow> piece list \<Rightarrow> bool" where
  "pieces_from base data [] = True"
| "pieces_from base data (p # ps) =
     (pc_base p = base \<and> pc_data p = data \<and> 0 < pc_size p \<and> pieces_from (base + pc_size p) (data + pc_size p) ps)"

definition pieces_size :: "piece list \<Rightarrow> nat" where
  "pieces_size ps = (\<Sum>p\<leftarrow>ps. unat (pc_size p))"

lemma pieces_size_simps [simp]: "pieces_size [] = 0" "pieces_size (p # ps) = unat (pc_size p) + pieces_size ps"
  by (simp_all add: pieces_size_def)

text \<open>A data piece fits the width; a request piece has the entry of its first address and ends in it.\<close>

definition piece_ok :: "entry list \<Rightarrow> u64 \<Rightarrow> bool \<Rightarrow> bool \<Rightarrow> piece \<Rightarrow> bool" where
  "piece_ok es width is_address is_req p \<longleftrightarrow>
     (\<not> is_address \<longrightarrow> pc_size p \<le> width) \<and> pc_entry p = (if is_req then get_entry es (pc_base p) else None) \<and>
     (case pc_entry p of None \<Rightarrow> \<not> is_req
      | Some e \<Rightarrow> en_base e \<le> pc_base p \<and> unat (pc_base p) + unat (pc_size p) \<le> unat (en_base e) + unat (en_size e))"

definition entries_fit :: "entry list \<Rightarrow> bool" where
  "entries_fit es \<longleftrightarrow> list_all (\<lambda>e. unat (en_base e) + unat (en_size e) < 2 ^ 64) es"

lemma get_entryD:
  assumes "get_entry es base = Some e"
  shows "e \<in> set es" "en_base e \<le> base" "base < en_base e + en_size e"
  using assms by (auto simp: get_entry_def find_Some_iff)

lemma unat_add_fits: "unat a + unat b < 2 ^ 64 \<Longrightarrow> unat (a + b) = unat a + unat (b :: u64)"
  by (simp add: unat_word_ariths)

text \<open>The size of a request piece: what the entry has left, at most what is asked for.\<close>

lemma entry_piece:
  assumes e: "get_entry es base = Some e" "entries_fit es" and n: "0 < n"
  defines "n1 \<equiv> min (en_base e + en_size e - base) n"
  shows "0 < n1" "n1 \<le> n" "unat base + unat n1 \<le> unat (en_base e) + unat (en_size e)"
proof -
  have fit: "unat (en_base e) + unat (en_size e) < 2 ^ 64"
    using e get_entryD(1) [OF e(1)] by (auto simp: entries_fit_def list_all_iff)
  let ?limit = "en_base e + en_size e"
  have u_limit: "unat ?limit = unat (en_base e) + unat (en_size e)" by (rule unat_add_fits [OF fit])
  have less: "base < ?limit" using get_entryD(3) [OF e(1)] .
  then have u_left: "unat (?limit - base) = unat ?limit - unat base" by (simp add: unat_sub less_imp_le)
  have "unat base < unat ?limit" using less by (simp add: word_less_nat_alt)
  then have "0 < ?limit - base" using u_left by (simp add: word_less_nat_alt)
  then show "0 < n1" using n by (simp add: n1_def)
  show "n1 \<le> n" by (simp add: n1_def)
  have "n1 \<le> ?limit - base" by (simp add: n1_def)
  then show "unat base + unat n1 \<le> unat (en_base e) + unat (en_size e)"
    using u_left u_limit \<open>unat base < unat ?limit\<close> by (simp add: word_le_nat_alt)
qed

text \<open>After a piece, the rest of the burst still fits the address space.\<close>

lemma rest_fits:
  assumes "unat base + unat left \<le> 2 ^ 64" "0 < n" "n \<le> (left :: u64)"
  shows "unat (left - n) = unat left - unat n" "unat (left - n) < unat left" "unat (base + n) + unat (left - n) \<le> 2 ^ 64"
    "unat n \<le> unat left"
proof -
  show le: "unat n \<le> unat left" using assms(3) by (simp add: word_le_nat_alt)
  show sub: "unat (left - n) = unat left - unat n" using assms(3) by (simp add: unat_sub)
  have pos: "0 < unat n" using assms(2) by (simp add: word_less_nat_alt)
  show "unat (left - n) < unat left" using sub pos le by simp
  show "unat (base + n) + unat (left - n) \<le> 2 ^ 64"
  proof (cases "unat base + unat n < 2 ^ 64")
    case True
    then show ?thesis using unat_add_fits [OF True] sub le assms(1) by simp
  next
    case False
    then have "unat left = unat n" using assms(1) le by simp
    then show ?thesis using sub unsigned_less [of "base + n", where 'a = nat] by simp
  qed
qed

lemma ni_split_pieces:
  assumes "entries_fit es" "0 < width"
  shows "unat base + unat left \<le> 2 ^ 64 \<Longrightarrow> unat left \<le> fuel \<Longrightarrow>
    ni_split fuel es width is_address is_req base left data = (ps, stop) \<Longrightarrow>
    pieces_from base data ps \<and> list_all (piece_ok es width is_address is_req) ps \<and>
    (stop = Split_done \<and> pieces_size ps = unat left \<or>
     is_req \<and> stop = Split_no_entry \<and> pieces_size ps < unat left \<and> get_entry es (base + of_nat (pieces_size ps)) = None)"
proof (induction fuel arbitrary: base left data ps stop)
  case 0
  then have "left = 0" by (simp add: unat_eq_0)
  with 0 show ?case by auto
next
  case (Suc fuel)
  show ?case
  proof (cases "left = 0")
    case True
    with Suc.prems show ?thesis by auto
  next
    case False
    let ?n = "if is_address then left else min width left"
    have n: "0 < ?n" "?n \<le> left" "\<not> is_address \<Longrightarrow> ?n \<le> width"
      using False assms(2) by (auto simp: word_neq_0_conv)
    show ?thesis
    proof (cases "is_req \<and> get_entry es base = None")
      case True
      with Suc.prems False have "ps = []" "stop = Split_no_entry" by auto
      with True False show ?thesis by (simp add: word_neq_0_conv unat_gt_0)
    next
      case entry: False
      define m where "m = (if is_req then min (en_base (the (get_entry es base)) + en_size (the (get_entry es base)) - base) ?n else ?n)"
      have m: "0 < m" "m \<le> ?n"
        using entry n(1) entry_piece(1,2) [OF _ assms(1) n(1), of base] unfolding m_def by (cases is_req; force)+
      define p where "p = \<lparr>pc_base = base, pc_size = m, pc_data = data, pc_entry = (if is_req then get_entry es base else None)\<rparr>"
      obtain qs e' where rest: "ni_split fuel es width is_address is_req (base + m) (left - m) (data + m) = (qs, e')"
        by (metis surj_pair)
      have split: "ps = p # qs" "stop = e'"
        using Suc.prems(3) False entry rest unfolding m_def p_def
        by (auto simp: Let_def split: if_splits)
      note fits = rest_fits [OF Suc.prems(1) m(1) order_trans [OF m(2) n(2)]]
      have w: "\<not> is_address \<Longrightarrow> m \<le> width" using order_trans [OF m(2) n(3)] .
      have ok: "piece_ok es width is_address is_req p"
      proof (cases is_req)
        case True
        then obtain e where e: "get_entry es base = Some e" using entry by auto
        have "m = min (en_base e + en_size e - base) ?n" using True e by (simp add: m_def)
        then have "unat base + unat m \<le> unat (en_base e) + unat (en_size e)"
          using entry_piece(3) [OF e assms(1) n(1)] by simp
        with True e w get_entryD(2) [OF e] show ?thesis by (simp add: piece_ok_def p_def)
      next
        case False
        with w show ?thesis by (simp add: piece_ok_def p_def)
      qed
      have "unat (left - m) \<le> fuel" using fits(2) Suc.prems(2) by simp
      note IH = Suc.IH [OF fits(3) this rest]
      have "unat m \<le> unat left" by (rule fits(4))
      with IH ok m(1) fits(1) show ?thesis
        by (auto simp: split p_def add.assoc)
    qed
  qed
qed

text \<open>
  An interface at (0, 1) that may have one pending burst, and three reads of its initiator: the second
  is refused, the third is for an address without an entry.
\<close>

definition ni_example :: ni where
  "ni_example = \<lparr>ni_pos = (0, 1), ni_entries = [\<lparr>en_base = 0x1000, en_size = 4, en_x = 3, en_y = 1, en_remove_offset = 0x1000\<rparr>,
       \<lparr>en_base = 0x1004, en_size = 4, en_x = 2, en_y = 0, en_remove_offset = 0\<rparr>],
     ni_narrow_width = 2, ni_wide_width = 4, ni_outstanding_reqs = 1,
     ni_bursts = (\<lambda>b. \<lparr>ab_addr = (if b = 2 then 0x2000 else 0x1003), ab_size = 2, ab_data = 0, ab_write = False, ab_wide = False\<rparr>),
     ni_rem = (\<lambda>_. 0), ni_queue = (\<lambda>_. []), ni_stalled = (\<lambda>_. False), ni_target_stalled = False,
     ni_routers_stalled = None, ni_pending_burst = (\<lambda>_ _. None), ni_pending_burst_nb_req = (\<lambda>_ _. 0),
     ni_denied_req = (\<lambda>_ _. []), ni_nb_pending_bursts = (\<lambda>_. 0), ni_response_queue = [], ni_event = False, ni_calls = []\<rparr>"

text \<open>
  C23. Splitting tiles the burst. The requests queued for a burst lie one behind the other from its
  address, none is empty, each stays inside the entry of the map that its first address has and a data
  request fits the width of the network; they make up the whole burst when the loop ends, and otherwise
  it stopped at the first address reached that has no entry. With a positive width it always ends.
\<close>

theorem floonoc_ni_split:
  assumes "entries_fit (ni_entries s)" "0 < nw_width q s" "unat base + unat left \<le> 2 ^ 64"
  shows "\<exists>ps stop. ni_split (unat left) (ni_entries s) (nw_width q s) (pk_is_address t) True base left data = (ps, stop) \<and>
    ni_queue (ni_enqueue_router_req q t True base left data s) q = ni_queue s q @ map (piece_packet t) ps \<and>
    pieces_from base data ps \<and> list_all (piece_ok (ni_entries s) (nw_width q s) (pk_is_address t) True) ps \<and>
    (stop = Split_done \<and> pieces_size ps = unat left \<or>
     stop = Split_no_entry \<and> pieces_size ps < unat left \<and> get_entry (ni_entries s) (base + of_nat (pieces_size ps)) = None)"
proof -
  obtain ps e where split: "ni_split (unat left) (ni_entries s) (nw_width q s) (pk_is_address t) True base left data = (ps, e)"
    by (metis surj_pair)
  have "ni_queue (ni_enqueue_router_req q t True base left data s) q = ni_queue s q @ map (piece_packet t) ps"
    by (simp add: ni_enqueue_router_req_def split Let_def)
  with split ni_split_pieces [OF assms order_refl split] show ?thesis by blast
qed

theorem floonoc_ni_split_witness:
  "\<exists>ps stop. ni_split (unat (2 :: u64)) (ni_entries ni_example) 2 False True 0x1003 2 0 = (ps, stop) \<and>
     map pc_size ps = [1, 1] \<and> pieces_size ps = unat (2 :: u64)"
proof -
  let ?t = "\<lparr>pk_src = None, pk_burst = 0, pk_dest_x = 0, pk_dest_y = 0, pk_wide = False, pk_is_address = False,
     pk_write = False, pk_size = 0, pk_addr = 0, pk_initiator_addr = 0, pk_data = 0\<rparr>"
  have fit: "entries_fit (ni_entries ni_example)" "0 < nw_width NW_REQ ni_example" "unat (0x1003 :: u64) + unat (2 :: u64) \<le> 2 ^ 64"
    by (simp_all add: ni_example_def entries_fit_def nw_width_def)
  have width: "nw_width NW_REQ ni_example = 2" by (simp add: nw_width_def ni_example_def)
  have run: "map pc_size (fst (ni_split (unat (2 :: u64)) (ni_entries ni_example) 2 False True 0x1003 2 0)) = [1, 1] \<and>
      snd (ni_split (unat (2 :: u64)) (ni_entries ni_example) 2 False True 0x1003 2 0) = Split_done"
  proof -
    have "unat (2 :: u64) = Suc (Suc 0)" by simp
    then show ?thesis by (simp only:) (simp add: ni_example_def get_entry_def Let_def)
  qed
  from floonoc_ni_split [OF fit, of ?t 0] run show ?thesis unfolding width by auto
qed

end
