(* ===== verification/Floonoc_Ni_Turns.thy ===== *)
theory Floonoc_Ni_Turns
  imports Floonoc_Ni_Split
begin

section \<open>The runs of a network interface\<close>

text \<open>
  What every operation of an interface keeps: the counters of requests to send agree with its queues,
  the pending bursts respect the limit, denied bursts wait in order. Then that an interface without a
  scheduled turn has nothing to do but wait for a router, its target or an initiator's answer.
\<close>

subsection \<open>Queueing\<close>

text \<open>Answers are split without the address map, so their splitting only needs a width.\<close>

lemma ni_split_answer:
  assumes "0 < width"
  shows "unat left \<le> fuel \<Longrightarrow> \<exists>ps. ni_split fuel es width is_address False base left data = (ps, Split_done)"
proof (induction fuel arbitrary: base left data)
  case 0
  then show ?case by (simp add: unat_eq_0)
next
  case (Suc fuel)
  show ?case
  proof (cases "left = 0")
    case False
    let ?n = "if is_address then left else min width left"
    have n: "0 < ?n" "?n \<le> left" using False assms by (auto simp: word_neq_0_conv)
    then have "unat (left - ?n) < unat left"
      by (metis diff_less le_zero_eq unat_sub word_le_nat_alt unat_eq_0 word_neq_0_conv not_gr_zero False)
    with Suc.prems have "unat (left - ?n) \<le> fuel" by simp
    from Suc.IH [OF this, of "base + ?n" "data + ?n"] show ?thesis
      using False by (auto simp: Let_def split: prod.split)
  qed simp
qed

definition burst_served :: "ni \<Rightarrow> nat \<Rightarrow> bool" where
  "burst_served s b \<longleftrightarrow>
     (let bu = ni_bursts s b
      in unat (ab_addr bu) + unat (ab_size bu) \<le> 2 ^ 64 \<and>
         (\<forall>k < unat (ab_size bu). get_entry (ni_entries s) (ab_addr bu + of_nat k) \<noteq> None))"

definition ni_config :: "ni \<Rightarrow> bool" where
  "ni_config s \<longleftrightarrow> entries_fit (ni_entries s) \<and> 0 < ni_narrow_width s \<and> 0 < ni_wide_width s"

text \<open>The packets of a burst: requests of the interface itself.\<close>

definition own_packet :: "ni \<Rightarrow> bool \<Rightarrow> bool \<Rightarrow> packet \<Rightarrow> bool" where
  "own_packet s w wr p \<longleftrightarrow> pk_src p \<noteq> None \<and> pk_wide p = w \<and> ab_write (ni_bursts s (pk_burst p)) = wr"

definition queued :: "nw \<Rightarrow> packet list \<Rightarrow> ni \<Rightarrow> ni" where
  "queued q ps s = s\<lparr>ni_queue := (ni_queue s)(q := ni_queue s q @ ps), ni_event := True\<rparr>"

lemma piece_packet_same [simp]:
  "pk_src (piece_packet t p) = pk_src t" "pk_wide (piece_packet t p) = pk_wide t"
  "pk_burst (piece_packet t p) = pk_burst t" "pk_write (piece_packet t p) = pk_write t"
  by (simp_all add: piece_packet_def split: option.split)

lemma nw_width_pos: "ni_config s \<Longrightarrow> 0 < nw_width q s"
  by (simp add: ni_config_def nw_width_def)

lemma nq_handle_rsp_queues:
  assumes "ni_config s"
  obtains ps where "nq_handle_rsp q p is_address s = queued q ps s" "list_all (\<lambda>p. pk_src p = None) ps"
proof -
  obtain qs where "ni_split (unat (pk_size p)) (ni_entries s) (nw_width q s) is_address False (pk_addr p) (pk_size p) (pk_data p)
      = (qs, Split_done)"
    using ni_split_answer [OF nw_width_pos [OF assms] order_refl] by blast
  then have "nq_handle_rsp q p is_address s =
      queued q (map (piece_packet (p\<lparr>pk_src := None, pk_is_address := is_address, pk_initiator_addr := 0\<rparr>)) qs) s"
    by (simp add: nq_handle_rsp_def ni_enqueue_router_req_def queued_def Let_def)
  then show thesis by (rule that) (simp add: list_all_iff)
qed

definition started :: "nw \<Rightarrow> bool \<Rightarrow> bool \<Rightarrow> packet list \<Rightarrow> ni \<Rightarrow> ni" where
  "started q w wr ps s = queued q ps
     (s\<lparr>ni_pending_burst_nb_req := upd2 w wr (ni_pending_burst_nb_req s w wr + int (length ps)) (ni_pending_burst_nb_req s)\<rparr>)"

lemma burst_split:
  assumes "ni_config s" "burst_served s b"
  obtains ps where "ni_split (unat (ab_size (ni_bursts s b))) (ni_entries s) (nw_width q s) is_address True
      (ab_addr (ni_bursts s b)) (ab_size (ni_bursts s b)) (ab_data (ni_bursts s b)) = (ps, Split_done)"
proof -
  obtain ps e where split: "ni_split (unat (ab_size (ni_bursts s b))) (ni_entries s) (nw_width q s) is_address True
      (ab_addr (ni_bursts s b)) (ab_size (ni_bursts s b)) (ab_data (ni_bursts s b)) = (ps, e)"
    by (metis surj_pair)
  have "entries_fit (ni_entries s)" using assms(1) by (simp add: ni_config_def)
  from ni_split_pieces [OF this nw_width_pos [OF assms(1)] _ order_refl split] assms(2)
  have "e = Split_done" by (auto simp: burst_served_def Let_def)
  with split that show thesis by blast
qed

lemma enqueue_served:
  assumes "ni_config s" "burst_served s b"
  obtains ps where "ni_enqueue_router_req q (burst_template b is_address s) True (ab_addr (ni_bursts s b))
      (ab_size (ni_bursts s b)) (ab_data (ni_bursts s b)) s = started q (ab_wide (ni_bursts s b)) (ab_write (ni_bursts s b)) ps s"
    "list_all (own_packet s (ab_wide (ni_bursts s b)) (ab_write (ni_bursts s b))) ps"
proof -
  obtain qs where split: "ni_split (unat (ab_size (ni_bursts s b))) (ni_entries s) (nw_width q s) is_address True
      (ab_addr (ni_bursts s b)) (ab_size (ni_bursts s b)) (ab_data (ni_bursts s b)) = (qs, Split_done)"
    using burst_split [OF assms] by blast
  show thesis
  proof (rule that)
    show "ni_enqueue_router_req q (burst_template b is_address s) True (ab_addr (ni_bursts s b))
      (ab_size (ni_bursts s b)) (ab_data (ni_bursts s b)) s =
      started q (ab_wide (ni_bursts s b)) (ab_write (ni_bursts s b)) (map (piece_packet (burst_template b is_address s)) qs) s"
      using split by (simp add: ni_enqueue_router_req_def burst_template_def started_def queued_def Let_def)
    show "list_all (own_packet s (ab_wide (ni_bursts s b)) (ab_write (ni_bursts s b))) (map (piece_packet (burst_template b is_address s)) qs)"
      by (simp add: list_all_iff own_packet_def burst_template_def)
  qed
qed

lemma started_obs [simp]:
  "ni_bursts (started q w wr ps s) = ni_bursts s" "ni_entries (started q w wr ps s) = ni_entries s"
  "ni_config (started q w wr ps s) = ni_config s" "burst_served (started q w wr ps s) = burst_served s"
  "burst_template b is_address (started q w wr ps s) = burst_template b is_address s"
  "own_packet (started q w wr ps s) = own_packet s"
  "started q w wr qs (started q w wr ps s) = started q w wr (ps @ qs) s"
  by (auto simp: started_def queued_def ni_config_def burst_served_def burst_template_def own_packet_def fun_eq_iff upd2_def
      intro!: ni.equality)

lemma nq_handle_req_starts:
  assumes "ni_config s" "burst_served s b"
  obtains ps where "nq_handle_req q b s = started q (ab_wide (ni_bursts s b)) (ab_write (ni_bursts s b)) ps s"
    "list_all (own_packet s (ab_wide (ni_bursts s b)) (ab_write (ni_bursts s b))) ps"
proof -
  obtain ps where ps: "ni_enqueue_router_req q (burst_template b True s) True (ab_addr (ni_bursts s b))
      (ab_size (ni_bursts s b)) (ab_data (ni_bursts s b)) s = started q (ab_wide (ni_bursts s b)) (ab_write (ni_bursts s b)) ps s"
    "list_all (own_packet s (ab_wide (ni_bursts s b)) (ab_write (ni_bursts s b))) ps"
    using enqueue_served [OF assms] by blast
  let ?s1 = "started q (ab_wide (ni_bursts s b)) (ab_write (ni_bursts s b)) ps s"
  have "ni_config ?s1" "burst_served ?s1 b" using assms by simp_all
  then obtain qs where qs: "ni_enqueue_router_req q (burst_template b False ?s1) True (ab_addr (ni_bursts s b))
      (ab_size (ni_bursts s b)) (ab_data (ni_bursts s b)) ?s1 = started q (ab_wide (ni_bursts s b)) (ab_write (ni_bursts s b)) qs ?s1"
    "list_all (own_packet s (ab_wide (ni_bursts s b)) (ab_write (ni_bursts s b))) qs"
    using enqueue_served [of ?s1 b q False] by (auto simp del: started_obs(7))
  show thesis
  proof (cases "ab_write (ni_bursts s b)")
    case True
    then show thesis using that [of "ps @ qs"] ps qs by (simp add: nq_handle_req_def Let_def)
  next
    case False
    then show thesis using that [of ps] ps by (simp add: nq_handle_req_def Let_def)
  qed
qed

subsection \<open>The invariant of an interface\<close>

definition own_count :: "ni \<Rightarrow> bool \<Rightarrow> bool \<Rightarrow> nat" where
  "own_count s w wr = length (filter (own_packet s w wr) (ni_queue s NW_REQ @ ni_queue s NW_RSP @ ni_queue s NW_WIDE))"

definition ni_ok :: "ni \<Rightarrow> bool" where
  "ni_ok s \<longleftrightarrow> ni_config s \<and> (\<forall>w. ni_nb_pending_bursts s w \<le> ni_outstanding_reqs s) \<and>
     (\<forall>w wr. ni_pending_burst_nb_req s w wr = int (own_count s w wr) \<and>
        (ni_pending_burst s w wr = None \<longrightarrow> ni_pending_burst_nb_req s w wr = 0) \<and>
        list_all (\<lambda>b. ab_wide (ni_bursts s b) = w \<and> ab_write (ni_bursts s b) = wr \<and> burst_served s b) (ni_denied_req s w wr))"

lemma ni_okD:
  assumes "ni_ok s"
  shows "ni_config s" "ni_nb_pending_bursts s w \<le> ni_outstanding_reqs s"
    "ni_pending_burst_nb_req s w wr = int (own_count s w wr)"
    "ni_pending_burst s w wr = None \<Longrightarrow> ni_pending_burst_nb_req s w wr = 0"
    "b \<in> set (ni_denied_req s w wr) \<Longrightarrow> ab_wide (ni_bursts s b) = w \<and> ab_write (ni_bursts s b) = wr \<and> burst_served s b"
  using assms unfolding ni_ok_def list_all_iff by blast+

lemma ni_cong:
  assumes "ni_bursts s' = ni_bursts s" "ni_entries s' = ni_entries s" "ni_narrow_width s' = ni_narrow_width s"
    "ni_wide_width s' = ni_wide_width s"
  shows "own_packet s' = own_packet s" "ni_config s' = ni_config s" "burst_served s' = burst_served s"
    "ni_queue s' = ni_queue s \<Longrightarrow> own_count s' = own_count s"
proof -
  show own: "own_packet s' = own_packet s" using assms by (simp add: own_packet_def fun_eq_iff)
  show "ni_config s' = ni_config s" using assms by (simp add: ni_config_def)
  show "burst_served s' = burst_served s" using assms by (simp add: burst_served_def fun_eq_iff)
  show "own_count s' = own_count s" if "ni_queue s' = ni_queue s" by (intro ext) (simp only: own_count_def own that)
qed

lemma ni_okI:
  assumes "ni_ok s" "ni_bursts s' = ni_bursts s" "ni_entries s' = ni_entries s" "ni_narrow_width s' = ni_narrow_width s"
    "ni_wide_width s' = ni_wide_width s" "ni_outstanding_reqs s' = ni_outstanding_reqs s"
    and "\<And>w. ni_nb_pending_bursts s' w \<le> ni_outstanding_reqs s"
    and "\<And>w wr. ni_pending_burst_nb_req s' w wr = int (own_count s' w wr)"
    and "\<And>w wr. ni_pending_burst s' w wr = None \<Longrightarrow> ni_pending_burst_nb_req s' w wr = 0"
    and "\<And>w wr b. b \<in> set (ni_denied_req s' w wr) \<Longrightarrow>
      ab_wide (ni_bursts s b) = w \<and> ab_write (ni_bursts s b) = wr \<and> burst_served s b"
  shows "ni_ok s'"
  using assms(1,7-) unfolding ni_ok_def list_all_iff ni_cong(2,3) [OF assms(2-5)] assms(2,6) by blast

lemma ni_ok_cong:
  assumes "ni_ok s" "ni_bursts s' = ni_bursts s" "ni_entries s' = ni_entries s" "ni_narrow_width s' = ni_narrow_width s"
    "ni_wide_width s' = ni_wide_width s" "ni_outstanding_reqs s' = ni_outstanding_reqs s"
    "ni_nb_pending_bursts s' = ni_nb_pending_bursts s" "ni_pending_burst_nb_req s' = ni_pending_burst_nb_req s"
    "ni_pending_burst s' = ni_pending_burst s" "ni_denied_req s' = ni_denied_req s" "own_count s' = own_count s"
  shows "ni_ok s'"
  by (rule ni_okI [OF assms(1-6)]; unfold assms(7-)) (rule ni_okD [OF assms(1)]; assumption?)+

lemma ni_ok_frame [simp]:
  assumes "ni_ok s"
  shows "ni_ok (s\<lparr>ni_event := e\<rparr>)" "ni_ok (s\<lparr>ni_target_stalled := t\<rparr>)" "ni_ok (s\<lparr>ni_routers_stalled := r\<rparr>)"
    "ni_ok (s\<lparr>ni_stalled := st\<rparr>)" "ni_ok (s\<lparr>ni_rem := m\<rparr>)" "ni_ok (s\<lparr>ni_response_queue := rq\<rparr>)" "ni_ok (ni_call c s)"
  by (rule ni_ok_cong [OF assms]; (rule ni_cong(4))?; simp add: ni_call_def)+

lemma own_count_queue:
  assumes "ni_bursts s' = ni_bursts s" "ni_queue s' = (ni_queue s)(q := xs)"
  shows "own_count s' w wr + length (filter (own_packet s w wr) (ni_queue s q)) =
    own_count s w wr + length (filter (own_packet s w wr) xs)"
proof -
  have "own_packet s' = own_packet s" using assms(1) by (simp add: own_packet_def fun_eq_iff)
  with assms(2) show ?thesis by (cases q) (simp_all add: own_count_def)
qed

lemma own_count_queued:
  "own_count (queued q ps s) w wr = own_count s w wr + length (filter (own_packet s w wr) ps)"
  using own_count_queue [of "queued q ps s" s q "ni_queue s q @ ps" w wr] by (simp add: queued_def)

lemma queued_answers_ok:
  assumes "ni_ok s" "list_all (\<lambda>p. pk_src p = None) ps"
  shows "ni_ok (queued q ps s)"
proof -
  have "filter (own_packet s w wr) ps = []" for w wr
    using assms(2) by (auto simp: own_packet_def list_all_iff filter_empty_conv)
  then have "own_count (queued q ps s) = own_count s" by (simp add: own_count_queued fun_eq_iff)
  then show ?thesis by (intro ni_ok_cong [OF assms(1)]) (simp_all add: queued_def)
qed

lemma nq_handle_rsp_ok:
  assumes "ni_ok s"
  shows "ni_ok (nq_handle_rsp q p is_address s)" "ni_event (nq_handle_rsp q p is_address s)"
proof -
  obtain ps where ps: "nq_handle_rsp q p is_address s = queued q ps s" "list_all (\<lambda>p. pk_src p = None) ps"
    using nq_handle_rsp_queues [OF ni_okD(1) [OF assms]] by blast
  show "ni_ok (nq_handle_rsp q p is_address s)" unfolding ps(1) by (rule queued_answers_ok [OF assms ps(2)])
  show "ni_event (nq_handle_rsp q p is_address s)" by (simp add: ps(1) queued_def)
qed

text \<open>A burst that starts: its requests are counted.\<close>

lemma start_ok:
  assumes ok: "ni_ok s" and b: "burst_served s b" "ab_wide (ni_bursts s b) = w" "ab_write (ni_bursts s b) = wr"
    and free: "ni_pending_burst s w wr = None" "ni_nb_pending_bursts s w < ni_outstanding_reqs s"
    and rest: "set rest \<subseteq> set (ni_denied_req s w wr)"
  defines "s1 \<equiv> s\<lparr>ni_nb_pending_bursts := (ni_nb_pending_bursts s)(w := ni_nb_pending_bursts s w + 1),
      ni_pending_burst := upd2 w wr (Some b) (ni_pending_burst s), ni_denied_req := upd2 w wr rest (ni_denied_req s)\<rparr>"
  shows "ni_ok (nq_handle_req q b s1)" "ni_event (nq_handle_req q b s1)"
proof -
  have same: "ni_bursts s1 = ni_bursts s" "ni_entries s1 = ni_entries s" "ni_narrow_width s1 = ni_narrow_width s"
    "ni_wide_width s1 = ni_wide_width s" "ni_queue s1 = ni_queue s" by (simp_all add: s1_def)
  note cong = ni_cong [OF same(1-4)]
  have "ni_config s1" "burst_served s1 b" using ni_okD(1) [OF ok] b(1) by (simp_all add: cong)
  then obtain ps where ps: "nq_handle_req q b s1 = started q w wr ps s1" "list_all (own_packet s w wr) ps"
    using nq_handle_req_starts [of s1 b q] b(2,3) by (auto simp: cong same(1))
  have mine: "length (filter (own_packet s w' wr') ps) = (if w' = w \<and> wr' = wr then length ps else 0)" for w' wr'
    using ps(2) by (auto simp: list_all_iff own_packet_def filter_empty_conv intro: arg_cong [of _ _ length])
  let ?s' = "started q w wr ps s1"
  have count: "own_count ?s' w' wr' = own_count s w' wr' + (if w' = w \<and> wr' = wr then length ps else 0)" for w' wr'
    using own_count_queue [of ?s' s q "ni_queue s q @ ps" w' wr'] same mine by (simp add: started_def queued_def)
  show "ni_ok (nq_handle_req q b s1)"
    unfolding ps(1)
  proof (rule ni_okI [OF ok])
    show "b' \<in> set (ni_denied_req ?s' w' wr') \<Longrightarrow>
      ab_wide (ni_bursts s b') = w' \<and> ab_write (ni_bursts s b') = wr' \<and> burst_served s b'" for w' wr' b'
      using ni_okD(5) [OF ok, of b' w' wr'] rest by (auto simp: started_def queued_def s1_def split: if_splits)
  qed (use ni_okD(2-4) [OF ok] free in \<open>auto simp: count, auto simp: started_def queued_def s1_def split: if_splits\<close>)
  show "ni_event (nq_handle_req q b s1)" by (simp add: ps(1) started_def queued_def)
qed

end
