(* ===== verification/Floonoc_Ni_Runs.thy ===== *)
theory Floonoc_Ni_Runs
  imports Floonoc_Ni_Turns
begin

section \<open>Turns and runs of a network interface\<close>

text \<open>
  Every part of the turn keeps the invariant, keeps a scheduled turn scheduled and the order of the
  denied bursts; a part that schedules no turn has nothing left to do.
\<close>

subsection \<open>Parts of the turn\<close>

definition ni_granted :: "ni \<Rightarrow> bool \<Rightarrow> bool \<Rightarrow> nat list" where
  "ni_granted s w wr = [b. Burst_grant b \<leftarrow> ni_calls s, ab_wide (ni_bursts s b) = w \<and> ab_write (ni_bursts s b) = wr]"

text \<open>The bursts granted so far, then those that wait.\<close>

definition ni_order :: "ni \<Rightarrow> bool \<Rightarrow> bool \<Rightarrow> nat list" where
  "ni_order s w wr = ni_granted s w wr @ ni_denied_req s w wr"

definition keeps :: "ni \<Rightarrow> ni \<Rightarrow> bool" where
  "keeps s s' \<longleftrightarrow> ni_ok s' \<and> (ni_event s \<longrightarrow> ni_event s') \<and> ni_order s' = ni_order s \<and> ni_bursts s' = ni_bursts s \<and>
     ni_outstanding_reqs s' = ni_outstanding_reqs s \<and> ni_entries s' = ni_entries s"

lemma keeps_trans: "keeps s s1 \<Longrightarrow> keeps s1 s2 \<Longrightarrow> keeps s s2"
  by (simp add: keeps_def)

lemma order_cong:
  assumes "ni_bursts s' = ni_bursts s" "ni_denied_req s' = ni_denied_req s"
    "ni_calls s' = ni_calls s \<or> (\<exists>c. ni_calls s' = ni_calls s @ [c] \<and> (\<forall>b. c \<noteq> Burst_grant b))"
  shows "ni_order s' = ni_order s"
  using assms by (auto simp: ni_order_def ni_granted_def fun_eq_iff split: ni_call.split)

lemma answer_keeps:
  assumes "ni_ok s"
  shows "keeps s (nq_handle_rsp q p is_address s)"
proof -
  obtain ps where ps: "nq_handle_rsp q p is_address s = queued q ps s" "list_all (\<lambda>p. pk_src p = None) ps"
    using nq_handle_rsp_queues [OF ni_okD(1) [OF assms]] by blast
  have "ni_order (queued q ps s) = ni_order s" by (rule order_cong) (simp_all add: queued_def)
  with nq_handle_rsp_ok [OF assms, of q p is_address] ps(1) show ?thesis by (simp add: keeps_def queued_def)
qed

lemma response_keeps:
  assumes "ni_ok s"
  shows "keeps s (ni_handle_response p s)"
    "\<not> ni_event (ni_handle_response p s) \<Longrightarrow> \<exists>m. ni_handle_response p s = s\<lparr>ni_rem := m\<rparr>"
proof -
  have rem: "keeps s (s\<lparr>ni_rem := m\<rparr>)" "ni_ok (s\<lparr>ni_rem := m\<rparr>)" for m
    using assms order_cong [of "s\<lparr>ni_rem := m\<rparr>" s] by (simp_all add: keeps_def)
  show "keeps s (ni_handle_response p s)"
    using answer_keeps [OF assms] keeps_trans [OF rem(1) answer_keeps [OF rem(2)]] rem(1)
    by (simp add: ni_handle_response_def Let_def)
  show "\<not> ni_event (ni_handle_response p s) \<Longrightarrow> \<exists>m. ni_handle_response p s = s\<lparr>ni_rem := m\<rparr>"
    using nq_handle_rsp_ok(2) [OF assms] nq_handle_rsp_ok(2) [OF rem(2)]
    by (auto simp: ni_handle_response_def Let_def split: if_splits)
qed

lemma send_obs:
  fixes d
  assumes q: "ni_queue s q = p # rest"
  defines "s' \<equiv> nq_send_router_req d q s"
  shows "ni_bursts s' = ni_bursts s" "ni_queue s' = (ni_queue s)(q := rest)" "ni_denied_req s' = ni_denied_req s"
    "ni_calls s' = ni_calls s @ [Router_req q p]" "ni_entries s' = ni_entries s" "ni_narrow_width s' = ni_narrow_width s"
    "ni_wide_width s' = ni_wide_width s" "ni_outstanding_reqs s' = ni_outstanding_reqs s"
    "ni_nb_pending_bursts s' = ni_nb_pending_bursts s" "ni_pending_burst s' = ni_pending_burst s"
    "ni_event s \<Longrightarrow> ni_event s'"
    "ni_pending_burst_nb_req s' w wr = ni_pending_burst_nb_req s w wr - of_bool (own_packet s w wr p)"
    "own_count s' w wr + of_bool (own_packet s w wr p) = own_count s w wr"
proof -
  show same: "ni_bursts s' = ni_bursts s" "ni_queue s' = (ni_queue s)(q := rest)" "ni_denied_req s' = ni_denied_req s"
    "ni_calls s' = ni_calls s @ [Router_req q p]" "ni_entries s' = ni_entries s" "ni_narrow_width s' = ni_narrow_width s"
    "ni_wide_width s' = ni_wide_width s" "ni_outstanding_reqs s' = ni_outstanding_reqs s"
    "ni_nb_pending_bursts s' = ni_nb_pending_bursts s" "ni_pending_burst s' = ni_pending_burst s"
    "ni_event s \<Longrightarrow> ni_event s'"
    using q by (auto simp: s'_def nq_send_router_req_def ni_call_def Let_def)
  show "ni_pending_burst_nb_req s' w wr = ni_pending_burst_nb_req s w wr - of_bool (own_packet s w wr p)"
    using q by (auto simp: s'_def nq_send_router_req_def ni_call_def Let_def own_packet_def)
  show "own_count s' w wr + of_bool (own_packet s w wr p) = own_count s w wr"
    using own_count_queue [OF same(1,2), of w wr] q by (simp split: if_splits)
qed

lemma send_keeps:
  assumes ok: "ni_ok s" and q: "ni_queue s q = p # rest"
  shows "keeps s (nq_send_router_req d q s)"
proof -
  let ?s' = "nq_send_router_req d q s"
  note obs = send_obs [OF q, of d]
  have "ni_ok ?s'"
  proof (rule ni_okI [OF ok obs(1,5-8)])
    show "ni_nb_pending_bursts ?s' w \<le> ni_outstanding_reqs s" for w using ni_okD(2) [OF ok] obs(9) by simp
    show "ni_pending_burst_nb_req ?s' w wr = int (own_count ?s' w wr)" for w wr
      using obs(12,13) [of w wr] ni_okD(3) [OF ok, of w wr] by (cases "own_packet s w wr p") auto
    show "ni_pending_burst_nb_req ?s' w wr = 0" if "ni_pending_burst ?s' w wr = None" for w wr
      using obs(12,13) [of w wr] ni_okD(3,4) [OF ok, of w wr] that obs(10) by (cases "own_packet s w wr p") auto
    show "ab_wide (ni_bursts s b) = w \<and> ab_write (ni_bursts s b) = wr \<and> burst_served s b"
      if "b \<in> set (ni_denied_req ?s' w wr)" for w wr b
      using ni_okD(5) [OF ok, of b w wr] that obs(3) by simp
  qed
  moreover have "ni_order ?s' = ni_order s" by (rule order_cong) (simp_all add: obs)
  ultimately show ?thesis using obs by (simp add: keeps_def)
qed

lemma check_keeps:
  assumes "ni_ok s"
  shows "keeps s (nq_check d q s)"
    "\<not> ni_event (nq_check d q s) \<Longrightarrow> ni_queue (nq_check d q s) q = [] \<or> ni_stalled (nq_check d q s) q"
    "q' \<noteq> q \<Longrightarrow> ni_queue (nq_check d q s) q' = ni_queue s q'" "q' \<noteq> q \<Longrightarrow> ni_stalled (nq_check d q s) q' = ni_stalled s q'"
proof -
  show "keeps s (nq_check d q s)"
  proof (cases "ni_queue s q")
    case (Cons p rest)
    show ?thesis unfolding nq_check_def using send_keeps [OF assms Cons] assms by (simp add: keeps_def)
  qed (use assms in \<open>simp add: nq_check_def keeps_def\<close>)
qed (auto simp: nq_check_def nq_send_router_req_def ni_call_def Let_def split: list.splits if_splits)

lemma unstall_router_keeps:
  assumes "ni_ok s"
  shows "keeps s (ni_unstall_router s)" "ni_queue (ni_unstall_router s) = ni_queue s" "ni_stalled (ni_unstall_router s) = ni_stalled s"
    "ni_routers_stalled (ni_unstall_router s) = None \<or> ni_target_stalled (ni_unstall_router s)"
proof -
  have "ni_order (ni_unstall_router s) = ni_order s"
    by (rule order_cong) (auto simp: ni_unstall_router_def ni_call_def split: option.split)
  then show "keeps s (ni_unstall_router s)"
    using assms by (auto simp: keeps_def ni_unstall_router_def split: option.split) (simp_all add: ni_call_def)
qed (auto simp: ni_unstall_router_def ni_call_def split: option.split)

lemma send_response_keeps:
  assumes "ni_ok s"
  shows "keeps s (ni_send_response ready s)"
    "\<not> ni_event (ni_send_response ready s) \<Longrightarrow>
       ni_queue (ni_send_response ready s) = ni_queue s \<and> ni_stalled (ni_send_response ready s) = ni_stalled s"
proof -
  have pop: "keeps s (s\<lparr>ni_response_queue := rq\<rparr>)" "ni_ok (s\<lparr>ni_response_queue := rq\<rparr>)" for rq
    using assms order_cong [of "s\<lparr>ni_response_queue := rq\<rparr>" s] by (simp_all add: keeps_def)
  show "keeps s (ni_send_response ready s)"
    using keeps_trans [OF pop(1) response_keeps(1) [OF pop(2)]] assms
    by (auto simp: ni_send_response_def keeps_def split: list.split)
  show "\<not> ni_event (ni_send_response ready s) \<Longrightarrow>
      ni_queue (ni_send_response ready s) = ni_queue s \<and> ni_stalled (ni_send_response ready s) = ni_stalled s"
    using response_keeps(2) [OF pop(2)]
    by (fastforce simp: ni_send_response_def split: list.splits if_splits)
qed

lemma release_keeps:
  assumes "ni_ok s"
  shows "keeps s (ni_release_burst w wr s)"
    "\<not> ni_event (ni_release_burst w wr s) \<Longrightarrow> ni_release_burst w wr s = s \<and> (ni_pending_burst s w wr \<noteq> None \<longrightarrow> ni_pending_burst_nb_req s w wr \<noteq> 0)"
proof -
  let ?s' = "s\<lparr>ni_pending_burst := upd2 w wr None (ni_pending_burst s), ni_event := True\<rparr>"
  have count: "own_count ?s' = own_count s" by (rule ni_cong(4)) simp_all
  have "ni_ok ?s'" if "ni_pending_burst_nb_req s w wr = 0"
    by (rule ni_okI [OF assms]) (use that ni_okD(2-5) [OF assms] count in \<open>auto simp: count split: if_splits\<close>)
  moreover have "ni_order ?s' = ni_order s" by (rule order_cong) simp_all
  ultimately show "keeps s (ni_release_burst w wr s)" using assms by (simp add: ni_release_burst_def keeps_def)
qed (auto simp: ni_release_burst_def split: if_splits)

lemma enqueue_frame [simp]:
  "ni_calls (ni_enqueue_router_req q t is_req base left data s) = ni_calls s"
  "ni_bursts (ni_enqueue_router_req q t is_req base left data s) = ni_bursts s"
  "ni_denied_req (ni_enqueue_router_req q t is_req base left data s) = ni_denied_req s"
  "ni_entries (ni_enqueue_router_req q t is_req base left data s) = ni_entries s"
  "ni_outstanding_reqs (ni_enqueue_router_req q t is_req base left data s) = ni_outstanding_reqs s"
  "ni_pending_burst (ni_enqueue_router_req q t is_req base left data s) = ni_pending_burst s"
  "ni_nb_pending_bursts (ni_enqueue_router_req q t is_req base left data s) = ni_nb_pending_bursts s"
  "ni_rem (ni_enqueue_router_req q t is_req base left data s) = ni_rem s"
  by (simp_all add: ni_enqueue_router_req_def Let_def split: prod.split)

lemma handle_req_frame [simp]:
  "ni_calls (nq_handle_req q b s) = ni_calls s" "ni_bursts (nq_handle_req q b s) = ni_bursts s"
  "ni_denied_req (nq_handle_req q b s) = ni_denied_req s" "ni_entries (nq_handle_req q b s) = ni_entries s"
  "ni_outstanding_reqs (nq_handle_req q b s) = ni_outstanding_reqs s" "ni_pending_burst (nq_handle_req q b s) = ni_pending_burst s"
  "ni_nb_pending_bursts (nq_handle_req q b s) = ni_nb_pending_bursts s" "ni_rem (nq_handle_req q b s) = ni_rem s"
  by (simp_all add: nq_handle_req_def Let_def)

lemma grant_denied_keeps:
  assumes "ni_ok s"
  shows "keeps s (ni_grant_denied w wr s)"
    "\<not> ni_event (ni_grant_denied w wr s) \<Longrightarrow> ni_grant_denied w wr s = s \<and>
       (ni_denied_req s w wr \<noteq> [] \<longrightarrow> ni_pending_burst s w wr \<noteq> None \<or> ni_outstanding_reqs s \<le> ni_nb_pending_bursts s w)"
proof -
  show "keeps s (ni_grant_denied w wr s)"
  proof (cases "ni_denied_req s w wr")
    case Nil
    then show ?thesis using assms by (simp add: ni_grant_denied_def keeps_def)
  next
    case (Cons b rest)
    show ?thesis
    proof (cases "ni_pending_burst s w wr = None \<and> ni_nb_pending_bursts s w < ni_outstanding_reqs s")
      case False
      with Cons assms show ?thesis by (auto simp: ni_grant_denied_def keeps_def)
    next
      case True
      have b: "ab_wide (ni_bursts s b) = w" "ab_write (ni_bursts s b) = wr" "burst_served s b"
        using ni_okD(5) [OF assms, of b w wr] Cons by auto
      let ?q = "if w \<and> ab_write (ni_bursts s b) then NW_WIDE else NW_REQ"
      let ?s1 = "s\<lparr>ni_nb_pending_bursts := (ni_nb_pending_bursts s)(w := ni_nb_pending_bursts s w + 1),
        ni_pending_burst := upd2 w wr (Some b) (ni_pending_burst s), ni_denied_req := upd2 w wr rest (ni_denied_req s)\<rparr>"
      let ?s' = "(ni_call (Burst_grant b) (nq_handle_req ?q b ?s1))\<lparr>ni_event := True\<rparr>"
      have s': "ni_grant_denied w wr s = ?s'" using True Cons by (simp add: ni_grant_denied_def Let_def)
      have "ni_ok (nq_handle_req ?q b ?s1)"
        by (rule start_ok(1) [OF assms b(3,1,2)]) (use True Cons in auto)
      then have "ni_ok ?s'" by simp
      moreover have "ni_order ?s' = ni_order s"
        using b Cons by (auto simp: ni_order_def ni_granted_def ni_call_def fun_eq_iff)
      ultimately show ?thesis unfolding s' keeps_def by (simp add: ni_call_def)
    qed
  qed
qed (auto simp: ni_grant_denied_def Let_def split: list.splits if_splits)

subsection \<open>The turn\<close>

text \<open>
  An interface that waits: its queues wait for their routers, a burst whose requests are not all sent
  waits for a stalled queue, denied bursts wait for the burst before them or for answers, and a stalled
  router waits for the target.
\<close>

definition ni_waits :: "ni \<Rightarrow> bool" where
  "ni_waits s \<longleftrightarrow> (\<forall>q. ni_queue s q \<noteq> [] \<longrightarrow> ni_stalled s q) \<and>
     (\<forall>w wr. ni_pending_burst s w wr \<noteq> None \<longrightarrow> ni_pending_burst_nb_req s w wr \<noteq> 0) \<and>
     (\<forall>w wr. ni_denied_req s w wr \<noteq> [] \<longrightarrow> ni_pending_burst s w wr \<noteq> None \<or> ni_outstanding_reqs s \<le> ni_nb_pending_bursts s w) \<and>
     (ni_routers_stalled s \<noteq> None \<longrightarrow> ni_target_stalled s)"

text \<open>A part of the turn that does nothing when it schedules no turn, and then \<open>P\<close> holds.\<close>

definition idle_part :: "(ni \<Rightarrow> bool) \<Rightarrow> (ni \<Rightarrow> ni) \<Rightarrow> bool" where
  "idle_part P f \<longleftrightarrow> (\<forall>s. ni_ok s \<longrightarrow> keeps s (f s) \<and> (\<not> ni_event (f s) \<longrightarrow> f s = s \<and> P s))"

lemma idle_part_comp:
  assumes "idle_part P f" "idle_part Q g"
  shows "idle_part (\<lambda>s. P s \<and> Q s) (\<lambda>s. g (f s))"
  unfolding idle_part_def
proof (intro allI impI)
  fix s
  assume ok: "ni_ok s"
  have f: "keeps s (f s)" "\<not> ni_event (f s) \<longrightarrow> f s = s \<and> P s" using assms(1) ok by (simp_all add: idle_part_def)
  then have "ni_ok (f s)" by (simp add: keeps_def)
  then have g: "keeps (f s) (g (f s))" "\<not> ni_event (g (f s)) \<longrightarrow> g (f s) = f s \<and> Q (f s)"
    using assms(2) by (simp_all add: idle_part_def)
  show "keeps s (g (f s)) \<and> (\<not> ni_event (g (f s)) \<longrightarrow> g (f s) = s \<and> P s \<and> Q s)"
    using keeps_trans [OF f(1) g(1)] f(2) g(2) by auto
qed

lemma idle_part_mono: "idle_part P f \<Longrightarrow> (\<And>s. P s \<Longrightarrow> Q s) \<Longrightarrow> idle_part Q f"
  unfolding idle_part_def by blast

lemma all_kinds: "P True False \<Longrightarrow> P True True \<Longrightarrow> P False False \<Longrightarrow> P False True \<Longrightarrow> \<forall>w wr. P w wr"
  by (metis (full_types))

text \<open>A part for each width and direction.\<close>

lemma idle_part_kinds:
  assumes "\<And>w wr. idle_part (\<lambda>s. P s w wr) (f w wr)"
  shows "idle_part (\<lambda>s. \<forall>w wr. P s w wr) (\<lambda>s. f False True (f False False (f True True (f True False s))))"
  by (rule idle_part_mono [OF idle_part_comp [OF idle_part_comp [OF idle_part_comp [OF assms [of True False] assms [of True True]]
      assms [of False False]] assms [of False True]]])
    (rule all_kinds; blast)

lemma release_idle: "idle_part (\<lambda>s. ni_pending_burst s w wr \<noteq> None \<longrightarrow> ni_pending_burst_nb_req s w wr \<noteq> 0) (ni_release_burst w wr)"
  using release_keeps unfolding idle_part_def by blast

lemma grant_idle: "idle_part (\<lambda>s. ni_denied_req s w wr \<noteq> [] \<longrightarrow>
    ni_pending_burst s w wr \<noteq> None \<or> ni_outstanding_reqs s \<le> ni_nb_pending_bursts s w) (ni_grant_denied w wr)"
  using grant_denied_keeps unfolding idle_part_def by blast

lemma checks_keep:
  assumes ok: "ni_ok s"
  defines "s1 \<equiv> \<lambda>d. nq_check (d NW_REQ) NW_REQ s"
    and "s2 \<equiv> \<lambda>d. nq_check (d NW_RSP) NW_RSP (nq_check (d NW_REQ) NW_REQ s)"
    and "s3 \<equiv> \<lambda>d. nq_check (d NW_WIDE) NW_WIDE (nq_check (d NW_RSP) NW_RSP (nq_check (d NW_REQ) NW_REQ s))"
  shows "keeps s (s3 d)" "\<not> ni_event (s3 d) \<Longrightarrow> ni_queue (s3 d) q = [] \<or> ni_stalled (s3 d) q"
proof -
  have k1: "keeps s (s1 d)" unfolding s1_def by (rule check_keeps(1) [OF ok])
  then have ok1: "ni_ok (s1 d)" by (simp add: keeps_def)
  have k2: "keeps (s1 d) (s2 d)" unfolding s2_def s1_def by (rule check_keeps(1) [OF ok1 [unfolded s1_def]])
  then have ok2: "ni_ok (s2 d)" by (simp add: keeps_def)
  have k3: "keeps (s2 d) (s3 d)" unfolding s3_def s2_def by (rule check_keeps(1) [OF ok2 [unfolded s2_def]])
  show "keeps s (s3 d)" using keeps_trans [OF keeps_trans [OF k1 k2] k3] .
  assume e: "\<not> ni_event (s3 d)"
  then have es: "\<not> ni_event (s2 d)" "\<not> ni_event (s1 d)" using k2 k3 by (auto simp: keeps_def)
  have req: "ni_queue (s1 d) NW_REQ = [] \<or> ni_stalled (s1 d) NW_REQ"
    using check_keeps(2) [OF ok] es(2) unfolding s1_def by blast
  have rsp: "ni_queue (s2 d) NW_RSP = [] \<or> ni_stalled (s2 d) NW_RSP"
    using check_keeps(2) [OF ok1] es(1) unfolding s1_def s2_def by blast
  have wide: "ni_queue (s3 d) NW_WIDE = [] \<or> ni_stalled (s3 d) NW_WIDE"
    using check_keeps(2) [OF ok2] e unfolding s2_def s3_def by blast
  have old3: "ni_queue (s3 d) q' = ni_queue (s2 d) q' \<and> ni_stalled (s3 d) q' = ni_stalled (s2 d) q'" if "q' \<noteq> NW_WIDE" for q'
    using check_keeps(3,4) [OF ok2 that] unfolding s2_def s3_def by blast
  have old2: "ni_queue (s2 d) q' = ni_queue (s1 d) q' \<and> ni_stalled (s2 d) q' = ni_stalled (s1 d) q'" if "q' \<noteq> NW_RSP" for q'
    using check_keeps(3,4) [OF ok1 that] unfolding s1_def s2_def by blast
  show "ni_queue (s3 d) q = [] \<or> ni_stalled (s3 d) q"
    using req rsp wide old2 old3 by (cases q) auto
qed

lemma fsm_handler_keeps:
  assumes ok: "ni_ok s"
  shows "keeps (s\<lparr>ni_event := False\<rparr>) (ni_fsm_handler denies ready s)"
    "ni_event (ni_fsm_handler denies ready s) \<or> ni_waits (ni_fsm_handler denies ready s)"
proof -
  define s0 where "s0 = s\<lparr>ni_event := False\<rparr>"
  define s3 where "s3 = nq_check (denies NW_WIDE) NW_WIDE (nq_check (denies NW_RSP) NW_RSP (nq_check (denies NW_REQ) NW_REQ s0))"
  define s4 where "s4 = ni_send_response ready s3"
  define s5 where "s5 = ni_unstall_router s4"
  define s6 where "s6 = ni_release_burst False True (ni_release_burst False False (ni_release_burst True True (ni_release_burst True False s5)))"
  define s7 where "s7 = ni_grant_denied False True (ni_grant_denied False False (ni_grant_denied True True (ni_grant_denied True False s6)))"
  have handler: "ni_fsm_handler denies ready s = (if ni_response_queue s7 \<noteq> [] then s7\<lparr>ni_event := True\<rparr> else s7)"
    by (simp add: ni_fsm_handler_def s0_def s3_def s4_def s5_def s6_def s7_def Let_def)
  have ok0: "ni_ok s0" using ok by (simp add: s0_def)
  have k3: "keeps s0 s3" unfolding s3_def by (rule checks_keep(1) [OF ok0])
  then have ok3: "ni_ok s3" by (simp add: keeps_def)
  have k4: "keeps s3 s4" unfolding s4_def by (rule send_response_keeps(1) [OF ok3])
  then have ok4: "ni_ok s4" by (simp add: keeps_def)
  have k5: "keeps s4 s5" unfolding s5_def by (rule unstall_router_keeps(1) [OF ok4])
  then have ok5: "ni_ok s5" by (simp add: keeps_def)
  have release: "keeps s5 s6" "\<not> ni_event s6 \<Longrightarrow> s6 = s5 \<and>
      (\<forall>w wr. ni_pending_burst s5 w wr \<noteq> None \<longrightarrow> ni_pending_burst_nb_req s5 w wr \<noteq> 0)"
    using idle_part_kinds [where f = ni_release_burst, OF release_idle] ok5 unfolding idle_part_def s6_def by blast+
  then have ok6: "ni_ok s6" by (simp add: keeps_def)
  have grant: "keeps s6 s7" "\<not> ni_event s7 \<Longrightarrow> s7 = s6 \<and> (\<forall>w wr. ni_denied_req s6 w wr \<noteq> [] \<longrightarrow>
      ni_pending_burst s6 w wr \<noteq> None \<or> ni_outstanding_reqs s6 \<le> ni_nb_pending_bursts s6 w)"
    using idle_part_kinds [where f = ni_grant_denied, OF grant_idle] ok6 unfolding idle_part_def s7_def by blast+
  have k7: "keeps s0 s7" 
    by (rule keeps_trans [OF keeps_trans [OF keeps_trans [OF keeps_trans [OF k3 k4] k5] release(1)] grant(1)])
  have "ni_order (s7\<lparr>ni_event := True\<rparr>) = ni_order s7" by (rule order_cong) simp_all
  then have "keeps s7 (s7\<lparr>ni_event := True\<rparr>)" using k7 by (simp add: keeps_def)
  from keeps_trans [OF k7 this] k7 show "keeps (s\<lparr>ni_event := False\<rparr>) (ni_fsm_handler denies ready s)"
    unfolding handler s0_def by presburger
  show "ni_event (ni_fsm_handler denies ready s) \<or> ni_waits (ni_fsm_handler denies ready s)"
  proof (cases "ni_event (ni_fsm_handler denies ready s)")
    case False
    then have "ni_response_queue s7 = []" unfolding handler by (cases "ni_response_queue s7 = []") simp_all
    then have here: "ni_fsm_handler denies ready s = s7" unfolding handler by simp
    with False have e7: "\<not> ni_event s7" by simp
    have s6: "s7 = s6" "\<not> ni_event s6" using grant(2) [OF e7] e7 by auto
    have s5: "s6 = s5" "\<not> ni_event s5" using release(2) [OF s6(2)] s6 by auto
    have es: "\<not> ni_event s4" "\<not> ni_event s3" using s5(2) k4 k5 by (auto simp: keeps_def)
    have same: "ni_queue s5 = ni_queue s3" "ni_stalled s5 = ni_stalled s3"
      using send_response_keeps(2) [OF ok3, of ready] unstall_router_keeps(2,3) [OF ok4] es(1)
      unfolding s5_def s4_def by auto
    have "\<forall>q. ni_queue s5 q \<noteq> [] \<longrightarrow> ni_stalled s5 q"
      unfolding same using checks_keep(2) [OF ok0, of denies] es(2) unfolding s3_def by blast
    moreover have "ni_routers_stalled s5 \<noteq> None \<longrightarrow> ni_target_stalled s5"
      using unstall_router_keeps(4) [OF ok4] unfolding s5_def by auto
    ultimately have "ni_waits s5"
      using grant(2) [OF e7] release(2) [OF s6(2)] s5(1) unfolding ni_waits_def by blast
    then show ?thesis by (simp add: here s6 s5)
  qed simp
qed

end
