(* ===== verification/Floonoc_Ni_Live.thy ===== *)
theory Floonoc_Ni_Live
  imports Floonoc_Ni_Runs
begin

section \<open>Network interfaces do not forget bursts\<close>

text \<open>
  Runs of an interface over all its operations, in any order and with any answers of the routers and of
  the target: the bursts that were denied are granted in order, the number of pending bursts respects
  its limit, and an interface that is not waiting has a turn scheduled.
\<close>

datatype ni_op = Ni_req nat | Ni_arrive io_status nat nw_router packet | Ni_turn "nw \<Rightarrow> bool" bool
  | Ni_unstall nw | Ni_grant | Ni_response packet

fun ni_step :: "ni_op \<Rightarrow> ni \<Rightarrow> ni" where
  "ni_step (Ni_req b) s = snd (ni_handle_req b s)"
| "ni_step (Ni_arrive result latency r p) s = snd (ni_handle_request result latency r p s)"
| "ni_step (Ni_turn denies ready) s = ni_fsm_handler denies ready s"
| "ni_step (Ni_unstall q) s = nq_unstall_queue q s"
| "ni_step Ni_grant s = ni_grant s"
| "ni_step (Ni_response p) s = ni_handle_response p s"

fun ni_run :: "ni_op list \<Rightarrow> ni \<Rightarrow> ni" where
  "ni_run [] s = s"
| "ni_run (x # xs) s = ni_run xs (ni_step x s)"

text \<open>The bursts of a kind that a run denies.\<close>

fun ni_refused :: "ni_op \<Rightarrow> ni \<Rightarrow> nat list" where
  "ni_refused (Ni_req b) s = (if fst (ni_handle_req b s) = IO_REQ_DENIED then [b] else [])"
| "ni_refused _ s = []"

definition of_kind :: "ni \<Rightarrow> bool \<Rightarrow> bool \<Rightarrow> nat list \<Rightarrow> nat list" where
  "of_kind s w wr bs = filter (\<lambda>b. ab_wide (ni_bursts s b) = w \<and> ab_write (ni_bursts s b) = wr) bs"

fun ni_refusals :: "ni_op list \<Rightarrow> ni \<Rightarrow> nat list" where
  "ni_refusals [] s = []"
| "ni_refusals (x # xs) s = ni_refused x s @ ni_refusals xs (ni_step x s)"

fun ni_op_ok :: "ni \<Rightarrow> ni_op \<Rightarrow> bool" where
  "ni_op_ok s (Ni_req b) = burst_served s b"
| "ni_op_ok s _ = True"

definition ni_idle :: "ni \<Rightarrow> bool" where
  "ni_idle s \<longleftrightarrow> ni_config s \<and> 0 \<le> ni_outstanding_reqs s \<and> ni_queue s = (\<lambda>_. []) \<and> ni_routers_stalled s = None \<and>
     ni_pending_burst s = (\<lambda>_ _. None) \<and> ni_pending_burst_nb_req s = (\<lambda>_ _. 0) \<and> ni_denied_req s = (\<lambda>_ _. []) \<and>
     ni_nb_pending_bursts s = (\<lambda>_. 0) \<and> ni_calls s = []"

definition ni_awake :: "ni \<Rightarrow> bool" where
  "ni_awake s \<longleftrightarrow> ni_ok s \<and> (ni_event s \<or> ni_waits s)"

lemma ni_waits_cong:
  assumes "ni_waits s" "ni_queue s' = ni_queue s" "ni_stalled s' = ni_stalled s" "ni_pending_burst s' = ni_pending_burst s"
    "ni_pending_burst_nb_req s' = ni_pending_burst_nb_req s" "ni_denied_req s' = ni_denied_req s"
    "ni_outstanding_reqs s' = ni_outstanding_reqs s" "ni_nb_pending_bursts s' = ni_nb_pending_bursts s"
    "ni_routers_stalled s' \<noteq> None \<longrightarrow> ni_routers_stalled s \<noteq> None \<and> ni_target_stalled s' = ni_target_stalled s \<or> ni_target_stalled s'"
  shows "ni_waits s'"
  using assms unfolding ni_waits_def by auto

lemma keeps_awake: "keeps s s' \<Longrightarrow> ni_event s' \<Longrightarrow> ni_awake s'"
  by (simp add: keeps_def ni_awake_def)

lemma req_step:
  assumes "ni_awake s" "burst_served s b"
  shows "ni_awake (snd (ni_handle_req b s))"
    "ni_order (snd (ni_handle_req b s)) w wr = ni_order s w wr @ of_kind s w wr (ni_refused (Ni_req b) s)"
    "ni_bursts (snd (ni_handle_req b s)) = ni_bursts s" "ni_entries (snd (ni_handle_req b s)) = ni_entries s"
    "ni_outstanding_reqs (snd (ni_handle_req b s)) = ni_outstanding_reqs s"
proof -
  let ?w = "ab_wide (ni_bursts s b)" and ?wr = "ab_write (ni_bursts s b)"
  let ?s0 = "s\<lparr>ni_rem := (ni_rem s)(b := ucast (ab_size (ni_bursts s b)))\<rparr>"
  have ok: "ni_ok s" and ok0: "ni_ok ?s0" using assms(1) by (simp_all add: ni_awake_def)
  have served0: "burst_served ?s0 b" using assms(2) by (simp add: burst_served_def)
  show "ni_bursts (snd (ni_handle_req b s)) = ni_bursts s" "ni_entries (snd (ni_handle_req b s)) = ni_entries s"
    "ni_outstanding_reqs (snd (ni_handle_req b s)) = ni_outstanding_reqs s"
    by (simp_all add: ni_handle_req_def ni_start_burst_def Let_def)
  show "ni_order (snd (ni_handle_req b s)) w wr = ni_order s w wr @ of_kind s w wr (ni_refused (Ni_req b) s)"
    by (auto simp: ni_handle_req_def ni_start_burst_def Let_def ni_order_def ni_granted_def of_kind_def)
  show "ni_awake (snd (ni_handle_req b s))"
  proof (cases "ni_pending_burst s ?w ?wr \<noteq> None \<or> ni_outstanding_reqs s \<le> ni_nb_pending_bursts s ?w")
    case True
    let ?s' = "?s0\<lparr>ni_denied_req := upd2 ?w ?wr (ni_denied_req s ?w ?wr @ [b]) (ni_denied_req s)\<rparr>"
    have s': "snd (ni_handle_req b s) = ?s'" using True by (auto simp: ni_handle_req_def Let_def)
    have "own_count ?s' = own_count s" by (rule ni_cong(4)) simp_all
    then have "ni_ok ?s'"
      by (intro ni_okI [OF ok]) (use ni_okD(2-5) [OF ok] assms(2) in \<open>auto split: if_splits\<close>)
    moreover have "ni_event ?s' \<or> ni_waits ?s'"
      using assms(1) True unfolding ni_awake_def ni_waits_def by auto
    ultimately show ?thesis unfolding s' ni_awake_def by blast
  next
    case False
    let ?q = "if \<not> ?wr \<or> \<not> ?w then NW_REQ else NW_WIDE"
    have same: "upd2 ?w ?wr (ni_denied_req s ?w ?wr) (ni_denied_req s) = ni_denied_req s" by (auto simp: fun_eq_iff)
    have s': "snd (ni_handle_req b s) = (nq_handle_req ?q b (?s0
        \<lparr>ni_nb_pending_bursts := (ni_nb_pending_bursts ?s0)(?w := ni_nb_pending_bursts ?s0 ?w + 1),
         ni_pending_burst := upd2 ?w ?wr (Some b) (ni_pending_burst ?s0),
         ni_denied_req := upd2 ?w ?wr (ni_denied_req s ?w ?wr) (ni_denied_req ?s0)\<rparr>))\<lparr>ni_event := True\<rparr>"
      using False by (simp add: ni_handle_req_def ni_start_burst_def Let_def same)
    have "ni_ok (snd (ni_handle_req b s))"
      unfolding s'
      by (intro ni_ok_frame(1) start_ok(1) [OF ok0 served0]) (use False in auto)
    then show ?thesis by (simp add: ni_awake_def s')
  qed
qed

lemma finish_ok:
  assumes "ni_ok s"
  shows "ni_ok (ni_finish_burst w b s)" "ni_order (ni_finish_burst w b s) = ni_order s"
    "ni_bursts (ni_finish_burst w b s) = ni_bursts s" "ni_entries (ni_finish_burst w b s) = ni_entries s"
    "ni_outstanding_reqs (ni_finish_burst w b s) = ni_outstanding_reqs s"
proof -
  let ?s1 = "s\<lparr>ni_nb_pending_bursts := (ni_nb_pending_bursts s)(w := ni_nb_pending_bursts s w - 1)\<rparr>"
  have "own_count ?s1 = own_count s" by (rule ni_cong(4)) simp_all
  moreover have "ni_nb_pending_bursts ?s1 w' \<le> ni_outstanding_reqs s" for w'
    using ni_okD(2) [OF assms, of w'] by auto
  ultimately have "ni_ok ?s1"
    by (intro ni_okI [OF assms]) (use ni_okD(3-5) [OF assms] in auto)
  then show "ni_ok (ni_finish_burst w b s)" by (simp add: ni_finish_burst_def)
  show "ni_order (ni_finish_burst w b s) = ni_order s"
    by (rule order_cong) (simp_all add: ni_finish_burst_def ni_call_def)
qed (simp_all add: ni_finish_burst_def ni_call_def)

lemma arrive_step:
  assumes "ni_awake s"
  shows "ni_awake (snd (ni_handle_request result latency r p s))"
    "ni_order (snd (ni_handle_request result latency r p s)) = ni_order s"
    "ni_bursts (snd (ni_handle_request result latency r p s)) = ni_bursts s"
    "ni_entries (snd (ni_handle_request result latency r p s)) = ni_entries s"
    "ni_outstanding_reqs (snd (ni_handle_request result latency r p s)) = ni_outstanding_reqs s"
proof -
  let ?s' = "snd (ni_handle_request result latency r p s)"
  have ok: "ni_ok s" using assms by (simp add: ni_awake_def)
  have "ni_awake ?s' \<and> ni_order ?s' = ni_order s \<and> ni_bursts ?s' = ni_bursts s \<and> ni_entries ?s' = ni_entries s \<and>
    ni_outstanding_reqs ?s' = ni_outstanding_reqs s"
  proof (cases "pk_src p = None")
    case True
    let ?b = "pk_burst p"
    let ?s2 = "s\<lparr>ni_rem := (ni_rem s)(?b := ni_rem s ?b - ucast (pk_size p))\<rparr>"
    have ok2: "ni_ok (s\<lparr>ni_rem := m\<rparr>)" "ni_order (s\<lparr>ni_rem := m\<rparr>) = ni_order s" for m
      using ok order_cong [of "s\<lparr>ni_rem := m\<rparr>" s] by simp_all
    have e: "ni_order (s1\<lparr>ni_event := True\<rparr>) = ni_order s1" for s1 by (rule order_cong) simp_all
    have s': "?s' = (if ab_write (ni_bursts s ?b) then ni_finish_burst (pk_wide p) ?b s
        else if ni_rem ?s2 ?b = 0 then ni_finish_burst (pk_wide p) ?b ?s2 else ?s2)\<lparr>ni_event := True\<rparr>"
      using True by (simp add: ni_handle_request_def Let_def)
    show ?thesis unfolding s' ni_awake_def by (simp add: finish_ok [OF ok] finish_ok [OF ok2(1)] ok2 e)
  next
    case False
    show ?thesis
    proof (cases "pk_write p \<and> \<not> pk_is_address p \<or> \<not> pk_write p")
      case other: False
      then show ?thesis using assms False by (auto simp: ni_handle_request_def)
    next
      case data: True
      let ?s1 = "ni_call (Target_req p) s"
      have "ni_order ?s1 = ni_order s" by (rule order_cong) (simp_all add: ni_call_def)
      then have k1: "keeps s ?s1" using ni_ok_frame(7) [OF ok] by (simp add: keeps_def) (simp add: ni_call_def)
      have a1: "ni_event ?s1 \<or> ni_waits ?s1"
        using assms ni_waits_cong [of s ?s1] by (auto simp: ni_awake_def ni_call_def)
      have ok1: "ni_ok ?s1" using ok by simp
      have s': "?s' = (if result = IO_REQ_OK
          then if 0 < latency then ?s1\<lparr>ni_response_queue := ni_response_queue ?s1 @ [p]\<rparr> else ni_handle_response p ?s1
          else if result = IO_REQ_DENIED then ?s1\<lparr>ni_target_stalled := True, ni_routers_stalled := Some r\<rparr> else ?s1)"
        using False data by (auto simp: ni_handle_request_def Let_def)
      have "keeps ?s1 (?s1\<lparr>ni_response_queue := rq\<rparr>)"
        "keeps ?s1 (?s1\<lparr>ni_target_stalled := True, ni_routers_stalled := Some r\<rparr>)" for rq
        using ok1 order_cong [of "?s1\<lparr>ni_response_queue := rq\<rparr>" ?s1]
          order_cong [of "?s1\<lparr>ni_target_stalled := True, ni_routers_stalled := Some r\<rparr>" ?s1]
        by (simp_all add: keeps_def)
      then have keeps: "keeps s ?s'"
        unfolding s' using keeps_trans [OF k1] k1 response_keeps(1) [OF ok1] by presburger
      have "ni_event ?s' \<or> ni_waits ?s'"
      proof (cases "ni_event ?s'")
        case quiet: False
        have "\<not> ni_event ?s1" using quiet keeps k1 by (auto simp: keeps_def ni_call_def)
        then have w: "ni_waits ?s1" using a1 by simp
        have "ni_waits (?s1\<lparr>ni_response_queue := rq\<rparr>)"
          "ni_waits (?s1\<lparr>ni_target_stalled := True, ni_routers_stalled := Some r\<rparr>)" "ni_waits (?s1\<lparr>ni_rem := m\<rparr>)" for rq m
          by (rule ni_waits_cong [OF w]; simp)+
        then show ?thesis using quiet response_keeps(2) [OF ok1, of p] w unfolding s' by (auto split: if_splits)
      qed simp
      with keeps show ?thesis by (simp add: keeps_def ni_awake_def)
    qed
  qed
  then show "ni_awake ?s'" "ni_order ?s' = ni_order s" "ni_bursts ?s' = ni_bursts s" "ni_entries ?s' = ni_entries s"
    "ni_outstanding_reqs ?s' = ni_outstanding_reqs s" by blast+
qed

lemma turn_step:
  assumes "ni_awake s"
  shows "ni_awake (ni_fsm_handler denies ready s) \<and> ni_order (ni_fsm_handler denies ready s) = ni_order s \<and>
    ni_bursts (ni_fsm_handler denies ready s) = ni_bursts s \<and> ni_entries (ni_fsm_handler denies ready s) = ni_entries s \<and>
    ni_outstanding_reqs (ni_fsm_handler denies ready s) = ni_outstanding_reqs s"
proof -
  have ok: "ni_ok s" using assms by (simp add: ni_awake_def)
  have "ni_order (s\<lparr>ni_event := False\<rparr>) = ni_order s" by (rule order_cong) simp_all
  with fsm_handler_keeps [OF ok, of denies ready] show ?thesis by (simp add: keeps_def ni_awake_def)
qed

lemma response_step:
  assumes "ni_awake s"
  shows "ni_awake (ni_handle_response p s)"
proof -
  have ok: "ni_ok s" using assms by (simp add: ni_awake_def)
  note keeps = response_keeps(1) [OF ok, of p]
  show ?thesis
  proof (cases "ni_event (ni_handle_response p s)")
    case True
    with keeps show ?thesis by (rule keeps_awake)
  next
    case False
    then obtain m where m: "ni_handle_response p s = s\<lparr>ni_rem := m\<rparr>" using response_keeps(2) [OF ok] by blast
    have "ni_waits s" using assms False m by (simp add: ni_awake_def)
    then have "ni_waits (s\<lparr>ni_rem := m\<rparr>)" by (rule ni_waits_cong) simp_all
    with ok show ?thesis unfolding m ni_awake_def by simp
  qed
qed

lemma ni_step_awake:
  assumes "ni_awake s" "ni_op_ok s x"
  shows "ni_awake (ni_step x s) \<and> ni_order (ni_step x s) w wr = ni_order s w wr @ of_kind s w wr (ni_refused x s) \<and>
    ni_bursts (ni_step x s) = ni_bursts s \<and> ni_entries (ni_step x s) = ni_entries s \<and>
    ni_outstanding_reqs (ni_step x s) = ni_outstanding_reqs s"
proof -
  have ok: "ni_ok s" using assms(1) by (simp add: ni_awake_def)
  show ?thesis
  proof (cases x)
    case (Ni_req b)
    with assms(2) req_step(1,3-5) [OF assms(1), of b] req_step(2) [OF assms(1), of b w wr] show ?thesis by simp
  next
    case (Ni_arrive result latency r p)
    with arrive_step [OF assms(1), of result latency r p] show ?thesis by (simp add: of_kind_def)
  next
    case (Ni_turn denies ready)
    with turn_step [OF assms(1), of denies ready] show ?thesis by (simp add: of_kind_def)
  next
    case (Ni_unstall q)
    have "ni_order (nq_unstall_queue q s) = ni_order s" by (rule order_cong) (simp_all add: nq_unstall_queue_def)
    with Ni_unstall ok show ?thesis by (simp add: nq_unstall_queue_def ni_awake_def of_kind_def)
  next
    case Ni_grant
    have "ni_order (ni_grant s) = ni_order s" by (rule order_cong) (simp_all add: ni_grant_def)
    with Ni_grant ok show ?thesis by (simp add: ni_grant_def ni_awake_def of_kind_def)
  next
    case (Ni_response p)
    with response_step [OF assms(1), of p] response_keeps(1) [OF ok, of p] show ?thesis
      by (simp add: keeps_def of_kind_def)
  qed
qed

lemma ni_run_awake:
  "ni_awake s \<Longrightarrow> list_all (ni_op_ok s) xs \<Longrightarrow>
     ni_awake (ni_run xs s) \<and> ni_order (ni_run xs s) w wr = ni_order s w wr @ of_kind s w wr (ni_refusals xs s) \<and>
     ni_bursts (ni_run xs s) = ni_bursts s \<and> ni_outstanding_reqs (ni_run xs s) = ni_outstanding_reqs s"
proof (induction xs arbitrary: s)
  case Nil
  then show ?case by (simp add: of_kind_def)
next
  case (Cons x xs)
  then have x: "ni_op_ok s x" by simp
  note step = ni_step_awake [OF Cons.prems(1) x, of w wr]
  have "burst_served (ni_step x s) = burst_served s" using step by (simp add: burst_served_def fun_eq_iff)
  then have "ni_op_ok (ni_step x s) y = ni_op_ok s y" for y by (cases y) simp_all
  then have "ni_op_ok (ni_step x s) = ni_op_ok s" by blast
  with Cons.prems(2) have "list_all (ni_op_ok (ni_step x s)) xs" by simp
  from Cons.IH [OF _ this] step show ?case by (simp add: of_kind_def)
qed

lemma idle_awake:
  assumes "ni_idle s"
  shows "ni_awake s" "ni_order s w wr = []"
proof -
  have "own_count s = (\<lambda>_ _. 0)" using assms by (simp add: own_count_def ni_idle_def fun_eq_iff)
  then show "ni_awake s" using assms by (simp add: ni_awake_def ni_ok_def ni_waits_def ni_idle_def)
  show "ni_order s w wr = []" using assms by (simp add: ni_order_def ni_granted_def ni_idle_def)
qed

text \<open>Only a turn takes the scheduled turn away, and one that leaves responses behind schedules the next.\<close>

definition ni_is_turn :: "ni_op \<Rightarrow> bool" where
  "ni_is_turn x = (case x of Ni_turn _ _ \<Rightarrow> True | _ \<Rightarrow> False)"

lemma enqueue_router_req_event:
  "ni_event s \<Longrightarrow> ni_event (ni_enqueue_router_req q t is_req base n data s)"
  by (simp add: ni_enqueue_router_req_def Let_def split: prod.split)

lemma handle_response_event: "ni_event s \<Longrightarrow> ni_event (ni_handle_response p s)"
  by (simp add: ni_handle_response_def nq_handle_rsp_def enqueue_router_req_event Let_def)

lemma finish_burst_event: "ni_event (ni_finish_burst w b s) = ni_event s"
  by (simp add: ni_finish_burst_def ni_call_def)

lemma ni_step_event:
  assumes "ni_event s" "\<not> ni_is_turn x"
  shows "ni_event (ni_step x s)"
proof (cases x)
  case (Ni_arrive result latency r p)
  then show ?thesis using assms(1) handle_response_event [of "ni_call (Target_req p) s" p]
    by (simp add: ni_handle_request_def Let_def ni_call_def)
next
  case (Ni_turn d r)
  then show ?thesis using assms(2) by (simp add: ni_is_turn_def)
next
  case (Ni_response p)
  then show ?thesis using assms(1) by (simp add: handle_response_event)
qed (use assms(1) in \<open>simp_all add: ni_handle_req_def Let_def nq_unstall_queue_def ni_grant_def\<close>)

lemma ni_run_append: "ni_run (xs @ ys) s = ni_run ys (ni_run xs s)"
  by (induction xs arbitrary: s) simp_all

lemma ni_run_event: "ni_event s \<Longrightarrow> list_all (\<lambda>x. \<not> ni_is_turn x) xs \<Longrightarrow> ni_event (ni_run xs s)"
  by (induction xs arbitrary: s) (simp_all add: ni_step_event)

lemma fsm_handler_responses:
  "ni_response_queue (ni_fsm_handler denies ready s) \<noteq> [] \<Longrightarrow> ni_event (ni_fsm_handler denies ready s)"
  by (simp add: ni_fsm_handler_def Let_def split: if_splits)

lemma ni_responses_awake:
  assumes "ni_is_turn x" "list_all (\<lambda>y. \<not> ni_is_turn y) post" "ni_response_queue (ni_run (pre @ [x]) s0) \<noteq> []"
  shows "ni_event (ni_run (pre @ x # post) s0)"
proof -
  obtain d r where "x = Ni_turn d r" using assms(1) by (cases x) (auto simp: ni_is_turn_def)
  then have "ni_event (ni_run (pre @ [x]) s0)"
    using assms(3) fsm_handler_responses by (simp add: ni_run_append)
  then have "ni_event (ni_run post (ni_run (pre @ [x]) s0))" using assms(2) by (rule ni_run_event)
  then show ?thesis by (simp add: ni_run_append)
qed

text \<open>
  C22. A network interface never has work that nobody will wake it up for. In every state it reaches
  from an idle one, by any operations with bursts that the address map serves completely (a burst
  that it does not serve blocks its kind, see \<open>Floonoc_Ni_Stuck\<close>), the bursts pending per width are at
  most the limit; the bursts of each width and direction that were denied have been granted in order
  or still wait, in order; either a turn is scheduled, or all its queued requests wait for a router
  that will unstall them, every unfinished burst has such a request, denied bursts wait for the burst
  before them or for answers, and a stalled router waits for the target's grant; and while responses
  are left over from the last turn, a turn is scheduled. (A response that arrives is scheduled by the
  queue of the engine it is put into.)
\<close>

theorem floonoc_ni_awake:
  assumes "ni_idle s0" "list_all (ni_op_ok s0) ops" "s = ni_run ops s0"
  shows "ni_nb_pending_bursts s w \<le> ni_outstanding_reqs s0 \<and>
    ni_granted s w wr @ ni_denied_req s w wr = of_kind s0 w wr (ni_refusals ops s0) \<and>
    (ni_event s \<or>
     (\<forall>q. ni_queue s q \<noteq> [] \<longrightarrow> ni_stalled s q) \<and>
     (\<forall>w wr. ni_pending_burst s w wr \<noteq> None \<longrightarrow> (\<exists>q. \<exists>p \<in> set (ni_queue s q). own_packet s w wr p)) \<and>
     (\<forall>w wr. ni_denied_req s w wr \<noteq> [] \<longrightarrow> ni_pending_burst s w wr \<noteq> None \<or> ni_outstanding_reqs s0 \<le> ni_nb_pending_bursts s w) \<and>
     (ni_routers_stalled s \<noteq> None \<longrightarrow> ni_target_stalled s)) \<and>
    (\<forall>pre x post. ops = pre @ x # post \<and> ni_is_turn x \<and> list_all (\<lambda>y. \<not> ni_is_turn y) post \<and>
       ni_response_queue (ni_run (pre @ [x]) s0) \<noteq> [] \<longrightarrow> ni_event s)"
proof -
  have run: "ni_awake s" "ni_order s w wr = of_kind s0 w wr (ni_refusals ops s0)" "ni_outstanding_reqs s = ni_outstanding_reqs s0"
    using ni_run_awake [OF idle_awake(1) [OF assms(1)] assms(2), of w wr] idle_awake(2) [OF assms(1), of w wr]
    by (simp_all add: assms(3))
  have ok: "ni_ok s" using run(1) by (simp add: ni_awake_def)
  have queued: "\<exists>q. \<exists>p \<in> set (ni_queue s q). own_packet s w wr p" if "ni_pending_burst_nb_req s w wr \<noteq> 0" for w wr
  proof -
    have "own_count s w wr \<noteq> 0" using that ni_okD(3) [OF ok, of w wr] by simp
    then show ?thesis by (auto simp: own_count_def filter_empty_conv)
  qed
  have responses: "\<forall>pre x post. ops = pre @ x # post \<and> ni_is_turn x \<and> list_all (\<lambda>y. \<not> ni_is_turn y) post \<and>
       ni_response_queue (ni_run (pre @ [x]) s0) \<noteq> [] \<longrightarrow> ni_event s"
    using ni_responses_awake assms(3) by blast
  show ?thesis
  proof (intro conjI)
    show "ni_nb_pending_bursts s w \<le> ni_outstanding_reqs s0" using ni_okD(2) [OF ok, of w] run(3) by simp
    show "ni_granted s w wr @ ni_denied_req s w wr = of_kind s0 w wr (ni_refusals ops s0)" using run(2) by (simp add: ni_order_def)
  qed (use run(1,3) queued in \<open>simp add: ni_awake_def ni_waits_def, blast\<close>, rule responses)
qed

lemma ni_example_idle: "ni_idle ni_example"
  by (simp add: ni_idle_def ni_example_def ni_config_def entries_fit_def)

lemma ni_example_served: "burst_served ni_example 0" "burst_served ni_example 1"
proof -
  have two: "(\<forall>k < 2. P k) \<longleftrightarrow> P 0 \<and> P (Suc 0)" for P :: "nat \<Rightarrow> bool" by (auto simp: less_2_cases_iff)
  have size2: "unat (2 :: u64) = 2" by simp
  show "burst_served ni_example 0" "burst_served ni_example 1"
    by (simp_all add: burst_served_def ni_example_def get_entry_def size2 two del: unat_numeral)
qed

theorem floonoc_ni_awake_witness:
  "ni_granted (ni_run [Ni_req 0, Ni_req 1, Ni_turn (\<lambda>_. True) False] ni_example) False False @
     ni_denied_req (ni_run [Ni_req 0, Ni_req 1, Ni_turn (\<lambda>_. True) False] ni_example) False False = [1]"
proof -
  let ?ops = "[Ni_req 0, Ni_req 1, Ni_turn (\<lambda>_. True) False]"
  have "list_all (ni_op_ok ni_example) ?ops" using ni_example_served by simp
  moreover have "of_kind ni_example False False (ni_refusals ?ops ni_example) = [1]" by code_simp
  ultimately show ?thesis using floonoc_ni_awake [OF ni_example_idle, of ?ops _ False False] by simp
qed

end
