(* ===== verification/Floonoc_Ni_Reads.thy ===== *)
theory Floonoc_Ni_Reads
  imports Floonoc_Ni_Live "HOL-Library.Multiset"
begin

section \<open>A read burst from the initiator to its answer\<close>

text \<open>
  The initiator's interface cuts a read into requests at the borders of the address map; the target's
  interface cuts the answer to each into packets of the network's width; the initiator's interface
  subtracts the size of each packet from the remaining size of the burst and answers the initiator
  when nothing is missing. The theory adds the sizes up through the three steps.
\<close>

definition packets_size :: "packet list \<Rightarrow> nat" where
  "packets_size ps = (\<Sum>p\<leftarrow>ps. unat (pk_size p))"

lemma packets_size_simps [simp]:
  "packets_size [] = 0" "packets_size (p # ps) = unat (pk_size p) + packets_size ps"
  "packets_size (ps @ qs) = packets_size ps + packets_size qs"
  by (simp_all add: packets_size_def)

lemma packets_size_pieces: "packets_size (map (piece_packet t) ps) = pieces_size ps"
  by (induction ps) (auto simp: piece_packet_def split: option.split)

text \<open>What an operation adds to a queue.\<close>

definition added :: "nw \<Rightarrow> ni \<Rightarrow> ni \<Rightarrow> packet list" where
  "added q s s' = drop (length (ni_queue s q)) (ni_queue s' q)"

text \<open>The packets with which the interface \<open>s\<close> of a target answers the read request \<open>p\<close>.\<close>

definition read_answers :: "ni \<Rightarrow> packet \<Rightarrow> packet list" where
  "read_answers s p = (let q = (if pk_wide p then NW_WIDE else NW_RSP) in added q s (ni_handle_response p s))"

text \<open>The requests with which the interface \<open>s\<close> of an initiator starts the read \<open>b\<close>.\<close>

definition read_requests :: "ni \<Rightarrow> nat \<Rightarrow> packet list" where
  "read_requests s b = added NW_REQ s (snd (ni_handle_req b s))"

lemma pieces_nonzero: "pieces_from base data ps \<Longrightarrow> p \<in> set ps \<Longrightarrow> 0 < pc_size p"
  by (induction ps arbitrary: base data) auto

lemma ni_split_answer_size:
  assumes "0 < width"
  shows "unat left \<le> fuel \<Longrightarrow> pieces_size (fst (ni_split fuel es width is_address False base left data)) = unat left \<and>
    (\<forall>p \<in> set (fst (ni_split fuel es width is_address False base left data)).
       pc_entry p = None \<and> 0 < pc_size p \<and> (\<not> is_address \<longrightarrow> pc_size p \<le> width))"
proof (induction fuel arbitrary: base left data)
  case 0
  then show ?case by (simp add: unat_eq_0)
next
  case (Suc fuel)
  show ?case
  proof (cases "left = 0")
    case False
    let ?n = "if is_address then left else min width left"
    have n: "0 < ?n" "?n \<le> left" "\<not> is_address \<Longrightarrow> ?n \<le> width" using False assms by (auto simp: word_neq_0_conv)
    have sub: "unat (left - ?n) = unat left - unat ?n" "unat ?n \<le> unat left" "0 < unat ?n"
      using n by (simp_all only: unat_sub word_le_nat_alt unat_gt_0 word_neq_0_conv)
    then have "unat (left - ?n) \<le> fuel" using Suc.prems by linarith
    note IH = Suc.IH [OF this, of "base + ?n" "data + ?n"]
    have "ni_split (Suc fuel) es width is_address False base left data =
        (\<lparr>pc_base = base, pc_size = ?n, pc_data = data, pc_entry = None\<rparr> #
           fst (ni_split fuel es width is_address False (base + ?n) (left - ?n) (data + ?n)),
         snd (ni_split fuel es width is_address False (base + ?n) (left - ?n) (data + ?n)))"
      using False by (simp add: Let_def case_prod_unfold)
    then show ?thesis using IH sub n by auto
  qed simp
qed

lemma read_answers_size:
  assumes cfg: "ni_config s" and p: "\<not> pk_write p" "pk_src p = Some o_pos"
  shows "packets_size (read_answers s p) = unat (pk_size p)"
    "r \<in> set (read_answers s p) \<Longrightarrow> pk_src r = None \<and> pk_burst r = pk_burst p \<and> pk_wide r = pk_wide p \<and>
      0 < pk_size r \<and> pk_size r \<le> nw_width (if pk_wide p then NW_WIDE else NW_RSP) s \<and>
      (pk_dest_x r, pk_dest_y r) = o_pos"
proof -
  let ?q = "if pk_wide p then NW_WIDE else NW_RSP"
  let ?t = "p\<lparr>pk_dest_x := fst o_pos, pk_dest_y := snd o_pos, pk_src := None, pk_is_address := False, pk_initiator_addr := 0\<rparr>"
  obtain ps where split: "ni_split (unat (pk_size p)) (ni_entries s) (nw_width ?q s) False False (pk_addr p) (pk_size p) (pk_data p)
      = (ps, Split_done)"
    using ni_split_answer [OF nw_width_pos [OF cfg] order_refl] by blast
  have "ni_handle_response p s = queued ?q (map (piece_packet ?t) ps) s"
    using p split by (simp add: ni_handle_response_def nq_handle_rsp_def ni_enqueue_router_req_def queued_def Let_def)
  then have answers: "read_answers s p = map (piece_packet ?t) ps"
    by (simp add: read_answers_def added_def queued_def Let_def)
  note sizes = ni_split_answer_size [OF nw_width_pos [OF cfg] order_refl,
      of "pk_size p" "ni_entries s" ?q False "pk_addr p" "pk_data p", unfolded split fst_conv]
  show "packets_size (read_answers s p) = unat (pk_size p)"
    using sizes by (simp add: answers packets_size_pieces)
  show "r \<in> set (read_answers s p) \<Longrightarrow> pk_src r = None \<and> pk_burst r = pk_burst p \<and> pk_wide r = pk_wide p \<and>
      0 < pk_size r \<and> pk_size r \<le> nw_width ?q s \<and> (pk_dest_x r, pk_dest_y r) = o_pos"
    using sizes answers by (auto simp: piece_packet_def)
qed

lemma read_requests_size:
  assumes cfg: "ni_config s" and b: "burst_served s b" "\<not> ab_write (ni_bursts s b)"
    and accepted: "fst (ni_handle_req b s) = IO_REQ_PENDING"
  shows "packets_size (read_requests s b) = unat (ab_size (ni_bursts s b))"
    "r \<in> set (read_requests s b) \<Longrightarrow> pk_src r = Some (ni_pos s) \<and> pk_burst r = b \<and> \<not> pk_write r \<and>
       pk_wide r = ab_wide (ni_bursts s b)"
proof -
  let ?b = "ni_bursts s b"
  obtain ps where split: "ni_split (unat (ab_size ?b)) (ni_entries s) (nw_width NW_REQ s) True True (ab_addr ?b) (ab_size ?b) (ab_data ?b)
      = (ps, Split_done)"
    using burst_split [OF cfg b(1)] by blast
  have total: "pieces_size ps = unat (ab_size ?b)"
    using ni_split_pieces [OF _ nw_width_pos [OF cfg] _ order_refl split] cfg b(1)
    by (auto simp: ni_config_def burst_served_def Let_def)
  have "ni_queue (snd (ni_handle_req b s)) NW_REQ = ni_queue s NW_REQ @ map (piece_packet (burst_template b True s)) ps"
    using accepted b(2) split
    by (auto simp: ni_handle_req_def ni_start_burst_def nq_handle_req_def ni_enqueue_router_req_def nw_width_def burst_template_def
        Let_def split: if_splits)
  then have reqs: "read_requests s b = map (piece_packet (burst_template b True s)) ps"
    by (simp add: read_requests_def added_def)
  show "packets_size (read_requests s b) = unat (ab_size ?b)" using total by (simp add: reqs packets_size_pieces)
  show "r \<in> set (read_requests s b) \<Longrightarrow> pk_src r = Some (ni_pos s) \<and> pk_burst r = b \<and> \<not> pk_write r \<and> pk_wide r = ab_wide ?b"
    using b(2) by (auto simp: reqs burst_template_def)
qed

subsection \<open>The packets arrive\<close>

text \<open>Answers arrive at the initiator's interface, among those for other bursts.\<close>

definition ni_arrivals :: "nw_router \<Rightarrow> packet list \<Rightarrow> ni \<Rightarrow> ni" where
  "ni_arrivals r ps s = fold (\<lambda>p s. snd (ni_handle_request IO_REQ_OK 0 r p s)) ps s"

abbreviation for_burst :: "nat \<Rightarrow> packet list \<Rightarrow> packet list" where
  "for_burst b ps \<equiv> filter (\<lambda>p. pk_burst p = b) ps"

lemma arrival_step:
  fixes r
  assumes "pk_src p = None" "\<not> ab_write (ni_bursts s (pk_burst p))"
  defines "s' \<equiv> snd (ni_handle_request IO_REQ_OK 0 r p s)"
  shows "ni_bursts s' = ni_bursts s"
    "ni_rem s' b = (if b = pk_burst p then ni_rem s b - ucast (pk_size p) else ni_rem s b)"
    "count_list (ni_calls s') (Burst_resp b) =
       count_list (ni_calls s) (Burst_resp b) + of_bool (b = pk_burst p \<and> ni_rem s b = ucast (pk_size p))"
  using assms by (auto simp: ni_handle_request_def ni_finish_burst_def ni_call_def Let_def)

abbreviation answer_packet :: "ni \<Rightarrow> packet \<Rightarrow> bool" where
  "answer_packet s p \<equiv> pk_src p = None \<and> \<not> ab_write (ni_bursts s (pk_burst p)) \<and> 0 < pk_size p"

lemma arrivals_other:
  "list_all (answer_packet s) ps \<Longrightarrow> for_burst b ps = [] \<Longrightarrow>
     count_list (ni_calls (ni_arrivals r ps s)) (Burst_resp b) = count_list (ni_calls s) (Burst_resp b)"
proof (induction ps arbitrary: s)
  case Nil
  then show ?case by (simp add: ni_arrivals_def)
next
  case (Cons q ps)
  then have q: "pk_src q = None" "\<not> ab_write (ni_bursts s (pk_burst q))" "pk_burst q \<noteq> b" by (auto split: if_splits)
  note step = arrival_step [OF q(1,2), of r]
  have "count_list (ni_calls (ni_arrivals r ps (snd (ni_handle_request IO_REQ_OK 0 r q s)))) (Burst_resp b) =
      count_list (ni_calls (snd (ni_handle_request IO_REQ_OK 0 r q s))) (Burst_resp b)"
    using Cons q(3) by (intro Cons.IH) (simp_all add: step(1) list_all_iff)
  then show ?case using q(3) by (simp add: ni_arrivals_def step(3))
qed

text \<open>While the packets of a burst do not exceed its size, its answer is sent when they reach it.\<close>

lemma arrivals_answer:
  "list_all (answer_packet s) ps \<Longrightarrow> 0 < unat (ni_rem s b) \<Longrightarrow> packets_size (for_burst b ps) \<le> unat (ni_rem s b) \<Longrightarrow>
     count_list (ni_calls (ni_arrivals r ps s)) (Burst_resp b) =
       count_list (ni_calls s) (Burst_resp b) + of_bool (packets_size (for_burst b ps) = unat (ni_rem s b))"
proof (induction ps arbitrary: s)
  case Nil
  then show ?case by (simp add: ni_arrivals_def)
next
  case (Cons p ps)
  let ?s' = "snd (ni_handle_request IO_REQ_OK 0 r p s)"
  have p: "pk_src p = None" "\<not> ab_write (ni_bursts s (pk_burst p))" "0 < pk_size p" using Cons.prems(1) by auto
  note step = arrival_step [OF p(1,2), of r]
  have rest: "list_all (answer_packet ?s') ps"
    using Cons.prems(1) by (simp add: step(1) list_all_iff)
  have unfold: "ni_arrivals r (p # ps) s = ni_arrivals r ps ?s'" by (simp add: ni_arrivals_def)
  show ?case
  proof (cases "pk_burst p = b")
    case False
    then have "ni_rem ?s' b = ni_rem s b" "count_list (ni_calls ?s') (Burst_resp b) = count_list (ni_calls s) (Burst_resp b)"
      by (auto simp: step)
    with Cons.IH [OF rest] Cons.prems(2,3) False show ?thesis by (simp add: unfold)
  next
    case True
    have fits: "unat (pk_size p) \<le> unat (ni_rem s b)" using Cons.prems(3) True by simp
    have "unat (ni_rem s b) < 2 ^ 32" using unsigned_less [of "ni_rem s b", where 'a = nat] by simp
    then have small: "unat (ucast (pk_size p) :: u32) = unat (pk_size p)"
      using fits by (simp add: unsigned_ucast_eq take_bit_nat_eq_self)
    then have left: "unat (ni_rem ?s' b) = unat (ni_rem s b) - unat (pk_size p)"
      using fits True by (simp add: step(2) unat_sub word_le_nat_alt)
    have pos: "0 < unat (pk_size p)" using p(3) by (simp add: unat_gt_0 word_neq_0_conv)
    have last: "ni_rem s b = ucast (pk_size p) \<longleftrightarrow> unat (ni_rem s b) = unat (pk_size p)"
      using small by (metis word_unat_eq_iff)
    show ?thesis
    proof (cases "unat (ni_rem s b) = unat (pk_size p)")
      case full: True
      then have "packets_size (for_burst b ps) = 0" using Cons.prems(3) True by simp
      then have none: "for_burst b ps = []"
        using rest by (auto simp: packets_size_def list_all_iff filter_empty_conv word_neq_0_conv [symmetric] unat_eq_0)
      from arrivals_other [OF rest none, of r] show ?thesis using full True last none by (simp add: unfold step(3))
    next
      case more: False
      then have "0 < unat (ni_rem ?s' b)" "packets_size (for_burst b ps) \<le> unat (ni_rem ?s' b)"
        using fits left Cons.prems(3) True by simp_all
      from Cons.IH [OF rest this] show ?thesis
        using more True last left fits by (auto simp: unfold step(3))
    qed
  qed
qed

lemma packets_size_mset: "packets_size ps = (\<Sum>p \<in># mset ps. unat (pk_size p))"
  by (induction ps) simp_all

text \<open>Some of the packets have the size of all of them only when they are all of them.\<close>

lemma packets_size_complete:
  assumes "mset ps \<subseteq># mset qs" "\<forall>q \<in> set qs. 0 < pk_size q"
  shows "packets_size ps \<le> packets_size qs" "packets_size ps = packets_size qs \<longleftrightarrow> mset ps = mset qs"
proof -
  obtain M where M: "mset qs = mset ps + M" using assms(1) by (auto simp: mset_subset_eq_exists_conv)
  have size: "packets_size qs = packets_size ps + (\<Sum>p \<in># M. unat (pk_size p))"
    by (simp add: packets_size_mset M)
  then show "packets_size ps \<le> packets_size qs" by simp
  have "set_mset M \<subseteq> set qs" using M by (metis set_mset_mset set_mset_union sup_ge2)
  then have "M = {#}" if "(\<Sum>p \<in># M. unat (pk_size p)) = 0"
    using that assms(2) by (cases M) (auto simp: unat_eq_0)
  with size M show "packets_size ps = packets_size qs \<longleftrightarrow> mset ps = mset qs"
    by (auto simp: packets_size_mset)
qed

lemma answers_size:
  assumes "\<And>p. p \<in> set reqs \<Longrightarrow> \<not> pk_write p \<and> pk_src p = Some n" "\<And>p. ni_config (tgt p)"
  shows "packets_size (concat (map (\<lambda>p. read_answers (tgt p) p) reqs)) = packets_size reqs"
  using assms by (induction reqs) (simp_all add: read_answers_size)

text \<open>
  C21. A read completes once, and when it should. For a read burst that the interface accepts, whatever
  interfaces the requests reach and however the packets of the answers arrive there and in between
  those of other bursts, the initiator is answered exactly once, and only when every packet of every
  answer has arrived.
\<close>

theorem floonoc_read_completes:
  assumes "ni_config s" "burst_served s b" "\<not> ab_write (ni_bursts s b)" "0 < ab_size (ni_bursts s b)"
    "unat (ab_size (ni_bursts s b)) < 2 ^ 32" "ni_handle_req b s = (IO_REQ_PENDING, s1)"
    and "\<And>p. ni_config (tgt p)"
    and "ni_bursts s2 = ni_bursts s" "ni_rem s2 b = ni_rem s1 b" "list_all (answer_packet s) arrived"
    and "answers = concat (map (\<lambda>p. read_answers (tgt p) p) (read_requests s b))"
    and "mset (for_burst b arrived) \<subseteq># mset answers"
  shows "count_list (ni_calls (ni_arrivals r arrived s2)) (Burst_resp b) =
    count_list (ni_calls s2) (Burst_resp b) + of_bool (mset (for_burst b arrived) = mset answers)"
proof -
  have accepted: "fst (ni_handle_req b s) = IO_REQ_PENDING" using assms(6) by simp
  note reqs = read_requests_size [OF assms(1-3) accepted]
  have total: "packets_size answers = unat (ab_size (ni_bursts s b))"
    unfolding assms(11) using answers_size [of "read_requests s b" "ni_pos s" tgt] reqs assms(7) by simp
  have nonzero: "\<forall>q \<in> set answers. 0 < pk_size q"
  proof
    fix q
    assume "q \<in> set answers"
    then obtain p where p: "p \<in> set (read_requests s b)" "q \<in> set (read_answers (tgt p) p)" by (auto simp: assms(11))
    then have "\<not> pk_write p" "pk_src p = Some (ni_pos s)" using reqs(2) by auto
    from read_answers_size(2) [OF assms(7) this p(2)] show "0 < pk_size q" by simp
  qed
  note complete = packets_size_complete [OF assms(12) nonzero]
  have "ni_rem s1 b = ucast (ab_size (ni_bursts s b))"
    using assms(3,6) by (auto simp: ni_handle_req_def ni_start_burst_def Let_def split: if_splits)
  then have rem: "unat (ni_rem s2 b) = packets_size answers"
    using assms(5,9) total by (simp add: unsigned_ucast_eq take_bit_nat_eq_self)
  moreover have "0 < packets_size answers" using total assms(4) by (simp add: unat_gt_0 word_neq_0_conv)
  moreover have "list_all (answer_packet s2) arrived" using assms(8,10) by simp
  ultimately show ?thesis using arrivals_answer [of s2 arrived b r] complete by simp
qed

definition example_answers :: "packet list" where
  "example_answers = concat (map (\<lambda>p. read_answers ni_example p) (read_requests ni_example 0))"

theorem floonoc_read_completes_witness:
  "count_list (ni_calls (ni_arrivals (NW_RSP, (1, 1)) example_answers (snd (ni_handle_req 0 ni_example)))) (Burst_resp 0) = 1"
proof -
  let ?s1 = "snd (ni_handle_req 0 ni_example)"
  have burst: "\<not> ab_write (ni_bursts ni_example 0)" "0 < ab_size (ni_bursts ni_example 0)"
    "unat (ab_size (ni_bursts ni_example 0)) < 2 ^ 32" "ni_config ni_example"
    using ni_example_idle by (simp_all add: ni_example_def ni_idle_def)
  have call: "ni_handle_req 0 ni_example = (IO_REQ_PENDING, ?s1)"
    by (rule prod_eqI) (simp_all add: ni_handle_req_def ni_example_def Let_def)
  have answer: "answer_packet ni_example q \<and> pk_burst q = 0" if "q \<in> set example_answers" for q
  proof -
    obtain p where p: "p \<in> set (read_requests ni_example 0)" "q \<in> set (read_answers ni_example p)"
      using \<open>q \<in> set example_answers\<close> by (auto simp: example_answers_def)
    have "fst (ni_handle_req 0 ni_example) = IO_REQ_PENDING" by (subst call) simp
    note req = read_requests_size(2) [OF burst(4) ni_example_served(1) burst(1) this p(1)]
    then have "\<not> pk_write p" "pk_src p = Some (ni_pos ni_example)" by auto
    from read_answers_size(2) [OF burst(4) this p(2)] req burst(1) show ?thesis by simp
  qed
  then have ans: "list_all (answer_packet ni_example) example_answers" and all: "for_burst 0 example_answers = example_answers"
    using burst(1) by (auto simp: list_all_iff)
  have same: "ni_bursts ?s1 = ni_bursts ni_example" "ni_calls ?s1 = []"
    by (simp_all add: ni_handle_req_def ni_start_burst_def Let_def) (simp_all add: ni_example_def)
  have eq: "example_answers = concat (map (\<lambda>p. read_answers ((\<lambda>_. ni_example) p) p) (read_requests ni_example 0))"
    by (rule example_answers_def)
  have "mset (for_burst 0 example_answers) \<subseteq># mset example_answers" by (simp add: all)
  from floonoc_read_completes [where tgt = "\<lambda>_. ni_example", OF burst(4) ni_example_served(1) burst(1-3) call burst(4)
      same(1) refl ans eq this, of "(NW_RSP, (1, 1))"]
  show ?thesis unfolding all same(2) by simp
qed

end
