(* ===== verification/Floonoc_Ni_Stuck.thy ===== *)
theory Floonoc_Ni_Stuck
  imports Floonoc_Ni_Live
begin

section \<open>A burst to an address without an entry\<close>

text \<open>
  The splitting loop counts a request before it looks its address up, and returns when there is no
  entry. The request that was counted is never queued, so the counter of the burst's width and
  direction never returns to zero, whatever the interface does later, and the burst is never released.
\<close>

text \<open>The requests counted but not in a queue.\<close>

definition uncounted :: "ni \<Rightarrow> bool \<Rightarrow> bool \<Rightarrow> int" where
  "uncounted s w wr = ni_pending_burst_nb_req s w wr - int (own_count s w wr)"

definition denied_kinds :: "ni \<Rightarrow> bool" where
  "denied_kinds s \<longleftrightarrow> (\<forall>w wr. list_all (\<lambda>b. ab_wide (ni_bursts s b) = w \<and> ab_write (ni_bursts s b) = wr) (ni_denied_req s w wr))"

definition stuck :: "bool \<Rightarrow> bool \<Rightarrow> nat \<Rightarrow> ni \<Rightarrow> bool" where
  "stuck w wr b s \<longleftrightarrow> ni_pending_burst s w wr = Some b \<and> 0 < uncounted s w wr \<and> denied_kinds s"

lemma stuck_other: "stuck w wr b s \<Longrightarrow> ni_pending_burst s w' wr' = None \<Longrightarrow> \<not> (w' = w \<and> wr' = wr)"
  by (rule notI) (simp add: stuck_def)

lemma own_packet_cong: "ni_bursts s' = ni_bursts s \<Longrightarrow> own_packet s' = own_packet s"
  by (simp add: own_packet_def fun_eq_iff)

lemma own_count_cong: "ni_bursts s' = ni_bursts s \<Longrightarrow> ni_queue s' = ni_queue s \<Longrightarrow> own_count s' = own_count s"
  using own_packet_cong [of s' s] by (intro ext) (simp only: own_count_def)

lemma stuck_cong:
  assumes "stuck w wr b s" "ni_bursts s' = ni_bursts s" "ni_queue s' = ni_queue s" "ni_pending_burst s' = ni_pending_burst s"
    "ni_pending_burst_nb_req s' = ni_pending_burst_nb_req s" "ni_denied_req s' = ni_denied_req s"
  shows "stuck w wr b s'"
  using assms own_count_cong [OF assms(2,3)] by (simp add: stuck_def uncounted_def denied_kinds_def)

text \<open>Queueing never counts less than it queues.\<close>

lemma enqueue_uncounted:
  fixes q
  assumes "is_req \<Longrightarrow> pk_write t = ab_write (ni_bursts s (pk_burst t))" "\<not> is_req \<Longrightarrow> pk_src t = None"
  defines "s' \<equiv> \<lambda>base left data. ni_enqueue_router_req q t is_req base left data s"
  shows "uncounted s w wr \<le> uncounted (s' base left data) w wr"
proof -
  let ?s' = "s' base left data"
  obtain ps e where split: "ni_split (unat left) (ni_entries s) (nw_width q s) (pk_is_address t) is_req base left data = (ps, e)"
    by (metis surj_pair)
  let ?new = "map (piece_packet t) ps"
  have "ni_bursts ?s' = ni_bursts s" "ni_queue ?s' = (ni_queue s)(q := ni_queue s q @ ?new)"
    using split by (auto simp: s'_def ni_enqueue_router_req_def Let_def)
  define m where "m = length (filter (own_packet s w wr) ?new)"
  from own_count_queue [OF \<open>ni_bursts ?s' = _\<close> \<open>ni_queue ?s' = _\<close>, of w wr]
  have count: "own_count ?s' w wr = own_count s w wr + m" unfolding m_def filter_append length_append by linarith
  show ?thesis
  proof (cases is_req)
    case False
    then have "m = 0" using assms(2) by (auto simp: m_def own_packet_def filter_empty_conv)
    moreover have "ni_pending_burst_nb_req ?s' = ni_pending_burst_nb_req s"
      using split False by (simp add: s'_def ni_enqueue_router_req_def Let_def)
    ultimately show ?thesis using count by (simp add: uncounted_def)
  next
    case True
    have nb: "ni_pending_burst_nb_req ?s' w wr = ni_pending_burst_nb_req s w wr +
        (if w = pk_wide t \<and> wr = pk_write t then int (length ps) + (if e = Split_no_entry then 1 else 0) else 0)"
      using split True by (simp add: s'_def ni_enqueue_router_req_def Let_def)
    have "m \<le> (if w = pk_wide t \<and> wr = pk_write t then length ps else 0)"
      using assms(1) [OF True] length_filter_le [of "own_packet s w wr" ?new]
      unfolding m_def by (auto simp: own_packet_def filter_empty_conv)
    then show ?thesis using nb count by (auto simp: uncounted_def split: if_splits)
  qed
qed

lemma handle_req_uncounted: "uncounted s w wr \<le> uncounted (nq_handle_req q b s) w wr"
proof -
  have step: "uncounted t w wr \<le> uncounted (ni_enqueue_router_req q (burst_template b a s) True base left data t) w wr"
    if "ni_bursts t = ni_bursts s" for a t base left data
    by (rule enqueue_uncounted) (simp_all add: burst_template_def that)
  show ?thesis
    unfolding nq_handle_req_def Let_def by (simp add: step order_trans [OF step step])
qed

lemma handle_rsp_uncounted: "uncounted s w wr \<le> uncounted (nq_handle_rsp q p is_address s) w wr"
  unfolding nq_handle_rsp_def by (rule enqueue_uncounted) simp_all

lemma stuckI:
  assumes "stuck w wr b s" "ni_bursts s' = ni_bursts s" "ni_pending_burst s' = ni_pending_burst s"
    "uncounted s w wr \<le> uncounted s' w wr" "ni_denied_req s' = ni_denied_req s"
  shows "stuck w wr b s'"
  using assms by (simp add: stuck_def denied_kinds_def)

lemma stuck_handle_req: "stuck w wr b s \<Longrightarrow> stuck w wr b (nq_handle_req q b' s)"
  by (erule stuckI) (simp_all add: handle_req_uncounted)

lemma stuck_handle_rsp: "stuck w wr b s \<Longrightarrow> stuck w wr b (nq_handle_rsp q p is_address s)"
  by (erule stuckI) (simp_all add: handle_rsp_uncounted, simp_all add: nq_handle_rsp_def)

lemma stuck_response: "stuck w wr b s \<Longrightarrow> stuck w wr b (ni_handle_response p s)"
  by (auto simp: ni_handle_response_def Let_def intro!: stuck_handle_rsp elim!: stuck_cong)

lemma stuck_check:
  assumes "stuck w wr b s"
  shows "stuck w wr b (nq_check d q s)"
proof (cases "ni_queue s q")
  case (Cons p rest)
  note obs = send_obs [OF Cons, of d]
  have "uncounted (nq_send_router_req d q s) w wr = uncounted s w wr"
    using obs(12,13) [of w wr] by (cases "own_packet s w wr p") (auto simp: uncounted_def)
  then have "stuck w wr b (nq_send_router_req d q s)" by (intro stuckI [OF assms]) (simp_all add: obs)
  with assms show ?thesis by (simp add: nq_check_def)
qed (use assms in \<open>simp add: nq_check_def\<close>)

lemma stuck_release:
  assumes "stuck w wr b s"
  shows "stuck w wr b (ni_release_burst w' wr' s)"
proof (cases "w' = w \<and> wr' = wr")
  case True
  have "ni_pending_burst_nb_req s w wr \<noteq> 0" using assms by (auto simp: stuck_def uncounted_def)
  with True assms show ?thesis by (simp add: ni_release_burst_def)
next
  case False
  let ?s' = "s\<lparr>ni_pending_burst := upd2 w' wr' None (ni_pending_burst s), ni_event := True\<rparr>"
  have "own_count ?s' = own_count s" by (rule own_count_cong) simp_all
  then have "stuck w wr b ?s'" using assms False by (auto simp: stuck_def uncounted_def denied_kinds_def)
  with assms show ?thesis by (simp add: ni_release_burst_def)
qed

text \<open>A burst of another kind starts.\<close>

lemma stuck_start:
  assumes "stuck w wr b s" "\<not> (w' = w \<and> wr' = wr)" "set rest \<subseteq> set (ni_denied_req s w' wr')"
  shows "stuck w wr b (s\<lparr>ni_nb_pending_bursts := n, ni_pending_burst := upd2 w' wr' x (ni_pending_burst s),
    ni_denied_req := upd2 w' wr' rest (ni_denied_req s)\<rparr>)" (is "stuck w wr b ?s'")
proof -
  have "own_count ?s' = own_count s" by (rule own_count_cong) simp_all
  moreover have "denied_kinds ?s'" using assms(1,3) by (auto simp: stuck_def denied_kinds_def list_all_iff split: if_splits)
  ultimately show ?thesis using assms(1,2) by (auto simp: stuck_def uncounted_def)
qed

lemma stuck_grant_denied:
  assumes "stuck w wr b s"
  shows "stuck w wr b (ni_grant_denied w' wr' s)"
proof (cases "ni_denied_req s w' wr'")
  case (Cons b' rest)
  show ?thesis
  proof (cases "ni_pending_burst s w' wr' = None \<and> ni_nb_pending_bursts s w' < ni_outstanding_reqs s")
    case True
    then have other: "\<not> (w' = w \<and> wr' = wr)" using stuck_other [OF assms] by blast
    have "set rest \<subseteq> set (ni_denied_req s w' wr')" using Cons by auto
    note start = stuck_handle_req [OF stuck_start [OF assms other this]]
    let ?q = "if w' \<and> ab_write (ni_bursts s b') then NW_WIDE else NW_REQ"
    let ?s1 = "s\<lparr>ni_nb_pending_bursts := (ni_nb_pending_bursts s)(w' := ni_nb_pending_bursts s w' + 1),
      ni_pending_burst := upd2 w' wr' (Some b') (ni_pending_burst s), ni_denied_req := upd2 w' wr' rest (ni_denied_req s)\<rparr>"
    have "ni_grant_denied w' wr' s = (ni_call (Burst_grant b') (nq_handle_req ?q b' ?s1))\<lparr>ni_event := True\<rparr>"
      using True Cons by (simp add: ni_grant_denied_def Let_def)
    then show ?thesis by (simp only:) (rule stuck_cong [OF start], simp_all add: ni_call_def)
  next
    case False
    with assms Cons show ?thesis by (auto simp: ni_grant_denied_def)
  qed
qed (use assms in \<open>simp add: ni_grant_denied_def\<close>)

lemma stuck_turn:
  assumes "stuck w wr b s"
  shows "stuck w wr b (ni_fsm_handler denies ready s)"
proof -
  have e: "stuck w wr b (t\<lparr>ni_event := v\<rparr>)" if "stuck w wr b t" for t v by (rule stuck_cong [OF that]) simp_all
  have resp: "stuck w wr b (ni_send_response ready t)" if "stuck w wr b t" for t
  proof -
    have "stuck w wr b (t\<lparr>ni_response_queue := rq\<rparr>)" for rq by (rule stuck_cong [OF that]) simp_all
    with that show ?thesis by (auto simp: ni_send_response_def intro: stuck_response split: list.split)
  qed
  have unstall: "stuck w wr b (ni_unstall_router t)" if "stuck w wr b t" for t
    by (rule stuck_cong [OF that]) (auto simp: ni_unstall_router_def ni_call_def split: option.split)
  show ?thesis
    unfolding ni_fsm_handler_def Let_def
    by (simp add: e assms stuck_check resp unstall stuck_release stuck_grant_denied)
qed

lemma stuck_req:
  assumes "stuck w wr b s"
  shows "stuck w wr b (snd (ni_handle_req b' s))"
    "ab_wide (ni_bursts s b') = w \<Longrightarrow> ab_write (ni_bursts s b') = wr \<Longrightarrow> fst (ni_handle_req b' s) = IO_REQ_DENIED"
proof -
  let ?w = "ab_wide (ni_bursts s b')" and ?wr = "ab_write (ni_bursts s b')"
  let ?s = "s\<lparr>ni_rem := (ni_rem s)(b' := ucast (ab_size (ni_bursts s b')))\<rparr>"
  have s: "stuck w wr b ?s" by (rule stuck_cong [OF assms]) simp_all
  show "?w = w \<Longrightarrow> ?wr = wr \<Longrightarrow> fst (ni_handle_req b' s) = IO_REQ_DENIED"
    using assms by (simp add: ni_handle_req_def stuck_def Let_def)
  show "stuck w wr b (snd (ni_handle_req b' s))"
  proof (cases "ni_pending_burst s ?w ?wr \<noteq> None \<or> ni_outstanding_reqs s \<le> ni_nb_pending_bursts s ?w")
    case True
    let ?s' = "?s\<lparr>ni_denied_req := upd2 ?w ?wr (ni_denied_req s ?w ?wr @ [b']) (ni_denied_req s)\<rparr>"
    have "own_count ?s' = own_count s" by (rule own_count_cong) simp_all
    then have "stuck w wr b ?s'" using assms by (auto simp: stuck_def uncounted_def denied_kinds_def)
    with True show ?thesis by (auto simp: ni_handle_req_def Let_def)
  next
    case False
    then have "\<not> (?w = w \<and> ?wr = wr)" using stuck_other [OF assms] by blast
    from stuck_start [OF s this order_refl]
    have "stuck w wr b (?s\<lparr>ni_nb_pending_bursts := n, ni_pending_burst := upd2 ?w ?wr x (ni_pending_burst s)\<rparr>)" for n x
      by (rule stuck_cong) (simp_all add: fun_eq_iff)
    note start = stuck_handle_req [OF this]
    from False show ?thesis
      by (simp add: ni_handle_req_def ni_start_burst_def Let_def) (rule conjI impI stuck_cong [OF start] | simp)+
  qed
qed

lemma stuck_arrive:
  assumes "stuck w wr b s"
  shows "stuck w wr b (snd (ni_handle_request result latency r p s))"
proof (cases "pk_src p")
  case None
  have "stuck w wr b (snd (ni_handle_request result latency r p s))"
    by (rule stuck_cong [OF assms]) (simp_all add: None ni_handle_request_def ni_finish_burst_def ni_call_def Let_def)
  then show ?thesis .
next
  case (Some o_pos)
  let ?s1 = "ni_call (Target_req p) s"
  have s1: "stuck w wr b ?s1" by (rule stuck_cong [OF assms]) (simp_all add: ni_call_def)
  have "stuck w wr b (?s1\<lparr>ni_response_queue := rq\<rparr>)"
    "stuck w wr b (?s1\<lparr>ni_target_stalled := True, ni_routers_stalled := Some r\<rparr>)" for rq
    by (rule stuck_cong [OF s1]; simp)+
  then show ?thesis
    using Some assms s1 stuck_response [OF s1, of p] by (simp add: ni_handle_request_def Let_def)
qed

lemma stuck_run: "stuck w wr b s \<Longrightarrow> stuck w wr b (ni_run xs s)"
proof (induction xs arbitrary: s)
  case (Cons x xs)
  have "stuck w wr b (ni_step x s)"
  proof (cases x)
    case (Ni_unstall q)
    show ?thesis unfolding Ni_unstall by (simp, rule stuck_cong [OF Cons.prems]) (simp_all add: nq_unstall_queue_def)
  next
    case Ni_grant
    show ?thesis unfolding Ni_grant by (simp, rule stuck_cong [OF Cons.prems]) (simp_all add: ni_grant_def)
  qed (simp_all add: Cons.prems stuck_req stuck_arrive stuck_turn stuck_response)
  with Cons.IH show ?case by simp
qed simp

text \<open>Accepting a burst whose first address has no entry.\<close>

lemma unmapped_counts:
  assumes "get_entry (ni_entries s) (ab_addr (ni_bursts s b)) = None" "0 < ab_size (ni_bursts s b)"
  shows "uncounted s (ab_wide (ni_bursts s b)) (ab_write (ni_bursts s b)) <
    uncounted (nq_handle_req q b s) (ab_wide (ni_bursts s b)) (ab_write (ni_bursts s b))"
proof -
  let ?bu = "ni_bursts s b"
  let ?w = "ab_wide ?bu" and ?wr = "ab_write ?bu"
  let ?s1 = "s\<lparr>ni_pending_burst_nb_req := upd2 ?w ?wr (ni_pending_burst_nb_req s ?w ?wr + 1) (ni_pending_burst_nb_req s)\<rparr>"
  have "0 < unat (ab_size ?bu)" using assms(2) by (simp add: unat_gt_0 word_neq_0_conv)
  then obtain n where n: "unat (ab_size ?bu) = Suc n" by (cases "unat (ab_size ?bu)") auto
  have first: "ni_enqueue_router_req q (burst_template b True s) True (ab_addr ?bu) (ab_size ?bu) (ab_data ?bu) s = ?s1"
    using assms by (auto simp: ni_enqueue_router_req_def burst_template_def n Let_def)
  have "own_count ?s1 = own_count s" by (rule own_count_cong) simp_all
  then have one: "uncounted ?s1 ?w ?wr = uncounted s ?w ?wr + 1" by (simp add: uncounted_def)
  have "uncounted ?s1 ?w ?wr \<le> uncounted (ni_enqueue_router_req q (burst_template b False s) True (ab_addr ?bu) (ab_size ?bu) (ab_data ?bu) ?s1) ?w ?wr"
    by (rule enqueue_uncounted) (simp_all add: burst_template_def)
  note le = this
  show ?thesis
  proof (cases ?wr)
    case True
    with one le show ?thesis by (simp add: nq_handle_req_def Let_def first)
  next
    case False
    with one show ?thesis by (simp add: nq_handle_req_def Let_def first)
  qed
qed

lemma unmapped_stuck:
  assumes ok: "ni_ok s" and b: "get_entry (ni_entries s) (ab_addr (ni_bursts s b)) = None" "0 < ab_size (ni_bursts s b)"
    and accepted: "ni_handle_req b s = (IO_REQ_PENDING, s1)"
  shows "stuck (ab_wide (ni_bursts s b)) (ab_write (ni_bursts s b)) b s1"
proof -
  let ?w = "ab_wide (ni_bursts s b)" and ?wr = "ab_write (ni_bursts s b)"
  define q where "q = (if \<not> ?wr \<or> \<not> ?w then NW_REQ else NW_WIDE)"
  define s0 where "s0 = s\<lparr>ni_rem := (ni_rem s)(b := ucast (ab_size (ni_bursts s b))),
    ni_nb_pending_bursts := (ni_nb_pending_bursts s)(?w := ni_nb_pending_bursts s ?w + 1),
    ni_pending_burst := upd2 ?w ?wr (Some b) (ni_pending_burst s)\<rparr>"
  have s1: "s1 = (nq_handle_req q b s0)\<lparr>ni_event := True\<rparr>"
    using accepted by (auto simp: ni_handle_req_def ni_start_burst_def Let_def q_def s0_def split: if_splits)
  have same: "ni_bursts s0 = ni_bursts s" "ni_entries s0 = ni_entries s" "ni_pending_burst s0 ?w ?wr = Some b"
    "ni_denied_req s0 = ni_denied_req s" by (simp_all add: s0_def)
  have "own_count s0 = own_count s" by (rule own_count_cong) (simp_all add: s0_def)
  then have "uncounted s0 ?w ?wr = 0" using ni_okD(3) [OF ok, of ?w ?wr] by (simp add: uncounted_def s0_def)
  then have "0 < uncounted (nq_handle_req q b s0) ?w ?wr" using unmapped_counts [of s0 b q] b by (simp add: same)
  moreover have "denied_kinds s" using ni_okD(5) [OF ok] by (simp add: denied_kinds_def list_all_iff)
  ultimately have "stuck ?w ?wr b (nq_handle_req q b s0)" by (simp add: stuck_def denied_kinds_def same)
  then show ?thesis unfolding s1 by (rule stuck_cong) simp_all
qed

lemma bursts_frame [simp]:
  "ni_bursts (ni_call c s) = ni_bursts s" "ni_bursts (nq_handle_rsp q p a s) = ni_bursts s"
  "ni_bursts (ni_handle_response p s) = ni_bursts s" "ni_bursts (nq_check d q s) = ni_bursts s"
  "ni_bursts (ni_send_response ready s) = ni_bursts s" "ni_bursts (ni_unstall_router s) = ni_bursts s"
  "ni_bursts (ni_release_burst w wr s) = ni_bursts s" "ni_bursts (ni_grant_denied w wr s) = ni_bursts s"
proof -
  show call [simp]: "ni_bursts (ni_call c s) = ni_bursts s" for c s by (simp add: ni_call_def)
  show rsp [simp]: "ni_bursts (nq_handle_rsp q p a s) = ni_bursts s" for q p a s by (simp add: nq_handle_rsp_def)
  show [simp]: "ni_bursts (ni_handle_response p s) = ni_bursts s" for p s
    by (simp add: ni_handle_response_def Let_def)
  show "ni_bursts (nq_check d q s) = ni_bursts s"
    by (cases "ni_queue s q") (simp_all add: nq_check_def send_obs(1))
  show "ni_bursts (ni_send_response ready s) = ni_bursts s" by (simp add: ni_send_response_def split: list.split)
  show "ni_bursts (ni_unstall_router s) = ni_bursts s" by (simp add: ni_unstall_router_def split: option.split)
  show "ni_bursts (ni_release_burst w wr s) = ni_bursts s" by (simp add: ni_release_burst_def)
  show "ni_bursts (ni_grant_denied w wr s) = ni_bursts s" by (simp add: ni_grant_denied_def Let_def split: list.split)
qed

lemma run_bursts: "ni_bursts (ni_run xs s) = ni_bursts s"
proof (induction xs arbitrary: s)
  case (Cons x xs)
  have "ni_bursts (ni_step x s) = ni_bursts s"
    by (cases x) (auto simp: ni_handle_req_def ni_start_burst_def ni_handle_request_def ni_finish_burst_def ni_fsm_handler_def
        nq_unstall_queue_def ni_grant_def Let_def)
  with Cons.IH show ?case by simp
qed simp

text \<open>
  C24. A burst to an address without an entry blocks the interface. Once an interface, in any state it
  reaches with served bursts, accepts a burst whose first address is in no entry of the map, then no
  sequence of operations releases that burst: it stays the pending burst of its width and direction,
  and every later burst of the same width and direction is denied.
\<close>

theorem floonoc_ni_unmapped_blocks:
  assumes "ni_idle s0" "list_all (ni_op_ok s0) before" "s = ni_run before s0"
    and "get_entry (ni_entries s) (ab_addr (ni_bursts s b)) = None" "0 < ab_size (ni_bursts s b)"
    and "ni_handle_req b s = (IO_REQ_PENDING, s1)"
    and "ab_wide (ni_bursts s b') = ab_wide (ni_bursts s b)" "ab_write (ni_bursts s b') = ab_write (ni_bursts s b)"
  shows "ni_pending_burst (ni_run later s1) (ab_wide (ni_bursts s b)) (ab_write (ni_bursts s b)) = Some b \<and>
    fst (ni_handle_req b' (ni_run later s1)) = IO_REQ_DENIED"
proof -
  have "ni_ok s" using ni_run_awake [OF idle_awake(1) [OF assms(1)] assms(2)] by (simp add: assms(3) ni_awake_def)
  then have "stuck (ab_wide (ni_bursts s b)) (ab_write (ni_bursts s b)) b s1"
    using assms(4-6) by (intro unmapped_stuck)
  then have stuck: "stuck (ab_wide (ni_bursts s b)) (ab_write (ni_bursts s b)) b (ni_run later s1)" by (rule stuck_run)
  have "s1 = ni_step (Ni_req b) s" using assms(6) by simp
  then have "ni_bursts (ni_run later s1) = ni_bursts s" using run_bursts [of "Ni_req b # later" s] by simp
  with stuck stuck_req(2) [OF stuck, of b'] assms(7,8) show ?thesis by (simp add: stuck_def)
qed

theorem floonoc_ni_unmapped_blocks_witness:
  "fst (ni_handle_req 0 (ni_run [Ni_turn (\<lambda>_. False) True, Ni_grant, Ni_turn (\<lambda>_. False) True] (snd (ni_handle_req 2 ni_example))))
     = IO_REQ_DENIED"
proof -
  have call: "ni_handle_req 2 ni_example = (IO_REQ_PENDING, snd (ni_handle_req 2 ni_example))"
    by (rule prod_eqI) (simp_all add: ni_handle_req_def ni_example_def Let_def)
  have "get_entry (ni_entries ni_example) (ab_addr (ni_bursts ni_example 2)) = None"
    "0 < ab_size (ni_bursts ni_example 2)" "ab_wide (ni_bursts ni_example 0) = ab_wide (ni_bursts ni_example 2)"
    "ab_write (ni_bursts ni_example 0) = ab_write (ni_bursts ni_example 2)"
    by (simp_all add: ni_example_def get_entry_def)
  from floonoc_ni_unmapped_blocks [OF ni_example_idle, of "[]" ni_example 2 "snd (ni_handle_req 2 ni_example)" 0, OF _ _ this(1,2) call this(3,4)]
  show ?thesis by (simp del: ni_run.simps add: ni_run.simps(1) [of ni_example])
qed

end
