(* ===== verification/Obi_Cut.thy ===== *)
theory Obi_Cut
  imports Prelude
begin

section \<open>The OBI cut (\<open>src/pulp/chips/magia_common/obi_cut/obi_cut.cpp\<close>)\<close>

text \<open>
  A register slice between the crossbar and a register slave: one queue of requests and one of responses
  per channel, reads (with the atomics) and writes. Requests are heap objects in the code and numbers
  here, \<open>oc_beats\<close> giving their fields; the beat that the allocator returns for a read is an argument. The
  acknowledgement of a write, made by the framework from the write beat, is the constructor \<open>Write_ack\<close>. What
  the slave and the master answer are arguments. \<open>oc_event\<close> is the cycle the state machine is enqueued for.
  Calls on the ports are appended to \<open>oc_calls\<close> with their cycle, their channel and whether they were taken;
  what a retried master sends comes as a later request.
\<close>

datatype channel = CH_READ | CH_WRITE

datatype opcode = READ | WRITE | Atomic nat

datatype resp_status = IO_RESP_OK | IO_RESP_INVALID

datatype req_status = REQ_DONE | REQ_GRANTED | REQ_DENIED

record beat =
  bt_addr :: u64
  bt_size :: u64
  bt_opcode :: opcode
  bt_is_first :: bool
  bt_is_last :: bool
  bt_burst_id :: int
  bt_initiator :: nat
  bt_latency :: int
  bt_resp_status :: resp_status

datatype response = Beat nat | Write_ack nat u64 u64 resp_status

record 'd access =
  a_up :: nat
  a_down :: 'd
  a_channel :: channel
  a_ready :: int

datatype obi_call = Out_req channel nat bool | In_resp channel response bool | In_retry channel

text \<open>What the slave does with a request: a latency and a status for an inline answer.\<close>

datatype slave_answer = Slave_denied | Slave_granted | Slave_done int resp_status

record obi_cut =
  oc_width :: int
  oc_resp_latency :: int
  oc_req_queue :: "channel \<Rightarrow> nat access list"
  oc_resp_queue :: "channel \<Rightarrow> response access list"
  oc_pending :: "nat \<rightharpoonup> nat access"
  oc_down_denied :: "channel \<Rightarrow> bool"
  oc_up_denied :: "channel \<Rightarrow> bool"
  oc_in_denied :: "channel \<Rightarrow> bool"
  oc_event :: "int option"
  oc_beats :: "nat \<Rightarrow> beat"
  oc_calls :: "(int \<times> obi_call) list"

definition OBI_CUT_DEPTH :: nat where
  "OBI_CUT_DEPTH = 2"

definition channel_of :: "beat \<Rightarrow> channel" where
  "channel_of b = (if bt_opcode b = WRITE then CH_WRITE else CH_READ)"

definition oc_call :: "int \<Rightarrow> obi_call \<Rightarrow> obi_cut \<Rightarrow> obi_cut" where
  "oc_call now c s = s\<lparr>oc_calls := oc_calls s @ [(now, c)]\<rparr>"

text \<open>The earlier of the two, where -1 is none.\<close>

definition next_ready :: "int \<Rightarrow> 'd access list \<Rightarrow> bool \<Rightarrow> int" where
  "next_ready nxt q denied =
     (case q of [] \<Rightarrow> nxt
      | a # _ \<Rightarrow> if \<not> denied \<and> (nxt = -1 \<or> a_ready a < nxt) then a_ready a else nxt)"

definition oc_schedule :: "int \<Rightarrow> obi_cut \<Rightarrow> obi_cut" where
  "oc_schedule now s =
     (let look = (\<lambda>ch n. next_ready (next_ready n (oc_req_queue s ch) (oc_down_denied s ch)) (oc_resp_queue s ch) (oc_up_denied s ch));
          nxt = look CH_WRITE (look CH_READ (-1))
      in if nxt = -1 then s
         else let delay = (if nxt > now then nxt - now else 1)
              in case oc_event s of
                   Some e \<Rightarrow> if e \<le> now + delay then s else s\<lparr>oc_event := Some (now + delay)\<rparr>
                 | None \<Rightarrow> s\<lparr>oc_event := Some (now + delay)\<rparr>)"

definition oc_reset :: "bool \<Rightarrow> obi_cut \<Rightarrow> obi_cut" where
  "oc_reset active s =
     (if \<not> active then s
      else s\<lparr>oc_req_queue := (\<lambda>_. []), oc_resp_queue := (\<lambda>_. []), oc_down_denied := (\<lambda>_. False),
             oc_up_denied := (\<lambda>_. False), oc_in_denied := (\<lambda>_. False), oc_pending := Map.empty\<rparr>)"

definition oc_in_req :: "int \<Rightarrow> nat \<Rightarrow> nat \<Rightarrow> beat \<Rightarrow> obi_cut \<Rightarrow> req_status \<times> obi_cut" where
  "oc_in_req now fresh r b s0 =
     (let ch = channel_of b; s = s0\<lparr>oc_beats := (oc_beats s0)(r := b)\<rparr>
      in if length (oc_req_queue s ch) \<ge> OBI_CUT_DEPTH then
           (REQ_DENIED, s\<lparr>oc_in_denied := (oc_in_denied s)(ch := True)\<rparr>)
         else if \<not> bt_is_first b \<or> \<not> bt_is_last b \<or> bt_size b > of_int (oc_width s) then
           (REQ_DONE, s\<lparr>oc_beats := (oc_beats s)(r := b\<lparr>bt_resp_status := IO_RESP_INVALID\<rparr>)\<rparr>)
         else
           let (down, s1) = (if bt_opcode b = READ
                 then (fresh, s\<lparr>oc_beats := (oc_beats s)(fresh := \<lparr>bt_addr = bt_addr b, bt_size = bt_size b,
                        bt_opcode = READ, bt_is_first = True, bt_is_last = True, bt_burst_id = bt_burst_id b,
                        bt_initiator = bt_initiator b, bt_latency = 0, bt_resp_status = IO_RESP_OK\<rparr>)\<rparr>)
                 else (r, s))
           in (REQ_GRANTED, oc_schedule now (s1\<lparr>oc_req_queue := (oc_req_queue s1)(ch := oc_req_queue s1 ch
                @ [\<lparr>a_up = r, a_down = down, a_channel = ch, a_ready = now + 1\<rparr>])\<rparr>)))"

definition oc_response :: "nat access \<Rightarrow> obi_cut \<Rightarrow> response" where
  "oc_response a s =
     (let down = a_down a
      in if bt_opcode (oc_beats s (a_up a)) = WRITE
         then Write_ack down (bt_addr (oc_beats s down)) (bt_size (oc_beats s down)) (bt_resp_status (oc_beats s down))
         else Beat down)"

definition oc_respond :: "int \<Rightarrow> nat access \<Rightarrow> int \<Rightarrow> obi_cut \<Rightarrow> obi_cut" where
  "oc_respond now a latency s =
     (let resp = oc_response a s;
          ready = now + 1 + oc_resp_latency s + latency
      in oc_schedule now (s\<lparr>oc_resp_queue := (oc_resp_queue s)(a_channel a := oc_resp_queue s (a_channel a)
           @ [\<lparr>a_up = a_up a, a_down = resp, a_channel = a_channel a, a_ready = ready\<rparr>])\<rparr>))"

text \<open>The status the slave sets in the beat it answers.\<close>

definition oc_set_status :: "nat \<Rightarrow> resp_status \<Rightarrow> obi_cut \<Rightarrow> obi_cut" where
  "oc_set_status d st s = s\<lparr>oc_beats := (oc_beats s)(d := (oc_beats s d)\<lparr>bt_resp_status := st\<rparr>)\<rparr>"

definition oc_send_down :: "int \<Rightarrow> channel \<Rightarrow> slave_answer \<Rightarrow> obi_cut \<Rightarrow> obi_cut" where
  "oc_send_down now ch answer s =
     (case oc_req_queue s ch of
        [] \<Rightarrow> s
      | a # rest \<Rightarrow>
          if oc_down_denied s ch \<or> a_ready a > now then s
          else let down = a_down a;
                   s1 = oc_call now (Out_req ch down (answer \<noteq> Slave_denied)) (s\<lparr>oc_beats := (oc_beats s)(down := (oc_beats s down)\<lparr>bt_latency := 0\<rparr>)\<rparr>)
               in if answer = Slave_denied then s1\<lparr>oc_down_denied := (oc_down_denied s1)(ch := True)\<rparr>
                  else let s2 = s1\<lparr>oc_req_queue := (oc_req_queue s1)(ch := rest)\<rparr>;
                           s3 = (if oc_in_denied s2 ch
                                 then oc_call now (In_retry ch) (s2\<lparr>oc_in_denied := (oc_in_denied s2)(ch := False)\<rparr>) else s2)
                       in case answer of
                            Slave_done latency st \<Rightarrow> oc_respond now a latency (oc_set_status down st s3)
                          | _ \<Rightarrow> s3\<lparr>oc_pending := (oc_pending s3)(down \<mapsto> a)\<rparr>)"

text \<open>A response of the slave; an unknown one is fatal.\<close>

definition oc_out_resp :: "int \<Rightarrow> nat \<Rightarrow> resp_status \<Rightarrow> obi_cut \<Rightarrow> obi_cut option" where
  "oc_out_resp now d st s =
     (case oc_pending s d of
        None \<Rightarrow> None
      | Some a \<Rightarrow> let s1 = oc_set_status d st s
                  in Some (oc_respond now a 0 (s1\<lparr>oc_pending := (oc_pending s1)(d := None)\<rparr>)))"

definition oc_clear_latency :: "response \<Rightarrow> obi_cut \<Rightarrow> obi_cut" where
  "oc_clear_latency r s =
     (case r of Beat d \<Rightarrow> s\<lparr>oc_beats := (oc_beats s)(d := (oc_beats s d)\<lparr>bt_latency := 0\<rparr>)\<rparr> | _ \<Rightarrow> s)"

definition oc_send_up :: "int \<Rightarrow> channel \<Rightarrow> bool \<Rightarrow> obi_cut \<Rightarrow> obi_cut" where
  "oc_send_up now ch accepted s =
     (case oc_resp_queue s ch of
        [] \<Rightarrow> s
      | a # rest \<Rightarrow>
          if oc_up_denied s ch \<or> a_ready a > now then s
          else let s1 = oc_call now (In_resp ch (a_down a) accepted) (oc_clear_latency (a_down a) s)
               in if \<not> accepted then s1\<lparr>oc_up_denied := (oc_up_denied s1)(ch := True)\<rparr>
                  else s1\<lparr>oc_resp_queue := (oc_resp_queue s1)(ch := rest)\<rparr>)"

text \<open>A retry for one channel, or for any (\<open>None\<close>).\<close>

definition oc_out_retry :: "int \<Rightarrow> channel option \<Rightarrow> (channel \<Rightarrow> slave_answer) \<Rightarrow> obi_cut \<Rightarrow> obi_cut" where
  "oc_out_retry now c answer s =
     (let one = (\<lambda>ch s. if (c = None \<or> c = Some ch) \<and> oc_down_denied s ch
                   then oc_send_down now ch (answer ch) (s\<lparr>oc_down_denied := (oc_down_denied s)(ch := False)\<rparr>) else s)
      in oc_schedule now (one CH_WRITE (one CH_READ s)))"

definition oc_in_resp_retry :: "int \<Rightarrow> channel option \<Rightarrow> (channel \<Rightarrow> bool) \<Rightarrow> obi_cut \<Rightarrow> obi_cut" where
  "oc_in_resp_retry now c accepted s =
     (let one = (\<lambda>ch s. if (c = None \<or> c = Some ch) \<and> oc_up_denied s ch
                   then oc_send_up now ch (accepted ch) (s\<lparr>oc_up_denied := (oc_up_denied s)(ch := False)\<rparr>) else s)
      in oc_schedule now (one CH_WRITE (one CH_READ s)))"

definition oc_fsm_handler :: "int \<Rightarrow> (channel \<Rightarrow> slave_answer) \<Rightarrow> (channel \<Rightarrow> bool) \<Rightarrow> obi_cut \<Rightarrow> obi_cut" where
  "oc_fsm_handler now answer accepted s0 =
     (let s = s0\<lparr>oc_event := None\<rparr>;
          one = (\<lambda>ch s. oc_send_down now ch (answer ch) (oc_send_up now ch (accepted ch) s))
      in oc_schedule now (one CH_WRITE (one CH_READ s)))"

end
