(* ===== verification/Obi_Cut_Runs.thy ===== *)
theory Obi_Cut_Runs
  imports Obi_Cut "HOL-Library.Multiset"
begin

section \<open>Runs of the OBI cut\<close>

text \<open>
  The environment is a master, a slave and the clock, in any order: requests, responses of the slave,
  retries from either side, and turns of the state machine. A run ends when the slave answers a request
  it was not given, which is fatal.
\<close>

datatype oc_event =
    Master_req int nat nat beat
  | Slave_resp int nat resp_status
  | Slave_retry int "channel option" "channel \<Rightarrow> slave_answer"
  | Master_retry int "channel option" "channel \<Rightarrow> bool"
  | Turn int "channel \<Rightarrow> slave_answer" "channel \<Rightarrow> bool"

fun oc_step :: "oc_event \<Rightarrow> obi_cut \<Rightarrow> obi_cut option" where
  "oc_step (Master_req now fresh r b) s = Some (snd (oc_in_req now fresh r b s))"
| "oc_step (Slave_resp now d st) s = oc_out_resp now d st s"
| "oc_step (Slave_retry now c answer) s = Some (oc_out_retry now c answer s)"
| "oc_step (Master_retry now c accepted) s = Some (oc_in_resp_retry now c accepted s)"
| "oc_step (Turn now answer accepted) s = Some (oc_fsm_handler now answer accepted s)"

fun oc_run :: "oc_event list \<Rightarrow> obi_cut \<Rightarrow> obi_cut option" where
  "oc_run [] s = Some s"
| "oc_run (e # es) s = (case oc_step e s of None \<Rightarrow> None | Some s' \<Rightarrow> oc_run es s')"

subsection \<open>What is observed\<close>

fun resp_id :: "response \<Rightarrow> nat" where
  "resp_id (Beat d) = d"
| "resp_id (Write_ack d _ _ _) = d"

definition taken :: "channel \<Rightarrow> obi_cut \<Rightarrow> nat list" where
  "taken ch s = concat (map (\<lambda>c. case snd c of Out_req ch' d True \<Rightarrow> if ch' = ch then [d] else [] | _ \<Rightarrow> []) (oc_calls s))"

definition answered :: "channel \<Rightarrow> obi_cut \<Rightarrow> nat list" where
  "answered ch s = concat (map (\<lambda>c. case snd c of In_resp ch' r True \<Rightarrow> if ch' = ch then [resp_id r] else [] | _ \<Rightarrow> []) (oc_calls s))"

definition waiting :: "channel \<Rightarrow> obi_cut \<Rightarrow> nat list" where
  "waiting ch s = map a_down (oc_req_queue s ch)"

definition issued :: "channel \<Rightarrow> obi_cut \<Rightarrow> nat list" where
  "issued ch s = answered ch s @ map (\<lambda>a. resp_id (a_down a)) (oc_resp_queue s ch)"

definition in_slave :: "channel \<Rightarrow> obi_cut \<Rightarrow> nat set" where
  "in_slave ch s = {d. \<exists>a. oc_pending s d = Some a \<and> a_channel a = ch}"

lemmas obs_defs = taken_def answered_def waiting_def issued_def in_slave_def

lemma oc_call_frame [simp]:
  "oc_req_queue (oc_call now c s) = oc_req_queue s" "oc_resp_queue (oc_call now c s) = oc_resp_queue s"
  "oc_pending (oc_call now c s) = oc_pending s" "oc_down_denied (oc_call now c s) = oc_down_denied s"
  "oc_up_denied (oc_call now c s) = oc_up_denied s" "oc_in_denied (oc_call now c s) = oc_in_denied s"
  "oc_event (oc_call now c s) = oc_event s" "oc_beats (oc_call now c s) = oc_beats s"
  "oc_width (oc_call now c s) = oc_width s" "oc_resp_latency (oc_call now c s) = oc_resp_latency s"
  "oc_calls (oc_call now c s) = oc_calls s @ [(now, c)]"
  by (simp_all add: oc_call_def)

lemma oc_schedule_frame [simp]:
  "oc_req_queue (oc_schedule now s) = oc_req_queue s" "oc_resp_queue (oc_schedule now s) = oc_resp_queue s"
  "oc_pending (oc_schedule now s) = oc_pending s" "oc_down_denied (oc_schedule now s) = oc_down_denied s"
  "oc_up_denied (oc_schedule now s) = oc_up_denied s" "oc_in_denied (oc_schedule now s) = oc_in_denied s"
  "oc_calls (oc_schedule now s) = oc_calls s" "oc_beats (oc_schedule now s) = oc_beats s"
  "oc_resp_latency (oc_schedule now s) = oc_resp_latency s"
  "oc_width (oc_schedule now s) = oc_width s"
  by (simp_all add: oc_schedule_def Let_def split: option.splits)

lemma oc_set_status_frame [simp]:
  "oc_req_queue (oc_set_status d st s) = oc_req_queue s" "oc_resp_queue (oc_set_status d st s) = oc_resp_queue s"
  "oc_pending (oc_set_status d st s) = oc_pending s" "oc_down_denied (oc_set_status d st s) = oc_down_denied s"
  "oc_up_denied (oc_set_status d st s) = oc_up_denied s" "oc_in_denied (oc_set_status d st s) = oc_in_denied s"
  "oc_calls (oc_set_status d st s) = oc_calls s" "oc_event (oc_set_status d st s) = oc_event s"
  "oc_resp_latency (oc_set_status d st s) = oc_resp_latency s"
  "oc_width (oc_set_status d st s) = oc_width s"
  by (simp_all add: oc_set_status_def)

lemma oc_clear_latency_frame [simp]:
  "oc_req_queue (oc_clear_latency r s) = oc_req_queue s" "oc_resp_queue (oc_clear_latency r s) = oc_resp_queue s"
  "oc_pending (oc_clear_latency r s) = oc_pending s" "oc_down_denied (oc_clear_latency r s) = oc_down_denied s"
  "oc_up_denied (oc_clear_latency r s) = oc_up_denied s" "oc_in_denied (oc_clear_latency r s) = oc_in_denied s"
  "oc_calls (oc_clear_latency r s) = oc_calls s" "oc_event (oc_clear_latency r s) = oc_event s"
  "oc_resp_latency (oc_clear_latency r s) = oc_resp_latency s"
  "oc_width (oc_clear_latency r s) = oc_width s"
  by (simp_all add: oc_clear_latency_def split: response.splits)

lemma oc_respond_frame [simp]:
  "oc_req_queue (oc_respond now a l s) = oc_req_queue s" "oc_pending (oc_respond now a l s) = oc_pending s"
  "oc_down_denied (oc_respond now a l s) = oc_down_denied s" "oc_up_denied (oc_respond now a l s) = oc_up_denied s"
  "oc_in_denied (oc_respond now a l s) = oc_in_denied s" "oc_calls (oc_respond now a l s) = oc_calls s"
  "oc_resp_latency (oc_respond now a l s) = oc_resp_latency s"
  "oc_width (oc_respond now a l s) = oc_width s"
  by (simp_all add: oc_respond_def Let_def)

lemma resp_id_response [simp]: "resp_id (oc_response a s) = a_down a"
  by (simp add: oc_response_def Let_def)

lemma oc_respond_queue [simp]:
  "oc_resp_queue (oc_respond now a l s) = (oc_resp_queue s)(a_channel a := oc_resp_queue s (a_channel a)
     @ [\<lparr>a_up = a_up a, a_down = oc_response a s, a_channel = a_channel a, a_ready = now + 1 + oc_resp_latency s + l\<rparr>])"
  by (simp add: oc_respond_def Let_def)

subsection \<open>Nothing is lost or repeated\<close>

text \<open>\<open>acc\<close> gives the requests accepted on each channel.\<close>

definition in_order :: "(channel \<Rightarrow> nat list) \<Rightarrow> obi_cut \<Rightarrow> bool" where
  "in_order acc s \<longleftrightarrow> (\<forall>ch. acc ch = taken ch s @ waiting ch s
     \<and> mset (taken ch s) = mset (issued ch s) + mset_set (in_slave ch s))"

definition oc_wf :: "obi_cut \<Rightarrow> bool" where
  "oc_wf s \<longleftrightarrow> finite (dom (oc_pending s)) \<and> (\<forall>d a. oc_pending s d = Some a \<longrightarrow> a_down a = d)
     \<and> (\<forall>ch. \<forall>a \<in> set (oc_req_queue s ch). a_channel a = ch \<and> a_down a \<notin> dom (oc_pending s))
     \<and> distinct (waiting CH_READ s @ waiting CH_WRITE s)
     \<and> (\<forall>ch. length (oc_req_queue s ch) \<le> OBI_CUT_DEPTH
           \<and> (oc_in_denied s ch \<longrightarrow> length (oc_req_queue s ch) = OBI_CUT_DEPTH)
           \<and> (oc_down_denied s ch \<longrightarrow> oc_req_queue s ch \<noteq> []) \<and> (oc_up_denied s ch \<longrightarrow> oc_resp_queue s ch \<noteq> []))"

lemma in_slave_finite: "oc_wf s \<Longrightarrow> finite (in_slave ch s)"
  unfolding oc_wf_def by (rule finite_subset [of _ "dom (oc_pending s)"]) (auto simp: in_slave_def)

lemma in_order_cong:
  assumes "oc_calls s' = oc_calls s" "oc_req_queue s' = oc_req_queue s" "oc_resp_queue s' = oc_resp_queue s" "oc_pending s' = oc_pending s"
  shows "in_order acc s' = in_order acc s"
  using assms by (simp add: in_order_def obs_defs)

lemma in_order_schedule [simp]: "in_order acc (oc_schedule now s) = in_order acc s"
  by (rule in_order_cong) simp_all

lemma oc_wf_schedule [simp]: "oc_wf (oc_schedule now s) = oc_wf s"
  by (simp add: oc_wf_def waiting_def)

lemma send_up_cases:
  obtains (idle) "oc_send_up now ch accepted s = s"
    | (denied) a rest where "oc_resp_queue s ch = a # rest" "\<not> accepted" "\<not> oc_up_denied s ch" "a_ready a \<le> now"
        "oc_send_up now ch accepted s = (oc_call now (In_resp ch (a_down a) False) (oc_clear_latency (a_down a) s))
           \<lparr>oc_up_denied := (oc_up_denied s)(ch := True)\<rparr>"
    | (sent) a rest where "oc_resp_queue s ch = a # rest" "accepted" "\<not> oc_up_denied s ch" "a_ready a \<le> now"
        "oc_send_up now ch accepted s = (oc_call now (In_resp ch (a_down a) True) (oc_clear_latency (a_down a) s))
           \<lparr>oc_resp_queue := (oc_resp_queue s)(ch := rest)\<rparr>"
proof (cases "oc_resp_queue s ch")
  case Nil
  then show ?thesis by (intro idle) (simp add: oc_send_up_def)
next
  case (Cons a rest)
  show ?thesis
  proof (cases "oc_up_denied s ch \<or> a_ready a > now")
    case True
    then show ?thesis by (intro idle) (simp add: oc_send_up_def Cons)
  next
    case False
    then show ?thesis using Cons denied [of a rest] sent [of a rest] by (cases accepted) (auto simp: oc_send_up_def Let_def)
  qed
qed

lemma send_up_inv:
  assumes "oc_wf s" "in_order acc s"
  shows "oc_wf (oc_send_up now ch accepted s) \<and> in_order acc (oc_send_up now ch accepted s)"
proof (cases rule: send_up_cases [of now ch accepted s])
  case idle
  then show ?thesis using assms by simp
next
  case (denied a rest)
  have "oc_wf (oc_send_up now ch accepted s)" using assms(1) denied(1) unfolding denied(5) oc_wf_def by (simp add: waiting_def)
  then show ?thesis using assms(2) unfolding denied(5) in_order_def by (simp add: obs_defs)
next
  case (sent a rest)
  have "oc_wf (oc_send_up now ch accepted s)" using assms(1) sent(3) unfolding sent(5) oc_wf_def by (simp add: waiting_def)
  moreover have "in_order acc (oc_send_up now ch accepted s)"
    using assms(2) sent(1) unfolding sent(5) in_order_def by (simp add: obs_defs)
  ultimately show ?thesis by simp
qed

text \<open>A request that the slave takes: it leaves the queue and a denied master is told to retry.\<close>

definition oc_pop :: "int \<Rightarrow> channel \<Rightarrow> nat access \<Rightarrow> nat access list \<Rightarrow> obi_cut \<Rightarrow> obi_cut" where
  "oc_pop now ch a rest s =
     (let s2 = (oc_call now (Out_req ch (a_down a) True) (s\<lparr>oc_beats := (oc_beats s)(a_down a := (oc_beats s (a_down a))\<lparr>bt_latency := 0\<rparr>)\<rparr>))
            \<lparr>oc_req_queue := (oc_req_queue s)(ch := rest)\<rparr>
      in if oc_in_denied s2 ch then oc_call now (In_retry ch) (s2\<lparr>oc_in_denied := (oc_in_denied s2)(ch := False)\<rparr>) else s2)"

lemma oc_pop_frame [simp]:
  "oc_req_queue (oc_pop now ch a rest s) = (oc_req_queue s)(ch := rest)" "oc_resp_queue (oc_pop now ch a rest s) = oc_resp_queue s"
  "oc_pending (oc_pop now ch a rest s) = oc_pending s" "oc_down_denied (oc_pop now ch a rest s) = oc_down_denied s"
  "oc_up_denied (oc_pop now ch a rest s) = oc_up_denied s" "oc_in_denied (oc_pop now ch a rest s) = (oc_in_denied s)(ch := False)"
  "oc_width (oc_pop now ch a rest s) = oc_width s" "oc_event (oc_pop now ch a rest s) = oc_event s" "oc_resp_latency (oc_pop now ch a rest s) = oc_resp_latency s"
  "taken ch' (oc_pop now ch a rest s) = taken ch' s @ (if ch' = ch then [a_down a] else [])"
  "answered ch' (oc_pop now ch a rest s) = answered ch' s"
  by (auto simp: oc_pop_def Let_def taken_def answered_def fun_eq_iff)

lemma send_down_cases:
  obtains (idle) "oc_send_down now ch answer s = s"
    | (denied) a rest where "oc_req_queue s ch = a # rest" "answer = Slave_denied" "\<not> oc_down_denied s ch" "a_ready a \<le> now"
        "oc_send_down now ch answer s = (oc_call now (Out_req ch (a_down a) False)
           (s\<lparr>oc_beats := (oc_beats s)(a_down a := (oc_beats s (a_down a))\<lparr>bt_latency := 0\<rparr>)\<rparr>))
           \<lparr>oc_down_denied := (oc_down_denied s)(ch := True)\<rparr>"
    | (granted) a rest where "oc_req_queue s ch = a # rest" "answer = Slave_granted" "\<not> oc_down_denied s ch" "a_ready a \<le> now"
        "oc_send_down now ch answer s = (oc_pop now ch a rest s)\<lparr>oc_pending := (oc_pending s)(a_down a \<mapsto> a)\<rparr>"
    | (inline) a rest l st where "oc_req_queue s ch = a # rest" "answer = Slave_done l st" "\<not> oc_down_denied s ch" "a_ready a \<le> now"
        "oc_send_down now ch answer s = oc_respond now a l (oc_set_status (a_down a) st (oc_pop now ch a rest s))"
proof (cases "oc_req_queue s ch")
  case Nil
  then show ?thesis by (intro idle) (simp add: oc_send_down_def)
next
  case (Cons a rest)
  show ?thesis
  proof (cases "oc_down_denied s ch \<or> a_ready a > now")
    case True
    then show ?thesis by (intro idle) (simp add: oc_send_down_def Cons)
  next
    case False
    then have now: "\<not> oc_down_denied s ch" "a_ready a \<le> now" by simp_all
    show ?thesis
    proof (cases answer)
      case Slave_denied
      then show ?thesis using Cons now by (intro denied) (auto simp: oc_send_down_def Let_def)
    next
      case Slave_granted
      have "oc_send_down now ch answer s = (oc_pop now ch a rest s)\<lparr>oc_pending := (oc_pending s)(a_down a \<mapsto> a)\<rparr>"
        using Cons now Slave_granted by (simp add: oc_send_down_def oc_pop_def Let_def)
      then show ?thesis using Cons now Slave_granted by (intro granted) auto
    next
      case (Slave_done l st)
      have "oc_send_down now ch answer s = oc_respond now a l (oc_set_status (a_down a) st (oc_pop now ch a rest s))"
        using Cons now Slave_done by (simp add: oc_send_down_def oc_pop_def Let_def)
      then show ?thesis using Cons now Slave_done by (intro inline) auto
    qed
  qed
qed

lemma taken_cong: "oc_calls s' = oc_calls s \<Longrightarrow> taken ch s' = taken ch s"
  by (simp add: taken_def)

lemma answered_cong: "oc_calls s' = oc_calls s \<Longrightarrow> answered ch s' = answered ch s"
  by (simp add: answered_def)

lemma wf_pop:
  assumes "oc_wf s" "oc_req_queue s ch = a # rest" "\<not> oc_down_denied s ch"
  shows "oc_wf (oc_pop now ch a rest s)" and "a_channel a = ch" and "a_down a \<notin> dom (oc_pending s)"
    and "\<And>ch' b. b \<in> set (oc_req_queue (oc_pop now ch a rest s) ch') \<Longrightarrow> a_down b \<noteq> a_down a"
proof -
  note wf = assms(1) [unfolded oc_wf_def]
  show "a_channel a = ch" "a_down a \<notin> dom (oc_pending s)" using wf assms(2) by (metis list.set_intros(1))+
  have "distinct (waiting CH_READ (oc_pop now ch a rest s) @ waiting CH_WRITE (oc_pop now ch a rest s))"
    "a_down a \<notin> set (waiting CH_READ (oc_pop now ch a rest s) @ waiting CH_WRITE (oc_pop now ch a rest s))"
    using wf assms(2) by (cases ch; simp add: waiting_def; blast)+
  note d = this
  then show "a_down b \<noteq> a_down a" if "b \<in> set (oc_req_queue (oc_pop now ch a rest s) ch')" for ch' b
  proof -
    have "a_down b \<in> set (waiting ch' (oc_pop now ch a rest s))" using that unfolding waiting_def set_map by (rule imageI)
    then show ?thesis using d(2) by (cases ch') auto
  qed
  have rest: "\<forall>b \<in> set rest. a_channel b = ch \<and> a_down b \<notin> dom (oc_pending s)" "length rest \<le> OBI_CUT_DEPTH"
    using wf assms(2) by (metis list.set_intros(2), metis Suc_leD length_Cons)
  show "oc_wf (oc_pop now ch a rest s)"
    unfolding oc_wf_def using wf assms(3) rest d(1) by simp
qed

lemma send_down_inv:
  assumes "oc_wf s" "in_order acc s"
  shows "oc_wf (oc_send_down now ch answer s) \<and> in_order acc (oc_send_down now ch answer s)"
proof (cases rule: send_down_cases [of now ch answer s])
  case idle
  then show ?thesis using assms by simp
next
  case (denied a rest)
  have "oc_wf (oc_send_down now ch answer s)" using assms(1) denied(1) unfolding denied(5) oc_wf_def by (simp add: waiting_def)
  then show ?thesis using assms(2) unfolding denied(5) in_order_def by (simp add: obs_defs)
next
  case (granted a rest)
  let ?p = "oc_pop now ch a rest s"
  note pop = wf_pop [OF assms(1) granted(1,3)]
  have "oc_wf (oc_send_down now ch answer s)"
    using pop(1,4) unfolding granted(5) oc_wf_def waiting_def by auto
  moreover have "in_slave ch' (?p\<lparr>oc_pending := (oc_pending s)(a_down a \<mapsto> a)\<rparr>)
      = (if ch' = ch then insert (a_down a) (in_slave ch' s) else in_slave ch' s)" for ch'
    using pop(2,3) by (auto simp: in_slave_def)
  moreover have "a_down a \<notin> in_slave ch s" using pop(3) by (auto simp: in_slave_def)
  moreover have "taken ch' (?p\<lparr>oc_pending := x\<rparr>) = taken ch' ?p" "issued ch' (?p\<lparr>oc_pending := x\<rparr>) = issued ch' s"
      "waiting ch' (?p\<lparr>oc_pending := x\<rparr>) = waiting ch' ?p" for ch' x
    by (simp_all add: issued_def waiting_def taken_cong [of "?p\<lparr>oc_pending := x\<rparr>" ?p] answered_cong [of "?p\<lparr>oc_pending := x\<rparr>" ?p])
  ultimately show ?thesis
    using assms(2) in_slave_finite [OF assms(1)] granted(1) unfolding granted(5) in_order_def
    by (auto simp: waiting_def)
next
  case (inline a rest l st)
  let ?p = "oc_pop now ch a rest s" and ?s' = "oc_send_down now ch answer s"
  note pop = wf_pop [OF assms(1) inline(1,3)]
  have "oc_wf ?s'"
    using pop(1) unfolding inline(5) oc_wf_def waiting_def by auto
  moreover have "in_slave ch' ?s' = in_slave ch' s" "waiting ch' ?s' = waiting ch' ?p" "taken ch' ?s' = taken ch' ?p"
      "answered ch' ?s' = answered ch' ?p" for ch'
    unfolding inline(5) by (simp_all add: in_slave_def waiting_def taken_def answered_def)
  moreover have "issued ch' ?s' = issued ch' s @ (if ch' = ch then [a_down a] else [])" for ch'
    unfolding inline(5) issued_def using pop(2) by (simp add: answered_cong [of _ ?p])
  ultimately show ?thesis using assms(2) inline(1) unfolding in_order_def by (auto simp: waiting_def)
qed

text \<open>The object that goes down for a request, and the environment that never reuses one in flight.\<close>

definition down_of :: "nat \<Rightarrow> nat \<Rightarrow> beat \<Rightarrow> nat" where
  "down_of fresh r b = (if bt_opcode b = READ then fresh else r)"

definition in_flight :: "nat \<Rightarrow> obi_cut \<Rightarrow> bool" where
  "in_flight d s \<longleftrightarrow> d \<in> set (waiting CH_READ s) \<or> d \<in> set (waiting CH_WRITE s)
     \<or> (case oc_pending s d of None \<Rightarrow> False | Some a \<Rightarrow> True)"

fun oc_accepts :: "oc_event \<Rightarrow> obi_cut \<Rightarrow> channel \<Rightarrow> nat list" where
  "oc_accepts (Master_req now fresh r b) s ch =
     (if fst (oc_in_req now fresh r b s) = REQ_GRANTED \<and> channel_of b = ch then [down_of fresh r b] else [])"
| "oc_accepts _ s ch = []"

fun oc_fresh :: "oc_event \<Rightarrow> obi_cut \<Rightarrow> bool" where
  "oc_fresh (Master_req now fresh r b) s \<longleftrightarrow> \<not> in_flight (down_of fresh r b) s"
| "oc_fresh _ s \<longleftrightarrow> True"

lemma in_req_cases:
  obtains (refused) "fst (oc_in_req now fresh r b s) = REQ_DENIED" "length (oc_req_queue s (channel_of b)) \<ge> OBI_CUT_DEPTH"
      "snd (oc_in_req now fresh r b s) = s\<lparr>oc_beats := (oc_beats s)(r := b), oc_in_denied := (oc_in_denied s)(channel_of b := True)\<rparr>"
    | (invalid) bs where "fst (oc_in_req now fresh r b s) = REQ_DONE" "snd (oc_in_req now fresh r b s) = s\<lparr>oc_beats := bs\<rparr>"
    | (taken) bs where "fst (oc_in_req now fresh r b s) = REQ_GRANTED" "length (oc_req_queue s (channel_of b)) < OBI_CUT_DEPTH"
      "snd (oc_in_req now fresh r b s) = oc_schedule now (s\<lparr>oc_beats := bs, oc_req_queue := (oc_req_queue s)(channel_of b :=
         oc_req_queue s (channel_of b) @ [\<lparr>a_up = r, a_down = down_of fresh r b, a_channel = channel_of b, a_ready = now + 1\<rparr>])\<rparr>)"
proof (cases "length (oc_req_queue s (channel_of b)) \<ge> OBI_CUT_DEPTH")
  case True
  then show ?thesis by (intro refused) (simp_all add: oc_in_req_def Let_def)
next
  case False
  show ?thesis
  proof (cases "\<not> bt_is_first b \<or> \<not> bt_is_last b \<or> bt_size b > of_int (oc_width s)")
    case True
    with False show ?thesis by (intro invalid) (simp_all add: oc_in_req_def Let_def)
  next
    case valid: False
    with False show ?thesis
      by (cases "bt_opcode b = READ") (rule taken; simp add: oc_in_req_def down_of_def Let_def)+
  qed
qed

lemma in_order_queue:
  assumes "oc_calls s' = oc_calls s" "oc_resp_queue s' = oc_resp_queue s" "oc_pending s' = oc_pending s"
    and "\<And>ch. waiting ch s' = waiting ch s @ new ch" "in_order acc s"
  shows "in_order (\<lambda>ch. acc ch @ new ch) s'"
  using assms by (simp add: in_order_def taken_def answered_def issued_def in_slave_def)

lemma in_req_inv:
  assumes "oc_wf s" "in_order acc s" "oc_fresh (Master_req now fresh r b) s"
  shows "oc_wf (snd (oc_in_req now fresh r b s))
    \<and> in_order (\<lambda>ch. acc ch @ oc_accepts (Master_req now fresh r b) s ch) (snd (oc_in_req now fresh r b s))"
proof (cases rule: in_req_cases [of now fresh r b s])
  case refused
  moreover have "length (oc_req_queue s (channel_of b)) = OBI_CUT_DEPTH"
    using refused(2) assms(1) unfolding oc_wf_def by (meson le_antisym)
  moreover have "oc_wf (snd (oc_in_req now fresh r b s))"
    using assms(1) calculation(4) unfolding refused(3) oc_wf_def waiting_def by simp
  ultimately show ?thesis using assms(2) by (simp add: in_order_def obs_defs)
next
  case (invalid bs)
  moreover have "oc_wf (s\<lparr>oc_beats := bs\<rparr>)" using assms(1) by (simp add: oc_wf_def waiting_def)
  ultimately show ?thesis using assms(2) by (simp add: in_order_def obs_defs)
next
  case (taken bs)
  let ?d = "down_of fresh r b" and ?ch = "channel_of b" and ?s' = "snd (oc_in_req now fresh r b s)"
  have new: "waiting ch ?s' = waiting ch s @ (if ?ch = ch then [?d] else [])" for ch
    unfolding taken(3) by (simp add: waiting_def)
  have fresh: "?d \<notin> set (waiting CH_READ s)" "?d \<notin> set (waiting CH_WRITE s)" "?d \<notin> dom (oc_pending s)"
    using assms(3) by (auto simp: in_flight_def)
  have "distinct (waiting CH_READ ?s' @ waiting CH_WRITE ?s')"
    using assms(1) fresh unfolding new oc_wf_def by (cases ?ch) auto
  moreover have "oc_pending ?s' = oc_pending s" "oc_in_denied ?s' = oc_in_denied s" "oc_down_denied ?s' = oc_down_denied s"
      "oc_up_denied ?s' = oc_up_denied s" "oc_resp_queue ?s' = oc_resp_queue s" "oc_calls ?s' = oc_calls s"
      "oc_req_queue ?s' = (oc_req_queue s)(?ch := oc_req_queue s ?ch @ [\<lparr>a_up = r, a_down = ?d, a_channel = ?ch, a_ready = now + 1\<rparr>])"
    unfolding taken(3) by simp_all
  moreover have "\<not> oc_in_denied s ?ch" using assms(1) taken(2) unfolding oc_wf_def by (metis less_irrefl)
  ultimately show ?thesis
    using assms(1,2) fresh(3) taken(1,2) new in_order_queue [of ?s' s "\<lambda>ch. if ?ch = ch then [?d] else []" acc]
    unfolding oc_wf_def by simp
qed

lemma out_resp_inv:
  assumes "oc_wf s" "in_order acc s" "oc_out_resp now d st s = Some s'"
  shows "oc_wf s' \<and> in_order acc s'"
proof -
  obtain a where a: "oc_pending s d = Some a" using assms(3) by (auto simp: oc_out_resp_def split: option.splits)
  then have d: "a_down a = d" using assms(1) unfolding oc_wf_def by blast
  have s': "s' = oc_respond now a 0 ((oc_set_status d st s)\<lparr>oc_pending := (oc_pending s)(d := None)\<rparr>)"
    using assms(3) by (simp add: oc_out_resp_def a Let_def)
  have "oc_wf s'" using assms(1) unfolding s' oc_wf_def waiting_def by auto
  moreover have "taken ch s' = taken ch s" "answered ch s' = answered ch s" "waiting ch s' = waiting ch s" for ch
    unfolding s' by (simp_all add: taken_def answered_def waiting_def)
  moreover have "issued ch s' = issued ch s @ (if ch = a_channel a then [d] else [])" for ch
    unfolding issued_def calculation(3) unfolding s' by (simp add: d)
  moreover have "in_slave ch s = (if ch = a_channel a then insert d (in_slave ch s') else in_slave ch s')"
      "d \<notin> in_slave ch s'" for ch
    unfolding s' using a by (auto simp: in_slave_def)
  ultimately show ?thesis
    using assms(2) in_slave_finite [of s'] unfolding in_order_def by auto
qed

lemma oc_inv_clear:
  assumes "oc_wf s" "in_order acc s"
  shows "oc_wf (s\<lparr>oc_down_denied := (oc_down_denied s)(ch := False)\<rparr>) \<and> in_order acc (s\<lparr>oc_down_denied := (oc_down_denied s)(ch := False)\<rparr>)"
    and "oc_wf (s\<lparr>oc_up_denied := (oc_up_denied s)(ch := False)\<rparr>) \<and> in_order acc (s\<lparr>oc_up_denied := (oc_up_denied s)(ch := False)\<rparr>)"
    and "oc_wf (s\<lparr>oc_event := e\<rparr>) \<and> in_order acc (s\<lparr>oc_event := e\<rparr>)"
  using assms by (simp_all add: oc_wf_def waiting_def in_order_def taken_def answered_def issued_def in_slave_def)

abbreviation oc_inv :: "(channel \<Rightarrow> nat list) \<Rightarrow> obi_cut \<Rightarrow> bool" where
  "oc_inv acc s \<equiv> oc_wf s \<and> in_order acc s"

lemma oc_step_inv:
  assumes inv: "oc_inv acc s" and step: "oc_step e s = Some s'" and fresh: "oc_fresh e s"
  shows "oc_inv (\<lambda>ch. acc ch @ oc_accepts e s ch) s'"
proof (cases e)
  case (Master_req now fr r b)
  then show ?thesis using in_req_inv [of s acc now fr r b] assms by simp
next
  case (Slave_resp now d st)
  then show ?thesis using out_resp_inv [of s acc now d st s'] assms by simp
next
  case (Slave_retry now c answer)
  let ?one = "\<lambda>ch s. if (c = None \<or> c = Some ch) \<and> oc_down_denied s ch
    then oc_send_down now ch (answer ch) (s\<lparr>oc_down_denied := (oc_down_denied s)(ch := False)\<rparr>) else s"
  have one: "oc_inv acc s \<Longrightarrow> oc_inv acc (?one ch s)" for ch s
    using send_down_inv [of "s\<lparr>oc_down_denied := (oc_down_denied s)(ch := False)\<rparr>" acc now ch "answer ch"] oc_inv_clear(1) [of s acc ch] by simp
  have "s' = oc_schedule now (?one CH_WRITE (?one CH_READ s))" using step by (simp add: Slave_retry oc_out_retry_def Let_def)
  moreover have "oc_inv acc (?one CH_WRITE (?one CH_READ s))" by (intro one inv)
  ultimately show ?thesis by (simp add: Slave_retry)
next
  case (Master_retry now c accepted)
  let ?one = "\<lambda>ch s. if (c = None \<or> c = Some ch) \<and> oc_up_denied s ch
    then oc_send_up now ch (accepted ch) (s\<lparr>oc_up_denied := (oc_up_denied s)(ch := False)\<rparr>) else s"
  have one: "oc_inv acc s \<Longrightarrow> oc_inv acc (?one ch s)" for ch s
    using send_up_inv [of "s\<lparr>oc_up_denied := (oc_up_denied s)(ch := False)\<rparr>" acc now ch "accepted ch"] oc_inv_clear(2) [of s acc ch] by simp
  have "s' = oc_schedule now (?one CH_WRITE (?one CH_READ s))" using step by (simp add: Master_retry oc_in_resp_retry_def Let_def)
  moreover have "oc_inv acc (?one CH_WRITE (?one CH_READ s))" by (intro one inv)
  ultimately show ?thesis by (simp add: Master_retry)
next
  case (Turn now answer accepted)
  have one: "oc_inv acc s \<Longrightarrow> oc_inv acc (oc_send_down now ch (answer ch) (oc_send_up now ch (accepted ch) s))" for ch s
    using send_up_inv [of s acc now ch "accepted ch"] send_down_inv [of "oc_send_up now ch (accepted ch) s" acc now ch "answer ch"] by blast
  have "oc_inv acc (s\<lparr>oc_event := None\<rparr>)" using inv oc_inv_clear(3) [of s acc None] by simp
  note two = one [OF one [OF this], of CH_WRITE CH_READ]
  have "s' = oc_schedule now (oc_send_down now CH_WRITE (answer CH_WRITE) (oc_send_up now CH_WRITE (accepted CH_WRITE)
      (oc_send_down now CH_READ (answer CH_READ) (oc_send_up now CH_READ (accepted CH_READ) (s\<lparr>oc_event := None\<rparr>)))))"
    using step by (simp add: Turn oc_fsm_handler_def Let_def)
  then show ?thesis using two by (simp add: Turn)
qed

fun oc_accepted :: "oc_event list \<Rightarrow> obi_cut \<Rightarrow> channel \<Rightarrow> nat list" where
  "oc_accepted [] s ch = []"
| "oc_accepted (e # es) s ch = oc_accepts e s ch @ (case oc_step e s of None \<Rightarrow> [] | Some s' \<Rightarrow> oc_accepted es s' ch)"

fun oc_all_fresh :: "oc_event list \<Rightarrow> obi_cut \<Rightarrow> bool" where
  "oc_all_fresh [] s \<longleftrightarrow> True"
| "oc_all_fresh (e # es) s \<longleftrightarrow> oc_fresh e s \<and> (case oc_step e s of None \<Rightarrow> True | Some s' \<Rightarrow> oc_all_fresh es s')"

definition oc_idle :: "obi_cut \<Rightarrow> bool" where
  "oc_idle s \<longleftrightarrow> oc_req_queue s = (\<lambda>_. []) \<and> oc_resp_queue s = (\<lambda>_. []) \<and> oc_pending s = Map.empty \<and> oc_calls s = []
     \<and> oc_down_denied s = (\<lambda>_. False) \<and> oc_up_denied s = (\<lambda>_. False) \<and> oc_in_denied s = (\<lambda>_. False) \<and> oc_event s = None"

lemma oc_idle_inv: "oc_idle s \<Longrightarrow> oc_inv (\<lambda>_. []) s"
  by (simp add: oc_idle_def oc_wf_def in_order_def obs_defs)

lemma oc_run_inv:
  "oc_inv acc s \<Longrightarrow> oc_run es s = Some s' \<Longrightarrow> oc_all_fresh es s \<Longrightarrow> oc_inv (\<lambda>ch. acc ch @ oc_accepted es s ch) s'"
proof (induction es arbitrary: acc s)
  case (Cons e es)
  obtain u where u: "oc_step e s = Some u" using Cons.prems(2) by (auto split: option.splits)
  have "oc_inv (\<lambda>ch. acc ch @ oc_accepts e s ch) u" using oc_step_inv [OF Cons.prems(1) u] Cons.prems(3) by simp
  from Cons.IH [OF this] show ?case using Cons.prems(2,3) u by simp
qed simp

text \<open>
  C25. The cut loses and repeats nothing. In every run, under any denials and retries on both sides, the
  requests the slave has taken on a channel followed by those that wait are the accepted ones in order;
  and each taken one is answered to the master once, or its response waits, or the slave still holds
  it. At most two requests wait, and only when two do is a master waiting for a retry.
\<close>

theorem obi_cut_conserves:
  assumes "oc_idle s" and "oc_run es s = Some s'" and "oc_all_fresh es s"
  shows "oc_accepted es s ch = taken ch s' @ waiting ch s'
    \<and> mset (taken ch s') = mset (answered ch s') + mset (map (\<lambda>a. resp_id (a_down a)) (oc_resp_queue s' ch)) + mset_set (in_slave ch s')
    \<and> length (waiting ch s') \<le> 2 \<and> (oc_in_denied s' ch \<longrightarrow> length (waiting ch s') = 2)"
proof -
  from oc_run_inv [OF oc_idle_inv [OF assms(1)] assms(2,3)]
  have "in_order (oc_accepted es s) s'" and wf: "oc_wf s'" by simp_all
  then have "oc_accepted es s ch = taken ch s' @ waiting ch s'" "mset (taken ch s') = mset (issued ch s') + mset_set (in_slave ch s')"
    unfolding in_order_def by blast+
  moreover have "length (waiting ch s') \<le> 2" "oc_in_denied s' ch \<longrightarrow> length (waiting ch s') = 2"
    using wf unfolding oc_wf_def OBI_CUT_DEPTH_def waiting_def length_map by blast+
  ultimately show ?thesis by (simp add: issued_def)
qed

text \<open>A read and a write; the slave denies the read, then takes both, answers the write at once and the read later.\<close>

definition beat_example :: "opcode \<Rightarrow> beat" where
  "beat_example p = \<lparr>bt_addr = 0x100, bt_size = 4, bt_opcode = p, bt_is_first = True, bt_is_last = True, bt_burst_id = 0,
     bt_initiator = 0, bt_latency = 0, bt_resp_status = IO_RESP_OK\<rparr>"

definition obi_example :: obi_cut where
  "obi_example = \<lparr>oc_width = 4, oc_resp_latency = 0, oc_req_queue = (\<lambda>_. []), oc_resp_queue = (\<lambda>_. []), oc_pending = Map.empty,
     oc_down_denied = (\<lambda>_. False), oc_up_denied = (\<lambda>_. False), oc_in_denied = (\<lambda>_. False), oc_event = None,
     oc_beats = (\<lambda>_. beat_example READ), oc_calls = []\<rparr>"

definition obi_events :: "oc_event list" where
  "obi_events = [Master_req 0 10 1 (beat_example READ), Master_req 0 11 2 (beat_example WRITE),
     Turn 1 (\<lambda>ch. if ch = CH_READ then Slave_denied else Slave_done 0 IO_RESP_OK) (\<lambda>_. True),
     Slave_retry 2 None (\<lambda>_. Slave_granted), Turn 2 (\<lambda>_. Slave_granted) (\<lambda>_. True), Slave_resp 3 10 IO_RESP_OK]"

lemma obi_example_idle: "oc_idle obi_example"
  by (simp add: oc_idle_def obi_example_def)

lemmas oc_run_defs = oc_in_req_def oc_schedule_def next_ready_def channel_of_def beat_example_def obi_example_def OBI_CUT_DEPTH_def
  Let_def oc_fsm_handler_def oc_send_up_def oc_send_down_def oc_respond_def oc_response_def oc_set_status_def oc_clear_latency_def
  oc_call_def oc_out_retry_def oc_out_resp_def oc_in_resp_retry_def

lemma obi_example_run:
  "map_option (\<lambda>s. (taken CH_READ s, answered CH_READ s, map (\<lambda>a. resp_id (a_down a)) (oc_resp_queue s CH_READ)))
     (oc_run obi_events obi_example) = Some ([10], [], [10])"
  by code_simp

theorem obi_cut_conserves_witness:
  "\<exists>s'. oc_run obi_events obi_example = Some s' \<and> oc_accepted obi_events obi_example CH_READ = taken CH_READ s' @ waiting CH_READ s'
     \<and> taken CH_READ s' = [10] \<and> answered CH_READ s' = [] \<and> in_slave CH_READ s' = {}"
proof -
  have fresh: "oc_all_fresh obi_events obi_example" by code_simp
  from obi_example_run obtain s' where r: "oc_run obi_events obi_example = Some s'"
      and p: "(taken CH_READ s', answered CH_READ s', map (\<lambda>a. resp_id (a_down a)) (oc_resp_queue s' CH_READ)) = ([10], [], [10])"
    unfolding map_option_eq_Some by (elim exE conjE)
  have s': "oc_run obi_events obi_example = Some s'" "taken CH_READ s' = [10]" "answered CH_READ s' = []"
      "map (\<lambda>a. resp_id (a_down a)) (oc_resp_queue s' CH_READ) = [10]"
    using r p by (simp_all only: prod.inject)
  note c = obi_cut_conserves [OF obi_example_idle s'(1) fresh, of CH_READ]
  then have "mset_set (in_slave CH_READ s') = {#}" using s'(2-4) by simp
  moreover have "finite (in_slave CH_READ s')" using oc_run_inv [OF oc_idle_inv [OF obi_example_idle] s'(1) fresh] in_slave_finite by blast
  ultimately show ?thesis using c s' by (auto simp: mset_set_empty_iff)
qed

end
