(* ===== verification/Obi_Cut_Timing.thy ===== *)
theory Obi_Cut_Timing
  imports Obi_Cut_Runs
begin

section \<open>Turns and cycles of the OBI cut\<close>

text \<open>
  The state machine is never asleep with work to do, and in a calm environment the cut is a delay line with
  the latencies its description gives. Cycles are not negative.
\<close>

subsection \<open>The turn that is due\<close>

definition oc_times :: "obi_cut \<Rightarrow> bool" where
  "oc_times s \<longleftrightarrow> 0 \<le> oc_resp_latency s \<and> (\<forall>ch. (\<forall>a \<in> set (oc_req_queue s ch). 0 \<le> a_ready a)
     \<and> (\<forall>a \<in> set (oc_resp_queue s ch). 0 \<le> a_ready a))"

definition due :: "int \<Rightarrow> int option \<Rightarrow> 'd access list \<Rightarrow> bool \<Rightarrow> bool" where
  "due now event q denied \<longleftrightarrow> (case q of [] \<Rightarrow> True
     | a # _ \<Rightarrow> denied \<or> (case event of None \<Rightarrow> False | Some e \<Rightarrow> e \<le> max (now + 1) (a_ready a)))"

definition oc_awake :: "int \<Rightarrow> obi_cut \<Rightarrow> bool" where
  "oc_awake now s \<longleftrightarrow> (\<forall>ch. due now (oc_event s) (oc_req_queue s ch) (oc_down_denied s ch)
     \<and> due now (oc_event s) (oc_resp_queue s ch) (oc_up_denied s ch))"

lemma next_ready_le:
  assumes "-1 \<le> n" "\<forall>a \<in> set q. 0 \<le> a_ready a"
  shows "-1 \<le> next_ready n q d" and "n \<noteq> -1 \<Longrightarrow> next_ready n q d \<noteq> -1 \<and> next_ready n q d \<le> n"
    and "q = a # q' \<Longrightarrow> \<not> d \<Longrightarrow> next_ready n q d \<noteq> -1 \<and> next_ready n q d \<le> a_ready a"
  using assms by (auto simp: next_ready_def split: list.splits)

definition oc_next :: "obi_cut \<Rightarrow> int" where
  "oc_next s = next_ready (next_ready (next_ready (next_ready (-1) (oc_req_queue s CH_READ) (oc_down_denied s CH_READ))
     (oc_resp_queue s CH_READ) (oc_up_denied s CH_READ)) (oc_req_queue s CH_WRITE) (oc_down_denied s CH_WRITE))
     (oc_resp_queue s CH_WRITE) (oc_up_denied s CH_WRITE)"

lemma oc_next_le:
  assumes "oc_times s"
  shows "oc_req_queue s ch = a # q \<Longrightarrow> \<not> oc_down_denied s ch \<Longrightarrow> oc_next s \<noteq> -1 \<and> oc_next s \<le> a_ready a"
    and "oc_resp_queue s ch = b # p \<Longrightarrow> \<not> oc_up_denied s ch \<Longrightarrow> oc_next s \<noteq> -1 \<and> oc_next s \<le> a_ready b"
    and "-1 \<le> oc_next s"
proof -
  let ?q = "oc_req_queue s" and ?r = "oc_resp_queue s" and ?d = "oc_down_denied s" and ?u = "oc_up_denied s"
  define n1 where "n1 = next_ready (-1) (?q CH_READ) (?d CH_READ)"
  define n2 where "n2 = next_ready n1 (?r CH_READ) (?u CH_READ)"
  define n3 where "n3 = next_ready n2 (?q CH_WRITE) (?d CH_WRITE)"
  have n4: "oc_next s = next_ready n3 (?r CH_WRITE) (?u CH_WRITE)" by (simp add: oc_next_def n1_def n2_def n3_def)
  have q: "\<forall>a \<in> set (?q c). 0 \<le> a_ready a" and r: "\<forall>a \<in> set (?r c). 0 \<le> a_ready a" for c
    using assms unfolding oc_times_def by blast+
  have low: "-1 \<le> n1" "-1 \<le> n2" "-1 \<le> n3" unfolding n1_def n2_def n3_def by (intro next_ready_le(1) q r order_refl)+
  have le2: "n1 \<noteq> -1 \<Longrightarrow> n2 \<noteq> -1 \<and> n2 \<le> n1" unfolding n2_def by (rule next_ready_le(2) [OF low(1) r])
  have le3: "n2 \<noteq> -1 \<Longrightarrow> n3 \<noteq> -1 \<and> n3 \<le> n2" unfolding n3_def by (rule next_ready_le(2) [OF low(2) q])
  have le4: "n3 \<noteq> -1 \<Longrightarrow> oc_next s \<noteq> -1 \<and> oc_next s \<le> n3" unfolding n4 by (rule next_ready_le(2) [OF low(3) r])
  show "-1 \<le> oc_next s" unfolding n4 by (rule next_ready_le(1) [OF low(3) r])
  show "oc_next s \<noteq> -1 \<and> oc_next s \<le> a_ready a" if h: "?q ch = a # q" "\<not> ?d ch"
  proof (cases ch)
    case CH_READ
    with h have "n1 \<noteq> -1 \<and> n1 \<le> a_ready a" unfolding n1_def by (intro next_ready_le(3) q) simp_all
    then show ?thesis using le2 le3 le4 by fastforce
  next
    case CH_WRITE
    with h have "n3 \<noteq> -1 \<and> n3 \<le> a_ready a" unfolding n3_def by (intro next_ready_le(3) q low) simp_all
    then show ?thesis using le4 by fastforce
  qed
  show "oc_next s \<noteq> -1 \<and> oc_next s \<le> a_ready b" if h: "?r ch = b # p" "\<not> ?u ch"
  proof (cases ch)
    case CH_READ
    with h have "n2 \<noteq> -1 \<and> n2 \<le> a_ready b" unfolding n2_def by (intro next_ready_le(3) r low) simp_all
    then show ?thesis using le3 le4 by fastforce
  next
    case CH_WRITE
    with h show ?thesis unfolding n4 by (intro next_ready_le(3) r low) simp_all
  qed
qed

lemma oc_schedule_next:
  "oc_schedule now s = (if oc_next s = -1 then s
     else case oc_event s of Some e \<Rightarrow> if e \<le> max (now + 1) (oc_next s) then s else s\<lparr>oc_event := Some (max (now + 1) (oc_next s))\<rparr>
       | None \<Rightarrow> s\<lparr>oc_event := Some (max (now + 1) (oc_next s))\<rparr>)"
proof -
  have "now + (if oc_next s > now then oc_next s - now else 1) = max (now + 1) (oc_next s)" by simp
  then show ?thesis unfolding oc_schedule_def by (simp only: Let_def oc_next_def split: option.split)
qed

lemma oc_schedule_awake: "oc_times s \<Longrightarrow> oc_awake now (oc_schedule now s)"
  using oc_next_le [of s] unfolding oc_awake_def due_def
  by (auto simp: oc_schedule_next split: list.splits option.splits) fastforce+

lemma oc_schedule_event:
  "(\<And>e. oc_event s = Some e \<Longrightarrow> now \<le> e) \<Longrightarrow> oc_event (oc_schedule now s) = Some e \<Longrightarrow> now \<le> e"
  by (auto simp: oc_schedule_next split: if_splits option.splits)

subsection \<open>Runs in time\<close>

text \<open>
  Events come in the order of time, answers carry no negative latency, and the clock runs the state
  machine at the cycle it is enqueued for: no event comes after a turn that was due.
\<close>

fun ev_time :: "oc_event \<Rightarrow> int" where
  "ev_time (Master_req now fresh r b) = now"
| "ev_time (Slave_resp now d st) = now"
| "ev_time (Slave_retry now c answer) = now"
| "ev_time (Master_retry now c accepted) = now"
| "ev_time (Turn now answer accepted) = now"

definition patient :: "slave_answer \<Rightarrow> bool" where
  "patient x \<longleftrightarrow> (case x of Slave_done l st \<Rightarrow> 0 \<le> l | _ \<Rightarrow> True)"

definition all_patient :: "(channel \<Rightarrow> slave_answer) \<Rightarrow> bool" where
  "all_patient answer \<longleftrightarrow> patient (answer CH_READ) \<and> patient (answer CH_WRITE)"

lemma all_patientD: "all_patient answer \<Longrightarrow> patient (answer ch)"
  by (cases ch) (simp_all add: all_patient_def)

fun ev_ok :: "oc_event \<Rightarrow> obi_cut \<Rightarrow> bool" where
  "ev_ok (Slave_retry now c answer) s \<longleftrightarrow> all_patient answer"
| "ev_ok (Turn now answer accepted) s \<longleftrightarrow> all_patient answer \<and> oc_event s = Some now"
| "ev_ok _ s \<longleftrightarrow> True"

fun oc_timed :: "int \<Rightarrow> oc_event list \<Rightarrow> obi_cut \<Rightarrow> bool" where
  "oc_timed now [] s \<longleftrightarrow> True"
| "oc_timed now (e # es) s \<longleftrightarrow> now \<le> ev_time e \<and> (case oc_event s of None \<Rightarrow> True | Some t \<Rightarrow> ev_time e \<le> t) \<and> ev_ok e s
     \<and> (case oc_step e s of None \<Rightarrow> True | Some s' \<Rightarrow> oc_timed (ev_time e) es s')"

lemma oc_times_queues:
  "oc_times s \<Longrightarrow> a \<in> set (oc_req_queue s ch) \<Longrightarrow> 0 \<le> a_ready a"
  "oc_times s \<Longrightarrow> b \<in> set (oc_resp_queue s ch) \<Longrightarrow> 0 \<le> a_ready b"
  unfolding oc_times_def by blast+

lemma oc_times_respond: "oc_times s \<Longrightarrow> 0 \<le> now \<Longrightarrow> 0 \<le> l \<Longrightarrow> oc_times (oc_respond now a l s)"
  unfolding oc_times_def by (auto simp del: fun_upd_apply) (auto split: if_splits)

lemma oc_times_pop: "oc_times s \<Longrightarrow> oc_req_queue s ch = a # rest \<Longrightarrow> oc_times (oc_pop now ch a rest s)"
  using oc_times_queues(1) [of s _ ch] unfolding oc_times_def by auto

lemma oc_times_update [simp]:
  "oc_times (oc_set_status d st s) = oc_times s" "oc_times (s\<lparr>oc_pending := p\<rparr>) = oc_times s"
  "oc_times (s\<lparr>oc_down_denied := x\<rparr>) = oc_times s" "oc_times (s\<lparr>oc_up_denied := x\<rparr>) = oc_times s"
  "oc_times (s\<lparr>oc_in_denied := x\<rparr>) = oc_times s"
  "oc_times (s\<lparr>oc_event := e\<rparr>) = oc_times s" "oc_times (oc_schedule now s) = oc_times s"
  "oc_times (oc_call now c s) = oc_times s" "oc_times (s\<lparr>oc_beats := bs\<rparr>) = oc_times s" "oc_times (oc_clear_latency r s) = oc_times s"
  by (simp_all add: oc_times_def)

lemma oc_times_send_down:
  assumes "oc_times s" "0 \<le> now" "patient answer"
  shows "oc_times (oc_send_down now ch answer s)"
proof (cases rule: send_down_cases [of now ch answer s])
  case (inline a rest l st)
  have "oc_times (oc_pop now ch a rest s)" by (rule oc_times_pop [OF assms(1) inline(1)])
  then show ?thesis unfolding inline(5) using assms(2,3) inline(2) by (intro oc_times_respond) (simp_all add: patient_def)
qed (use assms oc_times_pop in simp_all)

lemma oc_times_send_up: "oc_times s \<Longrightarrow> oc_times (oc_send_up now ch accepted s)"
proof (cases rule: send_up_cases [of now ch accepted s])
  case (sent a rest)
  assume "oc_times s"
  then show ?thesis using oc_times_queues(2) [of s _ ch] sent(1) unfolding sent(5) oc_times_def by auto
qed simp_all

lemma oc_times_step:
  assumes "oc_times s" "0 \<le> ev_time e" "ev_ok e s" "oc_step e s = Some s'"
  shows "oc_times s'"
proof (cases e)
  case (Master_req now fr r b)
  have "oc_times (snd (oc_in_req now fr r b s))"
  proof (cases rule: in_req_cases [of now fr r b s])
    case (taken bs)
    show ?thesis using assms(1,2) unfolding taken(3) Master_req oc_times_def by simp
  qed (use assms(1) in simp_all)
  then show ?thesis using assms(4) by (simp add: Master_req)
next
  case (Slave_resp now d st)
  then show ?thesis using assms by (auto simp: oc_out_resp_def Let_def intro!: oc_times_respond split: option.splits)
next
  case (Slave_retry now c answer)
  then show ?thesis using assms by (auto simp: oc_out_retry_def Let_def intro!: oc_times_send_down all_patientD)
next
  case (Master_retry now c accepted)
  then show ?thesis using assms by (auto simp: oc_in_resp_retry_def Let_def intro!: oc_times_send_up)
next
  case (Turn now answer accepted)
  then show ?thesis using assms by (auto simp: oc_fsm_handler_def Let_def intro!: oc_times_send_down oc_times_send_up all_patientD)
qed

definition not_past :: "int \<Rightarrow> obi_cut \<Rightarrow> bool" where
  "not_past now s \<longleftrightarrow> (case oc_event s of None \<Rightarrow> True | Some e \<Rightarrow> now \<le> e)"

lemma not_past_schedule: "not_past t s \<Longrightarrow> t \<le> now + 1 \<Longrightarrow> not_past t (oc_schedule now s)"
  by (auto simp: not_past_def oc_schedule_next split: option.splits)

lemma not_past_send:
  assumes "not_past t s" "t \<le> now + 1"
  shows "not_past t (oc_send_up now ch accepted s)" and "not_past t (oc_send_down now ch answer s)"
proof -
  show "not_past t (oc_send_up now ch accepted s)"
    by (cases rule: send_up_cases [of now ch accepted s]) (use assms in \<open>simp_all add: not_past_def\<close>)
  show "not_past t (oc_send_down now ch answer s)"
  proof (cases rule: send_down_cases [of now ch answer s])
    case (inline a rest l st)
    show ?thesis unfolding inline(5) oc_respond_def Let_def
      by (intro not_past_schedule) (use assms in \<open>simp_all add: not_past_def\<close>)
  qed (use assms in \<open>simp_all add: not_past_def\<close>)
qed

lemma due_later: "due now ev q d \<Longrightarrow> now \<le> now' \<Longrightarrow> due now' ev q d"
  by (auto simp: due_def split: list.splits option.splits)

lemma oc_awake_later: "oc_awake now s \<Longrightarrow> now \<le> now' \<Longrightarrow> oc_awake now' s"
  by (simp add: oc_awake_def due_later [of now _ _ _ now'])

lemma oc_awake_step:
  assumes times: "oc_times s" and awake: "oc_awake now s" and le: "now \<le> ev_time e" and past: "not_past (ev_time e) s"
    and ok: "0 \<le> ev_time e" "ev_ok e s" and step: "oc_step e s = Some s'"
  shows "oc_awake (ev_time e) s' \<and> not_past (ev_time e) s'"
proof -
  have times': "oc_times s'" by (rule oc_times_step [OF times ok step])
  have sched: ?thesis if "s' = oc_schedule (ev_time e) u" "not_past (ev_time e) u" for u
    using that not_past_schedule oc_schedule_awake [of u] times' by simp
  show ?thesis
  proof (cases e)
    case (Master_req t fr r b)
    show ?thesis
    proof (cases rule: in_req_cases [of t fr r b s])
      case (taken bs)
      have "snd (oc_in_req t fr r b s) = s'" using step by (simp add: Master_req)
      then have "s' = oc_schedule (ev_time e) (s\<lparr>oc_beats := bs, oc_req_queue := (oc_req_queue s)(channel_of b :=
         oc_req_queue s (channel_of b) @ [\<lparr>a_up = r, a_down = down_of fr r b, a_channel = channel_of b, a_ready = t + 1\<rparr>])\<rparr>)"
        unfolding taken(3) by (simp add: Master_req)
      from sched [OF this] past show ?thesis by (simp add: not_past_def)
    next
      case refused
      have "snd (oc_in_req t fr r b s) = s'" using step by (simp add: Master_req)
      from this [symmetric] show ?thesis
        using past oc_awake_later [OF awake le] unfolding refused(3) by (simp add: oc_awake_def not_past_def)
    next
      case (invalid bs)
      have "snd (oc_in_req t fr r b s) = s'" using step by (simp add: Master_req)
      from this [symmetric] show ?thesis
        using past oc_awake_later [OF awake le] unfolding invalid(2) by (simp add: oc_awake_def not_past_def)
    qed
  next
    case (Slave_resp t d st)
    then have "oc_out_resp t d st s = Some s'" using step by simp
    then obtain u where "s' = oc_schedule t u" "oc_event u = oc_event s"
      unfolding oc_out_resp_def oc_respond_def Let_def by (fastforce split: option.splits)
    then show ?thesis using sched [of u] past by (simp add: Slave_resp not_past_def)
  next
    case (Slave_retry t c answer)
    let ?one = "\<lambda>ch s. if (c = None \<or> c = Some ch) \<and> oc_down_denied s ch
      then oc_send_down t ch (answer ch) (s\<lparr>oc_down_denied := (oc_down_denied s)(ch := False)\<rparr>) else s"
    have one: "not_past t (?one ch s)" if "not_past t s" for ch s
      using not_past_send(2) [of t "s\<lparr>oc_down_denied := (oc_down_denied s)(ch := False)\<rparr>" t ch "answer ch"] that by (simp add: not_past_def)
    have "s' = oc_schedule t (?one CH_WRITE (?one CH_READ s))" using step by (simp add: Slave_retry oc_out_retry_def Let_def)
    moreover have "not_past t (?one CH_WRITE (?one CH_READ s))" using past by (intro one) (simp add: Slave_retry)
    ultimately show ?thesis using sched by (simp only: Slave_retry ev_time.simps)
  next
    case (Master_retry t c accepted)
    let ?one = "\<lambda>ch s. if (c = None \<or> c = Some ch) \<and> oc_up_denied s ch
      then oc_send_up t ch (accepted ch) (s\<lparr>oc_up_denied := (oc_up_denied s)(ch := False)\<rparr>) else s"
    have one: "not_past t (?one ch s)" if "not_past t s" for ch s
      using not_past_send(1) [of t "s\<lparr>oc_up_denied := (oc_up_denied s)(ch := False)\<rparr>" t ch "accepted ch"] that by (simp add: not_past_def)
    have "s' = oc_schedule t (?one CH_WRITE (?one CH_READ s))" using step by (simp add: Master_retry oc_in_resp_retry_def Let_def)
    moreover have "not_past t (?one CH_WRITE (?one CH_READ s))" using past by (intro one) (simp add: Master_retry)
    ultimately show ?thesis using sched by (simp only: Master_retry ev_time.simps)
  next
    case (Turn t answer accepted)
    let ?one = "\<lambda>ch s. oc_send_down t ch (answer ch) (oc_send_up t ch (accepted ch) s)"
    have "s' = oc_schedule t (?one CH_WRITE (?one CH_READ (s\<lparr>oc_event := None\<rparr>)))"
      using step by (simp add: Turn oc_fsm_handler_def Let_def)
    moreover have "not_past t (?one CH_WRITE (?one CH_READ (s\<lparr>oc_event := None\<rparr>)))"
      by (intro not_past_send) (simp_all add: not_past_def)
    ultimately show ?thesis using sched by (simp only: Turn ev_time.simps)
  qed
qed

text \<open>
  C27. The cut never sleeps with work to do. In every run of events in the order of time, whatever is denied
  and retried, when the request at the head of a queue was not denied by the slave, or the response at
  the head of a queue not denied by the master, a turn of the state machine is enqueued: not in the
  past, and for the next cycle or, if that is later, no later than the cycle the head is ready.
\<close>

theorem obi_cut_no_lost_turn:
  assumes "oc_idle s" and "0 \<le> oc_resp_latency s" and "oc_run es s = Some s'" and "oc_timed 0 es s"
    and "now = (if es = [] then 0 else ev_time (last es))"
    and "(\<exists>q. oc_req_queue s' ch = a # q \<and> \<not> oc_down_denied s' ch \<and> t = a_ready a)
      \<or> (\<exists>b q. oc_resp_queue s' ch = b # q \<and> \<not> oc_up_denied s' ch \<and> t = a_ready b)"
  shows "\<exists>e. oc_event s' = Some e \<and> now \<le> e \<and> e \<le> max (now + 1) t"
proof -
  have run: "oc_awake (if es = [] then n else ev_time (last es)) s' \<and> not_past (if es = [] then n else ev_time (last es)) s'"
    if "oc_run es u = Some s'" "oc_timed n es u" "oc_times u" "oc_awake n u" "not_past n u" "0 \<le> n" for n u
    using that
  proof (induction es arbitrary: n u)
    case (Cons e es)
    obtain v where v: "oc_step e u = Some v" using Cons.prems(1) by (auto split: option.splits)
    have e: "n \<le> ev_time e" "not_past (ev_time e) u" "ev_ok e u" "oc_timed (ev_time e) es v"
      using Cons.prems(2) v by (auto simp: not_past_def split: option.splits)
    then have "oc_awake (ev_time e) v \<and> not_past (ev_time e) v" "oc_times v"
      using oc_awake_step [OF Cons.prems(3,4) _ _ _ _ v] oc_times_step [OF Cons.prems(3) _ _ v] Cons.prems(6) by simp_all
    then show ?case using Cons.IH [of v "ev_time e"] Cons.prems(1,6) e v by (cases "es = []") simp_all
  qed simp
  have "oc_times s" "oc_awake 0 s" "not_past 0 s"
    using assms(1,2) by (simp_all add: oc_idle_def oc_times_def oc_awake_def due_def not_past_def)
  from run [OF assms(3,4) this] have "oc_awake now s'" "not_past now s'" by (simp_all add: assms(5))
  moreover from this(1) have "due now (oc_event s') (oc_req_queue s' ch) (oc_down_denied s' ch)"
      "due now (oc_event s') (oc_resp_queue s' ch) (oc_up_denied s' ch)"
    unfolding oc_awake_def by blast+
  ultimately show ?thesis using assms(6) by (auto simp: due_def not_past_def split: option.splits)
qed

lemma obi_example_ready:
  "map_option (\<lambda>s. (map a_ready (oc_resp_queue s CH_READ), oc_up_denied s CH_READ)) (oc_run obi_events obi_example) = Some ([4], False)"
  by code_simp

theorem obi_cut_no_lost_turn_witness:
  "\<exists>s' e. oc_run obi_events obi_example = Some s' \<and> oc_event s' = Some e \<and> 3 \<le> e \<and> e \<le> 4"
proof -
  have timed: "oc_timed 0 obi_events obi_example" by code_simp
  have now: "3 = (if obi_events = [] then 0 else ev_time (last obi_events))" by (simp add: obi_events_def)
  from obi_example_ready obtain s' where r: "oc_run obi_events obi_example = Some s'"
      and p: "(map a_ready (oc_resp_queue s' CH_READ), oc_up_denied s' CH_READ) = ([4], False)"
    unfolding map_option_eq_Some by (elim exE conjE)
  from p have "\<exists>b q. oc_resp_queue s' CH_READ = b # q \<and> \<not> oc_up_denied s' CH_READ \<and> 4 = a_ready b" by auto
  from obi_cut_no_lost_turn [OF obi_example_idle _ r timed now disjI2, OF _ this] r show ?thesis
    by (simp add: obi_example_def)
qed

end
