(* ===== verification/Obi_Cut_Delay.thy ===== *)
theory Obi_Cut_Delay
  imports Obi_Cut_Timing
begin

section \<open>The cut as a delay line\<close>

text \<open>
  A calm environment: at most one request per channel and cycle, a slave that answers at once, a master
  that takes every response. In a cycle the state machine runs first, when it is enqueued for it.
\<close>

type_synonym arrivals = "nat \<Rightarrow> channel \<Rightarrow> (nat \<times> nat \<times> beat) option"

definition arrive :: "int \<Rightarrow> (nat \<times> nat \<times> beat) option \<Rightarrow> obi_cut \<Rightarrow> obi_cut" where
  "arrive now x s = (case x of None \<Rightarrow> s | Some (fresh, r, b) \<Rightarrow> snd (oc_in_req now fresh r b s))"

definition calm_turn :: "(nat \<Rightarrow> channel \<Rightarrow> resp_status) \<Rightarrow> nat \<Rightarrow> obi_cut \<Rightarrow> obi_cut" where
  "calm_turn st n s = (if oc_event s = Some (int n)
     then oc_fsm_handler (int n) (\<lambda>ch. Slave_done 0 (st n ch)) (\<lambda>_. True) s else s)"

fun oc_calm :: "(nat \<Rightarrow> channel \<Rightarrow> resp_status) \<Rightarrow> arrivals \<Rightarrow> nat \<Rightarrow> obi_cut \<Rightarrow> obi_cut" where
  "oc_calm st arr 0 s = s"
| "oc_calm st arr (Suc n) s =
     arrive (int n) (arr n CH_WRITE) (arrive (int n) (arr n CH_READ) (calm_turn st n (oc_calm st arr n s)))"

definition arr_ids :: "arrivals \<Rightarrow> nat \<Rightarrow> channel \<Rightarrow> nat list" where
  "arr_ids arr n ch = (case arr n ch of None \<Rightarrow> [] | Some (fresh, r, b) \<Rightarrow> [down_of fresh r b])"

definition arrivals_ok :: "int \<Rightarrow> arrivals \<Rightarrow> bool" where
  "arrivals_ok w arr \<longleftrightarrow> (\<forall>n ch fresh r b. arr n ch = Some (fresh, r, b) \<longrightarrow>
     channel_of b = ch \<and> bt_is_first b \<and> bt_is_last b \<and> bt_size b \<le> of_int w)"

text \<open>What reaches the slave and the master, with the cycle.\<close>

definition out_log :: "channel \<Rightarrow> obi_cut \<Rightarrow> (int \<times> nat) list" where
  "out_log ch s = concat (map (\<lambda>(t, c). case c of Out_req ch' d True \<Rightarrow> if ch' = ch then [(t, d)] else [] | _ \<Rightarrow> []) (oc_calls s))"

definition in_log :: "channel \<Rightarrow> obi_cut \<Rightarrow> (int \<times> nat) list" where
  "in_log ch s = concat (map (\<lambda>(t, c). case c of In_resp ch' r True \<Rightarrow> if ch' = ch then [(t, resp_id r)] else [] | _ \<Rightarrow> []) (oc_calls s))"

definition req_obs :: "channel \<Rightarrow> obi_cut \<Rightarrow> (nat \<times> int) list" where
  "req_obs ch s = map (\<lambda>a. (a_down a, a_ready a)) (oc_req_queue s ch)"

definition resp_obs :: "channel \<Rightarrow> obi_cut \<Rightarrow> (nat \<times> int) list" where
  "resp_obs ch s = map (\<lambda>a. (resp_id (a_down a), a_ready a)) (oc_resp_queue s ch)"

lemmas delay_defs = out_log_def in_log_def req_obs_def resp_obs_def

text \<open>Everything observed of one channel.\<close>

definition chan_obs :: "channel \<Rightarrow> obi_cut \<Rightarrow> (int \<times> nat) list \<times> (int \<times> nat) list \<times> (nat \<times> int) list \<times> (nat \<times> int) list \<times> bool \<times> bool" where
  "chan_obs ch s = (out_log ch s, in_log ch s, req_obs ch s, resp_obs ch s, oc_down_denied s ch, oc_up_denied s ch)"

lemma chan_obs_schedule [simp]: "chan_obs ch (oc_schedule now s) = chan_obs ch s"
  by (simp add: chan_obs_def delay_defs)

lemma chan_obs_event [simp]: "chan_obs ch (s\<lparr>oc_event := e\<rparr>) = chan_obs ch s"
  by (simp add: chan_obs_def delay_defs)

subsection \<open>One channel in one turn\<close>

lemma send_up_effect:
  assumes "chan_obs ch s = (xs, ys, q, old @ mid, False, False)" "old = [] \<or> (\<exists>d t. old = [(d, t)] \<and> t \<le> now)"
    and "\<forall>(d, t) \<in> set mid. now < t"
  shows "chan_obs ch (oc_send_up now ch True s) = (xs, ys @ map (\<lambda>(d, t). (now, d)) old, q, mid, False, False)"
proof (cases rule: send_up_cases [of now ch True s])
  case idle
  have "old = []"
  proof (rule ccontr)
    assume "old \<noteq> []"
    then obtain a p where "oc_resp_queue s ch = a # p" "a_ready a \<le> now"
      using assms(1,2) by (auto simp: chan_obs_def resp_obs_def map_eq_Cons_conv)
    then have "oc_calls (oc_send_up now ch True s) \<noteq> oc_calls s"
      using assms(1) by (simp add: oc_send_up_def chan_obs_def)
    with idle show False by simp
  qed
  with idle assms(1) show ?thesis by simp
next
  case (sent a rest)
  then obtain d t where "old = [(d, t)]" "d = resp_id (a_down a)" "map (\<lambda>a. (resp_id (a_down a), a_ready a)) rest = mid"
    using assms by (cases old; cases mid) (auto simp: chan_obs_def resp_obs_def)
  with sent(1) assms(1) show ?thesis unfolding sent(5) by (simp add: chan_obs_def delay_defs)
qed simp

definition tagged :: "obi_cut \<Rightarrow> bool" where
  "tagged s \<longleftrightarrow> (\<forall>ch. \<forall>a \<in> set (oc_req_queue s ch). a_channel a = ch)"

lemma send_down_effect:
  assumes "chan_obs ch s = (xs, ys, q, mid, False, False)" "q = [] \<or> (\<exists>d t. q = [(d, t)] \<and> t \<le> now)" "tagged s"
  shows "chan_obs ch (oc_send_down now ch (Slave_done 0 st) s)
    = (xs @ map (\<lambda>(d, t). (now, d)) q, ys, [], mid @ map (\<lambda>(d, t). (d, now + 1 + oc_resp_latency s)) q, False, False)"
proof (cases rule: send_down_cases [of now ch "Slave_done 0 st" s])
  case idle
  have "q = []"
  proof (rule ccontr)
    assume "q \<noteq> []"
    then obtain a p where "oc_req_queue s ch = a # p" "a_ready a \<le> now"
      using assms(1,2) by (auto simp: chan_obs_def req_obs_def map_eq_Cons_conv)
    then have "oc_calls (oc_send_down now ch (Slave_done 0 st) s) \<noteq> oc_calls s"
      using assms(1) by (simp add: oc_send_down_def chan_obs_def Let_def)
    with idle show False by simp
  qed
  with idle assms(1) show ?thesis by simp
next
  case (inline a rest l st')
  have tag: "a_channel a = ch" using assms(3) inline(1) unfolding tagged_def by (metis list.set_intros(1))
  obtain t where q: "q = [(a_down a, t)]" "rest = []"
    using assms(1,2) inline(1) by (auto simp: chan_obs_def req_obs_def)
  have "oc_calls (oc_pop now ch a rest s) = oc_calls s @ (now, Out_req ch (a_down a) True) # (if oc_in_denied s ch then [(now, In_retry ch)] else [])"
    by (simp add: oc_pop_def Let_def)
  then show ?thesis using assms(1) inline(2) q tag unfolding inline(5) by (simp add: chan_obs_def delay_defs)
qed simp_all

lemma send_other:
  assumes "ch' \<noteq> ch"
  shows "chan_obs ch' (oc_send_up now ch accepted s) = chan_obs ch' s"
    and "tagged s \<Longrightarrow> chan_obs ch' (oc_send_down now ch answer s) = chan_obs ch' s"
proof -
  show "chan_obs ch' (oc_send_up now ch accepted s) = chan_obs ch' s"
    by (cases rule: send_up_cases [of now ch accepted s]) (use assms in \<open>simp_all add: chan_obs_def delay_defs\<close>)
  assume tagged: "tagged s"
  have pop: "oc_calls (oc_pop now ch a rest s) = oc_calls s @ (now, Out_req ch (a_down a) True) # (if oc_in_denied s ch then [(now, In_retry ch)] else [])" for a rest
    by (simp add: oc_pop_def Let_def)
  show "chan_obs ch' (oc_send_down now ch answer s) = chan_obs ch' s"
  proof (cases rule: send_down_cases [of now ch answer s])
    case (inline a rest l st)
    have "a_channel a = ch" using tagged inline(1) unfolding tagged_def by (metis list.set_intros(1))
    then show ?thesis unfolding inline(5) using assms by (simp add: chan_obs_def delay_defs pop)
  qed (use assms in \<open>simp_all add: chan_obs_def delay_defs pop\<close>)
qed

lemma cut_send_keeps:
  "tagged s \<Longrightarrow> tagged (oc_send_up now ch accepted s)" "oc_resp_latency (oc_send_up now ch accepted s) = oc_resp_latency s"
  "tagged s \<Longrightarrow> tagged (oc_send_down now ch answer s)" "oc_resp_latency (oc_send_down now ch answer s) = oc_resp_latency s"
proof -
  show "tagged s \<Longrightarrow> tagged (oc_send_up now ch accepted s)" "oc_resp_latency (oc_send_up now ch accepted s) = oc_resp_latency s"
    by (cases rule: send_up_cases [of now ch accepted s]; simp add: tagged_def)+
  show "oc_resp_latency (oc_send_down now ch answer s) = oc_resp_latency s"
    by (cases rule: send_down_cases [of now ch answer s]) simp_all
  assume t: "tagged s"
  show "tagged (oc_send_down now ch answer s)"
  proof (cases rule: send_down_cases [of now ch answer s])
    case (granted a rest)
    have "\<forall>b \<in> set rest. a_channel b = ch" using t granted(1) unfolding tagged_def by (metis list.set_intros(2))
    then show ?thesis using t unfolding granted(5) tagged_def by simp
  next
    case (inline a rest l st)
    have "\<forall>b \<in> set rest. a_channel b = ch" using t inline(1) unfolding tagged_def by (metis list.set_intros(2))
    then show ?thesis using t unfolding inline(5) tagged_def by simp
  qed (use t in \<open>simp_all add: tagged_def\<close>)
qed

text \<open>What a turn does to a channel.\<close>

definition turn_obs :: "int \<Rightarrow> int \<Rightarrow> (nat \<times> int) list \<Rightarrow> (int \<times> nat) list \<times> (int \<times> nat) list \<times> (nat \<times> int) list \<times> (nat \<times> int) list \<times> bool \<times> bool
    \<Rightarrow> (int \<times> nat) list \<times> (int \<times> nat) list \<times> (nat \<times> int) list \<times> (nat \<times> int) list \<times> bool \<times> bool" where
  "turn_obs now lat old = (\<lambda>(xs, ys, q, r, d, u). (xs @ map (\<lambda>(i, t). (now, i)) q, ys @ map (\<lambda>(i, t). (now, i)) old, [],
     drop (length old) r @ map (\<lambda>(i, t). (i, now + 1 + lat)) q, d, u))"

definition cut_settled :: "int \<Rightarrow> channel \<Rightarrow> obi_cut \<Rightarrow> (nat \<times> int) list \<Rightarrow> bool" where
  "cut_settled now ch s old \<longleftrightarrow> (\<exists>xs ys q mid. chan_obs ch s = (xs, ys, q, old @ mid, False, False)
     \<and> (q = [] \<or> (\<exists>d t. q = [(d, t)] \<and> t \<le> now)) \<and> (old = [] \<or> (\<exists>d t. old = [(d, t)] \<and> t \<le> now)) \<and> (\<forall>(d, t) \<in> set mid. now < t))"

lemma one_effect:
  assumes "cut_settled now ch s old" "tagged s"
  shows "chan_obs ch (oc_send_down now ch (Slave_done 0 st) (oc_send_up now ch True s)) = turn_obs now (oc_resp_latency s) old (chan_obs ch s)"
proof -
  obtain xs ys q mid where o: "chan_obs ch s = (xs, ys, q, old @ mid, False, False)"
      and q: "q = [] \<or> (\<exists>d t. q = [(d, t)] \<and> t \<le> now)" and old: "old = [] \<or> (\<exists>d t. old = [(d, t)] \<and> t \<le> now)"
      and mid: "\<forall>(d, t) \<in> set mid. now < t"
    using assms(1) unfolding cut_settled_def by blast
  show ?thesis
    using send_down_effect [OF send_up_effect [OF o old mid] q cut_send_keeps(1) [OF assms(2)]] by (simp add: o turn_obs_def cut_send_keeps(2))
qed

lemma cut_handler_effect:
  assumes "cut_settled now CH_READ s o1" "cut_settled now CH_WRITE s o2" "tagged s"
  shows "chan_obs CH_READ (oc_fsm_handler now (\<lambda>ch. Slave_done 0 (st ch)) (\<lambda>_. True) s) = turn_obs now (oc_resp_latency s) o1 (chan_obs CH_READ s)"
    and "chan_obs CH_WRITE (oc_fsm_handler now (\<lambda>ch. Slave_done 0 (st ch)) (\<lambda>_. True) s) = turn_obs now (oc_resp_latency s) o2 (chan_obs CH_WRITE s)"
    and "tagged (oc_fsm_handler now (\<lambda>ch. Slave_done 0 (st ch)) (\<lambda>_. True) s)"
    and "oc_resp_latency (oc_fsm_handler now (\<lambda>ch. Slave_done 0 (st ch)) (\<lambda>_. True) s) = oc_resp_latency s"
proof -
  let ?s = "s\<lparr>oc_event := None\<rparr>" and ?one = "\<lambda>ch s. oc_send_down now ch (Slave_done 0 (st ch)) (oc_send_up now ch True s)"
  let ?s1 = "?one CH_READ ?s"
  have h: "oc_fsm_handler now (\<lambda>ch. Slave_done 0 (st ch)) (\<lambda>_. True) s = oc_schedule now (?one CH_WRITE ?s1)"
    by (simp add: oc_fsm_handler_def Let_def)
  have tag: "tagged ?s" using assms(3) by (simp add: tagged_def)
  have tag1: "tagged ?s1" by (intro cut_send_keeps tag)
  have other: "chan_obs CH_WRITE ?s1 = chan_obs CH_WRITE s" "chan_obs CH_READ (?one CH_WRITE ?s1) = chan_obs CH_READ ?s1"
    using send_other [of CH_WRITE CH_READ] send_other [of CH_READ CH_WRITE] tag tag1 cut_send_keeps(1) by simp_all
  have "cut_settled now CH_READ ?s o1" "cut_settled now CH_WRITE ?s1 o2" using assms(1,2) other by (simp_all add: cut_settled_def)
  note one_effect [OF this(1) tag, of "st CH_READ"] one_effect [OF this(2) tag1, of "st CH_WRITE"]
  then show "chan_obs CH_READ (oc_fsm_handler now (\<lambda>ch. Slave_done 0 (st ch)) (\<lambda>_. True) s) = turn_obs now (oc_resp_latency s) o1 (chan_obs CH_READ s)"
      "chan_obs CH_WRITE (oc_fsm_handler now (\<lambda>ch. Slave_done 0 (st ch)) (\<lambda>_. True) s) = turn_obs now (oc_resp_latency s) o2 (chan_obs CH_WRITE s)"
    unfolding h by (simp_all add: other cut_send_keeps)
  have "tagged (?one CH_WRITE ?s1)" by (intro cut_send_keeps tag1)
  then show "tagged (oc_fsm_handler now (\<lambda>ch. Slave_done 0 (st ch)) (\<lambda>_. True) s)" unfolding h by (simp add: tagged_def)
  show "oc_resp_latency (oc_fsm_handler now (\<lambda>ch. Slave_done 0 (st ch)) (\<lambda>_. True) s) = oc_resp_latency s"
    unfolding h by (simp add: cut_send_keeps)
qed

lemma handler_width: "oc_width (oc_fsm_handler now answer accepted s) = oc_width s"
proof -
  have "oc_width (oc_send_up now ch x u) = oc_width u" for ch x u
    by (cases rule: send_up_cases [of now ch x u]) (simp_all add: oc_clear_latency_def split: response.split)
  moreover have "oc_width (oc_send_down now ch x u) = oc_width u" for ch x u
    by (cases rule: send_down_cases [of now ch x u]) simp_all
  ultimately show ?thesis by (simp add: oc_fsm_handler_def Let_def)
qed

subsection \<open>A request that arrives\<close>

lemma arrive_effect:
  assumes "\<And>fresh r b. x = Some (fresh, r, b) \<Longrightarrow> channel_of b = ch \<and> bt_is_first b \<and> bt_is_last b \<and> bt_size b \<le> of_int (oc_width s)"
    and "chan_obs ch s = (xs, ys, [], r, False, False)" and "tagged s"
  shows "(chan_obs ch (arrive now x s)
        = (xs, ys, map (\<lambda>d. (d, now + 1)) (case x of None \<Rightarrow> [] | Some (fresh, r, b) \<Rightarrow> [down_of fresh r b]), r, False, False))
      \<and> (ch' \<noteq> ch \<longrightarrow> chan_obs ch' (arrive now x s) = chan_obs ch' s)
      \<and> tagged (arrive now x s) \<and> oc_resp_latency (arrive now x s) = oc_resp_latency s \<and> oc_width (arrive now x s) = oc_width s
      \<and> (oc_times s \<longrightarrow> 0 \<le> now \<longrightarrow> oc_awake now s \<longrightarrow> not_past (now + 1) s \<longrightarrow>
          oc_times (arrive now x s) \<and> oc_awake now (arrive now x s) \<and> not_past (now + 1) (arrive now x s))"
proof (cases x)
  case None
  then show ?thesis
    using assms(2,3) by (simp add: arrive_def)
next
  case (Some y)
  obtain fr i b where y: "y = (fr, i, b)" by (cases y)
  have ok: "channel_of b = ch" "bt_is_first b" "bt_is_last b" "bt_size b \<le> of_int (oc_width s)"
    using assms(1) [of fr i b] Some y by simp_all
  have empty: "oc_req_queue s ch = []" using assms(2) by (simp add: chan_obs_def req_obs_def)
  obtain bs where "snd (oc_in_req now fr i b s) = oc_schedule now (s\<lparr>oc_beats := bs, oc_req_queue := (oc_req_queue s)(ch :=
      [\<lparr>a_up = i, a_down = down_of fr i b, a_channel = ch, a_ready = now + 1\<rparr>])\<rparr>)"
  proof (cases rule: in_req_cases [of now fr i b s])
    case refused
    then show ?thesis using empty ok(1) by (simp add: OBI_CUT_DEPTH_def)
  next
    case (invalid bs)
    then show ?thesis using ok empty by (simp add: oc_in_req_def Let_def OBI_CUT_DEPTH_def split: if_splits)
  next
    case (taken bs)
    then show ?thesis using that [of bs] empty ok(1) by simp
  qed
  then have a: "arrive now x s = oc_schedule now (s\<lparr>oc_beats := bs, oc_req_queue := (oc_req_queue s)(ch :=
      [\<lparr>a_up = i, a_down = down_of fr i b, a_channel = ch, a_ready = now + 1\<rparr>])\<rparr>)" (is "_ = oc_schedule now ?u")
    by (simp add: arrive_def Some y)
  have "chan_obs ch ?u = (xs, ys, [(down_of fr i b, now + 1)], r, False, False)"
    using assms(2) by (simp add: chan_obs_def delay_defs)
  moreover have "chan_obs ch' ?u = chan_obs ch' s" if "ch' \<noteq> ch"
    using that by (simp add: chan_obs_def delay_defs)
  moreover have "tagged ?u" using assms(3) by (simp add: tagged_def)
  moreover have "oc_times ?u" if "oc_times s" "0 \<le> now" using that by (simp add: oc_times_def)
  moreover have "not_past (now + 1) ?u" if "not_past (now + 1) s" using that by (simp add: not_past_def)
  ultimately show ?thesis
    unfolding a using not_past_schedule [of "now + 1" ?u now] oc_schedule_awake [of ?u now]
    by (simp add: Some y tagged_def)
qed

subsection \<open>The contents after n cycles\<close>

definition windowed :: "(nat \<Rightarrow> 'a list) \<Rightarrow> nat \<Rightarrow> nat \<Rightarrow> 'a list" where
  "windowed f i j = concat (map f [i..<j])"

lemma windowed_last: "i \<le> j \<Longrightarrow> windowed f i (Suc j) = windowed f i j @ f j"
  by (simp add: windowed_def)

lemma windowed_first: "i < j \<Longrightarrow> windowed f i j = f i @ windowed f (Suc i) j"
  by (simp add: windowed_def upt_rec)

definition cut_obs :: "arrivals \<Rightarrow> nat \<Rightarrow> nat \<Rightarrow> channel \<Rightarrow> (int \<times> nat) list \<times> (int \<times> nat) list \<times> (nat \<times> int) list \<times> (nat \<times> int) list \<times> bool \<times> bool" where
  "cut_obs arr lat n ch =
     (windowed (\<lambda>u. map (Pair (int u + 1)) (arr_ids arr u ch)) 0 (n - 1),
      windowed (\<lambda>u. map (Pair (int u + 2 + int lat)) (arr_ids arr u ch)) 0 (n - 2 - lat),
      (if n = 0 then [] else map (\<lambda>d. (d, int n)) (arr_ids arr (n - 1) ch)),
      windowed (\<lambda>u. map (\<lambda>d. (d, int u + 2 + int lat)) (arr_ids arr u ch)) (n - 2 - lat) (n - 1), False, False)"

definition leaving :: "arrivals \<Rightarrow> nat \<Rightarrow> nat \<Rightarrow> channel \<Rightarrow> (nat \<times> int) list" where
  "leaving arr lat n ch = (if 2 + lat \<le> n then map (\<lambda>d. (d, int n)) (arr_ids arr (n - 2 - lat) ch) else [])"

lemma arr_ids_cases: "arr_ids arr n ch = [] \<or> (\<exists>d. arr_ids arr n ch = [d])"
  by (auto simp: arr_ids_def split: option.splits)

lemma cut_obs_settled:
  assumes "chan_obs ch s = cut_obs arr lat n ch"
  shows "cut_settled (int n) ch s (leaving arr lat n ch)"
    and "turn_obs (int n) (int lat) (leaving arr lat n ch) (cut_obs arr lat n ch)
      = (case cut_obs arr lat (Suc n) ch of (xs, ys, q, r, d, u) \<Rightarrow> (xs, ys, [], r, d, u))"
proof -
  let ?f = "\<lambda>u. map (\<lambda>d. (d, int u + 2 + int lat)) (arr_ids arr u ch)"
  define mid where "mid = windowed ?f (Suc n - 2 - lat) (n - 1)"
  have win: "windowed ?f (n - 2 - lat) (n - 1) = leaving arr lat n ch @ mid"
  proof (cases "2 + lat \<le> n")
    case True
    then have "n - 2 - lat < n - 1" "Suc n - 2 - lat = Suc (n - 2 - lat)" "int (n - 2 - lat) + 2 + int lat = int n" by auto
    then show ?thesis using True by (simp add: mid_def leaving_def windowed_first)
  next
    case False
    then have "n - 2 - lat = 0" "Suc n - 2 - lat = 0" by auto
    then show ?thesis using False by (simp add: mid_def leaving_def)
  qed
  have "int n < int u + 2 + int lat" if "u \<ge> Suc n - 2 - lat" for u using that by linarith
  then have later: "\<forall>(d, t) \<in> set mid. int n < t" by (auto simp: mid_def windowed_def)
  have q: "(if n = 0 then [] else map (\<lambda>d. (d, int n)) (arr_ids arr (n - 1) ch)) = []
      \<or> (\<exists>d t. (if n = 0 then [] else map (\<lambda>d. (d, int n)) (arr_ids arr (n - 1) ch)) = [(d, t)] \<and> t \<le> int n)"
    using arr_ids_cases [of arr "n - 1" ch] by auto
  have old: "leaving arr lat n ch = [] \<or> (\<exists>d t. leaving arr lat n ch = [(d, t)] \<and> t \<le> int n)"
    using arr_ids_cases [of arr "n - 2 - lat" ch] by (auto simp: leaving_def)
  show "cut_settled (int n) ch s (leaving arr lat n ch)"
    unfolding cut_settled_def assms cut_obs_def win using later q old by blast
  have new: "windowed ?f (Suc n - 2 - lat) (Suc n - 1) = mid @ (if n = 0 then [] else map (\<lambda>d. (d, int n + 1 + int lat)) (arr_ids arr (n - 1) ch))"
  proof (cases n)
    case (Suc m)
    then show ?thesis by (simp add: mid_def windowed_last)
  qed (simp add: mid_def windowed_def)
  have outs: "windowed (\<lambda>u. map (Pair (int u + 1)) (arr_ids arr u ch)) 0 (Suc n - 1)
      = windowed (\<lambda>u. map (Pair (int u + 1)) (arr_ids arr u ch)) 0 (n - 1) @ (if n = 0 then [] else map (Pair (int n)) (arr_ids arr (n - 1) ch))"
    by (cases n) (simp_all add: windowed_last windowed_def)
  have ins: "windowed (\<lambda>u. map (Pair (int u + 2 + int lat)) (arr_ids arr u ch)) 0 (Suc n - 2 - lat)
      = windowed (\<lambda>u. map (Pair (int u + 2 + int lat)) (arr_ids arr u ch)) 0 (n - 2 - lat) @ map (\<lambda>(i, t). (int n, i)) (leaving arr lat n ch)"
  proof (cases "2 + lat \<le> n")
    case True
    then have "Suc n - 2 - lat = Suc (n - 2 - lat)" "int (n - 2 - lat) + 2 + int lat = int n" by auto
    then show ?thesis using True by (simp add: leaving_def windowed_last comp_def)
  next
    case False
    then have "n - 2 - lat = 0" "Suc n - 2 - lat = 0" by auto
    then show ?thesis using False by (simp add: leaving_def)
  qed
  show "turn_obs (int n) (int lat) (leaving arr lat n ch) (cut_obs arr lat n ch)
      = (case cut_obs arr lat (Suc n) ch of (xs, ys, q, r, d, u) \<Rightarrow> (xs, ys, [], r, d, u))"
    unfolding turn_obs_def cut_obs_def win new outs ins by (simp add: comp_def)
qed

definition calm_inv :: "arrivals \<Rightarrow> nat \<Rightarrow> int \<Rightarrow> nat \<Rightarrow> obi_cut \<Rightarrow> bool" where
  "calm_inv arr lat w n s \<longleftrightarrow> (\<forall>ch. chan_obs ch s = cut_obs arr lat n ch) \<and> tagged s \<and> oc_resp_latency s = int lat \<and> oc_width s = w
     \<and> oc_times s \<and> oc_awake (int n - 1) s \<and> not_past (int n) s"

text \<open>A turn that is not due would change nothing.\<close>

lemma due_now:
  assumes "due (int n - 1) (oc_event s) q False" "not_past (int n) s" "oc_event s \<noteq> Some (int n)" "q = a # p"
  shows "int n < a_ready a"
  using assms by (auto simp: due_def not_past_def split: option.splits)

lemma calm_turn_effect:
  assumes inv: "calm_inv arr lat w n s"
  shows "chan_obs ch (calm_turn st n s) = turn_obs (int n) (int lat) (leaving arr lat n ch) (chan_obs ch s)"
    and "tagged (calm_turn st n s)" and "oc_resp_latency (calm_turn st n s) = int lat" and "oc_width (calm_turn st n s) = w"
    and "oc_times (calm_turn st n s)" and "oc_awake (int n) (calm_turn st n s)" and "not_past (int n + 1) (calm_turn st n s)"
proof -
  have obs: "\<And>ch. chan_obs ch s = cut_obs arr lat n ch" and tag: "tagged s" and keep: "oc_resp_latency s = int lat" "oc_width s = w"
    and times: "oc_times s" and awake: "oc_awake (int n - 1) s" and past: "not_past (int n) s"
    using inv unfolding calm_inv_def by blast+
  have "chan_obs ch (calm_turn st n s) = turn_obs (int n) (int lat) (leaving arr lat n ch) (chan_obs ch s) \<and> tagged (calm_turn st n s)
      \<and> oc_resp_latency (calm_turn st n s) = int lat \<and> oc_width (calm_turn st n s) = w
      \<and> oc_times (calm_turn st n s) \<and> oc_awake (int n) (calm_turn st n s) \<and> not_past (int n + 1) (calm_turn st n s)"
  proof (cases "oc_event s = Some (int n)")
    case True
    let ?h = "oc_fsm_handler (int n) (\<lambda>ch. Slave_done 0 (st n ch)) (\<lambda>_. True) s"
    have step: "oc_step (Turn (int n) (\<lambda>ch. Slave_done 0 (st n ch)) (\<lambda>_. True)) s = Some ?h" by simp
    have ok: "ev_ok (Turn (int n) (\<lambda>ch. Slave_done 0 (st n ch)) (\<lambda>_. True)) s" by (simp add: True all_patient_def patient_def)
    have "oc_times ?h" by (rule oc_times_step [OF times _ ok step]) simp
    moreover have "oc_awake (int n) ?h" using oc_awake_step [OF times awake _ _ _ ok step] past by simp
    moreover have "not_past (int n + 1) ?h" unfolding oc_fsm_handler_def Let_def
      by (intro not_past_schedule not_past_send) (simp_all add: not_past_def)
    moreover note cut_handler_effect [OF cut_obs_settled(1) [OF obs] cut_obs_settled(1) [OF obs] tag, of "st n"]
    ultimately show ?thesis using True handler_width by (cases ch) (simp_all add: calm_turn_def keep)
  next
    case False
    have "oc_req_queue s ch = [] \<and> leaving arr lat n ch = []"
    proof -
      have flags: "\<not> oc_down_denied s ch" "\<not> oc_up_denied s ch" using obs [of ch] by (simp_all add: chan_obs_def cut_obs_def)
      have d: "due (int n - 1) (oc_event s) (oc_req_queue s ch) False" "due (int n - 1) (oc_event s) (oc_resp_queue s ch) False"
        using awake flags unfolding oc_awake_def by (metis (full_types))+
      obtain xs ys q mid where o: "chan_obs ch s = (xs, ys, q, leaving arr lat n ch @ mid, False, False)"
          and q: "q = [] \<or> (\<exists>d t. q = [(d, t)] \<and> t \<le> int n)"
          and old: "leaving arr lat n ch = [] \<or> (\<exists>d t. leaving arr lat n ch = [(d, t)] \<and> t \<le> int n)"
        using cut_obs_settled(1) [OF obs, of ch] unfolding cut_settled_def by blast
      have "oc_req_queue s ch = []"
      proof (cases "oc_req_queue s ch")
        case (Cons a p)
        from due_now [OF d(1) past False Cons] show ?thesis using o q Cons by (auto simp: chan_obs_def req_obs_def)
      qed
      moreover have "leaving arr lat n ch = []"
      proof (cases "oc_resp_queue s ch")
        case Nil
        then show ?thesis using o by (simp add: chan_obs_def resp_obs_def)
      next
        case (Cons a p)
        from due_now [OF d(2) past False Cons] show ?thesis using o old Cons by (auto simp: chan_obs_def resp_obs_def)
      qed
      ultimately show ?thesis ..
    qed
    then have "turn_obs (int n) (int lat) (leaving arr lat n ch) (chan_obs ch s) = chan_obs ch s"
      by (simp add: turn_obs_def chan_obs_def req_obs_def)
    moreover have "not_past (int n + 1) s" using past False by (auto simp: not_past_def split: option.splits)
    moreover have "oc_awake (int n) s" by (rule oc_awake_later [OF awake]) simp
    ultimately show ?thesis using False tag keep times by (simp add: calm_turn_def)
  qed
  then show "chan_obs ch (calm_turn st n s) = turn_obs (int n) (int lat) (leaving arr lat n ch) (chan_obs ch s)" "tagged (calm_turn st n s)"
      "oc_resp_latency (calm_turn st n s) = int lat" "oc_width (calm_turn st n s) = w" "oc_times (calm_turn st n s)"
      "oc_awake (int n) (calm_turn st n s)" "not_past (int n + 1) (calm_turn st n s)"
    by blast+
qed

lemma calm_inv_step:
  assumes inv: "calm_inv arr lat w n s" and ok: "arrivals_ok w arr"
  shows "calm_inv arr lat w (Suc n) (arrive (int n) (arr n CH_WRITE) (arrive (int n) (arr n CH_READ) (calm_turn st n s)))"
proof -
  let ?s1 = "calm_turn st n s"
  let ?s2 = "arrive (int n) (arr n CH_READ) ?s1"
  let ?s3 = "arrive (int n) (arr n CH_WRITE) ?s2"
  note turn = calm_turn_effect(1) [OF inv, of _ st] calm_turn_effect(2-7) [OF inv, of st]
  obtain X where X: "\<And>ch. cut_obs arr lat (Suc n) ch = (fst (X ch), fst (snd (X ch)), map (\<lambda>d. (d, int n + 1)) (arr_ids arr n ch), snd (snd (X ch)), False, False)"
    using that [of "\<lambda>ch. (fst (cut_obs arr lat (Suc n) ch), fst (snd (cut_obs arr lat (Suc n) ch)), fst (snd (snd (snd (cut_obs arr lat (Suc n) ch)))))"]
    by (simp add: cut_obs_def)
  have o1: "chan_obs ch ?s1 = (fst (X ch), fst (snd (X ch)), [], snd (snd (X ch)), False, False)" for ch
    using turn(1) [of ch] cut_obs_settled(2) [of ch s arr lat n] inv unfolding calm_inv_def X by simp
  have valid: "channel_of b = ch \<and> bt_is_first b \<and> bt_is_last b \<and> bt_size b \<le> of_int w" if "arr n ch = Some (fr, r, b)" for ch fr r b
    using ok that unfolding arrivals_ok_def by blast
  have a2: "chan_obs CH_READ ?s2 = cut_obs arr lat (Suc n) CH_READ" "chan_obs CH_WRITE ?s2 = chan_obs CH_WRITE ?s1"
      "tagged ?s2" "oc_resp_latency ?s2 = int lat" "oc_width ?s2 = w"
      "oc_times ?s2 \<and> oc_awake (int n) ?s2 \<and> not_past (int n + 1) ?s2"
    using arrive_effect [of "arr n CH_READ" CH_READ ?s1 _ _ _ "int n" CH_WRITE, OF _ o1 turn(2)] turn(3-7) valid
    by (simp_all add: X arr_ids_def)
  have "chan_obs CH_WRITE ?s2 = (fst (X CH_WRITE), fst (snd (X CH_WRITE)), [], snd (snd (X CH_WRITE)), False, False)"
    using a2(2) o1 by simp
  from arrive_effect [of "arr n CH_WRITE" CH_WRITE ?s2 _ _ _ "int n" CH_READ, OF _ this a2(3)] a2 valid
  have a3: "chan_obs CH_WRITE ?s3 = cut_obs arr lat (Suc n) CH_WRITE" "chan_obs CH_READ ?s3 = cut_obs arr lat (Suc n) CH_READ"
      "tagged ?s3" "oc_resp_latency ?s3 = int lat" "oc_width ?s3 = w" "oc_times ?s3 \<and> oc_awake (int n) ?s3 \<and> not_past (int n + 1) ?s3"
    by (simp_all add: X arr_ids_def)
  have "chan_obs ch ?s3 = cut_obs arr lat (Suc n) ch" for ch using a3(1,2) by (cases ch) simp_all
  then show ?thesis using a3 unfolding calm_inv_def by (simp add: add.commute)
qed

text \<open>
  C26. In a calm environment the cut is a delay line. With at most one request per channel and cycle, a
  slave that answers at once and a master that takes every response, after any number of cycles each
  request of cycle t has reached the slave at t + 1 and its response the master at t + 2 plus the
  latency of the responses, in order and without a gap, whatever the pattern of the requests and the
  traffic of the other channel.
\<close>

theorem obi_cut_delay_line:
  assumes "oc_idle s" and "oc_resp_latency s = int lat" and "arrivals_ok (oc_width s) arr"
  shows "out_log ch (oc_calm st arr n s) = concat (map (\<lambda>u. map (Pair (int u + 1)) (arr_ids arr u ch)) [0..<n - 1])
    \<and> in_log ch (oc_calm st arr n s) = concat (map (\<lambda>u. map (Pair (int u + 2 + int lat)) (arr_ids arr u ch)) [0..<n - 2 - lat])"
proof -
  have "calm_inv arr lat (oc_width s) n (oc_calm st arr n s)"
  proof (induction n)
    case 0
    then show ?case
      using assms(1,2) by (auto simp: calm_inv_def oc_idle_def chan_obs_def delay_defs cut_obs_def windowed_def tagged_def oc_times_def
          oc_awake_def due_def not_past_def)
  next
    case (Suc n)
    then show ?case using calm_inv_step [OF _ assms(3)] by simp
  qed
  then show ?thesis unfolding calm_inv_def chan_obs_def cut_obs_def windowed_def by blast
qed

text \<open>Reads on three cycles running and a write on the second.\<close>

definition obi_arrivals :: arrivals where
  "obi_arrivals n ch = (case ch of CH_READ \<Rightarrow> if n < 3 then Some (10 + n, n, beat_example READ) else None
     | CH_WRITE \<Rightarrow> if n = 1 then Some (20, 5, beat_example WRITE) else None)"

theorem obi_cut_delay_line_witness:
  "out_log CH_READ (oc_calm (\<lambda>_ _. IO_RESP_OK) obi_arrivals 6 obi_example) = [(1, 10), (2, 11), (3, 12)]
    \<and> in_log CH_READ (oc_calm (\<lambda>_ _. IO_RESP_OK) obi_arrivals 6 obi_example) = [(2, 10), (3, 11), (4, 12)]"
proof -
  have ok: "arrivals_ok (oc_width obi_example) obi_arrivals"
    by (auto simp: arrivals_ok_def obi_arrivals_def channel_of_def beat_example_def obi_example_def split: channel.splits if_splits)
  have lat: "oc_resp_latency obi_example = int 0" by (simp add: obi_example_def)
  have logs: "concat (map (\<lambda>u. map (Pair (int u + 1)) (arr_ids obi_arrivals u CH_READ)) [0..<6 - 1]) = [(1, 10), (2, 11), (3, 12)]"
      "concat (map (\<lambda>u. map (Pair (int u + 2 + int 0)) (arr_ids obi_arrivals u CH_READ)) [0..<6 - 2 - 0]) = [(2, 10), (3, 11), (4, 12)]"
    by code_simp+
  from obi_cut_delay_line [OF obi_example_idle lat ok, of CH_READ "\<lambda>_ _. IO_RESP_OK" 6] show ?thesis
    unfolding logs .
qed

subsection \<open>Two requests in a cycle\<close>

text \<open>
  A retry can put two requests of a channel on the slave's port in one cycle. The slave denies a
  read at cycle 1, another is waiting behind it, and at cycle 2 the slave retries before the state
  machine runs: the retry sends the first read, the turn of the same cycle the second. The description
  of the cut says that a channel takes one request per cycle.
\<close>

definition obi_double :: "oc_event list" where
  "obi_double = [Master_req 0 10 1 (beat_example READ), Turn 1 (\<lambda>_. Slave_denied) (\<lambda>_. True),
     Master_req 1 11 2 (beat_example READ), Master_req 1 12 3 (beat_example WRITE),
     Slave_retry 2 (Some CH_READ) (\<lambda>_. Slave_granted), Turn 2 (\<lambda>_. Slave_granted) (\<lambda>_. True)]"

theorem obi_cut_two_in_a_cycle:
  "oc_idle obi_example \<and> oc_timed 0 obi_double obi_example \<and> oc_all_fresh obi_double obi_example
    \<and> map_option (out_log CH_READ) (oc_run obi_double obi_example) = Some [(2, 10), (2, 11)]"
proof -
  have "oc_timed 0 obi_double obi_example" "oc_all_fresh obi_double obi_example"
      "map_option (out_log CH_READ) (oc_run obi_double obi_example) = Some [(2, 10), (2, 11)]"
    by code_simp+
  then show ?thesis using obi_example_idle by simp
qed

end
