(* ===== verification/Interco_Mask.thy ===== *)
theory Interco_Mask
  imports Prelude
begin

section \<open>The bit sets of the TCDM interconnect (\<open>class Mask\<close>)\<close>

text \<open>
  One bit per master or per bank, in words of 64 bits. \<open>mask_first_from\<close> is the round-robin choice: the
  first set bit at or after a position, wrapping around, found word by word; \<open>None\<close> is the -1 of the code.
  A bit position is below the number of bits wherever the code uses one.
\<close>

record bitset =
  m_nb_bits :: nat
  m_words :: "u64 list"

definition mask_resize :: "nat \<Rightarrow> bitset" where
  "mask_resize n = \<lparr>m_nb_bits = n, m_words = replicate ((n + 63) div 64) 0\<rparr>"

definition mask_clear :: "bitset \<Rightarrow> bitset" where
  "mask_clear m = m\<lparr>m_words := replicate (length (m_words m)) 0\<rparr>"

definition mask_set :: "nat \<Rightarrow> bitset \<Rightarrow> bitset" where
  "mask_set i m = m\<lparr>m_words := (m_words m)[i div 64 := m_words m ! (i div 64) OR push_bit (i mod 64) 1]\<rparr>"

definition mask_reset :: "nat \<Rightarrow> bitset \<Rightarrow> bitset" where
  "mask_reset i m = m\<lparr>m_words := (m_words m)[i div 64 := m_words m ! (i div 64) AND NOT (push_bit (i mod 64) 1)]\<rparr>"

definition mask_test :: "bitset \<Rightarrow> nat \<Rightarrow> bool" where
  "mask_test m i = (drop_bit (i mod 64) (m_words m ! (i div 64)) AND 1 \<noteq> 0)"

definition mask_any :: "bitset \<Rightarrow> bool" where
  "mask_any m = list_ex (\<lambda>w. w \<noteq> 0) (m_words m)"

definition mask_intersects :: "bitset \<Rightarrow> bitset \<Rightarrow> bool" where
  "mask_intersects m other = list_ex (\<lambda>i. m_words m ! i AND m_words other ! i \<noteq> 0) [0..<length (m_words m)]"

definition mask_merge :: "bitset \<Rightarrow> bitset \<Rightarrow> bitset" where
  "mask_merge other m = m\<lparr>m_words := map (\<lambda>i. m_words m ! i OR m_words other ! i) [0..<length (m_words m)]\<rparr>"

definition mask_copy :: "bitset \<Rightarrow> bitset \<Rightarrow> bitset" where
  "mask_copy other m = m\<lparr>m_words := m_words other\<rparr>"

definition mask_count :: "bitset \<Rightarrow> nat" where
  "mask_count m = sum_list (map (\<lambda>w. length (filter (bit w) [0..<64])) (m_words m))"

text \<open>The number of trailing zeroes of a word that is not zero.\<close>

definition ctz64 :: "u64 \<Rightarrow> nat" where
  "ctz64 w = length (takeWhile (\<lambda>i. \<not> bit w i) [0..<64])"

text \<open>The loop of \<open>first_from\<close>: \<open>n\<close> rounds left, \<open>i\<close> done.\<close>

fun mask_first_loop :: "bitset \<Rightarrow> nat \<Rightarrow> nat \<Rightarrow> nat \<Rightarrow> nat \<Rightarrow> u64 \<Rightarrow> nat option" where
  "mask_first_loop m from 0 i word_id word = None"
| "mask_first_loop m from (Suc n) i word_id word =
     (let bit = 64 * word_id + ctz64 word
      in if word \<noteq> 0 \<and> bit < m_nb_bits m then Some bit
         else let word_id' = (word_id + 1) mod length (m_words m);
                  word' = m_words m ! word_id';
                  word'' = (if i = length (m_words m) - 1
                            then word' AND (if from mod 64 \<noteq> 0 then NOT (push_bit (from mod 64) (- 1)) else 0)
                            else word')
              in mask_first_loop m from n (i + 1) word_id' word'')"

definition mask_first_from :: "bitset \<Rightarrow> nat \<Rightarrow> nat option" where
  "mask_first_from m from =
     mask_first_loop m from (length (m_words m) + 1) 0 (from div 64) (m_words m ! (from div 64) AND push_bit (from mod 64) (- 1))"

declare mask_first_loop.simps(2) [simp del]

subsection \<open>The set of a mask\<close>

definition mask_ok :: "nat \<Rightarrow> bitset \<Rightarrow> bool" where
  "mask_ok n m \<longleftrightarrow> m_nb_bits m = n \<and> length (m_words m) = (n + 63) div 64
     \<and> (\<forall>i < length (m_words m). \<forall>j. bit (m_words m ! i) j \<longrightarrow> 64 * i + j < n)"

definition in_mask :: "bitset \<Rightarrow> nat \<Rightarrow> bool" where
  "in_mask m i \<longleftrightarrow> i < m_nb_bits m \<and> mask_test m i"

lemma mask_test_bit: "mask_test m i \<longleftrightarrow> bit (m_words m ! (i div 64)) (i mod 64)"
proof -
  have "drop_bit k w AND 1 \<noteq> 0 \<longleftrightarrow> bit w k" for k and w :: u64
    by (simp add: and_one_eq bit_iff_odd_drop_bit odd_iff_mod_2_eq_one)
  then show ?thesis by (simp add: mask_test_def)
qed

lemma mask_okD:
  assumes "mask_ok n m"
  shows "m_nb_bits m = n" and "length (m_words m) = (n + 63) div 64" and "i < n \<Longrightarrow> i div 64 < length (m_words m)"
    and "i < length (m_words m) \<Longrightarrow> bit (m_words m ! i) j \<Longrightarrow> 64 * i + j < n"
  using assms by (auto simp: mask_ok_def)

lemma in_mask_test: "mask_ok n m \<Longrightarrow> in_mask m i \<longleftrightarrow> i < n \<and> mask_test m i"
  by (simp add: in_mask_def mask_ok_def)

lemma in_mask_bit: "mask_ok n m \<Longrightarrow> in_mask m i \<longleftrightarrow> i < n \<and> bit (m_words m ! (i div 64)) (i mod 64)"
  by (simp add: in_mask_test mask_test_bit)

lemma mask_resize_ok [simp]: "mask_ok n (mask_resize n)" "\<not> in_mask (mask_resize n) i"
  by (auto simp: mask_ok_def mask_resize_def in_mask_def mask_test_bit)

lemma mask_clear_ok:
  assumes "mask_ok n m"
  shows "mask_ok n (mask_clear m)" and "\<not> in_mask (mask_clear m) i"
  using assms mask_okD(3) [OF assms, of i] by (auto simp: mask_ok_def mask_clear_def in_mask_def mask_test_bit)

lemma bit_one_64: "bit (2 ^ k :: u64) j \<longleftrightarrow> j = k \<and> k < 64"
  by (auto simp: bit_exp_iff)

lemma mask_set_ok:
  assumes ok: "mask_ok n m" and "i < n"
  shows "mask_ok n (mask_set i m)" and "in_mask (mask_set i m) j \<longleftrightarrow> j = i \<or> in_mask m j"
proof -
  have i: "i div 64 < length (m_words m)" by (rule mask_okD(3) [OF ok assms(2)])
  have bits: "bit (m_words (mask_set i m) ! k) l \<longleftrightarrow> bit (m_words m ! k) l \<or> (k = i div 64 \<and> l = i mod 64)" for k l
    using i by (cases "k = i div 64") (auto simp: mask_set_def bit_or_iff bit_one_64 nth_list_update)
  have "64 * (i div 64) + i mod 64 < n" using assms(2) by simp
  then show ok': "mask_ok n (mask_set i m)" using mask_okD [OF ok] unfolding mask_ok_def bits
    by (auto simp: mask_set_def)
  have "j div 64 = i div 64 \<and> j mod 64 = i mod 64 \<longleftrightarrow> j = i" by (metis mult_div_mod_eq)
  then show "in_mask (mask_set i m) j \<longleftrightarrow> j = i \<or> in_mask m j"
    unfolding in_mask_bit [OF ok'] in_mask_bit [OF ok] bits using assms(2) by blast
qed

lemma mask_reset_ok:
  assumes ok: "mask_ok n m" and "i < n"
  shows "mask_ok n (mask_reset i m)" and "in_mask (mask_reset i m) j \<longleftrightarrow> j \<noteq> i \<and> in_mask m j"
proof -
  have i: "i div 64 < length (m_words m)" by (rule mask_okD(3) [OF ok assms(2)])
  have bits: "bit (m_words (mask_reset i m) ! k) l \<longleftrightarrow> bit (m_words m ! k) l \<and> \<not> (k = i div 64 \<and> l = i mod 64)" for k l
    using i by (cases "k = i div 64")
      (auto simp: mask_reset_def bit_and_iff bit_not_iff bit_one_64 nth_list_update dest: bit_imp_le_length)
  show ok': "mask_ok n (mask_reset i m)" using mask_okD [OF ok] unfolding mask_ok_def bits
    by (auto simp: mask_reset_def)
  have "j div 64 = i div 64 \<and> j mod 64 = i mod 64 \<longleftrightarrow> j = i" by (metis mult_div_mod_eq)
  then show "in_mask (mask_reset i m) j \<longleftrightarrow> j \<noteq> i \<and> in_mask m j"
    unfolding in_mask_bit [OF ok'] in_mask_bit [OF ok] bits by blast
qed

lemma mask_position:
  assumes "mask_ok n m" "k < length (m_words m)" "bit (m_words m ! k) l"
  shows "in_mask m (64 * k + l)" and "(64 * k + l) div 64 = k" and "(64 * k + l) mod 64 = l"
proof -
  have "l < 64" using assms(3) bit_imp_le_length by force
  then show d: "(64 * k + l) div 64 = k" "(64 * k + l) mod 64 = l" by simp_all
  show "in_mask m (64 * k + l)" unfolding in_mask_bit [OF assms(1)] d using mask_okD(4) [OF assms] assms(3) by blast
qed

lemma nonzero_bit_64: "(w :: u64) \<noteq> 0 \<longleftrightarrow> (\<exists>l. bit w l)"
  by (metis bit_0_eq bit_eqI bot_apply bot_bool_def)

lemma mask_any_iff:
  assumes "mask_ok n m"
  shows "mask_any m \<longleftrightarrow> (\<exists>i. in_mask m i)"
proof
  assume "mask_any m"
  then obtain k l where "k < length (m_words m)" "bit (m_words m ! k) l"
    by (auto simp: mask_any_def list_ex_iff in_set_conv_nth nonzero_bit_64)
  from mask_position(1) [OF assms this] show "\<exists>i. in_mask m i" ..
next
  assume "\<exists>i. in_mask m i"
  then obtain i where "i < n" "bit (m_words m ! (i div 64)) (i mod 64)" unfolding in_mask_bit [OF assms] by blast
  moreover from this(1) have "m_words m ! (i div 64) \<in> set (m_words m)" using mask_okD(3) [OF assms] by simp
  ultimately show "mask_any m" unfolding mask_any_def list_ex_iff nonzero_bit_64 by blast
qed

lemma mask_intersects_iff:
  assumes m: "mask_ok n m" and o: "mask_ok n m'"
  shows "mask_intersects m m' \<longleftrightarrow> (\<exists>i. in_mask m i \<and> in_mask m' i)"
proof
  assume "mask_intersects m m'"
  then obtain k l where k: "k < length (m_words m)" and b: "bit (m_words m ! k) l" "bit (m_words m' ! k) l"
    by (auto simp: mask_intersects_def list_ex_iff nonzero_bit_64 bit_and_iff)
  then have "in_mask m (64 * k + l)" "in_mask m' (64 * k + l)"
    using mask_position(1) [OF m k b(1)] mask_position(1) [OF o _ b(2)] mask_okD(2) [OF m] mask_okD(2) [OF o] by simp_all
  then show "\<exists>i. in_mask m i \<and> in_mask m' i" by blast
next
  assume "\<exists>i. in_mask m i \<and> in_mask m' i"
  then obtain i where "i < n" "bit (m_words m ! (i div 64)) (i mod 64)" "bit (m_words m' ! (i div 64)) (i mod 64)"
    unfolding in_mask_bit [OF m] in_mask_bit [OF o] by blast
  then show "mask_intersects m m'" using mask_okD(3) [OF m, of i]
    by (auto simp: mask_intersects_def list_ex_iff nonzero_bit_64 bit_and_iff intro!: bexI [of _ "i div 64"])
qed

lemma mask_merge_ok:
  assumes m: "mask_ok n m" and o: "mask_ok n m'"
  shows "mask_ok n (mask_merge m' m)" and "in_mask (mask_merge m' m) i \<longleftrightarrow> in_mask m i \<or> in_mask m' i"
proof -
  have bits: "bit (m_words (mask_merge m' m) ! k) l \<longleftrightarrow> bit (m_words m ! k) l \<or> bit (m_words m' ! k) l"
    if "k < length (m_words m)" for k l
    using that by (simp add: mask_merge_def bit_or_iff)
  have len: "length (m_words (mask_merge m' m)) = length (m_words m)" "length (m_words m') = length (m_words m)"
    using mask_okD(2) [OF m] mask_okD(2) [OF o] by (simp_all add: mask_merge_def)
  show ok': "mask_ok n (mask_merge m' m)"
    using mask_okD [OF m] mask_okD(4) [OF o] len bits by (auto simp: mask_ok_def mask_merge_def)
  show "in_mask (mask_merge m' m) i \<longleftrightarrow> in_mask m i \<or> in_mask m' i"
    unfolding in_mask_bit [OF ok'] in_mask_bit [OF m] in_mask_bit [OF o] using bits mask_okD(3) [OF m] by blast
qed

lemma mask_copy_ok: "mask_ok n m \<Longrightarrow> mask_ok n m' \<Longrightarrow> mask_copy m' m = m'"
  by (auto simp: mask_copy_def mask_ok_def)

subsection \<open>The scan\<close>

definition first_of :: "'a list \<Rightarrow> 'a option" where
  "first_of xs = (case xs of [] \<Rightarrow> None | x # _ \<Rightarrow> Some x)"

lemma first_of_simps [simp]: "first_of [] = None" "first_of (x # xs) = Some x"
  by (simp_all add: first_of_def)

lemma find_first_of: "find P xs = first_of (filter P xs)"
  by (induction xs) simp_all

lemma find_SomeD: "find P xs = Some x \<Longrightarrow> x \<in> set xs \<and> P x"
  by (induction xs) (auto split: if_splits)

lemma first_of_append: "first_of (xs @ ys) = (case first_of xs of None \<Rightarrow> first_of ys | Some x \<Rightarrow> Some x)"
  by (cases xs) simp_all

definition word_hits :: "nat \<Rightarrow> u64 \<Rightarrow> nat list" where
  "word_hits k w = map (\<lambda>j. 64 * k + j) (filter (bit w) [0..<64])"

lemma first_word_hits: "first_of (word_hits k w) = (if w = 0 then None else Some (64 * k + ctz64 w))"
proof (cases "w = 0")
  case True
  then show ?thesis by (simp add: word_hits_def)
next
  case False
  have "first_of (filter P xs) = Some (xs ! length (takeWhile (\<lambda>x. \<not> P x) xs))" if "\<exists>x \<in> set xs. P x" for P and xs :: "nat list"
    using that by (induction xs) auto
  moreover have "\<exists>j \<in> set [0..<64]. bit w j"
    using False bit_imp_le_length [of w] unfolding nonzero_bit_64 by fastforce
  ultimately have "first_of (filter (bit w) [0..<64]) = Some ([0..<64] ! ctz64 w)" unfolding ctz64_def .
  moreover have "ctz64 w < 64"
  proof -
    obtain j where j: "j \<in> set [0..<64]" "bit w j" using \<open>\<exists>j \<in> set [0..<64]. bit w j\<close> ..
    then have "takeWhile (\<lambda>i. \<not> bit w i) [0..<64] \<noteq> [0..<64]" unfolding takeWhile_eq_all_conv by blast
    then have "length (takeWhile (\<lambda>i. \<not> bit w i) [0..<64]) \<noteq> length [0..<64]"
      by (metis takeWhile_eq_take take_all_iff order_refl)
    then show ?thesis using length_takeWhile_le [of "\<lambda>i. \<not> bit w i" "[0..<64]"] by (simp add: ctz64_def)
  qed
  ultimately show ?thesis using False unfolding word_hits_def by (cases "filter (bit w) [0..<64]") simp_all
qed

lemma word_hits_filter: "word_hits k (m_words m ! k) = filter (mask_test m) [64 * k..<64 * k + 64]"
proof -
  have "[64 * k..<64 * k + 64] = map (\<lambda>j. 64 * k + j) [0..<64]" by (simp add: map_add_upt add.commute)
  moreover have "filter (mask_test m \<circ> (\<lambda>j. 64 * k + j)) [0..<64] = filter (bit (m_words m ! k)) [0..<64]"
    by (rule filter_cong) (auto simp: mask_test_bit)
  ultimately show ?thesis by (simp add: word_hits_def filter_map)
qed

lemma upt_cut: "a \<le> b \<Longrightarrow> b \<le> c \<Longrightarrow> [a..<c] = [a..<b] @ [b..<c]"
  using upt_add_eq_append [of a b "c - b"] by simp

lemma concat_words: "a \<le> b \<Longrightarrow> concat (map (\<lambda>k. word_hits k (m_words m ! k)) [a..<b]) = filter (mask_test m) [64 * a..<64 * b]"
proof (induction b)
  case (Suc b)
  show ?case
  proof (cases "a = Suc b")
    case False
    then have le: "a \<le> b" using Suc.prems by simp
    have "[64 * a..<64 * Suc b] = [64 * a..<64 * b] @ [64 * b..<64 * Suc b]" using le by (intro upt_cut) simp_all
    moreover have "word_hits b (m_words m ! b) = filter (mask_test m) [64 * b..<64 * Suc b]"
      using word_hits_filter [of b m] by (simp only: mult_Suc_right add.commute)
    ultimately have "filter (mask_test m) [64 * a..<64 * Suc b] = filter (mask_test m) [64 * a..<64 * b] @ word_hits b (m_words m ! b)"
      by (simp only: filter_append)
    then show ?thesis using Suc.IH [OF le] le by (simp only: upt_Suc) simp
  qed simp
qed simp

lemma first_loop_word:
  assumes ok: "mask_ok n m" and k: "k < length (m_words m)" and sub: "\<forall>j. bit w j \<longrightarrow> bit (m_words m ! k) j"
  shows "mask_first_loop m from (Suc r) i k w = (case first_of (word_hits k w) of Some x \<Rightarrow> Some x
    | None \<Rightarrow> mask_first_loop m from r (i + 1) ((k + 1) mod length (m_words m))
       (let v = m_words m ! ((k + 1) mod length (m_words m))
        in if i = length (m_words m) - 1 then v AND (if from mod 64 \<noteq> 0 then NOT (push_bit (from mod 64) (- 1)) else 0) else v))"
proof (cases "w = 0")
  case True
  then show ?thesis by (simp add: first_word_hits mask_first_loop.simps(2) Let_def)
next
  case False
  have "first_of (word_hits k w) = Some (64 * k + ctz64 w)" using False by (simp add: first_word_hits)
  then have "64 * k + ctz64 w \<in> set (word_hits k w)" by (auto simp: first_of_def split: list.splits)
  then have "bit w (ctz64 w)" by (auto simp: word_hits_def)
  then have "64 * k + ctz64 w < m_nb_bits m" using mask_okD(4) [OF ok k] sub mask_okD(1) [OF ok] by simp
  then show ?thesis using False by (simp add: first_word_hits mask_first_loop.simps(2) Let_def)
qed

text \<open>The rounds after the first: the other words in turn, then the low bits of the start word.\<close>

lemma first_loop_rest:
  fixes m "from"
  defines "W \<equiv> length (m_words m)" and "s \<equiv> from div 64"
  defines "low \<equiv> m_words m ! s AND (if from mod 64 \<noteq> 0 then NOT (push_bit (from mod 64) (- 1)) else 0)"
  assumes ok: "mask_ok n m" and s: "s < W" and i: "0 < i" "i \<le> W"
  shows "mask_first_loop m from (Suc (W - i)) i ((s + i) mod W) (if i = W then low else m_words m ! ((s + i) mod W))
    = first_of (concat (map (\<lambda>k. word_hits ((s + k) mod W) (m_words m ! ((s + k) mod W))) [i..<W]) @ word_hits s low)"
  using i
proof (induction "W - i" arbitrary: i)
  case 0
  then have "i = W" by simp
  moreover have low: "\<forall>j. bit low j \<longrightarrow> bit (m_words m ! s) j" by (simp add: low_def bit_and_iff)
  ultimately show ?case using first_loop_word [OF ok s [unfolded W_def] low, of "from" 0 W] s
    by (simp add: W_def split: option.splits)
next
  case (Suc d)
  then have i: "i < W" "W - i = Suc (W - Suc i)" "i \<noteq> W" by simp_all
  let ?k = "(s + i) mod W"
  have k: "?k < length (m_words m)" using i(1) unfolding W_def by (intro mod_less_divisor) linarith
  have next_word: "(?k + 1) mod length (m_words m) = (s + Suc i) mod W" by (simp add: W_def mod_Suc_eq)
  have wd: "(let v = m_words m ! ((s + Suc i) mod W)
      in if i = length (m_words m) - 1 then v AND (if from mod 64 \<noteq> 0 then NOT (push_bit (from mod 64) (- 1)) else 0) else v)
    = (if Suc i = W then low else m_words m ! ((s + Suc i) mod W))"
  proof (cases "Suc i = W")
    case True
    then have "(s + Suc i) mod W = s" using s by simp
    then show ?thesis using True by (auto simp: Let_def low_def W_def)
  next
    case False
    then have "i \<noteq> length (m_words m) - 1" using i by (simp add: W_def)
    then show ?thesis using False by (simp add: Let_def)
  qed
  have same: "\<forall>j. bit (m_words m ! ?k) j \<longrightarrow> bit (m_words m ! ?k) j" by blast
  have step: "mask_first_loop m from (Suc (W - i)) i ?k (m_words m ! ?k) = (case first_of (word_hits ?k (m_words m ! ?k)) of Some x \<Rightarrow> Some x
      | None \<Rightarrow> mask_first_loop m from (W - i) (Suc i) ((s + Suc i) mod W) (if Suc i = W then low else m_words m ! ((s + Suc i) mod W)))"
    unfolding first_loop_word [OF ok k same] next_word wd by (simp only: Suc_eq_plus1)
  have tail: "mask_first_loop m from (W - i) (Suc i) ((s + Suc i) mod W) (if Suc i = W then low else m_words m ! ((s + Suc i) mod W))
      = first_of (concat (map (\<lambda>k. word_hits ((s + k) mod W) (m_words m ! ((s + k) mod W))) [Suc i..<W]) @ word_hits s low)"
    using Suc.hyps(1) [of "Suc i"] Suc.hyps(2) i by simp
  have cons: "[i..<W] = i # [Suc i..<W]" using i(1) by (simp add: upt_conv_Cons)
  have this_word: "(if i = W then low else m_words m ! ?k) = m_words m ! ?k" using i(3) by simp
  show ?case unfolding this_word step tail cons by (simp only: list.map concat.simps append_assoc first_of_append)
qed

lemma rotate_words:
  fixes H :: "nat \<Rightarrow> 'a list"
  assumes "s < W"
  shows "concat (map (\<lambda>k. H ((s + k) mod W)) [1..<W]) = concat (map H [s + 1..<W]) @ concat (map H [0..<s])"
proof -
  have split: "[1..<W] = [1..<W - s] @ [W - s..<W]" using assms upt_add_eq_append [of 1 "W - s" s] by simp
  have "map (\<lambda>k. H ((s + k) mod W)) [1..<W - s] = map H (map (\<lambda>k. k + s) [1..<W - s])"
    using assms by (auto simp: add.commute)
  moreover have "map (\<lambda>k. k + s) [1..<W - s] = [s + 1..<W]" using assms by (intro nth_equalityI) auto
  moreover have "map (\<lambda>k. H ((s + k) mod W)) [W - s..<W] = map H (map (\<lambda>k. k - (W - s)) [W - s..<W])"
    using assms by (auto simp: mod_if add.commute)
  moreover have "map (\<lambda>k. k - (W - s)) [W - s..<W] = [0..<s]" using assms by (intro nth_equalityI) auto
  ultimately show ?thesis unfolding split map_append concat_append by (simp only: map_map)
qed

lemma first_from_scan:
  assumes ok: "mask_ok n m" and "from < n"
  shows "mask_first_from m from = find (mask_test m) ([from..<n] @ [0..<from])"
proof -
  define W where "W = length (m_words m)"
  define s where "s = from div 64"
  let ?t = "from mod 64" and ?H = "\<lambda>k. word_hits k (m_words m ! k)"
  define high where "high = m_words m ! s AND push_bit ?t (- 1)"
  define low where "low = m_words m ! s AND (if ?t \<noteq> 0 then NOT (push_bit ?t (- 1)) else 0)"
  have s: "s < W" unfolding s_def W_def by (rule mask_okD(3) [OF ok assms(2)])
  have bits: "bit (push_bit ?t (- 1) :: u64) j \<longleftrightarrow> ?t \<le> j \<and> j < 64" for j
    by (simp only: bit_push_bit_iff) (auto simp: bit_minus_1_iff possible_bit_word)
  have hit: "word_hits s w = filter (\<lambda>i. mask_test m i \<and> P (i - 64 * s)) [64 * s..<64 * s + 64]"
    if "\<And>j. j < 64 \<Longrightarrow> bit w j \<longleftrightarrow> bit (m_words m ! s) j \<and> P j" for w P
  proof -
    have "filter (bit w) [0..<64] = filter P (filter (bit (m_words m ! s)) [0..<64])"
      unfolding filter_filter by (rule filter_cong) (use that in auto)
    then have "word_hits s w = filter (\<lambda>i. P (i - 64 * s)) (?H s)" by (simp add: word_hits_def filter_map comp_def)
    then show ?thesis unfolding word_hits_filter by (simp add: conj_commute)
  qed
  have "from = 64 * s + ?t" "?t < 64" by (simp_all add: s_def)
  then have cut: "[64 * s..<64 * s + 64] = [64 * s..<from] @ [from..<64 * s + 64]"
    by (metis le_add1 nat_add_left_cancel_le less_imp_le_nat upt_cut)
  have high_hits: "word_hits s high = filter (mask_test m) [from..<64 * s + 64]"
  proof -
    have "word_hits s high = filter (\<lambda>i. mask_test m i \<and> ?t \<le> i - 64 * s) [64 * s..<64 * s + 64]"
      by (rule hit) (simp only: high_def bit_and_iff bits; blast)
    also have "\<dots> = filter (\<lambda>i. mask_test m i \<and> from \<le> i) [64 * s..<64 * s + 64]"
      by (rule filter_cong) (use \<open>from = 64 * s + ?t\<close> in auto)
    finally show ?thesis unfolding cut by (auto simp: filter_empty_conv intro!: filter_cong)
  qed
  have low_hits: "word_hits s low = filter (mask_test m) [64 * s..<from]"
  proof -
    have "word_hits s low = filter (\<lambda>i. mask_test m i \<and> i - 64 * s < ?t) [64 * s..<64 * s + 64]"
      proof (rule hit)
      fix j :: nat assume "j < 64"
      then show "bit low j \<longleftrightarrow> bit (m_words m ! s) j \<and> j < ?t"
        unfolding low_def by (cases "?t = 0") (simp_all only: if_True if_False not_False_eq_True bit_and_iff bit_not_iff bits possible_bit_word bit_0_eq bot_apply bot_bool_def, auto)
    qed
    also have "\<dots> = filter (\<lambda>i. mask_test m i \<and> i < from) [64 * s..<64 * s + 64]"
      by (rule filter_cong) (use \<open>from = 64 * s + ?t\<close> in auto)
    finally show ?thesis unfolding cut by (auto simp: filter_empty_conv intro!: filter_cong)
  qed
  have tail: "mask_first_loop m from W 1 ((s + 1) mod W) (if 1 = W then low else m_words m ! ((s + 1) mod W))
      = first_of (concat (map ?H [s + 1..<W]) @ concat (map ?H [0..<s]) @ word_hits s low)"
  proof -
    have "Suc (W - 1) = W" using s by simp
    then show ?thesis using first_loop_rest [OF ok, of "from" 1, folded W_def s_def, folded low_def] s
      unfolding rotate_words [OF s, of ?H] append_assoc by simp
  qed
  have "mask_first_from m from = (case first_of (word_hits s high) of Some x \<Rightarrow> Some x
      | None \<Rightarrow> mask_first_loop m from W 1 ((s + 1) mod W) (if 1 = W then low else m_words m ! ((s + 1) mod W)))"
  proof -
    have "\<forall>j. bit high j \<longrightarrow> bit (m_words m ! s) j" by (simp add: high_def bit_and_iff)
    from first_loop_word [OF ok s [unfolded W_def] this, of "from" W 0]
    show ?thesis using s by (auto simp: mask_first_from_def high_def low_def W_def s_def Let_def split: option.splits)
  qed
  also have "\<dots> = first_of (word_hits s high @ concat (map ?H [s + 1..<W]) @ concat (map ?H [0..<s]) @ word_hits s low)"
    using tail by (simp only: first_of_append)
  also have "word_hits s high @ concat (map ?H [s + 1..<W]) @ concat (map ?H [0..<s]) @ word_hits s low
      = filter (mask_test m) ([from..<64 * W] @ [0..<from])"
  proof -
    have a: "[from..<64 * W] = [from..<64 * s + 64] @ [64 * (s + 1)..<64 * W]"
      using \<open>from = 64 * s + ?t\<close> \<open>?t < 64\<close> s upt_cut [of "from" "64 * s + 64" "64 * W"] by (simp add: algebra_simps)
    have b: "[0..<from] = [0..<64 * s] @ [64 * s..<from]"
      using \<open>from = 64 * s + ?t\<close> upt_cut [of 0 "64 * s" "from"] by simp
    show ?thesis unfolding a b using concat_words [of "s + 1" W m] concat_words [of 0 s m] s
      by (simp add: high_hits low_hits)
  qed
  also have "\<dots> = filter (mask_test m) ([from..<n] @ [0..<from])"
  proof -
    have "n \<le> 64 * W" using mask_okD(2) [OF ok] by (simp add: W_def)
    then have "[from..<64 * W] = [from..<n] @ [n..<64 * W]" using assms(2) upt_cut [of "from" n "64 * W"] by simp
    moreover have "\<not> mask_test m i" if "n \<le> i" "i < 64 * W" for i
    proof
      assume "mask_test m i"
      then have "64 * (i div 64) + i mod 64 < n" unfolding mask_test_bit
        using that(2) by (intro mask_okD(4) [OF ok]) (simp_all add: W_def less_mult_imp_div_less mult.commute)
      with that(1) show False by simp
    qed
    ultimately show ?thesis by (auto simp: filter_empty_conv)
  qed
  finally show ?thesis by (simp only: find_first_of)
qed

text \<open>
  The round-robin choice is right: over the words of the mask, with its masking of the first and
  of the last word visited, the scan returns the first set bit at or after the given position, going
  on at bit 0 after the last one, and fails only when no bit is set.
\<close>

theorem interco_first_from:
  assumes "mask_ok n m" and "from < n"
  shows "mask_first_from m from = find (mask_test m) ([from..<n] @ [0..<from])"
  by (rule first_from_scan [OF assms])

text \<open>Two words, bits 3 and 70.\<close>

theorem interco_first_from_witness:
  "mask_first_from (mask_set 3 (mask_set 70 (mask_resize 80))) 71 = Some 3
    \<and> mask_first_from (mask_set 3 (mask_set 70 (mask_resize 80))) 71
      = find (mask_test (mask_set 3 (mask_set 70 (mask_resize 80)))) ([71..<80] @ [0..<71])"
proof -
  have "mask_ok 80 (mask_set 3 (mask_set 70 (mask_resize 80)))" by (intro mask_set_ok(1) mask_resize_ok(1)) simp_all
  moreover have "mask_first_from (mask_set 3 (mask_set 70 (mask_resize 80))) 71 = Some 3" by code_simp
  ultimately show ?thesis using interco_first_from [of 80 "mask_set 3 (mask_set 70 (mask_resize 80))" 71] by simp
qed

end
