(* ===== verification/Interco.thy ===== *)
theory Interco
  imports Interco_Mask L1_Interleaver
begin

section \<open>The TCDM interconnect (\<open>src/pulp/chips/magia_common/tcdm_interco/tcdm_interco.cpp\<close>)\<close>

text \<open>
  Narrow masters are denied and elected by a round-robin arbiter, one per bank and cycle; wide masters take
  all the banks they span at once and go first. The banks answer at once: \<open>ans n\<close> is the status and the
  latency of the n-th access. A master that is retried sends requests from inside the call: \<open>cb\<close> lists
  them. Every access of a bank is logged in \<open>ic_log\<close> with its cycle and the number of the request it belongs
  to, every request served in \<open>ic_served\<close>. \<open>ic_event\<close> is the cycle the arbiter is enqueued for; what the engine
  makes of a second enqueueing is \<open>ic_requeue\<close>. A failed assertion of the simulator is \<open>None\<close>.
\<close>

datatype source = Narrow nat | Wide nat

datatype ic_opcode = Op_read | Op_write | Op_atomic nat

datatype ic_status = Resp_ok | Resp_invalid

datatype ic_answer = Ic_done | Ic_denied

record ic_req =
  q_addr :: u64
  q_size :: u64
  q_opcode :: ic_opcode
  q_data :: "nat option"
  q_strb :: "nat option"
  q_status :: ic_status
  q_latency :: int

record bank_call =
  bc_bank :: nat
  bc_offset :: u64
  bc_size :: nat
  bc_opcode :: ic_opcode
  bc_data :: "nat option"
  bc_strb :: "nat option"

record wide_input =
  w_pending :: bool
  w_addr :: u64
  w_size :: u64

record interco =
  ic_nb_masters :: nat
  ic_nb_slaves :: nat
  ic_nb_wide :: nat
  ic_iw :: nat
  ic_slave_bits :: nat
  ic_requeue :: "int \<Rightarrow> int \<Rightarrow> int"
  ic_pending :: "nat \<Rightarrow> bitset"
  ic_rr_next :: "nat \<Rightarrow> nat"
  ic_wide :: "nat \<Rightarrow> wide_input"
  ic_in_election :: bool
  ic_wide_retrying :: int
  ic_banks_busy :: bitset
  ic_banks_busy_cycle :: int
  ic_event :: "int option"
  ic_log :: "(int \<times> nat \<times> source \<times> bank_call) list"
  ic_served :: "(source \<times> ic_req) list"

type_synonym ic_answers = "nat \<Rightarrow> ic_status \<times> int"
type_synonym ic_callback = "source \<Rightarrow> (source \<times> ic_req) list"

subsection \<open>Configuration and addresses\<close>

fun bit_length :: "nat \<Rightarrow> nat" where
  "bit_length n = (if n = 0 then 0 else Suc (bit_length (n div 2)))"

declare bit_length.simps [simp del]

definition ceil_log2_u :: "nat \<Rightarrow> nat" where
  "ceil_log2_u n = (if n \<le> 1 then 0 else bit_length (n - 1))"

definition ic_new :: "nat \<Rightarrow> nat \<Rightarrow> nat \<Rightarrow> nat \<Rightarrow> (int \<Rightarrow> int \<Rightarrow> int) \<Rightarrow> interco option" where
  "ic_new nb_masters nb_slaves nb_wide iw requeue =
     (if nb_masters = 0 then None
      else Some \<lparr>ic_nb_masters = nb_masters, ic_nb_slaves = nb_slaves, ic_nb_wide = nb_wide, ic_iw = iw,
        ic_slave_bits = ceil_log2_u nb_slaves, ic_requeue = requeue, ic_pending = (\<lambda>_. mask_resize nb_masters),
        ic_rr_next = (\<lambda>_. 0), ic_wide = (\<lambda>_. \<lparr>w_pending = False, w_addr = 0, w_size = 0\<rparr>), ic_in_election = False,
        ic_wide_retrying = -1, ic_banks_busy = mask_resize nb_slaves, ic_banks_busy_cycle = -1, ic_event = None,
        ic_log = [], ic_served = []\<rparr>)"

definition ic_reset :: "bool \<Rightarrow> interco \<Rightarrow> interco" where
  "ic_reset active s =
     (if active
      then s\<lparr>ic_in_election := False, ic_wide_retrying := -1, ic_banks_busy := mask_clear (ic_banks_busy s),
             ic_banks_busy_cycle := -1, ic_pending := (\<lambda>b. mask_clear (ic_pending s b)), ic_rr_next := (\<lambda>_. 0),
             ic_wide := (\<lambda>w. ic_wide s w\<lparr>w_pending := False\<rparr>)\<rparr>
      else s)"

definition ic_decode_bank :: "interco \<Rightarrow> u64 \<Rightarrow> nat" where
  "ic_decode_bank s addr =
     (if ic_slave_bits s = 0 then 0
      else unat (drop_bit (ic_iw s) addr AND (push_bit (ic_slave_bits s) 1 - 1)))"

definition ic_decode_offset :: "interco \<Rightarrow> u64 \<Rightarrow> u64" where
  "ic_decode_offset s addr =
     (let iw_mask = (if ic_iw s = 0 then 0 else push_bit (ic_iw s) 1 - 1);
          hi_shift = ic_slave_bits s + ic_iw s
      in push_bit (ic_iw s) (drop_bit hi_shift addr) OR (addr AND iw_mask))"

definition ic_granule :: "interco \<Rightarrow> nat" where
  "ic_granule s = 2 ^ ic_iw s"

definition ic_chunk :: "interco \<Rightarrow> u64 \<Rightarrow> nat \<Rightarrow> nat" where
  "ic_chunk s addr sz =
     (let chunk = ic_granule s - unat addr mod ic_granule s in if chunk > sz then sz else chunk)"

lemma ic_chunk_pos: "0 < sz \<Longrightarrow> 0 < ic_chunk s addr sz"
  by (simp add: ic_chunk_def ic_granule_def Let_def)

subsection \<open>Forward path\<close>

definition ic_enqueue :: "int \<Rightarrow> int \<Rightarrow> interco \<Rightarrow> interco" where
  "ic_enqueue now cycles s =
     s\<lparr>ic_event := Some (case ic_event s of None \<Rightarrow> now + cycles | Some e \<Rightarrow> ic_requeue s e (now + cycles))\<rparr>"

definition ic_access :: "int \<Rightarrow> source \<Rightarrow> bank_call \<Rightarrow> interco \<Rightarrow> interco" where
  "ic_access now src c s = s\<lparr>ic_log := ic_log s @ [(now, length (ic_served s), src, c)]\<rparr>"

definition ic_serve :: "source \<Rightarrow> ic_req \<Rightarrow> interco \<Rightarrow> interco" where
  "ic_serve src r s = s\<lparr>ic_served := ic_served s @ [(src, r)]\<rparr>"

definition ic_input_req :: "ic_answers \<Rightarrow> int \<Rightarrow> nat \<Rightarrow> ic_req \<Rightarrow> interco \<Rightarrow> ic_answer \<times> interco" where
  "ic_input_req ans now i r s =
     (let addr = q_addr r; bank_id = ic_decode_bank s addr
      in if ic_in_election s then
           let bank_offset = ic_decode_offset s addr;
               (st, latency) = ans (length (ic_log s));
               r' = r\<lparr>q_addr := bank_offset, q_status := st, q_latency := latency\<rparr>
           in (Ic_done, ic_serve (Narrow i) r' (ic_access now (Narrow i)
                \<lparr>bc_bank = bank_id, bc_offset = bank_offset, bc_size = unat (q_size r), bc_opcode = q_opcode r,
                 bc_data = q_data r, bc_strb = q_strb r\<rparr> s))
         else (Ic_denied, ic_enqueue now 0 (s\<lparr>ic_pending := (ic_pending s)(bank_id := mask_set i (ic_pending s bank_id))\<rparr>)))"

text \<open>\<open>wide_claim_mask\<close>, on a cleared mask.\<close>

function ic_claim_loop :: "interco \<Rightarrow> u64 \<Rightarrow> nat \<Rightarrow> bitset \<Rightarrow> bitset" where
  "ic_claim_loop s addr sz claim =
     (if sz = 0 then claim
      else let claim' = mask_set (ic_decode_bank s addr) claim; chunk = ic_chunk s addr sz
           in ic_claim_loop s (addr + of_nat chunk) (sz - chunk) claim')"
  by pat_completeness auto

termination
  by (relation "measure (\<lambda>(_, _, sz, _). sz)") (auto simp: ic_chunk_pos)

declare ic_claim_loop.simps [simp del]

definition ic_wide_claim_mask :: "interco \<Rightarrow> u64 \<Rightarrow> u64 \<Rightarrow> bitset" where
  "ic_wide_claim_mask s addr sz = ic_claim_loop s addr (unat sz) (mask_resize (ic_nb_slaves s))"

text \<open>The loop of \<open>forward_wide\<close>: the status and the worst latency so far, and the state.\<close>

function ic_forward_loop ::
    "ic_answers \<Rightarrow> int \<Rightarrow> nat \<Rightarrow> ic_opcode \<Rightarrow> u64 \<Rightarrow> nat \<Rightarrow> nat option \<Rightarrow> nat option \<Rightarrow> ic_status \<times> int \<times> interco \<Rightarrow> ic_status \<times> int \<times> interco" where
  "ic_forward_loop ans now i opc addr sz data strb acc =
     (if sz = 0 then acc
      else let (status, max_latency, s) = acc;
               chunk = ic_chunk s addr sz;
               call = \<lparr>bc_bank = ic_decode_bank s addr, bc_offset = ic_decode_offset s addr, bc_size = chunk,
                       bc_opcode = opc, bc_data = data, bc_strb = strb\<rparr>;
               (st, latency) = ans (length (ic_log s));
               status' = (if st \<noteq> Resp_ok then st else status);
               max_latency' = (if latency > max_latency then latency else max_latency)
           in ic_forward_loop ans now i opc (addr + of_nat chunk) (sz - chunk) (map_option (\<lambda>p. p + chunk) data)
                (map_option (\<lambda>p. p + chunk) strb) (status', max_latency', ic_access now (Wide i) call s))"
  by pat_completeness auto

termination
  by (relation "measure (\<lambda>(_, _, _, _, _, sz, _, _, _). sz)") (auto simp: ic_chunk_pos)

declare ic_forward_loop.simps [simp del]

definition ic_forward_wide :: "ic_answers \<Rightarrow> int \<Rightarrow> nat \<Rightarrow> ic_req \<Rightarrow> interco \<Rightarrow> interco option" where
  "ic_forward_wide ans now i r s =
     (if q_opcode r \<noteq> Op_read \<and> q_opcode r \<noteq> Op_write then None
      else case ic_forward_loop ans now i (q_opcode r) (q_addr r) (unat (q_size r)) (q_data r) (q_strb r) (q_status r, 0, s) of
             (status, max_latency, s') \<Rightarrow>
               Some (ic_serve (Wide i) (r\<lparr>q_status := status, q_latency := q_latency r + max_latency\<rparr>) s'))"

definition ic_banks_busy_now :: "int \<Rightarrow> interco \<Rightarrow> interco" where
  "ic_banks_busy_now now s =
     (if ic_banks_busy_cycle s \<noteq> now
      then s\<lparr>ic_banks_busy_cycle := now, ic_banks_busy := mask_clear (ic_banks_busy s)\<rparr> else s)"

text \<open>The end of \<open>wide_input_req\<close>: the request is denied.\<close>

definition ic_wide_deny :: "int \<Rightarrow> nat \<Rightarrow> ic_req \<Rightarrow> interco \<Rightarrow> interco" where
  "ic_wide_deny now i r s = ic_enqueue now 0
     (s\<lparr>ic_wide := (ic_wide s)(i := \<lparr>w_pending = True, w_addr = q_addr r, w_size = q_size r\<rparr>)\<rparr>)"

definition ic_wide_input_req :: "ic_answers \<Rightarrow> int \<Rightarrow> nat \<Rightarrow> ic_req \<Rightarrow> interco \<Rightarrow> (ic_answer \<times> interco) option" where
  "ic_wide_input_req ans now i r s =
     (if ic_wide_retrying s = int i then map_option (Pair Ic_done) (ic_forward_wide ans now i r s)
      else if \<not> ic_in_election s then
        let claim = ic_wide_claim_mask s (q_addr r) (q_size r); s1 = ic_banks_busy_now now s
        in if \<not> mask_intersects claim (ic_banks_busy s1)
           then map_option (Pair Ic_done)
                  (ic_forward_wide ans now i r (s1\<lparr>ic_banks_busy := mask_merge claim (ic_banks_busy s1)\<rparr>))
           else Some (Ic_denied, ic_wide_deny now i r s1)
      else Some (Ic_denied, ic_wide_deny now i r s))"

subsection \<open>The arbiter\<close>

definition ic_port_req :: "ic_answers \<Rightarrow> int \<Rightarrow> source \<Rightarrow> ic_req \<Rightarrow> interco \<Rightarrow> (ic_answer \<times> interco) option" where
  "ic_port_req ans now src r s =
     (case src of Narrow i \<Rightarrow> Some (ic_input_req ans now i r s) | Wide i \<Rightarrow> ic_wide_input_req ans now i r s)"

text \<open>What a master sends from inside the call of \<open>retry\<close>.\<close>

fun ic_retry :: "ic_answers \<Rightarrow> int \<Rightarrow> (source \<times> ic_req) list \<Rightarrow> interco \<Rightarrow> interco option" where
  "ic_retry ans now [] s = Some s"
| "ic_retry ans now ((src, r) # reqs) s =
     (case ic_port_req ans now src r s of None \<Rightarrow> None | Some (_, s') \<Rightarrow> ic_retry ans now reqs s')"

text \<open>The two loops of \<open>fsm_handler\<close>, over the wide masters and over the banks left.\<close>

fun ic_wide_election ::
    "ic_answers \<Rightarrow> int \<Rightarrow> ic_callback \<Rightarrow> nat list \<Rightarrow> bitset \<Rightarrow> bool \<Rightarrow> interco \<Rightarrow> (bitset \<times> bool \<times> interco) option" where
  "ic_wide_election ans now cb [] taken remaining s = Some (taken, remaining, s)"
| "ic_wide_election ans now cb (w # ws) taken remaining s =
     (if \<not> w_pending (ic_wide s w) then ic_wide_election ans now cb ws taken remaining s
      else let claim = ic_wide_claim_mask s (w_addr (ic_wide s w)) (w_size (ic_wide s w))
           in if mask_intersects claim taken then ic_wide_election ans now cb ws taken True s
              else let s1 = s\<lparr>ic_banks_busy := mask_merge claim (ic_banks_busy s),
                              ic_wide := (ic_wide s)(w := (ic_wide s w)\<lparr>w_pending := False\<rparr>), ic_wide_retrying := int w\<rparr>
                   in case ic_retry ans now (cb (Wide w)) s1 of
                        None \<Rightarrow> None
                      | Some s2 \<Rightarrow> ic_wide_election ans now cb ws (mask_merge claim taken) remaining (s2\<lparr>ic_wide_retrying := -1\<rparr>))"

fun ic_narrow_election ::
    "ic_answers \<Rightarrow> int \<Rightarrow> ic_callback \<Rightarrow> nat list \<Rightarrow> bitset \<Rightarrow> bool \<Rightarrow> interco \<Rightarrow> (bool \<times> interco) option" where
  "ic_narrow_election ans now cb [] taken remaining s = Some (remaining, s)"
| "ic_narrow_election ans now cb (b # bs) taken remaining s =
     (if \<not> mask_any (ic_pending s b) then ic_narrow_election ans now cb bs taken remaining s
      else if mask_test taken b then ic_narrow_election ans now cb bs taken True s
      else case mask_first_from (ic_pending s b) (ic_rr_next s b) of
             None \<Rightarrow> None
           | Some winner \<Rightarrow>
               let s1 = s\<lparr>ic_pending := (ic_pending s)(b := mask_reset winner (ic_pending s b)),
                          ic_rr_next := (ic_rr_next s)(b := (winner + 1) mod ic_nb_masters s),
                          ic_banks_busy := mask_set b (ic_banks_busy s)\<rparr>
               in case ic_retry ans now (cb (Narrow winner)) s1 of
                    None \<Rightarrow> None
                  | Some s2 \<Rightarrow> ic_narrow_election ans now cb bs taken (remaining \<or> mask_any (ic_pending s2 b)) s2)"

definition ic_fsm_handler :: "ic_answers \<Rightarrow> int \<Rightarrow> ic_callback \<Rightarrow> interco \<Rightarrow> interco option" where
  "ic_fsm_handler ans now cb s0 =
     (let s = ic_banks_busy_now now (s0\<lparr>ic_event := None\<rparr>)
      in case ic_wide_election ans now cb [0..<ic_nb_wide s] (ic_banks_busy s) False s of
           None \<Rightarrow> None
         | Some (taken, remaining, s1) \<Rightarrow>
             (case ic_narrow_election ans now cb [0..<ic_nb_slaves s1] taken remaining (s1\<lparr>ic_in_election := True\<rparr>) of
                None \<Rightarrow> None
              | Some (any_remaining, s2) \<Rightarrow>
                  let s3 = s2\<lparr>ic_in_election := False\<rparr>
                  in Some (if any_remaining then ic_enqueue now 1 s3 else s3)))"

subsection \<open>Debug access\<close>

text \<open>\<open>dbg b\<close> is the debug interface of a bank, if it has one; a failure is \<open>True\<close>.\<close>

function ic_debug_mem_access ::
    "(nat \<Rightarrow> (u64 \<Rightarrow> u8 list \<Rightarrow> bool \<Rightarrow> 'm \<Rightarrow> bool \<times> u8 list \<times> 'm) option) \<Rightarrow> interco \<Rightarrow> u64 \<Rightarrow> u8 list \<Rightarrow> bool \<Rightarrow> 'm \<Rightarrow> bool \<times> u8 list \<times> 'm" where
  "ic_debug_mem_access dbg s addr data is_write m =
     (if data = [] then (False, [], m)
      else let n = ic_chunk s addr (length data)
           in case dbg (ic_decode_bank s addr) of
                None \<Rightarrow> (True, data, m)
              | Some access \<Rightarrow>
                  (case access (ic_decode_offset s addr) (take n data) is_write m of
                     (err, d, m') \<Rightarrow>
                       if err then (True, d @ drop n data, m')
                       else (case ic_debug_mem_access dbg s (addr + of_nat n) (drop n data) is_write m' of
                               (e, ds, m'') \<Rightarrow> (e, d @ ds, m''))))"
  by pat_completeness auto

termination
  by (relation "measure (\<lambda>(_, _, _, data, _, _). length data)") (auto simp: ic_chunk_pos)

declare ic_debug_mem_access.simps [simp del]

end
