(* ===== verification/Interco_Runs.thy ===== *)
theory Interco_Runs
  imports Interco
begin

section \<open>Runs of the TCDM interconnect\<close>

text \<open>
  Masters follow the protocol of the interconnect: one that is retried sends the denied request again from
  inside the call, and nothing else. Then a bank serves one request per cycle, and round robin is fair.
\<close>

subsection \<open>One request is served\<close>

text \<open>The accesses of one request, appended to the log.\<close>

definition ic_extend :: "int \<Rightarrow> source \<Rightarrow> ic_req \<Rightarrow> bank_call list \<Rightarrow> interco \<Rightarrow> interco" where
  "ic_extend now src r calls s =
     s\<lparr>ic_log := ic_log s @ map (\<lambda>c. (now, length (ic_served s), src, c)) calls, ic_served := ic_served s @ [(src, r)]\<rparr>"

lemma ic_extend_frame [simp]:
  "ic_nb_masters (ic_extend now src r cs s) = ic_nb_masters s" "ic_nb_slaves (ic_extend now src r cs s) = ic_nb_slaves s"
  "ic_nb_wide (ic_extend now src r cs s) = ic_nb_wide s" "ic_iw (ic_extend now src r cs s) = ic_iw s"
  "ic_slave_bits (ic_extend now src r cs s) = ic_slave_bits s" "ic_requeue (ic_extend now src r cs s) = ic_requeue s"
  "ic_pending (ic_extend now src r cs s) = ic_pending s" "ic_rr_next (ic_extend now src r cs s) = ic_rr_next s"
  "ic_wide (ic_extend now src r cs s) = ic_wide s" "ic_in_election (ic_extend now src r cs s) = ic_in_election s"
  "ic_wide_retrying (ic_extend now src r cs s) = ic_wide_retrying s" "ic_banks_busy (ic_extend now src r cs s) = ic_banks_busy s"
  "ic_banks_busy_cycle (ic_extend now src r cs s) = ic_banks_busy_cycle s" "ic_event (ic_extend now src r cs s) = ic_event s"
  "ic_served (ic_extend now src r cs s) = ic_served s @ [(src, r)]"
  "ic_log (ic_extend now src r cs s) = ic_log s @ map (\<lambda>c. (now, length (ic_served s), src, c)) cs"
  by (simp_all add: ic_extend_def)

lemma ic_enqueue_frame [simp]:
  "ic_nb_masters (ic_enqueue now d s) = ic_nb_masters s" "ic_nb_slaves (ic_enqueue now d s) = ic_nb_slaves s"
  "ic_nb_wide (ic_enqueue now d s) = ic_nb_wide s" "ic_iw (ic_enqueue now d s) = ic_iw s"
  "ic_slave_bits (ic_enqueue now d s) = ic_slave_bits s" "ic_requeue (ic_enqueue now d s) = ic_requeue s"
  "ic_pending (ic_enqueue now d s) = ic_pending s" "ic_rr_next (ic_enqueue now d s) = ic_rr_next s"
  "ic_wide (ic_enqueue now d s) = ic_wide s" "ic_in_election (ic_enqueue now d s) = ic_in_election s"
  "ic_wide_retrying (ic_enqueue now d s) = ic_wide_retrying s" "ic_banks_busy (ic_enqueue now d s) = ic_banks_busy s"
  "ic_banks_busy_cycle (ic_enqueue now d s) = ic_banks_busy_cycle s" "ic_served (ic_enqueue now d s) = ic_served s"
  "ic_log (ic_enqueue now d s) = ic_log s"
  by (simp_all add: ic_enqueue_def)

definition same_map :: "interco \<Rightarrow> interco \<Rightarrow> bool" where
  "same_map s s' \<longleftrightarrow> ic_iw s' = ic_iw s \<and> ic_slave_bits s' = ic_slave_bits s"

lemma same_map_decode:
  assumes "same_map s s'"
  shows "ic_decode_bank s' = ic_decode_bank s" and "ic_decode_offset s' = ic_decode_offset s" and "ic_chunk s' = ic_chunk s"
  using assms by (auto simp: same_map_def ic_decode_bank_def ic_decode_offset_def ic_chunk_def ic_granule_def fun_eq_iff)

lemma same_map_claim: "same_map s s' \<Longrightarrow> ic_claim_loop s' addr sz m = ic_claim_loop s addr sz m"
proof (induction s addr sz m rule: ic_claim_loop.induct)
  case (1 s addr sz m)
  then show ?case by (subst (1 2) ic_claim_loop.simps) (simp add: Let_def same_map_decode)
qed

text \<open>The pieces of an access: bank, offset, size and distance from the start.\<close>

function ic_pieces :: "interco \<Rightarrow> u64 \<Rightarrow> nat \<Rightarrow> nat \<Rightarrow> (nat \<times> u64 \<times> nat \<times> nat) list" where
  "ic_pieces s addr sz at =
     (if sz = 0 then []
      else let chunk = ic_chunk s addr sz
           in (ic_decode_bank s addr, ic_decode_offset s addr, chunk, at) # ic_pieces s (addr + of_nat chunk) (sz - chunk) (at + chunk))"
  by pat_completeness auto

termination
  by (relation "measure (\<lambda>(_, _, sz, _). sz)") (auto simp: ic_chunk_pos)

declare ic_pieces.simps [simp del]

definition piece_call :: "ic_opcode \<Rightarrow> nat option \<Rightarrow> nat option \<Rightarrow> nat \<times> u64 \<times> nat \<times> nat \<Rightarrow> bank_call" where
  "piece_call opc data strb = (\<lambda>(b, off, n, at). \<lparr>bc_bank = b, bc_offset = off, bc_size = n, bc_opcode = opc,
     bc_data = map_option (\<lambda>p. p + at) data, bc_strb = map_option (\<lambda>p. p + at) strb\<rparr>)"

lemma bank_piece_call [simp]: "bc_bank (piece_call opc data strb p) = fst p"
  by (cases p) (simp add: piece_call_def)

lemma forward_loop_log:
  "\<exists>st' lat'. ic_forward_loop ans now i opc addr sz (map_option (\<lambda>p. p + at) data) (map_option (\<lambda>p. p + at) strb) (st, lat, s)
    = (st', lat', s\<lparr>ic_log := ic_log s @ map (\<lambda>p. (now, length (ic_served s), Wide i, piece_call opc data strb p)) (ic_pieces s addr sz at)\<rparr>)"
proof (induction sz arbitrary: addr at st lat s rule: less_induct)
  case (less sz)
  show ?case
  proof (cases "sz = 0")
    case True
    then show ?thesis by (simp add: ic_forward_loop.simps ic_pieces.simps)
  next
    case False
    let ?n = "ic_chunk s addr sz"
    let ?c = "piece_call opc data strb (ic_decode_bank s addr, ic_decode_offset s addr, ?n, at)"
    let ?s = "ic_access now (Wide i) ?c s"
    have smaller: "sz - ?n < sz" using False ic_chunk_pos [of sz s addr] by simp
    have comp: "map_option (\<lambda>p. p + ?n) (map_option (\<lambda>p. p + at) x) = map_option (\<lambda>p. p + (at + ?n)) x" for x :: "nat option"
      by (cases x) (simp_all add: add.assoc)
    have pieces: "ic_pieces ?s = ic_pieces s"
    proof -
      have "ic_pieces ?s a n k = ic_pieces s a n k" for a n k
        by (induction n arbitrary: a k rule: less_induct)
          (subst (1 2) ic_pieces.simps, simp add: Let_def ic_chunk_pos ic_access_def ic_chunk_def ic_granule_def ic_decode_bank_def ic_decode_offset_def)
      then show ?thesis by (simp add: fun_eq_iff)
    qed
    obtain st1 l1 where a: "ans (length (ic_log s)) = (st1, l1)" by (cases "ans (length (ic_log s))")
    let ?st = "if st1 \<noteq> Resp_ok then st1 else st" and ?lat = "if l1 > lat then l1 else lat"
    have loop: "ic_forward_loop ans now i opc addr sz (map_option (\<lambda>p. p + at) data) (map_option (\<lambda>p. p + at) strb) (st, lat, s)
        = ic_forward_loop ans now i opc (addr + of_nat ?n) (sz - ?n) (map_option (\<lambda>p. p + (at + ?n)) data)
            (map_option (\<lambda>p. p + (at + ?n)) strb) (?st, ?lat, ?s)"
      using False by (subst ic_forward_loop.simps) (simp add: Let_def a comp piece_call_def cong del: if_weak_cong)
    have first: "ic_pieces s addr sz at = (ic_decode_bank s addr, ic_decode_offset s addr, ?n, at) # ic_pieces s (addr + of_nat ?n) (sz - ?n) (at + ?n)"
      using False by (subst ic_pieces.simps) (simp add: Let_def)
    obtain st' lat' where "ic_forward_loop ans now i opc (addr + of_nat ?n) (sz - ?n) (map_option (\<lambda>p. p + (at + ?n)) data)
        (map_option (\<lambda>p. p + (at + ?n)) strb) (?st, ?lat, ?s)
      = (st', lat', ?s\<lparr>ic_log := ic_log ?s @ map (\<lambda>p. (now, length (ic_served ?s), Wide i, piece_call opc data strb p))
          (ic_pieces ?s (addr + of_nat ?n) (sz - ?n) (at + ?n))\<rparr>)"
      using less [OF smaller, of "addr + of_nat ?n" "at + ?n" ?st ?lat ?s] by blast
    then show ?thesis unfolding loop first pieces by (simp add: ic_access_def)
  qed
qed

lemma claim_loop_pieces:
  assumes "mask_ok n m" "\<And>a. ic_decode_bank s a < n"
  shows "mask_ok n (ic_claim_loop s addr sz m) \<and> (in_mask (ic_claim_loop s addr sz m) b \<longleftrightarrow> in_mask m b \<or> b \<in> fst ` set (ic_pieces s addr sz at))"
  using assms(1)
proof (induction sz arbitrary: addr m at rule: less_induct)
  case (less sz)
  show ?case
  proof (cases "sz = 0")
    case True
    then show ?thesis using less.prems by (simp add: ic_claim_loop.simps ic_pieces.simps)
  next
    case False
    let ?n = "ic_chunk s addr sz"
    have smaller: "sz - ?n < sz" using False ic_chunk_pos [of sz s addr] by simp
    have set: "mask_ok n (mask_set (ic_decode_bank s addr) m)" by (rule mask_set_ok(1) [OF less.prems assms(2)])
    from less.IH [OF smaller this, of "addr + of_nat ?n" "at + ?n"] show ?thesis
      using False mask_set_ok(2) [OF less.prems assms(2)]
      by (subst (1 2) ic_claim_loop.simps, subst ic_pieces.simps) (auto simp: Let_def)
  qed
qed

lemma forward_wide_effect:
  assumes "ic_forward_wide ans now i r s = Some s'"
  obtains r' where "s' = ic_extend now (Wide i) r' (map (piece_call (q_opcode r) (q_data r) (q_strb r)) (ic_pieces s (q_addr r) (unat (q_size r)) 0)) s"
proof -
  obtain st lat where "ic_forward_loop ans now i (q_opcode r) (q_addr r) (unat (q_size r)) (q_data r) (q_strb r) (q_status r, 0, s)
    = (st, lat, s\<lparr>ic_log := ic_log s @ map (\<lambda>p. (now, length (ic_served s), Wide i, piece_call (q_opcode r) (q_data r) (q_strb r) p))
        (ic_pieces s (q_addr r) (unat (q_size r)) 0)\<rparr>)"
    using forward_loop_log [of ans now i "q_opcode r" "q_addr r" "unat (q_size r)" 0 "q_data r" "q_strb r" "q_status r" 0 s]
    by (auto simp: option.map_ident)
  then have "s' = ic_extend now (Wide i) (r\<lparr>q_status := st, q_latency := q_latency r + lat\<rparr>)
      (map (piece_call (q_opcode r) (q_data r) (q_strb r)) (ic_pieces s (q_addr r) (unat (q_size r)) 0)) s"
    using assms by (simp add: ic_forward_wide_def ic_serve_def ic_extend_def comp_def split: if_splits)
  then show thesis by (rule that)
qed

subsection \<open>The invariant of the masks\<close>

definition ic_masks :: "interco \<Rightarrow> bool" where
  "ic_masks s \<longleftrightarrow> 0 < ic_nb_masters s \<and> ic_nb_slaves s = 2 ^ ic_slave_bits s \<and> ic_slave_bits s + ic_iw s < 64
     \<and> (\<forall>b < ic_nb_slaves s. mask_ok (ic_nb_masters s) (ic_pending s b) \<and> ic_rr_next s b < ic_nb_masters s)
     \<and> mask_ok (ic_nb_slaves s) (ic_banks_busy s)"

lemma ic_masks_update [simp]:
  "ic_masks (s\<lparr>ic_event := e\<rparr>) = ic_masks s" "ic_masks (s\<lparr>ic_wide := x\<rparr>) = ic_masks s"
  "ic_masks (s\<lparr>ic_in_election := y\<rparr>) = ic_masks s" "ic_masks (ic_enqueue now d s) = ic_masks s"
  by (simp_all add: ic_masks_def)

lemma decode_bank_less:
  assumes "ic_masks s"
  shows "ic_decode_bank s a < ic_nb_slaves s"
proof -
  have "unat (x AND (2 ^ n - 1 :: u64)) < 2 ^ n" if "n < 64" for n x
  proof -
    have "x AND (2 ^ n - 1) = take_bit n x" by (simp add: take_bit_eq_mask mask_eq_exp_minus_1)
    moreover have "unat (take_bit n x) = take_bit n (unat x)" by (simp only: unsigned_take_bit_eq)
    ultimately show ?thesis by (simp only: take_bit_nat_less_exp)
  qed
  then show ?thesis using assms by (simp add: ic_decode_bank_def ic_masks_def)
qed

definition span :: "interco \<Rightarrow> u64 \<Rightarrow> u64 \<Rightarrow> nat set" where
  "span s addr sz = fst ` set (ic_pieces s addr (unat sz) 0)"

lemma claim_span:
  assumes "ic_masks s"
  shows "mask_ok (ic_nb_slaves s) (ic_wide_claim_mask s addr sz)"
    and "in_mask (ic_wide_claim_mask s addr sz) b \<longleftrightarrow> b \<in> span s addr sz"
  using claim_loop_pieces [OF mask_resize_ok(1) decode_bank_less [OF assms], of addr "unat sz" b 0]
  unfolding ic_wide_claim_mask_def span_def by simp_all

lemma same_map_pieces: "same_map s s' \<Longrightarrow> ic_pieces s' addr sz at = ic_pieces s addr sz at"
proof (induction s addr sz at rule: ic_pieces.induct)
  case (1 s addr sz at)
  then show ?case by (subst (1 2) ic_pieces.simps) (simp add: Let_def same_map_decode)
qed

lemma same_map_span: "same_map s s' \<Longrightarrow> span s' addr sz = span s addr sz"
  by (simp add: span_def same_map_pieces)

subsection \<open>A bank serves one request per cycle\<close>

text \<open>\<open>T\<close> bounds the banks accessed in the current cycle.\<close>

type_synonym ic_entry = "int \<times> nat \<times> source \<times> bank_call"

fun e_time :: "ic_entry \<Rightarrow> int" where "e_time (t, n, src, c) = t"

fun e_req :: "ic_entry \<Rightarrow> nat" where "e_req (t, n, src, c) = n"

fun e_bank :: "ic_entry \<Rightarrow> nat" where "e_bank (t, n, src, c) = bc_bank c"

definition ic_uniq :: "int \<Rightarrow> nat set \<Rightarrow> interco \<Rightarrow> bool" where
  "ic_uniq now T s \<longleftrightarrow> (\<forall>e \<in> set (ic_log s). e_time e \<le> now \<and> e_req e < length (ic_served s) \<and> (e_time e = now \<longrightarrow> e_bank e \<in> T))
     \<and> (\<forall>e \<in> set (ic_log s). \<forall>f \<in> set (ic_log s). e_time e = e_time f \<and> e_bank e = e_bank f \<longrightarrow> e_req e = e_req f)"

lemma uniq_cong: "ic_log s' = ic_log s \<Longrightarrow> ic_served s' = ic_served s \<Longrightarrow> ic_uniq now T s' = ic_uniq now T s"
  by (simp add: ic_uniq_def)

lemma uniq_mono: "ic_uniq now T s \<Longrightarrow> T \<subseteq> T' \<Longrightarrow> ic_uniq now T' s"
  unfolding ic_uniq_def by blast

lemma uniq_later: "ic_uniq now T s \<Longrightarrow> now < now' \<Longrightarrow> ic_uniq now' {} s"
proof -
  assume u: "ic_uniq now T s" "now < now'"
  have "e_time e < now'" if "e \<in> set (ic_log s)" for e using u that unfolding ic_uniq_def by (meson le_less_trans)
  then show "ic_uniq now' {} s" using u(1) unfolding ic_uniq_def by (metis less_imp_le less_irrefl)
qed

lemma uniq_extend:
  assumes u: "ic_uniq now T s" and cs: "\<forall>c \<in> set cs. bc_bank c \<in> B" and disj: "T \<inter> B = {}"
  shows "ic_uniq now (T \<union> B) (ic_extend now src r cs s)"
proof -
  let ?new = "map (\<lambda>c. (now, length (ic_served s), src, c)) cs"
  have new: "e_time e = now" "e_req e = length (ic_served s)" "e_bank e \<in> B" if "e \<in> set ?new" for e
    using that cs by auto
  have old: "e_time e \<le> now" "e_req e < length (ic_served s)" "e_time e = now \<Longrightarrow> e_bank e \<in> T" if "e \<in> set (ic_log s)" for e
    using that u unfolding ic_uniq_def by blast+
  have pairs: "e_req e = e_req f" if "e \<in> set (ic_log s)" "f \<in> set (ic_log s)" "e_time e = e_time f" "e_bank e = e_bank f" for e f
    using that u unfolding ic_uniq_def by blast
  have cross: "False" if "e \<in> set (ic_log s)" "f \<in> set ?new" "e_time e = e_time f" "e_bank e = e_bank f" for e f
    using that old(3) [of e] new(1,3) [of f] disj by auto
  have all: "e \<in> set (ic_log (ic_extend now src r cs s)) \<longleftrightarrow> e \<in> set (ic_log s) \<or> e \<in> set ?new" for e by simp
  show ?thesis unfolding ic_uniq_def
  proof (intro conjI ballI impI)
    fix e assume e: "e \<in> set (ic_log (ic_extend now src r cs s))"
    show "e_time e \<le> now" "e_req e < length (ic_served (ic_extend now src r cs s))"
      using e old(1,2) [of e] new(1,2) [of e] unfolding all by fastforce+
    assume "e_time e = now"
    then show "e_bank e \<in> T \<union> B" using e old(3) [of e] new(3) [of e] unfolding all by blast
  next
    fix e f assume ef: "e \<in> set (ic_log (ic_extend now src r cs s))" "f \<in> set (ic_log (ic_extend now src r cs s))"
      "e_time e = e_time f \<and> e_bank e = e_bank f"
    then show "e_req e = e_req f" using pairs [of e f] cross [of e f] cross [of f e] new(2) [of e] new(2) [of f] unfolding all by metis
  qed
qed

definition ic_kept :: "interco \<Rightarrow> interco \<Rightarrow> bool" where
  "ic_kept s s' \<longleftrightarrow> ic_nb_masters s' = ic_nb_masters s \<and> ic_nb_slaves s' = ic_nb_slaves s \<and> ic_nb_wide s' = ic_nb_wide s
     \<and> same_map s s' \<and> ic_requeue s' = ic_requeue s
     \<and> ic_in_election s' = ic_in_election s \<and> ic_banks_busy_cycle s' = ic_banks_busy_cycle s \<and> ic_event s' = ic_event s
     \<and> ic_wide_retrying s' = ic_wide_retrying s"

definition reissues :: "ic_callback \<Rightarrow> source \<Rightarrow> (ic_req \<Rightarrow> bool) \<Rightarrow> bool" where
  "reissues cb src P \<longleftrightarrow> (case cb src of [(src', r)] \<Rightarrow> src' = src \<and> P r | _ \<Rightarrow> False)"

lemma reissuesE:
  assumes "reissues cb src P"
  obtains r where "cb src = [(src, r)]" "P r"
  using assms that unfolding reissues_def by (cases "cb src"; cases "hd (cb src)"; cases "tl (cb src)") auto

text \<open>The wide masters that have to be retried, and what they send.\<close>

definition wide_ready :: "ic_callback \<Rightarrow> interco \<Rightarrow> nat \<Rightarrow> bool" where
  "wide_ready cb s w \<longleftrightarrow> (w_pending (ic_wide s w) \<longrightarrow>
     reissues cb (Wide w) (\<lambda>r. q_addr r = w_addr (ic_wide s w) \<and> q_size r = w_size (ic_wide s w)))"

definition narrow_ready :: "ic_callback \<Rightarrow> interco \<Rightarrow> nat \<Rightarrow> nat \<Rightarrow> bool" where
  "narrow_ready cb s b i \<longleftrightarrow> (mask_test (ic_pending s b) i \<longrightarrow> reissues cb (Narrow i) (\<lambda>r. ic_decode_bank s (q_addr r) = b))"

lemma wide_election_effect:
  assumes "ic_wide_election ans now cb ws taken remaining s = Some (taken', remaining', s')"
    and "mask_ok (ic_nb_slaves s) taken" "ic_masks s" "ic_wide_retrying s = -1"
    and "\<forall>w \<in> set ws. wide_ready cb s w" "distinct ws"
    and "ic_uniq now {b. in_mask taken b} s" "\<forall>b. in_mask taken b \<longrightarrow> in_mask (ic_banks_busy s) b"
  shows "ic_kept s s' \<and> ic_pending s' = ic_pending s \<and> ic_rr_next s' = ic_rr_next s \<and> ic_masks s'
    \<and> mask_ok (ic_nb_slaves s) taken' \<and> ic_uniq now {b. in_mask taken' b} s'
    \<and> (\<forall>b. in_mask taken' b \<longrightarrow> in_mask (ic_banks_busy s') b) \<and> (remaining \<longrightarrow> remaining')
    \<and> (\<forall>w \<in> set ws. w_pending (ic_wide s' w) \<longrightarrow> remaining') \<and> (\<forall>w. w \<notin> set ws \<longrightarrow> ic_wide s' w = ic_wide s w)
    \<and> (\<exists>new. ic_served s' = ic_served s @ new \<and> (\<forall>(src, r) \<in> set new. \<exists>w. src = Wide w))"
  using assms
proof (induction ws arbitrary: taken remaining s)
  case Nil
  then show ?case by (simp add: ic_kept_def same_map_def)
next
  case (Cons w ws)
  let ?claim = "ic_wide_claim_mask s (w_addr (ic_wide s w)) (w_size (ic_wide s w))"
  consider (quiet) "\<not> w_pending (ic_wide s w)" | (clash) "w_pending (ic_wide s w)" "mask_intersects ?claim taken"
    | (elected) "w_pending (ic_wide s w)" "\<not> mask_intersects ?claim taken" by blast
  then show ?case
  proof cases
    case quiet
    have "ic_wide_election ans now cb ws taken remaining s = Some (taken', remaining', s')" using Cons.prems(1) quiet by simp
    from Cons.IH [OF this Cons.prems(2-4)] Cons.prems(5-8) quiet show ?thesis by auto
  next
    case clash
    have "ic_wide_election ans now cb ws taken True s = Some (taken', remaining', s')" using Cons.prems(1) clash by (simp add: Let_def)
    from Cons.IH [OF this Cons.prems(2-4)] Cons.prems(5-8) show ?thesis by auto
  next
    case elected
    obtain r where cb: "cb (Wide w) = [(Wide w, r)]" and r: "q_addr r = w_addr (ic_wide s w)" "q_size r = w_size (ic_wide s w)"
      using Cons.prems(5) elected(1) by (auto simp: wide_ready_def elim: reissuesE)
    let ?s1 = "s\<lparr>ic_banks_busy := mask_merge ?claim (ic_banks_busy s),
      ic_wide := (ic_wide s)(w := (ic_wide s w)\<lparr>w_pending := False\<rparr>), ic_wide_retrying := int w\<rparr>"
    have run: "case ic_forward_wide ans now w r ?s1 of None \<Rightarrow> False
        | Some s2 \<Rightarrow> ic_wide_election ans now cb ws (mask_merge ?claim taken) remaining (s2\<lparr>ic_wide_retrying := -1\<rparr>) = Some (taken', remaining', s')"
      using Cons.prems(1) elected by (auto simp: Let_def cb ic_port_req_def ic_wide_input_req_def split: option.splits)
    then obtain s2 where s2: "ic_forward_wide ans now w r ?s1 = Some s2"
        and rest: "ic_wide_election ans now cb ws (mask_merge ?claim taken) remaining (s2\<lparr>ic_wide_retrying := -1\<rparr>) = Some (taken', remaining', s')"
      by (auto split: option.splits)
    define cs where "cs = map (piece_call (q_opcode r) (q_data r) (q_strb r)) (ic_pieces ?s1 (q_addr r) (unat (q_size r)) 0)"
    obtain r' where ext: "s2 = ic_extend now (Wide w) r' cs ?s1" unfolding cs_def by (rule forward_wide_effect [OF s2])
    have cs: "bc_bank ` set cs = span ?s1 (q_addr r) (q_size r)" by (simp add: cs_def span_def image_image)
    have "same_map s ?s1" by (simp add: same_map_def)
    then have cs: "bc_bank ` set cs = span s (w_addr (ic_wide s w)) (w_size (ic_wide s w))" using cs r by (simp add: same_map_span)
    let ?s3 = "s2\<lparr>ic_wide_retrying := -1\<rparr>"
    note claim = claim_span [OF Cons.prems(3)]
    have taken: "mask_ok (ic_nb_slaves s) (mask_merge ?claim taken)"
        "{b. in_mask (mask_merge ?claim taken) b} = {b. in_mask taken b} \<union> bc_bank ` set cs"
      using mask_merge_ok [OF Cons.prems(2) claim(1)] by (auto simp: cs claim(2))
    have busy: "mask_ok (ic_nb_slaves s) (ic_banks_busy s)" using Cons.prems(3) unfolding ic_masks_def by blast
    have masks: "ic_masks ?s3" using Cons.prems(3) mask_merge_ok(1) [OF busy claim(1)] by (simp add: ext ic_masks_def)
    have "{b. in_mask taken b} \<inter> bc_bank ` set cs = {}"
      using elected(2) mask_intersects_iff [OF claim(1) Cons.prems(2)] by (auto simp: cs claim(2))
    moreover have "ic_uniq now {b. in_mask taken b} ?s1" using Cons.prems(7) uniq_cong [of ?s1 s] by simp
    ultimately have "ic_uniq now ({b. in_mask taken b} \<union> bc_bank ` set cs) s2" unfolding ext by (intro uniq_extend) auto
    then have uniq: "ic_uniq now {b. in_mask (mask_merge ?claim taken) b} ?s3"
      unfolding taken(2) using uniq_cong [of ?s3 s2] by simp
    have sub: "\<forall>b. in_mask (mask_merge ?claim taken) b \<longrightarrow> in_mask (ic_banks_busy ?s3) b"
      using Cons.prems(8) mask_merge_ok(2) [OF Cons.prems(2) claim(1)] mask_merge_ok(2) [OF busy claim(1)] by (auto simp: ext)
    have ready: "\<forall>w \<in> set ws. wide_ready cb ?s3 w" using Cons.prems(5,6) by (auto simp: wide_ready_def ext)
    have d: "w \<notin> set ws" "distinct ws" using Cons.prems(6) by simp_all
    have sizes: "ic_nb_slaves ?s3 = ic_nb_slaves s" by (simp add: ext)
    note ih = Cons.IH [OF rest _ masks _ ready d(2) uniq sub, unfolded sizes, OF taken(1)]
    have ih: "ic_kept ?s3 s' \<and> ic_pending s' = ic_pending ?s3 \<and> ic_rr_next s' = ic_rr_next ?s3 \<and> ic_masks s'
      \<and> mask_ok (ic_nb_slaves s) taken' \<and> ic_uniq now {b. in_mask taken' b} s'
      \<and> (\<forall>b. in_mask taken' b \<longrightarrow> in_mask (ic_banks_busy s') b) \<and> (remaining \<longrightarrow> remaining')
      \<and> (\<forall>w \<in> set ws. w_pending (ic_wide s' w) \<longrightarrow> remaining') \<and> (\<forall>w. w \<notin> set ws \<longrightarrow> ic_wide s' w = ic_wide ?s3 w)
      \<and> (\<exists>new. ic_served s' = ic_served ?s3 @ new \<and> (\<forall>(src, r) \<in> set new. \<exists>w. src = Wide w))"
      by (rule ih) simp
    have "ic_kept s s'" using ih Cons.prems(4) by (simp add: ext ic_kept_def same_map_def)
    moreover have "ic_pending s' = ic_pending s" "ic_rr_next s' = ic_rr_next s" using ih by (simp_all add: ext)
    moreover have "\<not> w_pending (ic_wide s' w)" using ih d(1) by (simp add: ext)
    moreover have "ic_wide s' v = ic_wide s v" if "v \<notin> set (w # ws)" for v using ih that by (simp add: ext)
    moreover have "\<exists>new. ic_served s' = ic_served s @ new \<and> (\<forall>(src, r) \<in> set new. \<exists>w. src = Wide w)"
    proof -
      obtain new where "ic_served s' = ic_served ?s3 @ new" "\<forall>(src, r) \<in> set new. \<exists>w. src = Wide w" using ih by blast
      then show ?thesis by (intro exI [of _ "(Wide w, r') # new"]) (simp add: ext)
    qed
    ultimately show ?thesis using ih by simp
  qed
qed

text \<open>
  The banks: \<open>T\<close> bounds those accessed before. Each elected master has its request served, and keeps
  its place in the round robin.
\<close>

definition elects :: "bitset \<Rightarrow> nat \<Rightarrow> interco \<Rightarrow> interco \<Rightarrow> bool" where
  "elects taken b s s' \<longleftrightarrow> (if mask_any (ic_pending s b) \<and> \<not> mask_test taken b
     then \<exists>w. mask_first_from (ic_pending s b) (ic_rr_next s b) = Some w \<and> ic_pending s' b = mask_reset w (ic_pending s b)
       \<and> ic_rr_next s' b = (w + 1) mod ic_nb_masters s \<and> (\<exists>r. (Narrow w, r) \<in> set (drop (length (ic_served s)) (ic_served s')))
     else ic_pending s' b = ic_pending s b \<and> ic_rr_next s' b = ic_rr_next s b)"

lemma elects_later:
  assumes "elects taken b u v" "ic_pending u b = ic_pending s b" "ic_rr_next u b = ic_rr_next s b" "ic_nb_masters u = ic_nb_masters s"
    and "ic_pending v b = ic_pending s' b" "ic_rr_next v b = ic_rr_next s' b"
    and "set (drop (length (ic_served u)) (ic_served v)) \<subseteq> set (drop (length (ic_served s)) (ic_served s'))"
  shows "elects taken b s s'"
  using assms(1,7) unfolding elects_def assms(2-6) by (auto split: if_splits)

lemma narrow_election_effect:
  assumes "ic_narrow_election ans now cb bs taken remaining s = Some (remaining', s')"
    and "ic_masks s" "ic_in_election s" "ic_wide_retrying s = -1"
    and "\<forall>b \<in> set bs. b < ic_nb_slaves s \<and> (\<forall>i < ic_nb_masters s. narrow_ready cb s b i)" "distinct bs"
    and "ic_uniq now T s" "\<forall>b \<in> set bs. b \<in> T \<longrightarrow> mask_test taken b" "\<forall>b \<in> T. in_mask (ic_banks_busy s) b"
  shows "ic_kept s s' \<and> ic_wide s' = ic_wide s \<and> ic_masks s'
    \<and> (\<exists>T'. ic_uniq now T' s' \<and> (\<forall>b \<in> T'. in_mask (ic_banks_busy s') b))
    \<and> (remaining \<longrightarrow> remaining') \<and> (\<forall>b \<in> set bs. mask_any (ic_pending s' b) \<longrightarrow> remaining')
    \<and> (\<forall>b. b \<notin> set bs \<longrightarrow> ic_pending s' b = ic_pending s b \<and> ic_rr_next s' b = ic_rr_next s b)
    \<and> (\<forall>b \<in> set bs. elects taken b s s') \<and> (\<exists>new. ic_served s' = ic_served s @ new)"
  using assms
proof (induction bs arbitrary: T remaining s)
  case Nil
  then show ?case by (auto simp: ic_kept_def same_map_def)
next
  case (Cons b bs)
  have d: "b \<notin> set bs" "distinct bs" using Cons.prems(6) by simp_all
  have b: "b < ic_nb_slaves s" using Cons.prems(5) by simp
  consider (quiet) "\<not> mask_any (ic_pending s b)" | (clash) "mask_any (ic_pending s b)" "mask_test taken b"
    | (elected) "mask_any (ic_pending s b)" "\<not> mask_test taken b" by blast
  then show ?case
  proof cases
    case quiet
    have run: "ic_narrow_election ans now cb bs taken remaining s = Some (remaining', s')" using Cons.prems(1) quiet by simp
    note ih = Cons.IH [OF run Cons.prems(2-4) _ d(2) Cons.prems(7) _ Cons.prems(9)]
    have ih: "ic_kept s s' \<and> ic_wide s' = ic_wide s \<and> ic_masks s'
      \<and> (\<exists>T'. ic_uniq now T' s' \<and> (\<forall>b \<in> T'. in_mask (ic_banks_busy s') b))
      \<and> (remaining \<longrightarrow> remaining') \<and> (\<forall>b \<in> set bs. mask_any (ic_pending s' b) \<longrightarrow> remaining')
      \<and> (\<forall>b. b \<notin> set bs \<longrightarrow> ic_pending s' b = ic_pending s b \<and> ic_rr_next s' b = ic_rr_next s b)
      \<and> (\<forall>b \<in> set bs. elects taken b s s') \<and> (\<exists>new. ic_served s' = ic_served s @ new)"
      by (rule ih) (use Cons.prems(5,8) in simp_all)
    then have "ic_pending s' b = ic_pending s b" "ic_rr_next s' b = ic_rr_next s b" using d(1) by blast+
    then have "elects taken b s s'" "\<not> mask_any (ic_pending s' b)" using quiet by (simp_all add: elects_def)
    with ih show ?thesis by simp
  next
    case clash
    have run: "ic_narrow_election ans now cb bs taken True s = Some (remaining', s')" using Cons.prems(1) clash by simp
    note ih = Cons.IH [OF run Cons.prems(2-4) _ d(2) Cons.prems(7) _ Cons.prems(9)]
    have ih: "ic_kept s s' \<and> ic_wide s' = ic_wide s \<and> ic_masks s'
      \<and> (\<exists>T'. ic_uniq now T' s' \<and> (\<forall>b \<in> T'. in_mask (ic_banks_busy s') b))
      \<and> (True \<longrightarrow> remaining') \<and> (\<forall>b \<in> set bs. mask_any (ic_pending s' b) \<longrightarrow> remaining')
      \<and> (\<forall>b. b \<notin> set bs \<longrightarrow> ic_pending s' b = ic_pending s b \<and> ic_rr_next s' b = ic_rr_next s b)
      \<and> (\<forall>b \<in> set bs. elects taken b s s') \<and> (\<exists>new. ic_served s' = ic_served s @ new)"
      by (rule ih) (use Cons.prems(5,8) in simp_all)
    then have "ic_pending s' b = ic_pending s b" "ic_rr_next s' b = ic_rr_next s b" using d(1) by blast+
    then have "elects taken b s s'" using clash by (simp add: elects_def)
    with ih show ?thesis by simp
  next
    case elected
    have mask: "mask_ok (ic_nb_masters s) (ic_pending s b)" "ic_rr_next s b < ic_nb_masters s" "mask_ok (ic_nb_slaves s) (ic_banks_busy s)"
      using Cons.prems(2) b unfolding ic_masks_def by blast+
    obtain w where w: "mask_first_from (ic_pending s b) (ic_rr_next s b) = Some w"
      using Cons.prems(1) elected by (auto split: option.splits)
    have "find (mask_test (ic_pending s b)) ([ic_rr_next s b..<ic_nb_masters s] @ [0..<ic_rr_next s b]) = Some w"
      using w by (simp only: first_from_scan [OF mask(1,2)])
    then have wn: "w < ic_nb_masters s" "mask_test (ic_pending s b) w"
      using find_SomeD mask(2) by fastforce+
    obtain r where cb: "cb (Narrow w) = [(Narrow w, r)]" and r: "ic_decode_bank s (q_addr r) = b"
      using Cons.prems(5) wn by (auto simp: narrow_ready_def elim: reissuesE)
    let ?s1 = "s\<lparr>ic_pending := (ic_pending s)(b := mask_reset w (ic_pending s b)),
      ic_rr_next := (ic_rr_next s)(b := (w + 1) mod ic_nb_masters s), ic_banks_busy := mask_set b (ic_banks_busy s)\<rparr>"
    define s2 where "s2 = snd (ic_input_req ans now w r ?s1)"
    have map: "same_map s ?s1" by (simp add: same_map_def)
    obtain r' c where ext: "s2 = ic_extend now (Narrow w) r' [c] ?s1" and c: "bc_bank c = b"
    proof -
      obtain st l where "ans (length (ic_log s)) = (st, l)" by (cases "ans (length (ic_log s))")
      then show thesis using that Cons.prems(3) r same_map_decode(1) [OF map]
        by (auto simp: s2_def ic_input_req_def Let_def ic_serve_def ic_access_def ic_extend_def)
    qed
    have run: "ic_narrow_election ans now cb bs taken (remaining \<or> mask_any (ic_pending s2 b)) s2 = Some (remaining', s')"
      using Cons.prems(1) elected w by (auto simp: Let_def cb ic_port_req_def s2_def split: prod.splits)
    have masks: "ic_masks s2" using Cons.prems(2) mask_reset_ok(1) [OF mask(1) wn(1)] mask_set_ok(1) [OF mask(3) b] wn(1)
      unfolding ext ic_masks_def by auto
    have "ic_uniq now T ?s1" using Cons.prems(7) uniq_cong [of ?s1 s] by simp
    moreover have "b \<notin> T" using Cons.prems(8) elected by auto
    ultimately have uniq: "ic_uniq now (T \<union> {b}) s2" unfolding ext by (intro uniq_extend) (simp_all add: c)
    have ready: "\<forall>b \<in> set bs. b < ic_nb_slaves s2 \<and> (\<forall>i < ic_nb_masters s2. narrow_ready cb s2 b i)"
    proof -
      have "same_map s s2" by (simp add: ext same_map_def)
      then show ?thesis using Cons.prems(5) d(1) same_map_decode(1) [of s s2] by (auto simp: ext narrow_ready_def)
    qed
    have sub: "\<forall>b' \<in> T \<union> {b}. in_mask (ic_banks_busy s2) b'" using Cons.prems(9) mask_set_ok(2) [OF mask(3) b] by (simp add: ext)
    note ih = Cons.IH [OF run masks _ _ ready d(2) uniq _ sub]
    have ih: "ic_kept s2 s' \<and> ic_wide s' = ic_wide s2 \<and> ic_masks s'
      \<and> (\<exists>T'. ic_uniq now T' s' \<and> (\<forall>b \<in> T'. in_mask (ic_banks_busy s') b))
      \<and> (remaining \<or> mask_any (ic_pending s2 b) \<longrightarrow> remaining') \<and> (\<forall>b \<in> set bs. mask_any (ic_pending s' b) \<longrightarrow> remaining')
      \<and> (\<forall>b. b \<notin> set bs \<longrightarrow> ic_pending s' b = ic_pending s2 b \<and> ic_rr_next s' b = ic_rr_next s2 b)
      \<and> (\<forall>b \<in> set bs. elects taken b s2 s') \<and> (\<exists>new. ic_served s' = ic_served s2 @ new)"
      by (rule ih) (use Cons.prems(3,4,8) d(1) in \<open>auto simp: ext\<close>)
    have kept: "ic_kept s s'" using ih by (simp add: ext ic_kept_def same_map_def)
    obtain new where new: "ic_served s' = ic_served s2 @ new" using ih by blast
    have at_b: "ic_pending s' b = mask_reset w (ic_pending s b)" "ic_rr_next s' b = (w + 1) mod ic_nb_masters s"
      "ic_pending s2 b = mask_reset w (ic_pending s b)"
      using ih d(1) by (simp_all add: ext)
    have "elects taken b s s'" using elected w at_b new by (auto simp: elects_def ext)
    moreover have "elects taken b' s s'" if "b' \<in> set bs" for b'
    proof -
      have "b' \<noteq> b" using that d(1) by blast
      moreover have "elects taken b' s2 s'" using ih that by blast
      ultimately show ?thesis by (elim elects_later) (use new in \<open>auto simp: ext\<close>)
    qed
    ultimately show ?thesis using ih kept at_b new by (auto simp: ext)
  qed
qed

subsection \<open>A turn of the arbiter\<close>

definition ic_shape :: "interco \<Rightarrow> bool" where
  "ic_shape s \<longleftrightarrow> ic_masks s \<and> \<not> ic_in_election s \<and> ic_wide_retrying s = -1"

definition busy_banks :: "interco \<Rightarrow> nat set" where
  "busy_banks s = {b. in_mask (ic_banks_busy s) b}"

definition ic_safe :: "int \<Rightarrow> interco \<Rightarrow> bool" where
  "ic_safe now s \<longleftrightarrow> ic_shape s \<and> ic_banks_busy_cycle s \<le> now \<and> ic_uniq (ic_banks_busy_cycle s) (busy_banks s) s"

lemma banks_busy_now_effect:
  assumes "ic_safe now s"
  shows "ic_shape (ic_banks_busy_now now s)" and "ic_uniq now (busy_banks (ic_banks_busy_now now s)) (ic_banks_busy_now now s)"
    and "ic_banks_busy_cycle (ic_banks_busy_now now s) = now"
proof -
  have busy: "mask_ok (ic_nb_slaves s) (ic_banks_busy s)" using assms unfolding ic_safe_def ic_shape_def ic_masks_def by blast
  show "ic_shape (ic_banks_busy_now now s)"
    using assms mask_clear_ok(1) [OF busy] by (auto simp: ic_banks_busy_now_def ic_safe_def ic_shape_def ic_masks_def)
  show "ic_uniq now (busy_banks (ic_banks_busy_now now s)) (ic_banks_busy_now now s)"
  proof (cases "ic_banks_busy_cycle s = now")
    case True
    then show ?thesis using assms by (simp add: ic_safe_def ic_banks_busy_now_def)
  next
    case False
    then have "ic_uniq now {} s" using assms uniq_later [of "ic_banks_busy_cycle s"] by (auto simp: ic_safe_def)
    then have "ic_uniq now {} (ic_banks_busy_now now s)" using uniq_cong [of "ic_banks_busy_now now s" s] by (simp add: ic_banks_busy_now_def)
    then show ?thesis by (rule uniq_mono) simp
  qed
  show "ic_banks_busy_cycle (ic_banks_busy_now now s) = now" by (simp add: ic_banks_busy_now_def)
qed

lemma banks_busy_now_frame [simp]:
  "ic_nb_masters (ic_banks_busy_now now s) = ic_nb_masters s" "ic_nb_slaves (ic_banks_busy_now now s) = ic_nb_slaves s"
  "ic_nb_wide (ic_banks_busy_now now s) = ic_nb_wide s" "ic_iw (ic_banks_busy_now now s) = ic_iw s"
  "ic_slave_bits (ic_banks_busy_now now s) = ic_slave_bits s" "ic_requeue (ic_banks_busy_now now s) = ic_requeue s"
  "ic_pending (ic_banks_busy_now now s) = ic_pending s" "ic_rr_next (ic_banks_busy_now now s) = ic_rr_next s"
  "ic_wide (ic_banks_busy_now now s) = ic_wide s" "ic_in_election (ic_banks_busy_now now s) = ic_in_election s"
  "ic_wide_retrying (ic_banks_busy_now now s) = ic_wide_retrying s" "ic_event (ic_banks_busy_now now s) = ic_event s"
  "ic_served (ic_banks_busy_now now s) = ic_served s" "ic_log (ic_banks_busy_now now s) = ic_log s"
  by (simp_all add: ic_banks_busy_now_def)

datatype ic_ev = Request int source ic_req | Arbiter int ic_callback

fun ic_step :: "ic_answers \<Rightarrow> ic_ev \<Rightarrow> interco \<Rightarrow> interco option" where
  "ic_step ans (Request now src r) s = map_option snd (ic_port_req ans now src r s)"
| "ic_step ans (Arbiter now cb) s = ic_fsm_handler ans now cb s"

fun ic_conform :: "ic_ev \<Rightarrow> interco \<Rightarrow> bool" where
  "ic_conform (Request now src r) s \<longleftrightarrow> (case src of Narrow i \<Rightarrow> i < ic_nb_masters s | Wide w \<Rightarrow> w < ic_nb_wide s)"
| "ic_conform (Arbiter now cb) s \<longleftrightarrow> (\<forall>w \<in> set [0..<ic_nb_wide s]. wide_ready cb s w)
     \<and> (\<forall>b \<in> set [0..<ic_nb_slaves s]. \<forall>i \<in> set [0..<ic_nb_masters s]. narrow_ready cb s b i)"

text \<open>The banks that wide masters leave to a turn of the arbiter.\<close>

definition turn_taken :: "ic_answers \<Rightarrow> int \<Rightarrow> ic_callback \<Rightarrow> interco \<Rightarrow> bitset option" where
  "turn_taken ans now cb s0 = (let s = ic_banks_busy_now now (s0\<lparr>ic_event := None\<rparr>)
     in map_option fst (ic_wide_election ans now cb [0..<ic_nb_wide s] (ic_banks_busy s) False s))"

definition same_cfg :: "interco \<Rightarrow> interco \<Rightarrow> bool" where
  "same_cfg s s' \<longleftrightarrow> ic_nb_masters s' = ic_nb_masters s \<and> ic_nb_slaves s' = ic_nb_slaves s \<and> ic_nb_wide s' = ic_nb_wide s
     \<and> ic_requeue s' = ic_requeue s"

text \<open>Something waits for the arbiter.\<close>

definition ic_waits :: "interco \<Rightarrow> bool" where
  "ic_waits s \<longleftrightarrow> (\<exists>b < ic_nb_slaves s. mask_any (ic_pending s b)) \<or> (\<exists>w < ic_nb_wide s. w_pending (ic_wide s w))"

lemma fsm_handler_effect:
  assumes run: "ic_fsm_handler ans now cb s = Some s'" and safe: "ic_safe now s" and conform: "ic_conform (Arbiter now cb) s"
  shows "ic_safe now s' \<and> same_cfg s s' \<and> (\<exists>taken. turn_taken ans now cb s = Some taken \<and> (\<forall>b < ic_nb_slaves s. elects taken b s s'))
    \<and> (\<exists>new. ic_served s' = ic_served s @ new) \<and> ic_event s' = (if ic_waits s' then Some (now + 1) else ic_event s')
    \<and> (ic_event s' = None \<or> ic_event s' = Some (now + 1))"
proof -
  define s1 where "s1 = ic_banks_busy_now now (s\<lparr>ic_event := None\<rparr>)"
  have "ic_safe now (s\<lparr>ic_event := None\<rparr>)"
    using safe uniq_cong [of "s\<lparr>ic_event := None\<rparr>" s] by (simp add: ic_safe_def ic_shape_def busy_banks_def)
  note now = banks_busy_now_effect [OF this, folded s1_def]
  have s1: "ic_pending s1 = ic_pending s" "ic_rr_next s1 = ic_rr_next s" "ic_wide s1 = ic_wide s" "ic_event s1 = None"
    "ic_served s1 = ic_served s" "ic_nb_slaves s1 = ic_nb_slaves s" "ic_nb_wide s1 = ic_nb_wide s" "ic_nb_masters s1 = ic_nb_masters s"
    "ic_requeue s1 = ic_requeue s" "same_map s s1"
    by (simp_all add: s1_def same_map_def)
  obtain taken rem s2 rem' s3 where wide: "ic_wide_election ans now cb [0..<ic_nb_wide s1] (ic_banks_busy s1) False s1 = Some (taken, rem, s2)"
      and narrow: "ic_narrow_election ans now cb [0..<ic_nb_slaves s2] taken rem (s2\<lparr>ic_in_election := True\<rparr>) = Some (rem', s3)"
      and s': "s' = (if rem' then ic_enqueue now 1 (s3\<lparr>ic_in_election := False\<rparr>) else s3\<lparr>ic_in_election := False\<rparr>)"
    using run by (auto simp: ic_fsm_handler_def Let_def s1_def [symmetric] split: option.splits prod.splits)
  have taken_now: "turn_taken ans now cb s = Some taken"
    using wide by (simp add: turn_taken_def Let_def s1_def [symmetric] flip: s1_def)
  have shape: "ic_masks s1" "\<not> ic_in_election s1" "ic_wide_retrying s1 = -1" using now(1) by (simp_all add: ic_shape_def)
  have busy: "mask_ok (ic_nb_slaves s1) (ic_banks_busy s1)" using shape(1) unfolding ic_masks_def by blast
  have ready: "\<forall>w \<in> set [0..<ic_nb_wide s1]. wide_ready cb s1 w" using conform by (simp add: s1 wide_ready_def)
  note w = wide_election_effect [OF wide busy shape(1,3) ready distinct_upt now(2) [unfolded busy_banks_def]]
  have w: "ic_kept s1 s2 \<and> ic_pending s2 = ic_pending s1 \<and> ic_rr_next s2 = ic_rr_next s1 \<and> ic_masks s2
    \<and> mask_ok (ic_nb_slaves s1) taken \<and> ic_uniq now {b. in_mask taken b} s2
    \<and> (\<forall>b. in_mask taken b \<longrightarrow> in_mask (ic_banks_busy s2) b) \<and> (False \<longrightarrow> rem)
    \<and> (\<forall>w \<in> set [0..<ic_nb_wide s1]. w_pending (ic_wide s2 w) \<longrightarrow> rem) \<and> (\<forall>w. w \<notin> set [0..<ic_nb_wide s1] \<longrightarrow> ic_wide s2 w = ic_wide s1 w)
    \<and> (\<exists>new. ic_served s2 = ic_served s1 @ new \<and> (\<forall>(src, r) \<in> set new. \<exists>w. src = Wide w))"
    by (rule w) simp
  have size2: "ic_nb_slaves s2 = ic_nb_slaves s" "ic_nb_wide s2 = ic_nb_wide s" "ic_nb_masters s2 = ic_nb_masters s" "same_map s s2"
    using w s1 unfolding ic_kept_def same_map_def by simp_all
  have masks2: "ic_masks (s2\<lparr>ic_in_election := True\<rparr>)" using w by simp
  have narrow_ready: "\<forall>b \<in> set [0..<ic_nb_slaves s2]. b < ic_nb_slaves (s2\<lparr>ic_in_election := True\<rparr>)
      \<and> (\<forall>i < ic_nb_masters (s2\<lparr>ic_in_election := True\<rparr>). narrow_ready cb (s2\<lparr>ic_in_election := True\<rparr>) b i)"
  proof -
    have "same_map s (s2\<lparr>ic_in_election := True\<rparr>)" using size2(4) by (simp add: same_map_def)
    then show ?thesis using conform w s1 size2 same_map_decode(1) [of s "s2\<lparr>ic_in_election := True\<rparr>"] by (simp add: narrow_ready_def)
  qed
  have uniq2: "ic_uniq now {b. in_mask taken b} (s2\<lparr>ic_in_election := True\<rparr>)" using w uniq_cong [of "s2\<lparr>ic_in_election := True\<rparr>" s2] by simp
  have in_taken: "\<forall>b \<in> set [0..<ic_nb_slaves s2]. b \<in> {b. in_mask taken b} \<longrightarrow> mask_test taken b" by (simp add: in_mask_def)
  note n = narrow_election_effect [OF narrow masks2 _ _ narrow_ready distinct_upt uniq2 in_taken]
  have n: "ic_kept (s2\<lparr>ic_in_election := True\<rparr>) s3 \<and> ic_wide s3 = ic_wide (s2\<lparr>ic_in_election := True\<rparr>) \<and> ic_masks s3
    \<and> (\<exists>T'. ic_uniq now T' s3 \<and> (\<forall>b \<in> T'. in_mask (ic_banks_busy s3) b))
    \<and> (rem \<longrightarrow> rem') \<and> (\<forall>b \<in> set [0..<ic_nb_slaves s2]. mask_any (ic_pending s3 b) \<longrightarrow> rem')
    \<and> (\<forall>b. b \<notin> set [0..<ic_nb_slaves s2] \<longrightarrow> ic_pending s3 b = ic_pending (s2\<lparr>ic_in_election := True\<rparr>) b \<and> ic_rr_next s3 b = ic_rr_next (s2\<lparr>ic_in_election := True\<rparr>) b)
    \<and> (\<forall>b \<in> set [0..<ic_nb_slaves s2]. elects taken b (s2\<lparr>ic_in_election := True\<rparr>) s3) \<and> (\<exists>new. ic_served s3 = ic_served (s2\<lparr>ic_in_election := True\<rparr>) @ new)"
    by (rule n) (use w shape(3) in \<open>auto simp: ic_kept_def\<close>)
  obtain new1 new2 where new: "ic_served s2 = ic_served s @ new1" "ic_served s3 = ic_served s2 @ new2"
    using w n s1 by auto
  have obs: "ic_pending s' = ic_pending s3" "ic_rr_next s' = ic_rr_next s3" "ic_wide s' = ic_wide s3" "ic_served s' = ic_served s3"
    "ic_log s' = ic_log s3" "ic_banks_busy s' = ic_banks_busy s3" "ic_nb_slaves s' = ic_nb_slaves s" "ic_nb_wide s' = ic_nb_wide s"
    "ic_nb_masters s' = ic_nb_masters s" "ic_requeue s' = ic_requeue s" "ic_banks_busy_cycle s' = now" "\<not> ic_in_election s'"
    "ic_wide_retrying s' = -1" "ic_event s3 = None"
    using w n s1 now(3) shape(3) unfolding ic_kept_def by (simp_all add: s')
  have "ic_masks s'" using n by (simp add: s')
  moreover obtain T' where "ic_uniq now T' s3" "T' \<subseteq> busy_banks s3" using n by (auto simp: busy_banks_def)
  then have "ic_uniq now (busy_banks s') s'" using uniq_cong [of s' s3] uniq_mono [of now T' s3] obs by (simp add: busy_banks_def)
  ultimately have "ic_safe now s'" using obs by (simp add: ic_safe_def ic_shape_def)
  moreover have "elects taken b s s'" if "b < ic_nb_slaves s" for b
  proof -
    have "elects taken b (s2\<lparr>ic_in_election := True\<rparr>) s3" using n that size2 by simp
    then show ?thesis by (rule elects_later) (use w s1 size2 new obs in \<open>simp_all\<close>)
  qed
  moreover have "rem'" if "ic_waits s'"
    using that w n s1 size2 obs by (auto simp: ic_waits_def)
  moreover have "ic_event s' = (if rem' then Some (now + 1) else None)"
    using obs(14) by (simp add: s' ic_enqueue_def)
  moreover have "same_cfg s s'" using obs(7-10) by (simp add: same_cfg_def)
  moreover have "\<exists>new. ic_served s' = ic_served s @ new" using new obs(4) by simp
  ultimately show ?thesis using taken_now by simp
qed

subsection \<open>A request that arrives\<close>

lemma ic_safe_wide:
  assumes "ic_safe now s"
  shows "ic_safe now (s\<lparr>ic_wide := x\<rparr>)" and "ic_safe now (ic_enqueue now d s)"
proof -
  show "ic_safe now (s\<lparr>ic_wide := x\<rparr>)"
    using assms uniq_cong [of "s\<lparr>ic_wide := x\<rparr>" s] by (simp add: ic_safe_def ic_shape_def busy_banks_def)
  show "ic_safe now (ic_enqueue now d s)"
    using assms uniq_cong [of "ic_enqueue now d s" s] by (simp add: ic_safe_def ic_shape_def busy_banks_def)
qed

lemma banks_busy_now_safe: "ic_safe now s \<Longrightarrow> ic_safe now (ic_banks_busy_now now s)"
  using banks_busy_now_effect [of now s] unfolding ic_safe_def by simp

definition request_kept :: "int \<Rightarrow> interco \<Rightarrow> interco \<Rightarrow> bool" where
  "request_kept now s s' \<longleftrightarrow> same_cfg s s' \<and> (\<exists>new. ic_served s' = ic_served s @ new) \<and> ic_rr_next s' = ic_rr_next s
     \<and> (\<forall>b < ic_nb_slaves s. \<forall>i. in_mask (ic_pending s b) i \<longrightarrow> in_mask (ic_pending s' b) i)
     \<and> (ic_event s' = ic_event s \<and> (ic_waits s' \<longrightarrow> ic_waits s)
        \<or> ic_event s' = Some (case ic_event s of None \<Rightarrow> now | Some e \<Rightarrow> ic_requeue s e now))"

lemma request_effect:
  assumes run: "ic_port_req ans now src r s = Some (st, s')" and safe: "ic_safe now s" and conform: "ic_conform (Request now src r) s"
  shows "ic_safe now s' \<and> request_kept now s s'"
proof (cases src)
  case (Narrow i)
  let ?b = "ic_decode_bank s (q_addr r)"
  have i: "i < ic_nb_masters s" using conform by (simp add: Narrow)
  have masks: "ic_masks s" "\<not> ic_in_election s" using safe by (simp_all add: ic_safe_def ic_shape_def)
  have b: "?b < ic_nb_slaves s" by (rule decode_bank_less [OF masks(1)])
  have ok: "mask_ok (ic_nb_masters s) (ic_pending s ?b)" using masks(1) b unfolding ic_masks_def by blast
  let ?u = "s\<lparr>ic_pending := (ic_pending s)(?b := mask_set i (ic_pending s ?b))\<rparr>"
  have s': "s' = ic_enqueue now 0 ?u" using run masks(2) by (simp add: ic_port_req_def Narrow ic_input_req_def Let_def)
  have "ic_masks ?u" using masks(1) mask_set_ok(1) [OF ok i] by (auto simp: ic_masks_def)
  then have "ic_safe now ?u" using safe uniq_cong [of ?u s] by (simp add: ic_safe_def ic_shape_def busy_banks_def)
  then have "ic_safe now s'" unfolding s' by (rule ic_safe_wide)
  moreover have "in_mask (ic_pending s' c) j" if "in_mask (ic_pending s c) j" for c j
    using that mask_set_ok(2) [OF ok i] by (cases "c = ?b") (simp_all add: s')
  ultimately show ?thesis by (simp add: request_kept_def s' same_cfg_def ic_enqueue_def split: option.split)
next
  case (Wide w)
  have shape: "ic_masks s" "\<not> ic_in_election s" "ic_wide_retrying s = -1" using safe by (simp_all add: ic_safe_def ic_shape_def)
  let ?claim = "ic_wide_claim_mask s (q_addr r) (q_size r)" and ?s1 = "ic_banks_busy_now now s"
  note safe1 = banks_busy_now_safe [OF safe] and now1 = banks_busy_now_effect [OF safe]
  have masks1: "ic_masks ?s1" using now1(1) by (simp add: ic_shape_def)
  have run: "(if \<not> mask_intersects ?claim (ic_banks_busy ?s1)
      then map_option (Pair Ic_done) (ic_forward_wide ans now w r (?s1\<lparr>ic_banks_busy := mask_merge ?claim (ic_banks_busy ?s1)\<rparr>))
      else Some (Ic_denied, ic_wide_deny now w r ?s1)) = Some (st, s')"
    using run shape by (simp add: ic_port_req_def Wide ic_wide_input_req_def Let_def)
  show ?thesis
  proof (cases "mask_intersects ?claim (ic_banks_busy ?s1)")
    case True
    then have s': "s' = ic_wide_deny now w r ?s1" using run by simp
    then have "ic_safe now s'" unfolding s' ic_wide_deny_def by (intro ic_safe_wide safe1)
    then show ?thesis by (simp add: request_kept_def s' ic_wide_deny_def same_cfg_def ic_enqueue_def split: option.split)
  next
    case False
    let ?u = "?s1\<lparr>ic_banks_busy := mask_merge ?claim (ic_banks_busy ?s1)\<rparr>"
    from False run have fw: "ic_forward_wide ans now w r ?u = Some s'" by auto
    define cs where "cs = map (piece_call (q_opcode r) (q_data r) (q_strb r)) (ic_pieces ?u (q_addr r) (unat (q_size r)) 0)"
    obtain r' where ext: "s' = ic_extend now (Wide w) r' cs ?u" unfolding cs_def by (rule forward_wide_effect [OF fw])
    have "same_map s ?u" by (simp add: same_map_def)
    then have cs: "bc_bank ` set cs = span s (q_addr r) (q_size r)"
      using same_map_span [of s ?u "q_addr r" "q_size r"] by (simp add: cs_def span_def image_image)
    note claim = claim_span [OF shape(1), of "q_addr r" "q_size r"]
    have busy: "mask_ok (ic_nb_slaves s) (ic_banks_busy ?s1)" using masks1 unfolding ic_masks_def banks_busy_now_frame by blast
    note merge = mask_merge_ok [OF busy claim(1)]
    have "busy_banks ?s1 \<inter> bc_bank ` set cs = {}"
      using False mask_intersects_iff [OF claim(1) busy] by (auto simp: cs claim(2) busy_banks_def)
    moreover have "ic_uniq now (busy_banks ?s1) ?u" using now1(2) uniq_cong [of ?u ?s1] by simp
    ultimately have "ic_uniq now (busy_banks ?s1 \<union> bc_bank ` set cs) s'" unfolding ext by (intro uniq_extend) auto
    moreover have "busy_banks ?s1 \<union> bc_bank ` set cs = busy_banks s'" by (auto simp: busy_banks_def ext merge(2) cs claim(2))
    ultimately have "ic_uniq now (busy_banks s') s'" by simp
    moreover have "ic_masks s'" using masks1 merge(1) by (simp add: ext ic_masks_def)
    ultimately have "ic_safe now s'" using shape now1(3) by (simp add: ic_safe_def ic_shape_def ext)
    then show ?thesis by (simp add: request_kept_def ext same_cfg_def ic_waits_def)
  qed
qed

subsection \<open>Runs\<close>

fun ic_run :: "ic_answers \<Rightarrow> ic_ev list \<Rightarrow> interco \<Rightarrow> interco option" where
  "ic_run ans [] s = Some s"
| "ic_run ans (e # es) s = (case ic_step ans e s of None \<Rightarrow> None | Some s' \<Rightarrow> ic_run ans es s')"

fun ic_time :: "ic_ev \<Rightarrow> int" where
  "ic_time (Request now src r) = now"
| "ic_time (Arbiter now cb) = now"

fun is_turn :: "ic_ev \<Rightarrow> bool" where
  "is_turn (Request now src r) = False"
| "is_turn (Arbiter now cb) = True"

text \<open>
  Events in the order of time, from masters that follow the protocol; the arbiter runs at the cycle it is
  enqueued for, before anything later.
\<close>

fun ic_paced :: "ic_answers \<Rightarrow> int \<Rightarrow> ic_ev list \<Rightarrow> interco \<Rightarrow> bool" where
  "ic_paced ans now [] s \<longleftrightarrow> True"
| "ic_paced ans now (e # es) s \<longleftrightarrow> now \<le> ic_time e \<and> ic_conform e s
     \<and> (case ic_event s of None \<Rightarrow> \<not> is_turn e | Some t \<Rightarrow> ic_time e \<le> t \<and> (is_turn e \<longrightarrow> ic_time e = t))
     \<and> (case ic_step ans e s of None \<Rightarrow> True | Some s' \<Rightarrow> ic_paced ans (ic_time e) es s')"

lemma ic_step_safe:
  assumes "ic_step ans e s = Some s'" "ic_safe now s" "now \<le> ic_time e" "ic_conform e s"
  shows "ic_safe (ic_time e) s' \<and> same_cfg s s' \<and> (\<exists>new. ic_served s' = ic_served s @ new)"
proof -
  have safe: "ic_safe (ic_time e) s" using assms(2,3) by (simp add: ic_safe_def)
  show ?thesis
  proof (cases e)
    case (Request now src r)
    then obtain st where "ic_port_req ans now src r s = Some (st, s')" using assms(1) by auto
    from request_effect [OF this] safe assms(4) show ?thesis by (simp add: Request request_kept_def)
  next
    case (Arbiter now cb)
    have "ic_fsm_handler ans now cb s = Some s'" using assms(1) by (simp add: Arbiter)
    from fsm_handler_effect [OF this] safe assms(4) show ?thesis by (simp add: Arbiter)
  qed
qed

lemma ic_run_safe:
  assumes "ic_run ans es s = Some s'" "ic_safe now s" "ic_paced ans now es s"
  shows "\<exists>now'. now \<le> now' \<and> ic_safe now' s' \<and> same_cfg s s'"
  using assms
proof (induction es arbitrary: now s)
  case Nil
  then show ?case by (auto simp: same_cfg_def)
next
  case (Cons e es)
  obtain u where u: "ic_step ans e s = Some u" using Cons.prems(1) by (auto split: option.splits)
  have e: "now \<le> ic_time e" "ic_conform e s" "ic_paced ans (ic_time e) es u" using Cons.prems(3) u by auto
  note step = ic_step_safe [OF u Cons.prems(2) e(1,2)]
  obtain now' where "ic_time e \<le> now'" "ic_safe now' s'" "same_cfg u s'" using Cons.IH [of u "ic_time e"] Cons.prems(1) u step e(3) by auto
  then show ?case using e(1) step by (intro exI [of _ now']) (simp add: same_cfg_def)
qed

lemma bit_length_mask: "bit_length (2 ^ k - 1) = k"
proof (induction k)
  case (Suc k)
  obtain m where "(2 :: nat) ^ k = Suc m" by (cases "(2 :: nat) ^ k") simp_all
  then have "(2 ^ Suc k - 1) div 2 = (2 ^ k - 1 :: nat)" "2 ^ Suc k - 1 \<noteq> (0 :: nat)" by simp_all
  then show ?case using Suc by (subst bit_length.simps) simp
qed (simp add: bit_length.simps)

lemma ceil_log2_power: "ceil_log2_u (2 ^ k) = k"
proof (cases k)
  case (Suc j)
  have "\<not> 2 ^ Suc j \<le> (1 :: nat)" using one_less_power [of "2 :: nat" "Suc j"] by simp
  then show ?thesis unfolding Suc ceil_log2_u_def using bit_length_mask [of "Suc j"] by (simp only: if_False)
qed (simp add: ceil_log2_u_def)

lemma ic_new_safe:
  assumes "ic_new nb_masters (2 ^ k) nb_wide iw requeue = Some s" "k + iw < 64"
  shows "ic_safe 0 s" and "ic_log s = []" and "\<not> ic_waits s" and "ic_event s = None"
proof -
  have ic: "0 < nb_masters" "ic_nb_masters s = nb_masters" "ic_nb_slaves s = 2 ^ k" "ic_slave_bits s = k" "ic_iw s = iw"
      "ic_pending s = (\<lambda>_. mask_resize nb_masters)" "ic_rr_next s = (\<lambda>_. 0)" "ic_banks_busy s = mask_resize (2 ^ k)"
      "ic_banks_busy_cycle s = -1" "\<not> ic_in_election s" "ic_wide_retrying s = -1" "ic_log s = []" "ic_event s = None"
      "\<And>w. \<not> w_pending (ic_wide s w)"
    using assms(1) ceil_log2_power [of k] by (auto simp: ic_new_def split: if_splits)
  show "ic_log s = []" "ic_event s = None" by (fact ic)+
  show "ic_safe 0 s" using ic assms(2) by (simp add: ic_safe_def ic_shape_def ic_masks_def ic_uniq_def)
  show "\<not> ic_waits s" using ic mask_any_iff [of nb_masters "mask_resize nb_masters"] by (simp add: ic_waits_def)
qed

end
