(* ===== verification/Interco_Fair.thy ===== *)
theory Interco_Fair
  imports Interco_Runs
begin

section \<open>What the TCDM interconnect promises\<close>

subsection \<open>One request per bank and cycle\<close>

text \<open>Narrow masters, two banks of four-byte granules, wide masters whose accesses span both banks.\<close>

definition ic_word :: "u64 \<Rightarrow> u64 \<Rightarrow> ic_req" where
  "ic_word addr sz = \<lparr>q_addr = addr, q_size = sz, q_opcode = Op_read, q_data = Some 0, q_strb = None, q_status = Resp_ok, q_latency = 0\<rparr>"

definition ic_example :: "nat \<Rightarrow> nat \<Rightarrow> interco" where
  "ic_example narrow wide = (case ic_new narrow 2 wide 2 min of Some s \<Rightarrow> s | None \<Rightarrow> undefined)"

lemma ic_example_new: "0 < narrow \<Longrightarrow> ic_new narrow (2 ^ 1) wide 2 min = Some (ic_example narrow wide)"
  by (simp add: ic_example_def ic_new_def)

definition ic_fast :: ic_answers where
  "ic_fast n = (Resp_ok, 0)"

text \<open>Every master that is retried sends the same word again.\<close>

definition ic_again :: "(nat \<Rightarrow> u64) \<Rightarrow> u64 \<Rightarrow> ic_callback" where
  "ic_again narrow wide src = (case src of Narrow i \<Rightarrow> [(src, ic_word (narrow i) 4)] | Wide w \<Rightarrow> [(src, ic_word wide 8)])"

definition ic_busy_run :: "ic_ev list" where
  "ic_busy_run =
     [Request 0 (Narrow 0) (ic_word 0 4), Request 0 (Narrow 1) (ic_word 8 4), Arbiter 0 (ic_again (\<lambda>i. of_nat i * 8) 0),
      Request 1 (Wide 0) (ic_word 0 8), Arbiter 1 (ic_again (\<lambda>i. of_nat i * 8) 0), Arbiter 2 (ic_again (\<lambda>i. of_nat i * 8) 0)]"

text \<open>
  C28. A bank serves one request per cycle. In every run, with masters that follow the protocol, two accesses
  of the same bank in the same cycle belong to the same request, whether it is a narrow or a wide
  one, served on arrival or elected by the arbiter, and however often the arbiter runs in the cycle.
\<close>

theorem interco_one_request_per_bank:
  assumes "ic_new nb_masters (2 ^ k) nb_wide iw requeue = Some s0" and "k + iw < 64"
    and "ic_run ans es s0 = Some s" and "ic_paced ans 0 es s0"
    and "(t, n, src, c) \<in> set (ic_log s)" and "(t, n', src', c') \<in> set (ic_log s)" and "bc_bank c = bc_bank c'"
  shows "n = n'"
proof -
  obtain now where "ic_safe now s" using ic_run_safe [OF assms(3) ic_new_safe(1) [OF assms(1,2)] assms(4)] by blast
  then have "\<forall>e \<in> set (ic_log s). \<forall>f \<in> set (ic_log s). e_time e = e_time f \<and> e_bank e = e_bank f \<longrightarrow> e_req e = e_req f"
    unfolding ic_safe_def ic_uniq_def by blast
  from this [rule_format, OF assms(5,6)] assms(7) show ?thesis by simp
qed

lemma ic_busy_run_ok: "ic_paced ic_fast 0 ic_busy_run (ic_example 2 1)"
  by code_simp

lemma ic_busy_run_log:
  "map_option (\<lambda>s. map (\<lambda>(t, n, src, c). (t, n, src, bc_bank c)) (ic_log s)) (ic_run ic_fast ic_busy_run (ic_example 2 1))
    = Some [(0, 0, Narrow 0, 0), (1, 1, Wide 0, 0), (1, 1, Wide 0, 1), (2, 2, Narrow 1, 0)]"
  by code_simp

theorem interco_one_request_per_bank_witness:
  "\<exists>s. ic_run ic_fast ic_busy_run (ic_example 2 1) = Some s
     \<and> (\<forall>e \<in> set (ic_log s). \<forall>f \<in> set (ic_log s). e_time e = e_time f \<and> e_bank e = e_bank f \<longrightarrow> e_req e = e_req f)"
proof -
  obtain s where s: "ic_run ic_fast ic_busy_run (ic_example 2 1) = Some s"
    using ic_busy_run_log by (cases "ic_run ic_fast ic_busy_run (ic_example 2 1)") simp_all
  have "e_req e = e_req f" if ef: "e \<in> set (ic_log s)" "f \<in> set (ic_log s)" "e_time e = e_time f" "e_bank e = e_bank f" for e f
  proof -
    obtain t n src c where e: "e = (t, n, src, c)" by (cases e)
    obtain n' src' c' where f: "f = (t, n', src', c')" using ef(3) by (cases f) (simp add: e)
    have "n = n'"
    proof (rule interco_one_request_per_bank [OF ic_example_new [of 2 1] _ s ic_busy_run_ok])
      show "(t, n, src, c) \<in> set (ic_log s)" "(t, n', src', c') \<in> set (ic_log s)" "bc_bank c = bc_bank c'"
        using ef by (simp_all add: e f)
    qed simp_all
    then show ?thesis by (simp add: e f)
  qed
  with s show ?thesis by blast
qed

subsection \<open>No turn is lost\<close>

definition ic_awake :: "int \<Rightarrow> interco \<Rightarrow> bool" where
  "ic_awake now s \<longleftrightarrow> (ic_waits s \<longrightarrow> ic_event s \<noteq> None) \<and> (\<forall>t. ic_event s = Some t \<longrightarrow> now \<le> t \<and> t \<le> now + 1)"

lemma ic_step_awake:
  assumes step: "ic_step ans e s = Some s'" and safe: "ic_safe now s" and awake: "ic_awake now s"
    and time: "now \<le> ic_time e" "case ic_event s of None \<Rightarrow> \<not> is_turn e | Some t \<Rightarrow> ic_time e \<le> t \<and> (is_turn e \<longrightarrow> ic_time e = t)"
    and conform: "ic_conform e s" and requeue: "\<And>a b. ic_requeue s a b \<in> {a, b}"
  shows "ic_awake (ic_time e) s'"
proof (cases e)
  case (Request t src r)
  then obtain st where "ic_port_req ans t src r s = Some (st, s')" using step by auto
  moreover have "ic_safe t s" using safe time(1) by (simp add: ic_safe_def Request)
  ultimately have kept: "request_kept t s s'" using request_effect conform Request by blast
  have old: "t \<le> u \<and> u \<le> t + 1" if "ic_event s = Some u" for u
    using awake time that unfolding ic_awake_def Request by force
  show ?thesis
  proof (cases "ic_event s' = ic_event s \<and> (ic_waits s' \<longrightarrow> ic_waits s)")
    case True
    then show ?thesis using awake old unfolding ic_awake_def Request by simp
  next
    case False
    then have e: "ic_event s' = Some (case ic_event s of None \<Rightarrow> t | Some u \<Rightarrow> ic_requeue s u t)"
      using kept unfolding request_kept_def by blast
    have "t \<le> v \<and> v \<le> t + 1" if "ic_event s' = Some v" for v
    proof (cases "ic_event s")
      case None
      then show ?thesis using e that by simp
    next
      case (Some u)
      then have "v \<in> {u, t}" using e that requeue [of u t] by simp
      then show ?thesis using old [OF Some] by auto
    qed
    then show ?thesis using e unfolding ic_awake_def Request by simp
  qed
next
  case (Arbiter t cb)
  have "ic_fsm_handler ans t cb s = Some s'" using step by (simp add: Arbiter)
  moreover have "ic_safe t s" using safe time(1) by (simp add: ic_safe_def Arbiter)
  ultimately show ?thesis using fsm_handler_effect [of ans t cb s s'] conform by (auto simp: ic_awake_def Arbiter split: if_splits)
qed

text \<open>
  No waiting master is forgotten: while a request is denied, the arbiter is enqueued for this cycle
  or the next. The engine, asked for an event that is already enqueued, keeps either of the two cycles.
\<close>

theorem interco_no_lost_turn:
  assumes "ic_new nb_masters (2 ^ k) nb_wide iw requeue = Some s0" and "k + iw < 64" and "\<forall>a b. requeue a b = a \<or> requeue a b = b"
    and "ic_run ans es s0 = Some s" and "ic_paced ans 0 es s0" and "now = (if es = [] then 0 else ic_time (last es))" and "ic_waits s"
  shows "\<exists>t. ic_event s = Some t \<and> now \<le> t \<and> t \<le> now + 1"
proof -
  have run: "ic_awake (if es = [] then n else ic_time (last es)) s"
    if "ic_run ans es u = Some s" "ic_paced ans n es u" "ic_safe n u" "ic_awake n u" "ic_requeue u = requeue" for n u
    using that
  proof (induction es arbitrary: n u)
    case (Cons e es)
    obtain v where v: "ic_step ans e u = Some v" using Cons.prems(1) by (auto split: option.splits)
    have e: "n \<le> ic_time e" "ic_conform e u" "ic_paced ans (ic_time e) es v"
      "case ic_event u of None \<Rightarrow> \<not> is_turn e | Some t \<Rightarrow> ic_time e \<le> t \<and> (is_turn e \<longrightarrow> ic_time e = t)"
      using Cons.prems(2) v by auto
    have "ic_awake (ic_time e) v" using ic_step_awake [OF v Cons.prems(3,4) e(1,4,2)] Cons.prems(5) assms(3) by simp
    moreover have "ic_safe (ic_time e) v" "ic_requeue v = requeue"
      using ic_step_safe [OF v Cons.prems(3) e(1,2)] Cons.prems(5) by (simp_all add: same_cfg_def)
    ultimately show ?case using Cons.IH [of v "ic_time e"] Cons.prems(1) v e(3) by (cases "es = []") simp_all
  qed simp
  note new = ic_new_safe [OF assms(1,2)]
  have "ic_requeue s0 = requeue" using assms(1) by (auto simp: ic_new_def split: if_splits)
  moreover have "ic_awake 0 s0" using new(3,4) by (simp add: ic_awake_def)
  ultimately have "ic_awake now s" using run [OF assms(4,5) new(1)] assms(6) by simp
  then show ?thesis using assms(7) by (auto simp: ic_awake_def)
qed

theorem interco_no_lost_turn_witness:
  "\<exists>s t. ic_run ic_fast (take 3 ic_busy_run) (ic_example 2 1) = Some s \<and> ic_event s = Some t \<and> 0 \<le> t \<and> t \<le> 1"
proof -
  have "map_option (\<lambda>s. mask_any (ic_pending s 0)) (ic_run ic_fast (take 3 ic_busy_run) (ic_example 2 1)) = Some True" by code_simp
  then obtain s where s: "ic_run ic_fast (take 3 ic_busy_run) (ic_example 2 1) = Some s" and any: "mask_any (ic_pending s 0)"
    unfolding map_option_eq_Some by (elim exE conjE) simp
  have paced: "ic_paced ic_fast 0 (take 3 ic_busy_run) (ic_example 2 1)" by code_simp
  have "same_cfg (ic_example 2 1) s" using ic_run_safe [OF s ic_new_safe(1) [OF ic_example_new [of 2 1]] paced] by auto
  then have "ic_nb_slaves s = 2" by (simp add: same_cfg_def ic_example_def ic_new_def)
  then have "ic_waits s" unfolding ic_waits_def using any by force
  moreover have "0 = (if take 3 ic_busy_run = [] then 0 else ic_time (last (take 3 ic_busy_run)))" by (simp add: ic_busy_run_def)
  ultimately show ?thesis
    using interco_no_lost_turn [OF ic_example_new [of 2 1] _ _ s paced, of 0] s by (simp add: min_def)
qed

subsection \<open>Round robin\<close>

text \<open>How far the round robin of a bank is from a master.\<close>

definition ring_distance :: "nat \<Rightarrow> nat \<Rightarrow> nat \<Rightarrow> nat" where
  "ring_distance n r i = (if r \<le> i then i - r else i + n - r)"

definition ic_distance :: "interco \<Rightarrow> nat \<Rightarrow> nat \<Rightarrow> nat" where
  "ic_distance s b i = ring_distance (ic_nb_masters s) (ic_rr_next s b) i"

lemma rotated_nth: "r < n \<Longrightarrow> k < n \<Longrightarrow> ([r..<n] @ [0..<r]) ! k = (r + k) mod n"
  by (auto simp: nth_append mod_if)

lemma elected_nearer:
  assumes ok: "mask_ok n m" and r: "r < n" and i: "i < n" "mask_test m i" and w: "mask_first_from m r = Some w" "w \<noteq> i"
  shows "ring_distance n ((w + 1) mod n) i < ring_distance n r i"
proof -
  define d where "d = ring_distance n r i"
  have d: "d < n" "(r + d) mod n = i" using r i(1) by (auto simp: d_def ring_distance_def mod_if)
  have "find (mask_test m) ([r..<n] @ [0..<r]) = Some w" using w(1) by (simp only: first_from_scan [OF ok r])
  then obtain k where k: "k < n" "w = ([r..<n] @ [0..<r]) ! k" "\<forall>j<k. \<not> mask_test m (([r..<n] @ [0..<r]) ! j)"
    using r by (auto simp: find_Some_iff)
  have "k \<le> d"
  proof (rule ccontr)
    assume "\<not> k \<le> d"
    then have "\<not> mask_test m (([r..<n] @ [0..<r]) ! d)" using k(3) by auto
    then show False unfolding rotated_nth [OF r d(1)] d(2) using i(2) by blast
  qed
  moreover have "k \<noteq> d" using k(1,2) rotated_nth [OF r k(1)] d(2) w(2) by auto
  ultimately have kd: "k < d" by simp
  have wk: "w = (r + k) mod n" using k(1,2) rotated_nth [OF r k(1)] by simp
  have "(w + 1) mod n = (r + k + 1) mod n" unfolding wk by (simp add: mod_Suc_eq)
  then have "ring_distance n ((w + 1) mod n) i = d - k - 1"
    using kd d r i(1) by (auto simp: ring_distance_def d_def mod_if)
  then show ?thesis using kd unfolding d_def [symmetric] by simp
qed

definition free_turn :: "ic_answers \<Rightarrow> ic_ev \<Rightarrow> nat \<Rightarrow> interco \<Rightarrow> bool" where
  "free_turn ans e b s = (case e of Request _ _ _ \<Rightarrow> False
     | Arbiter now cb \<Rightarrow> (case turn_taken ans now cb s of None \<Rightarrow> False | Some taken \<Rightarrow> \<not> mask_test taken b))"

text \<open>The turns of a run that wide masters leave the bank to.\<close>

fun ic_free_turns :: "ic_answers \<Rightarrow> nat \<Rightarrow> ic_ev list \<Rightarrow> interco \<Rightarrow> nat" where
  "ic_free_turns ans b [] s = 0"
| "ic_free_turns ans b (e # es) s = (if free_turn ans e b s then 1 else 0)
     + (case ic_step ans e s of None \<Rightarrow> 0 | Some s' \<Rightarrow> ic_free_turns ans b es s')"

lemma step_waiting:
  assumes step: "ic_step ans e s = Some s'" and safe: "ic_safe now s" "now \<le> ic_time e" and conform: "ic_conform e s"
    and i: "i < ic_nb_masters s" "b < ic_nb_slaves s" "mask_test (ic_pending s b) i"
    and unserved: "\<forall>r. (Narrow i, r) \<notin> set (drop (length (ic_served s)) (ic_served s'))"
  shows "mask_test (ic_pending s' b) i \<and> ic_distance s' b i + (if free_turn ans e b s then 1 else 0) \<le> ic_distance s b i"
proof -
  have masks: "ic_masks s" using safe(1) by (simp add: ic_safe_def ic_shape_def)
  then have ok: "mask_ok (ic_nb_masters s) (ic_pending s b)" "ic_rr_next s b < ic_nb_masters s" using i(2) unfolding ic_masks_def by blast+
  have safe': "ic_safe (ic_time e) s" using safe by (simp add: ic_safe_def)
  have same: "same_cfg s s'" "ic_masks s'"
    using ic_step_safe [OF step safe conform] by (simp_all add: ic_safe_def ic_shape_def)
  show ?thesis
  proof (cases e)
    case (Request t src r)
    then obtain st where "ic_port_req ans t src r s = Some (st, s')" using step by auto
    then have kept: "request_kept t s s'" using request_effect safe' conform Request by auto
    have ok': "mask_ok (ic_nb_masters s) (ic_pending s' b)" using same i(2) unfolding ic_masks_def same_cfg_def by metis
    have "in_mask (ic_pending s b) i" using in_mask_test [OF ok(1)] i by simp
    then have "in_mask (ic_pending s' b) i" using kept i(2) unfolding request_kept_def by blast
    then have "mask_test (ic_pending s' b) i" using in_mask_test [OF ok'] by simp
    moreover have "ic_rr_next s' = ic_rr_next s" "ic_nb_masters s' = ic_nb_masters s"
      using kept unfolding request_kept_def same_cfg_def by blast+
    ultimately show ?thesis by (simp add: ic_distance_def free_turn_def Request)
  next
    case (Arbiter t cb)
    have "ic_fsm_handler ans t cb s = Some s'" using step by (simp add: Arbiter)
    then obtain taken where taken: "turn_taken ans t cb s = Some taken" "elects taken b s s'"
      using fsm_handler_effect [of ans t cb s s'] safe' conform i(2) by (auto simp: Arbiter)
    have free: "free_turn ans e b s \<longleftrightarrow> \<not> mask_test taken b" by (simp add: free_turn_def Arbiter taken(1))
    have "in_mask (ic_pending s b) i" using in_mask_test [OF ok(1)] i by simp
    then have any: "mask_any (ic_pending s b)" using mask_any_iff [OF ok(1)] by blast
    show ?thesis
    proof (cases "mask_test taken b")
      case True
      then have "ic_pending s' b = ic_pending s b" "ic_rr_next s' b = ic_rr_next s b" using taken(2) any by (simp_all add: elects_def)
      then show ?thesis using True free i(3) same(1) by (simp add: ic_distance_def same_cfg_def)
    next
      case False
      then obtain w where w: "mask_first_from (ic_pending s b) (ic_rr_next s b) = Some w" "ic_pending s' b = mask_reset w (ic_pending s b)"
          "ic_rr_next s' b = (w + 1) mod ic_nb_masters s" "\<exists>r. (Narrow w, r) \<in> set (drop (length (ic_served s)) (ic_served s'))"
        using taken(2) any by (auto simp: elects_def)
      have wi: "w \<noteq> i" using w(4) unserved by blast
      have "find (mask_test (ic_pending s b)) ([ic_rr_next s b..<ic_nb_masters s] @ [0..<ic_rr_next s b]) = Some w"
        using w(1) by (simp only: first_from_scan [OF ok])
      then have "w < ic_nb_masters s" using find_SomeD ok(2) by fastforce
      then have "in_mask (ic_pending s' b) i" unfolding w(2) using mask_reset_ok(2) [OF ok(1)] wi in_mask_test [OF ok(1)] i by simp
      then have "mask_test (ic_pending s' b) i" by (simp add: in_mask_def)
      moreover have "ic_distance s' b i < ic_distance s b i"
        using elected_nearer [OF ok i(1,3) w(1) wi] same(1) by (simp add: ic_distance_def w(3) same_cfg_def)
      ultimately show ?thesis by simp
    qed
  qed
qed

lemma run_served: "ic_run ans es s = Some s' \<Longrightarrow> ic_safe now s \<Longrightarrow> ic_paced ans now es s \<Longrightarrow> \<exists>new. ic_served s' = ic_served s @ new"
proof (induction es arbitrary: now s)
  case (Cons e es)
  obtain u where u: "ic_step ans e s = Some u" using Cons.prems(1) by (auto split: option.splits)
  have e: "now \<le> ic_time e" "ic_conform e s" "ic_paced ans (ic_time e) es u" using Cons.prems(3) u by auto
  note step = ic_step_safe [OF u Cons.prems(2) e(1,2)]
  have "\<exists>new. ic_served s' = ic_served u @ new" using Cons.IH [of u "ic_time e"] Cons.prems(1) u step e(3) by auto
  then show ?case using step by fastforce
qed simp

lemma run_waiting:
  assumes "ic_run ans es s = Some s'" "ic_safe now s" "ic_paced ans now es s"
    and "i < ic_nb_masters s" "b < ic_nb_slaves s" "mask_test (ic_pending s b) i"
    and "\<forall>r. (Narrow i, r) \<notin> set (drop (length (ic_served s)) (ic_served s'))"
  shows "ic_free_turns ans b es s \<le> ic_distance s b i"
  using assms
proof (induction es arbitrary: now s)
  case (Cons e es)
  obtain u where u: "ic_step ans e s = Some u" using Cons.prems(1) by (auto split: option.splits)
  have e: "now \<le> ic_time e" "ic_conform e s" "ic_paced ans (ic_time e) es u" using Cons.prems(3) u by auto
  note step = ic_step_safe [OF u Cons.prems(2) e(1,2)]
  have run: "ic_run ans es u = Some s'" using Cons.prems(1) u by simp
  obtain new1 where new1: "ic_served u = ic_served s @ new1" using step by blast
  obtain new2 where new2: "ic_served s' = ic_served u @ new2" using run_served [OF run _ e(3)] step by blast
  have un: "\<forall>r. (Narrow i, r) \<notin> set new1" "\<forall>r. (Narrow i, r) \<notin> set new2" using Cons.prems(7) new1 new2 by auto
  note w = step_waiting [OF u Cons.prems(2) e(1,2) Cons.prems(4-6)]
  have w: "mask_test (ic_pending u b) i \<and> ic_distance u b i + (if free_turn ans e b s then 1 else 0) \<le> ic_distance s b i"
    by (rule w) (use un new1 in simp)
  have "ic_free_turns ans b es u \<le> ic_distance u b i"
    using Cons.IH [OF run _ e(3)] step Cons.prems(4,5) w un new2 by (simp add: same_cfg_def)
  then show ?case using w u by simp
qed simp

lemma ic_run_append: "ic_run ans (es @ es') s = (case ic_run ans es s of None \<Rightarrow> None | Some u \<Rightarrow> ic_run ans es' u)"
  by (induction es arbitrary: s) (auto split: option.splits)

lemma ic_paced_append:
  "ic_paced ans now (es @ es') s \<Longrightarrow> ic_run ans es s = Some u \<Longrightarrow> ic_paced ans now es s
    \<and> (\<exists>now'. now \<le> now' \<and> ic_paced ans now' es' u \<and> (ic_safe now s \<longrightarrow> ic_safe now' u))"
proof (induction es arbitrary: now s)
  case (Cons e es)
  obtain v where v: "ic_step ans e s = Some v" using Cons.prems(2) by (auto split: option.splits)
  have e: "now \<le> ic_time e" "ic_conform e s" "ic_paced ans (ic_time e) (es @ es') v" using Cons.prems(1) v by auto
  have "ic_safe now s \<longrightarrow> ic_safe (ic_time e) v" using ic_step_safe [OF v _ e(1,2)] by blast
  moreover have "ic_run ans es v = Some u" using Cons.prems(2) v by simp
  ultimately obtain now' where "ic_time e \<le> now'" "ic_paced ans now' es' u" "ic_safe now s \<longrightarrow> ic_safe now' u" "ic_paced ans (ic_time e) es v"
    using Cons.IH [OF e(3)] by blast
  then show ?case using Cons.prems(1) v e(1) by (auto intro!: exI [of _ now'])
qed auto

text \<open>
  C29. Round robin is fair. A narrow master that waits for a bank is served before the arbiter has run as
  many times as there are narrow masters with that bank left by the wide masters, whoever else asks
  for the bank meanwhile.
\<close>

theorem interco_fair:
  assumes "ic_new nb_masters (2 ^ k) nb_wide iw requeue = Some s0" and "k + iw < 64"
    and "ic_run ans es s0 = Some s" and "ic_run ans es' s = Some s'" and "ic_paced ans 0 (es @ es') s0"
    and "i < nb_masters" and "b < 2 ^ k" and "mask_test (ic_pending s b) i" and "nb_masters \<le> ic_free_turns ans b es' s"
  shows "\<exists>r. (Narrow i, r) \<in> set (drop (length (ic_served s)) (ic_served s'))"
proof (rule ccontr)
  assume unserved: "\<not> ?thesis"
  obtain now where now: "ic_paced ans now es' s" "ic_safe now s"
    using ic_paced_append [OF assms(5,3)] ic_new_safe(1) [OF assms(1,2)] by blast
  have "ic_paced ans 0 es s0" using ic_paced_append [OF assms(5,3)] by blast
  then have "same_cfg s0 s" using ic_run_safe [OF assms(3) ic_new_safe(1) [OF assms(1,2)]] by blast
  then have size: "ic_nb_masters s = nb_masters" "ic_nb_slaves s = 2 ^ k"
    using assms(1) by (auto simp: ic_new_def same_cfg_def split: if_splits)
  have "ic_free_turns ans b es' s \<le> ic_distance s b i"
    using run_waiting [OF assms(4) now(2,1)] size assms(6-8) unserved by simp
  moreover have "ic_rr_next s b < nb_masters" using now(2) assms(7) size unfolding ic_safe_def ic_shape_def ic_masks_def by metis
  then have "ic_distance s b i < nb_masters" using assms(6) size by (auto simp: ic_distance_def ring_distance_def)
  ultimately show False using assms(9) by simp
qed

text \<open>Two masters want the same bank; the second one is served at the second turn.\<close>

definition ic_fair_run :: "ic_ev list" where
  "ic_fair_run = [Arbiter 0 (ic_again (\<lambda>i. of_nat i * 8) 0), Request 1 (Narrow 0) (ic_word 0 4), Arbiter 1 (ic_again (\<lambda>i. of_nat i * 8) 0)]"

theorem interco_fair_witness:
  "\<exists>s s' r. ic_run ic_fast (take 2 ic_busy_run) (ic_example 2 1) = Some s \<and> ic_run ic_fast ic_fair_run s = Some s'
     \<and> (Narrow 1, r) \<in> set (drop (length (ic_served s)) (ic_served s'))"
proof -
  have "map_option (\<lambda>s. (mask_test (ic_pending s 0) 1, ic_free_turns ic_fast 0 ic_fair_run s, ic_run ic_fast ic_fair_run s \<noteq> None))
      (ic_run ic_fast (take 2 ic_busy_run) (ic_example 2 1))
    = Some (True, 2, True)" by code_simp
  then obtain s where s: "ic_run ic_fast (take 2 ic_busy_run) (ic_example 2 1) = Some s"
      and p: "mask_test (ic_pending s 0) 1" "ic_free_turns ic_fast 0 ic_fair_run s = 2" "ic_run ic_fast ic_fair_run s \<noteq> None"
    unfolding map_option_eq_Some by (elim exE conjE) simp
  from p(3) obtain s' where s': "ic_run ic_fast ic_fair_run s = Some s'" by blast
  have "ic_paced ic_fast 0 (take 2 ic_busy_run @ ic_fair_run) (ic_example 2 1)" by code_simp
  from interco_fair [OF ic_example_new [of 2 1] _ s s' this, of 1 0] p s s' show ?thesis by auto
qed

subsection \<open>Bytes\<close>

text \<open>The interconnect decodes addresses as the interleaver of the cluster does.\<close>

definition il_of :: "interco \<Rightarrow> interleaver" where
  "il_of s = \<lparr>il_stage_bits = ic_slave_bits s, il_bank_mask = push_bit (ic_slave_bits s) 1 - 1,
     il_interleaving_bits = ic_iw s, il_offset_mask = -1\<rparr>"

lemma il_of_sel [simp]:
  "il_stage_bits (il_of s) = ic_slave_bits s" "il_bank_mask (il_of s) = push_bit (ic_slave_bits s) 1 - 1"
  "il_interleaving_bits (il_of s) = ic_iw s" "il_granule (il_of s) = ic_granule s"
  by (simp_all add: il_of_def il_granule_def ic_granule_def)

lemma il_of_decode:
  assumes "ic_slave_bits s + ic_iw s < 64"
  shows "il_ok (il_of s)" and "ic_decode_bank s = il_bank (il_of s)" and "ic_decode_offset s = il_bank_offset (il_of s)"
    and "ic_chunk s = il_chunk (il_of s)"
proof -
  show ok: "il_ok (il_of s)" using assms by (simp add: il_ok_def)
  show "ic_decode_bank s = il_bank (il_of s)" by (auto simp: fun_eq_iff ic_decode_bank_def il_bank_def)
  show "ic_decode_offset s = il_bank_offset (il_of s)"
  proof
    fix a
    show "ic_decode_offset s a = il_bank_offset (il_of s) a"
    proof (rule bit_word_eqI)
      fix k assume "k < LENGTH(64)"
      have low: "bit (if ic_iw s = 0 then 0 else push_bit (ic_iw s) 1 - 1 :: u64) k \<longleftrightarrow> k < ic_iw s \<and> k < 64" by simp
      have "bit (ic_decode_offset s a) k \<longleftrightarrow> (if k < ic_iw s then bit a k else bit a (k + ic_slave_bits s))"
        unfolding ic_decode_offset_def Let_def bit_or_iff bit_and_iff low
        using \<open>k < LENGTH(64)\<close> by (auto simp: bit_push_bit_iff bit_drop_bit_eq ac_simps)
      then show "bit (ic_decode_offset s a) k = bit (il_bank_offset (il_of s) a) k" by (simp only: bit_bank_offset [OF ok] il_of_sel)
    qed
  qed
  show "ic_chunk s = il_chunk (il_of s)" by (auto simp: fun_eq_iff ic_chunk_def il_chunk_def Let_def min_def)
qed

lemma debug_same:
  assumes "ic_slave_bits s + ic_iw s < 64"
  shows "ic_debug_mem_access (\<lambda>b. Some (dbg b)) s addr data w m = interleaver_debug dbg (il_of s) addr data w m"
proof (induction "length data" arbitrary: addr data m rule: less_induct)
  case less
  show ?case
  proof (cases "data = []")
    case True
    then show ?thesis by (simp add: ic_debug_mem_access.simps interleaver_debug.simps)
  next
    case False
    let ?n = "ic_chunk s addr (length data)"
    have "length (drop ?n data) < length data" using False ic_chunk_pos [of "length data" s addr] by simp
    note ih = less [OF this, unfolded il_of_decode(4) [OF assms]]
    show ?thesis using False
      by (subst ic_debug_mem_access.simps, subst interleaver_debug.simps)
        (simp add: Let_def ih il_of_decode(2-4) [OF assms] split: prod.split)
  qed
qed

text \<open>The bytes of an access of a bank, with the place of each in the buffer.\<close>

fun call_bytes :: "ic_entry \<Rightarrow> (nat \<times> u64 \<times> nat option) list" where
  "call_bytes (t, n, src, c) = map (\<lambda>k. (bc_bank c, bc_offset c + of_nat k, map_option (\<lambda>p. p + k) (bc_data c))) [0..<bc_size c]"

lemma pieces_bytes:
  assumes "ic_slave_bits s + ic_iw s < 64"
  shows "concat (map (\<lambda>(b, off, n, at). map (\<lambda>k. (b, off + of_nat k, at + k)) [0..<n]) (ic_pieces s addr sz at))
    = map (\<lambda>k. (ic_decode_bank s (addr + of_nat k), ic_decode_offset s (addr + of_nat k), at + k)) [0..<sz]"
proof (induction sz arbitrary: addr at rule: less_induct)
  case (less sz)
  show ?case
  proof (cases "sz = 0")
    case True
    then show ?thesis by (simp add: ic_pieces.simps)
  next
    case False
    let ?n = "ic_chunk s addr sz"
    let ?loc = "\<lambda>k. (ic_decode_bank s (addr + of_nat k), ic_decode_offset s (addr + of_nat k), at + k)"
    have n: "0 < ?n" "?n \<le> sz" "?n \<le> ic_granule s - unat addr mod ic_granule s"
      using False ic_chunk_pos [of sz s addr] by (auto simp: ic_chunk_def Let_def)
    have here: "map (\<lambda>k. (ic_decode_bank s addr, ic_decode_offset s addr + of_nat k, at + k)) [0..<?n] = map ?loc [0..<?n]"
    proof (rule map_cong)
      fix k assume "k \<in> set [0..<?n]"
      then have "k < il_granule (il_of s) - unat addr mod il_granule (il_of s)" using n(3) by simp
      from il_same_bank [OF il_of_decode(1) [OF assms] this]
      show "(ic_decode_bank s addr, ic_decode_offset s addr + of_nat k, at + k) = ?loc k" by (simp add: il_of_decode(2,3) [OF assms])
    qed simp
    have "map (\<lambda>k. (ic_decode_bank s (addr + of_nat ?n + of_nat k), ic_decode_offset s (addr + of_nat ?n + of_nat k), at + ?n + k)) [0..<sz - ?n]
      = map ?loc [?n..<sz]" using n(2) by (intro nth_equalityI) (simp_all add: add.assoc)
    moreover have "sz - ?n < sz" using n(1) False by simp
    moreover have "[0..<sz] = [0..<?n] @ [?n..<sz]" using n(2) by (intro upt_cut) simp_all
    ultimately show ?thesis using False here less [of "sz - ?n" "addr + of_nat ?n" "at + ?n"]
      by (subst ic_pieces.simps) (simp add: Let_def)
  qed
qed

text \<open>
  C30. A wide access is its bytes: the banks it reaches in one cycle, and the offsets there, are, byte by
  byte and in order, those a narrow access to each address reaches, each byte going with its place in
  the buffer of the request. Different addresses are at different places, and the debug access is the
  one of the interleaver of the cluster.
\<close>

theorem interco_wide_bytes:
  assumes "ic_slave_bits s + ic_iw s < 64" and "ic_forward_wide ans now i r s = Some s'"
  shows "concat (map call_bytes (drop (length (ic_log s)) (ic_log s')))
      = map (\<lambda>k. (ic_decode_bank s (q_addr r + of_nat k), ic_decode_offset s (q_addr r + of_nat k), map_option (\<lambda>p. p + k) (q_data r)))
          [0..<unat (q_size r)]
    \<and> (ic_decode_bank s a = ic_decode_bank s b \<and> ic_decode_offset s a = ic_decode_offset s b \<longrightarrow> a = b)
    \<and> ic_debug_mem_access (\<lambda>b. Some (dbg b)) s addr data w m = interleaver_debug dbg (il_of s) addr data w m"
proof -
  let ?ps = "ic_pieces s (q_addr r) (unat (q_size r)) 0"
  obtain r' where s': "s' = ic_extend now (Wide i) r' (map (piece_call (q_opcode r) (q_data r) (q_strb r)) ?ps) s"
    by (rule forward_wide_effect [OF assms(2)])
  let ?tag = "\<lambda>(b, off, k). (b, off, map_option (\<lambda>p. p + k) (q_data r))"
  have "call_bytes (t, n, src, piece_call opc (q_data r) strb p) = map ?tag ((\<lambda>(b, off, n, at). map (\<lambda>k. (b, off + of_nat k, at + k)) [0..<n]) p)"
    for t n src opc strb p
    by (cases p) (simp add: piece_call_def option.map_comp comp_def add.assoc)
  then have "concat (map call_bytes (drop (length (ic_log s)) (ic_log s')))
      = map ?tag (concat (map (\<lambda>(b, off, n, at). map (\<lambda>k. (b, off + of_nat k, at + k)) [0..<n]) ?ps))"
    by (simp add: s' comp_def map_concat)
  moreover have "a = b" if "ic_decode_bank s a = ic_decode_bank s b" "ic_decode_offset s a = ic_decode_offset s b"
    by (rule il_same_place [OF il_of_decode(1) [OF assms(1)]]) (use that il_of_decode(2,3) [OF assms(1)] in simp_all)
  ultimately show ?thesis using debug_same [OF assms(1)] by (simp add: pieces_bytes [OF assms(1)])
qed

theorem interco_wide_bytes_witness:
  "case ic_forward_wide ic_fast 0 0 (ic_word 2 8) (ic_example 2 1) of None \<Rightarrow> False
     | Some s' \<Rightarrow> concat (map call_bytes (ic_log s')) = map (\<lambda>k. (ic_decode_bank (ic_example 2 1) (2 + of_nat k), ic_decode_offset (ic_example 2 1) (2 + of_nat k), Some k)) [0..<8]"
proof -
  have "ic_forward_wide ic_fast 0 0 (ic_word 2 8) (ic_example 2 1) \<noteq> None" by code_simp
  then obtain s' where s': "ic_forward_wide ic_fast 0 0 (ic_word 2 8) (ic_example 2 1) = Some s'" by blast
  have "ic_slave_bits (ic_example 2 1) + ic_iw (ic_example 2 1) < 64" by code_simp
  from interco_wide_bytes [OF this s', THEN conjunct1]
  have "concat (map call_bytes (drop (length (ic_log (ic_example 2 1))) (ic_log s')))
    = map (\<lambda>k. (ic_decode_bank (ic_example 2 1) (2 + of_nat k), ic_decode_offset (ic_example 2 1) (2 + of_nat k), Some k)) [0..<8]"
    by (simp add: ic_word_def)
  moreover have "ic_log (ic_example 2 1) = []" by (simp add: ic_example_def ic_new_def)
  ultimately show ?thesis using s' by simp
qed

subsection \<open>A second wide request\<close>

text \<open>
  Wide master 0 was denied; while it is retried, wide master 1 sends a request of its own, to a free bank
  that a narrow master waits for.
\<close>

definition ic_cascade :: ic_callback where
  "ic_cascade src = (case src of Wide w \<Rightarrow> [(Wide 0, ic_word 0 4), (Wide 1, ic_word 4 4)] | Narrow i \<Rightarrow> [(src, ic_word (if i = 0 then 0 else 4) 4)])"

definition ic_cascade_run :: "ic_ev list" where
  "ic_cascade_run =
     [Request 0 (Narrow 0) (ic_word 0 4), Arbiter 0 ic_cascade, Request 0 (Wide 0) (ic_word 0 4), Arbiter 0 ic_cascade,
      Request 1 (Narrow 1) (ic_word 4 4), Arbiter 1 ic_cascade]"

text \<open>
  The arbiter copies the busy banks before it retries the wide masters, and a wide request that
  arrives during a retry is served at once and marks its bank in the original only: the arbiter then
  gives the bank to a narrow master in the same cycle.
\<close>

theorem interco_cascade_serves_twice:
  "map_option (\<lambda>s. filter (\<lambda>(t, b, src). t = 1 \<and> b = 1) (map (\<lambda>(t, n, src, c). (t, bc_bank c, src)) (ic_log s)))
     (ic_run ic_fast ic_cascade_run (ic_example 2 2)) = Some [(1, 1, Wide 1), (1, 1, Narrow 1)]"
  by code_simp

end
