(* ===== verification/Snitch_Seq.thy ===== *)
theory Snitch_Seq
  imports Prelude
begin

section \<open>The floating-point sequencer (\<open>src/pulp/snitch/sequencer.cpp\<close>)\<close>

text \<open>
  The sequencer stands between the integer core of a Snitch and its floating-point subsystem. It queues
  instructions in a ring of sixteen entries and issues one per cycle; a \<open>frep\<close> instruction makes it
  repeat those that follow, each one at a time (inner) or all of them as a block (outer), staggering the
  register numbers from one iteration to the next. The decoded instruction is a type of the instruction set
  simulator, which is not in the repository; the record has the fields the sequencer reads. The
  instructions sent to the subsystem are appended to \<open>sq_out\<close>; the subsystem's answer to the handshake
  is an argument. \<open>sq_enabled\<close> says whether the clock event is enabled, that is, runs every cycle.
\<close>

datatype arg_type = ISS_DECODER_ARG_TYPE_OUT_REG | ISS_DECODER_ARG_TYPE_IN_REG | ARG_TYPE_OTHER

record decoder_arg =
  da_type :: arg_type
  da_freg :: bool
  da_id :: nat

record iss_insn =
  in_opcode :: u64
  in_tag_frep :: bool
  in_tag_nseq :: bool
  in_is_outer :: bool
  in_max_rpt :: u32
  in_uim :: "nat \<Rightarrow> u32"
  in_out_regs :: "nat \<Rightarrow> int"
  in_in_regs :: "nat \<Rightarrow> int"
  in_decoder_args :: "decoder_arg list"
  in_args :: "nat \<Rightarrow> int"

record offload_req =
  or_pc :: u32
  or_insn :: iss_insn
  or_is_write :: bool
  or_frm :: u32
  or_fmode :: u32

record frep_config =
  fc_is_outer :: bool
  fc_max_rpt :: int
  fc_max_inst :: int
  fc_stagger_max :: int
  fc_stagger_mask :: u32

definition frep_config_init :: frep_config where
  "frep_config_init = \<lparr>fc_is_outer = False, fc_max_rpt = -1, fc_max_inst = -1,
     fc_stagger_max = 0, fc_stagger_mask = 0\<rparr>"

text \<open>\<open>be_isn_sequence\<close> holds of the entries that are not part of a loop.\<close>

record buffer_entry =
  be_req :: offload_req
  be_isn_sequence :: bool
  be_is_outer :: bool
  be_max_inst :: int
  be_max_rpt :: int
  be_stagger_max :: int
  be_stagger_mask :: u32
  be_base_entry :: int
  be_next_entry :: int
  be_config :: frep_config

text \<open>The default constructor leaves the request as it is, an argument here.\<close>

definition buffer_entry_init :: "offload_req \<Rightarrow> buffer_entry" where
  "buffer_entry_init r = \<lparr>be_req = r, be_isn_sequence = True, be_is_outer = False, be_max_inst = -1,
     be_max_rpt = -1, be_stagger_max = 0, be_stagger_mask = 0, be_base_entry = -1, be_next_entry = -1,
     be_config = frep_config_init\<rparr>"

record sequencer =
  sq_acc_req_ready :: bool
  sq_acc_req_ready_o :: bool
  sq_stalled :: bool
  sq_enabled :: bool
  sq_ring :: "int \<Rightarrow> buffer_entry"
  sq_write_id :: int
  sq_read_id :: int
  sq_base_id :: int
  sq_nb_entries :: int
  sq_frep_config :: frep_config
  sq_out_bound :: bool
  sq_out :: "offload_req list"

definition SEQ_SIZE :: int where
  "SEQ_SIZE = 16"

text \<open>The sequencer as constructed, its output bound or not.\<close>

definition seq_init :: "offload_req \<Rightarrow> bool \<Rightarrow> sequencer" where
  "seq_init r bound = \<lparr>sq_acc_req_ready = True, sq_acc_req_ready_o = True, sq_stalled = True,
     sq_enabled = False, sq_ring = (\<lambda>_. buffer_entry_init r), sq_write_id = 0, sq_read_id = 0,
     sq_base_id = 0, sq_nb_entries = 0, sq_frep_config = frep_config_init, sq_out_bound = bound,
     sq_out = []\<rparr>"

subsection \<open>The buffer\<close>

definition seq_isFull :: "sequencer \<Rightarrow> bool" where
  "seq_isFull s \<longleftrightarrow> sq_nb_entries s \<ge> SEQ_SIZE"

definition seq_isEmpty :: "sequencer \<Rightarrow> bool" where
  "seq_isEmpty s \<longleftrightarrow> sq_nb_entries s = 0"

definition seq_check_state :: "io_status \<Rightarrow> bool" where
  "seq_check_state idle \<longleftrightarrow> idle = IO_REQ_OK"

definition seq_stalled_dec :: "sequencer \<Rightarrow> sequencer" where
  "seq_stalled_dec s =
     (if \<not> sq_stalled s then s else s\<lparr>sq_stalled := False, sq_enabled := True\<rparr>)"

definition seq_stalled_inc :: "sequencer \<Rightarrow> sequencer" where
  "seq_stalled_inc s =
     (let s = (if \<not> sq_stalled s then s\<lparr>sq_enabled := False\<rparr> else s) in s\<lparr>sq_stalled := True\<rparr>)"

definition seq_reset :: "bool \<Rightarrow> sequencer \<Rightarrow> sequencer" where
  "seq_reset active s = (if active then seq_stalled_inc s else seq_stalled_dec s)"

text \<open>The entry for a request and the configuration left, from the write index and the base.\<close>

definition seq_gen_single :: "int \<Rightarrow> offload_req \<Rightarrow> buffer_entry" where
  "seq_gen_single w r = (buffer_entry_init r)\<lparr>be_isn_sequence := True, be_max_rpt := 0, be_base_entry := w,
     be_next_entry := (w + 1) mod SEQ_SIZE\<rparr>"

definition seq_next_entry :: "bool \<Rightarrow> bool \<Rightarrow> bool \<Rightarrow> int \<Rightarrow> int \<Rightarrow> int" where
  "seq_next_entry is_outer insn_last rpt_last w base =
     (if is_outer then
        (if \<not> insn_last then (w + 1) mod SEQ_SIZE
         else if \<not> rpt_last then base else (w + 1) mod SEQ_SIZE)
      else if rpt_last then (w + 1) mod SEQ_SIZE else w)"

definition seq_gen_loop :: "int \<Rightarrow> int \<Rightarrow> frep_config \<Rightarrow> offload_req \<Rightarrow> buffer_entry" where
  "seq_gen_loop w base c r =
     (buffer_entry_init r)\<lparr>be_isn_sequence := False, be_is_outer := fc_is_outer c,
        be_max_inst := fc_max_inst c, be_max_rpt := fc_max_rpt c, be_stagger_max := fc_stagger_max c,
        be_stagger_mask := fc_stagger_mask c, be_base_entry := base,
        be_next_entry := seq_next_entry (fc_is_outer c) (w = (base + fc_max_inst c) mod SEQ_SIZE)
          (fc_max_rpt c = 0) w base,
        be_config := c\<rparr>"

definition seq_in_sequence :: "int \<Rightarrow> int \<Rightarrow> frep_config \<Rightarrow> bool" where
  "seq_in_sequence w base c \<longleftrightarrow>
     \<not> ((w > (base + fc_max_inst c) mod SEQ_SIZE \<and> w < base) \<or> fc_max_inst c < 0)"

definition seq_gen_entry :: "offload_req \<Rightarrow> sequencer \<Rightarrow> buffer_entry \<times> sequencer" where
  "seq_gen_entry r s =
     (let w = sq_write_id s; b = sq_base_id s; c = sq_frep_config s in
      if \<not> seq_in_sequence w b c then (seq_gen_single w r, s)
      else (seq_gen_loop w b c r,
        if w = (b + fc_max_inst c) mod SEQ_SIZE
        then s\<lparr>sq_frep_config := c\<lparr>fc_max_inst := -1, fc_max_rpt := -1, fc_stagger_max := 0,
          fc_stagger_mask := 0\<rparr>\<rparr>
        else s))"

definition seq_write_entry :: "buffer_entry \<Rightarrow> sequencer \<Rightarrow> sequencer" where
  "seq_write_entry e s =
     (if seq_isFull s then s\<lparr>sq_acc_req_ready := False\<rparr>
      else s\<lparr>sq_ring := (sq_ring s)(sq_write_id s := e),
             sq_write_id := (sq_write_id s + 1) mod SEQ_SIZE,
             sq_nb_entries := sq_nb_entries s + 1\<rparr>)"

text \<open>The register numbers of the arguments, rewritten for the traces.\<close>

definition seq_trace_arg :: "iss_insn \<Rightarrow> nat \<Rightarrow> iss_insn" where
  "seq_trace_arg insn i =
     (let arg = in_decoder_args insn ! i in
      if (da_type arg = ISS_DECODER_ARG_TYPE_OUT_REG \<or> da_type arg = ISS_DECODER_ARG_TYPE_IN_REG)
          \<and> (in_args insn i \<noteq> 0 \<or> da_freg arg)
      then insn\<lparr>in_args := (in_args insn)(i :=
             if da_type arg = ISS_DECODER_ARG_TYPE_OUT_REG then in_out_regs insn (da_id arg)
             else in_in_regs insn (da_id arg))\<rparr>
      else insn)"

definition seq_trace_args :: "offload_req \<Rightarrow> offload_req" where
  "seq_trace_args r =
     r\<lparr>or_insn := foldl seq_trace_arg (or_insn r) [0..<length (in_decoder_args (or_insn r))]\<rparr>"

definition seq_read_copy :: "buffer_entry \<Rightarrow> buffer_entry" where
  "seq_read_copy e =
     (if \<not> be_isn_sequence e \<and> fc_stagger_max (be_config e) > 0
      then e\<lparr>be_req := seq_trace_args (be_req e)\<rparr> else e)"

text \<open>The entry that an empty buffer gives is the default one, with an arbitrary request.\<close>

definition seq_read_entry :: "int \<Rightarrow> offload_req \<Rightarrow> sequencer \<Rightarrow> buffer_entry \<times> sequencer" where
  "seq_read_entry index dummy s =
     (if seq_isEmpty s then (buffer_entry_init dummy, s)
      else (let e = sq_ring s index in (seq_read_copy e, s\<lparr>sq_read_id := be_next_entry e\<rparr>)))"

subsection \<open>The update after a read\<close>

text \<open>
  One register: \<open>t\<close> is its number plus the staggering left before the decrement, and \<open>cnt\<close> the staggering
  left after it. When that is negative the staggering starts again from the register of the first iteration.
\<close>

definition seq_stagger_reg :: "int \<Rightarrow> int \<Rightarrow> int \<Rightarrow> int \<Rightarrow> int" where
  "seq_stagger_reg smax cnt t reg = (if cnt < 0 then t - smax else reg + 1)"

definition seq_stagger :: "buffer_entry \<Rightarrow> buffer_entry" where
  "seq_stagger e =
     (let insn = or_insn (be_req e); outs = in_out_regs insn; ins = in_in_regs insn;
          t_out = outs 0 + be_stagger_max e; t_in1 = ins 0 + be_stagger_max e;
          t_in2 = ins 1 + be_stagger_max e; t_in3 = ins 2 + be_stagger_max e;
          cnt = be_stagger_max e - 1; smax = fc_stagger_max (be_config e); mask = be_stagger_mask e;
          again = cnt < 0 \<and> (bit mask 0 \<or> bit mask 1 \<or> bit mask 2 \<or> bit mask 3);
          outs = (if bit mask 0 then outs(0 := seq_stagger_reg smax cnt t_out (outs 0)) else outs);
          ins = (if bit mask 1 then ins(0 := seq_stagger_reg smax cnt t_in1 (ins 0)) else ins);
          ins = (if bit mask 2 then ins(1 := seq_stagger_reg smax cnt t_in2 (ins 1)) else ins);
          ins = (if bit mask 3 then ins(2 := seq_stagger_reg smax cnt t_in3 (ins 2)) else ins)
      in e\<lparr>be_stagger_max := (if again then smax else cnt),
           be_req := (be_req e)\<lparr>or_insn := insn\<lparr>in_out_regs := outs, in_in_regs := ins\<rparr>\<rparr>\<rparr>)"

definition seq_updated :: "int \<Rightarrow> buffer_entry \<Rightarrow> buffer_entry" where
  "seq_updated index e =
     (let e = e\<lparr>be_max_rpt := be_max_rpt e - 1\<rparr> in
      if be_isn_sequence e then e
      else seq_stagger (e\<lparr>be_next_entry := seq_next_entry (fc_is_outer (be_config e))
             (index = (be_base_entry e + fc_max_inst (be_config e)) mod SEQ_SIZE) (be_max_rpt e = 0)
             index (be_base_entry e)\<rparr>))"

definition seq_update_entry :: "int \<Rightarrow> sequencer \<Rightarrow> sequencer" where
  "seq_update_entry index s = s\<lparr>sq_ring := (sq_ring s)(index := seq_updated index (sq_ring s index))\<rparr>"

subsection \<open>The handlers\<close>

definition seq_sync :: "offload_req \<Rightarrow> sequencer \<Rightarrow> sequencer" where
  "seq_sync r s = (if sq_out_bound s then s\<lparr>sq_out := sq_out s @ [r]\<rparr> else s)"

text \<open>The clock event; \<open>idle\<close> is the answer of the subsystem.\<close>

definition seq_issue :: "int \<Rightarrow> sequencer \<Rightarrow> sequencer" where
  "seq_issue buf_id s =
     (let (e, s) = seq_read_entry buf_id (be_req (sq_ring s buf_id)) s;
          s = seq_update_entry buf_id (seq_sync (be_req e) s)
      in if be_max_rpt (sq_ring s buf_id) < 0 then s\<lparr>sq_nb_entries := sq_nb_entries s - 1\<rparr> else s)"

definition seq_offload_event :: "io_status \<Rightarrow> sequencer \<Rightarrow> sequencer" where
  "seq_offload_event idle s =
     (let s = s\<lparr>sq_acc_req_ready_o := seq_check_state idle\<rparr>;
          s = (if \<not> seq_isEmpty s \<and> sq_acc_req_ready_o s then seq_issue (sq_read_id s) s else s)
      in if (seq_isEmpty s \<or> be_max_rpt (sq_ring s (sq_read_id s)) < 0) \<and> \<not> sq_stalled s
         then seq_stalled_inc s else s)"

definition seq_config_of :: "iss_insn \<Rightarrow> frep_config" where
  "seq_config_of insn = \<lparr>fc_is_outer = in_is_outer insn, fc_max_rpt = sint (in_max_rpt insn),
     fc_max_inst = sint (in_uim insn 2), fc_stagger_max = sint (in_uim insn 1),
     fc_stagger_mask = in_uim insn 0\<rparr>"

definition seq_frep :: "offload_req \<Rightarrow> sequencer \<Rightarrow> sequencer" where
  "seq_frep r s = s\<lparr>sq_frep_config := seq_config_of (or_insn r), sq_base_id := sq_write_id s\<rparr>"

definition seq_req :: "offload_req \<Rightarrow> sequencer \<Rightarrow> sequencer" where
  "seq_req r s =
     (let insn = or_insn r;
          s = (if in_tag_frep insn then seq_frep r s else s);
          s = (if \<not> in_tag_frep insn \<and> in_tag_nseq insn then seq_sync r s else s)
      in if \<not> in_tag_frep insn \<and> \<not> in_tag_nseq insn
         then (let (e, s) = seq_gen_entry r s; s = seq_write_entry e s
               in if sq_stalled s then seq_stalled_dec s else s)
         else s)"

definition seq_rsp_state :: "bool \<Rightarrow> io_status \<Rightarrow> sequencer \<Rightarrow> io_status \<times> sequencer" where
  "seq_rsp_state is_write idle s =
     (let s = s\<lparr>sq_acc_req_ready :=
            (if \<not> is_write then (if seq_isEmpty s then seq_check_state idle else False)
             else \<not> seq_isFull s)\<rparr>
      in (if sq_acc_req_ready s then IO_REQ_OK else IO_REQ_INVALID, s))"

end
