(* ===== verification/Snitch_Seq_Loops.thy ===== *)
theory Snitch_Seq_Loops
  imports Snitch_Seq
begin

section \<open>What the sequencer's loops mean\<close>

text \<open>
  A program for the sequencer is a list of single instructions, instructions of the bypass lane and loops;
  \<open>seq_unroll\<close> is the list of instructions it stands for. The rest of a program under way is a list of
  \<open>work\<close>, the first of which may be in the middle; \<open>work_todo\<close> is what it still issues and \<open>work_next\<close>
  one step of it. \<open>work_items\<close> are the entries it takes in the ring, and \<open>entry_of\<close> the contents of
  an entry in terms of the loop it belongs to, the slot it is in and the iterations it has done.
\<close>

abbreviation frep_cfg :: "offload_req \<Rightarrow> frep_config" where
  "frep_cfg f \<equiv> seq_config_of (or_insn f)"

definition frep_reps :: "offload_req \<Rightarrow> nat" where
  "frep_reps f = nat (fc_max_rpt (frep_cfg f))"

definition frep_last :: "offload_req \<Rightarrow> nat" where
  "frep_last f = nat (fc_max_inst (frep_cfg f))"

text \<open>The offset of the staggered registers in an iteration.\<close>

definition frep_offset :: "offload_req \<Rightarrow> nat \<Rightarrow> int" where
  "frep_offset f k = int (k mod (nat (fc_stagger_max (frep_cfg f)) + 1))"

definition frep_shift :: "offload_req \<Rightarrow> nat \<Rightarrow> offload_req \<Rightarrow> offload_req" where
  "frep_shift f k r =
     (let insn = or_insn r; d = frep_offset f k; mask = fc_stagger_mask (frep_cfg f);
          step = (\<lambda>b. if bit mask b then d else 0) in
      r\<lparr>or_insn := insn\<lparr>in_out_regs := (in_out_regs insn)(0 := in_out_regs insn 0 + step 0),
         in_in_regs := (in_in_regs insn)(0 := in_in_regs insn 0 + step 1,
            1 := in_in_regs insn 1 + step 2, 2 := in_in_regs insn 2 + step 3)\<rparr>\<rparr>)"

definition frep_instance :: "offload_req \<Rightarrow> offload_req \<Rightarrow> nat \<Rightarrow> offload_req" where
  "frep_instance f r k =
     (if fc_stagger_max (frep_cfg f) > 0 then seq_trace_args (frep_shift f k r) else frep_shift f k r)"

subsection \<open>Programs\<close>

datatype prog_item = Bypass offload_req | Single offload_req | Frep offload_req "offload_req list"

definition frep_sequenceable :: "offload_req \<Rightarrow> bool" where
  "frep_sequenceable r \<longleftrightarrow> \<not> in_tag_frep (or_insn r) \<and> \<not> in_tag_nseq (or_insn r)"

definition frep_ok :: "offload_req \<Rightarrow> bool" where
  "frep_ok f \<longleftrightarrow> in_tag_frep (or_insn f) \<and> 0 \<le> fc_max_rpt (frep_cfg f) \<and>
     0 \<le> fc_max_inst (frep_cfg f) \<and> fc_max_inst (frep_cfg f) < SEQ_SIZE \<and>
     0 \<le> fc_stagger_max (frep_cfg f)"

fun item_ok :: "prog_item \<Rightarrow> bool" where
  "item_ok (Bypass r) \<longleftrightarrow> \<not> in_tag_frep (or_insn r) \<and> in_tag_nseq (or_insn r)"
| "item_ok (Single r) \<longleftrightarrow> frep_sequenceable r"
| "item_ok (Frep f body) \<longleftrightarrow>
     frep_ok f \<and> length body = Suc (frep_last f) \<and> list_all frep_sequenceable body"

fun item_requests :: "prog_item \<Rightarrow> offload_req list" where
  "item_requests (Bypass r) = [r]"
| "item_requests (Single r) = [r]"
| "item_requests (Frep f body) = f # body"

fun item_unroll :: "prog_item \<Rightarrow> offload_req list" where
  "item_unroll (Bypass r) = [r]"
| "item_unroll (Single r) = [r]"
| "item_unroll (Frep f body) =
     (if in_is_outer (or_insn f)
      then concat (map (\<lambda>k. map (\<lambda>r. frep_instance f r k) body) [0..<Suc (frep_reps f)])
      else concat (map (\<lambda>r. map (frep_instance f r) [0..<Suc (frep_reps f)]) body))"

definition seq_requests :: "prog_item list \<Rightarrow> offload_req list" where
  "seq_requests prog = concat (map item_requests prog)"

definition seq_unroll :: "prog_item list \<Rightarrow> offload_req list" where
  "seq_unroll prog = concat (map item_unroll prog)"

subsection \<open>Work under way\<close>

datatype work = W_bypass offload_req | W_single offload_req
  | W_inner offload_req nat offload_req nat
  | W_outer offload_req nat "offload_req list" nat nat

fun work_ok :: "work \<Rightarrow> bool" where
  "work_ok (W_bypass r) \<longleftrightarrow> \<not> in_tag_frep (or_insn r) \<and> in_tag_nseq (or_insn r)"
| "work_ok (W_single r) \<longleftrightarrow> frep_sequenceable r"
| "work_ok (W_inner f i r k) \<longleftrightarrow> frep_ok f \<and> \<not> in_is_outer (or_insn f) \<and> frep_sequenceable r \<and>
     i \<le> frep_last f \<and> k \<le> frep_reps f"
| "work_ok (W_outer f i body k p) \<longleftrightarrow> frep_ok f \<and> in_is_outer (or_insn f) \<and>
     list_all frep_sequenceable body \<and> i + length body = Suc (frep_last f) \<and> p < length body \<and>
     k \<le> frep_reps f \<and> (k = frep_reps f \<longrightarrow> p = 0) \<and> (0 < i \<longrightarrow> k = frep_reps f)"

fun work_pos :: "work \<Rightarrow> nat" where
  "work_pos (W_outer f i body k p) = p"
| "work_pos _ = 0"

fun work_todo :: "work \<Rightarrow> offload_req list" where
  "work_todo (W_bypass r) = [r]"
| "work_todo (W_single r) = [r]"
| "work_todo (W_inner f i r k) = map (frep_instance f r) [k..<Suc (frep_reps f)]"
| "work_todo (W_outer f i body k p) = map (\<lambda>r. frep_instance f r k) (drop p body) @
     concat (map (\<lambda>j. map (\<lambda>r. frep_instance f r j) body) [Suc k..<Suc (frep_reps f)])"

fun work_next :: "work \<Rightarrow> work list" where
  "work_next (W_bypass r) = []"
| "work_next (W_single r) = []"
| "work_next (W_inner f i r k) = (if k < frep_reps f then [W_inner f i r (Suc k)] else [])"
| "work_next (W_outer f i body k p) =
     (if k < frep_reps f
      then (if Suc p < length body then [W_outer f i body k (Suc p)] else [W_outer f i body (Suc k) 0])
      else (case body of r # r' # rest \<Rightarrow> [W_outer f (Suc i) (r' # rest) k 0] | _ \<Rightarrow> []))"

definition works_todo :: "work list \<Rightarrow> offload_req list" where
  "works_todo ws = concat (map work_todo ws)"

fun item_works :: "prog_item \<Rightarrow> work list" where
  "item_works (Bypass r) = [W_bypass r]"
| "item_works (Single r) = [W_single r]"
| "item_works (Frep f body) =
     (if in_is_outer (or_insn f) then [W_outer f 0 body 0 0]
      else map (\<lambda>(i, r). W_inner f i r 0) (enumerate 0 body))"

lemma work_todo_next:
  assumes "work_ok w"
  shows "work_todo w = hd (work_todo w) # works_todo (work_next w)"
proof (cases w)
  case (W_inner f i r k)
  then show ?thesis using assms by (auto simp: works_todo_def upt_conv_Cons simp del: upt_Suc)
next
  case (W_outer f i body k p)
  then show ?thesis using assms
    by (auto simp: works_todo_def upt_conv_Cons Cons_nth_drop_Suc [symmetric] simp del: upt_Suc
        split: list.splits)
qed (auto simp: works_todo_def)

lemma work_next_ok: "work_ok w \<Longrightarrow> list_all work_ok (work_next w)"
  by (cases w) (auto split: list.splits)

lemma work_next_length: "length (work_next w) \<le> 1"
  by (cases w) (auto split: list.splits)

lemma work_todo_not_Nil: "work_ok w \<Longrightarrow> work_todo w \<noteq> []"
  by (metis work_todo_next list.distinct(1))

lemma item_works_ok: "item_ok it \<Longrightarrow> list_all work_ok (item_works it)"
  by (cases it) (auto simp: list_all_iff in_set_enumerate_eq)

lemma item_works_fresh: "w \<in> set (item_works it) \<Longrightarrow> work_pos w = 0"
  by (cases it) (auto split: if_splits)

lemma concat_single_loop:
  "works_todo (map (\<lambda>(i, r). W_inner f i r 0) (enumerate n body)) =
     concat (map (\<lambda>r. map (frep_instance f r) [0..<Suc (frep_reps f)]) body)"
  by (induction body arbitrary: n) (auto simp: works_todo_def)

lemma item_works_todo: "item_ok it \<Longrightarrow> works_todo (item_works it) = item_unroll it"
proof (cases it)
  case (Frep f body)
  then show ?thesis
    by (auto simp: concat_single_loop simp del: upt_Suc) (auto simp: works_todo_def upt_conv_Cons simp del: upt_Suc)
qed (auto simp: works_todo_def)

subsection \<open>The entries of the ring\<close>

datatype ring_item = I_bypass offload_req | I_single offload_req
  | I_loop offload_req nat offload_req nat

fun item_cnt :: "ring_item \<Rightarrow> nat" where
  "item_cnt (I_loop f i r k) = k"
| "item_cnt _ = 0"

fun is_bypass :: "ring_item \<Rightarrow> bool" where
  "is_bypass (I_bypass r) = True"
| "is_bypass _ = False"

fun work_items :: "work \<Rightarrow> ring_item list" where
  "work_items (W_bypass r) = [I_bypass r]"
| "work_items (W_single r) = [I_single r]"
| "work_items (W_inner f i r k) = [I_loop f i r k]"
| "work_items (W_outer f i body k p) =
     map (\<lambda>j. I_loop f (i + j) (body ! j) (if j < p then Suc k else k)) [0..<length body]"

definition works_items :: "work list \<Rightarrow> ring_item list" where
  "works_items ws = concat (map work_items ws)"

definition stagger_left :: "offload_req \<Rightarrow> nat \<Rightarrow> int" where
  "stagger_left f k =
     (let smax = fc_stagger_max (frep_cfg f); mask = fc_stagger_mask (frep_cfg f) in
      if bit mask 0 \<or> bit mask 1 \<or> bit mask 2 \<or> bit mask 3 then smax - frep_offset f k else smax - int k)"

definition loop_entry :: "int \<Rightarrow> offload_req \<Rightarrow> nat \<Rightarrow> offload_req \<Rightarrow> nat \<Rightarrow> buffer_entry" where
  "loop_entry sl f i r k =
     (let c = frep_cfg f; base = (sl - int i) mod SEQ_SIZE in
      \<lparr>be_req = frep_shift f k r, be_isn_sequence = False, be_is_outer = fc_is_outer c,
       be_max_inst = fc_max_inst c, be_max_rpt = fc_max_rpt c - int k, be_stagger_max = stagger_left f k,
       be_stagger_mask = fc_stagger_mask c, be_base_entry = base,
       be_next_entry = seq_next_entry (fc_is_outer c) (i = frep_last f) (k = frep_reps f) sl base,
       be_config = c\<rparr>)"

fun entry_of :: "int \<Rightarrow> ring_item \<Rightarrow> buffer_entry" where
  "entry_of sl (I_single r) = seq_gen_single sl r"
| "entry_of sl (I_loop f i r k) = loop_entry sl f i r k"
| "entry_of sl (I_bypass r) = buffer_entry_init r"

end
