(* ===== verification/Snitch_Seq_Entries.thy ===== *)
theory Snitch_Seq_Entries
  imports Snitch_Seq_Loops
begin

section \<open>The code on one entry of the sequencer's ring\<close>

text \<open>
  The code that makes, reads and updates an entry, in terms of \<open>entry_of\<close>: a new entry has done no
  iteration, an update counts one, a read gives the instruction of the iteration and the slot the next
  step of the work is in.
\<close>

lemma slot_range [simp]: "0 \<le> x mod SEQ_SIZE" "x mod SEQ_SIZE < SEQ_SIZE"
  by (simp_all add: SEQ_SIZE_def)

lemma slot_add:
  assumes "0 \<le> x" "x < SEQ_SIZE" "0 \<le> d" "d < SEQ_SIZE"
  shows "(x + d) mod SEQ_SIZE = (if x + d < SEQ_SIZE then x + d else x + d - SEQ_SIZE)"
proof (cases "x + d < SEQ_SIZE")
  case False
  then have "(x + d) mod SEQ_SIZE = (x + d - SEQ_SIZE) mod SEQ_SIZE"
    by (intro mod_pos_geq) (auto simp: SEQ_SIZE_def)
  also have "\<dots> = x + d - SEQ_SIZE" using assms False by (intro mod_pos_pos_trivial) auto
  finally show ?thesis using False by simp
qed (use assms in \<open>simp add: mod_pos_pos_trivial\<close>)

lemma slot_minus:
  assumes "0 \<le> x" "x < SEQ_SIZE" "0 \<le> d" "d < SEQ_SIZE"
  shows "(x - d) mod SEQ_SIZE = (if d \<le> x then x - d else x - d + SEQ_SIZE)"
proof (cases "d \<le> x")
  case False
  then have "(x - d + SEQ_SIZE) mod SEQ_SIZE = x - d + SEQ_SIZE"
    using assms by (intro mod_pos_pos_trivial) auto
  then show ?thesis using False by simp
qed (use assms in \<open>simp add: mod_pos_pos_trivial\<close>)

lemma frep_offset_0 [simp]: "frep_offset f 0 = 0"
  by (simp add: frep_offset_def)

lemma frep_offset_Suc:
  assumes "0 \<le> fc_stagger_max (frep_cfg f)"
  shows "frep_offset f (Suc k) =
    (if frep_offset f k = fc_stagger_max (frep_cfg f) then 0 else frep_offset f k + 1)"
  using assms by (auto simp: frep_offset_def mod_Suc)

lemma frep_offset_le:
  assumes "0 \<le> fc_stagger_max (frep_cfg f)"
  shows "frep_offset f k \<le> fc_stagger_max (frep_cfg f)"
proof -
  have "k mod (nat (fc_stagger_max (frep_cfg f)) + 1) \<le> nat (fc_stagger_max (frep_cfg f))"
    using mod_less_divisor [of "nat (fc_stagger_max (frep_cfg f)) + 1" k] by linarith
  then have "int (k mod (nat (fc_stagger_max (frep_cfg f)) + 1)) \<le> int (nat (fc_stagger_max (frep_cfg f)))"
    by (simp only: of_nat_le_iff)
  then show ?thesis using assms by (simp add: frep_offset_def)
qed

lemma frep_shift_0 [simp]: "frep_shift f 0 r = r"
  by (simp add: frep_shift_def Let_def)

lemma stagger_left_0: "stagger_left f 0 = fc_stagger_max (frep_cfg f)"
  by (simp add: stagger_left_def Let_def)

text \<open>The slot of the last instruction of a loop, from any of its slots.\<close>

lemma frep_last_int:
  assumes "frep_ok f"
  shows "fc_max_inst (frep_cfg f) = int (frep_last f)" and "int (frep_last f) < SEQ_SIZE"
  using assms by (auto simp: frep_ok_def frep_last_def)

lemma slot_last:
  assumes "frep_ok f" and "i \<le> frep_last f" and "0 \<le> sl" and "sl < SEQ_SIZE"
  shows "sl = ((sl - int i) mod SEQ_SIZE + fc_max_inst (frep_cfg f)) mod SEQ_SIZE \<longleftrightarrow> i = frep_last f"
proof -
  define d where "d = int (frep_last f) - int i"
  have d: "0 \<le> d" "d < SEQ_SIZE" using assms(2) frep_last_int [OF assms(1)] by (auto simp: d_def)
  have "((sl - int i) mod SEQ_SIZE + int (frep_last f)) mod SEQ_SIZE = (sl + d) mod SEQ_SIZE"
    unfolding d_def mod_add_left_eq by (simp add: algebra_simps)
  moreover have "sl = (sl + d) mod SEQ_SIZE \<longleftrightarrow> d = 0"
    using assms(3,4) d by (auto simp: slot_add)
  ultimately show ?thesis by (auto simp: frep_last_int [OF assms(1)] d_def)
qed

lemma slot_in_sequence:
  assumes "frep_ok f" and "i \<le> frep_last f" and "0 \<le> w" and "w < SEQ_SIZE"
  shows "seq_in_sequence w ((w - int i) mod SEQ_SIZE) (frep_cfg f)"
proof -
  define m where "m = int (frep_last f)"
  define b where "b = (w - int i) mod SEQ_SIZE"
  have m: "int i \<le> m" "0 \<le> m" "m < SEQ_SIZE"
    using assms(2) frep_last_int [OF assms(1)] by (auto simp: m_def)
  have b: "b = (if int i \<le> w then w - int i else w - int i + SEQ_SIZE)"
    unfolding b_def using assms(3,4) m by (intro slot_minus) auto
  have "\<not> (w > (b + m) mod SEQ_SIZE \<and> w < b)"
  proof (cases "int i \<le> w")
    case False
    have "0 \<le> b" "b < SEQ_SIZE" using b_def by simp_all
    then have "(b + m) mod SEQ_SIZE = (if b + m < SEQ_SIZE then b + m else b + m - SEQ_SIZE)"
      using m by (intro slot_add) auto
    then show ?thesis using b False m by auto
  qed (use b in auto)
  then show ?thesis
    using m by (simp add: seq_in_sequence_def frep_last_int [OF assms(1)] b_def m_def)
qed

lemma gen_loop_entry:
  assumes "frep_ok f" and "i \<le> frep_last f" and "0 \<le> w" and "w < SEQ_SIZE"
  shows "seq_gen_loop w ((w - int i) mod SEQ_SIZE) (frep_cfg f) r = loop_entry w f i r 0"
proof -
  have "fc_max_rpt (frep_cfg f) = 0 \<longleftrightarrow> 0 = frep_reps f"
    using assms(1) by (auto simp: frep_ok_def frep_reps_def)
  then show ?thesis
    using slot_last [OF assms]
    by (simp add: seq_gen_loop_def loop_entry_def buffer_entry_init_def stagger_left_0 Let_def)
qed

subsection \<open>Reading and updating\<close>

lemma stagger_left_Suc:
  assumes "0 \<le> fc_stagger_max (frep_cfg f)"
  shows "stagger_left f (Suc k) =
    (if stagger_left f k - 1 < 0 \<and> (bit (fc_stagger_mask (frep_cfg f)) 0 \<or>
        bit (fc_stagger_mask (frep_cfg f)) 1 \<or> bit (fc_stagger_mask (frep_cfg f)) 2 \<or>
        bit (fc_stagger_mask (frep_cfg f)) 3)
     then fc_stagger_max (frep_cfg f) else stagger_left f k - 1)"
  using frep_offset_le [OF assms, of k] frep_offset_Suc [OF assms, of k]
  by (auto simp: stagger_left_def Let_def)

lemma stagger_reg_step:
  assumes "0 \<le> fc_stagger_max (frep_cfg f)" and "bit (fc_stagger_mask (frep_cfg f)) b" and "b < 4"
  shows "seq_stagger_reg (fc_stagger_max (frep_cfg f)) (stagger_left f k - 1)
      (reg + frep_offset f k + stagger_left f k) (reg + frep_offset f k) = reg + frep_offset f (Suc k)"
proof -
  have "b = 0 \<or> b = 1 \<or> b = 2 \<or> b = 3" using assms(3) by auto
  then have "stagger_left f k = fc_stagger_max (frep_cfg f) - frep_offset f k"
    using assms(2) by (auto simp: stagger_left_def Let_def)
  then show ?thesis
    using frep_offset_le [OF assms(1), of k] frep_offset_Suc [OF assms(1), of k]
    by (auto simp: seq_stagger_reg_def)
qed

lemma seq_stagger_req:
  assumes "frep_ok f" and "be_req e = frep_shift f k r" and "be_stagger_max e = stagger_left f k"
    and "be_stagger_mask e = fc_stagger_mask (frep_cfg f)" and "be_config e = frep_cfg f"
  shows "seq_stagger e = e\<lparr>be_stagger_max := stagger_left f (Suc k), be_req := frep_shift f (Suc k) r\<rparr>"
proof -
  have s: "0 \<le> fc_stagger_max (frep_cfg f)" using assms(1) by (simp add: frep_ok_def)
  note reg = stagger_reg_step [OF s]
  show ?thesis
    unfolding seq_stagger_def assms Let_def stagger_left_Suc [OF s]
    by (auto simp: frep_shift_def Let_def reg fun_eq_iff intro!: buffer_entry.equality)
qed

lemma updated_loop_entry:
  assumes "frep_ok f" and "i \<le> frep_last f" and "0 \<le> sl" and "sl < SEQ_SIZE"
  shows "seq_updated sl (loop_entry sl f i r k) = loop_entry sl f i r (Suc k)"
proof -
  have "fc_max_rpt (frep_cfg f) - int k - 1 = 0 \<longleftrightarrow> Suc k = frep_reps f"
    using assms(1) by (auto simp: frep_ok_def frep_reps_def)
  then show ?thesis
    using slot_last [OF assms]
    by (subst seq_updated_def) (simp add: seq_stagger_req [OF assms(1)] loop_entry_def Let_def)
qed

lemma read_loop_entry: "be_req (seq_read_copy (loop_entry sl f i r k)) = frep_instance f r k"
  by (simp add: seq_read_copy_def loop_entry_def frep_instance_def Let_def)


subsection \<open>One step of the first work\<close>

fun item_done :: "ring_item \<Rightarrow> bool" where
  "item_done (I_loop f i r k) \<longleftrightarrow> k = frep_reps f"
| "item_done _ = True"

fun item_bump :: "ring_item \<Rightarrow> ring_item" where
  "item_bump (I_loop f i r k) = I_loop f i r (Suc k)"
| "item_bump e = e"

lemma updated_single: "be_max_rpt (seq_updated sl (seq_gen_single sl r)) = -1"
  by (simp add: seq_updated_def seq_gen_single_def buffer_entry_init_def)

lemma read_single: "be_req (seq_read_copy (seq_gen_single sl r)) = r"
  by (simp add: seq_read_copy_def seq_gen_single_def buffer_entry_init_def)

lemma loop_entry_rpt: "frep_ok f \<Longrightarrow> be_max_rpt (loop_entry sl f i r k) = int (frep_reps f) - int k"
  by (simp add: loop_entry_def Let_def frep_reps_def frep_ok_def)

lemma loop_entry_next: "be_next_entry (loop_entry sl f i r k) =
    seq_next_entry (in_is_outer (or_insn f)) (i = frep_last f) (k = frep_reps f) sl ((sl - int i) mod SEQ_SIZE)"
  by (simp add: loop_entry_def Let_def seq_config_of_def)

lemma work_pos_less: "work_ok w \<Longrightarrow> work_pos w < length (work_items w)"
  by (cases w) auto

lemma outer_items_bump:
  assumes "p < length body"
  shows "work_items (W_outer f i body k (Suc p)) =
    (work_items (W_outer f i body k p))[p := item_bump (work_items (W_outer f i body k p) ! p)]"
  using assms by (intro nth_equalityI) (auto simp: nth_list_update)

lemma outer_items_round:
  "work_items (W_outer f i body (Suc k) 0) = work_items (W_outer f i body k (length body))"
  by simp

lemma outer_items_tl:
  "work_items (W_outer f (Suc i) body k 0) = tl (work_items (W_outer f i (r # body) k 0))"
  by (simp add: upt_conv_Cons map_Suc_upt [symmetric] del: upt_Suc)

lemma outer_items_nth:
  "p < length body \<Longrightarrow> work_items (W_outer f i body k p) ! p = I_loop f (i + p) (body ! p) k"
  by simp

lemma outer_items_one: "tl (work_items (W_outer f i [r] k 0)) = []"
  by simp

text \<open>What a step does to the entry it reads, at the slot it is in.\<close>

definition step_done :: "int \<Rightarrow> work \<Rightarrow> buffer_entry \<Rightarrow> bool" where
  "step_done sl w e \<longleftrightarrow> work_pos w = 0 \<and> works_items (work_next w) = tl (work_items w) \<and>
     be_max_rpt (seq_updated sl e) < 0 \<and> be_next_entry e = (sl + 1) mod SEQ_SIZE \<and>
     (\<forall>w'\<in>set (work_next w). work_pos w' = 0)"

definition step_again :: "int \<Rightarrow> work \<Rightarrow> ring_item \<Rightarrow> bool" where
  "step_again sl w it \<longleftrightarrow> (\<exists>w'. work_next w = [w'] \<and>
     work_items w' = (work_items w)[work_pos w := item_bump it] \<and>
     seq_updated sl (entry_of sl it) = entry_of sl (item_bump it) \<and>
     0 \<le> be_max_rpt (entry_of sl (item_bump it)) \<and>
     be_next_entry (entry_of sl it) = (sl + int (work_pos w') - int (work_pos w)) mod SEQ_SIZE)"

lemma work_step:
  assumes "work_ok w" and "0 \<le> sl" and "sl < SEQ_SIZE" and "it = work_items w ! work_pos w"
    and "\<not> is_bypass it"
  shows "be_req (seq_read_copy (entry_of sl it)) = hd (work_todo w)"
    and "if item_done it then step_done sl w (entry_of sl it) else step_again sl w it"
proof -
  show "be_req (seq_read_copy (entry_of sl it)) = hd (work_todo w)"
    using assms by (cases w) (auto simp: read_single read_loop_entry hd_map hd_append hd_drop_conv_nth simp del: upt_Suc)
  show "if item_done it then step_done sl w (entry_of sl it) else step_again sl w it"
  proof (cases w)
    case (W_single r)
    then show ?thesis using assms
      by (auto simp: step_done_def updated_single works_items_def)
        (simp add: seq_gen_single_def)
  next
    case (W_inner f i r k)
    then show ?thesis using assms
      by (auto simp: step_done_def step_again_def works_items_def updated_loop_entry loop_entry_rpt
          loop_entry_next seq_next_entry_def)
  next
    case (W_outer f i body k p)
    then have ok: "frep_ok f" "p < length body" "i + length body = Suc (frep_last f)"
      "in_is_outer (or_insn f)" and it: "it = I_loop f (i + p) (body ! p) k"
      using assms by auto
    show ?thesis
    proof (cases "k = frep_reps f")
      case True
      then have "p = 0" using assms(1) W_outer by simp
      then show ?thesis
        using assms(2,3) ok it True
        by (cases body; cases "tl body")
          (auto simp: step_done_def works_items_def updated_loop_entry loop_entry_rpt W_outer
            loop_entry_next seq_next_entry_def outer_items_tl outer_items_one simp del: work_items.simps)
    next
      case False
      then have k: "i = 0" "k < frep_reps f" using assms(1) W_outer by auto
      have "Suc p < length body \<or> Suc p = length body" using ok(2) by auto
      then show ?thesis
        using assms(2,3) ok it False k
        by (auto simp: step_again_def updated_loop_entry loop_entry_rpt W_outer loop_entry_next
            seq_next_entry_def outer_items_round outer_items_bump outer_items_nth algebra_simps
            simp del: work_items.simps)
    qed
  next
    case (W_bypass r)
    then show ?thesis using assms by simp
  qed
qed

end
