(* ===== verification/Snitch_Seq_Runs.thy ===== *)
theory Snitch_Seq_Runs
  imports Snitch_Seq_Entries "HOL-Library.Sublist"
begin

section \<open>The sequencer runs its program\<close>

text \<open>
  The sequencer with the core that feeds it: the core offers its next instruction, asking first whether it
  is taken, and the clock event runs when it is enabled. \<open>seq_sim\<close> relates the state to the rest of the
  program, of which the ring holds the first \<open>m\<close> entries; \<open>armed\<close> says that a \<open>frep\<close> has been taken and
  none of its instructions yet.
\<close>

datatype seq_ev = Seq_offer io_status | Seq_cycle io_status

type_synonym seq_system = "offload_req list \<times> sequencer"

fun seq_step :: "seq_ev \<Rightarrow> seq_system \<Rightarrow> seq_system" where
  "seq_step (Seq_offer idle) ([], s) = ([], s)"
| "seq_step (Seq_offer idle) (r # rs, s) =
     (let (st, s) = seq_rsp_state (\<not> in_tag_nseq (or_insn r)) idle s in
      if st = IO_REQ_OK then (rs, seq_req r s) else (r # rs, s))"
| "seq_step (Seq_cycle idle) (rs, s) =
     (rs, if sq_enabled s then seq_offload_event idle s else s)"

definition seq_run :: "seq_ev list \<Rightarrow> seq_system \<Rightarrow> seq_system" where
  "seq_run evs sys = fold seq_step evs sys"

text \<open>The sequencer when the reset at power-up ends.\<close>

definition seq_started :: "offload_req \<Rightarrow> sequencer" where
  "seq_started r = seq_reset False (seq_reset True (seq_init r True))"

subsection \<open>The ring\<close>

definition slot :: "int \<Rightarrow> nat \<Rightarrow> int" where
  "slot h j = (h + int j) mod SEQ_SIZE"

lemma slot_bounds [simp]: "0 \<le> slot h j" "slot h j < SEQ_SIZE"
  by (simp_all add: slot_def)

lemma slot_inj: "i < 16 \<Longrightarrow> j < 16 \<Longrightarrow> slot h i = slot h j \<longleftrightarrow> i = j"
proof
  assume ij: "i < 16" "j < 16" and "slot h i = slot h j"
  then have "SEQ_SIZE dvd int i - int j"
    using mod_eq_dvd_iff [of "h + int i" SEQ_SIZE "h + int j"] by (simp add: slot_def)
  then show "i = j" using ij by (auto simp: SEQ_SIZE_def dest: zdvd_imp_le [of _ "int i - int j"]
      zdvd_imp_le [of _ "int j - int i"]) presburger
qed simp

lemma slot_Suc: "slot (h + 1) j = slot h (Suc j)"
  by (simp add: slot_def algebra_simps)

lemma slot_16: "slot h 16 = slot h 0"
  by (simp add: slot_def SEQ_SIZE_def)

lemma slot_plus: "(slot h i + int j) mod SEQ_SIZE = slot h (i + j)"
  unfolding slot_def mod_add_left_eq by (simp add: add.assoc)

lemma slot_cong: "h mod SEQ_SIZE = h' mod SEQ_SIZE \<Longrightarrow> slot h = slot h'"
  unfolding slot_def by (rule ext) (rule mod_add_cong, simp_all)

definition ring_holds :: "(int \<Rightarrow> buffer_entry) \<Rightarrow> int \<Rightarrow> ring_item list \<Rightarrow> bool" where
  "ring_holds ring h es \<longleftrightarrow> length es \<le> 16 \<and> (\<forall>j<16.
     if j < length es then ring (slot h j) = entry_of (slot h j) (es ! j)
     else be_max_rpt (ring (slot h j)) < 0)"

lemma ring_holds_cong: "h mod SEQ_SIZE = h' mod SEQ_SIZE \<Longrightarrow> ring_holds ring h = ring_holds ring h'"
  unfolding ring_holds_def by (simp add: slot_cong [of h h'])

lemma ring_holds_nth: "ring_holds ring h es \<Longrightarrow> j < length es \<Longrightarrow>
    ring (slot h j) = entry_of (slot h j) (es ! j)"
  by (auto simp: ring_holds_def)

lemma ring_holds_free: "ring_holds ring h es \<Longrightarrow> length es \<le> j \<Longrightarrow> j < 16 \<Longrightarrow>
    be_max_rpt (ring (slot h j)) < 0"
  by (auto simp: ring_holds_def)

lemma ring_push:
  assumes "ring_holds ring h es" and "length es < 16" and "sl = slot h (length es)"
  shows "ring_holds (ring(sl := entry_of sl e)) h (es @ [e])"
  using assms by (auto simp: ring_holds_def slot_inj nth_append less_Suc_eq)

lemma ring_set:
  assumes "ring_holds ring h es" and "i < length es" and "sl = slot h i"
  shows "ring_holds (ring(sl := entry_of sl e)) h (es[i := e])"
  using assms by (auto simp: ring_holds_def slot_inj nth_list_update)

lemma ring_pop:
  assumes "ring_holds ring h (e # es)" and "be_max_rpt b < 0" and "sl = slot h 0"
  shows "ring_holds (ring(sl := b)) (h + 1) es"
proof -
  have l: "length es < 16" using assms(1) by (simp add: ring_holds_def)
  have "if j < length es then (ring(sl := b)) (slot h (Suc j)) = entry_of (slot h (Suc j)) (es ! j)
      else be_max_rpt ((ring(sl := b)) (slot h (Suc j))) < 0" if j: "j < 16" for j
  proof (cases "j = 15")
    case True
    then show ?thesis using assms(2,3) l slot_16 [of h] by simp
  next
    case False
    then have "Suc j < 16" using j by simp
    then have "slot h (Suc j) \<noteq> sl" using assms(3) slot_inj [of "Suc j" 0 h] by simp
    then show ?thesis
      using \<open>Suc j < 16\<close> assms(1) by (auto simp: ring_holds_def dest: spec [of _ "Suc j"])
  qed
  then have all: "\<forall>j<16. if j < length es then (ring(sl := b)) (slot h (Suc j)) = entry_of (slot h (Suc j)) (es ! j)
      else be_max_rpt ((ring(sl := b)) (slot h (Suc j))) < 0" by blast
  show ?thesis
    unfolding ring_holds_def slot_Suc by (rule conjI [OF less_imp_le [OF l] all])
qed

subsection \<open>The rest of the program\<close>

fun item_tag :: "ring_item \<Rightarrow> (offload_req \<times> nat) option" where
  "item_tag (I_loop f i r k) = Some (f, i)"
| "item_tag _ = None"

lemma item_tag_bump [simp]: "item_tag (item_bump it) = item_tag it"
  by (cases it) auto

lemma item_bump_bypass [simp]: "is_bypass (item_bump it) = is_bypass it"
  by (cases it) auto

text \<open>The instructions of a loop follow one another, from the first to the last.\<close>

fun tag_starts :: "(offload_req \<times> nat) option list \<Rightarrow> bool" where
  "tag_starts (Some (f, i) # ts) \<longleftrightarrow> i = 0"
| "tag_starts _ = True"

fun tags_linked :: "(offload_req \<times> nat) option list \<Rightarrow> bool" where
  "tags_linked [] = True"
| "tags_linked (None # ts) \<longleftrightarrow> tag_starts ts \<and> tags_linked ts"
| "tags_linked (Some (f, i) # ts) \<longleftrightarrow>
     (if i = frep_last f then tag_starts ts else ts \<noteq> [] \<and> hd ts = Some (f, Suc i)) \<and> tags_linked ts"

lemma tags_linked_tl: "tags_linked ts \<Longrightarrow> tags_linked (tl ts)"
  by (induction ts rule: tags_linked.induct) auto

lemma tags_linked_drop: "tags_linked ts \<Longrightarrow> tags_linked (drop n ts)"
  by (induction n arbitrary: ts) (auto simp: drop_Suc tags_linked_tl)

fun item_reqs :: "ring_item \<Rightarrow> offload_req list" where
  "item_reqs (I_bypass r) = [r]"
| "item_reqs (I_single r) = [r]"
| "item_reqs (I_loop f i r k) = (if i = 0 then [f, r] else [r])"

definition reqs_left :: "ring_item list \<Rightarrow> bool \<Rightarrow> offload_req list" where
  "reqs_left items armed = (let rs = concat (map item_reqs items) in if armed then tl rs else rs)"

text \<open>The configuration fits the next instruction to come.\<close>

fun config_fits :: "sequencer \<Rightarrow> (offload_req \<times> nat) option list \<Rightarrow> bool \<Rightarrow> bool" where
  "config_fits s (Some (f, i) # ts) armed \<longleftrightarrow>
     (if 0 < i \<or> armed
      then sq_frep_config s = frep_cfg f \<and> sq_base_id s = (sq_write_id s - int i) mod SEQ_SIZE \<and>
        \<not> (0 < i \<and> armed)
      else fc_max_inst (sq_frep_config s) < 0)"
| "config_fits s ts armed \<longleftrightarrow> fc_max_inst (sq_frep_config s) < 0 \<and> \<not> armed"

definition works_pos :: "work list \<Rightarrow> nat" where
  "works_pos ws = (case ws of [] \<Rightarrow> 0 | w # _ \<Rightarrow> work_pos w)"

text \<open>The relation, but for what it says of the clock event.\<close>

definition seq_core :: "sequencer \<Rightarrow> work list \<Rightarrow> nat \<Rightarrow> bool \<Rightarrow> bool" where
  "seq_core s ws m armed \<longleftrightarrow>
     list_all work_ok ws \<and> (\<forall>w\<in>set (tl ws). work_pos w = 0) \<and>
     tags_linked (map item_tag (works_items ws)) \<and>
     m \<le> length (works_items ws) \<and>
     (\<forall>it\<in>set (take m (works_items ws)). \<not> is_bypass it) \<and>
     (\<forall>it\<in>set (drop m (works_items ws)). item_cnt it = 0) \<and>
     sq_nb_entries s = int m \<and> 0 \<le> sq_write_id s \<and> sq_write_id s < SEQ_SIZE \<and>
     ring_holds (sq_ring s) (sq_write_id s - int m) (take m (works_items ws)) \<and>
     sq_read_id s = slot (sq_write_id s - int m) (works_pos ws) \<and> works_pos ws \<le> m \<and>
     sq_out_bound s \<and> config_fits s (map item_tag (drop m (works_items ws))) armed"

definition seq_sim :: "sequencer \<Rightarrow> work list \<Rightarrow> nat \<Rightarrow> bool \<Rightarrow> bool" where
  "seq_sim s ws m armed \<longleftrightarrow> seq_core s ws m armed \<and>
     sq_stalled s = (\<not> sq_enabled s) \<and> (works_pos ws < m \<longrightarrow> sq_enabled s) \<and>
     (sq_enabled s \<and> 0 < m \<longrightarrow> works_pos ws < m)"

lemmas seq_sim_defs = seq_sim_def seq_core_def

end
