(* ===== verification/Snitch_Seq_Correct.thy ===== *)
theory Snitch_Seq_Correct
  imports Snitch_Seq_Runs
begin

section \<open>The sequencer issues its program unrolled\<close>

text \<open>
  Each operation keeps \<open>seq_sim\<close>: a request moves to the next entry of the program, the clock event makes
  one step of the first work. From there what is issued is the unrolled program, in order, whatever the
  interleaving of the offers and the cycles and the answers of the subsystem, and none of it is lost.
\<close>

subsection \<open>The items of the rest of a program\<close>

fun item_fine :: "ring_item \<Rightarrow> bool" where
  "item_fine (I_bypass r) \<longleftrightarrow> \<not> in_tag_frep (or_insn r) \<and> in_tag_nseq (or_insn r)"
| "item_fine (I_single r) \<longleftrightarrow> frep_sequenceable r"
| "item_fine (I_loop f i r k) \<longleftrightarrow> frep_ok f \<and> frep_sequenceable r \<and> i \<le> frep_last f \<and>
     k \<le> frep_reps f"

lemma work_items_fine: "work_ok w \<Longrightarrow> it \<in> set (work_items w) \<Longrightarrow> item_fine it"
  by (cases w) (auto simp: list_all_length)

lemma works_items_fine: "list_all work_ok ws \<Longrightarrow> it \<in> set (works_items ws) \<Longrightarrow> item_fine it"
  by (auto simp: works_items_def list_all_iff work_items_fine)

lemma works_items_Cons: "works_items (w # ws) = work_items w @ works_items ws"
  by (simp add: works_items_def)

lemma works_items_append: "works_items (ws @ vs) = works_items ws @ works_items vs"
  by (simp add: works_items_def)

lemma work_items_bypass: "it \<in> set (work_items w) \<Longrightarrow> is_bypass it \<Longrightarrow> \<exists>r. w = W_bypass r \<and> it = I_bypass r"
  by (cases w) auto

lemma work_items_not_Nil: "work_ok w \<Longrightarrow> work_items w \<noteq> []"
  using work_pos_less [of w] by auto

text \<open>The next item to come, with what it asks for.\<close>

lemma seq_sim_next:
  assumes "seq_sim s ws m armed" and "reqs_left (drop m (works_items ws)) armed = r # rs"
  obtains it where "m < length (works_items ws)" "works_items ws ! m = it" "item_cnt it = 0"
    "item_fine it" "drop m (works_items ws) = it # drop (Suc m) (works_items ws)"
proof -
  have "drop m (works_items ws) \<noteq> []" using assms(2) by (auto simp: reqs_left_def split: if_splits)
  then have m: "m < length (works_items ws)" by simp
  then have d: "drop m (works_items ws) = (works_items ws ! m) # drop (Suc m) (works_items ws)"
    by (simp add: Cons_nth_drop_Suc)
  have "works_items ws ! m \<in> set (drop m (works_items ws))" unfolding d by simp
  then have "item_cnt (works_items ws ! m) = 0" using assms(1) by (auto simp: seq_sim_defs)
  moreover have "item_fine (works_items ws ! m)"
    using assms(1) m by (auto simp: seq_sim_defs intro!: works_items_fine)
  ultimately show ?thesis using that m d by blast
qed

subsection \<open>A frep\<close>

lemma seq_req_frep:
  assumes "seq_sim s ws m armed" and "reqs_left (drop m (works_items ws)) armed = r # rs"
    and "in_tag_frep (or_insn r)"
  shows "seq_sim (seq_req r s) ws m True" and "reqs_left (drop m (works_items ws)) True = rs"
    and "sq_out (seq_req r s) = sq_out s"
proof -
  obtain it where it: "item_cnt it = 0" "item_fine it"
    "drop m (works_items ws) = it # drop (Suc m) (works_items ws)"
    by (rule seq_sim_next [OF assms(1,2)])
  have c: "config_fits s (map item_tag (drop m (works_items ws))) armed"
    using assms(1) by (simp add: seq_sim_defs)
  have "\<exists>r'. it = I_loop r 0 r' 0 \<and> \<not> armed"
    using it(1,2) assms(2,3) c unfolding it(3)
    by (cases it) (auto simp: reqs_left_def Let_def frep_sequenceable_def split: if_splits)
  then obtain r' where l: "it = I_loop r 0 r' 0" "\<not> armed" by auto
  have q: "seq_req r s = seq_frep r s" using assms(3) by (simp add: seq_req_def Let_def)
  show "sq_out (seq_req r s) = sq_out s" by (simp add: q seq_frep_def)
  show "reqs_left (drop m (works_items ws)) True = rs"
    using assms(2) l by (simp add: it(3) reqs_left_def Let_def)
  have w: "(sq_write_id s - int 0) mod SEQ_SIZE = sq_write_id s"
    using assms(1) by (simp add: seq_sim_defs mod_pos_pos_trivial)
  show "seq_sim (seq_req r s) ws m True"
    using assms(1) w l(1) unfolding q seq_sim_defs it(3) by (simp add: seq_frep_def)
qed

subsection \<open>A sequenceable instruction\<close>

text \<open>The loop an item continues, if any, is the one configured.\<close>

definition item_taken :: "ring_item \<Rightarrow> bool \<Rightarrow> bool" where
  "item_taken it armed \<longleftrightarrow> \<not> is_bypass it \<and> (\<forall>f i. item_tag it = Some (f, i) \<longrightarrow> 0 < i \<or> armed)"

lemma gen_entry_next:
  assumes "config_fits s (item_tag it # ts) armed" and "item_fine it" and "item_cnt it = 0"
    and "item_taken it armed" and "item_reqs it = pre @ [r]"
    and "0 \<le> sq_write_id s" and "sq_write_id s < SEQ_SIZE" and "tags_linked (item_tag it # ts)"
  obtains c where "seq_gen_entry r s = (entry_of (sq_write_id s) it, s\<lparr>sq_frep_config := c\<rparr>)"
    and "config_fits (s\<lparr>sq_frep_config := c, sq_write_id := (sq_write_id s + 1) mod SEQ_SIZE\<rparr>) ts False"
proof (cases it)
  case (I_single r')
  then have "\<not> seq_in_sequence (sq_write_id s) (sq_base_id s) (sq_frep_config s)" and "r' = r"
    using assms(1,5) by (auto simp: seq_in_sequence_def)
  then have "seq_gen_entry r s = (entry_of (sq_write_id s) it, s\<lparr>sq_frep_config := sq_frep_config s\<rparr>)"
    using I_single by (simp add: seq_gen_entry_def)
  moreover have "config_fits (s\<lparr>sq_frep_config := sq_frep_config s,
      sq_write_id := (sq_write_id s + 1) mod SEQ_SIZE\<rparr>) ts False"
    using assms(1,8) I_single by (cases ts rule: tag_starts.cases) auto
  ultimately show ?thesis using that by blast
next
  case (I_loop f i r' k)
  have f: "frep_ok f" "i \<le> frep_last f" and r: "r' = r" "k = 0"
    using assms(2,3,5) I_loop by (auto split: if_splits simp: append_eq_Cons_conv Cons_eq_append_conv)
  have c: "sq_frep_config s = frep_cfg f" "sq_base_id s = (sq_write_id s - int i) mod SEQ_SIZE"
    using assms(1,4) I_loop by (auto simp: item_taken_def split: if_splits)
  define c' where "c' = (if i = frep_last f then (frep_cfg f)\<lparr>fc_max_inst := -1, fc_max_rpt := -1,
      fc_stagger_max := 0, fc_stagger_mask := 0\<rparr> else frep_cfg f)"
  note w = f assms(6,7)
  have "seq_gen_entry r s = (entry_of (sq_write_id s) it, s\<lparr>sq_frep_config := c'\<rparr>)"
    using slot_in_sequence [OF w] gen_loop_entry [OF w] slot_last [OF w] c(1)
    by (simp add: seq_gen_entry_def Let_def c I_loop r c'_def)
  moreover have "((sq_write_id s + 1) mod SEQ_SIZE - int (Suc i)) mod SEQ_SIZE =
      (sq_write_id s - int i) mod SEQ_SIZE"
    by (simp add: mod_diff_left_eq)
  then have "config_fits (s\<lparr>sq_frep_config := c',
      sq_write_id := (sq_write_id s + 1) mod SEQ_SIZE\<rparr>) ts False"
    using assms(8) I_loop c f(2) by (cases ts rule: tag_starts.cases) (auto simp: c'_def split: if_splits)
  ultimately show ?thesis using that by blast
qed (use assms in \<open>simp add: item_taken_def\<close>)

lemma seq_req_write:
  assumes "seq_sim s ws m armed" and "reqs_left (drop m (works_items ws)) armed = r # rs"
    and "frep_sequenceable r" and "m < 16"
  shows "seq_sim (seq_req r s) ws (Suc m) False" and "reqs_left (drop (Suc m) (works_items ws)) False = rs"
    and "sq_out (seq_req r s) = sq_out s"
proof -
  obtain it where m: "m < length (works_items ws)" "works_items ws ! m = it" and it: "item_cnt it = 0"
    "item_fine it" and d: "drop m (works_items ws) = it # drop (Suc m) (works_items ws)"
    by (rule seq_sim_next [OF assms(1,2)])
  let ?ts = "map item_tag (drop (Suc m) (works_items ws))"
  have c: "config_fits s (item_tag it # ?ts) armed"
    using assms(1) by (simp add: seq_sim_defs d)
  have "tags_linked (drop m (map item_tag (works_items ws)))"
    using assms(1) by (intro tags_linked_drop) (simp add: seq_sim_defs)
  then have l: "tags_linked (item_tag it # ?ts)" by (simp add: drop_map d)
  have t: "item_taken it armed \<and> (\<exists>pre. item_reqs it = pre @ [r]) \<and>
      reqs_left (drop (Suc m) (works_items ws)) False = rs"
    using it assms(2,3) c unfolding d
    by (cases it) (auto simp: reqs_left_def Let_def frep_sequenceable_def frep_ok_def item_taken_def
        split: if_splits)
  then show "reqs_left (drop (Suc m) (works_items ws)) False = rs" by simp
  obtain pre where pre: "item_reqs it = pre @ [r]" using t by blast
  have w: "0 \<le> sq_write_id s" "sq_write_id s < SEQ_SIZE" using assms(1) by (simp_all add: seq_sim_defs)
  obtain c' where g: "seq_gen_entry r s = (entry_of (sq_write_id s) it, s\<lparr>sq_frep_config := c'\<rparr>)"
    "config_fits (s\<lparr>sq_frep_config := c', sq_write_id := (sq_write_id s + 1) mod SEQ_SIZE\<rparr>) ?ts False"
    using gen_entry_next [OF c it(2,1) _ pre w l] t by blast
  define s' where "s' = s\<lparr>sq_frep_config := c',
      sq_ring := (sq_ring s)(sq_write_id s := entry_of (sq_write_id s) it),
      sq_write_id := (sq_write_id s + 1) mod SEQ_SIZE, sq_nb_entries := sq_nb_entries s + 1,
      sq_stalled := False, sq_enabled := True\<rparr>"
  have q: "seq_req r s = s'"
    using assms(1,3,4)
    by (auto simp: seq_req_def Let_def frep_sequenceable_def g(1) seq_write_entry_def seq_isFull_def
        seq_sim_defs seq_stalled_dec_def SEQ_SIZE_def s'_def)
  show "sq_out (seq_req r s) = sq_out s" by (simp add: q s'_def)
  show "seq_sim (seq_req r s) ws (Suc m) False"
  proof -
    let ?is = "works_items ws"
    let ?h = "sq_write_id s - int m"
    have h: "((sq_write_id s + 1) mod SEQ_SIZE - int (Suc m)) mod SEQ_SIZE = ?h mod SEQ_SIZE"
      by (simp add: mod_diff_left_eq)
    have tk: "take (Suc m) ?is = take m ?is @ [it]" using m by (simp add: take_Suc_conv_app_nth)
    have "sq_write_id s = slot ?h (length (take m ?is))"
      using m(1) w by (simp add: slot_def mod_pos_pos_trivial)
    then have ring: "ring_holds (sq_ring s') ?h (take (Suc m) ?is)"
      using assms(1,4) m(1) unfolding tk s'_def seq_sim_defs by (simp add: ring_push)
    have cf: "config_fits s' ?ts False"
      using g(2) by (cases ?ts rule: tag_starts.cases) (auto simp: s'_def)
    have fields: "sq_nb_entries s' = int (Suc m)" "sq_write_id s' = (sq_write_id s + 1) mod SEQ_SIZE"
      "sq_read_id s' = sq_read_id s" "sq_enabled s'" "\<not> sq_stalled s'" "sq_out_bound s'"
      using assms(1) by (simp_all add: s'_def seq_sim_defs)
    have "\<forall>it\<in>set (drop (Suc m) ?is). item_cnt it = 0" "\<not> is_bypass it"
      using assms(1) t by (simp_all add: seq_sim_defs d item_taken_def)
    then show ?thesis
      using assms(1) ring cf m(1) unfolding q seq_sim_defs fields(1-3) tk
        ring_holds_cong [OF h] slot_cong [OF h] by (simp add: less_Suc_eq_le fields(4-6))
  qed
qed

subsection \<open>An instruction of the bypass lane\<close>

lemma works_items_bypass_hd:
  assumes "list_all work_ok ws" and "works_items ws = I_bypass r # its"
  obtains ws' where "ws = W_bypass r # ws'" "works_items ws' = its"
proof (cases ws)
  case (Cons w ws')
  then have "work_items w \<noteq> []" using assms(1) work_items_not_Nil [of w] by simp
  then obtain its' where i: "work_items w = I_bypass r # its'"
    using assms(2) Cons by (cases "work_items w") (auto simp: works_items_Cons)
  then have "w = W_bypass r" using work_items_bypass [of "I_bypass r" w] by auto
  then show ?thesis using that assms(2) Cons i by (auto simp: works_items_Cons)
qed (use assms(2) in \<open>simp add: works_items_def\<close>)

lemma seq_req_bypass:
  assumes "seq_sim s ws 0 armed" and "reqs_left (drop 0 (works_items ws)) armed = r # rs"
    and "\<not> in_tag_frep (or_insn r)" and "in_tag_nseq (or_insn r)"
  obtains ws' where "ws = W_bypass r # ws'" "seq_sim (seq_req r s) ws' 0 False"
    "reqs_left (drop 0 (works_items ws')) False = rs" "sq_out (seq_req r s) = sq_out s @ [r]"
proof -
  obtain it where it: "item_cnt it = 0" "item_fine it" and
    d: "drop 0 (works_items ws) = it # drop (Suc 0) (works_items ws)"
    by (rule seq_sim_next [OF assms(1,2)])
  let ?its = "drop (Suc 0) (works_items ws)"
  have "config_fits s (map item_tag (drop 0 (works_items ws))) armed"
    using assms(1) unfolding seq_sim_defs by blast
  then have c: "config_fits s (item_tag it # map item_tag ?its) armed" unfolding d by simp
  have i: "it = I_bypass r \<and> \<not> armed \<and> reqs_left ?its False = rs"
    using it assms(2-4) c unfolding d
    by (cases it) (auto simp: reqs_left_def Let_def frep_sequenceable_def frep_ok_def split: if_splits)
  have ok: "list_all work_ok ws" using assms(1) by (simp add: seq_sim_defs)
  have "works_items ws = I_bypass r # ?its" using d i by simp
  then obtain ws' where ws: "ws = W_bypass r # ws'" "works_items ws' = ?its"
    by (rule works_items_bypass_hd [OF ok])
  have q: "seq_req r s = s\<lparr>sq_out := sq_out s @ [r]\<rparr>"
    using assms(1,3,4) by (simp add: seq_req_def Let_def seq_sync_def seq_sim_defs)
  have "tags_linked (map item_tag (drop 0 (works_items ws)))"
    using assms(1) unfolding seq_sim_defs drop_0 by blast
  then have starts: "tag_starts (map item_tag ?its)" "tags_linked (map item_tag ?its)"
    unfolding d using i by simp_all
  then have "config_fits s (map item_tag ?its) False"
    using c i by (cases "map item_tag ?its" rule: tag_starts.cases) auto
  then have cf: "config_fits (seq_req r s) (map item_tag ?its) False"
    unfolding q by (cases "map item_tag ?its" rule: tag_starts.cases) auto
  have "works_pos ws' = 0" "\<forall>w\<in>set (tl ws'). work_pos w = 0"
    using assms(1) ws(1) by (cases ws'; simp add: seq_sim_defs works_pos_def)+
  moreover have "\<forall>it\<in>set (works_items ws'). item_cnt it = 0"
  proof -
    have "\<forall>it\<in>set (drop 0 (works_items ws)). item_cnt it = 0"
      using assms(1) unfolding seq_sim_defs by blast
    then show ?thesis unfolding d ws(2) by simp
  qed
  moreover have "works_pos ws = 0" "list_all work_ok ws'" using ws(1) ok by (simp_all add: works_pos_def)
  moreover have "tags_linked (map item_tag (works_items ws'))"
    "config_fits (seq_req r s) (map item_tag (works_items ws')) False"
    using starts(2) cf unfolding ws(2) by simp_all
  ultimately have "seq_sim (seq_req r s) ws' 0 False"
    using assms(1) unfolding seq_sim_defs by (simp add: q)
  then show ?thesis using that ws i by (simp add: q)
qed

subsection \<open>The clock event\<close>

lemma entry_rpt: "item_fine it \<Longrightarrow> \<not> is_bypass it \<Longrightarrow> 0 \<le> be_max_rpt (entry_of sl it)"
  by (cases it) (auto simp: seq_gen_single_def loop_entry_rpt)

lemma works_pos_nth:
  "list_all work_ok ws \<Longrightarrow> ws \<noteq> [] \<Longrightarrow>
    works_pos ws < length (works_items ws) \<and> works_items ws ! works_pos ws = work_items (hd ws) ! work_pos (hd ws)"
  by (cases ws) (auto simp: works_pos_def works_items_Cons nth_append dest: work_pos_less)

lemma works_pos_16: "list_all work_ok ws \<Longrightarrow> works_pos ws < 16"
  by (cases ws; cases "hd ws") (auto simp: works_pos_def frep_ok_def frep_last_def SEQ_SIZE_def)

text \<open>The entry that will be read next.\<close>

lemma seq_core_head:
  assumes "seq_core s ws m armed" and "works_pos ws < m"
  obtains w rest it where "ws = w # rest" "it = work_items w ! work_pos w" "work_ok w" "item_fine it"
    "\<not> is_bypass it" "sq_ring s (sq_read_id s) = entry_of (sq_read_id s) it"
    "sq_read_id s = slot (sq_write_id s - int m) (work_pos w)"
    "take m (works_items ws) ! work_pos w = it"
proof -
  have ok: "list_all work_ok ws" and m: "m \<le> length (works_items ws)"
    using assms(1) by (simp_all add: seq_core_def)
  then obtain w rest where ws: "ws = w # rest" using assms(2) by (cases ws) (auto simp: works_items_def)
  have n: "works_items ws ! works_pos ws = work_items w ! work_pos w" "works_pos ws = work_pos w"
    using works_pos_nth [OF ok] ws by (auto simp: works_pos_def)
  define it where "it = work_items w ! work_pos w"
  have tk: "take m (works_items ws) ! work_pos w = it"
    using n assms(2) by (simp add: it_def)
  then have "it \<in> set (take m (works_items ws))"
    using n assms(2) m by (metis in_set_conv_nth length_take min.absorb2)
  then have b: "\<not> is_bypass it" "item_fine it"
    using assms(1) ok by (auto simp: seq_core_def dest: in_set_takeD intro: works_items_fine)
  have r: "sq_read_id s = slot (sq_write_id s - int m) (work_pos w)"
    using assms(1) n by (simp add: seq_core_def)
  have "sq_ring s (slot (sq_write_id s - int m) (work_pos w)) =
      entry_of (slot (sq_write_id s - int m) (work_pos w)) (take m (works_items ws) ! work_pos w)"
    using assms n m by (intro ring_holds_nth) (auto simp: seq_core_def)
  then show ?thesis using that [OF ws it_def] ok ws b r tk by simp
qed

definition seq_stall_check :: "sequencer \<Rightarrow> sequencer" where
  "seq_stall_check s =
     (if (seq_isEmpty s \<or> be_max_rpt (sq_ring s (sq_read_id s)) < 0) \<and> \<not> sq_stalled s
      then seq_stalled_inc s else s)"

lemma seq_core_stalled_inc: "seq_core (seq_stalled_inc s) ws m armed = seq_core s ws m armed"
  by (cases "map item_tag (drop m (works_items ws))" rule: tag_starts.cases)
    (simp_all add: seq_core_def seq_stalled_inc_def Let_def)

lemma stall_check_sim:
  assumes "seq_core s ws m armed" and "sq_enabled s" and "\<not> sq_stalled s"
  shows "seq_sim (seq_stall_check s) ws m armed" and "sq_out (seq_stall_check s) = sq_out s"
proof -
  show "sq_out (seq_stall_check s) = sq_out s"
    by (simp add: seq_stall_check_def seq_stalled_inc_def Let_def)
  have m: "sq_nb_entries s = int m" "works_pos ws \<le> m" using assms(1) by (simp_all add: seq_core_def)
  show "seq_sim (seq_stall_check s) ws m armed"
  proof (cases "works_pos ws < m")
    case True
    obtain it where "item_fine it" "\<not> is_bypass it" "sq_ring s (sq_read_id s) = entry_of (sq_read_id s) it"
      by (rule seq_core_head [OF assms(1) True])
    then have "\<not> be_max_rpt (sq_ring s (sq_read_id s)) < 0"
      using entry_rpt [of it "sq_read_id s"] by simp
    then have "seq_stall_check s = s"
      using m True by (simp add: seq_stall_check_def seq_isEmpty_def)
    then show ?thesis using assms True by (simp add: seq_sim_def)
  next
    case False
    then have p: "works_pos ws = m" using m by simp
    have "be_max_rpt (sq_ring s (sq_read_id s)) < 0"
    proof -
      have "m < 16" using works_pos_16 [of ws] assms(1) p by (simp add: seq_core_def)
      then show ?thesis using assms(1) p
        by (auto simp: seq_core_def intro!: ring_holds_free [where es = "take m (works_items ws)"])
    qed
    then have "seq_stall_check s = seq_stalled_inc s"
      using assms(3) by (simp add: seq_stall_check_def)
    then show ?thesis
      using assms p by (simp add: seq_sim_def seq_core_stalled_inc) (simp add: seq_stalled_inc_def Let_def)
  qed
qed

text \<open>One instruction issued.\<close>

lemma issue_eq:
  assumes "\<not> seq_isEmpty s" and "sq_out_bound s"
  shows "seq_issue i s = s\<lparr>sq_read_id := be_next_entry (sq_ring s i),
    sq_out := sq_out s @ [be_req (seq_read_copy (sq_ring s i))],
    sq_ring := (sq_ring s)(i := seq_updated i (sq_ring s i)),
    sq_nb_entries := (if be_max_rpt (seq_updated i (sq_ring s i)) < 0
      then sq_nb_entries s - 1 else sq_nb_entries s)\<rparr>"
  using assms by (simp add: seq_issue_def seq_read_entry_def seq_sync_def seq_update_entry_def Let_def)

lemma issue_core:
  assumes "seq_core s ws m armed" and "works_pos ws < m"
  obtains ws' m' where "seq_core (seq_issue (sq_read_id s) s) ws' m' armed"
    "works_todo ws = hd (works_todo ws) # works_todo ws'"
    "sq_out (seq_issue (sq_read_id s) s) = sq_out s @ [hd (works_todo ws)]"
    "drop m' (works_items ws') = drop m (works_items ws)"
proof -
  obtain w rest it where ws: "ws = w # rest" and it: "it = work_items w ! work_pos w" and w: "work_ok w"
    and fine: "item_fine it" "\<not> is_bypass it" and e: "sq_ring s (sq_read_id s) = entry_of (sq_read_id s) it"
    and rd: "sq_read_id s = slot (sq_write_id s - int m) (work_pos w)"
    and tk: "take m (works_items ws) ! work_pos w = it"
    by (rule seq_core_head [OF assms])
  let ?sl = "sq_read_id s" and ?h = "sq_write_id s - int m" and ?is = "works_items ws"
  have sl: "0 \<le> ?sl" "?sl < SEQ_SIZE" by (simp_all add: rd)
  note step = work_step [OF w sl it fine(2)]
  have core: "list_all work_ok ws" "\<forall>w\<in>set (tl ws). work_pos w = 0" "tags_linked (map item_tag ?is)"
    "m \<le> length ?is" "\<forall>it\<in>set (take m ?is). \<not> is_bypass it" "\<forall>it\<in>set (drop m ?is). item_cnt it = 0"
    "sq_nb_entries s = int m" "ring_holds (sq_ring s) ?h (take m ?is)" "sq_out_bound s"
    "config_fits s (map item_tag (drop m ?is)) armed"
    using assms(1) by (simp_all add: seq_core_def)
  have wr: "0 \<le> sq_write_id s" "sq_write_id s < SEQ_SIZE" using assms(1) by (simp_all add: seq_core_def)
  have pos: "works_pos ws = work_pos w" using ws by (simp add: works_pos_def)
  have ne: "\<not> seq_isEmpty s" using core(7) assms(2) by (simp add: seq_isEmpty_def)
  note q = issue_eq [OF ne core(9), of ?sl, unfolded e step(1)]
  have todo: "works_todo ws = hd (works_todo ws) # works_todo (work_next w @ rest)"
    "hd (works_todo ws) = hd (work_todo w)"
    using work_todo_next [OF w] work_todo_not_Nil [OF w] by (simp_all add: ws works_todo_def)
  have nok: "list_all work_ok (work_next w @ rest)" using core(1) ws work_next_ok [OF w] by simp
  have rest0: "\<forall>w\<in>set rest. work_pos w = 0" using core(2) ws by simp
  then have tl0: "\<forall>w\<in>set (tl (work_next w @ rest)). work_pos w = 0"
    using work_next_length [of w] by (cases "work_next w"; cases rest) auto
  have items: "?is = work_items w @ works_items rest" using ws by (simp add: works_items_Cons)
  have fits: "config_fits (seq_issue ?sl s) (map item_tag (drop m ?is)) armed"
    using core(10) unfolding q by (cases "map item_tag (drop m ?is)" rule: tag_starts.cases) auto
  show ?thesis
  proof (cases "item_done it")
    case True
    then have d: "step_done ?sl w (entry_of ?sl it)" using step(2) by simp
    then have p: "work_pos w = 0" by (simp add: step_done_def)
    obtain m' where m': "m = Suc m'" using assms(2) by (cases m) auto
    have its: "works_items (work_next w @ rest) = tl ?is"
      using d work_pos_less [OF w] by (simp add: items step_done_def works_items_append)
    have tm: "take m ?is = it # take m' (tl ?is)"
      using tk core(4) p unfolding m' by (cases ?is) auto
    have ring: "ring_holds ((sq_ring s)(?sl := seq_updated ?sl (entry_of ?sl it))) (?h + 1) (take m' (tl ?is))"
      using core(8) d rd p unfolding tm by (intro ring_pop [where e = it]) (auto simp: step_done_def)
    have dr: "drop m' (tl ?is) = drop m ?is" by (simp add: m' drop_Suc)
    have wp: "works_pos (work_next w @ rest) = 0"
      using d rest0 by (cases "work_next w"; cases rest) (auto simp: works_pos_def step_done_def)
    have nx: "be_next_entry (entry_of ?sl it) = slot (?h + 1) 0"
      using d p slot_plus [of ?h 0 1] unfolding slot_Suc by (simp add: step_done_def rd)
    have "seq_core (seq_issue ?sl s) (work_next w @ rest) m' armed"
      unfolding seq_core_def its dr wp
    proof (intro conjI)
      show "tags_linked (map item_tag (tl ?is))" using core(3) by (simp add: map_tl tags_linked_tl)
      show "m' \<le> length (tl ?is)" using core(4) m' by simp
      show "\<forall>it\<in>set (take m' (tl ?is)). \<not> is_bypass it" using core(5) unfolding tm by simp
      have h: "sq_write_id s - int m' = ?h + 1" by (simp add: m')
      show "ring_holds (sq_ring (seq_issue ?sl s)) (sq_write_id (seq_issue ?sl s) - int m') (take m' (tl ?is))"
        using ring by (simp add: q h)
      show "sq_read_id (seq_issue ?sl s) = slot (sq_write_id (seq_issue ?sl s) - int m') 0"
        using nx by (simp add: q h)
      show "sq_nb_entries (seq_issue ?sl s) = int m'"
        using d core(7) m' by (simp add: q step_done_def)
      show "list_all work_ok (work_next w @ rest)" by (rule nok)
      show "config_fits (seq_issue ?sl s) (map item_tag (drop m ?is)) armed" by (rule fits)
    qed (use tl0 core(6,9) wr in \<open>simp_all add: q\<close>)
    then show ?thesis using that todo its dr by (simp add: q)
  next
    case False
    then obtain w' where w': "work_next w = [w']" "work_items w' = (work_items w)[work_pos w := item_bump it]"
      "seq_updated ?sl (entry_of ?sl it) = entry_of ?sl (item_bump it)"
      "0 \<le> be_max_rpt (entry_of ?sl (item_bump it))"
      "be_next_entry (entry_of ?sl it) = (?sl + int (work_pos w') - int (work_pos w)) mod SEQ_SIZE"
      using step(2) by (auto simp: step_again_def)
    have wok: "work_ok w'" using nok w'(1) by simp
    have its: "works_items (work_next w @ rest) = ?is[work_pos w := item_bump it]"
      using work_pos_less [OF w] by (simp add: items w'(1,2) works_items_Cons list_update_append)
    have pm: "work_pos w < m" using assms(2) pos by simp
    have dr: "drop m (?is[work_pos w := item_bump it]) = drop m ?is" using pm by simp
    have tm: "take m (?is[work_pos w := item_bump it]) = (take m ?is)[work_pos w := item_bump it]"
      by (simp add: take_update_swap)
    have n: "?is ! work_pos w = it" using tk pm core(4) by simp
    have tags: "map item_tag (?is[work_pos w := item_bump it]) = map item_tag ?is"
      using n pm core(4) by (simp add: map_update list_update_same_conv)
    have ring: "ring_holds ((sq_ring s)(?sl := entry_of ?sl (item_bump it))) ?h
        ((take m ?is)[work_pos w := item_bump it])"
      using core(4,8) pm rd by (intro ring_set) auto
    have wp: "works_pos (work_next w @ rest) = work_pos w'" by (simp add: w'(1) works_pos_def)
    have nx: "be_next_entry (entry_of ?sl it) = slot ?h (work_pos w')"
      using mod_add_left_eq [of "?h + int (work_pos w)" SEQ_SIZE "int (work_pos w') - int (work_pos w)"]
      unfolding w'(5) by (simp add: rd slot_def add_diff_eq diff_add_eq)
    have le: "work_pos w' \<le> m"
      using w'(1) w pm by (cases w) (auto split: if_splits list.splits)
    have "seq_core (seq_issue ?sl s) (work_next w @ rest) m armed"
      unfolding seq_core_def its dr wp tm tags
    proof (intro conjI)
      show "\<forall>it\<in>set ((take m ?is)[work_pos w := item_bump it]). \<not> is_bypass it"
        using core(5) fine(2) by (auto dest!: set_update_subset_insert [THEN subsetD])
      show "list_all work_ok (work_next w @ rest)" by (rule nok)
      show "config_fits (seq_issue ?sl s) (map item_tag (drop m ?is)) armed" by (rule fits)
      show "ring_holds (sq_ring (seq_issue ?sl s)) (sq_write_id (seq_issue ?sl s) - int m)
          ((take m ?is)[work_pos w := item_bump it])"
        using ring w'(3) by (simp add: q)
      show "sq_read_id (seq_issue ?sl s) = slot (sq_write_id (seq_issue ?sl s) - int m) (work_pos w')"
        using nx by (simp add: q)
      show "sq_nb_entries (seq_issue ?sl s) = int m" using core(7) w'(3,4) by (simp add: q)
    qed (use tl0 core(3,4,6,9) wr le in \<open>simp_all add: q\<close>)
    then show ?thesis using that todo its dr by (simp add: q)
  qed
qed

lemma seq_core_ready_o [simp]:
  "seq_core (s\<lparr>sq_acc_req_ready_o := b\<rparr>) ws m armed = seq_core s ws m armed"
  by (cases "map item_tag (drop m (works_items ws))" rule: tag_starts.cases) (simp_all add: seq_core_def)

lemma seq_sim_ready [simp]:
  "seq_sim (s\<lparr>sq_acc_req_ready := b\<rparr>) ws m armed = seq_sim s ws m armed"
  by (cases "map item_tag (drop m (works_items ws))" rule: tag_starts.cases)
    (simp_all add: seq_sim_def seq_core_def)

lemma offload_event_eq: "seq_offload_event idle s = seq_stall_check
    (if \<not> seq_isEmpty s \<and> idle = IO_REQ_OK
     then seq_issue (sq_read_id s) (s\<lparr>sq_acc_req_ready_o := True\<rparr>)
     else s\<lparr>sq_acc_req_ready_o := (idle = IO_REQ_OK)\<rparr>)"
  by (simp add: seq_offload_event_def seq_stall_check_def seq_check_state_def seq_isEmpty_def Let_def)
    blast

abbreviation cycled :: "io_status \<Rightarrow> sequencer \<Rightarrow> sequencer" where
  "cycled idle s \<equiv> (if sq_enabled s then seq_offload_event idle s else s)"

lemma cycle_issues:
  assumes "seq_sim s ws m armed" and "works_pos ws < m"
  obtains ws' m' where "seq_sim (cycled IO_REQ_OK s) ws' m' armed"
    "works_todo ws = hd (works_todo ws) # works_todo ws'"
    "sq_out (cycled IO_REQ_OK s) = sq_out s @ [hd (works_todo ws)]"
    "drop m' (works_items ws') = drop m (works_items ws)"
proof -
  let ?s = "s\<lparr>sq_acc_req_ready_o := True\<rparr>"
  have s: "seq_core ?s ws m armed" "sq_enabled s" "\<not> sq_stalled s" "\<not> seq_isEmpty s" "sq_out_bound s"
    using assms by (simp_all add: seq_sim_def) (auto simp: seq_core_def seq_isEmpty_def)
  obtain ws' m' where i: "seq_core (seq_issue (sq_read_id ?s) ?s) ws' m' armed"
    "works_todo ws = hd (works_todo ws) # works_todo ws'"
    "sq_out (seq_issue (sq_read_id ?s) ?s) = sq_out ?s @ [hd (works_todo ws)]"
    "drop m' (works_items ws') = drop m (works_items ws)"
    by (rule issue_core [OF s(1) assms(2)])
  have "sq_enabled (seq_issue (sq_read_id ?s) ?s)" "\<not> sq_stalled (seq_issue (sq_read_id ?s) ?s)"
    using s by (simp_all add: issue_eq seq_isEmpty_def)
  note c = stall_check_sim [OF i(1) this]
  have q: "cycled IO_REQ_OK s = seq_stall_check (seq_issue (sq_read_id ?s) ?s)"
    using s by (simp add: offload_event_eq)
  show ?thesis using that [of ws' m'] c i unfolding q by simp
qed

lemma cycle_waits:
  assumes "seq_sim s ws m armed" and "\<not> (works_pos ws < m \<and> idle = IO_REQ_OK)"
  shows "seq_sim (cycled idle s) ws m armed" and "sq_out (cycled idle s) = sq_out s"
proof -
  let ?s = "s\<lparr>sq_acc_req_ready_o := (idle = IO_REQ_OK)\<rparr>"
  have "seq_sim (cycled idle s) ws m armed \<and> sq_out (cycled idle s) = sq_out s"
  proof (cases "sq_enabled s")
    case True
    then have s: "seq_core ?s ws m armed" "sq_enabled ?s" "\<not> sq_stalled ?s"
      using assms(1) by (auto simp: seq_sim_def)
    have "seq_isEmpty s \<or> idle \<noteq> IO_REQ_OK"
      using assms True by (auto simp: seq_sim_def seq_core_def seq_isEmpty_def)
    then have "cycled idle s = seq_stall_check ?s" using True by (auto simp: offload_event_eq)
    then show ?thesis using stall_check_sim [OF s] by simp
  qed (use assms(1) in simp)
  then show "seq_sim (cycled idle s) ws m armed" "sq_out (cycled idle s) = sq_out s" by auto
qed

end
