(* ===== verification/Snitch_Seq_Program.thy ===== *)
theory Snitch_Seq_Program
  imports Snitch_Seq_Correct
begin

section \<open>Programs through the sequencer\<close>

text \<open>
  The core's offers, and the theorems over whole runs: what has been issued is a part of the unrolled
  program, a core that keeps offering and a subsystem that is ready get all of it, one instruction per cycle
  once the core has sent everything, and a reset in the middle keeps the instructions of before.
\<close>

subsection \<open>An offer of the core\<close>

definition seq_tracks :: "prog_item list \<Rightarrow> seq_system \<Rightarrow> work list \<Rightarrow> nat \<Rightarrow> bool \<Rightarrow> bool" where
  "seq_tracks prog sys ws m armed \<longleftrightarrow> seq_sim (snd sys) ws m armed \<and>
     reqs_left (drop m (works_items ws)) armed = fst sys \<and>
     sq_out (snd sys) @ works_todo ws = seq_unroll prog"

definition seq_accepts :: "offload_req \<Rightarrow> io_status \<Rightarrow> sequencer \<Rightarrow> bool" where
  "seq_accepts r idle s \<longleftrightarrow>
     (if in_tag_nseq (or_insn r) then seq_isEmpty s \<and> idle = IO_REQ_OK else \<not> seq_isFull s)"

lemma step_offer_eq: "seq_step (Seq_offer idle) (r # rs, s) =
    (let s' = s\<lparr>sq_acc_req_ready := seq_accepts r idle s\<rparr> in
     if seq_accepts r idle s then (rs, seq_req r s') else (r # rs, s'))"
  by (auto simp: seq_rsp_state_def seq_accepts_def seq_check_state_def Let_def seq_isEmpty_def seq_isFull_def)

lemma offer_tracks:
  assumes "seq_tracks prog (r # rs, s) ws m armed"
  obtains ws' m' armed' where "seq_tracks prog (seq_step (Seq_offer idle) (r # rs, s)) ws' m' armed'"
proof (cases "seq_accepts r idle s")
  case False
  then have "seq_tracks prog (seq_step (Seq_offer idle) (r # rs, s)) ws m armed"
    using assms by (simp add: seq_tracks_def step_offer_eq del: seq_step.simps)
  then show ?thesis by (rule that)
next
  case True
  let ?s = "s\<lparr>sq_acc_req_ready := True\<rparr>"
  have q: "seq_step (Seq_offer idle) (r # rs, s) = (rs, seq_req r ?s)"
    using True by (simp add: step_offer_eq del: seq_step.simps)
  have sim: "seq_sim ?s ws m armed" and l: "reqs_left (drop m (works_items ws)) armed = r # rs"
    and o: "sq_out ?s @ works_todo ws = seq_unroll prog"
    using assms by (simp_all add: seq_tracks_def)
  have m: "sq_nb_entries s = int m" using assms by (simp add: seq_tracks_def seq_sim_defs)
  show ?thesis
  proof (cases "in_tag_frep (or_insn r)")
    case True
    show ?thesis
      by (rule that [of ws m True]) (use seq_req_frep [OF sim l True] o in \<open>simp add: seq_tracks_def q del: seq_step.simps\<close>)
  next
    case frep: False
    show ?thesis
    proof (cases "in_tag_nseq (or_insn r)")
      case nseq: True
      then have m0: "m = 0" using True m by (simp add: seq_accepts_def seq_isEmpty_def)
      obtain ws' where "ws = W_bypass r # ws'" "seq_sim (seq_req r ?s) ws' 0 False"
        "reqs_left (drop 0 (works_items ws')) False = rs" "sq_out (seq_req r ?s) = sq_out ?s @ [r]"
        by (rule seq_req_bypass [OF sim [unfolded m0] l [unfolded m0] frep nseq])
      then have "seq_tracks prog (rs, seq_req r ?s) ws' 0 False"
        using o by (simp add: seq_tracks_def works_todo_def)
      then show ?thesis using that by (simp add: q del: seq_step.simps)
    next
      case nseq: False
      then have "m < 16" using True m by (simp add: seq_accepts_def seq_isFull_def SEQ_SIZE_def)
      then show ?thesis
        using seq_req_write [OF sim l _ \<open>m < 16\<close>] frep nseq o
        by (intro that [of ws "Suc m" False]) (simp add: seq_tracks_def q frep_sequenceable_def del: seq_step.simps)
    qed
  qed
qed

lemma cycle_tracks:
  assumes "seq_tracks prog (rs, s) ws m armed"
  obtains ws' m' where "seq_tracks prog (seq_step (Seq_cycle idle) (rs, s)) ws' m' armed"
    "works_pos ws < m \<Longrightarrow> idle = IO_REQ_OK \<Longrightarrow>
      length (works_todo ws) = Suc (length (works_todo ws')) \<and>
      sq_out (snd (seq_step (Seq_cycle idle) (rs, s))) = sq_out s @ [hd (works_todo ws)]"
    "\<not> (works_pos ws < m \<and> idle = IO_REQ_OK) \<Longrightarrow> ws' = ws"
proof (cases "works_pos ws < m \<and> idle = IO_REQ_OK")
  case True
  have sim: "seq_sim s ws m armed" using assms by (simp add: seq_tracks_def)
  obtain ws' m' where c: "seq_sim (cycled IO_REQ_OK s) ws' m' armed"
    "works_todo ws = hd (works_todo ws) # works_todo ws'"
    "sq_out (cycled IO_REQ_OK s) = sq_out s @ [hd (works_todo ws)]"
    "drop m' (works_items ws') = drop m (works_items ws)"
    using cycle_issues [OF sim] True by blast
  have "length (works_todo ws) = Suc (length (works_todo ws'))"
    using arg_cong [OF c(2), of length] by simp
  moreover have "sq_out (cycled IO_REQ_OK s) @ works_todo ws' = sq_out s @ works_todo ws"
    unfolding c(3) using c(2) by simp
  ultimately show ?thesis
    using that [of ws' m'] assms True c(1,3,4) by (simp add: seq_tracks_def)
next
  case False
  have sim: "seq_sim s ws m armed" using assms by (simp add: seq_tracks_def)
  show ?thesis
    using that [of ws m] assms False cycle_waits [OF sim False] by (auto simp: seq_tracks_def)
qed

lemma step_tracks:
  assumes "seq_tracks prog sys ws m armed"
  shows "\<exists>ws' m' armed'. seq_tracks prog (seq_step ev sys) ws' m' armed'"
proof (cases ev)
  case (Seq_offer idle)
  show ?thesis
  proof (cases "fst sys")
    case Nil
    then show ?thesis using assms Seq_offer by (cases sys) auto
  next
    case (Cons r rs)
    then have "seq_tracks prog (r # rs, snd sys) ws m armed" using assms by (metis prod.collapse)
    then obtain ws' m' armed' where "seq_tracks prog (seq_step ev (r # rs, snd sys)) ws' m' armed'"
      unfolding Seq_offer by (rule offer_tracks)
    then show ?thesis using Cons by (metis prod.collapse)
  qed
next
  case (Seq_cycle idle)
  have "seq_tracks prog (fst sys, snd sys) ws m armed" using assms by simp
  then obtain ws' m' where "seq_tracks prog (seq_step ev (fst sys, snd sys)) ws' m' armed"
    unfolding Seq_cycle by (rule cycle_tracks)
  then show ?thesis by auto
qed

lemma run_tracks:
  assumes "seq_tracks prog sys ws m armed"
  shows "\<exists>ws' m' armed'. seq_tracks prog (seq_run evs sys) ws' m' armed'"
  using assms
proof (induction evs arbitrary: sys ws m armed)
  case Nil
  then show ?case by (auto simp: seq_run_def)
next
  case (Cons ev evs)
  obtain ws' m' armed' where "seq_tracks prog (seq_step ev sys) ws' m' armed'"
    using step_tracks [OF Cons.prems] by blast
  from Cons.IH [OF this] show ?case by (simp add: seq_run_def)
qed

subsection \<open>The start\<close>

definition prog_works :: "prog_item list \<Rightarrow> work list" where
  "prog_works prog = concat (map item_works prog)"

lemma prog_works_simps [simp]: "prog_works [] = []" "prog_works (it # prog) = item_works it @ prog_works prog"
  by (simp_all add: prog_works_def)

lemma works_todo_append: "works_todo (ws @ vs) = works_todo ws @ works_todo vs"
  by (simp add: works_todo_def)

lemma prog_works_todo: "list_all item_ok prog \<Longrightarrow> works_todo (prog_works prog) = seq_unroll prog"
  by (induction prog) (simp_all add: works_todo_append item_works_todo seq_unroll_def, simp add: works_todo_def)

lemma prog_works_ok: "list_all item_ok prog \<Longrightarrow> list_all work_ok (prog_works prog)"
  by (induction prog) (simp_all add: item_works_ok)

lemma prog_works_fresh: "w \<in> set (prog_works prog) \<Longrightarrow> work_pos w = 0"
  by (induction prog) (auto dest: item_works_fresh)

text \<open>The entries of an item.\<close>

fun item_items :: "prog_item \<Rightarrow> ring_item list" where
  "item_items (Bypass r) = [I_bypass r]"
| "item_items (Single r) = [I_single r]"
| "item_items (Frep f body) = map (\<lambda>(i, r). I_loop f i r 0) (enumerate 0 body)"

lemma works_items_inner: "works_items (map (\<lambda>(i, r). W_inner f i r 0) xs) = map (\<lambda>(i, r). I_loop f i r 0) xs"
  by (induction xs) (auto simp: works_items_def)

lemma item_works_items: "works_items (item_works it) = item_items it"
proof (cases it)
  case (Frep f body)
  have "map (\<lambda>j. I_loop f j (body ! j) 0) [0..<length body] = map (\<lambda>(i, r). I_loop f i r 0) (enumerate 0 body)"
    by (rule nth_equalityI) (simp_all add: nth_enumerate_eq)
  then show ?thesis using Frep by (simp add: works_items_inner) (simp add: works_items_def)
qed (simp_all add: works_items_def)

lemma loop_tags:
  assumes "n + length body = Suc (frep_last f)" and "body \<noteq> []" and "tag_starts ts" and "tags_linked ts"
  shows "tags_linked (map (\<lambda>(i, r). Some (f, i)) (enumerate n body) @ ts)"
  using assms(1,2)
proof (induction body arbitrary: n)
  case (Cons r body)
  show ?case
  proof (cases body)
    case Nil
    then show ?thesis using Cons.prems assms(3,4) by simp
  next
    case (Cons r' body')
    define xs where "xs = map (\<lambda>(i, r). Some (f, i)) (enumerate (Suc n) body) @ ts"
    have "tags_linked xs"
      unfolding xs_def by (rule Cons.IH) (use Cons.prems Cons in auto)
    moreover have "xs \<noteq> [] \<and> hd xs = Some (f, Suc n)" by (simp add: xs_def Cons)
    moreover have "n \<noteq> frep_last f" using Cons.prems Cons by simp
    ultimately have "tags_linked (Some (f, n) # xs)" by simp
    then show ?thesis
      unfolding xs_def enumerate_simps list.map append_Cons prod.case .
  qed
qed simp

lemma prog_tags:
  assumes "list_all item_ok prog"
  shows "tags_linked (map item_tag (works_items (prog_works prog))) \<and>
    tag_starts (map item_tag (works_items (prog_works prog)))"
  using assms
proof (induction prog)
  case (Cons it prog)
  let ?ts = "map item_tag (works_items (prog_works prog))"
  have ih: "tags_linked ?ts" "tag_starts ?ts" using Cons by simp_all
  show ?case
  proof (cases it)
    case (Frep f body)
    have t: "map item_tag (map (\<lambda>(i, r). I_loop f i r 0) xs) = map (\<lambda>(i, r). Some (f, i)) xs" for xs
      by (induction xs) auto
    have "body \<noteq> []" "length body = Suc (frep_last f)" using Cons.prems Frep by auto
    then have "tags_linked (map (\<lambda>(i, r). Some (f, i)) (enumerate 0 body) @ ?ts)"
      using ih by (intro loop_tags) auto
    moreover have "tag_starts (map (\<lambda>(i, r). Some (f, i)) (enumerate 0 body) @ ?ts)"
      using \<open>body \<noteq> []\<close> by (cases body) auto
    ultimately show ?thesis
      unfolding Frep prog_works_simps works_items_append item_works_items map_append item_items.simps t
      by (rule conjI)
  qed (use ih in \<open>simp_all add: works_items_Cons\<close>)
qed (simp add: works_items_def)

lemma item_items_cnt: "it' \<in> set (item_items it) \<Longrightarrow> item_cnt it' = 0"
  by (cases it) auto

lemma prog_items_cnt: "it \<in> set (works_items (prog_works prog)) \<Longrightarrow> item_cnt it = 0"
  by (induction prog) (auto simp: works_items_append item_works_items works_items_def [of "[]"] dest: item_items_cnt)

lemma enumerate_reqs:
  "0 < n \<Longrightarrow> concat (map item_reqs (map (\<lambda>(i, r). I_loop f i r 0) (enumerate n body))) = body"
  by (induction body arbitrary: n) auto

lemma item_items_reqs: "item_ok it \<Longrightarrow> concat (map item_reqs (item_items it)) = item_requests it"
proof (cases it)
  case (Frep f body)
  assume "item_ok it"
  then obtain r body' where "body = r # body'" using Frep by (cases body) auto
  then show ?thesis using Frep enumerate_reqs [of 1 f body'] by simp
qed simp_all

lemma prog_reqs: "list_all item_ok prog \<Longrightarrow> reqs_left (works_items (prog_works prog)) False = seq_requests prog"
  by (induction prog)
    (auto simp: reqs_left_def works_items_append item_works_items item_items_reqs seq_requests_def
      works_items_def [of "[]"])

subsection \<open>Whole runs\<close>

lemma start_tracks:
  assumes "list_all item_ok prog"
  shows "seq_tracks prog (seq_requests prog, seq_started r0) (prog_works prog) 0 False"
proof -
  have "\<forall>w\<in>set (tl (prog_works prog)). work_pos w = 0"
    using prog_works_fresh by (metis list.set_sel(2) list.sel(2))
  moreover have "works_pos (prog_works prog) = 0"
    using prog_works_fresh [of "hd (prog_works prog)" prog]
    by (cases "prog_works prog") (auto simp: works_pos_def)
  moreover have "config_fits (seq_started r0) (map item_tag (works_items (prog_works prog))) False"
    using prog_tags [OF assms] by (cases "map item_tag (works_items (prog_works prog))" rule: tag_starts.cases)
      (auto simp: seq_started_def seq_reset_def seq_stalled_inc_def seq_stalled_dec_def seq_init_def
        frep_config_init_def)
  moreover have "ring_holds (\<lambda>_. buffer_entry_init r0) 0 []"
    by (simp add: ring_holds_def buffer_entry_init_def)
  ultimately have "seq_sim (seq_started r0) (prog_works prog) 0 False"
    using prog_works_ok [OF assms] prog_tags [OF assms] prog_items_cnt [of _ prog]
    by (simp add: seq_sim_defs seq_started_def seq_reset_def seq_stalled_inc_def seq_stalled_dec_def
        seq_init_def slot_def SEQ_SIZE_def)
  moreover have "sq_out (seq_started r0) = []"
    by (simp add: seq_started_def seq_reset_def seq_stalled_inc_def seq_stalled_dec_def seq_init_def)
  ultimately show ?thesis
    using assms by (simp add: seq_tracks_def prog_reqs prog_works_todo)
qed

lemma tracks_end:
  assumes "seq_tracks prog (rs, s) ws m armed" and "rs = []"
  shows "m = length (works_items ws)" and "ws \<noteq> [] \<Longrightarrow> works_pos ws < m"
proof -
  have r: "reqs_left (drop m (works_items ws)) armed = []"
    "config_fits s (map item_tag (drop m (works_items ws))) armed"
    "m \<le> length (works_items ws)" "list_all work_ok ws"
    using assms by (simp_all add: seq_tracks_def seq_sim_defs)
  have "drop m (works_items ws) = []"
  proof (cases "drop m (works_items ws)")
    case (Cons it its)
    then show ?thesis using r(1,2) by (cases it) (auto simp: reqs_left_def Let_def split: if_splits)
  qed
  then show m: "m = length (works_items ws)" using r(3) by simp
  show "ws \<noteq> [] \<Longrightarrow> works_pos ws < m" using works_pos_nth [OF r(4)] m by simp
qed

lemma tracks_done:
  assumes "seq_tracks prog (rs, s) ws m armed" and "rs = []" and "sq_nb_entries s = 0 \<or> works_todo ws = []"
  shows "ws = []" and "sq_out s = seq_unroll prog" and "sq_nb_entries s = 0"
proof -
  have ok: "list_all work_ok ws" "sq_nb_entries s = int m" "sq_out s @ works_todo ws = seq_unroll prog"
    using assms(1) by (simp_all add: seq_tracks_def seq_sim_defs)
  show ws: "ws = []"
  proof (rule ccontr)
    assume "ws \<noteq> []"
    then have "0 < m" using tracks_end(2) [OF assms(1,2)] by linarith
    moreover have "works_todo ws \<noteq> []"
      using \<open>ws \<noteq> []\<close> ok(1) by (cases ws) (auto simp: works_todo_def dest: work_todo_not_Nil)
    ultimately show False using assms(3) ok(2) by simp
  qed
  show "sq_out s = seq_unroll prog" using ok(3) ws by (simp add: works_todo_def)
  show "sq_nb_entries s = 0"
    using ok(2) tracks_end(1) [OF assms(1,2)] ws by (simp add: works_items_def)
qed

lemma seq_req_out_grows: "length (sq_out s) \<le> length (sq_out (seq_req r (s\<lparr>sq_acc_req_ready := b\<rparr>)))"
proof -
  have g: "sq_out (snd (seq_gen_entry r s)) = sq_out s" for s
    by (simp add: seq_gen_entry_def Let_def)
  have w: "sq_out (seq_write_entry e s) = sq_out s" for e s by (simp add: seq_write_entry_def)
  have d: "sq_out (seq_stalled_dec s) = sq_out s" for s by (simp add: seq_stalled_dec_def)
  show ?thesis
    by (simp add: seq_req_def Let_def case_prod_beta d w g) (simp add: seq_sync_def seq_frep_def)
qed

text \<open>A cycle in which the core offers and the subsystem is ready.\<close>

definition seq_round :: "seq_ev list" where
  "seq_round = [Seq_offer IO_REQ_OK, Seq_cycle IO_REQ_OK]"

lemma tracks_waiting_accepts:
  assumes "seq_tracks prog (r # rs, s) ws m armed" and "works_pos ws = m"
  shows "seq_accepts r IO_REQ_OK s"
proof -
  have sim: "seq_sim s ws m armed" and l: "reqs_left (drop m (works_items ws)) armed = r # rs"
    using assms(1) by (simp_all add: seq_tracks_def)
  have m: "sq_nb_entries s = int m" "list_all work_ok ws" using sim by (simp_all add: seq_sim_defs)
  have m16: "m < 16" using works_pos_16 [OF m(2)] assms(2) by simp
  show ?thesis
  proof (cases "m = 0")
    case True
    then show ?thesis using m by (simp add: seq_accepts_def seq_isEmpty_def seq_isFull_def SEQ_SIZE_def)
  next
    case False
    obtain it where it: "works_items ws ! m = it" "drop m (works_items ws) = it # drop (Suc m) (works_items ws)"
      by (rule seq_sim_next [OF sim l])
    obtain w rest where ws: "ws = w # rest" using False assms(2) by (cases ws) (auto simp: works_pos_def)
    then obtain f i body k where w: "w = W_outer f i body k m" "m < length body"
      using False assms(2) m(2) by (cases w) (auto simp: works_pos_def)
    then have "it = I_loop f (i + m) (body ! m) k"
      using it(1) by (simp add: ws works_items_Cons nth_append)
    moreover have "frep_sequenceable (body ! m)"
      using m(2) w by (auto simp: ws list_all_length)
    moreover have "config_fits s (map item_tag (drop m (works_items ws))) armed"
      using sim by (simp add: seq_sim_defs)
    ultimately have "frep_sequenceable r"
      using l False unfolding it(2) by (auto simp: reqs_left_def Let_def split: if_splits)
    then show ?thesis
      using m(1) m16 by (simp add: seq_accepts_def frep_sequenceable_def seq_isFull_def SEQ_SIZE_def)
  qed
qed

text \<open>An offer is taken, or an entry is ready to be issued.\<close>

lemma offer_progress:
  assumes "seq_tracks prog (rs, s) ws m armed" and "length rs + length (works_todo ws) \<le> Suc n"
  obtains ws1 m1 armed1 where "seq_tracks prog (seq_step (Seq_offer IO_REQ_OK) (rs, s)) ws1 m1 armed1"
    "length (fst (seq_step (Seq_offer IO_REQ_OK) (rs, s))) + length (works_todo ws1) \<le>
      (if works_pos ws1 < m1 then Suc n else n)"
proof (cases rs)
  case Nil
  then show ?thesis
    using that [of ws m armed] assms tracks_end(2) [OF assms(1) Nil]
    by (cases "ws = []") (auto simp: works_todo_def)
next
  case (Cons r rs')
  let ?sys = "seq_step (Seq_offer IO_REQ_OK) (r # rs', s)"
  show ?thesis
  proof (cases "seq_accepts r IO_REQ_OK s")
    case True
    then have f: "fst ?sys = rs'" by (simp add: step_offer_eq del: seq_step.simps)
    obtain ws1 m1 armed1 where o: "seq_tracks prog ?sys ws1 m1 armed1"
      using offer_tracks assms(1) unfolding Cons by blast
    have t: "sq_out s @ works_todo ws = sq_out (snd ?sys) @ works_todo ws1"
      using assms(1) o by (simp add: seq_tracks_def)
    have "length (sq_out s) \<le> length (sq_out (snd ?sys))"
      by (auto simp: step_offer_eq Let_def seq_req_out_grows simp del: seq_step.simps)
    then have "length (works_todo ws1) \<le> length (works_todo ws)"
      using arg_cong [OF t, of length] by simp
    then show ?thesis using that [of ws1 m1 armed1] o assms(2) f unfolding Cons by simp
  next
    case False
    have sys: "?sys = (rs, s\<lparr>sq_acc_req_ready := False\<rparr>)"
      using False by (simp add: Cons step_offer_eq del: seq_step.simps)
    have "works_pos ws \<noteq> m" using tracks_waiting_accepts assms(1) False unfolding Cons by blast
    moreover have "works_pos ws \<le> m" using assms(1) by (simp add: seq_tracks_def seq_sim_defs)
    moreover have "seq_tracks prog ?sys ws m armed"
      using assms(1) unfolding sys by (simp add: seq_tracks_def)
    ultimately show ?thesis
      using that [of ws m armed] assms(2) sys unfolding Cons by (simp del: seq_step.simps)
  qed
qed

lemma round_progress:
  assumes "seq_tracks prog (rs, s) ws m armed" and "length rs + length (works_todo ws) \<le> Suc n"
  shows "\<exists>ws' m' armed'. seq_tracks prog (seq_run seq_round (rs, s)) ws' m' armed' \<and>
    length (fst (seq_run seq_round (rs, s))) + length (works_todo ws') \<le> n"
proof -
  obtain ws1 m1 armed1 where o: "seq_tracks prog (seq_step (Seq_offer IO_REQ_OK) (rs, s)) ws1 m1 armed1"
    and le: "length (fst (seq_step (Seq_offer IO_REQ_OK) (rs, s))) + length (works_todo ws1) \<le>
      (if works_pos ws1 < m1 then Suc n else n)"
    by (rule offer_progress [OF assms])
  obtain rs1 s1 where sys: "seq_step (Seq_offer IO_REQ_OK) (rs, s) = (rs1, s1)" by fastforce
  have run: "seq_run seq_round (rs, s) = seq_step (Seq_cycle IO_REQ_OK) (rs1, s1)"
    unfolding seq_run_def seq_round_def by (simp add: sys del: seq_step.simps)
  obtain ws2 m2 where c: "seq_tracks prog (seq_step (Seq_cycle IO_REQ_OK) (rs1, s1)) ws2 m2 armed1"
    "works_pos ws1 < m1 \<Longrightarrow> length (works_todo ws1) = Suc (length (works_todo ws2))"
    "\<not> works_pos ws1 < m1 \<Longrightarrow> ws2 = ws1"
    by (rule cycle_tracks [OF o [unfolded sys], of IO_REQ_OK]) auto
  have "length rs1 + length (works_todo ws2) \<le> n"
    using le c(2,3) by (cases "works_pos ws1 < m1") (auto simp: sys)
  moreover have "fst (seq_step (Seq_cycle IO_REQ_OK) (rs1, s1)) = rs1" by simp
  ultimately show ?thesis unfolding run using c(1) by metis
qed

lemma rounds_finish:
  assumes "seq_tracks prog (rs, s) ws m armed" and "length rs + length (works_todo ws) \<le> n"
    and "(rs', s') = seq_run (concat (replicate n seq_round)) (rs, s)"
  shows "rs' = [] \<and> sq_nb_entries s' = 0 \<and> sq_out s' = seq_unroll prog"
  using assms
proof (induction n arbitrary: rs s ws m armed)
  case 0
  then have "rs' = []" "works_todo ws = []" "seq_tracks prog (rs', s') ws m armed"
    by (simp_all add: seq_run_def)
  then show ?case using tracks_done by blast
next
  case (Suc n)
  obtain rs1 s1 where r: "seq_run seq_round (rs, s) = (rs1, s1)" by fastforce
  have "(rs', s') = seq_run (concat (replicate n seq_round)) (rs1, s1)"
    using Suc.prems(3) r by (simp add: seq_run_def)
  then show ?case using round_progress [OF Suc.prems(1,2)] Suc.IH [of rs1 s1] unfolding r by auto
qed

lemma cycles_issue:
  assumes "seq_tracks prog ([], s) ws m armed"
  shows "sq_out (snd (seq_run (replicate n (Seq_cycle IO_REQ_OK)) ([], s))) =
    take (length (sq_out s) + n) (seq_unroll prog)"
  using assms
proof (induction n arbitrary: s ws m)
  case 0
  then show ?case by (auto simp: seq_run_def seq_tracks_def dest: sym)
next
  case (Suc n)
  obtain s1 where st: "seq_step (Seq_cycle IO_REQ_OK) ([], s) = ([], s1)" by simp
  have u: "sq_out s @ works_todo ws = seq_unroll prog" using Suc.prems by (simp add: seq_tracks_def)
  obtain ws1 m1 where c: "seq_tracks prog ([], s1) ws1 m1 armed"
    "works_pos ws < m \<Longrightarrow> sq_out s1 = sq_out s @ [hd (works_todo ws)]"
    "\<not> works_pos ws < m \<Longrightarrow> ws1 = ws"
    by (rule cycle_tracks [OF Suc.prems, of IO_REQ_OK]) (auto simp: st simp del: seq_step.simps)
  have u1: "sq_out s1 @ works_todo ws1 = seq_unroll prog" using c(1) by (simp add: seq_tracks_def)
  have "take (length (sq_out s1) + n) (seq_unroll prog) = take (length (sq_out s) + Suc n) (seq_unroll prog)"
  proof (cases "ws = []")
    case True
    then have "works_todo ws = []" "ws1 = ws"
      using c(3) tracks_end(1) [OF Suc.prems] by (auto simp: works_todo_def works_items_def)
    then show ?thesis using u u1 by auto
  next
    case False
    then show ?thesis using c(2) tracks_end(2) [OF Suc.prems] by simp
  qed
  then show ?case
    using Suc.IH [OF c(1)] by (simp add: seq_run_def st del: seq_step.simps)
qed

lemma requests_shrink: "length (fst (seq_run evs sys)) \<le> length (fst sys)"
proof (induction evs arbitrary: sys)
  case (Cons ev evs)
  have "length (fst (seq_step ev sys)) \<le> length (fst sys)"
    by (cases "(ev, sys)" rule: seq_step.cases) (auto simp: Let_def split: prod.splits)
  then show ?case using Cons.IH [of "seq_step ev sys"] by (simp add: seq_run_def)
qed (simp add: seq_run_def)

subsection \<open>An example\<close>

text \<open>
  A loop of two instructions done three times as a block, the destination and the first source register
  staggered by one, then a single instruction.
\<close>

definition seq_ex_req :: "u32 \<Rightarrow> bool \<Rightarrow> offload_req" where
  "seq_ex_req pc frep = \<lparr>or_pc = pc, or_insn = \<lparr>in_opcode = 0, in_tag_frep = frep, in_tag_nseq = False,
     in_is_outer = frep, in_max_rpt = 2, in_uim = (\<lambda>i. if i = 0 then 3 else 1), in_out_regs = (\<lambda>_. 4),
     in_in_regs = (\<lambda>_. 8),
     in_decoder_args = [\<lparr>da_type = ISS_DECODER_ARG_TYPE_OUT_REG, da_freg = True, da_id = 0\<rparr>],
     in_args = (\<lambda>_. 4)\<rparr>, or_is_write = True, or_frm = 0, or_fmode = 0\<rparr>"

definition seq_ex :: "prog_item list" where
  "seq_ex = [Frep (seq_ex_req 0 True) [seq_ex_req 4 False, seq_ex_req 8 False], Single (seq_ex_req 12 False)]"

definition seq_ex_start :: seq_system where
  "seq_ex_start = (seq_requests seq_ex, seq_started (seq_ex_req 0 True))"

lemma seq_ex_ok: "list_all item_ok seq_ex"
  by code_simp

lemma seq_ex_lengths: "length (seq_requests seq_ex) = 4" "length (seq_unroll seq_ex) = 7"
  by code_simp+

text \<open>The core has sent all four requests.\<close>

lemma seq_ex_sent:
  obtains s where "seq_run (replicate 4 (Seq_offer IO_REQ_OK)) seq_ex_start = ([], s)"
proof -
  have "fst (seq_run (replicate 4 (Seq_offer IO_REQ_OK)) seq_ex_start) = []" by code_simp
  then show ?thesis using that by (metis prod.collapse)
qed

subsection \<open>What the sequencer promises\<close>

text \<open>
  C32. Whatever the order of the core's offers and the cycles and whatever the subsystem answers, what the
  sequencer has issued is the beginning of the unrolled program: each loop's instructions repeated one by
  one or as a block, their registers staggered. When the core has sent everything and the buffer is empty, it
  is all of it.
\<close>

theorem seq_unrolls:
  assumes "list_all item_ok prog" and "seq_run evs (seq_requests prog, seq_started r0) = (rs, s)"
  shows "prefix (sq_out s) (seq_unroll prog) \<and>
    (rs = [] \<and> sq_nb_entries s = 0 \<longrightarrow> sq_out s = seq_unroll prog)"
proof -
  obtain ws m armed where t: "seq_tracks prog (rs, s) ws m armed"
    using run_tracks [OF start_tracks [OF assms(1)], of evs r0] assms(2) by auto
  then have "prefix (sq_out s) (seq_unroll prog)"
    unfolding prefix_def seq_tracks_def by (intro exI [of _ "works_todo ws"]) simp
  then show ?thesis using tracks_done(2) [OF t] by auto
qed

theorem seq_unrolls_witness:
  "prefix (sq_out (snd (seq_run (concat (replicate 3 seq_round)) seq_ex_start))) (seq_unroll seq_ex)"
  using seq_unrolls [OF seq_ex_ok surjective_pairing, where evs = "concat (replicate 3 seq_round)"
      and ?r0.0 = "seq_ex_req 0 True"]
  by (simp add: seq_ex_start_def)

text \<open>
  C33. From any state of a program under way, a core that keeps offering its instructions and a subsystem
  that is ready get the whole of it issued and the buffer empty, within as many cycles as there are
  instructions to send and to issue: the sequencer never blocks, not even on a loop of sixteen
  instructions.
\<close>

theorem seq_completes:
  assumes "list_all item_ok prog" and "length (seq_requests prog) + length (seq_unroll prog) \<le> n"
    and "seq_run (evs @ concat (replicate n seq_round)) (seq_requests prog, seq_started r0) = (rs, s)"
  shows "rs = [] \<and> sq_nb_entries s = 0 \<and> sq_out s = seq_unroll prog"
proof -
  obtain rs1 s1 where r: "seq_run evs (seq_requests prog, seq_started r0) = (rs1, s1)" by fastforce
  then obtain ws m armed where t: "seq_tracks prog (rs1, s1) ws m armed"
    using run_tracks [OF start_tracks [OF assms(1)], of evs r0] by auto
  have "length rs1 \<le> length (seq_requests prog)"
    using requests_shrink [of evs "(seq_requests prog, seq_started r0)"] r by simp
  moreover have "length (works_todo ws) \<le> length (seq_unroll prog)"
    using t unfolding seq_tracks_def by (metis le_add2 length_append)
  ultimately have "length rs1 + length (works_todo ws) \<le> n" using assms(2) by linarith
  moreover have "(rs, s) = seq_run (concat (replicate n seq_round)) (rs1, s1)"
    using assms(3) r by (simp add: seq_run_def)
  ultimately show ?thesis by (rule rounds_finish [OF t])
qed

theorem seq_completes_witness:
  "sq_out (snd (seq_run (concat (replicate 11 seq_round)) seq_ex_start)) = seq_unroll seq_ex"
  using seq_completes [OF seq_ex_ok, of 11 "[]" "seq_ex_req 0 True"] seq_ex_lengths
  by (simp add: seq_ex_start_def [symmetric] prod_eq_iff)

text \<open>Once the core has sent the whole program, each cycle in which the subsystem is ready issues one
  instruction, until all are issued.\<close>

theorem seq_one_per_cycle:
  assumes "list_all item_ok prog" and "seq_run evs (seq_requests prog, seq_started r0) = ([], s)"
  shows "sq_out (snd (seq_run (replicate n (Seq_cycle IO_REQ_OK)) ([], s))) =
    take (length (sq_out s) + n) (seq_unroll prog)"
proof -
  obtain ws m armed where "seq_tracks prog ([], s) ws m armed"
    using run_tracks [OF start_tracks [OF assms(1)], of evs r0] assms(2) by auto
  then show ?thesis by (rule cycles_issue)
qed

subsection \<open>A reset\<close>

lemma reset_tracks:
  assumes "seq_tracks prog ([], s) ws m armed"
  shows "seq_tracks prog ([], seq_reset False (seq_reset True s)) ws m armed"
proof -
  let ?s = "seq_reset False (seq_reset True s)"
  have s: "?s = s\<lparr>sq_stalled := False, sq_enabled := True\<rparr>"
    by (simp add: seq_reset_def seq_stalled_inc_def seq_stalled_dec_def)
  have core: "seq_core s ws m armed" using assms by (simp add: seq_tracks_def seq_sim_def)
  then have "seq_core ?s ws m armed"
    unfolding s by (cases "map item_tag (drop m (works_items ws))" rule: tag_starts.cases)
      (auto simp: seq_core_def)
  moreover have "0 < m \<longrightarrow> works_pos ws < m"
    using tracks_end [OF assms] by (cases "ws = []") (simp_all add: works_items_def)
  ultimately have "seq_sim ?s ws m armed" by (simp add: seq_sim_def s)
  then show ?thesis using assms by (simp add: seq_tracks_def s)
qed

text \<open>
  C34. A reset does not empty the buffer: the rest of the program sent before it, its loops with all the
  iterations that are left, is issued after the reset, one instruction per cycle.
\<close>

theorem seq_reset_goes_on:
  assumes "list_all item_ok prog" and "seq_run evs (seq_requests prog, seq_started r0) = ([], s)"
  shows "sq_out (snd (seq_run (replicate n (Seq_cycle IO_REQ_OK)) ([], seq_reset False (seq_reset True s)))) =
    take (length (sq_out s) + n) (seq_unroll prog)"
proof -
  obtain ws m armed where "seq_tracks prog ([], s) ws m armed"
    using run_tracks [OF start_tracks [OF assms(1)], of evs r0] assms(2) by auto
  from cycles_issue [OF reset_tracks [OF this], of n] show ?thesis
    by (simp add: seq_reset_def seq_stalled_inc_def seq_stalled_dec_def)
qed

theorem seq_reset_goes_on_witness:
  "\<exists>s. seq_run (replicate 4 (Seq_offer IO_REQ_OK)) seq_ex_start = ([], s) \<and>
    sq_out (snd (seq_run (replicate 7 (Seq_cycle IO_REQ_OK)) ([], seq_reset False (seq_reset True s)))) =
      seq_unroll seq_ex"
proof -
  obtain s where s: "seq_run (replicate 4 (Seq_offer IO_REQ_OK)) seq_ex_start = ([], s)"
    by (rule seq_ex_sent)
  have "sq_out (snd (seq_run (replicate 7 (Seq_cycle IO_REQ_OK)) ([], seq_reset False (seq_reset True s)))) =
      seq_unroll seq_ex"
    using seq_reset_goes_on [OF seq_ex_ok s [unfolded seq_ex_start_def], of 7] seq_ex_lengths by simp
  then show ?thesis using s by blast
qed

end
