(* ===== verification/Spec2Isabelle.thy ===== *)
theory Spec2Isabelle
  imports Prelude Event_Fifo Timer Itc Event_Unit Event_Unit_Core Event_Unit_Sync Event_Unit_Wake
    Event_Unit_Barrier Event_Unit_Mutex Event_Unit_Dispatch Event_Unit_Soc Soc_Eu L1_Interleaver
    Cluster_Ctrl Gpio Fractal_Sync Fractal_Sync_Rendezvous Idma_Me
    Idma_Me_Lines Idma_Me_Nd Idma_Be Idma_Be_Bursts Idma_Be_Data Idma_Proto Idma_Tcdm
    Idma_Tcdm_Lines Idma_Axi Idma_Axi_Bursts Idma_Consumer Idma_Copy Idma_Copy_Steps Idma_Copy_Correct
    Idma_Copy_Faults Idma_Fe_Nd Idma_Fe_Nd_Ids Idma_Fe Idma_Fe_Slot Idma_Fe_Runs Idma_Front Floonoc Floonoc_Route
    Floonoc_Flow Floonoc_Turn Floonoc_Mesh Floonoc_Ni Floonoc_Ni_Split Floonoc_Ni_Turns Floonoc_Ni_Runs
    Floonoc_Ni_Live Floonoc_Ni_Reads Floonoc_Ni_Stuck Obi_Cut Obi_Cut_Runs Obi_Cut_Timing Obi_Cut_Delay
    Interco_Mask Interco Interco_Runs Interco_Fair
    Snitch_Seq Snitch_Seq_Loops Snitch_Seq_Entries Snitch_Seq_Runs Snitch_Seq_Correct Snitch_Seq_Program
begin

text \<open>
  This library models peripherals of the PULP platforms as the GVSoC simulator implements them in C++
  and proves what they do. A component of the simulator is a class with its state in members, handlers
  that other components call through ports, and clock events whose handlers the engine runs later.

  \<^bold>\<open>How the code is modelled.\<close> The members of a class are a \<open>record\<close>, with a prefix per class (\<open>c_\<close> for
  \<open>Core_event_unit\<close>, \<open>d_\<close> for \<open>Dispatch\<close>); a method is a definition of the same name that takes the state and
  returns it updated; early returns and refusals are branches, a status of type \<open>io_status\<close> or an
  \<open>option\<close>. Integers are words of the width of the code where they wrap (\<open>u32\<close>, \<open>u64\<close>). Calls on ports are
  recorded in the order they are made, or are messages delivered after the handler. An event of the
  engine is a flag or a cycle count in the state; the handler is a step that runs later. Components
  that are not modelled (cores, memories, the engine) are arguments, and properties over runs let them
  act in any order.

  \<^bold>\<open>The parts\<close>, with the source under \<open>src/pulp\<close>.

  \<^item> \<open>Prelude\<close>: word types, bit tests, circular buffers. \<open>Event_Fifo\<close>: the contracts of a bounded queue of
    events and of a unit around one, whose operations come in any order (two locales); \<open>Itc\<close> and
    \<open>Event_Unit_Soc\<close> interpret both on their own buffers and steps.
  \<^item> \<open>Timer\<close> (\<open>timer/timer_v2_impl.cpp\<close>): lazily counted 32-bit and cascaded 64-bit counters. Catching up equals
    ticking, where a tick is written without the operations of the code; without the prescaler the clock
    event is enqueued for the cycle of the match, and the interrupt is raised then and not before.
  \<^item> \<open>Itc\<close> (\<open>itc/itc_v1_impl.cpp\<close>): the interrupt controller of the fabric controller. The value last sent to
    the core is the highest pending and enabled interrupt; between resets the event queue is in order.
  \<^item> \<open>Event_Unit\<close>, \<open>Event_Unit_Sync\<close> (\<open>event_unit/eu_v3_impl.cpp\<close>): the whole state of the event unit and its
    operations; the cores' units and the SoC event queue in the first, mutexes, dispatch, barriers and
    the two ports in the second. \<open>Event_Unit_Core\<close>: the recursion of \<open>check_state\<close> ends, triggering is
    pointwise. \<open>Event_Unit_Wake\<close>: no clock-gated core loses its wake-up, in runs that keep three rules
    (\<open>eu_op_ok\<close>), and what happens when a push breaks one. \<open>Event_Unit_Barrier\<close>: a round of a barrier.
    \<open>Event_Unit_Mutex\<close>: a lock with waiters, served in the order of their numbers. \<open>Event_Unit_Dispatch\<close>: a queue
    per core, and a core that waits for it. \<open>Event_Unit_Soc\<close>: the queue of SoC events and the event it raises.
  \<^item> \<open>Soc_Eu\<close> (\<open>soc_eu/soc_eu_v2_impl.cpp\<close>): masks that route SoC events to three targets.
  \<^item> \<open>L1_Interleaver\<close> (\<open>cluster/l1_interleaver_impl.cpp\<close>): addresses and pairs of a bank and an offset in it
    correspond one to one, and the debug path agrees with the timed one.
  \<^item> \<open>Cluster_Ctrl\<close> (\<open>cluster/cluster_ctrl_v2_impl.cpp\<close>), \<open>Gpio\<close> (\<open>gpio/gpio_v3_impl.cpp\<close>): cross-triggered halts; edge
    interrupts.
  \<^item> \<open>Fractal_Sync\<close> (\<open>chips/magia_common/fractal_sync/\<close>): a node of the synchronisation tree;
    \<open>Fractal_Sync_Rendezvous\<close>: for the requests of its own level it implements a table of waiting requests.
  \<^item> \<open>Idma_Me\<close> (\<open>idma/me/\<close>): the 2D and 3D middle-ends of the DMA. \<open>Idma_Me_Lines\<close> proves the walk over the lines
    of a transfer once, in the locale \<open>line_source\<close>; \<open>Idma_Me_Nd\<close> interprets it on both state machines.
  \<^item> \<open>Idma_Be\<close> (\<open>idma/be/\<close>): the back-end. \<open>Idma_Be_Bursts\<close>: locale \<open>burst_protocol\<close>, interpreted on the TCDM and
    AXI sizes, and \<open>be_protocols\<close>; \<open>Idma_Be_Data\<close>: the cut into bursts and the routing of the data.
  \<^item> \<open>Idma_Tcdm\<close>, \<open>Idma_Axi\<close> (\<open>idma/be/idma_be_tcdm.cpp\<close>, \<open>idma_be_axi.cpp\<close>): the two protocols, every operation. What
    the back-end relies on is stated in \<open>Idma_Proto\<close> as the locales \<open>idma_reader\<close> and \<open>idma_writer\<close> (bytes are
    pushed in order, writes go to their addresses, acknowledgements add up); \<open>Idma_Tcdm_Lines\<close> and
    \<open>Idma_Axi_Bursts\<close> interpret them, \<open>Idma_Consumer\<close> interprets them for either protocol.
  \<^item> \<open>Idma_Copy\<close> (\<open>idma/pulp_open_dma.cpp\<close>): the back-end with four protocols. \<open>Idma_Copy_Steps\<close>: the invariant of
    one transfer; \<open>Idma_Copy_Correct\<close>: a transfer is a copy, with every byte accounted for and its end told
    once; \<open>Idma_Copy_Faults\<close>: runs outside its assumptions that swap data.
  \<^item> \<open>Idma_Fe_Nd\<close> (\<open>idma/fe/idma_fe_reg32_3d.cpp\<close>): the register front-end with streams. \<open>Idma_Fe_Nd_Ids\<close>: order of
    the launched transfers and identifiers. \<open>Idma_Fe\<close>: the three single-slot front-ends (\<open>idma_fe_reg.cpp\<close>,
    \<open>_xdma.cpp\<close>, \<open>_cheshire.cpp\<close>); \<open>Idma_Fe_Slot\<close>: their common contract, the locale \<open>slot_front_end\<close>;
    \<open>Idma_Fe_Runs\<close>: its interpretations. \<open>Idma_Front\<close>: the front-end with streams and the 3D middle-end together.
  \<^item> \<open>Floonoc\<close> (\<open>floonoc/floonoc_router.cpp\<close>, \<open>floonoc.cpp\<close>): the mesh of routers. \<open>Floonoc_Route\<close>: the routes;
    \<open>Floonoc_Flow\<close>, \<open>Floonoc_Turn\<close>: the effect of the calls and of a turn; \<open>Floonoc_Mesh\<close>: the runs.
  \<^item> \<open>Floonoc_Ni\<close> (\<open>floonoc/floonoc_network_interface.cpp\<close>): the network interfaces. \<open>Floonoc_Ni_Split\<close>: a burst is
    tiled by its requests; \<open>Floonoc_Ni_Turns\<close>, \<open>Floonoc_Ni_Runs\<close>, \<open>Floonoc_Ni_Live\<close>: the invariant, the turn and the
    runs; \<open>Floonoc_Ni_Reads\<close>: a read from the initiator to its answer; \<open>Floonoc_Ni_Stuck\<close>: unmapped bursts.
  \<^item> \<open>Obi_Cut\<close> (\<open>chips/magia_common/obi_cut/\<close>): a register slice with denials and retries on both sides.
    \<open>Obi_Cut_Runs\<close>: nothing is lost or repeated; \<open>Obi_Cut_Timing\<close>: the turn that is due is enqueued;
    \<open>Obi_Cut_Delay\<close>: in a calm environment it is a delay line, and what a retry does to it.
  \<^item> \<open>Interco_Mask\<close>, \<open>Interco\<close> (\<open>chips/magia_common/tcdm_interco/\<close>): the bit sets and the crossbar of the TCDM.
    \<open>Interco_Runs\<close>: the effect of a request and of a turn of the arbiter; \<open>Interco_Fair\<close>: one request per
    bank and cycle, fair round robin, and the addresses, which are those of \<open>L1_Interleaver\<close>.
  \<^item> \<open>Snitch_Seq\<close> (\<open>snitch/sequencer.cpp\<close>): the sequencer between an integer core and its floating-point
    subsystem. \<open>Snitch_Seq_Loops\<close>: programs with loops, what they unroll to, and the work left of one under
    way; \<open>Snitch_Seq_Entries\<close>: the code on one entry of the ring; \<open>Snitch_Seq_Runs\<close>: the simulation relation;
    \<open>Snitch_Seq_Correct\<close>: every operation keeps it; \<open>Snitch_Seq_Program\<close>: a program is issued unrolled, all of it.

  \<^bold>\<open>How they interact.\<close> SoC events come from \<open>Soc_Eu\<close> and are queued by \<open>Itc\<close> and the event unit. The timer and
  the GPIO raise lines that are events of those. Within the event unit, the synchronisation units act
  on the cores only through \<open>eu_trigger_event\<close>, \<open>eu_wait_event\<close> and the parked requests, and the SoC queue
  through \<open>eu_send_event\<close>. The DMA's front-end gives transfers to the middle-end while it has room, and the
  middle-end calls its \<open>update\<close> and \<open>ack_transfer\<close> back: \<open>Idma_Front\<close> runs both. The middle-end hands lines to the
  back-end when \<open>be_can_accept_transfer\<close>, and the back-end answers with \<open>ack_transfer\<close>. The back-end and its
  protocols call each other: in \<open>Idma_Copy\<close> a turn of a protocol records its calls and they are executed
  after it, in order. The network interfaces hand their requests to the mesh, which
  carries each to the interface at its destination (\<open>floonoc_delivers\<close>); that a network interface sends only
  while it is not stalled is \<open>nq_check\<close>, and the rule by which the runs of the mesh inject requests.

  \<^bold>\<open>Bounds.\<close> \<open>eu_check_state\<close> runs the mutual recursion with a depth of the number of cores plus two: each
  nested call wakes another core, so a greater depth changes nothing (\<open>eu_check_state_terminates\<close>).
  \<open>dispatch_skip\<close> takes at most one turn per entry of the buffer. \<open>fs_run\<close> needs three turns per request and
  one more. The middle-end empties in as many ready turns as there are lines, the back-end in at most
  as many free turns as there are bytes. A route is as long as the distance in the grid. The scan of a
  router's turn visits its five queues once. Splitting a burst takes at most one round per byte: the
  size is the fuel, and with a positive width it is never used up (\<open>floonoc_ni_split\<close>). A transfer of the
  DMA's copy is below 2 GB, since its acknowledgements are counted in an \<open>int\<close>; cycle counts are
  unbounded integers. A loop of the sequencer has at most sixteen instructions, the size of its ring, and
  no \<open>frep\<close> comes before the instructions of the last one have all been sent; a program is issued in as
  many cycles as it has requests and unrolled instructions. \<open>fn_check_pending_queue\<close> takes at most as many transfers as the middle-end has room for.

  \<^bold>\<open>Not modelled.\<close> Traces, signals and statistics; the delays inside the engine's queues (a parameter where
  they matter). A data buffer of the DMA goes with its bytes, so that a buffer reused before its
  acknowledgement is not seen; a fatal error of the simulator is \<open>None\<close>, the end of the run. What the engine
  resets by itself (registers declared with a reset value) is not part of the reset operations. The
  processor cores and the engine are not in the repository: of a decoded instruction the sequencer's model
  has the fields the code reads. The accelerators are numerical datapaths; \<open>neureka\<close> and \<open>ne16\<close> are built on a
  vendored array library. The caches of Snitch, mempool and teranoc, the uDMA, pads, the debug unit, bridges, and the
  copies of these peripherals under \<open>chips\<close> and \<open>models\<close> are left out; the manifest gives the reasons.
\<close>

end
